(* ===== verification/Prelude.thy ===== *)
theory Prelude
  imports Main "HOL-Library.Word" "HOL-Library.Multiset"
begin

text \<open>
  Shared vocabulary of the development: type synonyms for the C types the code uses,
  collections of theorems that several components draw on, and generic lemmas on lists and
  options that no component owns.

  C integers whose wrap-around matters are kept as words (\<open>u8\<close>, \<open>u16\<close>, \<open>u32\<close>, \<open>u64\<close>); sequence
  numbers and byte offsets whose range the code bounds beforehand are \<open>nat\<close>, and each theory
  says where that is the case.
\<close>

type_synonym u8 = "8 word"
type_synonym u16 = "16 word"
type_synonym u32 = "32 word"
type_synonym u64 = "64 word"

text \<open>\<open>seqno_t\<close> of core/ddsi (a \<open>uint64_t\<close>; valid ones are below \<open>2^63\<close>, so \<open>seq + 1\<close> never wraps).\<close>

type_synonym seqno = nat

definition MAX_SEQ_NUMBER :: seqno where
  "MAX_SEQ_NUMBER = 2 ^ 63 - 1"

named_theorems wf_intros \<open>introduction rules for the well-formedness invariants\<close>
named_theorems wf_simps \<open>unfolding rules for the well-formedness invariants\<close>

section \<open>First and last element as options\<close>

text \<open>The code's searches return a pointer or \<open>NULL\<close>; the model returns an option.\<close>

fun first_opt :: "'a list \<Rightarrow> 'a option" where
  "first_opt [] = None"
| "first_opt (x # xs) = Some x"

fun last_opt :: "'a list \<Rightarrow> 'a option" where
  "last_opt [] = None"
| "last_opt [x] = Some x"
| "last_opt (x # y # ys) = last_opt (y # ys)"

lemma first_opt_None [simp]: "first_opt xs = None \<longleftrightarrow> xs = []"
  by (cases xs) auto

lemma last_opt_None [simp]: "last_opt xs = None \<longleftrightarrow> xs = []"
  by (induction xs rule: last_opt.induct) auto

lemma last_opt_append [simp]:
  "last_opt (xs @ ys) = (if ys = [] then last_opt xs else last_opt ys)"
proof (induction xs rule: last_opt.induct)
  case (2 x)
  then show ?case by (cases ys) auto
qed auto

lemma first_opt_append [simp]:
  "first_opt (xs @ ys) = (if xs = [] then first_opt ys else first_opt xs)"
  by (cases xs) auto

lemma last_opt_Cons [simp]: "last_opt (x # xs) = (if xs = [] then Some x else last_opt xs)"
  by (cases xs) auto

lemma last_opt_ex [simp]: "(\<exists>y. last_opt xs = Some y) \<longleftrightarrow> xs \<noteq> []"
  by (metis last_opt_None not_None_eq)

lemma last_opt_SomeD: "last_opt xs = Some x \<Longrightarrow> \<exists>ys. xs = ys @ [x]"
  by (induction xs rule: last_opt.induct) auto

lemma first_opt_SomeD: "first_opt xs = Some x \<Longrightarrow> \<exists>ys. xs = x # ys"
  by (cases xs) auto

lemma last_opt_in_set: "last_opt xs = Some x \<Longrightarrow> x \<in> set xs"
  by (auto dest: last_opt_SomeD)

lemma first_opt_in_set: "first_opt xs = Some x \<Longrightarrow> x \<in> set xs"
  by (auto dest: first_opt_SomeD)

end
