(* ===== verification/Ordered_Index.thy ===== *)
theory Ordered_Index
  imports Prelude
begin

text \<open>
  The ordered index that the components of core/ddsi build from the AVL trees of
  src/ddsrt/src/avl.c: nodes with pairwise different keys, searched by key, walked in key order.
  The reference semantics is a list sorted strictly by key; every operation of
  dds/ddsrt/avl.h that the modelled components call has its counterpart here. The components
  are written over these operations. Theory \<open>Avl\<close> models the trees themselves and interprets
  the locale \<open>ordered_index\<close> below with them: what a component computes on the list is what it
  computes on the tree's in-order sequence.
\<close>

section \<open>The reference operations\<close>

definition idx_wf :: "('a \<Rightarrow> 'k::linorder) \<Rightarrow> 'a list \<Rightarrow> bool" where
  "idx_wf key xs \<longleftrightarrow> sorted_wrt (\<lambda>a b. key a < key b) xs"

definition idx_lookup :: "('a \<Rightarrow> 'k::linorder) \<Rightarrow> 'k \<Rightarrow> 'a list \<Rightarrow> 'a option" where
  "idx_lookup key k xs = first_opt (filter (\<lambda>x. key x = k) xs)"

definition idx_pred_eq :: "('a \<Rightarrow> 'k::linorder) \<Rightarrow> 'k \<Rightarrow> 'a list \<Rightarrow> 'a option" where
  "idx_pred_eq key k xs = last_opt (filter (\<lambda>x. key x \<le> k) xs)"

definition idx_succ_eq :: "('a \<Rightarrow> 'k::linorder) \<Rightarrow> 'k \<Rightarrow> 'a list \<Rightarrow> 'a option" where
  "idx_succ_eq key k xs = first_opt (filter (\<lambda>x. k \<le> key x) xs)"

definition idx_pred :: "('a \<Rightarrow> 'k::linorder) \<Rightarrow> 'k \<Rightarrow> 'a list \<Rightarrow> 'a option" where
  "idx_pred key k xs = last_opt (filter (\<lambda>x. key x < k) xs)"

definition idx_succ :: "('a \<Rightarrow> 'k::linorder) \<Rightarrow> 'k \<Rightarrow> 'a list \<Rightarrow> 'a option" where
  "idx_succ key k xs = first_opt (filter (\<lambda>x. k < key x) xs)"

fun idx_insert :: "('a \<Rightarrow> 'k::linorder) \<Rightarrow> 'a \<Rightarrow> 'a list \<Rightarrow> 'a list" where
  "idx_insert key x [] = [x]"
| "idx_insert key x (y # ys) = (if key x < key y then x # y # ys else y # idx_insert key x ys)"

definition idx_delete :: "('a \<Rightarrow> 'k::linorder) \<Rightarrow> 'k \<Rightarrow> 'a list \<Rightarrow> 'a list" where
  "idx_delete key k xs = filter (\<lambda>x. key x \<noteq> k) xs"

text \<open>Writing a field of the node with key \<open>k\<close> in place.\<close>

definition idx_update :: "('a \<Rightarrow> 'k::linorder) \<Rightarrow> 'k \<Rightarrow> 'a \<Rightarrow> 'a list \<Rightarrow> 'a list" where
  "idx_update key k y xs = map (\<lambda>x. if key x = k then y else x) xs"

lemmas idx_defs = idx_lookup_def idx_pred_eq_def idx_succ_eq_def idx_pred_def idx_succ_def
  idx_delete_def idx_update_def

section \<open>The shape of a sorted list around a key\<close>

lemma idx_wf_Nil [simp]: "idx_wf key []"
  by (simp add: idx_wf_def)

lemma idx_wf_append:
  "idx_wf key (xs @ ys) \<longleftrightarrow>
     idx_wf key xs \<and> idx_wf key ys \<and> (\<forall>x\<in>set xs. \<forall>y\<in>set ys. key x < key y)"
  by (simp add: idx_wf_def sorted_wrt_append)

lemma idx_wf_Cons [simp]:
  "idx_wf key (x # xs) \<longleftrightarrow> (\<forall>y\<in>set xs. key x < key y) \<and> idx_wf key xs"
  by (simp add: idx_wf_def)

lemma idx_split_at:
  assumes "idx_wf key xs" "x \<in> set xs"
  obtains l r where "xs = l @ x # r" "\<forall>y\<in>set l. key y < key x" "\<forall>y\<in>set r. key x < key y"
    "idx_wf key l" "idx_wf key r"
proof -
  from assms(2) obtain l r where "xs = l @ x # r" by (auto simp: in_set_conv_decomp)
  with assms(1) that show thesis by (auto simp: idx_wf_append)
qed

text \<open>A key splits the list: what is below it, the node at it (if any), what is above it.\<close>

lemma idx_split_key:
  assumes "idx_wf key xs"
  obtains l m r where "xs = l @ m @ r" "\<forall>y\<in>set l. key y < k" "\<forall>y\<in>set r. k < key y"
    "m = [] \<or> (\<exists>x. m = [x] \<and> key x = k)"
  using assms
proof (induction xs arbitrary: thesis)
  case Nil
  from Nil.prems(1) [of "[]" "[]" "[]"] show ?case by simp
next
  case (Cons x xs)
  from Cons.prems(2) have x: "\<forall>y\<in>set xs. key x < key y" and wf: "idx_wf key xs" by auto
  obtain l m r where d: "xs = l @ m @ r" "\<forall>y\<in>set l. key y < k" "\<forall>y\<in>set r. k < key y"
    "m = [] \<or> (\<exists>x. m = [x] \<and> key x = k)" using Cons.IH [OF _ wf] by blast
  consider "key x < k" | "key x = k" | "k < key x" by (rule linorder_cases)
  then show ?case
  proof cases
    case 1
    with d show ?thesis by (intro Cons.prems(1) [of "x # l" m r]) auto
  next
    case 2
    with x d have "\<forall>y\<in>set xs. k < key y" by auto
    with 2 show ?thesis by (intro Cons.prems(1) [of "[]" "[x]" xs]) auto
  next
    case 3
    with x have "\<forall>y\<in>set (x # xs). k < key y" by auto
    then show ?thesis by (intro Cons.prems(1) [of "[]" "[]" "x # xs"]) auto
  qed
qed

lemma filter_all: "\<forall>x\<in>set xs. P x \<Longrightarrow> filter P xs = xs"
  by simp

lemma filter_none: "\<forall>x\<in>set xs. \<not> P x \<Longrightarrow> filter P xs = []"
  by simp

lemma map_id_on: "\<forall>x\<in>set xs. f x = x \<Longrightarrow> map f xs = xs"
  by (induction xs) auto

section \<open>Each operation on a split list\<close>

lemma idx_at:
  assumes "\<forall>y\<in>set l. key y < key x" "\<forall>y\<in>set r. key x < key y"
  shows "idx_lookup key (key x) (l @ x # r) = Some x"
    and "idx_pred_eq key (key x) (l @ x # r) = Some x"
    and "idx_succ_eq key (key x) (l @ x # r) = Some x"
    and "idx_pred key (key x) (l @ x # r) = last_opt l"
    and "idx_succ key (key x) (l @ x # r) = first_opt r"
    and "idx_delete key (key x) (l @ x # r) = l @ r"
    and "idx_update key (key x) y (l @ x # r) = l @ y # r"
proof -
  have l: "\<forall>y\<in>set l. key y \<noteq> key x" "\<forall>y\<in>set l. key y \<le> key x" "\<forall>y\<in>set l. \<not> key x \<le> key y"
    "\<forall>y\<in>set l. \<not> key x < key y" and r: "\<forall>y\<in>set r. key y \<noteq> key x" "\<forall>y\<in>set r. key x \<le> key y"
    "\<forall>y\<in>set r. \<not> key y \<le> key x" "\<forall>y\<in>set r. \<not> key y < key x"
    using assms by (force simp: not_le less_imp_le)+
  note f = filter_all filter_none map_id_on
  show "idx_lookup key (key x) (l @ x # r) = Some x"
    using l(1) by (simp add: idx_lookup_def f)
  show "idx_pred_eq key (key x) (l @ x # r) = Some x"
    using r(3) by (simp add: idx_pred_eq_def f)
  show "idx_succ_eq key (key x) (l @ x # r) = Some x"
    using l(3) by (simp add: idx_succ_eq_def f)
  show "idx_pred key (key x) (l @ x # r) = last_opt l"
    using assms r(4) by (simp add: idx_pred_def f)
  show "idx_succ key (key x) (l @ x # r) = first_opt r"
    using assms l(4) by (simp add: idx_succ_def f)
  show "idx_delete key (key x) (l @ x # r) = l @ r"
    using l(1) r(1) by (simp add: idx_delete_def f)
  show "idx_update key (key x) y (l @ x # r) = l @ y # r"
    using l(1) r(1) by (simp add: idx_update_def f)
qed

lemma idx_gap:
  assumes "\<forall>y\<in>set l. key y < k" "\<forall>y\<in>set r. k < key y"
  shows "idx_lookup key k (l @ r) = None"
    and "idx_pred_eq key k (l @ r) = last_opt l"
    and "idx_succ_eq key k (l @ r) = first_opt r"
    and "idx_pred key k (l @ r) = last_opt l"
    and "idx_succ key k (l @ r) = first_opt r"
    and "idx_delete key k (l @ r) = l @ r"
proof -
  have l: "\<forall>y\<in>set l. key y \<noteq> k" "\<forall>y\<in>set l. key y \<le> k" "\<forall>y\<in>set l. \<not> k \<le> key y"
    "\<forall>y\<in>set l. \<not> k < key y" and r: "\<forall>y\<in>set r. key y \<noteq> k" "\<forall>y\<in>set r. k \<le> key y"
    "\<forall>y\<in>set r. \<not> key y \<le> k" "\<forall>y\<in>set r. \<not> key y < k"
    using assms by (force simp: not_le less_imp_le)+
  note f = filter_all filter_none
  show "idx_lookup key k (l @ r) = None"
    using l(1) r(1) by (simp add: idx_lookup_def f)
  show "idx_pred_eq key k (l @ r) = last_opt l"
    using l(2) r(3) by (simp add: idx_pred_eq_def f)
  show "idx_succ_eq key k (l @ r) = first_opt r"
    using l(3) r(2) by (simp add: idx_succ_eq_def f)
  show "idx_pred key k (l @ r) = last_opt l"
    using assms r(4) by (simp add: idx_pred_def f)
  show "idx_succ key k (l @ r) = first_opt r"
    using assms l(4) by (simp add: idx_succ_def f)
  show "idx_delete key k (l @ r) = l @ r"
    using l(1) r(1) by (simp add: idx_delete_def f)
qed

lemma idx_insert_gap:
  assumes "\<forall>y\<in>set l. key y < key x" "\<forall>y\<in>set r. key x < key y"
  shows "idx_insert key x (l @ r) = l @ x # r"
  using assms(1)
proof (induction l)
  case Nil
  from assms(2) show ?case by (cases r) auto
next
  case (Cons a l)
  then show ?case by (auto dest: less_not_sym)
qed

lemma idx_insert_wf:
  assumes "idx_wf key xs" "idx_lookup key (key x) xs = None"
  shows "idx_wf key (idx_insert key x xs)"
proof -
  obtain l m r where d: "xs = l @ m @ r" "\<forall>y\<in>set l. key y < key x" "\<forall>y\<in>set r. key x < key y"
    "m = [] \<or> (\<exists>z. m = [z] \<and> key z = key x)"
    using idx_split_key [OF assms(1), of "key x"] by blast
  have "m = []"
  proof (rule ccontr)
    assume "m \<noteq> []"
    with d(4) obtain z where z: "m = [z]" "key z = key x" by blast
    with d idx_at(1) [of l key z r] assms(2) show False by auto
  qed
  with d assms(1) show ?thesis by (auto simp: idx_insert_gap idx_wf_append)
qed

lemma idx_insert_set: "set (idx_insert key x xs) = insert x (set xs)"
  by (induction xs) auto

lemma idx_insert_mset: "mset (idx_insert key x xs) = add_mset x (mset xs)"
  by (induction xs) auto

lemma idx_delete_wf [simp]: "idx_wf key xs \<Longrightarrow> idx_wf key (idx_delete key k xs)"
  by (simp add: idx_wf_def idx_delete_def sorted_wrt_filter)

lemma idx_delete_set [simp]: "set (idx_delete key k xs) = {x \<in> set xs. key x \<noteq> k}"
  by (auto simp: idx_delete_def)

section \<open>What the searches find\<close>

lemma idx_lookup_SomeD: "idx_lookup key k xs = Some x \<Longrightarrow> x \<in> set xs \<and> key x = k"
  by (auto simp: idx_lookup_def dest!: first_opt_in_set)

lemma idx_lookup_None: "idx_lookup key k xs = None \<longleftrightarrow> (\<forall>x\<in>set xs. key x \<noteq> k)"
  by (auto simp: idx_lookup_def filter_empty_conv)

lemma idx_lookup_in:
  assumes "idx_wf key xs" "x \<in> set xs"
  shows "idx_lookup key (key x) xs = Some x"
  using assms by (rule idx_split_at) (auto simp: idx_at)

lemma idx_pred_eq_split:
  assumes "idx_wf key xs" "idx_pred_eq key k xs = Some p"
  obtains l r where "xs = l @ p # r" "key p \<le> k" "\<forall>y\<in>set l. key y < key p" "\<forall>y\<in>set r. k < key y"
proof -
  obtain l m r where d: "xs = l @ m @ r" "\<forall>y\<in>set l. key y < k" "\<forall>y\<in>set r. k < key y"
    "m = [] \<or> (\<exists>z. m = [z] \<and> key z = k)"
    using idx_split_key [OF assms(1)] by blast
  from d(4) show thesis
  proof
    assume m: "m = []"
    with d assms(2) have "last_opt l = Some p" by (simp add: idx_gap)
    then obtain l' where l': "l = l' @ [p]" by (auto dest: last_opt_SomeD)
    with d m assms(1) show thesis
      by (intro that [of l' r]) (auto simp: idx_wf_append less_imp_le)
  next
    assume "\<exists>z. m = [z] \<and> key z = k"
    then obtain z where z: "m = [z]" "key z = k" by blast
    with d assms(2) idx_at(2) [of l key z r] have "p = z" by auto
    with z d show thesis by (intro that [of l r]) auto
  qed
qed

lemma idx_pred_eq_None:
  assumes "idx_wf key xs" "idx_pred_eq key k xs = None"
  shows "\<forall>y\<in>set xs. k < key y"
  using assms by (auto simp: idx_pred_eq_def filter_empty_conv not_le)

lemma idx_succ_NoneD: "idx_succ key k xs = None \<Longrightarrow> \<forall>y\<in>set xs. key y \<le> k"
  by (auto simp: idx_succ_def filter_empty_conv not_less)

section \<open>The contract an implementation of the index promises\<close>

text \<open>
  \<open>inorder\<close> reads an index as its key-ordered list; \<open>inv\<close> is the implementation's invariant.
  \<open>insert\<close> may be called only when the key is absent, as the code asserts.
\<close>

locale ordered_index =
  fixes inorder :: "'t \<Rightarrow> 'a list"
    and key :: "'a \<Rightarrow> 'k::linorder"
    and inv :: "'t \<Rightarrow> bool"
    and empty :: "'t"
    and lookup :: "'k \<Rightarrow> 't \<Rightarrow> 'a option"
    and pred_eq :: "'k \<Rightarrow> 't \<Rightarrow> 'a option"
    and succ_eq :: "'k \<Rightarrow> 't \<Rightarrow> 'a option"
    and pred :: "'k \<Rightarrow> 't \<Rightarrow> 'a option"
    and succ :: "'k \<Rightarrow> 't \<Rightarrow> 'a option"
    and find_min :: "'t \<Rightarrow> 'a option"
    and find_max :: "'t \<Rightarrow> 'a option"
    and insert :: "'a \<Rightarrow> 't \<Rightarrow> 't"
    and delete :: "'k \<Rightarrow> 't \<Rightarrow> 't"
  assumes inorder_empty: "inorder empty = []"
    and inv_empty: "inv empty"
    and inorder_wf: "inv t \<Longrightarrow> idx_wf key (inorder t)"
    and lookup_eq: "inv t \<Longrightarrow> lookup k t = idx_lookup key k (inorder t)"
    and pred_eq_eq: "inv t \<Longrightarrow> pred_eq k t = idx_pred_eq key k (inorder t)"
    and succ_eq_eq: "inv t \<Longrightarrow> succ_eq k t = idx_succ_eq key k (inorder t)"
    and pred_eq': "inv t \<Longrightarrow> pred k t = idx_pred key k (inorder t)"
    and succ_eq': "inv t \<Longrightarrow> succ k t = idx_succ key k (inorder t)"
    and find_min_eq: "inv t \<Longrightarrow> find_min t = first_opt (inorder t)"
    and find_max_eq: "inv t \<Longrightarrow> find_max t = last_opt (inorder t)"
    and inorder_insert: "inv t \<Longrightarrow> lookup (key x) t = None \<Longrightarrow>
      inorder (insert x t) = idx_insert key x (inorder t)"
    and inv_insert: "inv t \<Longrightarrow> lookup (key x) t = None \<Longrightarrow> inv (insert x t)"
    and inorder_delete: "inv t \<Longrightarrow> inorder (delete k t) = idx_delete key k (inorder t)"
    and inv_delete: "inv t \<Longrightarrow> inv (delete k t)"
begin

lemma lookup_empty: "lookup k empty = None"
  by (simp add: lookup_eq inv_empty inorder_empty idx_lookup_def)

lemma lookup_insert:
  assumes "inv t" "lookup (key x) t = None"
  shows "lookup k (insert x t) = (if k = key x then Some x else lookup k t)"
proof -
  note wf = inorder_wf [OF assms(1)]
  obtain l m r where d: "inorder t = l @ m @ r" "\<forall>y\<in>set l. key y < key x" "\<forall>y\<in>set r. key x < key y"
    "m = [] \<or> (\<exists>z. m = [z] \<and> key z = key x)"
    using idx_split_key [OF wf, of "key x"] by blast
  from assms d have m: "m = []"
    by (auto simp: lookup_eq idx_lookup_None)
  have i: "inorder (insert x t) = l @ x # r"
    using d m by (simp add: inorder_insert assms idx_insert_gap)
  have "filter (\<lambda>y. key y = key x) l = []" "filter (\<lambda>y. key y = key x) r = []"
    using d(2,3) by (force intro: filter_none)+
  then show ?thesis
    using d m by (auto simp: lookup_eq inv_insert assms i idx_lookup_def)
qed

lemma lookup_delete:
  assumes "inv t"
  shows "lookup k (delete k' t) = (if k = k' then None else lookup k t)"
  by (auto simp: lookup_eq inv_delete inorder_delete assms idx_lookup_def idx_delete_def
      filter_empty_conv intro!: arg_cong [where f = first_opt] filter_cong)

lemma find_min_least: "inv t \<Longrightarrow> find_min t = Some x \<Longrightarrow> lookup k t = Some y \<Longrightarrow> key x \<le> k"
  using inorder_wf [of t]
  by (auto simp: find_min_eq lookup_eq dest!: first_opt_SomeD idx_lookup_SomeD)
    (meson less_imp_le)

lemma find_max_greatest:
  "inv t \<Longrightarrow> find_max t = Some x \<Longrightarrow> lookup k t = Some y \<Longrightarrow> k \<le> key x"
  using inorder_wf [of t]
  by (auto simp: find_max_eq lookup_eq idx_wf_append dest!: last_opt_SomeD idx_lookup_SomeD)
    (meson less_imp_le)

lemma pred_eq_SomeD:
  assumes "inv t" "pred_eq k t = Some x"
  shows "lookup (key x) t = Some x \<and> key x \<le> k \<and> (\<forall>y. lookup (key y) t = Some y \<longrightarrow> key y \<le> k \<longrightarrow> key y \<le> key x)"
proof -
  note wf = inorder_wf [OF assms(1)]
  from assms have p: "idx_pred_eq key k (inorder t) = Some x" by (simp add: pred_eq_eq)
  obtain l r where d: "inorder t = l @ x # r" "key x \<le> k" "\<forall>y\<in>set l. key y < key x" "\<forall>y\<in>set r. k < key y"
    using idx_pred_eq_split [OF wf p] by blast
  have "\<forall>y\<in>set r. key x < key y" using d by force
  then show ?thesis
    using d assms(1) by (fastforce simp: lookup_eq idx_at dest!: idx_lookup_SomeD)
qed

end

text \<open>The sorted lists themselves are an implementation.\<close>

interpretation ixl: ordered_index "\<lambda>xs. xs" key "idx_wf key" "[]"
  "idx_lookup key" "idx_pred_eq key" "idx_succ_eq key" "idx_pred key" "idx_succ key"
  first_opt last_opt "idx_insert key" "idx_delete key" for key :: "'a \<Rightarrow> 'k::linorder"
  by unfold_locales (auto simp: idx_insert_wf)

end
