(* ===== verification/Rmsg.thy ===== *)
theory Rmsg
  imports Prelude
begin

text \<open>
  Received messages and their reference counts: RMSG and RDATA of
  src/core/ddsi/src/q_radmin.c and dds/ddsi/q_radmin.h.

  An \<open>nn_rmsg\<close> is named by a number and its \<open>refcount\<close> is an entry of the ledger
  \<open>refcounts\<close>; the message is freed when its count reaches 0, so the ledger is all the code
  keeps about its lifetime. An \<open>nn_rdata\<close> is one Data or DataFrag submessage: the byte range
  \<open>[min,maxp1)\<close> of the sample that it carries. The \<open>nextfrag\<close> links of a fragment chain
  are the order of a list. The count is a C \<open>uint32_t\<close>, the
  ledger holds integers; theory \<open>Reorder\<close> shows that what is subtracted was added before. The two
  agree as long as the sum stays below \<open>2 ^ 32\<close>: a message has at most 64 kB, the biases that outlast the
  handling of a submessage are those of fragments waiting in the defragmenter, a DataFrag submessage has
  36 bytes or more, so there are fewer than \<open>2 ^ 11\<close> biases of \<open>2 ^ 20\<close> beside the uncommitted one of \<open>2 ^ 31\<close>
  (the comment above \<open>RMSG_REFCOUNT_UNCOMMITTED_BIAS\<close> reckons likewise).
  Memory for index nodes comes from \<open>nn_rmsg_alloc\<close>, which bottoms out in \<open>ddsrt_malloc\<close>;
  that function aborts when memory is exhausted (src/ddsrt/src/heap/posix/heap.c), so its
  \<open>NULL\<close> branches are not modelled. The \<open>refcount_bias_added\<close> field exists in debug
  builds only.
\<close>

type_synonym rmsg_id = nat
type_synonym refcounts = "rmsg_id \<Rightarrow> int"

definition RMSG_REFCOUNT_UNCOMMITTED_BIAS :: int where
  "RMSG_REFCOUNT_UNCOMMITTED_BIAS = 2 ^ 31"

definition RMSG_REFCOUNT_RDATA_BIAS :: int where
  "RMSG_REFCOUNT_RDATA_BIAS = 2 ^ 20"

text \<open>\<open>nn_rmsg_new\<close> sets the count, \<open>nn_rmsg_commit\<close> takes the uncommitted bias off again.\<close>

definition nn_rmsg_new :: "rmsg_id \<Rightarrow> refcounts \<Rightarrow> refcounts" where
  "nn_rmsg_new m rc = rc(m := RMSG_REFCOUNT_UNCOMMITTED_BIAS)"

definition nn_rmsg_commit :: "rmsg_id \<Rightarrow> refcounts \<Rightarrow> refcounts" where
  "nn_rmsg_commit m rc = rc(m := rc m - RMSG_REFCOUNT_UNCOMMITTED_BIAS)"

definition nn_rmsg_addbias :: "rmsg_id \<Rightarrow> refcounts \<Rightarrow> refcounts" where
  "nn_rmsg_addbias m rc = rc(m := rc m + RMSG_REFCOUNT_RDATA_BIAS)"

definition nn_rmsg_rmbias_and_adjust :: "rmsg_id \<Rightarrow> int \<Rightarrow> refcounts \<Rightarrow> refcounts" where
  "nn_rmsg_rmbias_and_adjust m adjust rc =
     (let sub = RMSG_REFCOUNT_RDATA_BIAS - adjust in rc(m := rc m - sub))"

definition nn_rmsg_unref :: "rmsg_id \<Rightarrow> refcounts \<Rightarrow> refcounts" where
  "nn_rmsg_unref m rc = rc(m := rc m - 1)"

section \<open>Submessages and fragment chains\<close>

record nn_rdata =
  rd_rmsg :: rmsg_id
  rd_min :: nat
  rd_maxp1 :: nat
  rd_submsg_zoff :: u16
  rd_payload_zoff :: u16
  rd_keyhash_zoff :: u16

text \<open>\<open>NN_OFF_TO_ZOFF\<close> truncates a 32-bit offset to 16 bits.\<close>

definition nn_rdata_new :: "rmsg_id \<Rightarrow> nat \<Rightarrow> nat \<Rightarrow> u32 \<Rightarrow> u32 \<Rightarrow> u32 \<Rightarrow> nn_rdata" where
  "nn_rdata_new rmsg start endp1 submsg_offset payload_offset keyhash_offset =
     \<lparr>rd_rmsg = rmsg, rd_min = start, rd_maxp1 = endp1, rd_submsg_zoff = ucast submsg_offset,
      rd_payload_zoff = ucast payload_offset, rd_keyhash_zoff = ucast keyhash_offset\<rparr>"

definition nn_rdata_addbias :: "nn_rdata \<Rightarrow> refcounts \<Rightarrow> refcounts" where
  "nn_rdata_addbias d rc = nn_rmsg_addbias (rd_rmsg d) rc"

definition nn_rdata_rmbias_and_adjust :: "nn_rdata \<Rightarrow> int \<Rightarrow> refcounts \<Rightarrow> refcounts" where
  "nn_rdata_rmbias_and_adjust d adjust rc = nn_rmsg_rmbias_and_adjust (rd_rmsg d) adjust rc"

definition nn_rdata_unref :: "nn_rdata \<Rightarrow> refcounts \<Rightarrow> refcounts" where
  "nn_rdata_unref d rc = nn_rmsg_unref (rd_rmsg d) rc"

text \<open>A gap is an empty range; creating it adds its bias at once.\<close>

definition nn_rdata_newgap :: "rmsg_id \<Rightarrow> refcounts \<Rightarrow> nn_rdata \<times> refcounts" where
  "nn_rdata_newgap rmsg rc =
     (let d = nn_rdata_new rmsg 0 0 0 0 0 in (d, nn_rdata_addbias d rc))"

fun nn_fragchain_adjust_refcount :: "nn_rdata list \<Rightarrow> int \<Rightarrow> refcounts \<Rightarrow> refcounts" where
  "nn_fragchain_adjust_refcount [] adjust rc = rc"
| "nn_fragchain_adjust_refcount (frag # frag1) adjust rc =
     nn_fragchain_adjust_refcount frag1 adjust (nn_rdata_rmbias_and_adjust frag adjust rc)"

definition nn_fragchain_rmbias :: "nn_rdata list \<Rightarrow> refcounts \<Rightarrow> refcounts" where
  "nn_fragchain_rmbias frag rc = nn_fragchain_adjust_refcount frag 0 rc"

fun nn_fragchain_unref :: "nn_rdata list \<Rightarrow> refcounts \<Rightarrow> refcounts" where
  "nn_fragchain_unref [] rc = rc"
| "nn_fragchain_unref (frag # frag1) rc = nn_fragchain_unref frag1 (nn_rdata_unref frag rc)"

section \<open>Sample information and chains of samples\<close>

text \<open>
  The fields of \<open>nn_rsample_info\<close> that radmin reads (\<open>si_dst_guid_prefix\<close> is
  \<open>rst->dst_guid_prefix\<close>); time stamps and status bits only travel with the sample.
\<close>

record nn_rsample_info =
  si_seq :: seqno
  si_dst_guid_prefix :: "u8 list"
  si_size :: nat
  si_fragsize :: nat

text \<open>A chain element of a sample chain; a gap has no sample information.\<close>

record nn_rsample_chain_elem =
  ce_fragchain :: "nn_rdata list"
  ce_sampleinfo :: "nn_rsample_info option"

text \<open>How many rdatas of message \<open>m\<close> occur in a fragment chain, in a sample chain.\<close>

definition frag_refs :: "rmsg_id \<Rightarrow> nn_rdata list \<Rightarrow> int" where
  "frag_refs m frags = int (length (filter (\<lambda>d. rd_rmsg d = m) frags))"

definition chain_refs :: "rmsg_id \<Rightarrow> nn_rsample_chain_elem list \<Rightarrow> int" where
  "chain_refs m sc = (\<Sum>e\<leftarrow>sc. frag_refs m (ce_fragchain e))"

lemma frag_refs_simps [simp]:
  "frag_refs m [] = 0"
  "frag_refs m (d # ds) = (if rd_rmsg d = m then 1 else 0) + frag_refs m ds"
  "frag_refs m (xs @ ys) = frag_refs m xs + frag_refs m ys"
  by (auto simp: frag_refs_def)

lemma frag_refs_nonneg [simp]: "0 \<le> frag_refs m frags"
  by (simp add: frag_refs_def)

lemma chain_refs_simps [simp]:
  "chain_refs m [] = 0"
  "chain_refs m (e # es) = frag_refs m (ce_fragchain e) + chain_refs m es"
  "chain_refs m (xs @ ys) = chain_refs m xs + chain_refs m ys"
  by (auto simp: chain_refs_def)

lemma chain_refs_nonneg [simp]: "0 \<le> chain_refs m sc"
  by (induction sc) auto

lemma fragchain_unref_count:
  "nn_fragchain_unref frags rc m = rc m - frag_refs m frags"
  by (induction frags arbitrary: rc) (auto simp: nn_rdata_unref_def nn_rmsg_unref_def)

lemma fragchain_adjust_count:
  "nn_fragchain_adjust_refcount frags adj rc m =
     rc m - frag_refs m frags * (RMSG_REFCOUNT_RDATA_BIAS - adj)"
  by (induction frags arbitrary: rc)
    (auto simp: nn_rdata_rmbias_and_adjust_def nn_rmsg_rmbias_and_adjust_def Let_def
      distrib_right)

end
