(* ===== verification/Reorder.thy ===== *)
theory Reorder
  imports Ordered_Index Rmsg
begin

text \<open>
  The reorder administration of src/core/ddsi/src/q_radmin.c (section REORDER): out-of-order
  samples of one reliable writer, kept as non-overlapping, non-consecutive intervals of
  sequence numbers, each with the chain of its samples, until the interval at \<open>next_seq\<close> can
  be delivered.

  \<open>nn_rsample_reorder\<close> is one interval \<open>[min,maxp1)\<close> (\<open>riv_min\<close>, \<open>riv_maxp1\<close>), the AVL tree
  \<open>sampleivtree\<close> is an ordered index on \<open>riv_min\<close> (theory \<open>Ordered_Index\<close>), and the cached
  node pointer \<open>max_sampleiv\<close> is the key of that node. Each operation takes the state and
  returns it updated; those that touch reference counts also take the ledger of theory
  \<open>Rmsg\<close>. Tracing and debug-only assertions are left out; the assertions are among the
  properties proved.
\<close>

section \<open>State\<close>

datatype nn_reorder_mode = NN_REORDER_MODE_NORMAL
  | NN_REORDER_MODE_MONOTONICALLY_INCREASING | NN_REORDER_MODE_ALWAYS_DELIVER

record nn_rsample_reorder =
  riv_sc :: "nn_rsample_chain_elem list"
  riv_min :: seqno
  riv_maxp1 :: seqno
  riv_n_samples :: nat

record nn_reorder =
  ro_ivs :: "nn_rsample_reorder list"
  ro_max :: "seqno option"
  ro_next_seq :: seqno
  ro_mode :: nn_reorder_mode
  ro_max_samples :: nat
  ro_n_samples :: nat
  ro_discarded_bytes :: nat
  ro_late_ack_mode :: bool

type_synonym nn_reorder_result = int

definition NN_REORDER_ACCEPT :: nn_reorder_result where "NN_REORDER_ACCEPT = 0"
definition NN_REORDER_TOO_OLD :: nn_reorder_result where "NN_REORDER_TOO_OLD = -1"
definition NN_REORDER_REJECT :: nn_reorder_result where "NN_REORDER_REJECT = -2"

lemmas reorder_results = NN_REORDER_ACCEPT_def NN_REORDER_TOO_OLD_def NN_REORDER_REJECT_def

definition nn_reorder_new :: "nn_reorder_mode \<Rightarrow> nat \<Rightarrow> bool \<Rightarrow> nn_reorder" where
  "nn_reorder_new mode max_samples late_ack_mode =
     \<lparr>ro_ivs = [], ro_max = None, ro_next_seq = 1, ro_mode = mode, ro_max_samples = max_samples,
      ro_n_samples = 0, ro_discarded_bytes = 0, ro_late_ack_mode = late_ack_mode\<rparr>"

text \<open>\<open>reorder_rsample_new\<close>: a complete sample becomes a singleton interval; its only rdata is biased.\<close>

definition singleton_rsample :: "nn_rdata list \<Rightarrow> nn_rsample_info \<Rightarrow> nn_rsample_reorder" where
  "singleton_rsample fragchain si =
     \<lparr>riv_sc = [\<lparr>ce_fragchain = fragchain, ce_sampleinfo = Some si\<rparr>],
      riv_min = si_seq si, riv_maxp1 = si_seq si + 1, riv_n_samples = 1\<rparr>"

definition reorder_rsample_new ::
  "nn_rdata \<Rightarrow> nn_rsample_info \<Rightarrow> refcounts \<Rightarrow> nn_rsample_reorder \<times> refcounts" where
  "reorder_rsample_new rdata sampleinfo rc =
     (singleton_rsample [rdata] sampleinfo, nn_rdata_addbias rdata rc)"

section \<open>Operations\<close>

definition append_rsample_interval ::
  "nn_rsample_reorder \<Rightarrow> nn_rsample_reorder \<Rightarrow> nn_rsample_reorder" where
  "append_rsample_interval a b =
     a\<lparr>riv_sc := riv_sc a @ riv_sc b, riv_maxp1 := riv_maxp1 b,
       riv_n_samples := riv_n_samples a + riv_n_samples b\<rparr>"

text \<open>The result says whether the caller must update \<open>max_sampleiv\<close>; then the grown interval and the state.\<close>

definition reorder_try_append_and_discard ::
  "nn_reorder \<Rightarrow> nn_rsample_reorder \<Rightarrow> nn_rsample_reorder option
     \<Rightarrow> bool \<times> nn_rsample_reorder \<times> nn_reorder" where
  "reorder_try_append_and_discard r appendto todiscard =
     (case todiscard of
        None \<Rightarrow> (False, appendto, r)
      | Some d \<Rightarrow>
          if riv_maxp1 appendto < riv_min d then (False, appendto, r)
          else (Some (riv_min d) = ro_max r,
                append_rsample_interval appendto d,
                r\<lparr>ro_ivs := idx_delete riv_min (riv_min d) (ro_ivs r)\<rparr>))"

text \<open>\<open>sc.first->sampleinfo->size\<close>\<close>

definition first_size :: "nn_rsample_reorder \<Rightarrow> nat" where
  "first_size s = (case riv_sc s of [] \<Rightarrow> 0
     | e # _ \<Rightarrow> (case ce_sampleinfo e of None \<Rightarrow> 0 | Some si \<Rightarrow> si_size si))"

definition reorder_discard :: "nn_reorder \<Rightarrow> nn_rsample_reorder \<Rightarrow> nn_reorder" where
  "reorder_discard r s = r\<lparr>ro_discarded_bytes := ro_discarded_bytes r + first_size s\<rparr>"

text \<open>The node \<open>max_sampleiv\<close> points to.\<close>

definition max_sampleiv :: "nn_reorder \<Rightarrow> nn_rsample_reorder option" where
  "max_sampleiv r = (case ro_max r of None \<Rightarrow> None | Some k \<Rightarrow> idx_lookup riv_min k (ro_ivs r))"

definition delete_last_sample :: "nn_reorder \<Rightarrow> refcounts \<Rightarrow> nn_reorder \<times> refcounts" where
  "delete_last_sample r rc =
     (case max_sampleiv r of
        None \<Rightarrow> (r, rc)
      | Some l \<Rightarrow>
          (let e = last (riv_sc l);
               r1 = r\<lparr>ro_discarded_bytes := ro_discarded_bytes r +
                      (case ce_sampleinfo e of None \<Rightarrow> 0 | Some si \<Rightarrow> si_size si)\<rparr>;
               r2 = (if length (riv_sc l) = 1 then
                       (let ivs = idx_delete riv_min (riv_min l) (ro_ivs r1)
                        in r1\<lparr>ro_ivs := ivs, ro_max := map_option riv_min (last_opt ivs)\<rparr>)
                     else
                       r1\<lparr>ro_ivs := idx_update riv_min (riv_min l)
                            (l\<lparr>riv_sc := butlast (riv_sc l), riv_maxp1 := riv_maxp1 l - 1,
                               riv_n_samples := riv_n_samples l - 1\<rparr>) (ro_ivs r1)\<rparr>)
           in (r2, nn_fragchain_unref (ce_fragchain e) rc)))"

text \<open>
  The deliverable case of \<open>nn_reorder_rsample\<close>: the sample is next (or the mode does not
  care); the first stored interval is appended when it follows immediately.
\<close>

definition reorder_deliver ::
  "nn_reorder \<Rightarrow> nn_rsample_reorder \<Rightarrow> nn_reorder_result \<times> nn_rsample_chain_elem list \<times> nn_reorder" where
  "reorder_deliver r s =
     (let (s', r') =
            (if ro_max r \<noteq> None then
               (let (upd, s', r') = reorder_try_append_and_discard r s (first_opt (ro_ivs r))
                in (s', if upd then r'\<lparr>ro_max := None\<rparr> else r'))
             else (s, r))
      in (int (riv_n_samples s'), riv_sc s',
          r'\<lparr>ro_next_seq := riv_maxp1 s', ro_n_samples := ro_n_samples r' - (riv_n_samples s' - 1)\<rparr>))"

text \<open>
  The "hard case" when the sample does not extend its predecessor: prepend it to the
  immediate successor (whose node the new one then replaces in the tree), or store a new
  interval.
\<close>

definition reorder_insert_apart ::
  "nn_reorder \<Rightarrow> nn_rsample_reorder \<Rightarrow> nn_rsample_reorder option \<Rightarrow> nn_reorder" where
  "reorder_insert_apart r s immsucc =
     (case immsucc of
        Some i \<Rightarrow>
          (let i' = i\<lparr>riv_sc := riv_sc s @ riv_sc i, riv_min := riv_min s,
                      riv_n_samples := riv_n_samples i + riv_n_samples s\<rparr>;
               r1 = r\<lparr>ro_ivs := idx_update riv_min (riv_min i) i' (ro_ivs r)\<rparr>
           in if Some (riv_min i) = ro_max r then r1\<lparr>ro_max := Some (riv_min s)\<rparr> else r1)
      | None \<Rightarrow> r\<lparr>ro_ivs := idx_insert riv_min s (ro_ivs r)\<rparr>)"

text \<open>The "hard case" as a whole. \<open>None\<close>: the sample is contained in its predecessor and rejected.\<close>

definition reorder_insert_below ::
  "nn_reorder \<Rightarrow> nn_rsample_reorder \<Rightarrow> nn_reorder option" where
  "reorder_insert_below r s =
     (let predeq = idx_pred_eq riv_min (riv_min s) (ro_ivs r)
      in if (case predeq of None \<Rightarrow> False
             | Some p \<Rightarrow> riv_min p \<le> riv_min s \<and> riv_min s < riv_maxp1 p) then None
         else
           (let immsucc = idx_lookup riv_min (riv_maxp1 s) (ro_ivs r)
            in case predeq of
                 Some p \<Rightarrow>
                   if riv_min s = riv_maxp1 p then
                     (let p1 = append_rsample_interval p s;
                          r1 = r\<lparr>ro_ivs := idx_update riv_min (riv_min p) p1 (ro_ivs r)\<rparr>;
                          (upd, p2, r2) = reorder_try_append_and_discard r1 p1 immsucc;
                          r3 = r2\<lparr>ro_ivs := idx_update riv_min (riv_min p) p2 (ro_ivs r2)\<rparr>
                      in Some (if upd then r3\<lparr>ro_max := Some (riv_min p)\<rparr> else r3))
                   else Some (reorder_insert_apart r s immsucc)
               | None \<Rightarrow> Some (reorder_insert_apart r s immsucc)))"

text \<open>
  \<open>nn_reorder_rsample\<close>: the result, the chain to deliver (empty unless the result is
  positive), the state, \<open>refcount_adjust\<close> and the ledger.
\<close>

type_synonym reorder_outcome =
  "nn_reorder_result \<times> nn_rsample_chain_elem list \<times> nn_reorder \<times> int \<times> refcounts"

definition nn_reorder_rsample ::
  "nn_reorder \<Rightarrow> nn_rsample_reorder \<Rightarrow> int \<Rightarrow> bool \<Rightarrow> refcounts \<Rightarrow> reorder_outcome" where
  "nn_reorder_rsample r s adj delivery_queue_full rc =
     (let reject = (NN_REORDER_REJECT, [], reorder_discard r s, adj, rc);
          grow = r\<lparr>ro_n_samples := ro_n_samples r + 1\<rparr>
      in if riv_min s = ro_next_seq r
            \<or> (riv_min s > ro_next_seq r \<and> ro_mode r = NN_REORDER_MODE_MONOTONICALLY_INCREASING)
            \<or> ro_mode r = NN_REORDER_MODE_ALWAYS_DELIVER then
           if delivery_queue_full then reject
           else (let (res, sc, r') = reorder_deliver r s in (res, sc, r', adj + 1, rc))
         else if riv_min s < ro_next_seq r then
           (NN_REORDER_TOO_OLD, [], reorder_discard r s, adj, rc)
         else if ro_ivs r = [] then
           if ro_max_samples r = 0 then reject
           else (NN_REORDER_ACCEPT, [],
                 grow\<lparr>ro_ivs := idx_insert riv_min s (ro_ivs r), ro_max := Some (riv_min s)\<rparr>,
                 adj + 1, rc)
         else case max_sampleiv r of
           None \<Rightarrow> reject \<comment> \<open>excluded: the code asserts \<open>max_sampleiv != NULL\<close> here\<close>
         | Some m \<Rightarrow>
             if riv_min s = riv_maxp1 m then
               if delivery_queue_full then reject
               else if ro_n_samples r < ro_max_samples r then
                 (NN_REORDER_ACCEPT, [],
                  grow\<lparr>ro_ivs := idx_update riv_min (riv_min m) (append_rsample_interval m s) (ro_ivs r)\<rparr>,
                  adj + 1, rc)
               else reject
             else if riv_min s > riv_maxp1 m then
               if delivery_queue_full then reject
               else if ro_n_samples r < ro_max_samples r then
                 (NN_REORDER_ACCEPT, [],
                  grow\<lparr>ro_ivs := idx_insert riv_min s (ro_ivs r), ro_max := Some (riv_min s)\<rparr>,
                  adj + 1, rc)
               else reject
             else if ro_late_ack_mode r \<and> delivery_queue_full then reject
             else case reorder_insert_below r s of
               None \<Rightarrow> reject
             | Some r1 \<Rightarrow>
                 (let (r2, rc') =
                        (if ro_n_samples r1 < ro_max_samples r1
                         then (r1\<lparr>ro_n_samples := ro_n_samples r1 + 1\<rparr>, rc)
                         else delete_last_sample r1 rc)
                  in (NN_REORDER_ACCEPT, [], r2, adj + 1, rc')))"

section \<open>Gaps\<close>

text \<open>
  The loop of \<open>coalesce_intervals_touching_range\<close>: append to node \<open>s\<close> every successor
  that starts at or below \<open>maxp1\<close>, deleting it from the tree.
\<close>

lemma idx_delete_shorter:
  "idx_succ key k xs = Some t \<Longrightarrow> length (idx_delete key (key t) xs) < length xs"
  by (auto simp: idx_succ_def idx_delete_def dest!: first_opt_in_set intro: length_filter_less)

function coalesce_successors ::
  "nn_rsample_reorder \<Rightarrow> seqno \<Rightarrow> nn_rsample_reorder list \<Rightarrow> bool
     \<Rightarrow> nn_rsample_reorder \<times> nn_rsample_reorder list \<times> bool" where
  "coalesce_successors s maxp1 ivs valuable =
     (case idx_succ riv_min (riv_min s) ivs of
        None \<Rightarrow> (s, ivs, valuable)
      | Some t \<Rightarrow>
          if riv_min t \<le> maxp1 then
            (let s' = append_rsample_interval s t
             in coalesce_successors s' maxp1
                  (idx_update riv_min (riv_min s) s' (idx_delete riv_min (riv_min t) ivs)) True)
          else (s, ivs, valuable))"
  by pat_completeness auto
termination
  by (relation "measure (\<lambda>(s, maxp1, ivs, valuable). length ivs)")
    (auto simp: idx_update_def idx_delete_shorter)

declare coalesce_successors.simps [simp del]

text \<open>The first interval \<open>[m,n)\<close> with \<open>n >= mn\<close> and \<open>m <= maxp1\<close>.\<close>

definition first_touching ::
  "nn_rsample_reorder list \<Rightarrow> seqno \<Rightarrow> seqno \<Rightarrow> nn_rsample_reorder option" where
  "first_touching ivs mn maxp1 =
     (let p = idx_pred_eq riv_min mn ivs
      in if (case p of None \<Rightarrow> False | Some s \<Rightarrow> riv_maxp1 s \<ge> mn) then p
         else (let q = (case p of None \<Rightarrow> first_opt ivs
                        | Some s \<Rightarrow> idx_succ riv_min (riv_min s) ivs)
               in case q of None \<Rightarrow> None
                  | Some s \<Rightarrow> if riv_min s \<le> maxp1 then Some s else None))"

text \<open>The interval found (already written back into the tree), the tree, and \<open>valuable\<close>.\<close>

definition coalesce_intervals_touching_range ::
  "nn_rsample_reorder list \<Rightarrow> seqno \<Rightarrow> seqno
     \<Rightarrow> (nn_rsample_reorder \<times> bool) option \<times> nn_rsample_reorder list" where
  "coalesce_intervals_touching_range ivs mn maxp1 =
     (case first_touching ivs mn maxp1 of
           None \<Rightarrow> (None, ivs)
         | Some s \<Rightarrow>
             (let (s1, ivs1, v1) = coalesce_successors s maxp1 ivs False;
                  k = riv_min s1;
                  (s2, v2) = (if mn < riv_min s1 then (s1\<lparr>riv_min := mn\<rparr>, True) else (s1, v1));
                  (s3, v3) = (if maxp1 > riv_maxp1 s2 then (s2\<lparr>riv_maxp1 := maxp1\<rparr>, True)
                              else (s2, v2))
              in (Some (s3, v3), idx_update riv_min k s3 ivs1)))"

text \<open>A gap that touches nothing is stored as an interval whose chain is the gap's own rdata.\<close>

definition gap_interval :: "nn_rdata \<Rightarrow> seqno \<Rightarrow> seqno \<Rightarrow> nn_rsample_reorder" where
  "gap_interval rdata mn maxp1 =
     \<lparr>riv_sc = [\<lparr>ce_fragchain = [rdata], ce_sampleinfo = None\<rparr>],
      riv_min = mn, riv_maxp1 = maxp1, riv_n_samples = 1\<rparr>"

definition reorder_insert_gap :: "nn_reorder \<Rightarrow> nn_rdata \<Rightarrow> seqno \<Rightarrow> seqno \<Rightarrow> nn_reorder" where
  "reorder_insert_gap r rdata mn maxp1 =
     r\<lparr>ro_ivs := idx_insert riv_min (gap_interval rdata mn maxp1) (ro_ivs r)\<rparr>"

definition nn_reorder_gap ::
  "nn_reorder \<Rightarrow> nn_rdata \<Rightarrow> seqno \<Rightarrow> seqno \<Rightarrow> int \<Rightarrow> refcounts \<Rightarrow> reorder_outcome" where
  "nn_reorder_gap r rdata mn maxp1 adj rc =
     (if maxp1 \<le> ro_next_seq r then (NN_REORDER_TOO_OLD, [], r, adj, rc)
      else if ro_mode r \<noteq> NN_REORDER_MODE_NORMAL then (NN_REORDER_REJECT, [], r, adj, rc)
      else case coalesce_intervals_touching_range (ro_ivs r) mn maxp1 of
        (None, _) \<Rightarrow>
          (let (res, r', adj', rc') =
             (if mn \<le> ro_next_seq r then
                (NN_REORDER_ACCEPT, r\<lparr>ro_next_seq := maxp1\<rparr>, adj, rc)
              else if ro_n_samples r = ro_max_samples r
                      \<and> (case max_sampleiv r of None \<Rightarrow> True | Some m \<Rightarrow> mn > riv_maxp1 m) then
                (NN_REORDER_REJECT, r, adj, rc)
              else
                (let r1 = reorder_insert_gap r rdata mn maxp1;
                     (r2, rc2) = (if ro_n_samples r1 < ro_max_samples r1
                                  then (r1\<lparr>ro_n_samples := ro_n_samples r1 + 1\<rparr>, rc)
                                  else delete_last_sample r1 rc)
                 in (NN_REORDER_ACCEPT, r2, adj + 1, rc2)))
           in (res, [], r'\<lparr>ro_max := map_option riv_min (last_opt (ro_ivs r'))\<rparr>, adj', rc'))
      | (Some (c, valuable), ivs) \<Rightarrow>
          if riv_min c \<le> ro_next_seq r then
            (let ivs' = idx_delete riv_min (riv_min c) ivs
             in (int (riv_n_samples c), riv_sc c,
                 r\<lparr>ro_ivs := ivs', ro_next_seq := riv_maxp1 c,
                   ro_max := map_option riv_min (last_opt ivs'),
                   ro_n_samples := ro_n_samples r - riv_n_samples c\<rparr>, adj, rc))
          else
            (if valuable then NN_REORDER_ACCEPT else NN_REORDER_REJECT, [],
             r\<lparr>ro_ivs := ivs, ro_max := map_option riv_min (last_opt ivs)\<rparr>, adj, rc))"

text \<open>Unreferencing every sample of a chain (the loop of \<open>nn_reorder_drop_upto\<close> and of \<open>nn_reorder_free\<close>).\<close>

fun sample_chain_unref :: "nn_rsample_chain_elem list \<Rightarrow> refcounts \<Rightarrow> refcounts" where
  "sample_chain_unref [] rc = rc"
| "sample_chain_unref (e # es) rc = sample_chain_unref es (nn_fragchain_unref (ce_fragchain e) rc)"

definition nn_reorder_drop_upto :: "nn_reorder \<Rightarrow> seqno \<Rightarrow> refcounts \<Rightarrow> nn_reorder \<times> refcounts" where
  "nn_reorder_drop_upto r maxp1 rc =
     (let gap = nn_rdata_new 0 0 0 0 0 0;
          (res, sc, r', adj, rc') = nn_reorder_gap r gap 1 maxp1 0 rc
      in (r', if res > 0 then sample_chain_unref sc rc' else rc'))"

text \<open>\<open>nn_reorder_free\<close> takes the intervals from the tree one by one, lowest first.\<close>

fun reorder_free_ivs :: "nn_rsample_reorder list \<Rightarrow> refcounts \<Rightarrow> refcounts" where
  "reorder_free_ivs [] rc = rc"
| "reorder_free_ivs (iv # ivs) rc = reorder_free_ivs ivs (sample_chain_unref (riv_sc iv) rc)"

definition nn_reorder_free :: "nn_reorder \<Rightarrow> refcounts \<Rightarrow> refcounts" where
  "nn_reorder_free r rc = reorder_free_ivs (ro_ivs r) rc"

definition nn_reorder_wantsample :: "nn_reorder \<Rightarrow> seqno \<Rightarrow> bool" where
  "nn_reorder_wantsample r seq =
     (if seq < ro_next_seq r then False
      else (case idx_pred_eq riv_min seq (ro_ivs r) of
              None \<Rightarrow> True | Some s \<Rightarrow> riv_maxp1 s \<le> seq))"

definition nn_reorder_rsample_dup_first :: "nn_rsample_reorder \<Rightarrow> nn_rsample_reorder" where
  "nn_reorder_rsample_dup_first s =
     (let e = hd (riv_sc s)
      in \<lparr>riv_sc = [\<lparr>ce_fragchain = ce_fragchain e, ce_sampleinfo = ce_sampleinfo e\<rparr>],
          riv_min = riv_min s, riv_maxp1 = riv_min s + 1, riv_n_samples = 1\<rparr>)"

definition nn_rsample_fragchain :: "nn_rsample_reorder \<Rightarrow> nn_rdata list" where
  "nn_rsample_fragchain s = ce_fragchain (hd (riv_sc s))"

definition nn_reorder_next_seq :: "nn_reorder \<Rightarrow> seqno" where
  "nn_reorder_next_seq r = ro_next_seq r"

definition nn_reorder_set_next_seq :: "nn_reorder \<Rightarrow> seqno \<Rightarrow> nn_reorder" where
  "nn_reorder_set_next_seq r seq = r\<lparr>ro_next_seq := seq\<rparr>"

end
