(* ===== verification/Reorder_Inv.thy ===== *)
theory Reorder_Inv
  imports Reorder
begin

text \<open>
  The invariant of the reorder administration and its preservation by every operation
  of theory \<open>Reorder\<close>: intervals are ordered with gaps between them and lie above \<open>next_seq\<close>,
  the samples of an interval are in sequence-number order inside it, \<open>n_samples\<close> counts the
  stored chain elements and never exceeds \<open>max_samples\<close>, \<open>max_sampleiv\<close> is the last interval.
\<close>

section \<open>Chains of samples\<close>

definition chain_seqs :: "nn_rsample_chain_elem list \<Rightarrow> seqno list" where
  "chain_seqs sc = map si_seq (List.map_filter ce_sampleinfo sc)"

text \<open>
  \<open>chain_ok lo sc hi\<close>: the samples lie in \<open>[lo,hi)\<close>, in strictly increasing order, and every
  element (also a gap's) has room for a sequence number of its own.
\<close>

fun chain_ok :: "seqno \<Rightarrow> nn_rsample_chain_elem list \<Rightarrow> seqno \<Rightarrow> bool" where
  "chain_ok lo [] hi \<longleftrightarrow> lo \<le> hi"
| "chain_ok lo (e # es) hi \<longleftrightarrow>
     (case ce_sampleinfo e of
        None \<Rightarrow> chain_ok (lo + 1) es hi
      | Some si \<Rightarrow> lo \<le> si_seq si \<and> chain_ok (si_seq si + 1) es hi)"

lemma chain_seqs_simps [simp]:
  "chain_seqs [] = []"
  "chain_seqs (e # es) =
     (case ce_sampleinfo e of None \<Rightarrow> chain_seqs es | Some si \<Rightarrow> si_seq si # chain_seqs es)"
  "chain_seqs (xs @ ys) = chain_seqs xs @ chain_seqs ys"
  by (auto simp: chain_seqs_def List.map_filter_def split: option.split)

lemma chain_ok_length: "chain_ok lo sc hi \<Longrightarrow> lo + length sc \<le> hi"
  by (induction lo sc hi rule: chain_ok.induct) (auto split: option.splits)

lemma chain_ok_mono: "chain_ok lo sc hi \<Longrightarrow> lo' \<le> lo \<Longrightarrow> hi \<le> hi' \<Longrightarrow> chain_ok lo' sc hi'"
  by (induction lo sc hi arbitrary: lo' rule: chain_ok.induct) (auto split: option.splits)

lemma chain_ok_append:
  "chain_ok lo xs mid \<Longrightarrow> mid \<le> lo' \<Longrightarrow> chain_ok lo' ys hi \<Longrightarrow> chain_ok lo (xs @ ys) hi"
proof (induction lo xs mid rule: chain_ok.induct)
  case (1 lo mid)
  then show ?case by (auto elim: chain_ok_mono)
qed (auto split: option.splits)

lemma chain_ok_butlast:
  "chain_ok lo sc hi \<Longrightarrow> sc \<noteq> [] \<Longrightarrow> chain_ok lo (butlast sc) (hi - 1)"
proof (induction lo sc hi rule: chain_ok.induct)
  case (2 lo e es hi)
  then show ?case
    using chain_ok_length [of "lo + 1" es hi]
    by (cases "es = []") (auto split: option.splits)
qed simp

lemma chain_ok_seqs:
  "chain_ok lo sc hi \<Longrightarrow> sorted_wrt (<) (chain_seqs sc) \<and> (\<forall>q\<in>set (chain_seqs sc). lo \<le> q \<and> q < hi)"
proof (induction lo sc hi rule: chain_ok.induct)
  case (2 lo e es hi)
  then show ?case
    by (auto split: option.splits dest: chain_ok_length)
qed simp

section \<open>Intervals\<close>

definition riv_set :: "nn_rsample_reorder \<Rightarrow> seqno set" where
  "riv_set iv = {riv_min iv ..< riv_maxp1 iv}"

definition iv_ok :: "nn_rsample_reorder \<Rightarrow> bool" where
  "iv_ok iv \<longleftrightarrow> riv_sc iv \<noteq> [] \<and> riv_n_samples iv = length (riv_sc iv)
     \<and> chain_ok (riv_min iv) (riv_sc iv) (riv_maxp1 iv)"

definition ivs_ok :: "nn_rsample_reorder list \<Rightarrow> bool" where
  "ivs_ok xs \<longleftrightarrow> (\<forall>iv\<in>set xs. iv_ok iv) \<and> sorted_wrt (\<lambda>a b. riv_maxp1 a < riv_min b) xs"

definition ivs_cover :: "nn_rsample_reorder list \<Rightarrow> seqno set" where
  "ivs_cover xs = (\<Union>iv\<in>set xs. riv_set iv)"

text \<open>All stored chain elements, in order.\<close>

definition ivs_chain :: "nn_rsample_reorder list \<Rightarrow> nn_rsample_chain_elem list" where
  "ivs_chain xs = concat (map riv_sc xs)"

lemma iv_ok_less: "iv_ok iv \<Longrightarrow> riv_min iv < riv_maxp1 iv"
  using chain_ok_length [of "riv_min iv" "riv_sc iv" "riv_maxp1 iv"]
  by (cases "riv_sc iv") (auto simp: iv_ok_def)

lemma ivs_ok_simps [simp]:
  "ivs_ok []"
  "ivs_ok (x # xs) \<longleftrightarrow> iv_ok x \<and> (\<forall>y\<in>set xs. riv_maxp1 x < riv_min y) \<and> ivs_ok xs"
  "ivs_ok (xs @ ys) \<longleftrightarrow> ivs_ok xs \<and> ivs_ok ys
     \<and> (\<forall>x\<in>set xs. \<forall>y\<in>set ys. riv_maxp1 x < riv_min y)"
  by (auto simp: ivs_ok_def sorted_wrt_append)

lemma ivs_cover_simps [simp]:
  "ivs_cover [] = {}"
  "ivs_cover (x # xs) = riv_set x \<union> ivs_cover xs"
  "ivs_cover (xs @ ys) = ivs_cover xs \<union> ivs_cover ys"
  by (auto simp: ivs_cover_def)

lemma ivs_chain_simps [simp]:
  "ivs_chain [] = []"
  "ivs_chain (x # xs) = riv_sc x @ ivs_chain xs"
  "ivs_chain (xs @ ys) = ivs_chain xs @ ivs_chain ys"
  by (auto simp: ivs_chain_def)

lemma ivs_ok_wf: "ivs_ok xs \<Longrightarrow> idx_wf riv_min xs"
proof (induction xs)
  case (Cons x xs)
  then show ?case using iv_ok_less [of x] by force
qed simp

lemma iv_ok_append:
  assumes "iv_ok a" "iv_ok b" "riv_maxp1 a \<le> riv_min b"
  shows "iv_ok (append_rsample_interval a b)"
  using assms by (auto simp: iv_ok_def append_rsample_interval_def intro: chain_ok_append)

lemma append_interval_sel [simp]:
  "riv_min (append_rsample_interval a b) = riv_min a"
  "riv_maxp1 (append_rsample_interval a b) = riv_maxp1 b"
  "riv_sc (append_rsample_interval a b) = riv_sc a @ riv_sc b"
  "riv_n_samples (append_rsample_interval a b) = riv_n_samples a + riv_n_samples b"
  by (auto simp: append_rsample_interval_def)

lemma riv_set_append:
  "iv_ok a \<Longrightarrow> iv_ok b \<Longrightarrow> riv_maxp1 a = riv_min b \<Longrightarrow>
     riv_set (append_rsample_interval a b) = riv_set a \<union> riv_set b"
  using iv_ok_less [of a] iv_ok_less [of b] by (auto simp: riv_set_def)

section \<open>The invariant\<close>

definition ro_inv :: "nn_reorder \<Rightarrow> bool" where
  "ro_inv r \<longleftrightarrow> ivs_ok (ro_ivs r) \<and> (\<forall>iv\<in>set (ro_ivs r). ro_next_seq r < riv_min iv)
     \<and> ro_max r = map_option riv_min (last_opt (ro_ivs r))
     \<and> ro_n_samples r = length (ivs_chain (ro_ivs r))
     \<and> ro_n_samples r \<le> ro_max_samples r
     \<and> (ro_mode r \<noteq> NN_REORDER_MODE_NORMAL \<longrightarrow> ro_ivs r = []) \<and> 0 < ro_next_seq r"

text \<open>A single complete sample, as \<open>nn_reorder_rsample\<close> requires.\<close>

definition singleton_iv :: "nn_rsample_reorder \<Rightarrow> bool" where
  "singleton_iv s \<longleftrightarrow> (\<exists>frags si. s = singleton_rsample frags si)"

lemma singleton_ivD:
  assumes "singleton_iv s"
  shows "iv_ok s" "riv_maxp1 s = riv_min s + 1" "riv_n_samples s = 1"
    "riv_set s = {riv_min s}" "length (riv_sc s) = 1" "chain_seqs (riv_sc s) = [riv_min s]"
  using assms by (auto simp: singleton_iv_def singleton_rsample_def iv_ok_def riv_set_def)

lemma ro_inv_new: "ro_inv (nn_reorder_new mode max_samples late)"
  by (simp add: ro_inv_def nn_reorder_new_def)

lemma ro_inv_max:
  assumes "ro_inv r"
  shows "max_sampleiv r = last_opt (ro_ivs r)"
proof (cases "ro_ivs r" rule: rev_cases)
  case Nil
  with assms show ?thesis by (simp add: ro_inv_def max_sampleiv_def)
next
  case (snoc l m)
  from assms have "ivs_ok (ro_ivs r)" by (simp add: ro_inv_def)
  then have "idx_lookup riv_min (riv_min m) (ro_ivs r) = Some m"
    by (intro idx_lookup_in ivs_ok_wf) (auto simp: snoc)
  with snoc assms show ?thesis by (auto simp: ro_inv_def max_sampleiv_def)
qed

lemma ro_inv_empty_max: "ro_inv r \<Longrightarrow> ro_max r = None \<longleftrightarrow> ro_ivs r = []"
  by (auto simp: ro_inv_def)

section \<open>Delivery\<close>

lemma reorder_deliver_normal:
  assumes inv: "ro_inv r" and s: "singleton_iv s" and seq: "riv_min s = ro_next_seq r"
    and del: "reorder_deliver r s = (res, sc, r')"
  shows "ro_inv r'" "res > 0" "res = int (length sc)"
    "sc @ ivs_chain (ro_ivs r') = riv_sc s @ ivs_chain (ro_ivs r)"
    "chain_ok (ro_next_seq r) sc (ro_next_seq r')" "ro_next_seq r < ro_next_seq r'"
    "{..< ro_next_seq r'} \<union> ivs_cover (ro_ivs r') =
       {..< ro_next_seq r} \<union> {riv_min s} \<union> ivs_cover (ro_ivs r)"
proof -
  note sd = singleton_ivD [OF s]
  have all: "ro_inv r' \<and> res > 0 \<and> res = int (length sc)
    \<and> sc @ ivs_chain (ro_ivs r') = riv_sc s @ ivs_chain (ro_ivs r)
    \<and> chain_ok (ro_next_seq r) sc (ro_next_seq r') \<and> ro_next_seq r < ro_next_seq r'
    \<and> {..< ro_next_seq r'} \<union> ivs_cover (ro_ivs r') =
       {..< ro_next_seq r} \<union> {riv_min s} \<union> ivs_cover (ro_ivs r)"
  proof (cases "ro_ivs r")
    case Nil
    with inv have "ro_max r = None" by (simp add: ro_inv_def)
    with sd del have r': "r' = r\<lparr>ro_next_seq := riv_maxp1 s\<rparr>" "sc = riv_sc s" "res = 1"
      by (auto simp: reorder_deliver_def)
    show ?thesis
      using inv sd seq Nil r' by (simp add: ro_inv_def iv_ok_def lessThan_Suc)
  next
    case (Cons i rest)
    with inv have mx: "ro_max r = map_option riv_min (last_opt (i # rest))" "ro_max r \<noteq> None"
      by (auto simp: ro_inv_def)
    from inv Cons have i: "iv_ok i" "ro_next_seq r < riv_min i" "ivs_ok rest"
      "\<forall>y\<in>set rest. riv_maxp1 i < riv_min y" by (auto simp: ro_inv_def)
    note il = iv_ok_less [OF i(1)]
    show ?thesis
    proof (cases "riv_maxp1 s < riv_min i")
      case True
      have "r' = r\<lparr>ro_next_seq := riv_maxp1 s, ro_n_samples := ro_n_samples r\<rparr>" "sc = riv_sc s" "res = 1"
        using del mx(2) Cons True sd
        by (auto simp: reorder_deliver_def reorder_try_append_and_discard_def)
      with inv sd seq Cons True i il show ?thesis
        by (simp add: ro_inv_def iv_ok_def lessThan_Suc Un_assoc) force
    next
      case False
      with i(2) sd seq have eq: "riv_min i = riv_maxp1 s" by simp
      have del_i: "idx_delete riv_min (riv_min i) (i # rest) = rest"
        using idx_at(6) [of "[]" riv_min i rest] i il by force
      have app: "iv_ok (append_rsample_interval s i)"
        using sd i eq by (intro iv_ok_append) auto
      have last: "Some (riv_min i) = ro_max r \<longleftrightarrow> rest = []"
        using mx(1) i il by (cases rest rule: rev_cases) (auto dest!: bspec)
      have r': "r' = r\<lparr>ro_ivs := rest, ro_max := (if rest = [] then None else ro_max r),
          ro_next_seq := riv_maxp1 i, ro_n_samples := ro_n_samples r - riv_n_samples i\<rparr>"
        "sc = riv_sc s @ riv_sc i" "res = int (1 + riv_n_samples i)"
        using del mx(2) Cons False sd eq del_i last
        by (auto simp: reorder_deliver_def reorder_try_append_and_discard_def)
      have n: "riv_n_samples i = length (riv_sc i)" using i by (simp add: iv_ok_def)
      have cov: "{..< riv_maxp1 i} \<union> ivs_cover rest =
          {..< ro_next_seq r} \<union> {riv_min s} \<union> ivs_cover (ro_ivs r)"
        using Cons sd seq eq il by (auto simp: riv_set_def)
      show ?thesis
        using inv sd(1-3,5) seq Cons i il n eq mx app cov
        by (simp add: r' ro_inv_def iv_ok_def)
    qed
  qed
  then show "ro_inv r'" "res > 0" "res = int (length sc)"
    "sc @ ivs_chain (ro_ivs r') = riv_sc s @ ivs_chain (ro_ivs r)"
    "chain_ok (ro_next_seq r) sc (ro_next_seq r')" "ro_next_seq r < ro_next_seq r'"
    "{..< ro_next_seq r'} \<union> ivs_cover (ro_ivs r') =
       {..< ro_next_seq r} \<union> {riv_min s} \<union> ivs_cover (ro_ivs r)" by blast+
qed

section \<open>Storing below the last interval\<close>

lemma idx_lookup_first:
  assumes "\<forall>y\<in>set l. key y < k" "idx_wf key r" "\<forall>y\<in>set r. k \<le> key y"
  shows "idx_lookup key k (l @ r) =
    (case r of [] \<Rightarrow> None | i # _ \<Rightarrow> if key i = k then Some i else None)"
proof (cases r)
  case Nil
  with assms idx_gap(1) [of l key k "[]"] show ?thesis by simp
next
  case (Cons i r')
  show ?thesis
  proof (cases "key i = k")
    case True
    with Cons assms idx_at(1) [of l key i r'] show ?thesis by auto
  next
    case False
    with Cons assms have "\<forall>y\<in>set r. k < key y" by fastforce
    with Cons False idx_gap(1) [OF assms(1), of r] show ?thesis by simp
  qed
qed

text \<open>What storing the one-sample interval \<open>s\<close> does to the stored intervals.\<close>

definition stored :: "nn_rsample_reorder \<Rightarrow> nn_rsample_reorder list \<Rightarrow> nn_rsample_reorder list \<Rightarrow> bool" where
  "stored s xs ys \<longleftrightarrow> ivs_ok ys \<and> mset (ivs_chain ys) = mset (riv_sc s) + mset (ivs_chain xs)
     \<and> ivs_cover ys = insert (riv_min s) (ivs_cover xs)
     \<and> (\<forall>y\<in>set ys. \<exists>x\<in>insert s (set xs). riv_min x \<le> riv_min y)"

lemma insert_apart_split:
  assumes ok: "ivs_ok (ro_ivs r)" and s: "singleton_iv s"
    and ivs: "ro_ivs r = l @ rr" and l: "\<forall>y\<in>set l. riv_maxp1 y < riv_min s"
    and rr: "\<forall>y\<in>set rr. riv_min s < riv_min y"
    and mx: "ro_max r = map_option riv_min (last_opt (ro_ivs r))" and ne: "rr \<noteq> []"
    and r1: "r1 = reorder_insert_apart r s (idx_lookup riv_min (riv_maxp1 s) (ro_ivs r))"
  shows "stored s (ro_ivs r) (ro_ivs r1)" "ro_max r1 = map_option riv_min (last_opt (ro_ivs r1))"
    "r1 = r\<lparr>ro_ivs := ro_ivs r1, ro_max := ro_max r1\<rparr>"
proof -
  note sd = singleton_ivD [OF s]
  from ok ivs have okl: "ivs_ok l" and okr: "ivs_ok rr" by auto
  have lmin: "\<forall>y\<in>set l. riv_min y < riv_min s"
    using okl l iv_ok_less by (fastforce simp: ivs_ok_def)
  obtain i rest where rc: "rr = i # rest" using ne by (cases rr) auto
  have ge: "\<forall>y\<in>set rr. riv_maxp1 s \<le> riv_min y" using rr sd by auto
  have lk: "idx_lookup riv_min (riv_maxp1 s) (ro_ivs r) =
      (if riv_min i = riv_maxp1 s then Some i else None)"
    using idx_lookup_first [of l riv_min "riv_maxp1 s" rr] lmin sd ge ivs_ok_wf [OF okr] ivs rc
    by force
  have i: "iv_ok i" "riv_min s < riv_min i" "\<forall>y\<in>set rest. riv_maxp1 i < riv_min y" "ivs_ok rest"
    using okr rr rc by auto
  note il = iv_ok_less [OF i(1)]
  have goal: "stored s (ro_ivs r) (ro_ivs r1) \<and> ro_max r1 = map_option riv_min (last_opt (ro_ivs r1))
    \<and> r1 = r\<lparr>ro_ivs := ro_ivs r1, ro_max := ro_max r1\<rparr>"
  proof (cases "riv_min i = riv_maxp1 s")
    case True
    define i' where "i' = i\<lparr>riv_sc := riv_sc s @ riv_sc i, riv_min := riv_min s,
      riv_n_samples := riv_n_samples i + riv_n_samples s\<rparr>"
    have upd: "idx_update riv_min (riv_min i) i' (l @ i # rest) = l @ i' # rest"
      using lmin i il by (intro idx_at(7)) force+
    have i'ok: "iv_ok i'"
      using sd i True by (auto simp: i'_def iv_ok_def intro: chain_ok_append)
    have st: "stored s (l @ i # rest) (l @ i' # rest)"
      using okl i'ok i l sd True il ok ivs rc unfolding stored_def
      by (auto simp: i'_def riv_set_def Ball_def)
    have islast: "Some (riv_min i) = ro_max r \<longleftrightarrow> rest = []"
      using mx ivs rc i il by (cases rest rule: rev_cases) (auto dest!: bspec)
    have r1': "r1 = r\<lparr>ro_ivs := l @ i' # rest,
                   ro_max := if rest = [] then Some (riv_min s) else ro_max r\<rparr>"
      using upd ivs rc True lk islast
      by (auto simp: r1 reorder_insert_apart_def Let_def i'_def [symmetric])
    show ?thesis
      using st mx ivs rc by (simp add: r1' i'_def)
  next
    case False
    have ins: "idx_insert riv_min s (l @ rr) = l @ s # rr"
      using lmin rr by (rule idx_insert_gap)
    have "riv_maxp1 s < riv_min i" using False sd i by simp
    then have gt: "\<forall>y\<in>set rr. riv_maxp1 s < riv_min y"
      using i il rc by force
    have st: "stored s (l @ rr) (l @ s # rr)"
      using okl okr sd gt l ok ivs unfolding stored_def by auto
    show ?thesis
      using st ins mx ivs lk False ne by (auto simp: r1 reorder_insert_apart_def)
  qed
  then show "stored s (ro_ivs r) (ro_ivs r1)" "ro_max r1 = map_option riv_min (last_opt (ro_ivs r1))"
    "r1 = r\<lparr>ro_ivs := ro_ivs r1, ro_max := ro_max r1\<rparr>" by blast+
qed

lemma reorder_insert_below_None:
  "reorder_insert_below r s = None \<longleftrightarrow>
     (\<exists>p. idx_pred_eq riv_min (riv_min s) (ro_ivs r) = Some p \<and> riv_min p \<le> riv_min s
        \<and> riv_min s < riv_maxp1 p)"
  by (auto simp: reorder_insert_below_def Let_def split: option.splits prod.splits if_splits)

lemma pred_eq_cover:
  assumes "ivs_ok xs"
  shows "k \<in> ivs_cover xs \<longleftrightarrow>
    (\<exists>p. idx_pred_eq riv_min k xs = Some p \<and> k < riv_maxp1 p)"
proof (cases "idx_pred_eq riv_min k xs")
  case None
  with ivs_ok_wf [OF assms] have "\<forall>y\<in>set xs. k < riv_min y" by (rule idx_pred_eq_None)
  with None show ?thesis by (force simp: ivs_cover_def riv_set_def)
next
  case (Some p)
  then obtain l r where d: "xs = l @ p # r" "riv_min p \<le> k" "\<forall>y\<in>set r. k < riv_min y"
    using idx_pred_eq_split [OF ivs_ok_wf [OF assms]] by metis
  have "\<forall>y\<in>set l. riv_maxp1 y < riv_min p" using assms d by auto
  with d Some show ?thesis by (fastforce simp: ivs_cover_def riv_set_def)
qed

lemma reorder_insert_below_Some:
  assumes ok: "ivs_ok (ro_ivs r)" and s: "singleton_iv s"
    and mx: "ro_max r = map_option riv_min (last_opt (ro_ivs r))"
    and m: "last_opt (ro_ivs r) = Some m" "riv_min s < riv_maxp1 m"
    and r1: "reorder_insert_below r s = Some r1"
  shows "stored s (ro_ivs r) (ro_ivs r1)" "ro_max r1 = map_option riv_min (last_opt (ro_ivs r1))"
    "r1 = r\<lparr>ro_ivs := ro_ivs r1, ro_max := ro_max r1\<rparr>"
proof -
  note sd = singleton_ivD [OF s]
  note wf = ivs_ok_wf [OF ok]
  have goal: "stored s (ro_ivs r) (ro_ivs r1) \<and> ro_max r1 = map_option riv_min (last_opt (ro_ivs r1))
    \<and> r1 = r\<lparr>ro_ivs := ro_ivs r1, ro_max := ro_max r1\<rparr>"
  proof (cases "idx_pred_eq riv_min (riv_min s) (ro_ivs r)")
    case None
    with wf have gt: "\<forall>y\<in>set (ro_ivs r). riv_min s < riv_min y" by (rule idx_pred_eq_None)
    have "r1 = reorder_insert_apart r s (idx_lookup riv_min (riv_maxp1 s) (ro_ivs r))"
      using r1 None by (auto simp: reorder_insert_below_def)
    moreover have "ro_ivs r \<noteq> []" using m by auto
    ultimately show ?thesis
      using insert_apart_split [OF ok s, of "[]" "ro_ivs r" r1] gt mx by auto
  next
    case (Some p)
    then obtain l rr where d: "ro_ivs r = l @ p # rr" "riv_min p \<le> riv_min s"
      "\<forall>y\<in>set l. riv_min y < riv_min p" "\<forall>y\<in>set rr. riv_min s < riv_min y"
      using idx_pred_eq_split [OF wf] by metis
    have notin: "\<not> riv_min s < riv_maxp1 p"
      using r1 Some d(2) reorder_insert_below_None [of r s] by auto
    have ne: "rr \<noteq> []"
    proof
      assume "rr = []"
      with d m have "m = p" by simp
      with notin m show False by simp
    qed
    have p: "iv_ok p" "\<forall>y\<in>set rr. riv_maxp1 p < riv_min y" "\<forall>y\<in>set l. riv_maxp1 y < riv_min p"
      "ivs_ok l" "ivs_ok rr" using ok d by auto
    note pl = iv_ok_less [OF p(1)]
    have pp: "(riv_min p \<le> riv_min s \<and> riv_min s < riv_maxp1 p) = False" using notin by simp
    show ?thesis
    proof (cases "riv_min s = riv_maxp1 p")
      case False
      then have "r1 = reorder_insert_apart r s (idx_lookup riv_min (riv_maxp1 s) (ro_ivs r))"
        using r1 Some pp by (simp add: reorder_insert_below_def Let_def)
      moreover have "\<forall>y\<in>set (l @ [p]). riv_maxp1 y < riv_min s"
        using p pl notin False by (auto dest!: bspec)
      ultimately show ?thesis
        using insert_apart_split [OF ok s, of "l @ [p]" rr r1] d mx ne by auto
    next
      case True
      obtain i rest where rc: "rr = i # rest" using ne by (cases rr) auto
      have i: "iv_ok i" "riv_min s < riv_min i" "\<forall>y\<in>set rest. riv_maxp1 i < riv_min y" "ivs_ok rest"
        using p(5) d(4) rc by auto
      note il = iv_ok_less [OF i(1)]
      have lmin: "\<forall>y\<in>set (l @ [p]). riv_min y < riv_maxp1 s"
        using d(2,3) sd by force
      have lk: "idx_lookup riv_min (riv_maxp1 s) (ro_ivs r) =
          (if riv_min i = riv_maxp1 s then Some i else None)"
        using idx_lookup_first [OF lmin ivs_ok_wf [OF p(5)]] d(1,4) sd rc by force
      define p1 where "p1 = append_rsample_interval p s"
      have p1: "iv_ok p1" "riv_min p1 = riv_min p" "riv_maxp1 p1 = riv_maxp1 s"
        using iv_ok_append [OF p(1) sd(1)] True by (auto simp: p1_def)
      have rrgt: "\<forall>y\<in>set rr. riv_min p < riv_min y" using d(2,4) by force
      have u1: "idx_update riv_min (riv_min p) p1 (ro_ivs r) = l @ p1 # rr"
        using d(3) rrgt d(1) idx_at(7) [of l riv_min p rr p1] by auto
      show ?thesis
      proof (cases "riv_min i = riv_maxp1 s")
        case im: True
        define p2 where "p2 = append_rsample_interval p1 i"
        have p2: "iv_ok p2" "riv_min p2 = riv_min p" "riv_maxp1 p2 = riv_maxp1 i"
          using iv_ok_append [OF p1(1) i(1)] p1 im by (auto simp: p2_def)
        have dl: "idx_delete riv_min (riv_min i) (l @ p1 # rr) = l @ p1 # rest"
          using idx_at(6) [of "l @ [p1]" riv_min i rest] d(2,3) i il p1 rc im sd by force
        have u2: "idx_update riv_min (riv_min p) p2 (l @ p1 # rest) = l @ p2 # rest"
          using d(3) rrgt rc p1(2) idx_at(7) [of l riv_min p1 rest p2] by auto
        have islast: "Some (riv_min i) = ro_max r \<longleftrightarrow> rest = []"
          using mx d(1) rc i il by (cases rest rule: rev_cases) (auto dest!: bspec)
        have "r1 = r\<lparr>ro_ivs := l @ p2 # rest,
                     ro_max := if rest = [] then Some (riv_min p) else ro_max r\<rparr>"
          using r1 Some pp True lk im u1 dl u2 islast p1
          by (auto simp: reorder_insert_below_def Let_def reorder_try_append_and_discard_def
              p1_def [symmetric] p2_def [symmetric])
        moreover have "stored s (ro_ivs r) (l @ p2 # rest)"
          using p2 p i d ok rc sd im True pl il
          by (auto simp: stored_def p2_def p1_def riv_set_def)
        ultimately show ?thesis using mx d(1) rc p2 by auto
      next
        case im: False
        have "r1 = r\<lparr>ro_ivs := l @ p1 # rr\<rparr>"
          using r1 Some pp True lk im u1 p1 idx_at(7) [of l riv_min p1 rr p1] d(3) rrgt
          by (auto simp: reorder_insert_below_def Let_def reorder_try_append_and_discard_def
              p1_def [symmetric])
        moreover have "\<forall>y\<in>set rr. riv_maxp1 s < riv_min y"
        proof -
          have "riv_maxp1 s < riv_min i" using im i sd by simp
          then show ?thesis using rc i il by force
        qed
        then have "stored s (ro_ivs r) (l @ p1 # rr)"
          using p1 p d ok sd True pl by (auto simp: stored_def p1_def riv_set_def)
        ultimately show ?thesis using mx d(1) ne by auto
      qed
    qed
  qed
  then show "stored s (ro_ivs r) (ro_ivs r1)" "ro_max r1 = map_option riv_min (last_opt (ro_ivs r1))"
    "r1 = r\<lparr>ro_ivs := ro_ivs r1, ro_max := ro_max r1\<rparr>" by blast+
qed

section \<open>Dropping the last sample\<close>

lemma delete_last_sample_spec:
  assumes ok: "ivs_ok (ro_ivs r)" and mx: "ro_max r = map_option riv_min (last_opt (ro_ivs r))"
    and ne: "ro_ivs r \<noteq> []" and d: "delete_last_sample r rc = (r', rc')"
  shows "ivs_ok (ro_ivs r')" "ivs_chain (ro_ivs r') = butlast (ivs_chain (ro_ivs r))"
    "ivs_chain (ro_ivs r) \<noteq> []"
    "rc' = nn_fragchain_unref (ce_fragchain (last (ivs_chain (ro_ivs r)))) rc"
    "ro_max r' = map_option riv_min (last_opt (ro_ivs r'))"
    "\<forall>y\<in>set (ro_ivs r'). \<exists>x\<in>set (ro_ivs r). riv_min x = riv_min y"
    "ivs_cover (ro_ivs r') \<subseteq> ivs_cover (ro_ivs r)"
    "\<exists>b. r' = r\<lparr>ro_ivs := ro_ivs r', ro_max := ro_max r', ro_discarded_bytes := b\<rparr>"
    "\<exists>q. map riv_min (ro_ivs r) = map riv_min (ro_ivs r') @ q"
proof -
  obtain l m where lm: "ro_ivs r = l @ [m]" using ne by (cases "ro_ivs r" rule: rev_cases) auto
  have m: "iv_ok m" "ivs_ok l" "\<forall>x\<in>set l. riv_maxp1 x < riv_min m" using ok lm by auto
  have lmin: "\<forall>x\<in>set l. riv_min x < riv_min m"
    using m iv_ok_less by (fastforce simp: ivs_ok_def)
  have ms: "max_sampleiv r = Some m"
    using mx lm idx_at(1) [OF lmin, of "[]"] by (simp add: max_sampleiv_def)
  have scne: "riv_sc m \<noteq> []" "riv_n_samples m = length (riv_sc m)" using m by (auto simp: iv_ok_def)
  define b where "b = ro_discarded_bytes r +
    (case ce_sampleinfo (last (riv_sc m)) of None \<Rightarrow> 0 | Some si \<Rightarrow> si_size si)"
  have rc': "rc' = nn_fragchain_unref (ce_fragchain (last (riv_sc m))) rc"
    using d ms by (simp add: delete_last_sample_def Let_def)
  have main: "ivs_ok (ro_ivs r') \<and> ivs_chain (ro_ivs r') = butlast (ivs_chain (ro_ivs r))
    \<and> ro_max r' = map_option riv_min (last_opt (ro_ivs r'))
    \<and> (\<forall>y\<in>set (ro_ivs r'). \<exists>x\<in>set (ro_ivs r). riv_min x = riv_min y)
    \<and> ivs_cover (ro_ivs r') \<subseteq> ivs_cover (ro_ivs r)
    \<and> (\<exists>b. r' = r\<lparr>ro_ivs := ro_ivs r', ro_max := ro_max r', ro_discarded_bytes := b\<rparr>)
    \<and> (\<exists>q. map riv_min (ro_ivs r) = map riv_min (ro_ivs r') @ q)"
  proof (cases "length (riv_sc m) = 1")
    case True
    then obtain e where e: "riv_sc m = [e]" by (cases "riv_sc m") auto
    have r': "r' = r\<lparr>ro_ivs := l, ro_max := map_option riv_min (last_opt l), ro_discarded_bytes := b\<rparr>"
      using d ms True lm idx_at(6) [OF lmin, of "[]"]
      by (auto simp: delete_last_sample_def Let_def b_def)
    show ?thesis using m lm e by (auto simp: r' intro!: exI [of _ b])
  next
    case False
    define m' where "m' = m\<lparr>riv_sc := butlast (riv_sc m), riv_maxp1 := riv_maxp1 m - 1,
                            riv_n_samples := riv_n_samples m - 1\<rparr>"
    have r': "r' = r\<lparr>ro_ivs := l @ [m'], ro_discarded_bytes := b\<rparr>"
      using d ms False lm idx_at(7) [OF lmin, of "[]" m']
      by (auto simp: delete_last_sample_def Let_def b_def m'_def)
    have len: "length (riv_sc m) > 1" using scne False by (cases "length (riv_sc m)") auto
    have "iv_ok m'"
      using m(1) len chain_ok_butlast [of "riv_min m" "riv_sc m" "riv_maxp1 m"]
      by (auto simp: m'_def iv_ok_def neq_Nil_conv butlast_append)
    moreover have "riv_set m' \<subseteq> riv_set m" by (auto simp: m'_def riv_set_def)
    ultimately show ?thesis
      using m lm mx scne
      by (auto simp: r' m'_def butlast_append intro!: exI [of _ b])
  qed
  show "ivs_chain (ro_ivs r) \<noteq> []" using lm scne by simp
  show "rc' = nn_fragchain_unref (ce_fragchain (last (ivs_chain (ro_ivs r)))) rc"
    using rc' lm scne by simp
  from main show "ivs_ok (ro_ivs r')" "ivs_chain (ro_ivs r') = butlast (ivs_chain (ro_ivs r))"
    "ro_max r' = map_option riv_min (last_opt (ro_ivs r'))"
    "\<forall>y\<in>set (ro_ivs r'). \<exists>x\<in>set (ro_ivs r). riv_min x = riv_min y"
    "ivs_cover (ro_ivs r') \<subseteq> ivs_cover (ro_ivs r)"
    "\<exists>b. r' = r\<lparr>ro_ivs := ro_ivs r', ro_max := ro_max r', ro_discarded_bytes := b\<rparr>"
    "\<exists>q. map riv_min (ro_ivs r) = map riv_min (ro_ivs r') @ q" by blast+
qed

section \<open>Coalescing\<close>

text \<open>On a split list the loop takes the successors that start at or below \<open>maxp1\<close> off the front.\<close>

fun absorb :: "nn_rsample_reorder \<Rightarrow> seqno \<Rightarrow> nn_rsample_reorder list
    \<Rightarrow> nn_rsample_reorder \<times> nn_rsample_reorder list" where
  "absorb s hi [] = (s, [])"
| "absorb s hi (t # ts) =
     (if riv_min t \<le> hi then absorb (append_rsample_interval s t) hi ts else (s, t # ts))"

lemma coalesce_successors_split:
  assumes "\<forall>y\<in>set l. riv_min y < riv_min s" "\<forall>y\<in>set r. riv_min s < riv_min y" "idx_wf riv_min r"
  shows "\<exists>v'. coalesce_successors s hi (l @ s # r) v =
    (let (s', r') = absorb s hi r in (s', l @ s' # r', v')) \<and> riv_min (fst (absorb s hi r)) = riv_min s"
  using assms
proof (induction r arbitrary: s v)
  case Nil
  then show ?case
    using idx_at(5) [of l riv_min s "[]"]
    by (subst coalesce_successors.simps) auto
next
  case (Cons t ts)
  have su: "idx_succ riv_min (riv_min s) (l @ s # t # ts) = Some t"
    using idx_at(5) [of l riv_min s "t # ts"] Cons.prems by auto
  show ?case
  proof (cases "riv_min t \<le> hi")
    case False
    with su show ?thesis by (subst coalesce_successors.simps) auto
  next
    case True
    define s' where "s' = append_rsample_interval s t"
    have del: "idx_delete riv_min (riv_min t) (l @ s # t # ts) = l @ s # ts"
      using idx_at(6) [of "l @ [s]" riv_min t ts] Cons.prems by force
    have up: "idx_update riv_min (riv_min s) s' (l @ s # ts) = l @ s' # ts"
      using idx_at(7) [of l riv_min s ts s'] Cons.prems by auto
    have "\<exists>v'. coalesce_successors s' hi (l @ s' # ts) True =
      (let (s'', r') = absorb s' hi ts in (s'', l @ s'' # r', v'))
      \<and> riv_min (fst (absorb s' hi ts)) = riv_min s'"
      using Cons.prems by (intro Cons.IH) (auto simp: s'_def)
    moreover have "coalesce_successors s hi (l @ s # t # ts) v =
      coalesce_successors s' hi (l @ s' # ts) True"
      using su True del up by (subst coalesce_successors.simps) (simp add: s'_def Let_def)
    ultimately show ?thesis using True by (simp add: s'_def)
  qed
qed

lemma absorb_spec:
  assumes "iv_ok s" "ivs_ok r" "\<forall>y\<in>set r. riv_maxp1 s < riv_min y" "absorb s hi r = (s', r')"
  shows "iv_ok s' \<and> riv_min s' = riv_min s \<and> ivs_ok r' \<and> (\<forall>y\<in>set r'. riv_maxp1 s' < riv_min y)
    \<and> (\<forall>y\<in>set r'. hi < riv_min y) \<and> set r' \<subseteq> set r
    \<and> riv_sc s' @ ivs_chain r' = riv_sc s @ ivs_chain r
    \<and> riv_maxp1 s \<le> riv_maxp1 s'
    \<and> riv_set s \<union> ivs_cover r \<subseteq> riv_set s' \<union> ivs_cover r'
    \<and> riv_set s' \<union> ivs_cover r' \<subseteq> riv_set s \<union> ivs_cover r \<union> {riv_maxp1 s..<hi}"
  using assms
proof (induction s hi r arbitrary: s' r' rule: absorb.induct)
  case (1 s hi)
  then show ?case by auto
next
  case (2 s hi t ts)
  note sl = iv_ok_less [OF "2.prems"(1)]
  have t: "iv_ok t" "ivs_ok ts" "\<forall>y\<in>set ts. riv_maxp1 t < riv_min y" "riv_maxp1 s < riv_min t"
    using "2.prems" by auto
  note tl = iv_ok_less [OF t(1)]
  show ?case
  proof (cases "riv_min t \<le> hi")
    case True
    have a: "iv_ok (append_rsample_interval s t)"
      using "2.prems"(1) t by (intro iv_ok_append) auto
    have IH: "iv_ok s' \<and> riv_min s' = riv_min s \<and> ivs_ok r' \<and> (\<forall>y\<in>set r'. riv_maxp1 s' < riv_min y)
      \<and> (\<forall>y\<in>set r'. hi < riv_min y) \<and> set r' \<subseteq> set ts
      \<and> riv_sc s' @ ivs_chain r' = (riv_sc s @ riv_sc t) @ ivs_chain ts
      \<and> riv_maxp1 t \<le> riv_maxp1 s'
      \<and> riv_set (append_rsample_interval s t) \<union> ivs_cover ts \<subseteq> riv_set s' \<union> ivs_cover r'
      \<and> riv_set s' \<union> ivs_cover r' \<subseteq>
          riv_set (append_rsample_interval s t) \<union> ivs_cover ts \<union> {riv_maxp1 t..<hi}"
      using "2.IH" [OF True a t(2)] t "2.prems"(4) True by simp
    have st: "riv_set s \<union> riv_set t \<subseteq> riv_set (append_rsample_interval s t)"
      "riv_set (append_rsample_interval s t) \<subseteq> riv_set s \<union> riv_set t \<union> {riv_maxp1 s..<hi}"
      "{riv_maxp1 t..<hi} \<subseteq> {riv_maxp1 s..<hi}"
      using sl tl t(4) True by (auto simp: riv_set_def)
    show ?thesis using IH st sl tl t(4) by auto
  next
    case False
    with "2.prems" t tl show ?thesis by force
  qed
qed

lemma first_touching_None:
  assumes ok: "ivs_ok xs" and n: "first_touching xs mn maxp1 = None"
  shows "\<forall>x\<in>set xs. riv_maxp1 x < mn \<or> maxp1 < riv_min x"
proof (cases "idx_pred_eq riv_min mn xs")
  case None
  show ?thesis
  proof (cases xs)
    case (Cons x xs')
    with n None have "maxp1 < riv_min x" by (auto simp: first_touching_def Let_def split: if_splits)
    moreover have "\<forall>y\<in>set xs'. riv_min x < riv_min y" using ivs_ok_wf [OF ok] Cons by simp
    ultimately show ?thesis using Cons by force
  qed simp
next
  case (Some p)
  then obtain l r where d: "xs = l @ p # r" "riv_min p \<le> mn" "\<forall>y\<in>set l. riv_min y < riv_min p"
    "\<forall>y\<in>set r. mn < riv_min y"
    using idx_pred_eq_split [OF ivs_ok_wf [OF ok]] by metis
  have "idx_succ riv_min (riv_min p) xs = first_opt r"
    using idx_at(5) [OF d(3), of r] d by force
  moreover have np: "\<not> mn \<le> riv_maxp1 p" using n Some by (auto simp: first_touching_def)
  ultimately have fr: "case first_opt r of None \<Rightarrow> True | Some x \<Rightarrow> maxp1 < riv_min x"
    using n Some by (auto simp: first_touching_def Let_def split: option.splits if_splits)
  have "\<forall>y\<in>set r. maxp1 < riv_min y"
    using fr ivs_ok_wf [OF ok] d(1) by (cases r) (auto simp: idx_wf_append)
  moreover have "\<forall>y\<in>set l. riv_maxp1 y < riv_min p" using ok d(1) by simp
  ultimately show ?thesis using d(1,2) np by force
qed

lemma first_touching_Some:
  assumes ok: "ivs_ok xs" and le: "mn < maxp1" and n: "first_touching xs mn maxp1 = Some s"
  obtains l r where "xs = l @ s # r" "\<forall>y\<in>set l. riv_maxp1 y < mn" "mn \<le> riv_maxp1 s"
    "riv_min s \<le> maxp1"
proof (cases "idx_pred_eq riv_min mn xs")
  case None
  have gt: "\<forall>y\<in>set xs. mn < riv_min y" using ivs_ok_wf [OF ok] None by (rule idx_pred_eq_None)
  from n None have "first_opt xs = Some s" "riv_min s \<le> maxp1"
    by (auto simp: first_touching_def Let_def split: option.splits if_splits)
  moreover then have "iv_ok s" using ok by (auto dest!: first_opt_SomeD)
  ultimately show thesis using gt
    by (intro that [of "[]" "tl xs"]) (auto dest!: first_opt_SomeD iv_ok_less)
next
  case (Some p)
  then obtain l r where d: "xs = l @ p # r" "riv_min p \<le> mn" "\<forall>y\<in>set l. riv_min y < riv_min p"
    "\<forall>y\<in>set r. mn < riv_min y"
    using idx_pred_eq_split [OF ivs_ok_wf [OF ok]] by metis
  have lp: "\<forall>y\<in>set l. riv_maxp1 y < riv_min p" using ok d(1) by simp
  show thesis
  proof (cases "mn \<le> riv_maxp1 p")
    case True
    with n Some have "s = p" by (simp add: first_touching_def)
    with True d lp le show thesis by (intro that [of l r]) force+
  next
    case False
    have "idx_succ riv_min (riv_min p) xs = first_opt r"
      using idx_at(5) [OF d(3), of r] d by force
    with n Some False have f: "first_opt r = Some s" "riv_min s \<le> maxp1"
      by (auto simp: first_touching_def Let_def split: option.splits if_splits)
    then obtain r' where r': "r = s # r'" by (auto dest: first_opt_SomeD)
    have "iv_ok s" using ok d(1) r' by simp
    then have "mn \<le> riv_maxp1 s" using d(4) r' iv_ok_less [of s] by simp
    with d r' lp False f show thesis by (intro that [of "l @ [p]" r']) force+
  qed
qed

text \<open>What a gap does to the intervals it touches: they become one interval \<open>c\<close> that covers it.\<close>

lemma coalesce_spec:
  assumes ok: "ivs_ok xs" and le: "mn < maxp1"
    and co: "coalesce_intervals_touching_range xs mn maxp1 = (Some (c, v), ys)"
  obtains l r where "ys = l @ c # r" "ivs_ok ys" "\<forall>y\<in>set l. riv_maxp1 y < mn"
    "set l \<union> set r \<subseteq> set xs" "ivs_chain ys = ivs_chain xs"
    "ivs_cover ys = ivs_cover xs \<union> {mn..<maxp1}" "riv_min c \<le> mn" "maxp1 \<le> riv_maxp1 c"
    "\<exists>x\<in>set xs. riv_min c = min mn (riv_min x) \<and> chain_ok (riv_min x) (riv_sc c) (riv_maxp1 c)"
proof -
  obtain s where s: "first_touching xs mn maxp1 = Some s"
    using co by (auto simp: coalesce_intervals_touching_range_def split: option.splits)
  obtain l r where d: "xs = l @ s # r" "\<forall>y\<in>set l. riv_maxp1 y < mn" "mn \<le> riv_maxp1 s"
    "riv_min s \<le> maxp1"
    using first_touching_Some [OF ok le s] by blast
  have p: "iv_ok s" "ivs_ok l" "ivs_ok r" "\<forall>y\<in>set r. riv_maxp1 s < riv_min y"
    "\<forall>y\<in>set l. riv_maxp1 y < riv_min s" "\<forall>x\<in>set l. \<forall>y\<in>set r. riv_maxp1 x < riv_min y"
    using ok d(1) by auto
  have wf: "\<forall>y\<in>set l. riv_min y < riv_min s" "\<forall>y\<in>set r. riv_min s < riv_min y" "idx_wf riv_min r"
    using ivs_ok_wf [OF ok] d(1) by (auto simp: idx_wf_append)
  obtain s1 r1 where a: "absorb s maxp1 r = (s1, r1)" by fastforce
  obtain v' where cs: "coalesce_successors s maxp1 (l @ s # r) False = (s1, l @ s1 # r1, v')"
    using coalesce_successors_split [OF wf, of maxp1 False] a by auto
  note ab = absorb_spec [OF p(1,3,4) a]
  have u: "idx_update riv_min (riv_min s1) z (l @ s1 # r1) = l @ z # r1" for z
    using wf ab by (intro idx_at(7)) force+
  define c' where "c' = s1\<lparr>riv_min := min mn (riv_min s1), riv_maxp1 := max maxp1 (riv_maxp1 s1)\<rparr>"
  have c: "c = c'" "ys = l @ c' # r1"
    using co s cs u d(1)
    by (auto simp: coalesce_intervals_touching_range_def Let_def c'_def min_def max_def not_less
        split: if_splits)
  have c'ok: "chain_ok (riv_min s) (riv_sc c') (riv_maxp1 c')" "iv_ok c'"
    using ab by (auto simp: c'_def iv_ok_def intro: chain_ok_mono)
  note sl = iv_ok_less [OF p(1)] and cl = iv_ok_less [of s1]
  have okys: "ivs_ok (l @ c' # r1)"
    using p c'ok ab d(2) by (auto simp: c'_def dest!: bspec)
  have set_c': "riv_set c' = riv_set s1 \<union> {mn..<maxp1}"
    using ab cl d(3,4) by (auto simp: c'_def riv_set_def)
  have cov: "ivs_cover (l @ c' # r1) = ivs_cover xs \<union> {mn..<maxp1}"
    using ab set_c' d(1,3) by auto
  show thesis
    using c okys cov d ab c'ok
    by (intro that [of l r1]) (auto simp: c'_def)
qed

lemma coalesce_None:
  assumes "coalesce_intervals_touching_range xs mn maxp1 = (None, ys)"
  shows "ys = xs" "first_touching xs mn maxp1 = None"
  using assms by (auto simp: coalesce_intervals_touching_range_def Let_def
      split: option.splits prod.splits if_splits)

section \<open>Outcomes of the operations\<close>

text \<open>
  Nothing changes but the count of discarded bytes; \<open>s\<close> is kept and, when the
  administration is full, the last stored chain element is dropped instead.
\<close>

definition ro_same :: "nn_reorder \<Rightarrow> nn_reorder \<Rightarrow> bool" where
  "ro_same r r' \<longleftrightarrow> (\<exists>b. r' = r\<lparr>ro_discarded_bytes := b\<rparr>)"

definition ro_kept ::
  "nn_rsample_chain_elem list \<Rightarrow> nn_reorder \<Rightarrow> refcounts \<Rightarrow> nn_reorder \<Rightarrow> refcounts \<Rightarrow> bool" where
  "ro_kept new r rc r' rc' \<longleftrightarrow>
     ro_next_seq r' = ro_next_seq r
     \<and> (if ro_n_samples r < ro_max_samples r
        then mset (ivs_chain (ro_ivs r')) = mset new + mset (ivs_chain (ro_ivs r)) \<and> rc' = rc
        else (\<exists>e. add_mset e (mset (ivs_chain (ro_ivs r'))) = mset new + mset (ivs_chain (ro_ivs r))
                \<and> rc' = nn_fragchain_unref (ce_fragchain e) rc))"

text \<open>
  Keeping one more chain element: counted while there is room, otherwise the last stored
  element goes. \<open>max_sampleiv\<close> needs to be up to date only in the second case.
\<close>

lemma kept_inv:
  assumes inv: "ro_inv r" and len1: "length new = 1" and mode: "ro_mode r = NN_REORDER_MODE_NORMAL"
    and ok: "ivs_ok (ro_ivs r1)" and ms: "mset (ivs_chain (ro_ivs r1)) = mset new + mset (ivs_chain (ro_ivs r))"
    and gt: "\<forall>y\<in>set (ro_ivs r1). ro_next_seq r < riv_min y"
    and mx: "ro_n_samples r < ro_max_samples r \<or> ro_max r1 = map_option riv_min (last_opt (ro_ivs r1))"
    and r1: "r1 = r\<lparr>ro_ivs := ro_ivs r1, ro_max := ro_max r1\<rparr>"
    and r2: "(if ro_n_samples r1 < ro_max_samples r1 then (r1\<lparr>ro_n_samples := ro_n_samples r1 + 1\<rparr>, rc)
              else delete_last_sample r1 rc) = (r2, rc')"
  shows "ro_inv (r2\<lparr>ro_max := map_option riv_min (last_opt (ro_ivs r2))\<rparr>)" "ro_kept new r rc r2 rc'"
    "ro_mode r2 = NN_REORDER_MODE_NORMAL" "ro_max_samples r2 = ro_max_samples r"
    "ro_max r1 = map_option riv_min (last_opt (ro_ivs r1)) \<Longrightarrow> ro_max r2 = map_option riv_min (last_opt (ro_ivs r2))"
    "\<exists>q. map riv_min (ro_ivs r1) = map riv_min (ro_ivs r2) @ q"
    "ro_n_samples r < ro_max_samples r \<Longrightarrow> ro_ivs r2 = ro_ivs r1"
proof -
  have sel: "ro_n_samples r1 = ro_n_samples r" "ro_max_samples r1 = ro_max_samples r"
    "ro_next_seq r1 = ro_next_seq r" "ro_mode r1 = ro_mode r" by (subst r1, simp)+
  have len: "length (ivs_chain (ro_ivs r1)) = Suc (ro_n_samples r)"
  proof -
    have "size (mset (ivs_chain (ro_ivs r1))) = size (mset new + mset (ivs_chain (ro_ivs r)))"
      using ms by simp
    with len1 inv show ?thesis by (simp add: ro_inv_def)
  qed
  have all: "ro_inv (r2\<lparr>ro_max := map_option riv_min (last_opt (ro_ivs r2))\<rparr>) \<and> ro_kept new r rc r2 rc'
    \<and> ro_mode r2 = NN_REORDER_MODE_NORMAL \<and> ro_max_samples r2 = ro_max_samples r
    \<and> (ro_max r1 = map_option riv_min (last_opt (ro_ivs r1)) \<longrightarrow>
        ro_max r2 = map_option riv_min (last_opt (ro_ivs r2)))
    \<and> (\<exists>q. map riv_min (ro_ivs r1) = map riv_min (ro_ivs r2) @ q)
    \<and> (ro_n_samples r < ro_max_samples r \<longrightarrow> ro_ivs r2 = ro_ivs r1)"
  proof (cases "ro_n_samples r < ro_max_samples r")
    case True
    with r2 sel have "r2 = r1\<lparr>ro_n_samples := ro_n_samples r1 + 1\<rparr>" "rc' = rc" by auto
    moreover have "0 < ro_next_seq r" using inv by (simp add: ro_inv_def)
    ultimately show ?thesis using True ok ms sel gt len mode
      by (simp add: ro_inv_def ro_kept_def)
  next
    case False
    with r2 sel have d: "delete_last_sample r1 rc = (r2, rc')" by simp
    from False mx have mx': "ro_max r1 = map_option riv_min (last_opt (ro_ivs r1))" by simp
    have ne: "ro_ivs r1 \<noteq> []" using len by auto
    note ds = delete_last_sample_spec [OF ok mx' ne d]
    obtain b where b: "r2 = r1\<lparr>ro_ivs := ro_ivs r2, ro_max := ro_max r2, ro_discarded_bytes := b\<rparr>"
      using ds(8) by blast
    have sel2: "ro_n_samples r2 = ro_n_samples r" "ro_max_samples r2 = ro_max_samples r"
      "ro_next_seq r2 = ro_next_seq r" "ro_mode r2 = ro_mode r" by (subst b, simp add: sel)+
    have gt2: "\<forall>y\<in>set (ro_ivs r2). ro_next_seq r < riv_min y" using gt ds(6) by force
    let ?e = "last (ivs_chain (ro_ivs r1))"
    have "add_mset ?e (mset (ivs_chain (ro_ivs r2))) = mset (ivs_chain (ro_ivs r1))"
      using ds(2,3) by (metis append_butlast_last_id mset.simps(1,2) mset_append union_mset_add_mset_right
          add.right_neutral)
    then have "ro_kept new r rc r2 rc'"
      using False ms ds(4) sel2 by (auto simp: ro_kept_def)
    moreover have "ro_inv (r2\<lparr>ro_max := map_option riv_min (last_opt (ro_ivs r2))\<rparr>)"
      using ds(1,2,5) sel2 gt2 len inv mode by (simp add: ro_inv_def)
    ultimately show ?thesis using sel2 mode ds(5,9) False by simp
  qed
  then show "ro_inv (r2\<lparr>ro_max := map_option riv_min (last_opt (ro_ivs r2))\<rparr>)" "ro_kept new r rc r2 rc'"
    "ro_mode r2 = NN_REORDER_MODE_NORMAL" "ro_max_samples r2 = ro_max_samples r"
    "ro_max r1 = map_option riv_min (last_opt (ro_ivs r1)) \<Longrightarrow> ro_max r2 = map_option riv_min (last_opt (ro_ivs r2))"
    "\<exists>q. map riv_min (ro_ivs r1) = map riv_min (ro_ivs r2) @ q"
    "ro_n_samples r < ro_max_samples r \<Longrightarrow> ro_ivs r2 = ro_ivs r1"
    by blast+
qed

lemma stored_inv:
  assumes inv: "ro_inv r" and s: "singleton_iv s" "ro_next_seq r < riv_min s"
    and mode: "ro_mode r = NN_REORDER_MODE_NORMAL"
    and st: "stored s (ro_ivs r) (ro_ivs r1)" and mx: "ro_max r1 = map_option riv_min (last_opt (ro_ivs r1))"
    and r1: "r1 = r\<lparr>ro_ivs := ro_ivs r1, ro_max := ro_max r1\<rparr>"
    and r2: "(if ro_n_samples r1 < ro_max_samples r1 then (r1\<lparr>ro_n_samples := ro_n_samples r1 + 1\<rparr>, rc)
              else delete_last_sample r1 rc) = (r2, rc')"
  shows "ro_inv r2" "ro_kept (riv_sc s) r rc r2 rc'" "ro_mode r2 = NN_REORDER_MODE_NORMAL"
    "ro_max_samples r2 = ro_max_samples r"
    "0 < ro_max_samples r \<Longrightarrow> \<exists>x\<in>set (ro_ivs r2). riv_min x \<le> riv_min s"
    "ro_n_samples r < ro_max_samples r \<Longrightarrow> ivs_cover (ro_ivs r2) = insert (riv_min s) (ivs_cover (ro_ivs r))"
proof -
  have gt: "\<forall>y\<in>set (ro_ivs r1). ro_next_seq r < riv_min y"
    using st inv s(2) by (force simp: stored_def ro_inv_def)
  from st have ok: "ivs_ok (ro_ivs r1)"
    and ms: "mset (ivs_chain (ro_ivs r1)) = mset (riv_sc s) + mset (ivs_chain (ro_ivs r))"
    by (simp_all add: stored_def)
  note k = kept_inv [OF inv singleton_ivD(5) [OF s(1)] mode ok ms gt disjI2 [OF mx] r1 r2]
  from k(5) [OF mx] have "r2\<lparr>ro_max := map_option riv_min (last_opt (ro_ivs r2))\<rparr> = r2"
    by simp
  with k show "ro_inv r2" "ro_kept (riv_sc s) r rc r2 rc'" "ro_mode r2 = NN_REORDER_MODE_NORMAL"
    "ro_max_samples r2 = ro_max_samples r" by simp_all
  from k(7) st show "ro_n_samples r < ro_max_samples r \<Longrightarrow>
      ivs_cover (ro_ivs r2) = insert (riv_min s) (ivs_cover (ro_ivs r))" by (simp add: stored_def)
  assume pos: "0 < ro_max_samples r"
  have "ivs_chain (ro_ivs r2) \<noteq> []"
  proof (cases "ro_n_samples r < ro_max_samples r")
    case True
    with k(2) singleton_ivD(5) [OF s(1)] show ?thesis
      by (auto simp: ro_kept_def)
  next
    case False
    with pos inv have "0 < ro_n_samples r" by simp
    then have "ivs_chain (ro_ivs r) \<noteq> []" using inv by (auto simp: ro_inv_def)
    with False k(2) singleton_ivD(5) [OF s(1)] show ?thesis
      by (auto simp: ro_kept_def length_Suc_conv)
  qed
  then obtain x xs where x: "ro_ivs r2 = x # xs" by (cases "ro_ivs r2") auto
  with k(6) obtain y ys where y: "ro_ivs r1 = y # ys" "riv_min y = riv_min x"
    by (cases "ro_ivs r1") auto
  from st have "riv_min s \<in> ivs_cover (ro_ivs r1)" by (simp add: stored_def)
  then obtain z where z: "z \<in> set (ro_ivs r1)" "riv_min z \<le> riv_min s"
    by (auto simp: ivs_cover_def riv_set_def)
  have "riv_min y \<le> riv_min z"
    using ivs_ok_wf [OF ok] z(1) y(1) by (auto simp: less_imp_le)
  with x y z show "\<exists>x\<in>set (ro_ivs r2). riv_min x \<le> riv_min s" by auto
qed

lemma ro_same_discard: "ro_same r (reorder_discard r s)"
  by (auto simp: ro_same_def reorder_discard_def)

lemma ro_same_sel:
  assumes "ro_same r r'"
  shows "ro_inv r \<Longrightarrow> ro_inv r'" "ro_mode r' = ro_mode r" "ro_max_samples r' = ro_max_samples r"
    "ro_ivs r' = ro_ivs r" "ro_next_seq r' = ro_next_seq r" "ro_n_samples r' = ro_n_samples r"
  using assms by (auto simp: ro_same_def ro_inv_def)

text \<open>
  The abstraction of an administration: the set of sequence numbers it has dealt with or
  holds, everything below \<open>next_seq\<close> included.
\<close>

definition ro_known :: "nn_reorder \<Rightarrow> seqno set" where
  "ro_known r = {..<ro_next_seq r} \<union> ivs_cover (ro_ivs r)"

text \<open>The three outcomes of \<open>nn_reorder_rsample\<close>: rejected, stored, delivered.\<close>

definition rsample_outcome ::
  "nn_reorder \<Rightarrow> nn_rsample_reorder \<Rightarrow> int \<Rightarrow> refcounts \<Rightarrow> reorder_outcome \<Rightarrow> bool" where
  "rsample_outcome r s adj rc out \<longleftrightarrow>
     (case out of (res, sc, r', adj', rc') \<Rightarrow>
        ro_inv r' \<and> ro_mode r' = ro_mode r \<and> ro_max_samples r' = ro_max_samples r
        \<and> ((res = NN_REORDER_REJECT \<or> res = NN_REORDER_TOO_OLD)
             \<and> sc = [] \<and> adj' = adj \<and> rc' = rc \<and> ro_same r r'
           \<or> res = NN_REORDER_ACCEPT \<and> sc = [] \<and> adj' = adj + 1 \<and> ro_kept (riv_sc s) r rc r' rc'
             \<and> ro_next_seq r < riv_min s \<and> (\<exists>x\<in>set (ro_ivs r'). riv_min x \<le> riv_min s)
             \<and> (ro_n_samples r < ro_max_samples r \<longrightarrow> ro_known r' = insert (riv_min s) (ro_known r))
           \<or> res = int (length sc) \<and> sc \<noteq> [] \<and> adj' = adj + 1 \<and> rc' = rc
             \<and> sc @ ivs_chain (ro_ivs r') = riv_sc s @ ivs_chain (ro_ivs r)
             \<and> (ro_mode r \<noteq> NN_REORDER_MODE_ALWAYS_DELIVER \<longrightarrow>
                  chain_ok (ro_next_seq r) sc (ro_next_seq r') \<and> ro_next_seq r < ro_next_seq r'
                  \<and> (ro_mode r = NN_REORDER_MODE_NORMAL \<longrightarrow> ro_known r' = insert (riv_min s) (ro_known r)))))"

lemma outcome_reject:
  assumes "ro_inv r" "res = NN_REORDER_REJECT \<or> res = NN_REORDER_TOO_OLD"
  shows "rsample_outcome r s adj rc (res, [], reorder_discard r s, adj, rc)"
  using assms ro_same_sel [OF ro_same_discard [of r s]] ro_same_discard [of r s]
  by (auto simp: rsample_outcome_def)

lemma outcome_deliver:
  assumes inv: "ro_inv r" and s: "singleton_iv s"
    and c: "riv_min s = ro_next_seq r \<or> (riv_min s > ro_next_seq r \<and> ro_mode r = NN_REORDER_MODE_MONOTONICALLY_INCREASING)
       \<or> ro_mode r = NN_REORDER_MODE_ALWAYS_DELIVER"
    and d: "reorder_deliver r s = (res, sc, r')"
  shows "rsample_outcome r s adj rc (res, sc, r', adj + 1, rc)"
proof (cases "ro_mode r = NN_REORDER_MODE_NORMAL")
  case True
  with c have seq: "riv_min s = ro_next_seq r" by auto
  note n = reorder_deliver_normal [OF inv s seq d]
  have "ro_mode r' = ro_mode r" "ro_max_samples r' = ro_max_samples r"
    using d by (auto simp: reorder_deliver_def reorder_try_append_and_discard_def Let_def
        split: prod.splits option.splits if_splits)
  moreover have "ro_known r' = insert (riv_min s) (ro_known r)" using n(7) by (auto simp: ro_known_def)
  ultimately show ?thesis using n True by (simp add: rsample_outcome_def)
next
  case False
  note sd = singleton_ivD [OF s]
  from False inv have e: "ro_ivs r = []" "ro_max r = None" by (auto simp: ro_inv_def)
  with d sd have r': "r' = r\<lparr>ro_next_seq := riv_maxp1 s\<rparr>" "sc = riv_sc s" "res = 1"
    by (auto simp: reorder_deliver_def)
  have "ro_mode r \<noteq> NN_REORDER_MODE_ALWAYS_DELIVER \<Longrightarrow> ro_next_seq r \<le> riv_min s" using c False by auto
  then show ?thesis
    using inv e sd False
    by (auto simp: rsample_outcome_def r' ro_inv_def iv_ok_def elim: chain_ok_mono)
qed

lemma outcome_stored:
  assumes inv: "ro_inv r" and s: "singleton_iv s" "ro_next_seq r < riv_min s" and pos: "0 < ro_max_samples r"
    and mode: "ro_mode r = NN_REORDER_MODE_NORMAL"
    and st: "stored s (ro_ivs r) (ro_ivs r1)" and mx: "ro_max r1 = map_option riv_min (last_opt (ro_ivs r1))"
    and r1: "r1 = r\<lparr>ro_ivs := ro_ivs r1, ro_max := ro_max r1\<rparr>"
    and r2: "(if ro_n_samples r1 < ro_max_samples r1 then (r1\<lparr>ro_n_samples := ro_n_samples r1 + 1\<rparr>, rc)
              else delete_last_sample r1 rc) = (r2, rc')"
  shows "rsample_outcome r s adj rc (NN_REORDER_ACCEPT, [], r2, adj + 1, rc')"
proof -
  note si = stored_inv [OF inv s mode st mx r1 r2]
  have "ro_next_seq r2 = ro_next_seq r" using si(2) by (simp add: ro_kept_def)
  with si(6) have "ro_n_samples r < ro_max_samples r \<Longrightarrow> ro_known r2 = insert (riv_min s) (ro_known r)"
    by (simp add: ro_known_def)
  with si pos s(2) mode show ?thesis by (simp add: rsample_outcome_def)
qed

end
