(* ===== verification/Reorder_Props.thy ===== *)
theory Reorder_Props
  imports Reorder_Inv
begin

text \<open>
  What \<open>nn_reorder_rsample\<close>, \<open>nn_reorder_gap\<close> and \<open>nn_reorder_drop_upto\<close> guarantee, and the
  properties of whole runs of the reorder administration.
\<close>

section \<open>Every call of \<open>nn_reorder_rsample\<close> has one of three outcomes\<close>

lemma idx_insert_last: "\<forall>y\<in>set l. key y < key x \<Longrightarrow> idx_insert key x l = l @ [x]"
  using idx_insert_gap [of l key x "[]"] by simp

lemma ivs_ok_min_less_last:
  assumes "ivs_ok (l @ [m])"
  shows "\<forall>y\<in>set l. riv_min y < riv_min m" "\<forall>y\<in>set l. riv_maxp1 y < riv_min m"
proof -
  have "\<forall>y\<in>set l. iv_ok y" using assms by (auto simp: ivs_ok_def)
  then have "\<forall>y\<in>set l. riv_min y < riv_maxp1 y" using iv_ok_less by blast
  with assms show "\<forall>y\<in>set l. riv_min y < riv_min m" "\<forall>y\<in>set l. riv_maxp1 y < riv_min m"
    by force+
qed

lemma stored_grow_last:
  assumes ok: "ivs_ok (l @ [m])" and s: "singleton_iv s" and eq: "riv_min s = riv_maxp1 m"
  shows "idx_update riv_min (riv_min m) (append_rsample_interval m s) (l @ [m])
      = l @ [append_rsample_interval m s]"
    "stored s (l @ [m]) (l @ [append_rsample_interval m s])"
proof -
  note sd = singleton_ivD [OF s]
  show "idx_update riv_min (riv_min m) (append_rsample_interval m s) (l @ [m])
      = l @ [append_rsample_interval m s]"
    using idx_at(7) [of l riv_min m "[]"] ivs_ok_min_less_last [OF ok] by simp
  show "stored s (l @ [m]) (l @ [append_rsample_interval m s])"
    using ok sd eq iv_ok_append [of m s] riv_set_append [of m s]
    by (auto simp: stored_def)
qed

lemma stored_new_last:
  assumes ok: "ivs_ok xs" and s: "singleton_iv s" and gt: "\<forall>x\<in>set xs. riv_maxp1 x < riv_min s"
  shows "idx_insert riv_min s xs = xs @ [s]" "stored s xs (xs @ [s])"
proof -
  note sd = singleton_ivD [OF s]
  have "\<forall>x\<in>set xs. riv_min x < riv_min s"
    using ok gt iv_ok_less by (fastforce simp: ivs_ok_def)
  then show "idx_insert riv_min s xs = xs @ [s]" by (rule idx_insert_last)
  show "stored s xs (xs @ [s])" using ok sd gt by (auto simp: stored_def)
qed

lemma ivs_all_below:
  assumes "ivs_ok (l @ [m])" "riv_maxp1 m < k"
  shows "\<forall>x\<in>set (l @ [m]). riv_maxp1 x < k"
proof -
  have "iv_ok m" using assms by auto
  from iv_ok_less [OF this] ivs_ok_min_less_last(2) [OF assms(1)] assms(2)
  show ?thesis by fastforce
qed

lemma ro_update_order:
  "r\<lparr>ro_n_samples := n, ro_ivs := x\<rparr> = r\<lparr>ro_ivs := x, ro_n_samples := n\<rparr>"
  "r\<lparr>ro_n_samples := n, ro_max := k\<rparr> = r\<lparr>ro_max := k, ro_n_samples := n\<rparr>"
  by simp_all

lemma rsample_outcomes:
  assumes inv: "ro_inv r" and s: "singleton_iv s"
  shows "rsample_outcome r s adj rc (nn_reorder_rsample r s adj full rc)"
proof -
  define deliverable where "deliverable \<longleftrightarrow> riv_min s = ro_next_seq r
     \<or> (riv_min s > ro_next_seq r \<and> ro_mode r = NN_REORDER_MODE_MONOTONICALLY_INCREASING)
     \<or> ro_mode r = NN_REORDER_MODE_ALWAYS_DELIVER"
  note rej = outcome_reject [OF inv, of NN_REORDER_REJECT s adj rc, simplified]
  note old = outcome_reject [OF inv, of NN_REORDER_TOO_OLD s adj rc, simplified]
  from inv have ok: "ivs_ok (ro_ivs r)" and mx: "ro_max r = map_option riv_min (last_opt (ro_ivs r))"
    by (auto simp: ro_inv_def)
  consider (del) deliverable | (too_old) "\<not> deliverable" "riv_min s < ro_next_seq r"
    | (keep) "\<not> deliverable" "ro_next_seq r < riv_min s"
    by (fastforce simp: deliverable_def)
  then show ?thesis
  proof cases
    case del
    obtain res sc r' where d: "reorder_deliver r s = (res, sc, r')" by (metis prod_cases3)
    from outcome_deliver [OF inv s _ d] rej del show ?thesis
      by (simp add: nn_reorder_rsample_def deliverable_def d Let_def)
  next
    case too_old
    with old show ?thesis by (simp add: nn_reorder_rsample_def deliverable_def Let_def)
  next
    case keep
    have nd: "\<not> (riv_min s = ro_next_seq r
     \<or> (riv_min s > ro_next_seq r \<and> ro_mode r = NN_REORDER_MODE_MONOTONICALLY_INCREASING)
     \<or> ro_mode r = NN_REORDER_MODE_ALWAYS_DELIVER)" using keep by (simp add: deliverable_def)
    then have mode: "ro_mode r = NN_REORDER_MODE_NORMAL"
      using keep by (cases "ro_mode r") auto
    note ne = nd keep(2)
    show ?thesis
    proof (cases "ro_ivs r" rule: rev_cases)
      case Nil
      let ?r1 = "r\<lparr>ro_ivs := [s], ro_max := Some (riv_min s)\<rparr>"
      have n0: "ro_n_samples r = 0" using inv Nil by (simp add: ro_inv_def)
      have st: "stored s (ro_ivs r) (ro_ivs ?r1)"
        using stored_new_last [of "[]" s] s Nil by simp
      show ?thesis
      proof (cases "ro_max_samples r = 0")
        case True
        with rej ne Nil show ?thesis by (simp add: nn_reorder_rsample_def Let_def ro_update_order)
      next
        case False
        with outcome_stored [OF inv s keep(2) _ mode st, where rc = rc] ne Nil n0
        show ?thesis by (simp add: nn_reorder_rsample_def Let_def ro_update_order)
      qed
    next
      case (snoc l m)
      have m: "max_sampleiv r = Some m" using ro_inv_max [OF inv] snoc by simp
      note ok' = ok [unfolded snoc]
      consider (grow) "riv_min s = riv_maxp1 m" | (apart) "riv_min s > riv_maxp1 m"
        | (below) "riv_min s < riv_maxp1 m" by (rule linorder_cases)
      then show ?thesis
      proof cases
        case grow
        let ?r1 = "r\<lparr>ro_ivs := l @ [append_rsample_interval m s]\<rparr>"
        note st = stored_grow_last [OF ok' s grow]
        have mx1: "ro_max ?r1 = map_option riv_min (last_opt (ro_ivs ?r1))"
          using mx snoc by simp
        from outcome_stored [OF inv s keep(2) _ mode _ mx1, where rc = rc] st snoc
        have "ro_n_samples r < ro_max_samples r \<Longrightarrow> rsample_outcome r s adj rc
            (NN_REORDER_ACCEPT, [], ?r1\<lparr>ro_n_samples := ro_n_samples r + 1\<rparr>, adj + 1, rc)"
          by simp
        with rej ne m snoc grow st show ?thesis by (simp add: nn_reorder_rsample_def Let_def ro_update_order)
      next
        case apart
        let ?r1 = "r\<lparr>ro_ivs := (l @ [m]) @ [s], ro_max := Some (riv_min s)\<rparr>"
        note st = stored_new_last [OF ok' s ivs_all_below [OF ok' apart]]
        from outcome_stored [OF inv s keep(2) _ mode, of ?r1, where rc = rc] st snoc
        have "ro_n_samples r < ro_max_samples r \<Longrightarrow> rsample_outcome r s adj rc
            (NN_REORDER_ACCEPT, [], ?r1\<lparr>ro_n_samples := ro_n_samples r + 1\<rparr>, adj + 1, rc)"
          by simp
        with rej ne m snoc apart st show ?thesis by (simp add: nn_reorder_rsample_def Let_def ro_update_order)
      next
        case below
        show ?thesis
        proof (cases "reorder_insert_below r s")
          case None
          with rej ne m snoc below show ?thesis by (simp add: nn_reorder_rsample_def Let_def ro_update_order)
        next
          case (Some r1)
          have "ivs_chain (ro_ivs r) \<noteq> []" using ok' snoc by (auto simp: iv_ok_def)
          then have pos: "0 < ro_max_samples r" using inv by (auto simp: ro_inv_def)
          from snoc have lm: "last_opt (ro_ivs r) = Some m" by simp
          note st = reorder_insert_below_Some [OF ok s mx lm below Some]
          obtain r2 rc' where r2: "(if ro_n_samples r1 < ro_max_samples r1
              then (r1\<lparr>ro_n_samples := ro_n_samples r1 + 1\<rparr>, rc)
              else delete_last_sample r1 rc) = (r2, rc')" by (meson surj_pair)
          from outcome_stored [OF inv s keep(2) pos mode st r2] rej ne m snoc below
          show ?thesis by (simp add: nn_reorder_rsample_def Some r2 Let_def)
        qed
      qed
    qed
  qed
qed

section \<open>Every call of \<open>nn_reorder_gap\<close> has one of five outcomes\<close>

definition gap_elem :: "nn_rdata \<Rightarrow> nn_rsample_chain_elem" where
  "gap_elem rdata = \<lparr>ce_fragchain = [rdata], ce_sampleinfo = None\<rparr>"

definition gap_outcome ::
  "nn_reorder \<Rightarrow> nn_rdata \<Rightarrow> seqno \<Rightarrow> seqno \<Rightarrow> int \<Rightarrow> refcounts \<Rightarrow> reorder_outcome \<Rightarrow> bool" where
  "gap_outcome r rdata mn maxp1 adj rc out \<longleftrightarrow>
     (case out of (res, sc, r', adj', rc') \<Rightarrow>
        ro_inv r' \<and> ro_mode r' = ro_mode r \<and> ro_max_samples r' = ro_max_samples r
        \<and> ((res = NN_REORDER_TOO_OLD \<and> maxp1 \<le> ro_next_seq r \<or> res = NN_REORDER_REJECT)
             \<and> sc = [] \<and> adj' = adj \<and> rc' = rc \<and> ro_next_seq r' = ro_next_seq r
             \<and> ivs_chain (ro_ivs r') = ivs_chain (ro_ivs r)
           \<or> res = NN_REORDER_ACCEPT \<and> sc = [] \<and> adj' = adj \<and> rc' = rc
             \<and> ivs_chain (ro_ivs r') = ivs_chain (ro_ivs r) \<and> ro_next_seq r \<le> ro_next_seq r'
             \<and> ro_known r' = ro_known r \<union> {mn..<maxp1}
           \<or> res = NN_REORDER_ACCEPT \<and> sc = [] \<and> adj' = adj + 1 \<and> ro_kept [gap_elem rdata] r rc r' rc'
             \<and> ro_next_seq r < mn
             \<and> (ro_n_samples r < ro_max_samples r \<longrightarrow> ro_known r' = ro_known r \<union> {mn..<maxp1})
           \<or> res = int (length sc) \<and> sc \<noteq> [] \<and> adj' = adj \<and> rc' = rc
             \<and> sc @ ivs_chain (ro_ivs r') = ivs_chain (ro_ivs r)
             \<and> chain_ok (ro_next_seq r) sc (ro_next_seq r') \<and> ro_next_seq r < ro_next_seq r'
             \<and> maxp1 \<le> ro_next_seq r' \<and> ro_known r' = ro_known r \<union> {mn..<maxp1}))"

lemma first_touching_None_split:
  assumes ok: "ivs_ok xs" and n: "first_touching xs mn maxp1 = None" and le: "mn < maxp1"
  obtains l rr where "xs = l @ rr" "\<forall>y\<in>set l. riv_maxp1 y < mn" "\<forall>y\<in>set rr. maxp1 < riv_min y"
    "\<forall>y\<in>set l. riv_min y < mn"
proof -
  note t = first_touching_None [OF ok n]
  have il: "\<And>y. y \<in> set xs \<Longrightarrow> riv_min y < riv_maxp1 y"
    using ok iv_ok_less by (auto simp: ivs_ok_def)
  obtain l m rr where d: "xs = l @ m @ rr" "\<forall>y\<in>set l. riv_min y < mn" "\<forall>y\<in>set rr. mn < riv_min y"
    "m = [] \<or> (\<exists>x. m = [x] \<and> riv_min x = mn)"
    using idx_split_key [OF ivs_ok_wf [OF ok], of mn] by blast
  have m: "m = []"
  proof (rule ccontr)
    assume "m \<noteq> []"
    with d(4) obtain x where "m = [x]" "riv_min x = mn" by blast
    moreover from this d(1) have "x \<in> set xs" by simp
    ultimately have "x \<in> set xs" "riv_min x = mn" by blast+
    with t il [of x] le show False by force
  qed
  have "\<forall>y\<in>set l. riv_maxp1 y < mn"
  proof
    fix y assume "y \<in> set l"
    with d(1,2) t le show "riv_maxp1 y < mn" by force
  qed
  moreover have "\<forall>y\<in>set rr. maxp1 < riv_min y"
  proof
    fix y assume y: "y \<in> set rr"
    with d(1) have "y \<in> set xs" by auto
    with y d(3) t il [of y] show "maxp1 < riv_min y" by force
  qed
  ultimately show thesis using d m that by simp
qed

lemma iv_ok_gap_interval: "mn < maxp1 \<Longrightarrow> iv_ok (gap_interval rdata mn maxp1)"
  by (simp add: iv_ok_def gap_interval_def)

lemma gap_stored_outcome:
  assumes inv: "ro_inv r" and mode: "ro_mode r = NN_REORDER_MODE_NORMAL"
    and n: "first_touching (ro_ivs r) mn maxp1 = None" and le: "mn < maxp1" "ro_next_seq r < mn"
    and room: "\<not> (ro_n_samples r = ro_max_samples r
                \<and> (case max_sampleiv r of None \<Rightarrow> True | Some m \<Rightarrow> mn > riv_maxp1 m))"
    and r1: "r1 = reorder_insert_gap r rdata mn maxp1"
    and r2: "(if ro_n_samples r1 < ro_max_samples r1 then (r1\<lparr>ro_n_samples := ro_n_samples r1 + 1\<rparr>, rc)
              else delete_last_sample r1 rc) = (r2, rc2)"
  shows "gap_outcome r rdata mn maxp1 adj rc
    (NN_REORDER_ACCEPT, [], r2\<lparr>ro_max := map_option riv_min (last_opt (ro_ivs r2))\<rparr>, adj + 1, rc2)"
proof -
  from inv have ok: "ivs_ok (ro_ivs r)" by (simp add: ro_inv_def)
  obtain l rr where d: "ro_ivs r = l @ rr" "\<forall>y\<in>set l. riv_maxp1 y < mn" "\<forall>y\<in>set rr. maxp1 < riv_min y"
    "\<forall>y\<in>set l. riv_min y < mn" using first_touching_None_split [OF ok n le(1)] .
  let ?g = "gap_interval rdata mn maxp1"
  have g: "riv_min ?g = mn" "riv_maxp1 ?g = maxp1" "riv_sc ?g = [gap_elem rdata]"
    by (simp_all add: gap_interval_def gap_elem_def)
  have "\<forall>y\<in>set rr. mn < riv_min y" using d(3) le(1) by auto
  with idx_insert_gap [of l riv_min ?g rr] d(4)
  have ivs1: "ro_ivs r1 = l @ ?g # rr" by (simp add: r1 reorder_insert_gap_def g d(1))
  have ok1: "ivs_ok (ro_ivs r1)"
    using ok d le iv_ok_gap_interval [OF le(1)] by (auto simp: ivs1 g)
  have ms: "mset (ivs_chain (ro_ivs r1)) = mset [gap_elem rdata] + mset (ivs_chain (ro_ivs r))"
    by (simp add: ivs1 d(1) g)
  have gt: "\<forall>y\<in>set (ro_ivs r1). ro_next_seq r < riv_min y"
    using inv le by (auto simp: ivs1 g ro_inv_def d(1))
  have mx: "ro_n_samples r < ro_max_samples r \<or> ro_max r1 = map_option riv_min (last_opt (ro_ivs r1))"
  proof (rule disjCI)
    assume "\<not> ro_max r1 = map_option riv_min (last_opt (ro_ivs r1))"
    moreover have "ro_max r1 = map_option riv_min (last_opt (l @ rr))"
      using inv by (simp add: r1 reorder_insert_gap_def ro_inv_def d(1))
    ultimately have "rr = []" by (auto simp: ivs1 split: if_splits)
    with d(1,2) inv room ro_inv_max [OF inv] show "ro_n_samples r < ro_max_samples r"
      by (auto simp: ro_inv_def dest!: last_opt_in_set split: option.splits)
  qed
  have r1': "r1 = r\<lparr>ro_ivs := ro_ivs r1, ro_max := ro_max r1\<rparr>"
    by (simp add: r1 reorder_insert_gap_def)
  note k = kept_inv [OF inv _ mode ok1 ms gt mx r1' r2]
  have "ro_known (r2\<lparr>ro_max := map_option riv_min (last_opt (ro_ivs r2))\<rparr>) = ro_known r \<union> {mn..<maxp1}"
    if "ro_n_samples r < ro_max_samples r"
    using that k(2,7) by (auto simp: ro_known_def ro_kept_def ivs1 d(1) riv_set_def g)
  with k mode le show ?thesis by (auto simp: gap_outcome_def ro_kept_def)
qed

lemma gap_deliver_outcome:
  assumes inv: "ro_inv r" and mode: "ro_mode r = NN_REORDER_MODE_NORMAL"
    and co: "coalesce_intervals_touching_range (ro_ivs r) mn maxp1 = (Some (c, v), ys)"
    and le: "mn < maxp1" "riv_min c \<le> ro_next_seq r"
  shows "gap_outcome r rdata mn maxp1 adj rc
    (int (riv_n_samples c), riv_sc c,
     r\<lparr>ro_ivs := idx_delete riv_min (riv_min c) ys, ro_next_seq := riv_maxp1 c,
       ro_max := map_option riv_min (last_opt (idx_delete riv_min (riv_min c) ys)),
       ro_n_samples := ro_n_samples r - riv_n_samples c\<rparr>, adj, rc)"
proof -
  from inv have ok: "ivs_ok (ro_ivs r)" by (simp add: ro_inv_def)
  obtain l rr where d: "ys = l @ c # rr" "ivs_ok ys" "\<forall>y\<in>set l. riv_maxp1 y < mn"
    "set l \<union> set rr \<subseteq> set (ro_ivs r)" "ivs_chain ys = ivs_chain (ro_ivs r)"
    "riv_min c \<le> mn" "maxp1 \<le> riv_maxp1 c" "ivs_cover ys = ivs_cover (ro_ivs r) \<union> {mn..<maxp1}"
    and x: "\<exists>x\<in>set (ro_ivs r). riv_min c = min mn (riv_min x) \<and> chain_ok (riv_min x) (riv_sc c) (riv_maxp1 c)"
    by (rule coalesce_spec [OF ok le(1) co])
  from x obtain x where x: "x \<in> set (ro_ivs r)" "riv_min c = min mn (riv_min x)"
    "chain_ok (riv_min x) (riv_sc c) (riv_maxp1 c)" by blast
  have above: "\<And>y. y \<in> set (ro_ivs r) \<Longrightarrow> ro_next_seq r < riv_min y \<and> riv_min y < riv_maxp1 y"
    using inv ok iv_ok_less by (auto simp: ro_inv_def ivs_ok_def)
  from x above le have mn: "mn \<le> ro_next_seq r" by fastforce
  have l: "l = []"
  proof (cases l)
    case (Cons y l')
    with d(3,4) have "y \<in> set (ro_ivs r)" "riv_maxp1 y < mn" by auto
    with above mn show ?thesis by fastforce
  qed simp
  have c: "iv_ok c" "\<forall>y\<in>set rr. riv_maxp1 c < riv_min y" "ivs_ok rr" using d(1,2) l by auto
  have "\<forall>y\<in>set rr. riv_min c < riv_min y" using c iv_ok_less [OF c(1)] by fastforce
  then have del: "idx_delete riv_min (riv_min c) ys = rr"
    using idx_at(6) [of "[]" riv_min c rr] by (simp add: d(1) l)
  have ch: "chain_ok (ro_next_seq r) (riv_sc c) (riv_maxp1 c)"
    using x(3) above [OF x(1)] by (auto elim: chain_ok_mono)
  have "ro_next_seq r < riv_maxp1 c"
    using chain_ok_length [OF ch] c(1) by (cases "riv_sc c") (auto simp: iv_ok_def)
  moreover have chn: "riv_sc c @ ivs_chain rr = ivs_chain (ro_ivs r)" using d(5) by (simp add: d(1) l)
  moreover have "riv_n_samples c = length (riv_sc c)" "riv_sc c \<noteq> []" using c by (auto simp: iv_ok_def)
  moreover have "ro_n_samples r = length (riv_sc c) + length (ivs_chain rr)"
    using inv arg_cong [OF chn, of length] by (simp add: ro_inv_def)
  moreover have "ro_known (r\<lparr>ro_ivs := rr, ro_next_seq := riv_maxp1 c,
       ro_max := map_option riv_min (last_opt rr), ro_n_samples := n\<rparr>)
     = ro_known r \<union> {mn..<maxp1}" (is "ro_known ?r' = _") for n
  proof -
    have "ro_known ?r' = {..<ro_next_seq r} \<union> riv_set c \<union> ivs_cover rr"
      using le(2) \<open>ro_next_seq r < riv_maxp1 c\<close> by (auto simp: ro_known_def riv_set_def)
    also have "\<dots> = ro_known r \<union> {mn..<maxp1}" using d(8) by (auto simp: ro_known_def d(1) l)
    finally show ?thesis .
  qed
  ultimately show ?thesis
    using inv c ch mode d(7) by (auto simp: gap_outcome_def del ro_inv_def)
qed

lemma gap_outcomes:
  assumes inv: "ro_inv r" and le: "mn < maxp1"
  shows "gap_outcome r rdata mn maxp1 adj rc (nn_reorder_gap r rdata mn maxp1 adj rc)"
proof -
  from inv have ok: "ivs_ok (ro_ivs r)" by (simp add: ro_inv_def)
  have same: "r\<lparr>ro_max := map_option riv_min (last_opt (ro_ivs r))\<rparr> = r"
    using inv by (simp add: ro_inv_def)
  have above: "\<And>y. y \<in> set (ro_ivs r) \<Longrightarrow> ro_next_seq r < riv_min y \<and> riv_min y < riv_maxp1 y"
    using inv ok iv_ok_less by (auto simp: ro_inv_def ivs_ok_def)
  consider (old) "maxp1 \<le> ro_next_seq r" | (mode) "ro_next_seq r < maxp1" "ro_mode r \<noteq> NN_REORDER_MODE_NORMAL"
    | (norm) "ro_next_seq r < maxp1" "ro_mode r = NN_REORDER_MODE_NORMAL" by linarith
  then show ?thesis
  proof cases
    case old
    with inv show ?thesis by (simp add: nn_reorder_gap_def gap_outcome_def)
  next
    case mode
    with inv show ?thesis by (simp add: nn_reorder_gap_def gap_outcome_def)
  next
    case norm
    obtain ov ys where co: "coalesce_intervals_touching_range (ro_ivs r) mn maxp1 = (ov, ys)" by fastforce
    show ?thesis
    proof (cases ov)
      case None
      note cn = coalesce_None [OF co [unfolded None]]
      have nt: "\<forall>x\<in>set (ro_ivs r). riv_maxp1 x < mn \<or> maxp1 < riv_min x"
        using first_touching_None [OF ok cn(2)] .
      consider (nxt) "mn \<le> ro_next_seq r" | (rej) "ro_next_seq r < mn" "ro_n_samples r = ro_max_samples r
                \<and> (case max_sampleiv r of None \<Rightarrow> True | Some m \<Rightarrow> mn > riv_maxp1 m)"
        | (st) "ro_next_seq r < mn" "\<not> (ro_n_samples r = ro_max_samples r
                \<and> (case max_sampleiv r of None \<Rightarrow> True | Some m \<Rightarrow> mn > riv_maxp1 m))" by linarith
      then show ?thesis
      proof cases
        case nxt
        with nt above have "\<forall>x\<in>set (ro_ivs r). maxp1 < riv_min x" by fastforce
        with inv norm nxt show ?thesis
          by (auto simp: nn_reorder_gap_def co None gap_outcome_def ro_inv_def ro_known_def)
      next
        case rej
        with inv norm show ?thesis
          by (simp add: nn_reorder_gap_def co None gap_outcome_def same)
      next
        case st
        define r1 where "r1 = reorder_insert_gap r rdata mn maxp1"
        obtain r2 rc2 where r2: "(if ro_n_samples r1 < ro_max_samples r1
            then (r1\<lparr>ro_n_samples := ro_n_samples r1 + 1\<rparr>, rc) else delete_last_sample r1 rc) = (r2, rc2)"
          by (meson surj_pair)
        from gap_stored_outcome [OF inv norm(2) cn(2) le st r1_def r2] norm st
        show ?thesis
          by (auto simp: nn_reorder_gap_def co None r1_def [symmetric] Let_def r2 simp del: One_nat_def)
      qed
    next
      case (Some cv)
      obtain c v where cv: "cv = (c, v)" by fastforce
      note co = co [unfolded Some cv]
      show ?thesis
      proof (cases "riv_min c \<le> ro_next_seq r")
        case True
        with gap_deliver_outcome [OF inv norm(2) co le True] norm
        show ?thesis by (simp add: nn_reorder_gap_def co Let_def)
      next
        case False
        obtain l rr where d: "ys = l @ c # rr" "ivs_ok ys"
          "set l \<union> set rr \<subseteq> set (ro_ivs r)" "ivs_chain ys = ivs_chain (ro_ivs r)"
          "ivs_cover ys = ivs_cover (ro_ivs r) \<union> {mn..<maxp1}"
          by (rule coalesce_spec [OF ok le co])
        have "\<forall>y\<in>set ys. ro_next_seq r < riv_min y" using d(1,3) above False by auto
        with inv norm d False show ?thesis
          by (auto simp: nn_reorder_gap_def co gap_outcome_def ro_inv_def ro_known_def)
      qed
    qed
  qed
qed

section \<open>Runs\<close>

text \<open>
  A run is what the receive thread does to one administration: a complete sample arrives
  (its rdatas biased) and the fragment chain is adjusted afterwards, as \<open>handle_SPDP\<close> and
  \<open>handle_regular\<close> do; a gap \<open>[mn,maxp1)\<close> arrives, as in \<open>handle_Gap\<close> and \<open>handle_Heartbeat\<close>; or
  everything below a sequence number is dropped.
\<close>

datatype ro_event = Rsample "nn_rdata list" nn_rsample_info bool
  | Gap rmsg_id seqno seqno
  | Drop_upto seqno

fun ro_event_ok :: "ro_event \<Rightarrow> bool" where
  "ro_event_ok (Gap m mn maxp1) \<longleftrightarrow> mn < maxp1"
| "ro_event_ok _ \<longleftrightarrow> True"

fun ro_do :: "ro_event \<Rightarrow> nn_reorder \<times> refcounts \<Rightarrow> nn_rsample_chain_elem list \<times> nn_reorder \<times> refcounts" where
  "ro_do (Rsample frags si full) (r, rc) =
     (let (res, sc, r', adj, rc') = nn_reorder_rsample r (singleton_rsample frags si) 0 full rc
      in (if res > 0 then sc else [], r', nn_fragchain_adjust_refcount frags adj rc'))"
| "ro_do (Gap m mn maxp1) (r, rc) =
     (let (gap, rc1) = nn_rdata_newgap m rc;
          (res, sc, r', adj, rc2) = nn_reorder_gap r gap mn maxp1 0 rc1
      in (if res > 0 then sc else [], r', nn_fragchain_adjust_refcount [gap] adj rc2))"
| "ro_do (Drop_upto maxp1) (r, rc) = ([], nn_reorder_drop_upto r maxp1 rc)"

text \<open>All that a run delivers, in order, and the final state.\<close>

fun ro_run :: "ro_event list \<Rightarrow> nn_reorder \<times> refcounts \<Rightarrow> nn_rsample_chain_elem list \<times> nn_reorder \<times> refcounts" where
  "ro_run [] st = ([], st)"
| "ro_run (e # es) st =
     (let (d, st') = ro_do e st; (ds, st'') = ro_run es st' in (d @ ds, st''))"

text \<open>The bias the rdatas of an arriving sample carry, which the adjustment takes off.\<close>

fun ro_bias :: "rmsg_id \<Rightarrow> ro_event \<Rightarrow> int" where
  "ro_bias m (Rsample frags si full) = frag_refs m frags * RMSG_REFCOUNT_RDATA_BIAS"
| "ro_bias m _ = 0"

definition ro_step_ok ::
  "ro_event \<Rightarrow> nn_reorder \<Rightarrow> refcounts \<Rightarrow> nn_rsample_chain_elem list \<Rightarrow> nn_reorder \<Rightarrow> refcounts \<Rightarrow> bool" where
  "ro_step_ok e r rc d r' rc' \<longleftrightarrow>
     ro_inv r' \<and> ro_mode r' = ro_mode r \<and> ro_max_samples r' = ro_max_samples r
     \<and> (ro_mode r \<noteq> NN_REORDER_MODE_ALWAYS_DELIVER \<longrightarrow> chain_ok (ro_next_seq r) d (ro_next_seq r'))
     \<and> (\<forall>m. rc' m = rc m - ro_bias m e + chain_refs m d
               + chain_refs m (ivs_chain (ro_ivs r')) - chain_refs m (ivs_chain (ro_ivs r)))"

lemma chain_refs_mset: "chain_refs m sc = (\<Sum>e\<in>#mset sc. frag_refs m (ce_fragchain e))"
  by (simp add: chain_refs_def flip: sum_mset_sum_list)

lemma ro_kept_refs:
  assumes "ro_kept new r rc r' rc'"
  shows "rc' m - chain_refs m (ivs_chain (ro_ivs r')) =
    rc m - chain_refs m (ivs_chain (ro_ivs r)) - chain_refs m new"
proof (cases "ro_n_samples r < ro_max_samples r")
  case True
  with assms show ?thesis by (simp add: ro_kept_def chain_refs_mset)
next
  case False
  with assms obtain e where e: "add_mset e (mset (ivs_chain (ro_ivs r'))) = mset new + mset (ivs_chain (ro_ivs r))"
    "rc' = nn_fragchain_unref (ce_fragchain e) rc" by (auto simp: ro_kept_def)
  have "frag_refs m (ce_fragchain e) + chain_refs m (ivs_chain (ro_ivs r')) =
      chain_refs m new + chain_refs m (ivs_chain (ro_ivs r))"
    using arg_cong [OF e(1), of "\<lambda>M. \<Sum>e\<in>#M. frag_refs m (ce_fragchain e)"]
    by (simp add: chain_refs_mset)
  with e(2) show ?thesis by (simp add: fragchain_unref_count)
qed

lemma sample_chain_unref_count:
  "sample_chain_unref sc rc m = rc m - chain_refs m sc"
  by (induction sc arbitrary: rc) (auto simp: fragchain_unref_count)

lemma singleton_iv_rsample [simp]: "singleton_iv (singleton_rsample frags si)"
  by (auto simp: singleton_iv_def)

lemma ro_do_Rsample:
  assumes "ro_inv r" "ro_do (Rsample frags si full) (r, rc) = (d, r', rc')"
  shows "ro_step_ok (Rsample frags si full) r rc d r' rc'"
proof -
  obtain res sc r1 adj rc1 where n:
    "nn_reorder_rsample r (singleton_rsample frags si) 0 full rc = (res, sc, r1, adj, rc1)"
    by (metis prod_cases5)
  note out = rsample_outcomes [OF assms(1), of "singleton_rsample frags si" 0 rc full, unfolded n rsample_outcome_def prod.case]
  have res: "r' = r1" "rc' = nn_fragchain_adjust_refcount frags adj rc1" "d = (if res > 0 then sc else [])"
    using assms(2) n by auto
  have c: "rc' m = rc1 m - frag_refs m frags * RMSG_REFCOUNT_RDATA_BIAS + frag_refs m frags * adj" for m
    by (simp add: res fragchain_adjust_count algebra_simps)
  have sc: "chain_refs m (riv_sc (singleton_rsample frags si)) = frag_refs m frags" for m
    by (simp add: singleton_rsample_def)
  consider (rej) "(res = NN_REORDER_REJECT \<or> res = NN_REORDER_TOO_OLD)" "sc = []" "adj = 0" "rc1 = rc" "ro_same r r1"
    | (acc) "res = NN_REORDER_ACCEPT" "sc = []" "adj = 1" "ro_kept (riv_sc (singleton_rsample frags si)) r rc r1 rc1"
    | (del) "res = int (length sc)" "sc \<noteq> []" "adj = 1" "rc1 = rc"
        "sc @ ivs_chain (ro_ivs r1) = riv_sc (singleton_rsample frags si) @ ivs_chain (ro_ivs r)"
        "ro_mode r \<noteq> NN_REORDER_MODE_ALWAYS_DELIVER \<longrightarrow> chain_ok (ro_next_seq r) sc (ro_next_seq r1)"
    using out by auto
  then show ?thesis
  proof cases
    case rej
    then show ?thesis
      using out ro_same_sel [OF rej(5)] by (auto simp: ro_step_ok_def res(1,3) c)
  next
    case acc
    then have "ro_next_seq r1 = ro_next_seq r" by (simp add: ro_kept_def)
    moreover have "rc1 m = rc m + chain_refs m (ivs_chain (ro_ivs r1)) - chain_refs m (ivs_chain (ro_ivs r))
        - frag_refs m frags" for m
      using ro_kept_refs [OF acc(4), of m] sc [of m] by simp
    ultimately show ?thesis using acc(1-3) out
      by (simp add: ro_step_ok_def res(1,3) c NN_REORDER_ACCEPT_def)
  next
    case del
    have "chain_refs m sc =
       frag_refs m frags + chain_refs m (ivs_chain (ro_ivs r)) - chain_refs m (ivs_chain (ro_ivs r1))" for m
      using arg_cong [OF del(5), of "chain_refs m"] sc [of m] by simp
    with del out show ?thesis by (simp add: ro_step_ok_def res(1,3) c)
  qed
qed

lemma ro_do_Gap:
  assumes "ro_inv r" "mn < maxp1" "ro_do (Gap m mn maxp1) (r, rc) = (d, r', rc')"
  shows "ro_step_ok (Gap m mn maxp1) r rc d r' rc'"
proof -
  obtain gap rc0 where g: "nn_rdata_newgap m rc = (gap, rc0)" by fastforce
  then have gap: "rd_rmsg gap = m" "rc0 = rc(m := rc m + RMSG_REFCOUNT_RDATA_BIAS)"
    by (auto simp: nn_rdata_newgap_def nn_rdata_new_def nn_rdata_addbias_def nn_rmsg_addbias_def Let_def)
  obtain res sc r1 adj rc1 where n: "nn_reorder_gap r gap mn maxp1 0 rc0 = (res, sc, r1, adj, rc1)"
    by (metis prod_cases5)
  note out = gap_outcomes [OF assms(1,2), of gap 0 rc0, unfolded n gap_outcome_def prod.case]
  have res: "r' = r1" "rc' = nn_fragchain_adjust_refcount [gap] adj rc1" "d = (if res > 0 then sc else [])"
    using assms(3) n g by auto
  have c: "rc' k = rc1 k - (if k = m then RMSG_REFCOUNT_RDATA_BIAS - adj else 0)" for k
    by (simp add: res fragchain_adjust_count gap del: nn_fragchain_adjust_refcount.simps)
  consider (same) "res \<le> 0" "sc = []" "adj = 0" "rc1 = rc0" "ivs_chain (ro_ivs r1) = ivs_chain (ro_ivs r)"
      "ro_next_seq r \<le> ro_next_seq r1"
    | (acc) "res = NN_REORDER_ACCEPT" "sc = []" "adj = 1" "ro_kept [gap_elem gap] r rc0 r1 rc1"
    | (del) "res = int (length sc)" "sc \<noteq> []" "adj = 0" "rc1 = rc0"
        "sc @ ivs_chain (ro_ivs r1) = ivs_chain (ro_ivs r)" "chain_ok (ro_next_seq r) sc (ro_next_seq r1)"
    using out by (auto simp: reorder_results)
  then show ?thesis
  proof cases
    case same
    then show ?thesis using out gap by (auto simp: ro_step_ok_def res(1,3) c)
  next
    case acc
    then have "ro_next_seq r1 = ro_next_seq r" by (simp add: ro_kept_def)
    moreover have "rc1 k = rc0 k + chain_refs k (ivs_chain (ro_ivs r1)) - chain_refs k (ivs_chain (ro_ivs r))
        - (if m = k then 1 else 0)" for k
      using ro_kept_refs [OF acc(4), of k] by (auto simp: gap_elem_def gap(1))
    ultimately show ?thesis using acc(1-3) out
      by (auto simp: ro_step_ok_def res(1,3) c NN_REORDER_ACCEPT_def gap)
  next
    case del
    have "chain_refs k sc = chain_refs k (ivs_chain (ro_ivs r)) - chain_refs k (ivs_chain (ro_ivs r1))" for k
      using arg_cong [OF del(5), of "chain_refs k"] by simp
    with del out gap show ?thesis by (auto simp: ro_step_ok_def res(1,3) c)
  qed
qed

lemma ro_do_Drop_upto:
  assumes "ro_inv r" "ro_do (Drop_upto maxp1) (r, rc) = (d, r', rc')"
  shows "ro_step_ok (Drop_upto maxp1) r rc d r' rc'"
proof -
  define gap where "gap = nn_rdata_new 0 0 0 0 0 0"
  obtain res sc r1 adj rc1 where n: "nn_reorder_gap r gap 1 maxp1 0 rc = (res, sc, r1, adj, rc1)"
    by (metis prod_cases5)
  have res: "d = []" "r' = r1" "rc' = (if res > 0 then sample_chain_unref sc rc1 else rc1)"
    using assms(2) n by (auto simp: nn_reorder_drop_upto_def Let_def gap_def)
  have next1: "1 \<le> ro_next_seq r" using assms(1) by (simp add: ro_inv_def)
  show ?thesis
  proof (cases "maxp1 \<le> 1")
    case True
    with n next1 have "r1 = r" "rc1 = rc" "res = NN_REORDER_TOO_OLD" by (auto simp: nn_reorder_gap_def)
    with assms(1) show ?thesis by (simp add: ro_step_ok_def res reorder_results)
  next
    case False
    then have le: "1 < maxp1" by simp
    note out = gap_outcomes [OF assms(1) le, of gap 0 rc, unfolded n gap_outcome_def prod.case]
    consider (same) "res \<le> 0" "rc1 = rc" "ivs_chain (ro_ivs r1) = ivs_chain (ro_ivs r)"
        "ro_next_seq r \<le> ro_next_seq r1"
      | (del) "res > 0" "rc1 = rc"
          "sc @ ivs_chain (ro_ivs r1) = ivs_chain (ro_ivs r)" "ro_next_seq r < ro_next_seq r1"
      using out next1 by (auto simp: reorder_results)
    then show ?thesis
    proof cases
      case same
      then show ?thesis using out by (auto simp: ro_step_ok_def res)
    next
      case del
      have "chain_refs k (ivs_chain (ro_ivs r)) = chain_refs k sc + chain_refs k (ivs_chain (ro_ivs r1))" for k
        using arg_cong [OF del(3), of "chain_refs k"] by simp
      with del out show ?thesis by (auto simp: ro_step_ok_def res sample_chain_unref_count)
    qed
  qed
qed

lemma ro_do_ok:
  assumes "ro_inv r" "ro_event_ok e" "ro_do e (r, rc) = (d, r', rc')"
  shows "ro_step_ok e r rc d r' rc'"
  using assms by (cases e) (auto intro: ro_do_Rsample ro_do_Gap ro_do_Drop_upto simp del: ro_do.simps)

lemma ro_run_ok:
  assumes "ro_inv r" "\<forall>e\<in>set es. ro_event_ok e" "ro_run es (r, rc) = (d, r', rc')"
  shows "ro_inv r' \<and> ro_mode r' = ro_mode r \<and> ro_max_samples r' = ro_max_samples r
     \<and> (ro_mode r \<noteq> NN_REORDER_MODE_ALWAYS_DELIVER \<longrightarrow> chain_ok (ro_next_seq r) d (ro_next_seq r'))
     \<and> (\<forall>m. rc' m = rc m - (\<Sum>e\<leftarrow>es. ro_bias m e) + chain_refs m d
               + chain_refs m (ivs_chain (ro_ivs r')) - chain_refs m (ivs_chain (ro_ivs r)))"
  using assms
proof (induction es arbitrary: r rc d)
  case Nil
  then show ?case by simp
next
  case (Cons e es)
  obtain d1 r1 rc1 where s: "ro_do e (r, rc) = (d1, r1, rc1)" by (metis prod_cases3)
  obtain ds where run: "ro_run es (r1, rc1) = (ds, r', rc')" "d = d1 @ ds"
    using Cons.prems(3) s by (auto split: prod.splits)
  have st: "ro_step_ok e r rc d1 r1 rc1" using ro_do_ok [OF Cons.prems(1) _ s] Cons.prems(2) by simp
  then have inv1: "ro_inv r1" by (simp add: ro_step_ok_def)
  from Cons.IH [OF inv1 _ run(1)] Cons.prems(2) st show ?case
    by (auto simp: ro_step_ok_def run(2) intro: chain_ok_append)
qed

section \<open>What is delivered was put in\<close>

text \<open>The chain elements that are samples, not gaps; the sample an event puts in.\<close>

definition data_elements :: "nn_rsample_chain_elem list \<Rightarrow> nn_rsample_chain_elem multiset" where
  "data_elements sc = filter_mset (\<lambda>e. ce_sampleinfo e \<noteq> None) (mset sc)"

fun ro_put_in :: "ro_event \<Rightarrow> nn_rsample_chain_elem list" where
  "ro_put_in (Rsample frags si full) = [\<lparr>ce_fragchain = frags, ce_sampleinfo = Some si\<rparr>]"
| "ro_put_in _ = []"

lemma data_elements_simps [simp]:
  "data_elements [] = {#}" "data_elements (xs @ ys) = data_elements xs + data_elements ys"
  "data_elements [gap_elem g] = {#}"
  "data_elements (riv_sc (singleton_rsample frags si)) = {#\<lparr>ce_fragchain = frags, ce_sampleinfo = Some si\<rparr>#}"
  by (simp_all add: data_elements_def gap_elem_def singleton_rsample_def)

lemma ro_kept_elements:
  assumes "ro_kept new r rc r' rc'"
  shows "data_elements (ivs_chain (ro_ivs r')) \<subseteq># data_elements new + data_elements (ivs_chain (ro_ivs r))"
proof (cases "ro_n_samples r < ro_max_samples r")
  case True
  with assms show ?thesis by (simp add: ro_kept_def data_elements_def)
next
  case False
  with assms obtain e where e: "add_mset e (mset (ivs_chain (ro_ivs r'))) = mset new + mset (ivs_chain (ro_ivs r))"
    by (auto simp: ro_kept_def)
  have "filter_mset (\<lambda>e. ce_sampleinfo e \<noteq> None) (mset (ivs_chain (ro_ivs r')))
      \<subseteq># filter_mset (\<lambda>e. ce_sampleinfo e \<noteq> None) (add_mset e (mset (ivs_chain (ro_ivs r'))))"
    by (rule multiset_filter_mono) simp
  then show ?thesis by (simp only: e data_elements_def filter_union_mset)
qed

lemma ro_do_elements:
  assumes "ro_inv r" "ro_event_ok e" "ro_do e (r, rc) = (d, r', rc')"
  shows "data_elements d + data_elements (ivs_chain (ro_ivs r')) \<subseteq># mset (ro_put_in e) + data_elements (ivs_chain (ro_ivs r))"
proof (cases e)
  case (Rsample frags si full)
  obtain res sc r1 adj rc1 where n:
    "nn_reorder_rsample r (singleton_rsample frags si) 0 full rc = (res, sc, r1, adj, rc1)"
    by (metis prod_cases5)
  note out = rsample_outcomes [OF assms(1), of "singleton_rsample frags si" 0 rc full, unfolded n rsample_outcome_def prod.case]
  have res: "r' = r1" "d = (if res > 0 then sc else [])" using assms(3) n by (auto simp: Rsample)
  consider (rej) "sc = []" "ro_same r r1"
    | (acc) "sc = []" "ro_kept (riv_sc (singleton_rsample frags si)) r rc r1 rc1"
    | (del) "sc @ ivs_chain (ro_ivs r1) = riv_sc (singleton_rsample frags si) @ ivs_chain (ro_ivs r)"
    using out by auto
  then show ?thesis
  proof cases
    case rej
    then show ?thesis using ro_same_sel [OF rej(2)] by (simp add: res Rsample)
  next
    case acc
    then show ?thesis using ro_kept_elements [OF acc(2)] by (simp add: res Rsample)
  next
    case del
    have "data_elements sc + data_elements (ivs_chain (ro_ivs r1)) = mset (ro_put_in e) + data_elements (ivs_chain (ro_ivs r))"
      using arg_cong [OF del, of data_elements] by (simp add: Rsample)
    then show ?thesis by (auto simp: res) (metis mset_subset_eq_add_right subset_mset.order_trans subset_mset.order_refl)
  qed
next
  case (Gap m mn maxp1)
  then have le: "mn < maxp1" using assms(2) by simp
  obtain gap rc0 where g: "nn_rdata_newgap m rc = (gap, rc0)" by fastforce
  obtain res sc r1 adj rc1 where n: "nn_reorder_gap r gap mn maxp1 0 rc0 = (res, sc, r1, adj, rc1)"
    by (metis prod_cases5)
  note out = gap_outcomes [OF assms(1) le, of gap 0 rc0, unfolded n gap_outcome_def prod.case]
  have res: "r' = r1" "d = (if res > 0 then sc else [])" using assms(3) n g by (auto simp: Gap)
  consider (same) "sc = []" "ivs_chain (ro_ivs r1) = ivs_chain (ro_ivs r)"
    | (acc) "sc = []" "ro_kept [gap_elem gap] r rc0 r1 rc1"
    | (del) "sc @ ivs_chain (ro_ivs r1) = ivs_chain (ro_ivs r)"
    using out by auto
  then show ?thesis
  proof cases
    case acc
    then show ?thesis using ro_kept_elements [OF acc(2)] by (simp add: res Gap)
  next
    case del
    then show ?thesis by (auto simp: res Gap simp flip: del)
  qed (simp add: res Gap)
next
  case (Drop_upto maxp1)
  define gap where "gap = nn_rdata_new 0 0 0 0 0 0"
  obtain res sc r1 adj rc1 where n: "nn_reorder_gap r gap 1 maxp1 0 rc = (res, sc, r1, adj, rc1)"
    by (metis prod_cases5)
  have res: "d = []" "r' = r1" using assms(3) n by (auto simp: Drop_upto nn_reorder_drop_upto_def Let_def gap_def)
  have next1: "1 \<le> ro_next_seq r" using assms(1) by (simp add: ro_inv_def)
  show ?thesis
  proof (cases "maxp1 \<le> 1")
    case True
    with n next1 have "r1 = r" by (auto simp: nn_reorder_gap_def)
    then show ?thesis by (simp add: res Drop_upto)
  next
    case False
    then have le: "1 < maxp1" by simp
    note out = gap_outcomes [OF assms(1) le, of gap 0 rc, unfolded n gap_outcome_def prod.case]
    consider (same) "ivs_chain (ro_ivs r1) = ivs_chain (ro_ivs r)" | (del) "sc @ ivs_chain (ro_ivs r1) = ivs_chain (ro_ivs r)"
      using out next1 by (auto simp: reorder_results)
    then show ?thesis
    proof cases
      case del
      then show ?thesis by (auto simp: res Drop_upto simp flip: del)
    qed (simp add: res Drop_upto)
  qed
qed

lemma ro_run_elements:
  assumes "ro_inv r" "\<forall>e\<in>set es. ro_event_ok e" "ro_run es (r, rc) = (d, r', rc')"
  shows "data_elements d + data_elements (ivs_chain (ro_ivs r')) \<subseteq># mset (concat (map ro_put_in es)) + data_elements (ivs_chain (ro_ivs r))"
  using assms
proof (induction es arbitrary: r rc d)
  case (Cons e es)
  obtain d1 r1 rc1 where s: "ro_do e (r, rc) = (d1, r1, rc1)" by (metis prod_cases3)
  obtain ds where run: "ro_run es (r1, rc1) = (ds, r', rc')" "d = d1 @ ds"
    using Cons.prems(3) s by (auto split: prod.splits)
  have inv1: "ro_inv r1" using ro_do_ok [OF Cons.prems(1) _ s] Cons.prems(2) by (simp add: ro_step_ok_def)
  have 1: "data_elements d1 + data_elements (ivs_chain (ro_ivs r1)) \<subseteq># mset (ro_put_in e) + data_elements (ivs_chain (ro_ivs r))"
    using ro_do_elements [OF Cons.prems(1) _ s] Cons.prems(2) by simp
  have 2: "data_elements ds + data_elements (ivs_chain (ro_ivs r')) \<subseteq># mset (concat (map ro_put_in es)) + data_elements (ivs_chain (ro_ivs r1))"
    using Cons.IH [OF inv1 _ run(1)] Cons.prems(2) by simp
  have "data_elements d + data_elements (ivs_chain (ro_ivs r')) = data_elements d1 + (data_elements ds + data_elements (ivs_chain (ro_ivs r')))"
    by (simp add: run(2))
  also have "\<dots> \<subseteq># data_elements d1 + (mset (concat (map ro_put_in es)) + data_elements (ivs_chain (ro_ivs r1)))"
    using 2 by (rule subset_mset.add_left_mono)
  also have "\<dots> = mset (concat (map ro_put_in es)) + (data_elements d1 + data_elements (ivs_chain (ro_ivs r1)))"
    by (simp add: ac_simps)
  also have "\<dots> \<subseteq># mset (concat (map ro_put_in es)) + (mset (ro_put_in e) + data_elements (ivs_chain (ro_ivs r)))"
    using 1 by (rule subset_mset.add_left_mono)
  finally show ?case by (simp add: ac_simps)
qed simp

section \<open>The known set\<close>

lemma wantsample_known:
  assumes "ro_inv r"
  shows "nn_reorder_wantsample r q \<longleftrightarrow> q \<notin> ro_known r"
proof -
  from assms have ok: "ivs_ok (ro_ivs r)" by (simp add: ro_inv_def)
  show ?thesis
    unfolding nn_reorder_wantsample_def ro_known_def Un_iff pred_eq_cover [OF ok]
    by (auto split: option.splits)
qed

text \<open>A sequence number that is held between the stored intervals is turned away.\<close>

lemma rsample_covered:
  assumes inv: "ro_inv r" and mode: "ro_mode r = NN_REORDER_MODE_NORMAL" and s: "singleton_iv s"
    and cov: "riv_min s \<in> ivs_cover (ro_ivs r)"
  shows "fst (nn_reorder_rsample r s adj full rc) = NN_REORDER_REJECT"
proof -
  from inv have ok: "ivs_ok (ro_ivs r)" by (simp add: ro_inv_def)
  from cov obtain x where x: "x \<in> set (ro_ivs r)" "riv_min x \<le> riv_min s" "riv_min s < riv_maxp1 x"
    by (auto simp: ivs_cover_def riv_set_def)
  from x(1) obtain l m where lm: "ro_ivs r = l @ [m]" by (cases "ro_ivs r" rule: rev_cases) auto
  have "riv_maxp1 x \<le> riv_maxp1 m"
    using x(1) lm ivs_ok_min_less_last(2) [of l m] iv_ok_less [of m] ok
    by (fastforce simp: ivs_ok_def)
  with x have lt: "riv_min s < riv_maxp1 m" by simp
  have gt: "ro_next_seq r < riv_min s" using inv x by (auto simp: ro_inv_def)
  have m: "max_sampleiv r = Some m" using ro_inv_max [OF inv] lm by simp
  from cov obtain p where "idx_pred_eq riv_min (riv_min s) (ro_ivs r) = Some p" "riv_min s < riv_maxp1 p"
    unfolding pred_eq_cover [OF ok] by blast
  moreover from this have "riv_min p \<le> riv_min s"
    using idx_pred_eq_split [OF ivs_ok_wf [OF ok]] by blast
  ultimately have "reorder_insert_below r s = None" by (simp add: reorder_insert_below_None)
  with gt lt m lm mode show ?thesis by (simp add: nn_reorder_rsample_def Let_def)
qed

section \<open>Properties\<close>

text \<open>Sample information for the concrete runs below.\<close>

definition demo_si :: "seqno \<Rightarrow> nn_rsample_info" where
  "demo_si q = \<lparr>si_seq = q, si_dst_guid_prefix = [], si_size = 8, si_fragsize = 8\<rparr>"

definition demo_frags :: "rmsg_id \<Rightarrow> nn_rdata list" where
  "demo_frags m = [nn_rdata_new m 0 8 0 0 0]"

lemmas reorder_run_simps = nn_reorder_new_def nn_reorder_rsample_def nn_reorder_gap_def
  nn_reorder_drop_upto_def reorder_deliver_def reorder_try_append_and_discard_def
  reorder_insert_below_def reorder_insert_apart_def reorder_insert_gap_def gap_interval_def
  delete_last_sample_def max_sampleiv_def reorder_discard_def first_size_def
  singleton_rsample_def append_rsample_interval_def coalesce_intervals_touching_range_def
  first_touching_def coalesce_successors.simps idx_defs nn_rdata_newgap_def nn_rdata_new_def
  nn_rdata_addbias_def nn_rmsg_addbias_def nn_rdata_rmbias_and_adjust_def
  nn_rmsg_rmbias_and_adjust_def demo_si_def demo_frags_def reorder_results
  nn_reorder_wantsample_def RMSG_REFCOUNT_RDATA_BIAS_def

text \<open>C5: Whatever samples, gaps and drops arrive, the intervals of the administration stay
  in order with at least one missing sequence number between neighbours, all of them lie above
  \<open>next_seq\<close>, the samples of each are inside it in increasing order (gaps may leave numbers out between them), \<open>max_sampleiv\<close> is the last one,
  and \<open>n_samples\<close> counts the stored chain elements and never exceeds \<open>max_samples\<close>.\<close>

theorem reorder_run_invariant:
  assumes "\<forall>e\<in>set es. ro_event_ok e"
    and "ro_run es (nn_reorder_new mode max_samples late, rc) = (d, r', rc')"
  shows "(sorted_wrt (\<lambda>a b. riv_maxp1 a < riv_min b) (ro_ivs r'))
    \<and> (\<forall>iv\<in>set (ro_ivs r'). ro_next_seq r' < riv_min iv \<and> riv_min iv < riv_maxp1 iv
       \<and> riv_n_samples iv = length (riv_sc iv) \<and> chain_ok (riv_min iv) (riv_sc iv) (riv_maxp1 iv))
    \<and> (max_sampleiv r' = last_opt (ro_ivs r'))
    \<and> (ro_n_samples r' = (\<Sum>iv\<leftarrow>ro_ivs r'. riv_n_samples iv))
    \<and> (ro_n_samples r' \<le> max_samples)"
proof -
  from ro_run_ok [OF ro_inv_new assms]
  have inv: "ro_inv r'" and mx: "ro_max_samples r' = max_samples" by (simp_all add: nn_reorder_new_def)
  then have ok: "ivs_ok (ro_ivs r')" by (simp add: ro_inv_def)
  then have p1: "sorted_wrt (\<lambda>a b. riv_maxp1 a < riv_min b) (ro_ivs r')" by (simp add: ivs_ok_def)
  have p2: "\<forall>iv\<in>set (ro_ivs r'). ro_next_seq r' < riv_min iv \<and> riv_min iv < riv_maxp1 iv
       \<and> riv_n_samples iv = length (riv_sc iv) \<and> chain_ok (riv_min iv) (riv_sc iv) (riv_maxp1 iv)"
    using inv ok iv_ok_less by (auto simp: ro_inv_def ivs_ok_def iv_ok_def)
  have p3: "max_sampleiv r' = last_opt (ro_ivs r')" by (rule ro_inv_max [OF inv])
  have "length (ivs_chain xs) = (\<Sum>iv\<leftarrow>xs. riv_n_samples iv)" if "ivs_ok xs" for xs
    using that by (induction xs) (auto simp: iv_ok_def)
  with inv ok have p4: "ro_n_samples r' = (\<Sum>iv\<leftarrow>ro_ivs r'. riv_n_samples iv)" by (simp add: ro_inv_def)
  have p5: "ro_n_samples r' \<le> max_samples" using inv mx by (simp add: ro_inv_def)
  show ?thesis using p1 p2 p3 p4 p5 by blast
qed

lemma reorder_run_invariant_witness:
  "\<exists>d r' rc'. ro_run [Rsample (demo_frags 0) (demo_si 3) False, Gap 1 5 7]
     (nn_reorder_new NN_REORDER_MODE_NORMAL 4 False, \<lambda>_. 0) = (d, r', rc') \<and> ro_n_samples r' \<le> 4"
proof -
  let ?es = "[Rsample (demo_frags 0) (demo_si 3) False, Gap 1 5 7]"
  obtain d r' rc' where run: "ro_run ?es (nn_reorder_new NN_REORDER_MODE_NORMAL 4 False, \<lambda>_. 0) = (d, r', rc')"
    by (metis prod_cases3)
  have "\<forall>e\<in>set ?es. ro_event_ok e" by simp
  from reorder_run_invariant [OF this run] run show ?thesis by blast
qed

text \<open>C6: In a mode other than always-deliver, a run delivers samples in strictly increasing
  sequence number order, hence each at most once, all of them below the final \<open>next_seq\<close> and none
  below the initial one; and the samples delivered are among those that were put in, as they were
  put in, with their fragments.\<close>

theorem reorder_delivers_in_order:
  assumes "mode \<noteq> NN_REORDER_MODE_ALWAYS_DELIVER" "\<forall>e\<in>set es. ro_event_ok e"
    and "ro_run es (nn_reorder_new mode max_samples late, rc) = (d, r', rc')"
  shows "sorted_wrt (<) (chain_seqs d) \<and> (\<forall>q\<in>set (chain_seqs d). 1 \<le> q \<and> q < ro_next_seq r')
    \<and> data_elements d \<subseteq># mset (concat (map ro_put_in es))"
proof -
  from ro_run_ok [OF ro_inv_new assms(2,3)] assms(1)
  have "chain_ok 1 d (ro_next_seq r')" by (simp add: nn_reorder_new_def)
  moreover have "data_elements d + data_elements (ivs_chain (ro_ivs r')) \<subseteq># mset (concat (map ro_put_in es))"
    using ro_run_elements [OF ro_inv_new assms(2,3)] by (simp add: nn_reorder_new_def data_elements_def)
  then have "data_elements d \<subseteq># mset (concat (map ro_put_in es))"
    by (meson mset_subset_eq_add_left subset_mset.order_trans)
  ultimately show ?thesis using chain_ok_seqs by blast
qed

lemma reorder_delivers_in_order_witness:
  "\<exists>d r' rc'. ro_run [Rsample (demo_frags 0) (demo_si 2) False, Rsample (demo_frags 1) (demo_si 1) False]
     (nn_reorder_new NN_REORDER_MODE_NORMAL 4 False, \<lambda>_. 0) = (d, r', rc')
     \<and> chain_seqs d = [1, 2] \<and> sorted_wrt (<) (chain_seqs d)"
proof -
  let ?es = "[Rsample (demo_frags 0) (demo_si 2) False, Rsample (demo_frags 1) (demo_si 1) False]"
  obtain d r' rc' where run: "ro_run ?es (nn_reorder_new NN_REORDER_MODE_NORMAL 4 False, \<lambda>_. 0) = (d, r', rc')"
    by (metis prod_cases3)
  then have "chain_seqs d = [1, 2]" by (auto simp: reorder_run_simps)
  with reorder_delivers_in_order [OF _ _ run] run show ?thesis by auto
qed

text \<open>C7: Reference counts are conserved: after a run the count of every message has changed
  by one for each of its rdatas that was delivered or is still stored, less the bias the arriving
  rdatas carried; \<open>nn_reorder_free\<close> gives back exactly what is stored.\<close>

theorem reorder_refcounts_conserved:
  assumes "\<forall>e\<in>set es. ro_event_ok e"
    and "ro_run es (nn_reorder_new mode max_samples late, rc) = (d, r', rc')"
  shows "(rc' m = rc m - (\<Sum>e\<leftarrow>es. ro_bias m e) + chain_refs m d + (\<Sum>iv\<leftarrow>ro_ivs r'. chain_refs m (riv_sc iv)))
    \<and> (nn_reorder_free r' rc' m = rc m - (\<Sum>e\<leftarrow>es. ro_bias m e) + chain_refs m d)"
proof -
  have stored: "chain_refs m (ivs_chain xs) = (\<Sum>iv\<leftarrow>xs. chain_refs m (riv_sc iv))" for xs
    by (induction xs) auto
  have free: "reorder_free_ivs xs rc m = rc m - chain_refs m (ivs_chain xs)" for xs rc
    by (induction xs arbitrary: rc) (auto simp: sample_chain_unref_count)
  have new: "ivs_chain (ro_ivs (nn_reorder_new mode max_samples late)) = []"
    by (simp add: nn_reorder_new_def)
  note run = ro_run_ok [OF ro_inv_new assms]
  then have p1: "rc' m = rc m - (\<Sum>e\<leftarrow>es. ro_bias m e) + chain_refs m d + (\<Sum>iv\<leftarrow>ro_ivs r'. chain_refs m (riv_sc iv))"
    by (simp add: new stored)
  with stored have p2: "nn_reorder_free r' rc' m = rc m - (\<Sum>e\<leftarrow>es. ro_bias m e) + chain_refs m d"
    by (simp add: nn_reorder_free_def free)
  show ?thesis using p1 p2 by blast
qed

lemma reorder_refcounts_conserved_witness:
  "\<exists>d r' rc'. ro_run [Rsample (demo_frags 0) (demo_si 2) False]
     (nn_reorder_new NN_REORDER_MODE_NORMAL 4 False, \<lambda>_. RMSG_REFCOUNT_RDATA_BIAS) = (d, r', rc')
     \<and> rc' 0 = 1 \<and> nn_reorder_free r' rc' 0 = 0"
proof -
  let ?es = "[Rsample (demo_frags 0) (demo_si 2) False]"
  obtain d r' rc' where run: "ro_run ?es (nn_reorder_new NN_REORDER_MODE_NORMAL 4 False,
      \<lambda>_. RMSG_REFCOUNT_RDATA_BIAS) = (d, r', rc')" by (metis prod_cases3)
  then have d: "d = []" "map riv_sc (ro_ivs r') = [[\<lparr>ce_fragchain = demo_frags 0, ce_sampleinfo = Some (demo_si 2)\<rparr>]]"
    by (auto simp: reorder_run_simps)
  from reorder_refcounts_conserved [OF _ run, of 0] d run show ?thesis
    by (auto simp: demo_frags_def nn_rdata_new_def)
qed

text \<open>\<open>nn_reorder_rsample\<close> refines insertion into the set of known sequence numbers, as
  \<open>nn_reorder_wantsample\<close> reads it: a number that is not wanted is never accepted, a rejected
  sample changes no answer, and one that is delivered, or stored while there is room, makes
  exactly its own number unwanted.\<close>

theorem reorder_rsample_known:
  assumes "ro_inv r" "ro_mode r = NN_REORDER_MODE_NORMAL"
    and n: "nn_reorder_rsample r (singleton_rsample frags si) adj full rc = (res, sc, r', adj', rc')"
  shows "(\<not> nn_reorder_wantsample r (si_seq si) \<longrightarrow> res < 0)
    \<and> (res < 0 \<longrightarrow> nn_reorder_wantsample r' q = nn_reorder_wantsample r q)
    \<and> (res > 0 \<or> res = 0 \<and> ro_n_samples r < ro_max_samples r
        \<longrightarrow> (nn_reorder_wantsample r' q \<longleftrightarrow> nn_reorder_wantsample r q \<and> q \<noteq> si_seq si))"
proof -
  have s: "riv_min (singleton_rsample frags si) = si_seq si" by (simp add: singleton_rsample_def)
  note out = rsample_outcomes [OF assms(1) singleton_iv_rsample, of frags si adj rc full,
      unfolded n rsample_outcome_def prod.case s]
  then have inv': "ro_inv r'" by simp
  note want = wantsample_known [OF assms(1)] wantsample_known [OF inv']
  have p1: "res < 0" if "\<not> nn_reorder_wantsample r (si_seq si)"
  proof (cases "si_seq si < ro_next_seq r")
    case True
    with n assms(2) s show ?thesis by (auto simp: nn_reorder_rsample_def reorder_results Let_def)
  next
    case False
    with that have "si_seq si \<in> ivs_cover (ro_ivs r)" by (simp add: want ro_known_def)
    with rsample_covered [OF assms(1,2), of "singleton_rsample frags si" adj full rc] n s
    show ?thesis by (simp add: reorder_results)
  qed
  have p2: "nn_reorder_wantsample r' q = nn_reorder_wantsample r q" if "res < 0"
  proof -
    have "ro_same r r'" using out that by (auto simp: reorder_results)
    then have "ro_known r' = ro_known r" by (simp add: ro_known_def ro_same_sel)
    then show ?thesis by (simp add: want)
  qed
  have p3: "nn_reorder_wantsample r' q \<longleftrightarrow> nn_reorder_wantsample r q \<and> q \<noteq> si_seq si"
    if "res > 0 \<or> res = 0 \<and> ro_n_samples r < ro_max_samples r"
  proof -
    have "ro_known r' = insert (si_seq si) (ro_known r)"
      using out that assms(2) by (auto simp: reorder_results)
    then show ?thesis by (auto simp: want)
  qed
  show ?thesis using p1 p2 p3 by blast
qed

lemma reorder_rsample_known_witness:
  "\<exists>res sc r' adj' rc'. nn_reorder_rsample (nn_reorder_new NN_REORDER_MODE_NORMAL 4 False)
       (singleton_rsample (demo_frags 0) (demo_si 3)) 0 False (\<lambda>_. 0) = (res, sc, r', adj', rc')
     \<and> res = 0 \<and> \<not> nn_reorder_wantsample r' 3 \<and> nn_reorder_wantsample r' 2"
proof -
  let ?r = "nn_reorder_new NN_REORDER_MODE_NORMAL 4 False"
  obtain res sc r' adj' rc' where n: "nn_reorder_rsample ?r
       (singleton_rsample (demo_frags 0) (demo_si 3)) 0 False (\<lambda>_. 0) = (res, sc, r', adj', rc')"
    by (metis prod_cases5)
  then have "res = 0" by (auto simp: reorder_run_simps)
  moreover have "ro_mode ?r = NN_REORDER_MODE_NORMAL" "ro_n_samples ?r < ro_max_samples ?r"
    "nn_reorder_wantsample ?r 2" by (auto simp: reorder_run_simps)
  ultimately show ?thesis
    using reorder_rsample_known [OF ro_inv_new _ n] n by (auto simp: demo_si_def)
qed

text \<open>A gap that is accepted (with room, or without needing any) or that delivers makes
  exactly the numbers in it unwanted; delivering takes the stored chain elements off the front.\<close>

theorem reorder_gap_known:
  assumes "ro_inv r" "mn < maxp1"
    and n: "nn_reorder_gap r rdata mn maxp1 adj rc = (res, sc, r', adj', rc')"
  shows "(res > 0 \<or> res = 0 \<and> ro_n_samples r < ro_max_samples r
        \<longrightarrow> (nn_reorder_wantsample r' q \<longleftrightarrow> nn_reorder_wantsample r q \<and> \<not> (mn \<le> q \<and> q < maxp1)))
    \<and> (res > 0
        \<longrightarrow> sc @ ivs_chain (ro_ivs r') = ivs_chain (ro_ivs r) \<and> adj' = adj
      \<and> maxp1 \<le> nn_reorder_next_seq r')"
proof -
  note out = gap_outcomes [OF assms(1,2), of rdata adj rc, unfolded n gap_outcome_def prod.case]
  then have inv': "ro_inv r'" by simp
  note want = wantsample_known [OF assms(1)] wantsample_known [OF inv']
  have p1: "nn_reorder_wantsample r' q \<longleftrightarrow> nn_reorder_wantsample r q \<and> \<not> (mn \<le> q \<and> q < maxp1)"
    if "res > 0 \<or> res = 0 \<and> ro_n_samples r < ro_max_samples r"
  proof -
    have "ro_known r' = ro_known r \<union> {mn..<maxp1}"
      using out that by (auto simp: reorder_results)
    then show ?thesis by (auto simp: want)
  qed
  have p2: "sc @ ivs_chain (ro_ivs r') = ivs_chain (ro_ivs r) \<and> adj' = adj \<and> maxp1 \<le> nn_reorder_next_seq r'"
    if "res > 0" using out that by (auto simp: reorder_results nn_reorder_next_seq_def)
  show ?thesis using p1 p2 by blast
qed

lemma reorder_gap_known_witness:
  "\<exists>res sc r' adj' rc'. nn_reorder_gap (nn_reorder_new NN_REORDER_MODE_NORMAL 4 False)
       (nn_rdata_new 0 0 0 0 0 0) 3 6 0 (\<lambda>_. 0) = (res, sc, r', adj', rc')
     \<and> res = 0 \<and> \<not> nn_reorder_wantsample r' 5 \<and> nn_reorder_wantsample r' 6"
proof -
  let ?r = "nn_reorder_new NN_REORDER_MODE_NORMAL 4 False"
  obtain res sc r' adj' rc' where n: "nn_reorder_gap ?r (nn_rdata_new 0 0 0 0 0 0) 3 6 0 (\<lambda>_. 0)
      = (res, sc, r', adj', rc')"
    by (metis prod_cases5)
  then have "res = 0" by (auto simp: reorder_run_simps)
  moreover have "ro_n_samples ?r < ro_max_samples ?r"
    "nn_reorder_wantsample ?r 6" by (auto simp: reorder_run_simps)
  ultimately show ?thesis using reorder_gap_known [OF ro_inv_new _ n] n by auto
qed

text \<open>When \<open>handle_regular\<close> sees that a sample was stored although no reliable reader
  exists, it pushes the gap from 1 up to that sample; as its assertions claim, this always
  delivers something and never keeps a reference to the gap.\<close>

theorem reorder_accept_then_gap_delivers:
  assumes inv: "ro_inv r"
    and acc: "nn_reorder_rsample r (singleton_rsample frags si) adj full rc = (NN_REORDER_ACCEPT, sc, r1, adj1, rc1)"
    and gap: "nn_reorder_gap r1 rdata 1 (si_seq si) gadj rc1 = (res, sc', r2, gadj', rc2)"
  shows "res > 0 \<and> gadj' = gadj"
proof -
  have s: "riv_min (singleton_rsample frags si) = si_seq si" by (simp add: singleton_rsample_def)
  note out = rsample_outcomes [OF inv singleton_iv_rsample, of frags si adj rc full,
      unfolded acc rsample_outcome_def prod.case s]
  then have inv1: "ro_inv r1" and next1: "ro_next_seq r1 = ro_next_seq r" "ro_next_seq r < si_seq si"
    and x: "\<exists>x\<in>set (ro_ivs r1). riv_min x \<le> si_seq si"
    by (auto simp: reorder_results ro_kept_def)
  from inv1 have ok: "ivs_ok (ro_ivs r1)" and pos: "1 \<le> ro_next_seq r1" by (auto simp: ro_inv_def)
  from x obtain x where x: "x \<in> set (ro_ivs r1)" "riv_min x \<le> si_seq si" by blast
  then have mode: "ro_mode r1 = NN_REORDER_MODE_NORMAL" using inv1 by (auto simp: ro_inv_def)
  have "riv_min x < riv_maxp1 x" using ok x iv_ok_less by (auto simp: ivs_ok_def)
  with first_touching_None [OF ok, of 1 "si_seq si"] x
  have "first_touching (ro_ivs r1) 1 (si_seq si) \<noteq> None" by force
  then obtain c v ys where co: "coalesce_intervals_touching_range (ro_ivs r1) 1 (si_seq si) = (Some (c, v), ys)"
    using coalesce_None by (metis option.exhaust surj_pair)
  have le: "1 < si_seq si" using next1 pos by simp
  obtain l rr where d: "ys = l @ c # rr" "ivs_ok ys" "riv_min c \<le> 1"
    by (rule coalesce_spec [OF ok le co])
  then have "riv_n_samples c > 0" by (auto simp: iv_ok_def)
  with gap co d(3) pos next1 mode show ?thesis by (auto simp: nn_reorder_gap_def Let_def)
qed

lemma reorder_accept_then_gap_delivers_witness:
  "\<exists>sc r1 adj1 rc1 res sc' r2 gadj' rc2.
     nn_reorder_rsample (nn_reorder_new NN_REORDER_MODE_NORMAL 4 False)
       (singleton_rsample (demo_frags 0) (demo_si 3)) 0 False (\<lambda>_. 0) = (NN_REORDER_ACCEPT, sc, r1, adj1, rc1)
     \<and> nn_reorder_gap r1 (nn_rdata_new 0 0 0 0 0 0) 1 3 0 rc1 = (res, sc', r2, gadj', rc2)
     \<and> res > 0 \<and> gadj' = 0"
proof -
  let ?r = "nn_reorder_new NN_REORDER_MODE_NORMAL 4 False"
  obtain res0 sc r1 adj1 rc1 where n: "nn_reorder_rsample ?r
       (singleton_rsample (demo_frags 0) (demo_si 3)) 0 False (\<lambda>_. 0) = (res0, sc, r1, adj1, rc1)"
    by (metis prod_cases5)
  then have r0: "res0 = NN_REORDER_ACCEPT" by (auto simp: reorder_run_simps)
  obtain res sc' r2 gadj' rc2 where g: "nn_reorder_gap r1 (nn_rdata_new 0 0 0 0 0 0) 1 3 0 rc1
      = (res, sc', r2, gadj', rc2)" by (metis prod_cases5)
  have "si_seq (demo_si 3) = 3" by (simp add: demo_si_def)
  with reorder_accept_then_gap_delivers [OF ro_inv_new n [unfolded r0]] g n r0
  show ?thesis by metis
qed

text \<open>Dropping the last stored sample loses more than it frees when its interval ends in a
  gap: with two samples 5 and 6 and the gap [7,10) stored in a full administration, storing
  sample 3 drops sample 6, yet 6 is from then on reported as not wanted, so it is never requested
  again; once 1, 2 and 4 arrive the run delivers 1 to 5 and expects 9 next.\<close>

theorem reorder_trailing_gap_loses_sample:
  "\<exists>r' rc' r'' rc''. ro_run [Rsample (demo_frags 0) (demo_si 5) False, Rsample (demo_frags 1) (demo_si 6) False,
       Gap 2 7 10, Rsample (demo_frags 3) (demo_si 3) False]
     (nn_reorder_new NN_REORDER_MODE_NORMAL 2 False, \<lambda>_. 0) = ([], r', rc')
   \<and> 6 \<notin> set (chain_seqs (ivs_chain (ro_ivs r')))
   \<and> \<not> nn_reorder_wantsample r' 6
   \<and> (\<exists>d. ro_run [Rsample (demo_frags 4) (demo_si 1) False, Rsample (demo_frags 5) (demo_si 2) False,
         Rsample (demo_frags 6) (demo_si 4) False] (r', rc') = (d, r'', rc'')
       \<and> chain_seqs d = [1, 2, 3, 4, 5] \<and> nn_reorder_next_seq r'' = 9)"
  by (simp add: reorder_run_simps nn_reorder_next_seq_def)

end
