(* ===== verification/Bitset.thy ===== *)
theory Bitset
  imports Prelude
begin

text \<open>
  The bit sets of ACKNACK, GAP and NACKFRAG messages: dds/ddsi/q_bitset.h. A set of
  \<open>numbits\<close> bits is an array of 32-bit words, bit 0 the most significant one of word 0.
  The array is a list of words; the callers provide \<open>(numbits + 31) / 32\<close> of them. The locale
  \<open>bit_map\<close> is what the code that builds such maps relies on; it is interpreted with the word
  operations at the end.
\<close>

unbundle bit_operations_syntax

definition nn_bitset_isset :: "nat \<Rightarrow> u32 list \<Rightarrow> nat \<Rightarrow> bool" where
  "nn_bitset_isset numbits bits idx \<longleftrightarrow>
     idx < numbits \<and> (bits ! (idx div 32)) AND (push_bit (31 - idx mod 32) 1) \<noteq> 0"

definition nn_bitset_set :: "u32 list \<Rightarrow> nat \<Rightarrow> u32 list" where
  "nn_bitset_set bits idx =
     bits[idx div 32 := (bits ! (idx div 32)) OR (push_bit (31 - idx mod 32) 1)]"

definition nn_bitset_clear :: "u32 list \<Rightarrow> nat \<Rightarrow> u32 list" where
  "nn_bitset_clear bits idx =
     bits[idx div 32 := (bits ! (idx div 32)) AND NOT (push_bit (31 - idx mod 32) 1)]"

text \<open>\<open>memset\<close> of the first \<open>(numbits + 31) / 32\<close> words.\<close>

definition nn_bitset_zero :: "nat \<Rightarrow> u32 list \<Rightarrow> u32 list" where
  "nn_bitset_zero numbits bits =
     replicate ((numbits + 31) div 32) 0 @ drop ((numbits + 31) div 32) bits"

definition nn_bitset_one :: "nat \<Rightarrow> u32 list \<Rightarrow> u32 list" where
  "nn_bitset_one numbits bits =
     (let ones = replicate ((numbits + 31) div 32) (NOT 0) @ drop ((numbits + 31) div 32) bits
      in if numbits mod 32 \<noteq> 0
         then (let k = numbits div 32; n = numbits mod 32
               in ones[k := (ones ! k) AND NOT (drop_bit n (NOT 0))])
         else ones)"

text \<open>Room for \<open>numbits\<close> bits.\<close>

definition bits_room :: "nat \<Rightarrow> u32 list \<Rightarrow> bool" where
  "bits_room numbits bits \<longleftrightarrow> (numbits + 31) div 32 \<le> length bits"

section \<open>Laws\<close>

lemma bit_push_1: "bit (push_bit n (1 :: u32)) m \<longleftrightarrow> m = n \<and> n < 32"
  by (auto simp: bit_push_bit_iff bit_1_iff simp del: push_bit_of_1 dest: bit_imp_le_length)

lemma and_push_bit_1: "(w :: u32) AND push_bit n 1 \<noteq> 0 \<longleftrightarrow> bit w n"
  by (simp add: and_exp_eq_0_iff_not_bit)

lemma isset_bit:
  "nn_bitset_isset n bits i \<longleftrightarrow> i < n \<and> bit (bits ! (i div 32)) (31 - i mod 32)"
  unfolding nn_bitset_isset_def and_push_bit_1 ..

lemma bits_room_index: "bits_room n bits \<Longrightarrow> i < n \<Longrightarrow> i div 32 < length bits"
  by (auto simp: bits_room_def)

lemma same_bit: "31 - i mod 32 = 31 - j mod 32 \<Longrightarrow> i div 32 = j div 32 \<Longrightarrow> i = (j::nat)"
proof -
  assume a: "31 - i mod 32 = 31 - j mod 32" and b: "i div 32 = j div 32"
  have "i mod 32 < 32" "j mod 32 < 32" by simp_all
  with a have "i mod 32 = j mod 32" by linarith
  with b show "i = j" by (metis div_mult_mod_eq)
qed

lemma nth_set_word:
  assumes "bits_room n bits" "i < n"
  shows "nn_bitset_set bits i ! (j div 32) = (if j div 32 = i div 32
      then bits ! (i div 32) OR push_bit (31 - i mod 32) 1 else bits ! (j div 32))"
    and "nn_bitset_clear bits i ! (j div 32) = (if j div 32 = i div 32
      then bits ! (i div 32) AND NOT (push_bit (31 - i mod 32) 1) else bits ! (j div 32))"
  using bits_room_index [OF assms]
  by (simp_all add: nn_bitset_set_def nn_bitset_clear_def nth_list_update del: push_bit_of_1)

lemma bit_set_word:
  "bit ((w :: u32) OR push_bit (31 - i mod 32) 1) m \<longleftrightarrow> bit w m \<or> m = 31 - i mod 32"
  "m < 32 \<Longrightarrow> bit ((w :: u32) AND NOT (push_bit (31 - i mod 32) 1)) m \<longleftrightarrow> bit w m \<and> m \<noteq> 31 - i mod 32"
  by (simp_all add: bit_or_iff bit_and_iff bit_not_iff bit_push_1 less_Suc_eq_le del: push_bit_of_1) auto

lemma isset_set:
  assumes "bits_room n bits" "i < n" "j < n"
  shows "nn_bitset_isset n (nn_bitset_set bits i) j \<longleftrightarrow> j = i \<or> nn_bitset_isset n bits j"
proof (cases "j div 32 = i div 32")
  case True
  then have "31 - j mod 32 = 31 - i mod 32 \<longleftrightarrow> j = i" using same_bit by auto
  with assms True show ?thesis
    by (simp add: isset_bit nth_set_word bit_set_word del: push_bit_of_1) metis
next
  case False
  then have "j \<noteq> i" by auto
  with assms False show ?thesis by (simp add: isset_bit nth_set_word)
qed

lemma isset_clear:
  assumes "bits_room n bits" "i < n" "j < n"
  shows "nn_bitset_isset n (nn_bitset_clear bits i) j \<longleftrightarrow> j \<noteq> i \<and> nn_bitset_isset n bits j"
proof (cases "j div 32 = i div 32")
  case True
  then have "31 - j mod 32 = 31 - i mod 32 \<longleftrightarrow> j = i" using same_bit by auto
  moreover have "31 - j mod 32 < 32" by simp
  ultimately show ?thesis
    using assms True by (simp add: isset_bit nth_set_word bit_set_word del: push_bit_of_1) metis
next
  case False
  then have "j \<noteq> i" by auto
  with assms False show ?thesis by (simp add: isset_bit nth_set_word)
qed

lemma isset_zero: "nn_bitset_isset n (nn_bitset_zero n bits) j \<longleftrightarrow> False"
proof -
  have "j < n \<Longrightarrow> j div 32 < (n + 31) div 32" by auto
  then show ?thesis by (auto simp: isset_bit nn_bitset_zero_def nth_append)
qed

lemma isset_one: "nn_bitset_isset n (nn_bitset_one n bits) j \<longleftrightarrow> j < n"
proof (cases "j < n")
  case True
  then have w: "j div 32 < (n + 31) div 32" by auto
  show ?thesis
  proof (cases "n mod 32 = 0")
    case True
    with w \<open>j < n\<close> show ?thesis
      by (simp add: isset_bit nn_bitset_one_def nth_append bit_not_iff)
  next
    case False
    then have "32 * (n div 32) + 32 \<le> n + 31" using mult_div_mod_eq [of 32 n] by linarith
    from div_le_mono [OF this, of 32] have k: "n div 32 < (n + 31) div 32" by simp
    have hi: "32 - n mod 32 \<le> 31 - j mod 32" if "j div 32 = n div 32"
    proof -
      have "j mod 32 < n mod 32"
        using \<open>j < n\<close> that mult_div_mod_eq [of 32 j] mult_div_mod_eq [of 32 n] by linarith
      then show ?thesis using mod_less_divisor [of 32 j] by linarith
    qed
    show ?thesis
    proof (cases "j div 32 = n div 32")
      case True
      with hi have "\<not> bit (drop_bit (n mod 32) (NOT 0 :: u32)) (31 - j mod 32)"
        by (simp add: bit_mask_iff)
      with True False w k \<open>j < n\<close> show ?thesis
        by (simp add: isset_bit nn_bitset_one_def Let_def nth_append nth_list_update bit_and_iff bit_not_iff)
    next
      case ne: False
      with False w k \<open>j < n\<close> show ?thesis
        by (simp add: isset_bit nn_bitset_one_def Let_def nth_append nth_list_update bit_not_iff)
    qed
  qed
qed (simp add: isset_bit)

lemma bits_room_set [simp]: "bits_room n (nn_bitset_set bits i) = bits_room n bits"
  by (simp add: bits_room_def nn_bitset_set_def)

lemma bits_room_zero: "bits_room n bits \<Longrightarrow> bits_room n (nn_bitset_zero n bits)"
  by (simp add: bits_room_def nn_bitset_zero_def)

lemma isset_mono: "n \<le> n' \<Longrightarrow> nn_bitset_isset n bits j \<longleftrightarrow> j < n \<and> nn_bitset_isset n' bits j"
  by (auto simp: isset_bit)

lemma bits_room_mono: "bits_room n bits \<Longrightarrow> n' \<le> n \<Longrightarrow> bits_room n' bits"
  unfolding bits_room_def by (meson add_le_mono1 div_le_mono le_trans)

section \<open>What the builders of maps rely on\<close>

text \<open>The loop \<open>for (; i < hi; i++) set (i - base)\<close> of the NACK map builders.\<close>

fun bitset_fill :: "u32 list \<Rightarrow> nat list \<Rightarrow> u32 list" where
  "bitset_fill bits [] = bits"
| "bitset_fill bits (x # xs) = bitset_fill (nn_bitset_set bits x) xs"

locale bit_map =
  fixes room :: "nat \<Rightarrow> 'b \<Rightarrow> bool"
    and isset :: "nat \<Rightarrow> 'b \<Rightarrow> nat \<Rightarrow> bool"
    and set_bit :: "'b \<Rightarrow> nat \<Rightarrow> 'b"
    and zero :: "nat \<Rightarrow> 'b \<Rightarrow> 'b"
  assumes isset_bound: "isset n b j \<Longrightarrow> j < n"
    and isset_set_bit: "room n b \<Longrightarrow> i < n \<Longrightarrow> j < n \<Longrightarrow> isset n (set_bit b i) j = (j = i \<or> isset n b j)"
    and room_set_bit: "room n (set_bit b i) = room n b"
    and isset_zero_map: "\<not> isset n (zero n b) j"
    and room_zero: "room n b \<Longrightarrow> room n (zero n b)"
begin

lemma fill_isset:
  "room n b \<Longrightarrow> \<forall>x\<in>set xs. x < n \<Longrightarrow> j < n \<Longrightarrow>
     isset n (fold (\<lambda>x b. set_bit b x) xs b) j = (j \<in> set xs \<or> isset n b j)"
proof (induction xs arbitrary: b)
  case (Cons x xs)
  then show ?case by (auto simp: room_set_bit isset_set_bit)
qed simp

lemma fill_room: "room n b \<Longrightarrow> room n (fold (\<lambda>x b. set_bit b x) xs b)"
  by (induction xs arbitrary: b) (auto simp: room_set_bit)

end

interpretation bs: bit_map bits_room nn_bitset_isset nn_bitset_set nn_bitset_zero
  by unfold_locales
    (simp_all add: isset_set isset_zero bits_room_zero, simp add: nn_bitset_isset_def)

lemma bitset_fill_fold: "bitset_fill bits xs = fold (\<lambda>x b. nn_bitset_set b x) xs bits"
  by (induction xs arbitrary: bits) auto

lemma bitset_fill_isset:
  "bits_room n bits \<Longrightarrow> \<forall>x\<in>set xs. x < n \<Longrightarrow>
     nn_bitset_isset n (bitset_fill bits xs) j \<longleftrightarrow> j < n \<and> (j \<in> set xs \<or> nn_bitset_isset n bits j)"
  using bs.fill_isset bs.isset_bound by (metis bitset_fill_fold)

lemma bitset_fill_room: "bits_room n bits \<Longrightarrow> bits_room n (bitset_fill bits xs)"
  by (simp add: bitset_fill_fold bs.fill_room)

end
