(* ===== verification/Reorder_Nack.thy ===== *)
theory Reorder_Nack
  imports Reorder_Inv Bitset
begin

text \<open>
  \<open>nn_reorder_nackmap\<close>: the bitmap of missing sequence numbers of an ACKNACK, computed from
  the reorder administration, and the proof that its bits are exactly the numbers the
  administration does not hold.
\<close>

text \<open>The walk over the intervals, lowest first (\<open>i\<close> is the next number to look at).\<close>

fun nack_scan :: "seqno \<Rightarrow> nat \<Rightarrow> nn_rsample_reorder list \<Rightarrow> seqno \<Rightarrow> u32 list \<Rightarrow> seqno \<times> u32 list" where
  "nack_scan base numbits [] i bits = (i, bits)"
| "nack_scan base numbits (iv # ivs) i bits =
     (if i < base + numbits then
        nack_scan base numbits ivs (riv_maxp1 iv)
          (bitset_fill bits (map (\<lambda>q. q - base) [i ..< min (base + numbits) (riv_min iv)]))
      else (i, bits))"

text \<open>Result: \<open>bitmap_base\<close>, \<open>numbits\<close> and the bits. An inconsistent \<open>base\<close> or \<open>maxseq\<close> is logged and corrected.\<close>

definition nn_reorder_nackmap ::
  "nn_reorder \<Rightarrow> seqno \<Rightarrow> seqno \<Rightarrow> u32 list \<Rightarrow> nat \<Rightarrow> bool \<Rightarrow> seqno \<times> nat \<times> u32 list" where
  "nn_reorder_nackmap r base0 maxseq0 mapbits maxsz0 notail =
     (let maxsz = (if maxsz0 > ro_max_samples r then ro_max_samples r else maxsz0);
          base = (if base0 > ro_next_seq r then ro_next_seq r else base0);
          maxseq = (if maxseq0 + 1 < base then base - 1 else maxseq0);
          numbits = (if maxseq + 1 - base > maxsz then maxsz else maxseq + 1 - base);
          (i, bits) = nack_scan base numbits (ro_ivs r) base (nn_bitset_zero numbits mapbits)
      in if notail \<and> i < base + numbits then (base, i - base, bits)
         else (base, numbits, bitset_fill bits (map (\<lambda>q. q - base) [i ..< base + numbits])))"

lemma fill_range_isset:
  assumes "bits_room n bits" "base \<le> i" "hi \<le> base + n" "j < n"
  shows "nn_bitset_isset n (bitset_fill bits (map (\<lambda>q. q - base) [i ..< hi])) j \<longleftrightarrow>
    i \<le> base + j \<and> base + j < hi \<or> nn_bitset_isset n bits j"
proof -
  have "\<forall>x\<in>set (map (\<lambda>q. q - base) [i ..< hi]). x < n" using assms by auto
  moreover have "j \<in> set (map (\<lambda>q. q - base) [i ..< hi]) \<longleftrightarrow> i \<le> base + j \<and> base + j < hi"
    using assms by (auto simp: image_iff intro!: bexI [of _ "base + j"])
  ultimately show ?thesis using bitset_fill_isset [OF assms(1)] assms(4) by blast
qed

lemma nack_scan_spec:
  assumes "ivs_ok ivs" "\<forall>iv\<in>set ivs. i \<le> riv_min iv" "base \<le> i" "bits_room n bits"
    and "nack_scan base n ivs i bits = (i', bits')"
  shows "i \<le> i' \<and> bits_room n bits'
    \<and> (\<forall>j<n. nn_bitset_isset n bits' j \<longleftrightarrow>
         nn_bitset_isset n bits j \<or> i \<le> base + j \<and> base + j < i' \<and> base + j \<notin> ivs_cover ivs)
    \<and> (\<forall>q. i' \<le> q \<longrightarrow> q < base + n \<longrightarrow> q \<notin> ivs_cover ivs)"
  using assms
proof (induction base n ivs i bits rule: nack_scan.induct)
  case (1 base n i bits)
  then show ?case by auto
next
  case (2 base n iv ivs i bits)
  show ?case
  proof (cases "i < base + n")
    case False
    with 2 show ?thesis by auto
  next
    case True
    let ?b = "bitset_fill bits (map (\<lambda>q. q - base) [i ..< min (base + n) (riv_min iv)])"
    from 2 have iv: "iv_ok iv" "i \<le> riv_min iv" "\<forall>y\<in>set ivs. riv_maxp1 iv < riv_min y" "ivs_ok ivs" by auto
    note lt = iv_ok_less [OF iv(1)]
    have room: "bits_room n ?b" using 2 by (simp add: bitset_fill_room)
    have run: "nack_scan base n ivs (riv_maxp1 iv) ?b = (i', bits')" using 2(6) True by simp
    have above: "\<forall>y\<in>set ivs. riv_maxp1 iv \<le> riv_min y" using iv(3) by (simp add: less_imp_le)
    have base: "base \<le> riv_maxp1 iv" using 2 lt iv by linarith
    note ih = 2(1) [OF True iv(4) above base room run]
    have first: "nn_bitset_isset n ?b j \<longleftrightarrow> i \<le> base + j \<and> base + j < riv_min iv \<or> nn_bitset_isset n bits j"
      if "j < n" for j
      using fill_range_isset [of n bits base i "min (base + n) (riv_min iv)" j] 2 that by auto
    have out: "q \<notin> ivs_cover ivs" if "q < riv_maxp1 iv" for q
      using that above by (force simp: ivs_cover_def riv_set_def)
    have bits': "nn_bitset_isset n bits' j \<longleftrightarrow> nn_bitset_isset n bits j \<or>
        i \<le> base + j \<and> base + j < i' \<and> base + j \<notin> ivs_cover (iv # ivs)" if "j < n" for j
    proof -
      have "nn_bitset_isset n bits' j \<longleftrightarrow> (i \<le> base + j \<and> base + j < riv_min iv \<or> nn_bitset_isset n bits j)
          \<or> riv_maxp1 iv \<le> base + j \<and> base + j < i' \<and> base + j \<notin> ivs_cover ivs"
        using ih first that by blast
      then show ?thesis using ih out [of "base + j"] iv(2) lt by (auto simp: riv_set_def)
    qed
    have "q \<notin> ivs_cover (iv # ivs)" if "i' \<le> q" "q < base + n" for q
      using ih that by (auto simp: riv_set_def)
    with ih bits' iv(2) lt show ?thesis by auto
  qed
qed

text \<open>Bit \<open>j\<close> of the NACK map is set exactly when sequence number \<open>base + j\<close> is not held; the
  map covers everything up to \<open>maxseq\<close> that fits, and with \<open>notail\<close> it stops only where nothing
  further in the window is held. With \<open>base = next_seq\<close> the bits are what \<open>nn_reorder_wantsample\<close>
  answers.\<close>

theorem reorder_nackmap_exact:
  assumes inv: "ro_inv r" and base: "base \<le> ro_next_seq r" "base \<le> maxseq + 1"
    and room: "bits_room maxsz mapbits"
    and n: "nn_reorder_nackmap r base maxseq mapbits maxsz notail = (b, n, bits)"
  shows "b = base \<and> n \<le> min maxsz (ro_max_samples r) \<and> n \<le> maxseq + 1 - base
    \<and> (\<forall>j<n. nn_bitset_isset n bits j \<longleftrightarrow> base + j \<notin> ivs_cover (ro_ivs r))
    \<and> (if notail then \<forall>q. base + n \<le> q \<and> q < base + min (min maxsz (ro_max_samples r)) (maxseq + 1 - base)
           \<longrightarrow> q \<notin> ivs_cover (ro_ivs r)
       else n = min (min maxsz (ro_max_samples r)) (maxseq + 1 - base))
    \<and> (base = ro_next_seq r \<longrightarrow> (\<forall>j<n. nn_bitset_isset n bits j \<longleftrightarrow> nn_reorder_wantsample r (base + j)))"
proof -
  define N where "N = min (min maxsz (ro_max_samples r)) (maxseq + 1 - base)"
  obtain i bits0 where scan: "nack_scan base N (ro_ivs r) base (nn_bitset_zero N mapbits) = (i, bits0)"
    by fastforce
  from inv have ok: "ivs_ok (ro_ivs r)" and above: "\<forall>iv\<in>set (ro_ivs r). base \<le> riv_min iv"
    using base by (auto simp: ro_inv_def)
  have roomN: "bits_room N (nn_bitset_zero N mapbits)"
    using bits_room_zero bits_room_mono [OF room] by (simp add: N_def)
  note sp = nack_scan_spec [OF ok above le_refl roomN scan]
  have res: "(b, n, bits) = (if notail \<and> i < base + N then (base, i - base, bits0)
      else (base, N, bitset_fill bits0 (map (\<lambda>q. q - base) [i ..< base + N])))"
  proof -
    have c: "(if ro_next_seq r < base then ro_next_seq r else base) = base"
      "(if maxseq + 1 < base then base - 1 else maxseq) = maxseq"
      "(if maxsz > ro_max_samples r then ro_max_samples r else maxsz) = min maxsz (ro_max_samples r)"
      "(if maxseq + 1 - base > min maxsz (ro_max_samples r) then min maxsz (ro_max_samples r)
        else maxseq + 1 - base) = N"
      using base by (auto simp: N_def)
    show ?thesis
      using n unfolding nn_reorder_nackmap_def Let_def c by (simp add: scan)
  qed
  have bits: "nn_bitset_isset n bits j \<longleftrightarrow> base + j \<notin> ivs_cover (ro_ivs r)" if j: "j < n" for j
  proof (cases "notail \<and> i < base + N")
    case True
    with res j have "bits = bits0" "base + j < i" "n \<le> N" by auto
    with sp j isset_mono [of n N bits j] show ?thesis by (auto simp: isset_zero)
  next
    case False
    with res have r: "n = N" "bits = bitset_fill bits0 (map (\<lambda>q. q - base) [i ..< base + N])" by auto
    have "nn_bitset_isset N bits j \<longleftrightarrow> i \<le> base + j \<or> nn_bitset_isset N bits0 j"
      using fill_range_isset [of N bits0 base i "base + N" j] sp j r by auto
    with sp j r show ?thesis by (auto simp: isset_zero)
  qed
  moreover have "b = base" "n \<le> N" using res by (auto split: if_splits)
  moreover have "if notail then \<forall>q. base + n \<le> q \<and> q < base + N \<longrightarrow> q \<notin> ivs_cover (ro_ivs r) else n = N"
    using res sp by (auto split: if_splits)
  moreover have "nn_reorder_wantsample r q \<longleftrightarrow> q \<notin> ivs_cover (ro_ivs r)" if "ro_next_seq r \<le> q" for q
    using that unfolding nn_reorder_wantsample_def pred_eq_cover [OF ok] by (auto split: option.splits)
  ultimately show ?thesis by (auto simp: N_def)
qed

lemma reorder_nackmap_exact_witness:
  "\<exists>b n bits. nn_reorder_nackmap
      (fst (snd (snd (nn_reorder_gap (nn_reorder_new NN_REORDER_MODE_NORMAL 64 False)
        (nn_rdata_new 0 0 0 0 0 0) 3 5 0 (\<lambda>_. 0))))) 1 6 [0, 0] 64 False = (b, n, bits)
     \<and> n = 6 \<and> nn_bitset_isset n bits 0 \<and> \<not> nn_bitset_isset n bits 2 \<and> \<not> nn_bitset_isset n bits 3
     \<and> nn_bitset_isset n bits 4"
proof -
  let ?r = "fst (snd (snd (nn_reorder_gap (nn_reorder_new NN_REORDER_MODE_NORMAL 64 False)
        (nn_rdata_new 0 0 0 0 0 0) 3 5 0 (\<lambda>_. 0))))"
  have ivs: "ro_ivs ?r = [gap_interval (nn_rdata_new 0 0 0 0 0 0) 3 5]" "ro_next_seq ?r = 1" "ro_n_samples ?r = 1"
    "ro_max ?r = Some 3" "ro_max_samples ?r = 64" "ro_mode ?r = NN_REORDER_MODE_NORMAL"
    by (simp_all add: nn_reorder_gap_def nn_reorder_new_def coalesce_intervals_touching_range_def
        first_touching_def idx_defs max_sampleiv_def reorder_insert_gap_def gap_interval_def)
  have inv: "ro_inv ?r"
    by (simp add: ro_inv_def ivs iv_ok_def) (simp add: gap_interval_def)
  have room: "bits_room 64 [0, 0 :: u32]" by (simp add: bits_room_def)
  obtain b n bits where n: "nn_reorder_nackmap ?r 1 6 [0, 0] 64 False = (b, n, bits)" by (metis prod_cases3)
  have cov: "ivs_cover (ro_ivs ?r) = {3, 4}" by (auto simp: ivs riv_set_def gap_interval_def)
  have le: "1 \<le> ro_next_seq ?r" "1 \<le> (6::nat) + 1" by (simp_all add: ivs)
  note ex = reorder_nackmap_exact [OF inv le room n]
  then have n6: "n = 6" by (simp add: ivs)
  from ex have bit: "j < 6 \<Longrightarrow> nn_bitset_isset n bits j \<longleftrightarrow> 1 + j \<notin> {3, 4}" for j
    unfolding n6 cov by blast
  from n n6 bit [of 0] bit [of 2] bit [of 3] bit [of 4] show ?thesis by auto
qed

end
