(* ===== verification/Defrag.thy ===== *)
theory Defrag
  imports Reorder
begin

text \<open>
  The defragmenter of src/core/ddsi/src/q_radmin.c (section DEFRAG): fragments of the samples
  of one writer, collected per sequence number as an interval tree of byte ranges until one
  interval covers the sample.

  An interval \<open>nn_defrag_iv\<close> carries the fragment chain \<open>first .. last\<close> as a list; the
  sentinel \<open>[0,0)\<close> that stands for a missing first fragment has the empty chain. The trees
  \<open>fragtree\<close> and \<open>sampletree\<close> are ordered indexes (theory \<open>Ordered_Index\<close>) on \<open>min\<close> and on the
  sequence number; the cached pointers \<open>lastfrag\<close> and \<open>max_sample\<close> are the keys of the nodes
  they point to. \<open>is_complete\<close> looks at the root of \<open>fragtree\<close> and asserts that it is the only
  node when the test succeeds; the model tests the only node, and \<open>is_complete_any\<close> in theory
  \<open>Defrag_Inv\<close> shows that no node of a tree with several can pass the test.
\<close>

section \<open>State\<close>

datatype nn_defrag_drop_mode = NN_DEFRAG_DROP_OLDEST | NN_DEFRAG_DROP_LATEST

record nn_defrag_iv =
  div_min :: nat
  div_maxp1 :: nat
  div_frags :: "nn_rdata list"

record nn_rsample_defrag =
  df_fragtree :: "nn_defrag_iv list"
  df_lastfrag :: "nat option"
  df_sampleinfo :: nn_rsample_info
  df_seq :: seqno

record nn_defrag =
  dg_sampletree :: "nn_rsample_defrag list"
  dg_max_sample :: "seqno option"
  dg_n_samples :: nat
  dg_max_samples :: nat
  dg_drop_mode :: nn_defrag_drop_mode
  dg_discarded_bytes :: nat

definition nn_defrag_new :: "nn_defrag_drop_mode \<Rightarrow> nat \<Rightarrow> nn_defrag" where
  "nn_defrag_new drop_mode max_samples =
     \<lparr>dg_sampletree = [], dg_max_sample = None, dg_n_samples = 0, dg_max_samples = max_samples,
      dg_drop_mode = drop_mode, dg_discarded_bytes = 0\<rparr>"

text \<open>The walk over the intervals of a dropped sample; a sentinel has no chain.\<close>

fun defrag_rmbias_ivs :: "nn_defrag_iv list \<Rightarrow> refcounts \<Rightarrow> refcounts" where
  "defrag_rmbias_ivs [] rc = rc"
| "defrag_rmbias_ivs (iv # ivs) rc =
     defrag_rmbias_ivs ivs (if div_frags iv \<noteq> [] then nn_fragchain_rmbias (div_frags iv) rc else rc)"

definition defrag_rsample_drop ::
  "nn_defrag \<Rightarrow> nn_rsample_defrag \<Rightarrow> refcounts \<Rightarrow> nn_defrag \<times> refcounts" where
  "defrag_rsample_drop d s rc =
     (d\<lparr>dg_sampletree := idx_delete df_seq (df_seq s) (dg_sampletree d),
        dg_n_samples := dg_n_samples d - 1\<rparr>,
      defrag_rmbias_ivs (df_fragtree s) rc)"

text \<open>\<open>nn_defrag_free\<close> drops the lowest sample until none is left.\<close>

fun defrag_free_samples :: "nn_rsample_defrag list \<Rightarrow> refcounts \<Rightarrow> refcounts" where
  "defrag_free_samples [] rc = rc"
| "defrag_free_samples (s # ss) rc = defrag_free_samples ss (defrag_rmbias_ivs (df_fragtree s) rc)"

definition nn_defrag_free :: "nn_defrag \<Rightarrow> refcounts \<Rightarrow> refcounts" where
  "nn_defrag_free d rc = defrag_free_samples (dg_sampletree d) rc"

section \<open>Adding a fragment\<close>

text \<open>
  \<open>defrag_try_merge_with_succ\<close>: the result says whether to try again; \<open>node\<close> is named by its
  key. The code sets \<open>node->maxp1\<close> to the successor's, also when \<open>node\<close> reaches further.
\<close>

definition defrag_try_merge_with_succ :: "nn_rsample_defrag \<Rightarrow> nat \<Rightarrow> bool \<times> nn_rsample_defrag" where
  "defrag_try_merge_with_succ s k =
     (if Some k = df_lastfrag s then (False, s)
      else case (idx_lookup div_min k (df_fragtree s), idx_succ div_min k (df_fragtree s)) of
        (Some node, Some succ) \<Rightarrow>
          if div_min succ > div_maxp1 node then (False, s)
          else
            (let succ_maxp1 = div_maxp1 succ;
                 s1 = s\<lparr>df_fragtree := idx_delete div_min (div_min succ) (df_fragtree s),
                        df_lastfrag := if df_lastfrag s = Some (div_min succ) then Some k
                                       else df_lastfrag s\<rparr>;
                 node1 = node\<lparr>div_frags := div_frags node @ div_frags succ, div_maxp1 := succ_maxp1\<rparr>
             in (div_maxp1 node1 > succ_maxp1,
                 s1\<lparr>df_fragtree := idx_update div_min k node1 (df_fragtree s1)\<rparr>))
      | _ \<Rightarrow> (False, s))"

text \<open>\<open>while (defrag_try_merge_with_succ (...)) ;\<close>, each round removes an interval.\<close>

function defrag_merge_loop :: "nn_rsample_defrag \<Rightarrow> nat \<Rightarrow> nn_rsample_defrag" where
  "defrag_merge_loop s k =
     (let (again, s') = defrag_try_merge_with_succ s k
      in if again then defrag_merge_loop s' k else s')"
  by pat_completeness auto
termination
proof (relation "measure (\<lambda>(s, k). length (df_fragtree s))")
  fix s k x again s'
  assume "x = defrag_try_merge_with_succ s k" "(again, s') = x" again
  then show "((s', k), s, k) \<in> measure (\<lambda>(s, k). length (df_fragtree s))"
    by (auto simp: defrag_try_merge_with_succ_def Let_def split: if_splits option.splits)
qed auto

definition defrag_rsample_addiv ::
  "nn_rsample_defrag \<Rightarrow> nn_rdata \<Rightarrow> refcounts \<Rightarrow> nn_rsample_defrag \<times> refcounts" where
  "defrag_rsample_addiv s rdata rc =
     (let newiv = \<lparr>div_min = rd_min rdata, div_maxp1 = rd_maxp1 rdata, div_frags = [rdata]\<rparr>
      in (s\<lparr>df_fragtree := idx_insert div_min newiv (df_fragtree s),
            df_lastfrag := (case df_lastfrag s of
                None \<Rightarrow> Some (rd_min rdata)
              | Some l \<Rightarrow> if rd_min rdata > l then Some (rd_min rdata) else Some l)\<rparr>,
          nn_rdata_addbias rdata rc))"

definition defrag_rsample_new ::
  "nn_rdata \<Rightarrow> nn_rsample_info \<Rightarrow> refcounts \<Rightarrow> nn_rsample_defrag \<times> refcounts" where
  "defrag_rsample_new rdata sampleinfo rc =
     (let sentinel = \<lparr>div_min = 0, div_maxp1 = 0, div_frags = []\<rparr>;
          s = \<lparr>df_fragtree = (if rd_min rdata > 0 then [sentinel] else []), df_lastfrag = None,
               df_sampleinfo = sampleinfo, df_seq = si_seq sampleinfo\<rparr>
      in defrag_rsample_addiv s rdata rc)"

definition is_complete :: "nn_rsample_defrag \<Rightarrow> bool" where
  "is_complete s = (case df_fragtree s of
       [iv] \<Rightarrow> div_min iv = 0 \<and> div_maxp1 iv \<ge> si_size (df_sampleinfo s)
     | _ \<Rightarrow> False)"

definition rsample_convert_defrag_to_reorder :: "nn_rsample_defrag \<Rightarrow> nn_rsample_reorder" where
  "rsample_convert_defrag_to_reorder s =
     \<lparr>riv_sc = [\<lparr>ce_fragchain = div_frags (hd (df_fragtree s)), ce_sampleinfo = Some (df_sampleinfo s)\<rparr>],
      riv_min = df_seq s, riv_maxp1 = df_seq s + 1, riv_n_samples = 1\<rparr>"

text \<open>
  \<open>defrag_add_fragment\<close> returns whether the sample became complete, the sample, the bytes
  it discarded and the ledger.
\<close>

definition defrag_add_fragment ::
  "nn_rsample_defrag \<Rightarrow> nn_rdata \<Rightarrow> nn_rsample_info \<Rightarrow> refcounts
     \<Rightarrow> bool \<times> nn_rsample_defrag \<times> nat \<times> refcounts" where
  "defrag_add_fragment s rdata sampleinfo rc =
     (let mn = rd_min rdata; maxp1 = rd_maxp1 rdata;
          predeq = (case df_lastfrag s of
              None \<Rightarrow> None
            | Some l \<Rightarrow> if mn \<ge> l then idx_lookup div_min l (df_fragtree s)
                        else idx_pred_eq div_min mn (df_fragtree s))
      in case predeq of
           None \<Rightarrow> (False, s, 0, rc) \<comment> \<open>excluded: the code asserts \<open>predeq != NULL\<close>\<close>
         | Some p \<Rightarrow>
             if div_maxp1 p \<ge> maxp1 then (False, s, maxp1 - mn, rc)
             else if mn \<le> div_maxp1 p then
               (let p1 = p\<lparr>div_frags := div_frags p @ [rdata], div_maxp1 := maxp1\<rparr>;
                    s1 = s\<lparr>df_fragtree := idx_update div_min (div_min p) p1 (df_fragtree s),
                           df_sampleinfo := (if div_frags p \<noteq> [] then df_sampleinfo s else sampleinfo)\<rparr>;
                    s2 = defrag_merge_loop s1 (div_min p)
                in (is_complete s2, s2, 0, nn_rdata_addbias rdata rc))
             else
               (let succ = (if Some (div_min p) \<noteq> df_lastfrag s
                            then idx_succ div_min (div_min p) (df_fragtree s) else None)
                in case succ of
                     Some q \<Rightarrow>
                       if div_min q \<le> maxp1 then
                         (let q1 = q\<lparr>div_frags := rdata # div_frags q, div_min := mn\<rparr>;
                              last1 = (if df_lastfrag s = Some (div_min q) then Some mn else df_lastfrag s);
                              q2 = (if maxp1 > div_maxp1 q then q1\<lparr>div_maxp1 := maxp1\<rparr> else q1);
                              s1 = s\<lparr>df_fragtree := idx_update div_min (div_min q) q2 (df_fragtree s),
                                     df_lastfrag := last1\<rparr>;
                              s2 = (if maxp1 > div_maxp1 q then defrag_merge_loop s1 mn else s1)
                          in (False, s2, 0, nn_rdata_addbias rdata rc))
                       else (let (s1, rc1) = defrag_rsample_addiv s rdata rc in (False, s1, 0, rc1))
                   | None \<Rightarrow> (let (s1, rc1) = defrag_rsample_addiv s rdata rc in (False, s1, 0, rc1))))"

definition nn_rdata_is_fragment :: "nn_rdata \<Rightarrow> nn_rsample_info \<Rightarrow> bool" where
  "nn_rdata_is_fragment rdata sampleinfo \<longleftrightarrow> \<not> (rd_min rdata = 0 \<and> rd_maxp1 rdata = si_size sampleinfo)"

section \<open>The samples being defragmented\<close>

text \<open>\<open>max_seq\<close>, 0 when there is no sample\<close>

definition defrag_max_seq :: "nn_defrag \<Rightarrow> seqno" where
  "defrag_max_seq d = (case dg_max_sample d of None \<Rightarrow> 0 | Some q \<Rightarrow> q)"

definition defrag_find_max :: "nn_defrag \<Rightarrow> nn_defrag" where
  "defrag_find_max d = d\<lparr>dg_max_sample := map_option df_seq (last_opt (dg_sampletree d))\<rparr>"

text \<open>The sample to drop when the administration is full; \<open>None\<close>: discard the new one.\<close>

definition defrag_sample_to_drop :: "nn_defrag \<Rightarrow> seqno \<Rightarrow> nn_rsample_defrag option" where
  "defrag_sample_to_drop d seq =
     (case dg_drop_mode d of
        NN_DEFRAG_DROP_LATEST \<Rightarrow>
          if seq > defrag_max_seq d then None
          else (case dg_max_sample d of None \<Rightarrow> None | Some k \<Rightarrow> idx_lookup df_seq k (dg_sampletree d))
      | NN_DEFRAG_DROP_OLDEST \<Rightarrow>
          (case first_opt (dg_sampletree d) of
             None \<Rightarrow> None
           | Some s \<Rightarrow> if seq < df_seq s then None else Some s))"

text \<open>\<open>None\<close>: the new sample is discarded; otherwise the state with room made for it.\<close>

definition defrag_limit_samples :: "nn_defrag \<Rightarrow> seqno \<Rightarrow> refcounts \<Rightarrow> (nn_defrag \<times> refcounts) option" where
  "defrag_limit_samples d seq rc =
     (if dg_n_samples d < dg_max_samples d then Some (d, rc)
      else case defrag_sample_to_drop d seq of
        None \<Rightarrow> None
      | Some s \<Rightarrow>
          (let (d1, rc1) = defrag_rsample_drop d s rc
           in Some (if Some (df_seq s) = dg_max_sample d then (defrag_find_max d1, rc1)
                    else (d1, rc1))))"

definition defrag_new_sample ::
  "nn_defrag \<Rightarrow> nn_rdata \<Rightarrow> nn_rsample_info \<Rightarrow> refcounts \<Rightarrow> nn_defrag \<times> refcounts" where
  "defrag_new_sample d rdata sampleinfo rc =
     (let (s, rc1) = defrag_rsample_new rdata sampleinfo rc
      in (d\<lparr>dg_sampletree := idx_insert df_seq s (dg_sampletree d), dg_n_samples := dg_n_samples d + 1\<rparr>, rc1))"

text \<open>
  The fragment goes to sample \<open>s\<close> of the tree; a completed sample leaves the tree and is
  converted for the reorder administration.
\<close>

definition defrag_to_sample ::
  "nn_defrag \<Rightarrow> nn_rsample_defrag \<Rightarrow> nn_rdata \<Rightarrow> nn_rsample_info \<Rightarrow> refcounts
     \<Rightarrow> nn_rsample_reorder option \<times> nn_defrag \<times> refcounts" where
  "defrag_to_sample d s rdata sampleinfo rc =
     (let (complete, s', disc, rc') = defrag_add_fragment s rdata sampleinfo rc;
          d1 = d\<lparr>dg_discarded_bytes := dg_discarded_bytes d + disc\<rparr>
      in if complete then
           (let d2 = d1\<lparr>dg_sampletree := idx_delete df_seq (df_seq s) (dg_sampletree d1),
                        dg_n_samples := dg_n_samples d1 - 1\<rparr>
            in (Some (rsample_convert_defrag_to_reorder s'),
                if Some (df_seq s) = dg_max_sample d then defrag_find_max d2 else d2, rc'))
         else (None, d1\<lparr>dg_sampletree := idx_update df_seq (df_seq s) s' (dg_sampletree d1)\<rparr>, rc'))"

definition nn_defrag_rsample ::
  "nn_defrag \<Rightarrow> nn_rdata \<Rightarrow> nn_rsample_info \<Rightarrow> refcounts
     \<Rightarrow> nn_rsample_reorder option \<times> nn_defrag \<times> refcounts" where
  "nn_defrag_rsample d rdata sampleinfo rc =
     (if \<not> nn_rdata_is_fragment rdata sampleinfo then
        (let (rs, rc1) = reorder_rsample_new rdata sampleinfo rc in (Some rs, d, rc1))
      else if si_seq sampleinfo = defrag_max_seq d then
        (case idx_lookup df_seq (defrag_max_seq d) (dg_sampletree d) of
           None \<Rightarrow> (None, d, rc) \<comment> \<open>excluded: sequence numbers are positive\<close>
         | Some s \<Rightarrow> defrag_to_sample d s rdata sampleinfo rc)
      else case defrag_limit_samples d (si_seq sampleinfo) rc of
        None \<Rightarrow> (None, d, rc)
      | Some (d1, rc1) \<Rightarrow>
          if si_seq sampleinfo > defrag_max_seq d1 then
            (let (d2, rc2) = defrag_new_sample d1 rdata sampleinfo rc1
             in (None, d2\<lparr>dg_max_sample := Some (si_seq sampleinfo)\<rparr>, rc2))
          else case idx_lookup df_seq (si_seq sampleinfo) (dg_sampletree d1) of
            None \<Rightarrow> (let (d2, rc2) = defrag_new_sample d1 rdata sampleinfo rc1 in (None, d2, rc2))
          | Some s \<Rightarrow> defrag_to_sample d1 s rdata sampleinfo rc1)"

section \<open>Dropping samples\<close>

text \<open>The walk of \<open>nn_defrag_notegap\<close> and \<open>nn_defrag_prune\<close> from the successor-or-equal of \<open>min\<close>.\<close>

fun defrag_drop_walk ::
  "(nn_rsample_defrag \<Rightarrow> bool) \<Rightarrow> (nn_rsample_defrag \<Rightarrow> bool) \<Rightarrow> nn_rsample_defrag list
     \<Rightarrow> nn_defrag \<Rightarrow> refcounts \<Rightarrow> nn_defrag \<times> refcounts" where
  "defrag_drop_walk continue discard [] d rc = (d, rc)"
| "defrag_drop_walk continue discard (s # ss) d rc =
     (if continue s then
        (if discard s then (let (d1, rc1) = defrag_rsample_drop d s rc in defrag_drop_walk continue discard ss d1 rc1)
         else defrag_drop_walk continue discard ss d rc)
      else (d, rc))"

definition nn_defrag_notegap :: "nn_defrag \<Rightarrow> seqno \<Rightarrow> seqno \<Rightarrow> refcounts \<Rightarrow> nn_defrag \<times> refcounts" where
  "nn_defrag_notegap d mn maxp1 rc =
     (let (d1, rc1) = defrag_drop_walk (\<lambda>s. df_seq s < maxp1) (\<lambda>s. True)
            (filter (\<lambda>s. mn \<le> df_seq s) (dg_sampletree d)) d rc
      in (defrag_find_max d1, rc1))"

definition nn_defrag_prune :: "nn_defrag \<Rightarrow> u8 list \<Rightarrow> seqno \<Rightarrow> refcounts \<Rightarrow> nn_defrag \<times> refcounts" where
  "nn_defrag_prune d dst mn rc =
     (let (d1, rc1) = defrag_drop_walk (\<lambda>s. True) (\<lambda>s. si_dst_guid_prefix (df_sampleinfo s) = dst)
            (filter (\<lambda>s. mn \<le> df_seq s) (dg_sampletree d)) d rc
      in (defrag_find_max d1, rc1))"

definition nn_defrag_stats :: "nn_defrag \<Rightarrow> nat" where
  "nn_defrag_stats d = dg_discarded_bytes d"

end
