(* ===== verification/Defrag_Inv.thy ===== *)
theory Defrag_Inv
  imports Defrag
begin

text \<open>
  The invariant of the defragmenter and what each step of theory \<open>Defrag\<close> does to it: the
  intervals of a sample are ordered with gaps between them and start with one at 0, every
  fragment chain can be read front to back without a gap from its interval's start to its end,
  and every stored rdata is accounted for in the ledger.
\<close>

section \<open>Reading a fragment chain\<close>

text \<open>
  \<open>frags_reach off frags\<close>: the offset reached by reading the fragments in order from \<open>off\<close>,
  skipping what is known already; \<open>None\<close> when a fragment starts beyond what has been read.
\<close>

fun frags_reach :: "nat \<Rightarrow> nn_rdata list \<Rightarrow> nat option" where
  "frags_reach off [] = Some off"
| "frags_reach off (d # ds) = (if rd_min d \<le> off then frags_reach (max off (rd_maxp1 d)) ds else None)"

lemma frags_reach_ge: "frags_reach off ds = Some q \<Longrightarrow> off \<le> q"
  by (induction off ds rule: frags_reach.induct) (auto split: if_splits)

lemma frags_reach_mono:
  "frags_reach off ds = Some q \<Longrightarrow> off \<le> off' \<Longrightarrow> \<exists>q'. frags_reach off' ds = Some q' \<and> q \<le> q'"
proof (induction off ds arbitrary: off' rule: frags_reach.induct)
  case (2 off d ds)
  then show ?case by (auto split: if_splits)
qed simp

lemma frags_reach_append:
  assumes "frags_reach off xs = Some q" "frags_reach mid ys = Some q2" "mid \<le> q"
  shows "\<exists>q'. frags_reach off (xs @ ys) = Some q' \<and> q \<le> q' \<and> q2 \<le> q'"
  using assms
proof (induction off xs rule: frags_reach.induct)
  case (1 off)
  then show ?case using frags_reach_mono [of mid ys q2 off] frags_reach_ge by fastforce
next
  case (2 off d ds)
  then show ?case by (auto split: if_splits)
qed

section \<open>Intervals and samples\<close>

definition div_set :: "nn_defrag_iv \<Rightarrow> nat set" where
  "div_set iv = {div_min iv ..< div_maxp1 iv}"

definition div_ok :: "nn_defrag_iv \<Rightarrow> bool" where
  "div_ok iv \<longleftrightarrow>
     (if div_frags iv = [] then div_min iv = 0 \<and> div_maxp1 iv = 0
      else div_min iv < div_maxp1 iv
        \<and> (\<exists>q. frags_reach (div_min iv) (div_frags iv) = Some q \<and> div_maxp1 iv \<le> q))"

definition divs_ok :: "nn_defrag_iv list \<Rightarrow> bool" where
  "divs_ok ivs \<longleftrightarrow> (\<forall>iv\<in>set ivs. div_ok iv) \<and> sorted_wrt (\<lambda>a b. div_maxp1 a < div_min b) ivs"

definition divs_cover :: "nn_defrag_iv list \<Rightarrow> nat set" where
  "divs_cover ivs = (\<Union>iv\<in>set ivs. div_set iv)"

definition divs_refs :: "rmsg_id \<Rightarrow> nn_defrag_iv list \<Rightarrow> int" where
  "divs_refs m ivs = (\<Sum>iv\<leftarrow>ivs. frag_refs m (div_frags iv))"

definition df_ok :: "nn_rsample_defrag \<Rightarrow> bool" where
  "df_ok s \<longleftrightarrow> divs_ok (df_fragtree s) \<and> (\<exists>iv ivs. df_fragtree s = iv # ivs \<and> div_min iv = 0)
     \<and> df_lastfrag s = map_option div_min (last_opt (df_fragtree s))
     \<and> si_seq (df_sampleinfo s) = df_seq s"

lemma div_ok_le: "div_ok iv \<Longrightarrow> div_min iv \<le> div_maxp1 iv"
  by (auto simp: div_ok_def split: if_splits)

lemma divs_simps [simp]:
  "divs_ok []"
  "divs_ok (x # xs) \<longleftrightarrow> div_ok x \<and> (\<forall>y\<in>set xs. div_maxp1 x < div_min y) \<and> divs_ok xs"
  "divs_ok (xs @ ys) \<longleftrightarrow> divs_ok xs \<and> divs_ok ys \<and> (\<forall>x\<in>set xs. \<forall>y\<in>set ys. div_maxp1 x < div_min y)"
  "divs_cover [] = {}"
  "divs_cover (x # xs) = div_set x \<union> divs_cover xs"
  "divs_cover (xs @ ys) = divs_cover xs \<union> divs_cover ys"
  "divs_refs m [] = 0"
  "divs_refs m (x # xs) = frag_refs m (div_frags x) + divs_refs m xs"
  "divs_refs m (xs @ ys) = divs_refs m xs + divs_refs m ys"
  by (auto simp: divs_ok_def divs_cover_def divs_refs_def sorted_wrt_append)

lemma divs_ok_wf: "divs_ok xs \<Longrightarrow> idx_wf div_min xs"
proof (induction xs)
  case (Cons x xs)
  then show ?case using div_ok_le [of x] by force
qed simp

lemma divs_ok_around:
  assumes "divs_ok (l @ p # r)"
  shows "\<forall>y\<in>set l. div_min y < div_min p" "\<forall>y\<in>set r. div_min p < div_min y"
  using divs_ok_wf [OF assms] by (auto simp: idx_wf_append)

section \<open>Merging\<close>

text \<open>The merge never asks for another round, so the loop is one call.\<close>

declare defrag_merge_loop.simps [simp del]

lemma merge_once: "fst (defrag_try_merge_with_succ s k) = False"
  by (auto simp: defrag_try_merge_with_succ_def Let_def split: option.splits)

lemma merge_loop_once: "defrag_merge_loop s k = snd (defrag_try_merge_with_succ s k)"
  using merge_once [of s k] by (subst defrag_merge_loop.simps) (auto split: prod.splits)

text \<open>Merging on a split tree; only the order of the keys is needed.\<close>

definition div_merge :: "nn_defrag_iv \<Rightarrow> nn_defrag_iv list \<Rightarrow> nn_defrag_iv list" where
  "div_merge p r = (case r of
       [] \<Rightarrow> [p]
     | q # r' \<Rightarrow> if div_min q > div_maxp1 p then p # r
                else p\<lparr>div_frags := div_frags p @ div_frags q, div_maxp1 := div_maxp1 q\<rparr> # r')"

lemma merge_split:
  assumes "df_fragtree s = l @ p # r" "\<forall>y\<in>set l. div_min y < div_min p"
    and "\<forall>y\<in>set r. div_min p < div_min y" "idx_wf div_min r"
    and last: "df_lastfrag s = map_option div_min (last_opt (df_fragtree s))"
  shows "defrag_merge_loop s (div_min p) =
    s\<lparr>df_fragtree := l @ div_merge p r, df_lastfrag := map_option div_min (last_opt (l @ div_merge p r))\<rparr>"
proof (cases r)
  case Nil
  with assms show ?thesis
    by (simp add: merge_loop_once defrag_try_merge_with_succ_def div_merge_def)
next
  case (Cons q r')
  have q: "div_min p < div_min q" "\<forall>y\<in>set r'. div_min q < div_min y" using assms Cons by auto
  have nl: "df_lastfrag s \<noteq> Some (div_min p)"
    using assms(3) last Cons by (auto simp: assms(1) dest!: last_opt_in_set)
  have lk: "idx_lookup div_min (div_min p) (df_fragtree s) = Some p"
    "idx_succ div_min (div_min p) (df_fragtree s) = Some q"
    using idx_at(1,5) [OF assms(2,3)] by (simp_all add: assms(1) Cons)
  show ?thesis
  proof (cases "div_min q > div_maxp1 p")
    case True
    then show ?thesis
      using nl lk assms(1) last Cons
      by (simp add: merge_loop_once defrag_try_merge_with_succ_def div_merge_def)
  next
    case False
    define p1 where "p1 = p\<lparr>div_frags := div_frags p @ div_frags q, div_maxp1 := div_maxp1 q\<rparr>"
    have "\<forall>y\<in>set (l @ [p]). div_min y < div_min q" using assms(2) q by auto
    from idx_at(6) [OF this q(2)]
    have del: "idx_delete div_min (div_min q) (df_fragtree s) = l @ p # r'" by (simp add: assms(1) Cons)
    have "\<forall>y\<in>set r'. div_min p < div_min y" using q by auto
    from idx_at(7) [OF assms(2) this]
    have upd: "idx_update div_min (div_min p) p1 (l @ p # r') = l @ p1 # r'" .
    have lq: "df_lastfrag s = Some (div_min q) \<longleftrightarrow> r' = []"
      using last q(2) by (auto simp: assms(1) Cons dest!: last_opt_in_set)
    have m: "defrag_merge_loop s (div_min p) = s\<lparr>df_fragtree := l @ p1 # r', df_lastfrag :=
        if df_lastfrag s = Some (div_min q) then Some (div_min p) else df_lastfrag s\<rparr>"
      using False nl lk del upd
      by (auto simp: merge_loop_once defrag_try_merge_with_succ_def Let_def p1_def)
    have "div_merge p r = p1 # r'" using False Cons by (simp add: div_merge_def p1_def)
    moreover have "(if df_lastfrag s = Some (div_min q) then Some (div_min p) else df_lastfrag s)
        = map_option div_min (last_opt (l @ p1 # r'))"
      using lq last by (simp add: assms(1) Cons p1_def)
    ultimately show ?thesis by (simp add: m)
  qed
qed

lemma div_merge_spec:
  assumes p: "div_ok p" "div_frags p \<noteq> []" and r: "divs_ok r" "\<forall>y\<in>set r. div_min p < div_min y"
    and old: "\<forall>y\<in>set r. old < div_min y" "div_min p \<le> old" "old \<le> div_maxp1 p"
  shows "divs_ok (div_merge p r) \<and> (\<exists>x xs. div_merge p r = x # xs \<and> div_min x = div_min p \<and> div_frags x \<noteq> [])
    \<and> {div_min p..<old} \<union> divs_cover r \<subseteq> divs_cover (div_merge p r)
    \<and> divs_cover (div_merge p r) \<subseteq> div_set p \<union> divs_cover r
    \<and> ((\<forall>y\<in>set r. div_maxp1 p \<le> div_maxp1 y) \<longrightarrow> divs_cover (div_merge p r) = div_set p \<union> divs_cover r)
    \<and> divs_refs m (div_merge p r) = frag_refs m (div_frags p) + divs_refs m r
    \<and> (\<forall>y\<in>set (div_merge p r). div_min p \<le> div_min y)"
proof (cases r)
  case Nil
  with p old show ?thesis by (auto simp: div_merge_def div_set_def)
next
  case (Cons q r')
  with r have q: "div_ok q" "div_min p < div_min q" "divs_ok r'" "\<forall>y\<in>set r'. div_maxp1 q < div_min y" by auto
  have qn: "div_frags q \<noteq> []" using q by (auto simp: div_ok_def split: if_splits)
  then have ql: "div_min q < div_maxp1 q" using q by (auto simp: div_ok_def)
  show ?thesis
  proof (cases "div_min q > div_maxp1 p")
    case True
    with q ql Cons p old r show ?thesis
      by (auto simp: div_merge_def div_set_def less_imp_le dest: less_trans)
  next
    case False
    define p1 where "p1 = p\<lparr>div_frags := div_frags p @ div_frags q, div_maxp1 := div_maxp1 q\<rparr>"
    obtain q1 where q1: "frags_reach (div_min p) (div_frags p) = Some q1" "div_maxp1 p \<le> q1"
      using p by (auto simp: div_ok_def)
    obtain q2 where q2: "frags_reach (div_min q) (div_frags q) = Some q2" "div_maxp1 q \<le> q2"
      using q(1) qn by (auto simp: div_ok_def)
    have "div_ok p1"
      using frags_reach_append [OF q1(1) q2(1)] q1(2) q2(2) False q(2) ql p(2)
      by (auto simp: p1_def div_ok_def intro: le_trans)
    moreover have "div_merge p r = p1 # r'" using False Cons by (simp add: div_merge_def p1_def)
    moreover have "div_set p1 \<subseteq> div_set p \<union> div_set q" "{div_min p..<old} \<union> div_set q \<subseteq> div_set p1"
      "div_maxp1 p \<le> div_maxp1 q \<Longrightarrow> div_set p \<union> div_set q \<subseteq> div_set p1"
      using False q(2) ql old Cons by (auto simp: p1_def div_set_def)
    moreover have "div_frags p1 \<noteq> []" "div_min p1 = div_min p" "div_maxp1 p1 = div_maxp1 q"
      "frag_refs m (div_frags p1) = frag_refs m (div_frags p) + frag_refs m (div_frags q)"
      using p by (simp_all add: p1_def)
    moreover have "\<forall>y\<in>set r'. div_min p \<le> div_min y" using r(2) Cons by (simp add: less_imp_le)
    ultimately show ?thesis
      using q Cons by (auto simp del: One_nat_def)
  qed
qed

section \<open>Adding a fragment\<close>

definition df_refs :: "rmsg_id \<Rightarrow> nn_rsample_defrag \<Rightarrow> int" where
  "df_refs m s = divs_refs m (df_fragtree s)"

definition df_cover :: "nn_rsample_defrag \<Rightarrow> nat set" where
  "df_cover s = divs_cover (df_fragtree s)"

text \<open>No stored interval lies inside the new range; so it is when all fragments have one size.\<close>

definition df_no_inner :: "nn_rsample_defrag \<Rightarrow> nat \<Rightarrow> nat \<Rightarrow> bool" where
  "df_no_inner s mn maxp1 \<longleftrightarrow>
     (\<forall>iv\<in>set (df_fragtree s). \<not> (mn \<le> div_min iv \<and> div_maxp1 iv < maxp1))"

text \<open>Fast and slow path find the same predecessor.\<close>

lemma predeq_split:
  assumes ok: "df_ok s"
  obtains l p r where "df_fragtree s = l @ p # r" "div_min p \<le> mn" "\<forall>y\<in>set l. div_min y < div_min p"
    "\<forall>y\<in>set r. mn < div_min y"
    "(case df_lastfrag s of None \<Rightarrow> None
      | Some k \<Rightarrow> if mn \<ge> k then idx_lookup div_min k (df_fragtree s)
                  else idx_pred_eq div_min mn (df_fragtree s)) = Some p"
    "Some (div_min p) \<noteq> df_lastfrag s \<longleftrightarrow> r \<noteq> []"
proof -
  from ok have dv: "divs_ok (df_fragtree s)" and last: "df_lastfrag s = map_option div_min (last_opt (df_fragtree s))"
    by (auto simp: df_ok_def)
  obtain iv ivs where iv: "df_fragtree s = iv # ivs" "div_min iv = 0" using ok by (auto simp: df_ok_def)
  have "idx_pred_eq div_min mn (df_fragtree s) \<noteq> None"
    using idx_pred_eq_None [OF divs_ok_wf [OF dv]] iv by fastforce
  then obtain p where p: "idx_pred_eq div_min mn (df_fragtree s) = Some p" by blast
  obtain l r where lr: "df_fragtree s = l @ p # r" "div_min p \<le> mn" "\<forall>y\<in>set l. div_min y < div_min p"
    "\<forall>y\<in>set r. mn < div_min y" using idx_pred_eq_split [OF divs_ok_wf [OF dv] p] .
  obtain k where k: "last_opt (df_fragtree s) = Some k" using lr(1) by fastforce
  have kr: "r = [] \<Longrightarrow> k = p" "r \<noteq> [] \<Longrightarrow> k \<in> set r"
    using k by (auto simp: lr(1) dest: last_opt_in_set split: if_splits)
  have pr: "\<forall>y\<in>set r. div_min p < div_min y" using divs_ok_around [OF dv [unfolded lr(1)]] by blast
  have "idx_lookup div_min (div_min p) (df_fragtree s) = Some p" using idx_at(1) [OF lr(3) pr] by (simp add: lr(1))
  with p k kr lr(2,4) have "(case df_lastfrag s of None \<Rightarrow> None
      | Some k \<Rightarrow> if mn \<ge> k then idx_lookup div_min k (df_fragtree s)
                  else idx_pred_eq div_min mn (df_fragtree s)) = Some p"
    by (cases "r = []") (auto simp: last)
  moreover have "Some (div_min p) \<noteq> df_lastfrag s \<longleftrightarrow> r \<noteq> []"
    using last k kr pr by (cases "r = []") auto
  ultimately show thesis using that lr by blast
qed

definition df_added ::
  "nn_rsample_defrag \<Rightarrow> nn_rdata \<Rightarrow> refcounts \<Rightarrow> nn_rsample_defrag \<Rightarrow> refcounts \<Rightarrow> bool" where
  "df_added s rdata rc s' rc' \<longleftrightarrow>
     df_ok s' \<and> df_seq s' = df_seq s
     \<and> df_cover s \<subseteq> df_cover s' \<and> df_cover s' \<subseteq> df_cover s \<union> {rd_min rdata..<rd_maxp1 rdata}
     \<and> (df_no_inner s (rd_min rdata) (rd_maxp1 rdata) \<longrightarrow>
          df_cover s' = df_cover s \<union> {rd_min rdata..<rd_maxp1 rdata})
     \<and> (\<forall>m. rc' m - RMSG_REFCOUNT_RDATA_BIAS * df_refs m s' = rc m - RMSG_REFCOUNT_RDATA_BIAS * df_refs m s)"

lemma rdata_bias_count: "nn_rdata_addbias d rc m = rc m + (if rd_rmsg d = m then RMSG_REFCOUNT_RDATA_BIAS else 0)"
  by (simp add: nn_rdata_addbias_def nn_rmsg_addbias_def)

text \<open>The new tree, given as a list around the changed interval.\<close>

lemma df_addedI:
  assumes s: "df_ok s" "df_fragtree s = l @ m @ r" and ok: "divs_ok (l @ m' @ r')"
    and ne: "l @ m' @ r' \<noteq> []" "\<exists>x xs. l @ m' @ r' = x # xs \<and> div_min x = 0"
    and s': "df_fragtree s' = l @ m' @ r'" "df_lastfrag s' = map_option div_min (last_opt (l @ m' @ r'))"
      "df_seq s' = df_seq s" "si_seq (df_sampleinfo s') = df_seq s"
    and cov: "divs_cover (m @ r) \<subseteq> divs_cover (m' @ r')"
      "divs_cover (m' @ r') \<subseteq> divs_cover (m @ r) \<union> {rd_min rdata..<rd_maxp1 rdata}"
      "df_no_inner s (rd_min rdata) (rd_maxp1 rdata) \<Longrightarrow>
         divs_cover (m' @ r') = divs_cover (m @ r) \<union> {rd_min rdata..<rd_maxp1 rdata}"
    and refs: "\<And>k. divs_refs k (m' @ r') = divs_refs k (m @ r) + (if rd_rmsg rdata = k then 1 else 0)"
    and rc': "rc' = nn_rdata_addbias rdata rc"
  shows "df_added s rdata rc s' rc'"
proof -
  have "df_ok s'" using ok ne s' by (auto simp: df_ok_def)
  moreover have "df_refs k s' = df_refs k s + (if rd_rmsg rdata = k then 1 else 0)" for k
    using refs [of k] by (simp add: df_refs_def s s')
  moreover have "df_cover s \<subseteq> df_cover s' \<and> df_cover s' \<subseteq> df_cover s \<union> {rd_min rdata..<rd_maxp1 rdata}"
    using cov(1,2) by (auto simp: df_cover_def s s')
  moreover have "df_no_inner s (rd_min rdata) (rd_maxp1 rdata) \<Longrightarrow>
      df_cover s' = df_cover s \<union> {rd_min rdata..<rd_maxp1 rdata}"
    using cov(3) by (auto simp: df_cover_def s s')
  ultimately show ?thesis using s' by (auto simp: df_added_def rc' rdata_bias_count algebra_simps)
qed

lemma div_reach:
  assumes "div_ok p"
  obtains q where "frags_reach (div_min p) (div_frags p) = Some q" "div_maxp1 p \<le> q"
  using assms by (cases "div_frags p = []") (auto simp: div_ok_def)

lemma grow_predeq:
  assumes s: "df_ok s" "df_fragtree s = l @ p # r" "\<forall>y\<in>set r. rd_min rdata < div_min y"
    and le: "div_min p \<le> rd_min rdata" "rd_min rdata \<le> div_maxp1 p" "div_maxp1 p < rd_maxp1 rdata"
    and p1: "p1 = p\<lparr>div_frags := div_frags p @ [rdata], div_maxp1 := rd_maxp1 rdata\<rparr>"
    and s1: "s1 = s\<lparr>df_fragtree := l @ p1 # r, df_sampleinfo := si\<rparr>" and si: "si_seq si = df_seq s"
  shows "df_added s rdata rc (defrag_merge_loop s1 (div_min p)) (nn_rdata_addbias rdata rc)"
    "\<exists>x xs. df_fragtree (defrag_merge_loop s1 (div_min p)) = l @ x # xs \<and> div_frags x \<noteq> []"
    "df_sampleinfo (defrag_merge_loop s1 (div_min p)) = si"
proof -
  have dv: "divs_ok (l @ p # r)" and last: "df_lastfrag s = map_option div_min (last_opt (l @ p # r))"
    using s(1) by (auto simp: df_ok_def s(2))
  note around = divs_ok_around [OF dv]
  from dv have ok: "div_ok p" "divs_ok l" "divs_ok r" "\<forall>x\<in>set l. div_maxp1 x < div_min p"
    "\<forall>y\<in>set r. div_maxp1 p < div_min y" by auto
  obtain q where q: "frags_reach (div_min p) (div_frags p) = Some q" "div_maxp1 p \<le> q"
    using div_reach [OF ok(1)] .
  have "frags_reach (div_maxp1 p) [rdata] = Some (max (div_maxp1 p) (rd_maxp1 rdata))" using le by simp
  from frags_reach_append [OF q(1) this q(2)]
  have p1ok: "div_ok p1" "div_frags p1 \<noteq> []" "div_min p1 = div_min p" "div_maxp1 p1 = rd_maxp1 rdata"
    using le by (auto simp: p1 div_ok_def intro: order.strict_trans1 order.strict_trans2)
  have r1: "\<forall>y\<in>set r. div_min p1 < div_min y" "\<forall>y\<in>set l. div_min y < div_min p1"
    using around by (simp_all add: p1)
  have lst: "df_lastfrag s1 = map_option div_min (last_opt (df_fragtree s1))"
    by (simp add: s1 last p1ok)
  have mrg: "defrag_merge_loop s1 (div_min p) = s1\<lparr>df_fragtree := l @ div_merge p1 r,
      df_lastfrag := map_option div_min (last_opt (l @ div_merge p1 r))\<rparr>"
    using merge_split [of s1 l p1 r, OF _ r1(2,1) divs_ok_wf [OF ok(3)] lst] by (simp add: s1 p1ok(3))
  have olds: "div_min p1 \<le> div_maxp1 p" "div_maxp1 p \<le> div_maxp1 p1" using le by (simp_all add: p1ok)
  note ms = div_merge_spec [OF p1ok(1,2) ok(3) r1(1) ok(5) olds, of 0]
  then obtain x xs where x: "div_merge p1 r = x # xs" "div_min x = div_min p" "div_frags x \<noteq> []"
    by (auto simp: p1ok)
  have sets: "div_set p1 = div_set p \<union> {rd_min rdata..<rd_maxp1 rdata}" "{div_min p1..<div_maxp1 p} = div_set p"
    using le by (auto simp: div_set_def p1ok)
  show "df_added s rdata rc (defrag_merge_loop s1 (div_min p)) (nn_rdata_addbias rdata rc)"
  proof (rule df_addedI [where l = l and m = "[p]" and r = r and m' = "[]" and r' = "div_merge p1 r"])
    show "df_ok s" "df_fragtree s = l @ [p] @ r" using s by auto
    show "divs_ok (l @ [] @ div_merge p1 r)" using ms ok by (fastforce simp: p1ok)
    show "l @ [] @ div_merge p1 r \<noteq> []" using x by simp
    show "\<exists>x xs. l @ [] @ div_merge p1 r = x # xs \<and> div_min x = 0"
      using s(1) x by (cases l) (auto simp: df_ok_def s(2))
    show "divs_cover ([p] @ r) \<subseteq> divs_cover ([] @ div_merge p1 r)" using ms sets by auto
    show "divs_cover ([] @ div_merge p1 r) \<subseteq> divs_cover ([p] @ r) \<union> {rd_min rdata..<rd_maxp1 rdata}"
      using ms sets by auto
    show "divs_cover ([] @ div_merge p1 r) = divs_cover ([p] @ r) \<union> {rd_min rdata..<rd_maxp1 rdata}"
      if "df_no_inner s (rd_min rdata) (rd_maxp1 rdata)"
    proof -
      have "\<forall>y\<in>set r. div_maxp1 p1 \<le> div_maxp1 y"
      proof
        fix y assume y: "y \<in> set r"
        then have "rd_min rdata \<le> div_min y" using s(3) by (simp add: less_imp_le)
        with that y show "div_maxp1 p1 \<le> div_maxp1 y" by (auto simp: df_no_inner_def s(2) p1ok)
      qed
      with ms sets show ?thesis by auto
    qed
    show "divs_refs k ([] @ div_merge p1 r) = divs_refs k ([p] @ r) + (if rd_rmsg rdata = k then 1 else 0)" for k
      using div_merge_spec [OF p1ok(1,2) ok(3) r1(1) ok(5) olds, of k] by (simp add: p1)
  qed (simp_all add: mrg [unfolded s1] s1 si)
  show "\<exists>x xs. df_fragtree (defrag_merge_loop s1 (div_min p)) = l @ x # xs \<and> div_frags x \<noteq> []"
    using x by (simp add: mrg)
  show "df_sampleinfo (defrag_merge_loop s1 (div_min p)) = si" by (simp add: mrg) (simp add: s1)
qed

lemma extend_succ:
  assumes s: "df_ok s" "df_fragtree s = l @ p # q # r" "div_min p \<le> rd_min rdata" "rd_min rdata < div_min q"
    and le: "div_maxp1 p < rd_min rdata" "div_min q \<le> rd_maxp1 rdata"
    and q2: "q2 = q\<lparr>div_frags := rdata # div_frags q, div_min := rd_min rdata,
               div_maxp1 := if rd_maxp1 rdata > div_maxp1 q then rd_maxp1 rdata else div_maxp1 q\<rparr>"
    and s1: "s1 = s\<lparr>df_fragtree := l @ p # q2 # r,
               df_lastfrag := if df_lastfrag s = Some (div_min q) then Some (rd_min rdata) else df_lastfrag s\<rparr>"
    and s2: "s2 = (if rd_maxp1 rdata > div_maxp1 q then defrag_merge_loop s1 (rd_min rdata) else s1)"
  shows "df_added s rdata rc s2 (nn_rdata_addbias rdata rc)"
proof -
  have dv: "divs_ok ((l @ [p]) @ q # r)" and last: "df_lastfrag s = map_option div_min (last_opt (l @ p # q # r))"
    using s(1) by (auto simp: df_ok_def s(2))
  from dv have ok: "div_ok q" "div_ok p" "divs_ok l" "divs_ok r" "\<forall>x\<in>set (l @ [p]). div_maxp1 x < div_min q"
    "\<forall>y\<in>set r. div_maxp1 q < div_min y" "\<forall>x\<in>set l. div_maxp1 x < div_min p" by auto
  have qn: "div_frags q \<noteq> []" using ok(1) s(4) by (auto simp: div_ok_def split: if_splits)
  then have ql: "div_min q < div_maxp1 q" using ok(1) by (simp add: div_ok_def)
  obtain e where e: "frags_reach (div_min q) (div_frags q) = Some e" "div_maxp1 q \<le> e" using div_reach [OF ok(1)] .
  obtain e' where e': "frags_reach (rd_maxp1 rdata) (div_frags q) = Some e'" "e \<le> e'"
    using frags_reach_mono [OF e(1) le(2)] by blast
  have "rd_maxp1 rdata \<le> e'" using frags_reach_ge [OF e'(1)] .
  moreover have "max (rd_min rdata) (rd_maxp1 rdata) = rd_maxp1 rdata" using s(4) le(2) by simp
  ultimately have q2ok: "div_ok q2" "div_frags q2 \<noteq> []" "div_min q2 = rd_min rdata"
    "div_maxp1 q2 = max (rd_maxp1 rdata) (div_maxp1 q)"
    using e e' s(4) le ql by (auto simp: q2 div_ok_def)
  have pl: "div_min p \<le> div_maxp1 p" using div_ok_le [OF ok(2)] .
  have around: "\<forall>y\<in>set (l @ [p]). div_min y < div_min q2" "\<forall>y\<in>set r. div_min q2 < div_min y"
  proof -
    have "\<forall>y\<in>set l. div_min y < div_min p" using divs_ok_around(1) [of l p "q # r"] dv by simp
    then show "\<forall>y\<in>set (l @ [p]). div_min y < div_min q2" using le pl q2ok by auto
    show "\<forall>y\<in>set r. div_min q2 < div_min y" using ok(6) ql s(4) q2ok by fastforce
  qed
  have lq: "df_lastfrag s = Some (div_min q) \<longleftrightarrow> r = []"
    using last ok(6) ql by (auto dest!: last_opt_in_set split: if_splits)
  have lst: "df_lastfrag s1 = map_option div_min (last_opt (df_fragtree s1))"
    using lq last by (auto simp: s1 q2ok)
  have mrg: "s2 = s1\<lparr>df_fragtree := (l @ [p]) @ div_merge q2 r,
      df_lastfrag := map_option div_min (last_opt ((l @ [p]) @ div_merge q2 r))\<rparr>"
  proof (cases "rd_maxp1 rdata > div_maxp1 q")
    case True
    with merge_split [of s1 "l @ [p]" q2 r, OF _ around divs_ok_wf [OF ok(4)] lst]
    show ?thesis by (simp add: s2 q2ok(3)) (simp add: s1)
  next
    case False
    then have "div_merge q2 r = q2 # r"
      using ok(6) q2ok(4) by (auto simp: div_merge_def split: list.split)
    with False lst show ?thesis by (simp add: s2) (simp add: s1)
  qed
  have olds: "div_min q2 \<le> div_maxp1 q" "div_maxp1 q \<le> div_maxp1 q2" using s(4) ql by (simp_all add: q2ok)
  note ms = div_merge_spec [OF q2ok(1,2) ok(4) around(2) ok(6) olds, of 0]
  then obtain x xs where x: "div_merge q2 r = x # xs" "div_min x = rd_min rdata" by (auto simp: q2ok)
  have sets: "div_set q2 = div_set q \<union> {rd_min rdata..<rd_maxp1 rdata}" "div_set q \<subseteq> {div_min q2..<div_maxp1 q}"
    using s(4) le ql by (auto simp: div_set_def q2ok)
  show ?thesis
  proof (rule df_addedI [where l = "l @ [p]" and m = "[q]" and r = r and m' = "[]" and r' = "div_merge q2 r"])
    show "df_ok s" "df_fragtree s = (l @ [p]) @ [q] @ r" using s by auto
    show "divs_ok ((l @ [p]) @ [] @ div_merge q2 r)"
    proof -
      have "\<forall>y\<in>set (div_merge q2 r). div_maxp1 p < div_min y \<and> div_min p \<le> div_min y"
        using ms le pl by (fastforce simp: q2ok)
      moreover have "\<forall>y\<in>set (div_merge q2 r). \<forall>x\<in>set l. div_maxp1 x < div_min y"
        using calculation ok(7) by fastforce
      ultimately show ?thesis using ms ok by auto
    qed
    show "(l @ [p]) @ [] @ div_merge q2 r \<noteq> []" by simp
    show "\<exists>x xs. (l @ [p]) @ [] @ div_merge q2 r = x # xs \<and> div_min x = 0"
      using s(1) by (cases l) (auto simp: df_ok_def s(2))
    show "divs_cover ([q] @ r) \<subseteq> divs_cover ([] @ div_merge q2 r)" using ms sets by auto
    show "divs_cover ([] @ div_merge q2 r) \<subseteq> divs_cover ([q] @ r) \<union> {rd_min rdata..<rd_maxp1 rdata}"
      using ms sets by auto
    show "divs_cover ([] @ div_merge q2 r) = divs_cover ([q] @ r) \<union> {rd_min rdata..<rd_maxp1 rdata}"
      if "df_no_inner s (rd_min rdata) (rd_maxp1 rdata)"
    proof -
      have "div_maxp1 q \<le> div_maxp1 y \<and> rd_maxp1 rdata \<le> div_maxp1 y" if "y \<in> set r" for y
      proof -
        have "rd_min rdata \<le> div_min y" "div_maxp1 q < div_min y" "div_min y \<le> div_maxp1 y"
          using around(2) that ok(4,6) div_ok_le by (auto simp: q2ok divs_ok_def less_imp_le)
        with \<open>df_no_inner s _ _\<close> that show ?thesis by (fastforce simp: df_no_inner_def s(2))
      qed
      then have "\<forall>y\<in>set r. div_maxp1 q2 \<le> div_maxp1 y" by (simp add: q2ok)
      with ms sets show ?thesis by auto
    qed
    show "divs_refs k ([] @ div_merge q2 r) = divs_refs k ([q] @ r) + (if rd_rmsg rdata = k then 1 else 0)" for k
      using div_merge_spec [OF q2ok(1,2) ok(4) around(2) ok(6) olds, of k] by (simp add: q2)
    show "si_seq (df_sampleinfo s2) = df_seq s" using s(1) by (simp add: mrg s1 df_ok_def)
  qed (simp_all add: mrg s1)
qed

lemma insert_new_iv:
  assumes s: "df_ok s" "df_fragtree s = l @ p # r" "div_min p \<le> rd_min rdata" "\<forall>y\<in>set r. rd_min rdata < div_min y"
    and le: "div_maxp1 p < rd_min rdata" "rd_min rdata < rd_maxp1 rdata"
    and apart: "\<forall>y\<in>set r. rd_maxp1 rdata < div_min y"
    and new: "defrag_rsample_addiv s rdata rc = (s', rc')"
  shows "df_added s rdata rc s' rc'"
proof -
  define iv where "iv = \<lparr>div_min = rd_min rdata, div_maxp1 = rd_maxp1 rdata, div_frags = [rdata]\<rparr>"
  have dv: "divs_ok (l @ p # r)" and last: "df_lastfrag s = map_option div_min (last_opt (l @ p # r))"
    using s(1) by (auto simp: df_ok_def s(2))
  from dv have ok: "div_ok p" "divs_ok l" "divs_ok r" "\<forall>x\<in>set l. div_maxp1 x < div_min p" by auto
  have pl: "div_min p \<le> div_maxp1 p" using div_ok_le [OF ok(1)] .
  have ivok: "div_ok iv" "div_min iv = rd_min rdata" "div_maxp1 iv = rd_maxp1 rdata"
    using le by (auto simp: iv_def div_ok_def)
  have below: "\<forall>y\<in>set (l @ [p]). div_min y < div_min iv"
    using divs_ok_around(1) [OF dv] le pl by (auto simp: ivok)
  have ins: "idx_insert div_min iv (df_fragtree s) = l @ p # iv # r"
    using idx_insert_gap [OF below, of r] s(4) by (simp add: s(2) ivok)
  have lst: "(case df_lastfrag s of None \<Rightarrow> Some (rd_min rdata)
      | Some k \<Rightarrow> if rd_min rdata > k then Some (rd_min rdata) else Some k)
     = map_option div_min (last_opt (l @ p # iv # r))"
    using last s(4) below by (auto simp: ivok dest!: last_opt_in_set split: option.splits)
  have s': "s' = s\<lparr>df_fragtree := l @ p # iv # r,
      df_lastfrag := map_option div_min (last_opt (l @ p # iv # r))\<rparr>" "rc' = nn_rdata_addbias rdata rc"
    using new ins lst by (auto simp: defrag_rsample_addiv_def Let_def iv_def [symmetric])
  show ?thesis
  proof (rule df_addedI [where l = "l @ [p]" and m = "[]" and r = r and m' = "[iv]" and r' = r])
    show "df_ok s" "df_fragtree s = (l @ [p]) @ [] @ r" using s by auto
    show "divs_ok ((l @ [p]) @ [iv] @ r)"
      using dv ivok le apart pl by (fastforce intro: less_trans)
    show "(l @ [p]) @ [iv] @ r \<noteq> []" by simp
    show "\<exists>x xs. (l @ [p]) @ [iv] @ r = x # xs \<and> div_min x = 0"
      using s(1) by (cases l) (auto simp: df_ok_def s(2))
    show "si_seq (df_sampleinfo s') = df_seq s" using s(1) by (simp add: s' df_ok_def)
    show "divs_refs k ([iv] @ r) = divs_refs k ([] @ r) + (if rd_rmsg rdata = k then 1 else 0)" for k
      by (simp add: iv_def)
  qed (auto simp: s' div_set_def ivok)
qed

lemma is_complete_any:
  assumes "df_ok s" "\<forall>iv\<in>set (df_fragtree s). div_maxp1 iv \<le> si_size (df_sampleinfo s)"
    and "iv \<in> set (df_fragtree s)" "div_min iv = 0" "div_maxp1 iv \<ge> si_size (df_sampleinfo s)"
  shows "df_fragtree s = [iv]"
proof -
  obtain x xs where x: "df_fragtree s = x # xs" "div_min x = 0" using assms(1) by (auto simp: df_ok_def)
  from assms(1) x have dv: "divs_ok (x # xs)" by (simp add: df_ok_def)
  have "iv = x"
  proof (rule ccontr)
    assume "iv \<noteq> x"
    with assms(3) x have "iv \<in> set xs" by simp
    with dv assms(4) show False by auto
  qed
  moreover have "xs = []"
  proof (cases xs)
    case (Cons y ys)
    with dv have "div_ok y" "div_maxp1 x < div_min y" by auto
    moreover from this have "div_min y \<le> div_maxp1 y" by (simp add: div_ok_le)
    moreover have "div_maxp1 y \<le> si_size (df_sampleinfo s)" using assms(2) x Cons by simp
    ultimately show ?thesis using assms(5) \<open>iv = x\<close> by simp
  qed simp
  ultimately show ?thesis using x by simp
qed

text \<open>\<open>defrag_add_fragment\<close>: either the fragment adds nothing, or it is added.\<close>

lemma add_fragment_spec:
  assumes s: "df_ok s" and le: "rd_min rdata < rd_maxp1 rdata" and si: "si_seq si = df_seq s"
    and add: "defrag_add_fragment s rdata si rc = (c, s', disc, rc')"
  shows "(s' = s \<and> rc' = rc \<and> \<not> c \<and> {rd_min rdata..<rd_maxp1 rdata} \<subseteq> df_cover s
            \<and> disc = rd_maxp1 rdata - rd_min rdata)
       \<or> (df_added s rdata rc s' rc' \<and> disc = 0
            \<and> (c \<longrightarrow> (\<exists>iv. df_fragtree s' = [iv] \<and> div_min iv = 0 \<and> div_frags iv \<noteq> []
                 \<and> si_size (df_sampleinfo s') \<le> div_maxp1 iv)))"
proof -
  obtain l p r where d: "df_fragtree s = l @ p # r" "div_min p \<le> rd_min rdata"
    "\<forall>y\<in>set l. div_min y < div_min p" "\<forall>y\<in>set r. rd_min rdata < div_min y"
    "(case df_lastfrag s of None \<Rightarrow> None
      | Some k \<Rightarrow> if rd_min rdata \<ge> k then idx_lookup div_min k (df_fragtree s)
                  else idx_pred_eq div_min (rd_min rdata) (df_fragtree s)) = Some p"
    "Some (div_min p) \<noteq> df_lastfrag s \<longleftrightarrow> r \<noteq> []"
    using predeq_split [OF s] .
  from s have dv: "divs_ok (l @ p # r)" by (simp add: df_ok_def d(1))
  note around = divs_ok_around [OF dv]
  note def = defrag_add_fragment_def Let_def d(5)
  consider (inside) "rd_maxp1 rdata \<le> div_maxp1 p" | (grow) "div_maxp1 p < rd_maxp1 rdata" "rd_min rdata \<le> div_maxp1 p"
    | (succ) q r' where "div_maxp1 p < rd_min rdata" "r = q # r'" "div_min q \<le> rd_maxp1 rdata"
    | (new) "div_maxp1 p < rd_min rdata" "\<forall>y\<in>set r. rd_maxp1 rdata < div_min y"
  proof (cases r)
    case Nil
    with inside grow new show ?thesis by fastforce
  next
    case (Cons q r')
    have "rd_maxp1 rdata < div_min q \<Longrightarrow> \<forall>y\<in>set r. rd_maxp1 rdata < div_min y"
      using divs_ok_wf [OF dv] by (auto simp: Cons idx_wf_append dest: less_trans)
    moreover consider "rd_maxp1 rdata \<le> div_maxp1 p" | "div_maxp1 p < rd_maxp1 rdata" "rd_min rdata \<le> div_maxp1 p"
      | "div_maxp1 p < rd_min rdata" "div_min q \<le> rd_maxp1 rdata"
      | "div_maxp1 p < rd_min rdata" "rd_maxp1 rdata < div_min q" by linarith
    ultimately show ?thesis using inside grow succ [OF _ Cons] new by cases blast+
  qed
  then show ?thesis
  proof cases
    case inside
    with d(2) have "{rd_min rdata..<rd_maxp1 rdata} \<subseteq> df_cover s"
      by (auto simp: df_cover_def d(1) div_set_def)
    with inside add show ?thesis by (auto simp: def)
  next
    case grow
    define p1 where "p1 = p\<lparr>div_frags := div_frags p @ [rdata], div_maxp1 := rd_maxp1 rdata\<rparr>"
    define si' where "si' = (if div_frags p \<noteq> [] then df_sampleinfo s else si)"
    define s1 where "s1 = s\<lparr>df_fragtree := l @ p1 # r, df_sampleinfo := si'\<rparr>"
    have si': "si_seq si' = df_seq s" using s si by (simp add: si'_def df_ok_def)
    have upd: "idx_update div_min (div_min p) p1 (df_fragtree s) = l @ p1 # r"
      using idx_at(7) [OF around] by (simp add: d(1))
    have res: "s' = defrag_merge_loop s1 (div_min p)" "rc' = nn_rdata_addbias rdata rc" "disc = 0" "c = is_complete s'"
      using add grow upd by (auto simp: def p1_def [symmetric] s1_def si'_def)
    note g = grow_predeq [OF s d(1,4,2) grow(2,1) p1_def s1_def si']
    have "\<exists>iv. df_fragtree s' = [iv] \<and> div_min iv = 0 \<and> div_frags iv \<noteq> []
        \<and> si_size (df_sampleinfo s') \<le> div_maxp1 iv" if c
    proof -
      from that res(4) obtain iv where iv: "df_fragtree s' = [iv]" "div_min iv = 0" "si_size (df_sampleinfo s') \<le> div_maxp1 iv"
        by (auto simp: is_complete_def split: list.splits)
      moreover from g(2) iv(1) have "div_frags iv \<noteq> []"
        unfolding res(1) by (cases l) auto
      ultimately show ?thesis by blast
    qed
    with g(1) res show ?thesis by blast
  next
    case (succ q r')
    define q2 where "q2 = q\<lparr>div_frags := rdata # div_frags q, div_min := rd_min rdata,
               div_maxp1 := if rd_maxp1 rdata > div_maxp1 q then rd_maxp1 rdata else div_maxp1 q\<rparr>"
    define s1 where "s1 = s\<lparr>df_fragtree := l @ p # q2 # r',
               df_lastfrag := if df_lastfrag s = Some (div_min q) then Some (rd_min rdata) else df_lastfrag s\<rparr>"
    define s2 where "s2 = (if rd_maxp1 rdata > div_maxp1 q then defrag_merge_loop s1 (rd_min rdata) else s1)"
    have sc: "idx_succ div_min (div_min p) (df_fragtree s) = Some q"
      using idx_at(5) [OF around] by (simp add: d(1) succ)
    have q: "\<forall>y\<in>set (l @ [p]). div_min y < div_min q" "\<forall>y\<in>set r'. div_min q < div_min y"
      using divs_ok_wf [OF dv] by (auto simp: succ idx_wf_append)
    have upd: "idx_update div_min (div_min q) y (df_fragtree s) = l @ p # y # r'" for y
      using idx_at(7) [OF q, of y] by (simp add: d(1) succ)
    have nl: "Some (div_min p) \<noteq> df_lastfrag s" using d(6) succ by simp
    have res: "s' = s2" "rc' = nn_rdata_addbias rdata rc" "disc = 0" "\<not> c"
      using add succ(1,3) sc nl upd le by (auto simp: def q2_def s1_def s2_def)
    have "rd_min rdata < div_min q" using d(4) succ by simp
    from extend_succ [OF s _ d(2) this succ(1,3) q2_def s1_def s2_def] res
    show ?thesis by (simp add: d(1) succ)
  next
    case new
    have sc: "(if Some (div_min p) \<noteq> df_lastfrag s then idx_succ div_min (div_min p) (df_fragtree s) else None) = first_opt r"
      using idx_at(5) [OF around] d(6) by (cases r) (simp_all add: d(1))
    obtain s1 rc1 where a: "defrag_rsample_addiv s rdata rc = (s1, rc1)" by fastforce
    have "s' = s1 \<and> rc' = rc1 \<and> disc = 0 \<and> \<not> c"
      using add new sc a le by (cases r) (auto simp: def split: if_splits)
    with insert_new_iv [OF s d(1,2,4) new(1) le new(2) a] show ?thesis by blast
  qed
qed

section \<open>The administration\<close>

definition dg_refs :: "rmsg_id \<Rightarrow> nn_defrag \<Rightarrow> int" where
  "dg_refs m d = (\<Sum>s\<leftarrow>dg_sampletree d. df_refs m s)"

text \<open>The part of the invariant that holds between dropping a sample and updating \<open>max_sample\<close>.\<close>

definition dg_core :: "nn_defrag \<Rightarrow> bool" where
  "dg_core d \<longleftrightarrow> idx_wf df_seq (dg_sampletree d) \<and> (\<forall>s\<in>set (dg_sampletree d). df_ok s \<and> 0 < df_seq s)
     \<and> dg_n_samples d = length (dg_sampletree d) \<and> dg_n_samples d \<le> dg_max_samples d"

definition dg_ok :: "nn_defrag \<Rightarrow> bool" where
  "dg_ok d \<longleftrightarrow> dg_core d \<and> dg_max_sample d = map_option df_seq (last_opt (dg_sampletree d))"

text \<open>What a step did to the ledger: \<open>out\<close> is the chain that left the administration.\<close>

definition dg_ledger :: "nn_defrag \<Rightarrow> refcounts \<Rightarrow> nn_defrag \<Rightarrow> nn_rsample_chain_elem list \<Rightarrow> refcounts \<Rightarrow> bool" where
  "dg_ledger d rc d' out rc' \<longleftrightarrow>
     (\<forall>m. rc' m = rc m + RMSG_REFCOUNT_RDATA_BIAS * (dg_refs m d' - dg_refs m d + chain_refs m out))"

lemma dg_ledger_refl [simp]: "dg_ledger d rc d [] rc"
  by (simp add: dg_ledger_def)

lemma dg_ledger_trans:
  "dg_ledger d rc d1 [] rc1 \<Longrightarrow> dg_ledger d1 rc1 d2 out rc2 \<Longrightarrow> dg_ledger d rc d2 out rc2"
  by (simp add: dg_ledger_def right_diff_distrib distrib_left)

lemma rmbias_ivs_count:
  "defrag_rmbias_ivs ivs rc m = rc m - RMSG_REFCOUNT_RDATA_BIAS * divs_refs m ivs"
  by (induction ivs arbitrary: rc)
    (simp_all add: nn_fragchain_rmbias_def fragchain_adjust_count distrib_left)

lemma dg_refs_split:
  assumes "dg_sampletree d = l @ s # r"
  shows "dg_refs m d = (\<Sum>s\<leftarrow>l. df_refs m s) + df_refs m s + (\<Sum>s\<leftarrow>r. df_refs m s)"
  by (simp add: dg_refs_def assms)

lemma find_max_ok: "dg_core d \<Longrightarrow> dg_ok (defrag_find_max d)"
  by (auto simp: dg_ok_def dg_core_def defrag_find_max_def)

lemma find_max_sel [simp]:
  "dg_sampletree (defrag_find_max d) = dg_sampletree d" "dg_n_samples (defrag_find_max d) = dg_n_samples d"
  "dg_max_samples (defrag_find_max d) = dg_max_samples d" "dg_refs m (defrag_find_max d) = dg_refs m d"
  "dg_drop_mode (defrag_find_max d) = dg_drop_mode d"
  by (auto simp: defrag_find_max_def dg_refs_def)

lemma rsample_drop_spec:
  assumes core: "dg_core d" and s: "s \<in> set (dg_sampletree d)"
    and drop: "defrag_rsample_drop d s rc = (d', rc')"
  shows "dg_core d' \<and> Suc (dg_n_samples d') = dg_n_samples d \<and> dg_ledger d rc d' [] rc'
    \<and> set (dg_sampletree d') = set (dg_sampletree d) - {s} \<and> dg_max_samples d' = dg_max_samples d
    \<and> dg_max_sample d' = dg_max_sample d \<and> dg_drop_mode d' = dg_drop_mode d"
proof -
  from core have wf: "idx_wf df_seq (dg_sampletree d)" by (simp add: dg_core_def)
  obtain l r where lr: "dg_sampletree d = l @ s # r" "\<forall>y\<in>set l. df_seq y < df_seq s" "\<forall>y\<in>set r. df_seq s < df_seq y"
    using idx_split_at [OF wf s] by metis
  have d': "d' = d\<lparr>dg_sampletree := l @ r, dg_n_samples := dg_n_samples d - 1\<rparr>"
    "rc' = defrag_rmbias_ivs (df_fragtree s) rc"
    using drop idx_at(6) [OF lr(2,3)] by (auto simp: defrag_rsample_drop_def lr(1))
  have "s \<notin> set l" "s \<notin> set r" using lr(2,3) by auto
  moreover have "dg_ledger d rc d' [] rc'"
    by (simp add: dg_ledger_def d' rmbias_ivs_count dg_refs_split [OF lr(1)] df_refs_def)
      (simp add: dg_refs_def df_refs_def algebra_simps)
  ultimately show ?thesis using core lr by (auto simp: dg_core_def d' idx_wf_append)
qed

lemma dg_max_last:
  assumes "dg_ok d" "dg_sampletree d \<noteq> []"
  obtains l s where "dg_sampletree d = l @ [s]" "dg_max_sample d = Some (df_seq s)" "defrag_max_seq d = df_seq s"
    "idx_lookup df_seq (df_seq s) (dg_sampletree d) = Some s"
proof -
  obtain l s where ls: "dg_sampletree d = l @ [s]" using assms(2) by (cases "dg_sampletree d" rule: rev_cases) auto
  moreover from this assms have "dg_max_sample d = Some (df_seq s)" by (simp add: dg_ok_def)
  moreover have "idx_lookup df_seq (df_seq s) (dg_sampletree d) = Some s"
    using assms(1) ls by (intro idx_lookup_in) (auto simp: dg_ok_def dg_core_def)
  ultimately show thesis using that by (simp add: defrag_max_seq_def)
qed

lemma limit_samples_spec:
  assumes ok: "dg_ok d" and max: "0 < dg_max_samples d" and lim: "defrag_limit_samples d seq rc = Some (d', rc')"
  shows "dg_ok d' \<and> dg_n_samples d' < dg_max_samples d \<and> dg_ledger d rc d' [] rc'
    \<and> dg_max_samples d' = dg_max_samples d \<and> set (dg_sampletree d') \<subseteq> set (dg_sampletree d)"
proof (cases "dg_n_samples d < dg_max_samples d")
  case True
  with lim ok show ?thesis by (simp add: defrag_limit_samples_def)
next
  case False
  with max ok have ne: "dg_sampletree d \<noteq> []" by (auto simp: dg_ok_def dg_core_def)
  obtain l z where lz: "dg_sampletree d = l @ [z]" "dg_max_sample d = Some (df_seq z)" "defrag_max_seq d = df_seq z"
    "idx_lookup df_seq (df_seq z) (dg_sampletree d) = Some z" using dg_max_last [OF ok ne] .
  obtain s where td: "defrag_sample_to_drop d seq = Some s"
    and d': "(let (d1, rc1) = defrag_rsample_drop d s rc
              in if Some (df_seq s) = dg_max_sample d then (defrag_find_max d1, rc1) else (d1, rc1)) = (d', rc')"
    using lim False by (auto simp: defrag_limit_samples_def split: option.splits prod.splits)
  from td lz have s: "s \<in> set (dg_sampletree d)"
    by (cases "dg_drop_mode d")
      (auto simp: defrag_sample_to_drop_def dest!: first_opt_in_set split: option.splits if_splits)
  obtain d1 rc1 where drop: "defrag_rsample_drop d s rc = (d1, rc1)" by fastforce
  note sp = rsample_drop_spec [OF _ s drop]
  from ok have core: "dg_core d" by (simp add: dg_ok_def)
  note sp = sp [OF core]
  have n: "dg_n_samples d1 < dg_max_samples d" using sp core by (simp add: dg_core_def)
  show ?thesis
  proof (cases "df_seq s = df_seq z")
    case True
    with d' drop lz have "d' = defrag_find_max d1" "rc' = rc1" by auto
    with sp n find_max_ok [of d1] show ?thesis by (auto simp: dg_ledger_def)
  next
    case ne: False
    with d' drop lz have r: "d' = d1" "rc' = rc1" by auto
    have "last_opt (dg_sampletree d1) = Some z"
    proof -
      have "dg_sampletree d1 = idx_delete df_seq (df_seq s) (l @ [z])"
        using drop by (auto simp: defrag_rsample_drop_def lz(1))
      then show ?thesis using ne by (simp add: idx_delete_def)
    qed
    with sp n r lz show ?thesis by (auto simp: dg_ok_def)
  qed
qed

lemma rsample_new_spec:
  assumes "rd_min rdata < rd_maxp1 rdata" "defrag_rsample_new rdata si rc = (s, rc')"
  shows "df_ok s \<and> df_seq s = si_seq si \<and> df_cover s = {rd_min rdata..<rd_maxp1 rdata}
    \<and> (\<forall>m. df_refs m s = (if rd_rmsg rdata = m then 1 else 0)) \<and> rc' = nn_rdata_addbias rdata rc"
  using assms
  by (cases "rd_min rdata = 0")
    (auto simp: defrag_rsample_new_def defrag_rsample_addiv_def Let_def df_ok_def div_ok_def
      df_cover_def div_set_def df_refs_def)

lemma new_sample_spec:
  assumes core: "dg_core d" and room: "dg_n_samples d < dg_max_samples d"
    and le: "rd_min rdata < rd_maxp1 rdata" and seq: "0 < si_seq si" "idx_lookup df_seq (si_seq si) (dg_sampletree d) = None"
    and new: "defrag_new_sample d rdata si rc = (d', rc')"
  shows "dg_core d' \<and> dg_ledger d rc d' [] rc' \<and> dg_max_samples d' = dg_max_samples d
    \<and> dg_max_sample d' = dg_max_sample d
    \<and> (\<exists>s. dg_sampletree d' = idx_insert df_seq s (dg_sampletree d) \<and> df_seq s = si_seq si
          \<and> df_cover s = {rd_min rdata..<rd_maxp1 rdata})"
proof -
  obtain s where s: "defrag_rsample_new rdata si rc = (s, rc')"
    "d' = d\<lparr>dg_sampletree := idx_insert df_seq s (dg_sampletree d), dg_n_samples := dg_n_samples d + 1\<rparr>"
    using new by (auto simp: defrag_new_sample_def split: prod.splits)
  note sp = rsample_new_spec [OF le s(1)]
  then have seq': "df_seq s = si_seq si" by blast
  have wf: "idx_wf df_seq (idx_insert df_seq s (dg_sampletree d))"
    using core seq(2) by (intro idx_insert_wf) (auto simp: dg_core_def seq')
  have refs: "dg_refs m d' = dg_refs m d + df_refs m s" for m
  proof -
    have "(\<Sum>x\<leftarrow>idx_insert df_seq s xs. df_refs m x) = df_refs m s + (\<Sum>x\<leftarrow>xs. df_refs m x)" for xs
      by (induction xs) auto
    then show ?thesis by (simp add: dg_refs_def s(2))
  qed
  have len: "length (idx_insert df_seq s xs) = Suc (length xs)" for xs by (induction xs) auto
  have "dg_ledger d rc d' [] rc'"
    using sp by (simp add: dg_ledger_def refs rdata_bias_count)
  with core room wf seq sp len show ?thesis
    by (auto simp: dg_core_def s(2) idx_insert_set)
qed

text \<open>A sample the defragmenter hands on: its chain, read in order, yields all bytes of the sample.\<close>

definition complete_rsample :: "seqno \<Rightarrow> nn_rsample_reorder \<Rightarrow> bool" where
  "complete_rsample seq rs \<longleftrightarrow> (\<exists>frags si q. rs = singleton_rsample frags si \<and> si_seq si = seq
     \<and> frags_reach 0 frags = Some q \<and> si_size si \<le> q)"

lemma idx_update_split:
  assumes "idx_wf key (l @ x # r)" "key y = key x"
  shows "idx_update key (key x) y (l @ x # r) = l @ y # r" "idx_wf key (l @ y # r)"
  using assms idx_at(7) [of l key x r y] by (auto simp: idx_wf_append)

lemma to_sample_spec:
  assumes ok: "dg_ok d" and s: "s \<in> set (dg_sampletree d)" and le: "rd_min rdata < rd_maxp1 rdata"
    and si: "si_seq si = df_seq s" and to: "defrag_to_sample d s rdata si rc = (res, d', rc')"
  shows "dg_ok d' \<and> dg_max_samples d' = dg_max_samples d
    \<and> dg_ledger d rc d' (case res of None \<Rightarrow> [] | Some rs \<Rightarrow> riv_sc rs) rc'
    \<and> (\<forall>rs. res = Some rs \<longrightarrow> complete_rsample (df_seq s) rs)"
proof -
  from ok have core: "dg_core d" and wf: "idx_wf df_seq (dg_sampletree d)"
    and max: "dg_max_sample d = map_option df_seq (last_opt (dg_sampletree d))"
    by (auto simp: dg_ok_def dg_core_def)
  obtain l r where lr: "dg_sampletree d = l @ s # r" "\<forall>y\<in>set l. df_seq y < df_seq s" "\<forall>y\<in>set r. df_seq s < df_seq y"
    using idx_split_at [OF wf s] by metis
  obtain c s' disc where add: "defrag_add_fragment s rdata si rc = (c, s', disc, rc')"
    using to by (auto simp: defrag_to_sample_def Let_def split: prod.splits if_splits)
  have sok: "df_ok s" "0 < df_seq s" using core s by (auto simp: dg_core_def)
  note sp = add_fragment_spec [OF sok(1) le si add]
  have seq': "df_seq s' = df_seq s" and ok': "df_ok s'"
    using sp sok by (auto simp: df_added_def)
  have "rc' m - RMSG_REFCOUNT_RDATA_BIAS * df_refs m s' = rc m - RMSG_REFCOUNT_RDATA_BIAS * df_refs m s" for m
    using sp by (auto simp: df_added_def)
  then have refs: "rc' m = rc m + RMSG_REFCOUNT_RDATA_BIAS * (df_refs m s' - df_refs m s)" for m
    unfolding right_diff_distrib by (metis add_diff_eq add.commute diff_add_cancel)
  show ?thesis
  proof (cases c)
    case False
    have upd: "idx_update df_seq (df_seq s) s' (l @ s # r) = l @ s' # r" "idx_wf df_seq (l @ s' # r)"
      using idx_update_split [of df_seq l s r s'] wf seq' by (auto simp: lr(1))
    have d': "res = None" "d' = d\<lparr>dg_discarded_bytes := dg_discarded_bytes d + disc, dg_sampletree := l @ s' # r\<rparr>"
      using to add False upd by (auto simp: defrag_to_sample_def lr(1))
    have "dg_ledger d rc d' [] rc'"
      by (simp add: dg_ledger_def refs dg_refs_split [OF lr(1)]) (simp add: d' dg_refs_def)
    with core sok upd ok' seq' max show ?thesis
      by (auto simp: dg_ok_def dg_core_def d' lr(1))
  next
    case True
    have del: "idx_delete df_seq (df_seq s) (l @ s # r) = l @ r" using idx_at(6) [OF lr(2,3)] .
    let ?d2 = "d\<lparr>dg_discarded_bytes := dg_discarded_bytes d + disc, dg_sampletree := l @ r,
        dg_n_samples := dg_n_samples d - 1\<rparr>"
    have d': "res = Some (rsample_convert_defrag_to_reorder s')"
      "d' = (if Some (df_seq s) = dg_max_sample d then defrag_find_max ?d2 else ?d2)"
      using to add True del by (auto simp: defrag_to_sample_def Let_def lr(1))
    have core2: "dg_core ?d2" using core lr by (auto simp: dg_core_def idx_wf_append)
    have ok2: "dg_ok d'"
    proof (cases "Some (df_seq s) = dg_max_sample d")
      case True
      then show ?thesis using find_max_ok [OF core2] by (simp add: d')
    next
      case False
      with max lr have "r \<noteq> []" by auto
      with core2 False max lr show ?thesis by (simp add: d' dg_ok_def)
    qed
    from True sp obtain iv where iv: "df_fragtree s' = [iv]" "div_min iv = 0" "div_frags iv \<noteq> []"
      "si_size (df_sampleinfo s') \<le> div_maxp1 iv" by blast
    have conv: "rsample_convert_defrag_to_reorder s' = singleton_rsample (div_frags iv) (df_sampleinfo s')"
      "si_seq (df_sampleinfo s') = df_seq s"
      using ok' iv seq' by (auto simp: rsample_convert_defrag_to_reorder_def singleton_rsample_def df_ok_def)
    have "div_ok iv" using ok' iv by (simp add: df_ok_def)
    from div_reach [OF this] iv conv have "complete_rsample (df_seq s) (rsample_convert_defrag_to_reorder s')"
      unfolding complete_rsample_def by (metis le_trans)
    moreover have "dg_refs m d' = (\<Sum>s\<leftarrow>l. df_refs m s) + (\<Sum>s\<leftarrow>r. df_refs m s)" for m
      by (simp add: d') (simp add: dg_refs_def)
    moreover have "df_refs m s' = frag_refs m (div_frags iv)" for m by (simp add: df_refs_def iv)
    ultimately have "complete_rsample (df_seq s) (rsample_convert_defrag_to_reorder s')"
      "dg_ledger d rc d' (riv_sc (rsample_convert_defrag_to_reorder s')) rc'"
      by (simp_all add: dg_ledger_def refs dg_refs_split [OF lr(1)] conv singleton_rsample_def)
    then show ?thesis using ok2 by (simp add: d')
  qed
qed

lemma defrag_rsample_spec:
  assumes ok: "dg_ok d" and max: "0 < dg_max_samples d" and le: "rd_min rdata < rd_maxp1 rdata" and seq: "0 < si_seq si"
    and run: "nn_defrag_rsample d rdata si rc = (res, d', rc')"
  shows "dg_ok d' \<and> dg_max_samples d' = dg_max_samples d
    \<and> dg_ledger d rc d' (case res of None \<Rightarrow> [] | Some rs \<Rightarrow> riv_sc rs) rc'
    \<and> (\<forall>rs. res = Some rs \<longrightarrow> complete_rsample (si_seq si) rs)"
proof -
  consider (single) "\<not> nn_rdata_is_fragment rdata si" | (maxs) "nn_rdata_is_fragment rdata si" "si_seq si = defrag_max_seq d"
    | (other) "nn_rdata_is_fragment rdata si" "si_seq si \<noteq> defrag_max_seq d" by blast
  then show ?thesis
  proof cases
    case single
    then have f: "rd_min rdata = 0" "rd_maxp1 rdata = si_size si" by (auto simp: nn_rdata_is_fragment_def)
    have r: "res = Some (singleton_rsample [rdata] si)" "d' = d" "rc' = nn_rdata_addbias rdata rc"
      using run single by (auto simp: nn_defrag_rsample_def reorder_rsample_new_def)
    have "complete_rsample (si_seq si) (singleton_rsample [rdata] si)"
      unfolding complete_rsample_def using f
      by (intro exI [of _ "[rdata]"] exI [of _ si] exI [of _ "si_size si"]) simp
    with ok show ?thesis
      by (auto simp: r dg_ledger_def rdata_bias_count singleton_rsample_def)
  next
    case maxs
    with seq have ne: "dg_sampletree d \<noteq> []"
      using ok by (auto simp: dg_ok_def defrag_max_seq_def)
    obtain l s where ls: "dg_sampletree d = l @ [s]" "defrag_max_seq d = df_seq s"
      "idx_lookup df_seq (df_seq s) (dg_sampletree d) = Some s" using dg_max_last [OF ok ne] by metis
    with run maxs have "defrag_to_sample d s rdata si rc = (res, d', rc')"
      by (simp add: nn_defrag_rsample_def)
    from to_sample_spec [OF ok _ le _ this] ls maxs show ?thesis by simp
  next
    case other
    show ?thesis
    proof (cases "defrag_limit_samples d (si_seq si) rc")
      case None
      with run other ok show ?thesis by (simp add: nn_defrag_rsample_def)
    next
      case (Some dr)
      obtain d1 rc1 where d1: "dr = (d1, rc1)" by fastforce
      note lim = limit_samples_spec [OF ok max Some [unfolded d1]]
      then have ok1: "dg_ok d1" and core1: "dg_core d1" and room: "dg_n_samples d1 < dg_max_samples d1"
        by (auto simp: dg_ok_def)
      have seqs: "df_seq y \<le> defrag_max_seq d1" if "y \<in> set (dg_sampletree d1)" for y
      proof -
        from that have "dg_sampletree d1 \<noteq> []" by auto
        then obtain l z where z: "dg_sampletree d1 = l @ [z]" "defrag_max_seq d1 = df_seq z"
          using dg_max_last [OF ok1] by metis
        with core1 that show ?thesis by (auto simp: dg_core_def idx_wf_append less_imp_le)
      qed
      show ?thesis
      proof (cases "si_seq si > defrag_max_seq d1")
        case True
        obtain d2 rc2 where new: "defrag_new_sample d1 rdata si rc1 = (d2, rc2)" by fastforce
        have "idx_lookup df_seq (si_seq si) (dg_sampletree d1) = None"
          using True seqs by (fastforce simp: idx_lookup_None)
        note ns = new_sample_spec [OF core1 room le seq this new]
        then obtain s where s: "dg_sampletree d2 = idx_insert df_seq s (dg_sampletree d1)" "df_seq s = si_seq si" by blast
        have "\<forall>y\<in>set (dg_sampletree d1). df_seq y < df_seq s" using True seqs s by fastforce
        then have "dg_sampletree d2 = dg_sampletree d1 @ [s]"
          using idx_insert_gap [of "dg_sampletree d1" df_seq s "[]"] by (simp add: s)
        moreover have r: "res = None" "d' = d2\<lparr>dg_max_sample := Some (si_seq si)\<rparr>" "rc' = rc2"
          using run other Some d1 True new by (auto simp: nn_defrag_rsample_def)
        ultimately show ?thesis
          using ns lim s dg_ledger_trans [of d rc d1 rc1 d2 "[]" rc2]
          by (auto simp: dg_ok_def dg_core_def dg_ledger_def dg_refs_def)
      next
        case le_max: False
        show ?thesis
        proof (cases "idx_lookup df_seq (si_seq si) (dg_sampletree d1)")
          case None
          obtain d2 rc2 where new: "defrag_new_sample d1 rdata si rc1 = (d2, rc2)" by fastforce
          note ns = new_sample_spec [OF core1 room le seq None new]
          then obtain s where s: "dg_sampletree d2 = idx_insert df_seq s (dg_sampletree d1)" "df_seq s = si_seq si" by blast
          have ne: "dg_sampletree d1 \<noteq> []" using le_max seq ok1 by (auto simp: dg_ok_def defrag_max_seq_def)
          obtain l z where z: "dg_sampletree d1 = l @ [z]" "defrag_max_seq d1 = df_seq z"
            "dg_max_sample d1 = Some (df_seq z)" using dg_max_last [OF ok1 ne] by metis
          have "si_seq si < df_seq z" using le_max None z by (fastforce simp: idx_lookup_None)
          have "last_opt (idx_insert df_seq s (xs @ [z])) = Some z" if "df_seq s < df_seq z" for xs
            using that by (induction xs) (auto split: if_splits)
          with \<open>si_seq si < df_seq z\<close> s z ns have "dg_ok d2" by (simp add: dg_ok_def)
          moreover have r: "res = None" "d' = d2" "rc' = rc2"
            using run other Some d1 le_max None new by (auto simp: nn_defrag_rsample_def)
          ultimately show ?thesis
            using ns lim dg_ledger_trans [of d rc d1 rc1 d2 "[]" rc2] by auto
        next
          case s: (Some s)
          then have "s \<in> set (dg_sampletree d1)" "df_seq s = si_seq si" by (auto dest: idx_lookup_SomeD)
          moreover have "defrag_to_sample d1 s rdata si rc1 = (res, d', rc')"
            using run other Some d1 le_max s by (simp add: nn_defrag_rsample_def)
          ultimately show ?thesis
            using to_sample_spec [OF ok1 _ le, of s si rc1 res d' rc'] lim
              dg_ledger_trans [of d rc d1 rc1 d' _ rc'] by auto
        qed
      qed
    qed
  qed
qed

end
