(* ===== verification/Defrag_Props.thy ===== *)
theory Defrag_Props
  imports Defrag_Inv Reorder_Inv
begin

text \<open>
  Dropping samples, runs of the defragmenter and its properties.
\<close>

section \<open>Walks that drop samples\<close>

lemma drop_walk_spec:
  assumes "dg_core d" "set ss \<subseteq> set (dg_sampletree d)" "distinct ss"
    and "defrag_drop_walk cont discard ss d rc = (d', rc')"
  shows "dg_core d' \<and> dg_ledger d rc d' [] rc' \<and> dg_max_samples d' = dg_max_samples d
    \<and> set (dg_sampletree d') = set (dg_sampletree d) - {s \<in> set (takeWhile cont ss). discard s}"
  using assms
proof (induction ss arbitrary: d rc)
  case Nil
  then show ?case by simp
next
  case (Cons s ss)
  show ?case
  proof (cases "cont s")
    case False
    with Cons show ?thesis by simp
  next
    case True
    show ?thesis
    proof (cases "discard s")
      case False
      with Cons True show ?thesis by auto
    next
      case dis: True
      obtain d1 rc1 where drop: "defrag_rsample_drop d s rc = (d1, rc1)" by fastforce
      have "s \<in> set (dg_sampletree d)" using Cons.prems(2) by simp
      note sp = rsample_drop_spec [OF Cons.prems(1) this drop]
      have sub: "set ss \<subseteq> set (dg_sampletree d1)" using sp Cons.prems(2,3) by auto
      have w: "defrag_drop_walk cont discard ss d1 rc1 = (d', rc')"
        using Cons.prems(4) True dis drop by simp
      have core1: "dg_core d1" and dist: "distinct ss" using sp Cons.prems(3) by auto
      from Cons.IH [OF core1 sub dist w] have "dg_core d' \<and> dg_ledger d1 rc1 d' [] rc' \<and> dg_max_samples d' = dg_max_samples d1
          \<and> set (dg_sampletree d') = set (dg_sampletree d1) - {s \<in> set (takeWhile cont ss). discard s}" .
      with sp True dis dg_ledger_trans [of d rc d1 rc1 d' "[]" rc'] show ?thesis by auto
    qed
  qed
qed

lemma core_distinct: "dg_core d \<Longrightarrow> distinct (dg_sampletree d)"
proof -
  have "idx_wf df_seq xs \<Longrightarrow> distinct xs" for xs :: "nn_rsample_defrag list" by (induction xs) auto
  then show "dg_core d \<Longrightarrow> distinct (dg_sampletree d)" by (simp add: dg_core_def)
qed

lemma takeWhile_sorted_seq:
  "idx_wf df_seq xs \<Longrightarrow> set (takeWhile (\<lambda>s. df_seq s < k) xs) = {s \<in> set xs. df_seq s < k}"
  by (induction xs) (auto dest: less_trans)

lemma notegap_spec:
  assumes ok: "dg_ok d" and run: "nn_defrag_notegap d mn maxp1 rc = (d', rc')"
  shows "dg_ok d' \<and> dg_ledger d rc d' [] rc' \<and> dg_max_samples d' = dg_max_samples d
    \<and> set (dg_sampletree d') = {s \<in> set (dg_sampletree d). \<not> (mn \<le> df_seq s \<and> df_seq s < maxp1)}"
proof -
  from ok have core: "dg_core d" and wf: "idx_wf df_seq (dg_sampletree d)" by (auto simp: dg_ok_def dg_core_def)
  let ?ss = "filter (\<lambda>s. mn \<le> df_seq s) (dg_sampletree d)"
  obtain d1 where w: "defrag_drop_walk (\<lambda>s. df_seq s < maxp1) (\<lambda>s. True) ?ss d rc = (d1, rc')"
    and d': "d' = defrag_find_max d1"
    using run by (auto simp: nn_defrag_notegap_def split: prod.splits)
  have "idx_wf df_seq ?ss" using wf by (simp add: idx_wf_def sorted_wrt_filter)
  with drop_walk_spec [OF core _ distinct_filter [OF core_distinct [OF core]] w] takeWhile_sorted_seq [of ?ss]
  show ?thesis using find_max_ok [of d1] by (auto simp: d' dg_ledger_def)
qed

lemma prune_spec:
  assumes ok: "dg_ok d" and run: "nn_defrag_prune d dst mn rc = (d', rc')"
  shows "dg_ok d' \<and> dg_ledger d rc d' [] rc' \<and> dg_max_samples d' = dg_max_samples d
    \<and> set (dg_sampletree d') = {s \<in> set (dg_sampletree d).
         \<not> (mn \<le> df_seq s \<and> si_dst_guid_prefix (df_sampleinfo s) = dst)}"
proof -
  from ok have core: "dg_core d" by (simp add: dg_ok_def)
  let ?ss = "filter (\<lambda>s. mn \<le> df_seq s) (dg_sampletree d)"
  obtain d1 where w: "defrag_drop_walk (\<lambda>s. True) (\<lambda>s. si_dst_guid_prefix (df_sampleinfo s) = dst) ?ss d rc = (d1, rc')"
    and d': "d' = defrag_find_max d1"
    using run by (auto simp: nn_defrag_prune_def split: prod.splits)
  have "takeWhile (\<lambda>s. True) ?ss = ?ss" by (simp add: takeWhile_eq_all_conv)
  with drop_walk_spec [OF core _ distinct_filter [OF core_distinct [OF core]] w]
  show ?thesis using find_max_ok [of d1] by (auto simp: d' dg_ledger_def)
qed

lemma defrag_free_count: "nn_defrag_free d rc m = rc m - RMSG_REFCOUNT_RDATA_BIAS * dg_refs m d"
proof -
  have "defrag_free_samples ss rc m = rc m - RMSG_REFCOUNT_RDATA_BIAS * (\<Sum>s\<leftarrow>ss. df_refs m s)" for ss rc
    by (induction ss arbitrary: rc) (simp_all add: rmbias_ivs_count df_refs_def distrib_left)
  then show ?thesis by (simp add: nn_defrag_free_def dg_refs_def)
qed

section \<open>Runs\<close>

datatype dg_event = Fragment nn_rdata nn_rsample_info | Notegap seqno seqno | Prune "u8 list" seqno

text \<open>What the message validation guarantees about a fragment.\<close>

fun dg_event_ok :: "dg_event \<Rightarrow> bool" where
  "dg_event_ok (Fragment rdata si) \<longleftrightarrow> rd_min rdata < rd_maxp1 rdata \<and> 0 < si_seq si"
| "dg_event_ok _ \<longleftrightarrow> True"

fun dg_do :: "dg_event \<Rightarrow> nn_defrag \<times> refcounts \<Rightarrow> nn_rsample_reorder list \<times> nn_defrag \<times> refcounts" where
  "dg_do (Fragment rdata si) (d, rc) =
     (case nn_defrag_rsample d rdata si rc of
        (None, d', rc') \<Rightarrow> ([], d', rc') | (Some rs, d', rc') \<Rightarrow> ([rs], d', rc'))"
| "dg_do (Notegap mn maxp1) (d, rc) = ([], nn_defrag_notegap d mn maxp1 rc)"
| "dg_do (Prune dst mn) (d, rc) = ([], nn_defrag_prune d dst mn rc)"

fun dg_run :: "dg_event list \<Rightarrow> nn_defrag \<times> refcounts \<Rightarrow> nn_rsample_reorder list \<times> nn_defrag \<times> refcounts" where
  "dg_run [] st = ([], st)"
| "dg_run (e # es) st = (let (r, st') = dg_do e st; (rs, st'') = dg_run es st' in (r @ rs, st''))"

text \<open>A complete sample, whatever its sequence number.\<close>

definition whole_rsample :: "nn_rsample_reorder \<Rightarrow> bool" where
  "whole_rsample rs \<longleftrightarrow> complete_rsample (riv_min rs) rs"

lemma complete_whole: "complete_rsample q rs \<Longrightarrow> whole_rsample rs"
  by (auto simp: whole_rsample_def complete_rsample_def singleton_rsample_def)

lemma dg_do_ok:
  assumes "dg_ok d" "0 < dg_max_samples d" "dg_event_ok e" "dg_do e (d, rc) = (rs, d', rc')"
  shows "dg_ok d' \<and> dg_max_samples d' = dg_max_samples d \<and> (\<forall>r\<in>set rs. whole_rsample r)
    \<and> dg_ledger d rc d' (ivs_chain rs) rc'"
proof (cases e)
  case (Fragment rdata si)
  obtain res where r: "nn_defrag_rsample d rdata si rc = (res, d', rc')" "rs = (case res of None \<Rightarrow> [] | Some x \<Rightarrow> [x])"
    using assms(4) Fragment by (auto split: prod.splits option.splits)
  have "rd_min rdata < rd_maxp1 rdata" "0 < si_seq si" using assms(3) Fragment by auto
  from defrag_rsample_spec [OF assms(1,2) this r(1)] show ?thesis
    by (auto simp: r(2) ivs_chain_def complete_whole split: option.splits)
next
  case (Notegap mn maxp1)
  with assms notegap_spec [OF assms(1), of mn maxp1 rc d' rc'] show ?thesis by (auto simp: ivs_chain_def)
next
  case (Prune dst mn)
  with assms prune_spec [OF assms(1), of dst mn rc d' rc'] show ?thesis by (auto simp: ivs_chain_def)
qed

lemma dg_run_ok:
  assumes "dg_ok d" "0 < dg_max_samples d" "\<forall>e\<in>set es. dg_event_ok e" "dg_run es (d, rc) = (rs, d', rc')"
  shows "dg_ok d' \<and> dg_max_samples d' = dg_max_samples d \<and> (\<forall>r\<in>set rs. whole_rsample r)
    \<and> dg_ledger d rc d' (ivs_chain rs) rc'"
  using assms
proof (induction es arbitrary: d rc rs)
  case Nil
  then show ?case by (simp add: ivs_chain_def)
next
  case (Cons e es)
  obtain r d1 rc1 where s: "dg_do e (d, rc) = (r, d1, rc1)" by (metis prod_cases3)
  obtain rs2 where run: "dg_run es (d1, rc1) = (rs2, d', rc')" "rs = r @ rs2"
    using Cons.prems(4) s by (auto split: prod.splits)
  note st = dg_do_ok [OF Cons.prems(1,2) _ s]
  have e: "dg_event_ok e" using Cons.prems(3) by simp
  have "dg_ok d' \<and> dg_max_samples d' = dg_max_samples d1 \<and> (\<forall>r\<in>set rs2. whole_rsample r)
    \<and> dg_ledger d1 rc1 d' (ivs_chain rs2) rc'"
    using Cons.IH [OF _ _ _ run(1)] st [OF e] Cons.prems(2,3) by simp
  with st [OF e] show ?case
    by (auto simp: run(2) ivs_chain_def dg_ledger_def right_diff_distrib distrib_left)
qed

lemma dg_ok_new: "0 < n \<Longrightarrow> dg_ok (nn_defrag_new mode n)"
  by (simp add: dg_ok_def dg_core_def nn_defrag_new_def)

section \<open>Properties\<close>

definition demo_frag :: "rmsg_id \<Rightarrow> nat \<Rightarrow> nat \<Rightarrow> nn_rdata" where
  "demo_frag m a b = nn_rdata_new m a b 0 0 0"

definition demo_info :: "seqno \<Rightarrow> nat \<Rightarrow> nn_rsample_info" where
  "demo_info q sz = \<lparr>si_seq = q, si_dst_guid_prefix = [], si_size = sz, si_fragsize = 8\<rparr>"

lemmas defrag_run_simps = nn_defrag_new_def nn_defrag_rsample_def nn_rdata_is_fragment_def
  reorder_rsample_new_def singleton_rsample_def defrag_max_seq_def defrag_limit_samples_def
  defrag_sample_to_drop_def defrag_rsample_drop_def defrag_find_max_def defrag_new_sample_def
  defrag_rsample_new_def defrag_rsample_addiv_def defrag_to_sample_def defrag_add_fragment_def
  merge_loop_once defrag_try_merge_with_succ_def is_complete_def rsample_convert_defrag_to_reorder_def
  idx_defs demo_frag_def demo_info_def nn_rdata_new_def nn_rdata_addbias_def nn_rmsg_addbias_def
  nn_fragchain_rmbias_def nn_rdata_rmbias_and_adjust_def nn_rmsg_rmbias_and_adjust_def

text \<open>C8: However fragments arrive (in any order, duplicated, overlapping), every sample the
  defragmenter completes carries a fragment chain that, read front to back, yields all its bytes:
  no fragment starts beyond what the ones before it provide, and the end reached is at least the
  size in the sample info, whose sequence number is that of the sample.\<close>

theorem defrag_completes_whole_samples:
  assumes "0 < max_samples" "\<forall>e\<in>set es. dg_event_ok e"
    and "dg_run es (nn_defrag_new mode max_samples, rc) = (rs, d', rc')" and "r \<in> set rs"
  shows "\<exists>frags si q. r = singleton_rsample frags si \<and> riv_min r = si_seq si
    \<and> frags_reach 0 frags = Some q \<and> si_size si \<le> q"
proof -
  from dg_run_ok [OF dg_ok_new [OF assms(1)] _ assms(2,3)] assms(1,4)
  have "whole_rsample r" by (simp add: nn_defrag_new_def)
  then show ?thesis unfolding whole_rsample_def complete_rsample_def by metis
qed

lemma defrag_completes_whole_samples_witness:
  "\<exists>rs d' rc'. dg_run [Fragment (demo_frag 0 8 16) (demo_info 5 16), Fragment (demo_frag 1 0 8) (demo_info 5 16)]
       (nn_defrag_new NN_DEFRAG_DROP_OLDEST 4, \<lambda>_. 0) = (rs, d', rc')
     \<and> (\<exists>frags si. rs = [singleton_rsample frags si] \<and> (\<exists>q. frags_reach 0 frags = Some q \<and> si_size si \<le> q))"
proof -
  let ?es = "[Fragment (demo_frag 0 8 16) (demo_info 5 16), Fragment (demo_frag 1 0 8) (demo_info 5 16)]"
  obtain rs d' rc' where run: "dg_run ?es (nn_defrag_new NN_DEFRAG_DROP_OLDEST 4, \<lambda>_. 0) = (rs, d', rc')"
    by (metis prod_cases3)
  have ok: "\<forall>e\<in>set ?es. dg_event_ok e" by (simp add: demo_frag_def demo_info_def nn_rdata_new_def)
  from run have "length rs = 1" by (auto simp: defrag_run_simps)
  then obtain r where r: "rs = [r]" by (cases rs) auto
  have "\<exists>frags si q. r = singleton_rsample frags si \<and> riv_min r = si_seq si
      \<and> frags_reach 0 frags = Some q \<and> si_size si \<le> q"
    using defrag_completes_whole_samples [OF _ ok run, of r] r by simp
  with run r show ?thesis by blast
qed

text \<open>C9: Over any run the samples in defragmentation stay ordered by sequence number and
  within \<open>max_samples\<close>, \<open>max_sample\<close> is the highest, and the ledger balances: every message
  has gained one bias for each of its rdatas that is stored or was handed on, and freeing the
  administration takes back exactly those of the stored ones.\<close>

theorem defrag_refcounts_conserved:
  assumes "0 < max_samples" "\<forall>e\<in>set es. dg_event_ok e"
    and "dg_run es (nn_defrag_new mode max_samples, rc) = (rs, d', rc')"
  shows "(sorted_wrt (\<lambda>a b. df_seq a < df_seq b) (dg_sampletree d'))
    \<and> (dg_n_samples d' = length (dg_sampletree d') \<and> dg_n_samples d' \<le> max_samples
     \<and> dg_max_sample d' = map_option df_seq (last_opt (dg_sampletree d')))
    \<and> (rc' m = rc m + RMSG_REFCOUNT_RDATA_BIAS * (dg_refs m d' + chain_refs m (ivs_chain rs)))
    \<and> (nn_defrag_free d' rc' m = rc m + RMSG_REFCOUNT_RDATA_BIAS * chain_refs m (ivs_chain rs))"
proof -
  have new: "dg_max_samples (nn_defrag_new mode max_samples) = max_samples"
    "dg_refs m (nn_defrag_new mode max_samples) = 0"
    by (simp_all add: nn_defrag_new_def dg_refs_def)
  note run = dg_run_ok [OF dg_ok_new [OF assms(1)] _ assms(2,3)]
  have ok: "dg_ok d'" "dg_max_samples d' = max_samples" using run assms(1) by (simp_all add: new)
  then have p1: "sorted_wrt (\<lambda>a b. df_seq a < df_seq b) (dg_sampletree d')"
    by (simp add: dg_ok_def dg_core_def idx_wf_def)
  have p2: "dg_n_samples d' = length (dg_sampletree d') \<and> dg_n_samples d' \<le> max_samples
     \<and> dg_max_sample d' = map_option df_seq (last_opt (dg_sampletree d'))"
    using ok by (auto simp: dg_ok_def dg_core_def)
  have l: "rc' m = rc m + RMSG_REFCOUNT_RDATA_BIAS * (dg_refs m d' + chain_refs m (ivs_chain rs))"
    using run assms(1) by (simp add: new dg_ledger_def)
  have p4: "nn_defrag_free d' rc' m = rc m + RMSG_REFCOUNT_RDATA_BIAS * chain_refs m (ivs_chain rs)"
    by (simp add: defrag_free_count l distrib_left)
  show ?thesis using p1 p2 l p4 by blast
qed

lemma defrag_refcounts_conserved_witness:
  "\<exists>rs d' rc'. dg_run [Fragment (demo_frag 7 8 16) (demo_info 5 16)]
       (nn_defrag_new NN_DEFRAG_DROP_OLDEST 4, \<lambda>_. 0) = (rs, d', rc')
     \<and> rc' 7 = RMSG_REFCOUNT_RDATA_BIAS \<and> nn_defrag_free d' rc' 7 = 0"
proof -
  let ?es = "[Fragment (demo_frag 7 8 16) (demo_info 5 16)]"
  obtain rs d' rc' where run: "dg_run ?es (nn_defrag_new NN_DEFRAG_DROP_OLDEST 4, \<lambda>_. 0) = (rs, d', rc')"
    by (metis prod_cases3)
  have ok: "\<forall>e\<in>set ?es. dg_event_ok e" by (simp add: demo_frag_def demo_info_def nn_rdata_new_def)
  from run have r: "rs = [] \<and> rc' 7 = RMSG_REFCOUNT_RDATA_BIAS" by (auto simp: defrag_run_simps)
  with defrag_refcounts_conserved [OF _ ok run, of 7] run show ?thesis by (simp add: ivs_chain_def)
qed

text \<open>Adding a fragment to a sample never forgets a byte that was known and learns none
  outside the fragment; a fragment inside one known interval changes nothing and is counted as
  discarded; and unless a stored interval lies strictly inside the fragment, exactly the bytes of
  the fragment become known.\<close>

theorem defrag_add_fragment_bytes:
  assumes "df_ok s" "rd_min rdata < rd_maxp1 rdata" "si_seq si = df_seq s"
    and "defrag_add_fragment s rdata si rc = (c, s', disc, rc')"
  shows "(df_ok s' \<and> df_cover s \<subseteq> df_cover s' \<and> df_cover s' \<subseteq> df_cover s \<union> {rd_min rdata..<rd_maxp1 rdata})
    \<and> (disc \<noteq> 0
        \<longrightarrow> s' = s \<and> rc' = rc \<and> disc = rd_maxp1 rdata - rd_min rdata)
    \<and> (df_no_inner s (rd_min rdata) (rd_maxp1 rdata)
        \<longrightarrow> df_cover s' = df_cover s \<union> {rd_min rdata..<rd_maxp1 rdata})"
  using add_fragment_spec [OF assms] assms(1) by (auto simp: df_added_def)

lemma defrag_add_fragment_bytes_witness:
  "\<exists>s c s' disc rc'. df_ok s \<and> defrag_add_fragment s (demo_frag 1 16 24) (demo_info 5 40) (\<lambda>_. 0) = (c, s', disc, rc')
     \<and> df_cover s' = df_cover s \<union> {16..<24}"
proof -
  obtain s rc where s: "defrag_rsample_new (demo_frag 0 0 8) (demo_info 5 40) (\<lambda>_. 0) = (s, rc)" by fastforce
  have "rd_min (demo_frag 0 0 8) < rd_maxp1 (demo_frag 0 0 8)" by (simp add: demo_frag_def nn_rdata_new_def)
  from rsample_new_spec [OF this s] have ok: "df_ok s" "df_seq s = si_seq (demo_info 5 40)" by auto
  have no: "df_no_inner s 16 24"
    using s by (auto simp: df_no_inner_def defrag_run_simps)
  obtain c s' disc rc' where a: "defrag_add_fragment s (demo_frag 1 16 24) (demo_info 5 40) (\<lambda>_. 0) = (c, s', disc, rc')"
    by (metis prod_cases4)
  have f: "rd_min (demo_frag 1 16 24) = 16" "rd_maxp1 (demo_frag 1 16 24) = 24"
    by (simp_all add: demo_frag_def nn_rdata_new_def)
  from defrag_add_fragment_bytes [OF ok(1) _ ok(2) [symmetric] a] no
  have "df_cover s' = df_cover s \<union> {16..<24}" by (simp add: f del: One_nat_def)
  with a ok show ?thesis by blast
qed

text \<open>A fragment that swallows a stored interval and reaches beyond it is forgotten beyond
  it: with [0,10) and [20,25) of sample 5 stored, the fragment [10,30) is kept in the chain, but
  the known range becomes [0,25), so bytes 25 to 29 will be asked for again.\<close>

theorem defrag_merge_forgets_tail:
  "\<exists>rs d' rc'. dg_run [Fragment (demo_frag 0 0 10) (demo_info 5 40), Fragment (demo_frag 1 20 25) (demo_info 5 40),
       Fragment (demo_frag 2 10 30) (demo_info 5 40)] (nn_defrag_new NN_DEFRAG_DROP_OLDEST 4, \<lambda>_. 0) = (rs, d', rc')
     \<and> map df_fragtree (dg_sampletree d') =
         [[\<lparr>div_min = 0, div_maxp1 = 25, div_frags = [demo_frag 0 0 10, demo_frag 2 10 30, demo_frag 1 20 25]\<rparr>]]"
  by (simp add: defrag_run_simps)

text \<open>A full defragmenter makes room even when the fragment belongs to a sample it already
  holds: with samples 5 and 6 in progress and room for two, the next fragment of sample 5 throws
  sample 6 away under drop-latest, and under drop-oldest throws away what sample 5 had so far.\<close>

theorem defrag_limit_drops_for_known_sample:
  "map (\<lambda>s. (df_seq s, df_cover s)) (dg_sampletree (fst (snd (dg_run
       [Fragment (demo_frag 0 0 8) (demo_info 5 24), Fragment (demo_frag 1 0 8) (demo_info 6 24),
        Fragment (demo_frag 2 8 16) (demo_info 5 24)] (nn_defrag_new NN_DEFRAG_DROP_LATEST 2, \<lambda>_. 0))))) = [(5, {0..<16})]
   \<and> map (\<lambda>s. (df_seq s, df_cover s)) (dg_sampletree (fst (snd (dg_run
       [Fragment (demo_frag 0 0 8) (demo_info 5 24), Fragment (demo_frag 1 0 8) (demo_info 6 24),
        Fragment (demo_frag 2 8 16) (demo_info 5 24)] (nn_defrag_new NN_DEFRAG_DROP_OLDEST 2, \<lambda>_. 0))))) =
      [(5, {8..<16}), (6, {0..<8})]"
  by (simp add: defrag_run_simps df_cover_def div_set_def)

text \<open>Both ways of giving up on samples remove exactly the samples meant: a gap those
  whose sequence number is in it, pruning those from \<open>min\<close> on addressed to the given prefix.\<close>

theorem defrag_notegap_prune_exact:
  assumes "dg_ok d"
  shows "(nn_defrag_notegap d mn maxp1 rc = (d1, rc1)
        \<longrightarrow> set (dg_sampletree d1) = {s \<in> set (dg_sampletree d). \<not> (mn \<le> df_seq s \<and> df_seq s < maxp1)}
      \<and> rc1 m = rc m - RMSG_REFCOUNT_RDATA_BIAS * (dg_refs m d - dg_refs m d1))
    \<and> (nn_defrag_prune d dst mn rc = (d2, rc2)
        \<longrightarrow> set (dg_sampletree d2) = {s \<in> set (dg_sampletree d).
          \<not> (mn \<le> df_seq s \<and> si_dst_guid_prefix (df_sampleinfo s) = dst)}
      \<and> rc2 m = rc m - RMSG_REFCOUNT_RDATA_BIAS * (dg_refs m d - dg_refs m d2))"
  using notegap_spec [OF assms, of mn maxp1 rc d1 rc1] prune_spec [OF assms, of dst mn rc d2 rc2]
  by (auto simp: dg_ledger_def right_diff_distrib)

lemma defrag_notegap_prune_exact_witness:
  "\<exists>d d1 rc rc1. dg_run [Fragment (demo_frag 0 0 8) (demo_info 5 24), Fragment (demo_frag 1 0 8) (demo_info 7 24)]
       (nn_defrag_new NN_DEFRAG_DROP_LATEST 2, \<lambda>_. 0) = ([], d, rc)
     \<and> nn_defrag_notegap d 1 6 rc = (d1, rc1) \<and> df_seq ` set (dg_sampletree d1) = {7}"
proof -
  let ?es = "[Fragment (demo_frag 0 0 8) (demo_info 5 24), Fragment (demo_frag 1 0 8) (demo_info 7 24)]"
  obtain rs d rc where run: "dg_run ?es (nn_defrag_new NN_DEFRAG_DROP_LATEST 2, \<lambda>_. 0) = (rs, d, rc)"
    by (metis prod_cases3)
  have rs: "rs = []" and seqs: "df_seq ` set (dg_sampletree d) = {5, 7}" using run by (auto simp: defrag_run_simps)
  have ev: "\<forall>e\<in>set ?es. dg_event_ok e" by (simp add: demo_frag_def demo_info_def nn_rdata_new_def)
  have "dg_ok (nn_defrag_new NN_DEFRAG_DROP_LATEST 2)" by (rule dg_ok_new) simp
  from dg_run_ok [OF this _ ev run] have ok: "dg_ok d" by (simp add: nn_defrag_new_def)
  obtain d1 rc1 where g: "nn_defrag_notegap d 1 6 rc = (d1, rc1)" by fastforce
  have s: "set (dg_sampletree d1) = {s \<in> set (dg_sampletree d). \<not> (1 \<le> df_seq s \<and> df_seq s < 6)}"
    using defrag_notegap_prune_exact [OF ok, of 1 6 rc d1 rc1] g by blast
  have "df_seq ` {s \<in> set (dg_sampletree d). \<not> (1 \<le> df_seq s \<and> df_seq s < 6)}
      = {q \<in> df_seq ` set (dg_sampletree d). \<not> (1 \<le> q \<and> q < 6)}" by blast
  also have "\<dots> = {7}" unfolding seqs by auto
  finally show ?thesis using run rs g s by auto
qed

end
