(* ===== verification/Defrag_Nack.thy ===== *)
theory Defrag_Nack
  imports Defrag_Props Bitset
begin

text \<open>
  \<open>nn_defrag_nackmap\<close>: the fragment numbers to ask for in a NACKFRAG, and the proof that the
  bits are exactly the fragments of which some byte is missing. The C arithmetic is on
  \<open>uint32_t\<close>; the two places where it can wrap are written with \<open>mod 2 ^ 32\<close>.
\<close>

datatype nn_defrag_nackmap_result = DEFRAG_NACKMAP_UNKNOWN_SAMPLE
  | DEFRAG_NACKMAP_ALL_ADVERTISED_FRAGMENTS_KNOWN | DEFRAG_NACKMAP_FRAGMENTS_MISSING

definition UINT32_MAX :: nat where "UINT32_MAX = 2 ^ 32 - 1"

text \<open>The walk over the intervals after the first, and the tail beyond the last.\<close>

fun frag_scan :: "nat \<Rightarrow> nat \<Rightarrow> nat \<Rightarrow> nn_defrag_iv list \<Rightarrow> nat \<Rightarrow> u32 list \<Rightarrow> u32 list" where
  "frag_scan fragsz base numbits [] i bits =
     bitset_fill bits (map (\<lambda>f. f - base) [i ..< base + numbits])"
| "frag_scan fragsz base numbits (iv # ivs) i bits =
     (if i < base + numbits then
        (let bound = div_min iv div fragsz + (if div_min iv mod fragsz \<noteq> 0 then 1 else 0)
         in frag_scan fragsz base numbits ivs (div_maxp1 iv div fragsz)
              (bitset_fill bits (map (\<lambda>f. f - base) [i ..< min (base + numbits) bound])))
      else bitset_fill bits (map (\<lambda>f. f - base) [i ..< base + numbits]))"

definition nn_defrag_nackmap ::
  "nn_defrag \<Rightarrow> seqno \<Rightarrow> nat \<Rightarrow> u32 list \<Rightarrow> nat \<Rightarrow> nn_defrag_nackmap_result \<times> nat \<times> nat \<times> u32 list" where
  "nn_defrag_nackmap d seq maxfragnum0 mapbits maxsz =
     (case idx_lookup df_seq seq (dg_sampletree d) of
        None \<Rightarrow>
          if maxfragnum0 = UINT32_MAX then (DEFRAG_NACKMAP_UNKNOWN_SAMPLE, 0, 0, mapbits)
          else (let numbits = (if maxfragnum0 + 1 > maxsz then maxsz else maxfragnum0 + 1)
                in (DEFRAG_NACKMAP_FRAGMENTS_MISSING, 0, numbits, nn_bitset_one numbits mapbits))
      | Some s \<Rightarrow>
          (let fragsz = si_fragsize (df_sampleinfo s);
               sz = si_size (df_sampleinfo s);
               nfrags = ((sz + fragsz - 1) mod 2 ^ 32) div fragsz;
               maxfragnum = (if maxfragnum0 \<ge> nfrags then nfrags - 1 else maxfragnum0);
               liv = last (df_fragtree s);
               iv = hd (df_fragtree s);
               base = div_maxp1 iv div fragsz;
               map_end = (if div_maxp1 liv < ((maxfragnum + 1) * fragsz) mod 2 ^ 32 \<and> div_maxp1 liv < sz
                          then maxfragnum
                          else if div_min liv > 0 then (div_min liv - 1) div fragsz
                          else 0)
           in if map_end < base then (DEFRAG_NACKMAP_ALL_ADVERTISED_FRAGMENTS_KNOWN, base, 0, mapbits)
              else
                (let numbits = min maxsz (map_end - base + 1)
                 in (DEFRAG_NACKMAP_FRAGMENTS_MISSING, base, numbits,
                     frag_scan fragsz base numbits (tl (df_fragtree s)) base (nn_bitset_zero numbits mapbits)))))"

text \<open>The bytes of fragment \<open>f\<close>.\<close>

definition frag_bytes :: "nat \<Rightarrow> nat \<Rightarrow> nat set" where
  "frag_bytes fragsz f = {f * fragsz ..< (f + 1) * fragsz}"

lemma frag_bytes_iff:
  assumes "0 < fragsz"
  shows "b \<in> frag_bytes fragsz f \<longleftrightarrow> b div fragsz = f"
proof
  assume "b \<in> frag_bytes fragsz f"
  then show "b div fragsz = f"
    by (intro div_nat_eqI) (auto simp: frag_bytes_def mult.commute)
next
  assume f: "b div fragsz = f"
  have "f * fragsz + b mod fragsz = b" "b mod fragsz < fragsz"
    using div_mult_mod_eq [of b fragsz] assms by (simp_all add: f)
  then show "b \<in> frag_bytes fragsz f" by (auto simp: frag_bytes_def)
qed

lemma frag_gap_iff:
  assumes "0 < fragsz" "e < m"
  shows "e div fragsz \<le> f \<and> f < m div fragsz + (if m mod fragsz \<noteq> 0 then 1 else 0) \<longleftrightarrow>
    (\<exists>b. b \<in> frag_bytes fragsz f \<and> e \<le> b \<and> b < m)"
proof
  assume a: "e div fragsz \<le> f \<and> f < m div fragsz + (if m mod fragsz \<noteq> 0 then 1 else 0)"
  have "e < (f + 1) * fragsz"
    using a assms(1) by (metis div_less_iff_less_mult less_add_one order.strict_trans1)
  moreover have "f * fragsz < m"
  proof (cases "m mod fragsz = 0")
    case True
    with a have "f < m div fragsz" by simp
    then have "f * fragsz < m div fragsz * fragsz" using assms(1) by simp
    with True show ?thesis by (metis add.right_neutral div_mult_mod_eq)
  next
    case False
    with a have "f \<le> m div fragsz" by simp
    then have "f * fragsz \<le> m div fragsz * fragsz" by (rule mult_le_mono1)
    moreover have "m div fragsz * fragsz + m mod fragsz = m" by (rule div_mult_mod_eq)
    ultimately show ?thesis using False by linarith
  qed
  ultimately show "\<exists>b. b \<in> frag_bytes fragsz f \<and> e \<le> b \<and> b < m"
    using assms by (intro exI [of _ "max e (f * fragsz)"]) (auto simp: frag_bytes_def)
next
  assume "\<exists>b. b \<in> frag_bytes fragsz f \<and> e \<le> b \<and> b < m"
  then obtain b where b: "b div fragsz = f" "e \<le> b" "b < m" using frag_bytes_iff [OF assms(1)] by auto
  have "e div fragsz \<le> f" using b div_le_mono by blast
  moreover have "f < m div fragsz + (if m mod fragsz \<noteq> 0 then 1 else 0)"
  proof (cases "m mod fragsz = 0")
    case True
    then have "m div fragsz * fragsz = m" by (metis add.right_neutral div_mult_mod_eq)
    with b assms(1) True show ?thesis by (metis add_0_right div_less_iff_less_mult)
  next
    case False
    with b div_le_mono [of b m fragsz] show ?thesis by simp
  qed
  ultimately show "e div fragsz \<le> f \<and> f < m div fragsz + (if m mod fragsz \<noteq> 0 then 1 else 0)" by blast
qed

lemma frag_tail_iff:
  assumes "0 < fragsz"
  shows "e div fragsz \<le> f \<longleftrightarrow> (\<exists>b. b \<in> frag_bytes fragsz f \<and> e \<le> b)"
proof
  assume "e div fragsz \<le> f"
  then have "e < (f + 1) * fragsz"
    using assms by (metis div_less_iff_less_mult less_add_one order.strict_trans1)
  with assms show "\<exists>b. b \<in> frag_bytes fragsz f \<and> e \<le> b"
    by (intro exI [of _ "max e (f * fragsz)"]) (auto simp: frag_bytes_def)
next
  assume "\<exists>b. b \<in> frag_bytes fragsz f \<and> e \<le> b"
  then obtain b where "b div fragsz = f" "e \<le> b" using frag_bytes_iff [OF assms] by auto
  then show "e div fragsz \<le> f" using div_le_mono by blast
qed

lemma fill_frags_isset:
  assumes "bits_room n bits" "base \<le> i" "hi \<le> base + n" "j < n"
  shows "nn_bitset_isset n (bitset_fill bits (map (\<lambda>q. q - base) [i ..< hi])) j \<longleftrightarrow>
    i \<le> base + j \<and> base + j < hi \<or> nn_bitset_isset n bits j"
proof -
  have "\<forall>x\<in>set (map (\<lambda>q. q - base) [i ..< hi]). x < n" using assms by auto
  moreover have "j \<in> set (map (\<lambda>q. q - base) [i ..< hi]) \<longleftrightarrow> i \<le> base + j \<and> base + j < hi"
    using assms by (auto simp: image_iff intro!: bexI [of _ "base + j"])
  ultimately show ?thesis using bitset_fill_isset [OF assms(1)] assms(4) by blast
qed

lemma frag_scan_spec:
  assumes "0 < fragsz" "divs_ok ivs" "\<forall>iv\<in>set ivs. e < div_min iv" "base \<le> e div fragsz" "bits_room n bits" "j < n"
  shows "nn_bitset_isset n (frag_scan fragsz base n ivs (e div fragsz) bits) j \<longleftrightarrow>
    nn_bitset_isset n bits j \<or> (\<exists>b\<in>frag_bytes fragsz (base + j). e \<le> b \<and> b \<notin> divs_cover ivs)"
  using assms
proof (induction ivs arbitrary: e bits)
  case Nil
  then show ?case
    using fill_frags_isset [of n bits base "e div fragsz" "base + n" j] frag_tail_iff [of fragsz e "base + j"]
    by auto
next
  case (Cons iv ivs)
  have iv: "e < div_min iv" "div_min iv \<le> div_maxp1 iv" "\<forall>y\<in>set ivs. div_maxp1 iv < div_min y" "divs_ok ivs"
    using Cons.prems(2,3) div_ok_le by auto
  show ?case
  proof (cases "e div fragsz < base + n")
    case False
    have "\<not> (\<exists>b\<in>frag_bytes fragsz (base + j). e \<le> b)"
      using False Cons.prems(6) frag_tail_iff [OF Cons.prems(1), of e "base + j"] by auto
    moreover have "nn_bitset_isset n (frag_scan fragsz base n (iv # ivs) (e div fragsz) bits) j = nn_bitset_isset n bits j"
      using False Cons.prems(4,6) fill_frags_isset [OF Cons.prems(5), of base "e div fragsz" "base + n" j] by simp
    ultimately show ?thesis by blast
  next
    case True
    define bound where "bound = div_min iv div fragsz + (if div_min iv mod fragsz \<noteq> 0 then 1 else 0)"
    let ?b = "bitset_fill bits (map (\<lambda>f. f - base) [e div fragsz ..< min (base + n) bound])"
    have room: "bits_room n ?b" using Cons.prems(5) by (rule bitset_fill_room)
    have base: "base \<le> div_maxp1 iv div fragsz"
      using Cons.prems(4) iv(1,2) div_le_mono [of e "div_maxp1 iv" fragsz] by linarith
    have first: "nn_bitset_isset n ?b j \<longleftrightarrow> nn_bitset_isset n bits j
        \<or> (\<exists>b\<in>frag_bytes fragsz (base + j). e \<le> b \<and> b < div_min iv)"
      using fill_frags_isset [OF Cons.prems(5,4), of "min (base + n) bound" j] Cons.prems(6)
        frag_gap_iff [OF Cons.prems(1) iv(1), of "base + j"] by (auto simp: bound_def)
    have rest: "nn_bitset_isset n (frag_scan fragsz base n ivs (div_maxp1 iv div fragsz) ?b) j \<longleftrightarrow>
        nn_bitset_isset n ?b j \<or> (\<exists>b\<in>frag_bytes fragsz (base + j). div_maxp1 iv \<le> b \<and> b \<notin> divs_cover ivs)"
      by (rule Cons.IH [OF Cons.prems(1) iv(4,3) base room Cons.prems(6)])
    have out: "b \<notin> divs_cover ivs" if "b < div_maxp1 iv" for b
      using that iv(3) by (force simp: divs_cover_def div_set_def)
    have eqv: "(e \<le> b \<and> b < div_min iv) \<or> (div_maxp1 iv \<le> b \<and> b \<notin> divs_cover ivs) \<longleftrightarrow>
        e \<le> b \<and> b \<notin> divs_cover (iv # ivs)" for b
      using iv(1,2) out [of b] by (auto simp: div_set_def)
    have comb: "(\<exists>b\<in>frag_bytes fragsz (base + j). e \<le> b \<and> b < div_min iv)
        \<or> (\<exists>b\<in>frag_bytes fragsz (base + j). div_maxp1 iv \<le> b \<and> b \<notin> divs_cover ivs) \<longleftrightarrow>
      (\<exists>b\<in>frag_bytes fragsz (base + j). e \<le> b \<and> b \<notin> divs_cover (iv # ivs))"
      unfolding bex_disj_distrib [symmetric] eqv ..
    have scan: "frag_scan fragsz base n (iv # ivs) (e div fragsz) bits =
        frag_scan fragsz base n ivs (div_maxp1 iv div fragsz) ?b"
      using True by (simp add: bound_def Let_def)
    show ?thesis unfolding scan rest first comb [symmetric] disj_assoc ..
  qed
qed

section \<open>Property\<close>

lemma divs_cover_between:
  assumes "divs_ok (iv # ivs)" "div_min iv = 0"
  shows "b < div_maxp1 iv \<Longrightarrow> b \<in> divs_cover (iv # ivs)"
    and "div_min (last (iv # ivs)) \<le> b \<Longrightarrow> b < div_maxp1 (last (iv # ivs)) \<Longrightarrow> b \<in> divs_cover (iv # ivs)"
proof -
  show "b < div_maxp1 iv \<Longrightarrow> b \<in> divs_cover (iv # ivs)" using assms by (simp add: div_set_def)
  have "last (iv # ivs) \<in> set (iv # ivs)" by (rule last_in_set) simp
  then show "div_min (last (iv # ivs)) \<le> b \<Longrightarrow> b < div_maxp1 (last (iv # ivs)) \<Longrightarrow> b \<in> divs_cover (iv # ivs)"
    unfolding divs_cover_def div_set_def by (meson UN_I atLeastLessThan_iff)
qed

text \<open>For a sample in defragmentation the bits of the NACK map are set for exactly the
  fragments of which some byte is missing; all fragments below the base are complete; and unless
  the map was cut off at \<open>maxsz\<close>, every advertised fragment beyond it is complete. When the
  answer is that all advertised fragments are known, they are.\<close>

theorem defrag_nackmap_exact:
  assumes ok: "dg_ok d" and s: "idx_lookup df_seq seq (dg_sampletree d) = Some s"
    and fs: "0 < si_fragsize (df_sampleinfo s)" and sz: "0 < si_size (df_sampleinfo s)"
      "si_size (df_sampleinfo s) + si_fragsize (df_sampleinfo s) \<le> 2 ^ 32"
    and room: "bits_room maxsz mapbits"
    and n: "nn_defrag_nackmap d seq maxfragnum mapbits maxsz = (res, base, n, bits)"
  shows "(\<forall>f<base. frag_bytes (si_fragsize (df_sampleinfo s)) f \<subseteq> df_cover s)
    \<and> (\<forall>j<n. nn_bitset_isset n bits j \<longleftrightarrow> \<not> frag_bytes (si_fragsize (df_sampleinfo s)) (base + j) \<subseteq> df_cover s)
    \<and> (res = DEFRAG_NACKMAP_ALL_ADVERTISED_FRAGMENTS_KNOWN \<or> n < maxsz
        \<longrightarrow> (\<forall>f\<le>maxfragnum. base + n \<le> f \<longrightarrow>
        frag_bytes (si_fragsize (df_sampleinfo s)) f \<inter> {..<si_size (df_sampleinfo s)} \<subseteq> df_cover s))"
proof -
  define fragsz where "fragsz = si_fragsize (df_sampleinfo s)"
  define size' where "size' = si_size (df_sampleinfo s)"
  from s ok have "df_ok s" by (auto simp: dg_ok_def dg_core_def dest: idx_lookup_SomeD)
  then obtain iv ivs where t: "df_fragtree s = iv # ivs" "div_min iv = 0" "divs_ok (iv # ivs)"
    by (auto simp: df_ok_def)
  define liv where "liv = last (iv # ivs)"
  define nfrags where "nfrags = (size' + fragsz - 1) div fragsz"
  define mf where "mf = (if maxfragnum \<ge> nfrags then nfrags - 1 else maxfragnum)"
  define map_end where "map_end = (if div_maxp1 liv < (mf + 1) * fragsz \<and> div_maxp1 liv < size' then mf
      else if div_min liv > 0 then (div_min liv - 1) div fragsz else 0)"
  have pos: "0 < fragsz" "0 < size'" using fs sz by (simp_all add: fragsz_def size'_def)
  have w1: "(size' + fragsz - 1) mod 2 ^ 32 = size' + fragsz - 1"
    using sz pos by (simp add: fragsz_def size'_def)
  have "fragsz \<le> size' + fragsz - 1" using pos by simp
  from div_le_mono [OF this, of fragsz] pos have "1 \<le> nfrags" by (simp add: nfrags_def)
  moreover have "nfrags * fragsz \<le> size' + fragsz - 1" by (simp add: nfrags_def)
  moreover have "mf + 1 \<le> nfrags" using \<open>1 \<le> nfrags\<close> by (auto simp: mf_def)
  moreover from this have "(mf + 1) * fragsz \<le> nfrags * fragsz" by (rule mult_le_mono1)
  ultimately have w2: "((mf + 1) * fragsz) mod 2 ^ 32 = (mf + 1) * fragsz"
    using sz pos by (simp add: fragsz_def size'_def)
  have res: "(res, base, n, bits) = (if map_end < div_maxp1 iv div fragsz
      then (DEFRAG_NACKMAP_ALL_ADVERTISED_FRAGMENTS_KNOWN, div_maxp1 iv div fragsz, 0, mapbits)
      else (DEFRAG_NACKMAP_FRAGMENTS_MISSING, div_maxp1 iv div fragsz, min maxsz (map_end - div_maxp1 iv div fragsz + 1),
        frag_scan fragsz (div_maxp1 iv div fragsz) (min maxsz (map_end - div_maxp1 iv div fragsz + 1)) ivs
          (div_maxp1 iv div fragsz) (nn_bitset_zero (min maxsz (map_end - div_maxp1 iv div fragsz + 1)) mapbits)))"
    using n s t(1) unfolding nn_defrag_nackmap_def
    by (simp only: option.case Let_def fragsz_def [symmetric] size'_def [symmetric] w1 nfrags_def [symmetric]
        mf_def [symmetric] w2 liv_def [symmetric] list.sel map_end_def [symmetric])
  have base: "base = div_maxp1 iv div fragsz" using res by (simp split: if_splits)
  have cov: "df_cover s = divs_cover (iv # ivs)" by (simp add: df_cover_def t)
  have p1: "\<forall>f<base. frag_bytes (si_fragsize (df_sampleinfo s)) f \<subseteq> df_cover s"
  proof (intro allI impI subsetI)
    fix f b assume f: "f < base" and b: "b \<in> frag_bytes (si_fragsize (df_sampleinfo s)) f"
    have "(f + 1) * fragsz \<le> base * fragsz" using f by (intro mult_le_mono1) simp
    also have "\<dots> \<le> div_maxp1 iv" by (simp add: base)
    finally have "b < div_maxp1 iv" using b by (auto simp: frag_bytes_def fragsz_def)
    then show "b \<in> df_cover s" using divs_cover_between(1) [OF t(3,2)] by (simp add: cov)
  qed
  have p2: "\<forall>j<n. nn_bitset_isset n bits j \<longleftrightarrow> \<not> frag_bytes (si_fragsize (df_sampleinfo s)) (base + j) \<subseteq> df_cover s"
  proof (intro allI impI)
    fix j assume j: "j < n"
    with res have r: "n = min maxsz (map_end - base + 1)"
      "bits = frag_scan fragsz base n ivs (div_maxp1 iv div fragsz) (nn_bitset_zero n mapbits)"
      by (auto simp: base split: if_splits)
    have roomn: "bits_room n (nn_bitset_zero n mapbits)"
      using bits_room_zero [OF bits_room_mono [OF room]] r(1) by simp
    have "nn_bitset_isset n bits j \<longleftrightarrow>
        (\<exists>b\<in>frag_bytes fragsz (base + j). div_maxp1 iv \<le> b \<and> b \<notin> divs_cover ivs)"
      unfolding r(2) using frag_scan_spec [OF pos(1), of ivs "div_maxp1 iv" base n _ j] t(3) roomn j
      by (simp add: base isset_zero)
    also have "\<dots> \<longleftrightarrow> \<not> frag_bytes fragsz (base + j) \<subseteq> df_cover s"
      using t(2) by (auto simp: cov div_set_def not_less)
    finally show "nn_bitset_isset n bits j \<longleftrightarrow>
        \<not> frag_bytes (si_fragsize (df_sampleinfo s)) (base + j) \<subseteq> df_cover s" by (simp add: fragsz_def)
  qed
  have p3: "\<forall>f\<le>maxfragnum. base + n \<le> f \<longrightarrow>
        frag_bytes (si_fragsize (df_sampleinfo s)) f \<inter> {..<si_size (df_sampleinfo s)} \<subseteq> df_cover s"
    if cut: "res = DEFRAG_NACKMAP_ALL_ADVERTISED_FRAGMENTS_KNOWN \<or> n < maxsz"
  proof (intro allI impI subsetI)
    fix f b assume f: "f \<le> maxfragnum" "base + n \<le> f"
      and b: "b \<in> frag_bytes (si_fragsize (df_sampleinfo s)) f \<inter> {..<si_size (df_sampleinfo s)}"
    from b have bf: "b div fragsz = f" and bs: "b < size'"
      using frag_bytes_iff [OF pos(1)] by (auto simp: fragsz_def size'_def)
    have "b + fragsz \<le> size' + fragsz - 1" using bs by simp
    from div_le_mono [OF this, of fragsz] have "b div fragsz + 1 \<le> nfrags"
      using pos by (simp only: nfrags_def div_add_self2)
    then have "f < nfrags" using bf by simp
    with f(1) have fmf: "f \<le> mf" by (auto simp: mf_def)
    have me: "map_end < f"
      using cut res f(2) by (auto split: if_splits)
    then have live: "\<not> (div_maxp1 liv < (mf + 1) * fragsz \<and> div_maxp1 liv < size')"
      using fmf by (auto simp: map_end_def)
    have "b < (mf + 1) * fragsz"
      using bf fmf pos by (metis div_less_iff_less_mult less_add_one order.strict_trans1)
    with live bs have hi: "b < div_maxp1 liv" by linarith
    have lo: "div_min liv \<le> b"
    proof (cases "div_min liv > 0")
      case True
      with me live have "(div_min liv - 1) div fragsz < b div fragsz" by (auto simp: map_end_def bf)
      then have "div_min liv - 1 < b" by (metis div_le_mono leD leI)
      then show ?thesis by simp
    qed simp
    show "b \<in> df_cover s" using divs_cover_between(2) [OF t(3,2)] lo hi by (simp add: cov liv_def)
  qed
  show ?thesis using p1 p2 p3 by blast
qed

lemma defrag_nackmap_exact_witness:
  "\<exists>d s res base n bits. idx_lookup df_seq 5 (dg_sampletree d) = Some s
     \<and> nn_defrag_nackmap d 5 UINT32_MAX [0] 32 = (res, base, n, bits)
     \<and> (\<forall>j<n. nn_bitset_isset n bits j \<longleftrightarrow> \<not> frag_bytes 8 (base + j) \<subseteq> df_cover s)"
proof -
  let ?es = "[Fragment (demo_frag 0 0 8) (demo_info 5 40), Fragment (demo_frag 1 16 24) (demo_info 5 40)]"
  obtain rs d rc where run: "dg_run ?es (nn_defrag_new NN_DEFRAG_DROP_LATEST 2, \<lambda>_. 0) = (rs, d, rc)"
    by (metis prod_cases3)
  have ev: "\<forall>e\<in>set ?es. dg_event_ok e" by (simp add: demo_frag_def demo_info_def nn_rdata_new_def)
  have "dg_ok (nn_defrag_new NN_DEFRAG_DROP_LATEST 2)" by (rule dg_ok_new) simp
  from dg_run_ok [OF this _ ev run] have ok: "dg_ok d" by (simp add: nn_defrag_new_def)
  have "\<exists>s. idx_lookup df_seq 5 (dg_sampletree d) = Some s \<and> df_sampleinfo s = demo_info 5 40"
    using run by (auto simp: defrag_run_simps)
  then obtain s where s: "idx_lookup df_seq 5 (dg_sampletree d) = Some s" "df_sampleinfo s = demo_info 5 40" by blast
  obtain res base n bits where n: "nn_defrag_nackmap d 5 UINT32_MAX [0] 32 = (res, base, n, bits)"
    by (metis prod_cases4)
  have fs: "0 < si_fragsize (df_sampleinfo s)" "0 < si_size (df_sampleinfo s)"
    "si_size (df_sampleinfo s) + si_fragsize (df_sampleinfo s) \<le> 2 ^ 32" "si_fragsize (df_sampleinfo s) = 8"
    by (simp_all add: s demo_info_def)
  have room: "bits_room 32 [0 :: u32]" by (simp add: bits_room_def)
  from defrag_nackmap_exact [OF ok s(1) fs(1-3) room n] s n fs(4) show ?thesis by metis
qed

end
