(* ===== verification/Dqueue.thy ===== *)
theory Dqueue
  imports Reorder
begin

text \<open>
  The delivery queue of src/core/ddsi/src/q_radmin.c (section DQUEUE): receive threads append
  chains of samples and bubbles, one delivery thread takes the whole queue and handles it element
  by element. Every producer operation holds the queue's lock, so it is one step of the relation
  \<open>dq_step\<close>; the thread takes the queue under the lock and then handles the elements it took
  outside it, one step each, so producers interleave with it freely. Condition variables only
  decide when the thread looks at the queue, which a step relation leaves open; whether a
  producer signals is part of the result of its operation.

  The handler and the callbacks are the client's: handling an element records the call
  in the output log.
\<close>

type_synonym ddsi_guid = "u8 list"

datatype dq_elem = Sample_elem nn_rsample_chain_elem
  | Bubble_stop | Bubble_callback nat | Bubble_rdguid ddsi_guid nat

datatype dqueue_elem_kind = DQEK_DATA | DQEK_GAP | DQEK_BUBBLE

definition dqueue_elem_kind :: "dq_elem \<Rightarrow> dqueue_elem_kind" where
  "dqueue_elem_kind e = (case e of
       Sample_elem c \<Rightarrow> if ce_sampleinfo c = None then DQEK_GAP else DQEK_DATA
     | _ \<Rightarrow> DQEK_BUBBLE)"

record nn_dqueue =
  dq_sc :: "dq_elem list"
  dq_nof_samples :: nat
  dq_max_samples :: nat

text \<open>The local variables of \<open>dqueue_thread\<close> (\<open>th_rdguid\<close> is \<open>prdguid\<close>).\<close>

record dq_thread =
  th_sc :: "dq_elem list"
  th_rdguid :: "ddsi_guid option"
  th_rdguid_count :: nat
  th_keepgoing :: bool

datatype dq_out = Handler_call "ddsi_guid option" nn_rsample_chain_elem | Callback_call nat

section \<open>Operations\<close>

definition nn_dqueue_new :: "nat \<Rightarrow> nn_dqueue" where
  "nn_dqueue_new max_samples = \<lparr>dq_sc = [], dq_nof_samples = 0, dq_max_samples = max_samples\<rparr>"

definition dqueue_thread_init :: dq_thread where
  "dqueue_thread_init = \<lparr>th_sc = [], th_rdguid = None, th_rdguid_count = 0, th_keepgoing = True\<rparr>"

text \<open>Result: whether the delivery thread must be signalled.\<close>

definition nn_dqueue_enqueue_locked :: "nn_dqueue \<Rightarrow> dq_elem list \<Rightarrow> bool \<times> nn_dqueue" where
  "nn_dqueue_enqueue_locked q sc =
     (if dq_sc q = [] then (True, q\<lparr>dq_sc := sc\<rparr>) else (False, q\<lparr>dq_sc := dq_sc q @ sc\<rparr>))"

definition dqueue_add_count :: "nn_dqueue \<Rightarrow> nat \<Rightarrow> nn_dqueue" where
  "dqueue_add_count q n = q\<lparr>dq_nof_samples := dq_nof_samples q + n\<rparr>"

definition nn_dqueue_enqueue :: "nn_dqueue \<Rightarrow> nn_rsample_chain_elem list \<Rightarrow> nn_reorder_result \<Rightarrow> bool \<times> nn_dqueue" where
  "nn_dqueue_enqueue q sc rres =
     nn_dqueue_enqueue_locked (dqueue_add_count q (nat rres)) (map Sample_elem sc)"

text \<open>The caller does the signalling later, with \<open>dd_dqueue_enqueue_trigger\<close>.\<close>

definition nn_dqueue_enqueue_deferred_wakeup ::
  "nn_dqueue \<Rightarrow> nn_rsample_chain_elem list \<Rightarrow> nn_reorder_result \<Rightarrow> bool \<times> nn_dqueue" where
  "nn_dqueue_enqueue_deferred_wakeup q sc rres =
     (let (signal, q1) = nn_dqueue_enqueue_locked (dqueue_add_count q (nat rres)) (map Sample_elem sc)
      in (signal, q1))"

definition nn_dqueue_enqueue_bubble_locked :: "nn_dqueue \<Rightarrow> dq_elem \<Rightarrow> bool \<times> nn_dqueue" where
  "nn_dqueue_enqueue_bubble_locked q b = nn_dqueue_enqueue_locked q [b]"

definition nn_dqueue_enqueue_bubble :: "nn_dqueue \<Rightarrow> dq_elem \<Rightarrow> bool \<times> nn_dqueue" where
  "nn_dqueue_enqueue_bubble q b = nn_dqueue_enqueue_bubble_locked (dqueue_add_count q 1) b"

definition nn_dqueue_enqueue_callback :: "nn_dqueue \<Rightarrow> nat \<Rightarrow> bool \<times> nn_dqueue" where
  "nn_dqueue_enqueue_callback q cb = nn_dqueue_enqueue_bubble q (Bubble_callback cb)"

definition nn_dqueue_enqueue1 ::
  "nn_dqueue \<Rightarrow> ddsi_guid \<Rightarrow> nn_rsample_chain_elem list \<Rightarrow> nn_reorder_result \<Rightarrow> bool \<times> nn_dqueue" where
  "nn_dqueue_enqueue1 q rdguid sc rres =
     (let (signal, q1) = nn_dqueue_enqueue_bubble_locked (dqueue_add_count q (1 + nat rres))
            (Bubble_rdguid rdguid (nat rres));
          (ignored, q2) = nn_dqueue_enqueue_locked q1 (map Sample_elem sc)
      in (signal, q2))"

definition nn_dqueue_is_full :: "nn_dqueue \<Rightarrow> bool" where
  "nn_dqueue_is_full q \<longleftrightarrow> dq_nof_samples q \<ge> dq_max_samples q"

text \<open>Taking the queue, under the lock.\<close>

definition dqueue_take :: "nn_dqueue \<Rightarrow> dq_thread \<Rightarrow> nn_dqueue \<times> dq_thread" where
  "dqueue_take q th = (q\<lparr>dq_sc := []\<rparr>, th\<lparr>th_sc := dq_sc q\<rparr>)"

text \<open>The \<open>switch\<close> on one element.\<close>

definition dqueue_handle ::
  "dq_elem \<Rightarrow> dq_thread \<Rightarrow> refcounts \<Rightarrow> dq_thread \<times> refcounts \<times> dq_out list" where
  "dqueue_handle e th rc = (case e of
       Sample_elem c \<Rightarrow>
         (let out = (if dqueue_elem_kind e = DQEK_DATA then [Handler_call (th_rdguid th) c] else []);
              th1 = (if th_rdguid_count th > 0 then
                       (let n = th_rdguid_count th - 1
                        in if n = 0 then th\<lparr>th_rdguid_count := n, th_rdguid := None\<rparr>
                           else th\<lparr>th_rdguid_count := n\<rparr>)
                     else th)
          in (th1, nn_fragchain_unref (ce_fragchain c) rc, out))
     | Bubble_stop \<Rightarrow> (th\<lparr>th_keepgoing := False\<rparr>, rc, [])
     | Bubble_callback cb \<Rightarrow> (th, rc, [Callback_call cb])
     | Bubble_rdguid g n \<Rightarrow> (th\<lparr>th_rdguid := Some g, th_rdguid_count := n\<rparr>, rc, []))"

text \<open>One round of the inner loop.\<close>

definition dqueue_process :: "nn_dqueue \<Rightarrow> dq_thread \<Rightarrow> refcounts \<Rightarrow> nn_dqueue \<times> dq_thread \<times> refcounts \<times> dq_out list" where
  "dqueue_process q th rc = (case th_sc th of
       [] \<Rightarrow> (q, th, rc, [])
     | e # rest \<Rightarrow>
         (let q1 = q\<lparr>dq_nof_samples := dq_nof_samples q - 1\<rparr>;
              (th1, rc1, out) = dqueue_handle e (th\<lparr>th_sc := rest\<rparr>) rc
          in (q1, th1, rc1, out)))"

fun dqueue_free_remaining_elements :: "dq_elem list \<Rightarrow> refcounts \<Rightarrow> refcounts" where
  "dqueue_free_remaining_elements [] rc = rc"
| "dqueue_free_remaining_elements (e # es) rc =
     dqueue_free_remaining_elements es
       (case e of Sample_elem c \<Rightarrow> nn_fragchain_unref (ce_fragchain c) rc | _ \<Rightarrow> rc)"

section \<open>The queue and its users as a transition system\<close>

text \<open>
  An operation of a producer; \<open>Stop\<close> is the bubble of \<open>nn_dqueue_free\<close>, after which nothing may
  be enqueued any more. A chain is enqueued with the result of the reorder administration, the
  length of the chain.
\<close>

datatype dq_op = Enqueue "nn_rsample_chain_elem list"
  | Enqueue1 ddsi_guid "nn_rsample_chain_elem list"
  | Callback nat
  | Stop

record dq_sys =
  sy_queue :: nn_dqueue
  sy_thread :: dq_thread
  sy_rc :: refcounts
  sy_ops :: "dq_op list"
  sy_out :: "dq_out list"

fun dq_op_ok :: "dq_op \<Rightarrow> bool" where
  "dq_op_ok (Enqueue sc) \<longleftrightarrow> sc \<noteq> []"
| "dq_op_ok (Enqueue1 g sc) \<longleftrightarrow> sc \<noteq> []"
| "dq_op_ok _ \<longleftrightarrow> True"

fun dq_op_apply :: "dq_op \<Rightarrow> nn_dqueue \<Rightarrow> nn_dqueue" where
  "dq_op_apply (Enqueue sc) q = snd (nn_dqueue_enqueue q sc (int (length sc)))"
| "dq_op_apply (Enqueue1 g sc) q = snd (nn_dqueue_enqueue1 q g sc (int (length sc)))"
| "dq_op_apply (Callback cb) q = snd (nn_dqueue_enqueue_callback q cb)"
| "dq_op_apply Stop q = snd (nn_dqueue_enqueue_bubble q Bubble_stop)"

definition dq_sys_init :: "nat \<Rightarrow> refcounts \<Rightarrow> dq_sys" where
  "dq_sys_init max_samples rc =
     \<lparr>sy_queue = nn_dqueue_new max_samples, sy_thread = dqueue_thread_init, sy_rc = rc, sy_ops = [], sy_out = []\<rparr>"

inductive dq_step :: "dq_sys \<Rightarrow> dq_sys \<Rightarrow> bool" where
  produce: "dq_op_ok op \<Longrightarrow> Stop \<notin> set (sy_ops s) \<Longrightarrow>
     dq_step s (s\<lparr>sy_queue := dq_op_apply op (sy_queue s), sy_ops := sy_ops s @ [op]\<rparr>)"
| take: "th_sc (sy_thread s) = [] \<Longrightarrow> th_keepgoing (sy_thread s) \<Longrightarrow>
     dqueue_take (sy_queue s) (sy_thread s) = (q, th) \<Longrightarrow>
     dq_step s (s\<lparr>sy_queue := q, sy_thread := th\<rparr>)"
| process: "th_sc (sy_thread s) \<noteq> [] \<Longrightarrow>
     dqueue_process (sy_queue s) (sy_thread s) (sy_rc s) = (q, th, rc, out) \<Longrightarrow>
     dq_step s (s\<lparr>sy_queue := q, sy_thread := th, sy_rc := rc, sy_out := sy_out s @ out\<rparr>)"

inductive_cases dq_stepE: "dq_step s s'"

inductive dq_reachable :: "nat \<Rightarrow> refcounts \<Rightarrow> dq_sys \<Rightarrow> bool" for n rc where
  init: "dq_reachable n rc (dq_sys_init n rc)"
| step: "dq_reachable n rc s \<Longrightarrow> dq_step s s' \<Longrightarrow> dq_reachable n rc s'"

text \<open>What a producer's operation asks for: each data sample handed to the handler with the reader it is for.\<close>

definition data_elems :: "nn_rsample_chain_elem list \<Rightarrow> nn_rsample_chain_elem list" where
  "data_elems sc = filter (\<lambda>c. ce_sampleinfo c \<noteq> None) sc"

fun dq_op_out :: "dq_op \<Rightarrow> dq_out list" where
  "dq_op_out (Enqueue sc) = map (Handler_call None) (data_elems sc)"
| "dq_op_out (Enqueue1 g sc) = map (Handler_call (Some g)) (data_elems sc)"
| "dq_op_out (Callback cb) = [Callback_call cb]"
| "dq_op_out Stop = []"

fun dq_op_elems :: "dq_op \<Rightarrow> dq_elem list" where
  "dq_op_elems (Enqueue sc) = map Sample_elem sc"
| "dq_op_elems (Enqueue1 g sc) = Bubble_rdguid g (length sc) # map Sample_elem sc"
| "dq_op_elems (Callback cb) = [Bubble_callback cb]"
| "dq_op_elems Stop = [Bubble_stop]"

fun dq_op_chain :: "dq_op \<Rightarrow> nn_rsample_chain_elem list" where
  "dq_op_chain (Enqueue sc) = sc"
| "dq_op_chain (Enqueue1 g sc) = sc"
| "dq_op_chain _ = []"

section \<open>The invariant\<close>

lemma dq_op_apply_elems:
  "dq_sc (dq_op_apply op q) = dq_sc q @ dq_op_elems op"
  "dq_nof_samples (dq_op_apply op q) = dq_nof_samples q + length (dq_op_elems op)"
  "dq_max_samples (dq_op_apply op q) = dq_max_samples q"
  by (cases op; auto simp: nn_dqueue_enqueue_def nn_dqueue_enqueue1_def nn_dqueue_enqueue_callback_def
      nn_dqueue_enqueue_bubble_def nn_dqueue_enqueue_bubble_locked_def nn_dqueue_enqueue_locked_def
      dqueue_add_count_def Let_def)+

text \<open>Handling a list of elements in a row.\<close>

fun dq_handle_all :: "dq_elem list \<Rightarrow> dq_thread \<Rightarrow> refcounts \<Rightarrow> dq_thread \<times> refcounts \<times> dq_out list" where
  "dq_handle_all [] th rc = (th, rc, [])"
| "dq_handle_all (e # es) th rc =
     (let (th1, rc1, o1) = dqueue_handle e th rc; (th2, rc2, o2) = dq_handle_all es th1 rc1
      in (th2, rc2, o1 @ o2))"

lemma dq_handle_all_append:
  "dq_handle_all (xs @ ys) th rc =
     (let (th1, rc1, o1) = dq_handle_all xs th rc; (th2, rc2, o2) = dq_handle_all ys th1 rc1
      in (th2, rc2, o1 @ o2))"
  by (induction xs arbitrary: th rc) (auto simp: Let_def split: prod.splits)

lemma handle_samples_plain:
  "th_rdguid_count th = 0 \<Longrightarrow> dq_handle_all (map Sample_elem sc) th rc =
     (th, sample_chain_unref sc rc, map (Handler_call (th_rdguid th)) (data_elems sc))"
  by (induction sc arbitrary: rc)
    (auto simp: dqueue_handle_def dqueue_elem_kind_def data_elems_def)

lemma handle_samples_addressed:
  "th_rdguid_count th = length sc \<Longrightarrow> sc \<noteq> [] \<Longrightarrow> dq_handle_all (map Sample_elem sc) th rc =
     (th\<lparr>th_rdguid := None, th_rdguid_count := 0\<rparr>, sample_chain_unref sc rc,
      map (Handler_call (th_rdguid th)) (data_elems sc))"
proof (induction sc arbitrary: th rc)
  case (Cons c sc)
  show ?case
  proof (cases "sc = []")
    case True
    with Cons.prems show ?thesis
      by (auto simp: dqueue_handle_def dqueue_elem_kind_def data_elems_def)
  next
    case False
    let ?th = "th\<lparr>th_rdguid_count := length sc\<rparr>"
    have "dq_handle_all (map Sample_elem sc) ?th (nn_fragchain_unref (ce_fragchain c) rc) =
       (?th\<lparr>th_rdguid := None, th_rdguid_count := 0\<rparr>, sample_chain_unref sc (nn_fragchain_unref (ce_fragchain c) rc),
        map (Handler_call (th_rdguid ?th)) (data_elems sc))"
      using Cons.IH [of ?th] False by simp
    with Cons.prems False show ?thesis
      by (auto simp: dqueue_handle_def dqueue_elem_kind_def data_elems_def)
  qed
qed simp

text \<open>A thread that addresses nobody handles a whole operation as it was meant.\<close>

lemma handle_op:
  assumes "th_rdguid th = None" "th_rdguid_count th = 0" "dq_op_ok op"
  shows "dq_handle_all (dq_op_elems op) th rc =
    (th\<lparr>th_keepgoing := (op \<noteq> Stop \<and> th_keepgoing th)\<rparr>, sample_chain_unref (dq_op_chain op) rc, dq_op_out op)"
proof (cases op)
  case (Enqueue sc)
  with assms show ?thesis by (simp add: handle_samples_plain)
next
  case (Enqueue1 g sc)
  with assms handle_samples_addressed [of "th\<lparr>th_rdguid := Some g, th_rdguid_count := length sc\<rparr>" sc rc]
  show ?thesis by (simp add: dqueue_handle_def)
qed (use assms in \<open>auto simp: dqueue_handle_def\<close>)

lemma handle_ops:
  assumes "th_rdguid th = None" "th_rdguid_count th = 0" "\<forall>op\<in>set ops. dq_op_ok op"
  shows "dq_handle_all (concat (map dq_op_elems ops)) th rc =
    (th\<lparr>th_keepgoing := (Stop \<notin> set ops \<and> th_keepgoing th)\<rparr>,
     sample_chain_unref (concat (map dq_op_chain ops)) rc, concat (map dq_op_out ops))"
  using assms
proof (induction ops arbitrary: th rc)
  case Nil
  then show ?case by simp
next
  case (Cons op ops)
  have "sample_chain_unref (xs @ ys) rc = sample_chain_unref ys (sample_chain_unref xs rc)" for xs ys
    by (induction xs arbitrary: rc) auto
  moreover have "th\<lparr>th_keepgoing := Stop \<notin> set ops \<and> op \<noteq> Stop \<and> k\<rparr> = th\<lparr>th_keepgoing := Stop \<notin> set (op # ops) \<and> k\<rparr>" for k
    by (cases "Stop \<in> set ops"; cases "op = Stop") auto
  ultimately show ?case using Cons by (simp add: dq_handle_all_append handle_op)
qed

definition dq_pending :: "dq_sys \<Rightarrow> dq_elem list" where
  "dq_pending s = th_sc (sy_thread s) @ dq_sc (sy_queue s)"

definition dq_inv :: "refcounts \<Rightarrow> dq_sys \<Rightarrow> bool" where
  "dq_inv rc0 s \<longleftrightarrow>
     (case dq_handle_all (dq_pending s) ((sy_thread s)\<lparr>th_sc := []\<rparr>) (sy_rc s) of (th, rc, out) \<Rightarrow>
        sy_out s @ out = concat (map dq_op_out (sy_ops s))
        \<and> rc = sample_chain_unref (concat (map dq_op_chain (sy_ops s))) rc0
        \<and> th_rdguid th = None \<and> th_rdguid_count th = 0)
     \<and> (\<forall>op\<in>set (sy_ops s). dq_op_ok op)
     \<and> dq_nof_samples (sy_queue s) = length (dq_pending s)
     \<and> (if th_keepgoing (sy_thread s) then
          (if Stop \<in> set (sy_ops s) then \<exists>xs. dq_pending s = xs @ [Bubble_stop] \<and> Bubble_stop \<notin> set xs
           else Bubble_stop \<notin> set (dq_pending s))
        else Stop \<in> set (sy_ops s) \<and> dq_pending s = [])"

lemma dqueue_handle_sc:
  "dqueue_handle e (th\<lparr>th_sc := x\<rparr>) rc = (case dqueue_handle e th rc of (th1, rc1, out) \<Rightarrow> (th1\<lparr>th_sc := x\<rparr>, rc1, out))"
  by (cases e) (auto simp: dqueue_handle_def Let_def)

lemma dqueue_handle_keepgoing:
  "dqueue_handle e th rc = (th1, rc1, out) \<Longrightarrow> th_keepgoing th1 = (e \<noteq> Bubble_stop \<and> th_keepgoing th)"
  by (cases e) (auto simp: dqueue_handle_def Let_def split: if_splits)

lemma dq_inv_produce:
  assumes inv: "dq_inv rc0 s" and op: "dq_op_ok op" "Stop \<notin> set (sy_ops s)"
  shows "dq_inv rc0 (s\<lparr>sy_queue := dq_op_apply op (sy_queue s), sy_ops := sy_ops s @ [op]\<rparr>)" (is "dq_inv rc0 ?s")
proof -
  obtain th rc out where h: "dq_handle_all (dq_pending s) ((sy_thread s)\<lparr>th_sc := []\<rparr>) (sy_rc s) = (th, rc, out)"
    by (metis prod_cases3)
  from inv h have i: "sy_out s @ out = concat (map dq_op_out (sy_ops s))"
    "rc = sample_chain_unref (concat (map dq_op_chain (sy_ops s))) rc0" "th_rdguid th = None" "th_rdguid_count th = 0"
    by (auto simp: dq_inv_def)
  have pend: "dq_pending ?s = dq_pending s @ dq_op_elems op" by (simp add: dq_pending_def dq_op_apply_elems)
  have app: "sample_chain_unref (xs @ ys) rc = sample_chain_unref ys (sample_chain_unref xs rc)" for xs ys rc
    by (induction xs arbitrary: rc) auto
  have kg: "th_keepgoing (sy_thread s)" using inv op(2) by (auto simp: dq_inv_def split: if_splits)
  then have nostop: "Bubble_stop \<notin> set (dq_pending s)" using inv op(2) by (simp add: dq_inv_def)
  have stop: "if Stop = op then dq_op_elems op = [Bubble_stop] else Bubble_stop \<notin> set (dq_op_elems op)"
    by (cases op) auto
  have "case dq_handle_all (dq_pending ?s) ((sy_thread ?s)\<lparr>th_sc := []\<rparr>) (sy_rc ?s) of (th, rc, out) \<Rightarrow>
        sy_out ?s @ out = concat (map dq_op_out (sy_ops ?s))
        \<and> rc = sample_chain_unref (concat (map dq_op_chain (sy_ops ?s))) rc0
        \<and> th_rdguid th = None \<and> th_rdguid_count th = 0"
    unfolding pend dq_handle_all_append using i h handle_op [OF i(3,4) op(1)] by (simp add: app)
  moreover have "dq_nof_samples (sy_queue ?s) = length (dq_pending ?s)"
    unfolding pend using inv by (simp add: dq_inv_def dq_op_apply_elems)
  moreover have "if Stop \<in> set (sy_ops ?s) then \<exists>xs. dq_pending ?s = xs @ [Bubble_stop] \<and> Bubble_stop \<notin> set xs
           else Bubble_stop \<notin> set (dq_pending ?s)"
    unfolding pend using stop nostop op(2) by (auto split: if_splits)
  ultimately show ?thesis using inv op kg unfolding dq_inv_def by simp
qed

lemma dq_inv_take:
  assumes inv: "dq_inv rc0 s" and e: "th_sc (sy_thread s) = []"
    and t: "dqueue_take (sy_queue s) (sy_thread s) = (q, th)"
  shows "dq_inv rc0 (s\<lparr>sy_queue := q, sy_thread := th\<rparr>)" (is "dq_inv rc0 ?s")
proof -
  have "dq_pending ?s = dq_pending s" "th\<lparr>th_sc := []\<rparr> = (sy_thread s)\<lparr>th_sc := []\<rparr>"
    "dq_nof_samples q = dq_nof_samples (sy_queue s)" "th_keepgoing th = th_keepgoing (sy_thread s)"
    using t e by (auto simp: dq_pending_def dqueue_take_def)
  with inv show ?thesis by (simp add: dq_inv_def)
qed

lemma dq_inv_process:
  assumes inv: "dq_inv rc0 s" and ne: "th_sc (sy_thread s) \<noteq> []"
    and t: "dqueue_process (sy_queue s) (sy_thread s) (sy_rc s) = (q, th, rc, out)"
  shows "dq_inv rc0 (s\<lparr>sy_queue := q, sy_thread := th, sy_rc := rc, sy_out := sy_out s @ out\<rparr>)" (is "dq_inv rc0 ?s")
proof -
  obtain e rest where er: "th_sc (sy_thread s) = e # rest" using ne by (cases "th_sc (sy_thread s)") auto
  obtain th1 where h: "dqueue_handle e ((sy_thread s)\<lparr>th_sc := []\<rparr>) (sy_rc s) = (th1, rc, out)"
    and th: "th = th1\<lparr>th_sc := rest\<rparr>" and q: "q = (sy_queue s)\<lparr>dq_nof_samples := dq_nof_samples (sy_queue s) - 1\<rparr>"
    using t er dqueue_handle_sc [of e rest "sy_thread s" "sy_rc s"] dqueue_handle_sc [of e "[]" "sy_thread s" "sy_rc s"]
    by (auto simp: dqueue_process_def split: prod.splits)
  have th1: "th1\<lparr>th_sc := []\<rparr> = th1"
    using h by (cases e) (auto simp: dqueue_handle_def Let_def split: if_splits)
  have pend: "dq_pending s = e # dq_pending ?s" by (simp add: dq_pending_def er th q)
  have kg: "th_keepgoing (sy_thread s)" using inv pend by (auto simp: dq_inv_def split: if_splits)
  have kg1: "th_keepgoing th = (e \<noteq> Bubble_stop)" using dqueue_handle_keepgoing [OF h] kg by (simp add: th)
  have main: "case dq_handle_all (dq_pending ?s) ((sy_thread ?s)\<lparr>th_sc := []\<rparr>) (sy_rc ?s) of (th, rc, out) \<Rightarrow>
        sy_out ?s @ out = concat (map dq_op_out (sy_ops ?s))
        \<and> rc = sample_chain_unref (concat (map dq_op_chain (sy_ops ?s))) rc0
        \<and> th_rdguid th = None \<and> th_rdguid_count th = 0"
    using inv h unfolding dq_inv_def pend by (simp add: th th1 split: prod.splits)
  have stops: "if Stop \<in> set (sy_ops s) then \<exists>xs. e # dq_pending ?s = xs @ [Bubble_stop] \<and> Bubble_stop \<notin> set xs
           else Bubble_stop \<notin> set (e # dq_pending ?s)"
    using inv kg unfolding dq_inv_def pend by (cases "Stop \<in> set (sy_ops s)") auto
  have st: "if th_keepgoing th then
          (if Stop \<in> set (sy_ops s) then \<exists>xs. dq_pending ?s = xs @ [Bubble_stop] \<and> Bubble_stop \<notin> set xs
           else Bubble_stop \<notin> set (dq_pending ?s))
        else Stop \<in> set (sy_ops s) \<and> dq_pending ?s = []"
  proof (cases "Stop \<in> set (sy_ops s)")
    case True
    with stops obtain xs where xs: "e # dq_pending ?s = xs @ [Bubble_stop]" "Bubble_stop \<notin> set xs" by auto
    with True show ?thesis by (cases xs) (auto simp: kg1)
  next
    case False
    with stops show ?thesis by (auto simp: kg1)
  qed
  have "dq_nof_samples (sy_queue s) = length (dq_pending s)" using inv by (simp add: dq_inv_def)
  moreover have "dq_nof_samples q = dq_nof_samples (sy_queue s) - 1" by (simp add: q)
  ultimately have "dq_nof_samples q = length (dq_pending ?s)" unfolding pend by simp
  with main st inv show ?thesis by (simp add: dq_inv_def)
qed

lemma dq_reachable_inv: "dq_reachable n rc s \<Longrightarrow> dq_inv rc s"
proof (induction rule: dq_reachable.induct)
  case init
  show ?case by (simp add: dq_inv_def dq_sys_init_def dq_pending_def nn_dqueue_new_def dqueue_thread_init_def)
next
  case (step s s')
  from step(2) step.IH show ?case
    by (cases rule: dq_stepE) (auto intro: dq_inv_produce dq_inv_take dq_inv_process)
qed

section \<open>Properties\<close>

text \<open>C10: However producers and the delivery thread interleave, the handler and callback calls made so far,
  followed by those that handling what is pending, in the thread's list and then in the queue, comes to, are the
  calls the producers asked for, in their order, each data sample with the reader it was addressed to (or none);
  so once nothing is pending, all were made. The counter of the queue is the number of pending elements.\<close>

theorem dqueue_fifo_delivery:
  assumes "dq_reachable n rc0 s"
  shows "(\<forall>th rc out. dq_handle_all (dq_pending s) ((sy_thread s)\<lparr>th_sc := []\<rparr>) (sy_rc s) = (th, rc, out)
        \<longrightarrow> sy_out s @ out = concat (map dq_op_out (sy_ops s)))
    \<and> (dq_pending s = [] \<longrightarrow> sy_out s = concat (map dq_op_out (sy_ops s)))
    \<and> dq_nof_samples (sy_queue s) = length (th_sc (sy_thread s)) + length (dq_sc (sy_queue s))"
  using dq_reachable_inv [OF assms] by (auto simp: dq_inv_def dq_pending_def split: prod.splits)

text \<open>Runs as schedules, for concrete examples.\<close>

datatype dq_act = Produce dq_op | Take | Process

fun dq_act_do :: "dq_act \<Rightarrow> dq_sys \<Rightarrow> dq_sys option" where
  "dq_act_do (Produce op) s =
     (if dq_op_ok op \<and> Stop \<notin> set (sy_ops s)
      then Some (s\<lparr>sy_queue := dq_op_apply op (sy_queue s), sy_ops := sy_ops s @ [op]\<rparr>) else None)"
| "dq_act_do Take s =
     (if th_sc (sy_thread s) = [] \<and> th_keepgoing (sy_thread s)
      then (let (q, th) = dqueue_take (sy_queue s) (sy_thread s) in Some (s\<lparr>sy_queue := q, sy_thread := th\<rparr>))
      else None)"
| "dq_act_do Process s =
     (if th_sc (sy_thread s) \<noteq> []
      then (let (q, th, rc, out) = dqueue_process (sy_queue s) (sy_thread s) (sy_rc s)
            in Some (s\<lparr>sy_queue := q, sy_thread := th, sy_rc := rc, sy_out := sy_out s @ out\<rparr>))
      else None)"

fun dq_schedule :: "dq_act list \<Rightarrow> dq_sys \<Rightarrow> dq_sys option" where
  "dq_schedule [] s = Some s"
| "dq_schedule (a # as) s = (case dq_act_do a s of None \<Rightarrow> None | Some s' \<Rightarrow> dq_schedule as s')"

lemma dq_act_step: "dq_act_do a s = Some s' \<Longrightarrow> dq_step s s'"
  by (cases a) (auto split: if_splits prod.splits intro: dq_step.intros)

lemma dq_schedule_reachable:
  "dq_reachable n rc s \<Longrightarrow> dq_schedule as s = Some s' \<Longrightarrow> dq_reachable n rc s'"
  by (induction "as" arbitrary: s)
    (auto split: option.splits intro: dq_reachable.step dest: dq_act_step)

definition demo_elem :: "nat \<Rightarrow> nn_rsample_chain_elem" where
  "demo_elem m = \<lparr>ce_fragchain = [nn_rdata_new m 0 8 0 0 0],
     ce_sampleinfo = Some \<lparr>si_seq = m, si_dst_guid_prefix = [], si_size = 8, si_fragsize = 8\<rparr>\<rparr>"

definition demo_schedule :: "dq_act list" where
  "demo_schedule = [Produce (Enqueue1 [1] [demo_elem 0]), Take, Process, Produce Stop, Process, Take, Process]"

lemmas dqueue_run_simps = demo_schedule_def dq_sys_init_def nn_dqueue_new_def dqueue_thread_init_def
  nn_dqueue_enqueue1_def nn_dqueue_enqueue_def nn_dqueue_enqueue_bubble_def
  nn_dqueue_enqueue_bubble_locked_def nn_dqueue_enqueue_locked_def
  dqueue_add_count_def dqueue_take_def dqueue_process_def dqueue_handle_def dqueue_elem_kind_def
  demo_elem_def dq_pending_def nn_rdata_unref_def nn_rmsg_unref_def nn_rdata_new_def

lemma demo_schedule_reachable:
  "\<exists>s. dq_reachable 8 (\<lambda>_. 1) s \<and> sy_ops s = [Enqueue1 [1] [demo_elem 0], Stop] \<and> dq_pending s = []
     \<and> \<not> th_keepgoing (sy_thread s)"
proof -
  obtain s where s: "dq_schedule demo_schedule (dq_sys_init 8 (\<lambda>_. 1)) = Some s"
    "sy_ops s = [Enqueue1 [1] [demo_elem 0], Stop] \<and> dq_pending s = [] \<and> \<not> th_keepgoing (sy_thread s)"
    by (simp add: dqueue_run_simps)
  from dq_schedule_reachable [OF dq_reachable.init s(1)] s(2) show ?thesis by blast
qed

lemma dqueue_fifo_delivery_witness:
  "\<exists>s. dq_reachable 8 (\<lambda>_. 1) s \<and> sy_out s = [Handler_call (Some [1]) (demo_elem 0)]"
proof -
  obtain s where s: "dq_reachable 8 (\<lambda>_. 1) s" "sy_ops s = [Enqueue1 [1] [demo_elem 0], Stop]" "dq_pending s = []"
    using demo_schedule_reachable by blast
  from dqueue_fifo_delivery [OF s(1)] s show ?thesis by (auto simp: data_elems_def demo_elem_def)
qed

text \<open>C11: The sample counter is the number of elements not yet handled; when the delivery
  thread ends after the stop bubble, nothing is left in the queue, everything enqueued before has
  been handled, and exactly the references of the enqueued chains have been given back.\<close>

theorem dqueue_stop_drains:
  assumes "dq_reachable n rc0 s"
  shows "(dq_nof_samples (sy_queue s) = length (th_sc (sy_thread s)) + length (dq_sc (sy_queue s)))
    \<and> (\<not> th_keepgoing (sy_thread s)
        \<longrightarrow> dq_sc (sy_queue s) = [] \<and> th_sc (sy_thread s) = []
      \<and> sy_out s = concat (map dq_op_out (sy_ops s))
      \<and> sy_rc s m = rc0 m - chain_refs m (concat (map dq_op_chain (sy_ops s))))"
proof -
  have cnt: "sample_chain_unref sc rc m = rc m - chain_refs m sc" for sc rc m
    by (induction sc arbitrary: rc) (auto simp: fragchain_unref_count)
  note inv = dq_reachable_inv [OF assms]
  then have p1: "dq_nof_samples (sy_queue s) = length (th_sc (sy_thread s)) + length (dq_sc (sy_queue s))"
    by (simp add: dq_inv_def dq_pending_def)
  have p2: "dq_sc (sy_queue s) = [] \<and> th_sc (sy_thread s) = []
      \<and> sy_out s = concat (map dq_op_out (sy_ops s))
      \<and> sy_rc s m = rc0 m - chain_refs m (concat (map dq_op_chain (sy_ops s)))"
    if "\<not> th_keepgoing (sy_thread s)"
    using inv that by (auto simp: dq_inv_def dq_pending_def cnt)
  show ?thesis using p1 p2 by blast
qed

lemma dqueue_stop_drains_witness:
  "\<exists>s. dq_reachable 8 (\<lambda>_. 1) s \<and> \<not> th_keepgoing (sy_thread s) \<and> dq_sc (sy_queue s) = [] \<and> sy_rc s 0 = 0"
proof -
  obtain s where s: "dq_reachable 8 (\<lambda>_. 1) s" "sy_ops s = [Enqueue1 [1] [demo_elem 0], Stop]"
    "\<not> th_keepgoing (sy_thread s)" using demo_schedule_reachable by blast
  from dqueue_stop_drains [OF s(1), of 0] s show ?thesis by (auto simp: demo_elem_def nn_rdata_new_def)
qed

end
