(* ===== verification/Retcode.thy ===== *)
theory Retcode
  imports Prelude
begin

text \<open>
  The return codes of ddsrt/retcode.h. \<open>dds_return_t\<close> is an \<open>int32_t\<close>: negative values are errors,
  non-negative ones results (a handle, a count, or simply success).
\<close>

type_synonym dds_return_t = int

definition DDS_RETCODE_OK :: dds_return_t where "DDS_RETCODE_OK = 0"
definition DDS_RETCODE_BAD_PARAMETER :: dds_return_t where "DDS_RETCODE_BAD_PARAMETER = -3"
definition DDS_RETCODE_PRECONDITION_NOT_MET :: dds_return_t where "DDS_RETCODE_PRECONDITION_NOT_MET = -4"
definition DDS_RETCODE_OUT_OF_RESOURCES :: dds_return_t where "DDS_RETCODE_OUT_OF_RESOURCES = -5"
definition DDS_RETCODE_ALREADY_DELETED :: dds_return_t where "DDS_RETCODE_ALREADY_DELETED = -9"
definition DDS_RETCODE_TIMEOUT :: dds_return_t where "DDS_RETCODE_TIMEOUT = -10"
definition DDS_RETCODE_ILLEGAL_OPERATION :: dds_return_t where "DDS_RETCODE_ILLEGAL_OPERATION = -12"
definition DDS_RETCODE_TRY_AGAIN :: dds_return_t where "DDS_RETCODE_TRY_AGAIN = -52"
definition DDS_RETCODE_OUT_OF_RANGE :: dds_return_t where "DDS_RETCODE_OUT_OF_RANGE = -59"

lemmas retcodes = DDS_RETCODE_OK_def DDS_RETCODE_BAD_PARAMETER_def
  DDS_RETCODE_PRECONDITION_NOT_MET_def DDS_RETCODE_OUT_OF_RESOURCES_def DDS_RETCODE_ALREADY_DELETED_def
  DDS_RETCODE_TIMEOUT_def DDS_RETCODE_ILLEGAL_OPERATION_def
  DDS_RETCODE_TRY_AGAIN_def DDS_RETCODE_OUT_OF_RANGE_def

end
