(* ===== verification/Strtol.thy ===== *)
theory Strtol
  imports Retcode
begin

text \<open>
  Number parsing and printing of ddsrt/src/strtol.c.

  A C string is the list of its characters before the terminating NUL; reading at the end gives
  the NUL (\<open>char_at\<close>). A result pointer \<open>endptr\<close> is the number of characters before it.
  Accumulation is in 64-bit words and wraps as in C; the only signed product,
  \<open>tot * (long long) ullng\<close> in \<open>ddsrt_strtoll\<close>, is taken in two's complement. The output buffer
  of \<open>ddsrt_ulltostr\<close> is a list of \<open>len\<close> characters updated in place.
\<close>

section \<open>Parsing\<close>

definition char_at :: "string \<Rightarrow> nat \<Rightarrow> char" where
  "char_at s i = (if i < length s then s ! i else CHR 0x00)"

definition ddsrt_todigit :: "char \<Rightarrow> int" where
  "ddsrt_todigit c =
     (let n = int (of_char c) in
      if 48 \<le> n \<and> n \<le> 57 then n - 48
      else if 97 \<le> n \<and> n \<le> 122 then 10 + (n - 97)
      else if 65 \<le> n \<and> n \<le> 90 then 10 + (n - 65)
      else -1)"

text \<open>\<open>isspace\<close> of the C locale.\<close>

definition isspace :: "char \<Rightarrow> bool" where
  "isspace c \<longleftrightarrow> (let n = (of_char c :: nat) in 9 \<le> n \<and> n \<le> 13 \<or> n = 32)"

text \<open>The loop of \<open>ullfstr\<close>: return code, total and number of characters consumed.\<close>

fun ullfstr_loop :: "int \<Rightarrow> u64 \<Rightarrow> string \<Rightarrow> u64 \<Rightarrow> nat \<Rightarrow> dds_return_t \<times> u64 \<times> nat" where
  "ullfstr_loop base mx [] tot cnt = (DDS_RETCODE_OK, tot, cnt)"
| "ullfstr_loop base mx (c # cs) tot cnt =
     (let num = ddsrt_todigit c in
      if num \<ge> 0 \<and> num < base then
        (if tot \<le> mx div of_int base
         then ullfstr_loop base mx cs (tot * of_int base + of_int num) (cnt + 1)
         else (DDS_RETCODE_OUT_OF_RANGE, mx, cnt))
      else (DDS_RETCODE_OK, tot, cnt))"

text \<open>The base to use and the length of its prefix; \<open>None\<close>: the base is no good.\<close>

definition ullfstr_base :: "string \<Rightarrow> int \<Rightarrow> (int \<times> nat) option" where
  "ullfstr_base str base =
     (if base = 0 then
        (if char_at str 0 = CHR ''0'' then
           (if (char_at str 1 = CHR ''x'' \<or> char_at str 1 = CHR ''X'') \<and> ddsrt_todigit (char_at str 2) < 16
            then Some (16, 2) else Some (8, 0))
         else Some (10, 0))
      else if base = 16 then
        (if char_at str 0 = CHR ''0'' \<and> (char_at str 1 = CHR ''x'' \<or> char_at str 1 = CHR ''X'')
         then Some (16, 2) else Some (16, 0))
      else if base < 2 \<or> base > 36 then None
      else Some (base, 0))"

text \<open>The value and the end pointer are not written when the base is no good.\<close>

definition ullfstr :: "string \<Rightarrow> int \<Rightarrow> u64 \<Rightarrow> dds_return_t \<times> (u64 \<times> nat) option" where
  "ullfstr str base mx =
     (case ullfstr_base str base of
        None \<Rightarrow> (DDS_RETCODE_BAD_PARAMETER, None)
      | Some (b, cnt) \<Rightarrow>
          (let (rc, tot, cnt') = ullfstr_loop b mx (drop cnt str) 0 cnt in (rc, Some (tot, cnt'))))"

definition INT64_MAX :: u64 where "INT64_MAX = 2 ^ 63 - 1"
definition UINT64_MAX :: u64 where "UINT64_MAX = - 1"

text \<open>Leading white space and sign: the characters to skip and whether there is a minus.\<close>

definition skip_sign :: "string \<Rightarrow> nat \<times> bool" where
  "skip_sign str =
     (let cnt = length (takeWhile isspace str) in
      if char_at str cnt = CHR ''-'' then (cnt + 1, True)
      else if char_at str cnt = CHR ''+'' then (cnt + 1, False)
      else (cnt, False))"

text \<open>When nothing was consumed the end pointer is reset to the start of the string.\<close>

definition ddsrt_strtoll :: "string \<Rightarrow> int \<Rightarrow> dds_return_t \<times> (64 word \<times> nat) option" where
  "ddsrt_strtoll str base =
     (let (cnt, neg) = skip_sign str;
          mx = (if neg then INT64_MAX + 1 else INT64_MAX);
          tot = (if neg then - 1 else 1)
      in case ullfstr (drop cnt str) base mx of
           (rc, None) \<Rightarrow> (rc, None)
         | (rc, Some (ullng, n)) \<Rightarrow> (rc, Some (tot * ullng, if n = 0 then 0 else cnt + n)))"

definition ddsrt_strtoull :: "string \<Rightarrow> int \<Rightarrow> dds_return_t \<times> (u64 \<times> nat) option" where
  "ddsrt_strtoull str base =
     (let (cnt, neg) = skip_sign str;
          tot = (if neg then - 1 else 1)
      in case ullfstr (drop cnt str) base UINT64_MAX of
           (rc, None) \<Rightarrow> (rc, None)
         | (rc, Some (ullng, n)) \<Rightarrow> (rc, Some (ullng * tot, if n = 0 then 0 else cnt + n)))"

definition ddsrt_atoll :: "string \<Rightarrow> dds_return_t \<times> 64 word option" where
  "ddsrt_atoll str = (let (rc, r) = ddsrt_strtoll str 10 in (rc, map_option fst r))"

definition ddsrt_atoull :: "string \<Rightarrow> dds_return_t \<times> u64 option" where
  "ddsrt_atoull str = (let (rc, r) = ddsrt_strtoull str 10 in (rc, map_option fst r))"

section \<open>Printing\<close>

definition digit_char :: "nat \<Rightarrow> char" where
  "digit_char d = char_of (48 + d)"

text \<open>\<open>str[cnt] = str[cnt + 1]\<close> for \<open>cnt < tot\<close>\<close>

definition shift_down :: "nat \<Rightarrow> string \<Rightarrow> string" where
  "shift_down tot str = fold (\<lambda>cnt s. s[cnt := s ! (cnt + 1)]) [0 ..< tot] str"

lemma div10_less: "0 < num div 10 \<Longrightarrow> unat (num div 10) < unat num" for num :: u64
  by (simp add: unat_div word_less_nat_alt)

text \<open>The digits, lowest first; when the buffer is full the lowest digit is shifted out.\<close>

function ulltostr_loop :: "u64 \<Rightarrow> nat \<Rightarrow> nat \<Rightarrow> string \<Rightarrow> nat \<times> string" where
  "ulltostr_loop num lim tot str =
     (let str1 = str[tot := digit_char (unat (num mod 10))];
          num1 = num div 10
      in if num1 > 0 then
           (if tot = lim - 1 then ulltostr_loop num1 lim tot (shift_down tot str1)
            else ulltostr_loop num1 lim (tot + 1) str1)
         else (tot, str1))"
  by pat_completeness auto

termination by (relation "measure (\<lambda>(num, _, _, _). unat num)") (auto dest: div10_less)

declare ulltostr_loop.simps [simp del]

function swap_ends :: "nat \<Rightarrow> nat \<Rightarrow> string \<Rightarrow> string" where
  "swap_ends tot cnt str =
     (if cnt < tot - cnt then
        swap_ends tot (cnt + 1) (str[tot - cnt := str ! cnt, cnt := str ! (tot - cnt)])
      else str)"
  by pat_completeness auto
termination by (relation "measure (\<lambda>(tot, cnt, _). tot - cnt)") auto

declare swap_ends.simps [simp del]

text \<open>\<open>str\<close> holds \<open>len\<close> characters. Result: the buffer and the end pointer; \<open>None\<close> when \<open>len\<close> is 0.\<close>

definition ddsrt_ulltostr :: "u64 \<Rightarrow> string \<Rightarrow> (string \<times> nat) option" where
  "ddsrt_ulltostr num str =
     (let len = length str;
          (lim, tot, str1) =
            (if len > 1 then (let (tot, s) = ulltostr_loop num (len - 1) 0 str in (tot + 1, tot, s))
             else (0, 0, str));
          str2 = swap_ends tot 0 str1
      in if len = 0 then None else Some (str2[lim := CHR 0x00], lim))"

definition ddsrt_lltostr :: "64 word \<Rightarrow> string \<Rightarrow> (string \<times> nat) option" where
  "ddsrt_lltostr num str =
     (if length str = 0 then None
      else if length str = 1 then Some (str[0 := CHR 0x00], 0)
      else if num <s 0 then
        (let pos = (if num = 2 ^ 63 then INT64_MAX + 1 else - num)
         in map_option (\<lambda>(s, n). (CHR ''-'' # s, n + 1)) (ddsrt_ulltostr pos (drop 1 str)))
      else ddsrt_ulltostr num str)"

section \<open>Parsing: what is accepted\<close>

definition is_digit :: "int \<Rightarrow> char \<Rightarrow> bool" where
  "is_digit b c \<longleftrightarrow> 0 \<le> ddsrt_todigit c \<and> ddsrt_todigit c < b"

definition horner :: "int \<Rightarrow> nat \<Rightarrow> string \<Rightarrow> nat" where
  "horner b v ds = foldl (\<lambda>a c. a * nat b + nat (ddsrt_todigit c)) v ds"

text \<open>The mathematical value of the digits that a string starts with.\<close>

definition digits_value :: "int \<Rightarrow> string \<Rightarrow> nat" where
  "digits_value b s = horner b 0 (takeWhile (is_digit b) s)"

lemma horner_simps [simp]:
  "horner b v [] = v"
  "horner b v (c # cs) = horner b (v * nat b + nat (ddsrt_todigit c)) cs"
  by (simp_all add: horner_def)

lemma horner_append: "horner b v (xs @ ys) = horner b (horner b v xs) ys"
  by (simp add: horner_def)

lemma horner_ge: "2 \<le> b \<Longrightarrow> v \<le> horner b v ds"
proof (induction ds arbitrary: v)
  case (Cons c ds)
  have "v * 1 \<le> v * nat b" using Cons.prems by (intro mult_le_mono) auto
  then have "v \<le> v * nat b + nat (ddsrt_todigit c)" by linarith
  also have "\<dots> \<le> horner b \<dots> ds" by (rule Cons.IH [OF Cons.prems])
  finally show ?case by simp
qed simp

text \<open>All digits but the last stay at or below the bound's quotient when the value's quotient does.\<close>

lemma horner_prefix_le:
  assumes "2 \<le> b" "\<forall>c\<in>set (c # ds). is_digit b c" "horner b v (c # ds) div nat b \<le> m"
  shows "v \<le> m"
proof -
  have "v * nat b \<le> horner b v (c # ds)"
    using horner_ge [OF assms(1), of "v * nat b + nat (ddsrt_todigit c)" ds] by simp
  then have "(v * nat b) div nat b \<le> horner b v (c # ds) div nat b" by (rule div_le_mono)
  with assms show ?thesis by simp
qed

lemma u64_less: "unat w < 2 ^ 64" for w :: u64
  using unsigned_less [of w, where ?'a = nat] by simp

lemma base_word:
  assumes "2 \<le> b" "b \<le> 36"
  shows "unat (of_int b :: u64) = nat b" and "unat (mx div of_int b :: u64) = unat mx div nat b"
proof -
  show "unat (of_int b :: u64) = nat b"
    using assms by (simp add: unat_eq_nat_uint uint_word_of_int take_bit_int_eq_self)
  then show "unat (mx div of_int b :: u64) = unat mx div nat b" by (simp add: unat_div)
qed

lemma step_word:
  assumes "2 \<le> b" "b \<le> 36" "is_digit b c"
  shows "(of_nat v :: u64) * of_int b + of_int (ddsrt_todigit c) = of_nat (v * nat b + nat (ddsrt_todigit c))"
  using assms by (simp add: is_digit_def)

lemma of_nat_le_div:
  assumes "2 \<le> b" "b \<le> 36" "v < 2 ^ 64"
  shows "(of_nat v :: u64) \<le> mx div of_int b \<longleftrightarrow> v \<le> unat mx div nat b"
  using assms by (simp add: word_le_nat_alt base_word unat_of_nat take_bit_nat_eq_self)

lemma ullfstr_loop_accepts:
  assumes "2 \<le> b" "b \<le> 36" "v < 2 ^ 64" "ds = takeWhile (is_digit b) s"
    and "horner b v ds div nat b \<le> unat mx div nat b"
  shows "ullfstr_loop b mx s (of_nat v) cnt =
    (DDS_RETCODE_OK, of_nat (horner b v ds), cnt + length ds)"
  using assms(3-)
proof (induction s arbitrary: v cnt ds)
  case (Cons c s)
  show ?case
  proof (cases "is_digit b c")
    case False
    with Cons.prems show ?thesis by (auto simp: Let_def is_digit_def)
  next
    case True
    let ?v = "v * nat b + nat (ddsrt_todigit c)"
    have ds: "ds = c # takeWhile (is_digit b) s" using True Cons.prems(2) by simp
    have all: "\<forall>x\<in>set (c # takeWhile (is_digit b) s). is_digit b x"
      using True by (auto dest: set_takeWhileD)
    have le: "v \<le> unat mx div nat b"
      by (rule horner_prefix_le [OF assms(1) all]) (use Cons.prems(3) ds in simp)
    have "ullfstr_loop b mx (c # s) (of_nat v) cnt = ullfstr_loop b mx s (of_nat ?v) (cnt + 1)"
      using True le of_nat_le_div [OF assms(1,2) Cons.prems(1)]
      by (simp only: ullfstr_loop.simps Let_def step_word [OF assms(1,2) True, symmetric])
        (auto simp: is_digit_def)
    also have "\<dots> = (DDS_RETCODE_OK, of_nat (horner b v ds), cnt + length ds)"
    proof (cases "takeWhile (is_digit b) s")
      case Nil
      then have "ullfstr_loop b mx s (of_nat ?v) (cnt + 1) = (DDS_RETCODE_OK, of_nat ?v, cnt + 1)"
        by (cases s) (auto simp: Let_def is_digit_def split: if_splits)
      then show ?thesis by (simp add: ds Nil)
    next
      case (Cons d ds')
      have "?v \<le> unat mx div nat b"
        by (rule horner_prefix_le [OF assms(1), of d ds'])
          (use all Cons.prems(3) in \<open>simp_all add: ds Cons\<close>)
      also have "\<dots> \<le> unat mx" by simp
      also have "\<dots> < 2 ^ 64" by (rule u64_less)
      finally show ?thesis using Cons.IH [of ?v _ "cnt + 1"] Cons.prems(3) by (simp add: ds)
    qed
    finally show ?thesis .
  qed
qed simp

text \<open>
  A bound that leaves room for one more digit makes the test exact: the total cannot wrap. The
  bounds of \<open>ddsrt_strtoll\<close> are of this kind, \<open>UINT64_MAX\<close> is not.
\<close>

lemma ullfstr_loop_rejects:
  assumes "2 \<le> b" "b \<le> 36" "unat mx + 36 < 2 ^ 64" "v < 2 ^ 64"
    and "takeWhile (is_digit b) s \<noteq> []"
    and "unat mx div nat b < horner b v (takeWhile (is_digit b) s) div nat b"
  shows "\<exists>n < cnt + length (takeWhile (is_digit b) s).
    ullfstr_loop b mx s (of_nat v) cnt = (DDS_RETCODE_OUT_OF_RANGE, mx, n)"
  using assms(4-)
proof (induction s arbitrary: v cnt)
  case (Cons c s)
  then have c: "is_digit b c" by (simp split: if_splits)
  let ?v = "v * nat b + nat (ddsrt_todigit c)"
  let ?ds = "takeWhile (is_digit b) s"
  have dig: "nat (ddsrt_todigit c) < nat b" using c by (auto simp: is_digit_def)
  show ?case
  proof (cases "v \<le> unat mx div nat b")
    case False
    then show ?thesis using c of_nat_le_div [OF assms(1,2) Cons.prems(1)]
      by (auto simp: Let_def is_digit_def)
  next
    case True
    then have "v * nat b \<le> unat mx" using assms(1) by (simp add: less_eq_div_iff_mult_less_eq)
    then have small: "?v < 2 ^ 64" using dig assms(2,3) by linarith
    have "?v div nat b = v" using dig by simp
    then have ne: "?ds \<noteq> []" using Cons.prems(3) c True by (auto simp del: div_mult_self3)
    have "ullfstr_loop b mx (c # s) (of_nat v) cnt = ullfstr_loop b mx s (of_nat ?v) (cnt + 1)"
      using c True of_nat_le_div [OF assms(1,2) Cons.prems(1)]
      by (simp only: ullfstr_loop.simps Let_def step_word [OF assms(1,2) c, symmetric])
        (auto simp: is_digit_def)
    moreover have "unat mx div nat b < horner b ?v ?ds div nat b" using Cons.prems(3) c by simp
    ultimately show ?thesis using Cons.IH [OF small ne, of "cnt + 1"] c by simp
  qed
qed simp

lemma ullfstr_base_range: "ullfstr_base s base = Some (b, p) \<Longrightarrow> 2 \<le> b \<and> b \<le> 36"
  by (auto simp: ullfstr_base_def split: if_splits)

lemma ullfstr_accepts:
  assumes "ullfstr_base s base = Some (b, p)"
    and "digits_value b (drop p s) div nat b \<le> unat mx div nat b"
  shows "ullfstr s base mx = (DDS_RETCODE_OK,
    Some (of_nat (digits_value b (drop p s)), p + length (takeWhile (is_digit b) (drop p s))))"
  using ullfstr_loop_accepts [of b 0 _ "drop p s" mx p] ullfstr_base_range [OF assms(1)] assms
  by (simp add: ullfstr_def digits_value_def)

lemma ullfstr_rejects:
  assumes "ullfstr_base s base = Some (b, p)" "unat mx + 36 < 2 ^ 64"
    and "unat mx div nat b < digits_value b (drop p s) div nat b"
  shows "\<exists>n. ullfstr s base mx = (DDS_RETCODE_OUT_OF_RANGE, Some (mx, n))"
proof -
  have "takeWhile (is_digit b) (drop p s) \<noteq> []" using assms(3) by (auto simp: digits_value_def)
  with ullfstr_loop_rejects [of b mx 0 "drop p s" p] ullfstr_base_range [OF assms(1)] assms
  obtain n where "ullfstr_loop b mx (drop p s) 0 p = (DDS_RETCODE_OUT_OF_RANGE, mx, n)"
    by (auto simp: digits_value_def)
  with assms(1) show ?thesis by (simp add: ullfstr_def)
qed

text \<open>The limit of \<open>ddsrt_strtoll\<close> for a sign, and the signed value.\<close>

definition ll_limit :: "bool \<Rightarrow> nat" where
  "ll_limit neg = (if neg then 2 ^ 63 else 2 ^ 63 - 1)"

definition signed_value :: "bool \<Rightarrow> nat \<Rightarrow> int" where
  "signed_value neg v = (if neg then - int v else int v)"

lemma ll_bounds: "unat (INT64_MAX + 1) = 2 ^ 63" "unat INT64_MAX = 2 ^ 63 - 1"
  by (simp_all add: INT64_MAX_def)

lemma sint_signed_value:
  "v \<le> ll_limit neg \<Longrightarrow> sint (of_int (signed_value neg v) :: 64 word) = signed_value neg v"
  by (simp add: sint_sbintrunc' signed_value_def ll_limit_def signed_take_bit_int_eq_self split: if_splits)

lemma strtoll_accepts:
  assumes "skip_sign str = (k, neg)" "ullfstr_base (drop k str) base = Some (b, p)"
    and "digits_value b (drop (p + k) str) = v" "v div nat b \<le> ll_limit neg div nat b"
  shows "ddsrt_strtoll str base = (DDS_RETCODE_OK, Some (of_int (signed_value neg v),
    let l = p + length (takeWhile (is_digit b) (drop (p + k) str)) in if l = 0 then 0 else k + l))"
proof -
  have "unat (if neg then INT64_MAX + 1 else INT64_MAX) = ll_limit neg" by (simp add: ll_limit_def ll_bounds)
  with ullfstr_accepts [OF assms(2), of "if neg then INT64_MAX + 1 else INT64_MAX"] assms
  show ?thesis by (auto simp: ddsrt_strtoll_def signed_value_def Let_def)
qed

text \<open>C13: \<open>ddsrt_strtoll\<close> on every string with a valid base: a value within the limits of \<open>long long\<close> is
  returned exactly; one whose quotient by the base exceeds that of the limit is refused with the
  limit as result. What lies between, at most 35 values beyond the limit, is accepted and wraps.\<close>

theorem strtoll_exact:
  assumes "skip_sign str = (k, neg)" "ullfstr_base (drop k str) base = Some (b, p)"
    and "digits_value b (drop (p + k) str) = v"
    and "ddsrt_strtoll str base = (rc, Some (w, n))"
  shows "(v div nat b \<le> ll_limit neg div nat b \<longrightarrow>
        rc = DDS_RETCODE_OK \<and> w = of_int (signed_value neg v)
        \<and> n = (let l = p + length (takeWhile (is_digit b) (drop (p + k) str)) in if l = 0 then 0 else k + l))
    \<and> (v div nat b > ll_limit neg div nat b \<longrightarrow>
        rc = DDS_RETCODE_OUT_OF_RANGE \<and> sint w = signed_value neg (ll_limit neg))
    \<and> (v \<le> ll_limit neg \<longrightarrow> rc = DDS_RETCODE_OK \<and> sint w = signed_value neg v)"
proof -
  define mx where "mx = (if neg then INT64_MAX + 1 else INT64_MAX)"
  have mx: "unat mx = ll_limit neg" by (simp add: mx_def ll_limit_def ll_bounds)
  have st: "ddsrt_strtoll str base = (case ullfstr (drop k str) base mx of (rc, None) \<Rightarrow> (rc, None)
      | (rc, Some (u, n)) \<Rightarrow> (rc, Some ((if neg then - 1 else 1) * u, if n = 0 then 0 else k + n)))"
    by (simp add: ddsrt_strtoll_def assms(1) mx_def)
  have acc: "rc = DDS_RETCODE_OK \<and> w = of_int (signed_value neg v)
        \<and> n = (let l = p + length (takeWhile (is_digit b) (drop (p + k) str)) in if l = 0 then 0 else k + l)"
    if "v div nat b \<le> ll_limit neg div nat b"
    using strtoll_accepts [OF assms(1-3) that] assms(4) by simp
  have rej: "rc = DDS_RETCODE_OUT_OF_RANGE \<and> sint w = signed_value neg (ll_limit neg)"
    if "v div nat b > ll_limit neg div nat b"
  proof -
    have "unat mx + 36 < 2 ^ 64" by (simp add: mx ll_limit_def)
    from ullfstr_rejects [OF assms(2) this] that assms(3,4)
    have "rc = DDS_RETCODE_OUT_OF_RANGE" "w = (if neg then - mx else mx)" by (auto simp: st mx)
    then show ?thesis by (simp add: mx_def signed_value_def ll_limit_def INT64_MAX_def)
  qed
  have exact: "rc = DDS_RETCODE_OK \<and> sint w = signed_value neg v" if "v \<le> ll_limit neg"
    using acc [OF div_le_mono [OF that]] sint_signed_value [OF that] by simp
  show ?thesis using acc rej exact by blast
qed

lemmas strtol_eval = ddsrt_strtoll_def ddsrt_strtoull_def skip_sign_def isspace_def char_at_def ullfstr_def
  ullfstr_base_def ddsrt_todigit_def retcodes INT64_MAX_def UINT64_MAX_def Let_def

lemma strtoll_exact_witness:
  "\<exists>w. ddsrt_strtoll '' -80000'' 10 = (DDS_RETCODE_OK, Some (w, 7)) \<and> sint w = - 80000"
proof -
  have "skip_sign '' -80000'' = (2, True)" by (simp add: strtol_eval)
  moreover have "ullfstr_base (drop 2 '' -80000'') 10 = Some (10, 0)" by (simp add: strtol_eval)
  moreover have "digits_value 10 (drop (0 + 2) '' -80000'') = 80000"
    by (simp add: digits_value_def is_digit_def strtol_eval)
  moreover have run: "ddsrt_strtoll '' -80000'' 10 = (0, Some (- 80000, 7))" by (simp add: strtol_eval)
  moreover have "80000 \<le> ll_limit True" by (simp add: ll_limit_def)
  ultimately have "(0::int) = DDS_RETCODE_OK \<and> sint (- 80000 :: 64 word) = signed_value True 80000"
    by (metis strtoll_exact)
  with run show ?thesis by (auto simp: signed_value_def)
qed

text \<open>the overflow test of \<open>ullfstr\<close> looks at the total before the digit is added, so a value up to
  35 above \<open>UINT64_MAX\<close> wraps to a small number without an error, and so do the digits after it.\<close>

theorem strtoull_overflow_accepted:
  "ddsrt_strtoull ''18446744073709551616'' 10 = (DDS_RETCODE_OK, Some (0, 20))
   \<and> ddsrt_strtoull ''184467440737095516171'' 10 = (DDS_RETCODE_OK, Some (11, 21))
   \<and> ddsrt_strtoll ''9223372036854775808'' 10 = (DDS_RETCODE_OK, Some (- (2 ^ 63), 19))"
  by (simp add: strtol_eval)

section \<open>Printing: the leading digits, and the round trip\<close>

text \<open>Decimal notation, most significant digit first.\<close>

fun decimal :: "nat \<Rightarrow> string" where
  "decimal n = (if n < 10 then [digit_char n] else decimal (n div 10) @ [digit_char (n mod 10)])"

declare decimal.simps [simp del]

lemma decimal_nonempty: "1 \<le> length (decimal n)"
  by (subst decimal.simps) simp

lemma decimal_step: "0 < n div 10 \<Longrightarrow> decimal n = decimal (n div 10) @ [digit_char (n mod 10)]"
  by (subst decimal.simps) (auto simp: div_eq_0_iff)

lemma decimal_last: "n div 10 = 0 \<Longrightarrow> decimal n = [digit_char (n mod 10)]"
  by (subst decimal.simps) (auto simp: div_eq_0_iff)

lemma shift_down_take:
  "tot < length s \<Longrightarrow> length (shift_down tot s) = length s \<and> take tot (shift_down tot s) = drop 1 (take (tot + 1) s)
    \<and> drop tot (shift_down tot s) = drop tot s"
proof (induction tot)
  case (Suc tot)
  let ?s = "shift_down tot s"
  have s: "shift_down (Suc tot) s = ?s[tot := ?s ! (tot + 1)]" by (simp add: shift_down_def)
  have IH: "length ?s = length s" "take tot ?s = drop 1 (take (tot + 1) s)" "drop tot ?s = drop tot s"
    using Suc by simp_all
  have "?s ! (tot + 1) = drop tot ?s ! 1" by (rule nth_drop [symmetric]) (use Suc.prems IH(1) in simp)
  also have "\<dots> = s ! (tot + 1)" unfolding IH(3) by (rule nth_drop) (use Suc.prems in simp)
  finally have nth: "?s ! (tot + 1) = s ! (tot + 1)" .
  have "take (Suc tot) (shift_down (Suc tot) s) = take tot ?s @ [s ! (tot + 1)]"
    using Suc.prems IH(1) by (simp add: s nth [simplified] take_Suc_conv_app_nth)
  also have "\<dots> = drop 1 (take (tot + 1) s @ [s ! (tot + 1)])"
    unfolding IH(2) using Suc.prems by (cases "take (tot + 1) s") auto
  also have "take (tot + 1) s @ [s ! (tot + 1)] = take (Suc tot + 1) s"
    using take_Suc_conv_app_nth [of "tot + 1" s] Suc.prems by simp
  finally have "take (Suc tot) (shift_down (Suc tot) s) = drop 1 (take (Suc tot + 1) s)" .
  moreover have "drop 1 (drop tot ?s) = drop 1 (drop tot s)" by (simp only: IH(3))
  then have "drop (Suc tot) (shift_down (Suc tot) s) = drop (Suc tot) s" by (simp add: s)
  ultimately show ?case using IH(1) by (simp add: s)
qed (simp add: shift_down_def)

text \<open>The loop invariant: the characters written so far are the lowest digits kept, in reverse.\<close>

lemma ulltostr_loop_spec:
  assumes "tot < lim" "lim < length str" "ulltostr_loop num lim tot str = (tot', str')"
  shows "length str' = length str \<and> tot' < lim
    \<and> take (tot' + 1) str' = rev (take lim (decimal (unat num) @ rev (take tot str)))"
  using assms
proof (induction num lim tot str rule: ulltostr_loop.induct)
  case (1 num lim tot str)
  let ?c = "digit_char (unat (num mod 10))"
  let ?s = "str[tot := ?c]"
  have u: "unat (num div 10) = unat num div 10" "unat (num mod 10) = unat num mod 10"
    by (simp_all add: unat_div unat_mod)
  have t: "take (tot + 1) ?s = take tot str @ [?c]" "length (take tot str) = tot"
    using "1.prems" by (simp_all add: take_Suc_conv_app_nth)
  show ?case
  proof (cases "0 < num div 10")
    case False
    then have "unat num div 10 = 0" using u by (simp add: word_less_nat_alt)
    with False "1.prems" t show ?thesis
      by (auto simp: ulltostr_loop.simps [of num] Let_def decimal_last u)
  next
    case True
    then have d: "decimal (unat num) = decimal (unat (num div 10)) @ [?c]"
      using u decimal_step by (simp add: word_less_nat_alt)
    show ?thesis
    proof (cases "tot = lim - 1")
      case False
      then show ?thesis using "1.IH"(2) [OF refl refl True False] "1.prems" True t
        by (simp add: ulltostr_loop.simps [of num] Let_def d)
    next
      case full: True
      let ?sh = "shift_down tot ?s"
      have sh: "length ?sh = length str" "take tot ?sh = drop 1 (take tot str @ [?c])"
        using shift_down_take [of tot ?s] "1.prems" t by simp_all
      let ?d = "decimal (unat (num div 10))"
      have trim: "take lim (?d @ rev (drop 1 xs)) = take lim (?d @ rev xs)" if "length xs = lim" for xs
        using that decimal_nonempty [of "unat (num div 10)"] by (cases xs) auto
      have "take lim (?d @ rev (take tot ?sh)) = take lim (?d @ rev (take tot str @ [?c]))"
        unfolding sh(2) by (rule trim) (use full "1.prems" in simp)
      then have eq: "take lim (?d @ rev (take tot ?sh)) = take lim (decimal (unat num) @ rev (take tot str))"
        by (simp add: d)
      have "ulltostr_loop (num div 10) lim tot ?sh = (tot', str')"
        using "1.prems"(3) True full by (simp add: ulltostr_loop.simps [of num] Let_def)
      from "1.IH"(1) [OF refl refl True full "1.prems"(1) _ this] "1.prems"(2) show ?thesis
        by (simp only: sh(1) eq)
    qed
  qed
qed

lemma swap_ends_nth:
  assumes "cnt \<le> tot" "tot < length str" "i < length str"
  shows "length (swap_ends tot cnt str) = length str
    \<and> swap_ends tot cnt str ! i = (if cnt \<le> i \<and> i \<le> tot - cnt then str ! (tot - i) else str ! i)"
  using assms
proof (induction tot cnt str rule: swap_ends.induct)
  case (1 tot cnt str)
  show ?case
  proof (cases "cnt < tot - cnt")
    case True
    then show ?thesis using "1.IH" [OF True] "1.prems"
      by (subst (1 2) swap_ends.simps) (auto simp: nth_list_update)
  next
    case False
    then have "tot - i = i" if "cnt \<le> i" "i \<le> tot - cnt" using that "1.prems" by linarith
    with False show ?thesis by (subst (1 2) swap_ends.simps) auto
  qed
qed

lemma swap_ends_rev:
  assumes "tot < length str"
  shows "length (swap_ends tot 0 str) = length str \<and> take (tot + 1) (swap_ends tot 0 str) = rev (take (tot + 1) str)"
proof -
  have l: "length (swap_ends tot 0 str) = length str" using swap_ends_nth [of 0 tot str tot] assms by simp
  moreover have "take (tot + 1) (swap_ends tot 0 str) = rev (take (tot + 1) str)"
  proof (rule nth_equalityI)
    fix i assume "i < length (take (tot + 1) (swap_ends tot 0 str))"
    then show "take (tot + 1) (swap_ends tot 0 str) ! i = rev (take (tot + 1) str) ! i"
      using swap_ends_nth [of 0 tot str i] assms l by (simp add: rev_nth)
  qed (use l assms in simp)
  ultimately show ?thesis by blast
qed

lemma ulltostr_take:
  assumes "1 < length str"
  obtains str' where "ddsrt_ulltostr num str = Some (str', length (take (length str - 1) (decimal (unat num))))"
    "length str' = length str"
    "take (length (take (length str - 1) (decimal (unat num))) + 1) str'
       = take (length str - 1) (decimal (unat num)) @ [CHR 0x00]"
proof -
  obtain tot s where l: "ulltostr_loop num (length str - 1) 0 str = (tot, s)" by fastforce
  have sp: "length s = length str \<and> tot < length str - 1
      \<and> take (tot + 1) s = rev (take (length str - 1) (decimal (unat num)))"
    using ulltostr_loop_spec [OF _ _ l] assms by simp
  let ?r = "swap_ends tot 0 s"
  have r: "length ?r = length str" "take (tot + 1) ?r = take (length str - 1) (decimal (unat num))"
    using swap_ends_rev [of tot s] sp by auto
  have "length (take (tot + 1) ?r) = tot + 1" unfolding length_take r(1) using sp by linarith
  then have n: "length (take (length str - 1) (decimal (unat num))) = tot + 1" by (simp only: r(2))
  show thesis
  proof (rule that [of "?r[tot + 1 := CHR 0x00]"])
    show "ddsrt_ulltostr num str = Some (?r[tot + 1 := CHR 0x00], length (take (length str - 1) (decimal (unat num))))"
      unfolding n using assms l by (auto simp: ddsrt_ulltostr_def)
    show "take (length (take (length str - 1) (decimal (unat num))) + 1) (?r[tot + 1 := CHR 0x00])
        = take (length str - 1) (decimal (unat num)) @ [CHR 0x00]"
      unfolding n using sp r less_diff_conv [of tot "length str" 1] take_Suc_conv_app_nth [of "Suc tot" "?r[tot + 1 := CHR 0x00]"] by simp
  qed (simp add: r)
qed

text \<open>\<open>ddsrt_ulltostr\<close> on a buffer of at least two characters writes the decimal digits of the number
  followed by NUL, keeping the most significant ones when the buffer is too small, leaves the
  buffer's length alone and returns the position of the NUL.\<close>

theorem ulltostr_prints:
  assumes "1 < length str" and "ddsrt_ulltostr num str = Some (str', n)"
  shows "length str' = length str
    \<and> take (n + 1) str' = take (length str - 1) (decimal (unat num)) @ [CHR 0x00]"
proof -
  from ulltostr_take [OF assms(1), of num] obtain s where
    "ddsrt_ulltostr num str = Some (s, length (take (length str - 1) (decimal (unat num))))"
    "length s = length str"
    "take (length (take (length str - 1) (decimal (unat num))) + 1) s
       = take (length str - 1) (decimal (unat num)) @ [CHR 0x00]" by blast
  with assms(2) show ?thesis by simp
qed

lemma ulltostr_prints_witness:
  "\<exists>s n. ddsrt_ulltostr 1234 ''abcd'' = Some (s, n) \<and> take (n + 1) s = ''123'' @ [CHR 0x00]"
proof -
  have "ddsrt_ulltostr 1234 ''abcd'' \<noteq> None" by (simp add: ddsrt_ulltostr_def split: prod.splits)
  then obtain s n where r: "ddsrt_ulltostr 1234 ''abcd'' = Some (s, n)" by auto
  have "decimal 1234 = ''1234''" by code_simp
  with ulltostr_prints [OF _ r] r show ?thesis by simp
qed

text \<open>The string a buffer holds.\<close>

definition cstr :: "string \<Rightarrow> string" where
  "cstr buf = takeWhile (\<lambda>c. c \<noteq> CHR 0x00) buf"

lemma todigit_digit_char [simp]: "d < 10 \<Longrightarrow> ddsrt_todigit (digit_char d) = int d"
  by (simp add: ddsrt_todigit_def digit_char_def)

lemma decimal_digits: "c \<in> set (decimal n) \<Longrightarrow> \<exists>d<10. c = digit_char d"
proof (induction n rule: decimal.induct)
  case (1 n)
  show ?case
  proof (cases "n < 10")
    case True
    with "1.prems" have "c = digit_char n" by (subst (asm) decimal.simps) simp
    with True show ?thesis by blast
  next
    case False
    with "1.prems" have "c \<in> set (decimal (n div 10)) \<or> c = digit_char (n mod 10)"
      by (subst (asm) decimal.simps) auto
    then show ?thesis using "1.IH" [OF False] by (auto intro: exI [of _ "n mod 10"])
  qed
qed

lemma digit_char_props:
  "d < 10 \<Longrightarrow> is_digit 10 (digit_char d)"
  "d < 10 \<Longrightarrow> \<not> isspace (digit_char d) \<and> digit_char d \<noteq> CHR ''-'' \<and> digit_char d \<noteq> CHR ''+'' \<and> digit_char d \<noteq> CHR 0x00"
proof -
  show "is_digit 10 (digit_char d)" if "d < 10" using that by (simp add: is_digit_def)
  assume d: "d < 10"
  then have n: "of_char (digit_char d) = 48 + d" by (simp add: digit_char_def)
  have "digit_char d \<noteq> c" if "of_char c \<noteq> 48 + d" for c using n that by auto
  then show "\<not> isspace (digit_char d) \<and> digit_char d \<noteq> CHR ''-'' \<and> digit_char d \<noteq> CHR ''+'' \<and> digit_char d \<noteq> CHR 0x00"
    using d n by (simp add: isspace_def)
qed

lemma decimal_all: "\<forall>c\<in>set (decimal n). is_digit 10 c"
  using decimal_digits digit_char_props(1) by blast

lemma decimal_value: "horner 10 0 (decimal n) = n"
proof (induction n rule: decimal.induct)
  case (1 n)
  then show ?case by (cases "n < 10") (subst decimal.simps, simp add: horner_append)+
qed

lemma decimal_length: "0 < k \<Longrightarrow> n < 10 ^ k \<Longrightarrow> length (decimal n) \<le> k"
proof (induction k arbitrary: n)
  case (Suc k)
  show ?case
  proof (cases "n < 10")
    case True
    then show ?thesis by (subst decimal.simps) simp
  next
    case False
    then have "0 < k" using Suc.prems by (cases k) auto
    moreover have "n div 10 < 10 ^ k" using Suc.prems by (simp add: div_less_iff_less_mult)
    ultimately show ?thesis using Suc.IH False by (subst decimal.simps) simp
  qed
qed simp

lemma takeWhile_decimal: "takeWhile (is_digit 10) (decimal n) = decimal n"
  using decimal_all by (simp add: takeWhile_eq_all_conv)

lemma decimal_value': "digits_value 10 (decimal n) = n"
  by (simp add: digits_value_def takeWhile_decimal decimal_value)

lemma skip_sign_decimal: "skip_sign (decimal n) = (0, False)"
proof -
  obtain c cs where d: "decimal n = c # cs" using decimal_nonempty [of n] by (cases "decimal n") auto
  then obtain k where "k < 10" "c = digit_char k" using decimal_digits [of c n] by auto
  with d digit_char_props(2) [of k] show ?thesis by (simp add: skip_sign_def char_at_def)
qed

lemma skip_sign_minus: "skip_sign (CHR ''-'' # s) = (1, True)"
  by (simp add: skip_sign_def isspace_def char_at_def)

lemma base10 [simp]: "ullfstr_base s 10 = Some (10, 0)"
  by (simp add: ullfstr_base_def)

lemma cstr_minus: "cstr (CHR ''-'' # b) = CHR ''-'' # cstr b"
  by (simp add: cstr_def)

lemma decimal_no_nul: "c \<in> set (decimal n) \<Longrightarrow> c \<noteq> CHR 0x00"
  using decimal_digits [of c n] digit_char_props(2) by auto

lemma cstr_append_nul: "cstr (decimal n @ CHR 0x00 # cs) = decimal n"
  using decimal_no_nul by (auto simp: cstr_def takeWhile_append)

lemma cstr_decimal:
  assumes "take (length (decimal n) + 1) b = decimal n @ [CHR 0x00]"
  shows "cstr b = decimal n"
proof -
  have "b = decimal n @ CHR 0x00 # drop (length (decimal n) + 1) b"
    using append_take_drop_id [of "length (decimal n) + 1" b] unfolding assms by simp
  then have "cstr b = cstr (decimal n @ CHR 0x00 # drop (length (decimal n) + 1) b)" by (rule arg_cong)
  then show ?thesis by (simp only: cstr_append_nul)
qed

lemma ulltostr_fits:
  assumes "unat num < 10 ^ k" "0 < k" "k < length buf" "ddsrt_ulltostr num buf = Some (b, n)"
  shows "cstr b = decimal (unat num) \<and> n = length (decimal (unat num))"
proof -
  have fits: "take (length buf - 1) (decimal (unat num)) = decimal (unat num)"
    using decimal_length [OF assms(2,1)] assms(3) by simp
  have "1 < length buf" using assms by linarith
  from ulltostr_take [OF this, of num, unfolded fits] assms(4) cstr_decimal show ?thesis by auto
qed

lemma digits_minus [simp]: "digits_value 10 (CHR ''-'' # s) = 0"
  by (simp add: digits_value_def is_digit_def ddsrt_todigit_def)

lemma sless_0_iff: "num <s 0 \<longleftrightarrow> 2 ^ 63 \<le> unat num" for num :: u64
proof -
  define n where "n = uint num"
  have n: "0 \<le> n" "n < 2 ^ 64" "unat num = nat n"
    using unsigned_less [of num, where ?'a = int] by (simp_all add: n_def)
  have s: "sint num = (n + 2 ^ 63) mod 2 ^ 64 - 2 ^ 63"
    using int_word_sint [of n, where ?'a = 64] by (simp add: n_def)
  show ?thesis
  proof (cases "n < 2 ^ 63")
    case True
    then have "(n + 2 ^ 63) mod 2 ^ 64 = n + 2 ^ 63" using n by (intro mod_pos_pos_trivial) auto
    with True n show ?thesis by (simp add: word_sless_alt s)
  next
    case False
    have "(n + 2 ^ 63) mod 2 ^ 64 = (n - 2 ^ 63 + 2 ^ 64) mod 2 ^ 64" by (rule arg_cong) simp
    also have "\<dots> = n - 2 ^ 63" using False n by (simp only: mod_add_self2) (rule mod_pos_pos_trivial, auto)
    finally show ?thesis using False n by (simp add: word_sless_alt s nat_le_eq_zle [of "2 ^ 63" n, simplified])
  qed
qed

text \<open>C14: What \<open>ddsrt_ulltostr\<close> and \<open>ddsrt_lltostr\<close> print into a buffer that is large enough,
  \<open>ddsrt_strtoull\<close> and \<open>ddsrt_strtoll\<close> read back, to the last character: every \<open>uint64_t\<close> and
  every \<open>int64_t\<close>, \<open>INT64_MIN\<close> included.\<close>

theorem number_roundtrip:
  assumes "21 \<le> length buf"
  shows "\<exists>b n b' n'. ddsrt_ulltostr num buf = Some (b, n) \<and> ddsrt_strtoull (cstr b) 10 = (DDS_RETCODE_OK, Some (num, n))
    \<and> ddsrt_lltostr num buf = Some (b', n') \<and> ddsrt_strtoll (cstr b') 10 = (DDS_RETCODE_OK, Some (num, n'))"
proof -
  have len: "1 < length buf" "1 < length (drop 1 buf)" "20 < length buf" "19 < length buf" "19 < length (drop 1 buf)"
    using assms by simp_all
  have ex: "\<exists>b n. ddsrt_ulltostr x s = Some (b, n)" if "1 < length s" for x s
    using ulltostr_take [OF that] by blast
  have pos: "decimal m \<noteq> []" for m using decimal_nonempty [of m] by auto
  from ex [OF len(1)] obtain b n where u: "ddsrt_ulltostr num buf = Some (b, n)" by blast
  have "unat num < 10 ^ 20" using u64_less [of num] by simp
  from ulltostr_fits [OF this _ len(3) u] have c: "cstr b = decimal (unat num)" "n = length (decimal (unat num))"
    by simp_all
  have "unat num div nat 10 \<le> unat UINT64_MAX div nat 10"
    using u64_less [of num] by (intro div_le_mono) (simp add: UINT64_MAX_def unsigned_minus_1_eq_mask mask_eq_exp_minus_1)
  then have up: "ddsrt_strtoull (cstr b) 10 = (DDS_RETCODE_OK, Some (num, n))"
    using ullfstr_accepts [OF base10, of "decimal (unat num)" UINT64_MAX] pos
    by (simp add: ddsrt_strtoull_def c skip_sign_decimal decimal_value' takeWhile_decimal)
  show ?thesis
  proof (cases "num <s 0")
    case False
    then have small: "unat num \<le> ll_limit False"
      by (simp add: ll_limit_def sless_0_iff)
    then have "ddsrt_strtoll (cstr b) 10 = (DDS_RETCODE_OK, Some (num, n))"
      using strtoll_accepts [OF skip_sign_decimal base10 refl, of "unat num"] pos div_le_mono [OF small, of 10]
      by (simp add: c decimal_value' takeWhile_decimal signed_value_def)
    moreover have "ddsrt_lltostr num buf = Some (b, n)" using False len(1) u by (auto simp: ddsrt_lltostr_def)
    ultimately show ?thesis using u up by blast
  next
    case True
    define m where "m = (if num = 2 ^ 63 then INT64_MAX + 1 else - num)"
    with True have "2 ^ 63 \<le> unat num" by (simp add: sless_0_iff)
    then have m: "unat m \<le> 2 ^ 63" "- m = num"
      using u64_less [of num] unat_sub_if' [of 0 num] by (auto simp: m_def INT64_MAX_def)
    from ex [OF len(2)] obtain b' n' where l: "ddsrt_ulltostr m (drop 1 buf) = Some (b', n')" by blast
    from ulltostr_fits [OF _ _ len(5) l] m(1)
    have c': "cstr b' = decimal (unat m)" "n' = length (decimal (unat m))" by simp_all
    have "ddsrt_lltostr num buf = Some (CHR ''-'' # b', n' + 1)"
      using True assms l by (auto simp: ddsrt_lltostr_def m_def)
    moreover have "ddsrt_strtoll (cstr (CHR ''-'' # b')) 10 = (DDS_RETCODE_OK, Some (num, n' + 1))"
      using strtoll_accepts [OF skip_sign_minus base10 refl, of "decimal (unat m)"] pos m
        div_le_mono [of "unat m" "2 ^ 63" 10]
      by (simp add: cstr_minus c' decimal_value' takeWhile_decimal ll_limit_def signed_value_def)
    ultimately show ?thesis using u up by blast
  qed
qed

lemma number_roundtrip_witness:
  "\<exists>b n. ddsrt_lltostr (- 42) (replicate 21 CHR ''*'') = Some (b, n)
     \<and> ddsrt_strtoll (cstr b) 10 = (DDS_RETCODE_OK, Some (- 42, n))"
  using number_roundtrip [of "replicate 21 CHR ''*''" "- 42"] by auto

end
