(* ===== verification/Handles.thy ===== *)
theory Handles
  imports Retcode
begin

unbundle bit_operations_syntax

text \<open>
  The handle server of core/ddsc/src/dds_handles.c: the table from handles to the reference
  word \<open>cnt_flags\<close> of each entity. The word holds six flags, a 14-bit reference count and a
  12-bit pin count, changed by atomic operations only; it is modelled as the 32-bit word it
  is, with every mask and every addition of the code. A link, which the C code passes as a
  pointer, is named by its handle. The compare-and-swap loops are single steps: they retry
  until no other thread interfered, so interleaved threads are interleaved steps.
\<close>

section \<open>State\<close>

definition HDL_REFCOUNT_MASK :: u32 where "HDL_REFCOUNT_MASK = 0x03fff000"
definition HDL_REFCOUNT_UNIT :: u32 where "HDL_REFCOUNT_UNIT = 0x00001000"
definition HDL_PINCOUNT_MASK :: u32 where "HDL_PINCOUNT_MASK = 0x00000fff"
definition HDL_FLAG_CLOSING :: u32 where "HDL_FLAG_CLOSING = 0x80000000"
definition HDL_FLAG_DELETE_DEFERRED :: u32 where "HDL_FLAG_DELETE_DEFERRED = 0x40000000"
definition HDL_FLAG_PENDING :: u32 where "HDL_FLAG_PENDING = 0x20000000"
definition HDL_FLAG_IMPLICIT :: u32 where "HDL_FLAG_IMPLICIT = 0x10000000"
definition HDL_FLAG_ALLOW_CHILDREN :: u32 where "HDL_FLAG_ALLOW_CHILDREN = 0x08000000"
definition HDL_FLAG_NO_USER_ACCESS :: u32 where "HDL_FLAG_NO_USER_ACCESS = 0x04000000"
definition DDS_MIN_PSEUDO_HANDLE :: int where "DDS_MIN_PSEUDO_HANDLE = 0x7fff0000"
definition MAX_HANDLES :: nat where "MAX_HANDLES = (2 ^ 31 - 1) div 128"

lemmas hdl_consts = HDL_REFCOUNT_MASK_def HDL_REFCOUNT_UNIT_def HDL_PINCOUNT_MASK_def
  HDL_FLAG_CLOSING_def HDL_FLAG_DELETE_DEFERRED_def HDL_FLAG_PENDING_def HDL_FLAG_IMPLICIT_def
  HDL_FLAG_ALLOW_CHILDREN_def HDL_FLAG_NO_USER_ACCESS_def

type_synonym dds_handle_t = int

text \<open>\<open>hs_ht\<close> is \<open>None\<close> before initialisation.\<close>

record dds_handle_server =
  hs_ht :: "(dds_handle_t \<rightharpoonup> u32) option"
  hs_count :: nat

definition dds_handle_server_init :: "dds_handle_server \<Rightarrow> dds_handle_server" where
  "dds_handle_server_init s = (if hs_ht s = None then \<lparr>hs_ht = Some Map.empty, hs_count = 0\<rparr> else s)"

definition dds_handle_server_fini :: "dds_handle_server \<Rightarrow> dds_handle_server" where
  "dds_handle_server_fini s = s\<lparr>hs_ht := None\<rparr>"

definition hs_table :: "dds_handle_server \<Rightarrow> dds_handle_t \<rightharpoonup> u32" where
  "hs_table s = (case hs_ht s of None \<Rightarrow> Map.empty | Some ht \<Rightarrow> ht)"

definition hs_set :: "dds_handle_server \<Rightarrow> dds_handle_t \<Rightarrow> u32 \<Rightarrow> dds_handle_server" where
  "hs_set s hdl cf = s\<lparr>hs_ht := Some ((hs_table s)(hdl \<mapsto> cf))\<rparr>"

section \<open>Creation and deletion\<close>

text \<open>
  The random numbers drawn are an argument; \<open>None\<close>: all of them were used up without finding a
  free handle.
\<close>

fun pick_handle :: "u32 list \<Rightarrow> (dds_handle_t \<rightharpoonup> u32) \<Rightarrow> (dds_handle_t \<times> u32 list) option" where
  "pick_handle [] ht = None"
| "pick_handle (x # xs) ht =
     (let hdl = uint (x AND 0x7fffffff) in
      if hdl = 0 \<or> hdl \<ge> DDS_MIN_PSEUDO_HANDLE \<or> ht hdl \<noteq> None then pick_handle xs ht else Some (hdl, xs))"

definition handle_flags :: "bool \<Rightarrow> bool \<Rightarrow> bool \<Rightarrow> u32" where
  "handle_flags implicit refc_counts_children user_access =
     HDL_FLAG_PENDING OR (if implicit then HDL_FLAG_IMPLICIT else HDL_REFCOUNT_UNIT)
       OR (if refc_counts_children then HDL_FLAG_ALLOW_CHILDREN else 0)
       OR (if user_access then 0 else HDL_FLAG_NO_USER_ACCESS) OR 1"

definition dds_handle_create_int ::
  "dds_handle_server \<Rightarrow> u32 list \<Rightarrow> bool \<Rightarrow> bool \<Rightarrow> bool \<Rightarrow> (dds_handle_t \<times> dds_handle_server) option" where
  "dds_handle_create_int s rnd implicit refc_counts_children user_access =
     (case pick_handle rnd (hs_table s) of
        None \<Rightarrow> None
      | Some (hdl, rnd') \<Rightarrow> Some (hdl, hs_set s hdl (handle_flags implicit refc_counts_children user_access)))"

definition dds_handle_create ::
  "dds_handle_server \<Rightarrow> u32 list \<Rightarrow> bool \<Rightarrow> bool \<Rightarrow> bool \<Rightarrow> (dds_return_t \<times> dds_handle_server) option" where
  "dds_handle_create s rnd implicit allow_children user_access =
     (if hs_count s = MAX_HANDLES then Some (DDS_RETCODE_OUT_OF_RESOURCES, s)
      else dds_handle_create_int (s\<lparr>hs_count := hs_count s + 1\<rparr>) rnd implicit allow_children user_access)"

definition dds_handle_register_special ::
  "dds_handle_server \<Rightarrow> bool \<Rightarrow> bool \<Rightarrow> dds_handle_t \<Rightarrow> dds_return_t \<times> dds_handle_server" where
  "dds_handle_register_special s implicit allow_children handle =
     (if handle \<le> 0 then (DDS_RETCODE_BAD_PARAMETER, s)
      else if hs_count s = MAX_HANDLES then (DDS_RETCODE_OUT_OF_RESOURCES, s)
      else
        (let s1 = s\<lparr>hs_count := hs_count s + 1\<rparr>;
             cf = HDL_FLAG_PENDING OR (if implicit then HDL_FLAG_IMPLICIT else HDL_REFCOUNT_UNIT)
                    OR (if allow_children then HDL_FLAG_ALLOW_CHILDREN else 0) OR 1
         in if hs_table s handle = None then (handle, hs_set s1 handle cf)
            else (DDS_RETCODE_BAD_PARAMETER, s1)))"

definition dds_handle_delete :: "dds_handle_server \<Rightarrow> dds_handle_t \<Rightarrow> dds_return_t \<times> dds_handle_server" where
  "dds_handle_delete s hdl =
     (DDS_RETCODE_OK, s\<lparr>hs_ht := Some ((hs_table s)(hdl := None)), hs_count := hs_count s - 1\<rparr>)"

section \<open>The reference word\<close>

text \<open>Condition on which a waiting \<open>dds_handle_close_wait\<close> is woken up.\<close>

definition only_closer :: "u32 \<Rightarrow> bool" where
  "only_closer cf \<longleftrightarrow> cf AND (HDL_FLAG_CLOSING OR HDL_PINCOUNT_MASK) = (HDL_FLAG_CLOSING OR 1)"

definition pin_refused :: "u32 \<Rightarrow> bool \<Rightarrow> bool" where
  "pin_refused cf from_user \<longleftrightarrow>
     cf AND (HDL_FLAG_CLOSING OR HDL_FLAG_PENDING OR HDL_FLAG_NO_USER_ACCESS) \<noteq> 0
     \<and> (cf AND (HDL_FLAG_CLOSING OR HDL_FLAG_PENDING) \<noteq> 0 \<or> from_user)"

definition dds_handle_pin_int ::
  "dds_handle_server \<Rightarrow> dds_handle_t \<Rightarrow> u32 \<Rightarrow> bool \<Rightarrow> dds_return_t \<times> dds_handle_server" where
  "dds_handle_pin_int s hdl delta from_user =
     (case hs_ht s of
        None \<Rightarrow> (DDS_RETCODE_PRECONDITION_NOT_MET, s)
      | Some ht \<Rightarrow>
          (case ht hdl of
             None \<Rightarrow> (DDS_RETCODE_BAD_PARAMETER, s)
           | Some cf \<Rightarrow>
               if pin_refused cf from_user then (DDS_RETCODE_BAD_PARAMETER, s)
               else (DDS_RETCODE_OK, hs_set s hdl (cf + delta))))"

definition dds_handle_pin :: "dds_handle_server \<Rightarrow> dds_handle_t \<Rightarrow> dds_return_t \<times> dds_handle_server" where
  "dds_handle_pin s hdl = dds_handle_pin_int s hdl 1 True"

definition dds_handle_pin_with_origin ::
  "dds_handle_server \<Rightarrow> dds_handle_t \<Rightarrow> bool \<Rightarrow> dds_return_t \<times> dds_handle_server" where
  "dds_handle_pin_with_origin s hdl from_user = dds_handle_pin_int s hdl 1 from_user"

definition dds_handle_pin_and_ref_with_origin ::
  "dds_handle_server \<Rightarrow> dds_handle_t \<Rightarrow> bool \<Rightarrow> dds_return_t \<times> dds_handle_server" where
  "dds_handle_pin_and_ref_with_origin s hdl from_user = dds_handle_pin_int s hdl (HDL_REFCOUNT_UNIT + 1) from_user"

text \<open>The loop body of \<open>dds_handle_pin_for_delete\<close>; \<open>Inl\<close>: refused, \<open>Inr\<close>: the new word.\<close>

definition delete_word :: "u32 \<Rightarrow> bool \<Rightarrow> bool \<Rightarrow> dds_return_t + u32" where
  "delete_word cf explicit from_user =
     (if from_user \<and> cf AND HDL_FLAG_NO_USER_ACCESS \<noteq> 0 then Inl DDS_RETCODE_BAD_PARAMETER
      else if cf AND (HDL_FLAG_CLOSING OR HDL_FLAG_PENDING) \<noteq> 0 then Inl DDS_RETCODE_BAD_PARAMETER
      else if cf AND HDL_FLAG_DELETE_DEFERRED \<noteq> 0 then
        (if cf AND HDL_REFCOUNT_MASK \<noteq> 0 then Inl DDS_RETCODE_ALREADY_DELETED
         else Inr ((cf + 1) OR HDL_FLAG_CLOSING))
      else if explicit then
        (if cf AND HDL_FLAG_IMPLICIT \<noteq> 0 then Inr ((cf + 1) OR HDL_FLAG_CLOSING)
         else if cf AND HDL_REFCOUNT_MASK = HDL_REFCOUNT_UNIT then
           Inr ((cf - HDL_REFCOUNT_UNIT + 1) OR HDL_FLAG_CLOSING)
         else if cf AND HDL_FLAG_ALLOW_CHILDREN = 0 then
           Inr ((cf - HDL_REFCOUNT_UNIT) OR HDL_FLAG_DELETE_DEFERRED)
         else Inr ((cf - HDL_REFCOUNT_UNIT + 1) OR HDL_FLAG_CLOSING))
      else
        (if cf AND HDL_FLAG_IMPLICIT \<noteq> 0 then
           (if cf AND HDL_REFCOUNT_MASK = HDL_REFCOUNT_UNIT then
              Inr ((cf - HDL_REFCOUNT_UNIT + 1) OR HDL_FLAG_CLOSING)
            else if cf AND HDL_FLAG_ALLOW_CHILDREN = 0 then
              Inr ((cf - HDL_REFCOUNT_UNIT) OR HDL_FLAG_DELETE_DEFERRED)
            else Inr (cf - HDL_REFCOUNT_UNIT))
         else Inl DDS_RETCODE_ILLEGAL_OPERATION))"

definition dds_handle_pin_for_delete ::
  "dds_handle_server \<Rightarrow> dds_handle_t \<Rightarrow> bool \<Rightarrow> bool \<Rightarrow> dds_return_t \<times> dds_handle_server" where
  "dds_handle_pin_for_delete s hdl explicit from_user =
     (case hs_ht s of
        None \<Rightarrow> (DDS_RETCODE_PRECONDITION_NOT_MET, s)
      | Some ht \<Rightarrow>
          (case ht hdl of
             None \<Rightarrow> (DDS_RETCODE_BAD_PARAMETER, s)
           | Some cf \<Rightarrow>
               (case delete_word cf explicit from_user of
                  Inl rc \<Rightarrow> (rc, s)
                | Inr cf1 \<Rightarrow>
                    (if cf1 AND HDL_REFCOUNT_MASK = 0 \<or> cf1 AND HDL_FLAG_ALLOW_CHILDREN \<noteq> 0
                     then DDS_RETCODE_OK else DDS_RETCODE_TRY_AGAIN, hs_set s hdl cf1))))"

text \<open>The operations on a link; a second component says whether the waiter is woken up.\<close>

definition dds_handle_drop_childref_and_pin :: "u32 \<Rightarrow> bool \<Rightarrow> bool \<times> u32" where
  "dds_handle_drop_childref_and_pin cf may_delete_parent =
     (if cf AND (HDL_FLAG_CLOSING OR HDL_FLAG_PENDING) \<noteq> 0 then (False, cf - HDL_REFCOUNT_UNIT)
      else if cf AND HDL_FLAG_IMPLICIT \<noteq> 0 then
        (if cf AND HDL_REFCOUNT_MASK = HDL_REFCOUNT_UNIT \<and> may_delete_parent
         then (True, cf - HDL_REFCOUNT_UNIT + 1)
         else (False, cf - HDL_REFCOUNT_UNIT))
      else (False, cf - HDL_REFCOUNT_UNIT))"

definition dds_handle_repin :: "u32 \<Rightarrow> u32" where
  "dds_handle_repin cf = cf + 1"

definition dds_handle_unpin :: "u32 \<Rightarrow> bool \<times> u32" where
  "dds_handle_unpin cf = (only_closer (cf - 1), cf - 1)"

text \<open>
  \<open>dds_handle_unpend\<close> is two atomic operations: it clears the flag, and then calls
  \<open>dds_handle_unpin\<close>. Other threads may come in between, so only the first is this
  definition; the second is the step \<open>dds_handle_unpin\<close> on its own.
\<close>

definition dds_handle_unpend :: "u32 \<Rightarrow> u32" where
  "dds_handle_unpend cf = cf AND NOT HDL_FLAG_PENDING"

definition dds_handle_add_ref :: "u32 \<Rightarrow> u32" where
  "dds_handle_add_ref cf = cf + HDL_REFCOUNT_UNIT"

text \<open>Result, wake-up and the new word.\<close>

definition dds_handle_drop_ref :: "u32 \<Rightarrow> bool \<times> bool \<times> u32" where
  "dds_handle_drop_ref old =
     (let new = old - HDL_REFCOUNT_UNIT
      in (new AND HDL_REFCOUNT_MASK = 0, only_closer new, new))"

definition dds_handle_unpin_and_drop_ref :: "u32 \<Rightarrow> bool \<times> bool \<times> u32" where
  "dds_handle_unpin_and_drop_ref old =
     (let new = old - HDL_REFCOUNT_UNIT - 1
      in (new AND HDL_REFCOUNT_MASK = 0, only_closer new, new))"

definition dds_handle_close :: "u32 \<Rightarrow> bool \<times> u32" where
  "dds_handle_close old = (old AND HDL_REFCOUNT_MASK = 0, old OR HDL_FLAG_CLOSING)"

text \<open>Whether \<open>dds_handle_close_wait\<close> returns.\<close>

definition close_wait_done :: "u32 \<Rightarrow> bool" where
  "close_wait_done cf \<longleftrightarrow> cf AND HDL_PINCOUNT_MASK = 1"

definition dds_handle_is_not_refd :: "u32 \<Rightarrow> bool" where
  "dds_handle_is_not_refd cf \<longleftrightarrow> cf AND HDL_REFCOUNT_MASK = 0"

definition dds_handle_is_closed :: "u32 \<Rightarrow> bool" where
  "dds_handle_is_closed cf \<longleftrightarrow> cf AND HDL_FLAG_CLOSING \<noteq> 0"

end
