(* ===== verification/Handles_Props.thy ===== *)
theory Handles_Props
  imports Handles
begin

text \<open>
  The handle server against an abstract entity state: six flags, a reference count and a pin
  count. \<open>hl_enc\<close> is the word that represents a state; every operation on the word is shown to
  be the operation on the counters, as long as the counters stay within their fields. The life
  cycle properties (a closed handle cannot be pinned again, at most one caller gets to delete)
  are then proved over runs of interleaved operations.
\<close>

section \<open>The abstract state and its word\<close>

record hlink =
  hl_closing :: bool
  hl_deferred :: bool
  hl_pending :: bool
  hl_implicit :: bool
  hl_children :: bool
  hl_noaccess :: bool
  hl_refc :: nat
  hl_pins :: nat

definition hl_flags :: "hlink \<Rightarrow> u32" where
  "hl_flags h = (if hl_closing h then 0x80000000 else 0) OR (if hl_deferred h then 0x40000000 else 0)
     OR (if hl_pending h then 0x20000000 else 0) OR (if hl_implicit h then 0x10000000 else 0)
     OR (if hl_children h then 0x08000000 else 0) OR (if hl_noaccess h then 0x04000000 else 0)"

definition hl_low :: "hlink \<Rightarrow> u32" where
  "hl_low h = of_nat (hl_refc h * 4096 + hl_pins h)"

definition hl_enc :: "hlink \<Rightarrow> u32" where
  "hl_enc h = hl_flags h + hl_low h"

text \<open>Both counters fit their fields.\<close>

definition hl_ok :: "hlink \<Rightarrow> bool" where
  "hl_ok h \<longleftrightarrow> hl_refc h < 2 ^ 14 \<and> hl_pins h < 2 ^ 12"


lemma not_bit_less: "n < 2 ^ k \<Longrightarrow> k \<le> i \<Longrightarrow> \<not> bit n i" for n :: nat
  by (metis bit_take_bit_iff leD take_bit_nat_eq_self_iff)

lemma hl_bits: assumes "hl_ok h"
  shows "12 \<le> i \<Longrightarrow> \<not> bit (hl_pins h) i" "14 \<le> i \<Longrightarrow> \<not> bit (hl_refc h) i"
  using assms not_bit_less by (auto simp: hl_ok_def simp del: power_numeral)

lemma bit_low:
  assumes h: "hl_ok h"
  shows "bit (hl_low h) i \<longleftrightarrow> (if i < 12 then bit (hl_pins h) i else i < 26 \<and> bit (hl_refc h) (i - 12))"
proof -
  have "hl_low h = push_bit 12 (of_nat (hl_refc h)) + of_nat (hl_pins h)"
    by (simp add: hl_low_def push_bit_eq_mult)
  also have "\<dots> = push_bit 12 (of_nat (hl_refc h)) OR of_nat (hl_pins h)"
    using hl_bits [OF h] by (intro disjunctive_add) (auto simp: bit_simps)
  finally show ?thesis using hl_bits [OF h] by (cases "i < 26") (auto simp: bit_simps not_less)
qed

lemma mask26: "bit (0x03ffffff :: u32) i \<longleftrightarrow> i < 26"
proof -
  have "(0x03ffffff :: u32) = mask 26" by (simp add: mask_eq_exp_minus_1)
  then show ?thesis by (simp only: bit_mask_iff) auto
qed

lemma low_and_high:
  assumes h: "hl_ok h" and m: "m AND 0x03ffffff = 0"
  shows "hl_low h AND m = 0"
proof -
  have le: "bit (hl_low h) i \<Longrightarrow> bit (0x03ffffff :: u32) i" for i
    unfolding mask26 using bit_low [OF h, of i] by (auto split: if_splits)
  have "hl_low h = hl_low h AND 0x03ffffff"
    by (rule bit_word_eqI) (unfold bit_and_iff, use le in blast)
  then have "hl_low h AND m = (hl_low h AND 0x03ffffff) AND m" by (rule arg_cong)
  also have "\<dots> = hl_low h AND (m AND 0x03ffffff)" by (simp only: and.assoc and.commute and.left_commute)
  finally show ?thesis by (simp only: m and_zero_eq)
qed

lemma flags_low: "hl_flags h AND 0x03ffffff = 0"
  by (simp add: hl_flags_def)

lemma enc_or: "hl_ok h \<Longrightarrow> hl_enc h = hl_flags h OR hl_low h"
  unfolding hl_enc_def using low_and_high [OF _ flags_low, of h h]
  by (intro disjunctive_add) (metis and.commute bit_0_eq bit_and_iff bot_apply bot_bool_def)

lemma low_and_ref:
  assumes h: "hl_ok h"
  shows "hl_low h AND 0x03fff000 = of_nat (hl_refc h * 4096)"
proof -
  have "(of_nat (hl_refc h * 4096) :: u32) = push_bit 12 (of_nat (hl_refc h))" by (simp add: push_bit_eq_mult)
  moreover have "(0x03fff000 :: u32) = push_bit 12 (mask 14)" by (simp add: mask_eq_exp_minus_1 push_bit_eq_mult)
  ultimately show ?thesis using hl_bits [OF h] bit_low [OF h]
    by (auto simp: bit_eq_iff bit_and_iff bit_push_bit_iff bit_mask_iff bit_of_nat_iff not_less)
qed

lemma low_and_pin:
  assumes h: "hl_ok h"
  shows "hl_low h AND 0xfff = of_nat (hl_pins h)"
proof -
  have "(0xfff :: u32) = mask 12" by (simp add: mask_eq_exp_minus_1)
  then show ?thesis using hl_bits [OF h] bit_low [OF h]
    by (auto simp: bit_eq_iff bit_and_iff bit_mask_iff bit_of_nat_iff not_less)
qed

text \<open>Masking the word of a state: flags and counters do not interfere.\<close>

lemma enc_and_high: "hl_ok h \<Longrightarrow> m AND 0x03ffffff = 0 \<Longrightarrow> hl_enc h AND m = hl_flags h AND m"
  by (simp add: enc_or word_ao_dist low_and_high)

lemma enc_flag:
  assumes "hl_ok h"
  shows "hl_enc h AND HDL_FLAG_CLOSING = 0 \<longleftrightarrow> \<not> hl_closing h"
    and "hl_enc h AND HDL_FLAG_DELETE_DEFERRED = 0 \<longleftrightarrow> \<not> hl_deferred h"
    and "hl_enc h AND HDL_FLAG_IMPLICIT = 0 \<longleftrightarrow> \<not> hl_implicit h"
    and "hl_enc h AND HDL_FLAG_ALLOW_CHILDREN = 0 \<longleftrightarrow> \<not> hl_children h"
    and "hl_enc h AND HDL_FLAG_NO_USER_ACCESS = 0 \<longleftrightarrow> \<not> hl_noaccess h"
    and "hl_enc h AND (HDL_FLAG_CLOSING OR HDL_FLAG_PENDING) = 0 \<longleftrightarrow> \<not> (hl_closing h \<or> hl_pending h)"
    and "hl_enc h AND (HDL_FLAG_CLOSING OR HDL_FLAG_PENDING OR HDL_FLAG_NO_USER_ACCESS) = 0
      \<longleftrightarrow> \<not> (hl_closing h \<or> hl_pending h \<or> hl_noaccess h)"
  using assms by (simp_all add: enc_and_high hdl_consts) (simp_all add: hl_flags_def word_ao_dist)

lemma of_nat_u32_eq: "x < 2 ^ 32 \<Longrightarrow> y < 2 ^ 32 \<Longrightarrow> (of_nat x :: u32) = of_nat y \<longleftrightarrow> x = y"
  by (simp add: word_unat_eq_iff unat_of_nat take_bit_nat_eq_self)

lemma enc_counts:
  assumes "hl_ok h"
  shows "hl_enc h AND HDL_REFCOUNT_MASK = of_nat (hl_refc h * 4096)"
    and "hl_enc h AND HDL_PINCOUNT_MASK = of_nat (hl_pins h)"
proof -
  have "hl_flags h AND HDL_REFCOUNT_MASK = 0" "hl_flags h AND HDL_PINCOUNT_MASK = 0"
    by (simp_all add: hl_flags_def hdl_consts word_ao_dist)
  then show "hl_enc h AND HDL_REFCOUNT_MASK = of_nat (hl_refc h * 4096)"
    "hl_enc h AND HDL_PINCOUNT_MASK = of_nat (hl_pins h)"
    using assms low_and_ref low_and_pin by (simp_all add: enc_or word_ao_dist hdl_consts)
qed

lemma enc_refc:
  assumes "hl_ok h"
  shows "hl_enc h AND HDL_REFCOUNT_MASK = 0 \<longleftrightarrow> hl_refc h = 0"
    and "hl_enc h AND HDL_REFCOUNT_MASK = HDL_REFCOUNT_UNIT \<longleftrightarrow> hl_refc h = 1"
  using assms of_nat_u32_eq [of "hl_refc h * 4096" 0] of_nat_u32_eq [of "hl_refc h * 4096" 4096]
  by (simp_all only: enc_counts) (simp_all add: hl_ok_def hdl_consts)

lemma enc_pins: "hl_ok h \<Longrightarrow> hl_enc h AND HDL_PINCOUNT_MASK = 1 \<longleftrightarrow> hl_pins h = 1"
  using of_nat_u32_eq [of "hl_pins h" 1] by (simp add: enc_counts hl_ok_def)

lemma enc_only_closer: "hl_ok h \<Longrightarrow> only_closer (hl_enc h) \<longleftrightarrow> hl_closing h \<and> hl_pins h = 1"
proof -
  assume h: "hl_ok h"
  have "hl_enc h AND (HDL_FLAG_CLOSING OR HDL_PINCOUNT_MASK)
      = (if hl_closing h then HDL_FLAG_CLOSING else 0) + of_nat (hl_pins h)"
  proof -
    have c: "hl_enc h AND HDL_FLAG_CLOSING = (if hl_closing h then HDL_FLAG_CLOSING else 0)"
      using h by (simp add: enc_and_high hdl_consts) (simp add: hl_flags_def word_ao_dist)
    have "(if hl_closing h then HDL_FLAG_CLOSING else 0) OR of_nat (hl_pins h)
        = (if hl_closing h then HDL_FLAG_CLOSING else 0) + (of_nat (hl_pins h) :: u32)"
    proof -
      have "bit (of_nat (hl_pins h) :: u32) n \<Longrightarrow> n < 12" for n
        using hl_bits(1) [OF h, of n] by (auto simp: bit_of_nat_iff not_less [symmetric])
      moreover have "bit HDL_FLAG_CLOSING n \<Longrightarrow> n = 31" for n
      proof -
        have c: "HDL_FLAG_CLOSING = push_bit 31 1" by (simp add: hdl_consts push_bit_eq_mult)
        show "bit HDL_FLAG_CLOSING n \<Longrightarrow> n = 31" unfolding c bit_push_bit_iff bit_1_iff by auto
      qed
      ultimately show ?thesis by (intro disjunctive_add [symmetric]) (auto, fastforce)
    qed
    then show ?thesis by (simp only: word_ao_dist2 c enc_counts [OF h])
  qed
  moreover have "(HDL_FLAG_CLOSING OR 1) = (of_nat (2 ^ 31 + 1) :: u32)" "HDL_FLAG_CLOSING = (of_nat (2 ^ 31) :: u32)"
    by (simp_all add: hdl_consts)
  ultimately show ?thesis
    using of_nat_u32_eq [of "2 ^ 31 + hl_pins h" "2 ^ 31 + 1"] of_nat_u32_eq [of "hl_pins h" "2 ^ 31 + 1"] h
    by (auto simp: only_closer_def hl_ok_def)
qed

section \<open>The operations on the abstract state\<close>

lemma enc_add_pin: "hl_enc h + 1 = hl_enc (h\<lparr>hl_pins := hl_pins h + 1\<rparr>)"
  by (simp add: hl_enc_def hl_low_def hl_flags_def)

lemma enc_sub_pin: "0 < hl_pins h \<Longrightarrow> hl_enc h - 1 = hl_enc (h\<lparr>hl_pins := hl_pins h - 1\<rparr>)"
  by (simp add: hl_enc_def hl_low_def hl_flags_def)

lemma enc_add_ref: "hl_enc h + HDL_REFCOUNT_UNIT = hl_enc (h\<lparr>hl_refc := hl_refc h + 1\<rparr>)"
  by (simp add: hl_enc_def hl_low_def hl_flags_def hdl_consts algebra_simps)

lemma enc_sub_ref: "0 < hl_refc h \<Longrightarrow> hl_enc h - HDL_REFCOUNT_UNIT = hl_enc (h\<lparr>hl_refc := hl_refc h - 1\<rparr>)"
  by (cases "hl_refc h") (simp_all add: hl_enc_def hl_low_def hl_flags_def hdl_consts algebra_simps)

lemma enc_close: "hl_ok h \<Longrightarrow> hl_enc h OR HDL_FLAG_CLOSING = hl_enc (h\<lparr>hl_closing := True\<rparr>)"
proof -
  assume h: "hl_ok h"
  then have "hl_ok (h\<lparr>hl_closing := True\<rparr>)" "hl_low (h\<lparr>hl_closing := True\<rparr>) = hl_low h"
    by (simp_all add: hl_ok_def hl_low_def)
  with h show ?thesis
    by (simp add: enc_or hl_flags_def hdl_consts or.assoc or.commute or.left_commute)
qed

lemma enc_defer: "hl_ok h \<Longrightarrow> hl_enc h OR HDL_FLAG_DELETE_DEFERRED = hl_enc (h\<lparr>hl_deferred := True\<rparr>)"
proof -
  assume h: "hl_ok h"
  then have "hl_ok (h\<lparr>hl_deferred := True\<rparr>)" "hl_low (h\<lparr>hl_deferred := True\<rparr>) = hl_low h"
    by (simp_all add: hl_ok_def hl_low_def)
  with h show ?thesis
    by (simp add: enc_or hl_flags_def hdl_consts or.assoc or.commute or.left_commute)
qed

lemma enc_unpend: "hl_ok h \<Longrightarrow> hl_enc h AND NOT HDL_FLAG_PENDING = hl_enc (h\<lparr>hl_pending := False\<rparr>)"
proof -
  assume h: "hl_ok h"
  then have h': "hl_ok (h\<lparr>hl_pending := False\<rparr>)" "hl_low (h\<lparr>hl_pending := False\<rparr>) = hl_low h"
    by (simp_all add: hl_ok_def hl_low_def)
  have "hl_low h AND HDL_FLAG_PENDING = 0" using h by (simp add: low_and_high hdl_consts)
  then have "hl_low h AND NOT HDL_FLAG_PENDING = hl_low h"
    by (auto simp: bit_eq_iff bit_simps)
  moreover have "hl_flags h AND NOT HDL_FLAG_PENDING = hl_flags (h\<lparr>hl_pending := False\<rparr>)"
    by (simp add: hl_flags_def hdl_consts word_ao_dist)
  ultimately show ?thesis using h h' by (simp add: enc_or word_ao_dist)
qed

text \<open>What an operation does to an entity: its result, whether it wakes the closer, the new state.\<close>

datatype hop = Pin bool | PinRef bool | Repin | Unpin | AddRef | DropRef | UnpinDropRef
  | Delete bool bool | DropChild bool | Close | Unpend

definition hl_wake :: "hlink \<Rightarrow> bool" where
  "hl_wake h \<longleftrightarrow> hl_closing h \<and> hl_pins h = 1"

definition hl_delete :: "hlink \<Rightarrow> bool \<Rightarrow> bool \<Rightarrow> dds_return_t + hlink" where
  "hl_delete h explicit from_user =
     (let closing = h\<lparr>hl_pins := hl_pins h + 1, hl_closing := True\<rparr>;
          drop_closing = h\<lparr>hl_refc := hl_refc h - 1, hl_pins := hl_pins h + 1, hl_closing := True\<rparr>;
          deferred = h\<lparr>hl_refc := hl_refc h - 1, hl_deferred := True\<rparr>
      in if from_user \<and> hl_noaccess h \<or> hl_closing h \<or> hl_pending h then Inl DDS_RETCODE_BAD_PARAMETER
         else if hl_deferred h then (if 0 < hl_refc h then Inl DDS_RETCODE_ALREADY_DELETED else Inr closing)
         else if explicit \<and> hl_implicit h then Inr closing
         else if \<not> explicit \<and> \<not> hl_implicit h then Inl DDS_RETCODE_ILLEGAL_OPERATION
         else if hl_refc h = 1 then Inr drop_closing
         else if \<not> hl_children h then Inr deferred
         else if explicit then Inr drop_closing
         else Inr (h\<lparr>hl_refc := hl_refc h - 1\<rparr>))"

fun hop_spec :: "hop \<Rightarrow> hlink \<Rightarrow> int \<times> bool \<times> hlink" where
  "hop_spec (Pin from_user) h =
     (if hl_closing h \<or> hl_pending h \<or> hl_noaccess h \<and> from_user then (DDS_RETCODE_BAD_PARAMETER, False, h)
      else (DDS_RETCODE_OK, False, h\<lparr>hl_pins := hl_pins h + 1\<rparr>))"
| "hop_spec (PinRef from_user) h =
     (if hl_closing h \<or> hl_pending h \<or> hl_noaccess h \<and> from_user then (DDS_RETCODE_BAD_PARAMETER, False, h)
      else (DDS_RETCODE_OK, False, h\<lparr>hl_refc := hl_refc h + 1, hl_pins := hl_pins h + 1\<rparr>))"
| "hop_spec Repin h = (0, False, h\<lparr>hl_pins := hl_pins h + 1\<rparr>)"
| "hop_spec Unpin h = (let h' = h\<lparr>hl_pins := hl_pins h - 1\<rparr> in (0, hl_wake h', h'))"
| "hop_spec AddRef h = (0, False, h\<lparr>hl_refc := hl_refc h + 1\<rparr>)"
| "hop_spec DropRef h = (let h' = h\<lparr>hl_refc := hl_refc h - 1\<rparr> in (of_bool (hl_refc h' = 0), hl_wake h', h'))"
| "hop_spec UnpinDropRef h =
     (let h' = h\<lparr>hl_refc := hl_refc h - 1, hl_pins := hl_pins h - 1\<rparr> in (of_bool (hl_refc h' = 0), hl_wake h', h'))"
| "hop_spec (Delete explicit from_user) h =
     (case hl_delete h explicit from_user of
        Inl rc \<Rightarrow> (rc, False, h)
      | Inr h' \<Rightarrow> (if hl_refc h' = 0 \<or> hl_children h' then DDS_RETCODE_OK else DDS_RETCODE_TRY_AGAIN, False, h'))"
| "hop_spec (DropChild may) h =
     (if \<not> hl_closing h \<and> \<not> hl_pending h \<and> hl_implicit h \<and> hl_refc h = 1 \<and> may
      then (1, False, h\<lparr>hl_refc := 0, hl_pins := hl_pins h + 1\<rparr>)
      else (0, False, h\<lparr>hl_refc := hl_refc h - 1\<rparr>))"
| "hop_spec Close h = (of_bool (hl_refc h = 0), False, h\<lparr>hl_closing := True\<rparr>)"
| "hop_spec Unpend h = (0, False, h\<lparr>hl_pending := False\<rparr>)"

text \<open>The calls the code's assertions allow, with room left in the counters.\<close>

fun hop_ok :: "hop \<Rightarrow> hlink \<Rightarrow> bool" where
  "hop_ok (Pin from_user) h \<longleftrightarrow> hl_pins h + 1 < 2 ^ 12"
| "hop_ok (PinRef from_user) h \<longleftrightarrow> hl_pins h + 1 < 2 ^ 12 \<and> hl_refc h + 1 < 2 ^ 14"
| "hop_ok Repin h \<longleftrightarrow> 1 \<le> hl_pins h \<and> hl_pins h + 1 < 2 ^ 12"
| "hop_ok Unpin h \<longleftrightarrow> (if hl_closing h then 1 < hl_pins h else 1 \<le> hl_pins h)"
| "hop_ok AddRef h \<longleftrightarrow> hl_refc h + 1 < 2 ^ 14"
| "hop_ok DropRef h \<longleftrightarrow> 0 < hl_refc h"
| "hop_ok UnpinDropRef h \<longleftrightarrow> 0 < hl_refc h \<and> (if hl_closing h then 1 < hl_pins h else 1 \<le> hl_pins h)"
| "hop_ok (Delete explicit from_user) h \<longleftrightarrow> hl_pins h + 1 < 2 ^ 12
     \<and> (\<not> hl_closing h \<and> \<not> hl_pending h \<and> \<not> hl_deferred h \<and> hl_implicit h \<noteq> explicit \<longrightarrow> 0 < hl_refc h)"
| "hop_ok (DropChild may) h \<longleftrightarrow> 0 < hl_refc h \<and> hl_pins h + 1 < 2 ^ 12"
| "hop_ok Close h \<longleftrightarrow> True"
| "hop_ok Unpend h \<longleftrightarrow> hl_pending h \<and> \<not> hl_closing h \<and> \<not> hl_deferred h \<and> 1 \<le> hl_pins h"

text \<open>The same operation by the code, on a server whose table holds the word of the entity.\<close>

fun hop_exec :: "hop \<Rightarrow> dds_handle_t \<Rightarrow> dds_handle_server \<Rightarrow> int \<times> bool \<times> dds_handle_server" where
  "hop_exec (Pin from_user) hdl s = (let (rc, s') = dds_handle_pin_with_origin s hdl from_user in (rc, False, s'))"
| "hop_exec (PinRef from_user) hdl s =
     (let (rc, s') = dds_handle_pin_and_ref_with_origin s hdl from_user in (rc, False, s'))"
| "hop_exec (Delete explicit from_user) hdl s =
     (let (rc, s') = dds_handle_pin_for_delete s hdl explicit from_user in (rc, False, s'))"
| "hop_exec op hdl s =
     (let cf = the (hs_table s hdl);
          (rc, wake, cf') =
            (case op of
               Repin \<Rightarrow> (0, False, dds_handle_repin cf)
             | Unpin \<Rightarrow> (let (w, c) = dds_handle_unpin cf in (0, w, c))
             | AddRef \<Rightarrow> (0, False, dds_handle_add_ref cf)
             | DropRef \<Rightarrow> (let (b, w, c) = dds_handle_drop_ref cf in (of_bool b, w, c))
             | UnpinDropRef \<Rightarrow> (let (b, w, c) = dds_handle_unpin_and_drop_ref cf in (of_bool b, w, c))
             | DropChild may \<Rightarrow> (let (b, c) = dds_handle_drop_childref_and_pin cf may in (of_bool b, False, c))
             | Close \<Rightarrow> (let (b, c) = dds_handle_close cf in (of_bool b, False, c))
             | Unpend \<Rightarrow> (0, False, dds_handle_unpend cf)
             | _ \<Rightarrow> (0, False, cf))
      in (rc, wake, hs_set s hdl cf'))"

section \<open>Refinement\<close>

lemma hs_table_set [simp]: "hs_table (hs_set s hdl cf) = (hs_table s)(hdl \<mapsto> cf)" "hs_count (hs_set s hdl cf) = hs_count s"
  by (simp_all add: hs_table_def hs_set_def)

lemma hs_table_count [simp]: "hs_table (s\<lparr>hs_count := n\<rparr>) = hs_table s"
  by (simp add: hs_table_def)

lemma hs_ht_table: "hs_table s hdl = Some cf \<Longrightarrow> hs_ht s = Some (hs_table s)"
  by (auto simp: hs_table_def split: option.splits)

lemma pin_int_enc:
  assumes "hl_ok h" "hs_table s hdl = Some (hl_enc h)"
  shows "dds_handle_pin_int s hdl delta from_user =
    (if hl_closing h \<or> hl_pending h \<or> hl_noaccess h \<and> from_user then (DDS_RETCODE_BAD_PARAMETER, s)
     else (DDS_RETCODE_OK, hs_set s hdl (hl_enc h + delta)))"
proof -
  have "hs_ht s = Some (hs_table s)" using hs_ht_table assms(2) by blast
  with assms show ?thesis by (auto simp: dds_handle_pin_int_def pin_refused_def enc_flag)
qed

lemma enc_add_both: "hl_enc h + (HDL_REFCOUNT_UNIT + 1) = hl_enc (h\<lparr>hl_refc := hl_refc h + 1, hl_pins := hl_pins h + 1\<rparr>)"
  using enc_add_pin [of "h\<lparr>hl_refc := hl_refc h + 1\<rparr>"] by (simp add: enc_add_ref flip: add.assoc)

lemma enc_move: "0 < hl_refc h \<Longrightarrow>
    hl_enc h - HDL_REFCOUNT_UNIT + 1 = hl_enc (h\<lparr>hl_refc := hl_refc h - 1, hl_pins := hl_pins h + 1\<rparr>)"
  using enc_add_pin [of "h\<lparr>hl_refc := hl_refc h - 1\<rparr>"] by (simp add: enc_sub_ref)

lemma enc_close_pin:
  "hl_ok (h\<lparr>hl_pins := Suc (hl_pins h)\<rparr>) \<Longrightarrow>
    (hl_enc h + 1) OR HDL_FLAG_CLOSING = hl_enc (h\<lparr>hl_pins := Suc (hl_pins h), hl_closing := True\<rparr>)"
  by (simp add: enc_add_pin enc_close)

text \<open>The new word of \<open>dds_handle_pin_for_delete\<close> is the word of the new state.\<close>

lemma delete_word_enc:
  assumes "hl_ok h" "hop_ok (Delete explicit from_user) h"
  shows "delete_word (hl_enc h) explicit from_user = map_sum id hl_enc (hl_delete h explicit from_user)"
proof -
  have ok: "hl_ok (h\<lparr>hl_pins := hl_pins h + 1\<rparr>)" "hl_ok (h\<lparr>hl_refc := hl_refc h - 1, hl_pins := hl_pins h + 1\<rparr>)"
    "hl_ok (h\<lparr>hl_refc := hl_refc h - 1\<rparr>)" using assms by (auto simp: hl_ok_def)
  consider "from_user \<and> hl_noaccess h \<or> hl_closing h \<or> hl_pending h"
    | "\<not> (from_user \<and> hl_noaccess h \<or> hl_closing h \<or> hl_pending h)" "hl_deferred h"
    | "\<not> (from_user \<and> hl_noaccess h \<or> hl_closing h \<or> hl_pending h)" "\<not> hl_deferred h" "hl_implicit h = explicit" 
    | "\<not> (from_user \<and> hl_noaccess h \<or> hl_closing h \<or> hl_pending h)" "\<not> hl_deferred h" "hl_implicit h \<noteq> explicit" "0 < hl_refc h"
    using assms(2) by auto
  then show ?thesis
  proof cases
    case 4
    then show ?thesis using assms(1) ok
      by (auto simp: delete_word_def hl_delete_def enc_flag enc_refc enc_sub_ref
          enc_close_pin enc_defer Let_def)
  qed (use assms(1) ok in \<open>auto simp: delete_word_def hl_delete_def enc_flag enc_refc
          enc_close_pin Let_def\<close>)
qed

lemma hl_delete_ok:
  assumes "hl_ok h" "hop_ok (Delete explicit from_user) h" "hl_delete h explicit from_user = Inr h'"
  shows "hl_ok h'"
  using assms by (auto simp: hl_delete_def hl_ok_def Let_def split: if_splits)

lemma pin_for_delete_enc:
  assumes "hl_ok h" "hs_table s hdl = Some (hl_enc h)" "hop_ok (Delete explicit from_user) h"
  shows "dds_handle_pin_for_delete s hdl explicit from_user =
    (case hl_delete h explicit from_user of
       Inl rc \<Rightarrow> (rc, s)
     | Inr h' \<Rightarrow> (if hl_refc h' = 0 \<or> hl_children h' then DDS_RETCODE_OK else DDS_RETCODE_TRY_AGAIN, hs_set s hdl (hl_enc h')))"
proof -
  have "hs_ht s = Some (hs_table s)" using hs_ht_table assms(2) by blast
  with assms delete_word_enc [OF assms(1,3)] hl_delete_ok [OF assms(1,3)] show ?thesis
    by (auto simp: dds_handle_pin_for_delete_def enc_flag enc_refc split: sum.splits)
qed

lemma drop_child_enc:
  assumes "hl_ok h" "0 < hl_refc h"
  shows "dds_handle_drop_childref_and_pin (hl_enc h) may =
    (if \<not> hl_closing h \<and> \<not> hl_pending h \<and> hl_implicit h \<and> hl_refc h = 1 \<and> may
     then (True, hl_enc (h\<lparr>hl_refc := 0, hl_pins := hl_pins h + 1\<rparr>))
     else (False, hl_enc (h\<lparr>hl_refc := hl_refc h - 1\<rparr>)))"
  using assms enc_move [of h]
  by (auto simp: dds_handle_drop_childref_and_pin_def enc_flag enc_refc enc_sub_ref)

text \<open>One step of the code is one step of the specification.\<close>

definition hop_refines :: "hop \<Rightarrow> hlink \<Rightarrow> dds_handle_t \<Rightarrow> dds_handle_server \<Rightarrow> bool" where
  "hop_refines op h hdl s \<longleftrightarrow>
     (case hop_exec op hdl s of (rc, wake, s') \<Rightarrow> case hop_spec op h of (rc', wake', h') \<Rightarrow>
        rc = rc' \<and> wake = wake' \<and> hl_ok h' \<and> hs_count s' = hs_count s
        \<and> hs_table s' = (hs_table s)(hdl \<mapsto> hl_enc h'))"

lemma hop_step:
  assumes "hl_ok h" "hop_ok op h" "hs_table s hdl = Some (hl_enc h)"
  shows "hop_refines op h hdl s"
proof -
  have same: "(hs_table s)(hdl \<mapsto> hl_enc h) = hs_table s" using assms(3) by (simp add: map_upd_triv)
  show ?thesis
  proof (cases op)
    case (Pin f)
    with assms same show ?thesis
      by (auto simp: hop_refines_def dds_handle_pin_with_origin_def pin_int_enc [OF assms(1,3)] enc_add_pin hl_ok_def)
  next
    case (PinRef f)
    with assms same show ?thesis
      by (auto simp: hop_refines_def dds_handle_pin_and_ref_with_origin_def pin_int_enc [OF assms(1,3)] enc_add_both hl_ok_def)
  next
    case (Delete e f)
    with assms(2) have ok: "hop_ok (Delete e f) h" by simp
    show ?thesis unfolding Delete using same pin_for_delete_enc [OF assms(1,3) ok] hl_delete_ok [OF assms(1) ok] assms(1)
      by (cases "hl_delete h e f") (auto simp: hop_refines_def)
  next
    case Repin
    with assms show ?thesis by (auto simp: hop_refines_def dds_handle_repin_def enc_add_pin hl_ok_def)
  next
    case AddRef
    with assms show ?thesis by (auto simp: hop_refines_def dds_handle_add_ref_def enc_add_ref hl_ok_def)
  next
    case Close
    with assms show ?thesis
      by (auto simp: hop_refines_def dds_handle_close_def enc_close enc_refc hl_ok_def)
  next
    case Unpin
    have "hl_ok (h\<lparr>hl_pins := hl_pins h - 1\<rparr>)" using assms(1) by (auto simp: hl_ok_def)
    with Unpin assms show ?thesis
      by (auto simp: hop_refines_def dds_handle_unpin_def enc_sub_pin enc_only_closer hl_wake_def Let_def split: if_splits)
  next
    case DropRef
    have "hl_ok (h\<lparr>hl_refc := hl_refc h - 1\<rparr>)" using assms(1) by (auto simp: hl_ok_def)
    with DropRef assms show ?thesis
      by (auto simp: hop_refines_def dds_handle_drop_ref_def enc_sub_ref enc_only_closer enc_refc hl_wake_def Let_def)
  next
    case UnpinDropRef
    let ?h = "h\<lparr>hl_refc := hl_refc h - 1, hl_pins := hl_pins h - 1\<rparr>"
    have "hl_ok ?h" using assms(1) by (auto simp: hl_ok_def)
    moreover have "hl_enc h - HDL_REFCOUNT_UNIT - 1 = hl_enc ?h"
      using UnpinDropRef assms(2) enc_sub_pin [of "h\<lparr>hl_refc := hl_refc h - 1\<rparr>"]
      by (simp add: enc_sub_ref split: if_splits)
    ultimately show ?thesis using UnpinDropRef assms
      by (auto simp: hop_refines_def dds_handle_unpin_and_drop_ref_def enc_only_closer enc_refc hl_wake_def Let_def)
  next
    case (DropChild m)
    with assms(2) have "0 < hl_refc h" "hl_pins h + 1 < 2 ^ 12" by simp_all
    with DropChild assms(1,3) show ?thesis
      by (auto simp: hop_refines_def drop_child_enc hl_ok_def)
  next
    case Unpend
    with assms show ?thesis
      by (auto simp: hop_refines_def dds_handle_unpend_def enc_unpend hl_ok_def)
  qed
qed

text \<open>C15: Every operation on a handle, on every branch, is the operation of the abstract entity state: same
  result, same wake-up of the closing thread, and the new word is the word of the new state; the
  counters stay in their fields and no other handle is touched.\<close>

theorem handle_ops_refine:
  assumes "hl_ok h" "hop_ok op h" "hs_table s hdl = Some (hl_enc h)"
    and "hop_exec op hdl s = (rc, wake, s')" "hop_spec op h = (rc', wake', h')"
  shows "rc = rc' \<and> wake = wake' \<and> hl_ok h' \<and> hs_table s' = (hs_table s)(hdl \<mapsto> hl_enc h')
    \<and> hs_count s' = hs_count s"
  using hop_step [OF assms(1-3)] assms(4,5) by (simp add: hop_refines_def)

definition demo_hlink :: hlink where
  "demo_hlink = \<lparr>hl_closing = False, hl_deferred = False, hl_pending = False, hl_implicit = False,
     hl_children = True, hl_noaccess = False, hl_refc = 2, hl_pins = 3\<rparr>"

definition demo_server :: dds_handle_server where
  "demo_server = \<lparr>hs_ht = Some [7 \<mapsto> hl_enc demo_hlink], hs_count = 1\<rparr>"

lemma demo_server_ok: "hl_ok demo_hlink" "hs_table demo_server 7 = Some (hl_enc demo_hlink)"
  by (simp_all add: demo_hlink_def demo_server_def hl_ok_def hs_table_def)

lemma handle_ops_refine_witness:
  "\<exists>s'. hop_exec (Delete True True) 7 demo_server = (DDS_RETCODE_OK, False, s')
     \<and> hs_table s' 7 = Some (hl_enc (demo_hlink\<lparr>hl_refc := 1, hl_pins := 4, hl_closing := True\<rparr>))"
proof -
  obtain rc wake s' where x: "hop_exec (Delete True True) 7 demo_server = (rc, wake, s')" by (metis prod_cases3)
  have sp: "hop_spec (Delete True True) demo_hlink =
      (DDS_RETCODE_OK, False, demo_hlink\<lparr>hl_refc := 1, hl_pins := 4, hl_closing := True\<rparr>)"
    by (simp add: hl_delete_def demo_hlink_def)
  have "hop_ok (Delete True True) demo_hlink" by (simp add: demo_hlink_def)
  from handle_ops_refine [OF demo_server_ok(1) this demo_server_ok(2) x sp] x show ?thesis by simp
qed

section \<open>Runs of interleaved operations on one handle\<close>

text \<open>Every step with its result, its wake-up and the word before and after it.\<close>

fun hop_trace :: "hop list \<Rightarrow> dds_handle_t \<Rightarrow> dds_handle_server \<Rightarrow> (hop \<times> int \<times> bool \<times> u32 \<times> u32) list" where
  "hop_trace [] hdl s = []"
| "hop_trace (op # ops) hdl s =
     (case hop_exec op hdl s of (rc, wake, s') \<Rightarrow>
        (op, rc, wake, the (hs_table s hdl), the (hs_table s' hdl)) # hop_trace ops hdl s')"

text \<open>Each call is one the assertions allow, in the state it meets.\<close>

fun hops_ok :: "hop list \<Rightarrow> hlink \<Rightarrow> bool" where
  "hops_ok [] h \<longleftrightarrow> True"
| "hops_ok (op # ops) h \<longleftrightarrow> hop_ok op h \<and> hops_ok ops (snd (snd (hop_spec op h)))"

text \<open>What a step is, in terms of the states whose words it relates.\<close>

definition hop_entry :: "(hop \<times> int \<times> bool \<times> u32 \<times> u32) \<Rightarrow> bool" where
  "hop_entry e \<longleftrightarrow> (case e of (op, rc, wake, c, c') \<Rightarrow>
     \<exists>h h'. hl_ok h \<and> hl_ok h' \<and> hop_ok op h \<and> c = hl_enc h \<and> c' = hl_enc h' \<and> hop_spec op h = (rc, wake, h'))"

lemma hop_trace_entries:
  assumes "hl_ok h" "hops_ok ops h" "hs_table s hdl = Some (hl_enc h)"
  shows "\<forall>e\<in>set (hop_trace ops hdl s). hop_entry e"
  using assms
proof (induction ops arbitrary: h s)
  case (Cons op ops)
  obtain rc wake s' where x: "hop_exec op hdl s = (rc, wake, s')" by (metis prod_cases3)
  obtain rc' wake' h' where sp: "hop_spec op h = (rc', wake', h')" by (metis prod_cases3)
  from hop_step [of h op s hdl] Cons.prems x sp
  have r: "rc = rc'" "wake = wake'" "hl_ok h'" "hs_table s' hdl = Some (hl_enc h')" by (simp_all add: hop_refines_def)
  have "hop_entry (op, rc, wake, hl_enc h, hl_enc h')"
    using Cons.prems r sp unfolding hop_entry_def by fastforce
  moreover have "\<forall>e\<in>set (hop_trace ops hdl s'). hop_entry e"
    using Cons.IH [OF r(3) _ r(4)] Cons.prems(2) sp by simp
  ultimately show ?case using x r Cons.prems(3) by simp
qed simp

text \<open>Consecutive steps meet in one word.\<close>

lemma hop_trace_linked:
  "hop_trace ops hdl s = xs @ (op, rc, wake, c, c') # (op2, rc2, wake2, d, d') # ys \<Longrightarrow> d = c'"
proof (induction ops arbitrary: s xs)
  case (Cons o1 ops)
  show ?case
  proof (cases xs)
    case Nil
    with Cons.prems show ?thesis
      by (cases ops) (auto split: prod.splits)
  next
    case (Cons x xs')
    with Cons.prems Cons.IH show ?thesis by (auto split: prod.splits)
  qed
qed simp

fun pin_like :: "hop \<Rightarrow> bool" where
  "pin_like (Pin f) \<longleftrightarrow> True"
| "pin_like (PinRef f) \<longleftrightarrow> True"
| "pin_like (Delete e f) \<longleftrightarrow> True"
| "pin_like op \<longleftrightarrow> False"

lemma hop_spec_closing:
  "hop_spec op h = (rc, wake, h') \<Longrightarrow> hl_closing h \<Longrightarrow>
     hl_closing h' \<and> (pin_like op \<longrightarrow> rc = DDS_RETCODE_BAD_PARAMETER \<and> h' = h)
     \<and> (op \<noteq> Repin \<longrightarrow> hl_pins h' \<le> hl_pins h)"
  by (cases op) (auto simp: hl_delete_def Let_def)

lemma is_closed_enc: "hl_ok h \<Longrightarrow> dds_handle_is_closed (hl_enc h) \<longleftrightarrow> hl_closing h"
  by (simp add: dds_handle_is_closed_def enc_flag)

lemma hop_entry_closing:
  assumes "hop_entry (op, rc, wake, c, c')" "dds_handle_is_closed c"
  shows "dds_handle_is_closed c' \<and> (pin_like op \<longrightarrow> rc = DDS_RETCODE_BAD_PARAMETER \<and> c' = c)"
proof -
  from assms(1) obtain h h' where h: "hl_ok h" "hl_ok h'" "c = hl_enc h" "c' = hl_enc h'" "hop_spec op h = (rc, wake, h')"
    by (auto simp: hop_entry_def)
  from hop_spec_closing [OF h(5)] assms(2) h show ?thesis by (simp add: is_closed_enc)
qed

text \<open>C16: Once a handle is closed, in any interleaving of operations, it stays closed, and every pin, every
  pin-with-reference and every delete request that follows is refused and changes nothing: the
  caller whose request closed the handle is the only one that gets to delete the entity.\<close>

theorem handle_closed_is_final:
  assumes "hl_ok h" "hops_ok ops h" "hs_table s hdl = Some (hl_enc h)"
    and "hop_trace ops hdl s = xs @ (op, rc, wake, c, c') # ys" "dds_handle_is_closed c'"
  shows "\<forall>(op2, rc2, wake2, d, d')\<in>set ys. dds_handle_is_closed d'
    \<and> (pin_like op2 \<longrightarrow> rc2 = DDS_RETCODE_BAD_PARAMETER \<and> d' = d)"
  using assms(4,5)
proof (induction ys arbitrary: xs op rc wake c c')
  case (Cons e ys)
  obtain op2 rc2 wake2 d d' where e: "e = (op2, rc2, wake2, d, d')" by (metis prod_cases5)
  have "d = c'" using hop_trace_linked Cons.prems(1) unfolding e by blast
  moreover have "hop_entry e" using hop_trace_entries [OF assms(1-3)] Cons.prems(1) by simp
  ultimately have step: "dds_handle_is_closed d' \<and> (pin_like op2 \<longrightarrow> rc2 = DDS_RETCODE_BAD_PARAMETER \<and> d' = d)"
    using hop_entry_closing Cons.prems(2) unfolding e by blast
  have "hop_trace ops hdl s = (xs @ [(op, rc, wake, c, c')]) @ (op2, rc2, wake2, d, d') # ys"
    using Cons.prems(1) by (simp add: e)
  from Cons.IH [OF this] step show ?case by (simp add: e)
qed simp

lemmas hop_eval = demo_hlink_def hl_delete_def hl_wake_def Let_def

lemma demo_delete:
  "hop_exec (Delete True True) 7 demo_server =
     (DDS_RETCODE_OK, False, hs_set demo_server 7 (hl_enc (demo_hlink\<lparr>hl_refc := 1, hl_pins := 4, hl_closing := True\<rparr>)))"
proof -
  have "hop_ok (Delete True True) demo_hlink" by (simp add: demo_hlink_def)
  from pin_for_delete_enc [OF demo_server_ok this] show ?thesis by (simp add: hop_eval)
qed

lemma handle_closed_is_final_witness:
  "\<exists>rc wake c c' d'. hop_trace [Delete True True, Pin True] 7 demo_server
       = [(Delete True True, DDS_RETCODE_OK, wake, c, c'), (Pin True, rc, False, c', d')]
     \<and> rc = DDS_RETCODE_BAD_PARAMETER \<and> dds_handle_is_closed d'"
proof -
  let ?h = "demo_hlink\<lparr>hl_refc := 1, hl_pins := 4, hl_closing := True\<rparr>"
  let ?s = "hs_set demo_server 7 (hl_enc ?h)"
  obtain rc s' where "dds_handle_pin_with_origin ?s 7 True = (rc, s')" by fastforce
  then have p: "hop_exec (Pin True) 7 ?s = (rc, False, s')" by simp
  have tr: "hop_trace [Delete True True, Pin True] 7 demo_server
      = [] @ (Delete True True, DDS_RETCODE_OK, False, the (hs_table demo_server 7), hl_enc ?h)
         # [(Pin True, rc, False, hl_enc ?h, the (hs_table s' 7))]"
    using p by (simp add: demo_delete del: hop_exec.simps)
  have hops: "hops_ok [Delete True True, Pin True] demo_hlink" by (simp add: hop_eval)
  have closed: "dds_handle_is_closed (hl_enc ?h)"
    using is_closed_enc [of ?h] by (simp add: hl_ok_def demo_hlink_def)
  have "\<forall>(op2, rc2, wake2, d, d')\<in>set [(Pin True, rc, False, hl_enc ?h, the (hs_table s' 7))].
      dds_handle_is_closed d' \<and> (pin_like op2 \<longrightarrow> rc2 = DDS_RETCODE_BAD_PARAMETER \<and> d' = d)"
    by (rule handle_closed_is_final [OF demo_server_ok(1) hops demo_server_ok(2) tr closed])
  then have "rc = DDS_RETCODE_BAD_PARAMETER" "dds_handle_is_closed (the (hs_table s' 7))"
    using closed by simp_all
  then show ?thesis unfolding tr append_Nil by blast
qed

text \<open>C17: No wake-up is missed and none is spurious: on a closed handle, every step after which the
  condition of \<open>dds_handle_close_wait\<close> holds while it did not before signals the waiting thread,
  and a step signals only when the condition holds.\<close>

theorem handle_no_missed_wakeup:
  assumes "hl_ok h" "hops_ok ops h" "hs_table s hdl = Some (hl_enc h)"
    and "(op, rc, wake, c, c') \<in> set (hop_trace ops hdl s)"
  shows "(dds_handle_is_closed c \<and> \<not> close_wait_done c \<and> close_wait_done c' \<longrightarrow> wake)
    \<and> (wake \<longrightarrow> dds_handle_is_closed c' \<and> close_wait_done c')"
proof -
  from hop_trace_entries [OF assms(1-3)] assms(4) have "hop_entry (op, rc, wake, c, c')" by blast
  then obtain g g' where h: "hl_ok g" "hl_ok g'" "c = hl_enc g" "c' = hl_enc g'" "hop_spec op g = (rc, wake, g')" "hop_ok op g"
    by (auto simp: hop_entry_def)
  have "hl_closing g \<and> hl_pins g \<noteq> 1 \<and> hl_pins g' = 1 \<longrightarrow> wake" "wake \<longrightarrow> hl_closing g' \<and> hl_pins g' = 1"
    using h(5,6) by (cases op; auto simp: hl_delete_def hl_wake_def Let_def split: if_splits)+
  then show ?thesis using h by (simp add: is_closed_enc close_wait_done_def enc_pins)
qed

lemma handle_no_missed_wakeup_witness:
  "\<exists>rc wake c c'. hop_trace [Close, Unpin, Unpin] 7 demo_server
       = [(Close, 0, False, hl_enc demo_hlink, hl_enc (demo_hlink\<lparr>hl_closing := True\<rparr>)),
          (Unpin, 0, False, hl_enc (demo_hlink\<lparr>hl_closing := True\<rparr>), hl_enc (demo_hlink\<lparr>hl_pins := 2, hl_closing := True\<rparr>)),
          (Unpin, rc, wake, c, c')] \<and> wake"
proof -
  let ?h1 = "demo_hlink\<lparr>hl_closing := True\<rparr>" and ?h2 = "demo_hlink\<lparr>hl_pins := 2, hl_closing := True\<rparr>"
    and ?h3 = "demo_hlink\<lparr>hl_pins := 1, hl_closing := True\<rparr>"
  have ok: "hl_ok ?h1" "hl_ok ?h2" "hl_ok ?h3" by (simp_all add: hl_ok_def demo_hlink_def)
  have e: "hl_enc ?h1 - 1 = hl_enc ?h2" "hl_enc ?h2 - 1 = hl_enc ?h3"
    using enc_sub_pin [of ?h1] enc_sub_pin [of ?h2] by (simp_all add: demo_hlink_def)
  moreover have "hl_enc ?h1 - 2 = hl_enc ?h1 - 1 - 1" by simp
  ultimately have e2: "hl_enc ?h1 - 2 = hl_enc ?h3" by (simp only:)
  have w: "\<not> only_closer (hl_enc ?h2)" using ok by (simp add: enc_only_closer)
  have c: "hl_refc demo_hlink \<noteq> 0" by (simp add: demo_hlink_def)
  have tr: "hop_trace [Close, Unpin, Unpin] 7 demo_server
       = [(Close, 0, False, hl_enc demo_hlink, hl_enc ?h1), (Unpin, 0, False, hl_enc ?h1, hl_enc ?h2),
          (Unpin, 0, only_closer (hl_enc ?h3), hl_enc ?h2, hl_enc ?h3)]"
    using ok demo_server_ok w
    by (simp add: dds_handle_close_def dds_handle_unpin_def enc_close enc_refc e e2 Let_def c)
  have hops: "hops_ok [Close, Unpin, Unpin] demo_hlink" by (simp add: hop_eval)
  have "dds_handle_is_closed (hl_enc ?h2)" "\<not> close_wait_done (hl_enc ?h2)" "close_wait_done (hl_enc ?h3)"
    using ok by (simp_all add: is_closed_enc close_wait_done_def enc_pins demo_hlink_def)
  moreover have "(Unpin, 0, only_closer (hl_enc ?h3), hl_enc ?h2, hl_enc ?h3)
      \<in> set (hop_trace [Close, Unpin, Unpin] 7 demo_server)" unfolding tr by simp
  note handle_no_missed_wakeup [OF demo_server_ok(1) hops demo_server_ok(2) this]
  ultimately have "only_closer (hl_enc ?h3)" by blast
  then show ?thesis unfolding tr by blast
qed

section \<open>The table\<close>

text \<open>The count is the number of handles, which are all positive.\<close>

definition hs_inv :: "dds_handle_server \<Rightarrow> bool" where
  "hs_inv s \<longleftrightarrow> hs_ht s \<noteq> None \<and> finite (dom (hs_table s)) \<and> hs_count s = card (dom (hs_table s))
     \<and> (\<forall>hdl\<in>dom (hs_table s). 0 < hdl)"

text \<open>The state of a handle just created: pinned once, pending, referenced once unless implicit.\<close>

definition new_hlink :: "bool \<Rightarrow> bool \<Rightarrow> bool \<Rightarrow> hlink" where
  "new_hlink implicit children user_access =
     \<lparr>hl_closing = False, hl_deferred = False, hl_pending = True, hl_implicit = implicit, hl_children = children,
      hl_noaccess = (\<not> user_access), hl_refc = (if implicit then 0 else 1), hl_pins = 1\<rparr>"

lemma handle_flags_enc: "handle_flags implicit children user_access = hl_enc (new_hlink implicit children user_access)"
  by (simp add: handle_flags_def new_hlink_def hl_enc_def hl_flags_def hl_low_def hdl_consts)

lemma pick_handle_fresh:
  "pick_handle rnd ht = Some (hdl, rnd') \<Longrightarrow> 0 < hdl \<and> hdl < DDS_MIN_PSEUDO_HANDLE \<and> ht hdl = None"
proof (induction rnd)
  case (Cons x rnd)
  have "0 \<le> uint (x AND 0x7fffffff)" by simp
  with Cons show ?case by (auto simp: Let_def order.strict_iff_order split: if_splits)
qed simp

text \<open>Enough random numbers: one that is fresh ends the search.\<close>

lemma pick_handle_ends:
  "x \<in> set rnd \<Longrightarrow> 0 < uint (x AND 0x7fffffff) \<Longrightarrow> uint (x AND 0x7fffffff) < DDS_MIN_PSEUDO_HANDLE
    \<Longrightarrow> ht (uint (x AND 0x7fffffff)) = None \<Longrightarrow> pick_handle rnd ht \<noteq> None"
  by (induction rnd) (auto simp: Let_def)

lemma hs_inv_insert:
  assumes "hs_inv s" "hs_table s hdl = None" "0 < hdl"
  shows "hs_inv (hs_set (s\<lparr>hs_count := hs_count s + 1\<rparr>) hdl cf)"
proof -
  have "hdl \<notin> dom (hs_table s)" using assms(2) by auto
  with assms show ?thesis by (auto simp: hs_inv_def) (simp add: hs_set_def)
qed

text \<open>The handle table: a handle that \<open>dds_handle_create\<close> returns is new, positive and below the pseudo
  handles; its entity is pending, pinned once and, unless implicit, referenced once; creation at
  the limit is refused. Creation, registration of a free special handle and deletion of a
  registered one keep the count equal to the number of handles.\<close>

theorem handle_table_invariant:
  assumes "hs_inv s"
  shows "(dds_handle_create s rnd implicit children user_access = Some (ret, s') \<longrightarrow>
        hs_inv s' \<and> (if hs_count s = MAX_HANDLES then ret = DDS_RETCODE_OUT_OF_RESOURCES \<and> s' = s
           else 0 < ret \<and> ret < DDS_MIN_PSEUDO_HANDLE \<and> hs_table s ret = None
             \<and> hs_table s' = (hs_table s)(ret \<mapsto> hl_enc (new_hlink implicit children user_access))))
    \<and> (dds_handle_register_special s implicit children hdl = (ret, s') \<and> hs_table s hdl = None \<longrightarrow>
        hs_inv s' \<and> (0 < ret \<longrightarrow> ret = hdl \<and> hs_table s' = (hs_table s)(hdl \<mapsto> hl_enc (new_hlink implicit children True))))
    \<and> (dds_handle_delete s hdl = (ret, s') \<and> hs_table s hdl \<noteq> None \<longrightarrow>
        hs_inv s' \<and> hs_table s' = (hs_table s)(hdl := None))"
proof -
  have create: "hs_inv s' \<and> (if hs_count s = MAX_HANDLES then ret = DDS_RETCODE_OUT_OF_RESOURCES \<and> s' = s
           else 0 < ret \<and> ret < DDS_MIN_PSEUDO_HANDLE \<and> hs_table s ret = None
             \<and> hs_table s' = (hs_table s)(ret \<mapsto> hl_enc (new_hlink implicit children user_access)))"
    if "dds_handle_create s rnd implicit children user_access = Some (ret, s')"
  proof (cases "hs_count s = MAX_HANDLES")
    case True
    with that assms show ?thesis by (simp add: dds_handle_create_def)
  next
    case False
    with that obtain rnd' where p: "pick_handle rnd (hs_table s) = Some (ret, rnd')"
      and s': "s' = hs_set (s\<lparr>hs_count := hs_count s + 1\<rparr>) ret (handle_flags implicit children user_access)"
      by (auto simp: dds_handle_create_def dds_handle_create_int_def split: option.splits)
    from pick_handle_fresh [OF p] have f: "0 < ret" "ret < DDS_MIN_PSEUDO_HANDLE" "hs_table s ret = None" by simp_all
    from hs_inv_insert [OF assms f(3,1)] False f show ?thesis by (simp add: s' handle_flags_enc)
  qed
  have special: "hs_inv s' \<and> (0 < ret \<longrightarrow> ret = hdl \<and> hs_table s' = (hs_table s)(hdl \<mapsto> hl_enc (new_hlink implicit children True)))"
    if "dds_handle_register_special s implicit children hdl = (ret, s')" "hs_table s hdl = None"
    using that assms hs_inv_insert [OF assms that(2)]
    by (auto simp: dds_handle_register_special_def retcodes handle_flags_enc [symmetric] handle_flags_def
        Let_def split: if_splits)
  have delete: "hs_inv s' \<and> hs_table s' = (hs_table s)(hdl := None)"
    if "dds_handle_delete s hdl = (ret, s')" "hs_table s hdl \<noteq> None"
  proof -
    have s': "hs_table s' = (hs_table s)(hdl := None)" "hs_count s' = hs_count s - 1" "hs_ht s' \<noteq> None"
      using that(1) by (auto simp: dds_handle_delete_def hs_table_def)
    have "hdl \<in> dom (hs_table s)" using that(2) by auto
    with assms s' show ?thesis by (auto simp: hs_inv_def card_Diff_singleton)
  qed
  show ?thesis using create special delete by blast
qed

lemma handle_table_invariant_witness:
  "\<exists>s'. dds_handle_create demo_server [0, 0x80000007, 42] False True True = Some (42, s') \<and> hs_inv s'"
proof -
  have inv: "hs_inv demo_server" by (simp add: hs_inv_def demo_server_def hs_table_def)
  have "pick_handle [0, 0x80000007, 42] (hs_table demo_server) = Some (42, [])"
    by (simp add: demo_server_def hs_table_def DDS_MIN_PSEUDO_HANDLE_def)
  then obtain s' where "dds_handle_create demo_server [0, 0x80000007, 42] False True True = Some (42, s')"
    by (simp add: dds_handle_create_def dds_handle_create_int_def demo_server_def hs_table_def MAX_HANDLES_def)
  with handle_table_invariant [OF inv, of "[0, 0x80000007, 42]" False True True 42 s'] show ?thesis by blast
qed

text \<open>Where the result of \<open>dds_handle_pin_for_delete\<close> and the word disagree. An explicit delete of an
  implicit entity whose count is of references closes and pins it but answers \<open>TRY_AGAIN\<close>, so
  the caller, which takes this for a deferred delete, never deletes it; an implicit delete of a
  parent that has other children answers OK without closing or pinning it. Registering a special
  handle twice fails but still counts one handle more. A 4096th pin carries into the reference
  count.\<close>

theorem handle_accounting_gaps:
  "(\<exists>s'. hop_exec (Delete True False) 7 (hs_set demo_server 7 (hl_enc (demo_hlink\<lparr>hl_implicit := True, hl_children := False\<rparr>)))
        = (DDS_RETCODE_TRY_AGAIN, False, s')
      \<and> hs_table s' 7 = Some (hl_enc (demo_hlink\<lparr>hl_implicit := True, hl_children := False, hl_pins := 4, hl_closing := True\<rparr>)))
   \<and> (\<exists>s'. hop_exec (Delete False False) 7 (hs_set demo_server 7 (hl_enc (demo_hlink\<lparr>hl_implicit := True\<rparr>)))
        = (DDS_RETCODE_OK, False, s')
      \<and> hs_table s' 7 = Some (hl_enc (demo_hlink\<lparr>hl_implicit := True, hl_refc := 1\<rparr>)))
   \<and> dds_handle_register_special demo_server False True 7 = (DDS_RETCODE_BAD_PARAMETER, demo_server\<lparr>hs_count := 2\<rparr>)
   \<and> hop_exec (Pin True) 7 (hs_set demo_server 7 (hl_enc (demo_hlink\<lparr>hl_pins := 4095\<rparr>)))
      = (DDS_RETCODE_OK, False, hs_set demo_server 7 (hl_enc (demo_hlink\<lparr>hl_refc := 3, hl_pins := 0\<rparr>)))"
proof -
  let ?h1 = "demo_hlink\<lparr>hl_implicit := True, hl_children := False\<rparr>" and ?h2 = "demo_hlink\<lparr>hl_implicit := True\<rparr>"
    and ?h4 = "demo_hlink\<lparr>hl_pins := 4095\<rparr>"
  have ok: "hl_ok ?h1" "hl_ok ?h2" "hl_ok ?h4" by (simp_all add: hl_ok_def demo_hlink_def)
  have t: "hs_table (hs_set demo_server 7 c) 7 = Some c" for c by simp
  have d1: "hop_ok (Delete True False) ?h1" and d2: "hop_ok (Delete False False) ?h2"
    by (simp_all add: demo_hlink_def)
  have "hl_enc ?h4 + 1 = hl_enc (demo_hlink\<lparr>hl_refc := 3, hl_pins := 0\<rparr>)"
    by (simp add: hl_enc_def hl_flags_def hl_low_def demo_hlink_def)
  then have "hop_exec (Pin True) 7 (hs_set demo_server 7 (hl_enc ?h4))
      = (DDS_RETCODE_OK, False, hs_set demo_server 7 (hl_enc (demo_hlink\<lparr>hl_refc := 3, hl_pins := 0\<rparr>)))"
    using pin_int_enc [OF ok(3) t, of 1 True]
    by (simp add: dds_handle_pin_with_origin_def demo_hlink_def) (simp add: hs_set_def hs_table_def demo_server_def)
  moreover have "dds_handle_register_special demo_server False True 7 = (DDS_RETCODE_BAD_PARAMETER, demo_server\<lparr>hs_count := 2\<rparr>)"
    by (simp add: dds_handle_register_special_def demo_server_def hs_table_def MAX_HANDLES_def)
  moreover have "\<exists>s'. hop_exec (Delete True False) 7 (hs_set demo_server 7 (hl_enc ?h1)) = (DDS_RETCODE_TRY_AGAIN, False, s')
      \<and> hs_table s' 7 = Some (hl_enc (demo_hlink\<lparr>hl_implicit := True, hl_children := False, hl_pins := 4, hl_closing := True\<rparr>))"
    using pin_for_delete_enc [OF ok(1) t d1] by (simp add: hop_eval)
  moreover have "\<exists>s'. hop_exec (Delete False False) 7 (hs_set demo_server 7 (hl_enc ?h2)) = (DDS_RETCODE_OK, False, s')
      \<and> hs_table s' 7 = Some (hl_enc (demo_hlink\<lparr>hl_implicit := True, hl_refc := 1\<rparr>))"
    using pin_for_delete_enc [OF ok(2) t d2] by (simp add: hop_eval)
  ultimately show ?thesis by blast
qed

end
