(* ===== verification/Avl.thy ===== *)
theory Avl
  imports Ordered_Index
begin

text \<open>
  The AVL trees of ddsrt/src/avl.c. A node carries its stored height as in the code. The parent
  pointers, which the code uses to walk back up, are the list of frames from a node to the root
  (innermost first), as is the explicit \<open>path\<close> of the path variants: each frame is a node with
  a hole for the child on the path. The loops that go up the tree consume that list, with the
  same early exit: a node whose height does not change ends the walk.

  Keys are read with \<open>key\<close> and compared in a linear order, which is what a comparison function
  has to be. \<open>dups\<close> is the flag \<open>DDSRT_AVL_TREEDEF_FLAG_ALLOWDUPS\<close>. Direct and indirect keys, the
  re-entrant comparison and node offsets are representation; trees with an augment function
  (used by a single caller; it makes the walk up go on to the root) are left out, as is the
  range walk over trees with duplicate keys.
\<close>

datatype 'a avl = Lf | Nd "'a avl" 'a nat "'a avl"

fun avl_inorder :: "'a avl \<Rightarrow> 'a list" where
  "avl_inorder Lf = []"
| "avl_inorder (Nd l x h r) = avl_inorder l @ x # avl_inorder r"

text \<open>\<open>node ? node->height : 0\<close>\<close>

fun avl_height :: "'a avl \<Rightarrow> nat" where
  "avl_height Lf = 0"
| "avl_height (Nd l x h r) = h"

fun avl_elem :: "'a avl \<Rightarrow> 'a option" where
  "avl_elem Lf = None"
| "avl_elem (Nd l x h r) = Some x"

text \<open>A node whose child \<open>cs[0]\<close> (\<open>cs[1]\<close>) is on the path.\<close>

datatype 'a avl_frame = Fr0 'a nat "'a avl" | Fr1 "'a avl" 'a nat

fun plug :: "'a avl_frame \<Rightarrow> 'a avl \<Rightarrow> 'a avl" where
  "plug (Fr0 x h r) t = Nd t x h r"
| "plug (Fr1 l x h) t = Nd l x h t"

fun close_path :: "'a avl_frame list \<Rightarrow> 'a avl \<Rightarrow> 'a avl" where
  "close_path [] t = t"
| "close_path (f # fs) t = close_path fs (plug f t)"

section \<open>Rebalancing\<close>

fun rotate_single :: "bool \<Rightarrow> 'a avl \<Rightarrow> 'a avl" where
  "rotate_single True (Nd (Nd u y hy z) x h v) =
     (let hn = (if z \<noteq> Lf then 1 + avl_height z else 1) in Nd u y (hn + 1) (Nd z x hn v))"
| "rotate_single False (Nd v x h (Nd z y hy u)) =
     (let hn = (if z \<noteq> Lf then 1 + avl_height z else 1) in Nd (Nd v x hn z) y (hn + 1) u)"
| "rotate_single d t = t"

fun rotate_double :: "bool \<Rightarrow> 'a avl \<Rightarrow> 'a avl" where
  "rotate_double True (Nd (Nd u y hy (Nd a z hz b)) x h v) = Nd (Nd u y hz a) z hy (Nd b x hz v)"
| "rotate_double False (Nd v x h (Nd (Nd b z hz a) y hy u)) = Nd (Nd v x hz b) z hy (Nd a y hz u)"
| "rotate_double d t = t"

text \<open>The direction is 1 (\<open>True\<close>) for a right rotation, done when \<open>cs[0]\<close> is too high.\<close>

fun avl_rotate :: "bool \<Rightarrow> 'a avl \<Rightarrow> 'a avl" where
  "avl_rotate True (Nd (Nd u y hy z) x h v) =
     (if avl_height u < avl_height z then rotate_double True (Nd (Nd u y hy z) x h v)
      else rotate_single True (Nd (Nd u y hy z) x h v))"
| "avl_rotate False (Nd v x h (Nd z y hy u)) =
     (if avl_height u < avl_height z then rotate_double False (Nd v x h (Nd z y hy u))
      else rotate_single False (Nd v x h (Nd z y hy u)))"
| "avl_rotate d t = t"

text \<open>The new subtree and whether the walk goes on to the parent.\<close>

fun rebalance_one :: "'a avl \<Rightarrow> 'a avl \<times> bool" where
  "rebalance_one Lf = (Lf, False)"
| "rebalance_one (Nd l x h r) =
     (if avl_height l > avl_height r + 1 then (avl_rotate True (Nd l x h r), True)
      else if avl_height l + 1 < avl_height r then (avl_rotate False (Nd l x h r), True)
      else
        (let height = (if avl_height l < avl_height r then avl_height r else avl_height l) + 1
         in if height = h then (Nd l x h r, False) else (Nd l x height r, True)))"

fun rebalance_path :: "'a avl_frame list \<Rightarrow> 'a avl \<Rightarrow> 'a avl" where
  "rebalance_path [] t = t"
| "rebalance_path (f # fs) t =
     (let (n, up) = rebalance_one (plug f t)
      in if up then rebalance_path fs n else close_path fs n)"

section \<open>Lookup, insertion, deletion\<close>

fun ddsrt_avl_lookup :: "('a \<Rightarrow> 'k::linorder) \<Rightarrow> 'k \<Rightarrow> 'a avl \<Rightarrow> 'a option" where
  "ddsrt_avl_lookup key k Lf = None"
| "ddsrt_avl_lookup key k (Nd l x h r) =
     (if key x = k then Some x
      else if key x \<le> k then ddsrt_avl_lookup key k r else ddsrt_avl_lookup key k l)"

fun lookup_path :: "('a \<Rightarrow> 'k::linorder) \<Rightarrow> 'k \<Rightarrow> 'a avl \<Rightarrow> 'a avl_frame list \<Rightarrow> 'a avl \<times> 'a avl_frame list" where
  "lookup_path key k Lf fs = (Lf, fs)"
| "lookup_path key k (Nd l x h r) fs =
     (if key x = k then (Nd l x h r, fs)
      else if key x \<le> k then lookup_path key k r (Fr1 l x h # fs)
      else lookup_path key k l (Fr0 x h r # fs))"

fun ipath_descend :: "('a \<Rightarrow> 'k::linorder) \<Rightarrow> 'k \<Rightarrow> 'a avl \<Rightarrow> 'a avl_frame list \<Rightarrow> 'a avl_frame list" where
  "ipath_descend key k Lf fs = fs"
| "ipath_descend key k (Nd l x h r) fs =
     (if key x \<le> k then ipath_descend key k r (Fr1 l x h # fs)
      else ipath_descend key k l (Fr0 x h r # fs))"

text \<open>The node found and the path for an insertion; \<open>None\<close>: the path is invalid.\<close>

definition ddsrt_avl_lookup_ipath ::
  "('a \<Rightarrow> 'k::linorder) \<Rightarrow> bool \<Rightarrow> 'k \<Rightarrow> 'a avl \<Rightarrow> 'a option \<times> 'a avl_frame list option" where
  "ddsrt_avl_lookup_ipath key dups k t =
     (let (n, fs) = lookup_path key k t []
      in if n = Lf then (None, Some fs)
         else if \<not> dups then (avl_elem n, None)
         else (avl_elem n, Some (ipath_descend key k n fs)))"

definition ddsrt_avl_lookup_dpath ::
  "('a \<Rightarrow> 'k::linorder) \<Rightarrow> 'k \<Rightarrow> 'a avl \<Rightarrow> 'a option \<times> 'a avl \<times> 'a avl_frame list" where
  "ddsrt_avl_lookup_dpath key k t = (let (n, fs) = lookup_path key k t [] in (avl_elem n, n, fs))"

definition ddsrt_avl_insert_ipath :: "'a avl_frame list \<Rightarrow> 'a \<Rightarrow> 'a avl" where
  "ddsrt_avl_insert_ipath path x = rebalance_path path (Nd Lf x 1 Lf)"

text \<open>Inserting a duplicate without the flag runs into an invalid path; the tree is then returned as it is.\<close>

definition ddsrt_avl_insert :: "('a \<Rightarrow> 'k::linorder) \<Rightarrow> bool \<Rightarrow> 'a \<Rightarrow> 'a avl \<Rightarrow> 'a avl" where
  "ddsrt_avl_insert key dups x t =
     (case snd (ddsrt_avl_lookup_ipath key dups (key x) t) of
        None \<Rightarrow> t
      | Some path \<Rightarrow> ddsrt_avl_insert_ipath path x)"

text \<open>The predecessor that takes the place of a node with two children: path to it, element, its left subtree.\<close>

fun subst_path :: "'a avl \<Rightarrow> 'a avl_frame list \<Rightarrow> ('a avl_frame list \<times> 'a \<times> 'a avl) option" where
  "subst_path Lf fs = None"
| "subst_path (Nd l x h r) fs = (if r = Lf then Some (fs, x, l) else subst_path r (Fr1 l x h # fs))"

fun delete_generic :: "'a avl \<Rightarrow> 'a avl_frame list \<Rightarrow> 'a avl" where
  "delete_generic Lf fs = close_path fs Lf"
| "delete_generic (Nd l x h r) fs =
     (if l = Lf then rebalance_path fs r
      else if r = Lf then rebalance_path fs l
      else
        (case subst_path l [] of
           None \<Rightarrow> close_path fs (Nd l x h r)
         | Some (inner, y, yl) \<Rightarrow> rebalance_path (inner @ Fr0 y h r # fs) yl))"

definition ddsrt_avl_delete_dpath :: "'a avl \<Rightarrow> 'a avl_frame list \<Rightarrow> 'a avl" where
  "ddsrt_avl_delete_dpath n path = delete_generic n path"

text \<open>
  A pointer to a node of the tree is the place of the node, the turns on the way to it from the root (\<open>True\<close> to
  \<open>cs[1]\<close>); its parent pointers are the frames on that way. A place names one node also when others have the same key.
\<close>

fun locate :: "bool list \<Rightarrow> 'a avl \<Rightarrow> 'a avl_frame list \<Rightarrow> 'a avl \<times> 'a avl_frame list" where
  "locate (d # ds) (Nd l x h r) fs =
     (if d then locate ds r (Fr1 l x h # fs) else locate ds l (Fr0 x h r # fs))"
| "locate ds t fs = (t, fs)"

definition ddsrt_avl_delete :: "bool list \<Rightarrow> 'a avl \<Rightarrow> 'a avl" where
  "ddsrt_avl_delete node t = (let (n, fs) = locate node t [] in delete_generic n fs)"

text \<open>The node that a lookup of a key finds, as a place\<close>

fun place_of :: "('a \<Rightarrow> 'k::linorder) \<Rightarrow> 'k \<Rightarrow> 'a avl \<Rightarrow> bool list" where
  "place_of key k Lf = []"
| "place_of key k (Nd l x h r) =
     (if key x = k then [] else if key x \<le> k then True # place_of key k r else False # place_of key k l)"

text \<open>\<open>vnew\<close> takes over the links and the height of \<open>vold\<close>.\<close>

definition ddsrt_avl_swap_node :: "bool list \<Rightarrow> 'a \<Rightarrow> 'a avl \<Rightarrow> 'a avl" where
  "ddsrt_avl_swap_node vold vnew t =
     (case locate vold t [] of
        (Lf, fs) \<Rightarrow> t
      | (Nd l x h r, fs) \<Rightarrow> close_path fs (Nd l vnew h r))"

section \<open>Neighbours and extrema\<close>

fun find_extremum :: "bool \<Rightarrow> 'a avl \<Rightarrow> 'a option" where
  "find_extremum dir Lf = None"
| "find_extremum dir (Nd l x h r) =
     (let c = (if dir then r else l) in if c = Lf then Some x else find_extremum dir c)"

definition ddsrt_avl_find_min :: "'a avl \<Rightarrow> 'a option" where
  "ddsrt_avl_find_min t = find_extremum False t"

definition ddsrt_avl_find_max :: "'a avl \<Rightarrow> 'a option" where
  "ddsrt_avl_find_max t = find_extremum True t"

text \<open>Going up: the first ancestor reached from the other side.\<close>

fun neighbour_up :: "bool \<Rightarrow> 'a avl_frame list \<Rightarrow> 'a option" where
  "neighbour_up dir [] = None"
| "neighbour_up dir (Fr0 x h r # fs) = (if dir then Some x else neighbour_up dir fs)"
| "neighbour_up dir (Fr1 l x h # fs) = (if dir then neighbour_up dir fs else Some x)"

fun find_neighbour :: "bool \<Rightarrow> 'a avl \<Rightarrow> 'a avl_frame list \<Rightarrow> 'a option" where
  "find_neighbour dir Lf fs = None"
| "find_neighbour dir (Nd l x h r) fs =
     (let c = (if dir then r else l)
      in if c \<noteq> Lf then find_extremum (\<not> dir) c else neighbour_up dir fs)"

text \<open>\<open>None\<close> for the node stands for \<open>NULL\<close>.\<close>

definition ddsrt_avl_find_pred :: "'a avl \<Rightarrow> bool list option \<Rightarrow> 'a option" where
  "ddsrt_avl_find_pred t node =
     (case node of None \<Rightarrow> ddsrt_avl_find_max t
      | Some p \<Rightarrow> (let (n, fs) = locate p t [] in find_neighbour False n fs))"

definition ddsrt_avl_find_succ :: "'a avl \<Rightarrow> bool list option \<Rightarrow> 'a option" where
  "ddsrt_avl_find_succ t node =
     (case node of None \<Rightarrow> ddsrt_avl_find_min t
      | Some p \<Rightarrow> (let (n, fs) = locate p t [] in find_neighbour True n fs))"

definition ddsrt_avl_is_empty :: "'a avl \<Rightarrow> bool" where
  "ddsrt_avl_is_empty t \<longleftrightarrow> t = Lf"

definition ddsrt_avl_is_singleton :: "'a avl \<Rightarrow> bool" where
  "ddsrt_avl_is_singleton t \<longleftrightarrow> t \<noteq> Lf \<and> avl_height t = 1"

definition ddsrt_avl_root :: "'a avl \<Rightarrow> 'a option" where
  "ddsrt_avl_root t = avl_elem t"

section \<open>Lookup of neighbours of a key\<close>

text \<open>The scan for the last (first) of several nodes with the key.\<close>

fun predsucceq_dups :: "('a \<Rightarrow> 'k::linorder) \<Rightarrow> 'k \<Rightarrow> bool \<Rightarrow> 'a avl \<Rightarrow> 'a option \<Rightarrow> 'a option" where
  "predsucceq_dups key k dir Lf cand = cand"
| "predsucceq_dups key k dir (Nd l x h r) cand =
     (if key x \<noteq> k then predsucceq_dups key k dir (if dir then r else l) cand
      else predsucceq_dups key k dir (if dir then l else r) (Some x))"

fun fixup_predsucceq :: "('a \<Rightarrow> 'k::linorder) \<Rightarrow> bool \<Rightarrow> 'k \<Rightarrow> bool \<Rightarrow> 'a avl \<Rightarrow> 'a option \<Rightarrow> 'a option" where
  "fixup_predsucceq key dups k dir Lf cand = cand"
| "fixup_predsucceq key dups k dir (Nd l x h r) cand =
     (if \<not> dups then Some x
      else predsucceq_dups key k dir (if dir then l else r) (Some x))"

fun lookup_predeq :: "('a \<Rightarrow> 'k::linorder) \<Rightarrow> bool \<Rightarrow> 'k \<Rightarrow> 'a avl \<Rightarrow> 'a option \<Rightarrow> 'a option" where
  "lookup_predeq key dups k Lf cand = fixup_predsucceq key dups k False Lf cand"
| "lookup_predeq key dups k (Nd l x h r) cand =
     (if key x = k then fixup_predsucceq key dups k False (Nd l x h r) cand
      else if key x < k then lookup_predeq key dups k r (Some x)
      else lookup_predeq key dups k l cand)"

fun lookup_succeq :: "('a \<Rightarrow> 'k::linorder) \<Rightarrow> bool \<Rightarrow> 'k \<Rightarrow> 'a avl \<Rightarrow> 'a option \<Rightarrow> 'a option" where
  "lookup_succeq key dups k Lf cand = fixup_predsucceq key dups k True Lf cand"
| "lookup_succeq key dups k (Nd l x h r) cand =
     (if key x = k then fixup_predsucceq key dups k True (Nd l x h r) cand
      else if key x > k then lookup_succeq key dups k l (Some x)
      else lookup_succeq key dups k r cand)"

fun predsucc_dups :: "('a \<Rightarrow> 'k::linorder) \<Rightarrow> 'k \<Rightarrow> bool \<Rightarrow> 'a avl \<Rightarrow> 'a option \<Rightarrow> 'a option" where
  "predsucc_dups key k dir Lf cand = cand"
| "predsucc_dups key k dir (Nd l x h r) cand =
     (if key x \<noteq> k then predsucc_dups key k dir (if dir then l else r) (Some x)
      else predsucc_dups key k dir (if dir then r else l) cand)"

fun fixup_predsucc :: "('a \<Rightarrow> 'k::linorder) \<Rightarrow> bool \<Rightarrow> 'k \<Rightarrow> bool \<Rightarrow> 'a avl \<Rightarrow> 'a option \<Rightarrow> 'a option" where
  "fixup_predsucc key dups k dir Lf cand = cand"
| "fixup_predsucc key dups k dir (Nd l x h r) cand =
     (let c = (if dir then r else l)
      in if c = Lf then cand
         else if \<not> dups then find_extremum (\<not> dir) c
         else predsucc_dups key k dir c cand)"

fun lookup_pred :: "('a \<Rightarrow> 'k::linorder) \<Rightarrow> bool \<Rightarrow> 'k \<Rightarrow> 'a avl \<Rightarrow> 'a option \<Rightarrow> 'a option" where
  "lookup_pred key dups k Lf cand = fixup_predsucc key dups k False Lf cand"
| "lookup_pred key dups k (Nd l x h r) cand =
     (if key x = k then fixup_predsucc key dups k False (Nd l x h r) cand
      else if key x < k then lookup_pred key dups k r (Some x)
      else lookup_pred key dups k l cand)"

fun lookup_succ :: "('a \<Rightarrow> 'k::linorder) \<Rightarrow> bool \<Rightarrow> 'k \<Rightarrow> 'a avl \<Rightarrow> 'a option \<Rightarrow> 'a option" where
  "lookup_succ key dups k Lf cand = fixup_predsucc key dups k True Lf cand"
| "lookup_succ key dups k (Nd l x h r) cand =
     (if key x = k then fixup_predsucc key dups k True (Nd l x h r) cand
      else if key x > k then lookup_succ key dups k l (Some x)
      else lookup_succ key dups k r cand)"

definition ddsrt_avl_lookup_pred_eq :: "('a \<Rightarrow> 'k::linorder) \<Rightarrow> bool \<Rightarrow> 'k \<Rightarrow> 'a avl \<Rightarrow> 'a option" where
  "ddsrt_avl_lookup_pred_eq key dups k t = lookup_predeq key dups k t None"

definition ddsrt_avl_lookup_succ_eq :: "('a \<Rightarrow> 'k::linorder) \<Rightarrow> bool \<Rightarrow> 'k \<Rightarrow> 'a avl \<Rightarrow> 'a option" where
  "ddsrt_avl_lookup_succ_eq key dups k t = lookup_succeq key dups k t None"

definition ddsrt_avl_lookup_pred :: "('a \<Rightarrow> 'k::linorder) \<Rightarrow> bool \<Rightarrow> 'k \<Rightarrow> 'a avl \<Rightarrow> 'a option" where
  "ddsrt_avl_lookup_pred key dups k t = lookup_pred key dups k t None"

definition ddsrt_avl_lookup_succ :: "('a \<Rightarrow> 'k::linorder) \<Rightarrow> bool \<Rightarrow> 'k \<Rightarrow> 'a avl \<Rightarrow> 'a option" where
  "ddsrt_avl_lookup_succ key dups k t = lookup_succ key dups k t None"

section \<open>Iteration\<close>

text \<open>
  The iterator's stack, top first, and its \<open>right\<close> field. The stack is never empty: an empty
  tree is its only element, and \<open>NULL\<close> on top is the end.
\<close>

record 'a avl_iter =
  it_todo :: "'a avl list"
  it_right :: "'a avl"

fun cs0 :: "'a avl \<Rightarrow> 'a avl" where
  "cs0 Lf = Lf"
| "cs0 (Nd l x h r) = l"

fun cs1 :: "'a avl \<Rightarrow> 'a avl" where
  "cs1 Lf = Lf"
| "cs1 (Nd l x h r) = r"

fun push_left :: "'a avl \<Rightarrow> 'a avl list \<Rightarrow> 'a avl list" where
  "push_left Lf st = st"
| "push_left (Nd l x h r) st = push_left l (Nd l x h r # st)"

definition avl_iter_downleft :: "'a avl_iter \<Rightarrow> 'a avl_iter" where
  "avl_iter_downleft it =
     (if hd (it_todo it) \<noteq> Lf then
        (let st = push_left (cs0 (hd (it_todo it))) (it_todo it)
         in it\<lparr>it_todo := st, it_right := cs1 (hd st)\<rparr>)
      else it)"

definition ddsrt_avl_iter_first :: "'a avl \<Rightarrow> 'a option \<times> 'a avl_iter" where
  "ddsrt_avl_iter_first t =
     (let it = avl_iter_downleft \<lparr>it_todo = [t], it_right = Lf\<rparr> in (avl_elem (hd (it_todo it)), it))"

definition ddsrt_avl_iter_next :: "'a avl_iter \<Rightarrow> 'a option \<times> 'a avl_iter" where
  "ddsrt_avl_iter_next it =
     (let st = tl (it_todo it);
          it' = (if st \<noteq> [] \<and> it_right it = Lf then it\<lparr>it_todo := st, it_right := cs1 (hd st)\<rparr>
                 else avl_iter_downleft (it\<lparr>it_todo := it_right it # st\<rparr>))
      in (avl_elem (hd (it_todo it')), it'))"

text \<open>
  Iteration from a key: the nodes passed on the way down whose key is larger stay on the stack.
  When the stack is empty there is nothing to visit; \<open>right\<close> is not written then.
\<close>

fun iter_descend :: "('a \<Rightarrow> 'k::linorder) \<Rightarrow> 'k \<Rightarrow> 'a avl \<Rightarrow> 'a avl list \<Rightarrow> 'a avl \<times> 'a avl list" where
  "iter_descend key k Lf st = (Lf, st)"
| "iter_descend key k (Nd l x h r) st =
     (if key x = k then (Nd l x h r, st)
      else if key x > k then iter_descend key k l (Nd l x h r # st)
      else iter_descend key k r st)"

fun iter_eq_dups :: "('a \<Rightarrow> 'k::linorder) \<Rightarrow> 'k \<Rightarrow> 'a avl \<Rightarrow> 'a avl list \<Rightarrow> 'a avl list" where
  "iter_eq_dups key k Lf st = st"
| "iter_eq_dups key k (Nd l x h r) st =
     (if key x \<noteq> k then iter_eq_dups key k r st else iter_eq_dups key k l (Nd l x h r # st))"

fun iter_gt_dups :: "('a \<Rightarrow> 'k::linorder) \<Rightarrow> 'k \<Rightarrow> 'a avl \<Rightarrow> 'a avl list \<Rightarrow> 'a avl list" where
  "iter_gt_dups key k Lf st = st"
| "iter_gt_dups key k (Nd l x h r) st =
     (if key x \<noteq> k then iter_gt_dups key k l (Nd l x h r # st) else iter_gt_dups key k r st)"

definition iter_start :: "'a avl list \<Rightarrow> 'a option \<times> 'a avl_iter" where
  "iter_start st =
     (if st = [] then (None, \<lparr>it_todo = [], it_right = Lf\<rparr>)
      else (avl_elem (hd st), \<lparr>it_todo = st, it_right = cs1 (hd st)\<rparr>))"

definition ddsrt_avl_iter_succ_eq :: "('a \<Rightarrow> 'k::linorder) \<Rightarrow> bool \<Rightarrow> 'a avl \<Rightarrow> 'k \<Rightarrow> 'a option \<times> 'a avl_iter" where
  "ddsrt_avl_iter_succ_eq key dups t k =
     (let (tmp, st) = iter_descend key k t [];
          st1 = (if tmp \<noteq> Lf then (if dups then iter_eq_dups key k (cs0 tmp) (tmp # st) else tmp # st) else st)
      in iter_start st1)"

definition ddsrt_avl_iter_succ :: "('a \<Rightarrow> 'k::linorder) \<Rightarrow> bool \<Rightarrow> 'a avl \<Rightarrow> 'k \<Rightarrow> 'a option \<times> 'a avl_iter" where
  "ddsrt_avl_iter_succ key dups t k =
     (let (tmp, st) = iter_descend key k t [];
          st1 = (if tmp \<noteq> Lf then
                   (if \<not> dups then push_left (cs1 tmp) st else iter_gt_dups key k (cs1 tmp) st)
                 else st)
      in iter_start st1)"

text \<open>\<open>ddsrt_avl_walk\<close>: the elements in the order in which the callback sees them.\<close>

fun avl_weight :: "'a avl \<Rightarrow> nat" where
  "avl_weight Lf = 0"
| "avl_weight (Nd l x h r) = avl_weight l + avl_weight r + 2"

text \<open>
  \<open>walk_up\<close> is the inner loop, which visits the top of the stack, and \<open>walk_down\<close> the outer
  one, which goes down to the left first.
\<close>

definition walk_todo :: "'a avl list \<Rightarrow> nat" where
  "walk_todo st = (\<Sum>t\<leftarrow>st. avl_weight (cs1 t) + 2)"

lemma walk_todo_simps [simp]:
  "walk_todo [] = 0"
  "walk_todo (t # st) = avl_weight (cs1 t) + 2 + walk_todo st"
  by (simp_all add: walk_todo_def)

lemma walk_todo_push: "walk_todo (push_left t st) = avl_weight t + walk_todo st"
  by (induction t st rule: push_left.induct) auto

function walk_up :: "'a avl list \<Rightarrow> 'a list" and walk_down :: "'a avl \<Rightarrow> 'a avl list \<Rightarrow> 'a list" where
  "walk_up [] = []"
| "walk_up (n # st) =
     (case avl_elem n of None \<Rightarrow> [] | Some x \<Rightarrow> [x]) @
     (if st \<noteq> [] \<and> cs1 n = Lf then walk_up st else walk_down (cs1 n) st)"
| "walk_down n st = (if n \<noteq> Lf then walk_up (push_left n st) else [])"
  by pat_completeness auto

termination
proof (relation "measure (\<lambda>z. case z of Inl st \<Rightarrow> 2 * walk_todo st | Inr (n, st) \<Rightarrow> 2 * (avl_weight n + walk_todo st) + 1)", goal_cases)
  case (4 n st)
  then show ?case by (cases n) (simp_all add: walk_todo_push)
qed auto

definition ddsrt_avl_walk :: "'a avl \<Rightarrow> 'a list" where
  "ddsrt_avl_walk t = walk_down t []"

text \<open>
  Walks over a range of keys, for trees without duplicates: from node to neighbouring node, which
  the model finds by its key. The loop ends when there is no neighbour or it is out of range.
\<close>

partial_function (option) walk_range_loop ::
  "('a \<Rightarrow> 'k::linorder) \<Rightarrow> 'a avl \<Rightarrow> 'k \<Rightarrow> 'a option \<Rightarrow> 'a list option" where
  "walk_range_loop key t mx n =
     (case n of
        None \<Rightarrow> Some []
      | Some x \<Rightarrow>
          if key x \<le> mx then
            Option.bind (walk_range_loop key t mx (ddsrt_avl_find_succ t (Some (place_of key (key x) t)))) (\<lambda>xs. Some (x # xs))
          else Some [])"

partial_function (option) walk_range_reverse_loop ::
  "('a \<Rightarrow> 'k::linorder) \<Rightarrow> 'a avl \<Rightarrow> 'k \<Rightarrow> 'a option \<Rightarrow> 'a list option" where
  "walk_range_reverse_loop key t mn n =
     (case n of
        None \<Rightarrow> Some []
      | Some x \<Rightarrow>
          if mn \<le> key x then
            Option.bind (walk_range_reverse_loop key t mn (ddsrt_avl_find_pred t (Some (place_of key (key x) t)))) (\<lambda>xs. Some (x # xs))
          else Some [])"

definition ddsrt_avl_walk_range :: "('a \<Rightarrow> 'k::linorder) \<Rightarrow> 'a avl \<Rightarrow> 'k \<Rightarrow> 'k \<Rightarrow> 'a list option" where
  "ddsrt_avl_walk_range key t mn mx = walk_range_loop key t mx (lookup_succeq key False mn t None)"

definition ddsrt_avl_walk_range_reverse :: "('a \<Rightarrow> 'k::linorder) \<Rightarrow> 'a avl \<Rightarrow> 'k \<Rightarrow> 'k \<Rightarrow> 'a list option" where
  "ddsrt_avl_walk_range_reverse key t mn mx = walk_range_reverse_loop key t mn (lookup_predeq key False mx t None)"

section \<open>Freeing\<close>

text \<open>The nodes in the order in which \<open>freefun\<close> gets them: children first.\<close>

fun treedestroy :: "'a avl \<Rightarrow> 'a list" where
  "treedestroy Lf = []"
| "treedestroy (Nd l x h r) = treedestroy l @ treedestroy r @ [x]"

definition ddsrt_avl_free :: "'a avl \<Rightarrow> 'a avl \<times> 'a list" where
  "ddsrt_avl_free t = (Lf, treedestroy t)"

section \<open>Counting trees\<close>

record 'a avl_ctree =
  ct_t :: "'a avl"
  ct_count :: nat

definition ddsrt_avl_cinit :: "'a avl_ctree" where
  "ddsrt_avl_cinit = \<lparr>ct_t = Lf, ct_count = 0\<rparr>"

definition ddsrt_avl_cinsert :: "('a \<Rightarrow> 'k::linorder) \<Rightarrow> bool \<Rightarrow> 'a \<Rightarrow> 'a avl_ctree \<Rightarrow> 'a avl_ctree" where
  "ddsrt_avl_cinsert key dups x c =
     c\<lparr>ct_count := ct_count c + 1, ct_t := ddsrt_avl_insert key dups x (ct_t c)\<rparr>"

definition ddsrt_avl_cinsert_ipath :: "'a \<Rightarrow> 'a avl_frame list \<Rightarrow> 'a avl_ctree \<Rightarrow> 'a avl_ctree" where
  "ddsrt_avl_cinsert_ipath x path c = c\<lparr>ct_count := ct_count c + 1, ct_t := ddsrt_avl_insert_ipath path x\<rparr>"

definition ddsrt_avl_cdelete :: "bool list \<Rightarrow> 'a avl_ctree \<Rightarrow> 'a avl_ctree" where
  "ddsrt_avl_cdelete node c = c\<lparr>ct_count := ct_count c - 1, ct_t := ddsrt_avl_delete node (ct_t c)\<rparr>"

definition ddsrt_avl_cdelete_dpath :: "'a avl \<Rightarrow> 'a avl_frame list \<Rightarrow> 'a avl_ctree \<Rightarrow> 'a avl_ctree" where
  "ddsrt_avl_cdelete_dpath n path c = c\<lparr>ct_count := ct_count c - 1, ct_t := ddsrt_avl_delete_dpath n path\<rparr>"

definition ddsrt_avl_ccount :: "'a avl_ctree \<Rightarrow> nat" where
  "ddsrt_avl_ccount c = ct_count c"

end
