(* ===== verification/Avl_Props.thy ===== *)
theory Avl_Props
  imports Avl
begin

text \<open>
  The trees of \<open>Avl\<close> implement the ordered index: stored heights are the real ones and every
  node is balanced after every operation, in spite of the early exits, and each operation is
  the reference operation on the key-ordered list of elements.
\<close>

section \<open>Balance\<close>

fun avl_ok :: "'a avl \<Rightarrow> bool" where
  "avl_ok Lf \<longleftrightarrow> True"
| "avl_ok (Nd l x h r) \<longleftrightarrow> avl_ok l \<and> avl_ok r \<and> h = max (avl_height l) (avl_height r) + 1
     \<and> avl_height l \<le> avl_height r + 1 \<and> avl_height r \<le> avl_height l + 1"

text \<open>The frames fit a hole that had height \<open>h\<close>.\<close>

fun frames_ok :: "'a avl_frame list \<Rightarrow> nat \<Rightarrow> bool" where
  "frames_ok [] h \<longleftrightarrow> True"
| "frames_ok (Fr0 x n r # fs) h \<longleftrightarrow> avl_ok r \<and> n = max h (avl_height r) + 1
     \<and> h \<le> avl_height r + 1 \<and> avl_height r \<le> h + 1 \<and> frames_ok fs n"
| "frames_ok (Fr1 l x n # fs) h \<longleftrightarrow> avl_ok l \<and> n = max (avl_height l) h + 1
     \<and> h \<le> avl_height l + 1 \<and> avl_height l \<le> h + 1 \<and> frames_ok fs n"

lemma avl_ok_height_0: "avl_ok t \<Longrightarrow> avl_height t = 0 \<longleftrightarrow> t = Lf"
  by (cases t) auto

lemma rotate_inorder [simp]: "avl_inorder (avl_rotate d t) = avl_inorder t"
proof (cases "(d, t)" rule: avl_rotate.cases)
  case (1 u y hy z x h v)
  then show ?thesis by (cases z) (auto simp: Let_def)
next
  case (2 v x h z y hy u)
  then show ?thesis by (cases z) (auto simp: Let_def)
qed auto

lemma rebalance_one_inorder: "avl_inorder (fst (rebalance_one t)) = avl_inorder t"
  by (cases t) (auto simp: Let_def)

text \<open>A right rotation where \<open>cs[0]\<close> is two higher, a left one where \<open>cs[1]\<close> is.\<close>

lemma rotate_right_ok:
  assumes "avl_ok l" "avl_ok r" "avl_height l = avl_height r + 2"
  shows "avl_ok (avl_rotate True (Nd l x h r)) \<and> avl_height (avl_rotate True (Nd l x h r)) \<le> avl_height r + 3
    \<and> avl_height r + 2 \<le> avl_height (avl_rotate True (Nd l x h r))"
proof (cases l)
  case (Nd u y hy z)
  show ?thesis
  proof (cases "avl_height u < avl_height z")
    case True
    then obtain a w hz b where z: "z = Nd a w hz b" using assms Nd by (cases z) auto
    show ?thesis using assms True unfolding Nd z by auto
  next
    case False
    then show ?thesis using assms unfolding Nd by (cases z) (auto simp: Let_def max_def)
  qed
qed (use assms in simp)

lemma rotate_left_ok:
  assumes "avl_ok l" "avl_ok r" "avl_height r = avl_height l + 2"
  shows "avl_ok (avl_rotate False (Nd l x h r)) \<and> avl_height (avl_rotate False (Nd l x h r)) \<le> avl_height l + 3
    \<and> avl_height l + 2 \<le> avl_height (avl_rotate False (Nd l x h r))"
proof (cases r)
  case (Nd z y hy u)
  show ?thesis
  proof (cases "avl_height u < avl_height z")
    case True
    then obtain b w hz a where z: "z = Nd b w hz a" using assms Nd by (cases z) auto
    show ?thesis using assms True unfolding Nd z by auto
  next
    case False
    then show ?thesis using assms unfolding Nd by (cases z) (auto simp: Let_def max_def)
  qed
qed (use assms in simp)

text \<open>One level of the walk up: the node is repaired, and the walk stops only when its height is unchanged.\<close>

lemma rebalance_one_ok:
  assumes "avl_ok l" "avl_ok r" "avl_height l \<le> avl_height r + 2" "avl_height r \<le> avl_height l + 2"
    and "n \<le> max (avl_height l) (avl_height r) + 2" "max (avl_height l) (avl_height r) \<le> n"
    and "avl_height l = avl_height r + 2 \<or> avl_height r = avl_height l + 2 \<longrightarrow> n \<noteq> max (avl_height l) (avl_height r) + 2"
    and "rebalance_one (Nd l x n r) = (t', up)"
  shows "avl_ok t' \<and> avl_height t' \<le> n + 1 \<and> n \<le> avl_height t' + 1 \<and> (\<not> up \<longrightarrow> avl_height t' = n)"
proof -
  consider "avl_height l = avl_height r + 2" | "avl_height r = avl_height l + 2"
    | "avl_height l \<le> avl_height r + 1" "avl_height r \<le> avl_height l + 1" using assms(3,4) by linarith
  then show ?thesis
  proof cases
    case 1
    with rotate_right_ok [OF assms(1,2), of x n] assms show ?thesis by (auto simp: max_def)
  next
    case 2
    with rotate_left_ok [OF assms(1,2), of x n] assms show ?thesis by (auto simp: max_def)
  next
    case 3
    with assms show ?thesis by (auto simp: Let_def max_def split: if_splits)
  qed
qed

lemma close_path_ok: "frames_ok fs (avl_height t) \<Longrightarrow> avl_ok t \<Longrightarrow> avl_ok (close_path fs t)"
proof (induction fs arbitrary: t)
  case (Cons f fs)
  then show ?case by (cases f) auto
qed simp

lemma rebalance_path_ok:
  assumes "frames_ok fs h" "avl_ok t" "avl_height t \<le> h + 1" "h \<le> avl_height t + 1"
  shows "avl_ok (rebalance_path fs t)"
  using assms
proof (induction fs arbitrary: h t)
  case (Cons f fs)
  obtain t' up where r: "rebalance_one (plug f t) = (t', up)" by fastforce
  have "\<exists>n. frames_ok fs n \<and> avl_ok t' \<and> avl_height t' \<le> n + 1 \<and> n \<le> avl_height t' + 1 \<and> (\<not> up \<longrightarrow> avl_height t' = n)"
  proof (cases f)
    case (Fr0 x n s)
    then have p: "avl_ok s" "n = max h (avl_height s) + 1" "h \<le> avl_height s + 1" "avl_height s \<le> h + 1" "frames_ok fs n"
      using Cons.prems(1) by auto
    have "avl_ok t' \<and> avl_height t' \<le> n + 1 \<and> n \<le> avl_height t' + 1 \<and> (\<not> up \<longrightarrow> avl_height t' = n)"
      by (rule rebalance_one_ok [of t s n x]) (use Cons.prems(2-4) p r Fr0 in auto)
    with p(5) show ?thesis by blast
  next
    case (Fr1 s x n)
    then have p: "avl_ok s" "n = max (avl_height s) h + 1" "h \<le> avl_height s + 1" "avl_height s \<le> h + 1" "frames_ok fs n"
      using Cons.prems(1) by auto
    have "avl_ok t' \<and> avl_height t' \<le> n + 1 \<and> n \<le> avl_height t' + 1 \<and> (\<not> up \<longrightarrow> avl_height t' = n)"
      by (rule rebalance_one_ok [of s t n x]) (use Cons.prems(2-4) p r Fr1 in auto)
    with p(5) show ?thesis by blast
  qed
  with Cons.IH close_path_ok r show ?case by (cases up) auto
qed simp

section \<open>What the frames stand for in the ordered list\<close>

fun before :: "'a avl_frame list \<Rightarrow> 'a list" where
  "before [] = []"
| "before (Fr0 x h r # fs) = before fs"
| "before (Fr1 l x h # fs) = before fs @ avl_inorder l @ [x]"

fun after :: "'a avl_frame list \<Rightarrow> 'a list" where
  "after [] = []"
| "after (Fr0 x h r # fs) = x # avl_inorder r @ after fs"
| "after (Fr1 l x h # fs) = after fs"

lemma close_path_inorder: "avl_inorder (close_path fs t) = before fs @ avl_inorder t @ after fs"
proof (induction fs arbitrary: t)
  case (Cons f fs)
  then show ?case by (cases f) auto
qed simp

lemma plug_inorder: "before fs @ avl_inorder (plug f t) @ after fs = before (f # fs) @ avl_inorder t @ after (f # fs)"
  by (cases f) auto

lemma rebalance_path_inorder: "avl_inorder (rebalance_path fs t) = before fs @ avl_inorder t @ after fs"
proof (induction fs arbitrary: t)
  case (Cons f fs)
  have "avl_inorder (fst (rebalance_one (plug f t))) = avl_inorder (plug f t)" by (rule rebalance_one_inorder)
  with Cons plug_inorder [of fs f t] show ?case by (auto simp: close_path_inorder split: prod.splits)
qed simp

lemma before_append: "before (fs @ gs) = before gs @ before fs" "after (fs @ gs) = after fs @ after gs"
proof (induction fs)
  case (Cons f fs)
  { case 1 then show ?case using Cons by (cases f) auto }
  { case 2 then show ?case using Cons by (cases f) auto }
qed simp_all

section \<open>Where the paths lead\<close>

text \<open>Weakly sorted by key; strictly when the flag for duplicates is off.\<close>

definition key_sorted :: "('a \<Rightarrow> 'k::linorder) \<Rightarrow> bool \<Rightarrow> 'a list \<Rightarrow> bool" where
  "key_sorted key dups xs \<longleftrightarrow> sorted_wrt (\<lambda>a b. if dups then key a \<le> key b else key a < key b) xs"

lemma key_sorted_append:
  "key_sorted key dups (xs @ ys) \<longleftrightarrow> key_sorted key dups xs \<and> key_sorted key dups ys
     \<and> (\<forall>x\<in>set xs. \<forall>y\<in>set ys. if dups then key x \<le> key y else key x < key y)"
  by (simp add: key_sorted_def sorted_wrt_append)

lemma key_sorted_Cons [simp]:
  "key_sorted key dups (x # xs) \<longleftrightarrow> (\<forall>y\<in>set xs. if dups then key x \<le> key y else key x < key y) \<and> key_sorted key dups xs"
  "key_sorted key dups []"
  by (simp_all add: key_sorted_def)

lemma key_sorted_strict: "key_sorted key False xs \<longleftrightarrow> idx_wf key xs"
  by (simp add: key_sorted_def idx_wf_def)

definition avl_inv :: "('a \<Rightarrow> 'k::linorder) \<Rightarrow> bool \<Rightarrow> 'a avl \<Rightarrow> bool" where
  "avl_inv key dups t \<longleftrightarrow> avl_ok t \<and> key_sorted key dups (avl_inorder t)"

lemma inv_key_sorted: "avl_inv key dups t \<Longrightarrow> key_sorted key dups (avl_inorder t)"
  by (simp add: avl_inv_def)

text \<open>The lookup path: below it everything smaller than the key, above it everything larger.\<close>

lemma lookup_path_spec:
  assumes "key_sorted key dups (avl_inorder t)" "lookup_path key k t fs = (n, fs')"
    and "frames_ok fs (avl_height t)" "avl_ok t"
  shows "\<exists>A B. before fs' = before fs @ A \<and> after fs' = B @ after fs \<and> avl_inorder t = A @ avl_inorder n @ B
    \<and> (\<forall>a\<in>set A. key a < k) \<and> (\<forall>b\<in>set B. k < key b) \<and> frames_ok fs' (avl_height n) \<and> avl_ok n
    \<and> (\<forall>x. avl_elem n = Some x \<longrightarrow> key x = k)"
  using assms
proof (induction t arbitrary: fs)
  case Lf
  then show ?case by auto
next
  case (Nd l x h r)
  have srt: "key_sorted key dups (avl_inorder l)" "key_sorted key dups (avl_inorder r)"
    "\<forall>y\<in>set (avl_inorder l). key y \<le> key x" "\<forall>y\<in>set (avl_inorder r). key x \<le> key y"
    using Nd.prems(1) by (auto simp: key_sorted_append split: if_splits intro: less_imp_le)
  consider "key x = k" | "key x < k" | "k < key x" by fastforce
  then show ?case
  proof cases
    case 1
    with Nd.prems show ?thesis by (intro exI [of _ "[]"]) auto
  next
    case 2
    then have "key x \<noteq> k" "key x \<le> k" by auto
    with Nd.prems have "lookup_path key k r (Fr1 l x h # fs) = (n, fs')" "frames_ok (Fr1 l x h # fs) (avl_height r)" "avl_ok r"
      by auto
    from Nd.IH(2) [OF srt(2) this] obtain A B where
      "before fs' = before (Fr1 l x h # fs) @ A" "after fs' = B @ after (Fr1 l x h # fs)"
      "avl_inorder r = A @ avl_inorder n @ B" "\<forall>a\<in>set A. key a < k" "\<forall>b\<in>set B. k < key b"
      "frames_ok fs' (avl_height n) \<and> avl_ok n \<and> (\<forall>x. avl_elem n = Some x \<longrightarrow> key x = k)" by blast
    with 2 srt(3) show ?thesis by (intro exI [of _ "avl_inorder l @ x # A"] exI [of _ B]) auto
  next
    case 3
    then have "key x \<noteq> k" "\<not> key x \<le> k" by auto
    with Nd.prems have "lookup_path key k l (Fr0 x h r # fs) = (n, fs')" "frames_ok (Fr0 x h r # fs) (avl_height l)" "avl_ok l"
      by auto
    from Nd.IH(1) [OF srt(1) this] obtain A B where
      "before fs' = before (Fr0 x h r # fs) @ A" "after fs' = B @ after (Fr0 x h r # fs)"
      "avl_inorder l = A @ avl_inorder n @ B" "\<forall>a\<in>set A. key a < k" "\<forall>b\<in>set B. k < key b"
      "frames_ok fs' (avl_height n) \<and> avl_ok n \<and> (\<forall>x. avl_elem n = Some x \<longrightarrow> key x = k)" by blast
    with 3 srt(4) show ?thesis by (intro exI [of _ A] exI [of _ "B @ x # avl_inorder r"]) auto
  qed
qed

lemma ipath_descend_spec:
  assumes "key_sorted key dups (avl_inorder t)" "ipath_descend key k t fs = fs'"
    and "frames_ok fs (avl_height t)" "avl_ok t"
  shows "\<exists>A B. before fs' = before fs @ A \<and> after fs' = B @ after fs \<and> avl_inorder t = A @ B
    \<and> (\<forall>a\<in>set A. key a \<le> k) \<and> (\<forall>b\<in>set B. k < key b) \<and> frames_ok fs' 0"
  using assms
proof (induction t arbitrary: fs)
  case Lf
  then show ?case by auto
next
  case (Nd l x h r)
  have srt: "key_sorted key dups (avl_inorder l)" "key_sorted key dups (avl_inorder r)"
    "\<forall>y\<in>set (avl_inorder l). key y \<le> key x" "\<forall>y\<in>set (avl_inorder r). key x \<le> key y"
    using Nd.prems(1) by (auto simp: key_sorted_append split: if_splits intro: less_imp_le)
  show ?case
  proof (cases "key x \<le> k")
    case True
    with Nd.prems have "ipath_descend key k r (Fr1 l x h # fs) = fs'" "frames_ok (Fr1 l x h # fs) (avl_height r)" "avl_ok r"
      by auto
    from Nd.IH(2) [OF srt(2) this] obtain A B where
      "before fs' = before (Fr1 l x h # fs) @ A" "after fs' = B @ after (Fr1 l x h # fs)"
      "avl_inorder r = A @ B" "\<forall>a\<in>set A. key a \<le> k" "\<forall>b\<in>set B. k < key b" "frames_ok fs' 0" by blast
    with True srt(3) show ?thesis by (intro exI [of _ "avl_inorder l @ x # A"] exI [of _ B]) auto
  next
    case False
    with Nd.prems have "ipath_descend key k l (Fr0 x h r # fs) = fs'" "frames_ok (Fr0 x h r # fs) (avl_height l)" "avl_ok l"
      by auto
    from Nd.IH(1) [OF srt(1) this] obtain A B where
      "before fs' = before (Fr0 x h r # fs) @ A" "after fs' = B @ after (Fr0 x h r # fs)"
      "avl_inorder l = A @ B" "\<forall>a\<in>set A. key a \<le> k" "\<forall>b\<in>set B. k < key b" "frames_ok fs' 0" by blast
    with False srt(4) show ?thesis by (intro exI [of _ A] exI [of _ "B @ x # avl_inorder r"]) auto
  qed
qed

text \<open>An insertion puts the node after every node with a smaller or an equal key.\<close>

lemma insert_ipath_spec:
  assumes "frames_ok fs 0"
  shows "avl_ok (ddsrt_avl_insert_ipath fs x) \<and> avl_inorder (ddsrt_avl_insert_ipath fs x) = before fs @ x # after fs"
  using rebalance_path_ok [OF assms, of "Nd Lf x 1 Lf"] rebalance_path_inorder [of fs "Nd Lf x 1 Lf"]
  by (simp add: ddsrt_avl_insert_ipath_def)

lemma insert_spec:
  assumes "avl_inv key dups t" "dups \<or> (\<forall>y\<in>set (avl_inorder t). key y \<noteq> key x)"
  shows "\<exists>A B. avl_inorder t = A @ B \<and> (\<forall>a\<in>set A. key a \<le> key x) \<and> (\<forall>b\<in>set B. key x < key b)
    \<and> avl_ok (ddsrt_avl_insert key dups x t) \<and> avl_inorder (ddsrt_avl_insert key dups x t) = A @ x # B"
proof -
  from assms(1) have srt: "key_sorted key dups (avl_inorder t)" and ok: "avl_ok t" by (simp_all add: avl_inv_def)
  obtain n fs where l: "lookup_path key (key x) t [] = (n, fs)" by fastforce
  from lookup_path_spec [OF srt l _ ok] obtain A B where p: "before fs = A" "after fs = B"
    "avl_inorder t = A @ avl_inorder n @ B" "\<forall>a\<in>set A. key a < key x" "\<forall>b\<in>set B. key x < key b"
    "frames_ok fs (avl_height n)" "avl_ok n" "\<forall>y. avl_elem n = Some y \<longrightarrow> key y = key x" by auto
  show ?thesis
  proof (cases n)
    case Lf
    then have "ddsrt_avl_insert key dups x t = ddsrt_avl_insert_ipath fs x"
      by (simp add: ddsrt_avl_insert_def ddsrt_avl_lookup_ipath_def l)
    with insert_ipath_spec [of fs x] p Lf show ?thesis by (intro exI [of _ A] exI [of _ B]) (auto intro: less_imp_le)
  next
    case (Nd u z h v)
    with p(3,8) assms(2) have dups: dups by auto
    let ?fs = "ipath_descend key (key x) n fs"
    have "key_sorted key dups (avl_inorder n)" using srt p(3) by (simp add: key_sorted_append)
    from ipath_descend_spec [OF this refl p(6,7), of "key x"] p(1,2) obtain C D where q:
      "before ?fs = A @ C" "after ?fs = D @ B" "avl_inorder n = C @ D" "\<forall>a\<in>set C. key a \<le> key x"
      "\<forall>b\<in>set D. key x < key b" "frames_ok ?fs 0" by blast
    have "ddsrt_avl_insert key dups x t = ddsrt_avl_insert_ipath ?fs x"
      using Nd dups by (simp add: ddsrt_avl_insert_def ddsrt_avl_lookup_ipath_def l)
    with insert_ipath_spec [OF q(6), of x] p(3-5) q show ?thesis
      by (intro exI [of _ "A @ C"] exI [of _ "D @ B"]) (auto intro: less_imp_le)
  qed
qed

text \<open>A deletion takes exactly the root of the subtree found out of the list.\<close>

lemma subst_path_spec:
  assumes "subst_path t fs = Some (gs, y, yl)" "frames_ok fs (avl_height t)" "avl_ok t"
  shows "\<exists>hs. gs = hs @ fs \<and> avl_inorder t = before hs @ avl_inorder yl @ [y] \<and> after hs = []
    \<and> (\<exists>h. frames_ok gs h \<and> avl_ok yl \<and> h = avl_height yl + 1)"
  using assms
proof (induction t arbitrary: fs)
  case (Nd l x h r)
  show ?case
  proof (cases "r = Lf")
    case True
    with Nd.prems show ?thesis by (intro exI [of _ "[]"]) auto
  next
    case False
    with Nd.prems have "subst_path r (Fr1 l x h # fs) = Some (gs, y, yl)" "frames_ok (Fr1 l x h # fs) (avl_height r)" "avl_ok r"
      by auto
    from Nd.IH(2) [OF this] obtain hs where "gs = hs @ Fr1 l x h # fs" "avl_inorder r = before hs @ avl_inorder yl @ [y]"
      "after hs = []" "\<exists>h. frames_ok gs h \<and> avl_ok yl \<and> h = avl_height yl + 1" by blast
    then show ?thesis by (intro exI [of _ "hs @ [Fr1 l x h]"]) (auto simp: before_append)
  qed
qed simp

lemma subst_path_append:
  "subst_path t fs = map_option (\<lambda>(gs, y, yl). (gs @ fs, y, yl)) (subst_path t [])"
proof (induction t arbitrary: fs)
  case (Nd l x h r)
  show ?case
    using Nd.IH(2) [of "Fr1 l x h # fs"] Nd.IH(2) [of "[Fr1 l x h]"]
    by (cases "subst_path r []") (auto split: prod.splits)
qed simp

lemma subst_path_ex: "t \<noteq> Lf \<Longrightarrow> subst_path t fs \<noteq> None"
  by (induction t arbitrary: fs) auto

lemma delete_generic_spec:
  assumes "frames_ok fs (avl_height (Nd l x h r))" "avl_ok (Nd l x h r)"
  shows "avl_ok (delete_generic (Nd l x h r) fs)
    \<and> avl_inorder (delete_generic (Nd l x h r) fs) = before fs @ avl_inorder l @ avl_inorder r @ after fs"
proof -
  have fr: "frames_ok fs h" using assms(1) by simp
  consider "l = Lf" | "l \<noteq> Lf" "r = Lf" | "l \<noteq> Lf" "r \<noteq> Lf" by blast
  then show ?thesis
  proof cases
    case 1
    with rebalance_path_ok [OF fr, of r] assms(2) rebalance_path_inorder [of fs r] show ?thesis by auto
  next
    case 2
    with rebalance_path_ok [OF fr, of l] assms(2) rebalance_path_inorder [of fs l] show ?thesis by auto
  next
    case 3
    then obtain inner y yl where s: "subst_path l [] = Some (inner, y, yl)" using subst_path_ex [of l "[]"] by auto
    let ?gs = "inner @ Fr0 y h r # fs"
    have g: "subst_path l (Fr0 y h r # fs) = Some (?gs, y, yl)" by (subst subst_path_append) (simp add: s)
    have fl: "frames_ok (Fr0 y h r # fs) (avl_height l)" "avl_ok l" using assms by auto
    from subst_path_spec [OF g fl] obtain hs k where hs: "?gs = hs @ Fr0 y h r # fs"
      "avl_inorder l = before hs @ avl_inorder yl @ [y]" "after hs = []"
      "frames_ok ?gs k" "avl_ok yl" "k = avl_height yl + 1" by blast
    from hs(1) have "inner = hs" by simp
    with rebalance_path_ok [OF hs(4,5)] rebalance_path_inorder [of ?gs yl] hs 3 s show ?thesis
      by (simp add: before_append)
  qed
qed

text \<open>The node at a place, and what is around it; a lookup leads to the place of the node it finds.\<close>

lemma locate_place: "locate (place_of key k t) t fs = lookup_path key k t fs"
  by (induction t arbitrary: fs) auto

lemma locate_spec:
  assumes "locate ds t fs = (n, fs')" "frames_ok fs (avl_height t)" "avl_ok t"
  shows "\<exists>A B. before fs' = before fs @ A \<and> after fs' = B @ after fs \<and> avl_inorder t = A @ avl_inorder n @ B
    \<and> frames_ok fs' (avl_height n) \<and> avl_ok n"
  using assms
proof (induction ds t fs rule: locate.induct)
  case (1 d ds l x h r fs)
  show ?case
  proof (cases d)
    case True
    with 1 obtain A B where "before fs' = before (Fr1 l x h # fs) @ A" "after fs' = B @ after (Fr1 l x h # fs)"
      "avl_inorder r = A @ avl_inorder n @ B" "frames_ok fs' (avl_height n)" "avl_ok n" by fastforce
    then show ?thesis by (intro exI [of _ "avl_inorder l @ x # A"] exI [of _ B]) auto
  next
    case False
    with 1 obtain A B where "before fs' = before (Fr0 x h r # fs) @ A" "after fs' = B @ after (Fr0 x h r # fs)"
      "avl_inorder l = A @ avl_inorder n @ B" "frames_ok fs' (avl_height n)" "avl_ok n" by fastforce
    then show ?thesis by (intro exI [of _ A] exI [of _ "B @ x # avl_inorder r"]) auto
  qed
qed auto

lemma delete_at_spec:
  assumes "avl_ok t" "avl_elem (fst (locate node t [])) = Some x"
  shows "avl_ok (ddsrt_avl_delete node t)
    \<and> (\<exists>A B. avl_inorder t = A @ x # B \<and> avl_inorder (ddsrt_avl_delete node t) = A @ B)"
proof -
  obtain n fs where l: "locate node t [] = (n, fs)" by fastforce
  then obtain u h v where n: "n = Nd u x h v" using assms(2) by (cases n) auto
  from locate_spec [OF l _ assms(1)] have "frames_ok fs (avl_height n)" "avl_ok n"
    "avl_inorder t = before fs @ avl_inorder n @ after fs" by auto
  with delete_generic_spec [of fs u x h v] n l have "avl_ok (ddsrt_avl_delete node t)"
    "avl_inorder t = (before fs @ avl_inorder u) @ x # (avl_inorder v @ after fs)"
    "avl_inorder (ddsrt_avl_delete node t) = (before fs @ avl_inorder u) @ (avl_inorder v @ after fs)"
    by (simp_all add: ddsrt_avl_delete_def del: delete_generic.simps)
  then show ?thesis by blast
qed

lemma delete_spec:
  assumes "avl_inv key dups t"
  shows "avl_ok (ddsrt_avl_delete (place_of key k t) t)
    \<and> (avl_inorder (ddsrt_avl_delete (place_of key k t) t) = avl_inorder t \<and> (\<forall>y\<in>set (avl_inorder t). key y \<noteq> k)
       \<or> (\<exists>A x B. avl_inorder t = A @ x # B \<and> key x = k \<and> avl_inorder (ddsrt_avl_delete (place_of key k t) t) = A @ B))"
proof -
  from assms have srt: "key_sorted key dups (avl_inorder t)" and ok: "avl_ok t" by (simp_all add: avl_inv_def)
  obtain n fs where l: "lookup_path key k t [] = (n, fs)" by fastforce
  from lookup_path_spec [OF srt l _ ok] obtain A B where p: "before fs = A" "after fs = B"
    "avl_inorder t = A @ avl_inorder n @ B" "\<forall>a\<in>set A. key a < k" "\<forall>b\<in>set B. k < key b"
    "frames_ok fs (avl_height n)" "avl_ok n" "\<forall>y. avl_elem n = Some y \<longrightarrow> key y = k" by auto
  show ?thesis
  proof (cases n)
    case Lf
    with p close_path_ok [of fs Lf] l show ?thesis
      by (auto simp: ddsrt_avl_delete_def locate_place close_path_inorder)
  next
    case (Nd u x h v)
    with p delete_generic_spec [of fs u x h v] l show ?thesis
      by (simp add: ddsrt_avl_delete_def locate_place)
        (metis append.assoc append_Cons)
  qed
qed

section \<open>Lookups against the ordered list\<close>

text \<open>A candidate found so far, or what the rest of the tree offers.\<close>

definition or_cand :: "'a option \<Rightarrow> 'a option \<Rightarrow> 'a option" where
  "or_cand found cand = (case found of None \<Rightarrow> cand | Some y \<Rightarrow> Some y)"

lemma or_cand_simps [simp]:
  "or_cand None cand = cand" "or_cand (Some y) cand = Some y" "or_cand found None = found"
  by (auto simp: or_cand_def split: option.splits)

text \<open>An element of the list that qualifies takes the place of the candidate.\<close>

lemma or_cand_last: "or_cand (last_opt (as @ x # bs)) cand = or_cand (last_opt bs) (Some x)"
  by (auto simp: or_cand_def split: option.splits)

lemma or_cand_first: "or_cand (first_opt (as @ x # bs)) cand = or_cand (first_opt as) (Some x)"
  by (auto simp: or_cand_def split: option.splits)

lemma or_cand_nonempty:
  "xs \<noteq> [] \<Longrightarrow> or_cand (last_opt xs) cand = last_opt xs"
  "xs \<noteq> [] \<Longrightarrow> or_cand (first_opt xs) cand = first_opt xs"
  by (auto simp: or_cand_def split: option.splits)

lemma key_sorted_Nd:
  assumes "key_sorted key dups (avl_inorder (Nd l x h r))"
  shows "key_sorted key dups (avl_inorder l)" "key_sorted key dups (avl_inorder r)"
    "\<forall>y\<in>set (avl_inorder l). key y \<le> key x" "\<forall>y\<in>set (avl_inorder r). key x \<le> key y"
    "\<not> dups \<Longrightarrow> \<forall>y\<in>set (avl_inorder l). key y < key x" "\<not> dups \<Longrightarrow> \<forall>y\<in>set (avl_inorder r). key x < key y"
  using assms by (auto simp: key_sorted_append split: if_splits intro: less_imp_le)

lemma find_extremum_eq:
  "find_extremum False t = first_opt (avl_inorder t)" "find_extremum True t = last_opt (avl_inorder t)"
proof -
  have e: "avl_inorder u = [] \<longleftrightarrow> u = Lf" for u :: "'b avl" by (cases u) auto
  show "find_extremum False t = first_opt (avl_inorder t)" by (induction t) (auto simp: e)
  show "find_extremum True t = last_opt (avl_inorder t)" by (induction t) (auto simp: e)
qed

lemma lookup_eq_idx:
  assumes "key_sorted key False (avl_inorder t)"
  shows "ddsrt_avl_lookup key k t = idx_lookup key k (avl_inorder t)"
  using assms
proof (induction t)
  case (Nd l x h r)
  note s = key_sorted_Nd [OF Nd.prems]
  consider "key x = k" | "key x < k" | "k < key x" by fastforce
  then show ?case
  proof cases
    case 1
    with s have "filter (\<lambda>y. key y = k) (avl_inorder l) = []" by (force intro: filter_none)
    with 1 show ?thesis by (simp add: idx_lookup_def)
  next
    case 2
    with s have "filter (\<lambda>y. key y = k) (avl_inorder l) = []" by (force intro: filter_none)
    moreover have "key x \<noteq> k" "key x \<le> k" using 2 by auto
    ultimately show ?thesis using Nd.IH(2) s(2) by (simp add: idx_lookup_def)
  next
    case 3
    with s have "filter (\<lambda>y. key y = k) (avl_inorder r) = []" by (force intro: filter_none)
    moreover have "key x \<noteq> k" "\<not> key x \<le> k" using 3 by auto
    ultimately show ?thesis using Nd.IH(1) s(1) by (auto simp: idx_lookup_def)
  qed
qed (simp add: idx_lookup_def)

lemmas cand_simps = or_cand_last or_cand_first filter_append filter.simps

lemma predeq_dups_spec:
  assumes "key_sorted key dups (avl_inorder t)" "\<forall>y\<in>set (avl_inorder t). k \<le> key y"
  shows "predsucceq_dups key k False t cand = or_cand (last_opt (filter (\<lambda>x. key x \<le> k) (avl_inorder t))) cand"
  using assms
proof (induction t arbitrary: cand)
  case (Nd l x h r)
  note s = key_sorted_Nd [OF Nd.prems(1)]
  have l: "\<forall>y\<in>set (avl_inorder l). k \<le> key y" and r: "\<forall>y\<in>set (avl_inorder r). k \<le> key y" using Nd.prems(2) by auto
  show ?case
  proof (cases "key x = k")
    case True
    then show ?thesis using Nd.IH(2) [OF s(2) r] by (simp add: cand_simps del: last_opt_append last_opt_Cons)
  next
    case False
    with Nd.prems(2) have x: "k < key x" by (simp add: order.not_eq_order_implies_strict)
    then have x': "key x \<noteq> k" "\<not> key x \<le> k" by auto
    with s(4) have "filter (\<lambda>y. key y \<le> k) (avl_inorder r) = []" by (force intro: filter_none)
    with x x' show ?thesis using Nd.IH(1) [OF s(1) l] by simp
  qed
qed simp

lemma succeq_dups_spec:
  assumes "key_sorted key dups (avl_inorder t)" "\<forall>y\<in>set (avl_inorder t). key y \<le> k"
  shows "predsucceq_dups key k True t cand = or_cand (first_opt (filter (\<lambda>x. k \<le> key x) (avl_inorder t))) cand"
  using assms
proof (induction t arbitrary: cand)
  case (Nd l x h r)
  note s = key_sorted_Nd [OF Nd.prems(1)]
  have l: "\<forall>y\<in>set (avl_inorder l). key y \<le> k" and r: "\<forall>y\<in>set (avl_inorder r). key y \<le> k" using Nd.prems(2) by auto
  show ?case
  proof (cases "key x = k")
    case True
    then show ?thesis using Nd.IH(1) [OF s(1) l] by (simp add: cand_simps del: first_opt_append)
  next
    case False
    with Nd.prems(2) have x: "key x < k" by (simp add: order.not_eq_order_implies_strict)
    then have x': "key x \<noteq> k" "\<not> k \<le> key x" by auto
    with s(3) have "filter (\<lambda>y. k \<le> key y) (avl_inorder l) = []" by (force intro: filter_none)
    with x x' show ?thesis using Nd.IH(2) [OF s(2) r] by simp
  qed
qed simp

lemma pred_dups_spec:
  assumes "key_sorted key dups (avl_inorder t)" "\<forall>y\<in>set (avl_inorder t). key y \<le> k"
  shows "predsucc_dups key k False t cand = or_cand (last_opt (filter (\<lambda>x. key x < k) (avl_inorder t))) cand"
  using assms
proof (induction t arbitrary: cand)
  case (Nd l x h r)
  note s = key_sorted_Nd [OF Nd.prems(1)]
  have l: "\<forall>y\<in>set (avl_inorder l). key y \<le> k" and r: "\<forall>y\<in>set (avl_inorder r). key y \<le> k" using Nd.prems(2) by auto
  show ?case
  proof (cases "key x = k")
    case True
    with s(4) have "filter (\<lambda>y. key y < k) (avl_inorder r) = []" by (force intro: filter_none)
    with True show ?thesis using Nd.IH(1) [OF s(1) l] by simp
  next
    case False
    with Nd.prems(2) have x: "key x < k" by (simp add: order.not_eq_order_implies_strict)
    then have x': "key x \<noteq> k" "\<not> k \<le> key x" by auto
    with x' show ?thesis using Nd.IH(2) [OF s(2) r] x by (simp add: cand_simps del: last_opt_append last_opt_Cons)
  qed
qed simp

lemma succ_dups_spec:
  assumes "key_sorted key dups (avl_inorder t)" "\<forall>y\<in>set (avl_inorder t). k \<le> key y"
  shows "predsucc_dups key k True t cand = or_cand (first_opt (filter (\<lambda>x. k < key x) (avl_inorder t))) cand"
  using assms
proof (induction t arbitrary: cand)
  case (Nd l x h r)
  note s = key_sorted_Nd [OF Nd.prems(1)]
  have l: "\<forall>y\<in>set (avl_inorder l). k \<le> key y" and r: "\<forall>y\<in>set (avl_inorder r). k \<le> key y" using Nd.prems(2) by auto
  show ?case
  proof (cases "key x = k")
    case True
    with s(3) have "filter (\<lambda>y. k < key y) (avl_inorder l) = []" by (force intro: filter_none)
    with True show ?thesis using Nd.IH(2) [OF s(2) r] by simp
  next
    case False
    with Nd.prems(2) have x: "k < key x" by (simp add: order.not_eq_order_implies_strict)
    then have x': "key x \<noteq> k" "\<not> key x \<le> k" by auto
    with x' x show ?thesis using Nd.IH(1) [OF s(1) l] by (simp add: cand_simps del: first_opt_append)
  qed
qed simp

lemma lookup_predeq_spec:
  assumes "key_sorted key dups (avl_inorder t)"
  shows "lookup_predeq key dups k t cand = or_cand (last_opt (filter (\<lambda>x. key x \<le> k) (avl_inorder t))) cand"
  using assms
proof (induction t arbitrary: cand)
  case (Nd l x h r)
  note s = key_sorted_Nd [OF Nd.prems]
  consider "key x = k" | "key x < k" | "k < key x" by fastforce
  then show ?case
  proof cases
    case 1
    have "\<not> dups \<Longrightarrow> filter (\<lambda>y. key y \<le> k) (avl_inorder r) = []" using s(6) 1 by (force intro: filter_none)
    with 1 s(4) predeq_dups_spec [OF s(2), of k "Some x"] show ?thesis
      by (cases dups) (simp_all add: cand_simps del: last_opt_append last_opt_Cons)
  next
    case 2
    then have "key x \<noteq> k" "key x \<le> k" by auto
    with 2 show ?thesis using Nd.IH(2) [OF s(2)] by (simp add: cand_simps del: last_opt_append last_opt_Cons)
  next
    case 3
    with s(4) have "filter (\<lambda>y. key y \<le> k) (avl_inorder r) = []" by (force intro: filter_none)
    moreover have "key x \<noteq> k" "\<not> key x < k" "\<not> key x \<le> k" using 3 by auto
    ultimately show ?thesis using Nd.IH(1) [OF s(1)] by simp
  qed
qed simp

lemma lookup_succeq_spec:
  assumes "key_sorted key dups (avl_inorder t)"
  shows "lookup_succeq key dups k t cand = or_cand (first_opt (filter (\<lambda>x. k \<le> key x) (avl_inorder t))) cand"
  using assms
proof (induction t arbitrary: cand)
  case (Nd l x h r)
  note s = key_sorted_Nd [OF Nd.prems]
  consider "key x = k" | "k < key x" | "key x < k" by fastforce
  then show ?case
  proof cases
    case 1
    have "\<not> dups \<Longrightarrow> filter (\<lambda>y. k \<le> key y) (avl_inorder l) = []" using s(5) 1 by (force intro: filter_none)
    with 1 s(3) succeq_dups_spec [OF s(1), of k "Some x"] show ?thesis
      by (cases dups) (simp_all add: cand_simps del: first_opt_append)
  next
    case 2
    then have "key x \<noteq> k" "k \<le> key x" by auto
    with 2 show ?thesis using Nd.IH(1) [OF s(1)] by (simp add: cand_simps del: first_opt_append)
  next
    case 3
    with s(3) have "filter (\<lambda>y. k \<le> key y) (avl_inorder l) = []" by (force intro: filter_none)
    moreover have "key x \<noteq> k" "\<not> k < key x" "\<not> k \<le> key x" using 3 by auto
    ultimately show ?thesis using Nd.IH(2) [OF s(2)] by simp
  qed
qed simp

lemma inorder_Nil_iff: "avl_inorder t = [] \<longleftrightarrow> t = Lf"
  by (cases t) auto

lemma lookup_pred_spec:
  assumes "key_sorted key dups (avl_inorder t)"
  shows "lookup_pred key dups k t cand = or_cand (last_opt (filter (\<lambda>x. key x < k) (avl_inorder t))) cand"
  using assms
proof (induction t arbitrary: cand)
  case (Nd l x h r)
  note s = key_sorted_Nd [OF Nd.prems]
  consider "key x = k" | "key x < k" | "k < key x" by fastforce
  then show ?case
  proof cases
    case 1
    with s(4) have r: "filter (\<lambda>y. key y < k) (avl_inorder r) = []" by (force intro: filter_none)
    have "\<not> dups \<Longrightarrow> filter (\<lambda>y. key y < k) (avl_inorder l) = avl_inorder l" using s(5) 1 by (auto intro: filter_all)
    with 1 r s(3) pred_dups_spec [OF s(1), of k cand] show ?thesis
      by (cases dups) (auto simp: inorder_Nil_iff or_cand_nonempty find_extremum_eq)
  next
    case 2
    then have "key x \<noteq> k" by auto
    with 2 show ?thesis using Nd.IH(2) [OF s(2)] by (simp add: cand_simps del: last_opt_append last_opt_Cons)
  next
    case 3
    with s(4) have "filter (\<lambda>y. key y < k) (avl_inorder r) = []" by (force intro: filter_none)
    moreover have "key x \<noteq> k" "\<not> key x < k" using 3 by auto
    ultimately show ?thesis using Nd.IH(1) [OF s(1)] by simp
  qed
qed simp

lemma lookup_succ_spec:
  assumes "key_sorted key dups (avl_inorder t)"
  shows "lookup_succ key dups k t cand = or_cand (first_opt (filter (\<lambda>x. k < key x) (avl_inorder t))) cand"
  using assms
proof (induction t arbitrary: cand)
  case (Nd l x h r)
  note s = key_sorted_Nd [OF Nd.prems]
  consider "key x = k" | "k < key x" | "key x < k" by fastforce
  then show ?case
  proof cases
    case 1
    with s(3) have l: "filter (\<lambda>y. k < key y) (avl_inorder l) = []" by (force intro: filter_none)
    have "\<not> dups \<Longrightarrow> filter (\<lambda>y. k < key y) (avl_inorder r) = avl_inorder r" using s(6) 1 by (auto intro: filter_all)
    with 1 l s(4) succ_dups_spec [OF s(2), of k cand] show ?thesis
      by (cases dups) (auto simp: inorder_Nil_iff or_cand_nonempty find_extremum_eq)
  next
    case 2
    then have "key x \<noteq> k" by auto
    with 2 show ?thesis using Nd.IH(1) [OF s(1)] by (simp add: cand_simps del: first_opt_append)
  next
    case 3
    with s(3) have "filter (\<lambda>y. k < key y) (avl_inorder l) = []" by (force intro: filter_none)
    moreover have "key x \<noteq> k" "\<not> k < key x" using 3 by auto
    ultimately show ?thesis using Nd.IH(2) [OF s(2)] by simp
  qed
qed simp

section \<open>Neighbours, replacement\<close>

lemma neighbour_up_eq:
  "neighbour_up True fs = first_opt (after fs)" "neighbour_up False fs = last_opt (before fs)"
proof -
  show "neighbour_up True fs = first_opt (after fs)"
  proof (induction fs)
    case (Cons f fs)
    then show ?case by (cases f) auto
  qed simp
  show "neighbour_up False fs = last_opt (before fs)"
  proof (induction fs)
    case (Cons f fs)
    then show ?case by (cases f) auto
  qed simp
qed

lemma find_neighbour_eq:
  "find_neighbour True (Nd l x h r) fs = first_opt (avl_inorder r @ after fs)"
  "find_neighbour False (Nd l x h r) fs = last_opt (before fs @ avl_inorder l)"
  by (auto simp: find_extremum_eq neighbour_up_eq inorder_Nil_iff Let_def)

text \<open>Where the node with a key that is present stands.\<close>

lemma lookup_path_present:
  assumes "avl_inv key False t" "x \<in> set (avl_inorder t)"
  obtains l h r fs where "lookup_path key (key x) t [] = (Nd l x h r, fs)"
    "avl_inorder t = (before fs @ avl_inorder l) @ x # (avl_inorder r @ after fs)"
    "\<forall>y\<in>set (before fs @ avl_inorder l). key y < key x" "\<forall>y\<in>set (avl_inorder r @ after fs). key x < key y"
    "frames_ok fs h" "avl_ok (Nd l x h r)"
proof -
  from assms(1) have srt: "key_sorted key False (avl_inorder t)" and ok: "avl_ok t" by (simp_all add: avl_inv_def)
  obtain n fs where l: "lookup_path key (key x) t [] = (n, fs)" by fastforce
  from lookup_path_spec [OF srt l _ ok] obtain A B where p: "before fs = A" "after fs = B"
    "avl_inorder t = A @ avl_inorder n @ B" "\<forall>a\<in>set A. key a < key x" "\<forall>b\<in>set B. key x < key b"
    "frames_ok fs (avl_height n)" "avl_ok n" "\<forall>y. avl_elem n = Some y \<longrightarrow> key y = key x" by auto
  from p(3-5) assms(2) have xn: "x \<in> set (avl_inorder n)" by auto
  then obtain u z h v where n: "n = Nd u z h v" by (cases n) auto
  have sn: "key_sorted key False (avl_inorder n)" using srt p(3) by (simp add: key_sorted_append)
  from p(8) n have kz: "key z = key x" by simp
  have s: "\<forall>y\<in>set (avl_inorder u). key y < key z" "\<forall>y\<in>set (avl_inorder v). key z < key y"
    using key_sorted_Nd(5,6) [OF sn [unfolded n]] by simp_all
  with xn kz n have z: "z = x" by auto
  show thesis
  proof (rule that [of u h v fs])
    show "lookup_path key (key x) t [] = (Nd u x h v, fs)" using l n z by simp
    show "avl_inorder t = (before fs @ avl_inorder u) @ x # (avl_inorder v @ after fs)" using p(1-3) n z by simp
    show "\<forall>y\<in>set (before fs @ avl_inorder u). key y < key x" using p(1,4) s(1) z by auto
    show "\<forall>y\<in>set (avl_inorder v @ after fs). key x < key y" using p(2,5) s(2) z by auto
    show "frames_ok fs h" using p(6) n by simp
    show "avl_ok (Nd u x h v)" using p(7) n z by simp
  qed
qed

lemma find_succ_eq:
  assumes "avl_inv key False t" "x \<in> set (avl_inorder t)"
  shows "ddsrt_avl_find_succ t (Some (place_of key (key x) t)) = idx_succ key (key x) (avl_inorder t)"
  using assms by (rule lookup_path_present)
    (simp add: ddsrt_avl_find_succ_def locate_place find_neighbour_eq idx_at(5) del: find_neighbour.simps append_assoc)

lemma find_pred_eq:
  assumes "avl_inv key False t" "x \<in> set (avl_inorder t)"
  shows "ddsrt_avl_find_pred t (Some (place_of key (key x) t)) = idx_pred key (key x) (avl_inorder t)"
  using assms by (rule lookup_path_present)
    (simp add: ddsrt_avl_find_pred_def locate_place find_neighbour_eq idx_at(4) del: find_neighbour.simps append_assoc)

lemma swap_node_spec:
  assumes "avl_inv key False t" "x \<in> set (avl_inorder t)"
  shows "avl_ok (ddsrt_avl_swap_node (place_of key (key x) t) y t)
    \<and> avl_inorder (ddsrt_avl_swap_node (place_of key (key x) t) y t) = idx_update key (key x) y (avl_inorder t)"
proof -
  obtain l h r fs where p: "lookup_path key (key x) t [] = (Nd l x h r, fs)"
    "avl_inorder t = (before fs @ avl_inorder l) @ x # (avl_inorder r @ after fs)"
    "\<forall>z\<in>set (before fs @ avl_inorder l). key z < key x" "\<forall>z\<in>set (avl_inorder r @ after fs). key x < key z"
    "frames_ok fs h" "avl_ok (Nd l x h r)"
    using lookup_path_present [OF assms] by blast
  have s: "ddsrt_avl_swap_node (place_of key (key x) t) y t = close_path fs (Nd l y h r)"
    by (simp add: ddsrt_avl_swap_node_def locate_place p(1))
  have "avl_ok (close_path fs (Nd l y h r))" using p(5,6) by (intro close_path_ok) auto
  moreover have "idx_update key (key x) y (avl_inorder t) = (before fs @ avl_inorder l) @ y # (avl_inorder r @ after fs)"
    unfolding p(2) by (rule idx_at(7) [OF p(3,4)])
  ultimately show ?thesis unfolding s by (simp add: close_path_inorder)
qed

section \<open>Iteration and walks\<close>

text \<open>What the nodes on the stack still stand for: each one and its right subtree.\<close>

fun pending :: "'a avl list \<Rightarrow> 'a list" where
  "pending [] = []"
| "pending (t # st) = (case avl_elem t of None \<Rightarrow> [] | Some x \<Rightarrow> [x]) @ avl_inorder (cs1 t) @ pending st"

lemma push_left_pending: "pending (push_left t st) = avl_inorder t @ pending st"
  by (induction t st rule: push_left.induct) auto

lemma push_left_nonleaf: "Lf \<in> set (push_left t st) \<longleftrightarrow> Lf \<in> set st"
  by (induction t st rule: push_left.induct) auto

lemma push_left_Nil_iff: "push_left t st = [] \<longleftrightarrow> t = Lf \<and> st = []"
  by (induction t st rule: push_left.induct) auto

lemma walk_pending:
  fixes st st' :: "'a avl list"
  shows "Lf \<notin> set st \<Longrightarrow> walk_up st = pending st"
    and "Lf \<notin> set st' \<Longrightarrow> n \<noteq> Lf \<or> st' = [] \<Longrightarrow> walk_down n st' = avl_inorder n @ pending st'"
proof (induction st and n st' rule: walk_up_walk_down.induct)
  case (2 n st)
  then show ?case by (cases "st \<noteq> [] \<and> cs1 n = Lf") auto
next
  case (3 n st)
  then show ?case
    by (cases n) (simp_all add: push_left_pending push_left_nonleaf del: push_left.simps)
qed simp

lemma walk_eq: "ddsrt_avl_walk t = avl_inorder t"
  using walk_pending(2) [of "[]" t] by (simp add: ddsrt_avl_walk_def del: walk_down.simps)

definition iter_wf :: "'a avl_iter \<Rightarrow> bool" where
  "iter_wf it \<longleftrightarrow> it_todo it \<noteq> [] \<and> it_right it = cs1 (hd (it_todo it)) \<and> Lf \<notin> set (it_todo it)"

lemma downleft_eq:
  "t \<noteq> Lf \<Longrightarrow> avl_iter_downleft (it\<lparr>it_todo := t # st\<rparr>)
    = it\<lparr>it_todo := push_left t st, it_right := cs1 (hd (push_left t st))\<rparr>"
  by (cases t) (simp_all add: avl_iter_downleft_def Let_def)

lemma iter_first_spec:
  "ddsrt_avl_iter_first t = (n, it) \<Longrightarrow>
     (if t = Lf then n = None
      else iter_wf it \<and> n = avl_elem (hd (it_todo it)) \<and> pending (it_todo it) = avl_inorder t)"
  using downleft_eq [of t "[]" "\<lparr>it_todo = [], it_right = Lf\<rparr>"]
  by (auto simp: ddsrt_avl_iter_first_def Let_def iter_wf_def push_left_pending push_left_nonleaf push_left_Nil_iff
      avl_iter_downleft_def)

lemma iter_next_spec:
  assumes "iter_wf it" "ddsrt_avl_iter_next it = (n, it')"
  shows "if pending (it_todo it) = [the (avl_elem (hd (it_todo it)))] then n = None
    else iter_wf it' \<and> n = avl_elem (hd (it_todo it'))
      \<and> pending (it_todo it) = the (avl_elem (hd (it_todo it))) # pending (it_todo it')"
proof -
  obtain c st where td: "it_todo it = c # st" using assms(1) by (cases "it_todo it") (auto simp: iter_wf_def)
  then obtain l x h r where c: "c = Nd l x h r" using assms(1) by (cases c) (auto simp: iter_wf_def)
  have wf: "it_right it = r" "Lf \<notin> set st" using assms(1) td c by (auto simp: iter_wf_def)
  consider "r = Lf" "st = []" | "r = Lf" "st \<noteq> []" | "r \<noteq> Lf" by blast
  then show ?thesis
  proof cases
    case 1
    with assms(2) td c wf show ?thesis
      by (auto simp: ddsrt_avl_iter_next_def Let_def avl_iter_downleft_def)
  next
    case 2
    then obtain d st' where st: "st = d # st'" by (cases st) auto
    with wf(2) obtain l' y h' r' where "d = Nd l' y h' r'" by (cases d) auto
    with 2 st assms(2) td c wf show ?thesis
      by (auto simp: ddsrt_avl_iter_next_def Let_def iter_wf_def)
  next
    case 3
    then have "avl_inorder r \<noteq> []" by (simp add: inorder_Nil_iff)
    moreover have "it' = it\<lparr>it_todo := push_left r st, it_right := cs1 (hd (push_left r st))\<rparr>"
      "n = avl_elem (hd (push_left r st))"
      using assms(2) 3 td wf downleft_eq [OF 3, of st it] by (auto simp: ddsrt_avl_iter_next_def Let_def)
    ultimately show ?thesis
      using 3 td c wf by (auto simp: iter_wf_def push_left_pending push_left_nonleaf push_left_Nil_iff)
  qed
qed

text \<open>
  The loop \<open>for (n = iter_first (..); n; n = iter_next (..))\<close> of the callers, stopped after a
  number of rounds: what it has seen.
\<close>

fun iter_loop :: "nat \<Rightarrow> 'a option \<times> 'a avl_iter \<Rightarrow> 'a list" where
  "iter_loop 0 s = []"
| "iter_loop (Suc m) (None, it) = []"
| "iter_loop (Suc m) (Some x, it) = x # iter_loop m (ddsrt_avl_iter_next it)"

lemma iter_loop_None: "iter_loop m (None, it) = []"
  by (cases m) auto

lemma iter_loop_pending:
  "iter_wf it \<Longrightarrow> iter_loop m (avl_elem (hd (it_todo it)), it) = take m (pending (it_todo it))"
proof (induction m arbitrary: it)
  case (Suc m)
  obtain n it' where nx: "ddsrt_avl_iter_next it = (n, it')" by fastforce
  obtain x where x: "avl_elem (hd (it_todo it)) = Some x" 
    using Suc.prems by (cases "hd (it_todo it)"; cases "it_todo it") (auto simp: iter_wf_def)
  from iter_next_spec [OF Suc.prems nx] x Suc.IH [of it'] nx show ?case
    by (auto simp: iter_loop_None split: if_splits)
qed simp

lemma iter_loop_eq: "iter_loop m (ddsrt_avl_iter_first t) = take m (avl_inorder t)"
proof -
  obtain n it where "ddsrt_avl_iter_first t = (n, it)" by fastforce
  with iter_first_spec [OF this] iter_loop_pending [of it m] show ?thesis
    by (auto simp: iter_loop_None split: if_splits)
qed

text \<open>Iteration from a key.\<close>

lemma iter_descend_spec:
  assumes "key_sorted key dups (avl_inorder t)" "iter_descend key k t st = (n, st')"
    and "\<And>x. P x \<Longrightarrow> k \<le> key x" "\<And>x. k < key x \<Longrightarrow> P x"
  shows "filter P (avl_inorder n) @ pending st' = filter P (avl_inorder t) @ pending st
    \<and> (Lf \<in> set st' \<longleftrightarrow> Lf \<in> set st) \<and> key_sorted key dups (avl_inorder n)
    \<and> (\<forall>x. avl_elem n = Some x \<longrightarrow> key x = k)"
  using assms(1,2)
proof (induction t arbitrary: st)
  case (Nd l x h r)
  note s = key_sorted_Nd [OF Nd.prems(1)]
  consider "key x = k" | "k < key x" | "key x < k" by fastforce
  then show ?case
  proof cases
    case 1
    with Nd.prems show ?thesis by auto
  next
    case 2
    then have x: "key x \<noteq> k" "P x" using assms(4) by auto
    have "\<forall>y\<in>set (avl_inorder r). P y" using s(4) 2 assms(4) by (meson less_le_trans)
    then have "filter P (avl_inorder r) = avl_inorder r" by (rule filter_all)
    with x 2 Nd.prems(2) Nd.IH(1) [OF s(1), of "Nd l x h r # st"] show ?thesis by simp
  next
    case 3
    have "\<forall>y\<in>set (avl_inorder l). \<not> P y" using s(3) 3 assms(3) by (meson le_less_trans not_le)
    then have "filter P (avl_inorder l) = []" by (rule filter_none)
    moreover have "\<not> P x" using 3 assms(3) by (meson not_le)
    moreover have "key x \<noteq> k" "\<not> k < key x" using 3 by auto
    ultimately show ?thesis using Nd.prems(2) Nd.IH(2) [OF s(2), of st] by simp
  qed
qed auto

lemma iter_eq_dups_spec:
  assumes "key_sorted key dups (avl_inorder t)" "\<forall>y\<in>set (avl_inorder t). key y \<le> k"
  shows "pending (iter_eq_dups key k t st) = filter (\<lambda>y. k \<le> key y) (avl_inorder t) @ pending st
    \<and> (Lf \<in> set (iter_eq_dups key k t st) \<longleftrightarrow> Lf \<in> set st)"
  using assms
proof (induction t arbitrary: st)
  case (Nd l x h r)
  note s = key_sorted_Nd [OF Nd.prems(1)]
  have l: "\<forall>y\<in>set (avl_inorder l). key y \<le> k" and r: "\<forall>y\<in>set (avl_inorder r). key y \<le> k" using Nd.prems(2) by auto
  show ?case
  proof (cases "key x = k")
    case True
    with s(4) have "filter (\<lambda>y. k \<le> key y) (avl_inorder r) = avl_inorder r" by (auto intro: filter_all)
    with True show ?thesis using Nd.IH(1) [OF s(1) l] by simp
  next
    case False
    with Nd.prems(2) have x: "key x < k" by (simp add: order.not_eq_order_implies_strict)
    with s(3) have "filter (\<lambda>y. k \<le> key y) (avl_inorder l) = []" by (force intro: filter_none)
    moreover have "\<not> k \<le> key x" using x by simp
    ultimately show ?thesis using Nd.IH(2) [OF s(2) r] False by simp
  qed
qed simp

lemma iter_gt_dups_spec:
  assumes "key_sorted key dups (avl_inorder t)" "\<forall>y\<in>set (avl_inorder t). k \<le> key y"
  shows "pending (iter_gt_dups key k t st) = filter (\<lambda>y. k < key y) (avl_inorder t) @ pending st
    \<and> (Lf \<in> set (iter_gt_dups key k t st) \<longleftrightarrow> Lf \<in> set st)"
  using assms
proof (induction t arbitrary: st)
  case (Nd l x h r)
  note s = key_sorted_Nd [OF Nd.prems(1)]
  have l: "\<forall>y\<in>set (avl_inorder l). k \<le> key y" and r: "\<forall>y\<in>set (avl_inorder r). k \<le> key y" using Nd.prems(2) by auto
  show ?case
  proof (cases "key x = k")
    case True
    with s(3) have "filter (\<lambda>y. k < key y) (avl_inorder l) = []" by (force intro: filter_none)
    with True show ?thesis using Nd.IH(2) [OF s(2) r] by simp
  next
    case False
    with Nd.prems(2) have x: "k < key x" by (simp add: order.not_eq_order_implies_strict)
    with s(4) have "filter (\<lambda>y. k < key y) (avl_inorder r) = avl_inorder r" by (force intro: filter_all)
    with x False show ?thesis using Nd.IH(1) [OF s(1) l] by simp
  qed
qed simp

lemma iter_start_loop:
  assumes "Lf \<notin> set st"
  shows "iter_loop m (iter_start st) = take m (pending st)"
proof (cases "st = []")
  case False
  with assms have "iter_wf \<lparr>it_todo = st, it_right = cs1 (hd st)\<rparr>" by (simp add: iter_wf_def)
  from iter_loop_pending [OF this, of m] False show ?thesis by (simp add: iter_start_def)
qed (simp add: iter_start_def iter_loop_None)

lemma iter_succ_eq_loop:
  assumes "avl_inv key dups t"
  shows "iter_loop m (ddsrt_avl_iter_succ_eq key dups t k) = take m (filter (\<lambda>x. k \<le> key x) (avl_inorder t))"
proof -
  obtain n st where d: "iter_descend key k t [] = (n, st)" by fastforce
  have srt: "key_sorted key dups (avl_inorder t)" using assms by (simp add: avl_inv_def)
  from iter_descend_spec [OF srt d, of "\<lambda>x. k \<le> key x"] have p:
    "filter (\<lambda>x. k \<le> key x) (avl_inorder n) @ pending st = filter (\<lambda>x. k \<le> key x) (avl_inorder t)"
    "Lf \<notin> set st" "key_sorted key dups (avl_inorder n)" "\<forall>x. avl_elem n = Some x \<longrightarrow> key x = k" by auto
  show ?thesis
  proof (cases n)
    case Lf
    with p d show ?thesis by (simp add: ddsrt_avl_iter_succ_eq_def iter_start_loop)
  next
    case (Nd l x h r)
    note s = key_sorted_Nd [OF p(3) [unfolded Nd]]
    have x: "key x = k" using p(4) Nd by simp
    have r: "filter (\<lambda>y. k \<le> key y) (avl_inorder r) = avl_inorder r" using s(4) x by (auto intro: filter_all)
    show ?thesis
    proof (cases dups)
      case True
      with iter_eq_dups_spec [OF s(1), of k "n # st"] s(3) x p r Nd d show ?thesis
        by (simp add: ddsrt_avl_iter_succ_eq_def iter_start_loop)
    next
      case False
      with s(5) x have "filter (\<lambda>y. k \<le> key y) (avl_inorder l) = []" by (force intro: filter_none)
      with False x p r Nd d show ?thesis
        by (simp add: ddsrt_avl_iter_succ_eq_def iter_start_loop)
    qed
  qed
qed

lemma iter_succ_loop:
  assumes "avl_inv key dups t"
  shows "iter_loop m (ddsrt_avl_iter_succ key dups t k) = take m (filter (\<lambda>x. k < key x) (avl_inorder t))"
proof -
  obtain n st where d: "iter_descend key k t [] = (n, st)" by fastforce
  have srt: "key_sorted key dups (avl_inorder t)" using assms by (simp add: avl_inv_def)
  from iter_descend_spec [OF srt d, of "\<lambda>x. k < key x"] have p:
    "filter (\<lambda>x. k < key x) (avl_inorder n) @ pending st = filter (\<lambda>x. k < key x) (avl_inorder t)"
    "Lf \<notin> set st" "key_sorted key dups (avl_inorder n)" "\<forall>x. avl_elem n = Some x \<longrightarrow> key x = k" by auto
  show ?thesis
  proof (cases n)
    case Lf
    with p d show ?thesis by (simp add: ddsrt_avl_iter_succ_def iter_start_loop)
  next
    case (Nd l x h r)
    note s = key_sorted_Nd [OF p(3) [unfolded Nd]]
    have x: "key x = k" using p(4) Nd by simp
    have l: "filter (\<lambda>y. k < key y) (avl_inorder l) = []" using s(3) x by (force intro: filter_none)
    show ?thesis
    proof (cases dups)
      case True
      with iter_gt_dups_spec [OF s(2), of k st] s(4) x p l Nd d show ?thesis
        by (simp add: ddsrt_avl_iter_succ_def iter_start_loop)
    next
      case False
      with s(6) x have "filter (\<lambda>y. k < key y) (avl_inorder r) = avl_inorder r" by (force intro: filter_all)
      with False x p l Nd d show ?thesis
        by (simp add: ddsrt_avl_iter_succ_def iter_start_loop push_left_pending push_left_nonleaf)
    qed
  qed
qed

text \<open>Walks over a range: the loop from a node to its neighbour ends, at the first node out of range.\<close>

lemma walk_range_loop_eq:
  assumes "avl_inv key False t"
  shows "avl_inorder t = l @ r \<Longrightarrow> walk_range_loop key t mx (first_opt r) = Some (takeWhile (\<lambda>y. key y \<le> mx) r)"
proof (induction r arbitrary: l)
  case Nil
  then show ?case by (simp add: walk_range_loop.simps)
next
  case (Cons x r)
  have wf: "idx_wf key (l @ x # r)" using assms Cons.prems by (simp add: avl_inv_def key_sorted_strict)
  have "x \<in> set (avl_inorder t)" using Cons.prems by simp
  from find_succ_eq [OF assms this] wf have "ddsrt_avl_find_succ t (Some (place_of key (key x) t)) = first_opt r"
    by (simp add: Cons.prems idx_wf_append idx_at(5))
  with Cons.IH [of "l @ [x]"] Cons.prems show ?case by (simp add: walk_range_loop.simps [of key t mx "Some x"])
qed

lemma walk_range_reverse_loop_eq:
  assumes "avl_inv key False t"
  shows "avl_inorder t = l @ r \<Longrightarrow>
    walk_range_reverse_loop key t mn (last_opt l) = Some (takeWhile (\<lambda>y. mn \<le> key y) (rev l))"
proof (induction l arbitrary: r rule: rev_induct)
  case Nil
  then show ?case by (simp add: walk_range_reverse_loop.simps)
next
  case (snoc x l)
  have wf: "idx_wf key (l @ x # r)" using assms snoc.prems by (simp add: avl_inv_def key_sorted_strict)
  have "x \<in> set (avl_inorder t)" using snoc.prems by simp
  from find_pred_eq [OF assms this] wf have "ddsrt_avl_find_pred t (Some (place_of key (key x) t)) = last_opt l"
    by (simp add: snoc.prems idx_wf_append idx_at(4))
  with snoc.IH [of "x # r"] snoc.prems show ?case by (simp add: walk_range_reverse_loop.simps [of key t mn "Some x"])
qed

lemma idx_split_filter:
  "idx_wf key xs \<Longrightarrow> xs = filter (\<lambda>x. key x < k) xs @ filter (\<lambda>x. k \<le> key x) xs"
  "idx_wf key xs \<Longrightarrow> xs = filter (\<lambda>x. key x \<le> k) xs @ filter (\<lambda>x. k < key x) xs"
proof (induction xs)
  case (Cons x xs)
  { case 1
    then have "\<not> key x < k \<Longrightarrow> filter (\<lambda>x. key x < k) xs = []" by (force intro: filter_none)
    with 1 Cons(1) show ?case by (auto simp: not_less intro: order_less_imp_le) }
  { case 2
    then have "\<not> key x \<le> k \<Longrightarrow> filter (\<lambda>x. key x \<le> k) xs = []" by (force intro: filter_none)
    with 2 Cons(2) show ?case by (auto simp: not_le) }
qed simp_all

lemma idx_takeWhile:
  "idx_wf key xs \<Longrightarrow> takeWhile (\<lambda>y. key y \<le> k) xs = filter (\<lambda>y. key y \<le> k) xs"
  "idx_wf key xs \<Longrightarrow> takeWhile (\<lambda>y. k \<le> key y) (rev xs) = rev (filter (\<lambda>y. k \<le> key y) xs)"
proof -
  assume wf: "idx_wf key xs"
  from wf show "takeWhile (\<lambda>y. key y \<le> k) xs = filter (\<lambda>y. key y \<le> k) xs"
    by (induction xs) (force intro: filter_none [symmetric])+
  from wf show "takeWhile (\<lambda>y. k \<le> key y) (rev xs) = rev (filter (\<lambda>y. k \<le> key y) xs)"
  proof (induction xs rule: rev_induct)
    case (snoc x xs)
    then have "\<not> k \<le> key x \<Longrightarrow> filter (\<lambda>y. k \<le> key y) xs = []" by (force simp: idx_wf_append intro: filter_none)
    with snoc show ?case by (simp add: idx_wf_append)
  qed simp
qed

lemma walk_range_eq:
  assumes "avl_inv key False t"
  shows "ddsrt_avl_walk_range key t mn mx = Some (filter (\<lambda>x. mn \<le> key x \<and> key x \<le> mx) (avl_inorder t))"
proof -
  let ?xs = "avl_inorder t" and ?r = "filter (\<lambda>x. mn \<le> key x) (avl_inorder t)"
  have wf: "idx_wf key ?xs" using assms by (simp add: avl_inv_def key_sorted_strict)
  then have "idx_wf key ?r" by (simp add: idx_wf_def sorted_wrt_filter)
  with walk_range_loop_eq [OF assms idx_split_filter(1) [OF wf, of mn], of mx] assms show ?thesis
    by (simp add: ddsrt_avl_walk_range_def lookup_succeq_spec inv_key_sorted idx_takeWhile conj_commute)
qed

lemma walk_range_reverse_eq:
  assumes "avl_inv key False t"
  shows "ddsrt_avl_walk_range_reverse key t mn mx = Some (rev (filter (\<lambda>x. mn \<le> key x \<and> key x \<le> mx) (avl_inorder t)))"
proof -
  let ?xs = "avl_inorder t" and ?l = "filter (\<lambda>x. key x \<le> mx) (avl_inorder t)"
  have wf: "idx_wf key ?xs" using assms by (simp add: avl_inv_def key_sorted_strict)
  then have "idx_wf key ?l" by (simp add: idx_wf_def sorted_wrt_filter)
  with walk_range_reverse_loop_eq [OF assms idx_split_filter(2) [OF wf, of mx], of mn] assms show ?thesis
    by (simp add: ddsrt_avl_walk_range_reverse_def lookup_predeq_spec inv_key_sorted idx_takeWhile(2) conj_commute)
qed

section \<open>Height\<close>










lemma push_left_depth: "avl_ok t \<Longrightarrow> length (push_left t st) \<le> length st + avl_height t"
  by (induction t st rule: push_left.induct) auto









section \<open>The trees implement the ordered index\<close>

lemma insert_spec_idx:
  assumes "avl_inv key False t" "ddsrt_avl_lookup key (key x) t = None"
  shows "avl_inorder (ddsrt_avl_insert key False x t) = idx_insert key x (avl_inorder t)
    \<and> avl_inv key False (ddsrt_avl_insert key False x t)"
proof -
  have n: "\<forall>y\<in>set (avl_inorder t). key y \<noteq> key x"
    using assms by (simp add: avl_inv_def lookup_eq_idx idx_lookup_None)
  from insert_spec [OF assms(1), of x] n obtain A B where p: "avl_inorder t = A @ B" "\<forall>a\<in>set A. key a \<le> key x"
    "\<forall>b\<in>set B. key x < key b" "avl_ok (ddsrt_avl_insert key False x t)"
    "avl_inorder (ddsrt_avl_insert key False x t) = A @ x # B" by blast
  have a: "\<forall>a\<in>set A. key a < key x" using p(1,2) n by (auto simp: less_le)
  have "idx_insert key x (A @ B) = A @ x # B" by (rule idx_insert_gap [OF a p(3)])
  moreover have "key_sorted key False (A @ x # B)"
    using assms(1) p(1,3) a by (auto simp: avl_inv_def key_sorted_append)
  ultimately show ?thesis using p by (simp add: avl_inv_def)
qed

lemma delete_spec_idx:
  assumes "avl_inv key False t"
  shows "avl_inorder (ddsrt_avl_delete (place_of key k t) t) = idx_delete key k (avl_inorder t)
    \<and> avl_inv key False (ddsrt_avl_delete (place_of key k t) t)"
proof -
  have srt: "key_sorted key False (avl_inorder t)" using assms by (simp add: avl_inv_def)
  from delete_spec [OF assms, of k] have ok: "avl_ok (ddsrt_avl_delete (place_of key k t) t)" by blast
  have e: "avl_inorder (ddsrt_avl_delete (place_of key k t) t) = idx_delete key k (avl_inorder t)"
    using delete_spec [OF assms, of k]
  proof (elim conjE disjE exE)
    fix A x B assume p: "avl_inorder t = A @ x # B" "key x = k" "avl_inorder (ddsrt_avl_delete (place_of key k t) t) = A @ B"
    from srt p(1) have "\<forall>y\<in>set A. key y < key x" "\<forall>y\<in>set B. key x < key y"
      by (auto simp: key_sorted_append)
    from idx_at(6) [OF this] p show ?thesis by simp
  qed (simp add: idx_delete_def filter_all)
  with ok srt show ?thesis by (simp add: avl_inv_def key_sorted_strict)
qed

interpretation avl: ordered_index avl_inorder key "avl_inv key False" Lf
  "ddsrt_avl_lookup key" "ddsrt_avl_lookup_pred_eq key False" "ddsrt_avl_lookup_succ_eq key False"
  "ddsrt_avl_lookup_pred key False" "ddsrt_avl_lookup_succ key False"
  ddsrt_avl_find_min ddsrt_avl_find_max "ddsrt_avl_insert key False" "\<lambda>k t. ddsrt_avl_delete (place_of key k t) t"
  for key :: "'a \<Rightarrow> 'k::linorder"
proof (unfold_locales, goal_cases)
  case 2
  then show ?case by (simp add: avl_inv_def)
next
  case (3 t)
  then show ?case by (simp add: avl_inv_def key_sorted_strict)
qed (simp_all add: lookup_eq_idx inv_key_sorted ddsrt_avl_lookup_pred_eq_def ddsrt_avl_lookup_succ_eq_def
    ddsrt_avl_lookup_pred_def ddsrt_avl_lookup_succ_def lookup_predeq_spec lookup_succeq_spec lookup_pred_spec
    lookup_succ_spec idx_pred_eq_def idx_succ_eq_def idx_pred_def idx_succ_def ddsrt_avl_find_min_def
    ddsrt_avl_find_max_def find_extremum_eq insert_spec_idx delete_spec_idx)

section \<open>Properties\<close>

lemma insert_inv:
  assumes "avl_inv key dups t" "dups \<or> (\<forall>y\<in>set (avl_inorder t). key y \<noteq> key x)"
  shows "avl_inv key dups (ddsrt_avl_insert key dups x t)"
proof -
  from insert_spec [OF assms] obtain A B where p: "avl_inorder t = A @ B" "\<forall>a\<in>set A. key a \<le> key x"
    "\<forall>b\<in>set B. key x < key b" "avl_ok (ddsrt_avl_insert key dups x t)"
    "avl_inorder (ddsrt_avl_insert key dups x t) = A @ x # B" by blast
  have "\<not> dups \<Longrightarrow> \<forall>a\<in>set A. key a < key x" using assms(2) p(1,2) by (auto simp: less_le)
  with p assms(1) show ?thesis by (auto simp: avl_inv_def key_sorted_append intro: less_imp_le)
qed

lemma delete_at_inv:
  assumes "avl_inv key dups t" "avl_elem (fst (locate node t [])) = Some x"
  shows "avl_inv key dups (ddsrt_avl_delete node t)"
  using delete_at_spec [of t node x] assms by (auto simp: avl_inv_def key_sorted_append)

lemma insert_count:
  "avl_inv key dups t \<Longrightarrow> dups \<or> (\<forall>y\<in>set (avl_inorder t). key y \<noteq> key x)
    \<Longrightarrow> length (avl_inorder (ddsrt_avl_insert key dups x t)) = Suc (length (avl_inorder t))"
  using insert_spec [of key dups t x] by auto

text \<open>The invariant of a counting tree: that of the tree, and the count is the number of nodes.\<close>

definition ctree_inv :: "('a \<Rightarrow> 'k::linorder) \<Rightarrow> bool \<Rightarrow> 'a avl_ctree \<Rightarrow> bool" where
  "ctree_inv key dups c \<longleftrightarrow> avl_inv key dups (ct_t c) \<and> ddsrt_avl_ccount c = length (ddsrt_avl_walk (ct_t c))"

text \<open>C18: A counting tree, with or without duplicate keys, keeps its invariant: stored heights are correct, every node is
  balanced to within one level, the nodes are in key order, and the counter is the number of nodes. The empty tree has it;
  insertion keeps it, of any node when duplicates are allowed and of one with a new key otherwise; deletion keeps it, of
  whichever node of the tree it is given, and takes that node and no other out of the order.\<close>

theorem avl_operations_keep_invariant:
  assumes "ctree_inv key dups c"
  shows "ctree_inv key dups ddsrt_avl_cinit
    \<and> ((dups \<or> (\<forall>y\<in>set (ddsrt_avl_walk (ct_t c)). key y \<noteq> key x)) \<longrightarrow> ctree_inv key dups (ddsrt_avl_cinsert key dups x c))
    \<and> (\<forall>node y. avl_elem (fst (locate node (ct_t c) [])) = Some y \<longrightarrow>
         ctree_inv key dups (ddsrt_avl_cdelete node c)
         \<and> (\<exists>A B. ddsrt_avl_walk (ct_t c) = A @ y # B \<and> ddsrt_avl_walk (ct_t (ddsrt_avl_cdelete node c)) = A @ B))"
proof (intro conjI allI impI)
  show "ctree_inv key dups ddsrt_avl_cinit"
    by (simp add: ctree_inv_def avl_inv_def ddsrt_avl_cinit_def ddsrt_avl_ccount_def walk_eq)
next
  assume "dups \<or> (\<forall>y\<in>set (ddsrt_avl_walk (ct_t c)). key y \<noteq> key x)"
  then show "ctree_inv key dups (ddsrt_avl_cinsert key dups x c)"
    using assms insert_count [of key dups "ct_t c" x]
    by (simp add: ctree_inv_def walk_eq ddsrt_avl_cinsert_def ddsrt_avl_ccount_def insert_inv)
next
  fix node y
  assume n: "avl_elem (fst (locate node (ct_t c) [])) = Some y"
  have inv: "avl_inv key dups (ct_t c)" using assms by (simp add: ctree_inv_def)
  then obtain A B where ab: "avl_inorder (ct_t c) = A @ y # B" "avl_inorder (ddsrt_avl_delete node (ct_t c)) = A @ B"
    using delete_at_spec [OF _ n] by (auto simp: avl_inv_def)
  then show "\<exists>A B. ddsrt_avl_walk (ct_t c) = A @ y # B \<and> ddsrt_avl_walk (ct_t (ddsrt_avl_cdelete node c)) = A @ B"
    by (auto simp: walk_eq ddsrt_avl_cdelete_def)
  show "ctree_inv key dups (ddsrt_avl_cdelete node c)"
    using assms ab delete_at_inv [OF inv n] by (simp add: ctree_inv_def walk_eq ddsrt_avl_cdelete_def ddsrt_avl_ccount_def)
qed

text \<open>A tree of five numbers with a duplicate.\<close>

definition ctree_sample :: "nat avl_ctree" where
  "ctree_sample = fold (ddsrt_avl_cinsert (\<lambda>x. x) True) [5, 3, 8, 8, 9] ddsrt_avl_cinit"

lemma ctree_sample_eq:
  "ct_t ctree_sample = Nd (Nd Lf 3 1 Lf) 5 3 (Nd (Nd Lf 8 1 Lf) 8 2 (Nd Lf 9 1 Lf))" "ct_count ctree_sample = 5"
  by code_simp+

theorem avl_operations_keep_invariant_witness:
  "ctree_inv (\<lambda>x. x) True (ddsrt_avl_cinsert (\<lambda>x. x) True 4 ctree_sample)
   \<and> ctree_inv (\<lambda>x. x) True (ddsrt_avl_cdelete [True, False] ctree_sample)"
proof -
  have "ctree_inv (\<lambda>x. x) True ctree_sample"
    by (simp add: ctree_inv_def avl_inv_def ctree_sample_eq walk_eq ddsrt_avl_ccount_def)
  from avl_operations_keep_invariant [OF this, of 4] show ?thesis by (simp add: ctree_sample_eq)
qed

text \<open>C19: On a tree without duplicate keys every operation computes what the corresponding operation of
  the reference index computes on the list of nodes in key order: exact and neighbouring lookups,
  extrema, the neighbours of a node, insertion, deletion and the replacement of a node.\<close>

theorem avl_equals_ordered_index:
  assumes "avl_inv key False t"
  shows "ddsrt_avl_lookup key k t = idx_lookup key k (ddsrt_avl_walk t)
    \<and> ddsrt_avl_lookup_pred_eq key False k t = idx_pred_eq key k (ddsrt_avl_walk t)
    \<and> ddsrt_avl_lookup_succ_eq key False k t = idx_succ_eq key k (ddsrt_avl_walk t)
    \<and> ddsrt_avl_lookup_pred key False k t = idx_pred key k (ddsrt_avl_walk t)
    \<and> ddsrt_avl_lookup_succ key False k t = idx_succ key k (ddsrt_avl_walk t)
    \<and> ddsrt_avl_find_min t = first_opt (ddsrt_avl_walk t)
    \<and> ddsrt_avl_find_max t = last_opt (ddsrt_avl_walk t)
    \<and> ddsrt_avl_walk (ddsrt_avl_delete (place_of key k t) t) = idx_delete key k (ddsrt_avl_walk t)
    \<and> (\<forall>x. ddsrt_avl_lookup key (key x) t = None \<longrightarrow>
          ddsrt_avl_walk (ddsrt_avl_insert key False x t) = idx_insert key x (ddsrt_avl_walk t))
    \<and> (\<forall>x y. ddsrt_avl_lookup key (key x) t = Some x \<longrightarrow>
          ddsrt_avl_find_pred t (Some (place_of key (key x) t)) = idx_pred key (key x) (ddsrt_avl_walk t)
          \<and> ddsrt_avl_find_succ t (Some (place_of key (key x) t)) = idx_succ key (key x) (ddsrt_avl_walk t)
          \<and> ddsrt_avl_walk (ddsrt_avl_swap_node (place_of key (key x) t) y t) = idx_update key (key x) y (ddsrt_avl_walk t))"
proof -
  have "ddsrt_avl_lookup key (key x) t = Some x \<Longrightarrow> x \<in> set (avl_inorder t)" for x
    using assms by (auto simp: avl.lookup_eq dest: idx_lookup_SomeD)
  with assms show ?thesis
    by (simp add: walk_eq avl.pred_eq_eq avl.succ_eq_eq avl.pred_eq' avl.succ_eq' avl.find_min_eq avl.find_max_eq
        avl.inorder_delete avl.inorder_insert find_pred_eq find_succ_eq swap_node_spec)
      (simp add: avl.lookup_eq)
qed

theorem avl_equals_ordered_index_witness:
  "ddsrt_avl_lookup_pred_eq (\<lambda>x::nat. x) False 7 (Nd (Nd Lf 3 1 Lf) 5 2 (Nd Lf 8 1 Lf)) = Some 5"
proof -
  have "avl_inv (\<lambda>x::nat. x) False (Nd (Nd Lf 3 1 Lf) 5 2 (Nd Lf 8 1 Lf))" by (simp add: avl_inv_def)
  from avl_equals_ordered_index [OF this, of 7]
  have "ddsrt_avl_lookup_pred_eq (\<lambda>x::nat. x) False 7 (Nd (Nd Lf 3 1 Lf) 5 2 (Nd Lf 8 1 Lf))
    = idx_pred_eq (\<lambda>x. x) 7 (ddsrt_avl_walk (Nd (Nd Lf 3 1 Lf) 5 2 (Nd Lf 8 1 Lf)))" by blast
  also have "\<dots> = Some 5" by (simp add: walk_eq idx_pred_eq_def)
  finally show ?thesis .
qed

lemma insert_dups_spec:
  assumes "avl_inv key True t"
  shows "avl_inv key True (ddsrt_avl_insert key True x t)
    \<and> mset (avl_inorder (ddsrt_avl_insert key True x t)) = mset (avl_inorder t @ [x])
    \<and> filter (\<lambda>y. key y = k) (avl_inorder (ddsrt_avl_insert key True x t)) = filter (\<lambda>y. key y = k) (avl_inorder t @ [x])"
proof -
  from insert_spec [OF assms, of x] obtain A B where p: "avl_inorder t = A @ B" "\<forall>a\<in>set A. key a \<le> key x"
    "\<forall>b\<in>set B. key x < key b" "avl_inorder (ddsrt_avl_insert key True x t) = A @ x # B" by blast
  have "key x = k \<Longrightarrow> filter (\<lambda>y. key y = k) B = []" using p(3) by (force intro: filter_none)
  with p insert_inv [OF assms, of x] show ?thesis by simp
qed

lemma fold_insert_dups:
  "avl_inv key True (fold (ddsrt_avl_insert key True) xs Lf)
    \<and> mset (avl_inorder (fold (ddsrt_avl_insert key True) xs Lf)) = mset xs
    \<and> filter (\<lambda>y. key y = k) (avl_inorder (fold (ddsrt_avl_insert key True) xs Lf)) = filter (\<lambda>y. key y = k) xs"
proof (induction xs rule: rev_induct)
  case (snoc x xs)
  then show ?case using insert_dups_spec [of key "fold (ddsrt_avl_insert key True) xs Lf" x k] by simp
qed (simp add: avl_inv_def)

text \<open>With duplicate keys allowed, a forward walk of a tree built by insertions visits the nodes sorted
  by key, and those with equal keys in the order in which they were inserted (a stable sort of the insertions).\<close>

theorem avl_duplicates_in_insertion_order:
  "ddsrt_avl_walk (fold (ddsrt_avl_insert key True) xs Lf) = sort_key key xs"
proof -
  let ?ys = "avl_inorder (fold (ddsrt_avl_insert key True) xs Lf)"
  have "sort_key key xs = ?ys"
  proof (rule properties_for_sort_key)
    show "mset ?ys = mset xs" using fold_insert_dups [of key xs] by blast
    show "filter (\<lambda>x. key k = key x) ?ys = filter (\<lambda>x. key k = key x) xs" for k
      using fold_insert_dups [of key xs "key k"] by (simp add: eq_commute)
    show "sorted (map key ?ys)"
      using fold_insert_dups [of key xs] by (simp add: avl_inv_def key_sorted_def sorted_map)
  qed
  then show ?thesis by (simp add: walk_eq)
qed

lemma treedestroy_mset: "mset (treedestroy t) = mset (avl_inorder t)"
  by (induction t) auto

text \<open>C20: The loop over \<open>ddsrt_avl_iter_first\<close> and \<open>ddsrt_avl_iter_next\<close> visits, in every one of its rounds,
  the next node in the order of \<open>ddsrt_avl_walk\<close> and ends after the last one; started with
  \<open>ddsrt_avl_iter_succ_eq\<close> (\<open>ddsrt_avl_iter_succ\<close>) it visits exactly those with a key at or above (above)
  the given one, also when there are duplicates; \<open>ddsrt_avl_free\<close> hands over the same nodes, each once.\<close>

theorem avl_iteration_visits_in_order:
  assumes "avl_inv key dups t"
  shows "iter_loop m (ddsrt_avl_iter_first t) = take m (ddsrt_avl_walk t)
    \<and> iter_loop m (ddsrt_avl_iter_succ_eq key dups t k) = take m (filter (\<lambda>x. k \<le> key x) (ddsrt_avl_walk t))
    \<and> iter_loop m (ddsrt_avl_iter_succ key dups t k) = take m (filter (\<lambda>x. k < key x) (ddsrt_avl_walk t))
    \<and> key_sorted key dups (ddsrt_avl_walk t) \<and> mset (snd (ddsrt_avl_free t)) = mset (ddsrt_avl_walk t)"
  using assms by (simp add: iter_loop_eq walk_eq iter_succ_eq_loop iter_succ_loop inv_key_sorted ddsrt_avl_free_def treedestroy_mset)

theorem avl_iteration_visits_in_order_witness:
  "iter_loop 3 (ddsrt_avl_iter_succ_eq (\<lambda>x. x) True (ct_t ctree_sample) 8) = [8, 8, 9]"
proof -
  have "avl_inv (\<lambda>x. x) True (ct_t ctree_sample)" by (simp add: avl_inv_def ctree_sample_eq)
  from avl_iteration_visits_in_order [OF this, of 3 8] show ?thesis
    by (simp add: walk_eq ctree_sample_eq)
qed

text \<open>The walks over a range of keys end, having visited exactly the nodes with a key in the range, in
  increasing and in decreasing order.\<close>

theorem avl_walk_range_terminates:
  assumes "avl_inv key False t"
  shows "ddsrt_avl_walk_range key t mn mx = Some (filter (\<lambda>x. mn \<le> key x \<and> key x \<le> mx) (ddsrt_avl_walk t))
    \<and> ddsrt_avl_walk_range_reverse key t mn mx = Some (rev (filter (\<lambda>x. mn \<le> key x \<and> key x \<le> mx) (ddsrt_avl_walk t)))"
  using assms by (simp add: walk_eq walk_range_eq walk_range_reverse_eq)

theorem avl_walk_range_terminates_witness:
  "ddsrt_avl_walk_range_reverse (\<lambda>x::nat. x) (Nd (Nd Lf 3 1 Lf) 5 2 (Nd Lf 8 1 Lf)) 4 9 = Some [8, 5]"
proof -
  have "avl_inv (\<lambda>x::nat. x) False (Nd (Nd Lf 3 1 Lf) 5 2 (Nd Lf 8 1 Lf))" by (simp add: avl_inv_def)
  from avl_walk_range_terminates [OF this, of 4 9] show ?thesis by (simp add: walk_eq)
qed




end
