(* ===== verification/Fibheap.thy ===== *)
theory Fibheap
  imports Prelude
begin

text \<open>
  The Fibonacci heaps of ddsrt/src/fibheap.c, the priority queue behind leases and lifespans.

  A node is embedded in the caller's structure and the key is read from that structure through a
  comparison function. The model names a node by the address of the structure (\<open>fh_id\<close>), and every
  operation that compares takes \<open>key\<close>, the current contents of memory. Circular lists of siblings
  are lists that start at the node the list pointer points to; \<open>fh->roots\<close> is thus the first
  element of the list of roots. Parent pointers are the frames from a node to the root. The array
  \<open>roots[]\<close> of \<open>ddsrt_fibheap_extract_min\<close> is a list: its length is \<open>min_degree_noninit\<close>, beyond
  which the array is not initialised.
\<close>

datatype 'n fhn = Fhn (fh_id: 'n) (fh_mark: bool) (fh_degree: nat) (fh_children: "'n fhn list")

type_synonym 'n fibheap = "'n fhn list"

section \<open>Lists of siblings\<close>

fun ddsrt_fibheap_merge_nonempty_list :: "'a list \<Rightarrow> 'a list \<Rightarrow> 'a list" where
  "ddsrt_fibheap_merge_nonempty_list [] l = l"
| "ddsrt_fibheap_merge_nonempty_list (m # ms) l = m # l @ ms"

definition ddsrt_fibheap_init :: "'n fibheap" where
  "ddsrt_fibheap_init = []"

definition ddsrt_fibheap_min :: "'n fibheap \<Rightarrow> 'n option" where
  "ddsrt_fibheap_min fh = map_option fh_id (first_opt fh)"

text \<open>When \<open>br\<close> is the new minimum, the circle is entered there.\<close>

definition ddsrt_fibheap_merge_into :: "('n \<Rightarrow> 'k::linorder) \<Rightarrow> 'n fibheap \<Rightarrow> 'n fibheap \<Rightarrow> 'n fibheap" where
  "ddsrt_fibheap_merge_into key a br =
     (case br of
        [] \<Rightarrow> a
      | b # bs \<Rightarrow>
          (case a of
             [] \<Rightarrow> br
           | r # rs \<Rightarrow>
               (if key (fh_id b) < key (fh_id r) then br @ rs @ [r]
                else ddsrt_fibheap_merge_nonempty_list a br)))"

text \<open>The second heap is empty afterwards.\<close>

definition ddsrt_fibheap_merge :: "('n \<Rightarrow> 'k::linorder) \<Rightarrow> 'n fibheap \<Rightarrow> 'n fibheap \<Rightarrow> 'n fibheap \<times> 'n fibheap" where
  "ddsrt_fibheap_merge key a b = (ddsrt_fibheap_merge_into key a b, [])"

definition ddsrt_fibheap_insert :: "('n \<Rightarrow> 'k::linorder) \<Rightarrow> 'n \<Rightarrow> 'n fibheap \<Rightarrow> 'n fibheap" where
  "ddsrt_fibheap_insert key x fh = ddsrt_fibheap_merge_into key fh [Fhn x False 0 []]"

fun ddsrt_fibheap_add_as_child :: "'n fhn \<Rightarrow> 'n fhn \<Rightarrow> 'n fhn" where
  "ddsrt_fibheap_add_as_child (Fhn x m d cs) child =
     Fhn x m (d + 1) (ddsrt_fibheap_merge_nonempty_list cs [child])"

section \<open>Extracting the minimum\<close>

text \<open>The inner loop: as long as there is a root of the same degree, the two become one.\<close>

lemma present_less:
  "i < length arr \<Longrightarrow> arr ! i = Some r \<Longrightarrow>
     length (filter (\<lambda>x. x \<noteq> None) (arr[i := None])) < length (filter (\<lambda>x. x \<noteq> None) arr)"
proof (induction arr arbitrary: i)
  case (Cons a arr)
  then show ?case by (cases i) auto
qed simp

function link_roots :: "('n \<Rightarrow> 'k::linorder) \<Rightarrow> 'n fhn option list \<Rightarrow> 'n fhn \<Rightarrow> 'n fhn option list \<times> 'n fhn" where
  "link_roots key arr n =
     (if fh_degree n < length arr then
        (case arr ! fh_degree n of
           None \<Rightarrow> (arr, n)
         | Some r \<Rightarrow>
             (let (u, v) = (if key (fh_id r) < key (fh_id n) then (r, n) else (n, r))
              in link_roots key (arr[fh_degree n := None]) (ddsrt_fibheap_add_as_child u v)))
      else (arr, n))"
  by pat_completeness auto
termination
  by (relation "measure (\<lambda>(key, arr, n). length (filter (\<lambda>x. x \<noteq> None) arr))")
    (auto simp: present_less simp del: not_None_eq)

declare link_roots.simps [simp del]

text \<open>\<open>roots[n->degree] = n\<close>, after initialising the array up to there.\<close>

definition store_root :: "'n fhn option list \<Rightarrow> 'n fhn \<Rightarrow> 'n fhn option list" where
  "store_root arr n = (arr @ replicate (fh_degree n + 1 - length arr) None)[fh_degree n := Some n]"

fun consolidate :: "('n \<Rightarrow> 'k::linorder) \<Rightarrow> 'n fhn list \<Rightarrow> 'n fhn option list \<Rightarrow> 'n fhn option list" where
  "consolidate key [] arr = arr"
| "consolidate key (n # ns) arr =
     (let (arr1, n1) = link_roots key arr n in consolidate key ns (store_root arr1 n1))"

text \<open>The scan of the array: the roots in the order of the array, entered at the first smallest.\<close>

fun present :: "'a option list \<Rightarrow> 'a list" where
  "present [] = []"
| "present (None # xs) = present xs"
| "present (Some x # xs) = x # present xs"

fun scan_min :: "('n \<Rightarrow> 'k::linorder) \<Rightarrow> 'n fhn list \<Rightarrow> 'n fhn \<Rightarrow> 'n fhn list \<Rightarrow> 'n fhn list \<Rightarrow> 'n fhn list" where
  "scan_min key bef newmin btw [] = newmin # btw @ bef"
| "scan_min key bef newmin btw (r # rs) =
     (if key (fh_id r) < key (fh_id newmin) then scan_min key (bef @ newmin # btw) r [] rs
      else scan_min key bef newmin (btw @ [r]) rs)"

fun unmarked :: "'n fhn \<Rightarrow> 'n fhn" where
  "unmarked (Fhn x m d cs) = Fhn x False d cs"

text \<open>The roots after the minimum has been taken out and its children have taken its place.\<close>

definition remaining_roots :: "'n fhn \<Rightarrow> 'n fhn list \<Rightarrow> 'n fhn list" where
  "remaining_roots m rest =
     (if fh_children m \<noteq> [] then ddsrt_fibheap_merge_nonempty_list rest (map unmarked (fh_children m)) else rest)"

definition ddsrt_fibheap_extract_min :: "('n \<Rightarrow> 'k::linorder) \<Rightarrow> 'n fibheap \<Rightarrow> 'n option \<times> 'n fibheap" where
  "ddsrt_fibheap_extract_min key fh =
     (case fh of
        [] \<Rightarrow> (None, [])
      | m # rest \<Rightarrow>
          if rest = [] \<and> fh_children m = [] then (Some (fh_id m), [])
          else
            (Some (fh_id m),
             (case present (consolidate key (remaining_roots m rest) []) of
                [] \<Rightarrow> []
              | r # rs \<Rightarrow> scan_min key [] r [] rs)))"

section \<open>Decreasing a key, deleting\<close>

text \<open>A parent (address, mark, degree) and the siblings of its child on the path.\<close>

datatype 'n fh_frame = FhF 'n bool nat "'n fhn list" "'n fhn list"

text \<open>Where a node is: the roots before its root, the node, its ancestors (innermost first), the other roots.\<close>

fun find_node :: "'n \<Rightarrow> 'n fhn list \<Rightarrow> 'n fhn list \<Rightarrow> ('n fhn list \<times> 'n fhn \<times> 'n fh_frame list \<times> 'n fhn list) option" where
  "find_node x ls [] = None"
| "find_node x ls (Fhn y m d cs # ts) =
     (if x = y then Some (ls, Fhn y m d cs, [], ts)
      else
        (case find_node x [] cs of
           Some (l, n, fs, r) \<Rightarrow> Some (ls, n, fs @ [FhF y m d l r], ts)
         | None \<Rightarrow> find_node x (ls @ [Fhn y m d cs]) ts))"

fun close_frames :: "'n fh_frame list \<Rightarrow> 'n fhn \<Rightarrow> 'n fhn" where
  "close_frames [] n = n"
| "close_frames (FhF y m d l r # fs) n = close_frames fs (Fhn y m d (l @ n # r))"

fun set_mark :: "'n fhn \<Rightarrow> 'n fhn" where
  "set_mark (Fhn x m d cs) = Fhn x True d cs"

text \<open>
  The walk towards the root: a marked node is cut off and merged in behind the first root, the one
  where it stops is marked. \<open>ls\<close> and \<open>rs\<close> are the roots before and behind the root of the path.
\<close>

fun cut_up :: "'n fhn \<Rightarrow> 'n fh_frame list \<Rightarrow> 'n fhn list \<Rightarrow> 'n fhn list \<Rightarrow> 'n fhn list" where
  "cut_up n [] ls rs = ls @ n # rs"
| "cut_up n (FhF y m d l r # fs) ls rs =
     (if fh_mark n then
        (case ls of
           [] \<Rightarrow> cut_up (Fhn y m (d - 1) (l @ r)) fs [] (unmarked n # rs)
         | h # hs \<Rightarrow> cut_up (Fhn y m (d - 1) (l @ r)) fs (h # unmarked n # hs) rs)
      else ls @ close_frames (FhF y m d l r # fs) (set_mark n) # rs)"

definition ddsrt_fibheap_cutnode ::
  "'n fhn list \<times> 'n fhn \<times> 'n fh_frame list \<times> 'n fhn list \<Rightarrow> 'n fibheap" where
  "ddsrt_fibheap_cutnode w = (case w of (ls, n, fs, rs) \<Rightarrow> cut_up (set_mark n) fs ls rs)"

text \<open>\<open>fh->roots = node\<close>, for a node among the roots\<close>

fun rotate_to :: "'n \<Rightarrow> 'n fhn list \<Rightarrow> 'n fhn list \<Rightarrow> 'n fhn list" where
  "rotate_to x bef [] = bef"
| "rotate_to x bef (r # rs) = (if fh_id r = x then r # rs @ bef else rotate_to x (bef @ [r]) rs)"

text \<open>\<open>if (cmp (node, fh->roots) < 0) fh->roots = node;\<close>\<close>

definition fix_min :: "('n \<Rightarrow> 'k::linorder) \<Rightarrow> 'n \<Rightarrow> 'n fibheap \<Rightarrow> 'n fibheap" where
  "fix_min key x roots =
     (case roots of [] \<Rightarrow> []
      | r # _ \<Rightarrow> if key x < key (fh_id r) then rotate_to x [] roots else roots)"

text \<open>Called when the key has been decreased; a node that is not in the heap may not be given.\<close>

definition ddsrt_fibheap_decrease_key :: "('n \<Rightarrow> 'k::linorder) \<Rightarrow> 'n \<Rightarrow> 'n fibheap \<Rightarrow> 'n fibheap" where
  "ddsrt_fibheap_decrease_key key x fh =
     (case find_node x [] fh of
        None \<Rightarrow> fh
      | Some (ls, n, fs, rs) \<Rightarrow>
          (case fs of
             FhF y m d l r # _ \<Rightarrow>
               if key y \<le> key x then fh else fix_min key x (ddsrt_fibheap_cutnode (ls, n, fs, rs))
           | [] \<Rightarrow> fix_min key x fh))"

definition ddsrt_fibheap_delete :: "('n \<Rightarrow> 'k::linorder) \<Rightarrow> 'n \<Rightarrow> 'n fibheap \<Rightarrow> 'n fibheap" where
  "ddsrt_fibheap_delete key x fh =
     (case find_node x [] fh of
        None \<Rightarrow> fh
      | Some (ls, n, fs, rs) \<Rightarrow>
          (let roots = (if fs \<noteq> [] then ddsrt_fibheap_cutnode (ls, n, fs, rs) else fh)
           in snd (ddsrt_fibheap_extract_min key (rotate_to x [] roots))))"

text \<open>The bound of the array \<open>roots[]\<close> with 64-bit pointers.\<close>

definition MAX_DEGREE :: nat where
  "MAX_DEGREE = 8 * 8 - 1"

end
