(* ===== verification/Fibheap_Props.thy ===== *)
theory Fibheap_Props
  imports Fibheap
begin

text \<open>
  The Fibonacci heaps of \<open>Fibheap\<close> are a priority queue: the contract is the locale
  \<open>priority_queue\<close>, stated over the multiset of nodes, and the heap of the code is its
  interpretation. The marks bound the degree of a node, hence the array \<open>roots[]\<close>.
\<close>

lemma set_mset_remove1:
  assumes "count M x \<le> 1"
  shows "set_mset (M - {#x#}) = set_mset M - {x}"
proof (rule set_eqI)
  fix y show "y \<in> set_mset (M - {#x#}) \<longleftrightarrow> y \<in> set_mset M - {x}"
    using assms by (cases "y = x") (auto simp: in_diff_count)
qed

section \<open>The contract of a priority queue\<close>

text \<open>
  \<open>nodes\<close> is what the queue holds; \<open>inv key\<close> its invariant for the keys as they are in memory.
  A key may be decreased in memory before \<open>decrease_key\<close> is called.
\<close>

locale priority_queue =
  fixes nodes :: "'q \<Rightarrow> 'n multiset"
    and inv :: "('n \<Rightarrow> 'k::linorder) \<Rightarrow> 'q \<Rightarrow> bool"
    and empty :: "'q"
    and find_min :: "'q \<Rightarrow> 'n option"
    and insert :: "('n \<Rightarrow> 'k) \<Rightarrow> 'n \<Rightarrow> 'q \<Rightarrow> 'q"
    and extract_min :: "('n \<Rightarrow> 'k) \<Rightarrow> 'q \<Rightarrow> 'n option \<times> 'q"
    and decrease_key :: "('n \<Rightarrow> 'k) \<Rightarrow> 'n \<Rightarrow> 'q \<Rightarrow> 'q"
    and delete :: "('n \<Rightarrow> 'k) \<Rightarrow> 'n \<Rightarrow> 'q \<Rightarrow> 'q"
  assumes nodes_empty: "nodes empty = {#}"
    and inv_empty: "inv key empty"
    and inv_distinct: "inv key q \<Longrightarrow> count (nodes q) x \<le> 1"
    and inv_cong: "inv key q \<Longrightarrow> (\<And>x. x \<in># nodes q \<Longrightarrow> key' x = key x) \<Longrightarrow> inv key' q"
    and find_min_None: "inv key q \<Longrightarrow> find_min q = None \<longleftrightarrow> nodes q = {#}"
    and find_min_in: "inv key q \<Longrightarrow> find_min q = Some x \<Longrightarrow> x \<in># nodes q"
    and find_min_le: "inv key q \<Longrightarrow> find_min q = Some x \<Longrightarrow> y \<in># nodes q \<Longrightarrow> key x \<le> key y"
    and nodes_insert: "inv key q \<Longrightarrow> nodes (insert key x q) = add_mset x (nodes q)"
    and inv_insert: "inv key q \<Longrightarrow> x \<notin># nodes q \<Longrightarrow> inv key (insert key x q)"
    and extract_min_fst: "inv key q \<Longrightarrow> fst (extract_min key q) = find_min q"
    and nodes_extract_min: "inv key q \<Longrightarrow> find_min q = Some x \<Longrightarrow> nodes (snd (extract_min key q)) = nodes q - {#x#}"
    and inv_extract_min: "inv key q \<Longrightarrow> inv key (snd (extract_min key q))"
    and nodes_decrease_key: "inv key q \<Longrightarrow> k \<le> key x \<Longrightarrow> nodes (decrease_key (key(x := k)) x q) = nodes q"
    and inv_decrease_key: "inv key q \<Longrightarrow> k \<le> key x \<Longrightarrow> inv (key(x := k)) (decrease_key (key(x := k)) x q)"
    and nodes_delete: "inv key q \<Longrightarrow> nodes (delete key x q) = nodes q - {#x#}"
    and inv_delete: "inv key q \<Longrightarrow> inv key (delete key x q)"
begin

lemma set_extract_min:
  "inv key q \<Longrightarrow> find_min q = Some x \<Longrightarrow> set_mset (nodes (snd (extract_min key q))) = set_mset (nodes q) - {x}"
  by (metis inv_distinct nodes_extract_min set_mset_remove1)

lemma set_delete: "inv key q \<Longrightarrow> set_mset (nodes (delete key x q)) = set_mset (nodes q) - {x}"
  by (metis inv_distinct nodes_delete set_mset_remove1)

lemma set_insert: "inv key q \<Longrightarrow> set_mset (nodes (insert key x q)) = {x} \<union> set_mset (nodes q)"
  by (simp add: nodes_insert)

text \<open>Taking out the minimum again and again gives the nodes in the order of their keys.\<close>

fun drain :: "nat \<Rightarrow> ('n \<Rightarrow> 'k) \<Rightarrow> 'q \<Rightarrow> 'n list" where
  "drain 0 key q = []"
| "drain (Suc m) key q =
     (case extract_min key q of (None, q') \<Rightarrow> [] | (Some x, q') \<Rightarrow> x # drain m key q')"

lemma drain_sorted:
  assumes "inv key q"
  shows "sorted (map key (drain m key q)) \<and> set (drain m key q) \<subseteq> set_mset (nodes q)
    \<and> (size (nodes q) \<le> m \<longrightarrow> mset (drain m key q) = nodes q)"
  using assms
proof (induction m arbitrary: q)
  case (Suc m)
  obtain x q' where e: "extract_min key q = (x, q')" by fastforce
  note m = extract_min_fst [OF Suc.prems] inv_extract_min [OF Suc.prems]
  show ?case
  proof (cases x)
    case None
    then show ?thesis using e m find_min_None [OF Suc.prems] by simp
  next
    case (Some y)
    then have f: "find_min q = Some y" using e m by simp
    have q': "inv key q'" "nodes q' = nodes q - {#y#}" "y \<in># nodes q"
      using e m(2) nodes_extract_min [OF Suc.prems f] find_min_in [OF Suc.prems f] by auto
    from Suc.IH [OF q'(1)] q'(2) have ih: "sorted (map key (drain m key q'))"
      "set (drain m key q') \<subseteq> set_mset (nodes q)" "size (nodes q') \<le> m \<Longrightarrow> mset (drain m key q') = nodes q'"
      by (auto dest: in_diffD)
    have "\<forall>z\<in>set (drain m key q'). key y \<le> key z" using ih(2) find_min_le [OF Suc.prems f] by blast
    moreover have "size (nodes q) \<le> Suc m \<Longrightarrow> size (nodes q') \<le> m" using q' by (simp add: size_Diff_singleton)
    ultimately show ?thesis using ih q'(2,3) e Some by auto
  qed
qed (auto simp: size_eq_0_iff_empty)

end

section \<open>The invariant\<close>

fun fhs_mset :: "'n fhn list \<Rightarrow> 'n multiset" where
  "fhs_mset [] = {#}"
| "fhs_mset (Fhn x m d cs # ts) = add_mset x (fhs_mset cs + fhs_mset ts)"

text \<open>
  \<open>degree + mark\<close> bounds from below how many siblings a child had when it was linked: fewer than
  \<open>k\<close> can be said of at most \<open>k\<close> children.
\<close>

fun fh_rank :: "'n fhn \<Rightarrow> nat" where
  "fh_rank (Fhn x m d cs) = d + (if m then 1 else 0)"

definition ranks_ok :: "'n fhn list \<Rightarrow> bool" where
  "ranks_ok cs \<longleftrightarrow> (\<forall>k. length (filter (\<lambda>c. fh_rank c < k) cs) \<le> k)"

fun fhs_ok :: "('n \<Rightarrow> 'k::linorder) \<Rightarrow> 'n fhn list \<Rightarrow> bool" where
  "fhs_ok key [] \<longleftrightarrow> True"
| "fhs_ok key (Fhn x m d cs # ts) \<longleftrightarrow>
     d = length cs \<and> (\<forall>c\<in>set cs. key x \<le> key (fh_id c)) \<and> ranks_ok cs \<and> fhs_ok key cs \<and> fhs_ok key ts"

definition fh_inv :: "('n \<Rightarrow> 'k::linorder) \<Rightarrow> 'n fibheap \<Rightarrow> bool" where
  "fh_inv key fh \<longleftrightarrow> fhs_ok key fh \<and> (\<forall>x. count (fhs_mset fh) x \<le> 1)
     \<and> (\<forall>r\<in>set fh. key (fh_id (hd fh)) \<le> key (fh_id r))"

lemma fhs_mset_append [simp]: "fhs_mset (xs @ ys) = fhs_mset xs + fhs_mset ys"
  by (induction xs rule: fhs_mset.induct) auto

lemma fhs_ok_append [simp]: "fhs_ok key (xs @ ys) \<longleftrightarrow> fhs_ok key xs \<and> fhs_ok key ys"
  by (induction key xs rule: fhs_ok.induct) auto

lemma fhs_mset_Cons: "fhs_mset (t # ts) = fhs_mset [t] + fhs_mset ts"
  using fhs_mset_append [of "[t]" ts] by simp

lemma fhs_ok_Cons: "fhs_ok key (t # ts) \<longleftrightarrow> fhs_ok key [t] \<and> fhs_ok key ts"
  using fhs_ok_append [of key "[t]" ts] by simp

lemma fhs_ok_set: "fhs_ok key ts \<longleftrightarrow> (\<forall>t\<in>set ts. fhs_ok key [t])"
proof (induction ts)
  case (Cons t ts)
  then show ?case by (subst fhs_ok_Cons) simp
qed simp

lemma fhs_mset_Nil_iff [simp]: "fhs_mset ts = {#} \<longleftrightarrow> ts = []"
  by (cases ts rule: fhs_mset.cases) auto

lemma fh_id_in: "t \<in> set ts \<Longrightarrow> fh_id t \<in># fhs_mset ts"
proof (induction ts)
  case (Cons t' ts)
  then show ?case by (cases t'; subst fhs_mset_Cons) auto
qed simp

text \<open>Heap order: some root is at or below every node.\<close>

lemma fhs_ok_root_le: "fhs_ok key ts \<Longrightarrow> x \<in># fhs_mset ts \<Longrightarrow> \<exists>r\<in>set ts. key (fh_id r) \<le> key x"
proof (induction ts rule: fhs_mset.induct)
  case (2 y m d cs ts)
  then consider "x = y" | "x \<in># fhs_mset cs" | "x \<in># fhs_mset ts" by auto
  then show ?case
  proof cases
    case 2
    with "2.IH"(1) "2.prems" obtain c where "c \<in> set cs" "key (fh_id c) \<le> key x" by auto
    with "2.prems" have "key y \<le> key x" by auto
    then show ?thesis by simp
  next
    case 3
    with "2.IH"(2) "2.prems" show ?thesis by auto
  qed simp
qed simp

lemma fhs_ok_cong: "fhs_ok key ts \<Longrightarrow> (\<And>x. x \<in># fhs_mset ts \<Longrightarrow> key' x = key x) \<Longrightarrow> fhs_ok key' ts"
proof (induction ts rule: fhs_mset.induct)
  case (2 y m d cs ts)
  have "\<forall>c\<in>set cs. key' (fh_id c) = key (fh_id c)" using 2(4) fh_id_in by fastforce
  with 2 show ?case by simp
qed simp

lemma fhs_ok_head_le:
  "fh_inv key fh \<Longrightarrow> x \<in># fhs_mset fh \<Longrightarrow> key (fh_id (hd fh)) \<le> key x"
  using fhs_ok_root_le [of key fh x] by (fastforce simp: fh_inv_def)

lemma fh_inv_cong:
  assumes "fh_inv key fh" "\<And>x. x \<in># fhs_mset fh \<Longrightarrow> key' x = key x"
  shows "fh_inv key' fh"
proof -
  have "\<forall>r\<in>set fh. key' (fh_id r) = key (fh_id r)" using assms(2) fh_id_in by fastforce
  moreover have "fh \<noteq> [] \<Longrightarrow> hd fh \<in> set fh" by simp
  ultimately have "\<forall>r\<in>set fh. key' (fh_id (hd fh)) \<le> key' (fh_id r)"
    using assms(1) unfolding fh_inv_def by (metis empty_iff list.set(1))
  with assms fhs_ok_cong [of key fh key'] show ?thesis by (simp add: fh_inv_def)
qed

lemma merge_list_mset [simp]: "mset (ddsrt_fibheap_merge_nonempty_list a b) = mset a + mset b"
  by (cases a) auto

lemma merge_list_set [simp]: "set (ddsrt_fibheap_merge_nonempty_list a b) = set a \<union> set b"
  by (cases a) auto

lemma fhs_mset_sum: "fhs_mset ts = (\<Sum>t\<in>#mset ts. fhs_mset [t])"
proof (induction ts)
  case (Cons t ts)
  then show ?case using fhs_mset_Cons [of t ts] by (simp del: fhs_mset.simps)
qed simp

lemma fhs_mset_cong: "mset xs = mset ys \<Longrightarrow> fhs_mset xs = fhs_mset ys"
  using fhs_mset_sum by metis

lemma fhs_mset_merge [simp]: "fhs_mset (ddsrt_fibheap_merge_nonempty_list a b) = fhs_mset a + fhs_mset b"
  by (subst fhs_mset_append [symmetric]) (rule fhs_mset_cong, simp)

lemma fhs_ok_merge [simp]: "fhs_ok key (ddsrt_fibheap_merge_nonempty_list a b) \<longleftrightarrow> fhs_ok key a \<and> fhs_ok key b"
  by (metis fhs_ok_set fhs_ok_append merge_list_set set_append)

section \<open>Insertion and merging\<close>

lemma merge_into_mset: "fhs_mset (ddsrt_fibheap_merge_into key a b) = fhs_mset a + fhs_mset b"
proof -
  have "mset (ddsrt_fibheap_merge_into key a b) = mset (a @ b)"
    by (auto simp: ddsrt_fibheap_merge_into_def split: list.splits)
  then show ?thesis by (metis fhs_mset_append fhs_mset_cong)
qed

lemma merge_into_inv:
  assumes "fh_inv key a" "fh_inv key b" "\<forall>x. count (fhs_mset a) x + count (fhs_mset b) x \<le> 1"
  shows "fh_inv key (ddsrt_fibheap_merge_into key a b)"
proof -
  have "set (ddsrt_fibheap_merge_into key a b) = set (a @ b)"
    by (auto simp: ddsrt_fibheap_merge_into_def split: list.splits)
  then have "fhs_ok key (ddsrt_fibheap_merge_into key a b)"
    using assms(1,2) fhs_ok_append [of key a b] by (metis fh_inv_def fhs_ok_set)
  moreover have "\<forall>r\<in>set (ddsrt_fibheap_merge_into key a b).
      key (fh_id (hd (ddsrt_fibheap_merge_into key a b))) \<le> key (fh_id r)"
    using assms(1,2) by (fastforce simp: fh_inv_def ddsrt_fibheap_merge_into_def split: list.splits)
  ultimately show ?thesis using assms(3) by (simp add: fh_inv_def merge_into_mset)
qed

lemma single_inv: "fh_inv key [Fhn x False 0 []]"
  by (simp add: fh_inv_def ranks_ok_def)

lemma insert_mset: "fhs_mset (ddsrt_fibheap_insert key x fh) = add_mset x (fhs_mset fh)"
  by (simp add: ddsrt_fibheap_insert_def merge_into_mset)

lemma heap_insert_inv:
  assumes "fh_inv key fh" "x \<notin># fhs_mset fh"
  shows "fh_inv key (ddsrt_fibheap_insert key x fh)"
  unfolding ddsrt_fibheap_insert_def
  using assms by (intro merge_into_inv single_inv) (auto simp: fh_inv_def not_in_iff)

section \<open>Extracting the minimum\<close>

text \<open>The array: entry \<open>i\<close> is a root of degree \<open>i\<close>.\<close>

definition arr_ok :: "('n \<Rightarrow> 'k::linorder) \<Rightarrow> 'n fhn option list \<Rightarrow> bool" where
  "arr_ok key arr \<longleftrightarrow> (\<forall>i<length arr. \<forall>r. arr ! i = Some r \<longrightarrow> fh_degree r = i \<and> fhs_ok key [r])"

lemma arr_okD: "arr_ok key arr \<Longrightarrow> i < length arr \<Longrightarrow> arr ! i = Some r \<Longrightarrow> fh_degree r = i \<and> fhs_ok key [r]"
  by (simp add: arr_ok_def)

lemma arr_ok_clear: "arr_ok key arr \<Longrightarrow> arr_ok key (arr[i := None])"
  unfolding arr_ok_def by (metis length_list_update nth_list_update_eq nth_list_update_neq option.distinct(1))

lemma present_append [simp]: "present (xs @ ys) = present xs @ present ys"
  by (induction xs rule: present.induct) auto

lemma present_replicate [simp]: "present (replicate n None) = []"
  by (induction n) auto

lemma present_clear:
  "i < length arr \<Longrightarrow> arr ! i = Some r \<Longrightarrow> mset (present arr) = add_mset r (mset (present (arr[i := None])))"
proof (induction arr arbitrary: i rule: present.induct)
  case (2 xs)
  then show ?case by (cases i) auto
next
  case (3 x xs)
  then show ?case by (cases i) auto
qed simp

lemma present_set: "r \<in> set (present arr) \<longleftrightarrow> Some r \<in> set arr"
  by (induction arr rule: present.induct) auto

lemma present_fill:
  "i < length arr \<Longrightarrow> arr ! i = None \<Longrightarrow> mset (present (arr[i := Some r])) = add_mset r (mset (present arr))"
proof (induction arr arbitrary: i rule: present.induct)
  case (2 xs)
  then show ?case by (cases i) auto
next
  case (3 x xs)
  then show ?case by (cases i) auto
qed simp

lemma ranks_ok_link:
  assumes "ranks_ok cs" "length cs \<le> fh_rank v"
  shows "ranks_ok (v # cs)"
proof -
  have "length (filter (\<lambda>c. fh_rank c < k) (v # cs)) \<le> k" for k
  proof (cases "fh_rank v < k")
    case True
    have "length (filter (\<lambda>c. fh_rank c < k) (v # cs)) \<le> Suc (length cs)"
      using length_filter_le [of "\<lambda>c. fh_rank c < k" "v # cs"] by simp
    with True assms(2) show ?thesis by linarith
  next
    case False
    with assms(1) show ?thesis by (auto simp: ranks_ok_def)
  qed
  then show ?thesis by (simp add: ranks_ok_def)
qed

lemma ranks_ok_perm: "mset xs = mset ys \<Longrightarrow> ranks_ok xs \<longleftrightarrow> ranks_ok ys"
proof -
  assume "mset xs = mset ys"
  then have "length (filter (\<lambda>c. fh_rank c < k) xs) = length (filter (\<lambda>c. fh_rank c < k) ys)" for k
    by (metis mset_filter size_mset)
  then show ?thesis by (simp add: ranks_ok_def)
qed

lemma fh_degree_rank: "fh_degree n \<le> fh_rank n"
  by (cases n) auto

lemma add_as_child_ok:
  assumes "fhs_ok key [u]" "fhs_ok key [v]" "fh_degree u = fh_degree v" "key (fh_id u) \<le> key (fh_id v)"
  shows "fhs_ok key [ddsrt_fibheap_add_as_child u v]
    \<and> fhs_mset [ddsrt_fibheap_add_as_child u v] = fhs_mset [u] + fhs_mset [v]"
proof (cases u)
  case (Fhn x m d cs)
  have r: "ranks_ok (v # cs)" using assms(1,3) fh_degree_rank [of v] Fhn by (intro ranks_ok_link) auto
  have p: "mset (ddsrt_fibheap_merge_nonempty_list cs [v]) = mset (v # cs)" by simp
  have "length (ddsrt_fibheap_merge_nonempty_list cs [v]) = Suc (length cs)"
    by (cases cs) auto
  moreover have "ranks_ok (ddsrt_fibheap_merge_nonempty_list cs [v])" using r ranks_ok_perm [OF p] by blast
  ultimately show ?thesis using assms Fhn by auto
qed

lemma link_roots_spec:
  assumes "arr_ok key arr" "fhs_ok key [n]" "link_roots key arr n = (arr', n')"
  shows "arr_ok key arr' \<and> fhs_ok key [n'] \<and> length arr' = length arr
    \<and> (fh_degree n' < length arr' \<longrightarrow> arr' ! fh_degree n' = None)
    \<and> fhs_mset (present arr') + fhs_mset [n'] = fhs_mset (present arr) + fhs_mset [n]"
  using assms
proof (induction key arr n rule: link_roots.induct)
  case (1 key arr n)
  show ?case
  proof (cases "fh_degree n < length arr \<and> arr ! fh_degree n \<noteq> None")
    case False
    with "1.prems" show ?thesis by (subst (asm) link_roots.simps) (auto split: if_splits option.splits)
  next
    case True
    then obtain r where r: "fh_degree n < length arr" "arr ! fh_degree n = Some r" by blast
    obtain u v where uv: "(if key (fh_id r) < key (fh_id n) then (r, n) else (n, r)) = (u, v)" by fastforce
    have ok: "fh_degree r = fh_degree n" "fhs_ok key [r]" using arr_okD [OF "1.prems"(1) r] by auto
    have c: "fhs_ok key [ddsrt_fibheap_add_as_child u v]"
      "fhs_mset [ddsrt_fibheap_add_as_child u v] = fhs_mset [r] + fhs_mset [n]"
      using add_as_child_ok [of key u v] uv ok "1.prems"(2) by (auto split: if_splits)
    have run: "link_roots key (arr[fh_degree n := None]) (ddsrt_fibheap_add_as_child u v) = (arr', n')"
      using "1.prems"(3) r uv by (subst (asm) link_roots.simps) (simp split: if_splits)
    have m: "fhs_mset (present arr) = fhs_mset [r] + fhs_mset (present (arr[fh_degree n := None]))"
      using fhs_mset_cong [of "present arr" "r # present (arr[fh_degree n := None])"] present_clear [OF r]
        fhs_mset_Cons [of r "present (arr[fh_degree n := None])"] by (metis mset.simps(2))
    note ih = "1.IH" [OF r(1,2) uv [symmetric] refl arr_ok_clear [OF "1.prems"(1)] c(1) run]
    then have "fhs_mset (present arr') + fhs_mset [n'] =
        fhs_mset (present (arr[fh_degree n := None])) + (fhs_mset [r] + fhs_mset [n])"
      unfolding c(2) by blast
    also have "\<dots> = fhs_mset (present arr) + fhs_mset [n]" unfolding m by (simp only: ac_simps)
    finally show ?thesis using ih by simp
  qed
qed

lemma arr_ok_store: "arr_ok key arr \<Longrightarrow> fhs_ok key [n] \<Longrightarrow> arr_ok key (arr[fh_degree n := Some n])"
  unfolding arr_ok_def by (metis length_list_update nth_list_update_eq nth_list_update_neq option.inject)

lemma store_root_spec:
  assumes "arr_ok key arr" "fhs_ok key [n]" "fh_degree n < length arr \<longrightarrow> arr ! fh_degree n = None"
  shows "arr_ok key (store_root arr n) \<and> fhs_mset (present (store_root arr n)) = fhs_mset (present arr) + fhs_mset [n]"
proof -
  let ?arr1 = "arr @ replicate (fh_degree n + 1 - length arr) None"
  have l: "fh_degree n < length ?arr1" and e: "?arr1 ! fh_degree n = None" using assms(3) by (auto simp: nth_append)
  have "arr_ok key ?arr1" using assms(1) by (auto simp: arr_ok_def nth_append)
  then have "arr_ok key (?arr1[fh_degree n := Some n])" using assms(2) by (rule arr_ok_store)
  moreover have "mset (present (?arr1[fh_degree n := Some n])) = mset (n # present arr)"
    using present_fill [OF l e, of n] by simp
  then have "fhs_mset (present (?arr1[fh_degree n := Some n])) = fhs_mset [n] + fhs_mset (present arr)"
    using fhs_mset_cong [of "present (?arr1[fh_degree n := Some n])" "n # present arr"]
      fhs_mset_Cons [of n "present arr"] by metis
  ultimately show ?thesis by (simp add: store_root_def ac_simps del: fhs_mset.simps)
qed

lemma arr_ok_present:
  assumes "arr_ok key arr"
  shows "fhs_ok key (present arr)"
proof (subst fhs_ok_set, rule ballI)
  fix r assume "r \<in> set (present arr)"
  then have "Some r \<in> set arr" by (simp add: present_set)
  then obtain i where "i < length arr" "arr ! i = Some r" by (auto simp: in_set_conv_nth)
  with arr_okD [OF assms] show "fhs_ok key [r]" by blast
qed

lemma consolidate_spec:
  "arr_ok key arr \<Longrightarrow> fhs_ok key ns \<Longrightarrow>
     arr_ok key (consolidate key ns arr) \<and> fhs_mset (present (consolidate key ns arr)) = fhs_mset (present arr) + fhs_mset ns"
proof (induction ns arbitrary: arr)
  case (Cons n ns)
  have ok: "fhs_ok key [n]" "fhs_ok key ns" using Cons.prems(2) fhs_ok_Cons by metis+
  obtain arr1 n1 where lr: "link_roots key arr n = (arr1, n1)" by fastforce
  from link_roots_spec [OF Cons.prems(1) ok(1) lr] have l: "arr_ok key arr1" "fhs_ok key [n1]"
    "fh_degree n1 < length arr1 \<longrightarrow> arr1 ! fh_degree n1 = None"
    "fhs_mset (present arr1) + fhs_mset [n1] = fhs_mset (present arr) + fhs_mset [n]" by blast+
  from store_root_spec [OF l(1-3)] have s: "arr_ok key (store_root arr1 n1)"
    "fhs_mset (present (store_root arr1 n1)) = fhs_mset (present arr) + fhs_mset [n]" using l(4) by auto
  from Cons.IH [OF s(1) ok(2)] s(2) fhs_mset_Cons [of n ns] lr show ?case by (simp del: fhs_mset.simps add: ac_simps)
qed simp

lemma scan_min_mset: "mset (scan_min key bef m btw rs) = mset (bef @ m # btw @ rs)"
  by (induction key bef m btw rs rule: scan_min.induct) auto

lemma scan_min_head:
  "\<forall>r\<in>set bef \<union> set btw. key (fh_id m) \<le> key (fh_id r) \<Longrightarrow>
     \<forall>r\<in>set (scan_min key bef m btw rs). key (fh_id (hd (scan_min key bef m btw rs))) \<le> key (fh_id r)"
proof (induction key bef m btw rs rule: scan_min.induct)
  case (2 key bef newmin btw r rs)
  show ?case
  proof (cases "key (fh_id r) < key (fh_id newmin)")
    case True
    with "2.prems" have "\<forall>r'\<in>set (bef @ newmin # btw) \<union> set []. key (fh_id r) \<le> key (fh_id r')"
      by (auto intro: less_imp_le less_le_trans)
    from "2.IH"(1) [OF True this] True show ?thesis by simp
  next
    case False
    with "2.IH"(2) "2.prems" show ?thesis by (auto simp: not_less)
  qed
qed auto

lemma unmarked_simps [simp]:
  "fh_id (unmarked n) = fh_id n" "fhs_mset [unmarked n] = fhs_mset [n]" "fhs_ok key [unmarked n] = fhs_ok key [n]"
  by (cases n; simp)+

lemma map_unmarked [simp]:
  "fhs_mset (map unmarked ns) = fhs_mset ns" "fhs_ok key (map unmarked ns) = fhs_ok key ns"
proof -
  show "fhs_mset (map unmarked ns) = fhs_mset ns"
  proof (induction ns)
    case (Cons n ns)
    then show ?case by (cases n) simp
  qed simp
  show "fhs_ok key (map unmarked ns) = fhs_ok key ns"
  proof (induction ns)
    case (Cons n ns)
    then show ?case by (cases n) simp
  qed simp
qed

lemma remaining_roots_spec:
  assumes "fhs_ok key (m # rest)"
  shows "fhs_ok key (remaining_roots m rest) \<and> add_mset (fh_id m) (fhs_mset (remaining_roots m rest)) = fhs_mset (m # rest)"
  using assms by (cases m) (simp add: remaining_roots_def ac_simps)

lemma extract_min_spec:
  assumes "fhs_ok key (m # rest)" "\<forall>x. count (fhs_mset (m # rest)) x \<le> 1"
    and "ddsrt_fibheap_extract_min key (m # rest) = (x, fh')"
  shows "x = Some (fh_id m) \<and> fh_inv key fh' \<and> add_mset (fh_id m) (fhs_mset fh') = fhs_mset (m # rest)"
proof (cases "rest = [] \<and> fh_children m = []")
  case True
  with assms(3) show ?thesis by (cases m) (simp add: ddsrt_fibheap_extract_min_def fh_inv_def)
next
  case False
  let ?arr = "consolidate key (remaining_roots m rest) []"
  note rr = remaining_roots_spec [OF assms(1)]
  have c: "arr_ok key ?arr" "fhs_mset (present ?arr) = fhs_mset (remaining_roots m rest)"
    using consolidate_spec [of key "[]" "remaining_roots m rest"] rr by (auto simp: arr_ok_def)
  have ok: "fhs_ok key (present ?arr)" by (rule arr_ok_present [OF c(1)])
  have nd: "\<forall>x. count (fhs_mset (remaining_roots m rest)) x \<le> 1"
  proof
    fix x
    have "count (fhs_mset (remaining_roots m rest)) x \<le> count (add_mset (fh_id m) (fhs_mset (remaining_roots m rest))) x"
      by simp
    also have "\<dots> \<le> 1" using assms(2) rr by metis
    finally show "count (fhs_mset (remaining_roots m rest)) x \<le> 1" .
  qed
  show ?thesis
  proof (cases "present ?arr")
    case Nil
    then have "x = Some (fh_id m)" "fh' = []"
      using False assms(3) by (auto simp: ddsrt_fibheap_extract_min_def split: if_splits)
    with Nil rr c show ?thesis by (simp add: fh_inv_def)
  next
    case (Cons r rs)
    let ?fh = "scan_min key [] r [] rs"
    have x: "x = Some (fh_id m)" "fh' = ?fh"
      using False assms(3) Cons by (auto simp: ddsrt_fibheap_extract_min_def split: if_splits)
    have ms: "mset ?fh = mset (present ?arr)" by (simp add: scan_min_mset Cons)
    then have "fhs_ok key ?fh" using ok by (metis fhs_ok_set mset_eq_setD)
    moreover have "fhs_mset ?fh = fhs_mset (remaining_roots m rest)" using fhs_mset_cong [OF ms] c(2) by simp
    ultimately show ?thesis using x nd rr scan_min_head [of "[]" "[]" key r rs] by (simp add: fh_inv_def)
  qed
qed

section \<open>Paths to a node\<close>

fun frames_mset :: "'n fh_frame list \<Rightarrow> 'n multiset" where
  "frames_mset [] = {#}"
| "frames_mset (FhF y m d l r # fs) = add_mset y (fhs_mset l + fhs_mset r + frames_mset fs)"

lemma close_frames_mset: "fhs_mset [close_frames fs n] = fhs_mset [n] + frames_mset fs"
proof (induction fs n rule: close_frames.induct)
  case (2 y m d l r fs n)
  then show ?case by (cases n) (simp add: ac_simps)
qed simp

lemma close_frames_append: "close_frames (fs @ gs) n = close_frames gs (close_frames fs n)"
  by (induction fs n rule: close_frames.induct) auto

lemma find_node_Some:
  "find_node x ls ts = Some (ls', n, fs, rs) \<Longrightarrow> ls @ ts = ls' @ close_frames fs n # rs \<and> fh_id n = x"
proof (induction x ls ts arbitrary: ls' n fs rs rule: find_node.induct)
  case (2 x ls y m d cs ts)
  show ?case
  proof (cases "x = y")
    case True
    with 2(3) show ?thesis by auto
  next
    case False
    show ?thesis
    proof (cases "find_node x [] cs")
      case None
      with 2(2) [OF False None] 2(3) False show ?thesis by simp
    next
      case (Some w)
      obtain l n1 fs1 r where w: "w = (l, n1, fs1, r)" by (cases w)
      with Some 2(1) [OF False, of l n1 fs1 r] have "cs = l @ close_frames fs1 n1 # r" "fh_id n1 = x" by auto
      with 2(3) False Some w show ?thesis by (auto simp: close_frames_append)
    qed
  qed
qed simp

lemma find_node_None: "find_node x ls ts = None \<Longrightarrow> x \<notin># fhs_mset ts"
proof (induction x ls ts rule: find_node.induct)
  case (2 x ls y m d cs ts)
  then show ?case by (auto split: if_splits option.splits)
qed simp

text \<open>The ancestors are in order, but for the edge to the node at the end of the path.\<close>

fun path_ok :: "('n \<Rightarrow> 'k::linorder) \<Rightarrow> 'n fh_frame list \<Rightarrow> bool" where
  "path_ok key [] \<longleftrightarrow> True"
| "path_ok key (FhF y m d l r # fs) \<longleftrightarrow>
     d = Suc (length l + length r) \<and> (\<forall>s\<in>set l \<union> set r. key y \<le> key (fh_id s)) \<and> fhs_ok key l \<and> fhs_ok key r
     \<and> path_ok key fs
     \<and> (case fs of [] \<Rightarrow> True | FhF y' m' d' l' r' # _ \<Rightarrow> key y' \<le> key y \<and> ranks_ok (l' @ Fhn y m d [] # r'))"

definition edge_ok :: "('n \<Rightarrow> 'k::linorder) \<Rightarrow> 'n fh_frame list \<Rightarrow> 'n fhn \<Rightarrow> bool" where
  "edge_ok key fs n \<longleftrightarrow> (case fs of [] \<Rightarrow> True | FhF y m d l r # _ \<Rightarrow> key y \<le> key (fh_id n) \<and> ranks_ok (l @ n # r))"

lemma ranks_ok_same: "fh_rank n = fh_rank n' \<Longrightarrow> ranks_ok (l @ n # r) = ranks_ok (l @ n' # r)"
  by (simp add: ranks_ok_def)

lemma ranks_ok_remove:
  assumes "ranks_ok (l @ n # r)"
  shows "ranks_ok (l @ r)"
  unfolding ranks_ok_def
proof
  fix k
  have "length (filter (\<lambda>c. fh_rank c < k) (l @ r)) \<le> length (filter (\<lambda>c. fh_rank c < k) (l @ n # r))" by simp
  also have "\<dots> \<le> k" using assms unfolding ranks_ok_def by blast
  finally show "length (filter (\<lambda>c. fh_rank c < k) (l @ r)) \<le> k" .
qed

lemma close_frames_ok:
  "fhs_ok key [close_frames fs n] \<longleftrightarrow> path_ok key fs \<and> fhs_ok key [n] \<and> edge_ok key fs n"
proof (induction fs arbitrary: n)
  case Nil
  then show ?case by (simp add: edge_ok_def)
next
  case (Cons f fs)
  obtain y m d l r where f: "f = FhF y m d l r" by (cases f)
  have e: "edge_ok key fs (Fhn y m d (l @ n # r)) \<longleftrightarrow>
      (case fs of [] \<Rightarrow> True | FhF y' m' d' l' r' # _ \<Rightarrow> key y' \<le> key y \<and> ranks_ok (l' @ Fhn y m d [] # r'))"
    using ranks_ok_same [of "Fhn y m d (l @ n # r)" "Fhn y m d []"]
    by (auto simp: edge_ok_def split: list.splits fh_frame.splits)
  have "fhs_ok key (l @ n # r) \<longleftrightarrow> fhs_ok key l \<and> fhs_ok key [n] \<and> fhs_ok key r"
    by (simp only: fhs_ok_append fhs_ok_Cons [of key n r])
  with Cons.IH [of "Fhn y m d (l @ n # r)"] e f show ?case by (auto simp: edge_ok_def)
qed

lemma path_ok_cong:
  "path_ok key fs \<Longrightarrow> (\<And>z. z \<in># frames_mset fs \<Longrightarrow> key' z = key z) \<Longrightarrow> path_ok key' fs"
proof (induction fs)
  case (Cons f fs)
  obtain y m d l r where f: "f = FhF y m d l r" by (cases f)
  have z: "key' z = key z" if "z = y \<or> z \<in># fhs_mset l \<or> z \<in># fhs_mset r \<or> z \<in># frames_mset fs" for z
    using Cons.prems(2) f that by auto
  have k: "key' y = key y" "\<forall>s\<in>set l \<union> set r. key' (fh_id s) = key (fh_id s)" using z by (auto dest: fh_id_in)
  have "fhs_ok key' l" "fhs_ok key' r" using Cons.prems(1) f z by (auto intro: fhs_ok_cong)
  moreover have "path_ok key' fs" using Cons.IH Cons.prems(1) f z by auto
  moreover have "\<And>y' m' d' l' r' gs. fs = FhF y' m' d' l' r' # gs \<Longrightarrow> key' y' = key y'" using z by auto
  ultimately show ?case using Cons.prems(1) f k by (auto split: list.splits fh_frame.splits)
qed simp

section \<open>Cutting\<close>

lemma mark_simps [simp]:
  "fh_id (set_mark n) = fh_id n" "fh_mark (set_mark n)" "fhs_mset [set_mark n] = fhs_mset [n]"
  "fhs_ok key [set_mark n] = fhs_ok key [n]"
  by (cases n; simp)+

lemma cut_up_mset: "fhs_mset (cut_up n fs ls rs) = fhs_mset ls + fhs_mset [n] + frames_mset fs + fhs_mset rs"
proof (induction n fs ls rs rule: cut_up.induct)
  case (1 n ls rs)
  show ?case using fhs_mset_Cons [of n rs] by (simp del: fhs_mset.simps)
next
  case (2 n y m d l r fs ls rs)
  have u: "fhs_mset (unmarked n # zs) = fhs_mset [n] + fhs_mset zs" for zs
    using fhs_mset_Cons [of "unmarked n" zs] by simp
  show ?case
  proof (cases "fh_mark n")
    case False
    then show ?thesis
      using close_frames_mset [of "FhF y m d l r # fs" "set_mark n"]
        fhs_mset_Cons [of "close_frames (FhF y m d l r # fs) (set_mark n)" rs]
      by (simp del: fhs_mset.simps close_frames.simps add: ac_simps)
  next
    case True
    show ?thesis
    proof (cases ls)
      case Nil
      with 2(1) True u show ?thesis by (simp add: ac_simps)
    next
      case (Cons h hs)
      with 2(2) True u [of hs] show ?thesis
        using fhs_mset_Cons [of h hs] fhs_mset_Cons [of h "unmarked n # hs"]
        by (simp add: ac_simps)
    qed
  qed
qed

text \<open>What the walk needs of the node it has reached: its parent's other children, and the edge if it stops here.\<close>

definition cut_ok :: "('n \<Rightarrow> 'k::linorder) \<Rightarrow> 'n fh_frame list \<Rightarrow> 'n fhn \<Rightarrow> bool" where
  "cut_ok key fs n \<longleftrightarrow> (case fs of [] \<Rightarrow> True
     | FhF y m d l r # _ \<Rightarrow> ranks_ok (l @ r) \<and> (fh_mark n \<or> key y \<le> key (fh_id n) \<and> ranks_ok (l @ set_mark n # r)))"

lemma cut_ok_parent:
  assumes "path_ok key (FhF y m d l r # fs)"
  shows "cut_ok key fs (Fhn y m (d - 1) (l @ r))"
proof (cases fs)
  case (Cons f gs)
  obtain y' m' d' l' r' where f: "f = FhF y' m' d' l' r'" by (cases f)
  with assms Cons have p: "key y' \<le> key y" "ranks_ok (l' @ Fhn y m d [] # r')" "0 < d" by auto
  have "\<not> m \<Longrightarrow> ranks_ok (l' @ set_mark (Fhn y m (d - 1) (l @ r)) # r')"
    using p(2,3) by (subst ranks_ok_same [of _ "Fhn y m d []"]) auto
  with p ranks_ok_remove [OF p(2)] f Cons show ?thesis by (auto simp: cut_ok_def)
qed (simp add: cut_ok_def)

lemma cut_up_ok:
  assumes "path_ok key fs" "fhs_ok key [n]" "fhs_ok key ls" "fhs_ok key rs" "cut_ok key fs n"
  shows "fhs_ok key (cut_up n fs ls rs)"
  using assms
proof (induction n fs ls rs rule: cut_up.induct)
  case (1 n ls rs)
  then show ?case using fhs_ok_Cons [of key n rs] by (simp del: fhs_ok.simps)
next
  case (2 n y m d l r fs ls rs)
  have p: "path_ok key fs" "ranks_ok (l @ r)" using 2(3,7) by (auto simp: cut_ok_def)
  show ?case
  proof (cases "fh_mark n")
    case False
    with 2(7) have "edge_ok key (FhF y m d l r # fs) (set_mark n)" by (auto simp: cut_ok_def edge_ok_def)
    with 2(3,4) have "fhs_ok key [close_frames (FhF y m d l r # fs) (set_mark n)]"
      by (simp add: close_frames_ok del: close_frames.simps path_ok.simps)
    with 2(5,6) False fhs_ok_Cons [of key "close_frames (FhF y m d l r # fs) (set_mark n)" rs] show ?thesis
      by (simp del: close_frames.simps fhs_ok.simps)
  next
    case True
    have pa: "fhs_ok key [Fhn y m (d - 1) (l @ r)]" using 2(3) p(2) by auto
    have nn: "fhs_ok key (unmarked n # zs) \<longleftrightarrow> fhs_ok key zs" for zs
      using fhs_ok_Cons [of key "unmarked n" zs] 2(4) by simp
    note c = cut_ok_parent [OF 2(3)]
    show ?thesis
    proof (cases ls)
      case Nil
      with 2(1) [OF True Nil p(1) pa _ _ c] nn 2(6) True show ?thesis by simp
    next
      case (Cons h hs)
      have h: "fhs_ok key (h # unmarked n # hs)"
        using nn [of hs] 2(5) fhs_ok_Cons [of key h hs] fhs_ok_Cons [of key h "unmarked n # hs"] Cons by simp
      from 2(2) [OF True Cons p(1) pa h 2(6) c] True Cons show ?thesis by simp
    qed
  qed
qed

lemma cut_up_keeps: "set ls \<union> set rs \<subseteq> set (cut_up n fs ls rs)"
  by (induction n fs ls rs rule: cut_up.induct) (auto split: list.splits)

lemma cut_up_root:
  assumes "fs \<noteq> []"
  shows "\<exists>t\<in>set (cut_up (set_mark n) fs ls rs). fh_id t = fh_id n"
proof -
  obtain f gs where "fs = f # gs" using assms by (cases fs) auto
  then obtain y m d l r where fs: "fs = FhF y m d l r # gs" by (cases f) auto
  have u: "fh_id (unmarked (set_mark n)) = fh_id n" by simp
  show ?thesis
  proof (cases ls)
    case Nil
    with fs cut_up_keeps [of "[]" "unmarked (set_mark n) # rs" "Fhn y m (d - 1) (l @ r)" gs] u show ?thesis by fastforce
  next
    case (Cons h hs)
    with fs cut_up_keeps [of "h # unmarked (set_mark n) # hs" rs "Fhn y m (d - 1) (l @ r)" gs] u show ?thesis by fastforce
  qed
qed

lemma close_frames_id: "fh_id n = fh_id n' \<Longrightarrow> fh_id (close_frames fs n) = fh_id (close_frames fs n')"
proof (induction fs arbitrary: n n')
  case (Cons f fs)
  obtain y m d l r where "f = FhF y m d l r" by (cases f)
  with Cons.IH [of "Fhn y m d (l @ n # r)" "Fhn y m d (l @ n' # r)"] show ?case by simp
qed simp

lemma close_frames_root: "fh_id (close_frames fs n) = fh_id n \<or> fh_id (close_frames fs n) \<in># frames_mset fs"
proof (induction fs arbitrary: n)
  case (Cons f fs)
  obtain y m d l r where "f = FhF y m d l r" by (cases f)
  with Cons.IH [of "Fhn y m d (l @ n # r)"] show ?case by auto
qed simp

lemma cut_up_head: "fh_id (hd (cut_up n fs ls rs)) = fh_id (hd (ls @ [close_frames fs n]))"
proof (induction n fs ls rs rule: cut_up.induct)
  case (1 n ls rs)
  then show ?case by (cases ls) auto
next
  case (2 n y m d l r fs ls rs)
  have i: "fh_id (close_frames fs (Fhn y m (d - 1) (l @ r))) = fh_id (close_frames fs (Fhn y m d (l @ n # r)))"
    "fh_id (close_frames fs (Fhn y m d (l @ set_mark n # r))) = fh_id (close_frames fs (Fhn y m d (l @ n # r)))"
    by (rule close_frames_id, simp)+
  with 2 show ?case by (cases ls) auto
qed

lemma cut_up_not_Nil [simp]: "cut_up n fs ls rs \<noteq> []"
  by (induction n fs ls rs rule: cut_up.induct) (auto split: list.splits)

section \<open>Decreasing a key, deleting\<close>

lemma rotate_to_mset: "mset (rotate_to x bef rs) = mset bef + mset rs"
  by (induction x bef rs rule: rotate_to.induct) auto

lemma rotate_to_head: "\<exists>t\<in>set rs. fh_id t = x \<Longrightarrow> \<exists>t ts. rotate_to x bef rs = t # ts \<and> fh_id t = x"
  by (induction x bef rs rule: rotate_to.induct) auto

lemma rotate_to_ok:
  "fhs_ok key (rotate_to x [] rs) \<longleftrightarrow> fhs_ok key rs" "fhs_mset (rotate_to x [] rs) = fhs_mset rs"
proof -
  have m: "mset (rotate_to x [] rs) = mset rs" by (simp add: rotate_to_mset)
  then show "fhs_mset (rotate_to x [] rs) = fhs_mset rs" by (rule fhs_mset_cong)
  from m show "fhs_ok key (rotate_to x [] rs) \<longleftrightarrow> fhs_ok key rs" by (metis fhs_ok_set mset_eq_setD)
qed

lemma fix_min_mset: "fhs_mset (fix_min key x roots) = fhs_mset roots"
  by (cases roots) (simp_all add: fix_min_def rotate_to_ok del: rotate_to.simps)

text \<open>When only \<open>x\<close>, a root, may be smaller than the first root, pointing at it makes the heap whole.\<close>

lemma fix_min_inv:
  assumes "fhs_ok key roots" "\<forall>z. count (fhs_mset roots) z \<le> 1" "\<exists>t\<in>set roots. fh_id t = x"
    and "\<forall>t\<in>set roots. fh_id t \<noteq> x \<longrightarrow> key (fh_id (hd roots)) \<le> key (fh_id t)"
  shows "fh_inv key (fix_min key x roots)"
proof -
  obtain r rs where roots: "roots = r # rs" using assms(3) by (cases roots) auto
  show ?thesis
  proof (cases "key x < key (fh_id r)")
    case True
    then have f: "fix_min key x roots = rotate_to x [] roots" by (simp add: fix_min_def roots)
    obtain t ts where rt: "rotate_to x [] roots = t # ts" "fh_id t = x" using rotate_to_head [OF assms(3)] by blast
    have le: "key x \<le> key (fh_id t')" if "t' \<in> set roots" for t'
    proof (cases "fh_id t' = x")
      case False
      with assms(4) that have "key (fh_id (hd roots)) \<le> key (fh_id t')" by blast
      with True roots show ?thesis by simp
    qed simp
    have "\<forall>t'\<in>set (rotate_to x [] roots). key (fh_id (hd (rotate_to x [] roots))) \<le> key (fh_id t')"
    proof
      fix t' assume "t' \<in> set (rotate_to x [] roots)"
      then have "t' \<in> set roots"
        using mset_eq_setD [of "rotate_to x [] roots" roots] rotate_to_mset [of x "[]" roots] by simp
      with le rt show "key (fh_id (hd (rotate_to x [] roots))) \<le> key (fh_id t')" by simp
    qed
    with f assms(1,2) show ?thesis by (simp add: fh_inv_def rotate_to_ok)
  next
    case False
    then have "fix_min key x roots = roots" by (simp add: fix_min_def roots)
    moreover have "\<forall>t\<in>set roots. key (fh_id (hd roots)) \<le> key (fh_id t)"
      using assms(4) False roots by (metis linorder_not_less list.sel(1))
    ultimately show ?thesis using assms(1,2) by (simp add: fh_inv_def)
  qed
qed

text \<open>Where the node to work on is, and that nothing else bears its name.\<close>

lemma find_node_inv:
  assumes "fh_inv key fh" "find_node x [] fh = Some (ls, n, fs, rs)"
  shows "fh = ls @ close_frames fs n # rs" "fh_id n = x" "fhs_ok key ls" "fhs_ok key rs" "fhs_ok key [n]"
    "path_ok key fs" "edge_ok key fs n"
    "fhs_mset fh = fhs_mset ls + fhs_mset [n] + frames_mset fs + fhs_mset rs"
    "x \<notin># fhs_mset ls" "x \<notin># fhs_mset rs" "x \<notin># frames_mset fs" "x \<notin># fhs_mset (fh_children n)"
proof -
  show f: "fh = ls @ close_frames fs n # rs" "fh_id n = x" using find_node_Some [OF assms(2)] by auto
  have "fhs_ok key fh" using assms(1) by (simp add: fh_inv_def)
  then have "fhs_ok key ls \<and> fhs_ok key rs \<and> fhs_ok key [close_frames fs n]"
    unfolding f(1) using fhs_ok_Cons [of key "close_frames fs n" rs] by (simp del: fhs_ok.simps)
  then show "fhs_ok key ls" "fhs_ok key rs" "fhs_ok key [n]" "path_ok key fs" "edge_ok key fs n"
    by (simp_all add: close_frames_ok del: fhs_ok.simps)
  show m: "fhs_mset fh = fhs_mset ls + fhs_mset [n] + frames_mset fs + fhs_mset rs"
    unfolding f(1) using fhs_mset_Cons [of "close_frames fs n" rs]
    by (simp add: close_frames_mset ac_simps del: fhs_mset.simps)
  have "count (fhs_mset fh) x \<le> 1" using assms(1) by (simp add: fh_inv_def)
  moreover obtain m d cs where "n = Fhn x m d cs" using f(2) by (cases n) auto
  ultimately have "count (fhs_mset ls) x = 0 \<and> count (fhs_mset rs) x = 0 \<and> count (frames_mset fs) x = 0
      \<and> count (fhs_mset (fh_children n)) x = 0"
    unfolding m by simp
  then show "x \<notin># fhs_mset ls" "x \<notin># fhs_mset rs" "x \<notin># frames_mset fs" "x \<notin># fhs_mset (fh_children n)"
    by (simp_all add: not_in_iff)
qed

lemma cut_ok_marked: "edge_ok key fs n \<Longrightarrow> cut_ok key' fs (set_mark n)"
  by (auto simp: cut_ok_def edge_ok_def dest: ranks_ok_remove split: list.splits fh_frame.splits)

lemma decrease_key_spec:
  assumes "fh_inv key fh" "k \<le> key x"
  shows "fh_inv (key(x := k)) (ddsrt_fibheap_decrease_key (key(x := k)) x fh)
    \<and> fhs_mset (ddsrt_fibheap_decrease_key (key(x := k)) x fh) = fhs_mset fh"
proof (cases "find_node x [] fh")
  case None
  have "fh_inv (key(x := k)) fh" using assms(1)
    by (rule fh_inv_cong) (use find_node_None [OF None] in auto)
  with None show ?thesis by (simp add: ddsrt_fibheap_decrease_key_def)
next
  case (Some w)
  let ?key = "key(x := k)"
  obtain ls n fs rs where w: "find_node x [] fh = Some (ls, n, fs, rs)" using Some by (cases w) auto
  note n = find_node_inv [OF assms(1) w]
  have ok: "fhs_ok ?key ls" "fhs_ok ?key rs" "path_ok ?key fs"
    using n by (auto intro: fhs_ok_cong path_ok_cong)
  have nk: "fhs_ok ?key [n]"
  proof -
    obtain m d cs where nn: "n = Fhn x m d cs" using n(2) by (cases n) auto
    have c: "fhs_ok ?key cs" "\<forall>c\<in>set cs. ?key (fh_id c) = key (fh_id c)"
      using n(5,12) nn fh_id_in [of _ cs] by (auto intro: fhs_ok_cong)
    moreover have "\<forall>c\<in>set cs. k \<le> key (fh_id c)" using n(5) nn assms(2) by (auto intro: order_trans)
    ultimately show ?thesis using n(5) nn by auto
  qed
  have nd: "\<forall>z. count (fhs_mset fh) z \<le> 1" using assms(1) by (simp add: fh_inv_def)
  have head: "\<forall>z\<in>#fhs_mset fh. key (fh_id (hd fh)) \<le> key z" using fhs_ok_head_le [OF assms(1)] by blast
  show ?thesis
  proof (cases fs)
    case Nil
    have fh: "fh = ls @ n # rs" using n(1) Nil by simp
    have "fhs_ok ?key fh" unfolding fh using ok nk fhs_ok_Cons [of ?key n rs] by (simp del: fhs_ok.simps)
    moreover have "\<exists>t\<in>set fh. fh_id t = x" using fh n(2) by auto
    moreover have "\<forall>t\<in>set fh. fh_id t \<noteq> x \<longrightarrow> ?key (fh_id (hd fh)) \<le> ?key (fh_id t)"
      using head fh_id_in [of _ fh] assms(2) by (auto intro: order_trans)
    ultimately have "fh_inv ?key (fix_min ?key x fh)" using nd by (intro fix_min_inv) auto
    with w Nil show ?thesis by (simp add: ddsrt_fibheap_decrease_key_def fix_min_mset)
  next
    case (Cons f gs)
    obtain y m d l r where f: "f = FhF y m d l r" by (cases f)
    have y: "y \<noteq> x" using n(11) f Cons by auto
    have hx: "fh_id t \<noteq> x" if "t \<in> set fh" for t
    proof -
      have "fh_id (close_frames fs n) \<in># frames_mset fs"
        using close_frames_root [of gs "Fhn y m d (l @ n # r)"] Cons f by auto
      with that n(1,9-11) fh_id_in [of t ls] fh_id_in [of t rs] show ?thesis by auto
    qed
    have hk: "?key (fh_id t) = key (fh_id t)" if "t \<in> set fh" for t using hx [OF that] by simp
    have hd_in: "hd fh \<in> set fh" using n(1) by (simp add: hd_append)
    show ?thesis
    proof (cases "?key y \<le> ?key x")
      case True
      then have "edge_ok ?key fs n" using n(2,7) Cons f y by (auto simp: edge_ok_def)
      then have "fhs_ok ?key [close_frames fs n]" using ok(3) nk by (simp add: close_frames_ok del: fhs_ok.simps)
      then have "fhs_ok ?key fh" unfolding n(1) using ok fhs_ok_Cons [of ?key "close_frames fs n" rs]
        by (simp del: fhs_ok.simps)
      then have "fh_inv ?key fh" using assms(1) hk hd_in by (auto simp: fh_inv_def)
      with True w Cons f show ?thesis by (simp add: ddsrt_fibheap_decrease_key_def)
    next
      case False
      let ?c = "cut_up (set_mark n) fs ls rs"
      have c: "fhs_ok ?key ?c" using ok nk by (intro cut_up_ok cut_ok_marked [OF n(7)]) auto
      have cm: "fhs_mset ?c = fhs_mset fh" unfolding cut_up_mset n(8) by simp
      have "fh_id (close_frames fs (set_mark n)) = fh_id (close_frames fs n)" by (rule close_frames_id) simp
      then have ch: "fh_id (hd ?c) = fh_id (hd fh)" unfolding cut_up_head n(1) by (cases ls) auto
      have "\<forall>t\<in>set ?c. fh_id t \<noteq> x \<longrightarrow> ?key (fh_id (hd ?c)) \<le> ?key (fh_id t)"
        using head fh_id_in [of _ ?c] hk [OF hd_in] unfolding ch cm by auto
      moreover have "\<exists>t\<in>set ?c. fh_id t = x" using cut_up_root [of fs n ls rs] Cons n(2) by auto
      ultimately have "fh_inv ?key (fix_min ?key x ?c)" using c nd cm by (intro fix_min_inv) auto
      with False w Cons f cm show ?thesis
        by (simp add: ddsrt_fibheap_decrease_key_def ddsrt_fibheap_cutnode_def fix_min_mset del: cut_up.simps)
    qed
  qed
qed

lemma heap_delete_spec:
  assumes "fh_inv key fh"
  shows "fh_inv key (ddsrt_fibheap_delete key x fh) \<and> fhs_mset (ddsrt_fibheap_delete key x fh) = fhs_mset fh - {#x#}"
proof (cases "find_node x [] fh")
  case None
  with find_node_None [OF None] assms show ?thesis by (simp add: ddsrt_fibheap_delete_def diff_single_trivial)
next
  case (Some w)
  obtain ls n fs rs where w: "find_node x [] fh = Some (ls, n, fs, rs)" using Some by (cases w) auto
  note n = find_node_inv [OF assms w]
  let ?roots = "if fs \<noteq> [] then ddsrt_fibheap_cutnode (ls, n, fs, rs) else fh"
  have r: "fhs_ok key ?roots \<and> fhs_mset ?roots = fhs_mset fh \<and> (\<exists>t\<in>set ?roots. fh_id t = x)"
  proof (cases "fs = []")
    case True
    with assms n(1,2) show ?thesis by (auto simp: fh_inv_def)
  next
    case False
    have "fhs_ok key (cut_up (set_mark n) fs ls rs)" using n by (intro cut_up_ok cut_ok_marked) auto
    with False n(2,8) cut_up_root [OF False, of n ls rs] cut_up_mset [of "set_mark n" fs ls rs] show ?thesis
      by (simp add: ddsrt_fibheap_cutnode_def)
  qed
  obtain t ts where t: "rotate_to x [] ?roots = t # ts" "fh_id t = x" using rotate_to_head [of ?roots x "[]"] r by blast
  obtain y fh' where e: "ddsrt_fibheap_extract_min key (t # ts) = (y, fh')" by fastforce
  have "fhs_ok key (t # ts)" "fhs_mset (t # ts) = fhs_mset fh" using r rotate_to_ok t(1) by metis+
  moreover have "\<forall>z. count (fhs_mset fh) z \<le> 1" using assms by (simp add: fh_inv_def)
  ultimately have "fh_inv key fh' \<and> add_mset x (fhs_mset fh') = fhs_mset fh"
    using extract_min_spec [OF _ _ e] t(2) by simp
  moreover have "ddsrt_fibheap_delete key x fh = fh'"
    unfolding ddsrt_fibheap_delete_def w Let_def option.case prod.case t(1) e by simp
  ultimately show ?thesis by (metis add_mset_remove_trivial)
qed

section \<open>The heap is a priority queue\<close>

lemma min_spec:
  assumes "fh_inv key fh"
  shows "ddsrt_fibheap_min fh = None \<longleftrightarrow> fhs_mset fh = {#}"
    "ddsrt_fibheap_min fh = Some x \<Longrightarrow> x \<in># fhs_mset fh"
    "ddsrt_fibheap_min fh = Some x \<Longrightarrow> y \<in># fhs_mset fh \<Longrightarrow> key x \<le> key y"
  using fhs_ok_head_le [OF assms] fh_id_in [of "hd fh" fh]
  by (cases fh; auto simp: ddsrt_fibheap_min_def simp del: fhs_mset.simps(2))+

lemma extract_min_inv:
  assumes "fh_inv key fh"
  shows "fst (ddsrt_fibheap_extract_min key fh) = ddsrt_fibheap_min fh"
    "ddsrt_fibheap_min fh = Some x \<Longrightarrow> fhs_mset (snd (ddsrt_fibheap_extract_min key fh)) = fhs_mset fh - {#x#}"
    "fh_inv key (snd (ddsrt_fibheap_extract_min key fh))"
proof -
  have "fst (ddsrt_fibheap_extract_min key fh) = ddsrt_fibheap_min fh \<and> fh_inv key (snd (ddsrt_fibheap_extract_min key fh))
    \<and> (ddsrt_fibheap_min fh = Some x \<longrightarrow> fhs_mset (snd (ddsrt_fibheap_extract_min key fh)) = fhs_mset fh - {#x#})"
  proof (cases fh)
    case Nil
    with assms show ?thesis by (simp add: ddsrt_fibheap_extract_min_def ddsrt_fibheap_min_def)
  next
    case (Cons m rest)
    obtain y fh' where e: "ddsrt_fibheap_extract_min key (m # rest) = (y, fh')" by fastforce
    from extract_min_spec [OF _ _ e] assms Cons have "y = Some (fh_id m) \<and> fh_inv key fh' \<and> add_mset (fh_id m) (fhs_mset fh') = fhs_mset fh"
      by (simp add: fh_inv_def del: fhs_ok.simps)
    with Cons e show ?thesis by (metis add_mset_remove_trivial ddsrt_fibheap_min_def first_opt.simps(2) fst_conv
      option.inject option.map(2) snd_conv)
  qed
  then show "fst (ddsrt_fibheap_extract_min key fh) = ddsrt_fibheap_min fh"
    "ddsrt_fibheap_min fh = Some x \<Longrightarrow> fhs_mset (snd (ddsrt_fibheap_extract_min key fh)) = fhs_mset fh - {#x#}"
    "fh_inv key (snd (ddsrt_fibheap_extract_min key fh))" by blast+
qed

interpretation fh: priority_queue fhs_mset fh_inv ddsrt_fibheap_init ddsrt_fibheap_min ddsrt_fibheap_insert
  ddsrt_fibheap_extract_min ddsrt_fibheap_decrease_key ddsrt_fibheap_delete
proof (unfold_locales, goal_cases)
  case (3 key q x)
  then show ?case by (simp add: fh_inv_def)
next
  case (4 key q key')
  then show ?case by (rule fh_inv_cong)
qed (auto simp: ddsrt_fibheap_init_def fh_inv_def [of _ "[]"] min_spec extract_min_inv insert_mset heap_insert_inv
  decrease_key_spec heap_delete_spec)

section \<open>Degrees\<close>

text \<open>The fewest nodes a tree has whose root has a given degree: the Fibonacci numbers.\<close>

fun min_size :: "nat \<Rightarrow> nat" where
  "min_size 0 = 1"
| "min_size (Suc 0) = 2"
| "min_size (Suc (Suc n)) = min_size (Suc n) + min_size n"

lemma min_size_mono: "m \<le> n \<Longrightarrow> min_size m \<le> min_size n"
proof (rule lift_Suc_mono_le [of min_size])
  show "min_size n \<le> min_size (Suc n)" for n by (induction n rule: min_size.induct) auto
qed

lemma min_size_sum: "min_size d = 1 + (\<Sum>i<d. min_size (i - 1))"
  by (induction d rule: min_size.induct) auto

text \<open>At most \<open>k\<close> of the numbers are below \<open>k\<close>, for every \<open>k\<close>: their sum is at least that of \<open>0, 1, ...\<close>\<close>

lemma spread_sum:
  fixes rs :: "nat list" and f :: "nat \<Rightarrow> nat"
  assumes "\<forall>k. length (filter (\<lambda>r. r < k) rs) \<le> k" "\<And>i j. i \<le> j \<Longrightarrow> f i \<le> f j"
  shows "(\<Sum>i<length rs. f i) \<le> (\<Sum>r\<leftarrow>rs. f r)"
  using assms(1)
proof (induction "length rs" arbitrary: rs)
  case (Suc n)
  have "\<exists>r\<in>set rs. n \<le> r"
  proof (rule ccontr)
    assume "\<not> (\<exists>r\<in>set rs. n \<le> r)"
    then have "filter (\<lambda>r. r < n) rs = rs" by (auto simp: not_le)
    with Suc.hyps(2) Suc.prems show False by (metis Suc_n_not_le_n)
  qed
  then obtain xs r ys where rs: "rs = xs @ r # ys" "n \<le> r" by (metis in_set_conv_decomp)
  have "length (filter (\<lambda>r. r < k) (xs @ ys)) \<le> k" for k
  proof -
    have "length (filter (\<lambda>r. r < k) (xs @ ys)) \<le> length (filter (\<lambda>r. r < k) rs)" using rs by simp
    with Suc.prems show ?thesis by (meson order_trans)
  qed
  moreover have "n = length (xs @ ys)" using Suc.hyps(2) rs by simp
  ultimately have "(\<Sum>i<length (xs @ ys). f i) \<le> (\<Sum>r\<leftarrow>xs @ ys. f r)" using Suc.hyps(1) by blast
  moreover have "f n \<le> f r" using rs(2) assms(2) by blast
  moreover have "length rs = Suc (length (xs @ ys))" "n = length (xs @ ys)" using Suc.hyps(2) rs by simp_all
  ultimately show ?case using rs by simp
qed simp

lemma fhs_size: "size (fhs_mset ts) = (\<Sum>t\<leftarrow>ts. size (fhs_mset [t]))"
proof (induction ts)
  case (Cons t ts)
  then show ?case using fhs_mset_Cons [of t ts] by (simp del: fhs_mset.simps)
qed simp

lemma node_size: "fhs_ok key ts \<Longrightarrow> t \<in> set ts \<Longrightarrow> min_size (fh_degree t) \<le> size (fhs_mset [t])"
proof (induction ts arbitrary: t rule: fhs_mset.induct)
  case (2 x m d cs ts)
  consider "t = Fhn x m d cs" | "t \<in> set ts" using "2.prems"(2) by auto
  then show ?case
  proof cases
    case 1
    have ok: "fhs_ok key cs" "d = length cs" "ranks_ok cs" using "2.prems"(1) by auto
    have "fh_rank c - 1 \<le> fh_degree c" for c :: "'a fhn" by (cases c) auto
    then have "min_size (fh_rank c - 1) \<le> size (fhs_mset [c])" if "c \<in> set cs" for c
      using "2.IH"(1) [OF ok(1) that] min_size_mono order_trans by blast
    then have s: "(\<Sum>c\<leftarrow>cs. min_size (fh_rank c - 1)) \<le> size (fhs_mset cs)"
      by (subst fhs_size) (rule sum_list_mono, auto)
    have "\<forall>k. length (filter (\<lambda>r. r < k) (map fh_rank cs)) \<le> k"
      using ok(3) by (simp add: ranks_ok_def filter_map o_def)
    then have "(\<Sum>i<length (map fh_rank cs). min_size (i - 1)) \<le> (\<Sum>r\<leftarrow>map fh_rank cs. min_size (r - 1))"
      by (rule spread_sum) (simp add: min_size_mono)
    with s ok(2) 1 min_size_sum [of d] show ?thesis by (simp add: o_def)
  next
    case 2
    with "2.IH"(2) "2.prems"(1) show ?thesis by auto
  qed
qed simp

lemma node_degree_less:
  assumes "fhs_ok key [n]" "size (fhs_mset [n]) < min_size B"
  shows "fh_degree n < B"
proof (rule ccontr)
  assume "\<not> fh_degree n < B"
  then have "min_size B \<le> min_size (fh_degree n)" by (simp add: min_size_mono)
  with node_size [OF assms(1), of n] assms(2) show False by simp
qed

lemma consolidate_length:
  "arr_ok key arr \<Longrightarrow> fhs_ok key ns \<Longrightarrow> length arr \<le> B \<Longrightarrow>
     size (fhs_mset (present arr)) + size (fhs_mset ns) < min_size B \<Longrightarrow> length (consolidate key ns arr) \<le> B"
proof (induction ns arbitrary: arr)
  case (Cons n ns)
  have ok: "fhs_ok key [n]" "fhs_ok key ns" using Cons.prems(2) fhs_ok_Cons by metis+
  obtain arr1 n1 where lr: "link_roots key arr n = (arr1, n1)" by fastforce
  from link_roots_spec [OF Cons.prems(1) ok(1) lr] have l: "arr_ok key arr1" "fhs_ok key [n1]" "length arr1 = length arr"
    "fh_degree n1 < length arr1 \<longrightarrow> arr1 ! fh_degree n1 = None"
    "fhs_mset (present arr1) + fhs_mset [n1] = fhs_mset (present arr) + fhs_mset [n]" by blast+
  from store_root_spec [OF l(1,2,4)] have s: "arr_ok key (store_root arr1 n1)"
    "fhs_mset (present (store_root arr1 n1)) = fhs_mset (present arr) + fhs_mset [n]" using l(5) by auto
  have tot: "size (fhs_mset (present arr)) + size (fhs_mset [n]) + size (fhs_mset ns) < min_size B"
    using Cons.prems(4) fhs_mset_Cons [of n ns] by (simp del: fhs_mset.simps)
  have "size (fhs_mset [n1]) \<le> size (fhs_mset (present arr) + fhs_mset [n])"
    unfolding l(5) [symmetric] by simp
  with tot have "size (fhs_mset [n1]) < min_size B" by simp
  then have "fh_degree n1 < B" by (rule node_degree_less [OF l(2)])
  then have "length (store_root arr1 n1) \<le> B" using l(3) Cons.prems(3) by (simp add: store_root_def)
  with Cons.IH [OF s(1) ok(2)] s(2) tot lr show ?case by (simp del: fhs_mset.simps)
qed simp

section \<open>Properties\<close>

text \<open>
  The operations of the heap and those of an abstract priority queue, on the state of the client's
  memory (the keys) together with the queue. Inserting and decreasing write the key first.
\<close>

datatype ('n, 'k) fh_op = FInsert 'n 'k | FMerge "'n fibheap" | FExtract | FDecrease 'n 'k | FDelete 'n

fun fh_do :: "('n, 'k::linorder) fh_op \<Rightarrow> ('n \<Rightarrow> 'k) \<times> 'n fibheap \<Rightarrow> 'n option \<times> ('n \<Rightarrow> 'k) \<times> 'n fibheap" where
  "fh_do (FInsert x k) (key, fh) = (None, key(x := k), ddsrt_fibheap_insert (key(x := k)) x fh)"
| "fh_do (FMerge b) (key, fh) = (None, key, fst (ddsrt_fibheap_merge key fh b))"
| "fh_do FExtract (key, fh) = (let (r, fh') = ddsrt_fibheap_extract_min key fh in (r, key, fh'))"
| "fh_do (FDecrease x k) (key, fh) = (None, key(x := k), ddsrt_fibheap_decrease_key (key(x := k)) x fh)"
| "fh_do (FDelete x) (key, fh) = (None, key, ddsrt_fibheap_delete key x fh)"

text \<open>When an operation may be called.\<close>

fun pq_pre :: "('n, 'k::linorder) fh_op \<Rightarrow> ('n \<Rightarrow> 'k) \<Rightarrow> 'n multiset \<Rightarrow> bool" where
  "pq_pre (FInsert x k) key M \<longleftrightarrow> x \<notin># M"
| "pq_pre (FMerge b) key M \<longleftrightarrow> fh_inv key b \<and> set_mset M \<inter> set_mset (fhs_mset b) = {}"
| "pq_pre FExtract key M \<longleftrightarrow> True"
| "pq_pre (FDecrease x k) key M \<longleftrightarrow> k \<le> key x"
| "pq_pre (FDelete x) key M \<longleftrightarrow> True"

text \<open>What it does to the abstract queue; the minimum may be any of several smallest nodes.\<close>

fun pq_step :: "('n, 'k::linorder) fh_op \<Rightarrow> ('n \<Rightarrow> 'k) \<Rightarrow> 'n multiset \<Rightarrow> 'n option \<Rightarrow> ('n \<Rightarrow> 'k) \<Rightarrow> 'n multiset \<Rightarrow> bool" where
  "pq_step (FInsert x k) key M r key' M' \<longleftrightarrow> r = None \<and> key' = key(x := k) \<and> M' = add_mset x M"
| "pq_step (FMerge b) key M r key' M' \<longleftrightarrow> r = None \<and> key' = key \<and> M' = M + fhs_mset b"
| "pq_step FExtract key M r key' M' \<longleftrightarrow> key' = key \<and>
     (case r of None \<Rightarrow> M = {#} \<and> M' = {#}
      | Some x \<Rightarrow> x \<in># M \<and> (\<forall>y\<in>#M. key x \<le> key y) \<and> M' = M - {#x#})"
| "pq_step (FDecrease x k) key M r key' M' \<longleftrightarrow> r = None \<and> key' = key(x := k) \<and> M' = M"
| "pq_step (FDelete x) key M r key' M' \<longleftrightarrow> r = None \<and> key' = key \<and> M' = M - {#x#}"

lemma merge_spec:
  assumes "fh_inv key a" "fh_inv key b" "set_mset (fhs_mset a) \<inter> set_mset (fhs_mset b) = {}"
  shows "fh_inv key (ddsrt_fibheap_merge_into key a b)"
proof (rule merge_into_inv [OF assms(1,2)], rule allI)
  fix x
  have "count (fhs_mset a) x = 0 \<or> count (fhs_mset b) x = 0" using assms(3) by (auto simp: count_eq_zero_iff)
  moreover have "count (fhs_mset a) x \<le> 1" "count (fhs_mset b) x \<le> 1" using assms(1,2) by (simp_all add: fh_inv_def)
  ultimately show "count (fhs_mset a) x + count (fhs_mset b) x \<le> 1" by auto
qed

lemma fh_do_step:
  assumes "fh_inv key fh" "pq_pre op key (fhs_mset fh)" "fh_do op (key, fh) = (r, key', fh')"
  shows "fh_inv key' fh' \<and> pq_step op key (fhs_mset fh) r key' (fhs_mset fh')"
proof (cases op)
  case (FInsert x k)
  have "fh_inv (key(x := k)) fh" using assms(1,2) FInsert by (auto intro: fh_inv_cong)
  with assms FInsert show ?thesis by (auto simp: fh.inv_insert fh.nodes_insert)
next
  case (FMerge b)
  with assms show ?thesis by (auto simp: ddsrt_fibheap_merge_def merge_into_mset merge_spec)
next
  case FExtract
  with assms(3) obtain "key' = key" "ddsrt_fibheap_extract_min key fh = (r, fh')" by (auto split: prod.splits)
  with fh.extract_min_fst [OF assms(1)] fh.inv_extract_min [OF assms(1)] fh.nodes_extract_min [OF assms(1)]
    fh.find_min_None [OF assms(1)] fh.find_min_in [OF assms(1)] fh.find_min_le [OF assms(1)] FExtract
  show ?thesis by (cases r) (auto simp: ddsrt_fibheap_extract_min_def)
next
  case (FDecrease x k)
  with assms show ?thesis by (auto simp: fh.inv_decrease_key fh.nodes_decrease_key)
next
  case (FDelete x)
  with assms show ?thesis by (auto simp: fh.inv_delete fh.nodes_delete)
qed

text \<open>C22: The Fibonacci heap implements an abstract priority queue: every operation, on every branch, keeps
  the heap's invariant (heap order, the first root a minimum, degrees exact, no node twice) and is the
  corresponding step of the abstract queue; what is extracted is a node with the smallest key. Extracting again and again
  after it yields every node once, sorted by key.\<close>

theorem fibheap_refines_priority_queue:
  assumes "fh_inv key fh" "pq_pre op key (fhs_mset fh)" "fh_do op (key, fh) = (r, key', fh')"
  shows "fh_inv key' fh' \<and> pq_step op key (fhs_mset fh) r key' (fhs_mset fh')
    \<and> sorted (map key' (fh.drain (size (fhs_mset fh')) key' fh')) \<and> mset (fh.drain (size (fhs_mset fh')) key' fh') = fhs_mset fh'"
proof -
  have "fh_inv key' fh' \<and> pq_step op key (fhs_mset fh) r key' (fhs_mset fh')" using assms by (rule fh_do_step)
  with fh.drain_sorted [of key' fh' "size (fhs_mset fh')"] show ?thesis by blast
qed

text \<open>A heap of three nodes, with their keys, after one extraction has linked two of them.\<close>

definition demo_key :: "nat \<Rightarrow> int" where
  "demo_key x = (if x = 1 then 5 else if x = 2 then 7 else 9)"

lemma demo_heap: "fh_inv demo_key [Fhn 1 False 1 [Fhn 2 False 0 []]]"
  by (auto simp: fh_inv_def demo_key_def ranks_ok_def)

theorem fibheap_refines_priority_queue_witness:
  "fh_inv (demo_key(2 := 3)) (snd (snd (fh_do (FDecrease 2 3) (demo_key, [Fhn 1 False 1 [Fhn 2 False 0 []]]))))"
proof -
  let ?fh = "[Fhn 1 False 1 [Fhn 2 False 0 []]] :: nat fibheap"
  obtain r key' fh' where d: "fh_do (FDecrease 2 3) (demo_key, ?fh) = (r, key', fh')" by (metis prod_cases3)
  have "pq_pre (FDecrease 2 3) demo_key (fhs_mset ?fh)" by (simp add: demo_key_def)
  from fibheap_refines_priority_queue [OF demo_heap this d] d show ?thesis by auto
qed

lemma min_size_64: "min_size 64 = 27777890035288"
proof -
  have rec: "min_size (Suc (Suc n)) = a + b \<and> min_size (Suc n) = b" if "min_size n = a" "min_size (Suc n) = b" for n a b
    using that by simp
  have step: "int (min_size (m + n)) = fst (((\<lambda>(a, b). (b, a + b)) ^^ n) (int (min_size m), int (min_size (Suc m))))" for m n
  proof (induction n arbitrary: m)
    case (Suc n)
    from Suc [of "Suc m"] show ?case by (simp add: funpow_Suc_right add.commute del: funpow.simps)
  qed simp
  have "fst (((\<lambda>(a, b). (b, a + b)) ^^ 64) (1 :: int, 2)) = 27777890035288" by (simp add: numeral_eq_Suc)
  with step [of 0 64] show ?thesis by simp
qed

text \<open>C23: The array \<open>roots[]\<close> of \<open>ddsrt_fibheap_extract_min\<close>, which has \<open>MAX_DEGREE + 1\<close> entries, does not
  overflow: in a heap of at most 27777890035288 nodes (the 66th Fibonacci number) no root has a degree above
  \<open>MAX_DEGREE\<close> while the roots are consolidated.\<close>

theorem fibheap_roots_array_bound:
  assumes "fh_inv key (m # rest)" "size (fhs_mset (m # rest)) \<le> 27777890035288"
  shows "length (consolidate key (remaining_roots m rest) []) \<le> MAX_DEGREE + 1"
proof -
  have ok: "fhs_ok key (m # rest)" using assms(1) by (simp add: fh_inv_def)
  note rr = remaining_roots_spec [OF ok]
  have "Suc (size (fhs_mset (remaining_roots m rest))) = size (fhs_mset (m # rest))"
    using rr by (metis size_add_mset)
  with assms(2) have s: "size (fhs_mset (remaining_roots m rest)) < min_size 64" by (simp add: min_size_64)
  have "length (consolidate key (remaining_roots m rest) []) \<le> 64"
    by (rule consolidate_length) (use rr s in \<open>simp_all add: arr_ok_def\<close>)
  then show ?thesis by (simp add: MAX_DEGREE_def)
qed

theorem fibheap_roots_array_bound_witness:
  "length (consolidate demo_key (remaining_roots (Fhn 1 False 1 [Fhn 2 False 0 []]) []) []) \<le> MAX_DEGREE + 1"
  by (rule fibheap_roots_array_bound [OF demo_heap]) simp

end
