(* ===== verification/Times.thy ===== *)
theory Times
  imports Prelude "HOL-Library.Signed_Division"
begin

text \<open>
  Time stamps and durations: dds/ddsrt/time.h, ddsrt/src/time.c and core/ddsi/src/ddsi_time.c.

  \<open>dds_time_t\<close> and \<open>dds_duration_t\<close> are \<open>int64_t\<close> counts of nanoseconds; the operations here stay in
  that range, so they are integers. C division truncates (\<open>sdiv\<close>, \<open>smod\<close>); the conversions to
  32-bit fields keep the low bits (\<open>signed_take_bit 31\<close>, \<open>mod 2 ^ 32\<close>).
\<close>

definition DDS_NSECS_IN_SEC :: int where "DDS_NSECS_IN_SEC = 1000000000"
definition DDS_NSECS_IN_MSEC :: int where "DDS_NSECS_IN_MSEC = 1000000"
definition DDS_NEVER :: int where "DDS_NEVER = 2 ^ 63 - 1"
definition DDS_INFINITY :: int where "DDS_INFINITY = 2 ^ 63 - 1"

definition DDS_SECS :: "int \<Rightarrow> int" where "DDS_SECS n = n * DDS_NSECS_IN_SEC"

definition DDS_MSECS :: "int \<Rightarrow> int" where
  "DDS_MSECS n = n * DDS_NSECS_IN_MSEC"

text \<open>The same function serves the monotonic, wall-clock and elapsed clocks.\<close>

definition ddsrt_time_add_duration :: "int \<Rightarrow> int \<Rightarrow> int" where
  "ddsrt_time_add_duration abstime reltime = (if reltime \<ge> DDS_NEVER - abstime then DDS_NEVER else abstime + reltime)"

definition ddsrt_etime_add_duration :: "int \<Rightarrow> int \<Rightarrow> int" where
  "ddsrt_etime_add_duration abstime reltime = ddsrt_time_add_duration abstime reltime"

definition int32_of :: "int \<Rightarrow> int" where
  "int32_of n = signed_take_bit 31 n"

definition time_to_sec_usec :: "int \<Rightarrow> int \<times> int" where
  "time_to_sec_usec t = (int32_of (t sdiv DDS_NSECS_IN_SEC), int32_of (t smod DDS_NSECS_IN_SEC) sdiv 1000)"

record ddsi_time_t =
  dt_seconds :: int
  dt_fraction :: int

definition DDSI_TIME_INFINITE :: ddsi_time_t where
  "DDSI_TIME_INFINITE = \<lparr>dt_seconds = 2 ^ 31 - 1, dt_fraction = 2 ^ 32 - 1\<rparr>"

definition DDSI_TIME_INVALID :: ddsi_time_t where
  "DDSI_TIME_INVALID = \<lparr>dt_seconds = -1, dt_fraction = 2 ^ 32 - 1\<rparr>"

definition ddsi_is_valid_timestamp :: "ddsi_time_t \<Rightarrow> bool" where
  "ddsi_is_valid_timestamp t \<longleftrightarrow> dt_seconds t \<noteq> dt_seconds DDSI_TIME_INVALID \<and> dt_fraction t \<noteq> dt_fraction DDSI_TIME_INVALID"

definition to_ddsi_time :: "int \<Rightarrow> ddsi_time_t" where
  "to_ddsi_time t =
     (if t = DDS_NEVER then DDSI_TIME_INFINITE
      else
        (let ns = int32_of (t smod DDS_NSECS_IN_SEC)
         in \<lparr>dt_seconds = int32_of (t sdiv DDS_NSECS_IN_SEC),
             dt_fraction = (((DDS_NSECS_IN_SEC - 1) + ns * 2 ^ 32) sdiv DDS_NSECS_IN_SEC) mod 2 ^ 32\<rparr>))"

definition from_ddsi_time :: "ddsi_time_t \<Rightarrow> int" where
  "from_ddsi_time x =
     (if dt_seconds x = dt_seconds DDSI_TIME_INFINITE \<and> dt_fraction x = dt_fraction DDSI_TIME_INFINITE then DDS_NEVER
      else
        (let ns = int32_of ((2147483648 + dt_fraction x * DDS_NSECS_IN_SEC) div 2 ^ 32)
         in dt_seconds x * DDS_NSECS_IN_SEC + ns))"

definition ddsi_wctime_to_ddsi_time :: "int \<Rightarrow> ddsi_time_t" where
  "ddsi_wctime_to_ddsi_time t = to_ddsi_time t"

definition ddsi_wctime_from_ddsi_time :: "ddsi_time_t \<Rightarrow> int" where
  "ddsi_wctime_from_ddsi_time x = from_ddsi_time x"

definition ddsi_to_ddsi_duration :: "int \<Rightarrow> ddsi_time_t" where
  "ddsi_to_ddsi_duration x = to_ddsi_time x"

definition ddsi_from_ddsi_duration :: "ddsi_time_t \<Rightarrow> int" where
  "ddsi_from_ddsi_duration x = from_ddsi_time x"

lemmas time_consts = DDS_NSECS_IN_SEC_def DDS_NSECS_IN_MSEC_def DDS_NEVER_def DDS_INFINITY_def DDS_MSECS_def

section \<open>Arithmetic\<close>

lemma add_duration_bounds:
  "0 \<le> t \<Longrightarrow> 0 \<le> d \<Longrightarrow> t \<le> DDS_NEVER \<Longrightarrow>
     t \<le> ddsrt_time_add_duration t d \<and> ddsrt_time_add_duration t d \<le> DDS_NEVER"
  by (auto simp: ddsrt_time_add_duration_def)

lemma add_duration_later: "0 \<le> t \<Longrightarrow> t < DDS_NEVER \<Longrightarrow> 0 < d \<Longrightarrow> t < ddsrt_time_add_duration t d"
  by (auto simp: ddsrt_time_add_duration_def)

lemma int32_of_id: "- (2 ^ 31) \<le> n \<Longrightarrow> n < 2 ^ 31 \<Longrightarrow> int32_of n = n"
  by (simp add: int32_of_def signed_take_bit_int_eq_self)

section \<open>Properties\<close>

text \<open>The fraction is rounded up, so rounding it to the nearest nanosecond gives the nanoseconds back.\<close>

lemma fraction_roundtrip:
  fixes ns :: int
  assumes "0 \<le> ns" "ns < 1000000000"
  shows "0 \<le> (999999999 + ns * 2 ^ 32) div 1000000000 \<and> (999999999 + ns * 2 ^ 32) div 1000000000 < 2 ^ 32 - 1
    \<and> (2147483648 + ((999999999 + ns * 2 ^ 32) div 1000000000) * 1000000000) div 2 ^ 32 = ns"
proof -
  let ?f = "(999999999 + ns * 2 ^ 32) div 1000000000"
  have f: "ns * 2 ^ 32 \<le> ?f * 1000000000" "?f * 1000000000 \<le> ns * 2 ^ 32 + 999999999" by linarith+
  have "(ns + 1) * 2 ^ 32 = ns * 2 ^ 32 + 4294967296" by (simp add: distrib_right)
  with f have "ns * 2 ^ 32 \<le> 2147483648 + ?f * 1000000000" "2147483648 + ?f * 1000000000 < (ns + 1) * 2 ^ 32" by linarith+
  then have "(2147483648 + ?f * 1000000000) div 2 ^ 32 = ns" by (intro int_div_pos_eq [where r = "2147483648 + ?f * 1000000000 - ns * 2 ^ 32"]) simp_all
  moreover have p: "(2 :: int) ^ 32 = 4294967296" by simp
  have "0 \<le> ?f" "?f < 2 ^ 32 - 1" using f assms unfolding p by linarith+
  ultimately show ?thesis by simp
qed

text \<open>Converting a time stamp or duration to the wire format (seconds and a 32-bit binary fraction) and
  back gives it back to the nanosecond, for every time before \<open>2^31\<close> seconds and for "never"; adding a
  duration to a time saturates at "never" and never goes back in time.\<close>

theorem ddsi_time_roundtrip:
  assumes "0 \<le> t \<and> t < 2 ^ 31 * DDS_NSECS_IN_SEC \<or> t = DDS_NEVER"
  shows "from_ddsi_time (to_ddsi_time t) = t
    \<and> (\<forall>d. 0 \<le> d \<longrightarrow> t \<le> ddsrt_time_add_duration t d \<and> ddsrt_time_add_duration t d = min (t + d) DDS_NEVER)"
proof (cases "t = DDS_NEVER")
  case True
  then show ?thesis by (auto simp: to_ddsi_time_def from_ddsi_time_def ddsrt_time_add_duration_def)
next
  case False
  with assms have t: "0 \<le> t" "t < 2 ^ 31 * 1000000000" by (auto simp: time_consts)
  let ?s = "t div 1000000000" and ?n = "t mod 1000000000"
  have s: "0 \<le> ?s" "?s < 2 ^ 31" and n: "0 \<le> ?n" "?n < 1000000000" using t by auto
  have sd: "t sdiv 1000000000 = ?s" "t smod 1000000000 = ?n"
    using t(1) by (simp_all add: signed_divide_int_def signed_modulo_int_def sgn_if abs_if minus_div_mult_eq_mod)
  have n32: "int32_of ?n = ?n" and s32: "int32_of ?s = ?s" using s n by (simp_all add: int32_of_id)
  note f = fraction_roundtrip [OF n]
  have fd: "(999999999 + ?n * 2 ^ 32) sdiv 1000000000 = (999999999 + ?n * 2 ^ 32) div 1000000000"
    using n(1) by (simp add: signed_divide_int_def sgn_if abs_if)
  have to: "to_ddsi_time t = \<lparr>dt_seconds = ?s, dt_fraction = (999999999 + ?n * 2 ^ 32) div 1000000000\<rparr>"
    using False f fd by (simp add: to_ddsi_time_def DDS_NSECS_IN_SEC_def sd n32 s32 Let_def)
  have "from_ddsi_time (to_ddsi_time t) = ?s * 1000000000 + int32_of ?n"
    using f by (simp add: to from_ddsi_time_def DDSI_TIME_INFINITE_def DDS_NSECS_IN_SEC_def Let_def)
  also have "\<dots> = t" using n32 by simp
  finally have r: "from_ddsi_time (to_ddsi_time t) = t" .
  have "t \<le> DDS_NEVER" using t by (simp add: DDS_NEVER_def)
  with r t(1) show ?thesis by (auto simp: ddsrt_time_add_duration_def)
qed

theorem ddsi_time_roundtrip_witness:
  "from_ddsi_time (to_ddsi_time 1700000000123456789) = 1700000000123456789"
  by (rule ddsi_time_roundtrip [THEN conjunct1]) (simp add: time_consts)

text \<open>The limits of the format are not checked: a duration of \<open>2^31\<close> seconds (68 years) or more does not
  become "infinite" on the wire but wraps to a negative number of seconds; and a time stamp is taken for invalid
  as soon as one of its two fields has the value it has in the invalid time stamp.\<close>

theorem ddsi_time_limits:
  "to_ddsi_time (2 ^ 31 * DDS_NSECS_IN_SEC) = \<lparr>dt_seconds = - (2 ^ 31), dt_fraction = 0\<rparr>
   \<and> from_ddsi_time (to_ddsi_time (2 ^ 31 * DDS_NSECS_IN_SEC)) < 0
   \<and> \<not> ddsi_is_valid_timestamp \<lparr>dt_seconds = 1700000000, dt_fraction = 2 ^ 32 - 1\<rparr>
   \<and> from_ddsi_time \<lparr>dt_seconds = 1700000000, dt_fraction = 2 ^ 32 - 1\<rparr> = 1700000001 * DDS_NSECS_IN_SEC"
  by code_simp

end
