(* ===== verification/Lease.thy ===== *)
theory Lease
  imports Fibheap_Props Times
begin

text \<open>
  Leases: core/ddsi/src/q_lease.c. A lease watches an entity that has to give signs of life; leases
  that can expire are on a heap ordered by \<open>tsched\<close>, the time at which to look at them again.
  \<open>tend\<close>, when the lease really ends, may move into the future without the heap being touched.

  A lease is named by its address; \<open>ld_mem\<close> is the memory, from which the heap reads its keys. The
  heap's lock makes every operation here one step, but for \<open>lease_renew\<close>, which is one atomic
  compare-and-swap (the loop retries until nobody interferes), and for
  \<open>check_and_handle_lease_expiration\<close>, which gives up the lock to handle an expired lease: its loop
  body is the step. \<open>force_lease_check\<close> only counts in \<open>ld_forced\<close>. The entity index is another
  component: \<open>privileged_live\<close> says whether the proxy participant with a given GUID is there and its
  privileged participant is live. Handling an expired lease is an event for the entity's component.
\<close>

definition TSCHED_NOT_ON_HEAP :: int where
  "TSCHED_NOT_ON_HEAP = - (2 ^ 63)"

datatype ddsi_entity_kind = DDSI_EK_PARTICIPANT | DDSI_EK_PROXY_PARTICIPANT | DDSI_EK_TOPIC
  | DDSI_EK_WRITER | DDSI_EK_PROXY_WRITER | DDSI_EK_READER | DDSI_EK_PROXY_READER

type_synonym lease_guid = nat
type_synonym lease_id = nat

record lease =
  ls_tsched :: int
  ls_tend :: int
  ls_tdur :: int
  ls_guid :: lease_guid
  ls_kind :: ddsi_entity_kind

record lease_domain =
  ld_mem :: "lease_id \<Rightarrow> lease"
  ld_heap :: "lease_id fibheap"
  ld_forced :: nat

definition lease_key :: "lease_domain \<Rightarrow> lease_id \<Rightarrow> int" where
  "lease_key d = (\<lambda>l. ls_tsched (ld_mem d l))"

definition compare_lease_tsched :: "lease \<Rightarrow> lease \<Rightarrow> int" where
  "compare_lease_tsched a b = (if ls_tsched a = ls_tsched b then 0 else if ls_tsched a < ls_tsched b then -1 else 1)"

definition compare_lease_tdur :: "lease \<Rightarrow> lease \<Rightarrow> int" where
  "compare_lease_tdur a b = (if ls_tdur a = ls_tdur b then 0 else if ls_tdur a < ls_tdur b then -1 else 1)"

definition lease_management_init :: "(lease_id \<Rightarrow> lease) \<Rightarrow> lease_domain" where
  "lease_management_init mem = \<lparr>ld_mem = mem, ld_heap = ddsrt_fibheap_init, ld_forced = 0\<rparr>"

definition force_lease_check :: "lease_domain \<Rightarrow> lease_domain" where
  "force_lease_check d = d\<lparr>ld_forced := ld_forced d + 1\<rparr>"

definition lease_new :: "int \<Rightarrow> int \<Rightarrow> lease_guid \<Rightarrow> ddsi_entity_kind \<Rightarrow> lease" where
  "lease_new texpire tdur g k =
     \<lparr>ls_tsched = TSCHED_NOT_ON_HEAP, ls_tend = texpire, ls_tdur = tdur, ls_guid = g, ls_kind = k\<rparr>"

definition lease_clone :: "lease \<Rightarrow> lease" where
  "lease_clone l = lease_new (ls_tend l) (ls_tdur l) (ls_guid l) (ls_kind l)"

text \<open>Writing \<open>tsched\<close>, \<open>tend\<close> of a lease.\<close>

definition set_tsched :: "lease_id \<Rightarrow> int \<Rightarrow> lease_domain \<Rightarrow> lease_domain" where
  "set_tsched l t d = d\<lparr>ld_mem := (ld_mem d)(l := (ld_mem d l)\<lparr>ls_tsched := t\<rparr>)\<rparr>"

definition set_tend :: "lease_id \<Rightarrow> int \<Rightarrow> lease_domain \<Rightarrow> lease_domain" where
  "set_tend l t d = d\<lparr>ld_mem := (ld_mem d)(l := (ld_mem d l)\<lparr>ls_tend := t\<rparr>)\<rparr>"

text \<open>\<open>l->tsched = t; ddsrt_fibheap_insert (.., l)\<close>\<close>

definition schedule :: "lease_id \<Rightarrow> int \<Rightarrow> lease_domain \<Rightarrow> lease_domain" where
  "schedule l t d =
     (let d1 = set_tsched l t d in d1\<lparr>ld_heap := ddsrt_fibheap_insert (lease_key d1) l (ld_heap d1)\<rparr>)"

definition lease_register :: "lease_id \<Rightarrow> lease_domain \<Rightarrow> lease_domain" where
  "lease_register l d =
     (let tend = ls_tend (ld_mem d l)
      in force_lease_check (if tend \<noteq> DDS_NEVER then schedule l tend d else d))"

definition lease_unregister :: "lease_id \<Rightarrow> lease_domain \<Rightarrow> lease_domain" where
  "lease_unregister l d =
     force_lease_check
       (if ls_tsched (ld_mem d l) \<noteq> TSCHED_NOT_ON_HEAP then
          set_tsched l TSCHED_NOT_ON_HEAP
            (d\<lparr>ld_heap := ddsrt_fibheap_delete (lease_key d) l (ld_heap d)\<rparr>)
        else d)"

definition lease_renew :: "lease_id \<Rightarrow> int \<Rightarrow> lease_domain \<Rightarrow> lease_domain" where
  "lease_renew l tnowE d =
     (let tend_new = ddsrt_etime_add_duration tnowE (ls_tdur (ld_mem d l));
          tend = ls_tend (ld_mem d l)
      in if tend_new \<le> tend \<or> tnowE \<ge> tend then d else set_tend l tend_new d)"

definition lease_set_expiry :: "lease_id \<Rightarrow> int \<Rightarrow> lease_domain \<Rightarrow> lease_domain" where
  "lease_set_expiry l when d =
     (let d1 = set_tend l when d
      in if when < ls_tsched (ld_mem d1 l) then
           (let d2 = set_tsched l when d1
            in force_lease_check (d2\<lparr>ld_heap := ddsrt_fibheap_decrease_key (lease_key d2) l (ld_heap d2)\<rparr>))
         else if ls_tsched (ld_mem d1 l) = TSCHED_NOT_ON_HEAP \<and> when < DDS_NEVER then
           force_lease_check (schedule l when d1)
         else d1)"

text \<open>What is done about an entity whose lease has expired; there are leases for three kinds only.\<close>

datatype lease_event = Delete_proxy_participant lease_guid | Proxy_writer_set_notalive lease_guid
  | Writer_set_notalive lease_guid | Lease_assert_false lease_guid

definition lease_expired :: "lease \<Rightarrow> lease_event" where
  "lease_expired l = (case ls_kind l of
       DDSI_EK_PROXY_PARTICIPANT \<Rightarrow> Delete_proxy_participant (ls_guid l)
     | DDSI_EK_PROXY_WRITER \<Rightarrow> Proxy_writer_set_notalive (ls_guid l)
     | DDSI_EK_WRITER \<Rightarrow> Writer_set_notalive (ls_guid l)
     | _ \<Rightarrow> Lease_assert_false (ls_guid l))"

text \<open>One round of the loop: \<open>None\<close> when no lease is due; otherwise the state and the expired lease, if any.\<close>

definition lease_check_round ::
  "(lease_guid \<Rightarrow> bool) \<Rightarrow> int \<Rightarrow> lease_domain \<Rightarrow> (lease_domain \<times> (lease_id \<times> lease_event) option) option" where
  "lease_check_round privileged_live tnowE d =
     (case ddsrt_fibheap_min (ld_heap d) of
        None \<Rightarrow> None
      | Some l \<Rightarrow>
          if ls_tsched (ld_mem d l) > tnowE then None
          else
            (let d1 = d\<lparr>ld_heap := snd (ddsrt_fibheap_extract_min (lease_key d) (ld_heap d))\<rparr>;
                 tend = ls_tend (ld_mem d l)
             in if tnowE < tend then
                  (if tend = DDS_NEVER then Some (set_tsched l TSCHED_NOT_ON_HEAP d1, None)
                   else Some (schedule l tend d1, None))
                else if ls_kind (ld_mem d l) = DDSI_EK_PROXY_PARTICIPANT \<and> privileged_live (ls_guid (ld_mem d l)) then
                  Some (schedule l (ddsrt_etime_add_duration tnowE (DDS_MSECS 200)) d1, None)
                else Some (set_tsched l TSCHED_NOT_ON_HEAP d1, Some (l, lease_expired (ld_mem d l)))))"

text \<open>The delay until the next check.\<close>

definition lease_delay :: "int \<Rightarrow> lease_domain \<Rightarrow> int" where
  "lease_delay tnowE d = (case ddsrt_fibheap_min (ld_heap d) of
       None \<Rightarrow> DDS_INFINITY
     | Some l \<Rightarrow> ls_tsched (ld_mem d l) - tnowE)"

text \<open>The whole function when nothing interferes: state, expired leases in order, delay.\<close>

partial_function (option) lease_check_loop ::
  "(lease_guid \<Rightarrow> bool) \<Rightarrow> int \<Rightarrow> lease_domain \<Rightarrow> (lease_domain \<times> (lease_id \<times> lease_event) list) option" where
  "lease_check_loop privileged_live tnowE d =
     (case lease_check_round privileged_live tnowE d of
        None \<Rightarrow> Some (d, [])
      | Some (d1, ev) \<Rightarrow>
          Option.bind (lease_check_loop privileged_live tnowE d1)
            (\<lambda>(d2, evs). Some (d2, (case ev of None \<Rightarrow> evs | Some e \<Rightarrow> e # evs))))"

definition check_and_handle_lease_expiration ::
  "(lease_guid \<Rightarrow> bool) \<Rightarrow> int \<Rightarrow> lease_domain \<Rightarrow> (lease_domain \<times> (lease_id \<times> lease_event) list \<times> int) option" where
  "check_and_handle_lease_expiration privileged_live tnowE d =
     Option.bind (lease_check_loop privileged_live tnowE d) (\<lambda>(d1, evs). Some (d1, evs, lease_delay tnowE d1))"

end
