(* ===== verification/Lease_Props.thy ===== *)
theory Lease_Props
  imports Lease
begin

text \<open>
  The lease administration over the priority queue that the Fibonacci heap implements: what is on
  the heap, when a lease is found expired, and that the check finds all of them and asks to be
  called again in time.
\<close>

section \<open>The invariant\<close>

definition on_heap :: "lease_domain \<Rightarrow> lease_id set" where
  "on_heap d = set_mset (fhs_mset (ld_heap d))"

definition heap_ok :: "lease_domain \<Rightarrow> bool" where
  "heap_ok d \<longleftrightarrow> fh_inv (lease_key d) (ld_heap d)"

text \<open>
  A lease is on the heap exactly when \<open>tsched\<close> says so, and it is looked at no later than it ends,
  unless a proxy participant's expiry was postponed.
\<close>

definition lease_ok :: "lease \<Rightarrow> bool \<Rightarrow> bool" where
  "lease_ok x scheduled \<longleftrightarrow> (scheduled \<longleftrightarrow> ls_tsched x \<noteq> TSCHED_NOT_ON_HEAP)
     \<and> 0 \<le> ls_tend x \<and> ls_tend x \<le> DDS_NEVER \<and> 0 \<le> ls_tdur x
     \<and> (scheduled \<longrightarrow> 0 \<le> ls_tsched x \<and> ls_tsched x \<le> DDS_NEVER
          \<and> (ls_tsched x \<le> ls_tend x \<or> ls_kind x = DDSI_EK_PROXY_PARTICIPANT))"

definition lease_inv :: "lease_domain \<Rightarrow> bool" where
  "lease_inv d \<longleftrightarrow> heap_ok d \<and> (\<forall>l. lease_ok (ld_mem d l) (l \<in> on_heap d))"

lemma not_on_heap_neg: "0 \<le> t \<Longrightarrow> t \<noteq> TSCHED_NOT_ON_HEAP"
  by (simp add: TSCHED_NOT_ON_HEAP_def)

lemma mem_simps [simp]:
  "ld_mem (set_tsched l t d) = (ld_mem d)(l := (ld_mem d l)\<lparr>ls_tsched := t\<rparr>)" "ld_heap (set_tsched l t d) = ld_heap d"
  "ld_mem (set_tend l t d) = (ld_mem d)(l := (ld_mem d l)\<lparr>ls_tend := t\<rparr>)" "ld_heap (set_tend l t d) = ld_heap d"
  "ld_mem (force_lease_check d) = ld_mem d" "ld_heap (force_lease_check d) = ld_heap d"
  "ld_mem (schedule l t d) = (ld_mem d)(l := (ld_mem d l)\<lparr>ls_tsched := t\<rparr>)"
  by (simp_all add: set_tsched_def set_tend_def force_lease_check_def schedule_def Let_def)

lemma on_heap_simps [simp]:
  "on_heap (set_tsched l t d) = on_heap d" "on_heap (set_tend l t d) = on_heap d" "on_heap (force_lease_check d) = on_heap d"
  by (simp_all add: on_heap_def)

lemma heap_ok_force [simp]: "heap_ok (force_lease_check d) = heap_ok d"
  by (simp add: heap_ok_def lease_key_def)

lemma lease_inv_force [simp]: "lease_inv (force_lease_check d) = lease_inv d"
  by (simp add: lease_inv_def)

lemma heap_ok_mem:
  assumes "heap_ok d" "\<And>x. x \<in> on_heap d \<Longrightarrow> ls_tsched (ld_mem d' x) = ls_tsched (ld_mem d x)" "ld_heap d' = ld_heap d"
  shows "heap_ok d'"
  using assms fh_inv_cong [of "lease_key d" "ld_heap d" "lease_key d'"]
  by (simp add: heap_ok_def on_heap_def lease_key_def)

lemma heap_ok_set_tsched: "heap_ok d \<Longrightarrow> l \<notin> on_heap d \<Longrightarrow> heap_ok (set_tsched l t d)"
  by (rule heap_ok_mem [of d]) auto

lemma heap_ok_set_tend: "heap_ok d \<Longrightarrow> heap_ok (set_tend l t d)"
  by (rule heap_ok_mem [of d]) auto

lemma schedule_spec:
  assumes "heap_ok d" "l \<notin> on_heap d"
  shows "heap_ok (schedule l t d) \<and> on_heap (schedule l t d) = insert l (on_heap d)"
proof -
  have "heap_ok (set_tsched l t d)" using assms by (rule heap_ok_set_tsched)
  then have "fh_inv (lease_key (set_tsched l t d)) (ddsrt_fibheap_insert (lease_key (set_tsched l t d)) l (ld_heap d))"
    using assms(2) by (intro fh.inv_insert) (simp_all add: heap_ok_def on_heap_def)
  then show ?thesis
    by (simp add: schedule_def heap_ok_def on_heap_def Let_def insert_mset lease_key_def)
qed

lemma schedule_inv:
  assumes "heap_ok d" "l \<notin> on_heap d" "\<forall>x. x \<noteq> l \<longrightarrow> lease_ok (ld_mem d x) (x \<in> on_heap d)"
    and "lease_ok ((ld_mem d l)\<lparr>ls_tsched := t\<rparr>) True"
  shows "lease_inv (schedule l t d)"
  using schedule_spec [OF assms(1,2), of t] assms(3,4) by (auto simp: lease_inv_def)

lemma unschedule_inv:
  assumes "heap_ok d" "l \<notin> on_heap d" "\<forall>x. x \<noteq> l \<longrightarrow> lease_ok (ld_mem d x) (x \<in> on_heap d)"
    and "lease_ok ((ld_mem d l)\<lparr>ls_tsched := TSCHED_NOT_ON_HEAP\<rparr>) False"
  shows "lease_inv (set_tsched l TSCHED_NOT_ON_HEAP d)"
  using assms heap_ok_set_tsched [OF assms(1,2)] by (auto simp: lease_inv_def)

lemma lease_ok_off: "lease_ok x b \<Longrightarrow> lease_ok (x\<lparr>ls_tsched := TSCHED_NOT_ON_HEAP\<rparr>) False"
  by (simp add: lease_ok_def)

section \<open>Every operation keeps it\<close>

lemma lease_invD:
  assumes "lease_inv d"
  shows "heap_ok d" "lease_ok (ld_mem d l) (l \<in> on_heap d)"
  using assms by (auto simp: lease_inv_def)

lemma register_inv:
  assumes "lease_inv d" "l \<notin> on_heap d"
  shows "lease_inv (lease_register l d)"
proof (cases "ls_tend (ld_mem d l) = DDS_NEVER")
  case False
  note i = lease_invD [OF assms(1)]
  have "lease_ok ((ld_mem d l)\<lparr>ls_tsched := ls_tend (ld_mem d l)\<rparr>) True"
    using i(2) [of l] not_on_heap_neg by (auto simp: lease_ok_def)
  then have "lease_inv (schedule l (ls_tend (ld_mem d l)) d)" using i assms(2) by (intro schedule_inv) auto
  with False show ?thesis by (simp add: lease_register_def Let_def)
qed (use assms(1) in \<open>simp add: lease_register_def Let_def\<close>)

lemma unregister_inv:
  assumes "lease_inv d"
  shows "lease_inv (lease_unregister l d) \<and> on_heap (lease_unregister l d) = on_heap d - {l}"
proof (cases "ls_tsched (ld_mem d l) = TSCHED_NOT_ON_HEAP")
  case True
  then show ?thesis using assms lease_invD(2) [OF assms, of l] by (auto simp: lease_unregister_def lease_ok_def)
next
  case False
  let ?d = "d\<lparr>ld_heap := ddsrt_fibheap_delete (lease_key d) l (ld_heap d)\<rparr>"
  have h: "fh_inv (lease_key d) (ld_heap d)" using assms by (simp add: lease_inv_def heap_ok_def)
  have o: "on_heap ?d = on_heap d - {l}" using fh.set_delete [OF h, of l] by (simp add: on_heap_def)
  have "heap_ok ?d" using fh.inv_delete [OF h, of l] by (simp add: heap_ok_def lease_key_def)
  then have "lease_inv (set_tsched l TSCHED_NOT_ON_HEAP ?d)"
    using lease_invD(2) [OF assms] lease_ok_off [OF lease_invD(2) [OF assms, of l]]
    by (intro unschedule_inv) (simp_all add: o)
  with False o show ?thesis by (simp add: lease_unregister_def)
qed

lemma set_tend_inv:
  assumes "heap_ok d" "\<forall>x. x \<noteq> l \<longrightarrow> lease_ok (ld_mem d x) (x \<in> on_heap d)"
    and "lease_ok ((ld_mem d l)\<lparr>ls_tend := t\<rparr>) (l \<in> on_heap d)"
  shows "lease_inv (set_tend l t d)"
  using assms heap_ok_set_tend [OF assms(1)] by (auto simp: lease_inv_def)

lemma renew_inv:
  assumes "lease_inv d" "0 \<le> now" "now \<le> DDS_NEVER"
  shows "lease_inv (lease_renew l now d)"
proof -
  let ?t = "ddsrt_etime_add_duration now (ls_tdur (ld_mem d l))"
  note i = lease_invD [OF assms(1)]
  show ?thesis
  proof (cases "?t \<le> ls_tend (ld_mem d l) \<or> now \<ge> ls_tend (ld_mem d l)")
    case False
    then have "lease_ok ((ld_mem d l)\<lparr>ls_tend := ?t\<rparr>) (l \<in> on_heap d)"
      using i(2) [of l] add_duration_bounds [of now "ls_tdur (ld_mem d l)"] assms(2,3)
      by (auto simp: lease_ok_def ddsrt_etime_add_duration_def)
    with False i set_tend_inv [of d l ?t] show ?thesis by (simp add: lease_renew_def Let_def)
  qed (use assms(1) in \<open>auto simp: lease_renew_def Let_def\<close>)
qed

lemma set_expiry_inv:
  assumes "lease_inv d" "0 \<le> when" "when \<le> DDS_NEVER"
  shows "lease_inv (lease_set_expiry l when d)"
proof -
  note i = lease_invD [OF assms(1)]
  let ?x = "ld_mem d l"
  consider "when < ls_tsched ?x" | "\<not> when < ls_tsched ?x" "ls_tsched ?x = TSCHED_NOT_ON_HEAP" "when < DDS_NEVER"
    | "\<not> when < ls_tsched ?x" "\<not> (ls_tsched ?x = TSCHED_NOT_ON_HEAP \<and> when < DDS_NEVER)" by blast
  then show ?thesis
  proof cases
    case 1
    then have l: "l \<in> on_heap d" using i(2) [of l] assms(2) by (auto simp: lease_ok_def TSCHED_NOT_ON_HEAP_def)
    let ?d = "set_tsched l when (set_tend l when d)"
    have k: "lease_key ?d = (lease_key d)(l := when)" by (auto simp: lease_key_def)
    have h: "fh_inv (lease_key d) (ld_heap d)" using i(1) by (simp add: heap_ok_def)
    have le: "when \<le> lease_key d l" using 1 by (simp add: lease_key_def)
    let ?d' = "?d\<lparr>ld_heap := ddsrt_fibheap_decrease_key (lease_key ?d) l (ld_heap ?d)\<rparr>"
    have "heap_ok ?d'"
      using fh.inv_decrease_key [of "lease_key d" "ld_heap d" "when" l, OF h le] k by (simp add: heap_ok_def lease_key_def)
    moreover have "on_heap ?d' = on_heap d"
      using fh.nodes_decrease_key [of "lease_key d" "ld_heap d" "when" l, OF h le] k by (simp add: on_heap_def)
    moreover have "lease_ok (?x\<lparr>ls_tend := when, ls_tsched := when\<rparr>) True"
      using i(2) [of l] assms(2,3) not_on_heap_neg by (auto simp: lease_ok_def)
    ultimately have "lease_inv ?d'" using i(2) l by (auto simp: lease_inv_def)
    with 1 show ?thesis by (simp add: lease_set_expiry_def Let_def)
  next
    case 2
    then have l: "l \<notin> on_heap d" using i(2) [of l] by (auto simp: lease_ok_def)
    have "lease_ok (?x\<lparr>ls_tend := when, ls_tsched := when\<rparr>) True"
      using i(2) [of l] assms(2,3) not_on_heap_neg by (auto simp: lease_ok_def)
    then have "lease_inv (schedule l when (set_tend l when d))"
      using i l heap_ok_set_tend [OF i(1), of l "when"] by (intro schedule_inv) auto
    with 2 show ?thesis by (simp add: lease_set_expiry_def Let_def)
  next
    case 3
    have "lease_ok (?x\<lparr>ls_tend := when\<rparr>) (l \<in> on_heap d)"
      using i(2) [of l] assms(2,3) 3 by (auto simp: lease_ok_def)
    with i have "lease_inv (set_tend l when d)" by (intro set_tend_inv) auto
    moreover have "lease_set_expiry l when d = set_tend l when d"
      using 3 by (auto simp: lease_set_expiry_def Let_def)
    ultimately show ?thesis by simp
  qed
qed

section \<open>The check\<close>

definition due :: "int \<Rightarrow> lease_domain \<Rightarrow> lease_id set" where
  "due now d = {l \<in> on_heap d. ls_tsched (ld_mem d l) \<le> now}"

definition postponed :: "(lease_guid \<Rightarrow> bool) \<Rightarrow> lease \<Rightarrow> bool" where
  "postponed live x \<longleftrightarrow> ls_kind x = DDSI_EK_PROXY_PARTICIPANT \<and> live (ls_guid x)"

text \<open>What the check does with one lease that is due: when to look again, and whether it has expired.\<close>

definition tsched_after :: "(lease_guid \<Rightarrow> bool) \<Rightarrow> int \<Rightarrow> lease \<Rightarrow> int" where
  "tsched_after live now x =
     (if now < ls_tend x then (if ls_tend x = DDS_NEVER then TSCHED_NOT_ON_HEAP else ls_tend x)
      else if postponed live x then ddsrt_etime_add_duration now (DDS_MSECS 200) else TSCHED_NOT_ON_HEAP)"

definition expires :: "(lease_guid \<Rightarrow> bool) \<Rightarrow> int \<Rightarrow> lease \<Rightarrow> bool" where
  "expires live now x \<longleftrightarrow> ls_tend x \<le> now \<and> \<not> postponed live x"

lemma tsched_after_later:
  assumes "0 \<le> now" "now < DDS_NEVER" "tsched_after live now x \<noteq> TSCHED_NOT_ON_HEAP"
  shows "now < tsched_after live now x"
  using assms add_duration_later [of now "DDS_MSECS 200"]
  by (auto simp: tsched_after_def ddsrt_etime_add_duration_def time_consts split: if_splits)

lemma tsched_after_ok:
  assumes "0 \<le> now" "now < DDS_NEVER" "lease_ok x b"
  shows "lease_ok (x\<lparr>ls_tsched := tsched_after live now x\<rparr>) (tsched_after live now x \<noteq> TSCHED_NOT_ON_HEAP)"
  using assms add_duration_bounds [of now "DDS_MSECS 200"]
  by (auto simp: lease_ok_def tsched_after_def postponed_def ddsrt_etime_add_duration_def DDS_MSECS_def DDS_NSECS_IN_MSEC_def)

lemma heap_min:
  assumes "heap_ok d"
  shows "ddsrt_fibheap_min (ld_heap d) = None \<longleftrightarrow> on_heap d = {}"
    and "ddsrt_fibheap_min (ld_heap d) = Some l \<Longrightarrow> l \<in> on_heap d"
    and "ddsrt_fibheap_min (ld_heap d) = Some l \<Longrightarrow> x \<in> on_heap d \<Longrightarrow> ls_tsched (ld_mem d l) \<le> ls_tsched (ld_mem d x)"
  using assms fh.find_min_None [of "lease_key d" "ld_heap d"] fh.find_min_in [of "lease_key d" "ld_heap d" l]
    fh.find_min_le [of "lease_key d" "ld_heap d" l x]
  by (simp_all add: heap_ok_def on_heap_def lease_key_def)

lemma finite_due [simp]: "finite (due now d)"
  by (simp add: due_def on_heap_def)

lemma round_None:
  assumes "lease_inv d" "lease_check_round live now d = None"
  shows "due now d = {}"
  using assms(2) heap_min [OF lease_invD(1) [OF assms(1)]]
  by (fastforce simp: lease_check_round_def due_def Let_def split: option.splits if_splits)

lemma round_Some:
  assumes i: "lease_inv d" and now: "0 \<le> now" "now < DDS_NEVER" and r: "lease_check_round live now d = Some (d', ev)"
  obtains l where "l \<in> due now d" "\<forall>x\<in>on_heap d. ls_tsched (ld_mem d l) \<le> ls_tsched (ld_mem d x)"
    "lease_inv d'" "due now d' = due now d - {l}"
    "ld_mem d' = (ld_mem d)(l := (ld_mem d l)\<lparr>ls_tsched := tsched_after live now (ld_mem d l)\<rparr>)"
    "ev = (if expires live now (ld_mem d l) then Some (l, lease_expired (ld_mem d l)) else None)"
proof -
  obtain l where m: "ddsrt_fibheap_min (ld_heap d) = Some l" and t: "ls_tsched (ld_mem d l) \<le> now"
    using r by (auto simp: lease_check_round_def Let_def split: option.splits if_splits)
  note i' = lease_invD [OF i] note mn = heap_min [OF i'(1)]
  let ?x = "ld_mem d l"
  let ?a = "tsched_after live now ?x"
  let ?d = "d\<lparr>ld_heap := snd (ddsrt_fibheap_extract_min (lease_key d) (ld_heap d))\<rparr>"
  have h: "fh_inv (lease_key d) (ld_heap d)" using i'(1) by (simp add: heap_ok_def)
  have d: "heap_ok ?d" "on_heap ?d = on_heap d - {l}"
    using fh.inv_extract_min [OF h] fh.set_extract_min [OF h m] by (simp_all add: heap_ok_def on_heap_def lease_key_def)
  have rest: "\<forall>x. x \<noteq> l \<longrightarrow> lease_ok (ld_mem ?d x) (x \<in> on_heap ?d)" using i'(2) d(2) by simp
  note ok = tsched_after_ok [OF now i'(2) [of l], of live]
  have ev: "d' = (if ?a = TSCHED_NOT_ON_HEAP then set_tsched l ?a ?d else schedule l ?a ?d)"
      "ev = (if expires live now ?x then Some (l, lease_expired ?x) else None)"
    using r m t i'(2) [of l] not_on_heap_neg add_duration_bounds [of now "DDS_MSECS 200"] now
    by (auto simp: lease_check_round_def Let_def tsched_after_def expires_def postponed_def lease_ok_def
      ddsrt_etime_add_duration_def DDS_MSECS_def DDS_NSECS_IN_MSEC_def split: if_splits)
  have l: "l \<notin> on_heap ?d" using d(2) by simp
  have inv: "lease_inv d'"
    using unschedule_inv [OF d(1) l rest] schedule_inv [OF d(1) l rest] ok ev(1) by auto
  have mem: "ld_mem d' = (ld_mem d)(l := ?x\<lparr>ls_tsched := ?a\<rparr>)" using ev(1) by simp
  have "on_heap d' = (if ?a = TSCHED_NOT_ON_HEAP then on_heap d - {l} else on_heap d)"
    using ev(1) d(2) schedule_spec [OF d(1) l, of ?a] mn(2) [OF m] by auto
  then have "due now d' = due now d - {l}"
    using mem tsched_after_later [OF now, of live ?x] by (auto simp: due_def)
  then show ?thesis using that [of l] m t mn(2,3) inv mem ev(2) by (auto simp: due_def)
qed

text \<open>The check when nothing interferes: it ends, and does to every lease that is due what it should.\<close>

definition check_result ::
  "(lease_guid \<Rightarrow> bool) \<Rightarrow> int \<Rightarrow> lease_domain \<Rightarrow> lease_domain \<Rightarrow> (lease_id \<times> lease_event) list \<Rightarrow> bool" where
  "check_result live now d d' evs \<longleftrightarrow> lease_inv d' \<and> due now d' = {}
     \<and> ld_mem d' = (\<lambda>l. if l \<in> due now d then (ld_mem d l)\<lparr>ls_tsched := tsched_after live now (ld_mem d l)\<rparr> else ld_mem d l)
     \<and> mset evs = image_mset (\<lambda>l. (l, lease_expired (ld_mem d l))) (mset_set {l \<in> due now d. expires live now (ld_mem d l)})
     \<and> sorted (map (\<lambda>(l, _). ls_tsched (ld_mem d l)) evs)"

lemma check_step:
  assumes "l \<in> due now d" "\<forall>x\<in>on_heap d. ls_tsched (ld_mem d l) \<le> ls_tsched (ld_mem d x)"
    "due now d1 = due now d - {l}"
    "ld_mem d1 = (ld_mem d)(l := (ld_mem d l)\<lparr>ls_tsched := tsched_after live now (ld_mem d l)\<rparr>)"
    "ev = (if expires live now (ld_mem d l) then Some (l, lease_expired (ld_mem d l)) else None)"
    and c: "check_result live now d1 d2 evs"
  shows "check_result live now d d2 (case ev of None \<Rightarrow> evs | Some e \<Rightarrow> e # evs)"
proof -
  let ?E = "\<lambda>d. {l \<in> due now d. expires live now (ld_mem d l)}"
  let ?f = "\<lambda>d l. (l, lease_expired (ld_mem d l))"
  have same: "ld_mem d1 x = ld_mem d x" if "x \<noteq> l" for x using that assms(4) by simp
  have E: "?E d1 = ?E d - {l}" using assms(3) same by auto
  have im: "image_mset (?f d1) (mset_set (?E d1)) = image_mset (?f d) (mset_set (?E d - {l}))"
    unfolding E by (rule image_mset_cong) (simp add: same)
  have ms: "mset evs = image_mset (?f d) (mset_set (?E d - {l}))" using c im by (simp add: check_result_def)
  have "set evs \<subseteq> ?f d ` (?E d - {l})" using arg_cong [OF ms, of set_mset] by simp
  then have low: "fst e \<noteq> l \<and> ls_tsched (ld_mem d l) \<le> ls_tsched (ld_mem d (fst e))" if "e \<in> set evs" for e
    using that assms(2) by (fastforce simp: due_def)
  have "map (\<lambda>(l, _). ls_tsched (ld_mem d1 l)) evs = map (\<lambda>(l, _). ls_tsched (ld_mem d l)) evs"
    using low same by (intro map_cong refl) (auto simp: case_prod_unfold)
  then have so: "sorted (map (\<lambda>(l, _). ls_tsched (ld_mem d l)) evs)" using c by (simp add: check_result_def del: map_eq_conv)
  have mem: "ld_mem d2 = (\<lambda>x. if x \<in> due now d then (ld_mem d x)\<lparr>ls_tsched := tsched_after live now (ld_mem d x)\<rparr> else ld_mem d x)"
    using c assms(1,3,4) by (auto simp: check_result_def fun_eq_iff)
  show ?thesis
  proof (cases "expires live now (ld_mem d l)")
    case True
    then have "mset_set (?E d) = add_mset l (mset_set (?E d - {l}))"
      using assms(1) by (intro mset_set.remove) auto
    with True show ?thesis using c ms so low mem assms(5) by (auto simp: check_result_def)
  next
    case False
    then have "?E d - {l} = ?E d" by auto
    with False show ?thesis using c ms so mem assms(5) by (simp add: check_result_def)
  qed
qed

lemma check_loop_spec:
  assumes "lease_inv d" "0 \<le> now" "now < DDS_NEVER"
  shows "\<exists>d' evs. lease_check_loop live now d = Some (d', evs) \<and> check_result live now d d' evs"
  using assms(1)
proof (induction "card (due now d)" arbitrary: d rule: less_induct)
  case less
  show ?case
  proof (cases "lease_check_round live now d")
    case None
    then show ?thesis using round_None [OF less.prems] less.prems
      by (auto simp: lease_check_loop.simps [of live now d] check_result_def)
  next
    case (Some r)
    obtain d1 ev where r: "r = (d1, ev)" by fastforce
    note s = Some [unfolded r]
    obtain l where l: "l \<in> due now d"
        "\<forall>x\<in>on_heap d. ls_tsched (ld_mem d l) \<le> ls_tsched (ld_mem d x)" "lease_inv d1" "due now d1 = due now d - {l}"
        "ld_mem d1 = (ld_mem d)(l := (ld_mem d l)\<lparr>ls_tsched := tsched_after live now (ld_mem d l)\<rparr>)"
        "ev = (if expires live now (ld_mem d l) then Some (l, lease_expired (ld_mem d l)) else None)"
      by (rule round_Some [OF less.prems assms(2,3) s]) blast
    have "card (due now d1) < card (due now d)" using l(1,4) card_Diff1_less [OF finite_due l(1)] by simp
    from less.hyps [OF this l(3)] obtain d2 evs where
      ih: "lease_check_loop live now d1 = Some (d2, evs)" "check_result live now d1 d2 evs" by blast
    with s show ?thesis
      using check_step [OF l(1,2) l(4,5,6) ih(2)] by (simp add: lease_check_loop.simps [of live now d])
  qed
qed

section \<open>Runs\<close>

text \<open>
  Any interleaving of the operations and of the rounds of the check. \<open>lease_op_ok\<close> holds the asserts
  and the callers' obligations: times are non-negative, only a lease off the heap is registered, and
  a new lease is put into memory that is no lease on the heap.
\<close>

datatype lease_op = LNew lease_id int int lease_guid ddsi_entity_kind | LClone lease_id lease_id
  | LRegister lease_id | LUnregister lease_id | LRenew lease_id int | LSetExpiry lease_id int
  | LRound "lease_guid \<Rightarrow> bool" int

definition put_lease :: "lease_id \<Rightarrow> lease \<Rightarrow> lease_domain \<Rightarrow> lease_domain" where
  "put_lease l x d = d\<lparr>ld_mem := (ld_mem d)(l := x)\<rparr>"

fun lease_step :: "lease_op \<Rightarrow> lease_domain \<Rightarrow> lease_domain \<times> (lease_id \<times> lease_event) list" where
  "lease_step (LNew l texpire tdur g k) d = (put_lease l (lease_new texpire tdur g k) d, [])"
| "lease_step (LClone l' l) d = (put_lease l' (lease_clone (ld_mem d l)) d, [])"
| "lease_step (LRegister l) d = (lease_register l d, [])"
| "lease_step (LUnregister l) d = (lease_unregister l d, [])"
| "lease_step (LRenew l t) d = (lease_renew l t d, [])"
| "lease_step (LSetExpiry l t) d = (lease_set_expiry l t d, [])"
| "lease_step (LRound live now) d =
     (case lease_check_round live now d of None \<Rightarrow> (d, [])
      | Some (d', ev) \<Rightarrow> (d', case ev of None \<Rightarrow> [] | Some e \<Rightarrow> [e]))"

fun lease_op_ok :: "lease_op \<Rightarrow> lease_domain \<Rightarrow> bool" where
  "lease_op_ok (LNew l texpire tdur g k) d \<longleftrightarrow> l \<notin> on_heap d \<and> 0 \<le> texpire \<and> texpire \<le> DDS_NEVER \<and> 0 \<le> tdur"
| "lease_op_ok (LClone l' l) d \<longleftrightarrow> l' \<notin> on_heap d"
| "lease_op_ok (LRegister l) d \<longleftrightarrow> l \<notin> on_heap d"
| "lease_op_ok (LUnregister l) d \<longleftrightarrow> True"
| "lease_op_ok (LRenew l t) d \<longleftrightarrow> 0 \<le> t \<and> t \<le> DDS_NEVER"
| "lease_op_ok (LSetExpiry l t) d \<longleftrightarrow> 0 \<le> t \<and> t \<le> DDS_NEVER"
| "lease_op_ok (LRound live now) d \<longleftrightarrow> 0 \<le> now \<and> now < DDS_NEVER"

fun lease_run :: "lease_domain \<Rightarrow> lease_op list \<Rightarrow> lease_domain \<times> (lease_id \<times> lease_event) list" where
  "lease_run d [] = (d, [])"
| "lease_run d (op # ops) =
     (case lease_step op d of (d1, evs) \<Rightarrow> case lease_run d1 ops of (d2, evs') \<Rightarrow> (d2, evs @ evs'))"

fun lease_ops_ok :: "lease_domain \<Rightarrow> lease_op list \<Rightarrow> bool" where
  "lease_ops_ok d [] \<longleftrightarrow> True"
| "lease_ops_ok d (op # ops) \<longleftrightarrow> lease_op_ok op d \<and> lease_ops_ok (fst (lease_step op d)) ops"

lemma put_lease_simps [simp]:
  "ld_mem (put_lease l x d) = (ld_mem d)(l := x)" "on_heap (put_lease l x d) = on_heap d"
  by (simp_all add: put_lease_def on_heap_def)

lemma put_lease_inv: "lease_inv d \<Longrightarrow> l \<notin> on_heap d \<Longrightarrow> lease_ok x False \<Longrightarrow> lease_inv (put_lease l x d)"
  unfolding lease_inv_def put_lease_simps by (auto intro: heap_ok_mem [of d] simp: put_lease_def)

lemma lease_new_ok:
  "0 \<le> texpire \<Longrightarrow> texpire \<le> DDS_NEVER \<Longrightarrow> 0 \<le> tdur \<Longrightarrow> lease_ok (lease_new texpire tdur g k) False"
  "lease_ok x b \<Longrightarrow> lease_ok (lease_clone x) False"
  by (simp_all add: lease_ok_def lease_new_def lease_clone_def)

lemma step_inv:
  assumes "lease_inv d" "lease_op_ok op d"
  shows "lease_inv (fst (lease_step op d))"
proof (cases op)
  case (LRound live now)
  then show ?thesis using assms by (auto split: option.splits elim: round_Some)
qed (use assms lease_invD(2) [OF assms(1)] in
  \<open>auto simp: register_inv unregister_inv renew_inv set_expiry_inv intro!: put_lease_inv lease_new_ok\<close>)

lemma run_inv: "lease_inv d \<Longrightarrow> lease_ops_ok d ops \<Longrightarrow> lease_inv (fst (lease_run d ops))"
  using step_inv by (induction ops arbitrary: d) (simp_all add: case_prod_unfold)

lemma init_inv: "\<forall>l. lease_ok (mem l) False \<Longrightarrow> lease_inv (lease_management_init mem)"
  by (simp add: lease_inv_def heap_ok_def on_heap_def lease_management_init_def fh.inv_empty fh.nodes_empty)

text \<open>The operations that give a lease a new, possibly earlier, end.\<close>

fun sets_end :: "lease_id \<Rightarrow> lease_op \<Rightarrow> bool" where
  "sets_end l (LNew l' _ _ _ _) \<longleftrightarrow> l' = l"
| "sets_end l (LClone l' _) \<longleftrightarrow> l' = l"
| "sets_end l (LSetExpiry l' _) \<longleftrightarrow> l' = l"
| "sets_end l op \<longleftrightarrow> False"

lemma round_mem:
  "lease_check_round live now d = Some (d', ev) \<Longrightarrow>
     (\<forall>l. ls_tend (ld_mem d' l) = ls_tend (ld_mem d l) \<and> ls_kind (ld_mem d' l) = ls_kind (ld_mem d l)
        \<and> ls_guid (ld_mem d' l) = ls_guid (ld_mem d l)) \<and>
     (\<forall>l e. ev = Some (l, e) \<longrightarrow> ls_tend (ld_mem d l) \<le> now)"
  by (auto simp: lease_check_round_def Let_def split: option.splits if_splits)

text \<open>Otherwise \<open>tend\<close> only moves into the future, by a renewal of a lease that has not ended.\<close>

lemma step_tend:
  assumes "\<not> sets_end l op"
  shows "ls_tend (ld_mem d l) \<le> ls_tend (ld_mem (fst (lease_step op d)) l)
    \<and> ls_kind (ld_mem (fst (lease_step op d)) l) = ls_kind (ld_mem d l)
    \<and> ls_guid (ld_mem (fst (lease_step op d)) l) = ls_guid (ld_mem d l)
    \<and> ((\<forall>t. op = LRenew l t \<longrightarrow> ls_tend (ld_mem d l) \<le> t) \<longrightarrow> ls_tend (ld_mem (fst (lease_step op d)) l) = ls_tend (ld_mem d l))"
proof (cases op)
  case (LRound live now)
  then show ?thesis using round_mem [of live now d] by (fastforce split: option.splits prod.splits)
qed (use assms in \<open>auto simp: lease_register_def lease_unregister_def lease_renew_def lease_set_expiry_def Let_def\<close>)

lemma step_event:
  "(l, e) \<in> set (snd (lease_step op d)) \<Longrightarrow> \<exists>live now. op = LRound live now \<and> ls_tend (ld_mem d l) \<le> now"
  using round_mem by (cases op) (fastforce split: option.splits)+

lemma run_no_event:
  assumes "\<forall>op\<in>set ops. \<not> sets_end l op" "\<forall>live now. LRound live now \<in> set ops \<longrightarrow> now < ls_tend (ld_mem d l)"
  shows "(l, e) \<notin> set (snd (lease_run d ops))"
  using assms
proof (induction ops arbitrary: d)
  case (Cons op ops)
  obtain d1 evs where s: "lease_step op d = (d1, evs)" by fastforce
  have "ls_tend (ld_mem d l) \<le> ls_tend (ld_mem d1 l)" using step_tend [of l op d] Cons.prems(1) s by simp
  then have "(l, e) \<notin> set (snd (lease_run d1 ops))" using Cons.prems by (intro Cons.IH) (auto intro: less_le_trans)
  moreover have "(l, e) \<notin> set evs" using step_event [of l e op d] Cons.prems(2) s by fastforce
  ultimately show ?case using s by (auto split: prod.splits)
qed simp

lemma run_tend_same:
  assumes "\<forall>op\<in>set ops. \<not> sets_end l op \<and> (\<forall>t. op = LRenew l t \<longrightarrow> ls_tend (ld_mem d l) \<le> t)"
  shows "ls_tend (ld_mem (fst (lease_run d ops)) l) = ls_tend (ld_mem d l)
    \<and> ls_kind (ld_mem (fst (lease_run d ops)) l) = ls_kind (ld_mem d l)
    \<and> ls_guid (ld_mem (fst (lease_run d ops)) l) = ls_guid (ld_mem d l)"
  using assms
proof (induction ops arbitrary: d)
  case (Cons op ops)
  then show ?case using step_tend [of l op d] Cons.IH [of "fst (lease_step op d)"]
    by (auto simp: case_prod_unfold)
qed simp

section \<open>Properties\<close>

lemma check_spec:
  assumes "lease_inv d" "0 \<le> now" "now < DDS_NEVER"
  obtains d' evs where "check_and_handle_lease_expiration live now d = Some (d', evs, lease_delay now d')"
    "check_result live now d d' evs"
  using check_loop_spec [OF assms, of live] that by (auto simp: check_and_handle_lease_expiration_def)

lemma check_result_event:
  assumes "check_result live now d d' evs"
  shows "(l, e) \<in> set evs \<longleftrightarrow> l \<in> due now d \<and> expires live now (ld_mem d l) \<and> e = lease_expired (ld_mem d l)"
proof -
  have "mset evs = image_mset (\<lambda>l. (l, lease_expired (ld_mem d l))) (mset_set {l \<in> due now d. expires live now (ld_mem d l)})"
    using assms by (simp add: check_result_def)
  from arg_cong [OF this, of set_mset] show ?thesis by (auto simp: set_eq_iff)
qed

lemma check_result_distinct:
  assumes "check_result live now d d' evs"
  shows "distinct (map fst evs)"
proof -
  let ?E = "{l \<in> due now d. expires live now (ld_mem d l)}"
  have "mset evs = image_mset (\<lambda>l. (l, lease_expired (ld_mem d l))) (mset_set ?E)"
    using assms by (simp add: check_result_def)
  then have e: "mset (map fst evs) = mset_set ?E"
    unfolding mset_map by (simp add: multiset.map_comp comp_def)
  have "finite ?E" by simp
  then have "set (map fst evs) = ?E" using arg_cong [OF e, of set_mset] by (simp add: set_eq_iff)
  then show ?thesis unfolding distinct_count_atmost_1 e by (simp add: count_mset_set')
qed

lemma delay_spec:
  assumes "lease_inv d" "due now d = {}"
  shows "(on_heap d = {} \<longrightarrow> lease_delay now d = DDS_INFINITY)
    \<and> (\<forall>l\<in>on_heap d. now < now + lease_delay now d \<and> now + lease_delay now d \<le> ls_tsched (ld_mem d l))"
  using heap_min [OF lease_invD(1) [OF assms(1)]] assms(2)
  by (cases "ddsrt_fibheap_min (ld_heap d)") (auto simp: lease_delay_def due_def not_le)

lemma due_intro:
  "lease_inv d \<Longrightarrow> l \<in> on_heap d \<Longrightarrow> ls_kind (ld_mem d l) \<noteq> DDSI_EK_PROXY_PARTICIPANT \<Longrightarrow> ls_tend (ld_mem d l) \<le> now \<Longrightarrow>
     l \<in> due now d"
  using lease_invD(2) [of d l] by (auto simp: due_def lease_ok_def)

text \<open>C24: In every run of the lease administration, the operations of entities and the rounds of the expiry
  check interleaved in any way, the heap is a correct priority queue for the times now in memory, a lease is on
  it exactly when its \<open>tsched\<close> is not the "not on heap" mark, and every lease that can end is looked at no later
  than its end, except a proxy participant's, whose expiry may have been postponed.\<close>

theorem lease_run_invariant:
  assumes "\<forall>l. lease_ok (mem l) False" "lease_ops_ok (lease_management_init mem) ops"
  shows "lease_inv (fst (lease_run (lease_management_init mem) ops))"
  using run_inv [OF init_inv assms(2)] assms(1) by simp

definition demo_lease :: lease where
  "demo_lease = lease_new 50 100 7 DDSI_EK_PROXY_WRITER"

definition demo_ops :: "lease_op list" where
  "demo_ops = [LNew 2 30 100 9 DDSI_EK_PROXY_PARTICIPANT, LRegister 1, LRegister 2, LRenew 1 10, LRound (\<lambda>g. True) 60]"

lemma demo_lease_ok: "lease_ok demo_lease False"
  by (simp add: demo_lease_def lease_new_def lease_ok_def time_consts)

lemma demo_ops_ok: "lease_ops_ok (lease_management_init (\<lambda>l. demo_lease)) demo_ops"
  unfolding demo_ops_def by code_simp

theorem lease_run_invariant_witness:
  "lease_inv (fst (lease_run (lease_management_init (\<lambda>l. demo_lease)) demo_ops))"
  by (rule lease_run_invariant) (simp_all add: demo_lease_ok demo_ops_ok)

text \<open>C25: The expiry check always ends. It handles, each once and in the order of the times they were scheduled
  for, exactly the leases on the heap that are due and have ended, leaving out proxy participants whose
  privileged participant is live; in particular every ended lease of a writer or proxy writer. It leaves \<open>tend\<close>
  alone, keeps the invariant, and returns a positive delay within which no scheduled lease becomes due, and no
  lease but a proxy participant's ends.\<close>

theorem lease_check_exact:
  assumes "lease_inv d" "0 \<le> now" "now < DDS_NEVER"
  shows "\<exists>d' evs delay. check_and_handle_lease_expiration live now d = Some (d', evs, delay)
    \<and> distinct (map fst evs) \<and> sorted (map (\<lambda>(l, _). ls_tsched (ld_mem d l)) evs)
    \<and> (\<forall>l e. (l, e) \<in> set evs \<longleftrightarrow> l \<in> on_heap d \<and> ls_tsched (ld_mem d l) \<le> now \<and> ls_tend (ld_mem d l) \<le> now
         \<and> \<not> (ls_kind (ld_mem d l) = DDSI_EK_PROXY_PARTICIPANT \<and> live (ls_guid (ld_mem d l))) \<and> e = lease_expired (ld_mem d l))
    \<and> (\<forall>l\<in>on_heap d. ls_kind (ld_mem d l) \<noteq> DDSI_EK_PROXY_PARTICIPANT \<and> ls_tend (ld_mem d l) \<le> now \<longrightarrow>
         (l, lease_expired (ld_mem d l)) \<in> set evs)
    \<and> lease_inv d' \<and> (\<forall>l. ls_tend (ld_mem d' l) = ls_tend (ld_mem d l))
    \<and> 0 < delay
    \<and> (\<forall>l\<in>on_heap d'. now + delay \<le> ls_tsched (ld_mem d' l)
         \<and> (ls_kind (ld_mem d' l) \<noteq> DDSI_EK_PROXY_PARTICIPANT \<longrightarrow> now + delay \<le> ls_tend (ld_mem d' l)))"
proof -
  obtain d' evs where c: "check_and_handle_lease_expiration live now d = Some (d', evs, lease_delay now d')"
    "check_result live now d d' evs" by (rule check_spec [OF assms])
  have r: "lease_inv d'" "due now d' = {}" "\<forall>l. ls_tend (ld_mem d' l) = ls_tend (ld_mem d l)"
      "sorted (map (\<lambda>(l, _). ls_tsched (ld_mem d l)) evs)"
    using c(2) by (simp_all add: check_result_def)
  have "distinct (map fst evs)" by (rule check_result_distinct [OF c(2)])
  moreover have "0 < lease_delay now d'" using delay_spec [OF r(1,2)] by (cases "on_heap d' = {}") (auto simp: DDS_INFINITY_def)
  moreover have "ls_tsched (ld_mem d' l) \<le> ls_tend (ld_mem d' l)"
    if "l \<in> on_heap d'" "ls_kind (ld_mem d' l) \<noteq> DDSI_EK_PROXY_PARTICIPANT" for l
    using lease_invD(2) [OF r(1), of l] that by (simp add: lease_ok_def)
  then have "\<forall>l\<in>on_heap d'. now + lease_delay now d' \<le> ls_tsched (ld_mem d' l)
      \<and> (ls_kind (ld_mem d' l) \<noteq> DDSI_EK_PROXY_PARTICIPANT \<longrightarrow> now + lease_delay now d' \<le> ls_tend (ld_mem d' l))"
    using delay_spec [OF r(1,2)] by (meson order_trans)
  moreover have "(l, e) \<in> set evs \<longleftrightarrow> l \<in> on_heap d \<and> ls_tsched (ld_mem d l) \<le> now \<and> ls_tend (ld_mem d l) \<le> now
      \<and> \<not> (ls_kind (ld_mem d l) = DDSI_EK_PROXY_PARTICIPANT \<and> live (ls_guid (ld_mem d l))) \<and> e = lease_expired (ld_mem d l)"
    for l e by (auto simp: check_result_event [OF c(2)] due_def expires_def postponed_def)
  moreover have "\<forall>l\<in>on_heap d. ls_kind (ld_mem d l) \<noteq> DDSI_EK_PROXY_PARTICIPANT \<and> ls_tend (ld_mem d l) \<le> now \<longrightarrow>
      (l, lease_expired (ld_mem d l)) \<in> set evs"
    using due_intro [OF assms(1)] by (simp add: check_result_event [OF c(2)] expires_def postponed_def)
  ultimately show ?thesis using c(1) r by auto
qed

theorem lease_check_exact_witness:
  "\<exists>d' evs delay. check_and_handle_lease_expiration (\<lambda>g. True) 60
      (fst (lease_run (lease_management_init (\<lambda>l. demo_lease)) demo_ops)) = Some (d', evs, delay) \<and> 0 < delay"
  using lease_check_exact [OF run_inv [OF init_inv demo_ops_ok], of 60 "\<lambda>g. True"] demo_lease_ok
  by (auto simp: DDS_NEVER_def)

text \<open>C26: A renewal protects: after a sign of life at a time before the lease ended, whatever else happens to
  this and other leases, no check before that time plus the lease duration finds the lease expired, unless its
  end is set anew explicitly.\<close>

theorem lease_renewal_protects:
  assumes "t < ls_tend (ld_mem d l)" "\<forall>op\<in>set ops. \<not> sets_end l op"
    and "\<forall>live now. LRound live now \<in> set ops \<longrightarrow> now < ddsrt_etime_add_duration t (ls_tdur (ld_mem d l))"
  shows "(l, e) \<notin> set (snd (lease_run (lease_renew l t d) ops))"
proof (rule run_no_event [OF assms(2)], intro allI impI)
  fix live now
  assume "LRound live now \<in> set ops"
  then have "now < ddsrt_etime_add_duration t (ls_tdur (ld_mem d l))" using assms(3) by blast
  then show "now < ls_tend (ld_mem (lease_renew l t d) l)" using assms(1) by (auto simp: lease_renew_def Let_def)
qed

theorem lease_renewal_protects_witness:
  "(1, Proxy_writer_set_notalive 7) \<notin> set (snd (lease_run (lease_renew 1 40 (lease_register 1 (lease_management_init (\<lambda>l. demo_lease))))
      [LRound (\<lambda>g. True) 60, LRenew 1 100, LRound (\<lambda>g. False) 139]))"
  by (rule lease_renewal_protects)
    (auto simp: lease_register_def lease_management_init_def demo_lease_def lease_new_def ddsrt_etime_add_duration_def
      ddsrt_time_add_duration_def time_consts Let_def)

text \<open>Postponing is not renewing: once a lease's end has passed, no sign of life changes its \<open>tend\<close> any more,
  whatever else happens. In particular, after a proxy participant's expiry was postponed, the first check that
  finds its privileged participant gone deletes it, even when it renewed its lease at that very moment.\<close>

theorem lease_postponed_never_renewed:
  assumes "lease_inv d" "lease_ops_ok d ops" "\<forall>op\<in>set ops. \<not> sets_end l op \<and> (\<forall>t. op = LRenew l t \<longrightarrow> ls_tend (ld_mem d l) \<le> t)"
    and "ls_tend (ld_mem d l) \<le> now" "0 \<le> now" "now < DDS_NEVER"
    and "l \<in> on_heap (fst (lease_run d ops))" "ls_tsched (ld_mem (fst (lease_run d ops)) l) \<le> now"
    and "\<not> live (ls_guid (ld_mem d l))"
  shows "ls_tend (ld_mem (fst (lease_run d ops)) l) = ls_tend (ld_mem d l)
    \<and> (\<exists>d' evs delay. check_and_handle_lease_expiration live now (lease_renew l now (fst (lease_run d ops))) = Some (d', evs, delay)
         \<and> (l, lease_expired (ld_mem d l)) \<in> set evs)"
proof -
  let ?d = "fst (lease_run d ops)"
  note same = run_tend_same [OF assms(3)]
  then have r: "lease_renew l now ?d = ?d" using assms(4) by (simp add: lease_renew_def Let_def)
  obtain d' evs where c: "check_and_handle_lease_expiration live now ?d = Some (d', evs, lease_delay now d')"
    "check_result live now ?d d' evs" by (rule check_spec [OF run_inv [OF assms(1,2)] assms(5,6)])
  have "lease_expired (ld_mem ?d l) = lease_expired (ld_mem d l)" using same by (simp add: lease_expired_def split: ddsi_entity_kind.split)
  then have "(l, lease_expired (ld_mem d l)) \<in> set evs"
    using same assms(4,7-9) by (simp add: check_result_event [OF c(2)] due_def expires_def postponed_def)
  with c(1) r same show ?thesis by auto
qed

theorem lease_postponed_never_renewed_witness:
  "\<exists>d' evs delay. check_and_handle_lease_expiration (\<lambda>g. False) 200000060
      (lease_renew 2 200000060 (fst (lease_run (lease_register 2 (put_lease 2
         (lease_new 30 100 9 DDSI_EK_PROXY_PARTICIPANT) (lease_management_init (\<lambda>l. demo_lease))))
       [LRound (\<lambda>g. True) 60, LRenew 2 70]))) = Some (d', evs, delay) \<and> (2, Delete_proxy_participant 9) \<in> set evs"
proof -
  let ?init = "lease_management_init (\<lambda>l. demo_lease)" and ?x = "lease_new 30 100 9 DDSI_EK_PROXY_PARTICIPANT"
  let ?d = "lease_register 2 (put_lease 2 ?x ?init)" and ?ops = "[LRound (\<lambda>g. True) 60, LRenew 2 70]"
  have 1: "2 \<notin> on_heap ?init" by (simp add: on_heap_def lease_management_init_def fh.nodes_empty)
  have 2: "lease_ok ?x False" by code_simp
  have i: "lease_inv ?d" by (intro register_inv put_lease_inv init_inv) (simp_all add: 1 2 demo_lease_ok)
  have ok: "lease_ops_ok ?d ?ops" by code_simp
  have m: "ld_mem ?d 2 = ?x\<lparr>ls_tsched := 30\<rparr>" by code_simp
  have h: "2 \<in> on_heap (fst (lease_run ?d ?ops))" by code_simp
  have s: "ls_tsched (ld_mem (fst (lease_run ?d ?ops)) 2) \<le> 200000060" by code_simp
  have e: "lease_expired (ld_mem ?d 2) = Delete_proxy_participant 9" unfolding m by code_simp
  have n: "\<forall>op\<in>set ?ops. \<not> sets_end 2 op \<and> (\<forall>t. op = LRenew 2 t \<longrightarrow> ls_tend (ld_mem ?d 2) \<le> t)"
    unfolding m by (simp add: lease_new_def)
  have now: "ls_tend (ld_mem ?d 2) \<le> 200000060" unfolding m by (simp add: lease_new_def)
  show ?thesis
    using lease_postponed_never_renewed [OF i ok n now _ _ h s, of "\<lambda>g. False", THEN conjunct2]
    unfolding e by (simp add: DDS_NEVER_def)
qed

end
