(* ===== verification/Rbuf.thy ===== *)
theory Rbuf
  imports Rmsg "HOL-Library.Monad_Syntax"
begin

text \<open>
  Receive buffers: RBUFPOOL, RBUF and the memory side of RMSG in core/ddsi/src/q_radmin.c.

  The heap is a part of the pool: \<open>bp_bufs\<close> holds the allocated buffers, \<open>bp_msgs\<close> the messages
  that live in them. A pointer into a buffer is the buffer and an offset into \<open>raw\<close>. A chunk of a
  message is named by the place of its header; the first one is embedded at the end of the
  \<open>nn_rmsg\<close>, so that \<open>chunk + 1\<close> is its payload as it is for the others. The \<open>next\<close> links are the
  order of a list whose last element is \<open>lastchunk\<close>. Operations are partial: \<open>None\<close> is an access
  to memory that is not allocated. The address \<open>malloc\<close> returns is an argument (\<open>b\<close>), and so is
  the name of a new message; \<open>malloc\<close> does not fail (it aborts), and the debugging checks of the
  owner thread are left out. Sizes are of 64-bit targets.
\<close>

type_synonym rbuf_id = nat

record nn_rbuf =
  rb_n_live_rmsg_chunks :: nat
  rb_size :: nat
  rb_max_rmsg_size :: nat
  rb_freeptr :: nat

record nn_rmsg_chunk =
  ck_rbuf :: rbuf_id
  ck_off :: nat
  ck_size :: nat

record nn_rmsg =
  rm_refcount :: int
  rm_chunks :: "nn_rmsg_chunk list"

record nn_rbufpool =
  bp_current :: rbuf_id
  bp_rbuf_size :: nat
  bp_max_rmsg_size :: nat
  bp_bufs :: "rbuf_id \<rightharpoonup> nn_rbuf"
  bp_msgs :: "rmsg_id \<rightharpoonup> nn_rmsg"

definition sizeof_rmsg_chunk :: nat where "sizeof_rmsg_chunk = 24"
definition offsetof_rmsg_chunk :: nat where "offsetof_rmsg_chunk = 24"
definition ALIGNOF_RMSG :: nat where "ALIGNOF_RMSG = 8"

definition align_rmsg :: "nat \<Rightarrow> nat" where
  "align_rmsg x = (let x' = (x + ALIGNOF_RMSG - 1) mod 2 ^ 32 in x' - x' mod ALIGNOF_RMSG)"

definition max_uint32 :: "nat \<Rightarrow> nat \<Rightarrow> nat" where
  "max_uint32 a b = (if a \<ge> b then a else b)"

definition max_rmsg_size_w_hdr :: "nat \<Rightarrow> nat" where
  "max_rmsg_size_w_hdr max_rmsg_size =
     (max_uint32 (offsetof_rmsg_chunk + sizeof_rmsg_chunk) sizeof_rmsg_chunk + max_rmsg_size) mod 2 ^ 32"

section \<open>Buffers\<close>

definition nn_rbuf_alloc_new :: "rbuf_id \<Rightarrow> nn_rbufpool \<Rightarrow> nn_rbufpool" where
  "nn_rbuf_alloc_new b p =
     p\<lparr>bp_bufs := (bp_bufs p)(b \<mapsto>
        \<lparr>rb_n_live_rmsg_chunks = 1, rb_size = bp_rbuf_size p, rb_max_rmsg_size = bp_max_rmsg_size p, rb_freeptr = 0\<rparr>)\<rparr>"

definition nn_rbufpool_new :: "rbuf_id \<Rightarrow> nat \<Rightarrow> nat \<Rightarrow> nn_rbufpool" where
  "nn_rbufpool_new b rbuf_size max_rmsg_size =
     (let rbuf_size' = (if rbuf_size < max_rmsg_size_w_hdr max_rmsg_size then max_rmsg_size_w_hdr max_rmsg_size else rbuf_size)
      in nn_rbuf_alloc_new b
           \<lparr>bp_current = b, bp_rbuf_size = rbuf_size', bp_max_rmsg_size = max_rmsg_size,
            bp_bufs = Map.empty, bp_msgs = Map.empty\<rparr>)"

definition nn_rbuf_release :: "rbuf_id \<Rightarrow> nn_rbufpool \<Rightarrow> nn_rbufpool option" where
  "nn_rbuf_release b p =
     do {
       rb \<leftarrow> bp_bufs p b;
       Some (p\<lparr>bp_bufs := (bp_bufs p)(b :=
         (if rb_n_live_rmsg_chunks rb = 1 then None
          else Some (rb\<lparr>rb_n_live_rmsg_chunks := rb_n_live_rmsg_chunks rb - 1\<rparr>)))\<rparr>)
     }"

definition nn_rbufpool_free :: "nn_rbufpool \<Rightarrow> nn_rbufpool option" where
  "nn_rbufpool_free p = nn_rbuf_release (bp_current p) p"

definition nn_rbuf_new :: "rbuf_id \<Rightarrow> nn_rbufpool \<Rightarrow> nn_rbufpool option" where
  "nn_rbuf_new b p =
     do {
       p1 \<leftarrow> nn_rbuf_release (bp_current p) (nn_rbuf_alloc_new b p);
       Some (p1\<lparr>bp_current := b\<rparr>)
     }"

text \<open>The place for the largest message or chunk, at \<open>freeptr\<close> of the then current buffer.\<close>

definition nn_rbuf_alloc :: "rbuf_id \<Rightarrow> nn_rbufpool \<Rightarrow> (nat \<times> nn_rbufpool) option" where
  "nn_rbuf_alloc b p =
     (let asize = max_rmsg_size_w_hdr (bp_max_rmsg_size p)
      in do {
           rb \<leftarrow> bp_bufs p (bp_current p);
           if rb_size rb - rb_freeptr rb < asize then
             do {
               p1 \<leftarrow> nn_rbuf_new b p;
               rb1 \<leftarrow> bp_bufs p1 (bp_current p1);
               Some (rb_freeptr rb1, p1)
             }
           else Some (rb_freeptr rb, p)
         })"

section \<open>Messages\<close>

definition rbuf_add_live :: "rbuf_id \<Rightarrow> nn_rbufpool \<Rightarrow> nn_rbufpool option" where
  "rbuf_add_live b p =
     do {
       rb \<leftarrow> bp_bufs p b;
       Some (p\<lparr>bp_bufs := (bp_bufs p)(b \<mapsto> rb\<lparr>rb_n_live_rmsg_chunks := rb_n_live_rmsg_chunks rb + 1\<rparr>)\<rparr>)
     }"

text \<open>The chunk and the count it adds to its buffer.\<close>

definition init_rmsg_chunk :: "nat \<Rightarrow> nn_rbufpool \<Rightarrow> (nn_rmsg_chunk \<times> nn_rbufpool) option" where
  "init_rmsg_chunk off p =
     do {
       p1 \<leftarrow> rbuf_add_live (bp_current p) p;
       Some (\<lparr>ck_rbuf = bp_current p, ck_off = off, ck_size = 0\<rparr>, p1)
     }"

definition put_msg :: "rmsg_id \<Rightarrow> nn_rmsg \<Rightarrow> nn_rbufpool \<Rightarrow> nn_rbufpool" where
  "put_msg m r p = p\<lparr>bp_msgs := (bp_msgs p)(m \<mapsto> r)\<rparr>"

definition pool_rmsg_new :: "rbuf_id \<Rightarrow> rmsg_id \<Rightarrow> nn_rbufpool \<Rightarrow> nn_rbufpool option" where
  "pool_rmsg_new b m p =
     do {
       (off, p1) \<leftarrow> nn_rbuf_alloc b p;
       (c, p2) \<leftarrow> init_rmsg_chunk (off + offsetof_rmsg_chunk) p1;
       Some (put_msg m \<lparr>rm_refcount = RMSG_REFCOUNT_UNCOMMITTED_BIAS, rm_chunks = [c]\<rparr> p2)
     }"

definition nn_rmsg_setsize :: "rmsg_id \<Rightarrow> nat \<Rightarrow> nn_rbufpool \<Rightarrow> nn_rbufpool option" where
  "nn_rmsg_setsize m sz p =
     do {
       r \<leftarrow> bp_msgs p m;
       Some (put_msg m (r\<lparr>rm_chunks := (rm_chunks r)[0 := (rm_chunks r ! 0)\<lparr>ck_size := align_rmsg sz\<rparr>]\<rparr>) p)
     }"

fun release_chunks :: "nn_rmsg_chunk list \<Rightarrow> nn_rbufpool \<Rightarrow> nn_rbufpool option" where
  "release_chunks [] p = Some p"
| "release_chunks (c # c1) p = do { p1 \<leftarrow> nn_rbuf_release (ck_rbuf c) p; release_chunks c1 p1 }"

definition nn_rmsg_free :: "rmsg_id \<Rightarrow> nn_rbufpool \<Rightarrow> nn_rbufpool option" where
  "nn_rmsg_free m p =
     do {
       r \<leftarrow> bp_msgs p m;
       release_chunks (rm_chunks r) (p\<lparr>bp_msgs := (bp_msgs p)(m := None)\<rparr>)
     }"

definition commit_rmsg_chunk :: "nn_rmsg_chunk \<Rightarrow> nn_rbufpool \<Rightarrow> nn_rbufpool option" where
  "commit_rmsg_chunk c p =
     do {
       rb \<leftarrow> bp_bufs p (ck_rbuf c);
       Some (p\<lparr>bp_bufs := (bp_bufs p)(ck_rbuf c \<mapsto> rb\<lparr>rb_freeptr := ck_off c + sizeof_rmsg_chunk + ck_size c\<rparr>)\<rparr>)
     }"

text \<open>Subtracting from the reference count: the message is freed when nothing is left.\<close>

definition rmsg_sub :: "rmsg_id \<Rightarrow> int \<Rightarrow> nn_rbufpool \<Rightarrow> nn_rbufpool option" where
  "rmsg_sub m k p =
     do {
       r \<leftarrow> bp_msgs p m;
       let p1 = put_msg m (r\<lparr>rm_refcount := rm_refcount r - k\<rparr>) p;
       if rm_refcount r - k = 0 then nn_rmsg_free m p1 else Some p1
     }"

text \<open>
  \<open>nn_rmsg_commit\<close>, whose two effects other threads can come between: the subtraction, and, when
  the message is kept, moving \<open>freeptr\<close>. The first gives the chunk for the second.
\<close>

definition commit_subtract :: "rmsg_id \<Rightarrow> nn_rbufpool \<Rightarrow> (nn_rmsg_chunk option \<times> nn_rbufpool) option" where
  "commit_subtract m p =
     do {
       r \<leftarrow> bp_msgs p m;
       p1 \<leftarrow> rmsg_sub m RMSG_REFCOUNT_UNCOMMITTED_BIAS p;
       Some (if rm_refcount r - RMSG_REFCOUNT_UNCOMMITTED_BIAS = 0 then None else Some (last (rm_chunks r)), p1)
     }"

definition pool_rmsg_commit :: "rmsg_id \<Rightarrow> nn_rbufpool \<Rightarrow> nn_rbufpool option" where
  "pool_rmsg_commit m p =
     do {
       (c, p1) \<leftarrow> commit_subtract m p;
       (case c of None \<Rightarrow> Some p1 | Some chunk \<Rightarrow> commit_rmsg_chunk chunk p1)
     }"

definition pool_rmsg_addbias :: "rmsg_id \<Rightarrow> nn_rbufpool \<Rightarrow> nn_rbufpool option" where
  "pool_rmsg_addbias m p =
     do {
       r \<leftarrow> bp_msgs p m;
       Some (put_msg m (r\<lparr>rm_refcount := rm_refcount r + RMSG_REFCOUNT_RDATA_BIAS\<rparr>) p)
     }"

definition pool_rmsg_rmbias_and_adjust :: "rmsg_id \<Rightarrow> int \<Rightarrow> nn_rbufpool \<Rightarrow> nn_rbufpool option" where
  "pool_rmsg_rmbias_and_adjust m adjust p = rmsg_sub m (RMSG_REFCOUNT_RDATA_BIAS - adjust) p"

definition pool_rmsg_unref :: "rmsg_id \<Rightarrow> nn_rbufpool \<Rightarrow> nn_rbufpool option" where
  "pool_rmsg_unref m p = rmsg_sub m 1 p"

definition nn_rmsg_alloc :: "rbuf_id \<Rightarrow> rmsg_id \<Rightarrow> nat \<Rightarrow> nn_rbufpool \<Rightarrow> ((rbuf_id \<times> nat) \<times> nn_rbufpool) option" where
  "nn_rmsg_alloc b m sz p =
     (let size8P = align_rmsg sz
      in do {
           r \<leftarrow> bp_msgs p m;
           let chunk = last (rm_chunks r);
           rbuf \<leftarrow> bp_bufs p (ck_rbuf chunk);
           (chunk1, before, p3) \<leftarrow>
             (if ck_size chunk + size8P > rb_max_rmsg_size rbuf then
                do {
                  p1 \<leftarrow> commit_rmsg_chunk chunk p;
                  (off, p2) \<leftarrow> nn_rbuf_alloc b p1;
                  (newchunk, p3) \<leftarrow> init_rmsg_chunk off p2;
                  Some (newchunk, rm_chunks r, p3)
                }
              else Some (chunk, butlast (rm_chunks r), p));
           Some ((ck_rbuf chunk1, ck_off chunk1 + sizeof_rmsg_chunk + ck_size chunk1),
                 put_msg m (r\<lparr>rm_chunks := before @ [chunk1\<lparr>ck_size := ck_size chunk1 + size8P\<rparr>]\<rparr>) p3)
         })"

end
