(* ===== verification/Rbuf_Props.thy ===== *)
theory Rbuf_Props
  imports Rbuf
begin

text \<open>
  Memory safety of the receive buffers: whatever the receive thread allocates and other threads
  release, every chunk of a live message stays in an allocated buffer, no two overlap, and a
  buffer is freed exactly when nothing in it is live any more.
\<close>

section \<open>Alignment\<close>

lemma align_rmsg_spec:
  assumes "x < 2 ^ 32 - 7"
  shows "8 dvd align_rmsg x \<and> x \<le> align_rmsg x \<and> align_rmsg x < x + 8"
proof -
  have "(x + 7) mod 2 ^ 32 = x + 7" using assms by simp
  then have a: "align_rmsg x = (x + 7) - (x + 7) mod 8" by (simp add: align_rmsg_def ALIGNOF_RMSG_def Let_def add.commute)
  have "8 dvd (x + 7) - (x + 7) mod 8" by (simp add: minus_mod_eq_mult_div)
  then show ?thesis unfolding a using mod_less_divisor [of 8 "x + 7"] by (intro conjI) linarith+
qed

lemma align_rmsg_dvd [simp]: "8 dvd align_rmsg x"
  by (simp add: align_rmsg_def ALIGNOF_RMSG_def Let_def minus_mod_eq_mult_div)

section \<open>The invariant\<close>

text \<open>What is counted in a buffer: \<open>extra\<close> and the chunks of live messages.\<close>

definition chunks_in :: "rbuf_id \<Rightarrow> nn_rmsg \<Rightarrow> nat" where
  "chunks_in b r = count_list (map ck_rbuf (rm_chunks r)) b"

definition live_chunks :: "nn_rbufpool \<Rightarrow> rbuf_id \<Rightarrow> nat" where
  "live_chunks p b = (\<Sum>m\<in>dom (bp_msgs p). chunks_in b (the (bp_msgs p m)))"

definition buf_count :: "nn_rbufpool \<Rightarrow> rbuf_id \<Rightarrow> nat \<Rightarrow> bool" where
  "buf_count p b n \<longleftrightarrow> (case bp_bufs p b of None \<Rightarrow> n = 0 | Some rb \<Rightarrow> rb_n_live_rmsg_chunks rb = n \<and> 0 < n)"

definition counts :: "nn_rbufpool \<Rightarrow> (rbuf_id \<Rightarrow> nat) \<Rightarrow> bool" where
  "counts p extra \<longleftrightarrow> finite (dom (bp_msgs p)) \<and> (\<forall>b. buf_count p b (extra b + live_chunks p b))"

lemma countsD: "counts p extra \<Longrightarrow> finite (dom (bp_msgs p))" "counts p extra \<Longrightarrow> buf_count p b (extra b + live_chunks p b)"
  by (simp_all add: counts_def)

definition sizes_ok :: "nn_rbufpool \<Rightarrow> bool" where
  "sizes_ok p \<longleftrightarrow> bp_max_rmsg_size p + 48 < 2 ^ 32 \<and> bp_max_rmsg_size p + 48 \<le> bp_rbuf_size p
     \<and> (\<forall>b rb. bp_bufs p b = Some rb \<longrightarrow> rb_size rb = bp_rbuf_size p \<and> rb_max_rmsg_size rb = bp_max_rmsg_size p
          \<and> rb_freeptr rb \<le> bp_rbuf_size p \<and> 8 dvd rb_freeptr rb)"

definition freeptr_of :: "nn_rbufpool \<Rightarrow> rbuf_id \<Rightarrow> nat" where
  "freeptr_of p b = (case bp_bufs p b of None \<Rightarrow> 0 | Some rb \<Rightarrow> rb_freeptr rb)"

text \<open>The memory of the \<open>i\<close>-th chunk of a message; the first has the \<open>nn_rmsg\<close> in front of it.\<close>

definition cstart :: "nat \<Rightarrow> nn_rmsg_chunk \<Rightarrow> nat" where
  "cstart i c = (if i = 0 then ck_off c - offsetof_rmsg_chunk else ck_off c)"

definition cend :: "nn_rmsg_chunk \<Rightarrow> nat" where
  "cend c = ck_off c + sizeof_rmsg_chunk + ck_size c"

definition is_chunk :: "nn_rbufpool \<Rightarrow> rmsg_id \<Rightarrow> nat \<Rightarrow> nn_rmsg_chunk \<Rightarrow> bool" where
  "is_chunk p m i c \<longleftrightarrow> (case bp_msgs p m of None \<Rightarrow> False | Some r \<Rightarrow> i < length (rm_chunks r) \<and> rm_chunks r ! i = c)"

definition chunk_ok :: "nn_rbufpool \<Rightarrow> nat \<Rightarrow> nn_rmsg_chunk \<Rightarrow> bool" where
  "chunk_ok p i c \<longleftrightarrow> (i = 0 \<longrightarrow> offsetof_rmsg_chunk \<le> ck_off c) \<and> ck_size c \<le> bp_max_rmsg_size p \<and> 8 dvd ck_off c \<and> 8 dvd ck_size c"

text \<open>All chunks but the open one end where \<open>freeptr\<close> is, or before.\<close>

definition places :: "nn_rbufpool \<Rightarrow> (rmsg_id \<times> nat) option \<Rightarrow> bool" where
  "places p open \<longleftrightarrow> (\<forall>m i c. is_chunk p m i c \<longrightarrow>
     chunk_ok p i c \<and> (open = Some (m, i) \<or> cend c \<le> freeptr_of p (ck_rbuf c)))"

lemma placesD:
  "places p open \<Longrightarrow> is_chunk p m i c \<Longrightarrow> open \<noteq> Some (m, i) \<Longrightarrow> cend c \<le> freeptr_of p (ck_rbuf c)"
  by (auto simp: places_def)

definition apart :: "nn_rbufpool \<Rightarrow> bool" where
  "apart p \<longleftrightarrow> (\<forall>m i c m' i' c'. is_chunk p m i c \<and> is_chunk p m' i' c' \<and> (m, i) \<noteq> (m', i') \<and> ck_rbuf c = ck_rbuf c'
     \<longrightarrow> cend c \<le> cstart i' c' \<or> cend c' \<le> cstart i c)"

definition msgs_ok :: "nn_rbufpool \<Rightarrow> bool" where
  "msgs_ok p \<longleftrightarrow> (\<forall>m r. bp_msgs p m = Some r \<longrightarrow> rm_chunks r \<noteq> [] \<and> 0 < rm_refcount r)"

text \<open>
  Where the receive thread is: between messages, filling one, or in the middle of
  \<open>nn_rmsg_commit\<close> with \<open>freeptr\<close> still to be moved.
\<close>

datatype rx_phase = Idle | Filling rmsg_id | Committing rmsg_id nat nn_rmsg_chunk

fun open_chunk :: "nn_rbufpool \<Rightarrow> rx_phase \<Rightarrow> (rmsg_id \<times> nat) option" where
  "open_chunk p Idle = None"
| "open_chunk p (Filling m) = Some (m, length (rm_chunks (the (bp_msgs p m))) - 1)"
| "open_chunk p (Committing m i c) = Some (m, i)"

fun phase_ok :: "nn_rbufpool \<Rightarrow> rx_phase \<Rightarrow> bool" where
  "phase_ok p Idle \<longleftrightarrow> True"
| "phase_ok p (Filling m) \<longleftrightarrow> (\<exists>r. bp_msgs p m = Some r \<and> RMSG_REFCOUNT_UNCOMMITTED_BIAS \<le> rm_refcount r
     \<and> ck_rbuf (last (rm_chunks r)) = bp_current p
     \<and> cstart (length (rm_chunks r) - 1) (last (rm_chunks r)) = freeptr_of p (bp_current p)
     \<and> freeptr_of p (bp_current p) + bp_max_rmsg_size p + 48 \<le> bp_rbuf_size p)"
| "phase_ok p (Committing m i c) \<longleftrightarrow> ck_rbuf c = bp_current p \<and> cstart i c = freeptr_of p (bp_current p)
     \<and> cend c \<le> bp_rbuf_size p \<and> chunk_ok p i c \<and> (\<forall>c'. is_chunk p m i c' \<longrightarrow> c' = c)"

definition pool_inv :: "nn_rbufpool \<Rightarrow> rx_phase \<Rightarrow> bool" where
  "pool_inv p ph \<longleftrightarrow> counts p (\<lambda>b. of_bool (b = bp_current p)) \<and> sizes_ok p \<and> places p (open_chunk p ph) \<and> apart p
     \<and> msgs_ok p \<and> phase_ok p ph"

section \<open>Counting\<close>

lemma live_chunks_put:
  assumes "finite (dom (bp_msgs p))"
  shows "live_chunks (put_msg m r p) b + (case bp_msgs p m of None \<Rightarrow> 0 | Some r0 \<Rightarrow> chunks_in b r0)
    = live_chunks p b + chunks_in b r"
proof -
  let ?D = "dom (bp_msgs p) - {m}"
  have "live_chunks (put_msg m r p) b = (\<Sum>x\<in>insert m ?D. chunks_in b (the (((bp_msgs p)(m \<mapsto> r)) x)))"
    by (simp add: live_chunks_def put_msg_def)
  also have "\<dots> = chunks_in b r + (\<Sum>x\<in>?D. chunks_in b (the (((bp_msgs p)(m \<mapsto> r)) x)))"
    using assms by (subst sum.insert) auto
  also have "(\<Sum>x\<in>?D. chunks_in b (the (((bp_msgs p)(m \<mapsto> r)) x))) = (\<Sum>x\<in>?D. chunks_in b (the (bp_msgs p x)))"
    by (rule sum.cong) auto
  finally have 1: "live_chunks (put_msg m r p) b = chunks_in b r + (\<Sum>x\<in>?D. chunks_in b (the (bp_msgs p x)))" .
  show ?thesis
  proof (cases "bp_msgs p m")
    case (Some r0)
    then have "live_chunks p b = chunks_in b r0 + (\<Sum>x\<in>?D. chunks_in b (the (bp_msgs p x)))"
      using assms by (simp add: live_chunks_def sum.remove [of "dom (bp_msgs p)" m] domI)
    with 1 Some show ?thesis by simp
  next
    case None
    then have "?D = dom (bp_msgs p)" by auto
    with 1 None show ?thesis by (simp add: live_chunks_def)
  qed
qed

lemma live_chunks_drop:
  assumes "finite (dom (bp_msgs p))" "bp_msgs p m = Some r"
  shows "live_chunks p b = chunks_in b r + live_chunks (p\<lparr>bp_msgs := (bp_msgs p)(m := None)\<rparr>) b"
  using assms by (simp add: live_chunks_def sum.remove [of "dom (bp_msgs p)" m] domI)

lemma counts_put:
  assumes "counts p extra"
    "\<And>b. extra' b + chunks_in b r = extra b + (case bp_msgs p m of None \<Rightarrow> 0 | Some r0 \<Rightarrow> chunks_in b r0)"
  shows "counts (put_msg m r p) extra'"
proof -
  note c = countsD [OF assms(1)]
  have "extra' b + live_chunks (put_msg m r p) b = extra b + live_chunks p b" for b
    using live_chunks_put [OF c(1), of m r b] assms(2) [of b] by linarith
  moreover have "buf_count (put_msg m r p) b n = buf_count p b n" for b n by (simp add: buf_count_def put_msg_def)
  ultimately show ?thesis using c by (simp add: counts_def) (simp add: put_msg_def)
qed

lemma counts_drop:
  assumes "counts p extra" "bp_msgs p m = Some r"
  shows "counts (p\<lparr>bp_msgs := (bp_msgs p)(m := None)\<rparr>) (\<lambda>b. extra b + chunks_in b r)"
proof -
  note c = countsD [OF assms(1)]
  let ?p = "p\<lparr>bp_msgs := (bp_msgs p)(m := None)\<rparr>"
  have "chunks_in b r + live_chunks ?p b = live_chunks p b" for b
    using live_chunks_drop [OF c(1) assms(2), of b] by simp
  moreover have "buf_count ?p b n = buf_count p b n" for b n by (simp add: buf_count_def)
  ultimately show ?thesis using c by (simp add: counts_def add.assoc)
qed

lemma live_chunks_bufs [simp]: "live_chunks (p\<lparr>bp_bufs := f\<rparr>) = live_chunks p"
  by (simp add: live_chunks_def fun_eq_iff)

lemma counts_alloc: "counts p extra \<Longrightarrow> 0 < extra b \<Longrightarrow> \<exists>rb. bp_bufs p b = Some rb"
  using countsD(2) [of p extra b] by (auto simp: buf_count_def split: option.splits)

lemma chunk_buf:
  assumes "counts p extra" "is_chunk p m i c"
  shows "\<exists>rb. bp_bufs p (ck_rbuf c) = Some rb"
proof -
  obtain r where r: "bp_msgs p m = Some r" "i < length (rm_chunks r)" "rm_chunks r ! i = c"
    using assms(2) by (auto simp: is_chunk_def split: option.splits)
  then have "ck_rbuf c \<in> set (map ck_rbuf (rm_chunks r))" by auto
  then have "chunks_in (ck_rbuf c) r \<noteq> 0" unfolding chunks_in_def by (simp only: count_list_0_iff not_not)
  then have "0 < live_chunks p (ck_rbuf c)"
    using live_chunks_drop [of p m r "ck_rbuf c"] countsD(1) [OF assms(1)] r(1) by simp
  then show ?thesis using countsD(2) [OF assms(1), of "ck_rbuf c"] by (auto simp: buf_count_def split: option.splits)
qed

section \<open>Releasing\<close>

text \<open>Only counts changed, and buffers whose count has reached 0 are gone.\<close>

definition released :: "nn_rbufpool \<Rightarrow> nn_rbufpool \<Rightarrow> bool" where
  "released p p' \<longleftrightarrow> (\<exists>bufs. p' = p\<lparr>bp_bufs := bufs\<rparr> \<and> (\<forall>b rb'. bufs b = Some rb' \<longrightarrow>
     (\<exists>rb. bp_bufs p b = Some rb \<and> rb_size rb' = rb_size rb \<and> rb_max_rmsg_size rb' = rb_max_rmsg_size rb
        \<and> rb_freeptr rb' = rb_freeptr rb)))"

lemma released_refl [simp]: "released p p"
  by (auto simp: released_def intro!: exI [of _ "bp_bufs p"])

lemma released_trans: "released p p' \<Longrightarrow> released p' p'' \<Longrightarrow> released p p''"
  by (fastforce simp: released_def)

lemma release_spec:
  assumes "counts p (\<lambda>b'. extra b' + of_bool (b' = b))"
  shows "\<exists>p'. nn_rbuf_release b p = Some p' \<and> counts p' extra \<and> released p p'"
proof -
  obtain rb where rb: "bp_bufs p b = Some rb" using counts_alloc [OF assms, of b] by auto
  note c = countsD [OF assms]
  let ?n = "if rb_n_live_rmsg_chunks rb = 1 then None else Some (rb\<lparr>rb_n_live_rmsg_chunks := rb_n_live_rmsg_chunks rb - 1\<rparr>)"
  let ?p = "p\<lparr>bp_bufs := (bp_bufs p)(b := ?n)\<rparr>"
  have "buf_count ?p b' (extra b' + live_chunks p b')" for b'
    using c(2) [of b'] rb by (cases "b' = b") (auto simp: buf_count_def)
  then have "counts ?p extra" using c(1) unfolding counts_def live_chunks_bufs by simp
  moreover have "released p ?p" unfolding released_def using rb by (intro exI [of _ "bp_bufs ?p"]) auto
  ultimately show ?thesis using rb by (simp add: nn_rbuf_release_def)
qed

lemma release_chunks_spec:
  assumes "counts p (\<lambda>b. extra b + count_list (map ck_rbuf cs) b)"
  shows "\<exists>p'. release_chunks cs p = Some p' \<and> counts p' extra \<and> released p p'"
  using assms
proof (induction cs arbitrary: p)
  case (Cons c cs)
  have "(\<lambda>b. extra b + count_list (map ck_rbuf (c # cs)) b)
      = (\<lambda>b. (extra b + count_list (map ck_rbuf cs) b) + of_bool (b = ck_rbuf c))" by (auto simp: fun_eq_iff)
  with Cons.prems obtain p1 where 1: "nn_rbuf_release (ck_rbuf c) p = Some p1"
      "counts p1 (\<lambda>b. extra b + count_list (map ck_rbuf cs) b)" "released p p1"
    using release_spec [of p "\<lambda>b. extra b + count_list (map ck_rbuf cs) b" "ck_rbuf c"] by auto
  with Cons.IH [OF 1(2)] show ?case by (auto intro: released_trans)
qed simp

lemma free_spec:
  assumes "counts p extra" "bp_msgs p m = Some r"
  shows "\<exists>p'. nn_rmsg_free m p = Some p' \<and> counts p' extra \<and> released (p\<lparr>bp_msgs := (bp_msgs p)(m := None)\<rparr>) p'"
  using release_chunks_spec [of "p\<lparr>bp_msgs := (bp_msgs p)(m := None)\<rparr>" extra "rm_chunks r"] counts_drop [OF assms]
  by (simp add: nn_rmsg_free_def chunks_in_def assms(2))

section \<open>Allocating\<close>

lemma w_hdr: "sizes_ok p \<Longrightarrow> max_rmsg_size_w_hdr (bp_max_rmsg_size p) = bp_max_rmsg_size p + 48"
  by (simp add: sizes_ok_def max_rmsg_size_w_hdr_def max_uint32_def offsetof_rmsg_chunk_def sizeof_rmsg_chunk_def)

text \<open>Other things equal, only counts and unused buffers may differ.\<close>

lemma is_chunk_bufs [simp]: "is_chunk (p\<lparr>bp_bufs := f\<rparr>) m i c = is_chunk p m i c"
  by (simp add: is_chunk_def)

lemma is_chunk_current [simp]: "is_chunk (p\<lparr>bp_current := b\<rparr>) m i c = is_chunk p m i c"
  by (simp add: is_chunk_def)

lemma is_chunk_drop: "is_chunk (p\<lparr>bp_msgs := (bp_msgs p)(m0 := None)\<rparr>) m i c \<longleftrightarrow> m \<noteq> m0 \<and> is_chunk p m i c"
  by (simp add: is_chunk_def)

lemma current_simps [simp]:
  fixes p :: nn_rbufpool
  shows "freeptr_of (p\<lparr>bp_current := b\<rparr>) = freeptr_of p" "chunk_ok (p\<lparr>bp_current := b\<rparr>) = chunk_ok p"
    "live_chunks (p\<lparr>bp_current := b\<rparr>) = live_chunks p" "counts (p\<lparr>bp_current := b\<rparr>) = counts p"
    "sizes_ok (p\<lparr>bp_current := b\<rparr>) = sizes_ok p" "places (p\<lparr>bp_current := b\<rparr>) = places p"
    "apart (p\<lparr>bp_current := b\<rparr>) = apart p" "msgs_ok (p\<lparr>bp_current := b\<rparr>) = msgs_ok p"
  by (simp_all add: freeptr_of_def chunk_ok_def live_chunks_def counts_def buf_count_def sizes_ok_def places_def apart_def
    msgs_ok_def fun_eq_iff)

lemma released_simps:
  assumes "released p p'"
  shows "bp_current p' = bp_current p" "bp_msgs p' = bp_msgs p" "bp_max_rmsg_size p' = bp_max_rmsg_size p"
    "bp_rbuf_size p' = bp_rbuf_size p" "is_chunk p' m i c = is_chunk p m i c" "chunk_ok p' i c = chunk_ok p i c"
    "bp_bufs p' b \<noteq> None \<Longrightarrow> bp_bufs p b \<noteq> None" "bp_bufs p' b \<noteq> None \<Longrightarrow> freeptr_of p' b = freeptr_of p b"
    "sizes_ok p \<Longrightarrow> sizes_ok p'"
  using assms by (fastforce simp: released_def is_chunk_def chunk_ok_def freeptr_of_def sizes_ok_def)+

lemma released_inv:
  assumes "released p p'" "counts p' extra" "sizes_ok p" "places p open" "apart p" "msgs_ok p"
  shows "sizes_ok p' \<and> places p' open \<and> apart p' \<and> msgs_ok p'"
proof -
  note r = released_simps [OF assms(1)]
  have "freeptr_of p' (ck_rbuf c) = freeptr_of p (ck_rbuf c)" if "is_chunk p m i c" for m i c
    using chunk_buf [OF assms(2), of m i c] that r(5,8) by auto
  then have "places p' open" using assms(4) by (auto simp: places_def r(5,6))
  then show ?thesis using assms(3,5,6) r by (auto simp: apart_def msgs_ok_def)
qed

lemma freeptr_of_alloc: "sizes_ok p \<Longrightarrow> freeptr_of p b \<le> bp_rbuf_size p \<and> 8 dvd freeptr_of p b"
  by (auto simp: sizes_ok_def freeptr_of_def split: option.splits)

lemma current_alloc: "pool_inv p ph \<Longrightarrow> \<exists>rb. bp_bufs p (bp_current p) = Some rb"
  by (rule counts_alloc [of p "\<lambda>b. of_bool (b = bp_current p)"]) (simp_all add: pool_inv_def)

lemma rbuf_new_spec:
  assumes "pool_inv p Idle" "bp_bufs p b = None"
  shows "\<exists>p'. nn_rbuf_new b p = Some p' \<and> pool_inv p' Idle \<and> bp_current p' = b \<and> freeptr_of p' b = 0 \<and> bp_msgs p' = bp_msgs p
    \<and> bp_max_rmsg_size p' = bp_max_rmsg_size p \<and> bp_rbuf_size p' = bp_rbuf_size p"
proof -
  let ?p = "nn_rbuf_alloc_new b p"
  have ne: "b \<noteq> bp_current p" using current_alloc [OF assms(1)] assms(2) by auto
  have i: "counts p (\<lambda>b'. of_bool (b' = bp_current p))" "sizes_ok p" "places p None" "apart p" "msgs_ok p"
    using assms(1) by (simp_all add: pool_inv_def)
  have z: "live_chunks p b = 0" using countsD(2) [OF i(1), of b] assms(2) by (simp add: buf_count_def)
  have "buf_count ?p b' (of_bool (b' = b) + of_bool (b' = bp_current p) + live_chunks p b')" for b'
    using countsD(2) [OF i(1), of b'] ne z by (cases "b' = b") (auto simp: buf_count_def nn_rbuf_alloc_new_def)
  then have c: "counts ?p (\<lambda>b'. of_bool (b' = b) + of_bool (b' = bp_current p))"
    using countsD(1) [OF i(1)] by (simp add: counts_def nn_rbuf_alloc_new_def)
  then obtain p1 where p1: "nn_rbuf_release (bp_current p) ?p = Some p1" "counts p1 (\<lambda>b'. of_bool (b' = b))" "released ?p p1"
    using release_spec [of ?p "\<lambda>b'. of_bool (b' = b)" "bp_current p"] by auto
  have nb: "ck_rbuf c \<noteq> b" if "is_chunk p m i c" for m i c using chunk_buf [OF i(1) that] assms(2) by auto
  have "sizes_ok ?p" using i(2) by (auto simp: sizes_ok_def nn_rbuf_alloc_new_def)
  moreover have "places ?p None" using i(3) nb
    by (auto simp: places_def nn_rbuf_alloc_new_def freeptr_of_def chunk_ok_def)
  moreover have "apart ?p" "msgs_ok ?p" using i(4,5) by (simp_all add: apart_def msgs_ok_def nn_rbuf_alloc_new_def)
  ultimately have "sizes_ok p1 \<and> places p1 None \<and> apart p1 \<and> msgs_ok p1" using released_inv [OF p1(3,2)] by simp
  moreover have "bp_bufs p1 b \<noteq> None" using counts_alloc [OF p1(2), of b] by auto
  then have "freeptr_of p1 b = 0" using released_simps(8) [OF p1(3), of b]
    by (simp add: freeptr_of_def nn_rbuf_alloc_new_def)
  moreover have "bp_msgs p1 = bp_msgs p" "bp_max_rmsg_size p1 = bp_max_rmsg_size p" "bp_rbuf_size p1 = bp_rbuf_size p"
    using released_simps [OF p1(3)] by (simp_all add: nn_rbuf_alloc_new_def)
  ultimately show ?thesis using p1(1,2)
    by (auto simp: nn_rbuf_new_def pool_inv_def)
qed

lemma rbuf_alloc_spec:
  assumes "pool_inv p Idle" "bp_bufs p b = None"
  shows "\<exists>off p'. nn_rbuf_alloc b p = Some (off, p') \<and> pool_inv p' Idle \<and> off = freeptr_of p' (bp_current p')
    \<and> off + bp_max_rmsg_size p' + 48 \<le> bp_rbuf_size p' \<and> bp_msgs p' = bp_msgs p
    \<and> bp_max_rmsg_size p' = bp_max_rmsg_size p \<and> bp_rbuf_size p' = bp_rbuf_size p"
proof -
  obtain rb where rb: "bp_bufs p (bp_current p) = Some rb" using current_alloc [OF assms(1)] by blast
  have s: "sizes_ok p" using assms(1) by (simp add: pool_inv_def)
  then have z: "rb_size rb = bp_rbuf_size p" "rb_freeptr rb \<le> bp_rbuf_size p" "bp_max_rmsg_size p + 48 \<le> bp_rbuf_size p"
    using rb by (auto simp: sizes_ok_def)
  show ?thesis
  proof (cases "rb_size rb - rb_freeptr rb < bp_max_rmsg_size p + 48")
    case True
    obtain p1 where p1: "nn_rbuf_new b p = Some p1" "pool_inv p1 Idle" "bp_current p1 = b" "freeptr_of p1 b = 0"
        "bp_msgs p1 = bp_msgs p" "bp_max_rmsg_size p1 = bp_max_rmsg_size p" "bp_rbuf_size p1 = bp_rbuf_size p"
      using rbuf_new_spec [OF assms] by blast
    moreover obtain rb1 where "bp_bufs p1 b = Some rb1" using current_alloc [OF p1(2)] p1(3) by auto
    moreover from this have "rb_freeptr rb1 = 0" using p1(4) by (simp add: freeptr_of_def)
    ultimately show ?thesis using True rb z(3) by (simp add: nn_rbuf_alloc_def Let_def w_hdr [OF s])
  next
    case False
    then show ?thesis using rb z assms(1) by (auto simp: nn_rbuf_alloc_def Let_def w_hdr [OF s] freeptr_of_def)
  qed
qed

section \<open>Committing\<close>

lemma pool_invD:
  assumes "pool_inv p ph"
  shows "counts p (\<lambda>b. of_bool (b = bp_current p))" "sizes_ok p" "places p (open_chunk p ph)" "apart p" "msgs_ok p" "phase_ok p ph"
  using assms by (simp_all add: pool_inv_def)

lemma commit_chunk_spec:
  assumes "pool_inv p (Committing m i c)"
  shows "\<exists>p'. commit_rmsg_chunk c p = Some p' \<and> pool_inv p' Idle \<and> bp_current p' = bp_current p \<and> bp_msgs p' = bp_msgs p
    \<and> bp_max_rmsg_size p' = bp_max_rmsg_size p \<and> bp_rbuf_size p' = bp_rbuf_size p \<and> freeptr_of p' (bp_current p) = cend c
    \<and> (\<forall>b. bp_bufs p' b = None \<longleftrightarrow> bp_bufs p b = None)"
proof -
  note i = pool_invD [OF assms]
  obtain rb where rb: "bp_bufs p (bp_current p) = Some rb" using current_alloc [OF assms] by blast
  have c: "ck_rbuf c = bp_current p" "cstart i c = freeptr_of p (bp_current p)" "cend c \<le> bp_rbuf_size p" "chunk_ok p i c"
    "\<And>c'. is_chunk p m i c' \<Longrightarrow> c' = c" using i(6) by auto
  have le: "freeptr_of p (bp_current p) \<le> cend c" using c(2) by (auto simp: cstart_def cend_def split: if_splits)
  let ?p = "p\<lparr>bp_bufs := (bp_bufs p)(bp_current p \<mapsto> rb\<lparr>rb_freeptr := cend c\<rparr>)\<rparr>"
  have f: "freeptr_of ?p b = (if b = bp_current p then cend c else freeptr_of p b)" for b by (simp add: freeptr_of_def)
  have "buf_count ?p b n = buf_count p b n" for b n using rb by (simp add: buf_count_def)
  then have "counts ?p (\<lambda>b. of_bool (b = bp_current p))" using i(1) by (simp add: counts_def)
  moreover have "8 dvd cend c" using c(4) by (auto simp: cend_def chunk_ok_def sizeof_rmsg_chunk_def)
  then have "sizes_ok ?p" using i(2) c(3) rb by (auto simp: sizes_ok_def)
  moreover have "places ?p None"
    unfolding places_def
  proof (intro allI impI)
    fix m' i' x assume "is_chunk ?p m' i' x"
    then have x: "is_chunk p m' i' x" by simp
    have k: "chunk_ok ?p = chunk_ok p" by (simp add: chunk_ok_def fun_eq_iff)
    from i(3) x have "chunk_ok p i' x" "(m', i') = (m, i) \<or> cend x \<le> freeptr_of p (ck_rbuf x)" by (auto simp: places_def)
    then show "chunk_ok ?p i' x \<and> (None = Some (m', i') \<or> cend x \<le> freeptr_of ?p (ck_rbuf x))"
      using c(1,5) x le by (auto simp: f k)
  qed
  moreover have "apart ?p" "msgs_ok ?p" using i(4,5) by (simp_all add: apart_def msgs_ok_def)
  moreover have "commit_rmsg_chunk c p = Some ?p"
    using rb c(1) by (simp add: commit_rmsg_chunk_def cend_def)
  ultimately show ?thesis using f [of "bp_current p"] rb by (auto simp: pool_inv_def)
qed

lemma last_is_chunk: "bp_msgs p m = Some r \<Longrightarrow> rm_chunks r \<noteq> [] \<Longrightarrow> is_chunk p m (length (rm_chunks r) - 1) c \<longleftrightarrow> c = last (rm_chunks r)"
  by (auto simp: is_chunk_def last_conv_nth)

lemma fill_commit:
  assumes "pool_inv p (Filling m)" "bp_msgs p m = Some r"
  shows "pool_inv p (Committing m (length (rm_chunks r) - 1) (last (rm_chunks r)))"
proof -
  note i = pool_invD [OF assms(1)]
  let ?i = "length (rm_chunks r) - 1" and ?c = "last (rm_chunks r)"
  have ne: "rm_chunks r \<noteq> []" using i(5) assms(2) by (simp add: msgs_ok_def)
  then have k: "chunk_ok p ?i ?c" using i(3) last_is_chunk [OF assms(2) ne] by (auto simp: places_def)
  then have "cend ?c \<le> cstart ?i ?c + bp_max_rmsg_size p + 48"
    by (auto simp: cend_def cstart_def chunk_ok_def sizeof_rmsg_chunk_def offsetof_rmsg_chunk_def)
  then show ?thesis using i assms(2) k last_is_chunk [OF assms(2) ne] by (simp add: pool_inv_def)
qed

section \<open>Reference counts\<close>

lemma put_refcount_inv:
  assumes "pool_inv p ph" "bp_msgs p m = Some r" "0 < n" "ph = Filling m \<Longrightarrow> RMSG_REFCOUNT_UNCOMMITTED_BIAS \<le> n"
  shows "pool_inv (put_msg m (r\<lparr>rm_refcount := n\<rparr>) p) ph"
proof -
  note i = pool_invD [OF assms(1)]
  let ?p = "put_msg m (r\<lparr>rm_refcount := n\<rparr>) p"
  have s: "is_chunk ?p = is_chunk p" "chunk_ok ?p = chunk_ok p" "freeptr_of ?p = freeptr_of p" "bp_current ?p = bp_current p"
    "bp_rbuf_size ?p = bp_rbuf_size p" "bp_max_rmsg_size ?p = bp_max_rmsg_size p"
    using assms(2) by (auto simp: is_chunk_def chunk_ok_def freeptr_of_def put_msg_def fun_eq_iff split: option.splits)
  have "counts ?p (\<lambda>b. of_bool (b = bp_current p))"
    using assms(2) by (intro counts_put [OF i(1)]) (simp add: chunks_in_def)
  moreover have "sizes_ok ?p" "msgs_ok ?p" using i(2,5) assms(2,3) by (auto simp: sizes_ok_def msgs_ok_def put_msg_def)
  moreover have "open_chunk ?p ph = open_chunk p ph" using assms(2) by (cases ph) (auto simp: put_msg_def)
  moreover have "phase_ok ?p ph" using i(6) assms(2,4) by (cases ph) (simp_all add: s, auto simp: put_msg_def)
  ultimately show ?thesis using i(3,4) by (simp add: pool_inv_def places_def apart_def s)
qed

lemma drop_msg_inv:
  assumes "pool_inv p ph" "bp_msgs p m = Some r" "ph \<noteq> Filling m"
  shows "\<exists>p'. nn_rmsg_free m p = Some p' \<and> pool_inv p' ph \<and> bp_msgs p' = (bp_msgs p)(m := None)"
proof -
  note i = pool_invD [OF assms(1)]
  let ?p = "p\<lparr>bp_msgs := (bp_msgs p)(m := None)\<rparr>"
  obtain p' where p': "nn_rmsg_free m p = Some p'" "counts p' (\<lambda>b. of_bool (b = bp_current p))" "released ?p p'"
    using free_spec [OF i(1) assms(2)] by blast
  note r = released_simps [OF p'(3)]
  have s: "sizes_ok ?p" "places ?p (open_chunk p ph)" "msgs_ok ?p"
    using i(2,3,5) by (auto simp: sizes_ok_def places_def msgs_ok_def is_chunk_drop chunk_ok_def freeptr_of_def)
  have "apart ?p" using i(4) unfolding apart_def is_chunk_drop by blast
  note q = released_inv [OF p'(3,2) s(1,2) this s(3)]
  have "bp_bufs p' (bp_current p) \<noteq> None" using counts_alloc [OF p'(2), of "bp_current p"] by auto
  then have f: "freeptr_of p' (bp_current p) = freeptr_of p (bp_current p)" using r(8) by (simp add: freeptr_of_def)
  have "open_chunk p' ph = open_chunk p ph" using assms(3) r(2) by (cases ph) auto
  moreover have "phase_ok p' ph"
    using i(6) assms(3) by (cases ph) (auto simp: r f is_chunk_drop chunk_ok_def)
  ultimately show ?thesis using p'(1,2) q r(1,2) by (auto simp: pool_inv_def)
qed

lemma rmsg_sub_spec:
  assumes "pool_inv p ph" "bp_msgs p m = Some r" "k \<le> rm_refcount r" "ph = Filling m \<Longrightarrow> RMSG_REFCOUNT_UNCOMMITTED_BIAS \<le> rm_refcount r - k"
  shows "\<exists>p'. rmsg_sub m k p = Some p' \<and> pool_inv p' ph
    \<and> bp_msgs p' = (bp_msgs p)(m := if rm_refcount r = k then None else Some (r\<lparr>rm_refcount := rm_refcount r - k\<rparr>))"
proof (cases "rm_refcount r = k")
  case False
  then have "pool_inv (put_msg m (r\<lparr>rm_refcount := rm_refcount r - k\<rparr>) p) ph"
    using assms by (intro put_refcount_inv) auto
  then show ?thesis using False assms(2) by (simp add: rmsg_sub_def) (simp add: put_msg_def)
next
  case True
  let ?p = "put_msg m (r\<lparr>rm_refcount := rm_refcount r - k\<rparr>) p"
  have ne: "ph \<noteq> Filling m" using True assms(4) by (auto simp: RMSG_REFCOUNT_UNCOMMITTED_BIAS_def)
  have "nn_rmsg_free m ?p = nn_rmsg_free m p" using assms(2) by (simp add: nn_rmsg_free_def put_msg_def)
  then show ?thesis using drop_msg_inv [OF assms(1,2) ne] True assms(2) by (auto simp: rmsg_sub_def)
qed

lemma committing_gone:
  assumes "pool_inv p (Committing m i c)" "bp_msgs p m = None"
  shows "pool_inv p Idle"
proof -
  have "\<not> is_chunk p m i' c'" for i' c' using assms(2) by (simp add: is_chunk_def)
  then have "places p None" using pool_invD(3) [OF assms(1)] unfolding places_def open_chunk.simps by blast
  then show ?thesis using assms(1) by (simp add: pool_inv_def)
qed

lemma commit_subtract_spec:
  assumes "pool_inv p (Filling m)"
  shows "\<exists>c p'. commit_subtract m p = Some (c, p')
    \<and> (case c of None \<Rightarrow> pool_inv p' Idle \<and> bp_msgs p' m = None | Some ch \<Rightarrow> \<exists>i. pool_inv p' (Committing m i ch) \<and> is_chunk p' m i ch)"
proof -
  obtain r where r: "bp_msgs p m = Some r" "RMSG_REFCOUNT_UNCOMMITTED_BIAS \<le> rm_refcount r" "rm_chunks r \<noteq> []"
    using pool_invD(5,6) [OF assms] by (auto simp: msgs_ok_def)
  obtain p' where p': "rmsg_sub m RMSG_REFCOUNT_UNCOMMITTED_BIAS p = Some p'"
    "pool_inv p' (Committing m (length (rm_chunks r) - 1) (last (rm_chunks r)))"
    "bp_msgs p' = (bp_msgs p)(m := if rm_refcount r = RMSG_REFCOUNT_UNCOMMITTED_BIAS then None
       else Some (r\<lparr>rm_refcount := rm_refcount r - RMSG_REFCOUNT_UNCOMMITTED_BIAS\<rparr>))"
    using rmsg_sub_spec [OF fill_commit [OF assms r(1)] r(1,2)] by auto
  show ?thesis
  proof (cases "rm_refcount r = RMSG_REFCOUNT_UNCOMMITTED_BIAS")
    case True
    then show ?thesis using p' r(1) committing_gone [OF p'(2)] by (simp add: commit_subtract_def)
  next
    case False
    then have "is_chunk p' m (length (rm_chunks r) - 1) (last (rm_chunks r))"
      using p'(3) r(3) by (simp add: is_chunk_def last_conv_nth)
    then show ?thesis using p' r(1) False by (auto simp: commit_subtract_def)
  qed
qed

section \<open>Chunks of the message being filled\<close>

lemma apartI:
  assumes "places p (Some (m, i))" "\<And>c. is_chunk p m i c \<Longrightarrow> cstart i c = freeptr_of p (ck_rbuf c)"
    and "\<And>m1 i1 c1 m2 i2 c2. is_chunk p m1 i1 c1 \<Longrightarrow> is_chunk p m2 i2 c2 \<Longrightarrow> (m1, i1) \<noteq> (m, i) \<Longrightarrow> (m2, i2) \<noteq> (m, i) \<Longrightarrow>
      (m1, i1) \<noteq> (m2, i2) \<Longrightarrow> ck_rbuf c1 = ck_rbuf c2 \<Longrightarrow> cend c1 \<le> cstart i2 c2 \<or> cend c2 \<le> cstart i1 c1"
  shows "apart p"
  unfolding apart_def
proof (intro allI impI)
  fix m1 i1 c1 m2 i2 c2
  assume a: "is_chunk p m1 i1 c1 \<and> is_chunk p m2 i2 c2 \<and> (m1, i1) \<noteq> (m2, i2) \<and> ck_rbuf c1 = ck_rbuf c2"
  have closed: "cend c' \<le> freeptr_of p (ck_rbuf c')" if "is_chunk p m' i' c'" "(m', i') \<noteq> (m, i)" for m' i' c'
    using assms(1) that by (auto simp: places_def)
  consider "(m1, i1) = (m, i)" "(m2, i2) \<noteq> (m, i)" | "(m1, i1) \<noteq> (m, i)" "(m2, i2) = (m, i)"
    | "(m1, i1) \<noteq> (m, i)" "(m2, i2) \<noteq> (m, i)" using a by metis
  then show "cend c1 \<le> cstart i2 c2 \<or> cend c2 \<le> cstart i1 c1"
  proof cases
    case 1
    then show ?thesis using a closed [of m2 i2 c2] assms(2) [of c1] by auto
  next
    case 2
    then show ?thesis using a closed [of m1 i1 c1] assms(2) [of c2] by auto
  next
    case 3
    then show ?thesis using a assms(3) by blast
  qed
qed

definition chunks_of :: "nn_rbufpool \<Rightarrow> rmsg_id \<Rightarrow> nn_rmsg_chunk list" where
  "chunks_of p m = (case bp_msgs p m of None \<Rightarrow> [] | Some r \<Rightarrow> rm_chunks r)"

lemma is_chunk_put:
  "is_chunk (put_msg m r p) m' i c \<longleftrightarrow> (if m' = m then i < length (rm_chunks r) \<and> rm_chunks r ! i = c else is_chunk p m' i c)"
  by (simp add: is_chunk_def put_msg_def)

lemma put_simps [simp]:
  "bp_current (put_msg m r p) = bp_current p" "freeptr_of (put_msg m r p) = freeptr_of p" "bp_rbuf_size (put_msg m r p) = bp_rbuf_size p"
  "bp_max_rmsg_size (put_msg m r p) = bp_max_rmsg_size p" "chunk_ok (put_msg m r p) = chunk_ok p" "sizes_ok (put_msg m r p) = sizes_ok p"
  "bp_bufs (put_msg m r p) = bp_bufs p" "bp_msgs (put_msg m r p) = (bp_msgs p)(m \<mapsto> r)"
  by (simp_all add: put_msg_def freeptr_of_def chunk_ok_def sizes_ok_def fun_eq_iff)

text \<open>The last chunk of a message is set: an own one grows, or a new one begins at \<open>freeptr\<close>.\<close>

lemma put_last_inv:
  assumes i: "counts (put_msg m r p) (\<lambda>b. of_bool (b = bp_current p))" "sizes_ok p" "apart p" "msgs_ok p"
    and pl: "\<And>m' i c. is_chunk p m' i c \<Longrightarrow> (m', i) \<noteq> (m, length cs) \<Longrightarrow> chunk_ok p i c \<and> cend c \<le> freeptr_of p (ck_rbuf c)"
    and cs: "rm_chunks r = cs @ [c]" "\<And>i. i < length cs \<Longrightarrow> is_chunk p m i (cs ! i)"
    and r: "RMSG_REFCOUNT_UNCOMMITTED_BIAS \<le> rm_refcount r" "ck_rbuf c = bp_current p" "chunk_ok p (length cs) c"
      "cstart (length cs) c = freeptr_of p (bp_current p)" "freeptr_of p (bp_current p) + bp_max_rmsg_size p + 48 \<le> bp_rbuf_size p"
  shows "pool_inv (put_msg m r p) (Filling m)"
proof -
  let ?p = "put_msg m r p"
  have ch: "is_chunk ?p m' i x \<longleftrightarrow> (if (m', i) = (m, length cs) then x = c
      else if m' = m then i < length cs \<and> x = cs ! i else is_chunk p m' i x)" for m' i x
    using cs(1) by (auto simp: is_chunk_put nth_append)
  have old: "is_chunk p m' i x" if "is_chunk ?p m' i x" "(m', i) \<noteq> (m, length cs)" for m' i x
    using that cs(2) by (auto simp: ch split: if_splits)
  have "places ?p (Some (m, length cs))"
    unfolding places_def put_simps
  proof (intro allI impI)
    fix m' i x assume x: "is_chunk ?p m' i x"
    show "chunk_ok p i x \<and> (Some (m, length cs) = Some (m', i) \<or> cend x \<le> freeptr_of p (ck_rbuf x))"
    proof (cases "(m', i) = (m, length cs)")
      case True
      then show ?thesis using x r(3) by (simp add: ch)
    qed (use pl old [OF x] in auto)
  qed
  moreover from this have "apart ?p"
  proof (rule apartI)
    show "cstart (length cs) x = freeptr_of ?p (ck_rbuf x)" if "is_chunk ?p m (length cs) x" for x
      using that r(2,4) by (simp add: ch)
  next
    fix m1 i1 c1 m2 i2 c2
    assume a: "is_chunk ?p m1 i1 c1" "is_chunk ?p m2 i2 c2" "(m1, i1) \<noteq> (m, length cs)" "(m2, i2) \<noteq> (m, length cs)"
      "(m1, i1) \<noteq> (m2, i2)" "ck_rbuf c1 = ck_rbuf c2"
    show "cend c1 \<le> cstart i2 c2 \<or> cend c2 \<le> cstart i1 c1"
      using i(3) old [OF a(1,3)] old [OF a(2,4)] a(5,6) unfolding apart_def by blast
  qed
  moreover have "msgs_ok ?p" using i(4) cs(1) r(1) by (auto simp: msgs_ok_def RMSG_REFCOUNT_UNCOMMITTED_BIAS_def)
  ultimately show ?thesis using i(1,2) r cs(1) by (simp add: pool_inv_def)
qed

lemma add_live_spec:
  assumes "pool_inv p Idle"
  shows "\<exists>p1. rbuf_add_live (bp_current p) p = Some p1 \<and> released p p1
    \<and> counts p1 (\<lambda>b. of_bool (b = bp_current p) + of_bool (b = bp_current p))"
proof -
  obtain rb where rb: "bp_bufs p (bp_current p) = Some rb" using current_alloc [OF assms] by blast
  let ?p = "p\<lparr>bp_bufs := (bp_bufs p)(bp_current p \<mapsto> rb\<lparr>rb_n_live_rmsg_chunks := rb_n_live_rmsg_chunks rb + 1\<rparr>)\<rparr>"
  note c = countsD [OF pool_invD(1) [OF assms]]
  have "buf_count ?p b (of_bool (b = bp_current p) + of_bool (b = bp_current p) + live_chunks p b)" for b
    using c(2) [of b] rb by (cases "b = bp_current p") (auto simp: buf_count_def)
  then have "counts ?p (\<lambda>b. of_bool (b = bp_current p) + of_bool (b = bp_current p))"
    using c(1) unfolding counts_def live_chunks_bufs by simp
  moreover have "released p ?p" unfolding released_def using rb by (intro exI [of _ "bp_bufs ?p"]) auto
  ultimately show ?thesis using rb by (simp add: rbuf_add_live_def)
qed

lemma chunks_in_Cons [simp]: "chunks_in b (r\<lparr>rm_chunks := cs\<rparr>) = count_list (map ck_rbuf cs) b"
  by (simp add: chunks_in_def)

lemma count_list_snoc: "count_list (xs @ [x]) y = count_list xs y + of_bool (x = y)"
  by (induction xs) auto

lemma open_new_chunk:
  assumes p: "pool_inv p Idle" "freeptr_of p (bp_current p) + bp_max_rmsg_size p + 48 \<le> bp_rbuf_size p"
    and r: "rm_chunks r = chunks_of p m @ [c]" "RMSG_REFCOUNT_UNCOMMITTED_BIAS \<le> rm_refcount r" "ck_rbuf c = bp_current p"
      "chunk_ok p (length (chunks_of p m)) c" "cstart (length (chunks_of p m)) c = freeptr_of p (bp_current p)"
  shows "\<exists>p1. rbuf_add_live (bp_current p) p = Some p1 \<and> pool_inv (put_msg m r p1) (Filling m)"
proof -
  note i = pool_invD [OF p(1)]
  obtain p1 where p1: "rbuf_add_live (bp_current p) p = Some p1" "released p p1"
      "counts p1 (\<lambda>b. of_bool (b = bp_current p) + of_bool (b = bp_current p))"
    using add_live_spec [OF p(1)] by blast
  note rl = released_simps [OF p1(2)]
  have s: "sizes_ok p1" "places p1 None" "apart p1" "msgs_ok p1"
    using released_inv [OF p1(2,3)] i by auto
  have "bp_bufs p1 (bp_current p) \<noteq> None" using counts_alloc [OF p1(3), of "bp_current p"] by auto
  then have f: "freeptr_of p1 (bp_current p) = freeptr_of p (bp_current p)" by (rule rl(8))
  have co: "chunks_in b r = count_list (map ck_rbuf (chunks_of p m)) b + of_bool (b = bp_current p)" for b
    using r(1,3) by (auto simp: chunks_in_def count_list_snoc)
  have "pool_inv (put_msg m r p1) (Filling m)"
  proof (rule put_last_inv [where cs = "chunks_of p m" and c = c])
    show "counts (put_msg m r p1) (\<lambda>b. of_bool (b = bp_current p1))"
      using p1(3)
    proof (rule counts_put)
      show "of_bool (b = bp_current p1) + chunks_in b r = of_bool (b = bp_current p) + of_bool (b = bp_current p)
          + (case bp_msgs p1 m of None \<Rightarrow> 0 | Some r0 \<Rightarrow> chunks_in b r0)" for b
        using co [of b] by (cases "bp_msgs p m") (simp_all add: rl chunks_of_def chunks_in_def)
    qed
    show "chunk_ok p1 i x \<and> cend x \<le> freeptr_of p1 (ck_rbuf x)" if "is_chunk p1 m' i x" for m' i x
      using s(2) that by (simp add: places_def)
    show "is_chunk p1 m i (chunks_of p m ! i)" if "i < length (chunks_of p m)" for i
      using that by (auto simp: rl(2) is_chunk_def chunks_of_def split: option.splits)
  qed (use s r p(2) f rl in auto)
  with p1(1) show ?thesis by blast
qed

text \<open>The chunk being filled is resized.\<close>

lemma resize_last:
  assumes p: "pool_inv p (Filling m)" "bp_msgs p m = Some r" and n: "n \<le> bp_max_rmsg_size p" "8 dvd n"
  shows "pool_inv (put_msg m (r\<lparr>rm_chunks := butlast (rm_chunks r) @ [(last (rm_chunks r))\<lparr>ck_size := n\<rparr>]\<rparr>) p) (Filling m)"
proof -
  note i = pool_invD [OF p(1)]
  let ?cs = "butlast (rm_chunks r)" and ?c = "last (rm_chunks r)"
  have ne: "rm_chunks r \<noteq> []" using i(5) p(2) by (simp add: msgs_ok_def)
  then have e: "rm_chunks r = ?cs @ [?c]" by simp
  have len: "length ?cs = length (rm_chunks r) - 1" by simp
  have op: "open_chunk p (Filling m) = Some (m, length ?cs)" using p(2) by simp
  have k: "chunk_ok p (length ?cs) ?c"
    using i(3) last_is_chunk [OF p(2) ne, of ?c] unfolding len places_def by blast
  have q: "RMSG_REFCOUNT_UNCOMMITTED_BIAS \<le> rm_refcount r" "ck_rbuf ?c = bp_current p"
      "cstart (length ?cs) ?c = freeptr_of p (bp_current p)" "freeptr_of p (bp_current p) + bp_max_rmsg_size p + 48 \<le> bp_rbuf_size p"
    using i(6) p(2) len by simp_all
  have same: "chunks_in b (r\<lparr>rm_chunks := ?cs @ [?c\<lparr>ck_size := n\<rparr>]\<rparr>) = chunks_in b r" for b
    using arg_cong [OF e, of "\<lambda>cs. count_list (map ck_rbuf cs) b"] by (simp add: chunks_in_def count_list_snoc)
  show ?thesis
  proof (rule put_last_inv [where cs = ?cs and c = "?c\<lparr>ck_size := n\<rparr>"])
    show "counts (put_msg m (r\<lparr>rm_chunks := ?cs @ [?c\<lparr>ck_size := n\<rparr>]\<rparr>) p) (\<lambda>b. of_bool (b = bp_current p))"
      using i(1) by (rule counts_put) (simp add: p(2) same del: chunks_in_Cons)
    show "chunk_ok p j x \<and> cend x \<le> freeptr_of p (ck_rbuf x)" if "is_chunk p m' j x" "(m', j) \<noteq> (m, length ?cs)" for m' j x
      using i(3) that unfolding places_def op by auto
    show "is_chunk p m j (?cs ! j)" if "j < length ?cs" for j
      using that p(2) by (simp add: is_chunk_def nth_butlast)
  qed (use i q k n in \<open>auto simp: chunk_ok_def cstart_def\<close>)
qed

section \<open>Allocating messages and memory in them\<close>

lemma rmsg_new_spec:
  assumes "pool_inv p Idle" "bp_bufs p b = None" "bp_msgs p m = None"
  shows "\<exists>p'. pool_rmsg_new b m p = Some p' \<and> pool_inv p' (Filling m)
    \<and> (\<exists>c. bp_msgs p' m = Some \<lparr>rm_refcount = RMSG_REFCOUNT_UNCOMMITTED_BIAS, rm_chunks = [c]\<rparr> \<and> ck_size c = 0)"
proof -
  obtain off p1 where p1: "nn_rbuf_alloc b p = Some (off, p1)" "pool_inv p1 Idle" "off = freeptr_of p1 (bp_current p1)"
      "off + bp_max_rmsg_size p1 + 48 \<le> bp_rbuf_size p1" "bp_msgs p1 = bp_msgs p"
    using rbuf_alloc_spec [OF assms(1,2)] by blast
  let ?c = "\<lparr>ck_rbuf = bp_current p1, ck_off = off + offsetof_rmsg_chunk, ck_size = 0\<rparr>"
  let ?r = "\<lparr>rm_refcount = RMSG_REFCOUNT_UNCOMMITTED_BIAS, rm_chunks = [?c]\<rparr>"
  have "8 dvd off" using freeptr_of_alloc [OF pool_invD(2) [OF p1(2)]] p1(3) by simp
  then have k: "chunk_ok p1 0 ?c" by (simp add: chunk_ok_def offsetof_rmsg_chunk_def)
  have c0: "chunks_of p1 m = []" using p1(5) assms(3) by (simp add: chunks_of_def)
  obtain p2 where "rbuf_add_live (bp_current p1) p1 = Some p2" "pool_inv (put_msg m ?r p2) (Filling m)"
    using open_new_chunk [OF p1(2), of ?r m ?c] p1(3,4) k c0 by (auto simp: cstart_def)
  then show ?thesis using p1(1) by (simp add: pool_rmsg_new_def init_rmsg_chunk_def)
qed

lemma setsize_spec:
  assumes "pool_inv p (Filling m)" "bp_msgs p m = Some r" "length (rm_chunks r) = 1" "align_rmsg sz \<le> bp_max_rmsg_size p"
  shows "\<exists>p'. nn_rmsg_setsize m sz p = Some p' \<and> pool_inv p' (Filling m)"
proof -
  obtain c where c: "rm_chunks r = [c]" using assms(3) by (auto simp: length_Suc_conv)
  show ?thesis using resize_last [OF assms(1,2,4)] assms(2) c by (simp add: nn_rmsg_setsize_def)
qed

text \<open>What is handed out lies behind every chunk there was in its buffer.\<close>

definition fresh_block :: "nn_rbufpool \<Rightarrow> nn_rbufpool \<Rightarrow> rmsg_id \<Rightarrow> rbuf_id \<times> nat \<Rightarrow> nat \<Rightarrow> bool" where
  "fresh_block p p' m ptr n \<longleftrightarrow> 8 dvd snd ptr \<and> snd ptr + n \<le> bp_rbuf_size p
     \<and> (\<forall>m' i c. is_chunk p m' i c \<and> ck_rbuf c = fst ptr \<longrightarrow> cend c \<le> snd ptr)
     \<and> (\<exists>i c. is_chunk p' m i c \<and> ck_rbuf c = fst ptr \<and> cstart i c \<le> snd ptr \<and> snd ptr + n = cend c)"

lemma alloc_same_chunk:
  assumes "pool_inv p (Filling m)" "bp_msgs p m = Some r" "ck_size (last (rm_chunks r)) + n \<le> bp_max_rmsg_size p" "8 dvd n"
  defines "c \<equiv> last (rm_chunks r)"
  defines "p' \<equiv> put_msg m (r\<lparr>rm_chunks := butlast (rm_chunks r) @ [c\<lparr>ck_size := ck_size c + n\<rparr>]\<rparr>) p"
  shows "pool_inv p' (Filling m) \<and> fresh_block p p' m (ck_rbuf c, ck_off c + sizeof_rmsg_chunk + ck_size c) n"
proof -
  note i = pool_invD [OF assms(1)]
  let ?j = "length (rm_chunks r) - 1"
  have ne: "rm_chunks r \<noteq> []" using i(5) assms(2) by (simp add: msgs_ok_def)
  have k: "chunk_ok p ?j c" using i(3) last_is_chunk [OF assms(2) ne, of c] unfolding c_def places_def by blast
  have ph: "ck_rbuf c = bp_current p" "cstart ?j c = freeptr_of p (bp_current p)"
      "freeptr_of p (bp_current p) + bp_max_rmsg_size p + 48 \<le> bp_rbuf_size p"
    using i(6) assms(2) by (simp_all add: c_def)
  have "pool_inv p' (Filling m)"
    unfolding p'_def c_def using k assms(3,4) by (intro resize_last [OF assms(1,2)]) (auto simp: chunk_ok_def c_def)
  moreover have "cend x \<le> cend c" if x: "is_chunk p m' j x" "ck_rbuf x = ck_rbuf c" for m' j x
  proof (cases "(m', j) = (m, ?j)")
    case True
    then show ?thesis using x last_is_chunk [OF assms(2) ne] by (simp add: c_def)
  next
    case False
    then have "cend x \<le> freeptr_of p (bp_current p)"
      using placesD [OF i(3) x(1)] x(2) ph(1) assms(2) by auto
    also have "\<dots> \<le> cend c" using ph(2) by (auto simp: cstart_def cend_def split: if_splits)
    finally show ?thesis .
  qed
  moreover have "is_chunk p' m ?j (c\<lparr>ck_size := ck_size c + n\<rparr>)"
    by (simp add: p'_def is_chunk_put nth_append ne)
  moreover have "cend c + n \<le> bp_rbuf_size p" "8 dvd cend c"
    using ph(2,3) assms(3) k
    by (auto simp: cend_def cstart_def c_def chunk_ok_def sizeof_rmsg_chunk_def offsetof_rmsg_chunk_def split: if_splits)
  moreover have "cstart ?j c \<le> cend c" by (auto simp: cstart_def cend_def)
  ultimately show ?thesis
    by (auto simp: fresh_block_def cend_def cstart_def intro!: exI [of _ ?j] exI [of _ "c\<lparr>ck_size := ck_size c + n\<rparr>"])
qed

lemma alloc_new_chunk:
  assumes "pool_inv p (Filling m)" "bp_msgs p m = Some r" "bp_bufs p b = None" "n \<le> bp_max_rmsg_size p" "8 dvd n"
  shows "\<exists>p1 off p2 p3 c. commit_rmsg_chunk (last (rm_chunks r)) p = Some p1 \<and> nn_rbuf_alloc b p1 = Some (off, p2)
    \<and> init_rmsg_chunk off p2 = Some (c, p3) \<and> ck_size c = 0
    \<and> pool_inv (put_msg m (r\<lparr>rm_chunks := rm_chunks r @ [c\<lparr>ck_size := n\<rparr>]\<rparr>) p3) (Filling m)
    \<and> fresh_block p (put_msg m (r\<lparr>rm_chunks := rm_chunks r @ [c\<lparr>ck_size := n\<rparr>]\<rparr>) p3) m (ck_rbuf c, ck_off c + sizeof_rmsg_chunk) n"
proof -
  obtain p1 where p1: "commit_rmsg_chunk (last (rm_chunks r)) p = Some p1" "pool_inv p1 Idle" "bp_msgs p1 = bp_msgs p"
      "bp_max_rmsg_size p1 = bp_max_rmsg_size p" "bp_rbuf_size p1 = bp_rbuf_size p" "bp_bufs p1 b = None"
    using commit_chunk_spec [OF fill_commit [OF assms(1,2)]] assms(3) by auto
  obtain off p2 where p2: "nn_rbuf_alloc b p1 = Some (off, p2)" "pool_inv p2 Idle" "off = freeptr_of p2 (bp_current p2)"
      "off + bp_max_rmsg_size p2 + 48 \<le> bp_rbuf_size p2" "bp_msgs p2 = bp_msgs p1"
      "bp_max_rmsg_size p2 = bp_max_rmsg_size p1" "bp_rbuf_size p2 = bp_rbuf_size p1"
    using rbuf_alloc_spec [OF p1(2,6)] by blast
  let ?c = "\<lparr>ck_rbuf = bp_current p2, ck_off = off, ck_size = 0\<rparr>"
  let ?r = "r\<lparr>rm_chunks := rm_chunks r @ [?c\<lparr>ck_size := n\<rparr>]\<rparr>"
  have cs: "chunks_of p2 m = rm_chunks r" using p1(3) p2(5) assms(2) by (simp add: chunks_of_def)
  have r: "rm_chunks r \<noteq> []" "RMSG_REFCOUNT_UNCOMMITTED_BIAS \<le> rm_refcount r"
    using pool_invD(5,6) [OF assms(1)] assms(2) by (auto simp: msgs_ok_def)
  have d: "8 dvd off" using freeptr_of_alloc [OF pool_invD(2) [OF p2(2)]] p2(3) by simp
  obtain p3 where p3: "rbuf_add_live (bp_current p2) p2 = Some p3" "pool_inv (put_msg m ?r p3) (Filling m)"
    using open_new_chunk [OF p2(2), of ?r m "?c\<lparr>ck_size := n\<rparr>"] p2(3,4,6) p1(4) r d assms(4,5)
    by (auto simp: cs chunk_ok_def cstart_def)
  have "cend x \<le> off + 24" if "is_chunk p m' i x" "ck_rbuf x = bp_current p2" for m' i x
    using placesD [OF pool_invD(3) [OF p2(2)], of m' i x] that p2(3,5) p1(3) by (simp add: is_chunk_def)
  moreover have "is_chunk (put_msg m ?r p3) m (length (rm_chunks r)) (?c\<lparr>ck_size := n\<rparr>)" by (simp add: is_chunk_put)
  moreover have "cend (?c\<lparr>ck_size := n\<rparr>) = off + 24 + n" by (simp add: cend_def sizeof_rmsg_chunk_def)
  moreover have "off + 24 + n \<le> bp_rbuf_size p" using p2(4,6,7) p1(4,5) assms(4) by simp
  moreover have "fresh_block p (put_msg m ?r p3) m (bp_current p2, off + sizeof_rmsg_chunk) n"
    unfolding fresh_block_def fst_conv snd_conv sizeof_rmsg_chunk_def
    using calculation d r(1) by (auto simp: cstart_def
      intro!: exI [of _ "length (rm_chunks r)"] exI [of _ "?c\<lparr>ck_size := n\<rparr>"])
  ultimately show ?thesis using p1(1) p2(1) p3 by (auto simp: init_rmsg_chunk_def)
qed

lemma rmsg_alloc_spec:
  assumes "pool_inv p (Filling m)" "bp_bufs p b = None" "align_rmsg sz \<le> bp_max_rmsg_size p"
  shows "\<exists>ptr p'. nn_rmsg_alloc b m sz p = Some (ptr, p') \<and> pool_inv p' (Filling m) \<and> fresh_block p p' m ptr (align_rmsg sz)"
proof -
  note i = pool_invD [OF assms(1)]
  obtain r where r: "bp_msgs p m = Some r" "ck_rbuf (last (rm_chunks r)) = bp_current p" using i(6) by auto
  obtain rb where rb: "bp_bufs p (bp_current p) = Some rb" using current_alloc [OF assms(1)] by blast
  then have mx: "rb_max_rmsg_size rb = bp_max_rmsg_size p" using i(2) by (auto simp: sizes_ok_def)
  show ?thesis
  proof (cases "ck_size (last (rm_chunks r)) + align_rmsg sz > bp_max_rmsg_size p")
    case True
    then show ?thesis using alloc_new_chunk [OF assms(1) r(1) assms(2,3) align_rmsg_dvd] r rb mx
      by (auto simp: nn_rmsg_alloc_def Let_def)
  next
    case False
    then show ?thesis using alloc_same_chunk [OF assms(1) r(1) _ align_rmsg_dvd, of sz] r rb mx
      by (auto simp: nn_rmsg_alloc_def Let_def not_less)
  qed
qed

section \<open>Runs\<close>

text \<open>
  The steps of the receive thread on the message it is filling, and of all threads on messages they
  hold references to. A reference that is given back must be there (the ledger of \<open>Reorder\<close> and
  \<open>Defrag\<close>); while a message is filled its bias is not one of them.
\<close>

datatype rx_op = RNew rbuf_id rmsg_id | RSetsize nat | RAlloc rbuf_id nat | RAddbias | RRmbias rmsg_id int | RUnref rmsg_id
  | RCommitSubtract | RCommitChunk

fun rx_step :: "rx_op \<Rightarrow> nn_rbufpool \<times> rx_phase \<Rightarrow> (nn_rbufpool \<times> rx_phase) option" where
  "rx_step (RNew b m) (p, ph) = map_option (\<lambda>p'. (p', Filling m)) (pool_rmsg_new b m p)"
| "rx_step (RSetsize sz) (p, Filling m) = map_option (\<lambda>p'. (p', Filling m)) (nn_rmsg_setsize m sz p)"
| "rx_step (RAlloc b sz) (p, Filling m) = map_option (\<lambda>(ptr, p'). (p', Filling m)) (nn_rmsg_alloc b m sz p)"
| "rx_step RAddbias (p, Filling m) = map_option (\<lambda>p'. (p', Filling m)) (pool_rmsg_addbias m p)"
| "rx_step (RRmbias m k) (p, ph) = map_option (\<lambda>p'. (p', ph)) (pool_rmsg_rmbias_and_adjust m k p)"
| "rx_step (RUnref m) (p, ph) = map_option (\<lambda>p'. (p', ph)) (pool_rmsg_unref m p)"
| "rx_step RCommitSubtract (p, Filling m) =
     map_option (\<lambda>(c, p'). (p', case c of None \<Rightarrow> Idle | Some ch \<Rightarrow> Committing m (length (chunks_of p m) - 1) ch)) (commit_subtract m p)"
| "rx_step RCommitChunk (p, Committing m i c) = map_option (\<lambda>p'. (p', Idle)) (commit_rmsg_chunk c p)"
| "rx_step op st = None"

definition refs_left :: "nn_rbufpool \<Rightarrow> rx_phase \<Rightarrow> rmsg_id \<Rightarrow> int" where
  "refs_left p ph m = (case bp_msgs p m of None \<Rightarrow> 0
     | Some r \<Rightarrow> rm_refcount r - (if ph = Filling m then RMSG_REFCOUNT_UNCOMMITTED_BIAS else 0))"

fun rx_ok :: "rx_op \<Rightarrow> nn_rbufpool \<times> rx_phase \<Rightarrow> bool" where
  "rx_ok (RNew b m) (p, ph) \<longleftrightarrow> ph = Idle \<and> bp_bufs p b = None \<and> bp_msgs p m = None"
| "rx_ok (RSetsize sz) (p, ph) \<longleftrightarrow> (case ph of Filling m \<Rightarrow> length (chunks_of p m) = 1 \<and> align_rmsg sz \<le> bp_max_rmsg_size p | _ \<Rightarrow> False)"
| "rx_ok (RAlloc b sz) (p, ph) \<longleftrightarrow> (case ph of Filling m \<Rightarrow> bp_bufs p b = None \<and> align_rmsg sz \<le> bp_max_rmsg_size p | _ \<Rightarrow> False)"
| "rx_ok RAddbias (p, ph) \<longleftrightarrow> (case ph of Filling m \<Rightarrow> True | _ \<Rightarrow> False)"
| "rx_ok (RRmbias m k) (p, ph) \<longleftrightarrow> bp_msgs p m \<noteq> None \<and> 0 \<le> k \<and> k < RMSG_REFCOUNT_RDATA_BIAS \<and> RMSG_REFCOUNT_RDATA_BIAS - k \<le> refs_left p ph m"
| "rx_ok (RUnref m) (p, ph) \<longleftrightarrow> bp_msgs p m \<noteq> None \<and> 1 \<le> refs_left p ph m"
| "rx_ok RCommitSubtract (p, ph) \<longleftrightarrow> (case ph of Filling m \<Rightarrow> True | _ \<Rightarrow> False)"
| "rx_ok RCommitChunk (p, ph) \<longleftrightarrow> (case ph of Committing m i c \<Rightarrow> True | _ \<Rightarrow> False)"

fun rx_run :: "nn_rbufpool \<times> rx_phase \<Rightarrow> rx_op list \<Rightarrow> (nn_rbufpool \<times> rx_phase) option" where
  "rx_run st [] = Some st"
| "rx_run st (op # ops) = Option.bind (rx_step op st) (\<lambda>st'. rx_run st' ops)"

fun rx_oks :: "nn_rbufpool \<times> rx_phase \<Rightarrow> rx_op list \<Rightarrow> bool" where
  "rx_oks st [] \<longleftrightarrow> True"
| "rx_oks st (op # ops) \<longleftrightarrow> rx_ok op st \<and> (case rx_step op st of None \<Rightarrow> True | Some st' \<Rightarrow> rx_oks st' ops)"

lemma setsize_chunks:
  assumes "pool_inv p (Filling m)" "length (chunks_of p m) = 1" "align_rmsg sz \<le> bp_max_rmsg_size p"
  shows "\<exists>p'. nn_rmsg_setsize m sz p = Some p' \<and> pool_inv p' (Filling m)"
  using pool_invD(6) [OF assms(1)] assms by (auto simp: chunks_of_def intro: setsize_spec)

lemma sub_left:
  assumes "pool_inv p ph" "bp_msgs p m \<noteq> None" "0 \<le> k" "k \<le> refs_left p ph m"
  shows "\<exists>p'. rmsg_sub m k p = Some p' \<and> pool_inv p' ph"
proof -
  obtain r where r: "bp_msgs p m = Some r" using assms(2) by auto
  have "k \<le> rm_refcount r" "ph = Filling m \<Longrightarrow> RMSG_REFCOUNT_UNCOMMITTED_BIAS \<le> rm_refcount r - k"
    using assms(4) r by (auto simp: refs_left_def RMSG_REFCOUNT_UNCOMMITTED_BIAS_def split: if_splits)
  then show ?thesis using rmsg_sub_spec [OF assms(1) r] by blast
qed

lemma commit_subtract_step:
  assumes "pool_inv p (Filling m)"
  shows "\<exists>st. rx_step RCommitSubtract (p, Filling m) = Some st \<and> pool_inv (fst st) (snd st)"
proof -
  obtain r where r: "bp_msgs p m = Some r" "RMSG_REFCOUNT_UNCOMMITTED_BIAS \<le> rm_refcount r"
    using pool_invD(6) [OF assms] by auto
  obtain p' where p': "rmsg_sub m RMSG_REFCOUNT_UNCOMMITTED_BIAS p = Some p'"
    "pool_inv p' (Committing m (length (rm_chunks r) - 1) (last (rm_chunks r)))"
    "bp_msgs p' = (bp_msgs p)(m := if rm_refcount r = RMSG_REFCOUNT_UNCOMMITTED_BIAS then None
       else Some (r\<lparr>rm_refcount := rm_refcount r - RMSG_REFCOUNT_UNCOMMITTED_BIAS\<rparr>))"
    using rmsg_sub_spec [OF fill_commit [OF assms r(1)] r] by auto
  show ?thesis using p' r committing_gone [OF p'(2)] by (simp add: commit_subtract_def chunks_of_def)
qed

lemma rx_step_inv:
  assumes "pool_inv p ph" "rx_ok op (p, ph)"
  shows "\<exists>st. rx_step op (p, ph) = Some st \<and> pool_inv (fst st) (snd st)"
proof (cases op)
  case (RNew b m)
  then show ?thesis using assms rmsg_new_spec [of p b m] by auto
next
  case (RSetsize sz)
  then show ?thesis using assms setsize_chunks [of p _ sz] by (auto split: rx_phase.splits)
next
  case (RAlloc b sz)
  then show ?thesis using assms rmsg_alloc_spec [of p _ b sz] by (fastforce split: rx_phase.splits)
next
  case RAddbias
  then obtain m where ph: "ph = Filling m" using assms(2) by (auto split: rx_phase.splits)
  obtain r where r: "bp_msgs p m = Some r" "RMSG_REFCOUNT_UNCOMMITTED_BIAS \<le> rm_refcount r"
    using pool_invD(6) [OF assms(1)] ph by auto
  then show ?thesis using put_refcount_inv [OF assms(1) r(1), of "rm_refcount r + RMSG_REFCOUNT_RDATA_BIAS"] RAddbias ph
    by (simp add: pool_rmsg_addbias_def RMSG_REFCOUNT_RDATA_BIAS_def RMSG_REFCOUNT_UNCOMMITTED_BIAS_def)
next
  case (RRmbias m k)
  then show ?thesis using assms sub_left [OF assms(1), of m "RMSG_REFCOUNT_RDATA_BIAS - k"]
    by (auto simp: pool_rmsg_rmbias_and_adjust_def)
next
  case (RUnref m)
  then show ?thesis using assms sub_left [OF assms(1), of m 1] by (auto simp: pool_rmsg_unref_def)
next
  case RCommitSubtract
  then obtain m where "ph = Filling m" using assms(2) by (auto split: rx_phase.splits)
  then show ?thesis using commit_subtract_step assms(1) RCommitSubtract by blast
next
  case RCommitChunk
  then obtain m i c where ph: "ph = Committing m i c" using assms(2) by (auto split: rx_phase.splits)
  then show ?thesis using commit_chunk_spec [of p m i c] assms(1) RCommitChunk by auto
qed

lemma rx_run_inv:
  assumes "pool_inv (fst st) (snd st)" "rx_oks st ops"
  shows "\<exists>st'. rx_run st ops = Some st' \<and> pool_inv (fst st') (snd st')"
  using assms
proof (induction ops arbitrary: st)
  case (Cons op ops)
  obtain st1 where "rx_step op st = Some st1" "pool_inv (fst st1) (snd st1)"
    using rx_step_inv [of "fst st" "snd st" op] Cons.prems by auto
  with Cons show ?case by auto
qed simp

lemma pool_new_inv:
  assumes "max_size + 48 < 2 ^ 32"
  shows "pool_inv (nn_rbufpool_new b rbuf_size max_size) Idle"
proof -
  have w: "max_rmsg_size_w_hdr max_size = max_size + 48"
    using assms by (simp add: max_rmsg_size_w_hdr_def max_uint32_def offsetof_rmsg_chunk_def sizeof_rmsg_chunk_def)
  show ?thesis using assms
    by (auto simp: pool_inv_def nn_rbufpool_new_def nn_rbuf_alloc_new_def Let_def w counts_def buf_count_def live_chunks_def
      sizes_ok_def places_def apart_def msgs_ok_def is_chunk_def)
qed

lemma pool_buffers:
  assumes "pool_inv p ph"
  shows "bp_bufs p b \<noteq> None \<longleftrightarrow> b = bp_current p \<or> (\<exists>m i c. is_chunk p m i c \<and> ck_rbuf c = b)"
proof
  assume "bp_bufs p b \<noteq> None"
  then have "0 < of_bool (b = bp_current p) + live_chunks p b"
    using countsD(2) [OF pool_invD(1) [OF assms], of b] by (auto simp: buf_count_def)
  then have "b \<noteq> bp_current p \<Longrightarrow> \<exists>m\<in>dom (bp_msgs p). chunks_in b (the (bp_msgs p m)) \<noteq> 0"
    by - (rule ccontr, simp add: live_chunks_def)
  moreover have "\<exists>i c. is_chunk p m i c \<and> ck_rbuf c = b" if h: "m \<in> dom (bp_msgs p)" "chunks_in b (the (bp_msgs p m)) \<noteq> 0" for m
  proof -
    obtain r where r: "bp_msgs p m = Some r" using h(1) by blast
    then have "b \<in> set (map ck_rbuf (rm_chunks r))" using h(2) unfolding chunks_in_def by (simp only: count_list_0_iff option.sel not_not)
    then show ?thesis using r by (auto simp: is_chunk_def in_set_conv_nth)
  qed
  ultimately show "b = bp_current p \<or> (\<exists>m i c. is_chunk p m i c \<and> ck_rbuf c = b)" by blast
next
  assume "b = bp_current p \<or> (\<exists>m i c. is_chunk p m i c \<and> ck_rbuf c = b)"
  then show "bp_bufs p b \<noteq> None" using current_alloc [OF assms] chunk_buf [OF pool_invD(1) [OF assms]] by auto
qed

lemma pool_chunk_inside:
  assumes "pool_inv p ph" "is_chunk p m i c" "bp_bufs p (ck_rbuf c) = Some rb"
  shows "cend c \<le> rb_size rb"
proof -
  note i = pool_invD [OF assms(1)]
  have s: "rb_size rb = bp_rbuf_size p" using i(2) assms(3) by (auto simp: sizes_ok_def)
  show ?thesis
  proof (cases "open_chunk p ph = Some (m, i)")
    case False
    then show ?thesis using placesD [OF i(3) assms(2)] freeptr_of_alloc [OF i(2), of "ck_rbuf c"] s by auto
  next
    case True
    then show ?thesis
    proof (cases ph)
      case (Filling m')
      then have m: "m' = m" using True by simp
      obtain r where r: "bp_msgs p m = Some r" using assms(2) by (auto simp: is_chunk_def split: option.splits)
      then have "is_chunk p m (length (rm_chunks r) - 1) c" using True Filling m r assms(2) by auto
      then have "c = last (rm_chunks r)" using last_is_chunk [OF r] i(5) r by (auto simp: msgs_ok_def)
      then show ?thesis using fill_commit [of p m r] assms(1) Filling m r s by (simp add: pool_inv_def)
    qed (use True i(6) assms(2) s in auto)
  qed
qed

section \<open>Properties\<close>

text \<open>C12: Memory safety of the receive buffers. Whatever the receive thread allocates and whatever other
  threads release meanwhile, even between the two effects of \<open>nn_rmsg_commit\<close>: nothing that was freed is
  accessed, every chunk of a live message lies inside an allocated buffer, no two chunks overlap, a buffer is
  allocated exactly as long as it is the current one or holds a chunk of a live message, and when no message is
  left, freeing the pool leaves no buffer behind.\<close>

theorem rbuf_run_safe:
  assumes "max_size + 48 < 2 ^ 32" "rx_oks (nn_rbufpool_new b0 rbuf_size max_size, Idle) ops"
  shows "\<exists>p ph. rx_run (nn_rbufpool_new b0 rbuf_size max_size, Idle) ops = Some (p, ph)
    \<and> (\<forall>m i c. is_chunk p m i c \<longrightarrow> (\<exists>rb. bp_bufs p (ck_rbuf c) = Some rb \<and> cend c \<le> rb_size rb))
    \<and> apart p
    \<and> (\<forall>b. bp_bufs p b \<noteq> None \<longleftrightarrow> b = bp_current p \<or> (\<exists>m i c. is_chunk p m i c \<and> ck_rbuf c = b))
    \<and> (bp_msgs p = Map.empty \<longrightarrow> (\<exists>p'. nn_rbufpool_free p = Some p' \<and> bp_bufs p' = Map.empty))"
proof -
  obtain p ph where p: "rx_run (nn_rbufpool_new b0 rbuf_size max_size, Idle) ops = Some (p, ph)" "pool_inv p ph"
    using rx_run_inv [OF _ assms(2)] pool_new_inv [OF assms(1)] by auto
  note i = pool_invD [OF p(2)]
  have "\<exists>p'. nn_rbufpool_free p = Some p' \<and> bp_bufs p' = Map.empty" if e: "bp_msgs p = Map.empty"
  proof -
    obtain p' where p': "nn_rbuf_release (bp_current p) p = Some p'" "counts p' (\<lambda>b. 0)" "released p p'"
      using release_spec [of p "\<lambda>b. 0" "bp_current p"] i(1) by auto
    have "bp_bufs p' b = None" for b
      using countsD(2) [OF p'(2), of b] released_simps(2) [OF p'(3)] e
      by (auto simp: buf_count_def live_chunks_def split: option.splits)
    then show ?thesis using p'(1) by (auto simp: nn_rbufpool_free_def)
  qed
  moreover have "\<exists>rb. bp_bufs p (ck_rbuf c) = Some rb \<and> cend c \<le> rb_size rb" if "is_chunk p m j c" for m j c
    using chunk_buf [OF i(1) that] pool_chunk_inside [OF p(2) that] by blast
  ultimately show ?thesis using p(1) i(4) pool_buffers [OF p(2)] by blast
qed

lemmas rx_defs = nn_rbufpool_new_def nn_rbuf_alloc_new_def nn_rbuf_release_def nn_rbuf_new_def nn_rbuf_alloc_def rbuf_add_live_def
  init_rmsg_chunk_def put_msg_def pool_rmsg_new_def nn_rmsg_setsize_def nn_rmsg_free_def commit_rmsg_chunk_def rmsg_sub_def
  commit_subtract_def pool_rmsg_addbias_def pool_rmsg_rmbias_and_adjust_def pool_rmsg_unref_def nn_rmsg_alloc_def align_rmsg_def
  ALIGNOF_RMSG_def max_uint32_def max_rmsg_size_w_hdr_def offsetof_rmsg_chunk_def sizeof_rmsg_chunk_def refs_left_def chunks_of_def
  RMSG_REFCOUNT_UNCOMMITTED_BIAS_def RMSG_REFCOUNT_RDATA_BIAS_def Let_def

definition demo_rx :: "rx_op list" where
  "demo_rx = [RNew 1 10, RSetsize 60, RAlloc 1 40, RAddbias, RAlloc 1 40, RCommitSubtract, RRmbias 10 1, RCommitChunk,
     RNew 2 11, RCommitSubtract, RUnref 10]"

theorem rbuf_run_safe_witness:
  "\<exists>p ph. rx_run (nn_rbufpool_new 0 0 128, Idle) demo_rx = Some (p, ph) \<and> apart p"
proof -
  have "rx_oks (nn_rbufpool_new 0 0 128, Idle) demo_rx" unfolding demo_rx_def by (simp add: rx_defs)
  from rbuf_run_safe [OF _ this] show ?thesis by auto
qed

text \<open>\<open>nn_rmsg_alloc\<close> hands out memory that is aligned, inside one chunk of the message in an allocated
  buffer, large enough, and behind everything that any live message holds in that buffer.\<close>

theorem rmsg_alloc_fresh:
  assumes "pool_inv p (Filling m)" "bp_bufs p b = None" "align_rmsg sz \<le> bp_max_rmsg_size p" "sz < 2 ^ 32 - 7"
  shows "\<exists>rbuf off p'. nn_rmsg_alloc b m sz p = Some ((rbuf, off), p') \<and> pool_inv p' (Filling m)
    \<and> 8 dvd off \<and> sz \<le> align_rmsg sz \<and> align_rmsg sz < sz + 8 \<and> off + align_rmsg sz \<le> bp_rbuf_size p
    \<and> (\<forall>m' i c. is_chunk p m' i c \<and> ck_rbuf c = rbuf \<longrightarrow> cend c \<le> off)
    \<and> (\<exists>i c. is_chunk p' m i c \<and> ck_rbuf c = rbuf \<and> cstart i c \<le> off \<and> off + align_rmsg sz = cend c)"
  using rmsg_alloc_spec [OF assms(1-3)] align_rmsg_spec [OF assms(4)] unfolding fresh_block_def by fastforce

theorem rmsg_alloc_fresh_witness:
  "\<exists>rbuf off p'. nn_rmsg_alloc 2 10 40 (the (pool_rmsg_new 1 10 (nn_rbufpool_new 0 0 128))) = Some ((rbuf, off), p') \<and> 8 dvd off"
proof -
  let ?p = "nn_rbufpool_new 0 0 128"
  have "bp_bufs ?p 1 = None" "bp_msgs ?p 10 = None" by (simp_all add: rx_defs)
  then have i: "pool_inv (the (pool_rmsg_new 1 10 ?p)) (Filling 10)"
    using rmsg_new_spec [OF pool_new_inv, of 128 0 0 1 10] by auto
  have h: "bp_bufs (the (pool_rmsg_new 1 10 ?p)) 2 = None"
    "align_rmsg 40 \<le> bp_max_rmsg_size (the (pool_rmsg_new 1 10 ?p))" by (simp_all add: rx_defs)
  show ?thesis using rmsg_alloc_fresh [OF i h] by auto
qed

text \<open>The reference counts are the ledger of \<open>Rmsg\<close>, in which a freed message counts 0.\<close>

definition ledger :: "nn_rbufpool \<Rightarrow> refcounts" where
  "ledger p = (\<lambda>m. case bp_msgs p m of None \<Rightarrow> 0 | Some r \<Rightarrow> rm_refcount r)"

lemma ledger_cong: "bp_msgs p' = bp_msgs p \<Longrightarrow> ledger p' = ledger p"
  by (simp add: ledger_def)

lemma ledger_put: "ledger (put_msg m r p) = (ledger p)(m := rm_refcount r)"
  by (auto simp: ledger_def put_msg_def)

lemma release_msgs: "nn_rbuf_release b p = Some p' \<Longrightarrow> bp_msgs p' = bp_msgs p"
  by (auto simp: nn_rbuf_release_def split: bind_splits)

lemma release_chunks_msgs: "release_chunks cs p = Some p' \<Longrightarrow> bp_msgs p' = bp_msgs p"
  by (induction cs arbitrary: p) (auto split: bind_splits dest: release_msgs)

lemma rbuf_alloc_msgs: "nn_rbuf_alloc b p = Some (off, p') \<Longrightarrow> bp_msgs p' = bp_msgs p"
  by (auto simp: nn_rbuf_alloc_def nn_rbuf_new_def nn_rbuf_alloc_new_def Let_def split: bind_splits if_splits dest!: release_msgs)

lemma init_chunk_msgs: "init_rmsg_chunk off p = Some (c, p') \<Longrightarrow> bp_msgs p' = bp_msgs p"
  by (auto simp: init_rmsg_chunk_def rbuf_add_live_def split: bind_splits)

lemma commit_chunk_msgs: "commit_rmsg_chunk c p = Some p' \<Longrightarrow> bp_msgs p' = bp_msgs p"
  by (auto simp: commit_rmsg_chunk_def split: bind_splits)

lemma ledger_sub: "rmsg_sub m k p = Some p' \<Longrightarrow> ledger p' = (ledger p)(m := ledger p m - k)"
  by (auto simp: rmsg_sub_def nn_rmsg_free_def Let_def ledger_def put_msg_def fun_eq_iff
    split: bind_splits if_splits dest!: release_chunks_msgs)

text \<open>The reference counts inside the buffers are the ledger with which reordering and defragmentation
  account for references: creating, committing, biasing and releasing a message change one as the other, setting
  its size and allocating in it leave the counts alone, and freeing the message is the count becoming 0.\<close>

theorem pool_refines_ledger:
  "(pool_rmsg_new b m p = Some p1 \<longrightarrow> ledger p1 = nn_rmsg_new m (ledger p))
   \<and> (pool_rmsg_addbias m p = Some p2 \<longrightarrow> ledger p2 = nn_rmsg_addbias m (ledger p))
   \<and> (pool_rmsg_rmbias_and_adjust m k p = Some p3 \<longrightarrow> ledger p3 = nn_rmsg_rmbias_and_adjust m k (ledger p))
   \<and> (pool_rmsg_unref m p = Some p4 \<longrightarrow> ledger p4 = nn_rmsg_unref m (ledger p))
   \<and> (pool_rmsg_commit m p = Some p5 \<longrightarrow> ledger p5 = nn_rmsg_commit m (ledger p))
   \<and> (nn_rmsg_setsize m sz p = Some p6 \<longrightarrow> ledger p6 = ledger p)
   \<and> (nn_rmsg_alloc b m sz p = Some (ptr, p7) \<longrightarrow> ledger p7 = ledger p)"
proof (intro conjI impI)
  show "ledger p1 = nn_rmsg_new m (ledger p)" if "pool_rmsg_new b m p = Some p1"
    using that by (auto simp: pool_rmsg_new_def nn_rmsg_new_def ledger_put split: bind_splits
      dest!: init_chunk_msgs rbuf_alloc_msgs) (simp add: ledger_def)
  show "ledger p2 = nn_rmsg_addbias m (ledger p)" if "pool_rmsg_addbias m p = Some p2"
    using that by (auto simp: pool_rmsg_addbias_def nn_rmsg_addbias_def ledger_put ledger_def split: bind_splits)
  show "ledger p3 = nn_rmsg_rmbias_and_adjust m k (ledger p)" if "pool_rmsg_rmbias_and_adjust m k p = Some p3"
    using that by (simp add: pool_rmsg_rmbias_and_adjust_def nn_rmsg_rmbias_and_adjust_def ledger_sub Let_def)
  show "ledger p4 = nn_rmsg_unref m (ledger p)" if "pool_rmsg_unref m p = Some p4"
    using that by (simp add: pool_rmsg_unref_def nn_rmsg_unref_def ledger_sub)
  show "ledger p5 = nn_rmsg_commit m (ledger p)" if "pool_rmsg_commit m p = Some p5"
    using that by (auto simp: pool_rmsg_commit_def commit_subtract_def nn_rmsg_commit_def split: bind_splits option.splits if_splits
      dest!: ledger_sub commit_chunk_msgs dest: ledger_cong)
  show "ledger p6 = ledger p" if "nn_rmsg_setsize m sz p = Some p6"
    using that by (auto simp: nn_rmsg_setsize_def ledger_put ledger_def split: bind_splits)
  show "ledger p7 = ledger p" if "nn_rmsg_alloc b m sz p = Some (ptr, p7)"
    using that by (auto simp: nn_rmsg_alloc_def ledger_put Let_def split: bind_splits if_splits
      dest!: init_chunk_msgs rbuf_alloc_msgs commit_chunk_msgs) (auto simp: ledger_def)
qed

theorem pool_refines_ledger_witness:
  "ledger (the (pool_rmsg_new 1 10 (nn_rbufpool_new 0 0 128))) = nn_rmsg_new 10 (ledger (nn_rbufpool_new 0 0 128))"
  by (rule pool_refines_ledger [THEN conjunct1, THEN mp]) (simp add: rx_defs)

end
