(* ===== verification/Whc.thy ===== *)
theory Whc
  imports Ordered_Index
begin

text \<open>
  The writer history cache: core/ddsc/src/dds_whc.c. It keeps the samples a writer may have to
  send again: those that not all reliable readers have acknowledged, and, for a transient-local
  writer, the history that late-joining readers get.

  A \<open>whc_node\<close> is named by its sequence number. \<open>wh_nodes\<close> is both the linked list through
  \<open>next_seq\<close> and \<open>prev_seq\<close> and the contents of \<open>seq_hash\<close> (deferring the relinking to the end of a
  run of deletions is not visible under the lock). \<open>wh_seq\<close> is the interval tree in order, an interval being
  \<open>(min, maxp1)\<close>; its \<open>first\<close> and \<open>last\<close> are the nodes with these numbers, \<open>first = NULL\<close> is \<open>min = maxp1\<close>, and
  \<open>open_intv\<close> is the last one. The circular array \<open>hist\<close> of an instance holds names of nodes.
  \<open>wh_refs\<close> counts the references to serialised samples that the cache holds or has lent. Whether
  a sample is empty, unregisters its instance and how large it is, is what \<open>ddsi_serdata\<close> says.
  The deadline and lifespan administrations are told about instances and samples; they do not act
  on the cache but through \<open>whc_sample_expired_cb\<close>, which is given the samples they hand out.
  \<open>whc_default_downgrade_to_volatile\<close> is never called in the repository and is left out.
\<close>

type_synonym iid = nat

record whc_serdata =
  sd_id :: nat
  sd_size :: nat
  sd_empty :: bool
  sd_unregister :: bool

record whc_node =
  wn_seq :: seqno
  wn_idxnode :: "iid option"
  wn_idxnode_pos :: nat
  wn_total_bytes :: nat
  wn_size :: nat
  wn_plist :: "nat option"
  wn_unacked :: bool
  wn_borrowed :: bool
  wn_last_rexmit_ts :: int
  wn_rexmit_count :: nat
  wn_serdata :: whc_serdata

type_synonym whc_intvnode = "seqno \<times> seqno"

record whc_idxnode =
  in_prune_seq :: seqno
  in_headidx :: nat
  in_hist :: "seqno option list"

record whc_writer_info =
  wi_is_transient_local :: bool
  wi_has_deadline :: bool
  wi_hdepth :: nat
  wi_tldepth :: nat
  wi_idxdepth :: nat

record whc =
  wh_seq_size :: nat
  wh_unacked_bytes :: nat
  wh_sample_overhead :: nat
  wh_fragment_size :: nat
  wh_total_bytes :: nat
  wh_wrinfo :: whc_writer_info
  wh_max_drop_seq :: seqno
  wh_maxseq_node :: "seqno option"
  wh_nodes :: "whc_node list"
  wh_seq :: "whc_intvnode list"
  wh_idx_hash :: "iid \<rightharpoonup> whc_idxnode"
  wh_refs :: "nat \<Rightarrow> int"

record whc_state =
  ws_min_seq :: seqno
  ws_max_seq :: seqno
  ws_unacked_bytes :: nat

section \<open>Creation\<close>

datatype history_kind = DDS_HISTORY_KEEP_LAST nat | DDS_HISTORY_KEEP_ALL

definition whc_make_wrinfo :: "bool \<Rightarrow> bool \<Rightarrow> history_kind \<Rightarrow> history_kind \<Rightarrow> whc_writer_info" where
  "whc_make_wrinfo transient_local has_deadline history durability_service_history =
     (let hdepth = (case history of DDS_HISTORY_KEEP_ALL \<Rightarrow> 0 | DDS_HISTORY_KEEP_LAST d \<Rightarrow> d);
          tldepth = (if \<not> transient_local then 0
            else case durability_service_history of DDS_HISTORY_KEEP_ALL \<Rightarrow> 0 | DDS_HISTORY_KEEP_LAST d \<Rightarrow> d)
      in \<lparr>wi_is_transient_local = transient_local, wi_has_deadline = has_deadline, wi_hdepth = hdepth, wi_tldepth = tldepth,
          wi_idxdepth = (if hdepth > tldepth then hdepth else tldepth)\<rparr>)"

definition whc_new :: "nat \<Rightarrow> whc_writer_info \<Rightarrow> whc" where
  "whc_new fragment_size wrinfo =
     \<lparr>wh_seq_size = 0, wh_unacked_bytes = 0, wh_sample_overhead = 80, wh_fragment_size = fragment_size, wh_total_bytes = 0,
      wh_wrinfo = wrinfo, wh_max_drop_seq = 0, wh_maxseq_node = None, wh_nodes = [], wh_seq = [(1, 1)],
      wh_idx_hash = Map.empty, wh_refs = (\<lambda>_. 0)\<rparr>"

section \<open>Looking up\<close>

definition whc_findseq :: "whc \<Rightarrow> seqno \<Rightarrow> whc_node option" where
  "whc_findseq w s = idx_lookup wn_seq s (wh_nodes w)"

text \<open>\<open>whcn->next_seq\<close>, \<open>whcn->prev_seq\<close>\<close>

definition next_seq_of :: "whc \<Rightarrow> whc_node \<Rightarrow> whc_node option" where
  "next_seq_of w n = idx_succ wn_seq (wn_seq n) (wh_nodes w)"

definition prev_seq_of :: "whc \<Rightarrow> whc_node \<Rightarrow> whc_node option" where
  "prev_seq_of w n = idx_pred wn_seq (wn_seq n) (wh_nodes w)"

definition open_intv :: "whc \<Rightarrow> whc_intvnode" where
  "open_intv w = last (wh_seq w)"

definition whc_findmax_procedurally :: "whc \<Rightarrow> seqno option" where
  "whc_findmax_procedurally w =
     (if wh_seq_size w = 0 then None
      else if fst (open_intv w) < snd (open_intv w) then Some (snd (open_intv w) - 1)
      else map_option (\<lambda>intv. snd intv - 1) (idx_pred fst (fst (open_intv w)) (wh_seq w)))"

definition get_state_locked :: "whc \<Rightarrow> whc_state" where
  "get_state_locked w =
     (if wh_seq_size w = 0 then \<lparr>ws_min_seq = 0, ws_max_seq = 0, ws_unacked_bytes = 0\<rparr>
      else \<lparr>ws_min_seq = fst (hd (wh_seq w)), ws_max_seq = the (wh_maxseq_node w), ws_unacked_bytes = wh_unacked_bytes w\<rparr>)"

definition find_nextseq_intv :: "whc \<Rightarrow> seqno \<Rightarrow> (whc_intvnode option \<times> whc_node) option" where
  "find_nextseq_intv w s =
     (case whc_findseq w s of
        None \<Rightarrow>
          (case idx_succ_eq fst s (wh_seq w) of
             None \<Rightarrow> None
           | Some intv \<Rightarrow>
               if fst intv < snd intv then map_option (\<lambda>n. (Some intv, n)) (whc_findseq w (fst intv)) else None)
      | Some n \<Rightarrow> map_option (\<lambda>n'. (idx_pred_eq fst (wn_seq n') (wh_seq w), n')) (next_seq_of w n))"

definition whc_default_next_seq :: "whc \<Rightarrow> seqno \<Rightarrow> seqno" where
  "whc_default_next_seq w s = (case find_nextseq_intv w s of None \<Rightarrow> MAX_SEQ_NUMBER | Some (_, n) \<Rightarrow> wn_seq n)"

definition whc_findkey :: "(whc_serdata \<Rightarrow> iid) \<Rightarrow> whc \<Rightarrow> whc_serdata \<Rightarrow> whc_node option" where
  "whc_findkey tkmap_lookup w serdata_key =
     (case wh_idx_hash w (tkmap_lookup serdata_key) of
        None \<Rightarrow> None
      | Some n \<Rightarrow> Option.bind (in_hist n ! in_headidx n) (whc_findseq w))"

section \<open>Deleting\<close>

definition upd_node :: "seqno \<Rightarrow> (whc_node \<Rightarrow> whc_node) \<Rightarrow> whc \<Rightarrow> whc" where
  "upd_node s f w = w\<lparr>wh_nodes := map (\<lambda>n. if wn_seq n = s then f n else n) (wh_nodes w)\<rparr>"

definition delete_one_sample_from_idx :: "whc_node \<Rightarrow> whc \<Rightarrow> whc" where
  "delete_one_sample_from_idx n w =
     (case wn_idxnode n of
        None \<Rightarrow> w
      | Some i \<Rightarrow>
          w\<lparr>wh_idx_hash := (wh_idx_hash w)(i := map_option (\<lambda>x. x\<lparr>in_hist := (in_hist x)[wn_idxnode_pos n := None]\<rparr>) (wh_idx_hash w i))\<rparr>)"

text \<open>The interval tree without \<open>s\<close>, and the interval to go on with.\<close>

definition intv_delete :: "whc_intvnode list \<Rightarrow> whc_intvnode \<Rightarrow> seqno \<Rightarrow> whc_intvnode list \<times> whc_intvnode option" where
  "intv_delete t intv s =
     (if s = fst intv then
        (if s = snd intv - 1 \<and> intv \<noteq> last t then (idx_delete fst (fst intv) t, idx_succ fst (fst intv) t)
         else (idx_update fst (fst intv) (fst intv + 1, snd intv) t, Some (fst intv + 1, snd intv)))
      else if s = snd intv - 1 then (idx_update fst (fst intv) (fst intv, snd intv - 1) t, idx_succ fst (fst intv) t)
      else (idx_insert fst (s + 1, snd intv) (idx_update fst (fst intv) (fst intv, s) t), Some (s + 1, snd intv)))"

definition ack_node :: "whc_node \<Rightarrow> whc \<Rightarrow> whc" where
  "ack_node n w =
     (if wn_unacked n then
        upd_node (wn_seq n) (\<lambda>n. n\<lparr>wn_unacked := False\<rparr>) (w\<lparr>wh_unacked_bytes := wh_unacked_bytes w - wn_size n\<rparr>)
      else w)"

definition whc_delete_one_intv :: "whc \<Rightarrow> whc_intvnode option \<Rightarrow> whc_node \<Rightarrow> whc \<times> whc_intvnode option" where
  "whc_delete_one_intv w p_intv n =
     (let w1 = delete_one_sample_from_idx n w;
          w2 = ack_node n w1;
          w3 = w2\<lparr>wh_nodes := idx_delete wn_seq (wn_seq n) (wh_nodes w2)\<rparr>
      in case p_intv of
           None \<Rightarrow> (w3, None)
         | Some intv \<Rightarrow> (case intv_delete (wh_seq w3) intv (wn_seq n) of (t, next_intv) \<Rightarrow> (w3\<lparr>wh_seq := t\<rparr>, next_intv)))"

definition free_whc_node_contents :: "whc_node \<Rightarrow> whc \<Rightarrow> whc" where
  "free_whc_node_contents n w = w\<lparr>wh_refs := (wh_refs w)(sd_id (wn_serdata n) := wh_refs w (sd_id (wn_serdata n)) - 1)\<rparr>"

fun free_deferred_free_list :: "whc_node list \<Rightarrow> whc \<Rightarrow> whc" where
  "free_deferred_free_list [] w = w"
| "free_deferred_free_list (cur # rest) w =
     free_deferred_free_list rest (if \<not> wn_borrowed cur then free_whc_node_contents cur w else w)"

definition whc_delete_one :: "whc \<Rightarrow> whc_node \<Rightarrow> whc" where
  "whc_delete_one w n =
     (let (w1, _) = whc_delete_one_intv w (idx_pred_eq fst (wn_seq n) (wh_seq w)) n;
          w2 = free_deferred_free_list [n] w1
      in w2\<lparr>wh_seq_size := wh_seq_size w2 - 1\<rparr>)"

text \<open>Deleting the node with a given name, as \<open>hist\<close> and the lifespan administration have it.\<close>

definition whc_delete_seq :: "whc \<Rightarrow> seqno \<Rightarrow> whc" where
  "whc_delete_seq w s = (case whc_findseq w s of None \<Rightarrow> w | Some n \<Rightarrow> whc_delete_one w n)"

fun free_hist :: "seqno \<Rightarrow> seqno option list \<Rightarrow> whc \<Rightarrow> whc" where
  "free_hist max_drop [] w = w"
| "free_hist max_drop (None # hist) w = free_hist max_drop hist w"
| "free_hist max_drop (Some s # hist) w =
     free_hist max_drop hist
       (let w1 = upd_node s (\<lambda>n. n\<lparr>wn_idxnode := None\<rparr>) w in if s \<le> max_drop then whc_delete_seq w1 s else w1)"

definition delete_one_instance_from_idx :: "whc \<Rightarrow> seqno \<Rightarrow> iid \<Rightarrow> whc_idxnode \<Rightarrow> whc" where
  "delete_one_instance_from_idx w max_drop i idxn =
     free_hist max_drop (in_hist idxn) (w\<lparr>wh_idx_hash := (wh_idx_hash w)(i := None)\<rparr>)"

definition whcn_in_tlidx :: "whc \<Rightarrow> iid option \<Rightarrow> nat \<Rightarrow> bool" where
  "whcn_in_tlidx w idxn pos =
     (case Option.bind idxn (wh_idx_hash w) of
        None \<Rightarrow> False
      | Some x \<Rightarrow>
          (let d = (in_headidx x + (if pos > in_headidx x then wi_idxdepth (wh_wrinfo w) else 0)) - pos
           in d < wi_tldepth (wh_wrinfo w)))"

section \<open>Acknowledgements\<close>

text \<open>All nodes of a singly linked tail, from the node \<open>find_nextseq_intv\<close> gives on.\<close>

definition nodes_from :: "whc \<Rightarrow> whc_node option \<Rightarrow> whc_node list" where
  "nodes_from w n = (case n of None \<Rightarrow> [] | Some x \<Rightarrow> filter (\<lambda>y. wn_seq x \<le> wn_seq y) (wh_nodes w))"

text \<open>
  The list from \<open>intv->first\<close> on, after \<open>whcn->next_seq = NULL\<close>: it ends at \<open>whcn\<close>, unless \<open>whcn\<close> is not on
  it. The differences are of types \<open>uint32_t\<close> and \<open>size_t\<close>.
\<close>

definition list_to :: "whc_node \<Rightarrow> whc_node list \<Rightarrow> whc_node list" where
  "list_to n ns = (if n \<in> set ns then takeWhile (\<lambda>x. x \<noteq> n) ns @ [n] else ns)"

definition minus32 :: "nat \<Rightarrow> nat \<Rightarrow> nat" where
  "minus32 a b = nat ((int a - int b) mod 2 ^ 32)"

definition minus64 :: "nat \<Rightarrow> nat \<Rightarrow> nat" where
  "minus64 a b = nat ((int a - int b) mod 2 ^ 64)"

definition whc_default_remove_acked_messages_noidx :: "whc \<Rightarrow> seqno \<Rightarrow> whc \<times> whc_node list \<times> nat" where
  "whc_default_remove_acked_messages_noidx w max_drop =
     (if max_drop \<le> wh_max_drop_seq w \<or> wh_maxseq_node w = None then
        ((if max_drop > wh_max_drop_seq w then w\<lparr>wh_max_drop_seq := max_drop\<rparr> else w), [], 0)
      else
        (let intv = open_intv w;
             target = (case whc_findseq w max_drop of
                 Some n \<Rightarrow> Some n
               | None \<Rightarrow> if max_drop < fst intv then None else Option.bind (wh_maxseq_node w) (whc_findseq w))
         in case target of
              None \<Rightarrow> ((if max_drop > wh_max_drop_seq w then w\<lparr>wh_max_drop_seq := max_drop\<rparr> else w), [], 0)
            | Some n \<Rightarrow>
                (let freed = list_to n (nodes_from w (whc_findseq w (fst intv)));
                     keep = filter (\<lambda>x. x \<notin> set freed) (wh_nodes w);
                     all = (next_seq_of w n = None);
                     ndropped = minus32 (wn_seq n + 1) (fst intv);
                     intv' = (max_drop + 1, if all then max_drop + 1 else snd intv);
                     bytes = minus64 (wn_total_bytes n + wn_size (hd freed)) (wn_total_bytes (hd freed))
                 in (w\<lparr>wh_seq := butlast (wh_seq w) @ [intv'], wh_nodes := keep,
                       wh_maxseq_node := (if all then None else wh_maxseq_node w),
                       wh_unacked_bytes := minus64 (wh_unacked_bytes w) bytes, wh_seq_size := minus32 (wh_seq_size w) ndropped,
                       wh_max_drop_seq := max_drop\<rparr>, freed, ndropped))))"

fun ack_loop :: "seqno \<Rightarrow> whc_node list \<Rightarrow> whc \<Rightarrow> whc" where
  "ack_loop max_drop [] w = w"
| "ack_loop max_drop (n # ns) w = (if wn_seq n \<le> max_drop then ack_loop max_drop ns (ack_node n w) else w)"

text \<open>The first pass: keep what is in the transient-local history, delete the rest.\<close>

fun remove_loop :: "seqno \<Rightarrow> whc_node list \<Rightarrow> whc_intvnode option \<Rightarrow> whc \<Rightarrow> whc_node list \<Rightarrow> whc \<times> whc_node list" where
  "remove_loop max_drop [] p_intv w freed = (w, freed)"
| "remove_loop max_drop (n # ns) p_intv w freed =
     (if wn_seq n \<le> max_drop then
        (if whcn_in_tlidx w (wn_idxnode n) (wn_idxnode_pos n) then
           remove_loop max_drop ns
             (case p_intv of
                None \<Rightarrow> None
              | Some intv \<Rightarrow> if wn_seq n = snd intv - 1 then idx_succ fst (fst intv) (wh_seq w) else Some intv)
             (ack_node n w) freed
         else
           (case whc_delete_one_intv w p_intv n of
              (w1, next_intv) \<Rightarrow> remove_loop max_drop ns next_intv w1 (freed @ [n])))
      else (w, freed))"

text \<open>The \<open>cnt\<close> places that follow the head, the oldest of the history, are cleared.\<close>

fun prune_hist :: "iid \<Rightarrow> nat \<Rightarrow> nat \<Rightarrow> whc \<Rightarrow> whc" where
  "prune_hist i idx 0 w = w"
| "prune_hist i idx (Suc cnt) w =
     (let idx' = (if idx + 1 = wi_idxdepth (wh_wrinfo w) then 0 else idx + 1)
      in prune_hist i idx' cnt
           (case Option.bind (wh_idx_hash w i) (\<lambda>x. in_hist x ! idx') of None \<Rightarrow> w | Some s \<Rightarrow> whc_delete_seq w s))"

fun prune_loop :: "seqno \<Rightarrow> whc_node list \<Rightarrow> whc \<Rightarrow> whc" where
  "prune_loop max_drop [] w = w"
| "prune_loop max_drop (n # ns) w =
     (if wn_seq n \<le> max_drop then
        (case Option.bind (wn_idxnode n) (\<lambda>i. map_option (\<lambda>x. (i, x)) (wh_idx_hash w i)) of
           None \<Rightarrow> prune_loop max_drop ns w
         | Some (i, idxn) \<Rightarrow>
             if in_prune_seq idxn = max_drop then prune_loop max_drop ns w
             else
               prune_loop max_drop ns
                 (prune_hist i (in_headidx idxn) (wi_idxdepth (wh_wrinfo w) - wi_tldepth (wh_wrinfo w))
                   (w\<lparr>wh_idx_hash := (wh_idx_hash w)(i \<mapsto> idxn\<lparr>in_prune_seq := max_drop\<rparr>)\<rparr>)))
      else w)"

text \<open>The second pass: what has dropped out of the transient-local history of the instances met.\<close>

definition prune_pass :: "seqno \<Rightarrow> whc \<Rightarrow> whc" where
  "prune_pass max_drop w =
     (if wi_tldepth (wh_wrinfo w) > 0 \<and> wi_idxdepth (wh_wrinfo w) > wi_tldepth (wh_wrinfo w) then
        prune_loop max_drop (nodes_from w (map_option snd (find_nextseq_intv w (wh_max_drop_seq w)))) w
      else w)"

definition whc_default_remove_acked_messages_full :: "whc \<Rightarrow> seqno \<Rightarrow> whc \<times> whc_node list \<times> nat" where
  "whc_default_remove_acked_messages_full w max_drop =
     (let start = find_nextseq_intv w (wh_max_drop_seq w);
          ns = nodes_from w (map_option snd start)
      in if wi_is_transient_local (wh_wrinfo w) \<and> wi_tldepth (wh_wrinfo w) = 0 then
           ((ack_loop max_drop ns w)\<lparr>wh_max_drop_seq := max_drop\<rparr>, [], 0)
         else
           (let (w1, freed) = remove_loop max_drop ns (Option.bind start fst) w [];
                ndropped = length freed;
                w2 = prune_pass max_drop w1;
                w3 = w2\<lparr>wh_seq_size := wh_seq_size w2 - ndropped\<rparr>
            in (w3\<lparr>wh_maxseq_node := whc_findmax_procedurally w3, wh_max_drop_seq := max_drop\<rparr>, freed, ndropped)))"

definition whc_default_remove_acked_messages :: "whc \<Rightarrow> seqno \<Rightarrow> whc \<times> whc_node list \<times> nat \<times> whc_state" where
  "whc_default_remove_acked_messages w max_drop =
     (let wi = wh_wrinfo w;
          (w1, freed, cnt) =
            (if wi_idxdepth wi = 0 \<and> \<not> wi_has_deadline wi \<and> \<not> wi_is_transient_local wi then
               whc_default_remove_acked_messages_noidx w max_drop
             else whc_default_remove_acked_messages_full w max_drop)
      in (w1, freed, cnt, get_state_locked w1))"

section \<open>Inserting\<close>

definition whcn_size :: "whc \<Rightarrow> whc_serdata \<Rightarrow> nat" where
  "whcn_size w serdata =
     (let sz = sd_size serdata
      in sz + ((sz + wh_fragment_size w - 1) div wh_fragment_size w) * wh_sample_overhead w)"

definition new_whcn :: "whc \<Rightarrow> seqno \<Rightarrow> seqno \<Rightarrow> nat option \<Rightarrow> whc_serdata \<Rightarrow> whc_node" where
  "new_whcn w max_drop s plist serdata =
     \<lparr>wn_seq = s, wn_idxnode = None, wn_idxnode_pos = 0, wn_total_bytes = wh_total_bytes w + whcn_size w serdata,
      wn_size = whcn_size w serdata, wn_plist = plist, wn_unacked = (s > max_drop), wn_borrowed = False,
      wn_last_rexmit_ts = 0, wn_rexmit_count = 0, wn_serdata = serdata\<rparr>"

definition whc_default_insert_seq :: "whc \<Rightarrow> seqno \<Rightarrow> seqno \<Rightarrow> nat option \<Rightarrow> whc_serdata \<Rightarrow> whc" where
  "whc_default_insert_seq w max_drop s plist serdata =
     (let newn = new_whcn w max_drop s plist serdata;
          intv = open_intv w;
          t = (if fst intv = snd intv then butlast (wh_seq w) @ [(s, s + 1)]
               else if snd intv = s then butlast (wh_seq w) @ [(fst intv, s + 1)]
               else idx_insert fst (s, s + 1) (wh_seq w))
      in w\<lparr>wh_nodes := wh_nodes w @ [newn], wh_maxseq_node := Some s, wh_total_bytes := wn_total_bytes newn,
           wh_unacked_bytes := wh_unacked_bytes w + (if wn_unacked newn then wn_size newn else 0), wh_seq := t,
           wh_seq_size := wh_seq_size w + 1, wh_refs := (wh_refs w)(sd_id serdata := wh_refs w (sd_id serdata) + 1)\<rparr>)"

text \<open>An unregistering sample that nobody has to be sent is dropped again.\<close>

definition drop_unregister :: "seqno \<Rightarrow> seqno \<Rightarrow> whc \<Rightarrow> whc" where
  "drop_unregister max_drop s w =
     (if s \<le> max_drop then
        (let prev_seq = Option.bind (whc_findseq w s) (prev_seq_of w)
         in (whc_delete_seq w s)\<lparr>wh_maxseq_node := map_option wn_seq prev_seq\<rparr>)
      else w)"

text \<open>The new sample becomes the head of the instance's history, overwriting the oldest one.\<close>

definition put_head :: "iid \<Rightarrow> seqno \<Rightarrow> whc_idxnode \<Rightarrow> whc \<Rightarrow> whc" where
  "put_head i s idxn w =
     (let head = (if in_headidx idxn + 1 = wi_idxdepth (wh_wrinfo w) then 0 else in_headidx idxn + 1);
          w1 = (case in_hist idxn ! head of None \<Rightarrow> w | Some old \<Rightarrow> upd_node old (\<lambda>n. n\<lparr>wn_idxnode := None\<rparr>) w)
      in upd_node s (\<lambda>n. n\<lparr>wn_idxnode := Some i, wn_idxnode_pos := head\<rparr>)
           (w1\<lparr>wh_idx_hash := (wh_idx_hash w1)(i \<mapsto> idxn\<lparr>in_headidx := head, in_hist := (in_hist idxn)[head := Some s]\<rparr>)\<rparr>))"

definition prune_overwritten :: "seqno \<Rightarrow> seqno option \<Rightarrow> whc \<Rightarrow> whc" where
  "prune_overwritten max_drop oldn w =
     (case oldn of
        None \<Rightarrow> w
      | Some old \<Rightarrow>
          if (wi_hdepth (wh_wrinfo w) > 0 \<or> old \<le> max_drop) \<and> (\<not> wi_is_transient_local (wh_wrinfo w) \<or> wi_tldepth (wh_wrinfo w) > 0) then
            (let w1 = whc_delete_seq w old
             in if wh_maxseq_node w1 = Some old then w1\<lparr>wh_maxseq_node := whc_findmax_procedurally w1\<rparr> else w1)
          else w)"

definition prune_tl :: "seqno \<Rightarrow> seqno \<Rightarrow> iid \<Rightarrow> whc \<Rightarrow> whc" where
  "prune_tl max_drop s i w =
     (let depth = wi_idxdepth (wh_wrinfo w); tldepth = wi_tldepth (wh_wrinfo w)
      in if s \<le> max_drop \<and> tldepth > 0 \<and> depth > tldepth then
           (case wh_idx_hash w i of
              None \<Rightarrow> w
            | Some idxn \<Rightarrow>
                (let pos0 = in_headidx idxn + depth - tldepth; pos = (if pos0 \<ge> depth then pos0 - depth else pos0)
                 in case in_hist idxn ! pos of None \<Rightarrow> w | Some old \<Rightarrow> whc_delete_seq w old))
         else w)"

definition new_instance :: "iid \<Rightarrow> seqno \<Rightarrow> whc \<Rightarrow> whc" where
  "new_instance i s w =
     (let depth = wi_idxdepth (wh_wrinfo w);
          idxn = \<lparr>in_prune_seq = 0, in_headidx = 0, in_hist = (if depth > 0 then Some s # replicate (depth - 1) None else [])\<rparr>;
          w1 = (if depth > 0 then upd_node s (\<lambda>n. n\<lparr>wn_idxnode := Some i, wn_idxnode_pos := 0\<rparr>) w else w)
      in w1\<lparr>wh_idx_hash := (wh_idx_hash w1)(i \<mapsto> idxn)\<rparr>)"

definition whc_default_insert :: "whc \<Rightarrow> seqno \<Rightarrow> seqno \<Rightarrow> nat option \<Rightarrow> whc_serdata \<Rightarrow> iid \<Rightarrow> whc" where
  "whc_default_insert w max_drop s plist serdata i =
     (let w1 = whc_default_insert_seq w max_drop s plist serdata
      in if sd_empty serdata then w1
         else
           (case wh_idx_hash w1 i of
              Some idxn \<Rightarrow>
                if sd_unregister serdata then drop_unregister max_drop s (delete_one_instance_from_idx w1 max_drop i idxn)
                else if wi_idxdepth (wh_wrinfo w1) > 0 then
                  (let head = (if in_headidx idxn + 1 = wi_idxdepth (wh_wrinfo w1) then 0 else in_headidx idxn + 1)
                   in prune_tl max_drop s i (prune_overwritten max_drop (in_hist idxn ! head) (put_head i s idxn w1)))
                else w1
            | None \<Rightarrow> if \<not> sd_unregister serdata then new_instance i s w1 else drop_unregister max_drop s w1))"

section \<open>Lending samples\<close>

record whc_borrowed_sample =
  bs_seq :: seqno
  bs_serdata :: whc_serdata
  bs_plist :: "nat option"
  bs_unacked :: bool
  bs_last_rexmit_ts :: int
  bs_rexmit_count :: nat

definition make_borrowed_sample :: "whc_node \<Rightarrow> whc \<Rightarrow> whc_borrowed_sample \<times> whc" where
  "make_borrowed_sample n w =
     (\<lparr>bs_seq = wn_seq n, bs_serdata = wn_serdata n, bs_plist = wn_plist n, bs_unacked = wn_unacked n,
       bs_last_rexmit_ts = wn_last_rexmit_ts n, bs_rexmit_count = wn_rexmit_count n\<rparr>,
      upd_node (wn_seq n) (\<lambda>n. n\<lparr>wn_borrowed := True\<rparr>) w)"

definition whc_default_borrow_sample :: "whc \<Rightarrow> seqno \<Rightarrow> (whc_borrowed_sample \<times> whc) option" where
  "whc_default_borrow_sample w s = map_option (\<lambda>n. make_borrowed_sample n w) (whc_findseq w s)"

definition whc_default_borrow_sample_key ::
  "(whc_serdata \<Rightarrow> iid) \<Rightarrow> whc \<Rightarrow> whc_serdata \<Rightarrow> (whc_borrowed_sample \<times> whc) option" where
  "whc_default_borrow_sample_key tkmap_lookup w serdata_key =
     map_option (\<lambda>n. make_borrowed_sample n w) (whc_findkey tkmap_lookup w serdata_key)"

text \<open>A sample that has gone from the cache meanwhile belonged to the borrower, who now releases it.\<close>

definition return_sample_locked :: "whc \<Rightarrow> whc_borrowed_sample \<Rightarrow> bool \<Rightarrow> whc" where
  "return_sample_locked w b update_retransmit_info =
     (case whc_findseq w (bs_seq b) of
        None \<Rightarrow> w\<lparr>wh_refs := (wh_refs w)(sd_id (bs_serdata b) := wh_refs w (sd_id (bs_serdata b)) - 1)\<rparr>
      | Some n \<Rightarrow>
          upd_node (bs_seq b)
            (\<lambda>n. if update_retransmit_info then
                   n\<lparr>wn_borrowed := False, wn_rexmit_count := bs_rexmit_count b, wn_last_rexmit_ts := bs_last_rexmit_ts b\<rparr>
                 else n\<lparr>wn_borrowed := False\<rparr>) w)"

definition whc_default_return_sample :: "whc \<Rightarrow> whc_borrowed_sample \<Rightarrow> bool \<Rightarrow> whc" where
  "whc_default_return_sample w b update_retransmit_info = return_sample_locked w b update_retransmit_info"

text \<open>The iterator: \<open>None\<close> before the first call, then the sample it has lent.\<close>

definition whc_default_sample_iter_borrow_next :: "whc \<Rightarrow> whc_borrowed_sample option \<Rightarrow> whc_borrowed_sample option \<times> whc" where
  "whc_default_sample_iter_borrow_next w it =
     (let w1 = (case it of None \<Rightarrow> w | Some b \<Rightarrow> return_sample_locked w b False);
          s = (case it of None \<Rightarrow> 0 | Some b \<Rightarrow> bs_seq b)
      in case find_nextseq_intv w1 s of
           None \<Rightarrow> (None, w1)
         | Some (_, n) \<Rightarrow> (case make_borrowed_sample n w1 of (b, w2) \<Rightarrow> (Some b, w2)))"

section \<open>Expiring samples, freeing\<close>

text \<open>\<open>expired\<close> is what \<open>lifespan_next_expired_locked\<close> hands out.\<close>

definition whc_sample_expired_cb :: "whc \<Rightarrow> seqno list \<Rightarrow> whc" where
  "whc_sample_expired_cb w expired =
     (let w1 = fold (\<lambda>s w. whc_delete_seq w s) expired w in w1\<lparr>wh_maxseq_node := whc_findmax_procedurally w1\<rparr>)"

text \<open>The references left when the cache is freed; the walk starts at \<open>maxseq_node\<close>.\<close>

definition whc_default_free :: "whc \<Rightarrow> seqno list \<Rightarrow> nat \<Rightarrow> int" where
  "whc_default_free w expired =
     (let w1 = whc_sample_expired_cb w expired
      in wh_refs (fold free_whc_node_contents
           (case wh_maxseq_node w1 of None \<Rightarrow> [] | Some m \<Rightarrow> rev (filter (\<lambda>n. wn_seq n \<le> m) (wh_nodes w1))) w1))"

end
