(* ===== verification/Whc_Inv.thy ===== *)
theory Whc_Inv
  imports Whc
begin

text \<open>
  The invariant of the writer history cache: the interval tree describes exactly the sequence
  numbers of the nodes, the byte counts are right, and the instance index and the nodes point at
  each other, with the samples of an instance in the order of their sequence numbers. Every
  operation keeps it.
\<close>

section \<open>The intervals\<close>

definition full_ivs :: "whc_intvnode list \<Rightarrow> bool" where
  "full_ivs l \<longleftrightarrow> sorted_wrt (\<lambda>a b. snd a \<le> fst b) l \<and> (\<forall>a\<in>set l. fst a < snd a)"

text \<open>Only the last, open interval may be empty.\<close>

definition whc_ivs_ok :: "whc_intvnode list \<Rightarrow> bool" where
  "whc_ivs_ok t \<longleftrightarrow> t \<noteq> [] \<and> full_ivs (butlast t) \<and> fst (last t) \<le> snd (last t) \<and> (\<forall>a\<in>set (butlast t). snd a \<le> fst (last t))"

definition members :: "whc_intvnode list \<Rightarrow> seqno set" where
  "members t = (\<Union>a\<in>set t. {fst a..<snd a})"

lemma members_simps [simp]:
  "members [] = {}" "members (a # t) = {fst a..<snd a} \<union> members t" "members (l @ r) = members l \<union> members r"
  by (auto simp: members_def)

lemma full_ivs_append:
  "full_ivs (l @ r) \<longleftrightarrow> full_ivs l \<and> full_ivs r \<and> (\<forall>a\<in>set l. \<forall>b\<in>set r. snd a \<le> fst b)"
  by (auto simp: full_ivs_def sorted_wrt_append)

lemma full_ivs_Cons [simp]: "full_ivs [] " "full_ivs (a # l) \<longleftrightarrow> fst a < snd a \<and> (\<forall>b\<in>set l. snd a \<le> fst b) \<and> full_ivs l"
  by (auto simp: full_ivs_def)

lemma ivs_ok_snoc: "whc_ivs_ok (l @ [x]) \<longleftrightarrow> full_ivs l \<and> fst x \<le> snd x \<and> (\<forall>a\<in>set l. snd a \<le> fst x)"
  by (simp add: whc_ivs_ok_def)

lemma ivs_ok_Nil [simp]: "\<not> whc_ivs_ok []"
  by (simp add: whc_ivs_ok_def)

text \<open>Splitting at an interval.\<close>

lemma ivs_ok_split:
  "whc_ivs_ok (l @ r) \<longleftrightarrow> (if r = [] then whc_ivs_ok l else full_ivs l \<and> whc_ivs_ok r \<and> (\<forall>a\<in>set l. \<forall>b\<in>set r. snd a \<le> fst b))"
proof (cases r rule: rev_cases)
  case (snoc r' x)
  then show ?thesis
    by (auto simp: ivs_ok_snoc full_ivs_append simp flip: append_assoc)
qed simp

lemma ivs_ok_Cons:
  "whc_ivs_ok (a # r) \<longleftrightarrow> (if r = [] then fst a \<le> snd a else fst a < snd a \<and> (\<forall>b\<in>set r. snd a \<le> fst b) \<and> whc_ivs_ok r)"
  using ivs_ok_split [of "[a]" r] by (cases "r = []") (simp add: whc_ivs_ok_def, auto)

lemma ivs_ok_le: "whc_ivs_ok t \<Longrightarrow> a \<in> set t \<Longrightarrow> fst a \<le> snd a"
  by (induction t) (auto simp: ivs_ok_Cons split: if_splits)

lemma whc_ivs_wf: "whc_ivs_ok t \<Longrightarrow> idx_wf fst t"
  by (induction t) (fastforce simp: ivs_ok_Cons split: if_splits)+

lemma ivs_keys:
  assumes "whc_ivs_ok (l @ a # r)"
  shows "\<forall>y\<in>set l. fst y < fst a" "\<forall>y\<in>set r. fst a < fst y"
  using whc_ivs_wf [OF assms] by (auto simp: idx_wf_append)

lemma ivs_ok_low:
  "whc_ivs_ok (l @ a # r) \<Longrightarrow> x \<in> members l \<Longrightarrow> x < fst a"
  by (fastforce simp: ivs_ok_split members_def)

lemma ivs_ok_high: "whc_ivs_ok (l @ a # r) \<Longrightarrow> x \<in> members r \<Longrightarrow> snd a \<le> x"
  by (fastforce simp: ivs_ok_split ivs_ok_Cons members_def split: if_splits)

lemma pred_eq_member:
  assumes "whc_ivs_ok t" "a \<in> set t" "fst a \<le> x" "x < snd a"
  shows "idx_pred_eq fst x t = Some a"
proof -
  obtain l r where t: "t = l @ a # r" using assms(2) by (auto simp: in_set_conv_decomp)
  have r: "\<forall>b\<in>set r. \<not> fst b \<le> x" using assms(1,4) by (force simp: t ivs_ok_split ivs_ok_Cons split: if_splits)
  then show ?thesis using assms(3) by (simp add: t idx_pred_eq_def)
qed

lemma member_intv:
  assumes "whc_ivs_ok t" "x \<in> members t"
  obtains a where "a \<in> set t" "fst a \<le> x" "x < snd a" "idx_pred_eq fst x t = Some a"
  using assms pred_eq_member [OF assms(1)] by (auto simp: members_def)

text \<open>The four cases of deleting.\<close>

lemma intv_delete_cases:
  assumes "whc_ivs_ok (l @ a # r)" "fst a \<le> s" "s < snd a"
  shows "intv_delete (l @ a # r) a s =
    (if s = fst a then
       (if s = snd a - 1 \<and> r \<noteq> [] then (l @ r, first_opt r) else (l @ (fst a + 1, snd a) # r, Some (fst a + 1, snd a)))
     else if s = snd a - 1 then (l @ (fst a, snd a - 1) # r, first_opt r)
     else (l @ (fst a, s) # (s + 1, snd a) # r, Some (s + 1, snd a)))"
proof -
  note k = ivs_keys [OF assms(1)]
  have ne: "r \<noteq> [] \<Longrightarrow> a \<noteq> last (l @ a # r)" using k(2) last_in_set [of r] by auto
  have "idx_insert fst (s + 1, snd a) (l @ (fst a, s) # r) = (l @ [(fst a, s)]) @ (s + 1, snd a) # r" if n: "s \<noteq> snd a - 1"
  proof -
    have "\<forall>y\<in>set (l @ [(fst a, s)]). fst y < fst (s + 1, snd a)" using k(1) assms(2) by auto
    moreover have "\<forall>y\<in>set r. fst (s + 1, snd a) < fst y"
      using assms(1,3) n by (force simp: ivs_ok_split ivs_ok_Cons split: if_splits)
    ultimately show ?thesis using idx_insert_gap [of "l @ [(fst a, s)]" fst "(s + 1, snd a)" r] by simp
  qed
  then show ?thesis using ne idx_at [OF k] by (auto simp: intv_delete_def)
qed

lemma intv_delete_spec:
  assumes "whc_ivs_ok t" "a \<in> set t" "fst a \<le> s" "s < snd a"
  shows "whc_ivs_ok (fst (intv_delete t a s)) \<and> members (fst (intv_delete t a s)) = members t - {s}
    \<and> (\<forall>x\<in>members t. s < x \<and> (\<forall>y\<in>members t. s < y \<longrightarrow> x \<le> y) \<longrightarrow>
         snd (intv_delete t a s) = idx_pred_eq fst x (fst (intv_delete t a s)))"
proof -
  obtain l r where t: "t = l @ a # r" using assms(2) by (auto simp: in_set_conv_decomp)
  let ?t = "fst (intv_delete t a s)"
  note c = intv_delete_cases [OF assms(1) [unfolded t] assms(3,4)]
  note lo = ivs_ok_low [OF assms(1) [unfolded t]] and hi = ivs_ok_high [OF assms(1) [unfolded t]]
  have ok: "whc_ivs_ok ?t" using assms(1,3,4) unfolding t c by (auto simp: ivs_ok_split ivs_ok_Cons split: if_splits)
  moreover have mem: "members ?t = members t - {s}"
    using assms(3,4) lo hi unfolding t c by (fastforce split: if_splits)
  moreover have "snd (intv_delete t a s) = idx_pred_eq fst x ?t"
    if x: "x \<in> members t" "s < x" "\<forall>y\<in>members t. s < y \<longrightarrow> x \<le> y" for x
  proof -
    have "\<exists>b\<in>set ?t. snd (intv_delete t a s) = Some b \<and> fst b \<le> x \<and> x < snd b"
    proof (cases "s = snd a - 1")
      case False
      then have "s + 1 \<in> members t" using assms(3,4) by (auto simp: t)
      then have "x = s + 1" using x by force
      then show ?thesis using False assms(3,4) unfolding t c by auto
    next
      case True
      have "x \<in> members l \<or> fst a \<le> x \<and> x < snd a \<or> x \<in> members r" using x(1) by (auto simp: t)
      then have "x \<in> members r" using x(2) lo [of x] True assms(3,4) by auto
      then obtain b r' where r: "r = b # r'" by (cases r) auto
      have "fst b < snd b"
      proof (rule ccontr)
        assume "\<not> fst b < snd b"
        then have "r' = []" using assms(1) by (auto simp: t r ivs_ok_split ivs_ok_Cons split: if_splits)
        with \<open>\<not> fst b < snd b\<close> \<open>x \<in> members r\<close> show False by (simp add: r)
      qed
      then have "fst b \<in> members t" "s < fst b"
        using assms(1,4) True by (auto simp: t r ivs_ok_split ivs_ok_Cons split: if_splits)
      then have "x \<le> fst b" using x(3) by blast
      moreover have "fst b \<le> x"
        using \<open>x \<in> members r\<close> assms(1) \<open>fst b < snd b\<close> unfolding t r
        by (fastforce simp: ivs_ok_split ivs_ok_Cons members_def split: if_splits)
      ultimately show ?thesis using True \<open>fst b < snd b\<close> assms(3) unfolding t r c [unfolded r] by auto
    qed
    then show ?thesis using pred_eq_member [OF ok] by auto
  qed
  ultimately show ?thesis by blast
qed

section \<open>The invariant\<close>

text \<open>How many steps back from the head a place of the circular history is.\<close>

definition hist_dist :: "nat \<Rightarrow> nat \<Rightarrow> nat \<Rightarrow> nat" where
  "hist_dist depth head pos = (head + (if pos > head then depth else 0)) - pos"

definition hist_at :: "whc \<Rightarrow> iid \<Rightarrow> nat \<Rightarrow> seqno option" where
  "hist_at w i p = (case wh_idx_hash w i of None \<Rightarrow> None | Some x \<Rightarrow> if p < length (in_hist x) then in_hist x ! p else None)"

text \<open>Nodes in \<open>E\<close> may still name an instance that has been removed.\<close>

definition whc_idx_ok :: "seqno set \<Rightarrow> whc \<Rightarrow> bool" where
  "whc_idx_ok E w \<longleftrightarrow>
     (\<forall>i x. wh_idx_hash w i = Some x \<longrightarrow> length (in_hist x) = wi_idxdepth (wh_wrinfo w)
        \<and> (in_headidx x < wi_idxdepth (wh_wrinfo w) \<or> wi_idxdepth (wh_wrinfo w) = 0 \<and> in_headidx x = 0))
     \<and> (\<forall>i p s. hist_at w i p = Some s \<longrightarrow> (\<exists>n\<in>set (wh_nodes w). wn_seq n = s \<and> wn_idxnode n = Some i \<and> wn_idxnode_pos n = p))
     \<and> (\<forall>n\<in>set (wh_nodes w). \<forall>i. wn_idxnode n = Some i \<longrightarrow>
          hist_at w i (wn_idxnode_pos n) = Some (wn_seq n) \<or> wh_idx_hash w i = None \<and> wn_seq n \<in> E)
     \<and> (\<forall>i x p q s s'. wh_idx_hash w i = Some x \<and> hist_at w i p = Some s \<and> hist_at w i q = Some s'
          \<and> hist_dist (wi_idxdepth (wh_wrinfo w)) (in_headidx x) p < hist_dist (wi_idxdepth (wh_wrinfo w)) (in_headidx x) q \<longrightarrow> s' < s)"

definition unacked_size :: "whc_node \<Rightarrow> nat" where
  "unacked_size n = (if wn_unacked n then wn_size n else 0)"

definition whc_core :: "seqno set \<Rightarrow> whc \<Rightarrow> bool" where
  "whc_core E w \<longleftrightarrow> idx_wf wn_seq (wh_nodes w) \<and> whc_ivs_ok (wh_seq w) \<and> members (wh_seq w) = wn_seq ` set (wh_nodes w)
     \<and> wh_unacked_bytes w = (\<Sum>n\<leftarrow>wh_nodes w. unacked_size n) \<and> whc_idx_ok E w
     \<and> wi_tldepth (wh_wrinfo w) \<le> wi_idxdepth (wh_wrinfo w)"

definition whc_inv :: "whc \<Rightarrow> bool" where
  "whc_inv w \<longleftrightarrow> whc_core {} w \<and> wh_seq_size w = length (wh_nodes w)
     \<and> wh_maxseq_node w = map_option wn_seq (last_opt (wh_nodes w))
     \<and> (\<forall>n\<in>set (wh_nodes w). wn_unacked n \<longrightarrow> wh_max_drop_seq w < wn_seq n)
     \<and> (\<forall>i x. wh_idx_hash w i = Some x \<longrightarrow> in_prune_seq x \<le> wh_max_drop_seq w)"

lemma coreD:
  assumes "whc_core E w"
  shows "idx_wf wn_seq (wh_nodes w)" "whc_ivs_ok (wh_seq w)" "members (wh_seq w) = wn_seq ` set (wh_nodes w)"
    "wh_unacked_bytes w = (\<Sum>n\<leftarrow>wh_nodes w. unacked_size n)" "whc_idx_ok E w" "wi_tldepth (wh_wrinfo w) \<le> wi_idxdepth (wh_wrinfo w)"
  using assms by (simp_all add: whc_core_def)

lemma idx_okD:
  assumes "whc_idx_ok E w"
  shows "wh_idx_hash w i = Some x \<Longrightarrow> length (in_hist x) = wi_idxdepth (wh_wrinfo w)"
    "wh_idx_hash w i = Some x \<Longrightarrow> in_headidx x < wi_idxdepth (wh_wrinfo w) \<or> wi_idxdepth (wh_wrinfo w) = 0 \<and> in_headidx x = 0"
    "hist_at w i p = Some s \<Longrightarrow> \<exists>n\<in>set (wh_nodes w). wn_seq n = s \<and> wn_idxnode n = Some i \<and> wn_idxnode_pos n = p"
    "n \<in> set (wh_nodes w) \<Longrightarrow> wn_idxnode n = Some i \<Longrightarrow>
       hist_at w i (wn_idxnode_pos n) = Some (wn_seq n) \<or> wh_idx_hash w i = None \<and> wn_seq n \<in> E"
    "wh_idx_hash w i = Some x \<Longrightarrow> hist_at w i p = Some s \<Longrightarrow> hist_at w i q = Some s' \<Longrightarrow>
       hist_dist (wi_idxdepth (wh_wrinfo w)) (in_headidx x) p < hist_dist (wi_idxdepth (wh_wrinfo w)) (in_headidx x) q \<Longrightarrow> s' < s"
  using assms unfolding whc_idx_ok_def by blast+

lemma idx_okI:
  assumes "\<And>i x. wh_idx_hash w i = Some x \<Longrightarrow> length (in_hist x) = wi_idxdepth (wh_wrinfo w)
      \<and> (in_headidx x < wi_idxdepth (wh_wrinfo w) \<or> wi_idxdepth (wh_wrinfo w) = 0 \<and> in_headidx x = 0)"
    and "\<And>i p s. hist_at w i p = Some s \<Longrightarrow> \<exists>n\<in>set (wh_nodes w). wn_seq n = s \<and> wn_idxnode n = Some i \<and> wn_idxnode_pos n = p"
    and "\<And>n i. n \<in> set (wh_nodes w) \<Longrightarrow> wn_idxnode n = Some i \<Longrightarrow>
      hist_at w i (wn_idxnode_pos n) = Some (wn_seq n) \<or> wh_idx_hash w i = None \<and> wn_seq n \<in> E"
    and "\<And>i x p q s s'. wh_idx_hash w i = Some x \<Longrightarrow> hist_at w i p = Some s \<Longrightarrow> hist_at w i q = Some s' \<Longrightarrow>
      hist_dist (wi_idxdepth (wh_wrinfo w)) (in_headidx x) p < hist_dist (wi_idxdepth (wh_wrinfo w)) (in_headidx x) q \<Longrightarrow> s' < s"
  shows "whc_idx_ok E w"
  unfolding whc_idx_ok_def using assms by blast

lemma hist_at_cong: "wh_idx_hash w' = wh_idx_hash w \<Longrightarrow> hist_at w' = hist_at w"
  by (simp add: hist_at_def fun_eq_iff)

text \<open>Changing fields the index does not depend on.\<close>

lemma idx_ok_map:
  assumes "whc_idx_ok E w" "wh_idx_hash w' = wh_idx_hash w" "wh_wrinfo w' = wh_wrinfo w" "wh_nodes w' = map f (wh_nodes w)"
    "\<And>n. n \<in> set (wh_nodes w) \<Longrightarrow> wn_seq (f n) = wn_seq n \<and> wn_idxnode (f n) = wn_idxnode n \<and> wn_idxnode_pos (f n) = wn_idxnode_pos n"
  shows "whc_idx_ok E w'"
proof (rule idx_okI)
  note k = idx_okD [OF assms(1)] and h = hist_at_cong [OF assms(2)]
  show "length (in_hist x) = wi_idxdepth (wh_wrinfo w')
      \<and> (in_headidx x < wi_idxdepth (wh_wrinfo w') \<or> wi_idxdepth (wh_wrinfo w') = 0 \<and> in_headidx x = 0)"
    if "wh_idx_hash w' i = Some x" for i x using that k(1,2) [of i x] assms(2,3) by simp
  show "\<exists>n\<in>set (wh_nodes w'). wn_seq n = s \<and> wn_idxnode n = Some i \<and> wn_idxnode_pos n = p" if "hist_at w' i p = Some s" for i p s
    using k(3) [of i p s] that assms(4,5) h by fastforce
  show "hist_at w' i (wn_idxnode_pos n) = Some (wn_seq n) \<or> wh_idx_hash w' i = None \<and> wn_seq n \<in> E"
    if n: "n \<in> set (wh_nodes w')" "wn_idxnode n = Some i" for n i
  proof -
    obtain m where "m \<in> set (wh_nodes w)" "n = f m" using n(1) assms(4) by auto
    then show ?thesis using k(4) [of m i] n(2) assms(2,5) h by simp
  qed
  show "s' < s" if "wh_idx_hash w' i = Some x" "hist_at w' i p = Some s" "hist_at w' i q = Some s'"
    "hist_dist (wi_idxdepth (wh_wrinfo w')) (in_headidx x) p < hist_dist (wi_idxdepth (wh_wrinfo w')) (in_headidx x) q" for i x p q s s'
    using that k(5) [of i x p s q s'] assms(2,3) h by simp
qed

lemma wf_inj: "idx_wf key xs \<Longrightarrow> x \<in> set xs \<Longrightarrow> y \<in> set xs \<Longrightarrow> key x = key y \<Longrightarrow> x = y"
  by (metis idx_lookup_in option.inject)

lemma findseq_iff: "idx_wf wn_seq (wh_nodes w) \<Longrightarrow> whc_findseq w s = Some n \<longleftrightarrow> n \<in> set (wh_nodes w) \<and> wn_seq n = s"
  by (auto simp: whc_findseq_def idx_lookup_in dest: idx_lookup_SomeD)

section \<open>Changing fields of nodes\<close>

lemma upd_node_simps [simp]:
  "wh_seq (upd_node s f w) = wh_seq w" "wh_idx_hash (upd_node s f w) = wh_idx_hash w" "wh_wrinfo (upd_node s f w) = wh_wrinfo w"
  "wh_unacked_bytes (upd_node s f w) = wh_unacked_bytes w" "wh_seq_size (upd_node s f w) = wh_seq_size w"
  "wh_max_drop_seq (upd_node s f w) = wh_max_drop_seq w" "wh_maxseq_node (upd_node s f w) = wh_maxseq_node w"
  "wh_nodes (upd_node s f w) = map (\<lambda>n. if wn_seq n = s then f n else n) (wh_nodes w)"
  "hist_at (upd_node s f w) = hist_at w" "wh_refs (upd_node s f w) = wh_refs w"
  by (simp_all add: upd_node_def hist_at_def fun_eq_iff)

lemma idx_wf_map: "(\<And>x. x \<in> set xs \<Longrightarrow> key (f x) = key x) \<Longrightarrow> idx_wf key (map f xs) = idx_wf key xs"
  by (induction xs) auto

lemma seqs_upd: "(\<And>n. wn_seq (f n) = wn_seq n) \<Longrightarrow> wn_seq ` set (wh_nodes (upd_node s f w)) = wn_seq ` set (wh_nodes w)"
proof -
  assume a: "\<And>n. wn_seq (f n) = wn_seq n"
  have "map wn_seq (wh_nodes (upd_node s f w)) = map wn_seq (wh_nodes w)" using a by simp
  then show ?thesis by (metis list.set_map)
qed

lemma sum_upd:
  assumes "idx_wf key xs" "n \<in> set xs"
  shows "(\<Sum>x\<leftarrow>xs. (g (if key x = key n then f x else x) :: nat)) + g n = (\<Sum>x\<leftarrow>xs. g x) + g (f n)"
proof -
  obtain l r where d: "xs = l @ n # r" "\<forall>y\<in>set l. key y < key n" "\<forall>y\<in>set r. key n < key y" "idx_wf key l" "idx_wf key r"
    by (rule idx_split_at [OF assms])
  have "(\<Sum>x\<leftarrow>l. g (if key x = key n then f x else x)) = sum_list (map g l)"
    "(\<Sum>x\<leftarrow>r. g (if key x = key n then f x else x)) = sum_list (map g r)"
    using d(2,3) by (fastforce intro!: arg_cong [where f = sum_list] map_cong [OF refl])+
  then show ?thesis by (simp add: d(1))
qed

lemma core_upd_frame:
  assumes "whc_core E w" "\<And>n. wn_seq (f n) = wn_seq n" "\<And>n. wn_idxnode (f n) = wn_idxnode n" "\<And>n. wn_idxnode_pos (f n) = wn_idxnode_pos n"
    "\<And>n. unacked_size (f n) = unacked_size n"
  shows "whc_core E (upd_node s f w)"
proof -
  note c = coreD [OF assms(1)]
  have "(\<Sum>n\<leftarrow>wh_nodes w. unacked_size (if wn_seq n = s then f n else n)) = (\<Sum>n\<leftarrow>wh_nodes w. unacked_size n)"
    using assms(5) by (auto intro!: arg_cong [where f = sum_list] map_cong [OF refl])
  moreover have "whc_idx_ok E (upd_node s f w)"
    by (rule idx_ok_map [OF c(5), where f = "\<lambda>n. if wn_seq n = s then f n else n"]) (auto simp: assms(2-4))
  ultimately show ?thesis
    using c seqs_upd [of f s w, OF assms(2)] assms(2) by (simp add: whc_core_def idx_wf_map comp_def)
qed

lemma core_ack:
  assumes "whc_core E w" "n \<in> set (wh_nodes w)"
  shows "whc_core E (ack_node n w)"
proof (cases "wn_unacked n")
  case True
  note c = coreD [OF assms(1)]
  let ?f = "\<lambda>n. n\<lparr>wn_unacked := False\<rparr>"
  let ?w = "w\<lparr>wh_unacked_bytes := wh_unacked_bytes w - wn_size n\<rparr>"
  have "(\<Sum>x\<leftarrow>wh_nodes w. unacked_size (if wn_seq x = wn_seq n then ?f x else x)) + wn_size n = wh_unacked_bytes w"
    using sum_upd [OF c(1) assms(2), of unacked_size ?f] True c(4) by (simp add: unacked_size_def)
  then have s: "wh_unacked_bytes w - wn_size n = (\<Sum>x\<leftarrow>wh_nodes w. unacked_size (if wn_seq x = wn_seq n then ?f x else x))"
    by linarith
  have "whc_idx_ok E (upd_node (wn_seq n) ?f ?w)"
    by (rule idx_ok_map [OF c(5), where f = "\<lambda>x. if wn_seq x = wn_seq n then ?f x else x"]) auto
  then show ?thesis
    using True c s seqs_upd [of ?f "wn_seq n" ?w] by (simp add: ack_node_def whc_core_def idx_wf_map comp_def)
qed (simp add: ack_node_def assms(1))

lemma ack_node_simps [simp]:
  "wh_seq (ack_node n w) = wh_seq w" "wh_idx_hash (ack_node n w) = wh_idx_hash w" "wh_wrinfo (ack_node n w) = wh_wrinfo w"
  "wh_seq_size (ack_node n w) = wh_seq_size w" "wh_max_drop_seq (ack_node n w) = wh_max_drop_seq w"
  "wh_maxseq_node (ack_node n w) = wh_maxseq_node w" "hist_at (ack_node n w) = hist_at w" "wh_refs (ack_node n w) = wh_refs w"
  by (simp_all add: ack_node_def hist_at_def fun_eq_iff)

lemma ack_node_nodes:
  assumes "idx_wf wn_seq (wh_nodes w)" "n \<in> set (wh_nodes w)"
  shows "wh_nodes (ack_node n w) = map (\<lambda>x. if wn_seq x = wn_seq n then x\<lparr>wn_unacked := False\<rparr> else x) (wh_nodes w)"
proof (cases "wn_unacked n")
  case False
  have "(if wn_seq x = wn_seq n then x\<lparr>wn_unacked := False\<rparr> else x) = x" if "x \<in> set (wh_nodes w)" for x
    using wf_inj [OF assms(1) that assms(2)] False by auto
  then have "map (\<lambda>x. if wn_seq x = wn_seq n then x\<lparr>wn_unacked := False\<rparr> else x) (wh_nodes w) = map (\<lambda>x. x) (wh_nodes w)"
    by (intro map_cong) auto
  with False show ?thesis by (simp add: ack_node_def)
qed (simp add: ack_node_def)

section \<open>Deleting one sample\<close>

lemma delete_idx_simps [simp]:
  "wh_seq (delete_one_sample_from_idx n w) = wh_seq w" "wh_wrinfo (delete_one_sample_from_idx n w) = wh_wrinfo w"
  "wh_seq_size (delete_one_sample_from_idx n w) = wh_seq_size w" "wh_max_drop_seq (delete_one_sample_from_idx n w) = wh_max_drop_seq w"
  "wh_maxseq_node (delete_one_sample_from_idx n w) = wh_maxseq_node w" "wh_nodes (delete_one_sample_from_idx n w) = wh_nodes w"
  "wh_unacked_bytes (delete_one_sample_from_idx n w) = wh_unacked_bytes w" "wh_refs (delete_one_sample_from_idx n w) = wh_refs w"
  by (simp_all add: delete_one_sample_from_idx_def split: option.splits)

lemma hist_at_delete:
  "hist_at (delete_one_sample_from_idx n w) i p = (if wn_idxnode n = Some i \<and> p = wn_idxnode_pos n then None else hist_at w i p)"
  by (auto simp: hist_at_def delete_one_sample_from_idx_def nth_list_update split: option.splits)

lemma idx_hash_delete:
  "wh_idx_hash (delete_one_sample_from_idx n w) i = Some x \<longleftrightarrow>
     (\<exists>y. wh_idx_hash w i = Some y \<and> x = (if wn_idxnode n = Some i then y\<lparr>in_hist := (in_hist y)[wn_idxnode_pos n := None]\<rparr> else y))"
  by (auto simp: delete_one_sample_from_idx_def split: option.splits)

text \<open>The changes of \<open>whc_delete_one_intv\<close> field by field.\<close>

lemma delete_intv_simps [simp]:
  "wh_wrinfo (fst (whc_delete_one_intv w p n)) = wh_wrinfo w" "wh_seq_size (fst (whc_delete_one_intv w p n)) = wh_seq_size w"
  "wh_max_drop_seq (fst (whc_delete_one_intv w p n)) = wh_max_drop_seq w" "wh_maxseq_node (fst (whc_delete_one_intv w p n)) = wh_maxseq_node w"
  "wh_idx_hash (fst (whc_delete_one_intv w p n)) = wh_idx_hash (delete_one_sample_from_idx n w)" "wh_refs (fst (whc_delete_one_intv w p n)) = wh_refs w"
  "hist_at (fst (whc_delete_one_intv w p n)) = hist_at (delete_one_sample_from_idx n w)"
  by (simp_all add: whc_delete_one_intv_def Let_def case_prod_unfold hist_at_def fun_eq_iff split: option.splits)

lemma delete_intv_nodes [simp]: "wh_nodes (fst (whc_delete_one_intv w p n)) = idx_delete wn_seq (wn_seq n) (wh_nodes w)"
  by (simp add: whc_delete_one_intv_def Let_def case_prod_unfold ack_node_def idx_delete_def filter_map comp_def split: option.splits)
    (auto intro!: map_idI)

lemma delete_intv_seq:
  "wh_seq (fst (whc_delete_one_intv w (Some a) n)) = fst (intv_delete (wh_seq w) a (wn_seq n))"
  "snd (whc_delete_one_intv w (Some a) n) = snd (intv_delete (wh_seq w) a (wn_seq n))"
  by (simp_all add: whc_delete_one_intv_def Let_def case_prod_unfold)

lemma sum_delete:
  assumes "idx_wf key xs" "n \<in> set xs"
  shows "(\<Sum>x\<leftarrow>idx_delete key (key n) xs. (g x :: nat)) + g n = (\<Sum>x\<leftarrow>xs. g x)"
proof -
  obtain l r where d: "xs = l @ n # r" "\<forall>y\<in>set l. key y < key n" "\<forall>y\<in>set r. key n < key y" "idx_wf key l" "idx_wf key r"
    by (rule idx_split_at [OF assms])
  then show ?thesis by (simp add: idx_at(6))
qed

lemma idx_ok_delete:
  assumes "whc_core E w" "n \<in> set (wh_nodes w)"
  shows "whc_idx_ok E (fst (whc_delete_one_intv w p n))"
proof -
  note c = coreD [OF assms(1)] note k = idx_okD [OF c(5)]
  let ?w = "fst (whc_delete_one_intv w p n)"
  have ns: "s \<noteq> wn_seq n" if hs: "hist_at ?w i q = Some s" for i q s
  proof
    assume "s = wn_seq n"
    moreover have "hist_at w i q = Some s" "\<not> (wn_idxnode n = Some i \<and> q = wn_idxnode_pos n)" using hs by (auto simp: hist_at_delete split: if_splits)
    ultimately show False using k(3) [of i q s] wf_inj [OF c(1) _ assms(2)] by auto
  qed
  have 2: "\<exists>m\<in>set (wh_nodes ?w). wn_seq m = s \<and> wn_idxnode m = Some i \<and> wn_idxnode_pos m = q" if "hist_at ?w i q = Some s" for i q s
    using k(3) [of i q s] ns [OF that] that by (auto simp: hist_at_delete split: if_splits)
  have 3: "hist_at ?w i (wn_idxnode_pos m) = Some (wn_seq m) \<or> wh_idx_hash ?w i = None \<and> wn_seq m \<in> E"
    if m: "m \<in> set (wh_nodes ?w)" "wn_idxnode m = Some i" for m i
  proof -
    have m': "m \<in> set (wh_nodes w)" "wn_seq m \<noteq> wn_seq n" using m(1) by auto
    from k(4) [OF m'(1) m(2)] show ?thesis
    proof
      assume a: "hist_at w i (wn_idxnode_pos m) = Some (wn_seq m)"
      then obtain x where x: "wh_idx_hash w i = Some x" by (auto simp: hist_at_def split: option.splits)
      have "\<not> (wn_idxnode n = Some i \<and> wn_idxnode_pos m = wn_idxnode_pos n)"
        using k(4) [OF assms(2), of i] a x m'(2) by auto
      then show ?thesis using a by (auto simp: hist_at_delete)
    next
      assume "wh_idx_hash w i = None \<and> wn_seq m \<in> E"
      then show ?thesis by (auto simp: delete_one_sample_from_idx_def split: option.splits)
    qed
  qed
  show ?thesis
  proof (rule idx_okI)
    fix i x assume "wh_idx_hash ?w i = Some x"
    then obtain y where "wh_idx_hash w i = Some y" "length (in_hist x) = length (in_hist y)" "in_headidx x = in_headidx y"
      by (auto simp: idx_hash_delete split: if_splits)
    then show "length (in_hist x) = wi_idxdepth (wh_wrinfo ?w) \<and>
      (in_headidx x < wi_idxdepth (wh_wrinfo ?w) \<or> wi_idxdepth (wh_wrinfo ?w) = 0 \<and> in_headidx x = 0)"
      using k(1,2) [of i y] by auto
  next
    fix i x q q' s s'
    assume a: "wh_idx_hash ?w i = Some x" "hist_at ?w i q = Some s" "hist_at ?w i q' = Some s'"
      "hist_dist (wi_idxdepth (wh_wrinfo ?w)) (in_headidx x) q < hist_dist (wi_idxdepth (wh_wrinfo ?w)) (in_headidx x) q'"
    then obtain y where "wh_idx_hash w i = Some y" "in_headidx x = in_headidx y" by (auto simp: idx_hash_delete split: if_splits)
    moreover have "hist_at w i q = Some s" "hist_at w i q' = Some s'" using a by (auto simp: hist_at_delete split: if_splits)
    ultimately show "s' < s" using k(5) [of i y q s q' s'] a by simp
  qed (fact 2 3)+
qed

lemma core_delete_intv:
  assumes "whc_core E w" "n \<in> set (wh_nodes w)" "a \<in> set (wh_seq w)" "fst a \<le> wn_seq n" "wn_seq n < snd a"
  shows "whc_core E (fst (whc_delete_one_intv w (Some a) n))"
proof -
  note c = coreD [OF assms(1)]
  let ?w = "fst (whc_delete_one_intv w (Some a) n)"
  note d = intv_delete_spec [OF c(2) assms(3-5)]
  have "wh_unacked_bytes ?w = wh_unacked_bytes w - unacked_size n"
    by (simp add: whc_delete_one_intv_def Let_def case_prod_unfold ack_node_def unacked_size_def)
  also have "\<dots> = (\<Sum>x\<leftarrow>wh_nodes ?w. unacked_size x)"
    using sum_delete [OF c(1) assms(2), of unacked_size] c(4) by simp
  finally have "wh_unacked_bytes ?w = (\<Sum>x\<leftarrow>wh_nodes ?w. unacked_size x)" .
  moreover have "members (wh_seq ?w) = wn_seq ` set (wh_nodes ?w)" using d c(3) by (auto simp: delete_intv_seq)
  ultimately show ?thesis
    using d c(1,6) idx_ok_delete [OF assms(1,2)] by (simp add: whc_core_def delete_intv_seq)
qed

end
