(* ===== verification/Whc_Ops.thy ===== *)
theory Whc_Ops
  imports Whc_Inv
begin

text \<open>
  Every operation of the writer history cache keeps the invariant, and what it does to the nodes.
\<close>

section \<open>Deleting samples\<close>

lemma core_frame:
  assumes "whc_core E w" "wh_nodes w' = wh_nodes w" "wh_seq w' = wh_seq w" "wh_unacked_bytes w' = wh_unacked_bytes w"
    "wh_idx_hash w' = wh_idx_hash w" "wh_wrinfo w' = wh_wrinfo w"
  shows "whc_core E w'"
proof -
  have "whc_idx_ok E w'" by (rule idx_ok_map [OF coreD(5) [OF assms(1)], where f = "\<lambda>n. n"]) (simp_all add: assms)
  then show ?thesis using assms by (simp add: whc_core_def)
qed

lemma core_intv:
  assumes "whc_core E w" "n \<in> set (wh_nodes w)"
  obtains a where "a \<in> set (wh_seq w)" "fst a \<le> wn_seq n" "wn_seq n < snd a" "idx_pred_eq fst (wn_seq n) (wh_seq w) = Some a"
  using member_intv [OF coreD(2) [OF assms(1)], of "wn_seq n"] assms(2) coreD(3) [OF assms(1)] by blast

lemma free_deferred_simps [simp]:
  "wh_wrinfo (free_deferred_free_list l w) = wh_wrinfo w" "wh_seq_size (free_deferred_free_list l w) = wh_seq_size w"
  "wh_max_drop_seq (free_deferred_free_list l w) = wh_max_drop_seq w" "wh_maxseq_node (free_deferred_free_list l w) = wh_maxseq_node w"
  "wh_idx_hash (free_deferred_free_list l w) = wh_idx_hash w" "wh_nodes (free_deferred_free_list l w) = wh_nodes w"
  "wh_seq (free_deferred_free_list l w) = wh_seq w" "wh_unacked_bytes (free_deferred_free_list l w) = wh_unacked_bytes w"
  by (induction l arbitrary: w) (simp_all add: free_whc_node_contents_def)

lemma delete_one_simps [simp]:
  "wh_wrinfo (whc_delete_one w n) = wh_wrinfo w" "wh_seq_size (whc_delete_one w n) = wh_seq_size w - 1"
  "wh_max_drop_seq (whc_delete_one w n) = wh_max_drop_seq w" "wh_maxseq_node (whc_delete_one w n) = wh_maxseq_node w"
  "wh_nodes (whc_delete_one w n) = idx_delete wn_seq (wn_seq n) (wh_nodes w)"
  "wh_idx_hash (whc_delete_one w n) = wh_idx_hash (delete_one_sample_from_idx n w)"
  by (simp_all add: whc_delete_one_def case_prod_unfold Let_def del: free_deferred_free_list.simps)

lemma core_delete_one:
  assumes "whc_core E w" "n \<in> set (wh_nodes w)"
  shows "whc_core E (whc_delete_one w n)"
proof -
  obtain a where a: "a \<in> set (wh_seq w)" "fst a \<le> wn_seq n" "wn_seq n < snd a" "idx_pred_eq fst (wn_seq n) (wh_seq w) = Some a"
    by (rule core_intv [OF assms])
  show ?thesis
    by (rule core_frame [OF core_delete_intv [OF assms a(1-3)]])
      (simp_all add: whc_delete_one_def a(4) case_prod_unfold Let_def del: free_deferred_free_list.simps)
qed

lemma delete_seq_cases:
  assumes "idx_wf wn_seq (wh_nodes w)"
  obtains n where "n \<in> set (wh_nodes w)" "wn_seq n = s" "whc_delete_seq w s = whc_delete_one w n"
  | "\<forall>n\<in>set (wh_nodes w). wn_seq n \<noteq> s" "whc_delete_seq w s = w"
proof (cases "whc_findseq w s")
  case None
  then show ?thesis using that(2) by (simp add: whc_delete_seq_def) (simp add: whc_findseq_def idx_lookup_None)
next
  case (Some n)
  then have "n \<in> set (wh_nodes w)" "wn_seq n = s" using findseq_iff [OF assms] by auto
  moreover have "whc_delete_seq w s = whc_delete_one w n" using Some by (simp add: whc_delete_seq_def)
  ultimately show ?thesis by (rule that(1))
qed

lemma delete_seq_simps [simp]:
  "wh_wrinfo (whc_delete_seq w s) = wh_wrinfo w" "wh_max_drop_seq (whc_delete_seq w s) = wh_max_drop_seq w"
  "wh_maxseq_node (whc_delete_seq w s) = wh_maxseq_node w"
  by (simp_all add: whc_delete_seq_def split: option.splits)

lemma delete_seq_nodes: "wh_nodes (whc_delete_seq w s) = idx_delete wn_seq s (wh_nodes w)"
  by (auto simp: whc_delete_seq_def whc_findseq_def idx_lookup_None idx_delete_def filter_empty_conv
      dest!: idx_lookup_SomeD split: option.splits intro!: filter_True [symmetric])

lemma core_delete_seq: "whc_core E w \<Longrightarrow> whc_core E (whc_delete_seq w s)"
  by (rule delete_seq_cases [OF coreD(1), of E w s]) (auto intro: core_delete_one)

lemma length_delete:
  "idx_wf key xs \<Longrightarrow> n \<in> set xs \<Longrightarrow> length (idx_delete key (key n) xs) = length xs - 1"
  by (erule (1) idx_split_at) (simp add: idx_at(6))

lemma delete_seq_size:
  assumes "idx_wf wn_seq (wh_nodes w)" "wh_seq_size w = length (wh_nodes w) + k"
  shows "wh_seq_size (whc_delete_seq w s) = length (wh_nodes (whc_delete_seq w s)) + k"
proof (rule delete_seq_cases [OF assms(1), of s])
  fix n assume n: "n \<in> set (wh_nodes w)" "wn_seq n = s" "whc_delete_seq w s = whc_delete_one w n"
  then have "0 < length (wh_nodes w)" by (metis length_pos_if_in_set)
  then show ?thesis using n assms length_delete [OF assms(1) n(1)] by (simp del: length_greater_0_conv)
qed (simp add: assms(2))

text \<open>The heads of the instances stay where they are.\<close>

lemma delete_seq_head:
  "wh_idx_hash (whc_delete_seq w s) i = None \<longleftrightarrow> wh_idx_hash w i = None"
  "map_option in_headidx (wh_idx_hash (whc_delete_seq w s) i) = map_option in_headidx (wh_idx_hash w i)"
  "map_option in_prune_seq (wh_idx_hash (whc_delete_seq w s) i) = map_option in_prune_seq (wh_idx_hash w i)"
  by (auto simp: whc_delete_seq_def delete_one_sample_from_idx_def option.map_comp comp_def split: option.splits)

section \<open>Looking for the next sample and the last one\<close>

lemma succ_SomeD:
  assumes "idx_wf key xs" "idx_succ key k xs = Some x"
  shows "x \<in> set xs" "k < key x" "\<forall>y\<in>set xs. k < key y \<longrightarrow> key x \<le> key y"
proof -
  obtain ys where f: "filter (\<lambda>y. k < key y) xs = x # ys"
    using assms(2) first_opt_SomeD by (fastforce simp: idx_succ_def)
  have "idx_wf key (x # ys)" using assms(1) unfolding f [symmetric] by (simp add: idx_wf_def sorted_wrt_filter)
  moreover have s: "set (x # ys) = {y \<in> set xs. k < key y}" unfolding f [symmetric] by simp
  ultimately show "x \<in> set xs" "k < key x" "\<forall>y\<in>set xs. k < key y \<longrightarrow> key x \<le> key y"
    by (auto simp: le_less)
qed

lemma members_ge: "a \<in> set t \<Longrightarrow> {fst a..<snd a} \<subseteq> members t"
  by (auto simp: members_def)

lemma find_nextseq_spec:
  assumes "whc_core E w"
  shows "find_nextseq_intv w s = map_option (\<lambda>n. (idx_pred_eq fst (wn_seq n) (wh_seq w), n)) (idx_succ wn_seq s (wh_nodes w))"
proof (cases "whc_findseq w s")
  case (Some n)
  then have "wn_seq n = s" using findseq_iff [OF coreD(1) [OF assms]] by simp
  then show ?thesis by (simp add: find_nextseq_intv_def Some next_seq_of_def)
next
  case None
  note c = coreD [OF assms] and wf = whc_ivs_wf [OF coreD(2) [OF assms]]
  have s: "s \<notin> members (wh_seq w)" using None c(3) by (auto simp: whc_findseq_def idx_lookup_None)
  let ?r = "filter (\<lambda>x. s \<le> fst x) (wh_seq w)"
  have below: "snd a \<le> s" if "a \<in> set (wh_seq w)" "fst a < s" for a
    using members_ge [OF that(1)] s that by (metis atLeastLessThan_iff less_imp_le not_le subsetD)
  show ?thesis
  proof (cases "idx_succ_eq fst s (wh_seq w)")
    case n: None
    then have "\<forall>a\<in>set (wh_seq w). snd a \<le> s" using below by (auto simp: idx_succ_eq_def filter_empty_conv not_le)
    then have "\<forall>x\<in>members (wh_seq w). x < s" by (auto simp: members_def)
    then have "idx_succ wn_seq s (wh_nodes w) = None" using c(3) by (auto simp: idx_succ_def filter_empty_conv)
    then show ?thesis by (simp add: find_nextseq_intv_def None n)
  next
    case a: (Some a)
    obtain l r where t: "wh_seq w = l @ a # r" and l: "\<forall>y\<in>set l. fst y < s" and sa: "s \<le> fst a"
      using a unfolding idx_succ_eq_def
      by (metis (no_types, lifting) first_opt_SomeD filter_eq_Cons_iff not_le)
    have lm: "\<forall>x\<in>members l. x < s" using l below t by (fastforce simp: members_def)
    have le: "fst a \<le> snd a" using ivs_ok_le [OF c(2), of a] t by simp
    show ?thesis
    proof (cases "fst a < snd a")
      case True
      have "fst a \<in> members (wh_seq w)" using t True by simp
      then obtain n where n: "n \<in> set (wh_nodes w)" "wn_seq n = fst a" using c(3) by auto
      have sl: "s < fst a" using s sa t True by (cases "s = fst a") auto
      have "\<forall>x\<in>members r. snd a \<le> x" using ivs_ok_high [of l a r] c(2) t by auto
      then have "\<forall>x\<in>members (wh_seq w). s < x \<longrightarrow> fst a \<le> x" using lm t True by force
      then have "\<forall>m\<in>set (wh_nodes w). s < wn_seq m \<longrightarrow> fst a \<le> wn_seq m" using c(3) by auto
      moreover obtain m where m: "idx_succ wn_seq s (wh_nodes w) = Some m"
        using n sl idx_succ_NoneD [of wn_seq s "wh_nodes w"] by (cases "idx_succ wn_seq s (wh_nodes w)") force+
      ultimately have "wn_seq m = fst a" using succ_SomeD [OF c(1) m] n sl by force
      then have mn: "m = n" using succ_SomeD(1) [OF c(1) m] n wf_inj [OF c(1)] by metis
      have "idx_pred_eq fst (fst a) (wh_seq w) = Some a" using pred_eq_member [OF c(2), of a "fst a"] t True by simp
      moreover have "whc_findseq w (fst a) = Some n" using n findseq_iff [OF c(1)] by simp
      ultimately show ?thesis using True m mn n by (simp add: find_nextseq_intv_def None a)
    next
      case False
      then have "r = []" using c(2) t by (auto simp: ivs_ok_split ivs_ok_Cons split: if_splits)
      then have "\<forall>x\<in>members (wh_seq w). x < s" using lm t False by auto
      then have "idx_succ wn_seq s (wh_nodes w) = None" using c(3) by (auto simp: idx_succ_def filter_empty_conv)
      then show ?thesis using False by (simp add: find_nextseq_intv_def None a)
    qed
  qed
qed

lemma nodes_from_next:
  assumes "whc_core E w"
  shows "nodes_from w (map_option snd (find_nextseq_intv w s)) = filter (\<lambda>n. s < wn_seq n) (wh_nodes w)"
proof (cases "idx_succ wn_seq s (wh_nodes w)")
  case None
  then show ?thesis
    using idx_succ_NoneD [OF None] by (auto simp: find_nextseq_spec [OF assms] nodes_from_def intro!: filter_False [symmetric])
next
  case (Some x)
  note d = succ_SomeD [OF coreD(1) [OF assms] Some]
  show ?thesis
    using d by (auto simp: find_nextseq_spec [OF assms] nodes_from_def Some intro!: filter_cong)
qed

lemma findmax_spec:
  assumes "whc_core E w" "wh_seq_size w = 0 \<longleftrightarrow> wh_nodes w = []"
  shows "whc_findmax_procedurally w = map_option wn_seq (last_opt (wh_nodes w))"
proof (cases "wh_nodes w = []")
  case True
  then show ?thesis using assms(2) by (simp add: whc_findmax_procedurally_def)
next
  case False
  note c = coreD [OF assms(1)]
  obtain l x where t: "wh_seq w = l @ [x]" using c(2) by (cases "wh_seq w" rule: rev_cases) auto
  obtain ns n where n: "wh_nodes w = ns @ [n]" using False by (cases "wh_nodes w" rule: rev_cases) auto
  have max: "m = wn_seq n" if "m \<in> members (wh_seq w)" "\<forall>y\<in>members (wh_seq w). y \<le> m" for m
    using that c(1,3) by (force simp: n idx_wf_append)
  note ok = c(2) [unfolded t ivs_ok_snoc]
  show ?thesis
  proof (cases "fst x < snd x")
    case True
    have "snd x - 1 = wn_seq n"
    proof (rule max)
      show "\<forall>y\<in>members (wh_seq w). y \<le> snd x - 1"
        using ok True by (fastforce simp: t members_def)
    qed (use True in \<open>auto simp: t\<close>)
    then show ?thesis using assms(2) False True by (simp add: whc_findmax_procedurally_def open_intv_def t n)
  next
    case e: False
    then have "l \<noteq> []" using c(3) ok n by (auto simp: t)
    then obtain l' y where l: "l = l' @ [y]" by (cases l rule: rev_cases) auto
    have y: "fst y < snd y" "\<forall>a\<in>set l'. snd a \<le> fst y" using ok by (auto simp: l full_ivs_append)
    have "snd y - 1 = wn_seq n"
    proof (rule max)
      show "\<forall>z\<in>members (wh_seq w). z \<le> snd y - 1" using e ok y by (fastforce simp: t l members_def)
    qed (use y in \<open>auto simp: t l\<close>)
    moreover have "idx_pred fst (fst x) (wh_seq w) = Some y"
      using ivs_keys [of l x "[]"] idx_at(4) [of l fst x "[]"] c(2) by (simp add: t l)
    ultimately show ?thesis using assms(2) False e by (simp add: whc_findmax_procedurally_def open_intv_def t n)
  qed
qed

section \<open>Acknowledging and removing\<close>

lemma next_intv:
  assumes "whc_ivs_ok t" "a \<in> set t" "fst a \<le> s" "s < snd a" "x \<in> members t" "s < x" "\<forall>y\<in>members t. s < y \<longrightarrow> x \<le> y"
  shows "(if s = snd a - 1 then idx_succ fst (fst a) t else Some a) = idx_pred_eq fst x t"
proof (cases "s = snd a - 1")
  case False
  then have "s + 1 \<in> members t" using assms(2-4) members_ge [OF assms(2)] by (auto simp: subset_iff)
  then have "x = s + 1" using assms(6,7) by force
  then show ?thesis using False assms(2-4) pred_eq_member [OF assms(1,2), of x] by simp
next
  case True
  obtain l r where t: "t = l @ a # r" using assms(2) by (auto simp: in_set_conv_decomp)
  obtain b where b: "b \<in> set t" "fst b \<le> x" "x < snd b" "idx_pred_eq fst x t = Some b" by (rule member_intv [OF assms(1,5)])
  have fb: "fst b \<in> members t" using b(1-3) by (force simp: members_def)
  have "b \<in> set l \<or> b = a \<or> b \<in> set r" using b(1) by (auto simp: t)
  moreover have "b \<notin> set l" using b(3) assms(3,6) assms(1) by (fastforce simp: t ivs_ok_split)
  moreover have "b \<noteq> a" using b(3) True assms(4,6) by auto
  ultimately obtain r1 r2 where r: "r = r1 @ b # r2" by (auto simp: in_set_conv_decomp)
  have "r1 = []"
  proof (cases r1)
    case (Cons c r')
    then have c: "fst c < snd c" "snd c \<le> fst b" "snd a \<le> fst c" using assms(1) by (auto simp: t r ivs_ok_split ivs_ok_Cons split: if_splits)
    then have "fst c \<in> members t" by (auto simp: t r Cons)
    then have "x \<le> fst c" using assms(7) c(3) True assms(4) by auto
    then show ?thesis using c b(2) by simp
  qed simp
  then show ?thesis using True b(4) idx_at(5) [OF ivs_keys [OF assms(1) [unfolded t]]] by (simp add: t r)
qed

definition ack_le :: "seqno \<Rightarrow> whc_node \<Rightarrow> whc_node" where
  "ack_le d n = (if wn_seq n \<le> d then n\<lparr>wn_unacked := False\<rparr> else n)"

lemma ack_le_simps [simp]:
  "wn_seq (ack_le d n) = wn_seq n" "wn_idxnode (ack_le d n) = wn_idxnode n" "wn_idxnode_pos (ack_le d n) = wn_idxnode_pos n"
  "wn_size (ack_le d n) = wn_size n" "wn_serdata (ack_le d n) = wn_serdata n"
  by (simp_all add: ack_le_def)

lemma ack_le_above: "\<forall>x\<in>set xs. d < wn_seq x \<Longrightarrow> map (ack_le d) xs = xs"
  by (induction xs) (auto simp: ack_le_def)

lemma ack_node_split:
  assumes "whc_core E w" "wh_nodes w = pre @ n # ns"
  shows "wh_nodes (ack_node n w) = pre @ n\<lparr>wn_unacked := False\<rparr> # ns"
proof -
  have wf: "idx_wf wn_seq (pre @ n # ns)" using coreD(1) [OF assms(1)] assms(2) by simp
  have "\<forall>x\<in>set pre. wn_seq x \<noteq> wn_seq n" "\<forall>x\<in>set ns. wn_seq x \<noteq> wn_seq n" using wf by (auto simp: idx_wf_append)
  then show ?thesis using ack_node_nodes [of w n] coreD(1) [OF assms(1)] assms(2) by (simp add: map_id_on)
qed

lemma ack_loop_spec:
  assumes "whc_core E w" "wh_nodes w = pre @ ns"
  shows "whc_core E (ack_loop d ns w) \<and> wh_nodes (ack_loop d ns w) = pre @ map (ack_le d) ns"
  using assms
proof (induction ns arbitrary: w pre)
  case (Cons n ns)
  have wf: "idx_wf wn_seq (pre @ n # ns)" using coreD(1) [OF Cons.prems(1)] Cons.prems(2) by simp
  show ?case
  proof (cases "wn_seq n \<le> d")
    case True
    have "wh_nodes (ack_node n w) = (pre @ [n\<lparr>wn_unacked := False\<rparr>]) @ ns" using ack_node_split [OF Cons.prems] by simp
    from Cons.IH [OF core_ack [OF Cons.prems(1)] this] show ?thesis using Cons.prems(2) True by (simp add: ack_le_def)
  next
    case False
    then have "\<forall>x\<in>set (n # ns). d < wn_seq x" using wf by (auto simp: idx_wf_append)
    then show ?thesis using False Cons.prems ack_le_above [of "n # ns" d] by simp
  qed
qed simp

lemma ack_loop_simps [simp]:
  "wh_wrinfo (ack_loop d ns w) = wh_wrinfo w" "wh_seq_size (ack_loop d ns w) = wh_seq_size w"
  "wh_maxseq_node (ack_loop d ns w) = wh_maxseq_node w" "wh_seq (ack_loop d ns w) = wh_seq w" "wh_refs (ack_loop d ns w) = wh_refs w"
  by (induction ns arbitrary: w) auto

text \<open>Being in the transient-local history only depends on the heads.\<close>

abbreviation in_tl :: "whc \<Rightarrow> whc_node \<Rightarrow> bool" where
  "in_tl w n \<equiv> whcn_in_tlidx w (wn_idxnode n) (wn_idxnode_pos n)"

definition same_heads :: "whc \<Rightarrow> whc \<Rightarrow> bool" where
  "same_heads w w' \<longleftrightarrow> wh_wrinfo w' = wh_wrinfo w
     \<and> (\<forall>i. map_option in_headidx (wh_idx_hash w' i) = map_option in_headidx (wh_idx_hash w i))"

lemma same_heads_refl [simp]: "same_heads w w"
  by (simp add: same_heads_def)

lemma same_heads_trans [trans]: "same_heads w w' \<Longrightarrow> same_heads w' w'' \<Longrightarrow> same_heads w w''"
  by (simp add: same_heads_def)

lemma same_heads_tl: "same_heads w w' \<Longrightarrow> whcn_in_tlidx w' i p = whcn_in_tlidx w i p"
proof (cases i)
  case (Some j)
  assume "same_heads w w'"
  then have "map_option in_headidx (wh_idx_hash w' j) = map_option in_headidx (wh_idx_hash w j)" "wh_wrinfo w' = wh_wrinfo w"
    by (auto simp: same_heads_def)
  then show ?thesis using Some by (cases "wh_idx_hash w j"; cases "wh_idx_hash w' j") (auto simp: whcn_in_tlidx_def Let_def)
qed (simp add: whcn_in_tlidx_def)

lemma same_heads_ack: "same_heads w (ack_node n w)"
  by (simp add: same_heads_def)

lemma same_heads_delete_intv: "same_heads w (fst (whc_delete_one_intv w p n))"
  by (auto simp: same_heads_def delete_one_sample_from_idx_def option.map_comp comp_def split: option.splits)

lemma same_heads_delete_seq: "same_heads w (whc_delete_seq w s)"
  by (simp add: same_heads_def delete_seq_head)

lemma remove_loop_spec:
  assumes "whc_core E w" "wh_nodes w = pre @ ns" "ns \<noteq> [] \<Longrightarrow> p = idx_pred_eq fst (wn_seq (hd ns)) (wh_seq w)"
    "remove_loop d ns p w freed = (w', freed')"
  shows "whc_core E w' \<and> wh_nodes w' = pre @ map (ack_le d) (filter (\<lambda>n. \<not> (wn_seq n \<le> d \<and> \<not> in_tl w n)) ns)
    \<and> freed' = freed @ filter (\<lambda>n. wn_seq n \<le> d \<and> \<not> in_tl w n) ns \<and> same_heads w w'
    \<and> wh_seq_size w' = wh_seq_size w \<and> wh_max_drop_seq w' = wh_max_drop_seq w \<and> wh_refs w' = wh_refs w"
  using assms
proof (induction ns arbitrary: w pre p freed)
  case (Cons n ns)
  note c = coreD [OF Cons.prems(1)]
  have wf: "idx_wf wn_seq (pre @ n # ns)" using c(1) Cons.prems(2) by simp
  have keys: "\<forall>y\<in>set pre. wn_seq y < wn_seq n" "\<forall>y\<in>set ns. wn_seq n < wn_seq y" using wf by (auto simp: idx_wf_append)
  have n: "n \<in> set (wh_nodes w)" using Cons.prems(2) by simp
  obtain a where a: "a \<in> set (wh_seq w)" "fst a \<le> wn_seq n" "wn_seq n < snd a" "p = Some a"
    using core_intv [OF Cons.prems(1) n] Cons.prems(3) by auto
  have nxt: "x \<in> members (wh_seq w) \<and> wn_seq n < x \<and> (\<forall>y\<in>members (wh_seq w). wn_seq n < y \<longrightarrow> x \<le> y)"
    if "ns \<noteq> []" "x = wn_seq (hd ns)" for x
    using that keys wf unfolding c(3) Cons.prems(2) by (cases ns) (auto simp: idx_wf_append)
  show ?case
  proof (cases "wn_seq n \<le> d")
    case False
    then have "\<forall>x\<in>set (n # ns). d < wn_seq x" using keys by auto
    then have "filter (\<lambda>x. \<not> (wn_seq x \<le> d \<and> \<not> in_tl w x)) (n # ns) = n # ns" "filter (\<lambda>x. wn_seq x \<le> d \<and> \<not> in_tl w x) (n # ns) = []"
      by (force intro!: filter_True filter_False simp del: filter.simps)+
    then show ?thesis
      using False Cons.prems ack_le_above [of "n # ns" d] \<open>\<forall>x\<in>set (n # ns). d < wn_seq x\<close> by (simp del: filter.simps)
  next
    case le: True
    show ?thesis
    proof (cases "in_tl w n")
      case True
      let ?p = "if wn_seq n = snd a - 1 then idx_succ fst (fst a) (wh_seq w) else Some a"
      have 1: "wh_nodes (ack_node n w) = (pre @ [ack_le d n]) @ ns" using ack_node_split [OF Cons.prems(1,2)] le by (simp add: ack_le_def)
      have 2: "?p = idx_pred_eq fst (wn_seq (hd ns)) (wh_seq (ack_node n w))" if "ns \<noteq> []"
        using next_intv [OF c(2) a(1-3)] nxt [OF that refl] by simp
      have 3: "remove_loop d ns ?p (ack_node n w) freed = (w', freed')" using Cons.prems(4) le True a(4) by (simp cong: if_cong)
      show ?thesis
        using Cons.IH [OF core_ack [OF Cons.prems(1) n] 1 2 3] le True same_heads_tl [OF same_heads_ack [of w n]]
          same_heads_trans [OF same_heads_ack [of w n]] by simp
    next
      case False
      let ?d = "whc_delete_one_intv w (Some a) n"
      have 1: "wh_nodes (fst ?d) = pre @ ns" using Cons.prems(2) idx_at(6) [OF keys] by simp
      have 2: "snd ?d = idx_pred_eq fst (wn_seq (hd ns)) (wh_seq (fst ?d))" if "ns \<noteq> []"
        using intv_delete_spec [OF c(2) a(1-3)] nxt [OF that refl] by (simp add: delete_intv_seq)
      have 3: "remove_loop d ns (snd ?d) (fst ?d) (freed @ [n]) = (w', freed')"
        using Cons.prems(4) le False a(4) by (simp add: case_prod_unfold)
      show ?thesis
        using Cons.IH [OF core_delete_intv [OF Cons.prems(1) n a(1-3)] 1 2 3] le False same_heads_tl [OF same_heads_delete_intv [of w "Some a" n]]
          same_heads_trans [OF same_heads_delete_intv [of w "Some a" n]] by simp
    qed
  qed
qed simp

section \<open>Pruning\<close>

lemma idx_ok_hash:
  assumes "whc_idx_ok E w" "wh_nodes w' = wh_nodes w" "wh_wrinfo w' = wh_wrinfo w"
    "\<And>i. map_option (\<lambda>x. (in_headidx x, in_hist x)) (wh_idx_hash w' i) = map_option (\<lambda>x. (in_headidx x, in_hist x)) (wh_idx_hash w i)"
  shows "whc_idx_ok E w'"
proof -
  note k = idx_okD [OF assms(1)]
  have h: "\<exists>y. wh_idx_hash w i = Some y \<and> in_headidx y = in_headidx x \<and> in_hist y = in_hist x" if "wh_idx_hash w' i = Some x" for i x
    using assms(4) [of i] that by (cases "wh_idx_hash w i") auto
  have n: "wh_idx_hash w' i = None \<longleftrightarrow> wh_idx_hash w i = None" for i
    using assms(4) [of i] by (cases "wh_idx_hash w i"; cases "wh_idx_hash w' i") auto
  have a: "hist_at w' = hist_at w"
  proof (intro ext)
    fix i p show "hist_at w' i p = hist_at w i p"
      using assms(4) [of i] by (cases "wh_idx_hash w i"; cases "wh_idx_hash w' i") (auto simp: hist_at_def)
  qed
  show ?thesis
  proof (rule idx_okI)
    fix i x assume "wh_idx_hash w' i = Some x"
    from h [OF this] show "length (in_hist x) = wi_idxdepth (wh_wrinfo w')
      \<and> (in_headidx x < wi_idxdepth (wh_wrinfo w') \<or> wi_idxdepth (wh_wrinfo w') = 0 \<and> in_headidx x = 0)"
      using k(1,2) assms(3) by metis
  next
    fix i x p q s s'
    assume b: "wh_idx_hash w' i = Some x" "hist_at w' i p = Some s" "hist_at w' i q = Some s'"
      "hist_dist (wi_idxdepth (wh_wrinfo w')) (in_headidx x) p < hist_dist (wi_idxdepth (wh_wrinfo w')) (in_headidx x) q"
    from h [OF b(1)] show "s' < s" using b k(5) assms(3) a by metis
  qed (use k(3,4) n a assms(2) in auto)
qed

lemma cell_nodes:
  assumes "whc_core E w" "wh_idx_hash w i = Some x" "p < wi_idxdepth (wh_wrinfo w)"
  shows "wh_nodes (case Option.bind (wh_idx_hash w i) (\<lambda>x. in_hist x ! p) of None \<Rightarrow> w | Some s \<Rightarrow> whc_delete_seq w s)
    = filter (\<lambda>n. \<not> (wn_idxnode n = Some i \<and> wn_idxnode_pos n = p)) (wh_nodes w)"
proof -
  note c = coreD [OF assms(1)] note k = idx_okD [OF c(5)]
  have h: "in_hist x ! p = hist_at w i p" using k(1) [OF assms(2)] assms(2,3) by (simp add: hist_at_def)
  have n: "hist_at w i p = Some (wn_seq n)" if "n \<in> set (wh_nodes w)" "wn_idxnode n = Some i" "wn_idxnode_pos n = p" for n
    using k(4) [OF that(1,2)] assms(2) that(3) by simp
  show ?thesis
  proof (cases "hist_at w i p")
    case None
    then have "\<forall>a\<in>set (wh_nodes w). \<not> (wn_idxnode a = Some i \<and> wn_idxnode_pos a = p)" using n by force
    then show ?thesis using None assms(2) h by (simp add: filter_True)
  next
    case (Some s)
    obtain m where m: "m \<in> set (wh_nodes w)" "wn_seq m = s" "wn_idxnode m = Some i" "wn_idxnode_pos m = p"
      using k(3) [OF Some] by auto
    have "wn_seq a = s \<longleftrightarrow> wn_idxnode a = Some i \<and> wn_idxnode_pos a = p" if "a \<in> set (wh_nodes w)" for a
    proof
      assume "wn_seq a = s"
      then have "a = m" using wf_inj [OF c(1) that m(1)] m(2) by simp
      then show "wn_idxnode a = Some i \<and> wn_idxnode_pos a = p" using m by simp
    next
      assume "wn_idxnode a = Some i \<and> wn_idxnode_pos a = p"
      then show "wn_seq a = s" using n [OF that] Some by simp
    qed
    then have "filter (\<lambda>a. wn_seq a \<noteq> s) (wh_nodes w) = filter (\<lambda>a. \<not> (wn_idxnode a = Some i \<and> wn_idxnode_pos a = p)) (wh_nodes w)"
      by (intro filter_cong) auto
    then show ?thesis using Some h assms(2) by (simp add: delete_seq_nodes idx_delete_def)
  qed
qed

lemma next_pos: "(idx::nat) < d \<Longrightarrow> (if idx + 1 = d then 0 else idx + 1) = (idx + 1) mod d"
  by (auto simp: mod_less)

lemma prune_hist_spec:
  assumes "whc_core E w" "wh_idx_hash w i = Some x" "idx < wi_idxdepth (wh_wrinfo w)" "wh_seq_size w = length (wh_nodes w) + k"
  shows "whc_core E (prune_hist i idx cnt w) \<and> same_heads w (prune_hist i idx cnt w)
    \<and> (\<forall>j. map_option in_prune_seq (wh_idx_hash (prune_hist i idx cnt w) j) = map_option in_prune_seq (wh_idx_hash w j))
    \<and> wh_max_drop_seq (prune_hist i idx cnt w) = wh_max_drop_seq w
    \<and> wh_seq_size (prune_hist i idx cnt w) = length (wh_nodes (prune_hist i idx cnt w)) + k
    \<and> wh_nodes (prune_hist i idx cnt w)
      = filter (\<lambda>n. \<not> (wn_idxnode n = Some i \<and> (\<exists>k<cnt. wn_idxnode_pos n = (idx + 1 + k) mod wi_idxdepth (wh_wrinfo w)))) (wh_nodes w)"
  using assms
proof (induction cnt arbitrary: idx w x)
  case (Suc cnt)
  let ?d = "wi_idxdepth (wh_wrinfo w)" and ?p = "if idx + 1 = wi_idxdepth (wh_wrinfo w) then 0 else idx + 1"
  let ?w = "case Option.bind (wh_idx_hash w i) (\<lambda>x. in_hist x ! ?p) of None \<Rightarrow> w | Some s \<Rightarrow> whc_delete_seq w s"
  have p: "?p = (idx + 1) mod ?d" "?p < ?d" using Suc.prems(3) by auto
  have core: "whc_core E ?w" "same_heads w ?w" using Suc.prems(1) by (auto simp: core_delete_seq same_heads_delete_seq split: option.split)
  obtain y where y: "wh_idx_hash ?w i = Some y"
    using Suc.prems(2) by (cases "in_hist x ! ?p"; cases "wh_idx_hash ?w i") (simp_all add: delete_seq_head(1))
  have wi: "wh_wrinfo ?w = wh_wrinfo w" "wh_max_drop_seq ?w = wh_max_drop_seq w" by (auto split: option.split)
  have size: "wh_seq_size ?w = length (wh_nodes ?w) + k"
    using Suc.prems(4) delete_seq_size [OF coreD(1) [OF Suc.prems(1)]] by (auto split: option.split)
  have ps: "map_option in_prune_seq (wh_idx_hash ?w j) = map_option in_prune_seq (wh_idx_hash w j)" for j
    by (auto simp: delete_seq_head split: option.split)
  have p': "?p < wi_idxdepth (wh_wrinfo ?w)" using p(2) wi(1) by simp
  note IH = Suc.IH [of ?w y ?p, OF core(1) y p' size]
  have ex: "(\<exists>k<Suc cnt. q = (idx + 1 + k) mod ?d) \<longleftrightarrow> q = ?p \<or> (\<exists>k<cnt. q = (?p + 1 + k) mod ?d)" for q
  proof -
    have "(?p + 1 + k) mod ?d = (idx + 1 + Suc k) mod ?d" for k
      unfolding p(1) by (metis (no_types, lifting) add_Suc_right add_Suc_shift mod_add_left_eq plus_1_eq_Suc semiring_norm(174))
    then show ?thesis unfolding p(1) by (metis add.right_neutral less_Suc_eq_0_disj zero_less_Suc)
  qed
  have f: "filter (\<lambda>n. \<not> (wn_idxnode n = Some i \<and> (\<exists>k<Suc cnt. wn_idxnode_pos n = (idx + 1 + k) mod ?d))) (wh_nodes w)
    = filter (\<lambda>n. \<not> (wn_idxnode n = Some i \<and> (\<exists>k<cnt. wn_idxnode_pos n = (?p + 1 + k) mod ?d))) (wh_nodes ?w)"
    unfolding cell_nodes [OF Suc.prems(1,2) p(2)] ex by (auto intro!: filter_cong)
  have step: "prune_hist i idx (Suc cnt) w = prune_hist i ?p cnt ?w" by (simp add: Let_def cong: if_cong)
  show ?case unfolding step f using IH wi ps same_heads_trans [OF core(2)] by simp
qed simp

lemma cells_dist:
  assumes "p < d" "head < d" "m \<le> d"
  shows "(\<exists>k<d - m. p = (head + 1 + k) mod d) \<longleftrightarrow> m \<le> hist_dist d head p"
proof -
  have e: "p = (head + 1 + k) mod d \<longleftrightarrow> k = d - 1 - hist_dist d head p" if "k < d" for k
  proof -
    have "(head + 1 + k) mod d = (if head + 1 + k < d then head + 1 + k else head + 1 + k - d)"
      using that assms(2) by (simp add: mod_if)
    then show ?thesis using that assms by (simp add: hist_dist_def) arith
  qed
  have "(\<exists>k<d - m. p = (head + 1 + k) mod d) \<longleftrightarrow> d - 1 - hist_dist d head p < d - m"
  proof
    assume "\<exists>k<d - m. p = (head + 1 + k) mod d"
    then obtain k where "k < d - m" "p = (head + 1 + k) mod d" by blast
    then show "d - 1 - hist_dist d head p < d - m" using e [of k] by simp
  next
    assume "d - 1 - hist_dist d head p < d - m"
    then show "\<exists>k<d - m. p = (head + 1 + k) mod d" using e [of "d - 1 - hist_dist d head p"] by auto
  qed
  also have "\<dots> \<longleftrightarrow> m \<le> hist_dist d head p"
  proof -
    have "hist_dist d head p < d" using assms(1,2) by (auto simp: hist_dist_def)
    then show ?thesis using assms(3) by arith
  qed
  finally show ?thesis .
qed

lemma in_tl_iff:
  assumes "whc_core E w" "n \<in> set (wh_nodes w)"
  shows "in_tl w n \<longleftrightarrow> (\<exists>i x. wn_idxnode n = Some i \<and> wh_idx_hash w i = Some x
    \<and> hist_dist (wi_idxdepth (wh_wrinfo w)) (in_headidx x) (wn_idxnode_pos n) < wi_tldepth (wh_wrinfo w))"
  by (cases "wn_idxnode n") (auto simp: whcn_in_tlidx_def hist_dist_def Let_def split: option.splits)

lemma core_set_prune_seq:
  assumes "whc_core E w" "wh_idx_hash w i = Some x"
  shows "whc_core E (w\<lparr>wh_idx_hash := (wh_idx_hash w)(i \<mapsto> x\<lparr>in_prune_seq := d\<rparr>)\<rparr>)"
proof -
  have "whc_idx_ok E (w\<lparr>wh_idx_hash := (wh_idx_hash w)(i \<mapsto> x\<lparr>in_prune_seq := d\<rparr>)\<rparr>)"
    by (rule idx_ok_hash [OF coreD(5) [OF assms(1)]]) (simp_all add: assms(2))
  then show ?thesis using assms(1) by (simp add: whc_core_def)
qed

text \<open>Pruning one instance: what is not in the transient-local history goes.\<close>

lemma prune_instance:
  assumes "whc_core {} w" "wh_idx_hash w i = Some x" "wh_seq_size w = length (wh_nodes w) + k"
    "0 < wi_idxdepth (wh_wrinfo w)" "w' = prune_hist i (in_headidx x) (wi_idxdepth (wh_wrinfo w) - wi_tldepth (wh_wrinfo w))
      (w\<lparr>wh_idx_hash := (wh_idx_hash w)(i \<mapsto> x\<lparr>in_prune_seq := d\<rparr>)\<rparr>)"
  shows "whc_core {} w'" "same_heads w w'" "wh_seq_size w' = length (wh_nodes w') + k" "wh_max_drop_seq w' = wh_max_drop_seq w"
    "map_option in_prune_seq (wh_idx_hash w' j) = (if j = i then Some d else map_option in_prune_seq (wh_idx_hash w j))"
    "wh_nodes w' = filter (\<lambda>n. \<not> (wn_idxnode n = Some i \<and> \<not> in_tl w n)) (wh_nodes w)"
proof -
  let ?w = "w\<lparr>wh_idx_hash := (wh_idx_hash w)(i \<mapsto> x\<lparr>in_prune_seq := d\<rparr>)\<rparr>" and ?d = "wi_idxdepth (wh_wrinfo w)"
  note c = coreD [OF assms(1)] note k = idx_okD [OF c(5)]
  have hd: "in_headidx x < ?d" using k(2) [OF assms(2)] assms(4) by simp
  have sh: "same_heads w ?w" using assms(2) by (simp add: same_heads_def)
  note p = prune_hist_spec [of "{}" ?w i "x\<lparr>in_prune_seq := d\<rparr>" "in_headidx x" k "?d - wi_tldepth (wh_wrinfo w)",
      OF core_set_prune_seq [OF assms(1,2)], simplified, OF hd, OF assms(3), folded assms(5)]
  show "whc_core {} w'" "wh_seq_size w' = length (wh_nodes w') + k" "wh_max_drop_seq w' = wh_max_drop_seq w" using p by auto
  show "same_heads w w'" using p same_heads_trans [OF sh] by auto
  show "map_option in_prune_seq (wh_idx_hash w' j) = (if j = i then Some d else map_option in_prune_seq (wh_idx_hash w j))"
    using p by simp
  have "(\<exists>k<?d - wi_tldepth (wh_wrinfo w). wn_idxnode_pos n = Suc (in_headidx x + k) mod ?d) \<longleftrightarrow> \<not> in_tl w n"
    if n: "n \<in> set (wh_nodes w)" "wn_idxnode n = Some i" for n
  proof -
    have "hist_at w i (wn_idxnode_pos n) = Some (wn_seq n)" using k(4) [OF n] by simp
    then have "wn_idxnode_pos n < ?d" using k(1) [OF assms(2)] assms(2) by (auto simp: hist_at_def split: if_splits)
    from cells_dist [OF this hd c(6)] show ?thesis using in_tl_iff [OF assms(1) n(1)] n(2) assms(2) by auto
  qed
  then show "wh_nodes w' = filter (\<lambda>n. \<not> (wn_idxnode n = Some i \<and> \<not> in_tl w n)) (wh_nodes w)"
    using p by (auto intro!: filter_cong)
qed

definition to_prune :: "seqno \<Rightarrow> whc_node list \<Rightarrow> whc \<Rightarrow> iid set" where
  "to_prune d ns w = {i. \<exists>m\<in>set ns. wn_seq m \<le> d \<and> wn_idxnode m = Some i \<and> (\<exists>x. wh_idx_hash w i = Some x \<and> in_prune_seq x \<noteq> d)}"

lemma to_prune_Cons:
  "to_prune d (n # ns) w = (if wn_seq n \<le> d
    then {i. wn_idxnode n = Some i \<and> (\<exists>x. wh_idx_hash w i = Some x \<and> in_prune_seq x \<noteq> d)} \<union> to_prune d ns w else to_prune d ns w)"
  by (auto simp: to_prune_def)

lemma prune_loop_spec:
  assumes "whc_core {} w" "wh_seq_size w = length (wh_nodes w) + k" "0 < wi_idxdepth (wh_wrinfo w)" "idx_wf wn_seq ns"
    "w' = prune_loop d ns w"
  shows "whc_core {} w' \<and> same_heads w w' \<and> wh_seq_size w' = length (wh_nodes w') + k \<and> wh_max_drop_seq w' = wh_max_drop_seq w
    \<and> (\<forall>i x. wh_idx_hash w' i = Some x \<longrightarrow> in_prune_seq x = d \<or> (\<exists>y. wh_idx_hash w i = Some y \<and> in_prune_seq x = in_prune_seq y))
    \<and> wh_nodes w' = filter (\<lambda>n. \<not> ((\<exists>i\<in>to_prune d ns w. wn_idxnode n = Some i) \<and> \<not> in_tl w n)) (wh_nodes w)"
  using assms
proof (induction ns arbitrary: w w')
  case Nil
  then show ?case by (simp add: to_prune_def)
next
  case (Cons n ns)
  note IH = Cons.IH [OF _ _ _ _ refl]
  have wf: "idx_wf wn_seq ns" using Cons.prems(4) by simp
  consider (stop) "d < wn_seq n" | (skip) "wn_seq n \<le> d" "\<not> (\<exists>i x. wn_idxnode n = Some i \<and> wh_idx_hash w i = Some x \<and> in_prune_seq x \<noteq> d)"
    | (go) i x where "wn_seq n \<le> d" "wn_idxnode n = Some i" "wh_idx_hash w i = Some x" "in_prune_seq x \<noteq> d"
    by (cases "d < wn_seq n") auto
  then show ?case
  proof cases
    case stop
    then have "\<forall>m\<in>set (n # ns). \<not> wn_seq m \<le> d" using Cons.prems(4) by auto
    then have "to_prune d (n # ns) w = {}" by (auto simp: to_prune_def)
    then show ?thesis using stop Cons.prems by simp
  next
    case skip
    then have e: "prune_loop d (n # ns) w = prune_loop d ns w" by (cases "wn_idxnode n") (auto split: option.split)
    have v: "to_prune d (n # ns) w = to_prune d ns w" using skip by (auto simp: to_prune_Cons)
    show ?thesis unfolding Cons.prems(5) e v by (rule IH [OF Cons.prems(1-3) wf])
  next
    case go
    let ?w = "prune_hist i (in_headidx x) (wi_idxdepth (wh_wrinfo w) - wi_tldepth (wh_wrinfo w))
      (w\<lparr>wh_idx_hash := (wh_idx_hash w)(i \<mapsto> x\<lparr>in_prune_seq := d\<rparr>)\<rparr>)"
    note p = prune_instance [OF Cons.prems(1) go(3) Cons.prems(2,3), of ?w d, OF refl]
    have e: "prune_loop d (n # ns) w = prune_loop d ns ?w" using go by simp
    have wi: "wh_wrinfo ?w = wh_wrinfo w" using p(2) by (simp add: same_heads_def)
    have ps: "(\<exists>y. wh_idx_hash ?w j = Some y \<and> in_prune_seq y \<noteq> d) \<longleftrightarrow> j \<noteq> i \<and> (\<exists>y. wh_idx_hash w j = Some y \<and> in_prune_seq y \<noteq> d)" for j
      using p(5) [of j] by (cases "wh_idx_hash ?w j"; cases "wh_idx_hash w j") (auto split: if_splits)
    have v: "to_prune d (n # ns) w = insert i (to_prune d ns ?w)"
      unfolding to_prune_Cons to_prune_def ps using go by auto
    have tl: "in_tl ?w m = in_tl w m" for m by (rule same_heads_tl [OF p(2)])
    have f: "filter (\<lambda>m. \<not> ((\<exists>j\<in>to_prune d (n # ns) w. wn_idxnode m = Some j) \<and> \<not> in_tl w m)) (wh_nodes w)
      = filter (\<lambda>m. \<not> ((\<exists>j\<in>to_prune d ns ?w. wn_idxnode m = Some j) \<and> \<not> in_tl ?w m)) (wh_nodes ?w)"
      unfolding v p(6) tl by (auto intro!: filter_cong)
    have o: "in_prune_seq z = d \<or> (\<exists>y. wh_idx_hash w j = Some y \<and> in_prune_seq z = in_prune_seq y)"
      if "in_prune_seq z = d \<or> (\<exists>y. wh_idx_hash ?w j = Some y \<and> in_prune_seq z = in_prune_seq y)" for j z
      using that p(5) [of j] by (cases "wh_idx_hash ?w j"; cases "wh_idx_hash w j") (auto split: if_splits)
    note q = IH [of ?w, OF p(1,3) _ wf, unfolded wi, OF Cons.prems(3)]
    show ?thesis unfolding Cons.prems(5) e f
    proof (intro conjI allI impI)
      show "same_heads w (prune_loop d ns ?w)" using q same_heads_trans [OF p(2)] by blast
      show "wh_max_drop_seq (prune_loop d ns ?w) = wh_max_drop_seq w" using q p(4) by simp
      fix j z assume "wh_idx_hash (prune_loop d ns ?w) j = Some z"
      then show "in_prune_seq z = d \<or> (\<exists>y. wh_idx_hash w j = Some y \<and> in_prune_seq z = in_prune_seq y)"
        using q by (intro o) blast
    qed (use q in blast)+
  qed
qed

text \<open>What is kept: what is still to be acknowledged, and the transient-local history of each instance.\<close>

definition whc_retained :: "whc \<Rightarrow> seqno \<Rightarrow> whc_node \<Rightarrow> bool" where
  "whc_retained w d n \<longleftrightarrow> d < wn_seq n \<or> in_tl w n \<or> wi_is_transient_local (wh_wrinfo w) \<and> wi_tldepth (wh_wrinfo w) = 0
     \<or> wn_seq n \<le> wh_max_drop_seq w
       \<and> \<not> (\<exists>m\<in>set (wh_nodes w). wh_max_drop_seq w < wn_seq m \<and> wn_seq m \<le> d \<and> in_tl w m \<and> wn_idxnode m = wn_idxnode n)"

lemma invD:
  assumes "whc_inv w"
  shows "whc_core {} w" "wh_seq_size w = length (wh_nodes w)" "wh_maxseq_node w = map_option wn_seq (last_opt (wh_nodes w))"
    "\<And>n. n \<in> set (wh_nodes w) \<Longrightarrow> wn_unacked n \<Longrightarrow> wh_max_drop_seq w < wn_seq n"
    "\<And>i x. wh_idx_hash w i = Some x \<Longrightarrow> in_prune_seq x \<le> wh_max_drop_seq w"
  using assms by (auto simp: whc_inv_def)

lemma sorted_upto: "idx_wf key xs \<Longrightarrow> xs = filter (\<lambda>n. key n \<le> k) xs @ filter (\<lambda>n. k < key n) xs"
proof (induction xs)
  case (Cons a xs)
  have "k < key a \<Longrightarrow> filter (\<lambda>n. key n \<le> k) xs = []" using Cons.prems by (auto simp: filter_empty_conv)
  moreover have "k < key a \<Longrightarrow> filter (\<lambda>n. k < key n) xs = xs" using Cons.prems by (auto simp: filter_id_conv)
  ultimately show ?case using Cons by (cases "k < key a") auto
qed simp

lemma ack_acked:
  assumes "whc_inv w"
  shows "map (ack_le d) (filter (\<lambda>n. wn_seq n \<le> wh_max_drop_seq w) (wh_nodes w)) = filter (\<lambda>n. wn_seq n \<le> wh_max_drop_seq w) (wh_nodes w)"
proof (rule map_id_on, rule ballI)
  fix n assume "n \<in> set (filter (\<lambda>n. wn_seq n \<le> wh_max_drop_seq w) (wh_nodes w))"
  then have "\<not> wn_unacked n" using invD(4) [OF assms, of n] by auto
  then show "ack_le d n = n" by (simp add: ack_le_def)
qed

text \<open>The older sample of an instance is further from the head.\<close>

lemma outside_tl_older:
  assumes "whc_core {} w" "n \<in> set (wh_nodes w)" "m \<in> set (wh_nodes w)" "wn_idxnode n = Some i" "wn_idxnode m = Some i"
    "\<not> in_tl w n" "in_tl w m"
  shows "wn_seq n < wn_seq m"
proof -
  note k = idx_okD [OF coreD(5) [OF assms(1)]]
  obtain x where x: "wh_idx_hash w i = Some x"
    "hist_dist (wi_idxdepth (wh_wrinfo w)) (in_headidx x) (wn_idxnode_pos m) < wi_tldepth (wh_wrinfo w)"
    using assms(5,7) in_tl_iff [OF assms(1,3)] by auto
  moreover have "\<not> hist_dist (wi_idxdepth (wh_wrinfo w)) (in_headidx x) (wn_idxnode_pos n) < wi_tldepth (wh_wrinfo w)"
    using assms(4,6) x(1) in_tl_iff [OF assms(1,2)] by auto
  ultimately show ?thesis using k(5) [OF x(1), of "wn_idxnode_pos m" "wn_seq m" "wn_idxnode_pos n" "wn_seq n"]
      k(4) [OF assms(2,4)] k(4) [OF assms(3,5)] by auto
qed

lemma remove_keep_all:
  assumes "whc_inv w" "wh_max_drop_seq w \<le> d" "wi_is_transient_local (wh_wrinfo w) \<and> wi_tldepth (wh_wrinfo w) = 0"
    "w' = (ack_loop d (nodes_from w (map_option snd (find_nextseq_intv w (wh_max_drop_seq w)))) w)\<lparr>wh_max_drop_seq := d\<rparr>"
  shows "whc_inv w'" "wh_nodes w' = map (ack_le d) (wh_nodes w)"
proof -
  note i = invD [OF assms(1)]
  note ns = nodes_from_next [OF i(1), of "wh_max_drop_seq w"] and split = sorted_upto [OF coreD(1) [OF i(1)], of "wh_max_drop_seq w"]
  note l = ack_loop_spec [OF i(1) split, of d]
  have e: "wh_nodes w' = map (ack_le d) (wh_nodes w)"
    using l ack_acked [OF assms(1), of d] unfolding assms(4) ns by (simp) (metis map_append split)
  then show "wh_nodes w' = map (ack_le d) (wh_nodes w)" .
  have c: "whc_core {} w'" unfolding assms(4) ns by (rule core_frame [of "{}" "ack_loop d (filter (\<lambda>n. wh_max_drop_seq w < wn_seq n) (wh_nodes w)) w"]) (use l in simp_all)
  have "map_option wn_seq (last_opt (map (ack_le d) (wh_nodes w))) = map_option wn_seq (last_opt (wh_nodes w))"
    by (cases "wh_nodes w" rule: rev_cases) auto
  moreover have "d < wn_seq n" if "n \<in> set (wh_nodes w')" "wn_unacked n" for n
    using that unfolding e by (auto simp: ack_le_def split: if_splits)
  moreover have "in_prune_seq x \<le> d" if "wh_idx_hash w' j = Some x" for j x
  proof -
    have "wh_idx_hash (ack_loop d ns w) = wh_idx_hash w" for ns by (induction ns arbitrary: w) auto
    then show ?thesis using that i(5) [of j x] assms(2) unfolding assms(4) by simp
  qed
  ultimately show "whc_inv w'" unfolding whc_inv_def using c i(2,3) e by (simp add: assms(4))
qed

lemma delete_idx_prune_seq:
  "map_option in_prune_seq (wh_idx_hash (delete_one_sample_from_idx n w) i) = map_option in_prune_seq (wh_idx_hash w i)"
  by (auto simp: delete_one_sample_from_idx_def option.map_comp comp_def split: option.splits)

lemma remove_loop_prune_seq:
  "map_option in_prune_seq (wh_idx_hash (fst (remove_loop d ns p w freed)) i) = map_option in_prune_seq (wh_idx_hash w i)"
  by (induction d ns p w freed rule: remove_loop.induct) (simp_all add: case_prod_unfold delete_idx_prune_seq)

text \<open>The first pass alone, for a cache that is not transient-local with unlimited history.\<close>

lemma first_pass:
  assumes "whc_inv w" "wh_max_drop_seq w \<le> d"
    "remove_loop d (nodes_from w (map_option snd (find_nextseq_intv w (wh_max_drop_seq w))))
       (Option.bind (find_nextseq_intv w (wh_max_drop_seq w)) fst) w [] = (w1, freed)"
  shows "whc_core {} w1" "same_heads w w1" "wh_seq_size w1 = wh_seq_size w" "wh_max_drop_seq w1 = wh_max_drop_seq w"
    "freed = filter (\<lambda>n. wh_max_drop_seq w < wn_seq n \<and> wn_seq n \<le> d \<and> \<not> in_tl w n) (wh_nodes w)"
    "wh_nodes w1 = map (ack_le d) (filter (\<lambda>n. wn_seq n \<le> wh_max_drop_seq w \<or> d < wn_seq n \<or> in_tl w n) (wh_nodes w))"
proof -
  note i = invD [OF assms(1)]
  let ?s = "wh_max_drop_seq w"
  let ?ns = "filter (\<lambda>n. ?s < wn_seq n) (wh_nodes w)" and ?pre = "filter (\<lambda>n. wn_seq n \<le> ?s) (wh_nodes w)"
  note ns = nodes_from_next [OF i(1), of ?s] and split = sorted_upto [OF coreD(1) [OF i(1)], of ?s]
  have p: "Option.bind (find_nextseq_intv w ?s) fst = idx_pred_eq fst (wn_seq (hd ?ns)) (wh_seq w)" if "?ns \<noteq> []"
    using that by (cases ?ns) (auto simp: find_nextseq_spec [OF i(1)] idx_succ_def)
  note r = remove_loop_spec [OF i(1) split p assms(3) [unfolded ns]]
  show "whc_core {} w1" "same_heads w w1" "wh_seq_size w1 = wh_seq_size w" "wh_max_drop_seq w1 = wh_max_drop_seq w" using r by auto
  show "freed = filter (\<lambda>n. ?s < wn_seq n \<and> wn_seq n \<le> d \<and> \<not> in_tl w n) (wh_nodes w)" using r by simp
  have "wh_nodes w1 = map (ack_le d) (?pre @ filter (\<lambda>n. \<not> (wn_seq n \<le> d \<and> \<not> in_tl w n)) ?ns)"
    using r ack_acked [OF assms(1), of d] by simp
  also have "?pre @ filter (\<lambda>n. \<not> (wn_seq n \<le> d \<and> \<not> in_tl w n)) ?ns
    = filter (\<lambda>n. wn_seq n \<le> ?s \<or> \<not> (wn_seq n \<le> d \<and> \<not> in_tl w n)) (?pre @ ?ns)"
    unfolding filter_append filter_filter by (intro arg_cong2 [where f = append] filter_cong) auto
  also have "\<dots> = filter (\<lambda>n. wn_seq n \<le> ?s \<or> d < wn_seq n \<or> in_tl w n) (wh_nodes w)"
    unfolding split [symmetric] by (auto intro!: filter_cong)
  finally show "wh_nodes w1 = map (ack_le d) (filter (\<lambda>n. wn_seq n \<le> ?s \<or> d < wn_seq n \<or> in_tl w n) (wh_nodes w))" .
qed

lemma prune_pass_spec:
  assumes "whc_core {} w" "wh_seq_size w = length (wh_nodes w) + k" "\<forall>j x. wh_idx_hash w j = Some x \<longrightarrow> in_prune_seq x \<le> wh_max_drop_seq w"
    "wh_max_drop_seq w \<le> d"
  shows "whc_core {} (prune_pass d w) \<and> same_heads w (prune_pass d w) \<and> wh_seq_size (prune_pass d w) = length (wh_nodes (prune_pass d w)) + k
    \<and> (\<forall>j x. wh_idx_hash (prune_pass d w) j = Some x \<longrightarrow> in_prune_seq x \<le> d)
    \<and> wh_nodes (prune_pass d w) = filter (\<lambda>n. \<not> ((\<exists>m\<in>set (wh_nodes w). wh_max_drop_seq w < wn_seq m \<and> wn_seq m \<le> d \<and> wn_idxnode n \<noteq> None
        \<and> wn_idxnode m = wn_idxnode n) \<and> 0 < wi_tldepth (wh_wrinfo w) \<and> \<not> in_tl w n)) (wh_nodes w)"
proof (cases "wi_tldepth (wh_wrinfo w) > 0 \<and> wi_idxdepth (wh_wrinfo w) > wi_tldepth (wh_wrinfo w)")
  case True
  let ?ns = "filter (\<lambda>n. wh_max_drop_seq w < wn_seq n) (wh_nodes w)"
  have e: "prune_pass d w = prune_loop d ?ns w" using True by (simp add: prune_pass_def nodes_from_next [OF assms(1)])
  have wf: "idx_wf wn_seq ?ns" using coreD(1) [OF assms(1)] by (simp add: idx_wf_def sorted_wrt_filter)
  have v: "(\<exists>i\<in>to_prune d ?ns w. wn_idxnode n = Some i) \<longleftrightarrow> (\<exists>m\<in>set (wh_nodes w). wh_max_drop_seq w < wn_seq m \<and> wn_seq m \<le> d
      \<and> wn_idxnode n \<noteq> None \<and> wn_idxnode m = wn_idxnode n)" for n
  proof
    assume "\<exists>i\<in>to_prune d ?ns w. wn_idxnode n = Some i"
    then show "\<exists>m\<in>set (wh_nodes w). wh_max_drop_seq w < wn_seq m \<and> wn_seq m \<le> d \<and> wn_idxnode n \<noteq> None \<and> wn_idxnode m = wn_idxnode n"
      by (auto simp: to_prune_def)
  next
    assume "\<exists>m\<in>set (wh_nodes w). wh_max_drop_seq w < wn_seq m \<and> wn_seq m \<le> d \<and> wn_idxnode n \<noteq> None \<and> wn_idxnode m = wn_idxnode n"
    then obtain m i where m: "m \<in> set (wh_nodes w)" "wh_max_drop_seq w < wn_seq m" "wn_seq m \<le> d" "wn_idxnode n = Some i" "wn_idxnode m = Some i"
      by auto
    have "hist_at w i (wn_idxnode_pos m) = Some (wn_seq m)" using idx_okD(4) [OF coreD(5) [OF assms(1)] m(1,5)] by simp
    then obtain x where x: "wh_idx_hash w i = Some x" by (auto simp: hist_at_def split: option.splits)
    with assms(3) [rule_format, OF x] m show "\<exists>i\<in>to_prune d ?ns w. wn_idxnode n = Some i" by (auto simp: to_prune_def intro!: exI [of _ i] bexI [of _ m])
  qed
  have "0 < wi_idxdepth (wh_wrinfo w)" using True by simp
  note r = prune_loop_spec [OF assms(1,2) this wf refl, of d, unfolded v]
  have "in_prune_seq x \<le> d" if "wh_idx_hash (prune_loop d ?ns w) j = Some x" for j x
    using r that assms(3,4) by (metis order.refl order_trans)
  then show ?thesis unfolding e using r True by simp
next
  case False
  have tl: "in_tl w n" if n: "n \<in> set (wh_nodes w)" "wn_idxnode n = Some i" "0 < wi_tldepth (wh_wrinfo w)" for n i
  proof -
    note k = idx_okD [OF coreD(5) [OF assms(1)]]
    have h: "hist_at w i (wn_idxnode_pos n) = Some (wn_seq n)" using k(4) [OF n(1,2)] by simp
    then obtain x where x: "wh_idx_hash w i = Some x" "wn_idxnode_pos n < length (in_hist x)"
      by (auto simp: hist_at_def split: option.splits if_splits)
    then have "hist_dist (wi_idxdepth (wh_wrinfo w)) (in_headidx x) (wn_idxnode_pos n) < wi_idxdepth (wh_wrinfo w)"
      using k(1,2) [OF x(1)] by (auto simp: hist_dist_def)
    then show ?thesis using in_tl_iff [OF assms(1) n(1)] n(2,3) x False by auto
  qed
  have "prune_pass d w = w" using False by (auto simp: prune_pass_def)
  moreover have "filter (\<lambda>n. \<not> ((\<exists>m\<in>set (wh_nodes w). wh_max_drop_seq w < wn_seq m \<and> wn_seq m \<le> d \<and> wn_idxnode n \<noteq> None
        \<and> wn_idxnode m = wn_idxnode n) \<and> 0 < wi_tldepth (wh_wrinfo w) \<and> \<not> in_tl w n)) (wh_nodes w) = wh_nodes w"
    using tl by (intro filter_True ballI) blast
  ultimately show ?thesis using assms by (auto intro: order_trans)
qed

lemma remove_full:
  assumes "whc_inv w" "wh_max_drop_seq w \<le> d" "whc_default_remove_acked_messages_full w d = (w', freed, cnt)"
  shows "whc_inv w' \<and> wh_max_drop_seq w' = d \<and> wh_wrinfo w' = wh_wrinfo w
    \<and> wh_nodes w' = map (ack_le d) (filter (whc_retained w d) (wh_nodes w)) \<and> cnt = length freed
    \<and> freed = (if wi_is_transient_local (wh_wrinfo w) \<and> wi_tldepth (wh_wrinfo w) = 0 then []
        else filter (\<lambda>n. wh_max_drop_seq w < wn_seq n \<and> wn_seq n \<le> d \<and> \<not> in_tl w n) (wh_nodes w))"
proof (cases "wi_is_transient_local (wh_wrinfo w) \<and> wi_tldepth (wh_wrinfo w) = 0")
  case True
  then have "w' = (ack_loop d (nodes_from w (map_option snd (find_nextseq_intv w (wh_max_drop_seq w)))) w)\<lparr>wh_max_drop_seq := d\<rparr>"
    "freed = []" "cnt = 0" using assms(3) by (auto simp: whc_default_remove_acked_messages_full_def)
  moreover have "filter (whc_retained w d) (wh_nodes w) = wh_nodes w" using True by (simp add: filter_id_conv whc_retained_def)
  ultimately show ?thesis using remove_keep_all [OF assms(1,2) True] True by simp
next
  case no: False
  note i = invD [OF assms(1)]
  let ?s = "wh_max_drop_seq w"
  obtain w1 f where l: "remove_loop d (nodes_from w (map_option snd (find_nextseq_intv w ?s))) (Option.bind (find_nextseq_intv w ?s) fst) w []
    = (w1, f)" by fastforce
  note p = first_pass [OF assms(1,2) l]
  let ?w2 = "prune_pass d w1"
  let ?w3 = "?w2\<lparr>wh_seq_size := wh_seq_size ?w2 - length f\<rparr>"
  have e: "w' = ?w3\<lparr>wh_maxseq_node := whc_findmax_procedurally ?w3, wh_max_drop_seq := d\<rparr>" "freed = f" "cnt = length f"
    using assms(3) unfolding whc_default_remove_acked_messages_full_def Let_def l if_not_P [OF no] by auto
  have wi1: "wh_wrinfo w1 = wh_wrinfo w" using p(2) by (simp add: same_heads_def)
  have tl1: "in_tl w1 n = in_tl w n" for n by (rule same_heads_tl [OF p(2)])
  have len: "wh_seq_size w1 = length (wh_nodes w1) + length f"
    using p(3) i(2) sum_length_filter_compl [of "\<lambda>n. wn_seq n \<le> ?s \<or> d < wn_seq n \<or> in_tl w n" "wh_nodes w"]
    unfolding p(5,6) by (simp add: not_le not_less)
  have ps: "\<forall>j x. wh_idx_hash w1 j = Some x \<longrightarrow> in_prune_seq x \<le> wh_max_drop_seq w1"
  proof (intro allI impI)
    fix j x assume x: "wh_idx_hash w1 j = Some x"
    have "map_option in_prune_seq (wh_idx_hash w1 j) = map_option in_prune_seq (wh_idx_hash w j)"
      using remove_loop_prune_seq [of d _ _ w "[]" j] l by (metis fst_conv)
    then show "in_prune_seq x \<le> wh_max_drop_seq w1" using x p(4) i(5) [of j] by (cases "wh_idx_hash w j") auto
  qed
  note pr = prune_pass_spec [OF p(1) len ps, where d = d, unfolded p(4) wi1 tl1, OF assms(2)]
  have q: "(\<exists>m\<in>set (wh_nodes w1). ?s < wn_seq m \<and> wn_seq m \<le> d \<and> wn_idxnode n \<noteq> None \<and> wn_idxnode m = wn_idxnode n) \<and> 0 < wi_tldepth (wh_wrinfo w)
    \<longleftrightarrow> (\<exists>m\<in>set (wh_nodes w). ?s < wn_seq m \<and> wn_seq m \<le> d \<and> in_tl w m \<and> wn_idxnode m = wn_idxnode n)" for n
  proof
    assume "(\<exists>m\<in>set (wh_nodes w1). ?s < wn_seq m \<and> wn_seq m \<le> d \<and> wn_idxnode n \<noteq> None \<and> wn_idxnode m = wn_idxnode n) \<and> 0 < wi_tldepth (wh_wrinfo w)"
    then obtain m where "m \<in> set (wh_nodes w)" "wn_seq m \<le> ?s \<or> d < wn_seq m \<or> in_tl w m" "?s < wn_seq m" "wn_seq m \<le> d" "wn_idxnode m = wn_idxnode n"
      unfolding p(6) by auto
    then show "\<exists>m\<in>set (wh_nodes w). ?s < wn_seq m \<and> wn_seq m \<le> d \<and> in_tl w m \<and> wn_idxnode m = wn_idxnode n"
      by (intro bexI [of _ m]) auto
  next
    assume "\<exists>m\<in>set (wh_nodes w). ?s < wn_seq m \<and> wn_seq m \<le> d \<and> in_tl w m \<and> wn_idxnode m = wn_idxnode n"
    then obtain m where m: "m \<in> set (wh_nodes w)" "?s < wn_seq m" "wn_seq m \<le> d" "in_tl w m" "wn_idxnode m = wn_idxnode n" by blast
    then have "ack_le d m \<in> set (wh_nodes w1)" unfolding p(6) by simp
    then show "(\<exists>m\<in>set (wh_nodes w1). ?s < wn_seq m \<and> wn_seq m \<le> d \<and> wn_idxnode n \<noteq> None \<and> wn_idxnode m = wn_idxnode n) \<and> 0 < wi_tldepth (wh_wrinfo w)"
      using m in_tl_iff [OF i(1) m(1)] by (auto intro!: bexI [of _ "ack_le d m"])
  qed
  have keep: "(wn_seq n \<le> ?s \<or> d < wn_seq n \<or> in_tl w n)
      \<and> \<not> ((\<exists>m\<in>set (wh_nodes w). ?s < wn_seq m \<and> wn_seq m \<le> d \<and> in_tl w m \<and> wn_idxnode m = wn_idxnode n) \<and> \<not> in_tl w n)
    \<longleftrightarrow> whc_retained w d n" if n: "n \<in> set (wh_nodes w)" for n
  proof -
    have "\<not> d < wn_seq n" if m: "m \<in> set (wh_nodes w)" "wn_seq m \<le> d" "in_tl w m" "wn_idxnode m = wn_idxnode n" "\<not> in_tl w n" for m
    proof -
      obtain j where "wn_idxnode m = Some j" using m(1,3) in_tl_iff [OF i(1) m(1)] by auto
      then show ?thesis using outside_tl_older [OF i(1) n m(1), of j] m by simp
    qed
    then show ?thesis unfolding whc_retained_def using no assms(2) by auto
  qed
  have nodes: "wh_nodes ?w2 = map (ack_le d) (filter (whc_retained w d) (wh_nodes w))"
  proof -
    let ?B = "\<lambda>n. (\<exists>m\<in>set (wh_nodes w). ?s < wn_seq m \<and> wn_seq m \<le> d \<and> in_tl w m \<and> wn_idxnode m = wn_idxnode n) \<and> \<not> in_tl w n"
    have "wh_nodes ?w2 = filter (\<lambda>n. \<not> ?B n) (wh_nodes w1)" using pr by (simp only: q [symmetric] conj_assoc)
    also have "\<dots> = map (ack_le d) (filter (\<lambda>n. \<not> ?B n) (filter (\<lambda>n. wn_seq n \<le> ?s \<or> d < wn_seq n \<or> in_tl w n) (wh_nodes w)))"
      unfolding p(6) by (simp add: filter_map comp_def)
    also have "filter (\<lambda>n. \<not> ?B n) (filter (\<lambda>n. wn_seq n \<le> ?s \<or> d < wn_seq n \<or> in_tl w n) (wh_nodes w)) = filter (whc_retained w d) (wh_nodes w)"
      unfolding filter_filter by (intro filter_cong refl keep)
    finally show ?thesis .
  qed
  have wi: "wh_wrinfo ?w2 = wh_wrinfo w" using pr wi1 by (simp add: same_heads_def)
  have size: "wh_seq_size ?w3 = length (wh_nodes ?w3)" using pr by simp
  have c3: "whc_core {} ?w3" by (rule core_frame [of "{}" ?w2]) (use pr in simp_all)
  have fm: "whc_findmax_procedurally ?w3 = map_option wn_seq (last_opt (wh_nodes ?w3))"
    by (rule findmax_spec [OF c3]) (use size in simp)
  have c': "whc_core {} w'" unfolding e(1) by (rule core_frame [OF c3]) simp_all
  have "d < wn_seq n" if "n \<in> set (wh_nodes w')" "wn_unacked n" for n
    using that nodes by (auto simp: e(1) ack_le_def split: if_splits)
  then have "whc_inv w'" using c' size fm pr by (simp add: whc_inv_def e(1))
  then show ?thesis using nodes wi p(5) e no by (simp add: if_not_P)
qed

end
