(* ===== verification/Whc_Insert.thy ===== *)
theory Whc_Insert
  imports Whc_Ops
begin

text \<open>
  Inserting a sample in the writer history cache keeps the invariant: the sequence number goes to
  the open interval or opens a new one, the sample becomes the head of its instance's history, an
  unregistering sample takes the instance out of the index.
\<close>

section \<open>The sequence numbers\<close>

lemma image_seq_map: "(\<And>n. wn_seq (g n) = wn_seq n) \<Longrightarrow> wn_seq ` set (map g xs) = wn_seq ` set xs"
  by (simp add: image_image)

lemma insert_seq_simps [simp]:
  "wh_wrinfo (whc_default_insert_seq w d s pl sd) = wh_wrinfo w" "wh_max_drop_seq (whc_default_insert_seq w d s pl sd) = wh_max_drop_seq w"
  "wh_idx_hash (whc_default_insert_seq w d s pl sd) = wh_idx_hash w" "wh_seq_size (whc_default_insert_seq w d s pl sd) = wh_seq_size w + 1"
  "wh_maxseq_node (whc_default_insert_seq w d s pl sd) = Some s"
  "wh_nodes (whc_default_insert_seq w d s pl sd) = wh_nodes w @ [new_whcn w d s pl sd]"
  "hist_at (whc_default_insert_seq w d s pl sd) = hist_at w"
  "wh_fragment_size (whc_default_insert_seq w d s pl sd) = wh_fragment_size w"
  by (simp_all add: whc_default_insert_seq_def Let_def hist_at_def fun_eq_iff)

lemma new_whcn_simps [simp]:
  "wn_seq (new_whcn w d s pl sd) = s" "wn_idxnode (new_whcn w d s pl sd) = None" "wn_unacked (new_whcn w d s pl sd) = (d < s)"
  "wn_serdata (new_whcn w d s pl sd) = sd" "wn_size (new_whcn w d s pl sd) = whcn_size w sd" "wn_borrowed (new_whcn w d s pl sd) = False"
  "wn_total_bytes (new_whcn w d s pl sd) = wh_total_bytes w + whcn_size w sd"
  by (simp_all add: new_whcn_def)

lemma insert_seq_intervals:
  assumes "whc_core {} w" "\<forall>n\<in>set (wh_nodes w). wn_seq n < s" "w' = whc_default_insert_seq w d s pl sd"
  shows "whc_ivs_ok (wh_seq w')" "members (wh_seq w') = insert s (members (wh_seq w))"
proof -
  note c = coreD [OF assms(1)]
  obtain l x where t: "wh_seq w = l @ [x]" using c(2) by (cases "wh_seq w" rule: rev_cases) auto
  have b: "\<forall>y\<in>members (wh_seq w). y < s" using assms(2) c(3) by auto
  note ok = c(2) [unfolded t ivs_ok_snoc]
  have le: "snd a \<le> s" if "a \<in> set (wh_seq w)" "fst a < snd a" for a
  proof -
    have "snd a - 1 \<in> members (wh_seq w)" using that members_ge [OF that(1)] by auto
    then show ?thesis using b that(2) by fastforce
  qed
  have l: "snd a \<le> s" if "a \<in> set l" for a using le [of a] ok that by (simp add: t full_ivs_def)
  have x: "fst x < snd x \<Longrightarrow> snd x \<le> s" using le [of x] by (simp add: t)
  have eq: "wh_seq w' = (if fst x = snd x then l @ [(s, s + 1)] else if snd x = s then l @ [(fst x, s + 1)]
      else idx_insert fst (s, s + 1) (l @ [x]))"
    by (simp add: assms(3) whc_default_insert_seq_def Let_def open_intv_def t)
  consider (empty) "fst x = snd x" | (app) "fst x < snd x" "snd x = s" | (gap) "fst x < snd x" "snd x < s"
    using ok x by linarith
  then have "whc_ivs_ok (wh_seq w') \<and> members (wh_seq w') = insert s (members (wh_seq w))"
  proof cases
    case empty
    then show ?thesis using ok l by (auto simp: eq t ivs_ok_snoc)
  next
    case app
    then show ?thesis using ok by (auto simp: eq t ivs_ok_snoc)
  next
    case gap
    have "\<forall>y\<in>set (l @ [x]). fst y < s" using l ok gap by (force simp: full_ivs_def)
    then have "idx_insert fst (s, s + 1) (l @ [x]) = (l @ [x]) @ [(s, s + 1)]" using idx_insert_gap [of "l @ [x]" fst "(s, s + 1)" "[]"] by simp
    then show ?thesis using ok gap l by (auto simp: eq t ivs_ok_snoc ivs_ok_split ivs_ok_Cons full_ivs_append)
  qed
  then show "whc_ivs_ok (wh_seq w')" "members (wh_seq w') = insert s (members (wh_seq w))" by auto
qed

lemma idx_ok_snoc:
  assumes "whc_idx_ok E w" "wh_nodes w' = wh_nodes w @ [n]" "wn_idxnode n = None" "wh_idx_hash w' = wh_idx_hash w" "wh_wrinfo w' = wh_wrinfo w"
  shows "whc_idx_ok E w'"
proof (rule idx_okI)
  note k = idx_okD [OF assms(1)] and h = hist_at_cong [OF assms(4)]
  show "\<exists>m\<in>set (wh_nodes w'). wn_seq m = s \<and> wn_idxnode m = Some i \<and> wn_idxnode_pos m = p" if "hist_at w' i p = Some s" for i p s
    using k(3) [of i p s] that assms(2) h by auto
  show "hist_at w' i (wn_idxnode_pos m) = Some (wn_seq m) \<or> wh_idx_hash w' i = None \<and> wn_seq m \<in> E"
    if "m \<in> set (wh_nodes w')" "wn_idxnode m = Some i" for m i
    using k(4) [of m i] that assms(2-4) h by auto
qed (use idx_okD [OF assms(1)] assms(4,5) hist_at_cong [OF assms(4)] in auto)

lemma core_insert_seq:
  assumes "whc_core {} w" "\<forall>n\<in>set (wh_nodes w). wn_seq n < s"
  shows "whc_core {} (whc_default_insert_seq w d s pl sd)"
proof -
  note c = coreD [OF assms(1)]
  let ?w = "whc_default_insert_seq w d s pl sd"
  have "whc_idx_ok {} ?w" by (rule idx_ok_snoc [OF c(5), where n = "new_whcn w d s pl sd"]) simp_all
  moreover have "idx_wf wn_seq (wh_nodes ?w)" using c(1) assms(2) by (auto simp: idx_wf_append)
  moreover have "wh_unacked_bytes ?w = (\<Sum>n\<leftarrow>wh_nodes ?w. unacked_size n)"
    using c(4) by (simp add: unacked_size_def) (simp add: whc_default_insert_seq_def Let_def)
  ultimately show ?thesis using insert_seq_intervals [OF assms refl] c(3,6) by (simp add: whc_core_def)
qed

section \<open>The head of an instance\<close>

lemma dist_next:
  assumes "p < d" "head < d" "head' = (if head + 1 = d then 0 else head + 1)"
  shows "hist_dist d head' p = (if p = head' then 0 else hist_dist d head p + 1)"
  using assms by (auto simp: hist_dist_def)

lemma put_head_simps [simp]:
  "wh_wrinfo (put_head i s x w) = wh_wrinfo w" "wh_max_drop_seq (put_head i s x w) = wh_max_drop_seq w"
  "wh_seq_size (put_head i s x w) = wh_seq_size w" "wh_maxseq_node (put_head i s x w) = wh_maxseq_node w"
  "wh_seq (put_head i s x w) = wh_seq w" "wh_unacked_bytes (put_head i s x w) = wh_unacked_bytes w"
  by (simp_all add: put_head_def Let_def split: option.splits)

lemma put_head_core:
  assumes "whc_core {} w" "wh_nodes w = xs @ [n]" "wn_idxnode n = None" "wn_seq n = s" "wh_idx_hash w i = Some x"
    "0 < wi_idxdepth (wh_wrinfo w)" "head = (if in_headidx x + 1 = wi_idxdepth (wh_wrinfo w) then 0 else in_headidx x + 1)"
    "g = (\<lambda>m. if wn_seq m = s then m\<lparr>wn_idxnode := Some i, wn_idxnode_pos := head\<rparr>
              else if Some (wn_seq m) = in_hist x ! head then m\<lparr>wn_idxnode := None\<rparr> else m)"
  shows "whc_core {} (put_head i s x w)" "wh_nodes (put_head i s x w) = map g (wh_nodes w)" "in_hist x ! head \<noteq> Some s"
    "wh_idx_hash (put_head i s x w) = (wh_idx_hash w)(i \<mapsto> x\<lparr>in_headidx := head, in_hist := (in_hist x)[head := Some s]\<rparr>)"
proof -
  note c = coreD [OF assms(1)] note k = idx_okD [OF c(5)]
  let ?w = "put_head i s x w" and ?d = "wi_idxdepth (wh_wrinfo w)"
  have len: "length (in_hist x) = ?d" "in_headidx x < ?d" "head < ?d" using k(1,2) [OF assms(5)] assms(6,7) by auto
  have old: "in_hist x ! head = hist_at w i head" using len assms(5) by (simp add: hist_at_def)
  have n: "n \<in> set (wh_nodes w)" using assms(2) by simp
  have ns: "hist_at w j p \<noteq> Some s" for j p
  proof
    assume "hist_at w j p = Some s"
    then obtain m where "m \<in> set (wh_nodes w)" "wn_seq m = s" "wn_idxnode m = Some j" using k(3) by blast
    then show False using wf_inj [OF c(1) _ n] assms(3,4) by auto
  qed
  show "in_hist x ! head \<noteq> Some s" using ns old by simp
  show nodes: "wh_nodes ?w = map g (wh_nodes w)"
    using ns old assms(7) unfolding assms(8) by (auto simp: put_head_def Let_def split: option.split)
  show hash: "wh_idx_hash ?w = (wh_idx_hash w)(i \<mapsto> x\<lparr>in_headidx := head, in_hist := (in_hist x)[head := Some s]\<rparr>)"
    using assms(7) by (auto simp: put_head_def Let_def split: option.split)
  have h: "hist_at ?w j p = (if j = i \<and> p = head then Some s else hist_at w j p)" for j p
    using len assms(5) by (auto simp: hist_at_def hash)
  have g: "wn_seq (g m) = wn_seq m" "unacked_size (g m) = unacked_size m" for m by (simp_all add: assms(8) unacked_size_def)
  have gsame: "g m = m" if "m \<in> set (wh_nodes w)" "wn_idxnode m = Some j" "(j, wn_idxnode_pos m) \<noteq> (i, head)" for m j
  proof -
    have "hist_at w j (wn_idxnode_pos m) = Some (wn_seq m)" using k(4) [OF that(1,2)] by simp
    then have "wn_seq m \<noteq> s" using ns by metis
    moreover have "Some (wn_seq m) \<noteq> in_hist x ! head"
      using k(3) [of i head "wn_seq m"] old that wf_inj [OF c(1) that(1)] by fastforce
    ultimately show ?thesis by (simp add: assms(8))
  qed
  have "whc_idx_ok {} ?w"
  proof (rule idx_okI)
    fix j y assume "wh_idx_hash ?w j = Some y"
    then show "length (in_hist y) = wi_idxdepth (wh_wrinfo ?w)
      \<and> (in_headidx y < wi_idxdepth (wh_wrinfo ?w) \<or> wi_idxdepth (wh_wrinfo ?w) = 0 \<and> in_headidx y = 0)"
      using k(1,2) [of j y] len by (auto simp: hash split: if_splits)
  next
    fix j p t assume a: "hist_at ?w j p = Some t"
    show "\<exists>m\<in>set (wh_nodes ?w). wn_seq m = t \<and> wn_idxnode m = Some j \<and> wn_idxnode_pos m = p"
    proof (cases "j = i \<and> p = head")
      case True
      have "g n \<in> set (wh_nodes ?w)" using n by (simp add: nodes)
      then show ?thesis using a True assms(4) by (intro bexI [of _ "g n"]) (auto simp: h assms(8))
    next
      case False
      then obtain m where m: "m \<in> set (wh_nodes w)" "wn_seq m = t" "wn_idxnode m = Some j" "wn_idxnode_pos m = p"
        using a k(3) [of j p t] by (auto simp: h)
      then have "g m = m" using gsame [OF m(1,3)] False by simp
      then show ?thesis using m by (intro bexI [of _ m]) (auto simp: nodes intro: rev_image_eqI)
    qed
  next
    fix m' j assume a: "m' \<in> set (wh_nodes ?w)" "wn_idxnode m' = Some j"
    then obtain m where m: "m \<in> set (wh_nodes w)" "m' = g m" by (auto simp: nodes)
    show "hist_at ?w j (wn_idxnode_pos m') = Some (wn_seq m') \<or> wh_idx_hash ?w j = None \<and> wn_seq m' \<in> {}"
    proof (cases "wn_seq m = s")
      case True
      then have "m' = m\<lparr>wn_idxnode := Some i, wn_idxnode_pos := head\<rparr>" "j = i" using a(2) m by (simp_all add: assms(8))
      then show ?thesis using True h [of i head] by simp
    next
      case False
      then have "m' = m" "Some (wn_seq m) \<noteq> in_hist x ! head" using a(2) m by (auto simp: assms(8) split: if_splits)
      moreover have "hist_at w j (wn_idxnode_pos m) = Some (wn_seq m)" using k(4) [OF m(1), of j] a(2) \<open>m' = m\<close> by simp
      ultimately show ?thesis using old by (auto simp: h)
    qed
  next
    fix j y p q t t'
    assume a: "wh_idx_hash ?w j = Some y" "hist_at ?w j p = Some t" "hist_at ?w j q = Some t'"
      "hist_dist (wi_idxdepth (wh_wrinfo ?w)) (in_headidx y) p < hist_dist (wi_idxdepth (wh_wrinfo ?w)) (in_headidx y) q"
    have lt: "p < ?d" if "hist_at w i p = Some t" for p t using that len assms(5) by (auto simp: hist_at_def split: if_splits)
    show "t' < t"
    proof (cases "j = i")
      case False
      then show ?thesis using a k(5) [of j y p t q t'] by (simp add: h hash)
    next
      case True
      then have y: "in_headidx y = head" using a(1) by (auto simp: hash)
      note dist = dist_next [OF _ len(2) assms(7)]
      have q: "q \<noteq> head" using a(4) dist [OF len(3)] y by auto
      then have q': "hist_at w i q = Some t'" using a(3) True by (simp add: h)
      show ?thesis
      proof (cases "p = head")
        case True
        obtain m where m: "m \<in> set (wh_nodes w)" "wn_seq m = t'" using k(3) [OF q'] by blast
        have "t' \<noteq> s" using q' ns by auto
        then have "t' < s" using m c(1) assms(2,4) by (auto simp: idx_wf_append)
        then show ?thesis using True \<open>j = i\<close> a(2) by (simp add: h)
      next
        case False
        then have p': "hist_at w i p = Some t" using a(2) \<open>j = i\<close> by (simp add: h)
        then show ?thesis using k(5) [OF assms(5) p' q'] a(4) y q False dist [OF lt [OF p']] dist [OF lt [OF q']] by simp
      qed
    qed
  qed
  moreover have "idx_wf wn_seq (map g (wh_nodes w))" using c(1) g(1) by (subst idx_wf_map) auto
  moreover have "wn_seq ` set (map g (wh_nodes w)) = wn_seq ` set (wh_nodes w)" using g(1) by (simp add: image_image)
  ultimately show "whc_core {} ?w" using c nodes g by (simp add: whc_core_def comp_def)
qed

section \<open>Taking an instance out of the index\<close>

lemma free_hist_simps [simp]:
  "wh_wrinfo (free_hist d h w) = wh_wrinfo w" "wh_max_drop_seq (free_hist d h w) = wh_max_drop_seq w"
  "wh_maxseq_node (free_hist d h w) = wh_maxseq_node w"
  by (induction d h w rule: free_hist.induct) (simp_all add: Let_def)

lemma delete_seq_hash:
  assumes "idx_wf wn_seq (wh_nodes w)" "n \<in> set (wh_nodes w)" "wn_seq n = s" "wn_idxnode n = None"
  shows "wh_idx_hash (whc_delete_seq w s) = wh_idx_hash w"
proof -
  have "whc_findseq w s = Some n" using findseq_iff [OF assms(1)] assms(2,3) by simp
  then show ?thesis using assms(4) by (simp add: whc_delete_seq_def delete_one_sample_from_idx_def)
qed

lemma free_hist_spec:
  assumes "whc_core E w" "\<forall>s. Some s \<in> set h \<longrightarrow> (\<exists>n\<in>set (wh_nodes w). wn_seq n = s \<and> wn_idxnode n = Some i)"
    "wh_idx_hash w i = None" "E \<subseteq> {s. Some s \<in> set h}" "distinct (filter (\<lambda>a. a \<noteq> None) h)" "wh_seq_size w = length (wh_nodes w)"
  shows "whc_core {} (free_hist d h w) \<and> wh_seq_size (free_hist d h w) = length (wh_nodes (free_hist d h w))
    \<and> wh_idx_hash (free_hist d h w) = wh_idx_hash w
    \<and> wh_nodes (free_hist d h w) = map (\<lambda>n. if Some (wn_seq n) \<in> set h then n\<lparr>wn_idxnode := None\<rparr> else n)
        (filter (\<lambda>n. \<not> (Some (wn_seq n) \<in> set h \<and> wn_seq n \<le> d)) (wh_nodes w))"
  using assms
proof (induction d h w arbitrary: E rule: free_hist.induct)
  case (1 d w)
  then show ?case by simp
next
  case (2 d h w)
  then show ?case by simp
next
  case (3 d s h w)
  note c = coreD [OF 3(2)] note k = idx_okD [OF c(5)]
  let ?u = "upd_node s (\<lambda>n. n\<lparr>wn_idxnode := None\<rparr>) w"
  let ?w = "if s \<le> d then whc_delete_seq ?u s else ?u"
  obtain m where m: "m \<in> set (wh_nodes w)" "wn_seq m = s" "wn_idxnode m = Some i" using "3.prems"(2) by auto
  have ns: "hist_at w j p \<noteq> Some s" for j p
  proof
    assume a: "hist_at w j p = Some s"
    then obtain n where "n \<in> set (wh_nodes w)" "wn_seq n = s" "wn_idxnode n = Some j" using k(3) by blast
    then have "j = i" using wf_inj [OF c(1) _ m(1)] m by auto
    then show False using a "3.prems"(3) by (simp add: hist_at_def)
  qed
  have "whc_idx_ok (E - {s}) ?u"
  proof (rule idx_okI)
    fix j p t assume a: "hist_at ?u j p = Some t"
    then obtain n where n: "n \<in> set (wh_nodes w)" "wn_seq n = t" "wn_idxnode n = Some j" "wn_idxnode_pos n = p" using k(3) [of j p t] by auto
    then have "t \<noteq> s" using a ns by auto
    then show "\<exists>n\<in>set (wh_nodes ?u). wn_seq n = t \<and> wn_idxnode n = Some j \<and> wn_idxnode_pos n = p"
      using n by (intro bexI [of _ n]) (auto intro: rev_image_eqI)
  next
    fix n j assume n: "n \<in> set (wh_nodes ?u)" "wn_idxnode n = Some j"
    then obtain n0 where n0: "n0 \<in> set (wh_nodes w)" "n = (if wn_seq n0 = s then n0\<lparr>wn_idxnode := None\<rparr> else n0)" by auto
    then have "wn_seq n0 \<noteq> s" using n(2) by (cases "wn_seq n0 = s") simp_all
    then have "n \<in> set (wh_nodes w)" "wn_seq n \<noteq> s" using n0 by simp_all
    then show "hist_at ?u j (wn_idxnode_pos n) = Some (wn_seq n) \<or> wh_idx_hash ?u j = None \<and> wn_seq n \<in> E - {s}"
      using k(4) [of n j] n(2) by auto
  qed (use k in auto)
  moreover have "wn_seq ` set (wh_nodes ?u) = wn_seq ` set (wh_nodes w)" by (rule seqs_upd) simp
  moreover have "(\<Sum>n\<leftarrow>wh_nodes w. unacked_size (if wn_seq n = s then n\<lparr>wn_idxnode := None\<rparr> else n)) = (\<Sum>n\<leftarrow>wh_nodes w. unacked_size n)"
    by (auto simp: unacked_size_def intro!: arg_cong [where f = sum_list] map_cong [OF refl])
  moreover have "idx_wf wn_seq (map (\<lambda>n. if wn_seq n = s then n\<lparr>wn_idxnode := None\<rparr> else n) (wh_nodes w))"
    using c(1) by (subst idx_wf_map) auto
  ultimately have cu: "whc_core (E - {s}) ?u" using c by (simp add: whc_core_def comp_def)
  then have cw: "whc_core (E - {s}) ?w" by (simp add: core_delete_seq)
  have nu: "wh_nodes ?w = map (\<lambda>n. if wn_seq n = s then n\<lparr>wn_idxnode := None\<rparr> else n) (filter (\<lambda>n. \<not> (wn_seq n = s \<and> s \<le> d)) (wh_nodes w))"
  proof (cases "s \<le> d")
    case True
    have "wn_seq (if wn_seq n = s then n\<lparr>wn_idxnode := None\<rparr> else n) = wn_seq n" for n by simp
    then show ?thesis using True by (simp add: delete_seq_nodes idx_delete_def filter_map comp_def)
  qed simp
  have hash: "wh_idx_hash ?w = wh_idx_hash w"
  proof (cases "s \<le> d")
    case True
    have "m\<lparr>wn_idxnode := None\<rparr> \<in> set (wh_nodes ?u)" using m by (auto intro: rev_image_eqI)
    from delete_seq_hash [OF coreD(1) [OF cu] this, of s] True m(2) show ?thesis by simp
  qed simp
  have sh: "Some s \<notin> set h" using "3.prems"(5) by auto
  have size: "wh_seq_size ?w = length (wh_nodes ?w)" using delete_seq_size [OF coreD(1) [OF cu], of 0] "3.prems"(6) by simp
  have ex: "\<forall>t. Some t \<in> set h \<longrightarrow> (\<exists>n\<in>set (wh_nodes ?w). wn_seq n = t \<and> wn_idxnode n = Some i)"
  proof (intro allI impI)
    fix t assume t: "Some t \<in> set h"
    then obtain n where n: "n \<in> set (wh_nodes w)" "wn_seq n = t" "wn_idxnode n = Some i" using "3.prems"(2) by auto
    have "t \<noteq> s" using t sh by auto
    then show "\<exists>n\<in>set (wh_nodes ?w). wn_seq n = t \<and> wn_idxnode n = Some i"
      using n unfolding nu by (intro bexI [of _ n]) (auto intro: rev_image_eqI)
  qed
  have "E - {s} \<subseteq> {s. Some s \<in> set h}" "distinct (filter (\<lambda>a. a \<noteq> None) h)" using "3.prems"(4,5) by auto
  note IH = "3.IH" [unfolded Let_def, OF cw ex hash [THEN fun_cong, THEN trans, OF "3.prems"(3)] this size]
  have "map (\<lambda>n. if Some (wn_seq n) \<in> set h then n\<lparr>wn_idxnode := None\<rparr> else n)
        (filter (\<lambda>n. \<not> (Some (wn_seq n) \<in> set h \<and> wn_seq n \<le> d)) (wh_nodes ?w))
    = map (\<lambda>n. if Some (wn_seq n) \<in> set (Some s # h) then n\<lparr>wn_idxnode := None\<rparr> else n)
        (filter (\<lambda>n. \<not> (Some (wn_seq n) \<in> set (Some s # h) \<and> wn_seq n \<le> d)) (wh_nodes w))"
    unfolding nu filter_map map_map filter_filter comp_def by (intro map_cong filter_cong) (auto split: if_splits)
  then show ?case using IH hash by (simp add: Let_def)
qed

lemma distinct_some:
  assumes "\<And>p q s. p < length h \<Longrightarrow> q < length h \<Longrightarrow> h ! p = Some s \<Longrightarrow> h ! q = Some s \<Longrightarrow> p = q"
  shows "distinct (filter (\<lambda>a. a \<noteq> None) h)"
  using assms
proof (induction h)
  case (Cons a h)
  have "distinct (filter (\<lambda>a. a \<noteq> None) h)"
  proof (rule Cons.IH)
    fix p q s assume "p < length h" "q < length h" "h ! p = Some s" "h ! q = Some s"
    then show "p = q" using Cons.prems [of "Suc p" "Suc q" s] by simp
  qed
  moreover have "a \<notin> set h" if "a = Some s" for s
  proof
    assume "a \<in> set h"
    then obtain q where "q < length h" "h ! q = a" by (auto simp: in_set_conv_nth)
    then show False using Cons.prems [of 0 "Suc q" s] that by simp
  qed
  ultimately show ?case by auto
qed simp

text \<open>An unregistering sample: the history of the instance leaves the index, what need not be kept goes.\<close>

lemma delete_instance_spec:
  assumes "whc_core {} w" "wh_idx_hash w i = Some x" "wh_seq_size w = length (wh_nodes w)"
  shows "whc_core {} (delete_one_instance_from_idx w d i x)"
    "wh_seq_size (delete_one_instance_from_idx w d i x) = length (wh_nodes (delete_one_instance_from_idx w d i x))"
    "wh_idx_hash (delete_one_instance_from_idx w d i x) = (wh_idx_hash w)(i := None)"
    "wh_nodes (delete_one_instance_from_idx w d i x) = map (\<lambda>n. if Some (wn_seq n) \<in> set (in_hist x) then n\<lparr>wn_idxnode := None\<rparr> else n)
        (filter (\<lambda>n. \<not> (Some (wn_seq n) \<in> set (in_hist x) \<and> wn_seq n \<le> d)) (wh_nodes w))"
proof -
  note c = coreD [OF assms(1)] note k = idx_okD [OF c(5)]
  let ?w = "w\<lparr>wh_idx_hash := (wh_idx_hash w)(i := None)\<rparr>" and ?E = "{s. Some s \<in> set (in_hist x)}"
  have at: "hist_at w i p = Some s \<longleftrightarrow> p < length (in_hist x) \<and> in_hist x ! p = Some s" for p s
    using assms(2) by (auto simp: hist_at_def)
  have inE: "\<exists>p. hist_at w i p = Some s" if "Some s \<in> set (in_hist x)" for s
    using that at by (auto simp: in_set_conv_nth)
  have h: "hist_at ?w j p = (if j = i then None else hist_at w j p)" for j p by (simp add: hist_at_def)
  have "whc_idx_ok ?E ?w"
  proof (rule idx_okI)
    fix n j assume n: "n \<in> set (wh_nodes ?w)" "wn_idxnode n = Some j"
    then have "hist_at w j (wn_idxnode_pos n) = Some (wn_seq n)" using k(4) [of n j] by simp
    then show "hist_at ?w j (wn_idxnode_pos n) = Some (wn_seq n) \<or> wh_idx_hash ?w j = None \<and> wn_seq n \<in> ?E"
      using at by (auto simp: h in_set_conv_nth)
  qed (use k h in \<open>auto split: if_splits\<close>)
  then have 1: "whc_core ?E ?w" using c by (simp add: whc_core_def)
  have 2: "\<forall>s. Some s \<in> set (in_hist x) \<longrightarrow> (\<exists>n\<in>set (wh_nodes ?w). wn_seq n = s \<and> wn_idxnode n = Some i)"
    using inE k(3) [of i] by fastforce
  have 3: "distinct (filter (\<lambda>a. a \<noteq> None) (in_hist x))"
  proof (rule distinct_some)
    fix p q s assume "p < length (in_hist x)" "q < length (in_hist x)" "in_hist x ! p = Some s" "in_hist x ! q = Some s"
    then have "hist_at w i p = Some s" "hist_at w i q = Some s" by (simp_all add: at)
    then obtain n m where "n \<in> set (wh_nodes w)" "wn_seq n = s" "wn_idxnode_pos n = p" "m \<in> set (wh_nodes w)" "wn_seq m = s" "wn_idxnode_pos m = q"
      using k(3) by blast
    then show "p = q" using wf_inj [OF c(1), of n m] by auto
  qed
  note f = free_hist_spec [OF 1 2 _ order.refl 3, where d = d, folded delete_one_instance_from_idx_def]
  show "whc_core {} (delete_one_instance_from_idx w d i x)"
    "wh_seq_size (delete_one_instance_from_idx w d i x) = length (wh_nodes (delete_one_instance_from_idx w d i x))"
    "wh_idx_hash (delete_one_instance_from_idx w d i x) = (wh_idx_hash w)(i := None)"
    "wh_nodes (delete_one_instance_from_idx w d i x) = map (\<lambda>n. if Some (wn_seq n) \<in> set (in_hist x) then n\<lparr>wn_idxnode := None\<rparr> else n)
        (filter (\<lambda>n. \<not> (Some (wn_seq n) \<in> set (in_hist x) \<and> wn_seq n \<le> d)) (wh_nodes w))"
    using f assms(3) by simp_all
qed

lemma drop_unregister_spec:
  assumes "whc_core {} w" "wh_nodes w = xs @ [n]" "wn_seq n = s" "wh_seq_size w = length (wh_nodes w)" "wh_maxseq_node w = Some s"
  shows "whc_core {} (drop_unregister d s w)" "wh_seq_size (drop_unregister d s w) = length (wh_nodes (drop_unregister d s w))"
    "wh_maxseq_node (drop_unregister d s w) = map_option wn_seq (last_opt (wh_nodes (drop_unregister d s w)))"
    "wh_nodes (drop_unregister d s w) = (if s \<le> d then xs else wh_nodes w)"
proof -
  note wf = coreD(1) [OF assms(1)]
  have k: "\<forall>y\<in>set xs. wn_seq y < wn_seq n" using wf assms(2) by (simp add: idx_wf_append)
  have f: "whc_findseq w s = Some n" using findseq_iff [OF wf] assms(2,3) by simp
  have p: "prev_seq_of w n = last_opt xs" using idx_at(4) [OF k, of "[]"] assms(2) by (simp add: prev_seq_of_def)
  have d: "wh_nodes (whc_delete_seq w s) = xs" using idx_at(6) [OF k, of "[]"] assms(2,3) by (simp add: delete_seq_nodes)
  have core: "whc_core {} (whc_delete_seq w s)" by (rule core_delete_seq [OF assms(1)])
  show "whc_core {} (drop_unregister d s w)"
    using assms(1) core_frame [OF core, of "drop_unregister d s w"] by (cases "s \<le> d") (simp_all add: drop_unregister_def)
  show "wh_seq_size (drop_unregister d s w) = length (wh_nodes (drop_unregister d s w))"
    using assms(4) delete_seq_size [OF wf, of 0] by (simp add: drop_unregister_def)
  show "wh_maxseq_node (drop_unregister d s w) = map_option wn_seq (last_opt (wh_nodes (drop_unregister d s w)))"
    using f p d assms(2,3,5) by (simp add: drop_unregister_def)
  show "wh_nodes (drop_unregister d s w) = (if s \<le> d then xs else wh_nodes w)" using d by (simp add: drop_unregister_def)
qed

section \<open>The whole insertion\<close>

definition newest :: "seqno \<Rightarrow> whc \<Rightarrow> bool" where
  "newest s w \<longleftrightarrow> map_option wn_seq (last_opt (wh_nodes w)) = Some s"

lemma newest_snoc: "newest s w \<longleftrightarrow> (\<exists>xs n. wh_nodes w = xs @ [n] \<and> wn_seq n = s)"
  by (cases "wh_nodes w" rule: rev_cases) (auto simp: newest_def)

lemma newest_delete: "newest s w \<Longrightarrow> t \<noteq> s \<Longrightarrow> newest s (whc_delete_seq w t)"
  by (auto simp: newest_snoc delete_seq_nodes idx_delete_def)

lemma newest_map: "newest s w \<Longrightarrow> wh_nodes w' = map g (wh_nodes w) \<Longrightarrow> (\<And>n. wn_seq (g n) = wn_seq n) \<Longrightarrow> newest s w'"
  by (auto simp: newest_snoc)

text \<open>What an insertion has to establish.\<close>

definition ins_ok :: "seqno \<Rightarrow> seqno \<Rightarrow> whc \<Rightarrow> bool" where
  "ins_ok d s w \<longleftrightarrow> whc_core {} w \<and> newest s w \<and> wh_maxseq_node w = Some s \<and> wh_seq_size w = length (wh_nodes w)
     \<and> (\<forall>n\<in>set (wh_nodes w). wn_unacked n \<longrightarrow> wh_max_drop_seq w < wn_seq n)
     \<and> (\<forall>i x. wh_idx_hash w i = Some x \<longrightarrow> in_prune_seq x \<le> wh_max_drop_seq w)"

lemma ins_ok_inv: "ins_ok d s w \<Longrightarrow> whc_inv w"
  by (auto simp: ins_ok_def whc_inv_def newest_def)

lemma delete_seq_prune_seq:
  assumes "\<forall>i x. wh_idx_hash w i = Some x \<longrightarrow> in_prune_seq x \<le> k"
  shows "\<forall>i x. wh_idx_hash (whc_delete_seq w t) i = Some x \<longrightarrow> in_prune_seq x \<le> k"
proof (intro allI impI)
  fix i x assume "wh_idx_hash (whc_delete_seq w t) i = Some x"
  then have "map_option in_prune_seq (wh_idx_hash w i) = Some (in_prune_seq x)" using delete_seq_head(3) [of w t i] by simp
  then obtain z where "wh_idx_hash w i = Some z" "in_prune_seq z = in_prune_seq x" by auto
  then show "in_prune_seq x \<le> k" using assms by metis
qed

lemma ins_ok_delete:
  assumes "ins_ok d s w" "t \<noteq> s"
  shows "ins_ok d s (whc_delete_seq w t)"
  using assms delete_seq_size [of w 0 t] delete_seq_prune_seq [of w "wh_max_drop_seq w" t] newest_delete [of s w t] core_delete_seq [of "{}" w t]
    coreD(1) [of "{}" w] by (auto simp: ins_ok_def delete_seq_nodes)

lemma ins_ok_insert_seq:
  assumes "whc_inv w" "wh_max_drop_seq w \<le> d" "\<forall>n\<in>set (wh_nodes w). wn_seq n < s"
  shows "ins_ok d s (whc_default_insert_seq w d s pl sd)"
  using core_insert_seq [OF invD(1) [OF assms(1)] assms(3)] invD(2,4,5) [OF assms(1)] assms(2)
  by (auto simp: ins_ok_def newest_def)

lemma ins_ok_put_head:
  assumes "ins_ok d s w" "wh_nodes w = xs @ [n]" "wn_idxnode n = None" "wh_idx_hash w i = Some x" "0 < wi_idxdepth (wh_wrinfo w)"
  shows "ins_ok d s (put_head i s x w)"
proof -
  have i: "whc_core {} w" "newest s w" using assms(1) by (simp_all add: ins_ok_def)
  then have "wn_seq n = s" using assms(2) by (simp add: newest_def)
  note p = put_head_core [OF i(1) assms(2,3) this assms(4,5) refl refl]
  show ?thesis
    using assms(1,4) p(1) newest_map [OF i(2) p(2)] by (auto simp: ins_ok_def p(2) p(4) split: if_splits)
qed

lemma ins_ok_prune_overwritten:
  assumes "ins_ok d s w" "oldn \<noteq> Some s"
  shows "ins_ok d s (prune_overwritten d oldn w)"
proof (cases oldn)
  case (Some t)
  then have "t \<noteq> s" using assms(2) by simp
  moreover have "wh_maxseq_node w = Some s" using assms(1) by (simp add: ins_ok_def)
  ultimately show ?thesis using ins_ok_delete [OF assms(1)] assms(1) Some by (simp add: prune_overwritten_def Let_def)
qed (simp add: prune_overwritten_def assms(1))

lemma ins_ok_prune_tl:
  assumes "ins_ok d s w" "wh_idx_hash w i = Some x" "hist_at w i (in_headidx x) = Some s"
  shows "ins_ok d s (prune_tl d s i w)"
proof (cases "s \<le> d \<and> wi_tldepth (wh_wrinfo w) > 0 \<and> wi_idxdepth (wh_wrinfo w) > wi_tldepth (wh_wrinfo w)")
  case True
  have core: "whc_core {} w" using assms(1) by (simp add: ins_ok_def)
  note k = idx_okD [OF coreD(5) [OF core]]
  let ?d = "wi_idxdepth (wh_wrinfo w)"
  let ?q = "in_headidx x + ?d - wi_tldepth (wh_wrinfo w)"
  let ?p = "if ?q \<ge> ?d then ?q - ?d else ?q"
  have len: "length (in_hist x) = ?d" "in_headidx x < ?d" using k(1,2) [OF assms(2)] True by auto
  then have p: "?p < ?d" "?p \<noteq> in_headidx x" using True by auto
  have "in_hist x ! ?p \<noteq> Some s"
  proof
    assume "in_hist x ! ?p = Some s"
    then have "hist_at w i ?p = Some s" using p(1) len(1) assms(2) by (simp add: hist_at_def)
    then have "?p = in_headidx x" using k(3) [of i ?p s] k(3) [OF assms(3)] wf_inj [OF coreD(1) [OF core]] by metis
    then show False using p(2) by simp
  qed
  then show ?thesis
    using True assms(1,2) ins_ok_delete [OF assms(1)] by (auto simp: prune_tl_def Let_def split: option.split)
qed (auto simp: prune_tl_def assms(1))

lemma prune_overwritten_hist:
  assumes "whc_core {} w" "wh_idx_hash w i = Some x" "hist_at w i (in_headidx x) = Some s" "oldn \<noteq> Some s" "wh_maxseq_node w = Some s"
  shows "\<exists>y. wh_idx_hash (prune_overwritten d oldn w) i = Some y \<and> hist_at (prune_overwritten d oldn w) i (in_headidx y) = Some s"
proof -
  have "\<exists>y. wh_idx_hash (whc_delete_seq w t) i = Some y \<and> hist_at (whc_delete_seq w t) i (in_headidx y) = Some s" if "t \<noteq> s" for t
  proof (rule delete_seq_cases [OF coreD(1) [OF assms(1)], of t])
    fix n assume n: "n \<in> set (wh_nodes w)" "wn_seq n = t" "whc_delete_seq w t = whc_delete_one w n"
    have h: "hist_at (whc_delete_one w n) = hist_at (delete_one_sample_from_idx n w)" by (rule hist_at_cong) simp
    obtain y where y: "wh_idx_hash (whc_delete_one w n) i = Some y" "in_headidx y = in_headidx x"
      using delete_seq_head(2) [of w t i] assms(2) n(3) by auto
    have "\<not> (wn_idxnode n = Some i \<and> in_headidx x = wn_idxnode_pos n)"
      using idx_okD(4) [OF coreD(5) [OF assms(1)] n(1), of i] assms(2,3) n(2) that by auto
    then show ?thesis using n(3) y assms(3) by (simp add: h hist_at_delete)
  qed (use assms(2,3) in auto)
  then show ?thesis using assms by (auto simp: prune_overwritten_def Let_def split: option.split)
qed

lemma ins_ok_new_instance:
  assumes "ins_ok d s w" "wh_nodes w = xs @ [n]" "wn_idxnode n = None" "wh_idx_hash w i = None"
  shows "ins_ok d s (new_instance i s w)"
proof -
  let ?d = "wi_idxdepth (wh_wrinfo w)" and ?w = "new_instance i s w"
  have i: "whc_core {} w" "newest s w" using assms(1) by (simp_all add: ins_ok_def)
  note c = coreD [OF i(1)] note k = idx_okD [OF c(5)]
  have n: "n \<in> set (wh_nodes w)" "wn_seq n = s" using assms(2) i(2) by (simp_all add: newest_def)
  let ?g = "\<lambda>m. if wn_seq m = s \<and> 0 < ?d then m\<lparr>wn_idxnode := Some i, wn_idxnode_pos := 0\<rparr> else m"
  let ?x = "\<lparr>in_prune_seq = 0, in_headidx = 0, in_hist = (if ?d > 0 then Some s # replicate (?d - 1) None else [])\<rparr>"
  have nodes: "wh_nodes ?w = map ?g (wh_nodes w)" by (auto simp: new_instance_def Let_def)
  have hash: "wh_idx_hash ?w = (wh_idx_hash w)(i \<mapsto> ?x)" by (auto simp: new_instance_def Let_def)
  have f: "wh_wrinfo ?w = wh_wrinfo w" "wh_seq ?w = wh_seq w" "wh_unacked_bytes ?w = wh_unacked_bytes w" "wh_seq_size ?w = wh_seq_size w"
    "wh_max_drop_seq ?w = wh_max_drop_seq w" "wh_maxseq_node ?w = wh_maxseq_node w" by (auto simp: new_instance_def Let_def)
  have g: "wn_seq (?g m) = wn_seq m" "unacked_size (?g m) = unacked_size m" for m by (simp_all add: unacked_size_def)
  have h: "hist_at ?w j p = (if j = i then if p = 0 \<and> 0 < ?d then Some s else None else hist_at w j p)" for j p
    by (auto simp: hist_at_def hash nth_Cons split: nat.split)
  have none: "wn_idxnode m \<noteq> Some i" if "m \<in> set (wh_nodes w)" for m
    using k(4) [OF that, of i] assms(4) by (auto simp: hist_at_def)
  have "whc_idx_ok {} ?w"
  proof (rule idx_okI)
    fix j p t assume a: "hist_at ?w j p = Some t"
    show "\<exists>m\<in>set (wh_nodes ?w). wn_seq m = t \<and> wn_idxnode m = Some j \<and> wn_idxnode_pos m = p"
    proof (cases "j = i")
      case True
      then have t: "p = 0" "0 < ?d" "t = s" using a by (auto simp: h split: if_splits)
      then have "n\<lparr>wn_idxnode := Some i, wn_idxnode_pos := 0\<rparr> \<in> set (wh_nodes ?w)" using n unfolding nodes by (auto intro!: image_eqI [of _ _ n])
      then show ?thesis using True t n(2) by (intro bexI [of _ "n\<lparr>wn_idxnode := Some i, wn_idxnode_pos := 0\<rparr>"]) simp_all
    next
      case False
      then obtain m where m: "m \<in> set (wh_nodes w)" "wn_seq m = t" "wn_idxnode m = Some j" "wn_idxnode_pos m = p"
        using a k(3) [of j p t] by (auto simp: h)
      then have "m \<noteq> n" using assms(3) by auto
      then have "?g m = m" using wf_inj [OF c(1) m(1) n(1)] n(2) by auto
      then show ?thesis using m unfolding nodes by (intro bexI [of _ m]) (auto intro: rev_image_eqI)
    qed
  next
    fix m' j assume a: "m' \<in> set (wh_nodes ?w)" "wn_idxnode m' = Some j"
    then obtain m where m: "m \<in> set (wh_nodes w)" "m' = ?g m" by (auto simp: nodes)
    show "hist_at ?w j (wn_idxnode_pos m') = Some (wn_seq m') \<or> wh_idx_hash ?w j = None \<and> wn_seq m' \<in> {}"
    proof (cases "wn_seq m = s \<and> 0 < ?d")
      case True
      then have "m' = m\<lparr>wn_idxnode := Some i, wn_idxnode_pos := 0\<rparr>" "j = i" using a(2) m by simp_all
      then show ?thesis using True h [of i 0] by simp
    next
      case False
      then have "m' = m" using m(2) by auto
      then show ?thesis using k(4) [OF m(1), of j] none [OF m(1)] a(2) h by auto
    qed
  qed (use k h hash f(1) in \<open>auto split: if_splits\<close>)
  moreover have "idx_wf wn_seq (map ?g (wh_nodes w))" using c(1) g(1) by (subst idx_wf_map) auto
  moreover have "wn_seq ` set (map ?g (wh_nodes w)) = wn_seq ` set (wh_nodes w)" by (rule image_seq_map [OF g(1)])
  moreover have "(\<Sum>m\<leftarrow>map ?g (wh_nodes w). unacked_size m) = (\<Sum>m\<leftarrow>wh_nodes w. unacked_size m)" using g(2) by (simp add: comp_def)
  ultimately have "whc_core {} ?w" using c unfolding whc_core_def f nodes by simp
  moreover have "newest s ?w" by (rule newest_map [OF i(2) nodes g(1)])
  moreover have "\<forall>m\<in>set (wh_nodes ?w). wn_unacked m \<longrightarrow> wh_max_drop_seq w < wn_seq m"
    using assms(1) unfolding nodes by (auto simp: ins_ok_def)
  ultimately show ?thesis using assms(1) unfolding ins_ok_def f by (simp add: nodes hash)
qed

lemma ins_ok_drop_unregister:
  assumes "ins_ok d s w"
  shows "whc_inv (drop_unregister d s w)"
proof -
  obtain xs n where n: "wh_nodes w = xs @ [n]" "wn_seq n = s" using assms by (auto simp: ins_ok_def newest_snoc)
  have a: "whc_core {} w" "wh_seq_size w = length (wh_nodes w)" "wh_maxseq_node w = Some s" using assms by (simp_all add: ins_ok_def)
  note r = drop_unregister_spec [OF a(1) n a(2,3), of d]
  have "wh_max_drop_seq (drop_unregister d s w) = wh_max_drop_seq w" by (simp add: drop_unregister_def)
  moreover have "\<forall>i x. wh_idx_hash (drop_unregister d s w) i = Some x \<longrightarrow> in_prune_seq x \<le> wh_max_drop_seq w"
    using assms delete_seq_prune_seq [of w "wh_max_drop_seq w" s] by (auto simp: drop_unregister_def ins_ok_def)
  moreover have "set (wh_nodes (drop_unregister d s w)) \<subseteq> set (wh_nodes w)" using r(4) n(1) by auto
  ultimately show ?thesis using r(1-3) assms unfolding whc_inv_def by (auto simp: ins_ok_def)
qed

lemma ins_ok_delete_instance:
  assumes "ins_ok d s w" "wh_nodes w = xs @ [n]" "wn_idxnode n = None" "wh_idx_hash w i = Some x"
  shows "ins_ok d s (delete_one_instance_from_idx w d i x)"
proof -
  have i: "whc_core {} w" "newest s w" "wh_seq_size w = length (wh_nodes w)" using assms(1) by (simp_all add: ins_ok_def)
  note c = coreD [OF i(1)] note k = idx_okD [OF c(5)]
  note r = delete_instance_spec [OF i(1) assms(4) i(3), of d]
  have n: "n \<in> set (wh_nodes w)" "wn_seq n = s" using assms(2) i(2) by (simp_all add: newest_def)
  have "Some s \<notin> set (in_hist x)"
  proof
    assume "Some s \<in> set (in_hist x)"
    then obtain p where "p < length (in_hist x)" "in_hist x ! p = Some s" by (auto simp: in_set_conv_nth)
    then have "hist_at w i p = Some s" using assms(4) by (simp add: hist_at_def)
    then obtain m where "m \<in> set (wh_nodes w)" "wn_seq m = s" "wn_idxnode m = Some i" using k(3) by blast
    then show False using wf_inj [OF c(1) _ n(1), of m] n(2) assms(3) by auto
  qed
  then have "newest s (delete_one_instance_from_idx w d i x)" using n(2) by (simp add: newest_def r(4) assms(2))
  moreover have "wh_max_drop_seq (delete_one_instance_from_idx w d i x) = wh_max_drop_seq w"
    "wh_maxseq_node (delete_one_instance_from_idx w d i x) = wh_maxseq_node w"
    by (simp_all add: delete_one_instance_from_idx_def)
  moreover have "\<forall>m\<in>set (wh_nodes (delete_one_instance_from_idx w d i x)). wn_unacked m \<longrightarrow> wh_max_drop_seq w < wn_seq m"
    using assms(1) unfolding r(4) by (auto simp: ins_ok_def)
  ultimately show ?thesis using r(1,2) assms(1) unfolding ins_ok_def r(3) by simp
qed

theorem whc_insert_inv:
  assumes "whc_inv w" "wh_max_drop_seq w \<le> d" "\<forall>n\<in>set (wh_nodes w). wn_seq n < s"
  shows "whc_inv (whc_default_insert w d s pl sd i)"
proof -
  let ?w = "whc_default_insert_seq w d s pl sd"
  note ok = ins_ok_insert_seq [OF assms]
  note n = insert_seq_simps(6) [of w d s pl sd] new_whcn_simps(2) [of w d s pl sd]
  show ?thesis
  proof (cases "sd_empty sd")
    case True
    then show ?thesis using ins_ok_inv [OF ok] by (simp add: whc_default_insert_def Let_def)
  next
    case ne: False
    show ?thesis
    proof (cases "wh_idx_hash w i")
      case None
      then have "wh_idx_hash ?w i = None" by simp
      then show ?thesis
        using ne ins_ok_drop_unregister [OF ok] ins_ok_inv [OF ins_ok_new_instance [OF ok n]] by (simp add: whc_default_insert_def Let_def)
    next
      case (Some x)
      then have x: "wh_idx_hash ?w i = Some x" by simp
      consider (unreg) "sd_unregister sd" | (idx) "\<not> sd_unregister sd" "0 < wi_idxdepth (wh_wrinfo w)"
        | (noidx) "\<not> sd_unregister sd" "wi_idxdepth (wh_wrinfo w) = 0" by blast
      then show ?thesis
      proof cases
        case unreg
        then show ?thesis using ne x ins_ok_drop_unregister [OF ins_ok_delete_instance [OF ok n x]] by (simp add: whc_default_insert_def Let_def)
      next
        case noidx
        then show ?thesis using ne x ins_ok_inv [OF ok] by (simp add: whc_default_insert_def Let_def)
      next
        case idx
        let ?h = "if in_headidx x + 1 = wi_idxdepth (wh_wrinfo ?w) then 0 else in_headidx x + 1"
        let ?w1 = "put_head i s x ?w"
        have d: "0 < wi_idxdepth (wh_wrinfo ?w)" using idx(2) by simp
        have core: "whc_core {} ?w" using ok by (simp add: ins_ok_def)
        note p = put_head_core [OF core n new_whcn_simps(1) x d refl refl]
        note ok1 = ins_ok_put_head [OF ok n x d]
        let ?w2 = "prune_overwritten d (in_hist x ! ?h) ?w1"
        note ok2 = ins_ok_prune_overwritten [OF ok1 p(3)]
        have len: "?h < length (in_hist x)" using idx_okD(1,2) [OF coreD(5) [OF core] x] d by auto
        have "hist_at ?w1 i ?h = Some s" using len by (simp add: hist_at_def p(4))
        then have "\<exists>y. wh_idx_hash ?w2 i = Some y \<and> hist_at ?w2 i (in_headidx y) = Some s"
          using ok1 p(4) by (intro prune_overwritten_hist [OF p(1) _ _ p(3)]) (auto simp: ins_ok_def)
        then obtain y where "wh_idx_hash ?w2 i = Some y" "hist_at ?w2 i (in_headidx y) = Some s" by blast
        from ins_ok_inv [OF ins_ok_prune_tl [OF ok2 this]] show ?thesis using ne idx x by (simp add: whc_default_insert_def Let_def cong: if_cong)
      qed
    qed
  qed
qed

section \<open>Lending, returning, expiring\<close>

lemma inv_upd_frame:
  assumes "whc_inv w" "\<And>n. wn_seq (f n) = wn_seq n" "\<And>n. wn_idxnode (f n) = wn_idxnode n" "\<And>n. wn_idxnode_pos (f n) = wn_idxnode_pos n"
    "\<And>n. wn_unacked (f n) = wn_unacked n" "\<And>n. wn_size (f n) = wn_size n"
  shows "whc_inv (upd_node s f w)"
proof -
  note i = invD [OF assms(1)]
  have "whc_core {} (upd_node s f w)" by (rule core_upd_frame [OF i(1)]) (simp_all add: assms unacked_size_def)
  moreover have "map_option wn_seq (last_opt (wh_nodes (upd_node s f w))) = map_option wn_seq (last_opt (wh_nodes w))"
    using assms(2) by (cases "wh_nodes w" rule: rev_cases) auto
  moreover have "\<forall>n\<in>set (wh_nodes (upd_node s f w)). wn_unacked n \<longrightarrow> wh_max_drop_seq w < wn_seq n"
    using i(4) assms(2,5) by auto
  ultimately show ?thesis using i(2,3,5) unfolding whc_inv_def by (simp del: upd_node_simps(8)) simp
qed

lemma borrow_inv: "whc_inv w \<Longrightarrow> whc_inv (snd (make_borrowed_sample n w))"
  by (simp add: make_borrowed_sample_def inv_upd_frame)

lemma inv_refs: "whc_inv w \<Longrightarrow> whc_inv (w\<lparr>wh_refs := r\<rparr>)"
  using core_frame [of "{}" w "w\<lparr>wh_refs := r\<rparr>"] by (simp add: whc_inv_def)

lemma return_inv: "whc_inv w \<Longrightarrow> whc_inv (return_sample_locked w b u)"
  by (cases u) (auto simp: return_sample_locked_def inv_refs intro!: inv_upd_frame split: option.split)

lemma expire_fold:
  assumes "whc_core {} w" "wh_seq_size w = length (wh_nodes w)" "\<forall>i x. wh_idx_hash w i = Some x \<longrightarrow> in_prune_seq x \<le> wh_max_drop_seq w"
    "w' = fold (\<lambda>s w. whc_delete_seq w s) ss w"
  shows "whc_core {} w' \<and> wh_seq_size w' = length (wh_nodes w') \<and> wh_max_drop_seq w' = wh_max_drop_seq w \<and> wh_wrinfo w' = wh_wrinfo w
    \<and> (\<forall>i x. wh_idx_hash w' i = Some x \<longrightarrow> in_prune_seq x \<le> wh_max_drop_seq w) \<and> wh_nodes w' = filter (\<lambda>n. wn_seq n \<notin> set ss) (wh_nodes w)"
  using assms
proof (induction ss arbitrary: w)
  case (Cons s ss)
  note IH = Cons.IH [of "whc_delete_seq w s", OF core_delete_seq [OF Cons.prems(1)]]
  have "wh_seq_size (whc_delete_seq w s) = length (wh_nodes (whc_delete_seq w s))"
    using delete_seq_size [OF coreD(1) [OF Cons.prems(1)], of 0] Cons.prems(2) by simp
  from IH [OF this] delete_seq_prune_seq [OF Cons.prems(3)] Cons.prems(4) show ?case
    by (simp add: delete_seq_nodes idx_delete_def conj_commute)
qed simp

lemma expire_inv:
  assumes "whc_inv w" "w' = whc_sample_expired_cb w ss"
  shows "whc_inv w'" "wh_nodes w' = filter (\<lambda>n. wn_seq n \<notin> set ss) (wh_nodes w)" "wh_max_drop_seq w' = wh_max_drop_seq w" "wh_wrinfo w' = wh_wrinfo w"
proof -
  note i = invD [OF assms(1)]
  let ?f = "fold (\<lambda>s w. whc_delete_seq w s) ss w"
  have "\<forall>i x. wh_idx_hash w i = Some x \<longrightarrow> in_prune_seq x \<le> wh_max_drop_seq w" using i(5) by blast
  note f = expire_fold [OF i(1,2) this refl, of ss]
  have fm: "whc_findmax_procedurally ?f = map_option wn_seq (last_opt (wh_nodes ?f))" by (rule findmax_spec) (use f in auto)
  have e: "w' = ?f\<lparr>wh_maxseq_node := whc_findmax_procedurally ?f\<rparr>" by (simp add: assms(2) whc_sample_expired_cb_def Let_def)
  have "whc_core {} w'" by (rule core_frame [of "{}" ?f]) (use f in \<open>simp_all add: e\<close>)
  then show "whc_inv w'" using f fm i(4) by (auto simp: whc_inv_def e)
  show "wh_nodes w' = filter (\<lambda>n. wn_seq n \<notin> set ss) (wh_nodes w)" "wh_max_drop_seq w' = wh_max_drop_seq w" "wh_wrinfo w' = wh_wrinfo w"
    using f by (simp_all add: e)
qed

end
