(* ===== verification/Whc_Simple.thy ===== *)
theory Whc_Simple
  imports Whc_Insert
begin

text \<open>
  A writer that keeps everything and neither is transient-local nor has a deadline removes
  acknowledged samples by cutting off a prefix of the one interval. This is the same as the general
  algorithm, as long as all samples are unacknowledged and their numbers are contiguous.
\<close>

definition whc_simple :: "whc \<Rightarrow> bool" where
  "whc_simple w \<longleftrightarrow> wi_idxdepth (wh_wrinfo w) = 0 \<and> \<not> wi_has_deadline (wh_wrinfo w) \<and> \<not> wi_is_transient_local (wh_wrinfo w)"

fun totals_ok :: "whc_node list \<Rightarrow> nat \<Rightarrow> bool" where
  "totals_ok [] tb = True"
| "totals_ok [n] tb = (wn_total_bytes n = tb)"
| "totals_ok (n # m # ns) tb = (wn_total_bytes m = wn_total_bytes n + wn_size m \<and> totals_ok (m # ns) tb)"

definition simple_ok :: "whc \<Rightarrow> bool" where
  "simple_ok w \<longleftrightarrow> length (wh_seq w) = 1 \<and> (\<forall>n\<in>set (wh_nodes w). wn_unacked n) \<and> totals_ok (wh_nodes w) (wh_total_bytes w)"

lemma totals_snoc: "totals_ok (ns @ [n]) tb \<longleftrightarrow>
    wn_total_bytes n = tb \<and> (ns = [] \<or> tb = wn_total_bytes (last ns) + wn_size n \<and> totals_ok ns (wn_total_bytes (last ns)))"
  by (induction ns tb rule: totals_ok.induct) auto

lemma totals_append: "totals_ok (xs @ ys) tb \<Longrightarrow> totals_ok ys tb"
proof (induction xs)
  case (Cons x xs)
  then show ?case by (cases "xs @ ys") auto
qed simp

lemma totals_sum:
  assumes "totals_ok ns tb" "ns \<noteq> []"
  shows "(\<Sum>n\<leftarrow>ns. wn_size n) + wn_total_bytes (hd ns) = wn_total_bytes (last ns) + wn_size (hd ns)"
  using assms by (induction ns tb rule: totals_ok.induct) auto

lemma totals_prefix: "totals_ok (xs @ ys) tb \<Longrightarrow> xs \<noteq> [] \<Longrightarrow> totals_ok xs (wn_total_bytes (last xs))"
proof (induction ys arbitrary: tb rule: rev_induct)
  case Nil
  then show ?case by (cases xs rule: rev_cases) (auto simp: totals_snoc)
next
  case (snoc y ys)
  then have "totals_ok (xs @ ys) (wn_total_bytes (last (xs @ ys)))" using totals_snoc [of "xs @ ys" y tb] by simp
  then show ?case using snoc by blast
qed

lemma sorted_seqs:
  assumes "idx_wf wn_seq ns" "wn_seq ` set ns = {a..<b}"
  shows "map wn_seq ns = [a..<b]"
proof -
  have "sorted_wrt (<) (map wn_seq ns)" using assms(1) by (simp add: idx_wf_def sorted_wrt_map)
  moreover have "set (map wn_seq ns) = set [a..<b]" using assms(2) by simp
  ultimately show ?thesis by (intro strict_sorted_equal) (simp_all add: sorted_wrt_upt)
qed

text \<open>The shape of the cache in this mode.\<close>

lemma simple_shape:
  assumes "whc_inv w" "simple_ok w"
  obtains a b where "wh_seq w = [(a, b)]" "a \<le> b" "map wn_seq (wh_nodes w) = [a..<b]" "(\<forall>n\<in>set (wh_nodes w). wn_unacked n)"
    "totals_ok (wh_nodes w) (wh_total_bytes w)" "wh_unacked_bytes w = (\<Sum>n\<leftarrow>wh_nodes w. wn_size n)"
proof -
  note i = invD [OF assms(1)] note c = coreD [OF i(1)]
  obtain ab where s: "wh_seq w = [ab]" using assms(2) by (auto simp: simple_ok_def length_Suc_conv)
  obtain a b where ab: "ab = (a, b)" by fastforce
  have "wn_seq ` set (wh_nodes w) = {a..<b}" using c(3) by (simp add: s ab)
  moreover have "(\<Sum>n\<leftarrow>wh_nodes w. unacked_size n) = (\<Sum>n\<leftarrow>wh_nodes w. wn_size n)"
    using assms(2) by (auto simp: simple_ok_def unacked_size_def intro!: arg_cong [where f = sum_list] map_cong [OF refl])
  ultimately show thesis
    using that [of a b] s ab c(1,2,4) sorted_seqs [OF c(1)] assms(2) by (simp add: ivs_ok_Cons simple_ok_def)
qed

lemma simple_full:
  assumes "whc_inv w" "simple_ok w" "whc_simple w" "wh_max_drop_seq w \<le> d" "whc_default_remove_acked_messages_full w d = (w', freed, cnt)"
  shows "freed = filter (\<lambda>n. wn_seq n \<le> d) (wh_nodes w)" "wh_nodes w' = filter (\<lambda>n. d < wn_seq n) (wh_nodes w)" "cnt = length freed"
    "whc_inv w'" "wh_max_drop_seq w' = d"
proof -
  note i = invD [OF assms(1)]
  note r = remove_full [OF assms(1,4,5)]
  have tl: "wi_tldepth (wh_wrinfo w) = 0" "\<not> wi_is_transient_local (wh_wrinfo w)" using coreD(6) [OF i(1)] assms(3) by (auto simp: whc_simple_def)
  have no: "\<not> in_tl w n" if "n \<in> set (wh_nodes w)" for n using in_tl_iff [OF i(1) that] tl by simp
  have un: "wh_max_drop_seq w < wn_seq n" if "n \<in> set (wh_nodes w)" for n using i(4) [OF that] assms(2) that by (simp add: simple_ok_def)
  show "cnt = length freed" "whc_inv w'" "wh_max_drop_seq w' = d" using r by auto
  have "freed = filter (\<lambda>n. wh_max_drop_seq w < wn_seq n \<and> wn_seq n \<le> d \<and> \<not> in_tl w n) (wh_nodes w)" using r tl by simp
  also have "\<dots> = filter (\<lambda>n. wn_seq n \<le> d) (wh_nodes w)" using no un by (intro filter_cong refl) blast
  finally show "freed = filter (\<lambda>n. wn_seq n \<le> d) (wh_nodes w)" .
  have "filter (whc_retained w d) (wh_nodes w) = filter (\<lambda>n. d < wn_seq n) (wh_nodes w)"
    using no un tl by (intro filter_cong refl) (auto simp: whc_retained_def not_le [symmetric])
  then show "wh_nodes w' = filter (\<lambda>n. d < wn_seq n) (wh_nodes w)" using r ack_le_above [of "filter (\<lambda>n. d < wn_seq n) (wh_nodes w)" d] by simp
qed

lemma idx_wf_distinct: "idx_wf key xs \<Longrightarrow> distinct xs"
  by (induction xs) auto

lemma list_to_prefix: "distinct (xs @ [n] @ ys) \<Longrightarrow> list_to n (xs @ [n] @ ys) = xs @ [n]"
proof -
  assume "distinct (xs @ [n] @ ys)"
  then have "takeWhile (\<lambda>x. x \<noteq> n) (xs @ n # ys) = xs" by (subst takeWhile_append2) auto
  then show ?thesis by (simp add: list_to_def)
qed

lemma minus_diff:
  assumes "b \<le> a"
  shows "a - b < 2 ^ 32 \<Longrightarrow> minus32 a b = a - b" "a - b < 2 ^ 64 \<Longrightarrow> minus64 a b = a - b"
proof -
  have e: "int a - int b = int (a - b)" using assms by simp
  have m: "nat (int x mod 2 ^ k) = x" if "x < 2 ^ k" for x k :: nat
  proof -
    have "int x < 2 ^ k" using that by (metis of_nat_less_iff of_nat_numeral of_nat_power)
    then show ?thesis by simp
  qed
  show "a - b < 2 ^ 32 \<Longrightarrow> minus32 a b = a - b" "a - b < 2 ^ 64 \<Longrightarrow> minus64 a b = a - b"
    unfolding minus32_def minus64_def e by (rule m, assumption)+
qed

text \<open>Cutting off a prefix.\<close>

lemma inv_set_max_drop:
  assumes "whc_inv w" "wh_max_drop_seq w \<le> d" "\<forall>n\<in>set (wh_nodes w). d < wn_seq n"
  shows "whc_inv (w\<lparr>wh_max_drop_seq := d\<rparr>)"
  using assms core_frame [of "{}" w "w\<lparr>wh_max_drop_seq := d\<rparr>"] by (auto simp: whc_inv_def) (meson order_trans)

text \<open>The node up to which the prefix goes.\<close>

lemma simple_target:
  assumes "whc_inv w" "wh_seq w = [(a, b)]" "map wn_seq (wh_nodes w) = [a..<b]" "wh_nodes w \<noteq> []" "a \<le> d"
  obtains xs n ys where "wh_nodes w = xs @ n # ys" "wn_seq n = a + length xs" "wn_seq n \<le> d" "ys \<noteq> [] \<Longrightarrow> wn_seq n = d"
    "\<forall>x\<in>set xs. wn_seq x < wn_seq n" "\<forall>y\<in>set ys. d < wn_seq y"
    "(case whc_findseq w d of Some n \<Rightarrow> Some n
      | None \<Rightarrow> if d < a then None else Option.bind (wh_maxseq_node w) (whc_findseq w)) = Some n"
proof -
  note i = invD [OF assms(1)] note c = coreD [OF i(1)]
  define k where "k = min d (b - 1)"
  have ab: "a < b" using assms(3,4) by (cases "a < b") auto
  have "k \<in> set (map wn_seq (wh_nodes w))" unfolding assms(3) using ab assms(5) by (auto simp: k_def)
  then obtain n where n: "n \<in> set (wh_nodes w)" "wn_seq n = k" by auto
  obtain xs ys where d: "wh_nodes w = xs @ n # ys" "\<forall>x\<in>set xs. wn_seq x < wn_seq n" "\<forall>y\<in>set ys. wn_seq n < wn_seq y"
    by (rule idx_split_at [OF c(1) n(1)])
  have m: "map wn_seq xs @ wn_seq n # map wn_seq ys = [a..<b]" using assms(3) d(1) by simp
  from arg_cong [OF m, of length] have "length xs < b - a" by simp
  moreover have "wn_seq n = [a..<b] ! length xs" unfolding m [symmetric] by (simp add: nth_append)
  ultimately have kx: "wn_seq n = a + length xs" by simp
  have yb: "wn_seq y < b" if "y \<in> set ys" for y
  proof -
    have "wn_seq y \<in> set (map wn_seq (wh_nodes w))" using that d(1) by simp
    then show ?thesis unfolding assms(3) by simp
  qed
  have yd: "wn_seq n = d" if ne: "ys \<noteq> []"
  proof -
    obtain y where "y \<in> set ys" using ne by (cases ys) auto
    then have "wn_seq y < b" "wn_seq n < wn_seq y" using d(3) yb by auto
    then show ?thesis using n(2) by (auto simp: k_def min_def split: if_splits)
  qed
  have tgt: "(case whc_findseq w d of Some n \<Rightarrow> Some n
      | None \<Rightarrow> if d < a then None else Option.bind (wh_maxseq_node w) (whc_findseq w)) = Some n"
  proof (cases "d < b")
    case True
    then have "whc_findseq w d = Some n" using n findseq_iff [OF c(1)] by (simp add: k_def)
    then show ?thesis by simp
  next
    case False
    then have "d \<notin> set (map wn_seq (wh_nodes w))" unfolding assms(3) by simp
    then have "whc_findseq w d = None" by (auto simp: whc_findseq_def idx_lookup_None)
    moreover have "ys = []"
    proof (rule ccontr)
      assume "ys \<noteq> []"
      then have "wn_seq n = d" by (rule yd)
      then show False using n(2) False ab by (auto simp: k_def)
    qed
    ultimately show ?thesis using i(3) d(1) n findseq_iff [OF c(1)] assms(5) by simp
  qed
  show thesis
  proof (rule that [OF d(1) kx _ yd d(2) _ tgt])
    show "wn_seq n \<le> d" using n(2) by (simp add: k_def)
    show "\<forall>y\<in>set ys. d < wn_seq y" using d(3) yd by force
  qed
qed

lemma simple_cut_at:
  assumes "whc_inv w" "simple_ok w" "whc_simple w" "wh_max_drop_seq w \<le> d" "\<not> (d \<le> wh_max_drop_seq w \<or> wh_maxseq_node w = None)"
    "whc_default_remove_acked_messages_noidx w d = (w', freed, cnt)" "length (wh_nodes w) < 2 ^ 32" "wh_unacked_bytes w < 2 ^ 64"
    "wh_seq w = [(a, b)]"
    and d: "wh_nodes w = xs @ n # ys" "wn_seq n = a + length xs" "wn_seq n \<le> d" "ys \<noteq> [] \<Longrightarrow> wn_seq n = d"
      "\<forall>x\<in>set xs. wn_seq x < wn_seq n" "\<forall>y\<in>set ys. d < wn_seq y"
      "(case whc_findseq w d of Some n \<Rightarrow> Some n
        | None \<Rightarrow> if d < a then None else Option.bind (wh_maxseq_node w) (whc_findseq w)) = Some n"
  shows "freed = filter (\<lambda>n. wn_seq n \<le> d) (wh_nodes w) \<and> cnt = length freed \<and> whc_inv w' \<and> simple_ok w' \<and> wh_max_drop_seq w' = d
    \<and> wh_nodes w' = filter (\<lambda>n. d < wn_seq n) (wh_nodes w) \<and> wh_wrinfo w' = wh_wrinfo w"
proof -
  note i = invD [OF assms(1)] note c = coreD [OF i(1)] note k = idx_okD [OF c(5)]
  obtain a' b' where sh': "wh_seq w = [(a', b')]" "a' \<le> b'" "map wn_seq (wh_nodes w) = [a'..<b']" "\<forall>n\<in>set (wh_nodes w). wn_unacked n"
    "totals_ok (wh_nodes w) (wh_total_bytes w)" "wh_unacked_bytes w = (\<Sum>n\<leftarrow>wh_nodes w. wn_size n)"
    using simple_shape [OF assms(1,2)] by metis
  then have sh: "map wn_seq (wh_nodes w) = [a..<b]" "\<forall>n\<in>set (wh_nodes w). wn_unacked n" "totals_ok (wh_nodes w) (wh_total_bytes w)"
    "wh_unacked_bytes w = (\<Sum>n\<leftarrow>wh_nodes w. wn_size n)" using assms(9) by simp_all
  let ?f = "xs @ [n]"
  have wf: "idx_wf wn_seq (xs @ n # ys)" using c(1) d(1) by simp
  have dist: "distinct (xs @ n # ys)" using wf by (rule idx_wf_distinct)
  have m: "map wn_seq xs @ wn_seq n # map wn_seq ys = [a..<b]" using sh(1) d(1) by simp
  from arg_cong [OF m, of length] have len: "length xs + length ys + 1 = b - a" by simp
  have first: "a \<le> wn_seq x" if "x \<in> set (wh_nodes w)" for x
  proof -
    have "wn_seq x \<in> set (map wn_seq (wh_nodes w))" using that by simp
    then show ?thesis unfolding sh(1) by simp
  qed
  obtain h where h: "h \<in> set (wh_nodes w)" "wn_seq h = a"
  proof -
    have "a \<in> set (map wn_seq (wh_nodes w))" unfolding sh(1) using len by simp
    then show thesis using that by auto
  qed
  have nf: "nodes_from w (whc_findseq w a) = xs @ n # ys"
    using h first findseq_iff [OF c(1), of a h] d(1) by (simp add: nodes_from_def filter_id_conv)
  have lt: "list_to n (xs @ n # ys) = ?f" using list_to_prefix [of xs n ys] dist by simp
  have keep: "filter (\<lambda>x. x \<notin> set ?f) (wh_nodes w) = ys" using dist d(1) by (auto simp: filter_empty_conv filter_id_conv)
  have nxt: "next_seq_of w n = first_opt ys"
    using idx_at(5) [of xs wn_seq n ys] wf d(1) by (simp add: next_seq_of_def idx_wf_append)
  have nd: "minus32 (Suc (wn_seq n)) a = Suc (length xs)"
    using minus_diff(1) [of a "Suc (wn_seq n)"] d(1,2) assms(7) by simp
  have sz: "minus32 (wh_seq_size w) (Suc (length xs)) = length ys"
    using minus_diff(1) [of "Suc (length xs)" "wh_seq_size w"] i(2) d(1) assms(7) by simp
  have tot: "totals_ok ?f (wn_total_bytes (last ?f))" using totals_prefix [of ?f ys] sh(3) d(1) by simp
  have bytes: "minus64 (wn_total_bytes n + wn_size (hd ?f)) (wn_total_bytes (hd ?f)) = (\<Sum>x\<leftarrow>?f. wn_size x)"
    using totals_sum [OF tot] minus_diff(2) [of "wn_total_bytes (hd ?f)" "wn_total_bytes n + wn_size (hd ?f)"] sh(4) assms(8) d(1) by simp
  have un: "minus64 (wh_unacked_bytes w) (\<Sum>x\<leftarrow>?f. wn_size x) = (\<Sum>x\<leftarrow>ys. wn_size x)"
    using minus_diff(2) [of "\<Sum>x\<leftarrow>?f. wn_size x" "wh_unacked_bytes w"] sh(4) assms(8) d(1) by simp
  have e: "w' = w\<lparr>wh_seq := [(d + 1, if ys = [] then d + 1 else b)], wh_nodes := ys, wh_maxseq_node := (if ys = [] then None else wh_maxseq_node w),
      wh_unacked_bytes := (\<Sum>x\<leftarrow>ys. wn_size x), wh_seq_size := length ys, wh_max_drop_seq := d\<rparr>" "freed = ?f" "cnt = length ?f"
    using assms(6) unfolding whc_default_remove_acked_messages_noidx_def if_not_P [OF assms(5)] open_intv_def assms(9) Let_def
      last.simps if_P [OF refl] fst_conv snd_conv d(7) option.case nf lt keep nxt
    by (auto simp: nd sz bytes un [simplified])
  have ys: "map wn_seq ys = [Suc (wn_seq n)..<b]"
  proof -
    have "map wn_seq ys = drop (Suc (length xs)) [a..<b]" unfolding m [symmetric] by simp
    then show ?thesis using d(2) by simp
  qed
  have "wn_seq ` set ys = {Suc (wn_seq n)..<b}" using arg_cong [OF ys, of set] by simp
  moreover have "Suc (wn_seq n) < b" if "ys \<noteq> []" using that len d(2) by (cases ys) auto
  moreover have "idx_wf wn_seq ys" using wf by (simp add: idx_wf_append)
  moreover have "(\<Sum>x\<leftarrow>ys. unacked_size x) = (\<Sum>x\<leftarrow>ys. wn_size x)"
    using sh(2) d(1) by (auto simp: unacked_size_def intro!: arg_cong [where f = sum_list] map_cong [OF refl])
  moreover have "whc_idx_ok {} w'"
  proof -
    have hn: "hist_at w j p = None" for j p
      using k(1) [of j] assms(3) by (auto simp: hist_at_def whc_simple_def split: option.split)
    have h: "hist_at w' = hist_at w" by (rule hist_at_cong) (simp add: e)
    show ?thesis
    proof (rule idx_okI)
      fix x j assume "x \<in> set (wh_nodes w')" "wn_idxnode x = Some j"
      then show "hist_at w' j (wn_idxnode_pos x) = Some (wn_seq x) \<or> wh_idx_hash w' j = None \<and> wn_seq x \<in> {}"
        using k(4) [of x j] d(1) unfolding h by (simp add: e)
    qed (use k(1,2) hn h in \<open>auto simp: e\<close>)
  qed
  ultimately have core: "whc_core {} w'" using d(4) c(6) by (auto simp: whc_core_def e ivs_ok_Cons)
  have "whc_inv w'"
    using core i(3) i(5) d(1,6) assms(4) by (auto simp: whc_inv_def e intro: order_trans)
  moreover have "simple_ok w'" using sh(2,3) d(1) totals_append [of ?f ys] by (simp add: simple_ok_def e)
  moreover have "filter (\<lambda>x. wn_seq x \<le> d) (wh_nodes w) = ?f" "filter (\<lambda>x. d < wn_seq x) (wh_nodes w) = ys"
  proof -
    have "\<forall>x\<in>set ?f. wn_seq x \<le> d" "\<forall>x\<in>set ?f. \<not> d < wn_seq x" "\<forall>x\<in>set ys. \<not> wn_seq x \<le> d" using d(3,5,6) by force+
    then show "filter (\<lambda>x. wn_seq x \<le> d) (wh_nodes w) = ?f" "filter (\<lambda>x. d < wn_seq x) (wh_nodes w) = ys"
      using d(1,6) by (simp_all add: filter_empty_conv filter_id_conv)
  qed
  ultimately show ?thesis using e by simp
qed

lemma simple_cut:
  assumes "whc_inv w" "simple_ok w" "whc_simple w" "wh_max_drop_seq w \<le> d" "whc_default_remove_acked_messages_noidx w d = (w', freed, cnt)"
    "length (wh_nodes w) < 2 ^ 32" "wh_unacked_bytes w < 2 ^ 64"
  shows "freed = filter (\<lambda>n. wn_seq n \<le> d) (wh_nodes w) \<and> cnt = length freed \<and> whc_inv w' \<and> simple_ok w' \<and> wh_max_drop_seq w' = d
    \<and> wh_nodes w' = filter (\<lambda>n. d < wn_seq n) (wh_nodes w) \<and> wh_wrinfo w' = wh_wrinfo w"
proof -
  obtain a b where sh: "wh_seq w = [(a, b)]" "a \<le> b" "map wn_seq (wh_nodes w) = [a..<b]" "\<forall>n\<in>set (wh_nodes w). wn_unacked n"
    "totals_ok (wh_nodes w) (wh_total_bytes w)" "wh_unacked_bytes w = (\<Sum>n\<leftarrow>wh_nodes w. wn_size n)"
    using simple_shape [OF assms(1,2)] by metis
  note i = invD [OF assms(1)] note c = coreD [OF i(1)] note k = idx_okD [OF c(5)]
  have un: "wh_max_drop_seq w < wn_seq n" if "n \<in> set (wh_nodes w)" for n using i(4) [OF that] sh(4) that by simp
  have a0: "a \<in> set (map wn_seq (wh_nodes w))" if "wh_nodes w \<noteq> []" using that sh(3) by (cases "a < b") auto
  show ?thesis
  proof (cases "d \<le> wh_max_drop_seq w \<or> wh_nodes w = [] \<or> d < a")
    case True
    have above: "\<forall>n\<in>set (wh_nodes w). d < wn_seq n"
    proof
      fix n assume n: "n \<in> set (wh_nodes w)"
      then have "wn_seq n \<in> set (map wn_seq (wh_nodes w))" by simp
      then have "a \<le> wn_seq n" unfolding sh(3) by simp
      then show "d < wn_seq n" using True un [OF n] n by auto
    qed
    then have "whc_findseq w d = None" by (auto simp: whc_findseq_def idx_lookup_None)
    then have e: "w' = w\<lparr>wh_max_drop_seq := d\<rparr>" "freed = []" "cnt = 0"
      using True assms(4,5) i(3) sh(1) by (auto simp: whc_default_remove_acked_messages_noidx_def open_intv_def split: if_splits)
    then show ?thesis using above inv_set_max_drop [OF assms(1,4) above] assms(2)
      by (auto simp: simple_ok_def filter_id_conv intro!: filter_False [symmetric])
  next
    case False
    then obtain xs n ys where d: "wh_nodes w = xs @ n # ys" "wn_seq n = a + length xs" "wn_seq n \<le> d" "ys \<noteq> [] \<Longrightarrow> wn_seq n = d"
      "\<forall>x\<in>set xs. wn_seq x < wn_seq n" "\<forall>y\<in>set ys. d < wn_seq y"
      "(case whc_findseq w d of Some n \<Rightarrow> Some n
        | None \<Rightarrow> if d < a then None else Option.bind (wh_maxseq_node w) (whc_findseq w)) = Some n"
      using simple_target [OF assms(1) sh(1,3), of d] by (metis not_le)
    show ?thesis using simple_cut_at [OF assms(1-4) _ assms(5-7) sh(1) d] False i(3) by auto
  qed
qed

end
