(* ===== verification/Whc_Props.thy ===== *)
theory Whc_Props
  imports Whc_Simple
begin

text \<open>
  What the writer history cache guarantees, over all runs: the invariant, which samples an
  acknowledgement removes, what the walks in sequence order visit, how a keep-last history is kept.
\<close>

section \<open>Runs\<close>

datatype whc_op = Whc_insert seqno seqno "nat option" whc_serdata iid | Whc_ack seqno | Whc_borrow seqno
  | Whc_return whc_borrowed_sample bool | Whc_next "whc_borrowed_sample option" | Whc_expire "seqno list"

text \<open>
  What the code asserts before the operations, what its callers see to, and the sizes of the types.
  In the simple mode a sample is inserted for a reader that has yet to acknowledge it, right after
  the last one, and no sample expires: the last section shows why.
\<close>

fun whc_op_ok :: "whc_op \<Rightarrow> whc \<Rightarrow> bool" where
  "whc_op_ok (Whc_insert d s pl sd i) w \<longleftrightarrow> wh_max_drop_seq w \<le> d \<and> 0 < s \<and> (\<forall>n\<in>set (wh_nodes w). wn_seq n < s)
     \<and> (whc_simple w \<longrightarrow> d < s \<and> (wh_nodes w = [] \<or> wh_maxseq_node w = Some (s - 1)))"
| "whc_op_ok (Whc_ack d) w \<longleftrightarrow> wh_max_drop_seq w \<le> d \<and> length (wh_nodes w) < 2 ^ 32 \<and> wh_unacked_bytes w < 2 ^ 64"
| "whc_op_ok (Whc_expire ss) w \<longleftrightarrow> \<not> whc_simple w"
| "whc_op_ok _ w \<longleftrightarrow> True"

fun whc_do :: "whc_op \<Rightarrow> whc \<Rightarrow> whc" where
  "whc_do (Whc_insert d s pl sd i) w = whc_default_insert w d s pl sd i"
| "whc_do (Whc_ack d) w = fst (whc_default_remove_acked_messages w d)"
| "whc_do (Whc_borrow s) w = (case whc_default_borrow_sample w s of None \<Rightarrow> w | Some (b, w') \<Rightarrow> w')"
| "whc_do (Whc_return b u) w = whc_default_return_sample w b u"
| "whc_do (Whc_next it) w = snd (whc_default_sample_iter_borrow_next w it)"
| "whc_do (Whc_expire ss) w = whc_sample_expired_cb w ss"

inductive whc_reachable :: "whc \<Rightarrow> bool" where
  whc_reach_new: "whc_reachable (whc_new fs (whc_make_wrinfo tloc dl h ds))"
| whc_reach_step: "whc_reachable w \<Longrightarrow> whc_op_ok a w \<Longrightarrow> whc_reachable (whc_do a w)"

definition whc_ok :: "whc \<Rightarrow> bool" where
  "whc_ok w \<longleftrightarrow> whc_inv w \<and> (\<forall>n\<in>set (wh_nodes w). 0 < wn_seq n) \<and> (whc_simple w \<longrightarrow> simple_ok w)"

lemma whc_okD: "whc_ok w \<Longrightarrow> whc_inv w" "whc_ok w \<Longrightarrow> n \<in> set (wh_nodes w) \<Longrightarrow> 0 < wn_seq n" "whc_ok w \<Longrightarrow> whc_simple w \<Longrightarrow> simple_ok w"
  by (auto simp: whc_ok_def)

lemma simple_cong: "wh_wrinfo w' = wh_wrinfo w \<Longrightarrow> whc_simple w' = whc_simple w"
  by (simp add: whc_simple_def)

lemma whc_ok_new: "whc_ok (whc_new fs (whc_make_wrinfo tloc dl h ds))"
proof -
  have "whc_inv (whc_new fs (whc_make_wrinfo tloc dl h ds))"
    by (simp add: whc_inv_def whc_core_def whc_new_def whc_idx_ok_def hist_at_def whc_ivs_ok_def whc_make_wrinfo_def Let_def)
  then show ?thesis by (simp add: whc_ok_def whc_new_def simple_ok_def)
qed

lemma totals_map: "(\<And>n. wn_total_bytes (f n) = wn_total_bytes n) \<Longrightarrow> (\<And>n. wn_size (f n) = wn_size n) \<Longrightarrow> totals_ok (map f ns) tb = totals_ok ns tb"
  by (induction ns tb rule: totals_ok.induct) auto

lemma whc_ok_upd:
  assumes "whc_ok w" "\<And>n. wn_seq (f n) = wn_seq n" "\<And>n. wn_idxnode (f n) = wn_idxnode n" "\<And>n. wn_idxnode_pos (f n) = wn_idxnode_pos n"
    "\<And>n. wn_unacked (f n) = wn_unacked n" "\<And>n. wn_size (f n) = wn_size n" "\<And>n. wn_total_bytes (f n) = wn_total_bytes n"
  shows "whc_ok (upd_node s f w)"
proof -
  have "totals_ok (wh_nodes (upd_node s f w)) (wh_total_bytes (upd_node s f w)) = totals_ok (wh_nodes w) (wh_total_bytes w)"
    using assms(6,7) by (simp add: totals_map upd_node_def)
  moreover have "whc_simple (upd_node s f w) = whc_simple w" by (rule simple_cong) simp
  ultimately show ?thesis
    using assms(1,2,5) inv_upd_frame [OF whc_okD(1) [OF assms(1)] assms(2-6)] by (auto simp: whc_ok_def simple_ok_def)
qed

lemma whc_ok_refs: "whc_ok w \<Longrightarrow> whc_ok (w\<lparr>wh_refs := r\<rparr>)"
  by (simp add: whc_ok_def inv_refs simple_ok_def whc_simple_def)

lemma whc_ok_borrow: "whc_ok w \<Longrightarrow> whc_ok (snd (make_borrowed_sample n w))"
  by (simp add: make_borrowed_sample_def whc_ok_upd)

lemma whc_ok_return: "whc_ok w \<Longrightarrow> whc_ok (return_sample_locked w b u)"
  by (cases u) (auto simp: return_sample_locked_def whc_ok_refs intro!: whc_ok_upd split: option.split)

lemma whc_ok_next:
  assumes "whc_ok w"
  shows "whc_ok (snd (whc_default_sample_iter_borrow_next w it))"
proof -
  let ?w = "case it of None \<Rightarrow> w | Some b \<Rightarrow> return_sample_locked w b False"
  have "whc_ok ?w" using assms whc_ok_return by (cases it) auto
  from whc_ok_borrow [OF this] this show ?thesis
    by (auto simp: whc_default_sample_iter_borrow_next_def Let_def case_prod_unfold split: option.split)
qed

section \<open>Acknowledging\<close>

text \<open>The one specification of both algorithms.\<close>

lemma remove_acked_spec:
  assumes "whc_ok w" "wh_max_drop_seq w \<le> d" "length (wh_nodes w) < 2 ^ 32" "wh_unacked_bytes w < 2 ^ 64"
    "whc_default_remove_acked_messages w d = (w', freed, cnt, st)"
  shows "whc_ok w' \<and> wh_max_drop_seq w' = d \<and> wh_wrinfo w' = wh_wrinfo w
    \<and> wh_nodes w' = map (ack_le d) (filter (whc_retained w d) (wh_nodes w)) \<and> cnt = length freed
    \<and> freed = (if wi_is_transient_local (wh_wrinfo w) \<and> wi_tldepth (wh_wrinfo w) = 0 then []
        else filter (\<lambda>n. wh_max_drop_seq w < wn_seq n \<and> wn_seq n \<le> d \<and> \<not> in_tl w n) (wh_nodes w)) \<and> st = get_state_locked w'"
proof -
  note i = whc_okD(1) [OF assms(1)]
  have ok: "whc_ok w'" if "whc_inv w'" "set (wh_nodes w') \<subseteq> ack_le d ` set (wh_nodes w)" "wh_wrinfo w' = wh_wrinfo w" "whc_simple w \<Longrightarrow> simple_ok w'"
    using that whc_okD(2) [OF assms(1)] simple_cong [OF that(3)] by (auto simp: whc_ok_def)
  show ?thesis
  proof (cases "whc_simple w")
    case True
    obtain w1 f c where r: "whc_default_remove_acked_messages_noidx w d = (w1, f, c)" by (metis prod_cases3)
    then have e: "w' = w1" "freed = f" "cnt = c" "st = get_state_locked w1"
      using assms(5) True by (auto simp: whc_default_remove_acked_messages_def whc_simple_def)
    obtain w2 f2 c2 where f: "whc_default_remove_acked_messages_full w d = (w2, f2, c2)" by (metis prod_cases3)
    note s = simple_cut [OF i whc_okD(3) [OF assms(1) True] True assms(2) r assms(3,4)]
    note g = simple_full [OF i whc_okD(3) [OF assms(1) True] True assms(2) f] and h = remove_full [OF i assms(2) f]
    have n: "wh_nodes w' = map (ack_le d) (filter (whc_retained w d) (wh_nodes w))" using s g(2) h e by simp
    have "set (wh_nodes w') \<subseteq> ack_le d ` set (wh_nodes w)" unfolding n by auto
    then show ?thesis using ok s e n h g(1) by simp
  next
    case False
    then obtain c where r: "whc_default_remove_acked_messages_full w d = (w', freed, c)" "cnt = c" "st = get_state_locked w'"
      using assms(5) by (auto simp: whc_default_remove_acked_messages_def whc_simple_def Let_def split: prod.splits if_splits)
    note h = remove_full [OF i assms(2) r(1)]
    have "set (wh_nodes w') \<subseteq> ack_le d ` set (wh_nodes w)" using h by auto
    then show ?thesis using ok h r(2,3) False by simp
  qed
qed

lemma unacked_after:
  "(\<Sum>n\<leftarrow>map (ack_le d) (filter (whc_retained w d) (wh_nodes w)). unacked_size n) = (\<Sum>n\<leftarrow>wh_nodes w. if d < wn_seq n then unacked_size n else 0)"
proof -
  have "(\<Sum>n\<leftarrow>map (ack_le d) (filter P ns). unacked_size n) = (\<Sum>n\<leftarrow>ns. if d < wn_seq n then unacked_size n else 0)"
    if "\<forall>n. d < wn_seq n \<longrightarrow> P n" for P ns
    using that by (induction ns) (auto simp: ack_le_def unacked_size_def)
  then show ?thesis by (simp add: whc_retained_def)
qed

section \<open>Inserting\<close>

lemma insert_wrinfo: "wh_wrinfo (whc_default_insert w d s pl sd i) = wh_wrinfo w"
proof -
  have "wh_wrinfo (drop_unregister d s w') = wh_wrinfo w'" "wh_wrinfo (delete_one_instance_from_idx w' d i x) = wh_wrinfo w'"
    "wh_wrinfo (new_instance i s w') = wh_wrinfo w'" for w' x
    by (simp_all add: drop_unregister_def delete_one_instance_from_idx_def new_instance_def Let_def)
  moreover have "wh_wrinfo (prune_overwritten d oldn w') = wh_wrinfo w'" "wh_wrinfo (prune_tl d s i w') = wh_wrinfo w'" for oldn w'
    by (simp_all add: prune_overwritten_def prune_tl_def Let_def split: option.split)
  ultimately show ?thesis by (simp add: whc_default_insert_def Let_def split: option.split)
qed

text \<open>No operation but the insertion itself brings in a sequence number.\<close>

definition seqs :: "whc \<Rightarrow> seqno set" where
  "seqs w = wn_seq ` set (wh_nodes w)"

lemma seqs_upd_node [simp]: "(\<And>n. wn_seq (f n) = wn_seq n) \<Longrightarrow> seqs (upd_node s f w) = seqs w"
  unfolding seqs_def by (rule seqs_upd)

lemma seqs_delete: "seqs (whc_delete_seq w s) \<subseteq> seqs w"
  by (auto simp: seqs_def delete_seq_nodes)

lemma seqs_frame [simp]:
  "seqs (w\<lparr>wh_idx_hash := h\<rparr>) = seqs w" "seqs (w\<lparr>wh_maxseq_node := m\<rparr>) = seqs w" "seqs (w\<lparr>wh_seq_size := k\<rparr>) = seqs w"
  by (simp_all add: seqs_def)

lemma seqs_free_hist: "seqs (free_hist d h w) \<subseteq> seqs w"
proof (induction d h w rule: free_hist.induct)
  case (3 d s h w)
  then show ?case
    using seqs_delete [of "upd_node s (\<lambda>n. n\<lparr>wn_idxnode := None\<rparr>) w" s] by (cases "s \<le> d") (simp_all add: Let_def)
qed simp_all

lemma seqs_put_head: "seqs (put_head i s x w) = seqs w"
  by (simp add: put_head_def Let_def split: option.split)

lemma seqs_insert: "seqs (whc_default_insert w d s pl sd i) \<subseteq> insert s (seqs w)"
proof -
  let ?w = "whc_default_insert_seq w d s pl sd"
  have 0: "seqs ?w = insert s (seqs w)" by (simp add: seqs_def)
  have 1: "seqs (drop_unregister d s w') \<subseteq> seqs w'" for w' using seqs_delete [of w' s] by (simp add: drop_unregister_def)
  have 2: "seqs (new_instance i s ?w) = seqs ?w" by (simp add: new_instance_def Let_def)
  have 3: "seqs (delete_one_instance_from_idx ?w d i x) \<subseteq> seqs ?w" for x
    using seqs_free_hist [of d "in_hist x"] by (fastforce simp: delete_one_instance_from_idx_def)
  have 4: "seqs (prune_overwritten d oldn w') \<subseteq> seqs w'" for oldn w'
    using seqs_delete [of w'] by (simp add: prune_overwritten_def Let_def split: option.split)
  have 5: "seqs (prune_tl d s i w') \<subseteq> seqs w'" for w'
    using seqs_delete [of w'] by (simp add: prune_tl_def Let_def split: option.split)
  have 6: "seqs (prune_tl d s i (prune_overwritten d oldn (put_head i s x ?w))) \<subseteq> seqs ?w" for oldn x
    using 5 4 seqs_put_head by (metis order_trans)
  show ?thesis
    using 1 [of ?w] 2 3 6 order_trans [OF 1 3] unfolding 0 [symmetric]
    by (auto simp: whc_default_insert_def Let_def split: option.split)
qed

lemma simple_insert:
  assumes "whc_inv w" "simple_ok w" "whc_simple w" "d < s" "wh_nodes w = [] \<or> wh_maxseq_node w = Some (s - 1)" "\<forall>n\<in>set (wh_nodes w). wn_seq n < s"
    "w' = whc_default_insert w d s pl sd i"
  shows "wh_nodes w' = wh_nodes w @ [new_whcn w d s pl sd]" "length (wh_seq w') = 1" "wh_total_bytes w' = wh_total_bytes w + whcn_size w sd"
proof -
  let ?w = "whc_default_insert_seq w d s pl sd"
  note i = invD [OF assms(1)]
  have h: "in_hist x = []" if "wh_idx_hash w i = Some x" for x
    using idx_okD(1) [OF coreD(5) [OF i(1)] that] assms(3) by (simp add: whc_simple_def)
  have e: "\<exists>h. w' = ?w\<lparr>wh_idx_hash := h\<rparr>"
  proof (cases "wh_idx_hash w i")
    case None
    then show ?thesis using assms(3,4)
      by (auto simp: assms(7) whc_default_insert_def Let_def new_instance_def whc_simple_def drop_unregister_def intro: exI [of _ "wh_idx_hash ?w"])
  next
    case (Some x)
    then show ?thesis using assms(3,4) h [OF Some]
      by (auto simp: assms(7) whc_default_insert_def Let_def delete_one_instance_from_idx_def whc_simple_def drop_unregister_def intro: exI [of _ "wh_idx_hash ?w"])
  qed
  obtain a b where s: "wh_seq w = [(a, b)]" "a \<le> b" "map wn_seq (wh_nodes w) = [a..<b]" using simple_shape [OF assms(1,2)] by metis
  have "b = s" if "a < b"
  proof -
    have "last (map wn_seq (wh_nodes w)) = b - 1" unfolding s(3) using that by (simp add: last_conv_nth)
    moreover have "wh_nodes w \<noteq> []"
    proof
      assume "wh_nodes w = []"
      then have "[a..<b] = []" using s(3) by simp
      then show False using that by simp
    qed
    ultimately have "b - 1 = s - 1" using assms(5) i(3) by (cases "wh_nodes w" rule: rev_cases) auto
    then show ?thesis using that assms(4) by simp
  qed
  then have "length (wh_seq ?w) = 1" using s by (auto simp: whc_default_insert_seq_def Let_def open_intv_def)
  then show "length (wh_seq w') = 1" using e by auto
  show "wh_nodes w' = wh_nodes w @ [new_whcn w d s pl sd]" using e by auto
  have "wh_total_bytes ?w = wh_total_bytes w + whcn_size w sd" by (simp add: whc_default_insert_seq_def Let_def)
  then show "wh_total_bytes w' = wh_total_bytes w + whcn_size w sd" using e by auto
qed

lemma whc_ok_insert:
  assumes "whc_ok w" "whc_op_ok (Whc_insert d s pl sd i) w"
  shows "whc_ok (whc_default_insert w d s pl sd i)"
proof -
  let ?w = "whc_default_insert w d s pl sd i"
  have g: "wh_max_drop_seq w \<le> d" "0 < s" "\<forall>n\<in>set (wh_nodes w). wn_seq n < s" using assms(2) by simp_all
  have "0 < wn_seq n" if "n \<in> set (wh_nodes ?w)" for n
  proof -
    have "wn_seq n \<in> insert s (seqs w)" using seqs_insert [of w d s pl sd i] that by (auto simp: seqs_def)
    then show ?thesis using g(2) whc_okD(2) [OF assms(1)] by (auto simp: seqs_def)
  qed
  moreover have "simple_ok ?w" if s: "whc_simple w"
  proof -
    have so: "simple_ok w" using whc_okD(3) [OF assms(1) s] .
    have sg: "d < s" "wh_nodes w = [] \<or> wh_maxseq_node w = Some (s - 1)" using assms(2) s by simp_all
    note n = simple_insert [OF whc_okD(1) [OF assms(1)] so s sg g(3) refl]
    have "totals_ok (wh_nodes w @ [new_whcn w d s pl sd]) (wh_total_bytes w + whcn_size w sd)"
    proof -
      have "wh_nodes w \<noteq> [] \<Longrightarrow> wn_total_bytes (last (wh_nodes w)) = wh_total_bytes w"
        using so by (cases "wh_nodes w" rule: rev_cases) (auto simp: totals_snoc simple_ok_def)
      then show ?thesis using so by (auto simp: totals_snoc simple_ok_def)
    qed
    then show ?thesis using so sg(1) n by (auto simp: simple_ok_def)
  qed
  ultimately show ?thesis
    using whc_insert_inv [OF whc_okD(1) [OF assms(1)] g(1,3)] simple_cong [OF insert_wrinfo] by (auto simp: whc_ok_def)
qed

lemma whc_reachable_ok: "whc_reachable w \<Longrightarrow> whc_ok w"
proof (induction rule: whc_reachable.induct)
  case (whc_reach_step w a)
  note ok = whc_reach_step.IH
  show ?case
  proof (cases a)
    case (Whc_insert d s pl sd i)
    then show ?thesis using whc_ok_insert [OF ok] whc_reach_step.hyps by simp
  next
    case (Whc_ack d)
    obtain w' f c st where r: "whc_default_remove_acked_messages w d = (w', f, c, st)" by (metis prod_cases4)
    have "whc_ok w'" using remove_acked_spec [OF ok _ _ _ r] whc_reach_step.hyps Whc_ack by simp
    then show ?thesis using r Whc_ack by simp
  next
    case (Whc_borrow s)
    then show ?thesis using ok whc_ok_borrow by (cases "whc_findseq w s") (auto simp: whc_default_borrow_sample_def case_prod_unfold)
  next
    case (Whc_expire ss)
    note e = expire_inv [OF whc_okD(1) [OF ok] refl, of ss]
    show ?thesis using e whc_okD(2) [OF ok] whc_reach_step.hyps simple_cong [OF e(4)] Whc_expire by (auto simp: whc_ok_def)
  qed (use ok whc_ok_return whc_ok_next in \<open>auto simp: whc_default_return_sample_def\<close>)
qed (rule whc_ok_new)

section \<open>The state that is reported\<close>

lemma last_opt_last: "xs \<noteq> [] \<Longrightarrow> last_opt xs = Some (last xs)"
  by (cases xs rule: rev_cases) auto

lemma get_state_spec:
  assumes "whc_inv w"
  shows "get_state_locked w = (if wh_nodes w = [] then \<lparr>ws_min_seq = 0, ws_max_seq = 0, ws_unacked_bytes = 0\<rparr>
    else \<lparr>ws_min_seq = wn_seq (hd (wh_nodes w)), ws_max_seq = wn_seq (last (wh_nodes w)), ws_unacked_bytes = (\<Sum>n\<leftarrow>wh_nodes w. unacked_size n)\<rparr>)"
proof (cases "wh_nodes w")
  case Nil
  then show ?thesis using invD(2) [OF assms] by (simp add: get_state_locked_def)
next
  case (Cons n ns)
  note i = invD [OF assms] note c = coreD [OF i(1)]
  obtain a t where t: "wh_seq w = a # t" using c(2) by (cases "wh_seq w") auto
  have m: "members (a # t) = insert (wn_seq n) (wn_seq ` set ns)" using c(3) by (simp add: t Cons)
  have low: "fst a \<le> x" if "x \<in> members (a # t)" for x
    using that ivs_ok_high [of "[]" a t] ivs_ok_le [OF c(2), of a] c(2) by (force simp: t)
  have "fst a < snd a"
  proof (rule ccontr)
    assume "\<not> fst a < snd a"
    then have "t = []" using c(2) by (auto simp: t ivs_ok_Cons split: if_splits)
    then show False using m \<open>\<not> fst a < snd a\<close> by auto
  qed
  then have "fst a \<in> members (a # t)" by simp
  then have "wn_seq n \<le> fst a" using c(1) unfolding m by (auto simp: Cons intro: less_imp_le)
  moreover have "wn_seq n \<in> members (a # t)" unfolding m by simp
  then have "fst a \<le> wn_seq n" by (rule low)
  moreover have "wh_maxseq_node w = Some (wn_seq (last (n # ns)))" using i(3) last_opt_last [of "n # ns"] Cons by (simp del: last_opt_Cons)
  ultimately show ?thesis using i(2) c(4) Cons t by (auto simp: get_state_locked_def)
qed

section \<open>Walking through the cache\<close>

fun whc_iterate :: "nat \<Rightarrow> whc \<Rightarrow> whc_borrowed_sample option \<Rightarrow> whc_borrowed_sample list \<times> whc" where
  "whc_iterate 0 w it = ([], w)"
| "whc_iterate (Suc k) w it =
     (case whc_default_sample_iter_borrow_next w it of
        (None, w1) \<Rightarrow> ([], w1)
      | (Some b, w1) \<Rightarrow> (case whc_iterate k w1 (Some b) of (bs, w2) \<Rightarrow> (b # bs, w2)))"

abbreviation sample_of :: "whc_node \<Rightarrow> whc \<Rightarrow> whc_borrowed_sample" where
  "sample_of n w \<equiv> fst (make_borrowed_sample n w)"

abbreviation lend :: "whc_node \<Rightarrow> whc \<Rightarrow> whc" where
  "lend n w \<equiv> snd (make_borrowed_sample n w)"

lemma return_lent:
  assumes "idx_wf wn_seq (wh_nodes w)" "n \<in> set (wh_nodes w)" "\<not> wn_borrowed n"
  shows "return_sample_locked (lend n w) (sample_of n w) False = w"
proof -
  let ?w = "lend n w" and ?f = "\<lambda>m. if wn_seq m = wn_seq n then m\<lparr>wn_borrowed := True\<rparr> else m"
  have nodes: "wh_nodes ?w = map ?f (wh_nodes w)" by (simp add: make_borrowed_sample_def)
  have "?f n \<in> set (wh_nodes ?w)" unfolding nodes using assms(2) by simp
  moreover have "idx_wf wn_seq (wh_nodes ?w)" unfolding nodes by (subst idx_wf_map) (simp_all add: assms(1))
  ultimately have f: "whc_findseq ?w (wn_seq n) = Some (n\<lparr>wn_borrowed := True\<rparr>)" using findseq_iff [of ?w "wn_seq n"] by simp
  have "m\<lparr>wn_borrowed := False\<rparr> = m" if "m \<in> set (wh_nodes w)" "wn_seq m = wn_seq n" for m
    using wf_inj [OF assms(1) that(1) assms(2) that(2)] assms(3) by simp
  then have "map ((\<lambda>m. if wn_seq m = wn_seq n then m\<lparr>wn_borrowed := False\<rparr> else m) \<circ> ?f) (wh_nodes w) = wh_nodes w"
    by (intro map_idI) auto
  then show ?thesis using f by (simp add: return_sample_locked_def make_borrowed_sample_def upd_node_def)
qed

lemma iterate_from:
  assumes "whc_core {} w" "\<forall>n\<in>set (wh_nodes w). \<not> wn_borrowed n" "wh_nodes w = xs @ n # ys"
  shows "whc_iterate (Suc (length ys)) (lend n w) (Some (sample_of n w)) = (map (\<lambda>m. sample_of m w) ys, w)"
  using assms(3)
proof (induction ys arbitrary: xs n)
  case Nil
  note wf = coreD(1) [OF assms(1)]
  have r: "return_sample_locked (lend n w) (sample_of n w) False = w" by (rule return_lent [OF wf]) (use Nil assms(2) in auto)
  have "idx_succ wn_seq (wn_seq n) (wh_nodes w) = None" using idx_at(5) [of xs wn_seq n "[]"] wf Nil by (simp add: idx_wf_append)
  then have "find_nextseq_intv w (wn_seq n) = None" using find_nextseq_spec [OF assms(1)] by simp
  then show ?case using r by (simp add: whc_default_sample_iter_borrow_next_def) (simp add: make_borrowed_sample_def)
next
  case (Cons m ys)
  note wf = coreD(1) [OF assms(1)]
  have r: "return_sample_locked (lend n w) (sample_of n w) False = w" by (rule return_lent [OF wf]) (use Cons.prems assms(2) in auto)
  have "idx_succ wn_seq (wn_seq n) (wh_nodes w) = Some m" using idx_at(5) [of xs wn_seq n "m # ys"] wf Cons.prems by (simp add: idx_wf_append)
  then have f: "find_nextseq_intv w (wn_seq n) = Some (idx_pred_eq fst (wn_seq m) (wh_seq w), m)" using find_nextseq_spec [OF assms(1)] by simp
  have s: "bs_seq (sample_of n w) = wn_seq n" by (simp add: make_borrowed_sample_def)
  have "whc_default_sample_iter_borrow_next (lend n w) (Some (sample_of n w)) = (Some (sample_of m w), lend m w)"
    by (simp add: whc_default_sample_iter_borrow_next_def r s f case_prod_unfold)
  then show ?case using Cons.IH [of "xs @ [n]" m] Cons.prems by simp
qed

lemma iterate_all:
  assumes "whc_ok w" "\<forall>n\<in>set (wh_nodes w). \<not> wn_borrowed n"
  shows "whc_iterate (Suc (length (wh_nodes w))) w None = (map (\<lambda>n. sample_of n w) (wh_nodes w), w)"
proof -
  note core = invD(1) [OF whc_okD(1) [OF assms(1)]]
  have "idx_succ wn_seq 0 (wh_nodes w) = first_opt (wh_nodes w)"
    using whc_okD(2) [OF assms(1)] by (simp add: idx_succ_def filter_all)
  then have "find_nextseq_intv w 0 = map_option (\<lambda>n. (idx_pred_eq fst (wn_seq n) (wh_seq w), n)) (first_opt (wh_nodes w))"
    using find_nextseq_spec [OF core] by simp
  then show ?thesis
    using iterate_from [OF core assms(2), of "[]"]
    by (cases "wh_nodes w") (simp_all add: whc_default_sample_iter_borrow_next_def case_prod_unfold del: whc_iterate.simps(2), simp_all add: whc_default_sample_iter_borrow_next_def case_prod_unfold)
qed

section \<open>The history of an instance\<close>

text \<open>The samples in the history, the newest first.\<close>

definition hist_list :: "whc \<Rightarrow> iid \<Rightarrow> seqno option list" where
  "hist_list w i = (case wh_idx_hash w i of None \<Rightarrow> []
    | Some x \<Rightarrow> map (\<lambda>k. in_hist x ! ((in_headidx x + wi_idxdepth (wh_wrinfo w) - k) mod wi_idxdepth (wh_wrinfo w))) [0..<wi_idxdepth (wh_wrinfo w)])"

lemma hist_rotate:
  assumes "length h = d" "head < d" "head' = (if head + 1 = d then 0 else head + 1)"
  shows "map (\<lambda>k. h[head' := v] ! ((head' + d - k) mod d)) [0..<d] = v # butlast (map (\<lambda>k. h ! ((head + d - k) mod d)) [0..<d])"
    and "last (map (\<lambda>k. h ! ((head + d - k) mod d)) [0..<d]) = h ! head'"
proof -
  have h': "head' < d" using assms(2,3) by auto
  show "map (\<lambda>k. h[head' := v] ! ((head' + d - k) mod d)) [0..<d] = v # butlast (map (\<lambda>k. h ! ((head + d - k) mod d)) [0..<d])"
  proof (rule nth_equalityI)
    fix k assume "k < length (map (\<lambda>k. h[head' := v] ! ((head' + d - k) mod d)) [0..<d])"
    then have k: "k < d" by simp
    show "map (\<lambda>k. h[head' := v] ! ((head' + d - k) mod d)) [0..<d] ! k
      = (v # butlast (map (\<lambda>k. h ! ((head + d - k) mod d)) [0..<d])) ! k"
    proof (cases k)
      case 0
      then show ?thesis using k h' assms(1) by simp
    next
      case (Suc j)
      have "(head' + d - Suc j) mod d = (head + d - j) mod d"
        using assms(2,3) k Suc by (auto simp: mod_if)
      moreover have "(head + d - j) mod d \<noteq> head'" using assms(2,3) k Suc by (auto simp: mod_if)
      ultimately show ?thesis using k Suc by (simp add: nth_butlast)
    qed
  qed (use assms(2) in simp)
  have "(head + d - (d - 1)) mod d = head'" using assms(2,3) by auto
  then show "last (map (\<lambda>k. h ! ((head + d - k) mod d)) [0..<d]) = h ! head'" using assms(2) by (simp add: last_map)
qed

lemma hist_list_cong: "wh_idx_hash w' i = wh_idx_hash w i \<Longrightarrow> wh_wrinfo w' = wh_wrinfo w \<Longrightarrow> hist_list w' i = hist_list w i"
  by (simp only: hist_list_def)

lemma keep_last_step:
  assumes "whc_inv w" "wh_max_drop_seq w \<le> d" "\<forall>n\<in>set (wh_nodes w). wn_seq n < s" "d < s" "\<not> sd_empty sd" "\<not> sd_unregister sd"
    "wh_idx_hash w i = Some x" "0 < wi_hdepth (wh_wrinfo w)" "0 < wi_idxdepth (wh_wrinfo w)"
    "\<not> wi_is_transient_local (wh_wrinfo w) \<or> 0 < wi_tldepth (wh_wrinfo w)" "w' = whc_default_insert w d s pl sd i"
  shows "hist_list w' i = Some s # butlast (hist_list w i)" "\<And>j. j \<noteq> i \<Longrightarrow> hist_list w' j = hist_list w j"
    "seqs w' = insert s (seqs w) - {t. last (hist_list w i) = Some t}" "\<exists>y. wh_idx_hash w' i = Some y \<and> in_hist y ! in_headidx y = Some s"
    "\<exists>n\<in>set (wh_nodes w'). wn_seq n = s \<and> wn_serdata n = sd"
proof -
  let ?w = "whc_default_insert_seq w d s pl sd" and ?n = "new_whcn w d s pl sd" and ?d = "wi_idxdepth (wh_wrinfo w)"
  let ?h = "if in_headidx x + 1 = ?d then 0 else in_headidx x + 1" and ?w1 = "put_head i s x ?w"
  define oldn where "oldn = in_hist x ! ?h"
  define g where "g = (\<lambda>m :: whc_node. if wn_seq m = s then m\<lparr>wn_idxnode := Some i, wn_idxnode_pos := ?h\<rparr>
              else if Some (wn_seq m) = oldn then m\<lparr>wn_idxnode := None\<rparr> else m)"
  let ?x = "x\<lparr>in_headidx := ?h, in_hist := (in_hist x)[?h := Some s]\<rparr>"
  have core: "whc_core {} ?w" using core_insert_seq [OF invD(1) [OF assms(1)] assms(3)] .
  have x: "wh_idx_hash ?w i = Some x" "0 < wi_idxdepth (wh_wrinfo ?w)" using assms(7,9) by simp_all
  note p = put_head_core [OF core insert_seq_simps(6) new_whcn_simps(2,1) x refl refl, unfolded insert_seq_simps(1,3,6), folded oldn_def, folded g_def]
  have len: "length (in_hist x) = ?d" "in_headidx x < ?d" "?h < ?d"
    using idx_okD(1,2) [OF coreD(5) [OF invD(1) [OF assms(1)]] assms(7)] assms(9) by auto
  have w': "w' = (case oldn of None \<Rightarrow> ?w1 | Some t \<Rightarrow> whc_delete_seq ?w1 t)"
  proof -
    have "w' = prune_tl d s i (prune_overwritten d oldn ?w1)"
      using assms(5-7,9) by (simp add: assms(11) whc_default_insert_def Let_def oldn_def cong: if_cong)
    also have "\<dots> = prune_overwritten d oldn ?w1" using assms(4) by (simp add: prune_tl_def)
    also have "\<dots> = (case oldn of None \<Rightarrow> ?w1 | Some t \<Rightarrow> whc_delete_seq ?w1 t)"
      using assms(8,10) p(3) by (cases oldn) (auto simp: prune_overwritten_def Let_def)
    finally show ?thesis .
  qed
  have hash: "wh_idx_hash w' = (wh_idx_hash w)(i \<mapsto> ?x)"
  proof (cases oldn)
    case None
    then show ?thesis using w' p(4) by simp
  next
    case (Some t)
    have "hist_at ?w i ?h = Some t" using Some len assms(7) by (simp add: hist_at_def oldn_def)
    then obtain m where m: "m \<in> set (wh_nodes w @ [?n])" "wn_seq m = t" using idx_okD(3) [OF coreD(5) [OF core]] by fastforce
    have "g m = m\<lparr>wn_idxnode := None\<rparr>" using m(2) p(3) Some by (auto simp: g_def)
    then have "m\<lparr>wn_idxnode := None\<rparr> \<in> set (wh_nodes ?w1)" unfolding p(2) using m(1) by (metis image_eqI list.set_map)
    from delete_seq_hash [OF coreD(1) [OF p(1)] this, of t] show ?thesis using w' p(4) m Some by simp
  qed
  have wi: "wh_wrinfo w' = wh_wrinfo w" unfolding assms(11) by (rule insert_wrinfo)
  note rot = hist_rotate(1) [OF len(1,2) refl, of "Some s"] hist_rotate(2) [OF len(1,2) refl]
  show "hist_list w' i = Some s # butlast (hist_list w i)" using rot(1) by (simp add: hist_list_def hash wi assms(7) cong: if_cong)
  show "\<And>j. j \<noteq> i \<Longrightarrow> hist_list w' j = hist_list w j" by (rule hist_list_cong) (simp_all add: hash wi)
  have last: "last (hist_list w i) = oldn" using rot(2) by (simp add: hist_list_def assms(7) oldn_def cong: if_cong)
  have "seqs ?w1 = insert s (seqs w)" unfolding seqs_put_head by (simp add: seqs_def)
  moreover have "seqs (whc_delete_seq v t) = seqs v - {t}" for v t by (auto simp: seqs_def delete_seq_nodes)
  ultimately show "seqs w' = insert s (seqs w) - {t. last (hist_list w i) = Some t}" using w' last by (auto split: option.splits)
  show "\<exists>y. wh_idx_hash w' i = Some y \<and> in_hist y ! in_headidx y = Some s" using len by (simp add: hash)
  have "g ?n \<in> set (wh_nodes ?w1)" unfolding p(2) by simp
  moreover have gn: "wn_seq (g ?n) = s" "wn_serdata (g ?n) = sd" by (simp_all add: g_def)
  ultimately have "g ?n \<in> set (wh_nodes w')" using w' p(3) by (auto simp: delete_seq_nodes split: option.splits)
  then show "\<exists>n\<in>set (wh_nodes w'). wn_seq n = s \<and> wn_serdata n = sd" using gn by blast
qed

section \<open>An example run\<close>

definition some_serdata :: "nat \<Rightarrow> whc_serdata" where
  "some_serdata k = \<lparr>sd_id = k, sd_size = 100, sd_empty = False, sd_unregister = False\<rparr>"

definition run_whc :: "whc_writer_info \<Rightarrow> whc_op list \<Rightarrow> whc" where
  "run_whc wi ops = fold whc_do ops (whc_new 1344 wi)"

definition keep_last :: "nat \<Rightarrow> whc_writer_info" where
  "keep_last k = whc_make_wrinfo False False (DDS_HISTORY_KEEP_LAST k) DDS_HISTORY_KEEP_ALL"

definition keep_all :: whc_writer_info where
  "keep_all = whc_make_wrinfo False False DDS_HISTORY_KEEP_ALL DDS_HISTORY_KEEP_ALL"

definition write_op :: "seqno \<Rightarrow> whc_op" where
  "write_op s = Whc_insert 0 s None (some_serdata s) 7"

lemmas run_defs = run_whc_def keep_last_def keep_all_def write_op_def

text \<open>Reachable if the checks pass along the run.\<close>

fun ops_ok :: "whc_op list \<Rightarrow> whc \<Rightarrow> bool" where
  "ops_ok [] w = True"
| "ops_ok (a # as) w = (whc_op_ok a w \<and> ops_ok as (whc_do a w))"

lemma ops_reachable: "whc_reachable w \<Longrightarrow> ops_ok ops w \<Longrightarrow> whc_reachable (fold whc_do ops w)"
  by (induction ops arbitrary: w) (auto intro: whc_reach_step)

lemma run_keep_last: "whc_reachable (run_whc (keep_last 2) [write_op 1, write_op 2, write_op 3])"
  unfolding run_whc_def keep_last_def by (rule ops_reachable [OF whc_reach_new]) code_simp

lemma run_keep_all: "whc_reachable (run_whc keep_all [write_op 1, write_op 2, write_op 3])"
  unfolding run_whc_def keep_all_def by (rule ops_reachable [OF whc_reach_new]) code_simp

section \<open>The properties\<close>

text \<open>C27: In every run of insertions, acknowledgements, lending, returning, iterating and expiring, in
  any mode of the writer (in the simple mode without expiry and with each insertion right after the last
  number and beyond what is acknowledged), the interval tree has exactly the numbers of the samples, the index and the
  samples point at each other with each history in order, the byte count is that of the unacknowledged
  samples, and the reported state is the least and greatest number and that count.\<close>

theorem whc_run_invariant:
  assumes "whc_reachable w"
  shows "whc_inv w \<and> (whc_simple w \<longrightarrow> simple_ok w) \<and> get_state_locked w =
    (if wh_nodes w = [] then \<lparr>ws_min_seq = 0, ws_max_seq = 0, ws_unacked_bytes = 0\<rparr>
     else \<lparr>ws_min_seq = wn_seq (hd (wh_nodes w)), ws_max_seq = wn_seq (last (wh_nodes w)),
           ws_unacked_bytes = (\<Sum>n\<leftarrow>wh_nodes w. unacked_size n)\<rparr>)"
  using whc_reachable_ok [OF assms] get_state_spec [of w] by (simp add: whc_ok_def)

theorem whc_run_invariant_witness:
  "whc_inv (run_whc (keep_last 2) [write_op 1, write_op 2, write_op 3])"
  using whc_run_invariant [OF run_keep_last] by blast

text \<open>C28: An acknowledgement up to \<open>d\<close>, not below the one before, keeps exactly the samples of \<open>whc_retained\<close>: those beyond \<open>d\<close> as they are,
  and, marked as acknowledged, those in the transient-local history (all, if that is unlimited), and
  those acknowledged before of an instance that has no newly acknowledged sample in that history. What it
  hands over to be freed is what is newly acknowledged and not in the transient-local history; samples
  that pruning an instance takes out are freed on the spot. Only the unacknowledged bytes beyond \<open>d\<close> still
  count. In runs without expiry in the simple mode.\<close>

theorem whc_remove_acked_exact:
  assumes "whc_reachable w" "whc_op_ok (Whc_ack d) w" "whc_default_remove_acked_messages w d = (w', freed, cnt, st)"
  shows "wh_nodes w' = map (ack_le d) (filter (whc_retained w d) (wh_nodes w))
    \<and> freed = (if wi_is_transient_local (wh_wrinfo w) \<and> wi_tldepth (wh_wrinfo w) = 0 then []
        else filter (\<lambda>n. wh_max_drop_seq w < wn_seq n \<and> wn_seq n \<le> d \<and> \<not> in_tl w n) (wh_nodes w))
    \<and> cnt = length freed \<and> wh_unacked_bytes w' = (\<Sum>n\<leftarrow>filter (\<lambda>n. d < wn_seq n) (wh_nodes w). unacked_size n)"
proof -
  note r = remove_acked_spec [OF whc_reachable_ok [OF assms(1)] _ _ _ assms(3)]
  have g: "wh_max_drop_seq w \<le> d" "length (wh_nodes w) < 2 ^ 32" "wh_unacked_bytes w < 2 ^ 64" using assms(2) by simp_all
  note r = r [OF g]
  have "wh_unacked_bytes w' = (\<Sum>n\<leftarrow>wh_nodes w'. unacked_size n)" using r coreD(4) [OF invD(1) [OF whc_okD(1)]] by blast
  also have "\<dots> = (\<Sum>n\<leftarrow>wh_nodes w. if d < wn_seq n then unacked_size n else 0)"
    using r unacked_after [of d w] by simp
  finally show ?thesis using r by (simp add: sum_list_map_filter')
qed

theorem whc_remove_acked_exact_witness:
  "map wn_seq (fst (snd (whc_default_remove_acked_messages (run_whc (keep_last 2) [write_op 1, write_op 2, write_op 3]) 2))) = [2]"
proof -
  let ?w = "run_whc (keep_last 2) [write_op 1, write_op 2, write_op 3]"
  obtain w' f c st where r: "whc_default_remove_acked_messages ?w 2 = (w', f, c, st)" by (metis prod_cases4)
  have "length (wh_nodes ?w) = 2" "wh_unacked_bytes ?w = 360" "wh_max_drop_seq ?w = 0" by code_simp+
  then have ok: "whc_op_ok (Whc_ack 2) ?w" by simp
  have "map wn_seq (filter (\<lambda>n. wh_max_drop_seq ?w < wn_seq n \<and> wn_seq n \<le> 2 \<and> \<not> in_tl ?w n) (wh_nodes ?w)) = [2]"
    "\<not> wi_is_transient_local (wh_wrinfo ?w)" by code_simp+
  then show ?thesis using whc_remove_acked_exact [OF run_keep_last ok r] r by simp
qed

text \<open>C29: For a writer without index, deadline and transient-local durability, in runs without expiry, the shortcut that cuts off a prefix
  of the one interval does the same as the general algorithm: the same samples are freed and counted, the same
  remain, with the same byte count, and the reported state is the same.\<close>

theorem whc_noidx_equals_full:
  assumes "whc_reachable w" "whc_simple w" "whc_op_ok (Whc_ack d) w" "whc_default_remove_acked_messages_noidx w d = (w1, f1, c1)"
    "whc_default_remove_acked_messages_full w d = (w2, f2, c2)"
  shows "f1 = f2 \<and> c1 = c2 \<and> wh_nodes w1 = wh_nodes w2 \<and> wh_unacked_bytes w1 = wh_unacked_bytes w2 \<and> wh_seq_size w1 = wh_seq_size w2
    \<and> wh_maxseq_node w1 = wh_maxseq_node w2 \<and> wh_max_drop_seq w1 = wh_max_drop_seq w2 \<and> get_state_locked w1 = get_state_locked w2"
proof -
  note ok = whc_reachable_ok [OF assms(1)]
  have g: "wh_max_drop_seq w \<le> d" "length (wh_nodes w) < 2 ^ 32" "wh_unacked_bytes w < 2 ^ 64" using assms(3) by simp_all
  note s = simple_cut [OF whc_okD(1) [OF ok] whc_okD(3) [OF ok assms(2)] assms(2) g(1) assms(4) g(2,3)]
  note f = simple_full [OF whc_okD(1) [OF ok] whc_okD(3) [OF ok assms(2)] assms(2) g(1) assms(5)]
  have n: "wh_nodes w1 = wh_nodes w2" using s f(2) by simp
  have "whc_inv w1" "whc_inv w2" using s f(4) by simp_all
  then show ?thesis
    using s f n invD(2,3) coreD(4) [OF invD(1)] get_state_spec by simp
qed

theorem whc_noidx_equals_full_witness:
  "fst (snd (whc_default_remove_acked_messages_noidx (run_whc keep_all [write_op 1, write_op 2, write_op 3]) 2))
   = fst (snd (whc_default_remove_acked_messages_full (run_whc keep_all [write_op 1, write_op 2, write_op 3]) 2))"
proof -
  let ?w = "run_whc keep_all [write_op 1, write_op 2, write_op 3]"
  obtain w1 f1 c1 where r1: "whc_default_remove_acked_messages_noidx ?w 2 = (w1, f1, c1)" by (metis prod_cases3)
  obtain w2 f2 c2 where r2: "whc_default_remove_acked_messages_full ?w 2 = (w2, f2, c2)" by (metis prod_cases3)
  have "length (wh_nodes ?w) = 3" "wh_unacked_bytes ?w = 540" "wh_max_drop_seq ?w = 0" by code_simp+
  then have ok: "whc_op_ok (Whc_ack 2) ?w" by simp
  have "whc_simple ?w" by code_simp
  from whc_noidx_equals_full [OF run_keep_all this ok r1 r2] show ?thesis using r1 r2 by simp
qed

text \<open>C31: Asking for the next sequence number gives the least one above, or \<open>MAX_SEQ_NUMBER\<close>; iterating from the
  start hands out every sample once, in order of sequence number, stops, and leaves no sample lent.\<close>

theorem whc_walks_in_order:
  assumes "whc_reachable w"
  shows "whc_default_next_seq w s = (case filter (\<lambda>n. s < wn_seq n) (wh_nodes w) of [] \<Rightarrow> MAX_SEQ_NUMBER | n # _ \<Rightarrow> wn_seq n)
    \<and> sorted_wrt (<) (map wn_seq (wh_nodes w))
    \<and> ((\<forall>n\<in>set (wh_nodes w). \<not> wn_borrowed n) \<longrightarrow>
        whc_iterate (Suc (length (wh_nodes w))) w None = (map (\<lambda>n. fst (make_borrowed_sample n w)) (wh_nodes w), w))"
proof -
  note ok = whc_reachable_ok [OF assms] note core = invD(1) [OF whc_okD(1) [OF ok]]
  have "whc_default_next_seq w s = (case filter (\<lambda>n. s < wn_seq n) (wh_nodes w) of [] \<Rightarrow> MAX_SEQ_NUMBER | n # _ \<Rightarrow> wn_seq n)"
    by (simp add: whc_default_next_seq_def find_nextseq_spec [OF core] idx_succ_def split: list.split)
  moreover have "sorted_wrt (<) (map wn_seq (wh_nodes w))" using coreD(1) [OF core] by (simp add: idx_wf_def sorted_wrt_map)
  ultimately show ?thesis using iterate_all [OF ok] by blast
qed

theorem whc_walks_in_order_witness:
  "map bs_seq (fst (whc_iterate 3 (run_whc (keep_last 2) [write_op 1, write_op 2, write_op 3]) None)) = [2, 3]"
proof -
  let ?w = "run_whc (keep_last 2) [write_op 1, write_op 2, write_op 3]"
  have n: "length (wh_nodes ?w) = 2" "map wn_seq (wh_nodes ?w) = [2, 3]" "\<forall>n\<in>set (wh_nodes ?w). \<not> wn_borrowed n" by code_simp+
  then have "whc_iterate 3 ?w None = (map (\<lambda>n. fst (make_borrowed_sample n ?w)) (wh_nodes ?w), ?w)"
    using whc_walks_in_order [OF run_keep_last, of 0] by (simp add: eval_nat_numeral)
  then show ?thesis using n(2) by (simp add: make_borrowed_sample_def comp_def)
qed

text \<open>C30: Writing a sample that readers have yet to acknowledge, with a value and not unregistering, to a known instance of a writer with
  a keep-last history and index (and, if transient-local, a keep-last durable history): the new sample
  becomes the first of the history, the others move back one place, the one that falls off is the only sample to leave the cache,
  other instances are untouched, and looking the key up finds the new sample.\<close>

theorem whc_insert_keep_last:
  assumes "whc_reachable w" "whc_op_ok (Whc_insert d s pl sd i) w" "d < s" "\<not> sd_empty sd" "\<not> sd_unregister sd" "wh_idx_hash w i \<noteq> None"
    "0 < wi_hdepth (wh_wrinfo w)" "0 < wi_idxdepth (wh_wrinfo w)" "\<not> wi_is_transient_local (wh_wrinfo w) \<or> 0 < wi_tldepth (wh_wrinfo w)"
    "tkmap_lookup key = i"
  shows "hist_list (whc_default_insert w d s pl sd i) i = Some s # butlast (hist_list w i)
    \<and> (\<forall>j. j = i \<or> hist_list (whc_default_insert w d s pl sd i) j = hist_list w j)
    \<and> seqs (whc_default_insert w d s pl sd i) = insert s (seqs w) - {t. last (hist_list w i) = Some t}
    \<and> (\<exists>n. whc_findkey tkmap_lookup (whc_default_insert w d s pl sd i) key = Some n \<and> wn_seq n = s \<and> wn_serdata n = sd)"
proof -
  let ?w = "whc_default_insert w d s pl sd i"
  note ok = whc_reachable_ok [OF assms(1)]
  obtain x where x: "wh_idx_hash w i = Some x" using assms(6) by blast
  have g: "wh_max_drop_seq w \<le> d" "\<forall>n\<in>set (wh_nodes w). wn_seq n < s" using assms(2) by simp_all
  note k = keep_last_step [OF whc_okD(1) [OF ok] g assms(3-5) x assms(7-9) refl, where pl = pl]
  have wf: "idx_wf wn_seq (wh_nodes ?w)" using coreD(1) [OF invD(1) [OF whc_insert_inv [OF whc_okD(1) [OF ok] g]]] .
  obtain y where y: "wh_idx_hash ?w i = Some y" "in_hist y ! in_headidx y = Some s" using k(4) by blast
  obtain n where n: "n \<in> set (wh_nodes ?w)" "wn_seq n = s" "wn_serdata n = sd" using k(5) by blast
  have "whc_findkey tkmap_lookup ?w key = Some n" using y n findseq_iff [OF wf] assms(10) by (simp add: whc_findkey_def)
  then show ?thesis using k(1-3) n by blast
qed

theorem whc_insert_keep_last_witness:
  "hist_list (whc_default_insert (run_whc (keep_last 2) [write_op 1, write_op 2, write_op 3]) 0 4 None (some_serdata 4) 7) 7 = [Some 4, Some 3]"
proof -
  let ?w = "run_whc (keep_last 2) [write_op 1, write_op 2, write_op 3]"
  have f: "whc_op_ok (Whc_insert 0 4 None (some_serdata 4) 7) ?w" "\<not> sd_empty (some_serdata 4)" "\<not> sd_unregister (some_serdata 4)"
    "wh_idx_hash ?w 7 \<noteq> None" "0 < wi_hdepth (wh_wrinfo ?w)" "0 < wi_idxdepth (wh_wrinfo ?w)" "\<not> wi_is_transient_local (wh_wrinfo ?w)"
    "hist_list ?w 7 = [Some 3, Some 2]" by code_simp+
  then show ?thesis
    using whc_insert_keep_last [OF run_keep_last f(1) _ f(2-6), where tkmap_lookup = "\<lambda>_. 7" and key = "some_serdata 4"] by simp
qed

section \<open>Samples that expire under a writer in the simple mode\<close>

text \<open>The shortcut assumes one interval, but lifespan expiry leaves several (samples that dispose of an instance do not
  expire): when the acknowledged sample is below the open interval, what is freed is the open interval, whose samples
  have not been acknowledged.\<close>

theorem whc_simple_expiry_frees_unacked:
  assumes "whc_inv w" "wh_max_drop_seq w < d" "whc_findseq w d = Some n" "d < fst (open_intv w)" "fst (open_intv w) < snd (open_intv w)"
    "whc_default_remove_acked_messages_noidx w d = (w', freed, cnt)"
  shows "freed = filter (\<lambda>m. fst (open_intv w) \<le> wn_seq m) (wh_nodes w) \<and> freed \<noteq> [] \<and> (\<forall>m\<in>set freed. d < wn_seq m)"
proof -
  note i = invD [OF assms(1)] note c = coreD [OF i(1)]
  have n: "n \<in> set (wh_nodes w)" "wn_seq n = d" using assms(3) findseq_iff [OF c(1)] by auto
  have "open_intv w \<in> set (wh_seq w)" using c(2) by (cases "wh_seq w" rule: rev_cases) (auto simp: open_intv_def)
  then have "fst (open_intv w) \<in> wn_seq ` set (wh_nodes w)" using members_ge [of "open_intv w" "wh_seq w"] assms(5) unfolding c(3) by auto
  then obtain h where h: "h \<in> set (wh_nodes w)" "wn_seq h = fst (open_intv w)" by auto
  let ?f = "filter (\<lambda>m. fst (open_intv w) \<le> wn_seq m) (wh_nodes w)"
  have f: "nodes_from w (whc_findseq w (fst (open_intv w))) = ?f"
  proof -
    have "whc_findseq w (fst (open_intv w)) = Some h" using h findseq_iff [OF c(1)] by simp
    then show ?thesis using h(2) by (simp add: nodes_from_def)
  qed
  have "\<not> (d \<le> wh_max_drop_seq w \<or> wh_maxseq_node w = None)" using assms(2) i(3) n by (cases "wh_nodes w") auto
  then have "freed = list_to n ?f" using assms(3,6) f by (auto simp: whc_default_remove_acked_messages_noidx_def Let_def)
  also have "\<dots> = ?f" using n assms(4) by (simp add: list_to_def)
  finally show ?thesis using h assms(4) by (force simp: filter_empty_conv)
qed

theorem whc_simple_expiry_frees_unacked_witness:
  "map (\<lambda>n. (wn_seq n, wn_unacked n)) (fst (snd (whc_default_remove_acked_messages_noidx
     (whc_sample_expired_cb (run_whc keep_all [write_op 1, write_op 2, write_op 3]) [2]) 1))) = [(3, True)]"
proof -
  let ?w = "whc_sample_expired_cb (run_whc keep_all [write_op 1, write_op 2, write_op 3]) [2]"
  obtain w' f c where r: "whc_default_remove_acked_messages_noidx ?w 1 = (w', f, c)" by (metis prod_cases3)
  have inv: "whc_inv ?w" using expire_inv(1) [OF whc_okD(1) [OF whc_reachable_ok [OF run_keep_all]] refl] .
  have e: "wh_max_drop_seq ?w < 1" "open_intv ?w = (3, 4)" "map wn_seq (wh_nodes ?w) = [1, 3]"
    "map (\<lambda>n. (wn_seq n, wn_unacked n)) (filter (\<lambda>m. 3 \<le> wn_seq m) (wh_nodes ?w)) = [(3, True)]" by code_simp+
  then have "1 \<in> wn_seq ` set (wh_nodes ?w)" by (metis list.set_intros(1) list.set_map)
  then obtain n where n: "n \<in> set (wh_nodes ?w)" "wn_seq n = 1" by auto
  have "whc_findseq ?w 1 = Some n" using n findseq_iff [OF coreD(1) [OF invD(1) [OF inv]]] by simp
  from whc_simple_expiry_frees_unacked [OF inv e(1) this _ _ r] show ?thesis using r e(2,4) by simp
qed

end
