(* ===== verification/Threads.thy ===== *)
theory Threads
  imports Retcode
begin

unbundle bit_operations_syntax

text \<open>
  Thread states (core/ddsi/src/q_thread.c, dds/ddsi/q_thread.h): a slot for every thread that uses
  the stack, with the virtual time the garbage collector watches. The slots stand in batches of
  \<open>THREAD_STATE_BATCH\<close> that are chained and, while the stack runs, never freed; a slot is named by
  the address of its batch and its index there. A failed assertion of the code is \<open>None\<close>.

  Memory is sequentially consistent (the code has its fences). All operations on slots hold the
  lock of \<open>thread_states\<close> and are single steps; the stores to a thread's own \<open>vtime\<close> and \<open>gv\<close>
  are not under a lock, and the two stores of \<open>thread_state_awake\<close> are two steps.
\<close>

section \<open>Virtual time\<close>

type_synonym vtime_t = u32

definition VTIME_NEST_MASK :: u32 where "VTIME_NEST_MASK = 0xf"
definition VTIME_TIME_MASK :: u32 where "VTIME_TIME_MASK = 0xfffffff0"
definition VTIME_TIME_SHIFT :: nat where "VTIME_TIME_SHIFT = 4"

definition vtime_awake_p :: "vtime_t \<Rightarrow> bool" where
  "vtime_awake_p vtime \<longleftrightarrow> vtime AND VTIME_NEST_MASK \<noteq> 0"

definition vtime_asleep_p :: "vtime_t \<Rightarrow> bool" where
  "vtime_asleep_p vtime \<longleftrightarrow> vtime AND VTIME_NEST_MASK = 0"

definition vtime_gt :: "vtime_t \<Rightarrow> vtime_t \<Rightarrow> bool" where
  "vtime_gt vtime1 vtime0 \<longleftrightarrow> 0 < sint ((vtime1 AND VTIME_TIME_MASK) - (vtime0 AND VTIME_TIME_MASK))"

section \<open>The state of one thread\<close>

datatype thread_state_kind = THREAD_STATE_ZERO | THREAD_STATE_STOPPED | THREAD_STATE_INIT
  | THREAD_STATE_LAZILY_CREATED | THREAD_STATE_ALIVE

text \<open>The order of the enumeration, as far as the code uses it: \<open>state > THREAD_STATE_INIT\<close>.\<close>

fun above_INIT :: "thread_state_kind \<Rightarrow> bool" where
  "above_INIT THREAD_STATE_LAZILY_CREATED = True"
| "above_INIT THREAD_STATE_ALIVE = True"
| "above_INIT _ = False"

type_synonym gvid = nat  \<comment> \<open>a domain, \<open>struct ddsi_domaingv *\<close>\<close>
type_synonym tid = nat   \<comment> \<open>an operating system thread, \<open>ddsrt_thread_t\<close>\<close>

record thread_state =
  ts_vtime :: vtime_t
  ts_state :: thread_state_kind
  ts_gv :: "gvid option"
  ts_tid :: tid
  ts_f :: nat
  ts_f_arg :: nat
  ts_name :: string

definition zero_thread_state :: thread_state where
  "zero_thread_state = \<lparr>ts_vtime = 0, ts_state = THREAD_STATE_ZERO, ts_gv = None, ts_tid = 0,
     ts_f = 0, ts_f_arg = 0, ts_name = []\<rparr>"

definition thread_state_asleep :: "thread_state \<Rightarrow> thread_state option" where
  "thread_state_asleep thrst =
    (let vt = ts_vtime thrst in
     if \<not> vtime_awake_p vt then None
     else Some (thrst\<lparr>ts_vtime := (if vt AND VTIME_NEST_MASK = 1
                                  then vt + (push_bit VTIME_TIME_SHIFT 1 - 1) else vt - 1)\<rparr>))"

text \<open>The assertions and the first store of \<open>thread_state_awake\<close>; then its second store.\<close>

definition thread_state_awake_gv :: "thread_state \<Rightarrow> gvid \<Rightarrow> thread_state option" where
  "thread_state_awake_gv thrst gv =
    (if ts_vtime thrst AND VTIME_NEST_MASK < VTIME_NEST_MASK
        \<and> (ts_state thrst \<noteq> THREAD_STATE_ALIVE \<or> Some gv = ts_gv thrst)
     then Some (thrst\<lparr>ts_gv := Some gv\<rparr>) else None)"

definition thread_state_awake_vtime :: "vtime_t \<Rightarrow> thread_state \<Rightarrow> thread_state" where
  "thread_state_awake_vtime vt thrst = thrst\<lparr>ts_vtime := vt + 1\<rparr>"

definition thread_state_awake :: "thread_state \<Rightarrow> gvid \<Rightarrow> thread_state option" where
  "thread_state_awake thrst gv =
    map_option (thread_state_awake_vtime (ts_vtime thrst)) (thread_state_awake_gv thrst gv)"

definition thread_state_awake_domain_ok :: "thread_state \<Rightarrow> thread_state option" where
  "thread_state_awake_domain_ok thrst =
    (let vt = ts_vtime thrst in
     if vt AND VTIME_NEST_MASK < VTIME_NEST_MASK \<and> ts_gv thrst \<noteq> None
     then Some (thrst\<lparr>ts_vtime := vt + 1\<rparr>) else None)"

definition thread_state_awake_fixed_domain :: "thread_state \<Rightarrow> thread_state option" where
  "thread_state_awake_fixed_domain thrst =
    (if ts_state thrst = THREAD_STATE_ALIVE then thread_state_awake_domain_ok thrst else None)"

definition thread_state_awake_to_awake_no_nest :: "thread_state \<Rightarrow> thread_state option" where
  "thread_state_awake_to_awake_no_nest thrst =
    (let vt = ts_vtime thrst in
     if vt AND VTIME_NEST_MASK = 1
     then Some (thrst\<lparr>ts_vtime := vt + push_bit VTIME_TIME_SHIFT 1\<rparr>) else None)"

section \<open>The slots\<close>

type_synonym slot = "nat \<times> nat"

definition THREAD_STATE_BATCH :: nat where "THREAD_STATE_BATCH = 32"

text \<open>
  \<open>thread_states_head\<close> is the chain of batches, the newest first, empty for \<open>NULL\<close>; a pointer into
  the chain is a suffix of it. \<open>nthreads\<close> is the field of each batch. \<open>next_addr\<close> is the address the
  allocator hands out next: none that is in use or has been. \<open>tsd_thread_state\<close> is thread-local.
\<close>

record thread_states =
  thrst :: "slot \<Rightarrow> thread_state"
  thread_states_head :: "nat list"
  nthreads :: "nat \<Rightarrow> u32"
  next_addr :: nat
  tsd_thread_state :: "tid \<Rightarrow> slot option"

text \<open>The order in which the loops over batches and their slots visit the slots.\<close>

definition slots_of :: "nat list \<Rightarrow> slot list" where
  "slots_of chain = concat (map (\<lambda>b. map (Pair b) [0..<THREAD_STATE_BATCH]) chain)"

definition upd_thrst :: "slot \<Rightarrow> (thread_state \<Rightarrow> thread_state) \<Rightarrow> 'a thread_states_scheme \<Rightarrow> 'a thread_states_scheme" where
  "upd_thrst s f w = w\<lparr>thrst := (thrst w)(s := f (thrst w s))\<rparr>"

text \<open>
  The address of the block in the memory that \<open>ddsrt_malloc\<close> returned, and where the pointer for
  \<open>ddsrt_free_aligned\<close> is kept (addresses of 8 bytes).
\<close>

definition CACHE_LINE_SIZE :: u64 where "CACHE_LINE_SIZE = 64"

definition ddsrt_malloc_aligned_cacheline :: "u64 \<Rightarrow> u64 \<times> u64" where
  "ddsrt_malloc_aligned_cacheline ptr =
    (let clm1 = CACHE_LINE_SIZE - 1;
         ptrA = (ptr + 8 + clm1) AND NOT clm1
     in (ptrA, ptrA - 8))"

definition new_batch :: "u32 \<Rightarrow> 'a thread_states_scheme \<Rightarrow> 'a thread_states_scheme" where
  "new_batch n w =
    (let x = next_addr w in
     w\<lparr>thrst := (\<lambda>s. if fst s = x then zero_thread_state else thrst w s),
       nthreads := (nthreads w)(x := n), next_addr := Suc x,
       thread_states_head := x # thread_states_head w\<rparr>)"

definition grow_thread_states :: "'a thread_states_scheme \<Rightarrow> 'a thread_states_scheme \<times> slot" where
  "grow_thread_states w =
    (new_batch (of_nat THREAD_STATE_BATCH + nthreads w (hd (thread_states_head w))) w, (next_addr w, 0))"

definition get_available_thread_slot :: "'a thread_states_scheme \<Rightarrow> 'a thread_states_scheme \<times> slot" where
  "get_available_thread_slot w =
    (case filter (\<lambda>s. ts_state (thrst w s) = THREAD_STATE_ZERO) (slots_of (thread_states_head w)) of
       s # _ \<Rightarrow> (w, s)
     | [] \<Rightarrow> grow_thread_states w)"

definition init_thread_state ::
    "string \<Rightarrow> gvid option \<Rightarrow> thread_state_kind \<Rightarrow> 'a thread_states_scheme \<Rightarrow> ('a thread_states_scheme \<times> slot) option" where
  "init_thread_state tname gv state w =
    (let (w, s) = get_available_thread_slot w in
     if vtime_asleep_p (ts_vtime (thrst w s))
     then Some (upd_thrst s (\<lambda>x. x\<lparr>ts_gv := gv, ts_name := take 23 tname, ts_state := state\<rparr>) w, s)
     else None)"

definition reap_thread_state :: "slot \<Rightarrow> 'a thread_states_scheme \<Rightarrow> 'a thread_states_scheme option" where
  "reap_thread_state s w =
    (case ts_state (thrst w s) of
       THREAD_STATE_ZERO \<Rightarrow> None
     | THREAD_STATE_ALIVE \<Rightarrow> None
     | _ \<Rightarrow> Some (upd_thrst s (\<lambda>x. x\<lparr>ts_state := THREAD_STATE_ZERO\<rparr>) w))"

definition find_thread_state :: "tid \<Rightarrow> 'a thread_states_scheme \<Rightarrow> slot option" where
  "find_thread_state t w =
    first_opt (filter (\<lambda>s. above_INIT (ts_state (thrst w s)) \<and> ts_tid (thrst w s) = t)
      (slots_of (thread_states_head w)))"

section \<open>Application threads\<close>

text \<open>\<open>name\<close> is what \<open>ddsrt_thread_getname\<close> returns.\<close>

definition lazy_create_thread_state ::
    "tid \<Rightarrow> string \<Rightarrow> 'a thread_states_scheme \<Rightarrow> ('a thread_states_scheme \<times> slot) option" where
  "lazy_create_thread_state self name w =
    (case init_thread_state name None THREAD_STATE_LAZILY_CREATED w of
       None \<Rightarrow> None
     | Some (w, s) \<Rightarrow> Some (upd_thrst s (\<lambda>x. x\<lparr>ts_tid := self\<rparr>) w, s))"

definition lookup_thread_state_real ::
    "tid \<Rightarrow> string \<Rightarrow> 'a thread_states_scheme \<Rightarrow> ('a thread_states_scheme \<times> slot) option" where
  "lookup_thread_state_real self name w =
    (case tsd_thread_state w self of
       Some s \<Rightarrow> Some (w, s)
     | None \<Rightarrow>
         (case (case find_thread_state self w of
                  Some s \<Rightarrow> Some (w, s)
                | None \<Rightarrow> lazy_create_thread_state self name w) of
            None \<Rightarrow> None
          | Some (w, s) \<Rightarrow>
              Some (w\<lparr>tsd_thread_state := (tsd_thread_state w)(self := Some s)\<rparr>, s)))"

definition lookup_thread_state ::
    "tid \<Rightarrow> string \<Rightarrow> 'a thread_states_scheme \<Rightarrow> ('a thread_states_scheme \<times> slot) option" where
  "lookup_thread_state self name w =
    (case tsd_thread_state w self of Some s \<Rightarrow> Some (w, s) | None \<Rightarrow> lookup_thread_state_real self name w)"

text \<open>\<open>cleanup_thread_state\<close> runs when an application thread ends; its slot may be gone already.\<close>

definition cleanup_thread_state :: "tid \<Rightarrow> 'a thread_states_scheme \<Rightarrow> 'a thread_states_scheme option" where
  "cleanup_thread_state self w =
    (case find_thread_state self w of
       None \<Rightarrow> Some w
     | Some s \<Rightarrow>
         if ts_state (thrst w s) = THREAD_STATE_LAZILY_CREATED \<and> vtime_asleep_p (ts_vtime (thrst w s))
         then reap_thread_state s w else None)"

definition thread_states_init :: "tid \<Rightarrow> string \<Rightarrow> 'a thread_states_scheme \<Rightarrow> 'a thread_states_scheme option" where
  "thread_states_init self name w =
    (let w = (if thread_states_head w = [] then new_batch (of_nat THREAD_STATE_BATCH) w else w) in
     case lookup_thread_state_real self name w of
       None \<Rightarrow> None
     | Some (w', s) \<Rightarrow>
         if tsd_thread_state w self \<in> {None, Some s} then Some w' else None)"

text \<open>\<open>True\<close>: all memory has been released; \<open>False\<close>: other threads still hold slots.\<close>

definition thread_states_fini ::
    "tid \<Rightarrow> string \<Rightarrow> 'a thread_states_scheme \<Rightarrow> ('a thread_states_scheme \<times> bool) option" where
  "thread_states_fini self name w =
    (case lookup_thread_state self name w of
       None \<Rightarrow> None
     | Some (w, s) \<Rightarrow>
         if \<not> vtime_asleep_p (ts_vtime (thrst w s)) then None
         else case reap_thread_state s w of
           None \<Rightarrow> None
         | Some w \<Rightarrow>
             (let w = w\<lparr>tsd_thread_state := (tsd_thread_state w)(self := None)\<rparr>;
                  kinds = map (\<lambda>s. ts_state (thrst w s)) (slots_of (thread_states_head w));
                  others = length (filter ((=) THREAD_STATE_LAZILY_CREATED) kinds)
              in if THREAD_STATE_STOPPED \<in> set kinds \<or> THREAD_STATE_INIT \<in> set kinds
                    \<or> THREAD_STATE_ALIVE \<in> set kinds then None
                 else if others = 0 then Some (w\<lparr>thread_states_head := []\<rparr>, True)
                 else Some (w, False)))"

section \<open>Threads of the stack\<close>

text \<open>
  \<open>create_thread_int\<close> with the thread id that \<open>ddsrt_thread_create\<close> stores, \<open>None\<close> if it failed: then,
  as after every failed assertion, the process is aborted.
\<close>

definition create_thread_int ::
    "gvid option \<Rightarrow> string \<Rightarrow> nat \<Rightarrow> nat \<Rightarrow> tid option \<Rightarrow> 'a thread_states_scheme \<Rightarrow> ('a thread_states_scheme \<times> slot) option" where
  "create_thread_int gv name f arg created w =
    (case init_thread_state name gv THREAD_STATE_INIT w of
       None \<Rightarrow> None
     | Some (w, s) \<Rightarrow>
         (let w = upd_thrst s (\<lambda>x. x\<lparr>ts_f := f, ts_f_arg := arg\<rparr>) w in
          case created of
            None \<Rightarrow> None
          | Some t \<Rightarrow> Some (upd_thrst s (\<lambda>x. x\<lparr>ts_tid := t\<rparr>) w, s)))"

text \<open>The settings for threads in the configuration, by name; the first entry counts.\<close>

fun lookup_thread_properties :: "string \<Rightarrow> (string \<times> 'p) list \<Rightarrow> (string \<times> 'p) option" where
  "lookup_thread_properties name [] = None"
| "lookup_thread_properties name (e # es) =
    (if fst e = name then Some e else lookup_thread_properties name es)"

text \<open>\<open>create_thread_wrapper\<close> before and after it calls the thread's function.\<close>

definition create_thread_wrapper_start :: "tid \<Rightarrow> slot \<Rightarrow> 'a thread_states_scheme \<Rightarrow> 'a thread_states_scheme option" where
  "create_thread_wrapper_start self s w =
    (if ts_state (thrst w s) = THREAD_STATE_INIT
     then Some (upd_thrst s (\<lambda>x. x\<lparr>ts_state := THREAD_STATE_ALIVE\<rparr>)
                  (w\<lparr>tsd_thread_state := (tsd_thread_state w)(self := Some s)\<rparr>))
     else None)"

definition create_thread_wrapper_stop :: "tid \<Rightarrow> slot \<Rightarrow> 'a thread_states_scheme \<Rightarrow> 'a thread_states_scheme" where
  "create_thread_wrapper_stop self s w =
    (upd_thrst s (\<lambda>x. x\<lparr>ts_state := THREAD_STATE_STOPPED\<rparr>) w)
      \<lparr>tsd_thread_state := (tsd_thread_state w)(self := None)\<rparr>"

text \<open>\<open>join_thread\<close> before it waits for the thread, and once the thread has ended.\<close>

definition join_thread_check :: "slot \<Rightarrow> 'a thread_states_scheme \<Rightarrow> bool" where
  "join_thread_check s w \<longleftrightarrow>
    ts_state (thrst w s) \<in> {THREAD_STATE_INIT, THREAD_STATE_STOPPED, THREAD_STATE_ALIVE}"

definition join_thread_ended :: "slot \<Rightarrow> 'a thread_states_scheme \<Rightarrow> 'a thread_states_scheme option" where
  "join_thread_ended s w =
    (if vtime_asleep_p (ts_vtime (thrst w s)) then reap_thread_state s w else None)"

text \<open>The threads \<open>log_stack_traces\<close> asks for their stack.\<close>

definition log_stack_traces :: "gvid option \<Rightarrow> 'a thread_states_scheme \<Rightarrow> (string \<times> tid) list" where
  "log_stack_traces gv w =
    map (\<lambda>s. (ts_name (thrst w s), ts_tid (thrst w s)))
      (filter (\<lambda>s. above_INIT (ts_state (thrst w s)) \<and> (gv = None \<or> ts_gv (thrst w s) = gv))
        (slots_of (thread_states_head w)))"

section \<open>Interleavings\<close>

text \<open>
  What each operating system thread is doing: an application thread, a thread made by
  \<open>create_thread\<close> that has not started, runs or has ended, or none with this id. \<open>in_awake\<close> is the
  local variable \<open>vt\<close> of a thread between the two stores of \<open>thread_state_awake\<close>. \<open>epoch\<close> counts for
  each slot how often its thread has gone to sleep or passed through \<open>awake_to_awake\<close>: it is not in
  the code, it is what \<open>vtime\<close> is meant to show.
\<close>

datatype os_thread = NoThread | AppThread | Created slot | Running slot | Ended slot

record thread_world = thread_states +
  os :: "tid \<Rightarrow> os_thread"
  in_awake :: "tid \<Rightarrow> vtime_t option"
  epoch :: "slot \<Rightarrow> nat"

definition thread_world0 :: thread_world where
  "thread_world0 = \<lparr>thrst = (\<lambda>_. zero_thread_state), thread_states_head = [], nthreads = (\<lambda>_. 0),
     next_addr = 0, tsd_thread_state = (\<lambda>_. None), os = (\<lambda>_. NoThread), in_awake = (\<lambda>_. None),
     epoch = (\<lambda>_. 0)\<rparr>"

datatype thr_act = App_start tid | Init tid string | Lookup tid string
  | Create tid "gvid option" string nat nat | Wrapper_start tid | Wrapper_stop tid | Join tid
  | App_exit tid | Fini tid string | Awake1 tid gvid | Awake2 tid | Awake_domain_ok tid | Asleep tid
  | Awake_to_awake tid

definition set_thr :: "slot \<Rightarrow> thread_state \<Rightarrow> thread_world \<Rightarrow> thread_world" where
  "set_thr s x w = upd_thrst s (\<lambda>_. x) w"

definition bump :: "slot \<Rightarrow> thread_world \<Rightarrow> thread_world" where
  "bump s w = w\<lparr>epoch := (epoch w)(s := Suc (epoch w s))\<rparr>"

text \<open>A thread that takes part acts through its slot, and not between the stores of \<open>awake\<close>.\<close>

definition can_act :: "tid \<Rightarrow> thread_world \<Rightarrow> bool" where
  "can_act u w \<longleftrightarrow> in_awake w u = None \<and> (case os w u of AppThread \<Rightarrow> True | Running _ \<Rightarrow> True | _ \<Rightarrow> False)"

fun thr_exec :: "thr_act \<Rightarrow> thread_world \<Rightarrow> thread_world option" where
  "thr_exec (App_start u) w = (if os w u = NoThread then Some (w\<lparr>os := (os w)(u := AppThread)\<rparr>) else None)"
| "thr_exec (Init u name) w =
    (if os w u = AppThread \<and> can_act u w then thread_states_init u name w else None)"
| "thr_exec (Lookup u name) w =
    (if can_act u w \<and> thread_states_head w \<noteq> [] then map_option fst (lookup_thread_state u name w) else None)"
| "thr_exec (Create v gv name f arg) w =
    (if os w v = NoThread \<and> thread_states_head w \<noteq> []
     then map_option (\<lambda>(w', s). w'\<lparr>os := (os w)(v := Created s)\<rparr>) (create_thread_int gv name f arg (Some v) w)
     else None)"
| "thr_exec (Wrapper_start v) w =
    (case os w v of
       Created s \<Rightarrow> map_option (\<lambda>w'. w'\<lparr>os := (os w)(v := Running s)\<rparr>) (create_thread_wrapper_start v s w)
     | _ \<Rightarrow> None)"
| "thr_exec (Wrapper_stop v) w =
    (case os w v of
       Running s \<Rightarrow> (if in_awake w v = None \<and> vtime_asleep_p (ts_vtime (thrst w s))
                     then Some ((create_thread_wrapper_stop v s w)\<lparr>os := (os w)(v := Ended s)\<rparr>) else None)
     | _ \<Rightarrow> None)"
| "thr_exec (Join v) w =
    (case os w v of
       Ended s \<Rightarrow> (if join_thread_check s w
                   then map_option (\<lambda>w'. w'\<lparr>os := (os w)(v := NoThread)\<rparr>) (join_thread_ended s w) else None)
     | _ \<Rightarrow> None)"
| "thr_exec (App_exit u) w =
    (if os w u = AppThread \<and> in_awake w u = None
     then map_option (\<lambda>w'. w'\<lparr>os := (os w)(u := NoThread), tsd_thread_state := (tsd_thread_state w)(u := None)\<rparr>)
            (cleanup_thread_state u w)
     else None)"
| "thr_exec (Fini u name) w =
    (if os w u = AppThread \<and> in_awake w u = None \<and> thread_states_head w \<noteq> []
     then map_option fst (thread_states_fini u name w) else None)"
| "thr_exec (Awake1 u gv) w =
    (case tsd_thread_state w u of
       Some s \<Rightarrow> (if can_act u w
                  then map_option (\<lambda>x. (set_thr s x w)\<lparr>in_awake := (in_awake w)(u := Some (ts_vtime (thrst w s)))\<rparr>)
                         (thread_state_awake_gv (thrst w s) gv)
                  else None)
     | None \<Rightarrow> None)"
| "thr_exec (Awake2 u) w =
    (case (tsd_thread_state w u, in_awake w u) of
       (Some s, Some vt) \<Rightarrow>
          Some ((set_thr s (thread_state_awake_vtime vt (thrst w s)) w)\<lparr>in_awake := (in_awake w)(u := None)\<rparr>)
     | _ \<Rightarrow> None)"
| "thr_exec (Awake_domain_ok u) w =
    (case tsd_thread_state w u of
       Some s \<Rightarrow> (if can_act u w then map_option (\<lambda>x. set_thr s x w) (thread_state_awake_domain_ok (thrst w s))
                  else None)
     | None \<Rightarrow> None)"
| "thr_exec (Asleep u) w =
    (case tsd_thread_state w u of
       Some s \<Rightarrow>
         (if can_act u w
          then map_option (\<lambda>x. (if vtime_asleep_p (ts_vtime x) then bump s else id) (set_thr s x w))
                 (thread_state_asleep (thrst w s))
          else None)
     | None \<Rightarrow> None)"
| "thr_exec (Awake_to_awake u) w =
    (case tsd_thread_state w u of
       Some s \<Rightarrow> (if can_act u w
                  then map_option (\<lambda>x. bump s (set_thr s x w)) (thread_state_awake_to_awake_no_nest (thrst w s))
                  else None)
     | None \<Rightarrow> None)"

fun thr_run :: "thr_act list \<Rightarrow> thread_world \<Rightarrow> thread_world option" where
  "thr_run [] w = Some w"
| "thr_run (a # as) w = (case thr_exec a w of None \<Rightarrow> None | Some w' \<Rightarrow> thr_run as w')"

end
