(* ===== verification/Gc.thy ===== *)
theory Gc
  imports Threads
begin

text \<open>
  The garbage collector of core/ddsi/src/q_gc.c: a request to free something is carried out only once
  every thread that was awake in the domain when the request was made has been asleep, or has passed
  through \<open>awake_to_awake\<close>, since. The collector reads the virtual times and domains of the other
  threads without a lock, while these change them. Hence the memory is given as a function of time:
  in \<open>\<sigma> n\<close> the \<open>n\<close>-th load of a loop finds what any number of steps of the other threads since the
  load before have left, and an operation that starts at time \<open>t\<close> also returns when it ended.
\<close>

section \<open>Waiting for threads\<close>

type_synonym memory = "nat \<Rightarrow> thread_world"

record idx_vtime =
  iv_thrst :: slot
  iv_vtime :: vtime_t

fun gather_loop :: "gvid \<Rightarrow> memory \<Rightarrow> nat \<Rightarrow> slot list \<Rightarrow> idx_vtime list \<times> nat" where
  "gather_loop gv \<sigma> t [] = ([], t)"
| "gather_loop gv \<sigma> t (s # ss) =
    (let vtime = ts_vtime (thrst (\<sigma> t) s) in
     if vtime_awake_p vtime
     then if Some gv = ts_gv (thrst (\<sigma> (t + 1)) s)
          then (case gather_loop gv \<sigma> (t + 2) ss of (ivs, t') \<Rightarrow> (\<lparr>iv_thrst = s, iv_vtime = vtime\<rparr> # ivs, t'))
          else gather_loop gv \<sigma> (t + 2) ss
     else gather_loop gv \<sigma> (t + 1) ss)"

definition threads_vtime_gather_for_wait :: "gvid \<Rightarrow> memory \<Rightarrow> nat \<Rightarrow> nat list \<Rightarrow> idx_vtime list \<times> nat" where
  "threads_vtime_gather_for_wait gv \<sigma> t cur = gather_loop gv \<sigma> t (slots_of cur)"

text \<open>The removal of entry \<open>i\<close> of the first \<open>nivs\<close> of the array.\<close>

definition drop_iv :: "nat \<Rightarrow> nat \<Rightarrow> idx_vtime list \<Rightarrow> idx_vtime list" where
  "drop_iv i nivs ivs = (if i + 1 < nivs then ivs[i := ivs ! (nivs - 1)] else ivs)"

function vtime_check_loop :: "gvid \<Rightarrow> memory \<Rightarrow> nat \<Rightarrow> nat \<Rightarrow> nat \<Rightarrow> idx_vtime list \<Rightarrow> nat \<times> idx_vtime list \<times> nat" where
  "vtime_check_loop gv \<sigma> t i nivs ivs =
    (if i < nivs then
       let s = iv_thrst (ivs ! i); vtime = ts_vtime (thrst (\<sigma> t) s) in
       if \<not> vtime_gt vtime (iv_vtime (ivs ! i))
       then if ts_gv (thrst (\<sigma> (t + 1)) s) = Some gv
            then vtime_check_loop gv \<sigma> (t + 2) (i + 1) nivs ivs
            else vtime_check_loop gv \<sigma> (t + 2) i (nivs - 1) (drop_iv i nivs ivs)
       else vtime_check_loop gv \<sigma> (t + 1) i (nivs - 1) (drop_iv i nivs ivs)
     else (nivs, ivs, t))"
  by pat_completeness auto
termination by (relation "measure (\<lambda>(gv, \<sigma>, t, i, nivs, ivs). nivs - i)") auto

definition threads_vtime_check ::
    "gvid \<Rightarrow> memory \<Rightarrow> nat \<Rightarrow> nat \<Rightarrow> idx_vtime list \<Rightarrow> bool \<times> nat \<times> idx_vtime list \<times> nat" where
  "threads_vtime_check gv \<sigma> t nivs ivs =
    (case vtime_check_loop gv \<sigma> t 0 nivs ivs of (nivs', ivs', t') \<Rightarrow> (nivs' = 0, nivs', ivs', t'))"

section \<open>Requests and their queue\<close>

text \<open>A request is named by its address; the callback is a number that its owner gives a meaning to.\<close>

record gcreq =
  gcr_next :: "nat option"
  gcr_cb :: nat
  gcr_nvtimes :: nat
  gcr_vtimes :: "idx_vtime list"

record gcreq_queue =
  gq_first :: "nat option"
  gq_last :: "nat option"
  gq_terminate :: bool
  gq_count :: int
  gq_reqs :: "nat \<Rightarrow> gcreq"

definition gcreq_queue_new :: gcreq_queue where
  "gcreq_queue_new = \<lparr>gq_first = None, gq_last = None, gq_terminate = False, gq_count = 0,
     gq_reqs = (\<lambda>_. \<lparr>gcr_next = None, gcr_cb = 0, gcr_nvtimes = 0, gcr_vtimes = []\<rparr>)\<rparr>"

definition upd_req :: "nat \<Rightarrow> (gcreq \<Rightarrow> gcreq) \<Rightarrow> gcreq_queue \<Rightarrow> gcreq_queue" where
  "upd_req r f q = q\<lparr>gq_reqs := (gq_reqs q)(r := f (gq_reqs q r))\<rparr>"

text \<open>\<open>r\<close> is the address \<open>ddsrt_malloc\<close> returns.\<close>

definition gcreq_new :: "gvid \<Rightarrow> memory \<Rightarrow> nat \<Rightarrow> nat \<Rightarrow> nat \<Rightarrow> gcreq_queue \<Rightarrow> gcreq_queue \<times> nat" where
  "gcreq_new gv \<sigma> t r cb q =
    (let tslist = thread_states_head (\<sigma> t);
         (ivs, t') = threads_vtime_gather_for_wait gv \<sigma> (t + 1) tslist;
         q = upd_req r (\<lambda>x. x\<lparr>gcr_cb := cb, gcr_nvtimes := length ivs, gcr_vtimes := ivs\<rparr>) q
     in (q\<lparr>gq_count := gq_count q + 1\<rparr>, t'))"

text \<open>The boolean says whether the condition variable is signalled.\<close>

definition gcreq_free :: "nat \<Rightarrow> gcreq_queue \<Rightarrow> gcreq_queue \<times> bool" where
  "gcreq_free r q = (let q = q\<lparr>gq_count := gq_count q - 1\<rparr> in (q, gq_count q \<le> 1))"

definition gcreq_enqueue_common :: "nat \<Rightarrow> gcreq_queue \<Rightarrow> gcreq_queue \<times> bool" where
  "gcreq_enqueue_common r q =
    (let q = upd_req r (\<lambda>x. x\<lparr>gcr_next := None\<rparr>) q;
         (q, isfirst) = (case gq_first q of
            Some _ \<Rightarrow> (upd_req (the (gq_last q)) (\<lambda>x. x\<lparr>gcr_next := Some r\<rparr>) q, False)
          | None \<Rightarrow> (q\<lparr>gq_first := Some r\<rparr>, True))
     in (q\<lparr>gq_last := Some r\<rparr>, isfirst))"

definition gcreq_enqueue :: "nat \<Rightarrow> gcreq_queue \<Rightarrow> gcreq_queue \<times> bool" where
  "gcreq_enqueue r q = gcreq_enqueue_common r q"

definition gcreq_requeue :: "nat \<Rightarrow> nat \<Rightarrow> gcreq_queue \<Rightarrow> gcreq_queue \<times> bool" where
  "gcreq_requeue r cb q = gcreq_enqueue_common r (upd_req r (\<lambda>x. x\<lparr>gcr_cb := cb\<rparr>) q)"

section \<open>The thread\<close>

text \<open>
  The parts of a round of \<open>gcreq_queue_thread\<close>: the loop condition; taking a request off the queue
  while holding the lock; looking at the request in hand after the lock has been released (\<open>True\<close>: the
  callback is to be called). The lease check in between belongs to another component.
\<close>

definition gc_loop_ends :: "gcreq_queue \<Rightarrow> bool" where
  "gc_loop_ends q \<longleftrightarrow> gq_terminate q \<and> gq_count q = 0"

definition gc_take :: "nat option \<Rightarrow> gcreq_queue \<Rightarrow> nat option \<times> gcreq_queue" where
  "gc_take gcreq q =
    (case (gcreq, gq_first q) of
       (None, Some r) \<Rightarrow> (Some r, q\<lparr>gq_first := gcr_next (gq_reqs q r)\<rparr>)
     | _ \<Rightarrow> (gcreq, q))"

definition gc_check :: "gvid \<Rightarrow> memory \<Rightarrow> nat \<Rightarrow> nat \<Rightarrow> gcreq_queue \<Rightarrow> bool \<times> gcreq_queue \<times> nat" where
  "gc_check gv \<sigma> t r q =
    (case threads_vtime_check gv \<sigma> t (gcr_nvtimes (gq_reqs q r)) (gcr_vtimes (gq_reqs q r)) of
       (done, n, ivs, t') \<Rightarrow> (done, upd_req r (\<lambda>x. x\<lparr>gcr_nvtimes := n, gcr_vtimes := ivs\<rparr>) q, t'))"

text \<open>
  The condition \<open>gcreq_queue_drain\<close> waits for. \<open>gcreq_queue_free\<close> first makes a request that waits for
  nothing and announces the end; then it waits until that request is the only one, and enqueues it.
\<close>

definition gcreq_queue_drain :: "gcreq_queue \<Rightarrow> bool" where
  "gcreq_queue_drain q \<longleftrightarrow> gq_count q = 0"

definition gcreq_queue_free_announce :: "nat \<Rightarrow> gcreq_queue \<Rightarrow> gcreq_queue" where
  "gcreq_queue_free_announce r q = (upd_req r (\<lambda>x. x\<lparr>gcr_nvtimes := 0\<rparr>) q)\<lparr>gq_terminate := True\<rparr>"

definition gcreq_queue_free_ready :: "gcreq_queue \<Rightarrow> bool" where
  "gcreq_queue_free_ready q \<longleftrightarrow> gq_count q = 1"

section \<open>Interleavings\<close>

text \<open>
  All threads that make requests, and the garbage collection thread. \<open>gw_place\<close> says who has a request,
  so that a request is enqueued once by whoever made it; \<open>gw_born\<close> when its making began (\<open>None\<close> for the
  one that waits for nothing); \<open>gw_enq\<close> lists what was enqueued, \<open>gw_calls\<close> the callbacks called,
  with the end of the check before. \<open>gw_signal\<close>: the last step signalled the condition variable.
\<close>

datatype gc_place = Unused | Owned | Queued | In_hand | In_callback

datatype gc_pc = GC_top | GC_checking | GC_callback nat | GC_ended

record gc_world =
  gw_q :: gcreq_queue
  gw_pc :: gc_pc
  gw_gcreq :: "nat option"
  gw_now :: nat
  gw_place :: "nat \<Rightarrow> gc_place"
  gw_born :: "nat \<Rightarrow> nat option"
  gw_enq :: "nat list"
  gw_calls :: "(nat \<times> nat option \<times> nat \<times> nat) list"
  gw_signal :: bool

definition gc_world0 :: gc_world where
  "gc_world0 = \<lparr>gw_q = gcreq_queue_new, gw_pc = GC_top, gw_gcreq = None, gw_now = 0, gw_place = (\<lambda>_. Unused),
     gw_born = (\<lambda>_. None), gw_enq = [], gw_calls = [], gw_signal = False\<rparr>"

datatype gc_act = G_new nat nat nat nat | G_enqueue nat | G_announce nat | G_top | G_check nat
  | G_callback_free | G_callback_requeue nat

text \<open>
  \<open>G_new r cb t n\<close>: a thread makes a request from time \<open>t\<close> on and counts it at time \<open>n\<close>.
  \<open>G_announce r\<close>, \<open>G_enqueue r\<close>: \<open>gcreq_queue_free\<close> with its request \<open>r\<close>; the request then waits for the
  others to be gone, as every request may that is enqueued when only one exists.
\<close>

fun gc_exec :: "gvid \<Rightarrow> memory \<Rightarrow> gc_act \<Rightarrow> gc_world \<Rightarrow> gc_world option" where
  "gc_exec gv \<sigma> (G_new r cb t n) g =
    (case gcreq_new gv \<sigma> t r cb (gw_q g) of (q, t') \<Rightarrow>
       if gw_place g r = Unused \<and> gw_now g \<le> n \<and> t' \<le> n
       then Some (g\<lparr>gw_q := q, gw_now := n, gw_place := (gw_place g)(r := Owned),
                    gw_born := (gw_born g)(r := Some t), gw_signal := False\<rparr>)
       else None)"
| "gc_exec gv \<sigma> (G_enqueue r) g =
    (if gw_place g r = Owned \<and> (gq_terminate (gw_q g) \<and> gw_born g r = None \<longrightarrow> gcreq_queue_free_ready (gw_q g))
     then case gcreq_enqueue r (gw_q g) of (q, first) \<Rightarrow>
            Some (g\<lparr>gw_q := q, gw_place := (gw_place g)(r := Queued), gw_enq := gw_enq g @ [r], gw_signal := first\<rparr>)
     else None)"
| "gc_exec gv \<sigma> (G_announce r) g =
    (if gw_place g r = Owned \<and> \<not> gq_terminate (gw_q g)
     then Some (g\<lparr>gw_q := gcreq_queue_free_announce r (gw_q g), gw_born := (gw_born g)(r := None), gw_signal := False\<rparr>)
     else None)"
| "gc_exec gv \<sigma> G_top g =
    (if gw_pc g = GC_top
     then if gc_loop_ends (gw_q g) then Some (g\<lparr>gw_pc := GC_ended, gw_signal := False\<rparr>)
          else case gc_take (gw_gcreq g) (gw_q g) of (x, q) \<Rightarrow>
            Some (g\<lparr>gw_q := q, gw_gcreq := x, gw_pc := GC_checking, gw_signal := False,
                    gw_place := (case x of None \<Rightarrow> gw_place g | Some r \<Rightarrow> (gw_place g)(r := In_hand))\<rparr>)
     else None)"
| "gc_exec gv \<sigma> (G_check t) g =
    (if gw_pc g = GC_checking \<and> gw_now g \<le> t
     then case gw_gcreq g of
            None \<Rightarrow> Some (g\<lparr>gw_pc := GC_top, gw_now := t, gw_signal := False\<rparr>)
          | Some r \<Rightarrow>
              (case gc_check gv \<sigma> t r (gw_q g) of (ready, q, t') \<Rightarrow>
                 if ready
                 then Some (g\<lparr>gw_q := q, gw_now := t', gw_pc := GC_callback r, gw_signal := False,
                              gw_place := (gw_place g)(r := In_callback),
                              gw_calls := gw_calls g @ [(r, gw_born g r, gcr_cb (gq_reqs q r), t')]\<rparr>)
                 else Some (g\<lparr>gw_q := q, gw_now := t', gw_pc := GC_top, gw_signal := False\<rparr>))
     else None)"
| "gc_exec gv \<sigma> G_callback_free g =
    (case gw_pc g of
       GC_callback r \<Rightarrow> (case gcreq_free r (gw_q g) of (q, sig) \<Rightarrow>
         Some (g\<lparr>gw_q := q, gw_place := (gw_place g)(r := Unused), gw_gcreq := None, gw_pc := GC_top, gw_signal := sig\<rparr>))
     | _ \<Rightarrow> None)"
| "gc_exec gv \<sigma> (G_callback_requeue cb) g =
    (case gw_pc g of
       GC_callback r \<Rightarrow> (case gcreq_requeue r cb (gw_q g) of (q, first) \<Rightarrow>
         Some (g\<lparr>gw_q := q, gw_place := (gw_place g)(r := Queued), gw_enq := gw_enq g @ [r], gw_gcreq := None,
                 gw_pc := GC_top, gw_signal := first\<rparr>))
     | _ \<Rightarrow> None)"

fun gc_run :: "gvid \<Rightarrow> memory \<Rightarrow> gc_act list \<Rightarrow> gc_world \<Rightarrow> gc_world option" where
  "gc_run gv \<sigma> [] g = Some g"
| "gc_run gv \<sigma> (a # as) g = (case gc_exec gv \<sigma> a g of None \<Rightarrow> None | Some g' \<Rightarrow> gc_run gv \<sigma> as g')"

end
