(* ===== verification/Threads_Props.thy ===== *)
theory Threads_Props
  imports Threads
begin

text \<open>
  The ownership of thread slots: over all interleavings of threads that come, run, sleep and go,
  a slot in use belongs to one thread, a thread has at most one slot, and no assertion about
  slots can fail. With it, what virtual time shows: as long as a thread's epoch stands still it
  stays awake, in its domain, with the same time.
\<close>

declare split_paired_All [simp del] split_paired_Ex [simp del]

section \<open>Virtual time as words\<close>

lemma nest_unat: "unat (vt AND VTIME_NEST_MASK) = unat vt mod 16"
proof -
  have "vt AND VTIME_NEST_MASK = take_bit 4 vt"
    by (simp add: VTIME_NEST_MASK_def take_bit_eq_mask mask_eq_exp_minus_1)
  then show ?thesis by (simp add: take_bit_eq_mod unat_mod)
qed

lemma time_nest: "vt AND VTIME_TIME_MASK = vt - (vt AND VTIME_NEST_MASK)"
proof -
  have m: "VTIME_TIME_MASK = NOT VTIME_NEST_MASK" by (simp add: VTIME_NEST_MASK_def VTIME_TIME_MASK_def not_eq_complement)
  have "vt = (vt AND VTIME_NEST_MASK) + (vt AND NOT VTIME_NEST_MASK)"
    by (subst disjunctive_add) (auto simp: bit_simps intro!: bit_word_eqI)
  then show ?thesis unfolding m by (metis add_diff_cancel_left')
qed

lemma time_unat: "unat (vt AND VTIME_TIME_MASK) = unat vt - unat vt mod 16"
proof -
  have "unat (vt AND VTIME_NEST_MASK) \<le> unat vt" by (simp add: nest_unat)
  then show ?thesis unfolding time_nest by (simp add: unat_sub word_le_nat_alt nest_unat)
qed

lemma step_awake:
  assumes "vt AND VTIME_NEST_MASK < VTIME_NEST_MASK"
  shows "(vt + 1) AND VTIME_TIME_MASK = vt AND VTIME_TIME_MASK" "vtime_awake_p (vt + 1)"
proof -
  have n: "unat vt mod 16 < 15" using assms by (simp add: word_less_nat_alt nest_unat) (simp add: VTIME_NEST_MASK_def)
  moreover have "unat vt < 2 ^ LENGTH(32)" by (rule unsigned_less)
  moreover have "unat vt \<noteq> 2 ^ 32 - 1" using n by auto
  ultimately have "unat vt < 2 ^ 32 - 1" by simp
  then have u: "unat (vt + 1) = unat vt + 1" by (simp add: unat_word_ariths)
  have "(unat vt + 1) mod 16 = unat vt mod 16 + 1" using n by (simp add: mod_Suc)
  then show "(vt + 1) AND VTIME_TIME_MASK = vt AND VTIME_TIME_MASK" "vtime_awake_p (vt + 1)"
    by (simp_all add: word_unat_eq_iff time_unat vtime_awake_p_def nest_unat u)
qed

lemma step_asleep_nested:
  assumes "vtime_awake_p vt" "vt AND VTIME_NEST_MASK \<noteq> 1"
  shows "(vt - 1) AND VTIME_TIME_MASK = vt AND VTIME_TIME_MASK" "vtime_awake_p (vt - 1)"
proof -
  have n: "unat vt mod 16 > 1" using assms by (auto simp: vtime_awake_p_def word_unat_eq_iff nest_unat)
  then have u: "unat (vt - 1) = unat vt - 1" by (subst unat_sub) (auto simp: word_le_nat_alt intro: Suc_leI)
  have "unat vt - 1 = 16 * (unat vt div 16) + (unat vt mod 16 - 1)" using n by simp
  also have "\<dots> mod 16 = unat vt mod 16 - 1" by (simp add: less_imp_diff_less)
  finally have "(unat vt - 1) mod 16 = unat vt mod 16 - 1" .
  then show "(vt - 1) AND VTIME_TIME_MASK = vt AND VTIME_TIME_MASK" "vtime_awake_p (vt - 1)"
    using n by (simp_all add: word_unat_eq_iff time_unat vtime_awake_p_def nest_unat u)
qed

lemma step_asleep_last:
  assumes "vt AND VTIME_NEST_MASK = 1"
  shows "(vt + 15) AND VTIME_TIME_MASK = (vt AND VTIME_TIME_MASK) + 16" "vtime_asleep_p (vt + 15)"
proof -
  have n: "unat vt mod 16 = 1" using assms by (auto simp: word_unat_eq_iff nest_unat)
  have u: "unat (vt + 15) = (unat vt + 15) mod 2 ^ 32" by (simp add: unat_word_ariths)
  have "((unat vt + 15) mod 2 ^ 32) mod 16 = 0" using n by (simp add: mod_mod_cancel) presburger
  then have z: "(vt + 15) AND VTIME_NEST_MASK = 0" by (simp add: word_unat_eq_iff nest_unat u)
  then show "vtime_asleep_p (vt + 15)" by (simp add: vtime_asleep_p_def)
  show "(vt + 15) AND VTIME_TIME_MASK = (vt AND VTIME_TIME_MASK) + 16" by (simp add: time_nest z assms)
qed

lemma step_awake_to_awake:
  assumes "vt AND VTIME_NEST_MASK = 1"
  shows "(vt + 16) AND VTIME_TIME_MASK = (vt AND VTIME_TIME_MASK) + 16" "vtime_awake_p (vt + 16)"
proof -
  have u: "unat (vt + 16) = (unat vt + 16) mod 2 ^ 32" by (simp add: unat_word_ariths)
  have "unat (vt + 16) mod 16 = unat vt mod 16" by (simp add: u mod_mod_cancel)
  then have z: "(vt + 16) AND VTIME_NEST_MASK = vt AND VTIME_NEST_MASK" by (simp add: word_unat_eq_iff nest_unat)
  then show "vtime_awake_p (vt + 16)" by (simp add: vtime_awake_p_def assms)
  show "(vt + 16) AND VTIME_TIME_MASK = (vt AND VTIME_TIME_MASK) + 16" by (simp add: time_nest z)
qed

lemma signed_31_pos:
  assumes "(x :: nat) < 2 ^ 32"
  shows "0 < signed_take_bit 31 (int x) \<longleftrightarrow> 0 < x \<and> x < 2 ^ 31"
proof (cases "x < 2 ^ 31")
  case True
  then show ?thesis by (subst signed_take_bit_int_eq_self) auto
next
  case False
  have "signed_take_bit 31 (int x) \<le> int x - 2 ^ Suc 31"
    using False by (intro signed_take_bit_int_less_eq) simp
  then show ?thesis using False assms by simp
qed

lemma sint_pos: "0 < sint (w :: u32) \<longleftrightarrow> 0 < unat w \<and> unat w < 2 ^ 31"
proof -
  have "sint w = signed_take_bit 31 (int (unat w))" by (simp add: sint_uint)
  moreover have "unat w < 2 ^ LENGTH(32)" by (rule unsigned_less)
  ultimately show ?thesis using signed_31_pos [of "unat w"] by simp
qed

lemma vtime_gt_epochs:
  fixes n m :: nat
  assumes "n \<le> m"
    and "v0 AND VTIME_TIME_MASK = of_nat (16 * n)" "v1 AND VTIME_TIME_MASK = of_nat (16 * m)"
  shows "vtime_gt v1 v0 \<longleftrightarrow> 0 < (m - n) mod 2 ^ 28 \<and> (m - n) mod 2 ^ 28 < 2 ^ 27"
proof -
  let ?k = "(m - n) mod 2 ^ 28"
  have e: "(v1 AND VTIME_TIME_MASK) - (v0 AND VTIME_TIME_MASK) = of_nat (16 * (m - n))"
    using assms by (simp add: right_diff_distrib of_nat_diff)
  have "16 * ?k = (16 * (m - n)) mod (16 * 2 ^ 28)" by (rule mult_mod_right)
  then have u: "unat (of_nat (16 * (m - n)) :: u32) = 16 * ?k" by (simp only: unat_of_nat) (simp add: take_bit_eq_mod)
  show ?thesis unfolding vtime_gt_def e sint_pos u by auto
qed

section \<open>The invariant\<close>

definition slots :: "'a thread_states_scheme \<Rightarrow> slot set" where
  "slots w = set (slots_of (thread_states_head w))"

definition kind_of :: "slot \<Rightarrow> 'a thread_states_scheme \<Rightarrow> thread_state_kind" where
  "kind_of s w = ts_state (thrst w s)"

definition sleeps :: "slot \<Rightarrow> 'a thread_states_scheme \<Rightarrow> bool" where
  "sleeps s w \<longleftrightarrow> vtime_asleep_p (ts_vtime (thrst w s))"

text \<open>The slot a thread has, in each of its stages, and the kind that slot must show.\<close>

definition holds :: "thread_world \<Rightarrow> tid \<Rightarrow> slot option" where
  "holds w u = (case os w u of NoThread \<Rightarrow> None | AppThread \<Rightarrow> tsd_thread_state w u
     | Created s \<Rightarrow> Some s | Running s \<Rightarrow> Some s | Ended s \<Rightarrow> Some s)"

definition stage_kind :: "os_thread \<Rightarrow> thread_state_kind" where
  "stage_kind x = (case x of NoThread \<Rightarrow> THREAD_STATE_ZERO | AppThread \<Rightarrow> THREAD_STATE_LAZILY_CREATED
     | Created _ \<Rightarrow> THREAD_STATE_INIT | Running _ \<Rightarrow> THREAD_STATE_ALIVE | Ended _ \<Rightarrow> THREAD_STATE_STOPPED)"

definition tsd_ok :: "thread_world \<Rightarrow> tid \<Rightarrow> bool" where
  "tsd_ok w u \<longleftrightarrow> (case os w u of AppThread \<Rightarrow> True | Running s \<Rightarrow> tsd_thread_state w u = Some s
     | _ \<Rightarrow> tsd_thread_state w u = None)"

definition awake_ok :: "thread_world \<Rightarrow> tid \<Rightarrow> bool" where
  "awake_ok w u \<longleftrightarrow> (case in_awake w u of None \<Rightarrow> True
     | Some vt \<Rightarrow> (\<exists>s. tsd_thread_state w u = Some s \<and> ts_vtime (thrst w s) = vt \<and> vt AND VTIME_NEST_MASK < VTIME_NEST_MASK))"

definition held_ok :: "thread_world \<Rightarrow> tid \<Rightarrow> slot \<Rightarrow> bool" where
  "held_ok w u s \<longleftrightarrow> s \<in> slots w \<and> ts_tid (thrst w s) = u \<and> kind_of s w = stage_kind (os w u)
     \<and> (kind_of s w \<in> {THREAD_STATE_INIT, THREAD_STATE_STOPPED} \<longrightarrow> sleeps s w)"

definition slot_ok :: "thread_world \<Rightarrow> slot \<Rightarrow> bool" where
  "slot_ok w s \<longleftrightarrow> (if kind_of s w = THREAD_STATE_ZERO then sleeps s w else holds w (ts_tid (thrst w s)) = Some s)"

fun nthreads_ok :: "(nat \<Rightarrow> u32) \<Rightarrow> nat list \<Rightarrow> bool" where
  "nthreads_ok n [] = True"
| "nthreads_ok n (b # bs) \<longleftrightarrow> n b = of_nat (THREAD_STATE_BATCH * length (b # bs)) \<and> nthreads_ok n bs"

definition chain_ok :: "'a thread_states_scheme \<Rightarrow> bool" where
  "chain_ok w \<longleftrightarrow> distinct (thread_states_head w) \<and> (\<forall>b \<in> set (thread_states_head w). b < next_addr w)
     \<and> nthreads_ok (nthreads w) (thread_states_head w)"

definition thr_inv :: "thread_world \<Rightarrow> bool" where
  "thr_inv w \<longleftrightarrow> chain_ok w \<and> (\<forall>u s. holds w u = Some s \<longrightarrow> held_ok w u s) \<and> (\<forall>s \<in> slots w. slot_ok w s)
     \<and> (\<forall>u. tsd_ok w u \<and> awake_ok w u)"

lemma slots_iff: "s \<in> slots w \<longleftrightarrow> fst s \<in> set (thread_states_head w) \<and> snd s < THREAD_STATE_BATCH"
  by (cases s) (auto simp: slots_def slots_of_def image_iff)

lemma thr_inv_simps:
  assumes "thr_inv w"
  shows "chain_ok w" "holds w u = Some s \<Longrightarrow> held_ok w u s" "s \<in> slots w \<Longrightarrow> slot_ok w s" "tsd_ok w u" "awake_ok w u"
  using assms by (auto simp: thr_inv_def)

lemma tsd_holds: "tsd_ok w u \<Longrightarrow> tsd_thread_state w u = Some s \<Longrightarrow> holds w u = Some s"
  by (auto simp: tsd_ok_def holds_def split: os_thread.splits)

lemma tsd_held: "thr_inv w \<Longrightarrow> tsd_thread_state w u = Some s \<Longrightarrow> held_ok w u s"
  by (simp add: thr_inv_simps tsd_holds)

text \<open>
  A step that touches one thread and at most its own or a free slot: only these two have to be looked at.
\<close>

definition same_but :: "tid \<Rightarrow> slot option \<Rightarrow> thread_world \<Rightarrow> thread_world \<Rightarrow> bool" where
  "same_but u s w w' \<longleftrightarrow> thread_states_head w' = thread_states_head w \<and> nthreads w' = nthreads w
     \<and> next_addr w' = next_addr w \<and> (\<forall>s'. Some s' \<noteq> s \<longrightarrow> thrst w' s' = thrst w s')
     \<and> (\<forall>v. v \<noteq> u \<longrightarrow> os w' v = os w v \<and> tsd_thread_state w' v = tsd_thread_state w v \<and> in_awake w' v = in_awake w v)"

lemma same_but_slots: "same_but u s w w' \<Longrightarrow> slots w' = slots w"
  by (simp add: same_but_def slots_def)

lemma thr_inv_local:
  assumes inv: "thr_inv w" and same: "same_but u (Some s) w w'" and s: "s \<in> slots w"
    and pre: "holds w u = Some s \<or> holds w u = None \<and> kind_of s w = THREAD_STATE_ZERO"
    and post: "holds w' u = Some s \<and> held_ok w' u s \<and> kind_of s w' \<noteq> THREAD_STATE_ZERO
                 \<or> holds w' u = None \<and> kind_of s w' = THREAD_STATE_ZERO \<and> sleeps s w'"
    and u: "tsd_ok w' u" "awake_ok w' u"
  shows "thr_inv w'"
proof -
  have sl: "slots w' = slots w" using same by (rule same_but_slots)
  have other: "holds w' v = holds w v" "tsd_ok w' v" if "v \<noteq> u" for v
    using same that thr_inv_simps(4) [OF inv, of v] by (auto simp: same_but_def holds_def tsd_ok_def split: os_thread.splits)
  have no: "holds w v \<noteq> Some s" if "v \<noteq> u" for v
  proof
    assume "holds w v = Some s"
    from thr_inv_simps(2) [OF inv this] have h: "held_ok w v s" .
    from pre show False
    proof
      assume "holds w u = Some s"
      from thr_inv_simps(2) [OF inv this] h that show False by (simp add: held_ok_def)
    next
      assume "holds w u = None \<and> kind_of s w = THREAD_STATE_ZERO"
      with h \<open>holds w v = Some s\<close> show False by (auto simp: held_ok_def stage_kind_def holds_def split: os_thread.splits)
    qed
  qed
  have thr: "thrst w' s' = thrst w s'" if "s' \<noteq> s" for s'
    using same that by (auto simp: same_but_def)
  show ?thesis
    unfolding thr_inv_def
  proof (intro conjI allI impI ballI)
    show "chain_ok w'" using thr_inv_simps(1) [OF inv] same by (simp add: chain_ok_def same_but_def)
  next
    fix v s' assume h: "holds w' v = Some s'"
    show "held_ok w' v s'"
    proof (cases "v = u")
      case True then show ?thesis using h post by auto
    next
      case False
      then have "s' \<noteq> s" using h no other by metis
      moreover have "held_ok w v s'" using h False other thr_inv_simps(2) [OF inv] by simp
      moreover have "os w' v = os w v" using same False by (simp add: same_but_def)
      ultimately show ?thesis by (simp add: held_ok_def sl kind_of_def sleeps_def thr)
    qed
  next
    fix s' assume s': "s' \<in> slots w'"
    show "slot_ok w' s'"
    proof (cases "s' = s")
      case True then show ?thesis using post by (auto simp: slot_ok_def held_ok_def)
    next
      case False
      have ok: "slot_ok w s'" using s' sl thr_inv_simps(3) [OF inv] by simp
      have "ts_tid (thrst w s') \<noteq> u" if "kind_of s' w \<noteq> THREAD_STATE_ZERO"
        using ok that pre False by (auto simp: slot_ok_def)
      then show ?thesis using ok by (auto simp: slot_ok_def kind_of_def sleeps_def thr [OF False] other)
    qed
  next
    fix v show "tsd_ok w' v" using u other by (cases "v = u") auto
  next
    fix v show "awake_ok w' v"
    proof (cases "v = u")
      case True then show ?thesis using u by simp
    next
      case False
      have "s'' \<noteq> s" if "tsd_thread_state w v = Some s''" for s''
        using no [OF False] tsd_holds [OF thr_inv_simps(4) [OF inv] that] by auto
      then show ?thesis using thr_inv_simps(5) [OF inv, of v] same False
        by (auto simp: awake_ok_def same_but_def thr split: option.splits)
    qed
  qed
qed

lemma thr_inv_local_none:
  assumes inv: "thr_inv w" and same: "same_but u None w w'" and "holds w u = None" "holds w' u = None"
    and u: "tsd_ok w' u" "awake_ok w' u"
  shows "thr_inv w'"
proof -
  have thr: "thrst w' = thrst w" using same by (auto simp: same_but_def)
  have o: "holds w' v = holds w v" for v
    using same assms(3,4) by (cases "v = u") (auto simp: same_but_def holds_def split: os_thread.splits)
  have ne: "v \<noteq> u" if "holds w v = Some s'" for v s' using assms(3) that by auto
  show ?thesis
    unfolding thr_inv_def
  proof (intro conjI allI impI ballI)
    show "chain_ok w'" using thr_inv_simps(1) [OF inv] same by (simp add: chain_ok_def same_but_def)
  next
    fix v s' assume h: "holds w' v = Some s'"
    then have "held_ok w v s'" "v \<noteq> u" using thr_inv_simps(2) [OF inv] o ne by auto
    then show "held_ok w' v s'"
      using same by (auto simp: held_ok_def kind_of_def sleeps_def thr same_but_slots [OF same] same_but_def)
  next
    fix s' assume "s' \<in> slots w'"
    then show "slot_ok w' s'" using thr_inv_simps(3) [OF inv, of s'] same_but_slots [OF same]
      by (simp add: slot_ok_def kind_of_def sleeps_def thr o split: if_splits)
  next
    fix v show "tsd_ok w' v"
      using u thr_inv_simps(4) [OF inv, of v] same by (cases "v = u") (auto simp: tsd_ok_def same_but_def split: os_thread.splits)
  next
    fix v show "awake_ok w' v"
      using u thr_inv_simps(5) [OF inv, of v] same by (cases "v = u") (auto simp: awake_ok_def same_but_def thr split: option.splits)
  qed
qed

section \<open>Slots are handed out when free\<close>

lemma zero_sleeps [simp]: "vtime_asleep_p 0" "ts_vtime zero_thread_state = 0" "ts_state zero_thread_state = THREAD_STATE_ZERO"
  by (simp_all add: vtime_asleep_p_def zero_thread_state_def)

lemma slots_new_batch:
  "s \<in> slots (new_batch n w) \<longleftrightarrow> s \<in> slots w \<or> fst s = next_addr w \<and> snd s < THREAD_STATE_BATCH"
  by (auto simp: slots_iff new_batch_def Let_def)

lemma new_batch_frame:
  assumes "chain_ok w" "s \<in> slots w" shows "thrst (new_batch n w) s = thrst w s"
  using assms by (auto simp: slots_iff chain_ok_def new_batch_def Let_def)

lemma new_batch_other [simp]:
  "os (new_batch n w) = os w" "tsd_thread_state (new_batch n w) = tsd_thread_state w"
  "in_awake (new_batch n w) = in_awake w" "epoch (new_batch n w) = epoch w"
  by (simp_all add: new_batch_def Let_def)

lemma nthreads_ok_cong: "(\<And>b. b \<in> set bs \<Longrightarrow> n b = m b) \<Longrightarrow> nthreads_ok n bs = nthreads_ok m bs"
  by (induction bs) auto

lemma new_batch_chain_ok:
  assumes "chain_ok w" "n = of_nat (THREAD_STATE_BATCH * Suc (length (thread_states_head w)))"
  shows "chain_ok (new_batch n w)"
proof -
  have "nthreads_ok ((nthreads w)(next_addr w := n)) (thread_states_head w) = nthreads_ok (nthreads w) (thread_states_head w)"
    using assms(1) by (intro nthreads_ok_cong) (auto simp: chain_ok_def)
  then show ?thesis using assms by (auto simp: chain_ok_def new_batch_def Let_def less_Suc_eq)
qed

lemma thr_inv_new_batch:
  assumes inv: "thr_inv w" and n: "n = of_nat (THREAD_STATE_BATCH * Suc (length (thread_states_head w)))"
  shows "thr_inv (new_batch n w)"
proof -
  let ?w = "new_batch n w"
  have chain: "chain_ok w" using inv by (rule thr_inv_simps)
  have h: "holds ?w v = holds w v" for v by (simp add: holds_def split: os_thread.splits)
  have thr: "thrst ?w s = thrst w s" if "holds w v = Some s" for v s
    using thr_inv_simps(2) [OF inv that] new_batch_frame [OF chain] by (simp add: held_ok_def)
  show ?thesis
    unfolding thr_inv_def
  proof (intro conjI allI impI ballI)
    show "chain_ok ?w" using chain n by (rule new_batch_chain_ok)
  next
    fix v s assume "holds ?w v = Some s"
    then have hs: "holds w v = Some s" by (simp add: h)
    show "held_ok ?w v s" using thr_inv_simps(2) [OF inv hs]
      by (simp add: held_ok_def kind_of_def sleeps_def thr [OF hs] slots_new_batch)
  next
    fix s assume s: "s \<in> slots ?w"
    show "slot_ok ?w s"
    proof (cases "s \<in> slots w")
      case True
      then show ?thesis using thr_inv_simps(3) [OF inv True] new_batch_frame [OF chain True, of n]
        by (simp add: slot_ok_def kind_of_def sleeps_def h split: if_splits)
    next
      case False
      then have "fst s = next_addr w" using s by (simp add: slots_new_batch)
      then show ?thesis by (simp add: slot_ok_def kind_of_def sleeps_def new_batch_def Let_def)
    qed
  next
    fix v show "tsd_ok ?w v" using thr_inv_simps(4) [OF inv, of v] by (simp add: tsd_ok_def split: os_thread.splits)
  next
    fix v show "awake_ok ?w v"
      using thr_inv_simps(5) [OF inv, of v] thr [OF tsd_holds [OF thr_inv_simps(4) [OF inv]]]
      by (auto simp: awake_ok_def split: option.splits)
  qed
qed

text \<open>What a search for a free slot may do: nothing, or add a batch in front.\<close>

definition grown :: "thread_world \<Rightarrow> thread_world \<Rightarrow> bool" where
  "grown w w' \<longleftrightarrow> w' = w \<or> (\<exists>n. w' = new_batch n w)"

lemma grown_same:
  assumes "grown w w'"
  shows "os w' = os w" "tsd_thread_state w' = tsd_thread_state w" "in_awake w' = in_awake w" "epoch w' = epoch w"
    and "slots w \<subseteq> slots w'" and "fst s < next_addr w \<Longrightarrow> thrst w' s = thrst w s" and "next_addr w \<le> next_addr w'"
  using assms by (auto simp: grown_def slots_new_batch) (auto simp: new_batch_def Let_def)

lemma get_available_ok:
  assumes inv: "thr_inv w" and ne: "thread_states_head w \<noteq> []" and get: "get_available_thread_slot w = (w', s)"
  shows "grown w w'" "thr_inv w'" "s \<in> slots w'" "kind_of s w' = THREAD_STATE_ZERO" "sleeps s w'"
proof -
  let ?free = "filter (\<lambda>s. ts_state (thrst w s) = THREAD_STATE_ZERO) (slots_of (thread_states_head w))"
  have all: "grown w w' \<and> thr_inv w' \<and> s \<in> slots w' \<and> kind_of s w' = THREAD_STATE_ZERO"
  proof (cases ?free)
    case (Cons x xs)
    then have "x \<in> set ?free" by simp
    moreover have "w' = w" "s = x" using get Cons by (auto simp: get_available_thread_slot_def)
    ultimately show ?thesis using inv by (auto simp: grown_def slots_def kind_of_def)
  next
    case Nil
    obtain b bs where bs: "thread_states_head w = b # bs" using ne by (cases "thread_states_head w") auto
    have "nthreads w b = of_nat (THREAD_STATE_BATCH * Suc (length bs))"
      using thr_inv_simps(1) [OF inv] bs by (simp add: chain_ok_def)
    then have n: "of_nat THREAD_STATE_BATCH + nthreads w (hd (thread_states_head w))
        = of_nat (THREAD_STATE_BATCH * Suc (length (thread_states_head w)))"
      by (simp add: bs algebra_simps)
    have w': "w' = new_batch (of_nat (THREAD_STATE_BATCH * Suc (length (thread_states_head w)))) w"
      and s: "s = (next_addr w, 0)"
      using get Nil by (auto simp: get_available_thread_slot_def grow_thread_states_def n)
    have "thr_inv w'" unfolding w' by (rule thr_inv_new_batch [OF inv refl])
    then show ?thesis unfolding s w'
      by (auto simp: grown_def slots_new_batch THREAD_STATE_BATCH_def kind_of_def) (auto simp: new_batch_def Let_def)
  qed
  then show "grown w w'" "thr_inv w'" "s \<in> slots w'" "kind_of s w' = THREAD_STATE_ZERO" by auto
  then show "sleeps s w'" using thr_inv_simps(3) [of w' s] by (simp add: slot_ok_def)
qed

lemma init_thread_state_ok:
  assumes inv: "thr_inv w" and ne: "thread_states_head w \<noteq> []"
  obtains w1 s where "grown w w1" "thr_inv w1" "s \<in> slots w1" "kind_of s w1 = THREAD_STATE_ZERO" "sleeps s w1"
    "\<And>name gv k. init_thread_state name gv k w
       = Some (upd_thrst s (\<lambda>x. x\<lparr>ts_gv := gv, ts_name := take 23 name, ts_state := k\<rparr>) w1, s)"
proof -
  obtain w1 s where get: "get_available_thread_slot w = (w1, s)" by (rule prod.exhaust)
  note ok = get_available_ok [OF inv ne get]
  show ?thesis
    by (rule that [OF ok]) (use ok in \<open>auto simp: init_thread_state_def get sleeps_def\<close>)
qed


section \<open>Steps that leave virtual time alone\<close>

lemma upd_thrst_simps [simp]:
  "thrst (upd_thrst s f w) s' = (if s' = s then f (thrst w s) else thrst w s')"
  "thread_states_head (upd_thrst s f w) = thread_states_head w" "nthreads (upd_thrst s f w) = nthreads w"
  "next_addr (upd_thrst s f w) = next_addr w" "tsd_thread_state (upd_thrst s f w) = tsd_thread_state w"
  "slots (upd_thrst s f w) = slots w"
  by (simp_all add: upd_thrst_def slots_def)

lemma upd_thrst_world [simp]:
  "os (upd_thrst s f w) = os w" "in_awake (upd_thrst s f w) = in_awake w" "epoch (upd_thrst s f w) = epoch w"
  by (simp_all add: upd_thrst_def)

lemma slots_update [simp]:
  "slots (w\<lparr>os := x\<rparr>) = slots w" "slots (w\<lparr>in_awake := y\<rparr>) = slots w" "slots (w\<lparr>epoch := e\<rparr>) = slots w"
  "slots (w\<lparr>tsd_thread_state := t\<rparr>) = slots w"
  by (simp_all add: slots_def)

text \<open>No slot that exists changes its time, and none of a thread that is awake its domain.\<close>

definition keeps :: "thread_world \<Rightarrow> thread_world \<Rightarrow> bool" where
  "keeps w w' \<longleftrightarrow> next_addr w \<le> next_addr w' \<and> epoch w' = epoch w
     \<and> (\<forall>s. fst s < next_addr w \<longrightarrow> ts_vtime (thrst w' s) = ts_vtime (thrst w s)
          \<and> (\<not> sleeps s w \<longrightarrow> ts_gv (thrst w' s) = ts_gv (thrst w s)))
     \<and> (\<forall>s. next_addr w \<le> fst s \<longrightarrow> ts_vtime (thrst w' s) = ts_vtime (thrst w s) \<or> ts_vtime (thrst w' s) = 0)"

lemma keeps_refl [simp]: "keeps w w" by (simp add: keeps_def)

lemma keeps_trans: "keeps w w1 \<Longrightarrow> keeps w1 w2 \<Longrightarrow> keeps w w2"
  by (auto simp: keeps_def sleeps_def) (metis linorder_not_less)

lemma keeps_grown: "grown w w' \<Longrightarrow> keeps w w'"
  by (auto simp: keeps_def grown_same) (auto simp: grown_def new_batch_def Let_def)

lemma keeps_upd:
  assumes "keeps w w1" "epoch w2 = epoch w1" "next_addr w2 = next_addr w1"
    "\<And>s'. s' \<noteq> s \<Longrightarrow> thrst w2 s' = thrst w1 s'" "ts_vtime (thrst w2 s) = ts_vtime (thrst w1 s)"
    "sleeps s w1 \<or> ts_gv (thrst w2 s) = ts_gv (thrst w1 s)"
  shows "keeps w w2"
proof (rule keeps_trans [OF assms(1)])
  show "keeps w1 w2" unfolding keeps_def
  proof (intro conjI allI impI)
    fix s' show "ts_vtime (thrst w2 s') = ts_vtime (thrst w1 s')" using assms(4,5) by (cases "s' = s") auto
    then show "ts_vtime (thrst w2 s') = ts_vtime (thrst w1 s') \<or> ts_vtime (thrst w2 s') = 0" by simp
    show "ts_gv (thrst w2 s') = ts_gv (thrst w1 s')" if "\<not> sleeps s' w1"
      using that assms(4,6) by (cases "s' = s") auto
  qed (use assms(2,3) in auto)
qed

text \<open>Taking a free slot for a thread that has none.\<close>

lemma take_slot:
  assumes inv: "thr_inv w1" and s: "s \<in> slots w1" "kind_of s w1 = THREAD_STATE_ZERO" "sleeps s w1"
    and u: "holds w1 u = None" "in_awake w1 u = None"
    and same: "same_but u (Some s) w1 w'" and ep: "epoch w' = epoch w1"
    and new: "holds w' u = Some s" "ts_tid (thrst w' s) = u" "kind_of s w' = stage_kind (os w' u)"
      "ts_vtime (thrst w' s) = ts_vtime (thrst w1 s)" "in_awake w' u = None" "tsd_ok w' u"
  shows "thr_inv w' \<and> keeps w1 w'"
proof
  have sl: "slots w' = slots w1" using same by (rule same_but_slots)
  have z: "kind_of s w' \<noteq> THREAD_STATE_ZERO"
    using new(1,3) by (auto simp: holds_def stage_kind_def split: os_thread.splits)
  have "held_ok w' u s" using s new sl by (auto simp: held_ok_def sleeps_def)
  then show "thr_inv w'"
    using u s z new by (intro thr_inv_local [OF inv same]) (auto simp: awake_ok_def)
  show "keeps w1 w'"
    by (rule keeps_upd [OF keeps_refl, where s = s]) (use same ep new s in \<open>auto simp: same_but_def\<close>)
qed

lemma no_tsd_found:
  assumes inv: "thr_inv w" and u: "tsd_thread_state w u = None"
  shows "find_thread_state u w = None"
proof -
  have "\<not> (above_INIT (ts_state (thrst w s)) \<and> ts_tid (thrst w s) = u)" if s: "s \<in> slots w" for s
  proof
    assume a: "above_INIT (ts_state (thrst w s)) \<and> ts_tid (thrst w s) = u"
    then have h: "holds w u = Some s"
      using thr_inv_simps(3) [OF inv s] by (auto simp: slot_ok_def kind_of_def split: if_splits)
    have "above_INIT (stage_kind (os w u))"
      using a thr_inv_simps(2) [OF inv h] by (simp add: held_ok_def kind_of_def)
    then show False
      using h u thr_inv_simps(4) [OF inv, of u] by (auto simp: holds_def tsd_ok_def stage_kind_def split: os_thread.splits)
  qed
  then show ?thesis by (simp add: find_thread_state_def slots_def)
qed

lemma lookup_real_ok:
  assumes inv: "thr_inv w" and ne: "thread_states_head w \<noteq> []" and u: "os w u = AppThread \<or> tsd_thread_state w u \<noteq> None"
    and na: "in_awake w u = None"
  obtains w' s where "lookup_thread_state_real u name w = Some (w', s)" "thr_inv w'" "keeps w w'"
    "tsd_thread_state w' u = Some s" "os w' = os w" "in_awake w' = in_awake w" "thread_states_head w' \<noteq> []"
    "tsd_thread_state w u \<in> {None, Some s}"
proof (cases "tsd_thread_state w u")
  case (Some s)
  then show ?thesis using assms by (intro that [of w s]) (auto simp: lookup_thread_state_real_def)
next
  case None
  obtain w1 s where w1: "grown w w1" "thr_inv w1" "s \<in> slots w1" "kind_of s w1 = THREAD_STATE_ZERO" "sleeps s w1"
    and ini: "\<And>name gv k. init_thread_state name gv k w
       = Some (upd_thrst s (\<lambda>x. x\<lparr>ts_gv := gv, ts_name := take 23 name, ts_state := k\<rparr>) w1, s)"
    using init_thread_state_ok [OF inv ne] by metis
  let ?w = "upd_thrst s (\<lambda>x. x\<lparr>ts_tid := u\<rparr>)
      (upd_thrst s (\<lambda>x. x\<lparr>ts_gv := None, ts_name := take 23 name, ts_state := THREAD_STATE_LAZILY_CREATED\<rparr>) w1)"
  let ?w' = "?w\<lparr>tsd_thread_state := (tsd_thread_state ?w)(u := Some s)\<rparr>"
  note g = grown_same [OF w1(1)]
  have os: "os w u = AppThread" using u None by simp
  have "lookup_thread_state_real u name w = Some (?w', s)"
    by (simp add: lookup_thread_state_real_def None no_tsd_found [OF inv None] lazy_create_thread_state_def ini)
  moreover have "thr_inv ?w' \<and> keeps w1 ?w'"
    using os None na by (intro take_slot [OF w1(2-5)]) (auto simp: g holds_def same_but_def stage_kind_def kind_of_def tsd_ok_def)
  moreover have "thread_states_head ?w' \<noteq> []" using w1(3) by (auto simp: slots_iff)
  ultimately show ?thesis
    using keeps_trans [OF keeps_grown [OF w1(1)]] by (intro that [of ?w' s]) (auto simp: g None)
qed

lemma lookup_eq: "lookup_thread_state u name w = lookup_thread_state_real u name w"
  by (auto simp: lookup_thread_state_def lookup_thread_state_real_def split: option.split)

text \<open>Giving up a slot.\<close>

lemma drop_slot:
  assumes inv: "thr_inv w1" and h: "holds w1 u = Some s" and z: "sleeps s w1"
    and same: "same_but u (Some s) w1 w'" and ep: "epoch w' = epoch w1"
    and new: "holds w' u = None" "kind_of s w' = THREAD_STATE_ZERO"
      "ts_vtime (thrst w' s) = ts_vtime (thrst w1 s)" "in_awake w' u = None" "tsd_ok w' u"
  shows "thr_inv w' \<and> keeps w1 w'"
proof
  have "s \<in> slots w1" using thr_inv_simps(2) [OF inv h] by (simp add: held_ok_def)
  then show "thr_inv w'"
    using h z new by (intro thr_inv_local [OF inv same]) (auto simp: awake_ok_def sleeps_def)
  show "keeps w1 w'"
    by (rule keeps_upd [OF keeps_refl, where s = s]) (use same ep new z in \<open>auto simp: same_but_def\<close>)
qed

text \<open>Passing on to the next stage with the same slot.\<close>

lemma pass_slot:
  assumes inv: "thr_inv w1" and h: "holds w1 u = Some s"
    and same: "same_but u (Some s) w1 w'" and ep: "epoch w' = epoch w1"
    and new: "holds w' u = Some s" "ts_tid (thrst w' s) = ts_tid (thrst w1 s)" "kind_of s w' = stage_kind (os w' u)"
      "ts_vtime (thrst w' s) = ts_vtime (thrst w1 s)" "ts_gv (thrst w' s) = ts_gv (thrst w1 s)"
      "in_awake w' u = None" "tsd_ok w' u"
      "kind_of s w' \<in> {THREAD_STATE_INIT, THREAD_STATE_STOPPED} \<longrightarrow> sleeps s w'"
  shows "thr_inv w' \<and> keeps w1 w'"
proof
  have z: "kind_of s w' \<noteq> THREAD_STATE_ZERO"
    using new(1,3) by (auto simp: holds_def stage_kind_def split: os_thread.splits)
  have hs: "held_ok w1 u s" using inv h by (rule thr_inv_simps)
  then have "held_ok w' u s" using new same_but_slots [OF same] by (auto simp: held_ok_def)
  then show "thr_inv w'"
    using h z new hs by (intro thr_inv_local [OF inv same]) (auto simp: awake_ok_def held_ok_def)
  show "keeps w1 w'"
    by (rule keeps_upd [OF keeps_refl, where s = s]) (use same ep new in \<open>auto simp: same_but_def\<close>)
qed


lemma upd_upd [simp]: "upd_thrst s f (upd_thrst s g w) = upd_thrst s (f \<circ> g) w"
  by (simp add: upd_thrst_def)

lemma exec_App_start: "thr_inv w \<Longrightarrow> thr_exec (App_start u) w = Some w' \<Longrightarrow> thr_inv w' \<and> keeps w w'"
proof -
  assume inv: "thr_inv w" and ex: "thr_exec (App_start u) w = Some w'"
  then have u: "os w u = NoThread" and w': "w' = w\<lparr>os := (os w)(u := AppThread)\<rparr>" by (auto split: if_splits)
  then have na: "in_awake w u = None" "tsd_thread_state w u = None"
    using thr_inv_simps(4,5) [OF inv, of u] by (auto simp: tsd_ok_def awake_ok_def split: option.splits)
  show ?thesis
    using u na by (auto simp: w' same_but_def holds_def tsd_ok_def awake_ok_def keeps_def
        intro!: thr_inv_local_none [OF inv, where u = u])
qed

lemma exec_Lookup: "thr_inv w \<Longrightarrow> thr_exec (Lookup u name) w = Some w' \<Longrightarrow> thr_inv w' \<and> keeps w w'"
proof -
  assume inv: "thr_inv w" and ex: "thr_exec (Lookup u name) w = Some w'"
  then have c: "can_act u w" "thread_states_head w \<noteq> []" and l: "map_option fst (lookup_thread_state_real u name w) = Some w'"
    by (auto simp: lookup_eq split: if_splits)
  have "os w u = AppThread \<or> tsd_thread_state w u \<noteq> None" "in_awake w u = None"
    using c thr_inv_simps(4) [OF inv, of u] by (auto simp: can_act_def tsd_ok_def split: os_thread.splits)
  then obtain w1 s where "lookup_thread_state_real u name w = Some (w1, s)" "thr_inv w1" "keeps w w1"
    by (rule lookup_real_ok [OF inv c(2), of u name]) blast
  then show ?thesis using l by simp
qed

lemma exec_Init: "thr_inv w \<Longrightarrow> thr_exec (Init u name) w = Some w' \<Longrightarrow> thr_inv w' \<and> keeps w w'"
proof -
  assume inv: "thr_inv w" and ex: "thr_exec (Init u name) w = Some w'"
  let ?w = "if thread_states_head w = [] then new_batch (of_nat THREAD_STATE_BATCH) w else w"
  have "thr_inv (new_batch (of_nat THREAD_STATE_BATCH) w)" if "thread_states_head w = []"
    using that by (intro thr_inv_new_batch inv) simp
  then have inv': "thr_inv ?w" using inv by auto
  have g: "grown w ?w" by (auto simp: grown_def)
  have ne: "thread_states_head ?w \<noteq> []" by (auto simp: new_batch_def Let_def)
  have u: "os ?w u = AppThread \<or> tsd_thread_state ?w u \<noteq> None" "in_awake ?w u = None"
    using ex by (auto simp: can_act_def split: if_splits)
  obtain w1 s where "lookup_thread_state_real u name ?w = Some (w1, s)" "thr_inv w1" "keeps ?w w1"
    "tsd_thread_state ?w u \<in> {None, Some s}"
    by (rule lookup_real_ok [OF inv' ne u, of name]) blast
  then show ?thesis
    using ex keeps_trans [OF keeps_grown [OF g]] by (auto simp: thread_states_init_def Let_def split: if_splits)
qed

lemma exec_Create: "thr_inv w \<Longrightarrow> thr_exec (Create v gv name f arg) w = Some w' \<Longrightarrow> thr_inv w' \<and> keeps w w'"
proof -
  assume inv: "thr_inv w" and ex: "thr_exec (Create v gv name f arg) w = Some w'"
  then have v: "os w v = NoThread" and ne: "thread_states_head w \<noteq> []" by (auto split: if_splits)
  have na: "tsd_thread_state w v = None" "in_awake w v = None"
    using thr_inv_simps(4,5) [OF inv, of v] v by (auto simp: tsd_ok_def awake_ok_def split: option.splits)
  obtain w1 s where w1: "grown w w1" "thr_inv w1" "s \<in> slots w1" "kind_of s w1 = THREAD_STATE_ZERO" "sleeps s w1"
    and ini: "\<And>name gv k. init_thread_state name gv k w
       = Some (upd_thrst s (\<lambda>x. x\<lparr>ts_gv := gv, ts_name := take 23 name, ts_state := k\<rparr>) w1, s)"
    using init_thread_state_ok [OF inv ne] by metis
  note g = grown_same [OF w1(1)]
  have w': "w' = (upd_thrst s (\<lambda>x. x\<lparr>ts_gv := gv, ts_name := take 23 name, ts_state := THREAD_STATE_INIT,
      ts_f := f, ts_f_arg := arg, ts_tid := v\<rparr>) w1)\<lparr>os := (os w)(v := Created s)\<rparr>"
    using ex v ne by (simp add: create_thread_int_def ini comp_def)
  have "thr_inv w' \<and> keeps w1 w'"
    using v na by (intro take_slot [OF w1(2-5)])
      (auto simp: w' g holds_def same_but_def stage_kind_def kind_of_def tsd_ok_def)
  then show ?thesis using keeps_trans [OF keeps_grown [OF w1(1)]] by auto
qed

lemma exec_Wrapper_start: "thr_inv w \<Longrightarrow> thr_exec (Wrapper_start v) w = Some w' \<Longrightarrow> thr_inv w' \<and> keeps w w'"
proof -
  assume inv: "thr_inv w" and ex: "thr_exec (Wrapper_start v) w = Some w'"
  then obtain s where v: "os w v = Created s" by (auto split: os_thread.splits)
  then have h: "holds w v = Some s" by (simp add: holds_def)
  have na: "in_awake w v = None"
    using thr_inv_simps(4,5) [OF inv, of v] v by (auto simp: tsd_ok_def awake_ok_def split: option.splits)
  show ?thesis
    using ex v na by (intro pass_slot [OF inv h])
      (auto simp: create_thread_wrapper_start_def holds_def same_but_def stage_kind_def kind_of_def tsd_ok_def split: if_splits)
qed

lemma exec_Wrapper_stop: "thr_inv w \<Longrightarrow> thr_exec (Wrapper_stop v) w = Some w' \<Longrightarrow> thr_inv w' \<and> keeps w w'"
proof -
  assume inv: "thr_inv w" and ex: "thr_exec (Wrapper_stop v) w = Some w'"
  then obtain s where v: "os w v = Running s" by (auto split: os_thread.splits)
  then have h: "holds w v = Some s" by (simp add: holds_def)
  show ?thesis
    using ex v by (intro pass_slot [OF inv h])
      (auto simp: create_thread_wrapper_stop_def holds_def same_but_def stage_kind_def kind_of_def tsd_ok_def sleeps_def split: if_splits)
qed

lemma exec_Join: "thr_inv w \<Longrightarrow> thr_exec (Join v) w = Some w' \<Longrightarrow> thr_inv w' \<and> keeps w w'"
proof -
  assume inv: "thr_inv w" and ex: "thr_exec (Join v) w = Some w'"
  then obtain s where v: "os w v = Ended s" by (auto split: os_thread.splits)
  then have h: "holds w v = Some s" by (simp add: holds_def)
  then have k: "kind_of s w = THREAD_STATE_STOPPED" "sleeps s w"
    using thr_inv_simps(2) [OF inv h] v by (auto simp: held_ok_def stage_kind_def)
  have na: "in_awake w v = None" "tsd_thread_state w v = None"
    using thr_inv_simps(4,5) [OF inv, of v] v by (auto simp: tsd_ok_def awake_ok_def split: option.splits)
  show ?thesis
    using ex v k na by (intro drop_slot [OF inv h k(2)])
      (auto simp: join_thread_ended_def reap_thread_state_def holds_def same_but_def kind_of_def tsd_ok_def split: if_splits)
qed

lemma exec_App_exit: "thr_inv w \<Longrightarrow> thr_exec (App_exit u) w = Some w' \<Longrightarrow> thr_inv w' \<and> keeps w w'"
proof -
  assume inv: "thr_inv w" and ex: "thr_exec (App_exit u) w = Some w'"
  then have u: "os w u = AppThread" "in_awake w u = None" by (auto split: if_splits)
  show ?thesis
  proof (cases "find_thread_state u w")
    case None
    have "tsd_thread_state w u = None"
    proof (rule ccontr)
      assume "tsd_thread_state w u \<noteq> None"
      then obtain s where "tsd_thread_state w u = Some s" by auto
      from tsd_held [OF inv this] u have "s \<in> slots w" "above_INIT (ts_state (thrst w s))" "ts_tid (thrst w s) = u"
        by (auto simp: held_ok_def stage_kind_def kind_of_def)
      with None show False by (auto simp: find_thread_state_def filter_empty_conv slots_def)
    qed
    then show ?thesis
      using ex u None inv by (auto simp: cleanup_thread_state_def same_but_def holds_def tsd_ok_def awake_ok_def keeps_def
          intro!: thr_inv_local_none [OF inv, where u = u])
  next
    case (Some s)
    then have f: "s \<in> slots w" "above_INIT (kind_of s w)" "ts_tid (thrst w s) = u"
      by (auto simp: find_thread_state_def slots_def kind_of_def dest: first_opt_in_set)
    then have h: "holds w u = Some s" using thr_inv_simps(3) [OF inv f(1)] by (auto simp: slot_ok_def split: if_splits)
    have "sleeps s w" using ex u Some by (auto simp: cleanup_thread_state_def sleeps_def split: if_splits)
    then show ?thesis
      using ex u Some by (intro drop_slot [OF inv h])
        (auto simp: cleanup_thread_state_def reap_thread_state_def holds_def same_but_def kind_of_def tsd_ok_def split: if_splits)
  qed
qed


lemma only_ZERO:
  assumes "THREAD_STATE_LAZILY_CREATED \<notin> K" "THREAD_STATE_STOPPED \<notin> K" "THREAD_STATE_INIT \<notin> K" "THREAD_STATE_ALIVE \<notin> K"
  shows "K \<subseteq> {THREAD_STATE_ZERO}"
proof
  fix x assume "x \<in> K" then show "x \<in> {THREAD_STATE_ZERO}" using assms by (cases x) auto
qed

lemma exec_Fini: "thr_inv w \<Longrightarrow> thr_exec (Fini u name) w = Some w' \<Longrightarrow> thr_inv w' \<and> keeps w w'"
proof -
  assume inv: "thr_inv w" and ex: "thr_exec (Fini u name) w = Some w'"
  then have u: "os w u = AppThread" "in_awake w u = None" and ne: "thread_states_head w \<noteq> []"
    and fini: "map_option fst (thread_states_fini u name w) = Some w'" by (auto split: if_splits)
  have u': "os w u = AppThread \<or> tsd_thread_state w u \<noteq> None" using u by simp
  obtain w1 s where l: "lookup_thread_state_real u name w = Some (w1, s)" "thr_inv w1" "keeps w w1"
    "tsd_thread_state w1 u = Some s" "os w1 = os w" "in_awake w1 = in_awake w"
    by (rule lookup_real_ok [OF inv ne u' u(2), of name]) blast
  have h: "holds w1 u = Some s" using l u by (simp add: holds_def)
  have k: "kind_of s w1 = THREAD_STATE_LAZILY_CREATED"
    using thr_inv_simps(2) [OF l(2) h] l(5) u by (simp add: held_ok_def stage_kind_def)
  have sl: "sleeps s w1" using fini l by (auto simp: thread_states_fini_def lookup_eq sleeps_def split: if_splits)
  define w2 where "w2 = (upd_thrst s (\<lambda>x. x\<lparr>ts_state := THREAD_STATE_ZERO\<rparr>) w1)
      \<lparr>tsd_thread_state := (tsd_thread_state w1)(u := None)\<rparr>"
  have w2: "thr_inv w2 \<and> keeps w1 w2"
    using u l by (intro drop_slot [OF l(2) h sl]) (auto simp: w2_def holds_def same_but_def kind_of_def tsd_ok_def)
  let ?kinds = "map (\<lambda>s. ts_state (thrst w2 s)) (slots_of (thread_states_head w2))"
  have w': "w' = w2 \<or> (w' = w2\<lparr>thread_states_head := []\<rparr> \<and> set ?kinds \<subseteq> {THREAD_STATE_ZERO})"
  proof -
    have *: "thread_states_fini u name w = (if THREAD_STATE_STOPPED \<in> set ?kinds \<or> THREAD_STATE_INIT \<in> set ?kinds
         \<or> THREAD_STATE_ALIVE \<in> set ?kinds then None
       else if length (filter ((=) THREAD_STATE_LAZILY_CREATED) ?kinds) = 0 then Some (w2\<lparr>thread_states_head := []\<rparr>, True)
       else Some (w2, False))"
      using l sl k by (simp add: thread_states_fini_def lookup_eq sleeps_def reap_thread_state_def kind_of_def Let_def w2_def)
    show ?thesis
    proof (cases "length (filter ((=) THREAD_STATE_LAZILY_CREATED) ?kinds) = 0")
      case True
      then have "THREAD_STATE_LAZILY_CREATED \<notin> set ?kinds"
        by (auto simp: filter_empty_conv simp del: upd_thrst_simps)
      moreover have "THREAD_STATE_STOPPED \<notin> set ?kinds" "THREAD_STATE_INIT \<notin> set ?kinds" "THREAD_STATE_ALIVE \<notin> set ?kinds"
        using fini unfolding * by (simp_all split: if_splits del: upd_thrst_simps set_map)
      ultimately have "set ?kinds \<subseteq> {THREAD_STATE_ZERO}" by (rule only_ZERO)
      then show ?thesis using fini True unfolding * by (simp split: if_splits)
    next
      case False
      then show ?thesis using fini unfolding * by (simp split: if_splits)
    qed
  qed
  have "thr_inv (w2\<lparr>thread_states_head := []\<rparr>) \<and> keeps w2 (w2\<lparr>thread_states_head := []\<rparr>)"
    if z: "set ?kinds \<subseteq> {THREAD_STATE_ZERO}"
  proof
    let ?w3 = "w2\<lparr>thread_states_head := []\<rparr>"
    have nh: "holds w2 v \<noteq> Some x" for v x
    proof
      assume hx: "holds w2 v = Some x"
      then have "held_ok w2 v x" using w2 thr_inv_simps(2) by blast
      then have "stage_kind (os w2 v) = THREAD_STATE_ZERO" using z
        by (auto simp: held_ok_def kind_of_def slots_def)
      then show False using hx by (auto simp: stage_kind_def holds_def split: os_thread.splits)
    qed
    have h3: "holds ?w3 = holds w2" by (simp add: holds_def fun_eq_iff split: os_thread.split)
    have "tsd_ok ?w3 v \<and> awake_ok ?w3 v" for v
      using thr_inv_simps(4,5) [of w2 v] w2 by (auto simp: tsd_ok_def awake_ok_def split: os_thread.splits option.splits)
    then show "thr_inv ?w3"
      using nh by (simp add: thr_inv_def h3) (simp add: chain_ok_def slots_def slots_of_def)
    show "keeps w2 ?w3" by (simp add: keeps_def)
  qed
  then have "thr_inv w' \<and> keeps w2 w'" using w' w2 by (elim disjE conjE) simp_all
  then show ?thesis using keeps_trans [OF keeps_trans [OF l(3)]] w2 by blast
qed


section \<open>Steps of virtual time\<close>

text \<open>The time of a slot is its epoch, modulo \<open>2^28\<close>.\<close>

definition time_ok :: "thread_world \<Rightarrow> bool" where
  "time_ok w \<longleftrightarrow> (\<forall>s. ts_vtime (thrst w s) AND VTIME_TIME_MASK = of_nat (16 * epoch w s)
     \<and> (next_addr w \<le> fst s \<longrightarrow> epoch w s = 0))"

definition tinv :: "thread_world \<Rightarrow> bool" where
  "tinv w \<longleftrightarrow> thr_inv w \<and> time_ok w"

text \<open>As long as its epoch stands still, an awake thread stays awake, and in its domain.\<close>

definition stays :: "thread_world \<Rightarrow> thread_world \<Rightarrow> bool" where
  "stays w w' \<longleftrightarrow> next_addr w \<le> next_addr w'
     \<and> (\<forall>s. fst s < next_addr w \<longrightarrow> epoch w s \<le> epoch w' s
          \<and> (epoch w' s = epoch w s \<and> \<not> sleeps s w \<longrightarrow> \<not> sleeps s w' \<and> ts_gv (thrst w' s) = ts_gv (thrst w s)))"

lemma stays_refl [simp]: "stays w w" by (simp add: stays_def)

lemma stays_trans:
  assumes "stays w w1" "stays w1 w2" shows "stays w w2"
proof -
  have "epoch w s \<le> epoch w2 s \<and> (epoch w2 s = epoch w s \<and> \<not> sleeps s w \<longrightarrow> \<not> sleeps s w2 \<and> ts_gv (thrst w2 s) = ts_gv (thrst w s))"
    if s: "fst s < next_addr w" for s
  proof -
    have "fst s < next_addr w1" using assms(1) s by (auto simp: stays_def)
    then have "epoch w1 s \<le> epoch w2 s" "epoch w s \<le> epoch w1 s"
      "epoch w2 s = epoch w1 s \<and> \<not> sleeps s w1 \<longrightarrow> \<not> sleeps s w2 \<and> ts_gv (thrst w2 s) = ts_gv (thrst w1 s)"
      "epoch w1 s = epoch w s \<and> \<not> sleeps s w \<longrightarrow> \<not> sleeps s w1 \<and> ts_gv (thrst w1 s) = ts_gv (thrst w s)"
      using assms s by (auto simp: stays_def)
    then show ?thesis by (metis dual_order.antisym order_trans)
  qed
  then show ?thesis using assms by (auto simp: stays_def)
qed

lemma keeps_tinv:
  assumes "tinv w" "thr_inv w'" "keeps w w'" shows "tinv w' \<and> stays w w'"
proof
  have *: "ts_vtime (thrst w' s) = ts_vtime (thrst w s) \<or> next_addr w \<le> fst s \<and> ts_vtime (thrst w' s) = 0" for s
    using assms(3) by (auto simp: keeps_def not_less) (metis linorder_not_less)
  have "ts_vtime (thrst w' s) AND VTIME_TIME_MASK = of_nat (16 * epoch w s)" for s
  proof -
    have "ts_vtime (thrst w s) AND VTIME_TIME_MASK = of_nat (16 * epoch w s)" "next_addr w \<le> fst s \<longrightarrow> epoch w s = 0"
      using assms(1) by (auto simp: tinv_def time_ok_def)
    with * [of s] show ?thesis by (elim disjE) simp_all
  qed
  moreover have "epoch w' = epoch w" "next_addr w \<le> next_addr w'" using assms(3) by (simp_all add: keeps_def)
  ultimately show "tinv w'" using assms(1,2) by (auto simp: tinv_def time_ok_def)
  show "stays w w'" using assms(3) by (auto simp: stays_def keeps_def sleeps_def)
qed

lemma tsd_stage: "thr_inv w \<Longrightarrow> tsd_thread_state w u = Some s \<Longrightarrow> os w u = AppThread \<or> os w u = Running s"
  using thr_inv_simps(4) [of w u] by (auto simp: tsd_ok_def split: os_thread.splits)

lemma own_step:
  assumes inv: "tinv w" and u: "tsd_thread_state w u = Some s"
    and same: "same_but u (Some s) w w'" "os w' u = os w u" "tsd_thread_state w' u = Some s"
    and x: "ts_state (thrst w' s) = ts_state (thrst w s)" "ts_tid (thrst w' s) = ts_tid (thrst w s)"
    and vt: "awake_ok w' u" "ts_vtime (thrst w' s) AND VTIME_TIME_MASK = (ts_vtime (thrst w s) AND VTIME_TIME_MASK) + 16 * of_nat d"
    and ep: "epoch w' = (epoch w)(s := epoch w s + d)"
  shows "tinv w' \<and> ((d = 0 \<longrightarrow> \<not> sleeps s w \<longrightarrow> \<not> sleeps s w' \<and> ts_gv (thrst w' s) = ts_gv (thrst w s)) \<longrightarrow> stays w w')"
proof (intro conjI impI)
  have ti: "thr_inv w" using inv by (simp add: tinv_def)
  have h: "held_ok w u s" "os w u = AppThread \<or> os w u = Running s" "holds w u = Some s"
    using ti u tsd_held tsd_stage tsd_holds thr_inv_simps(4) by blast+
  then have h': "held_ok w' u s"
    using x same same_but_slots [OF same(1)] by (auto simp: held_ok_def kind_of_def stage_kind_def)
  have "thr_inv w'"
    using h h' vt same x by (intro thr_inv_local [OF ti same(1)])
      (auto simp: held_ok_def holds_def tsd_ok_def stage_kind_def split: os_thread.splits)
  moreover have "fst s < next_addr w" using h(1) thr_inv_simps(1) [OF ti] by (auto simp: held_ok_def slots_iff chain_ok_def)
  ultimately show "tinv w'"
    using inv vt(2) same(1) by (auto simp: tinv_def time_ok_def same_but_def ep algebra_simps)
  show "stays w w'" if "d = 0 \<longrightarrow> \<not> sleeps s w \<longrightarrow> \<not> sleeps s w' \<and> ts_gv (thrst w' s) = ts_gv (thrst w s)"
    using that same(1) by (auto simp: stays_def ep same_but_def sleeps_def)
qed

text \<open>
  A thread that is awake may enter \<open>thread_state_awake\<close> again for the domain it is in, not for another.
\<close>

fun same_domain :: "thr_act \<Rightarrow> thread_world \<Rightarrow> bool" where
  "same_domain (Awake1 u gv) w =
    (case tsd_thread_state w u of None \<Rightarrow> True
     | Some s \<Rightarrow> vtime_awake_p (ts_vtime (thrst w s)) \<longrightarrow> ts_gv (thrst w s) = Some gv)"
| "same_domain _ w = True"

lemma asleep_awake: "vtime_asleep_p v \<longleftrightarrow> \<not> vtime_awake_p v"
  by (simp add: vtime_asleep_p_def vtime_awake_p_def)

lemma world_simps [simp]:
  "thrst (bump s w) = thrst w" "os (bump s w) = os w" "in_awake (bump s w) = in_awake w"
  "tsd_thread_state (bump s w) = tsd_thread_state w" "epoch (bump s w) = (epoch w)(s := Suc (epoch w s))"
  "thrst (set_thr s x w) s' = (if s' = s then x else thrst w s')" "os (set_thr s x w) = os w"
  "in_awake (set_thr s x w) = in_awake w" "epoch (set_thr s x w) = epoch w"
  "tsd_thread_state (set_thr s x w) = tsd_thread_state w"
  by (simp_all add: bump_def set_thr_def)

lemma same_but_own [simp]:
  "same_but u (Some s) w (bump s w') = same_but u (Some s) w w'"
  "same_but u (Some s) w (w'\<lparr>in_awake := (in_awake w')(u := y)\<rparr>) = same_but u (Some s) w w'"
  "same_but u (Some s) w (set_thr s x w)"
  "same_but u (Some s) w ((set_thr s x w)\<lparr>in_awake := (in_awake w)(u := y)\<rparr>)"
  by (auto simp: same_but_def bump_def set_thr_def)

lemma exec_time:
  assumes inv: "tinv w" and u: "tsd_thread_state w u = Some s"
  shows "thr_exec (Awake1 u gv) w = Some w' \<Longrightarrow> tinv w' \<and> (same_domain (Awake1 u gv) w \<longrightarrow> stays w w')"
    and "thr_exec (Awake2 u) w = Some w' \<Longrightarrow> tinv w' \<and> stays w w'"
    and "thr_exec (Awake_domain_ok u) w = Some w' \<Longrightarrow> tinv w' \<and> stays w w'"
    and "thr_exec (Asleep u) w = Some w' \<Longrightarrow> tinv w' \<and> stays w w'"
    and "thr_exec (Awake_to_awake u) w = Some w' \<Longrightarrow> tinv w' \<and> stays w w'"
proof -
  let ?vt = "ts_vtime (thrst w s)"
  have ok: "awake_ok w u" using inv by (simp add: tinv_def thr_inv_simps)
  note own = own_step [OF inv u]
  show "tinv w' \<and> (same_domain (Awake1 u gv) w \<longrightarrow> stays w w')" if ex: "thr_exec (Awake1 u gv) w = Some w'"
  proof -
    have lt: "?vt AND VTIME_NEST_MASK < VTIME_NEST_MASK"
      and w': "w' = (set_thr s (thrst w s\<lparr>ts_gv := Some gv\<rparr>) w)\<lparr>in_awake := (in_awake w)(u := Some ?vt)\<rparr>"
      using ex u by (auto simp: thread_state_awake_gv_def split: if_splits)
    have "awake_ok w' u" using lt u by (simp add: w' awake_ok_def)
    then show ?thesis
      using own [of w' 0] u by (simp add: w' sleeps_def asleep_awake)
  qed
  show "tinv w' \<and> stays w w'" if ex: "thr_exec (Awake2 u) w = Some w'"
  proof -
    obtain vt where vt: "in_awake w u = Some vt" using ex u by (auto split: option.splits)
    then have "?vt = vt" "vt AND VTIME_NEST_MASK < VTIME_NEST_MASK" using ok u by (auto simp: awake_ok_def)
    moreover have "w' = (set_thr s (thread_state_awake_vtime vt (thrst w s)) w)\<lparr>in_awake := (in_awake w)(u := None)\<rparr>"
      using ex u vt by simp
    ultimately show ?thesis
      using own [of w' 0] u step_awake [of vt]
      by (simp add: thread_state_awake_vtime_def awake_ok_def sleeps_def asleep_awake)
  qed
  show "tinv w' \<and> stays w w'" if ex: "thr_exec (Awake_domain_ok u) w = Some w'"
  proof -
    have "?vt AND VTIME_NEST_MASK < VTIME_NEST_MASK" "in_awake w u = None"
      "w' = set_thr s (thrst w s\<lparr>ts_vtime := ?vt + 1\<rparr>) w"
      using ex u by (auto simp: thread_state_awake_domain_ok_def can_act_def Let_def split: if_splits)
    then show ?thesis
      using own [of w' 0] u step_awake [of ?vt] by (simp add: awake_ok_def sleeps_def asleep_awake)
  qed
  show "tinv w' \<and> stays w w'" if ex: "thr_exec (Awake_to_awake u) w = Some w'"
  proof -
    have "?vt AND VTIME_NEST_MASK = 1" "in_awake w u = None"
      "w' = bump s (set_thr s (thrst w s\<lparr>ts_vtime := ?vt + 16\<rparr>) w)"
      using ex u by (auto simp: thread_state_awake_to_awake_no_nest_def can_act_def Let_def VTIME_TIME_SHIFT_def
          push_bit_eq_mult split: if_splits)
    then show ?thesis
      using own [of w' 1] u step_awake_to_awake [of ?vt] by (simp add: awake_ok_def)
  qed
  show "tinv w' \<and> stays w w'" if ex: "thr_exec (Asleep u) w = Some w'"
  proof (cases "?vt AND VTIME_NEST_MASK = 1")
    case True
    then have "in_awake w u = None" "w' = bump s (set_thr s (thrst w s\<lparr>ts_vtime := ?vt + 15\<rparr>) w)"
      using ex u step_asleep_last [OF True] by (auto simp: thread_state_asleep_def can_act_def Let_def VTIME_TIME_SHIFT_def
          push_bit_eq_mult split: if_splits)
    then show ?thesis
      using own [of w' 1] u step_asleep_last [OF True] by (simp add: awake_ok_def)
  next
    case False
    have aw: "vtime_awake_p ?vt" using ex u by (auto simp: thread_state_asleep_def Let_def split: if_splits)
    then have "in_awake w u = None" "w' = set_thr s (thrst w s\<lparr>ts_vtime := ?vt - 1\<rparr>) w"
      using ex u False step_asleep_nested [OF aw False]
      by (auto simp: thread_state_asleep_def can_act_def Let_def asleep_awake split: if_splits)
    then show ?thesis
      using own [of w' 0] u step_asleep_nested [OF aw False] by (simp add: awake_ok_def sleeps_def asleep_awake)
  qed
qed

lemma exec_tinv:
  assumes inv: "tinv w" and ex: "thr_exec a w = Some w'"
  shows "tinv w' \<and> (same_domain a w \<longrightarrow> stays w w')"
proof -
  have ti: "thr_inv w" using inv by (simp add: tinv_def)
  note k = keeps_tinv [OF inv]
  have own: "\<exists>s. tsd_thread_state w u = Some s"
    if "a = Awake1 u g \<or> a = Awake2 u \<or> a = Awake_domain_ok u \<or> a = Asleep u \<or> a = Awake_to_awake u" for u g
    using that ex by (auto split: option.splits)
  show ?thesis
  proof (cases a)
    case (App_start u) then show ?thesis using exec_App_start [OF ti] ex k by blast
  next
    case (Init u n) then show ?thesis using exec_Init [OF ti] ex k by blast
  next
    case (Lookup u n) then show ?thesis using exec_Lookup [OF ti] ex k by blast
  next
    case (Create v gv n f x) then show ?thesis using exec_Create [OF ti] ex k by blast
  next
    case (Wrapper_start v) then show ?thesis using exec_Wrapper_start [OF ti] ex k by blast
  next
    case (Wrapper_stop v) then show ?thesis using exec_Wrapper_stop [OF ti] ex k by blast
  next
    case (Join v) then show ?thesis using exec_Join [OF ti] ex k by blast
  next
    case (App_exit v) then show ?thesis using exec_App_exit [OF ti] ex k by blast
  next
    case (Fini v n) then show ?thesis using exec_Fini [OF ti] ex k by blast
  next
    case (Awake1 u gv)
    then show ?thesis using own [of u gv] exec_time(1) [OF inv] ex by blast
  next
    case (Awake2 u)
    then show ?thesis using own [of u] exec_time(2) [OF inv] ex by blast
  next
    case (Awake_domain_ok u)
    then show ?thesis using own [of u] exec_time(3) [OF inv] ex by blast
  next
    case (Asleep u)
    then show ?thesis using own [of u] exec_time(4) [OF inv] ex by blast
  next
    case (Awake_to_awake u)
    then show ?thesis using own [of u] exec_time(5) [OF inv] ex by blast
  qed
qed

lemma tinv_world0: "tinv thread_world0"
  by (simp add: tinv_def thr_inv_def thread_world0_def chain_ok_def holds_def slots_def slots_of_def tsd_ok_def
      awake_ok_def time_ok_def zero_thread_state_def)

lemma run_tinv: "thr_run as w = Some w' \<Longrightarrow> tinv w \<Longrightarrow> tinv w'"
  by (induction as arbitrary: w) (use exec_tinv in \<open>auto split: option.splits\<close>)

section \<open>Slots belong to one thread\<close>

lemma find_own:
  assumes inv: "thr_inv w" and u: "tsd_thread_state w u = Some s"
  shows "find_thread_state u w = Some s"
proof -
  let ?P = "\<lambda>s. above_INIT (ts_state (thrst w s)) \<and> ts_tid (thrst w s) = u"
  have h: "held_ok w u s" "os w u = AppThread \<or> os w u = Running s" "holds w u = Some s"
    using inv u tsd_held tsd_stage tsd_holds thr_inv_simps(4) by blast+
  have "s \<in> set (filter ?P (slots_of (thread_states_head w)))"
    using h by (auto simp: held_ok_def kind_of_def stage_kind_def slots_def)
  moreover have "s' = s" if "s' \<in> slots w" "?P s'" for s'
    using that thr_inv_simps(3) [OF inv that(1)] h(3) by (auto simp: slot_ok_def kind_of_def split: if_splits)
  ultimately show ?thesis
    by (cases "filter ?P (slots_of (thread_states_head w))")
      (auto simp: find_thread_state_def slots_def filter_eq_Cons_iff)
qed

text \<open>C35: In every run a thread's slot is its own: no other thread has it, it is marked as in use by that
  thread and a search by thread id finds it. A slot found free can always be taken (the assertion that
  its last user has gone to sleep cannot fail), and \<open>nthreads\<close> counts the slots.\<close>

theorem thread_slots_exclusive:
  assumes "thr_run acts thread_world0 = Some w"
  shows "(\<forall>u v s. tsd_thread_state w u = Some s \<and> tsd_thread_state w v = Some s \<longrightarrow> u = v)
    \<and> (\<forall>u s. tsd_thread_state w u = Some s \<longrightarrow> s \<in> set (slots_of (thread_states_head w))
          \<and> ts_tid (thrst w s) = u \<and> above_INIT (ts_state (thrst w s)) \<and> find_thread_state u w = Some s)
    \<and> (thread_states_head w \<noteq> [] \<longrightarrow> init_thread_state name gv k w \<noteq> None
          \<and> nthreads w (hd (thread_states_head w)) = of_nat (length (slots_of (thread_states_head w))))"
proof (intro conjI allI impI)
  have inv: "thr_inv w" using run_tinv [OF assms tinv_world0] by (simp add: tinv_def)
  have own: "s \<in> slots w \<and> ts_tid (thrst w s) = u \<and> above_INIT (ts_state (thrst w s))" if "tsd_thread_state w u = Some s" for u s
    using tsd_held [OF inv that] tsd_stage [OF inv that] by (auto simp: held_ok_def kind_of_def stage_kind_def)
  show "u = v" if "tsd_thread_state w u = Some s \<and> tsd_thread_state w v = Some s" for u v s
    using own [of u s] own [of v s] that by simp
  show "s \<in> set (slots_of (thread_states_head w))" "ts_tid (thrst w s) = u" "above_INIT (ts_state (thrst w s))"
    "find_thread_state u w = Some s" if "tsd_thread_state w u = Some s" for u s
    using own [OF that] find_own [OF inv that] by (auto simp: slots_def)
  assume ne: "thread_states_head w \<noteq> []"
  show "init_thread_state name gv k w \<noteq> None" by (rule init_thread_state_ok [OF inv ne]) auto
  have "nthreads_ok (nthreads w) (thread_states_head w)" using thr_inv_simps(1) [OF inv] by (simp add: chain_ok_def)
  moreover have "length (slots_of c) = THREAD_STATE_BATCH * length c" for c
    by (induction c) (auto simp: slots_of_def)
  ultimately show "nthreads w (hd (thread_states_head w)) = of_nat (length (slots_of (thread_states_head w)))"
    using ne by (cases "thread_states_head w") auto
qed


definition sample_acts :: "thr_act list" where
  "sample_acts = [App_start 1, Init 1 ''main'', App_start 2, Lookup 2 ''app'', Create 3 (Some 7) ''gc'' 0 0,
     Wrapper_start 3, Awake_domain_ok 3, Awake1 2 7, Awake2 2, Asleep 2, Asleep 3, Wrapper_stop 3, App_exit 2]"

theorem thread_slots_exclusive_witness:
  "\<exists>w. thr_run sample_acts thread_world0 = Some w \<and> tsd_thread_state w 1 = Some (0, 0)
     \<and> find_thread_state 1 w = Some (0, 0) \<and> nthreads w 0 = 32"
proof -
  have e: "map_option (\<lambda>w. (tsd_thread_state w 1, thread_states_head w)) (thr_run sample_acts thread_world0)
      = Some (Some (0, 0), [0])"
    by code_simp
  then obtain w where w: "thr_run sample_acts thread_world0 = Some w" "tsd_thread_state w 1 = Some (0, 0)"
    "thread_states_head w = [0]" by auto
  from thread_slots_exclusive [OF w(1)] w(2,3)
  have "find_thread_state 1 w = Some (0, 0)" "nthreads w 0 = of_nat (length (slots_of [0]))" by auto
  moreover have "length (slots_of [0]) = 32" by code_simp
  ultimately show ?thesis using w by auto
qed

end
