(* ===== verification/Gc_Props.thy ===== *)
theory Gc_Props
  imports Gc Threads_Props
begin

text \<open>
  What the garbage collector is for: a callback runs only after every thread that was awake in the
  domain when the request was made has left the stretch it was in (for all interleavings, each load
  of the collector a step of its own), and once they all have, the next check says so. The queue is
  first in, first out, and its thread ends only when no request is left.
\<close>

declare split_paired_All [simp del] split_paired_Ex [simp del]

section \<open>Executions of the threads\<close>

fun thr_run_same :: "thr_act list \<Rightarrow> thread_world \<Rightarrow> thread_world option" where
  "thr_run_same [] w = Some w"
| "thr_run_same (a # as) w =
    (if same_domain a w then case thr_exec a w of None \<Rightarrow> None | Some w' \<Rightarrow> thr_run_same as w' else None)"

text \<open>
  The memory over time: between two points any number of steps of any threads, none of which enters
  another domain while it is awake in one.
\<close>

definition trace :: "memory \<Rightarrow> bool" where
  "trace \<sigma> \<longleftrightarrow> \<sigma> 0 = thread_world0 \<and> (\<forall>n. \<exists>as. thr_run_same as (\<sigma> n) = Some (\<sigma> (Suc n)))"

lemma run_same_stays: "thr_run_same as w = Some w' \<Longrightarrow> tinv w \<Longrightarrow> tinv w' \<and> stays w w'"
proof (induction as arbitrary: w)
  case (Cons a as)
  then obtain w1 where w1: "same_domain a w" "thr_exec a w = Some w1" "thr_run_same as w1 = Some w'"
    by (auto split: if_splits option.splits)
  from exec_tinv [OF Cons.prems(2) w1(2)] w1(1) have "tinv w1" "stays w w1" by auto
  with Cons.IH [OF w1(3)] show ?case using stays_trans by blast
qed simp

lemma trace_tinv: "trace \<sigma> \<Longrightarrow> tinv (\<sigma> n)"
proof (induction n)
  case 0 then show ?case using tinv_world0 by (simp add: trace_def)
next
  case (Suc n)
  then obtain as where "thr_run_same as (\<sigma> n) = Some (\<sigma> (Suc n))" by (auto simp: trace_def)
  from run_same_stays [OF this] Suc show ?case by simp
qed

lemma trace_stays:
  assumes "trace \<sigma>" "m \<le> n" shows "stays (\<sigma> m) (\<sigma> n)"
  using assms(2)
proof (induction rule: dec_induct)
  case (step n)
  obtain as where "thr_run_same as (\<sigma> n) = Some (\<sigma> (Suc n))" using assms(1) by (auto simp: trace_def)
  from run_same_stays [OF this trace_tinv [OF assms(1)]] step show ?case using stays_trans by blast
qed simp

text \<open>A slot that exists at time \<open>b\<close>.\<close>

definition old_slot :: "memory \<Rightarrow> nat \<Rightarrow> slot \<Rightarrow> bool" where
  "old_slot \<sigma> b s \<longleftrightarrow> fst s < next_addr (\<sigma> b)"

lemma old_slot_chain: "trace \<sigma> \<Longrightarrow> s \<in> set (slots_of (thread_states_head (\<sigma> b))) \<Longrightarrow> old_slot \<sigma> b s"
  using trace_tinv [of \<sigma> b] by (auto simp: tinv_def thr_inv_def chain_ok_def old_slot_def slots_of_def)

lemma old_slot_mono: "trace \<sigma> \<Longrightarrow> old_slot \<sigma> b s \<Longrightarrow> b \<le> n \<Longrightarrow> old_slot \<sigma> n s"
  using trace_stays [of \<sigma> b n] by (auto simp: old_slot_def stays_def)

lemma epoch_mono: "trace \<sigma> \<Longrightarrow> old_slot \<sigma> b s \<Longrightarrow> b \<le> m \<Longrightarrow> m \<le> n \<Longrightarrow> epoch (\<sigma> m) s \<le> epoch (\<sigma> n) s"
  using trace_stays [of \<sigma> m n] old_slot_mono [of \<sigma> b s m] by (auto simp: old_slot_def stays_def)

lemma trace_time: "trace \<sigma> \<Longrightarrow> ts_vtime (thrst (\<sigma> n) s) AND VTIME_TIME_MASK = of_nat (16 * epoch (\<sigma> n) s)"
  using trace_tinv [of \<sigma> n] by (simp add: tinv_def time_ok_def)

text \<open>The thread of slot \<open>s\<close> is awake in the domain at time \<open>b\<close>: it may be using what is to be freed.\<close>

definition in_domain :: "gvid \<Rightarrow> memory \<Rightarrow> nat \<Rightarrow> slot \<Rightarrow> bool" where
  "in_domain gv \<sigma> b s \<longleftrightarrow> vtime_awake_p (ts_vtime (thrst (\<sigma> b) s)) \<and> ts_gv (thrst (\<sigma> b) s) = Some gv"

lemma in_domain_stays:
  assumes "trace \<sigma>" "old_slot \<sigma> b s" "in_domain gv \<sigma> b s" "b \<le> n" "epoch (\<sigma> n) s = epoch (\<sigma> b) s"
  shows "in_domain gv \<sigma> n s"
  using trace_stays [OF assms(1,4)] assms(2,3,5) by (auto simp: old_slot_def in_domain_def stays_def sleeps_def asleep_awake)

section \<open>Gathering and checking\<close>

lemma gather_loop_covers:
  assumes tr: "trace \<sigma>" and b: "old_slot \<sigma> b s" "in_domain gv \<sigma> b s"
  shows "b \<le> t \<Longrightarrow> gather_loop gv \<sigma> t ss = (ivs, t') \<Longrightarrow> t \<le> t' \<and> (s \<in> set ss \<longrightarrow>
     epoch (\<sigma> b) s < epoch (\<sigma> t') s
     \<or> (\<exists>iv \<in> set ivs. iv_thrst iv = s \<and> iv_vtime iv AND VTIME_TIME_MASK = of_nat (16 * epoch (\<sigma> b) s)))"
proof (induction ss arbitrary: t ivs t')
  case (Cons x ss)
  let ?vt = "ts_vtime (thrst (\<sigma> t) x)"
  let ?aw = "vtime_awake_p ?vt" and ?gv = "Some gv = ts_gv (thrst (\<sigma> (t + 1)) x)"
  let ?t1 = "if ?aw then t + 2 else t + 1"
  obtain ivs1 where rest: "gather_loop gv \<sigma> ?t1 ss = (ivs1, t')"
    and ivs: "ivs = (if ?aw \<and> ?gv then \<lparr>iv_thrst = x, iv_vtime = ?vt\<rparr> # ivs1 else ivs1)"
    using Cons.prems(2) by (cases "gather_loop gv \<sigma> ?t1 ss") (auto simp: Let_def split: if_splits)
  have le: "?t1 \<le> t'" and IH: "s \<in> set ss \<longrightarrow> epoch (\<sigma> b) s < epoch (\<sigma> t') s
     \<or> (\<exists>iv \<in> set ivs1. iv_thrst iv = s \<and> iv_vtime iv AND VTIME_TIME_MASK = of_nat (16 * epoch (\<sigma> b) s))"
    using Cons.IH [OF _ rest] Cons.prems(1) by auto
  have "epoch (\<sigma> b) s < epoch (\<sigma> t') s \<or> ?aw \<and> ?gv \<and> ?vt AND VTIME_TIME_MASK = of_nat (16 * epoch (\<sigma> b) s)" if "x = s"
  proof (cases "epoch (\<sigma> t') s = epoch (\<sigma> b) s")
    case True
    have eq: "epoch (\<sigma> n) s = epoch (\<sigma> b) s" if "b \<le> n" "n \<le> t'" for n
      using epoch_mono [OF tr b(1), of b n] epoch_mono [OF tr b(1), of n t'] that True by simp
    have aw: ?aw using in_domain_stays [OF tr b Cons.prems(1)] eq [of t] Cons.prems(1) le that
      by (auto simp: in_domain_def split: if_splits)
    then have "in_domain gv \<sigma> (t + 1) s" using in_domain_stays [OF tr b, of "t + 1"] eq [of "t + 1"] Cons.prems(1) le by simp
    then show ?thesis using aw that eq [of t] Cons.prems(1) le trace_time [OF tr, of t s] by (auto simp: in_domain_def split: if_splits)
  next
    case False
    then show ?thesis using epoch_mono [OF tr b(1), of b t'] Cons.prems(1) le by (auto split: if_splits)
  qed
  then show ?case using IH ivs le by (auto split: if_splits)
qed auto

lemma gather_loop_length: "gather_loop gv \<sigma> t ss = (ivs, t') \<Longrightarrow> length ivs \<le> length ss"
  by (induction ss arbitrary: t ivs t') (fastforce simp: Let_def split: if_splits prod.splits)+

text \<open>The array of a request is as long as \<open>nthreads\<close>, which the gathered entries do not exceed.\<close>

lemma gather_fits:
  assumes "trace \<sigma>" "threads_vtime_gather_for_wait gv \<sigma> (b + 1) (thread_states_head (\<sigma> b)) = (ivs, t')"
    and "thread_states_head (\<sigma> b) \<noteq> []" "length (thread_states_head (\<sigma> b)) < 2 ^ 27"
  shows "length ivs \<le> unat (nthreads (\<sigma> b) (hd (thread_states_head (\<sigma> b))))"
proof -
  have l: "length (slots_of c) = THREAD_STATE_BATCH * length c" for c
    by (induction c) (auto simp: slots_of_def)
  have "nthreads_ok (nthreads (\<sigma> b)) (thread_states_head (\<sigma> b))"
    using trace_tinv [OF assms(1), of b] by (simp add: tinv_def thr_inv_def chain_ok_def)
  then have "nthreads (\<sigma> b) (hd (thread_states_head (\<sigma> b))) = of_nat (THREAD_STATE_BATCH * length (thread_states_head (\<sigma> b)))"
    using assms(3) by (cases "thread_states_head (\<sigma> b)") auto
  moreover have "THREAD_STATE_BATCH * length (thread_states_head (\<sigma> b)) < 2 ^ LENGTH(32)"
    using assms(4) by (simp add: THREAD_STATE_BATCH_def)
  ultimately show ?thesis
    using gather_loop_length [OF assms(2) [unfolded threads_vtime_gather_for_wait_def]]
    by (simp only: l unsigned_of_nat take_bit_nat_eq_self of_nat_id)
qed

lemma drop_iv_mset:
  assumes "i < nivs" "nivs \<le> length ivs"
  shows "mset (take nivs ivs) = add_mset (ivs ! i) (mset (take (nivs - 1) (drop_iv i nivs ivs)))"
proof -
  obtain xs y where ivs: "take nivs ivs = xs @ [y]" "length xs = nivs - 1"
  proof (cases "take nivs ivs" rule: rev_cases)
    case (snoc xs y)
    have "length (xs @ [y]) = nivs" using assms by (simp flip: snoc)
    then show ?thesis using that [of xs y] snoc by simp
  qed (use assms in auto)
  have nth: "(xs @ [y]) ! j = ivs ! j" if "j < nivs" for j using that by (metis ivs(1) nth_take)
  have y: "y = ivs ! (nivs - 1)" using nth [of "nivs - 1"] assms ivs(2) by (simp add: nth_append)
  have xs: "xs = take (nivs - 1) ivs"
    using ivs assms by (metis append_eq_conv_conj butlast_snoc butlast_take)
  show ?thesis
  proof (cases "i + 1 < nivs")
    case True
    then have "take (nivs - 1) (drop_iv i nivs ivs) = xs[i := y]" by (simp add: drop_iv_def take_update_swap xs y)
    moreover have "xs ! i = ivs ! i" "i < length xs" using nth [of i] True ivs(2) by (simp_all add: nth_append split: if_splits)
    moreover have "ivs ! i \<in># mset xs" using calculation(2,3) by (metis nth_mem_mset)
    ultimately show ?thesis using ivs(1) by (simp add: mset_update)
  next
    case False
    then have "i = nivs - 1" using assms by simp
    then show ?thesis using ivs(1) False by (simp add: drop_iv_def xs y)
  qed
qed

lemma drop_iv_length [simp]: "length (drop_iv i nivs ivs) = length ivs"
  by (simp add: drop_iv_def)

declare vtime_check_loop.simps [simp del]

lemma vtime_gt_irrefl: "v1 AND VTIME_TIME_MASK = v0 AND VTIME_TIME_MASK \<Longrightarrow> \<not> vtime_gt v1 v0"
  by (simp add: vtime_gt_def)

text \<open>What an entry stands for: its thread was in the domain at time \<open>b\<close>, and this is its time then.\<close>

definition waits_for :: "gvid \<Rightarrow> memory \<Rightarrow> nat \<Rightarrow> idx_vtime \<Rightarrow> bool" where
  "waits_for gv \<sigma> b iv \<longleftrightarrow> old_slot \<sigma> b (iv_thrst iv) \<and> in_domain gv \<sigma> b (iv_thrst iv)
     \<and> iv_vtime iv AND VTIME_TIME_MASK = of_nat (16 * epoch (\<sigma> b) (iv_thrst iv))"

lemma not_dropped:
  assumes tr: "trace \<sigma>" and wf: "waits_for gv \<sigma> b iv" and b: "b \<le> t"
    and drop: "vtime_gt (ts_vtime (thrst (\<sigma> t) (iv_thrst iv))) (iv_vtime iv) \<or> ts_gv (thrst (\<sigma> t) (iv_thrst iv)) \<noteq> Some gv"
  shows "epoch (\<sigma> b) (iv_thrst iv) < epoch (\<sigma> t) (iv_thrst iv)"
proof (rule ccontr)
  assume "\<not> ?thesis"
  then have eq: "epoch (\<sigma> t) (iv_thrst iv) = epoch (\<sigma> b) (iv_thrst iv)"
    using epoch_mono [OF tr, of b "iv_thrst iv" b t] wf b by (auto simp: waits_for_def)
  have "in_domain gv \<sigma> t (iv_thrst iv)" using in_domain_stays [OF tr _ _ b eq] wf by (auto simp: waits_for_def)
  then show False using drop wf eq trace_time [OF tr, of t "iv_thrst iv"]
    by (auto simp: in_domain_def waits_for_def vtime_gt_irrefl)
qed

lemma vtime_check_loop_keeps:
  "trace \<sigma> \<Longrightarrow> vtime_check_loop gv \<sigma> t i nivs ivs = (n', ivs', t') \<Longrightarrow> nivs \<le> length ivs \<Longrightarrow> b \<le> t \<Longrightarrow>
    t \<le> t' \<and> n' \<le> length ivs' \<and>
    (waits_for gv \<sigma> b iv \<and> iv \<in># mset (take nivs ivs) \<longrightarrow>
       epoch (\<sigma> b) (iv_thrst iv) < epoch (\<sigma> t') (iv_thrst iv) \<or> iv \<in># mset (take n' ivs'))"
proof (induction gv \<sigma> t i nivs ivs rule: vtime_check_loop.induct)
  case (1 gv \<sigma> t i nivs ivs)
  let ?s = "iv_thrst (ivs ! i)"
  let ?gt = "vtime_gt (ts_vtime (thrst (\<sigma> t) ?s)) (iv_vtime (ivs ! i))"
  let ?in = "ts_gv (thrst (\<sigma> (t + 1)) ?s) = Some gv"
  show ?case
  proof (cases "i < nivs")
    case False
    then show ?thesis using 1(4-7) by (simp add: vtime_check_loop.simps [of gv \<sigma> t i])
  next
    case i: True
    note eq = vtime_check_loop.simps [of gv \<sigma> t i nivs ivs]
    show ?thesis
    proof (cases "\<not> ?gt \<and> ?in")
      case True
      then show ?thesis using 1(1) [OF i refl refl] 1(4-7) i by (simp add: eq Let_def)
    next
      case False
      define t1 where "t1 = (if ?gt then t + 1 else t + 2)"
      have rest: "vtime_check_loop gv \<sigma> t1 i (nivs - 1) (drop_iv i nivs ivs) = (n', ivs', t')"
        using 1(5) i False by (simp add: eq Let_def t1_def split: if_splits)
      have IH: "t1 \<le> t' \<and> n' \<le> length ivs' \<and>
        (waits_for gv \<sigma> b iv \<and> iv \<in># mset (take (nivs - 1) (drop_iv i nivs ivs)) \<longrightarrow>
           epoch (\<sigma> b) (iv_thrst iv) < epoch (\<sigma> t') (iv_thrst iv) \<or> iv \<in># mset (take n' ivs'))"
      proof (cases ?gt)
        case True
        then show ?thesis using 1(3) [OF i refl refl] rest 1(4,6,7) by (simp add: t1_def)
      next
        case gt: False
        then show ?thesis using 1(2) [OF i refl refl] False rest 1(4,6,7) by (simp add: t1_def)
      qed
      have "epoch (\<sigma> b) (iv_thrst iv) < epoch (\<sigma> t') (iv_thrst iv)" if w: "waits_for gv \<sigma> b iv" "iv = ivs ! i"
      proof -
        define m where "m = (if ?gt then t else t + 1)"
        have m: "b \<le> m" "m \<le> t'" using IH 1(7) by (auto simp: m_def t1_def split: if_splits)
        have "epoch (\<sigma> b) (iv_thrst iv) < epoch (\<sigma> m) (iv_thrst iv)"
          using not_dropped [OF 1(4) w(1) m(1)] False w(2) by (auto simp: m_def)
        also have "\<dots> \<le> epoch (\<sigma> t') (iv_thrst iv)"
          using epoch_mono [OF 1(4) _ m] w(1) by (simp add: waits_for_def)
        finally show ?thesis .
      qed
      then show ?thesis using IH drop_iv_mset [OF i 1(6)] by (auto simp: t1_def split: if_splits)
    qed
  qed
qed


lemma vtime_check_loop_time: "vtime_check_loop gv \<sigma> t i nivs ivs = (n', ivs', t') \<Longrightarrow> t \<le> t'"
proof (induction gv \<sigma> t i nivs ivs rule: vtime_check_loop.induct)
  case (1 gv \<sigma> t i nivs ivs)
  show ?case
  proof (cases "i < nivs")
    case True
    from 1(1-3) [OF True refl refl] 1(4) True show ?thesis
      by (simp add: vtime_check_loop.simps [of gv \<sigma> t i nivs ivs] Let_def split: if_splits)
  qed (use 1(4) in \<open>simp add: vtime_check_loop.simps [of gv \<sigma> t i nivs ivs]\<close>)
qed

text \<open>A check that finds every thread further on removes all entries, with one load each.\<close>

lemma vtime_check_loop_empties:
  "nivs \<le> length ivs \<Longrightarrow>
    (\<And>iv n. iv \<in># mset (take nivs ivs) \<Longrightarrow> t \<le> n \<Longrightarrow> n < t + nivs \<Longrightarrow>
       vtime_gt (ts_vtime (thrst (\<sigma> n) (iv_thrst iv))) (iv_vtime iv)) \<Longrightarrow>
   fst (vtime_check_loop gv \<sigma> t 0 nivs ivs) = 0"
proof (induction nivs arbitrary: t ivs)
  case 0
  then show ?case by (simp add: vtime_check_loop.simps)
next
  case (Suc k)
  have m: "mset (take (Suc k) ivs) = add_mset (ivs ! 0) (mset (take k (drop_iv 0 (Suc k) ivs)))"
    using drop_iv_mset [of 0 "Suc k" ivs] Suc.prems(1) by simp
  have "vtime_gt (ts_vtime (thrst (\<sigma> t) (iv_thrst (ivs ! 0)))) (iv_vtime (ivs ! 0))"
    using m by (intro Suc.prems(2)) auto
  moreover have "fst (vtime_check_loop gv \<sigma> (t + 1) 0 k (drop_iv 0 (Suc k) ivs)) = 0"
    using m Suc.prems(1) by (intro Suc.IH) (auto intro!: Suc.prems(2))
  ultimately show ?case by (simp add: vtime_check_loop.simps [of gv \<sigma> t 0 "Suc k"] Let_def)
qed

lemma gather_loop_times:
  assumes tr: "trace \<sigma>"
  shows "gather_loop gv \<sigma> t ss = (ivs, e) \<Longrightarrow> t \<le> e \<and> (\<forall>iv \<in> set ivs. iv_thrst iv \<in> set ss \<and>
     (\<exists>k. t \<le> k \<and> k \<le> e \<and> iv_vtime iv AND VTIME_TIME_MASK = of_nat (16 * epoch (\<sigma> k) (iv_thrst iv))))"
proof (induction ss arbitrary: t ivs e)
  case (Cons x ss)
  let ?vt = "ts_vtime (thrst (\<sigma> t) x)"
  let ?aw = "vtime_awake_p ?vt" and ?gv = "Some gv = ts_gv (thrst (\<sigma> (t + 1)) x)"
  let ?t1 = "if ?aw then t + 2 else t + 1"
  obtain ivs1 where rest: "gather_loop gv \<sigma> ?t1 ss = (ivs1, e)"
    and ivs: "ivs = (if ?aw \<and> ?gv then \<lparr>iv_thrst = x, iv_vtime = ?vt\<rparr> # ivs1 else ivs1)"
    using Cons.prems by (cases "gather_loop gv \<sigma> ?t1 ss") (auto simp: Let_def split: if_splits)
  note IH = Cons.IH [OF rest]
  have le: "t \<le> ?t1" "t \<le> e" using IH by (auto split: if_splits)
  have "\<exists>k. t \<le> k \<and> k \<le> e \<and> ?vt AND VTIME_TIME_MASK = of_nat (16 * epoch (\<sigma> k) x)"
    using trace_time [OF tr, of t x] le by (intro exI [of _ t]) simp
  moreover have "iv_thrst iv \<in> set (x # ss) \<and>
      (\<exists>k. t \<le> k \<and> k \<le> e \<and> iv_vtime iv AND VTIME_TIME_MASK = of_nat (16 * epoch (\<sigma> k) (iv_thrst iv)))"
    if "iv \<in> set ivs1" for iv
    using IH that le(1) by (meson list.set_intros(2) order_trans)
  ultimately show ?case using le ivs by auto
qed simp

text \<open>C33: Once every thread a request waits for has been asleep (or passed through \<open>awake_to_awake\<close>) after
  the request was made, the next check lets the callback run, provided no thread has done so \<open>2^27\<close> times
  or more by then; virtual time, a counter of 28 bits compared with its sign, then still tells earlier
  from later.\<close>

theorem gc_waiting_ends:
  assumes "trace \<sigma>"
    and "threads_vtime_gather_for_wait gv \<sigma> (b + 1) (thread_states_head (\<sigma> b)) = (ivs, e)" and "e \<le> t"
    and "\<forall>iv \<in> set ivs. epoch (\<sigma> e) (iv_thrst iv) < epoch (\<sigma> t) (iv_thrst iv)
      \<and> epoch (\<sigma> (t + length ivs)) (iv_thrst iv) < epoch (\<sigma> b) (iv_thrst iv) + 2 ^ 27"
  shows "fst (threads_vtime_check gv \<sigma> t (length ivs) ivs)"
proof -
  have "vtime_gt (ts_vtime (thrst (\<sigma> n) (iv_thrst iv))) (iv_vtime iv)"
    if iv: "iv \<in> set ivs" and n: "t \<le> n" "n < t + length ivs" for iv n
  proof -
    let ?s = "iv_thrst iv"
    note g = gather_loop_times [OF assms(1) assms(2) [unfolded threads_vtime_gather_for_wait_def]]
    obtain k where k: "b \<le> k" "k \<le> e" "iv_vtime iv AND VTIME_TIME_MASK = of_nat (16 * epoch (\<sigma> k) ?s)"
      using g iv by (meson add_leD1)
    have old: "old_slot \<sigma> b ?s" using g iv old_slot_chain [OF assms(1)] by blast
    note mono = epoch_mono [OF assms(1) old]
    have "epoch (\<sigma> b) ?s \<le> epoch (\<sigma> k) ?s" "epoch (\<sigma> k) ?s \<le> epoch (\<sigma> e) ?s"
      "epoch (\<sigma> t) ?s \<le> epoch (\<sigma> n) ?s" "epoch (\<sigma> n) ?s \<le> epoch (\<sigma> (t + length ivs)) ?s"
      using k n assms(3) by (auto intro!: mono)
    then have d: "epoch (\<sigma> k) ?s \<le> epoch (\<sigma> n) ?s" "0 < epoch (\<sigma> n) ?s - epoch (\<sigma> k) ?s"
      "epoch (\<sigma> n) ?s - epoch (\<sigma> k) ?s < 2 ^ 27"
      using assms(4) iv by fastforce+
    then have "(epoch (\<sigma> n) ?s - epoch (\<sigma> k) ?s) mod 2 ^ 28 = epoch (\<sigma> n) ?s - epoch (\<sigma> k) ?s"
      by (intro mod_less) simp
    then show ?thesis using d vtime_gt_epochs [OF d(1) k(3) trace_time [OF assms(1)]] by simp
  qed
  then have "fst (vtime_check_loop gv \<sigma> t 0 (length ivs) ivs) = 0"
    by (intro vtime_check_loop_empties) auto
  then show ?thesis by (auto simp: threads_vtime_check_def split: prod.split)
qed

section \<open>The queue\<close>

fun gq_path :: "(nat \<Rightarrow> gcreq) \<Rightarrow> nat option \<Rightarrow> nat list \<Rightarrow> bool" where
  "gq_path R p [] \<longleftrightarrow> p = None"
| "gq_path R p (x # xs) \<longleftrightarrow> p = Some x \<and> gq_path R (gcr_next (R x)) xs"

lemma gq_path_cong: "(\<And>r. r \<in> set xs \<Longrightarrow> gcr_next (R' r) = gcr_next (R r)) \<Longrightarrow> gq_path R' p xs = gq_path R p xs"
  by (induction xs arbitrary: p) auto

lemma gq_path_append:
  "gq_path R p xs \<Longrightarrow> xs \<noteq> [] \<Longrightarrow> distinct xs \<Longrightarrow> r \<notin> set xs \<Longrightarrow> gcr_next (R' (last xs)) = Some r \<Longrightarrow>
   gcr_next (R' r) = None \<Longrightarrow> (\<And>x. x \<in> set xs \<Longrightarrow> x \<noteq> last xs \<Longrightarrow> gcr_next (R' x) = gcr_next (R x)) \<Longrightarrow>
   gq_path R' p (xs @ [r])"
proof (induction xs arbitrary: p)
  case (Cons x xs)
  then have p: "p = Some x" "gq_path R (gcr_next (R x)) xs" by auto
  show ?case
  proof (cases "xs = []")
    case True then show ?thesis using Cons.prems p by simp
  next
    case False
    then have "x \<noteq> last xs" using Cons.prems(3) by auto
    then have "gcr_next (R' x) = gcr_next (R x)" using Cons.prems(7) [of x] False by simp
    then show ?thesis using Cons.IH [OF p(2)] Cons.prems False p by (auto simp: last_ConsR)
  qed
qed simp

text \<open>The queue of \<open>q\<close> is \<open>xs\<close>.\<close>

definition gq_list :: "gcreq_queue \<Rightarrow> nat list \<Rightarrow> bool" where
  "gq_list q xs \<longleftrightarrow> gq_path (gq_reqs q) (gq_first q) xs \<and> distinct xs \<and> (xs \<noteq> [] \<longrightarrow> gq_last q = Some (last xs)
     \<and> gcr_next (gq_reqs q (last xs)) = None)"

lemma gq_list_cong:
  assumes "gq_list q xs" "gq_first q' = gq_first q" "gq_last q' = gq_last q"
    "\<And>r. r \<in> set xs \<Longrightarrow> gcr_next (gq_reqs q' r) = gcr_next (gq_reqs q r)"
  shows "gq_list q' xs"
  using assms gq_path_cong [of xs "gq_reqs q'" "gq_reqs q"] by (auto simp: gq_list_def)

lemma gq_list_empty: "gq_list q xs \<Longrightarrow> gq_first q = None \<longleftrightarrow> xs = []"
  by (cases xs) (auto simp: gq_list_def)

lemma enqueue_list:
  assumes "gq_list q xs" "r \<notin> set xs" "gcreq_enqueue_common r q = (q', first)"
  shows "gq_list q' (xs @ [r]) \<and> gq_count q' = gq_count q \<and> gq_terminate q' = gq_terminate q
     \<and> (\<forall>x. gcr_vtimes (gq_reqs q' x) = gcr_vtimes (gq_reqs q x) \<and> gcr_nvtimes (gq_reqs q' x) = gcr_nvtimes (gq_reqs q x)
          \<and> gcr_cb (gq_reqs q' x) = gcr_cb (gq_reqs q x))
     \<and> first = (xs = [])"
proof (cases "gq_first q")
  case None
  then have "xs = []" using assms(1) gq_list_empty by blast
  then show ?thesis using None assms by (auto simp: gcreq_enqueue_common_def gq_list_def upd_req_def Let_def)
next
  case (Some f)
  then have ne: "xs \<noteq> []" using assms(1) gq_list_empty by fastforce
  then have last: "gq_last q = Some (last xs)" "last xs \<in> set xs" using assms(1) by (auto simp: gq_list_def)
  then have lr: "last xs \<noteq> r" using assms(2) by auto
  let ?R = "((gq_reqs q)(r := (gq_reqs q r)\<lparr>gcr_next := None\<rparr>))(last xs := (gq_reqs q (last xs))\<lparr>gcr_next := Some r\<rparr>)"
  have q': "q' = q\<lparr>gq_reqs := ?R, gq_last := Some r\<rparr>" "\<not> first"
    using assms(3) Some last lr by (auto simp: gcreq_enqueue_common_def upd_req_def Let_def)
  have "gq_path ?R (gq_first q) (xs @ [r])"
    using assms(1,2) ne lr by (intro gq_path_append [where R = "gq_reqs q"]) (auto simp: gq_list_def)
  then show ?thesis using assms(1,2) ne lr q' by (auto simp: gq_list_def)
qed

lemma take_list:
  assumes "gq_list q xs" "gc_take None q = (x, q')"
  shows "gq_list q' (tl xs) \<and> gq_count q' = gq_count q \<and> gq_terminate q' = gq_terminate q \<and> gq_reqs q' = gq_reqs q
     \<and> x = first_opt xs"
proof (cases xs)
  case Nil
  then show ?thesis using assms gq_list_empty [OF assms(1)] by (auto simp: gc_take_def)
next
  case (Cons y ys)
  then have "gq_first q = Some y" "gq_path (gq_reqs q) (gcr_next (gq_reqs q y)) ys"
    using assms(1) by (auto simp: gq_list_def)
  then show ?thesis using assms Cons by (auto simp: gc_take_def gq_list_def split: if_splits)
qed


section \<open>The invariant of the collector\<close>

definition in_hand :: "gc_world \<Rightarrow> nat list" where
  "in_hand g = (case gw_pc g of GC_callback _ \<Rightarrow> [] | _ \<Rightarrow> (case gw_gcreq g of None \<Rightarrow> [] | Some r \<Rightarrow> [r]))"

definition pc_ok :: "gc_world \<Rightarrow> bool" where
  "pc_ok g \<longleftrightarrow> (case gw_pc g of GC_callback r \<Rightarrow> gw_gcreq g = Some r \<and> gw_place g r = In_callback
     | _ \<Rightarrow> (\<forall>r. gw_gcreq g = Some r \<longrightarrow> gw_place g r = In_hand))"

definition existing :: "gc_world \<Rightarrow> nat set" where
  "existing g = {r. gw_place g r \<noteq> Unused}"

definition queue_inv :: "gc_world \<Rightarrow> nat list \<Rightarrow> bool" where
  "queue_inv g xs \<longleftrightarrow> gq_list (gw_q g) xs \<and> set xs = {r. gw_place g r = Queued}
     \<and> gw_enq g = map fst (gw_calls g) @ in_hand g @ xs
     \<and> finite (existing g) \<and> gq_count (gw_q g) = int (card (existing g)) \<and> pc_ok g"

lemma existing_upd:
  assumes "gw_place g' = (gw_place g)(r := p)"
  shows "existing g' = (if p = Unused then existing g - {r} else insert r (existing g))"
  using assms by (auto simp: existing_def)

lemma gcreq_new_fields:
  "gcreq_new gv \<sigma> t r cb q = (q', t') \<Longrightarrow> gq_first q' = gq_first q \<and> gq_last q' = gq_last q
     \<and> gq_terminate q' = gq_terminate q \<and> gq_count q' = gq_count q + 1 \<and> (\<forall>x. gcr_next (gq_reqs q' x) = gcr_next (gq_reqs q x))
     \<and> (\<forall>x. x \<noteq> r \<longrightarrow> gq_reqs q' x = gq_reqs q x)
     \<and> threads_vtime_gather_for_wait gv \<sigma> (t + 1) (thread_states_head (\<sigma> t)) = (gcr_vtimes (gq_reqs q' r), t')
     \<and> gcr_nvtimes (gq_reqs q' r) = length (gcr_vtimes (gq_reqs q' r)) \<and> gcr_cb (gq_reqs q' r) = cb"
  by (auto simp: gcreq_new_def upd_req_def Let_def split: prod.splits)

lemma gc_check_fields:
  "gc_check gv \<sigma> t r q = (ready, q', t') \<Longrightarrow> gq_first q' = gq_first q \<and> gq_last q' = gq_last q
     \<and> gq_terminate q' = gq_terminate q \<and> gq_count q' = gq_count q \<and> (\<forall>x. gcr_next (gq_reqs q' x) = gcr_next (gq_reqs q x))
     \<and> (\<forall>x. x \<noteq> r \<longrightarrow> gq_reqs q' x = gq_reqs q x)
     \<and> vtime_check_loop gv \<sigma> t 0 (gcr_nvtimes (gq_reqs q r)) (gcr_vtimes (gq_reqs q r))
         = (gcr_nvtimes (gq_reqs q' r), gcr_vtimes (gq_reqs q' r), t')
     \<and> ready = (gcr_nvtimes (gq_reqs q' r) = 0)"
  by (auto simp: gc_check_def threads_vtime_check_def upd_req_def split: prod.splits)

lemma queue_inv_new:
  assumes inv: "queue_inv g xs" and ex: "gc_exec gv \<sigma> (G_new r cb t n) g = Some g'"
  shows "\<exists>xs'. queue_inv g' xs'"
proof -
  have l: "gq_list (gw_q g) xs" "set xs = {r. gw_place g r = Queued}" and pc: "pc_ok g"
    and fin: "finite (existing g)" "gq_count (gw_q g) = int (card (existing g))"
    and enq: "gw_enq g = map fst (gw_calls g) @ in_hand g @ xs"
    using inv by (auto simp: queue_inv_def)
  obtain q t' where q: "gcreq_new gv \<sigma> t r cb (gw_q g) = (q, t')" "gw_place g r = Unused"
    and g': "g' = g\<lparr>gw_q := q, gw_now := n, gw_place := (gw_place g)(r := Owned), gw_born := (gw_born g)(r := Some t),
      gw_signal := False\<rparr>"
    using ex by (auto split: prod.splits if_splits)
  have "existing g' = insert r (existing g)" "r \<notin> existing g"
    using existing_upd [of g' g r Owned] q(2) by (auto simp: g' existing_def)
  moreover have "gq_list q xs" using l gcreq_new_fields [OF q(1)] by (intro gq_list_cong [OF l(1)]) auto
  ultimately have "queue_inv g' xs"
    using l fin enq pc q(2) gcreq_new_fields [OF q(1)]
    by (auto simp: queue_inv_def g' in_hand_def pc_ok_def split: gc_pc.splits)
  then show ?thesis ..
qed

lemma queue_inv_enqueue:
  assumes inv: "queue_inv g xs" and ex: "gc_exec gv \<sigma> (G_enqueue r) g = Some g'"
  shows "\<exists>xs'. queue_inv g' xs'"
proof -
  have l: "gq_list (gw_q g) xs" "set xs = {r. gw_place g r = Queued}" and pc: "pc_ok g"
    and fin: "finite (existing g)" "gq_count (gw_q g) = int (card (existing g))"
    and enq: "gw_enq g = map fst (gw_calls g) @ in_hand g @ xs"
    using inv by (auto simp: queue_inv_def)
  obtain q first where q: "gcreq_enqueue_common r (gw_q g) = (q, first)" "gw_place g r = Owned"
    and g': "g' = g\<lparr>gw_q := q, gw_place := (gw_place g)(r := Queued), gw_enq := gw_enq g @ [r], gw_signal := first\<rparr>"
    using ex by (auto simp: gcreq_enqueue_def split: prod.splits if_splits)
  have r: "r \<notin> set xs" using q(2) l(2) by simp
  have "existing g' = existing g" using existing_upd [of g' g r Queued] q(2) by (auto simp: g' existing_def)
  then have "queue_inv g' (xs @ [r])"
    using l fin enq pc q(2) enqueue_list [OF l(1) r q(1)]
    by (auto simp: queue_inv_def g' in_hand_def pc_ok_def split: gc_pc.splits)
  then show ?thesis ..
qed

lemma queue_inv_announce:
  assumes inv: "queue_inv g xs" and ex: "gc_exec gv \<sigma> (G_announce r) g = Some g'"
  shows "\<exists>xs'. queue_inv g' xs'"
proof -
  have l: "gq_list (gw_q g) xs" "set xs = {r. gw_place g r = Queued}" and pc: "pc_ok g"
    and fin: "finite (existing g)" "gq_count (gw_q g) = int (card (existing g))"
    and enq: "gw_enq g = map fst (gw_calls g) @ in_hand g @ xs"
    using inv by (auto simp: queue_inv_def)
  have q: "gw_place g r = Owned" and g': "g' = g\<lparr>gw_q := gcreq_queue_free_announce r (gw_q g),
      gw_born := (gw_born g)(r := None), gw_signal := False\<rparr>"
    using ex by (auto split: if_splits)
  have "gq_list (gcreq_queue_free_announce r (gw_q g)) xs"
    by (rule gq_list_cong [OF l(1)]) (auto simp: gcreq_queue_free_announce_def upd_req_def)
  moreover have "existing g' = existing g" by (simp add: g' existing_def)
  ultimately have "queue_inv g' xs"
    using l fin enq pc by (auto simp: queue_inv_def g' in_hand_def pc_ok_def gcreq_queue_free_announce_def upd_req_def
        split: gc_pc.splits)
  then show ?thesis ..
qed

lemma queue_inv_top:
  assumes inv: "queue_inv g xs" and ex: "gc_exec gv \<sigma> G_top g = Some g'"
  shows "\<exists>xs'. queue_inv g' xs'"
proof -
  have l: "gq_list (gw_q g) xs" "set xs = {r. gw_place g r = Queued}" and pc: "pc_ok g"
    and fin: "finite (existing g)" "gq_count (gw_q g) = int (card (existing g))"
    and enq: "gw_enq g = map fst (gw_calls g) @ in_hand g @ xs"
    using inv by (auto simp: queue_inv_def)
  have top: "gw_pc g = GC_top" using ex by (auto split: if_splits)
  show ?thesis
  proof (cases "gc_loop_ends (gw_q g)")
    case True
    then have "g' = g\<lparr>gw_pc := GC_ended, gw_signal := False\<rparr>" using ex top by simp
    then have "queue_inv g' xs" using inv top by (auto simp: queue_inv_def in_hand_def pc_ok_def existing_def)
    then show ?thesis ..
  next
    case False
    then obtain x q where q: "gc_take (gw_gcreq g) (gw_q g) = (x, q)"
      and g': "g' = g\<lparr>gw_q := q, gw_gcreq := x, gw_pc := GC_checking, gw_signal := False,
                  gw_place := (case x of None \<Rightarrow> gw_place g | Some r \<Rightarrow> (gw_place g)(r := In_hand))\<rparr>"
      using ex top by (auto split: prod.splits)
    show ?thesis
    proof (cases "gw_gcreq g")
      case (Some r)
      then have "x = Some r" "q = gw_q g" "gw_place g r = In_hand"
        using q pc top by (auto simp: gc_take_def pc_ok_def split: option.splits)
      moreover from this have "(gw_place g)(r := In_hand) = gw_place g" by auto
      ultimately have "queue_inv g' xs" using inv top Some
        by (simp add: queue_inv_def g' in_hand_def pc_ok_def existing_def)
      then show ?thesis ..
    next
      case None
      then have take: "gc_take None (gw_q g) = (x, q)" using q by simp
      note tk = take_list [OF l(1) this]
      show ?thesis
      proof (cases xs)
        case Nil
        then have "queue_inv g' []" using inv tk top None
          by (auto simp: queue_inv_def g' in_hand_def pc_ok_def existing_def)
        then show ?thesis ..
      next
        case (Cons y ys)
        then have x: "x = Some y" "y \<notin> set ys" using tk l(1) by (auto simp: gq_list_def)
        have y: "gw_place g y = Queued" using l(2) Cons by auto
        have "existing g' = existing g" using existing_upd [of g' g y In_hand] x y by (auto simp: g' existing_def)
        moreover have "set ys = {r. gw_place g' r = Queued}"
          using l(2) Cons x by (auto simp: g')
        ultimately have "queue_inv g' ys"
          using Cons l fin enq tk top None x y by (auto simp: queue_inv_def g' in_hand_def pc_ok_def)
        then show ?thesis ..
      qed
    qed
  qed
qed

lemma queue_inv_check:
  assumes inv: "queue_inv g xs" and ex: "gc_exec gv \<sigma> (G_check t) g = Some g'"
  shows "\<exists>xs'. queue_inv g' xs'"
proof -
  have l: "gq_list (gw_q g) xs" "set xs = {r. gw_place g r = Queued}" and pc: "pc_ok g"
    and fin: "finite (existing g)" "gq_count (gw_q g) = int (card (existing g))"
    and enq: "gw_enq g = map fst (gw_calls g) @ in_hand g @ xs"
    using inv by (auto simp: queue_inv_def)
  have chk: "gw_pc g = GC_checking" using ex by (auto split: if_splits)
  show ?thesis
  proof (cases "gw_gcreq g")
    case None
    then have "g' = g\<lparr>gw_pc := GC_top, gw_now := t, gw_signal := False\<rparr>" using ex chk by (simp split: if_splits)
    then have "queue_inv g' xs" using None inv chk by (simp add: queue_inv_def in_hand_def pc_ok_def existing_def)
    then show ?thesis ..
  next
    case (Some r)
    then have r: "gw_place g r = In_hand" using pc chk by (auto simp: pc_ok_def)
    obtain ready q t' where q: "gc_check gv \<sigma> t r (gw_q g) = (ready, q, t')" by (cases "gc_check gv \<sigma> t r (gw_q g)") auto
    note f = gc_check_fields [OF q]
    have lq: "gq_list q xs" using f by (intro gq_list_cong [OF l(1)]) auto
    show ?thesis
    proof (cases ready)
      case True
      then have g': "g' = g\<lparr>gw_q := q, gw_now := t', gw_pc := GC_callback r, gw_signal := False,
           gw_place := (gw_place g)(r := In_callback),
           gw_calls := gw_calls g @ [(r, gw_born g r, gcr_cb (gq_reqs q r), t')]\<rparr>"
        using ex chk Some q by (auto split: if_splits)
      have "existing g' = existing g" using existing_upd [of g' g r In_callback] r by (auto simp: g' existing_def)
      then have "queue_inv g' xs" using lq l fin enq f chk Some r by (auto simp: queue_inv_def g' in_hand_def pc_ok_def)
      then show ?thesis ..
    next
      case False
      then have g': "g' = g\<lparr>gw_q := q, gw_now := t', gw_pc := GC_top, gw_signal := False\<rparr>"
        using ex chk Some q by (auto split: if_splits)
      have "queue_inv g' xs" using lq l fin enq f chk Some r
        by (auto simp: queue_inv_def g' in_hand_def pc_ok_def existing_def)
      then show ?thesis ..
    qed
  qed
qed

lemma queue_inv_callback_free:
  assumes inv: "queue_inv g xs" and ex: "gc_exec gv \<sigma> G_callback_free g = Some g'"
  shows "\<exists>xs'. queue_inv g' xs'"
proof -
  have l: "gq_list (gw_q g) xs" "set xs = {r. gw_place g r = Queued}" and pc: "pc_ok g"
    and fin: "finite (existing g)" "gq_count (gw_q g) = int (card (existing g))"
    and enq: "gw_enq g = map fst (gw_calls g) @ in_hand g @ xs"
    using inv by (auto simp: queue_inv_def)
  obtain r where cb: "gw_pc g = GC_callback r" using ex by (auto split: gc_pc.splits)
  then have r: "gw_place g r = In_callback" using pc by (auto simp: pc_ok_def)
  have g': "g' = g\<lparr>gw_q := (gw_q g)\<lparr>gq_count := gq_count (gw_q g) - 1\<rparr>, gw_place := (gw_place g)(r := Unused),
      gw_gcreq := None, gw_pc := GC_top, gw_signal := (gq_count (gw_q g) - 1 \<le> 1)\<rparr>"
    using ex cb by (simp add: gcreq_free_def Let_def)
  have e: "existing g' = existing g - {r}" "r \<in> existing g"
    using existing_upd [of g' g r Unused] r by (auto simp: g' existing_def)
  then have "int (card (existing g')) = int (card (existing g)) - 1"
    using fin(1) by (simp add: of_nat_diff Suc_leI card_gt_0_iff) (metis One_nat_def Suc_leI card_gt_0_iff empty_iff of_nat_1 of_nat_diff)
  moreover have "gq_list ((gw_q g)\<lparr>gq_count := gq_count (gw_q g) - 1\<rparr>) xs" by (rule gq_list_cong [OF l(1)]) auto
  ultimately have "queue_inv g' xs" using l fin enq cb r e by (auto simp: queue_inv_def g' in_hand_def pc_ok_def)
  then show ?thesis ..
qed

lemma queue_inv_callback_requeue:
  assumes inv: "queue_inv g xs" and ex: "gc_exec gv \<sigma> (G_callback_requeue c) g = Some g'"
  shows "\<exists>xs'. queue_inv g' xs'"
proof -
  have l: "gq_list (gw_q g) xs" "set xs = {r. gw_place g r = Queued}" and pc: "pc_ok g"
    and fin: "finite (existing g)" "gq_count (gw_q g) = int (card (existing g))"
    and enq: "gw_enq g = map fst (gw_calls g) @ in_hand g @ xs"
    using inv by (auto simp: queue_inv_def)
  obtain r where cb: "gw_pc g = GC_callback r" using ex by (auto split: gc_pc.splits)
  then have r: "gw_place g r = In_callback" using pc by (auto simp: pc_ok_def)
  let ?q0 = "upd_req r (\<lambda>x. x\<lparr>gcr_cb := c\<rparr>) (gw_q g)"
  obtain q first where q: "gcreq_enqueue_common r ?q0 = (q, first)" by (cases "gcreq_enqueue_common r ?q0")
  have g': "g' = g\<lparr>gw_q := q, gw_place := (gw_place g)(r := Queued), gw_enq := gw_enq g @ [r], gw_gcreq := None,
               gw_pc := GC_top, gw_signal := first\<rparr>"
    using ex cb q by (simp add: gcreq_requeue_def)
  have l0: "gq_list ?q0 xs" by (rule gq_list_cong [OF l(1)]) (auto simp: upd_req_def)
  have rx: "r \<notin> set xs" using r l(2) by simp
  have "existing g' = existing g" using existing_upd [of g' g r Queued] r by (auto simp: g' existing_def)
  then have "queue_inv g' (xs @ [r])"
    using l fin enq cb r enqueue_list [OF l0 rx q] by (auto simp: queue_inv_def g' in_hand_def pc_ok_def upd_req_def)
  then show ?thesis ..
qed

lemma exec_queue_inv: "queue_inv g xs \<Longrightarrow> gc_exec gv \<sigma> a g = Some g' \<Longrightarrow> \<exists>xs'. queue_inv g' xs'"
  by (cases a) (simp_all only: queue_inv_new queue_inv_enqueue queue_inv_announce queue_inv_top queue_inv_check
      queue_inv_callback_free queue_inv_callback_requeue)

lemma queue_inv0: "queue_inv gc_world0 []"
  by (simp add: queue_inv_def gc_world0_def gq_list_def gcreq_queue_new_def existing_def pc_ok_def in_hand_def)

lemma run_queue_inv: "gc_run gv \<sigma> as g = Some g' \<Longrightarrow> queue_inv g xs \<Longrightarrow> \<exists>xs'. queue_inv g' xs'"
proof (induction as arbitrary: g xs)
  case (Cons a as)
  then obtain g1 where g1: "gc_exec gv \<sigma> a g = Some g1" "gc_run gv \<sigma> as g1 = Some g'" by (auto split: option.splits)
  from exec_queue_inv [OF Cons.prems(2) g1(1)] Cons.IH [OF g1(2)] show ?case by blast
qed auto


section \<open>The grace period\<close>

text \<open>
  What a request made from time \<open>b\<close> on still has to wait for, at time \<open>n\<close>: each thread that was in the
  domain at \<open>b\<close> has moved on, or is in the array.
\<close>

definition covered :: "gvid \<Rightarrow> memory \<Rightarrow> nat \<Rightarrow> nat \<Rightarrow> idx_vtime list \<Rightarrow> bool" where
  "covered gv \<sigma> b n ivs \<longleftrightarrow> (\<forall>s \<in> set (slots_of (thread_states_head (\<sigma> b))). in_domain gv \<sigma> b s \<longrightarrow>
     epoch (\<sigma> b) s < epoch (\<sigma> n) s \<or> (\<exists>iv \<in> set ivs. iv_thrst iv = s \<and> waits_for gv \<sigma> b iv))"

lemma covered_mono: "trace \<sigma> \<Longrightarrow> covered gv \<sigma> b n ivs \<Longrightarrow> b \<le> n \<Longrightarrow> n \<le> m \<Longrightarrow> covered gv \<sigma> b m ivs"
  unfolding covered_def by (meson epoch_mono less_le_trans old_slot_chain)

lemma covered_new:
  assumes "trace \<sigma>" "threads_vtime_gather_for_wait gv \<sigma> (b + 1) (thread_states_head (\<sigma> b)) = (ivs, e)"
  shows "b \<le> e \<and> covered gv \<sigma> b e ivs"
proof -
  note g = assms(2) [unfolded threads_vtime_gather_for_wait_def]
  have "b \<le> e" using gather_loop_times [OF assms(1) g] by simp
  moreover have "covered gv \<sigma> b e ivs" unfolding covered_def
  proof (intro ballI impI)
    fix s assume s: "s \<in> set (slots_of (thread_states_head (\<sigma> b)))" "in_domain gv \<sigma> b s"
    note old = old_slot_chain [OF assms(1) s(1)]
    from gather_loop_covers [OF assms(1) old s(2) _ g] s(1)
    show "epoch (\<sigma> b) s < epoch (\<sigma> e) s \<or> (\<exists>iv \<in> set ivs. iv_thrst iv = s \<and> waits_for gv \<sigma> b iv)"
      using old s(2) by (auto simp: waits_for_def)
  qed
  ultimately show ?thesis ..
qed

lemma covered_check:
  assumes tr: "trace \<sigma>" and c: "covered gv \<sigma> b t (take nivs ivs)" and n: "nivs \<le> length ivs" "b \<le> t"
    and chk: "vtime_check_loop gv \<sigma> t i nivs ivs = (n', ivs', t')"
  shows "t \<le> t' \<and> n' \<le> length ivs' \<and> covered gv \<sigma> b t' (take n' ivs')"
proof -
  note k = vtime_check_loop_keeps [OF tr chk n]
  have "t \<le> t'" using k by blast
  then have "covered gv \<sigma> b t' (take nivs ivs)" using covered_mono [OF tr c n(2)] by simp
  then have "covered gv \<sigma> b t' (take n' ivs')"
    unfolding covered_def using k by (metis set_mset_mset)
  then show ?thesis using k by blast
qed

definition req_ok :: "gvid \<Rightarrow> memory \<Rightarrow> nat \<Rightarrow> nat option \<Rightarrow> gcreq \<Rightarrow> bool" where
  "req_ok gv \<sigma> now born x \<longleftrightarrow> (\<forall>b. born = Some b \<longrightarrow> b \<le> now \<and> gcr_nvtimes x \<le> length (gcr_vtimes x)
     \<and> covered gv \<sigma> b now (take (gcr_nvtimes x) (gcr_vtimes x)))"

definition safe_inv :: "gvid \<Rightarrow> memory \<Rightarrow> gc_world \<Rightarrow> bool" where
  "safe_inv gv \<sigma> g \<longleftrightarrow> (\<forall>r. gw_place g r \<noteq> Unused \<longrightarrow> req_ok gv \<sigma> (gw_now g) (gw_born g r) (gq_reqs (gw_q g) r))
     \<and> (\<forall>r b cb t. (r, Some b, cb, t) \<in> set (gw_calls g) \<longrightarrow> b \<le> t \<and> covered gv \<sigma> b t [])"

lemma req_ok_mono: "trace \<sigma> \<Longrightarrow> req_ok gv \<sigma> n born x \<Longrightarrow> n \<le> m \<Longrightarrow> req_ok gv \<sigma> m born x"
  unfolding req_ok_def by (blast intro: covered_mono order_trans)

lemma req_ok_cong:
  "gcr_vtimes y = gcr_vtimes x \<Longrightarrow> gcr_nvtimes y = gcr_nvtimes x \<Longrightarrow> req_ok gv \<sigma> n born y = req_ok gv \<sigma> n born x"
  by (simp add: req_ok_def)

text \<open>A step that moves requests about, but makes none and lets no time pass.\<close>

lemma safe_inv_same:
  assumes "safe_inv gv \<sigma> g" "gw_now g' = gw_now g" "gw_calls g' = gw_calls g"
    "\<And>r. gw_place g' r \<noteq> Unused \<Longrightarrow> gw_place g r \<noteq> Unused \<and> gw_born g' r \<in> {None, gw_born g r}"
    "\<And>r. gw_born g' r \<noteq> None \<Longrightarrow> gcr_vtimes (gq_reqs (gw_q g') r) = gcr_vtimes (gq_reqs (gw_q g) r)
       \<and> gcr_nvtimes (gq_reqs (gw_q g') r) = gcr_nvtimes (gq_reqs (gw_q g) r)"
  shows "safe_inv gv \<sigma> g'"
proof -
  have "req_ok gv \<sigma> (gw_now g') (gw_born g' r) (gq_reqs (gw_q g') r)" if r: "gw_place g' r \<noteq> Unused" for r
  proof (cases "gw_born g' r")
    case None then show ?thesis by (simp add: req_ok_def)
  next
    case (Some b)
    then have "gw_born g r = Some b" using assms(4) [OF r] by auto
    moreover have "req_ok gv \<sigma> (gw_now g) (gw_born g r) (gq_reqs (gw_q g) r)"
      using assms(1,4) r by (auto simp: safe_inv_def)
    moreover have "gcr_vtimes (gq_reqs (gw_q g') r) = gcr_vtimes (gq_reqs (gw_q g) r)"
      "gcr_nvtimes (gq_reqs (gw_q g') r) = gcr_nvtimes (gq_reqs (gw_q g) r)"
      using assms(5) [of r] Some by auto
    ultimately show ?thesis using Some assms(2) by (simp add: req_ok_def)
  qed
  then show ?thesis using assms(1,3) by (auto simp: safe_inv_def)
qed

lemma safe_inv_later:
  assumes "trace \<sigma>" "safe_inv gv \<sigma> g" "gw_now g \<le> gw_now g'" "gw_place g' = gw_place g" "gw_born g' = gw_born g"
    "gw_calls g' = gw_calls g" "gw_q g' = gw_q g"
  shows "safe_inv gv \<sigma> g'"
  using assms req_ok_mono [OF assms(1) _ assms(3)] by (auto simp: safe_inv_def)

lemma safe_inv_new:
  assumes tr: "trace \<sigma>" and inv: "safe_inv gv \<sigma> g" and ex: "gc_exec gv \<sigma> (G_new r cb t n) g = Some g'"
  shows "safe_inv gv \<sigma> g'"
proof -
  obtain q t' where q: "gcreq_new gv \<sigma> t r cb (gw_q g) = (q, t')" and n: "gw_now g \<le> n" "t' \<le> n"
    and g': "g' = g\<lparr>gw_q := q, gw_now := n, gw_place := (gw_place g)(r := Owned), gw_born := (gw_born g)(r := Some t),
      gw_signal := False\<rparr>"
    using ex by (auto split: prod.splits if_splits)
  note f = gcreq_new_fields [OF q]
  have "t \<le> t'" "covered gv \<sigma> t t' (gcr_vtimes (gq_reqs q r))" using covered_new [OF tr] f by blast+
  then have "req_ok gv \<sigma> n (Some t) (gq_reqs q r)"
    using f covered_mono [OF tr _ _ n(2)] n(2) by (auto simp: req_ok_def)
  moreover have "req_ok gv \<sigma> n (gw_born g x) (gq_reqs q x)" if "x \<noteq> r" "gw_place g x \<noteq> Unused" for x
    using inv f that req_ok_mono [OF tr _ n(1)] by (simp add: safe_inv_def)
  ultimately show ?thesis using inv by (auto simp: safe_inv_def g')
qed

lemma safe_inv_check:
  assumes tr: "trace \<sigma>" and inv: "safe_inv gv \<sigma> g" and qi: "queue_inv g xs" and ex: "gc_exec gv \<sigma> (G_check t) g = Some g'"
  shows "safe_inv gv \<sigma> g'"
proof -
  have chk: "gw_pc g = GC_checking" "gw_now g \<le> t" using ex by (auto split: if_splits)
  show ?thesis
  proof (cases "gw_gcreq g")
    case None
    then have "g' = g\<lparr>gw_pc := GC_top, gw_now := t, gw_signal := False\<rparr>" using ex chk by simp
    then show ?thesis using chk by (intro safe_inv_later [OF tr inv]) auto
  next
    case (Some r)
    then have "gw_place g r = In_hand" using qi chk by (simp add: queue_inv_def pc_ok_def)
    then have r: "gw_place g r \<noteq> Unused" "req_ok gv \<sigma> (gw_now g) (gw_born g r) (gq_reqs (gw_q g) r)"
      using inv by (auto simp: safe_inv_def)
    obtain ready q t' where q: "gc_check gv \<sigma> t r (gw_q g) = (ready, q, t')" by (cases "gc_check gv \<sigma> t r (gw_q g)") auto
    note f = gc_check_fields [OF q]
    have b: "b \<le> t" "t \<le> t' \<and> gcr_nvtimes (gq_reqs q r) \<le> length (gcr_vtimes (gq_reqs q r))
        \<and> covered gv \<sigma> b t' (take (gcr_nvtimes (gq_reqs q r)) (gcr_vtimes (gq_reqs q r)))" if "gw_born g r = Some b" for b
    proof -
      have "req_ok gv \<sigma> t (Some b) (gq_reqs (gw_q g) r)" using req_ok_mono [OF tr r(2) chk(2)] that by simp
      then have c: "covered gv \<sigma> b t (take (gcr_nvtimes (gq_reqs (gw_q g) r)) (gcr_vtimes (gq_reqs (gw_q g) r)))"
        "gcr_nvtimes (gq_reqs (gw_q g) r) \<le> length (gcr_vtimes (gq_reqs (gw_q g) r))" "b \<le> t"
        by (simp_all add: req_ok_def)
      show "b \<le> t" by (rule c)
      have "vtime_check_loop gv \<sigma> t 0 (gcr_nvtimes (gq_reqs (gw_q g) r)) (gcr_vtimes (gq_reqs (gw_q g) r))
         = (gcr_nvtimes (gq_reqs q r), gcr_vtimes (gq_reqs q r), t')" using f by blast
      from covered_check [OF tr c this]
      show "t \<le> t' \<and> gcr_nvtimes (gq_reqs q r) \<le> length (gcr_vtimes (gq_reqs q r))
        \<and> covered gv \<sigma> b t' (take (gcr_nvtimes (gq_reqs q r)) (gcr_vtimes (gq_reqs q r)))" .
    qed
    have t': "t \<le> t'" using f vtime_check_loop_time by blast
    have ok: "req_ok gv \<sigma> t' (gw_born g r) (gq_reqs q r)"
      using b by (auto simp: req_ok_def)
    have oth: "req_ok gv \<sigma> t' (gw_born g x) (gq_reqs q x)" if "x \<noteq> r" "gw_place g x \<noteq> Unused" for x
      using inv f that req_ok_mono [OF tr, of gv "gw_now g" _ _ t'] chk(2) t' by (simp add: safe_inv_def)
    show ?thesis
    proof (cases ready)
      case True
      have g': "g' = g\<lparr>gw_q := q, gw_now := t', gw_pc := GC_callback r, gw_signal := False,
           gw_place := (gw_place g)(r := In_callback),
           gw_calls := gw_calls g @ [(r, gw_born g r, gcr_cb (gq_reqs q r), t')]\<rparr>"
        using ex chk Some q True by simp
      have "b \<le> t' \<and> covered gv \<sigma> b t' []" if "gw_born g r = Some b" for b
        using b [OF that] t' f True by auto
      then show ?thesis using inv ok oth by (auto simp: safe_inv_def g')
    next
      case False
      have g': "g' = g\<lparr>gw_q := q, gw_now := t', gw_pc := GC_top, gw_signal := False\<rparr>"
        using ex chk Some q False by simp
      have "req_ok gv \<sigma> t' (gw_born g x) (gq_reqs q x)" if "gw_place g x \<noteq> Unused" for x
        using ok oth that by (cases "x = r") auto
      then show ?thesis using inv by (simp add: safe_inv_def g')
    qed
  qed
qed

lemma exec_safe_inv:
  assumes tr: "trace \<sigma>" and inv: "safe_inv gv \<sigma> g" and qi: "queue_inv g xs" and ex: "gc_exec gv \<sigma> a g = Some g'"
  shows "safe_inv gv \<sigma> g'"
proof (cases a)
  case (G_new r cb t n)
  then show ?thesis using safe_inv_new [OF tr inv] ex by blast
next
  case (G_check t)
  then show ?thesis using safe_inv_check [OF tr inv qi] ex by blast
next
  case (G_enqueue r)
  then have r: "gw_place g r = Owned" using ex by (auto split: if_splits)
  then have "r \<notin> set xs" "gq_list (gw_q g) xs" using qi by (auto simp: queue_inv_def)
  note e = enqueue_list [OF this(2,1)]
  obtain q first where q: "gcreq_enqueue_common r (gw_q g) = (q, first)" by (cases "gcreq_enqueue_common r (gw_q g)")
  have "g' = g\<lparr>gw_q := q, gw_place := (gw_place g)(r := Queued), gw_enq := gw_enq g @ [r], gw_signal := first\<rparr>"
    using ex G_enqueue q by (simp add: gcreq_enqueue_def split: if_splits)
  then show ?thesis using e [OF q] r by (intro safe_inv_same [OF inv]) (simp_all split: if_splits)
next
  case (G_announce r)
  then have r: "gw_place g r = Owned" and g': "g' = g\<lparr>gw_q := gcreq_queue_free_announce r (gw_q g),
        gw_born := (gw_born g)(r := None), gw_signal := False\<rparr>"
    using ex by (auto split: if_splits)
  show ?thesis
    by (intro safe_inv_same [OF inv]) (auto simp: g' gcreq_queue_free_announce_def upd_req_def split: if_splits)
next
  case G_top
  then have top: "gw_pc g = GC_top" using ex by (auto split: if_splits)
  show ?thesis
  proof (cases "gc_loop_ends (gw_q g)")
    case True
    then have "g' = g\<lparr>gw_pc := GC_ended, gw_signal := False\<rparr>" using ex G_top top by simp
    then show ?thesis by (intro safe_inv_same [OF inv]) auto
  next
    case False
    obtain x q where q: "gc_take (gw_gcreq g) (gw_q g) = (x, q)" by (cases "gc_take (gw_gcreq g) (gw_q g)")
    then have g': "g' = g\<lparr>gw_q := q, gw_gcreq := x, gw_pc := GC_checking, gw_signal := False,
        gw_place := (case x of None \<Rightarrow> gw_place g | Some r \<Rightarrow> (gw_place g)(r := In_hand))\<rparr>"
      using ex G_top top False by simp
    have "gw_place g r \<noteq> Unused" if "x = Some r" for r
    proof (cases "gw_gcreq g")
      case None
      then have "gc_take None (gw_q g) = (x, q)" using q by simp
      moreover have l: "gq_list (gw_q g) xs" "set xs = {r. gw_place g r = Queued}" using qi by (simp_all add: queue_inv_def)
      ultimately have "first_opt xs = Some r" using take_list [OF l(1)] that by simp
      then have "r \<in> set xs" by (rule first_opt_in_set)
      then show ?thesis using l(2) by simp
    next
      case (Some r')
      then show ?thesis using q that qi top by (auto simp: gc_take_def queue_inv_def pc_ok_def split: option.splits)
    qed
    moreover have "gq_reqs q = gq_reqs (gw_q g)" using q by (auto simp: gc_take_def split: option.splits)
    ultimately show ?thesis
      by (intro safe_inv_same [OF inv]) (auto simp: g' split: option.splits if_splits)
  qed
next
  case G_callback_free
  then obtain r where "gw_pc g = GC_callback r" using ex by (auto split: gc_pc.splits)
  then have "g' = g\<lparr>gw_q := (gw_q g)\<lparr>gq_count := gq_count (gw_q g) - 1\<rparr>, gw_place := (gw_place g)(r := Unused),
        gw_gcreq := None, gw_pc := GC_top, gw_signal := (gq_count (gw_q g) - 1 \<le> 1)\<rparr>"
    using ex G_callback_free by (simp add: gcreq_free_def Let_def)
  then show ?thesis by (intro safe_inv_same [OF inv]) (auto split: if_splits)
next
  case (G_callback_requeue c)
  then obtain r where cb: "gw_pc g = GC_callback r" using ex by (auto split: gc_pc.splits)
  then have r: "gw_place g r = In_callback" using qi by (simp add: queue_inv_def pc_ok_def)
  let ?q0 = "upd_req r (\<lambda>x. x\<lparr>gcr_cb := c\<rparr>) (gw_q g)"
  obtain q first where q: "gcreq_enqueue_common r ?q0 = (q, first)" by (cases "gcreq_enqueue_common r ?q0")
  have g': "g' = g\<lparr>gw_q := q, gw_place := (gw_place g)(r := Queued), gw_enq := gw_enq g @ [r], gw_gcreq := None,
               gw_pc := GC_top, gw_signal := first\<rparr>"
    using ex G_callback_requeue cb q by (simp add: gcreq_requeue_def)
  have "r \<notin> set xs" "gq_list ?q0 xs"
    using r qi by (auto simp: queue_inv_def upd_req_def intro: gq_list_cong)
  note e = enqueue_list [OF this(2,1) q]
  show ?thesis using e r by (intro safe_inv_same [OF inv]) (auto simp: g' upd_req_def split: if_splits)
qed

lemma run_safe_inv:
  "gc_run gv \<sigma> as g = Some g' \<Longrightarrow> trace \<sigma> \<Longrightarrow> queue_inv g xs \<Longrightarrow> safe_inv gv \<sigma> g \<Longrightarrow> safe_inv gv \<sigma> g'"
proof (induction as arbitrary: g xs)
  case (Cons a as)
  then obtain g1 where g1: "gc_exec gv \<sigma> a g = Some g1" "gc_run gv \<sigma> as g1 = Some g'" by (auto split: option.splits)
  obtain ys where "queue_inv g1 ys" using exec_queue_inv [OF Cons.prems(3) g1(1)] ..
  from Cons.IH [OF g1(2) Cons.prems(2) this exec_safe_inv [OF Cons.prems(2,4,3) g1(1)]] show ?case .
qed auto

lemma safe_inv0: "safe_inv gv \<sigma> gc_world0"
  by (simp add: safe_inv_def gc_world0_def)

text \<open>C32: A callback is called only after every thread that was awake in the domain when the making of
  the request began has since been asleep or passed through \<open>awake_to_awake\<close>: whatever such a thread
  may still have been using when the request was made, it no longer does. This holds for any
  interleaving of any threads with the collector, single loads and stores apart, as long as no thread
  enters another domain while awake in one.\<close>

theorem gc_grace_period:
  assumes "trace \<sigma>" and "gc_run gv \<sigma> acts gc_world0 = Some g"
    and "(r, Some b, cb, t) \<in> set (gw_calls g)"
    and "s \<in> set (slots_of (thread_states_head (\<sigma> b)))"
    and "vtime_awake_p (ts_vtime (thrst (\<sigma> b) s))" and "ts_gv (thrst (\<sigma> b) s) = Some gv"
  shows "b \<le> t \<and> epoch (\<sigma> b) s < epoch (\<sigma> t) s"
  using run_safe_inv [OF assms(2,1) queue_inv0 safe_inv0] assms(3-6)
  by (fastforce simp: safe_inv_def covered_def in_domain_def)

text \<open>Callbacks are called in the order in which the requests were enqueued, those still to come are the
  one in hand and the queue in order, and the thread ends only when every request has been freed, with
  nothing left in the queue.\<close>

theorem gc_queue_fifo:
  assumes "gc_run gv \<sigma> acts gc_world0 = Some g"
  shows "\<exists>xs. gq_path (gq_reqs (gw_q g)) (gq_first (gw_q g)) xs
     \<and> gw_enq g = map fst (gw_calls g) @ in_hand g @ xs
     \<and> (gc_loop_ends (gw_q g) \<longrightarrow> gq_first (gw_q g) = None \<and> (\<forall>r. gw_place g r = Unused)
          \<and> gw_enq g = map fst (gw_calls g))"
proof -
  obtain xs where q: "queue_inv g xs" using run_queue_inv [OF assms queue_inv0] ..
  have l: "gq_list (gw_q g) xs" using q by (simp add: queue_inv_def)
  have "gq_first (gw_q g) = None \<and> (\<forall>r. gw_place g r = Unused) \<and> gw_enq g = map fst (gw_calls g)"
    if "gc_loop_ends (gw_q g)"
  proof -
    have "existing g = {}" using q that by (auto simp: queue_inv_def gc_loop_ends_def)
    then have u: "gw_place g r = Unused" for r by (auto simp: existing_def)
    then have "xs = []" using q by (auto simp: queue_inv_def)
    moreover have "in_hand g = []"
      using q u by (auto simp: queue_inv_def pc_ok_def in_hand_def split: gc_pc.splits option.splits)
    ultimately show ?thesis using u q gq_list_empty [OF l] by (simp add: queue_inv_def)
  qed
  then show ?thesis using q l by (intro exI [of _ xs]) (simp add: queue_inv_def gq_list_def)
qed


text \<open>Every wait on the condition variable is ended by a signal: when the last request is gone
  (\<open>gcreq_queue_drain\<close>), when only one is left (\<open>gcreq_queue_free\<close>, which has one itself) and when a request
  arrives in an empty queue, the step that made it so has signalled.\<close>

theorem gc_no_missed_wakeup:
  assumes "gc_run gv \<sigma> acts gc_world0 = Some g" and "gc_exec gv \<sigma> a g = Some g'"
  shows "(\<not> gcreq_queue_drain (gw_q g) \<and> gcreq_queue_drain (gw_q g') \<longrightarrow> gw_signal g')
     \<and> ((\<exists>r. gw_place g r \<noteq> Unused) \<and> \<not> gcreq_queue_free_ready (gw_q g) \<and> gcreq_queue_free_ready (gw_q g') \<longrightarrow> gw_signal g')
     \<and> (gq_first (gw_q g) = None \<and> gq_first (gw_q g') \<noteq> None \<longrightarrow> gw_signal g')"
proof -
  obtain xs where q: "queue_inv g xs" using run_queue_inv [OF assms(1) queue_inv0] ..
  let ?ok = "\<lambda>c f. (gq_count (gw_q g) \<noteq> 0 \<and> c = 0 \<longrightarrow> gw_signal g')
     \<and> (1 \<le> gq_count (gw_q g) \<and> gq_count (gw_q g) \<noteq> 1 \<and> c = 1 \<longrightarrow> gw_signal g')
     \<and> (gq_first (gw_q g) = None \<and> f \<noteq> None \<longrightarrow> gw_signal g')"
  have "1 \<le> gq_count (gw_q g)" if "gw_place g r \<noteq> Unused" for r
  proof -
    have "existing g \<noteq> {}" using that by (auto simp: existing_def)
    then show ?thesis using q by (simp add: queue_inv_def Suc_leI card_gt_0_iff)
  qed
  moreover have "?ok (gq_count (gw_q g')) (gq_first (gw_q g'))"
  proof (cases a)
    case (G_new r cb t n)
    then show ?thesis using assms(2) q gcreq_new_fields [of gv \<sigma> t r cb "gw_q g"]
      by (auto simp: queue_inv_def split: prod.splits if_splits)
  next
    case (G_check t)
    then show ?thesis using assms(2) gc_check_fields [of gv \<sigma> t _ "gw_q g"]
      by (auto split: option.splits prod.splits if_splits)
  next
    case (G_callback_requeue c)
    then show ?thesis using assms(2)
      by (auto simp: gcreq_requeue_def gcreq_enqueue_common_def upd_req_def Let_def split: gc_pc.splits option.splits)
  qed (use assms(2) in \<open>auto simp: gcreq_enqueue_def gcreq_enqueue_common_def gcreq_queue_free_announce_def upd_req_def
        gc_take_def gcreq_free_def Let_def split: if_splits option.splits gc_pc.splits\<close>)
  ultimately show ?thesis by (auto simp: gcreq_queue_drain_def gcreq_queue_free_ready_def)
qed

text \<open>C34: A thread that is awake in a domain and then enters another one, as an application does whose
  listener writes in a second domain, no longer counts in the first: the collector neither waits for
  it in a new request nor goes on waiting for it, although it has not been asleep since and will
  return to what it was doing in the first domain.\<close>

theorem gc_forgets_nested_domain:
  assumes "tsd_thread_state w u = Some s" and "can_act u w" and "ts_state (thrst w s) \<noteq> THREAD_STATE_ALIVE"
    and "vtime_awake_p (ts_vtime (thrst w s))" and "ts_vtime (thrst w s) AND VTIME_NEST_MASK < VTIME_NEST_MASK"
    and "ts_gv (thrst w s) = Some gv" and "gv' \<noteq> gv"
  shows "\<exists>w'. thr_run [Awake1 u gv', Awake2 u] w = Some w' \<and> epoch w' = epoch w
     \<and> vtime_awake_p (ts_vtime (thrst w' s))
     \<and> fst (threads_vtime_check gv (\<lambda>_. w') t 1 [\<lparr>iv_thrst = s, iv_vtime = ts_vtime (thrst w s)\<rparr>])
     \<and> s \<notin> iv_thrst ` set (fst (threads_vtime_gather_for_wait gv (\<lambda>_. w') t (thread_states_head w')))"
proof -
  let ?vt = "ts_vtime (thrst w s)"
  define w' where "w' = (set_thr s ((thrst w s)\<lparr>ts_gv := Some gv', ts_vtime := ?vt + 1\<rparr>) w)"
  have "(in_awake w)(u := None) = in_awake w" using assms(2) by (auto simp: can_act_def)
  then have run: "thr_run [Awake1 u gv', Awake2 u] w = Some w'"
    using assms by (simp add: thread_state_awake_gv_def thread_state_awake_vtime_def w'_def set_thr_def upd_thrst_def)
  have thr: "ts_vtime (thrst w' s) = ?vt + 1" "ts_gv (thrst w' s) = Some gv'" "epoch w' = epoch w"
    by (simp_all add: w'_def)
  have "\<not> vtime_gt (?vt + 1) ?vt" using step_awake [OF assms(5)] by (simp add: vtime_gt_irrefl)
  then have chk: "fst (threads_vtime_check gv (\<lambda>_. w') t 1 [\<lparr>iv_thrst = s, iv_vtime = ?vt\<rparr>])"
    using thr assms(7) by (simp add: threads_vtime_check_def vtime_check_loop.simps Let_def)
  have "gather_loop gv (\<lambda>_. w') t ss = (ivs, e) \<Longrightarrow> \<forall>iv \<in> set ivs. iv_thrst iv \<noteq> s" for ss ivs t e
    using thr assms(7) by (induction ss arbitrary: t ivs e) (fastforce simp: Let_def split: if_splits prod.splits)+
  then have "gather_loop gv (\<lambda>_. w') t ss = (ivs, e) \<Longrightarrow> s \<notin> iv_thrst ` set ivs" for ss ivs t e by fast
  then have "s \<notin> iv_thrst ` set (fst (threads_vtime_gather_for_wait gv (\<lambda>_. w') t (thread_states_head w')))"
    by (metis prod.collapse threads_vtime_gather_for_wait_def)
  then show ?thesis using run thr chk step_awake [OF assms(5)] by auto
qed

section \<open>Witnesses\<close>

text \<open>An application thread is awake in domain 7 until time 100.\<close>

definition mem_busy :: thread_world where
  "mem_busy = the (thr_run [App_start 2, Init 2 ''app'', Awake1 2 7, Awake2 2] thread_world0)"

definition mem_done :: thread_world where
  "mem_done = the (thr_run [Asleep 2] mem_busy)"

definition mem_at :: memory where
  "mem_at n = (if n = 0 then thread_world0 else if n < 100 then mem_busy else mem_done)"

definition gc_acts :: "gc_act list" where
  "gc_acts = [G_new 0 5 1 50, G_enqueue 0, G_top, G_check 60, G_top, G_check 200]"

lemma run_same_run: "thr_run_same as w = Some w' \<Longrightarrow> thr_run as w = Some w'"
  by (induction as arbitrary: w) (auto split: if_splits option.splits)

lemma run_same_the: "(case thr_run_same as w of None \<Rightarrow> False | Some _ \<Rightarrow> True) \<Longrightarrow> thr_run_same as w = Some (the (thr_run as w))"
  using run_same_run by (fastforce split: option.splits)

lemma mem_trace: "trace mem_at"
proof -
  have busy: "thr_run_same [App_start 2, Init 2 ''app'', Awake1 2 7, Awake2 2] thread_world0 = Some mem_busy"
    unfolding mem_busy_def by (rule run_same_the) code_simp
  have fin: "thr_run_same [Asleep 2] mem_busy = Some mem_done"
    unfolding mem_done_def by (rule run_same_the, unfold mem_busy_def) code_simp
  have "\<exists>as. thr_run_same as (mem_at n) = Some (mem_at (Suc n))" for n
  proof -
    consider "n = 0" | "n = 99" | "n \<noteq> 0" "n \<noteq> 99" by blast
    then show ?thesis
    proof cases
      case 1 then show ?thesis using busy by (auto simp: mem_at_def simp del: thr_run_same.simps)
    next
      case 2 then show ?thesis using fin by (auto simp: mem_at_def simp del: thr_run_same.simps)
    next
      case 3
      then have "mem_at (Suc n) = mem_at n" by (auto simp: mem_at_def)
      then have "thr_run_same [] (mem_at n) = Some (mem_at (Suc n))" by simp
      then show ?thesis ..
    qed
  qed
  then show ?thesis by (simp add: trace_def mem_at_def)
qed

lemma gc_acts_run:
  obtains g where "gc_run 7 mem_at gc_acts gc_world0 = Some g" "gw_calls g = [(0, Some 1, 5, 201)]"
proof -
  have "map_option gw_calls (gc_run 7 mem_at gc_acts gc_world0) = Some [(0, Some 1, 5, 201)]" by code_simp
  then show ?thesis using that by auto
qed


theorem gc_grace_period_witness:
  "\<exists>g. gc_run 7 mem_at gc_acts gc_world0 = Some g \<and> (0, Some 1, 5, 201) \<in> set (gw_calls g)
     \<and> epoch (mem_at 1) (0, 0) < epoch (mem_at 201) (0, 0)"
proof -
  obtain g where g: "gc_run 7 mem_at gc_acts gc_world0 = Some g" "gw_calls g = [(0, Some 1, 5, 201)]"
    by (rule gc_acts_run)
  have c: "(0, Some 1, 5, 201) \<in> set (gw_calls g)" by (simp add: g(2))
  have s: "(0, 0) \<in> set (slots_of (thread_states_head (mem_at 1)))" by code_simp
  have v: "vtime_awake_p (ts_vtime (thrst (mem_at 1) (0, 0)))" by code_simp
  have d: "ts_gv (thrst (mem_at 1) (0, 0)) = Some 7" by code_simp
  from gc_grace_period [OF mem_trace g(1) c s v d] g(1) c show ?thesis by blast
qed

theorem gc_queue_fifo_witness:
  "\<exists>g. gc_run 7 mem_at (gc_acts @ [G_callback_free, G_new 3 1 300 400, G_enqueue 3]) gc_world0 = Some g
     \<and> gw_enq g = [0, 3] \<and> gq_path (gq_reqs (gw_q g)) (gq_first (gw_q g)) [3]"
proof -
  have "map_option (\<lambda>g. (gw_calls g, gw_enq g, gw_gcreq g, gw_pc g))
      (gc_run 7 mem_at (gc_acts @ [G_callback_free, G_new 3 1 300 400, G_enqueue 3]) gc_world0)
    = Some ([(0, Some 1, 5, 201)], [0, 3], None, GC_top)" by code_simp
  then obtain g where g: "gc_run 7 mem_at (gc_acts @ [G_callback_free, G_new 3 1 300 400, G_enqueue 3]) gc_world0 = Some g"
    "gw_calls g = [(0, Some 1, 5, 201)]" "gw_enq g = [0, 3]" "gw_gcreq g = None" "gw_pc g = GC_top" by auto
  then have "in_hand g = []" by (simp add: in_hand_def)
  with gc_queue_fifo [OF g(1)] g show ?thesis by auto
qed

theorem gc_no_missed_wakeup_witness:
  "\<exists>g g'. gc_run 7 mem_at gc_acts gc_world0 = Some g \<and> gc_exec 7 mem_at G_callback_free g = Some g'
     \<and> gcreq_queue_drain (gw_q g') \<and> gw_signal g'"
proof -
  have "map_option (\<lambda>g. (gq_count (gw_q g), map_option (\<lambda>g'. gq_count (gw_q g')) (gc_exec 7 mem_at G_callback_free g)))
      (gc_run 7 mem_at gc_acts gc_world0) = Some (1, Some 0)" by code_simp
  then obtain g g' where g: "gc_run 7 mem_at gc_acts gc_world0 = Some g" "gc_exec 7 mem_at G_callback_free g = Some g'"
    "gq_count (gw_q g) = 1" "gq_count (gw_q g') = 0" by auto
  from gc_no_missed_wakeup [OF g(1,2)] g show ?thesis by (auto simp: gcreq_queue_drain_def)
qed

theorem gc_waiting_ends_witness:
  "\<exists>ivs. length ivs = 1 \<and> fst (threads_vtime_gather_for_wait 7 mem_at 2 (thread_states_head (mem_at 1))) = ivs
     \<and> fst (threads_vtime_check 7 mem_at 200 1 ivs)"
proof -
  let ?iv = "\<lparr>iv_thrst = (0, 0), iv_vtime = 1\<rparr>"
  have g: "threads_vtime_gather_for_wait 7 mem_at (1 + 1) (thread_states_head (mem_at 1)) = ([?iv], 35)" by code_simp
  have e: "epoch (mem_at 35) (0, 0) = 0 \<and> epoch (mem_at 200) (0, 0) = 1 \<and> epoch (mem_at (200 + 1)) (0, 0) = 1
      \<and> epoch (mem_at 1) (0, 0) = 0" by code_simp
  have "\<forall>iv \<in> set [?iv]. epoch (mem_at 35) (iv_thrst iv) < epoch (mem_at 200) (iv_thrst iv)
      \<and> epoch (mem_at (200 + length [?iv])) (iv_thrst iv) < epoch (mem_at 1) (iv_thrst iv) + 2 ^ 27"
    using e by simp
  from gc_waiting_ends [OF mem_trace g _ this] g show ?thesis by (simp add: numeral_eq_Suc)
qed

theorem gc_forgets_nested_domain_witness:
  "\<exists>w'. thr_run [Awake1 2 8, Awake2 2] mem_busy = Some w' \<and> epoch w' = epoch mem_busy"
proof -
  have 1: "tsd_thread_state mem_busy 2 = Some (0, 0)" by code_simp
  have 2: "can_act 2 mem_busy" by code_simp
  have 3: "ts_state (thrst mem_busy (0, 0)) \<noteq> THREAD_STATE_ALIVE" by code_simp
  have 4: "vtime_awake_p (ts_vtime (thrst mem_busy (0, 0)))" by code_simp
  have 5: "ts_vtime (thrst mem_busy (0, 0)) AND VTIME_NEST_MASK < VTIME_NEST_MASK" by code_simp
  have 6: "ts_gv (thrst mem_busy (0, 0)) = Some 7" by code_simp
  from gc_forgets_nested_domain [OF 1 2 3 4 5 6, of 8 0] show ?thesis by auto
qed

end
