(* ===== verification/Acknack.thy ===== *)
theory Acknack
  imports Reorder_Nack Defrag_Nack Dqueue Times
begin

unbundle bit_operations_syntax

text \<open>
  The acknowledgements a reader sends: core/ddsi/src/ddsi_acknack.c, with the part of the heartbeat
  handler in q_receive.c that asks for them. What to request is computed from the reorder
  administration and the defragmenter; when to send it from the state kept for each pair of a
  proxy writer and a reader. Each function runs under the lock of the proxy writer.

  The timed event that sends acknowledgements is the time it is scheduled for (\<open>DDS_NEVER\<close> if it is
  not). Messages are the submessages put into them; whether there is room for a message, and whether
  the security plugin drops it when a submessage is encoded, is an argument, \<open>xmsg_fate\<close>. Arrays on
  the stack have arbitrary contents, given as arguments.
\<close>

definition NN_SEQUENCE_NUMBER_SET_MAX_BITS :: nat where "NN_SEQUENCE_NUMBER_SET_MAX_BITS = 256"
definition NN_FRAGMENT_NUMBER_SET_MAX_BITS :: nat where "NN_FRAGMENT_NUMBER_SET_MAX_BITS = 256"

section \<open>State\<close>

record ack_config =
  late_ack_mode :: bool
  ack_delay :: int
  nack_delay :: int
  auto_resched_nack_delay :: int
  meas_hb_to_ack_latency :: bool

record proxy_writer =
  pw_reorder :: nn_reorder
  pw_defrag :: nn_defrag
  pw_dqueue :: nn_dqueue
  pw_last_seq :: seqno
  pw_last_fragnum :: nat
  pw_next_deliv_seq_lowword :: u32
  pw_nackfragcount :: u32
  pw_have_seen_heartbeat :: bool

datatype pwr_rd_match_syncstate = PRMSS_SYNC | PRMSS_TLCATCHUP | PRMSS_OUT_OF_SYNC

record last_nack_summary =
  seq_end_p1 :: seqno
  seq_base :: seqno
  frag_end_p1 :: nat
  frag_base :: nat

record pwr_rd_match =
  rm_count :: u32
  rm_prev_heartbeat :: u32
  rm_hb_timestamp :: int
  rm_tcreate :: int
  rm_t_heartbeat_accepted :: int
  rm_t_last_nack :: int
  rm_t_last_ack :: int
  rm_last_seq :: seqno
  rm_last_nack :: last_nack_summary
  rm_in_sync :: pwr_rd_match_syncstate
  rm_ack_requested :: bool
  rm_heartbeat_since_ack :: bool
  rm_heartbeatfrag_since_ack :: bool
  rm_directed_heartbeat :: bool
  rm_nack_sent_on_nackdelay :: bool
  rm_filtered :: bool
  rm_reorder :: nn_reorder

definition ddsrt_mtime_add_duration :: "int \<Rightarrow> int \<Rightarrow> int" where
  "ddsrt_mtime_add_duration abstime reltime = ddsrt_time_add_duration abstime reltime"

definition resched_xevent_if_earlier :: "int \<Rightarrow> int \<Rightarrow> int" where
  "resched_xevent_if_earlier ev tsched = (if tsched = DDS_NEVER then ev else if tsched \<ge> ev then ev else tsched)"

section \<open>What to request\<close>

text \<open>The sequence number up to which samples were delivered, of which only the low word is shared.\<close>

definition next_deliv_seq :: "u32 \<Rightarrow> u64 \<Rightarrow> u64" where
  "next_deliv_seq lw next_seq =
    (let nd = (next_seq AND NOT (ucast (NOT 0 :: u32))) OR ucast lw
     in if nd > next_seq then nd - push_bit 32 1 else nd)"

text \<open>The reorder administration, the base of the bitmap and \<open>notail\<close>.\<close>

definition add_AckNack_getsource :: "ack_config \<Rightarrow> proxy_writer \<Rightarrow> pwr_rd_match \<Rightarrow> nn_reorder \<times> seqno \<times> bool" where
  "add_AckNack_getsource cfg pwr rwn =
    (if rm_in_sync rwn = PRMSS_OUT_OF_SYNC \<or> rm_filtered rwn
     then (rm_reorder rwn, nn_reorder_next_seq (rm_reorder rwn), False)
     else if \<not> late_ack_mode cfg then (pw_reorder pwr, nn_reorder_next_seq (pw_reorder pwr), False)
     else (pw_reorder pwr,
           unat (next_deliv_seq (pw_next_deliv_seq_lowword pwr) (of_nat (nn_reorder_next_seq (pw_reorder pwr)))),
           nn_dqueue_is_full (pw_dqueue pwr)))"

record add_AckNack_info =
  ai_nack_sent_on_nackdelay :: bool
  ai_bitmap_base :: seqno
  ai_numbits :: nat
  ai_bits :: "u32 list"
  ai_frag_seq :: seqno
  ai_frag_base :: nat
  ai_frag_numbits :: nat
  ai_frag_bits :: "u32 list"

text \<open>
  The scan for the first missing sample the defragmenter knows about: its offset, and the fragments
  to ask for if some are missing.
\<close>

fun nack_cut :: "proxy_writer \<Rightarrow> seqno \<Rightarrow> nat \<Rightarrow> u32 list \<Rightarrow> u32 list \<Rightarrow> nat list \<Rightarrow> (nat \<times> (nat \<times> nat \<times> u32 list) option) option" where
  "nack_cut pwr base numbits bits fmem [] = None"
| "nack_cut pwr base numbits bits fmem (i # is) =
    (if \<not> nn_bitset_isset numbits bits i then nack_cut pwr base numbits bits fmem is
     else let seq = base + i;
              fragnum = (if seq = pw_last_seq pwr then pw_last_fragnum pwr else UINT32_MAX)
          in case nn_defrag_nackmap (pw_defrag pwr) seq fragnum fmem NN_FRAGMENT_NUMBER_SET_MAX_BITS of
               (DEFRAG_NACKMAP_UNKNOWN_SAMPLE, _) \<Rightarrow> nack_cut pwr base numbits bits fmem is
             | (DEFRAG_NACKMAP_ALL_ADVERTISED_FRAGMENTS_KNOWN, _) \<Rightarrow> Some (i, None)
             | (DEFRAG_NACKMAP_FRAGMENTS_MISSING, fr) \<Rightarrow> Some (i, Some fr))"

definition add_AckNack_makebitmaps ::
    "ack_config \<Rightarrow> proxy_writer \<Rightarrow> pwr_rd_match \<Rightarrow> add_AckNack_info \<Rightarrow> bool \<times> add_AckNack_info" where
  "add_AckNack_makebitmaps cfg pwr rwn info =
    (let (reorder, bitmap_base, notail) = add_AckNack_getsource cfg pwr rwn;
         last_seq = (if rm_filtered rwn then rm_last_seq rwn else pw_last_seq pwr);
         (base, numbits, bits) =
           nn_reorder_nackmap reorder bitmap_base last_seq (ai_bits info) NN_SEQUENCE_NUMBER_SET_MAX_BITS notail;
         info = info\<lparr>ai_bitmap_base := base, ai_numbits := numbits, ai_bits := bits, ai_frag_seq := 0\<rparr>
     in if numbits = 0 then (False, info)
        else case nack_cut pwr base numbits bits (ai_frag_bits info) [0..<numbits] of
               None \<Rightarrow> (True, info)
             | Some (i, None) \<Rightarrow> (0 < i, info\<lparr>ai_numbits := i\<rparr>)
             | Some (i, Some (fb, fn, fbits)) \<Rightarrow>
                 (True, info\<lparr>ai_numbits := i, ai_frag_seq := base + i, ai_frag_base := fb,
                             ai_frag_numbits := fn, ai_frag_bits := fbits\<rparr>))"

section \<open>Whether to send it\<close>

datatype add_AckNack_result = AANR_SUPPRESSED_ACK | AANR_ACK | AANR_SUPPRESSED_NACK | AANR_NACK | AANR_NACKFRAG_ONLY

text \<open>Something not requested before, compared with the last request.\<close>

definition beyond_last_nack :: "last_nack_summary \<Rightarrow> last_nack_summary \<Rightarrow> bool" where
  "beyond_last_nack s l \<longleftrightarrow> seq_base s > seq_end_p1 l \<or> seq_base s = seq_end_p1 l \<and> frag_base s \<ge> frag_end_p1 l"

definition get_AckNack_info ::
    "ack_config \<Rightarrow> proxy_writer \<Rightarrow> pwr_rd_match \<Rightarrow> add_AckNack_info \<Rightarrow> bool \<Rightarrow> bool
       \<Rightarrow> add_AckNack_result \<times> last_nack_summary \<times> add_AckNack_info" where
  "get_AckNack_info cfg pwr rwn info0 ackdelay_passed nackdelay_passed =
    (let (nack, info) = add_AckNack_makebitmaps cfg pwr rwn info0;
         (result, summary, info) =
           (if \<not> nack
            then (AANR_ACK,
                  \<lparr>seq_end_p1 = 0, seq_base = ai_bitmap_base info, frag_end_p1 = 0, frag_base = 0\<rparr>,
                  info\<lparr>ai_nack_sent_on_nackdelay := rm_nack_sent_on_nackdelay rwn\<rparr>)
            else
              let fb = (if 0 < ai_frag_seq info then ai_frag_base info else 0);
                  fe = (if 0 < ai_frag_seq info then ai_frag_base info + ai_frag_numbits info else 0);
                  summary = \<lparr>seq_end_p1 = ai_bitmap_base info + ai_numbits info, seq_base = ai_bitmap_base info,
                             frag_end_p1 = fe, frag_base = fb\<rparr>
              in if beyond_last_nack summary (rm_last_nack rwn)
                 then (AANR_NACK, summary, info\<lparr>ai_nack_sent_on_nackdelay := False\<rparr>)
                 else if rm_directed_heartbeat rwn \<and> (\<not> rm_nack_sent_on_nackdelay rwn \<or> nackdelay_passed)
                 then (AANR_NACK, summary, info\<lparr>ai_nack_sent_on_nackdelay := False\<rparr>)
                 else if nackdelay_passed
                 then (AANR_NACK, summary, info\<lparr>ai_nack_sent_on_nackdelay := True\<rparr>)
                 else (AANR_SUPPRESSED_NACK, summary,
                       info\<lparr>ai_nack_sent_on_nackdelay := rm_nack_sent_on_nackdelay rwn,
                            ai_numbits := 0, ai_frag_seq := 0\<rparr>));
         result =
           (if result = AANR_ACK \<or> result = AANR_SUPPRESSED_NACK
            then if \<not> (rm_heartbeat_since_ack rwn \<and> rm_ack_requested rwn) then AANR_SUPPRESSED_ACK
                 else if \<not> (seq_base summary > seq_base (rm_last_nack rwn) \<or> ackdelay_passed) then AANR_SUPPRESSED_ACK
                 else result
            else if ai_numbits info = 0 \<and> 0 < ai_frag_seq info \<and> \<not> rm_ack_requested rwn then AANR_NACKFRAG_ONLY
            else result)
     in (result, summary, info))"

definition ackdelay_passed :: "ack_config \<Rightarrow> pwr_rd_match \<Rightarrow> int \<Rightarrow> bool" where
  "ackdelay_passed cfg rwn tnow \<longleftrightarrow> tnow \<ge> ddsrt_mtime_add_duration (rm_t_last_ack rwn) (ack_delay cfg)"

definition nackdelay_passed :: "ack_config \<Rightarrow> pwr_rd_match \<Rightarrow> int \<Rightarrow> bool" where
  "nackdelay_passed cfg rwn tnow \<longleftrightarrow> tnow \<ge> ddsrt_mtime_add_duration (rm_t_last_nack rwn) (nack_delay cfg)"

definition sched_acknack_if_needed ::
    "ack_config \<Rightarrow> int \<Rightarrow> proxy_writer \<Rightarrow> pwr_rd_match \<Rightarrow> add_AckNack_info \<Rightarrow> int \<Rightarrow> bool \<Rightarrow> int" where
  "sched_acknack_if_needed cfg ev pwr rwn info0 tnow avoid_suppressed_nack =
    (case get_AckNack_info cfg pwr rwn info0 (ackdelay_passed cfg rwn tnow) (nackdelay_passed cfg rwn tnow) of
       (aanr, _) \<Rightarrow>
         if aanr = AANR_SUPPRESSED_ACK then ev
         else if avoid_suppressed_nack \<and> aanr = AANR_SUPPRESSED_NACK
         then resched_xevent_if_earlier ev (ddsrt_mtime_add_duration (rm_t_last_nack rwn) (nack_delay cfg))
         else resched_xevent_if_earlier ev tnow)"

section \<open>Sending it\<close>

text \<open>
  ACKNACK: FINAL flag, base, number of bits, bits, count. NACKFRAG: sequence number, base (counted
  from 1), number of bits, bits, count.
\<close>

datatype ack_submsg = AckNack bool seqno nat "u32 list" u32 | NackFrag seqno nat nat "u32 list" u32

record ack_xmsg =
  am_timestamp :: "int option"
  am_submsgs :: "ack_submsg list"

definition bitset_words :: "nat \<Rightarrow> u32 list \<Rightarrow> u32 list" where
  "bitset_words numbits bits = take ((numbits + 31) div 32) bits"

definition add_AckNack :: "ack_xmsg \<Rightarrow> pwr_rd_match \<Rightarrow> add_AckNack_info \<Rightarrow> ack_xmsg" where
  "add_AckNack msg rwn info = msg\<lparr>am_submsgs := am_submsgs msg @
     [AckNack True (ai_bitmap_base info) (ai_numbits info) (bitset_words (ai_numbits info) (ai_bits info)) (rm_count rwn)]\<rparr>"

definition add_NackFrag :: "ack_xmsg \<Rightarrow> proxy_writer \<Rightarrow> add_AckNack_info \<Rightarrow> ack_xmsg" where
  "add_NackFrag msg pwr info = msg\<lparr>am_submsgs := am_submsgs msg @
     [NackFrag (ai_frag_seq info) (ai_frag_base info + 1) (ai_frag_numbits info)
        (bitset_words (ai_frag_numbits info) (ai_frag_bits info)) (pw_nackfragcount pwr)]\<rparr>"

text \<open>Committing to sending something, and the message, which takes the time stamp of the heartbeat.\<close>

definition ack_commit :: "pwr_rd_match \<Rightarrow> add_AckNack_info \<Rightarrow> pwr_rd_match" where
  "ack_commit rwn info = rwn\<lparr>rm_directed_heartbeat := False, rm_heartbeat_since_ack := False,
     rm_heartbeatfrag_since_ack := False, rm_nack_sent_on_nackdelay := ai_nack_sent_on_nackdelay info\<rparr>"

definition ack_compose ::
    "ack_config \<Rightarrow> add_AckNack_result \<Rightarrow> proxy_writer \<Rightarrow> pwr_rd_match \<Rightarrow> add_AckNack_info \<Rightarrow> ack_xmsg \<times> pwr_rd_match" where
  "ack_compose cfg aanr pwr rwn info =
    (let stamp = meas_hb_to_ack_latency cfg \<and> rm_hb_timestamp rwn \<noteq> 0;
         msg = \<lparr>am_timestamp = (if stamp then Some (rm_hb_timestamp rwn) else None), am_submsgs = []\<rparr>;
         rwn = (if stamp then rwn\<lparr>rm_hb_timestamp := 0\<rparr> else rwn);
         msg = (if aanr \<noteq> AANR_NACKFRAG_ONLY then add_AckNack msg rwn info else msg);
         msg = (if 0 < ai_frag_seq info then add_NackFrag msg pwr info else msg)
     in (msg, rwn))"

text \<open>The last \<open>switch\<close>: what is recorded of the message that has been sent.\<close>

definition ack_sent ::
    "ack_config \<Rightarrow> add_AckNack_result \<Rightarrow> last_nack_summary \<Rightarrow> int \<Rightarrow> proxy_writer \<Rightarrow> pwr_rd_match \<Rightarrow> int
       \<Rightarrow> proxy_writer \<times> pwr_rd_match \<times> int" where
  "ack_sent cfg aanr summary tnow pwr rwn ev =
    (case aanr of
       AANR_SUPPRESSED_ACK \<Rightarrow> (pwr, rwn, ev)
     | AANR_ACK \<Rightarrow> (pwr, rwn\<lparr>rm_ack_requested := False, rm_t_last_ack := tnow,
                          rm_last_nack := (rm_last_nack rwn)\<lparr>seq_base := seq_base summary\<rparr>\<rparr>, ev)
     | AANR_SUPPRESSED_NACK \<Rightarrow>
         (pwr, rwn\<lparr>rm_ack_requested := False, rm_t_last_ack := tnow,
                   rm_last_nack := (rm_last_nack rwn)\<lparr>seq_base := seq_base summary\<rparr>\<rparr>,
          resched_xevent_if_earlier ev (ddsrt_mtime_add_duration (rm_t_last_nack rwn) (nack_delay cfg)))
     | _ \<Rightarrow>
         (let pwr = (if frag_end_p1 summary \<noteq> 0 then pwr\<lparr>pw_nackfragcount := pw_nackfragcount pwr + 1\<rparr> else pwr);
              rwn = (if aanr \<noteq> AANR_NACKFRAG_ONLY then rwn\<lparr>rm_ack_requested := False, rm_t_last_ack := tnow\<rparr> else rwn)
          in (pwr, rwn\<lparr>rm_last_nack := summary, rm_t_last_nack := tnow\<rparr>,
              resched_xevent_if_earlier ev (ddsrt_mtime_add_duration tnow (auto_resched_nack_delay cfg)))))"

text \<open>
  What becomes of a message: \<open>nn_xmsg_new\<close> returns null, or the message is empty after encoding
  (\<open>nn_xmsg_size\<close>), or it is sent.
\<close>

datatype xmsg_fate = XMSG_NOT_ALLOCATED | XMSG_DROPPED | XMSG_SENT

definition make_and_resched_acknack ::
    "ack_config \<Rightarrow> int \<Rightarrow> proxy_writer \<Rightarrow> pwr_rd_match \<Rightarrow> add_AckNack_info \<Rightarrow> int \<Rightarrow> bool \<Rightarrow> xmsg_fate
       \<Rightarrow> ack_xmsg option \<times> proxy_writer \<times> pwr_rd_match \<times> int" where
  "make_and_resched_acknack cfg ev pwr rwn info0 tnow avoid_suppressed_nack fate =
    (let (aanr, summary, info) =
           get_AckNack_info cfg pwr rwn info0 (ackdelay_passed cfg rwn tnow) (nackdelay_passed cfg rwn tnow);
         auto = ddsrt_mtime_add_duration (rm_t_last_nack rwn) (auto_resched_nack_delay cfg)
     in if aanr = AANR_SUPPRESSED_ACK then (None, pwr, rwn, ev)
        else if avoid_suppressed_nack \<and> aanr = AANR_SUPPRESSED_NACK
        then (None, pwr, rwn,
              resched_xevent_if_earlier ev (ddsrt_mtime_add_duration (rm_t_last_nack rwn) (nack_delay cfg)))
        else if \<not> (rm_heartbeat_since_ack rwn \<or> rm_heartbeatfrag_since_ack rwn) \<and> aanr = AANR_ACK
        then (None, pwr, rwn, ev)
        else if \<not> (rm_heartbeat_since_ack rwn \<or> rm_heartbeatfrag_since_ack rwn) \<and> tnow < auto
        then (None, pwr, rwn, resched_xevent_if_earlier ev auto)
        else if fate = XMSG_NOT_ALLOCATED then (None, pwr, ack_commit rwn info, ev)
        else
          let (msg, rwn) = ack_compose cfg aanr pwr (ack_commit rwn info) info
          in if fate = XMSG_DROPPED then (None, pwr, rwn, ev)
             else case ack_sent cfg aanr summary tnow pwr (rwn\<lparr>rm_count := rm_count rwn + 1\<rparr>) ev of
                    (pwr, rwn, ev) \<Rightarrow> (Some msg, pwr, rwn, ev))"

section \<open>Heartbeats\<close>

definition accept_ack_or_hb_w_timeout :: "u32 \<Rightarrow> u32 \<Rightarrow> int \<Rightarrow> int \<Rightarrow> bool \<Rightarrow> bool" where
  "accept_ack_or_hb_w_timeout new_count prev_count tnow t_last_accepted force_accept \<longleftrightarrow>
    \<not> (sint (new_count - prev_count) \<le> 0 \<and> tnow - t_last_accepted < DDS_MSECS 500 \<and> \<not> force_accept)"

text \<open>
  What a heartbeat does to a reliable reader that it is meant for: \<open>tnow\<close> is the time it arrived,
  \<open>tnow_mt\<close> the same on the monotonic clock.
\<close>

definition handle_Heartbeat_helper ::
    "ack_config \<Rightarrow> proxy_writer \<Rightarrow> add_AckNack_info \<Rightarrow> u32 \<Rightarrow> bool \<Rightarrow> bool \<Rightarrow> int \<Rightarrow> int \<Rightarrow> pwr_rd_match \<Rightarrow> int
       \<Rightarrow> pwr_rd_match \<times> int" where
  "handle_Heartbeat_helper cfg pwr info0 hb_count final directed tnow tnow_mt wn ev =
    (if \<not> accept_ack_or_hb_w_timeout hb_count (rm_prev_heartbeat wn) tnow (rm_t_heartbeat_accepted wn) False
     then (wn, ev)
     else
       let wn = wn\<lparr>rm_prev_heartbeat := hb_count, rm_t_heartbeat_accepted := tnow, rm_heartbeat_since_ack := True\<rparr>;
           wn = (if \<not> final then wn\<lparr>rm_ack_requested := True\<rparr> else wn);
           wn = (if directed then wn\<lparr>rm_directed_heartbeat := True\<rparr> else wn)
       in (wn, sched_acknack_if_needed cfg ev pwr wn info0 tnow_mt True))"

text \<open>
  A HEARTBEATFRAG: what it advertises, and what it does to the reader that responds to it (\<open>now\<close> is
  the time on the monotonic clock).
\<close>

definition heartbeatfrag_advertise :: "proxy_writer \<Rightarrow> seqno \<Rightarrow> nat \<Rightarrow> proxy_writer" where
  "heartbeatfrag_advertise pwr seq fragnum =
    (if seq > pw_last_seq pwr then pwr\<lparr>pw_last_seq := seq, pw_last_fragnum := fragnum\<rparr>
     else if seq = pw_last_seq pwr \<and> fragnum > pw_last_fragnum pwr then pwr\<lparr>pw_last_fragnum := fragnum\<rparr>
     else pwr)"

definition heartbeatfrag_respond ::
    "ack_config \<Rightarrow> proxy_writer \<Rightarrow> add_AckNack_info \<Rightarrow> seqno \<Rightarrow> nat \<Rightarrow> bool \<Rightarrow> int \<Rightarrow> pwr_rd_match \<Rightarrow> int
       \<Rightarrow> pwr_rd_match \<times> int" where
  "heartbeatfrag_respond cfg pwr info0 seq fragnum directed now m ev =
    (let m = (if directed then m\<lparr>rm_directed_heartbeat := True\<rparr> else m);
         m = m\<lparr>rm_heartbeatfrag_since_ack := True\<rparr>;
         last_seq = (if rm_filtered m then rm_last_seq m else pw_last_seq pwr)
     in (m, if seq = last_seq \<and> fst (nn_defrag_nackmap (pw_defrag pwr) seq fragnum (ai_frag_bits info0)
                                     NN_FRAGMENT_NUMBER_SET_MAX_BITS) = DEFRAG_NACKMAP_FRAGMENTS_MISSING
            then resched_xevent_if_earlier ev (ddsrt_mtime_add_duration now (nack_delay cfg)) else ev))"

section \<open>The timed event\<close>

text \<open>Before the first heartbeat, a reader announces itself by an empty ACKNACK, ever more slowly.\<close>

definition preemptive_acknack_interval :: "pwr_rd_match \<Rightarrow> int" where
  "preemptive_acknack_interval rwn =
    (if rm_t_last_ack rwn < rm_tcreate rwn then 0
     else let age = rm_t_last_ack rwn - rm_tcreate rwn
          in if age \<le> DDS_SECS 10 then DDS_SECS 1
             else if age \<le> DDS_SECS 60 then DDS_SECS 2
             else if age \<le> DDS_SECS 120 then DDS_SECS 5
             else DDS_SECS 10)"

text \<open>The argument \<open>alloc\<close> tells whether \<open>nn_xmsg_new\<close> gives a message.\<close>

definition make_preemptive_acknack ::
    "int \<Rightarrow> pwr_rd_match \<Rightarrow> int \<Rightarrow> bool \<Rightarrow> ack_xmsg option \<times> pwr_rd_match \<times> int" where
  "make_preemptive_acknack ev rwn tnow alloc =
    (let intv = preemptive_acknack_interval rwn;
         again = ddsrt_mtime_add_duration (rm_t_last_ack rwn) intv
     in if tnow < again then (None, rwn, resched_xevent_if_earlier ev again)
        else if \<not> alloc then (None, rwn, resched_xevent_if_earlier ev (ddsrt_mtime_add_duration tnow (DDS_SECS 1)))
        else (Some \<lparr>am_timestamp = None, am_submsgs = [AckNack False 1 0 [] 0]\<rparr>, rwn\<lparr>rm_t_last_ack := tnow\<rparr>,
              resched_xevent_if_earlier ev (ddsrt_mtime_add_duration tnow intv)))"

text \<open>The event is unscheduled when its handler is called.\<close>

definition handle_xevk_acknack ::
    "ack_config \<Rightarrow> int \<Rightarrow> proxy_writer \<Rightarrow> pwr_rd_match \<Rightarrow> add_AckNack_info \<Rightarrow> int \<Rightarrow> xmsg_fate
       \<Rightarrow> ack_xmsg option \<times> proxy_writer \<times> pwr_rd_match \<times> int" where
  "handle_xevk_acknack cfg ev pwr rwn info0 tnow fate =
    (if \<not> pw_have_seen_heartbeat pwr
     then case make_preemptive_acknack ev rwn tnow (fate \<noteq> XMSG_NOT_ALLOCATED) of (msg, rwn, ev) \<Rightarrow> (msg, pwr, rwn, ev)
     else make_and_resched_acknack cfg ev pwr rwn info0 tnow False fate)"

end
