(* ===== verification/Acknack_Props.thy ===== *)
theory Acknack_Props
  imports Acknack
begin

text \<open>
  What acknowledgements ask for and when they are sent, over the exact descriptions of the two
  bitmaps: every number requested is missing, whole samples are requested only if nothing of them
  is here, requests are spaced, and while something is missing the next attempt is scheduled.
\<close>

section \<open>The sequence number delivered up to\<close>

lemma high_low_word:
  "unat ((x AND NOT (ucast (NOT 0 :: u32) :: u64)) OR ucast (lw :: u32)) = unat x div 2 ^ 32 * 2 ^ 32 + unat lw"
proof -
  have m: "(ucast (NOT 0 :: u32) :: u64) = mask 32" by (rule bit_word_eqI) (auto simp: bit_simps)
  let ?h = "x AND NOT (mask 32)"
  have h: "unat ?h = unat x div 2 ^ 32 * 2 ^ 32"
  proof -
    have "?h = push_bit 32 (drop_bit 32 x)"
      by (rule bit_word_eqI) (auto simp: bit_simps)
    moreover have "unat (drop_bit 32 x) = unat x div 2 ^ 32" by (simp add: drop_bit_eq_div unat_div)
    moreover have "unat x < 2 ^ LENGTH(64)" by (rule unsigned_less)
    moreover have "unat x div 2 ^ 32 * 2 ^ 32 \<le> unat x" by (rule div_times_less_eq_dividend)
    ultimately show ?thesis by (simp add: push_bit_eq_mult unat_word_ariths)
  qed
  have "?h OR ucast lw = ?h + ucast lw"
    by (rule disjunctive_add [symmetric]) (auto simp: bit_simps dest: bit_imp_le_length)
  moreover have "unat (?h + ucast lw) = unat ?h + unat lw"
  proof -
    have "unat x < 2 ^ LENGTH(64)" "unat lw < 2 ^ LENGTH(32)" by (rule unsigned_less)+
    moreover from this(1) have "unat x div 2 ^ 32 < 2 ^ 32" by (intro less_mult_imp_div_less) simp
    ultimately have "unat ?h + unat lw < 2 ^ 64" unfolding h by simp
    moreover have "unat (ucast lw :: u64) = unat lw"
      using \<open>unat lw < 2 ^ LENGTH(32)\<close> by (simp add: unsigned_ucast_eq take_bit_nat_eq_self)
    ultimately show ?thesis by (simp add: unat_word_ariths)
  qed
  ultimately show ?thesis unfolding m by (simp add: h)
qed


text \<open>
  From the low word of the sequence number delivered up to and the next one expected, the function
  computes the full number, as long as fewer than \<open>2^32\<close> samples are in the delivery queue.
\<close>

lemma next_deliv_seq_exact:
  assumes "nd \<le> next" and "next - nd < 2 ^ 32" and "next < 2 ^ 63"
  shows "next_deliv_seq (of_nat nd) (of_nat next) = of_nat nd"
proof -
  let ?n = "of_nat next :: u64" and ?lw = "of_nat nd :: u32"
  have un: "unat ?n = next" using assms by (simp add: unat_of_nat take_bit_nat_eq_self)
  have ul: "unat ?lw = nd mod 2 ^ 32" by (simp add: unat_of_nat take_bit_eq_mod)
  define y where "y = (?n AND NOT (ucast (NOT 0 :: u32))) OR ucast ?lw"
  have y: "unat y = next div 2 ^ 32 * 2 ^ 32 + nd mod 2 ^ 32" unfolding y_def high_low_word un ul ..
  have split: "next = next div 2 ^ 32 * 2 ^ 32 + next mod 2 ^ 32" "nd = nd div 2 ^ 32 * 2 ^ 32 + nd mod 2 ^ 32"
    by (simp_all only: div_mult_mod_eq)
  have le: "nd div 2 ^ 32 \<le> next div 2 ^ 32" using assms(1) by (rule div_le_mono)
  have "next \<le> nd + 2 ^ 32" using assms(2) by simp
  then have "next div 2 ^ 32 \<le> (nd + 2 ^ 32) div 2 ^ 32" by (rule div_le_mono)
  then have ge: "next div 2 ^ 32 \<le> nd div 2 ^ 32 + 1" by simp
  have und: "unat (of_nat nd :: u64) = nd" using assms by (simp add: unat_of_nat take_bit_nat_eq_self)
  have gt: "y > ?n \<longleftrightarrow> unat y > next" by (simp add: word_less_nat_alt un)
  consider "next div 2 ^ 32 = nd div 2 ^ 32" | "next div 2 ^ 32 = nd div 2 ^ 32 + 1" using le ge by linarith
  then show ?thesis
  proof cases
    case 1
    then have "unat y = nd" using y split(2) by simp
    then have "y = of_nat nd" "\<not> y > ?n" using und gt assms(1) by (simp_all add: word_unat_eq_iff)
    then show ?thesis unfolding next_deliv_seq_def Let_def y_def [symmetric] by simp
  next
    case 2
    then have u: "unat y = nd + 2 ^ 32" using y split(2) by simp
    then have g: "y > ?n" using gt assms(2) by simp
    have "y = of_nat (nd + 2 ^ 32)" unfolding u [symmetric] by simp
    then have "y - push_bit 32 1 = of_nat nd" by (simp add: push_bit_eq_mult)
    then show ?thesis using g unfolding next_deliv_seq_def Let_def y_def [symmetric] by simp
  qed
qed

section \<open>What is requested\<close>

definition nack_at :: "proxy_writer \<Rightarrow> seqno \<Rightarrow> u32 list \<Rightarrow> nat \<Rightarrow> nn_defrag_nackmap_result \<times> nat \<times> nat \<times> u32 list" where
  "nack_at pwr base fmem i = nn_defrag_nackmap (pw_defrag pwr) (base + i)
     (if base + i = pw_last_seq pwr then pw_last_fragnum pwr else UINT32_MAX) fmem NN_FRAGMENT_NUMBER_SET_MAX_BITS"

lemma nack_cut_Cons:
  "nack_cut pwr base n bits fmem (i # is) =
    (if \<not> nn_bitset_isset n bits i then nack_cut pwr base n bits fmem is
     else case fst (nack_at pwr base fmem i) of
         DEFRAG_NACKMAP_UNKNOWN_SAMPLE \<Rightarrow> nack_cut pwr base n bits fmem is
       | DEFRAG_NACKMAP_ALL_ADVERTISED_FRAGMENTS_KNOWN \<Rightarrow> Some (i, None)
       | DEFRAG_NACKMAP_FRAGMENTS_MISSING \<Rightarrow> Some (i, Some (snd (nack_at pwr base fmem i))))"
  by (simp add: nack_at_def Let_def split: prod.splits nn_defrag_nackmap_result.splits)

declare nack_cut.simps(2) [simp del]

lemma nack_cut_None:
  "nack_cut pwr base n bits fmem is = None \<Longrightarrow> i \<in> set is \<Longrightarrow> nn_bitset_isset n bits i \<Longrightarrow>
   fst (nack_at pwr base fmem i) = DEFRAG_NACKMAP_UNKNOWN_SAMPLE"
  by (induction "is") (auto simp: nack_cut_Cons split: if_splits nn_defrag_nackmap_result.splits)

lemma nack_cut_Some:
  "nack_cut pwr base n bits fmem is = Some (i, x) \<Longrightarrow> \<exists>ys zs. is = ys @ i # zs \<and> nn_bitset_isset n bits i
     \<and> (\<forall>j \<in> set ys. nn_bitset_isset n bits j \<longrightarrow> fst (nack_at pwr base fmem j) = DEFRAG_NACKMAP_UNKNOWN_SAMPLE)
     \<and> (case x of None \<Rightarrow> fst (nack_at pwr base fmem i) = DEFRAG_NACKMAP_ALL_ADVERTISED_FRAGMENTS_KNOWN
          | Some y \<Rightarrow> nack_at pwr base fmem i = (DEFRAG_NACKMAP_FRAGMENTS_MISSING, y))"
proof (induction "is")
  case (Cons j js)
  show ?case
  proof (cases "nn_bitset_isset n bits j \<longrightarrow> fst (nack_at pwr base fmem j) = DEFRAG_NACKMAP_UNKNOWN_SAMPLE")
    case True
    then have "nack_cut pwr base n bits fmem js = Some (i, x)"
      using Cons.prems by (simp add: nack_cut_Cons split: if_splits)
    from Cons.IH [OF this] obtain ys zs where "js = ys @ i # zs" "nn_bitset_isset n bits i"
      "\<forall>j \<in> set ys. nn_bitset_isset n bits j \<longrightarrow> fst (nack_at pwr base fmem j) = DEFRAG_NACKMAP_UNKNOWN_SAMPLE"
      "case x of None \<Rightarrow> fst (nack_at pwr base fmem i) = DEFRAG_NACKMAP_ALL_ADVERTISED_FRAGMENTS_KNOWN
          | Some y \<Rightarrow> nack_at pwr base fmem i = (DEFRAG_NACKMAP_FRAGMENTS_MISSING, y)" by blast
    then show ?thesis using True by (intro exI [of _ "j # ys"] exI [of _ zs]) simp
  next
    case False
    then have "i = j \<and> (case x of None \<Rightarrow> fst (nack_at pwr base fmem i) = DEFRAG_NACKMAP_ALL_ADVERTISED_FRAGMENTS_KNOWN
          | Some y \<Rightarrow> nack_at pwr base fmem i = (DEFRAG_NACKMAP_FRAGMENTS_MISSING, y))"
      using Cons.prems by (cases "nack_at pwr base fmem j") (auto simp: nack_cut_Cons split: nn_defrag_nackmap_result.splits)
    then show ?thesis using False by (intro exI [of _ "[]"] exI [of _ js]) simp
  qed
qed simp

lemma known_neq_unknown:
  "(if c then DEFRAG_NACKMAP_ALL_ADVERTISED_FRAGMENTS_KNOWN else DEFRAG_NACKMAP_FRAGMENTS_MISSING)
     = DEFRAG_NACKMAP_UNKNOWN_SAMPLE \<longleftrightarrow> False"
  by simp

lemma nack_at_unknown:
  "fst (nack_at pwr base fmem i) = DEFRAG_NACKMAP_UNKNOWN_SAMPLE \<Longrightarrow>
   idx_lookup df_seq (base + i) (dg_sampletree (pw_defrag pwr)) = None"
  unfolding nack_at_def nn_defrag_nackmap_def Let_def
  by (cases "idx_lookup df_seq (base + i) (dg_sampletree (pw_defrag pwr))")
    (simp_all only: option.case fst_conv if_distrib [of fst] known_neq_unknown simp_thms)

lemma upt_prefix: "[0..<n] = ys @ i # zs \<Longrightarrow> i < n \<and> set ys = {..<i}"
proof -
  assume e: "[0..<n] = ys @ i # zs"
  then have "length [0..<n] = length ys + Suc (length zs)" by simp
  then have l: "length ys < n" by simp
  have "i = [0..<n] ! length ys" "ys = take (length ys) [0..<n]" by (simp_all add: e)
  then have "i = length ys" "ys = [0..<length ys]" using l by (simp_all add: take_upt)
  then show ?thesis using l by (metis atLeast_upt lessThan_atLeast0 set_upt)
qed


definition plausible :: "proxy_writer \<Rightarrow> bool" where
  "plausible pwr \<longleftrightarrow> dg_ok (pw_defrag pwr) \<and> (\<forall>s \<in> set (dg_sampletree (pw_defrag pwr)).
     0 < si_fragsize (df_sampleinfo s) \<and> 0 < si_size (df_sampleinfo s)
     \<and> si_size (df_sampleinfo s) + si_fragsize (df_sampleinfo s) \<le> 2 ^ 32)"

definition room_for_bits :: "add_AckNack_info \<Rightarrow> bool" where
  "room_for_bits info \<longleftrightarrow> length (ai_bits info) = 8 \<and> length (ai_frag_bits info) = 8"

text \<open>What it means that fragments \<open>[base, base + n)\<close> with these bits are asked for.\<close>

definition asks_fragments :: "proxy_writer \<Rightarrow> seqno \<Rightarrow> nat \<Rightarrow> nat \<Rightarrow> u32 list \<Rightarrow> bool" where
  "asks_fragments pwr seq base n bits \<longleftrightarrow> 0 < n \<and>
    (case idx_lookup df_seq seq (dg_sampletree (pw_defrag pwr)) of
       None \<Rightarrow> seq = pw_last_seq pwr \<and> base = 0 \<and> n \<le> pw_last_fragnum pwr + 1 \<and> (\<forall>j < n. nn_bitset_isset n bits j)
     | Some s \<Rightarrow> \<forall>j < n. nn_bitset_isset n bits j \<longleftrightarrow>
         \<not> frag_bytes (si_fragsize (df_sampleinfo s)) (base + j) \<subseteq> df_cover s)"

definition fragments_known :: "proxy_writer \<Rightarrow> seqno \<Rightarrow> bool" where
  "fragments_known pwr seq \<longleftrightarrow> (\<exists>s. idx_lookup df_seq seq (dg_sampletree (pw_defrag pwr)) = Some s \<and>
     (\<forall>f \<le> (if seq = pw_last_seq pwr then pw_last_fragnum pwr else UINT32_MAX).
        frag_bytes (si_fragsize (df_sampleinfo s)) f \<inter> {..<si_size (df_sampleinfo s)} \<subseteq> df_cover s))"

lemma missing_pos:
  "(if c then (DEFRAG_NACKMAP_ALL_ADVERTISED_FRAGMENTS_KNOWN, x) else (DEFRAG_NACKMAP_FRAGMENTS_MISSING, b, min k (e + 1), bs))
     = (DEFRAG_NACKMAP_FRAGMENTS_MISSING, b', n, bs') \<Longrightarrow> 0 < k \<Longrightarrow> 0 < (n :: nat)"
  by (auto split: if_splits)

lemma new_missing:
  "(if f = u then (DEFRAG_NACKMAP_UNKNOWN_SAMPLE, x)
    else (DEFRAG_NACKMAP_FRAGMENTS_MISSING, 0, if f + 1 > m then m else f + 1, bs (if f + 1 > m then m else f + 1)))
     = (DEFRAG_NACKMAP_FRAGMENTS_MISSING, b, n, bits) \<Longrightarrow> f \<noteq> u \<and> b = 0 \<and> n = min m (f + 1) \<and> bits = bs (n :: nat)"
  by (auto simp: min_def split: if_splits)

lemma nack_at_missing:
  assumes p: "plausible pwr" and l: "length fmem = 8"
    and n: "nack_at pwr base fmem i = (DEFRAG_NACKMAP_FRAGMENTS_MISSING, fb, fn, fbits)"
  shows "asks_fragments pwr (base + i) fb fn fbits"
proof -
  let ?f = "if base + i = pw_last_seq pwr then pw_last_fragnum pwr else UINT32_MAX"
  have room: "bits_room NN_FRAGMENT_NUMBER_SET_MAX_BITS fmem" using l by (simp add: bits_room_def NN_FRAGMENT_NUMBER_SET_MAX_BITS_def)
  show ?thesis
  proof (cases "idx_lookup df_seq (base + i) (dg_sampletree (pw_defrag pwr))")
    case None
    have f: "?f \<noteq> UINT32_MAX \<and> fb = 0 \<and> fn = min NN_FRAGMENT_NUMBER_SET_MAX_BITS (?f + 1) \<and> fbits = nn_bitset_one fn fmem"
      using n unfolding nack_at_def nn_defrag_nackmap_def None option.case Let_def by (rule new_missing)
    then have "base + i = pw_last_seq pwr" "0 < fn" "fn \<le> pw_last_fragnum pwr + 1"
      by (auto simp: NN_FRAGMENT_NUMBER_SET_MAX_BITS_def split: if_splits)
    then show ?thesis using None f by (simp add: asks_fragments_def isset_one)
  next
    case (Some s)
    then have "s \<in> set (dg_sampletree (pw_defrag pwr))" by (auto dest: idx_lookup_SomeD)
    then have s: "0 < si_fragsize (df_sampleinfo s)" "0 < si_size (df_sampleinfo s)"
      "si_size (df_sampleinfo s) + si_fragsize (df_sampleinfo s) \<le> 2 ^ 32" "dg_ok (pw_defrag pwr)"
      using p by (auto simp: plausible_def)
    have "0 < fn"
      using n unfolding nack_at_def nn_defrag_nackmap_def Some option.case Let_def
      by (rule missing_pos) (simp add: NN_FRAGMENT_NUMBER_SET_MAX_BITS_def)
    then show ?thesis
      using defrag_nackmap_exact [OF s(4) Some s(1-3) room n [unfolded nack_at_def]] Some by (simp add: asks_fragments_def)
  qed
qed


lemma known_zero:
  "(if c then (DEFRAG_NACKMAP_ALL_ADVERTISED_FRAGMENTS_KNOWN, b, 0, x) else (DEFRAG_NACKMAP_FRAGMENTS_MISSING, y))
     = (DEFRAG_NACKMAP_ALL_ADVERTISED_FRAGMENTS_KNOWN, b', n, bs') \<Longrightarrow> n = (0 :: nat)"
  by (auto split: if_splits)

lemma not_known:
  "(if c then (DEFRAG_NACKMAP_UNKNOWN_SAMPLE, x) else (DEFRAG_NACKMAP_FRAGMENTS_MISSING, y))
     = (DEFRAG_NACKMAP_ALL_ADVERTISED_FRAGMENTS_KNOWN, z) \<Longrightarrow> False"
  by (simp split: if_splits)

lemma nack_at_known:
  assumes p: "plausible pwr" and l: "length fmem = 8"
    and n: "fst (nack_at pwr base fmem i) = DEFRAG_NACKMAP_ALL_ADVERTISED_FRAGMENTS_KNOWN"
  shows "fragments_known pwr (base + i)"
proof -
  obtain fb fn fbits where n': "nack_at pwr base fmem i = (DEFRAG_NACKMAP_ALL_ADVERTISED_FRAGMENTS_KNOWN, fb, fn, fbits)"
    using n by (cases "nack_at pwr base fmem i") auto
  have room: "bits_room NN_FRAGMENT_NUMBER_SET_MAX_BITS fmem" using l by (simp add: bits_room_def NN_FRAGMENT_NUMBER_SET_MAX_BITS_def)
  have "idx_lookup df_seq (base + i) (dg_sampletree (pw_defrag pwr)) \<noteq> None"
  proof
    assume None: "idx_lookup df_seq (base + i) (dg_sampletree (pw_defrag pwr)) = None"
    show False
      using n' unfolding nack_at_def nn_defrag_nackmap_def None option.case Let_def by (rule not_known)
  qed
  then obtain s where s: "idx_lookup df_seq (base + i) (dg_sampletree (pw_defrag pwr)) = Some s" by blast
  then have "s \<in> set (dg_sampletree (pw_defrag pwr))" by (auto dest: idx_lookup_SomeD)
  then have ok: "0 < si_fragsize (df_sampleinfo s)" "0 < si_size (df_sampleinfo s)"
    "si_size (df_sampleinfo s) + si_fragsize (df_sampleinfo s) \<le> 2 ^ 32" "dg_ok (pw_defrag pwr)"
    using p by (auto simp: plausible_def)
  have "fn = 0"
    using n' unfolding nack_at_def nn_defrag_nackmap_def s option.case Let_def by (rule known_zero)
  then have "frag_bytes (si_fragsize (df_sampleinfo s)) f \<inter> {..<si_size (df_sampleinfo s)} \<subseteq> df_cover s"
    if "f \<le> (if base + i = pw_last_seq pwr then pw_last_fragnum pwr else UINT32_MAX)" for f
    using defrag_nackmap_exact [OF ok(4) s ok(1-3) room n' [unfolded nack_at_def]] that
    by (cases "f < fb") auto
  then show ?thesis using s by (auto simp: fragments_known_def)
qed

lemma isset_le: "m \<le> n \<Longrightarrow> nn_bitset_isset m bits j \<longleftrightarrow> j < m \<and> nn_bitset_isset n bits j"
  by (auto simp: isset_bit)

text \<open>The last sequence number the reader knows to exist.\<close>

definition last_known :: "proxy_writer \<Rightarrow> pwr_rd_match \<Rightarrow> seqno" where
  "last_known pwr rwn = (if rm_filtered rwn then rm_last_seq rwn else pw_last_seq pwr)"

text \<open>
  The four outcomes of \<open>add_AckNack_makebitmaps\<close>: nothing in range, nothing of what is missing known
  to the defragmenter, and stopping at a sample of which all fragments or only some are here.
\<close>

definition unknown_below :: "proxy_writer \<Rightarrow> seqno \<Rightarrow> nat \<Rightarrow> u32 list \<Rightarrow> nat \<Rightarrow> bool" where
  "unknown_below pwr base n bits i \<longleftrightarrow>
    (\<forall>j < i. nn_bitset_isset n bits j \<longrightarrow> idx_lookup df_seq (base + j) (dg_sampletree (pw_defrag pwr)) = None)"

lemma nack_cut_outcome:
  assumes p: "plausible pwr" "length fmem = 8" and c: "nack_cut pwr base n bits fmem [0..<n] = Some (i, x)"
  shows "i < n \<and> nn_bitset_isset n bits i \<and> unknown_below pwr base n bits i
      \<and> (case x of None \<Rightarrow> fragments_known pwr (base + i) | Some (fb, fn, fbits) \<Rightarrow> asks_fragments pwr (base + i) fb fn fbits)"
  using nack_cut_Some [OF c] upt_prefix nack_at_unknown nack_at_known [OF p] nack_at_missing [OF p]
  unfolding unknown_below_def by (fastforce split: option.splits)

lemma kept_frag_bits:
  "ai_frag_bits (i\<lparr>ai_bitmap_base := b, ai_numbits := n, ai_bits := bs, ai_frag_seq := 0\<rparr>) = ai_frag_bits i"
  by simp

lemma makebitmaps_cases [consumes 5, case_names empty whole known frags]:
  assumes mk: "add_AckNack_makebitmaps cfg pwr rwn info0 = (nack, info)"
    and gs: "add_AckNack_getsource cfg pwr rwn = (r, base, notail)"
    and nm: "nn_reorder_nackmap r base (last_known pwr rwn) (ai_bits info0) NN_SEQUENCE_NUMBER_SET_MAX_BITS notail = (b, N, bits)"
    and p: "plausible pwr" "length (ai_frag_bits info0) = 8"
  defines "i0 \<equiv> info0\<lparr>ai_bitmap_base := b, ai_numbits := N, ai_bits := bits, ai_frag_seq := 0\<rparr>"
  obtains (empty) "N = 0" "\<not> nack" "info = i0"
  | (whole) "0 < N" "nack" "info = i0" "unknown_below pwr b N bits N"
  | (known) i where "i < N" "nn_bitset_isset N bits i" "unknown_below pwr b N bits i" "nack \<longleftrightarrow> 0 < i"
      "info = i0\<lparr>ai_numbits := i\<rparr>" "fragments_known pwr (b + i)"
  | (frags) i fb fn fbits where "i < N" "nn_bitset_isset N bits i" "unknown_below pwr b N bits i" "nack"
      "info = i0\<lparr>ai_numbits := i, ai_frag_seq := b + i, ai_frag_base := fb, ai_frag_numbits := fn, ai_frag_bits := fbits\<rparr>"
      "asks_fragments pwr (b + i) fb fn fbits"
proof -
  let ?cut = "nack_cut pwr b N bits (ai_frag_bits info0) [0..<N]"
  have last: "(if rm_filtered rwn then rm_last_seq rwn else pw_last_seq pwr) = last_known pwr rwn" by (simp add: last_known_def)
  have res: "(nack, info) = (if N = 0 then (False, i0) else case ?cut of
        None \<Rightarrow> (True, i0) | Some (i, None) \<Rightarrow> (0 < i, i0\<lparr>ai_numbits := i\<rparr>)
      | Some (i, Some (fb, fn, fbits)) \<Rightarrow> (True, i0\<lparr>ai_numbits := i, ai_frag_seq := b + i, ai_frag_base := fb,
                             ai_frag_numbits := fn, ai_frag_bits := fbits\<rparr>))"
    unfolding mk [symmetric] i0_def add_AckNack_makebitmaps_def Let_def gs last prod.case nm kept_frag_bits by (rule refl)
  consider "N = 0" | "0 < N" "?cut = None" | i where "0 < N" "?cut = Some (i, None)"
    | i fb fn fbits where "0 < N" "?cut = Some (i, Some (fb, fn, fbits))"
    by (metis neq0_conv not_None_eq prod_cases3 surj_pair)
  then show ?thesis
  proof cases
    case 1
    then show ?thesis using res empty by simp
  next
    case 2
    then have "unknown_below pwr b N bits N"
      unfolding unknown_below_def using nack_cut_None [OF 2(2)] by (auto intro!: nack_at_unknown)
    then show ?thesis using res 2 whole by simp
  next
    case 3
    then have "nack = (0 < i) \<and> info = i0\<lparr>ai_numbits := i\<rparr>" using res by simp
    then show ?thesis using nack_cut_outcome [OF p 3(2)] by (intro known [of i]) auto
  next
    case 4
    then have "nack \<and> info = i0\<lparr>ai_numbits := i, ai_frag_seq := b + i, ai_frag_base := fb, ai_frag_numbits := fn,
        ai_frag_bits := fbits\<rparr>" using res by simp
    then show ?thesis using nack_cut_outcome [OF p 4(2)] by (intro frags [where i = i and fb = fb and fn = fn and fbits = fbits]) auto
  qed
qed

lemma nackmap_tail:
  assumes "ro_inv r" "base \<le> ro_next_seq r" "base \<le> maxseq + 1" "bits_room maxsz mapbits"
    and "nn_reorder_nackmap r base maxseq mapbits maxsz False = (b, n, bits)"
  shows "b = base" "n \<le> maxseq + 1 - base" "n = min (min maxsz (ro_max_samples r)) (maxseq + 1 - base)"
    "\<forall>j<n. nn_bitset_isset n bits j \<longleftrightarrow> base + j \<notin> ivs_cover (ro_ivs r)"
    "base = ro_next_seq r \<Longrightarrow> \<forall>j<n. nn_bitset_isset n bits j \<longleftrightarrow> nn_reorder_wantsample r (base + j)"
  using reorder_nackmap_exact [OF assms] unfolding if_False by blast+

lemma below_next:
  assumes "ro_inv r" "q < ro_next_seq r"
  shows "q \<notin> ivs_cover (ro_ivs r)" "\<not> nn_reorder_wantsample r q"
proof -
  have "\<forall>iv \<in> set (ro_ivs r). ro_next_seq r < riv_min iv" using assms(1) by (simp add: ro_inv_def)
  then show "q \<notin> ivs_cover (ro_ivs r)" using assms(2) by (force simp: ivs_cover_def riv_set_def)
qed (use assms in \<open>simp add: nn_reorder_wantsample_def\<close>)

text \<open>C36: Outside late-ack mode (or for a reader that is out of sync or filtered) the acknowledgement acknowledges everything below the next sequence number,
  its bits are set for exactly the samples of its range the reader still wants, none of which the
  defragmenter has begun to receive; if it stops at a sample in defragmentation, it asks for exactly
  the missing fragments of that one. When nothing is requested, nothing known to exist is missing, or
  all advertised fragments of the first missing sample are here.\<close>

theorem acknack_asks_for_missing:
  assumes src: "fst (add_AckNack_getsource cfg pwr rwn) = r"
    and mode: "rm_in_sync rwn = PRMSS_OUT_OF_SYNC \<or> rm_filtered rwn \<or> \<not> late_ack_mode cfg"
    and ok: "ro_inv r" "nn_reorder_next_seq r \<le> last_known pwr rwn + 1" "0 < ro_max_samples r" "plausible pwr"
      "room_for_bits info0"
    and mk: "add_AckNack_makebitmaps cfg pwr rwn info0 = (nack, info)"
  shows "ai_bitmap_base info = nn_reorder_next_seq r
     \<and> (\<forall>j < ai_numbits info.
          (nn_bitset_isset (ai_numbits info) (ai_bits info) j \<longleftrightarrow> nn_reorder_wantsample r (ai_bitmap_base info + j))
          \<and> (nn_bitset_isset (ai_numbits info) (ai_bits info) j \<longrightarrow>
               ai_bitmap_base info + j \<le> last_known pwr rwn
               \<and> idx_lookup df_seq (ai_bitmap_base info + j) (dg_sampletree (pw_defrag pwr)) = None))
     \<and> (0 < ai_frag_seq info \<longrightarrow> ai_frag_seq info = ai_bitmap_base info + ai_numbits info
          \<and> nn_reorder_wantsample r (ai_frag_seq info) \<and> ai_frag_seq info \<le> last_known pwr rwn
          \<and> asks_fragments pwr (ai_frag_seq info) (ai_frag_base info) (ai_frag_numbits info) (ai_frag_bits info))
     \<and> (nack \<longrightarrow> 0 < ai_numbits info \<or> 0 < ai_frag_seq info)
     \<and> (\<not> nack \<longrightarrow> ai_numbits info = 0 \<and> ai_frag_seq info = 0
          \<and> (last_known pwr rwn < ai_bitmap_base info \<or> fragments_known pwr (ai_bitmap_base info)))"
proof -
  let ?base = "nn_reorder_next_seq r" and ?last = "last_known pwr rwn"
  have gs: "add_AckNack_getsource cfg pwr rwn = (r, ?base, False)"
    using src mode by (auto simp: add_AckNack_getsource_def split: if_splits)
  obtain b N bits where nm: "nn_reorder_nackmap r ?base ?last (ai_bits info0) NN_SEQUENCE_NUMBER_SET_MAX_BITS False = (b, N, bits)"
    by (rule prod_cases3)
  have room: "bits_room NN_SEQUENCE_NUMBER_SET_MAX_BITS (ai_bits info0)" and fl: "length (ai_frag_bits info0) = 8"
    using ok(5) by (auto simp: room_for_bits_def bits_room_def NN_SEQUENCE_NUMBER_SET_MAX_BITS_def)
  have ex: "b = ?base" "N \<le> ?last + 1 - ?base" "\<forall>j<N. nn_bitset_isset N bits j \<longleftrightarrow> nn_reorder_wantsample r (?base + j)"
    "N = min (min NN_SEQUENCE_NUMBER_SET_MAX_BITS (ro_max_samples r)) (?last + 1 - ?base)"
    using nackmap_tail [OF ok(1) _ ok(2) room nm] by (simp_all add: nn_reorder_next_seq_def)
  have pos: "0 < ?base" using ok(1) by (auto simp: ro_inv_def nn_reorder_next_seq_def)
  have wanted: "nn_bitset_isset m bits j \<longleftrightarrow> nn_reorder_wantsample r (?base + j)" if "j < m" "m \<le> N" for m j
    using that ex(3) isset_le [OF that(2), of bits j] by simp
  have within: "?base + j \<le> ?last" if "j < N" for j using that ex(2) pos by linarith
  from mk gs nm ok(4) fl show ?thesis
  proof (cases rule: makebitmaps_cases)
    case empty
    then have "?last < ?base" using ex(4) ok(3) by (simp add: NN_SEQUENCE_NUMBER_SET_MAX_BITS_def)
    then show ?thesis using empty ex(1) by simp
  next
    case whole
    then show ?thesis using wanted [OF _ order_refl] within ex(1) by (simp add: unknown_below_def)
  next
    case (known i)
    then show ?thesis using wanted [of _ i] within ex(1) isset_le [of i N bits] by (auto simp: unknown_below_def less_imp_le)
  next
    case (frags i fb fn fbits)
    then show ?thesis using wanted [of _ i] wanted [of i N] within ex(1) isset_le [of i N bits] pos
      by (auto simp: unknown_below_def less_imp_le)
  qed
qed

text \<open>A proxy writer that knows of samples up to 6, and has received 3 and 4 (as a gap) or nothing.\<close>

definition gap_reorder :: nn_reorder where
  "gap_reorder = fst (snd (snd (nn_reorder_gap (nn_reorder_new NN_REORDER_MODE_NORMAL 64 False)
     (nn_rdata_new 0 0 0 0 0 0) 3 5 0 (\<lambda>_. 0))))"

definition example_pwr :: "nn_reorder \<Rightarrow> seqno \<Rightarrow> proxy_writer" where
  "example_pwr r hi = \<lparr>pw_reorder = r, pw_defrag = nn_defrag_new NN_DEFRAG_DROP_LATEST 8,
     pw_dqueue = \<lparr>dq_sc = [], dq_nof_samples = 2, dq_max_samples = 32\<rparr>, pw_last_seq = hi,
     pw_last_fragnum = UINT32_MAX, pw_next_deliv_seq_lowword = 3, pw_nackfragcount = 0, pw_have_seen_heartbeat = True\<rparr>"

definition example_rwn :: pwr_rd_match where
  "example_rwn = \<lparr>rm_count = 0, rm_prev_heartbeat = 0, rm_hb_timestamp = 0, rm_tcreate = 0, rm_t_heartbeat_accepted = 0,
     rm_t_last_nack = 0, rm_t_last_ack = 0, rm_last_seq = 0,
     rm_last_nack = \<lparr>seq_end_p1 = 0, seq_base = 0, frag_end_p1 = 0, frag_base = 0\<rparr>, rm_in_sync = PRMSS_SYNC,
     rm_ack_requested = True, rm_heartbeat_since_ack = True, rm_heartbeatfrag_since_ack = False,
     rm_directed_heartbeat = False, rm_nack_sent_on_nackdelay = False, rm_filtered = False,
     rm_reorder = nn_reorder_new NN_REORDER_MODE_NORMAL 64 False\<rparr>"

definition example_info :: add_AckNack_info where
  "example_info = \<lparr>ai_nack_sent_on_nackdelay = False, ai_bitmap_base = 0, ai_numbits = 0, ai_bits = replicate 8 0,
     ai_frag_seq = 0, ai_frag_base = 0, ai_frag_numbits = 0, ai_frag_bits = replicate 8 0\<rparr>"

definition example_cfg :: "bool \<Rightarrow> ack_config" where
  "example_cfg late = \<lparr>late_ack_mode = late, ack_delay = 10, nack_delay = 100, auto_resched_nack_delay = 3000,
     meas_hb_to_ack_latency = False\<rparr>"

lemma gap_reorder_ok:
  "ro_inv gap_reorder" "ro_ivs gap_reorder = [gap_interval (nn_rdata_new 0 0 0 0 0 0) 3 5]" "ro_next_seq gap_reorder = 1"
  "ro_max_samples gap_reorder = 64"
proof -
  have ivs: "ro_ivs gap_reorder = [gap_interval (nn_rdata_new 0 0 0 0 0 0) 3 5]" "ro_next_seq gap_reorder = 1"
    "ro_n_samples gap_reorder = 1" "ro_max gap_reorder = Some 3" "ro_max_samples gap_reorder = 64"
    "ro_mode gap_reorder = NN_REORDER_MODE_NORMAL"
    by (simp_all add: gap_reorder_def nn_reorder_gap_def nn_reorder_new_def coalesce_intervals_touching_range_def
        first_touching_def idx_defs max_sampleiv_def reorder_insert_gap_def gap_interval_def)
  show "ro_inv gap_reorder" by (simp add: ro_inv_def ivs iv_ok_def) (simp add: gap_interval_def)
qed (simp_all add: gap_reorder_def nn_reorder_gap_def nn_reorder_new_def coalesce_intervals_touching_range_def
        first_touching_def idx_defs max_sampleiv_def reorder_insert_gap_def gap_interval_def)

lemma example_plausible: "plausible (example_pwr r hi)"
  by (simp add: plausible_def example_pwr_def nn_defrag_new_def dg_ok_def dg_core_def)

lemma example_room: "room_for_bits example_info"
  by (simp add: room_for_bits_def example_info_def)

lemma acknack_asks_for_missing_witness:
  "\<exists>nack info. add_AckNack_makebitmaps (example_cfg False) (example_pwr gap_reorder 6) example_rwn example_info = (nack, info)
     \<and> ai_bitmap_base info = 1
     \<and> (\<forall>j < ai_numbits info. nn_bitset_isset (ai_numbits info) (ai_bits info) j
          \<longleftrightarrow> nn_reorder_wantsample gap_reorder (1 + j))"
proof -
  let ?p = "example_pwr gap_reorder 6" and ?c = "example_cfg False"
  obtain nack info where mk: "add_AckNack_makebitmaps ?c ?p example_rwn example_info = (nack, info)" by fastforce
  have src: "fst (add_AckNack_getsource ?c ?p example_rwn) = gap_reorder"
    by (simp add: add_AckNack_getsource_def example_cfg_def example_rwn_def example_pwr_def)
  have m: "rm_in_sync example_rwn = PRMSS_OUT_OF_SYNC \<or> rm_filtered example_rwn \<or> \<not> late_ack_mode ?c"
    by (simp add: example_cfg_def)
  have n: "nn_reorder_next_seq gap_reorder \<le> last_known ?p example_rwn + 1" "0 < ro_max_samples gap_reorder"
    by (simp_all add: nn_reorder_next_seq_def gap_reorder_ok last_known_def example_rwn_def example_pwr_def)
  from acknack_asks_for_missing [OF src m gap_reorder_ok(1) n example_plausible example_room mk] mk show ?thesis
    by (auto simp: nn_reorder_next_seq_def gap_reorder_ok)
qed

text \<open>C40: In late-ack mode, where the samples up to \<open>next_seq\<close> that wait in the delivery queue are not to be
  acknowledged yet, a reader in sync and not filtered requests them again, if the queue is not full and no part of them
  waits in the defragmenter: each within \<open>max_samples\<close> and 256 numbers of the next to be delivered, though it would
  be dropped on arrival, has its bit set (or is the one that fragments are requested of), and the request
  counts as one for missing data.\<close>

theorem late_ack_nacks_undelivered:
  fixes pwr :: proxy_writer
  defines "next \<equiv> nn_reorder_next_seq (pw_reorder pwr)"
  assumes mode: "late_ack_mode cfg" "rm_in_sync rwn \<noteq> PRMSS_OUT_OF_SYNC" "\<not> rm_filtered rwn"
    and ok: "ro_inv (pw_reorder pwr)" "next \<le> pw_last_seq pwr + 1" "0 < ro_max_samples (pw_reorder pwr)" "plausible pwr"
      "room_for_bits info0"
    and nd: "pw_next_deliv_seq_lowword pwr = of_nat nd" "nd < next" "next - nd < 2 ^ 32" "next < 2 ^ 63"
    and queued: "\<not> nn_dqueue_is_full (pw_dqueue pwr)"
      "\<forall>q. nd \<le> q \<and> q < next \<longrightarrow> idx_lookup df_seq q (dg_sampletree (pw_defrag pwr)) = None"
    and mk: "add_AckNack_makebitmaps cfg pwr rwn info0 = (nack, info)"
  shows "nack \<and> ai_bitmap_base info = nd
     \<and> (\<forall>q. nd \<le> q \<and> q < next \<and> q < nd + min NN_SEQUENCE_NUMBER_SET_MAX_BITS (ro_max_samples (pw_reorder pwr)) \<longrightarrow>
          \<not> nn_reorder_wantsample (pw_reorder pwr) q
          \<and> (nn_bitset_isset (ai_numbits info) (ai_bits info) (q - nd) \<or> q = ai_frag_seq info))"
proof -
  let ?r = "pw_reorder pwr" and ?last = "last_known pwr rwn"
  have "unat (of_nat nd :: u64) = nd" using nd by (simp add: unat_of_nat take_bit_nat_eq_self)
  then have gs: "add_AckNack_getsource cfg pwr rwn = (?r, nd, False)"
    using mode queued(1) next_deliv_seq_exact [of nd "nn_reorder_next_seq ?r"] nd
    by (simp add: add_AckNack_getsource_def next_def)
  obtain b N bits where nm: "nn_reorder_nackmap ?r nd ?last (ai_bits info0) NN_SEQUENCE_NUMBER_SET_MAX_BITS False = (b, N, bits)"
    by (rule prod_cases3)
  have room: "bits_room NN_SEQUENCE_NUMBER_SET_MAX_BITS (ai_bits info0)" and fl: "length (ai_frag_bits info0) = 8"
    using ok(5) by (auto simp: room_for_bits_def bits_room_def NN_SEQUENCE_NUMBER_SET_MAX_BITS_def)
  have last: "?last = pw_last_seq pwr" using mode by (simp add: last_known_def)
  have le: "nd \<le> ro_next_seq ?r" "nd \<le> ?last + 1" using nd ok(2) last by (auto simp: next_def nn_reorder_next_seq_def)
  have ex: "b = nd" "\<forall>j<N. nn_bitset_isset N bits j \<longleftrightarrow> nd + j \<notin> ivs_cover (ro_ivs ?r)"
    "N = min (min NN_SEQUENCE_NUMBER_SET_MAX_BITS (ro_max_samples ?r)) (?last + 1 - nd)"
    using nackmap_tail [OF ok(1) le room nm] by simp_all
  have pos: "0 < N" using ex(3) ok(2,3) nd last by (simp add: NN_SEQUENCE_NUMBER_SET_MAX_BITS_def)
  have low: "q \<notin> ivs_cover (ro_ivs ?r) \<and> \<not> nn_reorder_wantsample ?r q" if "q < next" for q
    using below_next [OF ok(1)] that by (simp add: next_def nn_reorder_next_seq_def)
  have here: "nn_bitset_isset m bits (q - nd)" if "nd \<le> q" "q < next" "q - nd < m" "m \<le> N" for q m
    using that ex(2) low [of q] isset_le [OF that(4), of bits "q - nd"] by simp
  have range: "q - nd < N" if "nd \<le> q" "q < next" "q < nd + min NN_SEQUENCE_NUMBER_SET_MAX_BITS (ro_max_samples ?r)" for q
    using that ex(3) ok(2) last by auto
  have unknown: "idx_lookup df_seq q (dg_sampletree (pw_defrag pwr)) = None" if "nd \<le> q" "q < next" for q
    using that queued(2) by blast
  have queue_known: "next \<le> nd + i" if "fragments_known pwr (nd + i)" for i
  proof (rule ccontr)
    assume "\<not> next \<le> nd + i"
    then show False using unknown [of "nd + i"] that by (simp add: fragments_known_def)
  qed
  have queue_last: "next \<le> nd + i + 1" if "asks_fragments pwr (nd + i) fb fn fbits" for i fb fn fbits
  proof (rule ccontr)
    assume "\<not> next \<le> nd + i + 1"
    then show False using unknown [of "nd + i"] that ok(2) by (simp add: asks_fragments_def)
  qed
  from mk gs nm ok(4) fl show ?thesis
  proof (cases rule: makebitmaps_cases)
    case empty
    then show ?thesis using pos by simp
  next
    case whole
    then show ?thesis using ex(1) here [OF _ _ _ order_refl] range low by simp
  next
    case (known i)
    have i: "next \<le> nd + i" using queue_known known(6) ex(1) by simp
    then have "nn_bitset_isset i bits (q - nd)" if "nd \<le> q" "q < next" for q using that known(1) by (intro here) auto
    then show ?thesis using known ex(1) i nd(2) low by simp
  next
    case (frags i fb fn fbits)
    have i: "next \<le> nd + i + 1" using queue_last frags(6) ex(1) by simp
    then have "nn_bitset_isset i bits (q - nd)" if "nd \<le> q" "q < next" "q \<noteq> nd + i" for q
      using that frags(1) by (intro here) auto
    then show ?thesis using frags ex(1) low by auto
  qed
qed

lemma late_ack_nacks_undelivered_witness:
  "\<exists>nack info. add_AckNack_makebitmaps (example_cfg True)
       (example_pwr ((nn_reorder_new NN_REORDER_MODE_NORMAL 64 True)\<lparr>ro_next_seq := 5\<rparr>) 4) example_rwn example_info = (nack, info)
     \<and> nack \<and> ai_bitmap_base info = 3 \<and> (nn_bitset_isset (ai_numbits info) (ai_bits info) 1 \<or> ai_frag_seq info = 4)"
proof -
  let ?r = "(nn_reorder_new NN_REORDER_MODE_NORMAL 64 True)\<lparr>ro_next_seq := 5\<rparr>"
  let ?p = "example_pwr ?r 4" and ?c = "example_cfg True"
  obtain nack info where mk: "add_AckNack_makebitmaps ?c ?p example_rwn example_info = (nack, info)" by fastforce
  have h: "late_ack_mode ?c" "rm_in_sync example_rwn \<noteq> PRMSS_OUT_OF_SYNC" "\<not> rm_filtered example_rwn"
    "ro_inv (pw_reorder ?p)" "nn_reorder_next_seq (pw_reorder ?p) \<le> pw_last_seq ?p + 1" "0 < ro_max_samples (pw_reorder ?p)"
    "pw_next_deliv_seq_lowword ?p = of_nat 3" "3 < nn_reorder_next_seq (pw_reorder ?p)"
    "nn_reorder_next_seq (pw_reorder ?p) - 3 < 2 ^ 32" "nn_reorder_next_seq (pw_reorder ?p) < 2 ^ 63"
    "\<not> nn_dqueue_is_full (pw_dqueue ?p)"
    "\<forall>q. 3 \<le> q \<and> q < nn_reorder_next_seq (pw_reorder ?p) \<longrightarrow> idx_lookup df_seq q (dg_sampletree (pw_defrag ?p)) = None"
    by (simp_all add: example_cfg_def example_rwn_def example_pwr_def nn_reorder_new_def nn_reorder_next_seq_def
        ro_inv_def ivs_ok_def nn_dqueue_is_full_def nn_defrag_new_def idx_defs)
  note r = late_ack_nacks_undelivered [OF h(1-6) example_plausible example_room h(7-12) mk]
  have "3 \<le> (4 :: nat) \<and> 4 < nn_reorder_next_seq (pw_reorder ?p)
      \<and> 4 < 3 + min NN_SEQUENCE_NUMBER_SET_MAX_BITS (ro_max_samples (pw_reorder ?p))"
    by (simp add: example_pwr_def nn_reorder_new_def nn_reorder_next_seq_def NN_SEQUENCE_NUMBER_SET_MAX_BITS_def)
  from mp [OF spec [OF conjunct2 [OF conjunct2 [OF r]], of 4] this]
  have "nn_bitset_isset (ai_numbits info) (ai_bits info) (4 - 3) \<or> 4 = ai_frag_seq info" by (rule conjunct2)
  then have "nn_bitset_isset (ai_numbits info) (ai_bits info) 1 \<or> ai_frag_seq info = 4" by auto
  then show ?thesis using mk conjunct1 [OF r] conjunct1 [OF conjunct2 [OF r]] by blast
qed

end
