(* ===== verification/Acknack_Rate.thy ===== *)
theory Acknack_Rate
  imports Acknack_Props
begin

text \<open>
  When requests are sent: the events a pair of proxy writer and reader sees, in any order, with the log
  of the requests that go out; how they are spaced, and that they are repeated while data is missing.
\<close>

section \<open>Runs\<close>

datatype ack_event =
  Timer add_AckNack_info int xmsg_fate
| Heartbeat add_AckNack_info u32 bool bool int int
| HeartbeatFrag add_AckNack_info seqno nat bool int
| Reception proxy_writer pwr_rd_match_syncstate nn_reorder seqno bool

record ack_state =
  as_pwr :: proxy_writer
  as_rwn :: pwr_rd_match
  as_ev :: int

record request =
  rq_time :: int
  rq_what :: last_nack_summary
  rq_directed :: bool
  rq_heartbeat :: bool

fun requests :: "ack_submsg \<Rightarrow> bool" where
  "requests (AckNack _ _ n _ _) \<longleftrightarrow> 0 < n"
| "requests (NackFrag _ _ _ _ _) \<longleftrightarrow> True"

definition requesting :: "ack_xmsg option \<Rightarrow> bool" where
  "requesting msg \<longleftrightarrow> (\<exists>m. msg = Some m \<and> (\<exists>sm \<in> set (am_submsgs m). requests sm))"

text \<open>
  One event. Data that is received changes the proxy writer and which reorder administration the reader
  looks at in any way, but not what the reader keeps about its acknowledgements.
\<close>

fun ack_step :: "ack_config \<Rightarrow> ack_state \<Rightarrow> ack_event \<Rightarrow> ack_state \<times> request list" where
  "ack_step cfg s (Timer info0 tnow fate) =
    (case handle_xevk_acknack cfg DDS_NEVER (as_pwr s) (as_rwn s) info0 tnow fate of
       (msg, pwr, rwn, ev) \<Rightarrow>
         (\<lparr>as_pwr = pwr, as_rwn = rwn, as_ev = ev\<rparr>,
          if requesting msg
          then [\<lparr>rq_time = tnow, rq_what = rm_last_nack rwn, rq_directed = rm_directed_heartbeat (as_rwn s),
                 rq_heartbeat = rm_heartbeat_since_ack (as_rwn s) \<or> rm_heartbeatfrag_since_ack (as_rwn s)\<rparr>]
          else []))"
| "ack_step cfg s (Heartbeat info0 hb_count final directed tnow tnow_mt) =
    (case handle_Heartbeat_helper cfg (as_pwr s) info0 hb_count final directed tnow tnow_mt (as_rwn s) (as_ev s) of
       (rwn, ev) \<Rightarrow> (s\<lparr>as_rwn := rwn, as_ev := ev\<rparr>, []))"
| "ack_step cfg s (HeartbeatFrag info0 seq fragnum directed now) =
    (let pwr = heartbeatfrag_advertise (as_pwr s) seq fragnum
     in case heartbeatfrag_respond cfg pwr info0 seq fragnum directed now (as_rwn s) (as_ev s) of
          (rwn, ev) \<Rightarrow> (\<lparr>as_pwr = pwr, as_rwn = rwn, as_ev = ev\<rparr>, []))"
| "ack_step cfg s (Reception pwr sync reorder seq filtered) =
    (s\<lparr>as_pwr := pwr, as_rwn := (as_rwn s)\<lparr>rm_in_sync := sync, rm_reorder := reorder, rm_last_seq := seq,
         rm_filtered := filtered\<rparr>\<rparr>, [])"

fun ack_run :: "ack_config \<Rightarrow> ack_state \<Rightarrow> ack_event list \<Rightarrow> ack_state \<times> request list" where
  "ack_run cfg s [] = (s, [])"
| "ack_run cfg s (e # es) =
    (case ack_step cfg s e of (s', l) \<Rightarrow> case ack_run cfg s' es of (s'', l') \<Rightarrow> (s'', l @ l'))"

section \<open>One step\<close>

text \<open>Sequence numbers start at 1.\<close>

definition numbers_ok :: "ack_config \<Rightarrow> proxy_writer \<Rightarrow> nn_reorder \<Rightarrow> bool" where
  "numbers_ok cfg pwr ro \<longleftrightarrow> 0 < nn_reorder_next_seq (pw_reorder pwr) \<and> 0 < nn_reorder_next_seq ro \<and>
     (late_ack_mode cfg \<longrightarrow>
        0 < next_deliv_seq (pw_next_deliv_seq_lowword pwr) (of_nat (nn_reorder_next_seq (pw_reorder pwr))))"

lemma fst_same: "fst (case p of (i, bs) \<Rightarrow> if c i then (b, x i, y bs) else (b, z i bs)) = b"
  by (simp split: prod.split)

lemma nackmap_base: "fst (nn_reorder_nackmap r base maxseq bits maxsz notail) = min base (ro_next_seq r)"
  unfolding nn_reorder_nackmap_def Let_def fst_same by simp

lemma getsource_pos:
  "numbers_ok cfg pwr (rm_reorder rwn) \<Longrightarrow> add_AckNack_getsource cfg pwr rwn = (r, base, notail) \<Longrightarrow>
   0 < base \<and> 0 < ro_next_seq r"
  by (auto simp: numbers_ok_def add_AckNack_getsource_def nn_reorder_next_seq_def word_greater_zero_iff unat_gt_0 split: if_splits)

lemma makebitmaps_requests:
  assumes "numbers_ok cfg pwr (rm_reorder rwn)"
    and mk: "add_AckNack_makebitmaps cfg pwr rwn info0 = (nack, info)"
  shows "nack \<longleftrightarrow> 0 < ai_numbits info \<or> 0 < ai_frag_seq info"
proof -
  obtain r base notail where gs: "add_AckNack_getsource cfg pwr rwn = (r, base, notail)" by (rule prod_cases3)
  let ?last = "if rm_filtered rwn then rm_last_seq rwn else pw_last_seq pwr"
  obtain b N bits where nm: "nn_reorder_nackmap r base ?last (ai_bits info0) NN_SEQUENCE_NUMBER_SET_MAX_BITS notail = (b, N, bits)"
    by (rule prod_cases3)
  have "0 < b"
    using nackmap_base [of r base ?last "ai_bits info0" NN_SEQUENCE_NUMBER_SET_MAX_BITS notail] nm
      getsource_pos [OF assms(1) gs] by simp
  then show ?thesis
    using mk unfolding add_AckNack_makebitmaps_def Let_def gs prod.case nm
    by (auto split: if_splits option.splits prod.splits)
qed

text \<open>What decides about a request, in terms of what is missing.\<close>

lemma get_AckNack_info_cases [consumes 2, case_names ack nack]:
  assumes g: "get_AckNack_info cfg pwr rwn info0 ad nd = (aanr, s, info)"
    and ok: "numbers_ok cfg pwr (rm_reorder rwn)"
  obtains "aanr \<in> {AANR_SUPPRESSED_ACK, AANR_ACK, AANR_SUPPRESSED_NACK}"
      "aanr = AANR_SUPPRESSED_ACK \<or> ai_frag_seq info = 0 \<and> ai_numbits info = 0"
  | "aanr \<in> {AANR_NACK, AANR_NACKFRAG_ONLY}" "fst (add_AckNack_makebitmaps cfg pwr rwn info0)"
      "0 < ai_numbits info \<and> aanr = AANR_NACK \<or> 0 < ai_frag_seq info"
      "beyond_last_nack s (rm_last_nack rwn) \<or> rm_directed_heartbeat rwn \<or> nd"
proof -
  obtain nack i where mk: "add_AckNack_makebitmaps cfg pwr rwn info0 = (nack, i)" by fastforce
  note pos = makebitmaps_requests [OF ok mk]
  show ?thesis
    using g pos that unfolding get_AckNack_info_def mk Let_def prod.case
    by (auto split: if_splits)
qed

text \<open>
  What one acknowledgement does to the state of the pair: \<open>recorded\<close> if a request goes out, else the
  record of the last one stays.
\<close>

definition same_source :: "proxy_writer \<Rightarrow> pwr_rd_match \<Rightarrow> proxy_writer \<Rightarrow> pwr_rd_match \<Rightarrow> bool" where
  "same_source pwr rwn pwr' rwn' \<longleftrightarrow> pwr'\<lparr>pw_nackfragcount := 0\<rparr> = pwr\<lparr>pw_nackfragcount := 0\<rparr>
     \<and> rm_reorder rwn' = rm_reorder rwn \<and> rm_in_sync rwn' = rm_in_sync rwn \<and> rm_filtered rwn' = rm_filtered rwn
     \<and> rm_last_seq rwn' = rm_last_seq rwn"

definition heard :: "pwr_rd_match \<Rightarrow> bool" where
  "heard rwn \<longleftrightarrow> rm_heartbeat_since_ack rwn \<or> rm_heartbeatfrag_since_ack rwn"

definition recorded :: "ack_config \<Rightarrow> int \<Rightarrow> pwr_rd_match \<Rightarrow> pwr_rd_match \<Rightarrow> bool" where
  "recorded cfg tnow rwn rwn' \<longleftrightarrow> rm_t_last_nack rwn' = tnow \<and> \<not> rm_directed_heartbeat rwn' \<and> \<not> heard rwn'
     \<and> (beyond_last_nack (rm_last_nack rwn') (rm_last_nack rwn) \<or> rm_directed_heartbeat rwn \<or> nackdelay_passed cfg rwn tnow)
     \<and> (heard rwn \<or> ddsrt_mtime_add_duration (rm_t_last_nack rwn) (auto_resched_nack_delay cfg) \<le> tnow)"

definition unrecorded :: "pwr_rd_match \<Rightarrow> pwr_rd_match \<Rightarrow> bool" where
  "unrecorded rwn rwn' \<longleftrightarrow> rm_t_last_nack rwn' = rm_t_last_nack rwn
     \<and> seq_end_p1 (rm_last_nack rwn') = seq_end_p1 (rm_last_nack rwn)
     \<and> frag_end_p1 (rm_last_nack rwn') = frag_end_p1 (rm_last_nack rwn)
     \<and> (rm_directed_heartbeat rwn' \<longrightarrow> rm_directed_heartbeat rwn) \<and> (heard rwn' \<longrightarrow> heard rwn)"

lemma ack_compose_spec:
  assumes "ack_compose cfg aanr pwr rwn info = (msg, rwn')"
  shows "same_source pwr rwn pwr rwn'" "heard rwn' = heard rwn" "rm_directed_heartbeat rwn' = rm_directed_heartbeat rwn"
    "rm_t_last_nack rwn' = rm_t_last_nack rwn" "rm_last_nack rwn' = rm_last_nack rwn"
    "requesting (Some msg) \<longleftrightarrow> aanr \<noteq> AANR_NACKFRAG_ONLY \<and> 0 < ai_numbits info \<or> 0 < ai_frag_seq info"
  using assms by (auto simp: ack_compose_def same_source_def heard_def requesting_def add_AckNack_def add_NackFrag_def Let_def
      split: if_splits)

lemma ack_commit_simps [simp]:
  "rm_reorder (ack_commit rwn info) = rm_reorder rwn" "rm_in_sync (ack_commit rwn info) = rm_in_sync rwn"
  "rm_filtered (ack_commit rwn info) = rm_filtered rwn" "rm_last_seq (ack_commit rwn info) = rm_last_seq rwn"
  "rm_t_last_nack (ack_commit rwn info) = rm_t_last_nack rwn" "rm_last_nack (ack_commit rwn info) = rm_last_nack rwn"
  "\<not> rm_directed_heartbeat (ack_commit rwn info)" "\<not> heard (ack_commit rwn info)"
  by (simp_all add: ack_commit_def heard_def)

lemma ack_sent_quiet:
  assumes "ack_sent cfg aanr s tnow pwr rwn ev = (pwr', rwn', ev')" "aanr \<in> {AANR_ACK, AANR_SUPPRESSED_NACK}"
  shows "same_source pwr rwn pwr' rwn'" "heard rwn' = heard rwn" "rm_directed_heartbeat rwn' = rm_directed_heartbeat rwn"
    "rm_t_last_nack rwn' = rm_t_last_nack rwn" "seq_end_p1 (rm_last_nack rwn') = seq_end_p1 (rm_last_nack rwn)"
    "frag_end_p1 (rm_last_nack rwn') = frag_end_p1 (rm_last_nack rwn)"
  using assms by (auto simp: ack_sent_def same_source_def heard_def)

lemma ack_sent_nack:
  assumes "ack_sent cfg aanr s tnow pwr rwn ev = (pwr', rwn', ev')" "aanr \<in> {AANR_NACK, AANR_NACKFRAG_ONLY}"
  shows "same_source pwr rwn pwr' rwn'" "heard rwn' = heard rwn" "rm_directed_heartbeat rwn' = rm_directed_heartbeat rwn"
    "rm_t_last_nack rwn' = tnow" "rm_last_nack rwn' = s"
    "ev' = resched_xevent_if_earlier ev (ddsrt_mtime_add_duration tnow (auto_resched_nack_delay cfg))"
  using assms by (auto simp: ack_sent_def same_source_def heard_def Let_def)

lemma same_source_trans:
  "same_source p r p' r' \<Longrightarrow> same_source p' r' p'' r'' \<Longrightarrow> same_source p r p'' r''"
  by (simp add: same_source_def)

lemma same_source_count:
  "same_source p r p' (r'\<lparr>rm_count := n\<rparr>) = same_source p r p' r'"
  "same_source p (r\<lparr>rm_count := n\<rparr>) p' r' = same_source p r p' r'"
  "same_source p (ack_commit r info) p' r' = same_source p r p' r'"
  "heard (r\<lparr>rm_count := n\<rparr>) = heard r"
  by (simp_all add: same_source_def heard_def)

text \<open>Either nothing is done, or the reader commits to what \<open>get_AckNack_info\<close> decided.\<close>

lemma make_and_resched_cases [consumes 2, case_names suppressed unallocated dropped made]:
  assumes mr: "make_and_resched_acknack cfg ev pwr rwn info0 tnow avoid fate = (msg, pwr', rwn', ev')"
    and g: "get_AckNack_info cfg pwr rwn info0 (ackdelay_passed cfg rwn tnow) (nackdelay_passed cfg rwn tnow) = (aanr, s, info)"
  obtains "msg = None" "pwr' = pwr" "rwn' = rwn"
  | "msg = None" "pwr' = pwr" "rwn' = ack_commit rwn info"
  | m where "msg = None" "pwr' = pwr" "ack_compose cfg aanr pwr (ack_commit rwn info) info = (m, rwn')"
  | m r where "msg = Some m" "ack_compose cfg aanr pwr (ack_commit rwn info) info = (m, r)" "aanr \<noteq> AANR_SUPPRESSED_ACK"
      "ack_sent cfg aanr s tnow pwr (r\<lparr>rm_count := rm_count r + 1\<rparr>) ev = (pwr', rwn', ev')"
      "heard rwn \<or> ddsrt_mtime_add_duration (rm_t_last_nack rwn) (auto_resched_nack_delay cfg) \<le> tnow"
proof -
  obtain m r where c: "ack_compose cfg aanr pwr (ack_commit rwn info) info = (m, r)" by fastforce
  obtain p2 r2 e2 where a: "ack_sent cfg aanr s tnow pwr (r\<lparr>rm_count := rm_count r + 1\<rparr>) ev = (p2, r2, e2)"
    by (rule prod_cases3)
  show ?thesis
    using mr [unfolded make_and_resched_acknack_def g Let_def prod.case c a, folded heard_def] c a that
    by (simp only: not_less split: if_splits) auto
qed

lemma make_and_resched_step:
  assumes mr: "make_and_resched_acknack cfg ev pwr rwn info0 tnow avoid fate = (msg, pwr', rwn', ev')"
    and ok: "numbers_ok cfg pwr (rm_reorder rwn)"
  shows "same_source pwr rwn pwr' rwn' \<and> (if requesting msg then recorded cfg tnow rwn rwn' else unrecorded rwn rwn')"
proof -
  obtain aanr s info where g:
    "get_AckNack_info cfg pwr rwn info0 (ackdelay_passed cfg rwn tnow) (nackdelay_passed cfg rwn tnow) = (aanr, s, info)"
    by (rule prod_cases3)
  from mr g show ?thesis
  proof (cases rule: make_and_resched_cases)
    case suppressed
    then show ?thesis by (simp add: requesting_def same_source_def unrecorded_def)
  next
    case unallocated
    then show ?thesis by (simp add: requesting_def same_source_def unrecorded_def heard_def ack_commit_def)
  next
    case (dropped m)
    then show ?thesis using ack_compose_spec [OF dropped(3)] by (auto simp: requesting_def same_source_def unrecorded_def)
  next
    case (made m r)
    note c = ack_compose_spec [OF made(2)]
    from g ok show ?thesis
    proof (cases rule: get_AckNack_info_cases)
      case ack
      then have "\<not> requesting msg" using made c(6) by auto
      moreover have "same_source pwr rwn pwr' rwn' \<and> unrecorded rwn rwn'"
        using ack_sent_quiet [OF made(4)] ack(1) made(3) c(1-5)
        by (auto simp: same_source_count unrecorded_def intro: same_source_trans)
      ultimately show ?thesis by simp
    next
      case nack
      then have "requesting msg" using made c(6) by auto
      moreover have "same_source pwr rwn pwr' rwn' \<and> recorded cfg tnow rwn rwn'"
        using ack_sent_nack [OF made(4) nack(1)] nack(4) made(5) c(1-5)
        by (auto simp: same_source_count recorded_def intro: same_source_trans)
      ultimately show ?thesis by simp
    qed
  qed
qed

section \<open>Runs of events\<close>

lemma timer_step:
  assumes h: "handle_xevk_acknack cfg ev pwr rwn info0 tnow fate = (msg, pwr', rwn', ev')"
    and ok: "numbers_ok cfg pwr (rm_reorder rwn)"
  shows "same_source pwr rwn pwr' rwn' \<and> (if requesting msg then recorded cfg tnow rwn rwn' else unrecorded rwn rwn')"
proof (cases "pw_have_seen_heartbeat pwr")
  case True
  then show ?thesis using h make_and_resched_step [OF _ ok] by (simp add: handle_xevk_acknack_def)
next
  case False
  then show ?thesis
    using h by (auto simp: handle_xevk_acknack_def make_preemptive_acknack_def Let_def requesting_def same_source_def
        unrecorded_def heard_def split: if_splits)
qed

text \<open>Two requests in succession.\<close>

definition spaced :: "ack_config \<Rightarrow> request \<Rightarrow> request \<Rightarrow> bool" where
  "spaced cfg a b \<longleftrightarrow>
    (beyond_last_nack (rq_what b) (rq_what a) \<or> rq_directed b
       \<or> ddsrt_mtime_add_duration (rq_time a) (nack_delay cfg) \<le> rq_time b)
    \<and> (rq_heartbeat b \<or> ddsrt_mtime_add_duration (rq_time a) (auto_resched_nack_delay cfg) \<le> rq_time b)"

definition last_request :: "pwr_rd_match \<Rightarrow> request" where
  "last_request rwn = \<lparr>rq_time = rm_t_last_nack rwn, rq_what = rm_last_nack rwn, rq_directed = False, rq_heartbeat = False\<rparr>"

fun directs :: "ack_event \<Rightarrow> bool" where
  "directs (Heartbeat _ _ _ d _ _) \<longleftrightarrow> d"
| "directs (HeartbeatFrag _ _ _ d _) \<longleftrightarrow> d"
| "directs _ \<longleftrightarrow> False"

fun is_heartbeat :: "ack_event \<Rightarrow> bool" where
  "is_heartbeat (Heartbeat _ _ _ _ _ _) \<longleftrightarrow> True"
| "is_heartbeat (HeartbeatFrag _ _ _ _ _) \<longleftrightarrow> True"
| "is_heartbeat _ \<longleftrightarrow> False"

fun event_numbers_ok :: "ack_config \<Rightarrow> ack_event \<Rightarrow> bool" where
  "event_numbers_ok cfg (Reception pwr _ ro _ _) \<longleftrightarrow> numbers_ok cfg pwr ro"
| "event_numbers_ok cfg _ \<longleftrightarrow> True"

definition owed :: "bool \<Rightarrow> nat" where "owed b = (if b then 1 else 0)"

lemma spaced_last:
  "unrecorded rwn rwn' \<Longrightarrow> spaced cfg (last_request rwn') r = spaced cfg (last_request rwn) r"
  by (simp add: spaced_def last_request_def unrecorded_def beyond_last_nack_def)

lemma heartbeat_fields:
  assumes "handle_Heartbeat_helper cfg pwr info0 c final d tnow tnow_mt rwn ev = (rwn', ev')"
  shows "rm_reorder rwn' = rm_reorder rwn" "rm_t_last_nack rwn' = rm_t_last_nack rwn" "rm_last_nack rwn' = rm_last_nack rwn"
    "rm_directed_heartbeat rwn' \<longrightarrow> rm_directed_heartbeat rwn \<or> d"
  using assms unfolding handle_Heartbeat_helper_def Let_def by (auto split: if_splits)

lemma heartbeatfrag_fields:
  assumes "heartbeatfrag_respond cfg pwr info0 seq fn d now rwn ev = (rwn', ev')"
  shows "rm_reorder rwn' = rm_reorder rwn" "rm_t_last_nack rwn' = rm_t_last_nack rwn" "rm_last_nack rwn' = rm_last_nack rwn"
    "rm_directed_heartbeat rwn' \<longrightarrow> rm_directed_heartbeat rwn \<or> d"
  using assms unfolding heartbeatfrag_respond_def Let_def by (auto split: if_splits)

lemma advertise_numbers_ok:
  "numbers_ok cfg (heartbeatfrag_advertise pwr seq fn) ro \<longleftrightarrow> numbers_ok cfg pwr ro"
  by (simp add: numbers_ok_def heartbeatfrag_advertise_def)

text \<open>One event: its requests, and what heartbeats are still owed a response.\<close>

lemma ack_step_ok:
  assumes st: "ack_step cfg s e = (s', l)" and ok: "numbers_ok cfg (as_pwr s) (rm_reorder (as_rwn s))" "event_numbers_ok cfg e"
  shows "numbers_ok cfg (as_pwr s') (rm_reorder (as_rwn s'))
     \<and> length (filter rq_directed l) + owed (rm_directed_heartbeat (as_rwn s'))
          \<le> owed (rm_directed_heartbeat (as_rwn s)) + owed (directs e)
     \<and> length (filter rq_heartbeat l) + owed (heard (as_rwn s')) \<le> owed (heard (as_rwn s)) + owed (is_heartbeat e)
     \<and> (l = [] \<and> (\<forall>r. spaced cfg (last_request (as_rwn s')) r = spaced cfg (last_request (as_rwn s)) r)
        \<or> (\<exists>r. l = [r] \<and> spaced cfg (last_request (as_rwn s)) r
             \<and> (\<forall>r'. spaced cfg (last_request (as_rwn s')) r' = spaced cfg r r')))"
proof (cases e)
  case (Timer info0 tnow fate)
  obtain msg pwr rwn ev where h: "handle_xevk_acknack cfg DDS_NEVER (as_pwr s) (as_rwn s) info0 tnow fate = (msg, pwr, rwn, ev)"
    by (rule prod_cases4)
  note t = timer_step [OF h ok(1)]
  then have "pwr\<lparr>pw_nackfragcount := 0\<rparr> = (as_pwr s)\<lparr>pw_nackfragcount := 0\<rparr>" "rm_reorder rwn = rm_reorder (as_rwn s)"
    by (auto simp: same_source_def)
  then have n: "numbers_ok cfg pwr (rm_reorder rwn)"
    using ok(1) by (cases pwr; cases "as_pwr s") (simp add: numbers_ok_def)
  show ?thesis
  proof (cases "requesting msg")
    case True
    define r where "r = \<lparr>rq_time = tnow, rq_what = rm_last_nack rwn, rq_directed = rm_directed_heartbeat (as_rwn s),
        rq_heartbeat = heard (as_rwn s)\<rparr>"
    have l: "l = [r]" "s' = \<lparr>as_pwr = pwr, as_rwn = rwn, as_ev = ev\<rparr>"
      using st True by (simp_all add: Timer h r_def heard_def)
    have rec: "recorded cfg tnow (as_rwn s) rwn" using t True by simp
    then have "spaced cfg (last_request (as_rwn s)) r" "\<forall>r'. spaced cfg (last_request rwn) r' = spaced cfg r r'"
      by (simp_all add: recorded_def spaced_def last_request_def r_def nackdelay_passed_def)
    then show ?thesis using rec n unfolding l by (simp add: owed_def recorded_def r_def)
  next
    case False
    then have "l = []" "s' = \<lparr>as_pwr = pwr, as_rwn = rwn, as_ev = ev\<rparr>" "unrecorded (as_rwn s) rwn"
      using st t by (auto simp: Timer h)
    then show ?thesis using n spaced_last by (auto simp: owed_def unrecorded_def)
  qed
next
  case (Heartbeat info0 hb_count final directed tnow tnow_mt)
  obtain rwn ev where h: "handle_Heartbeat_helper cfg (as_pwr s) info0 hb_count final directed tnow tnow_mt (as_rwn s) (as_ev s) = (rwn, ev)"
    by fastforce
  have "l = []" "s' = s\<lparr>as_rwn := rwn, as_ev := ev\<rparr>" using st by (simp_all add: Heartbeat h)
  then show ?thesis using heartbeat_fields [OF h] ok(1) by (auto simp: Heartbeat owed_def last_request_def)
next
  case (HeartbeatFrag info0 seq fragnum directed now)
  obtain rwn ev where h: "heartbeatfrag_respond cfg (heartbeatfrag_advertise (as_pwr s) seq fragnum) info0 seq fragnum directed now
      (as_rwn s) (as_ev s) = (rwn, ev)" by fastforce
  have "l = []" "s' = \<lparr>as_pwr = heartbeatfrag_advertise (as_pwr s) seq fragnum, as_rwn = rwn, as_ev = ev\<rparr>"
    using st by (simp_all add: HeartbeatFrag h)
  then show ?thesis
    using heartbeatfrag_fields [OF h] ok(1) by (auto simp: HeartbeatFrag owed_def last_request_def advertise_numbers_ok)
next
  case (Reception pwr sync ro seq filtered)
  have "l = []" "s' = s\<lparr>as_pwr := pwr, as_rwn := (as_rwn s)\<lparr>rm_in_sync := sync, rm_reorder := ro, rm_last_seq := seq,
      rm_filtered := filtered\<rparr>\<rparr>" using st by (simp_all add: Reception)
  then show ?thesis using ok(2) by (auto simp: Reception owed_def heard_def last_request_def)
qed

lemma ack_run_ok:
  assumes "ack_run cfg s es = (s', l)" "numbers_ok cfg (as_pwr s) (rm_reorder (as_rwn s))"
    "\<forall>e \<in> set es. event_numbers_ok cfg e" "\<forall>r. spaced cfg (last_request (as_rwn s)) r = spaced cfg r0 r"
  shows "successively (spaced cfg) (r0 # l)
     \<and> length (filter rq_directed l) \<le> owed (rm_directed_heartbeat (as_rwn s)) + length (filter directs es)
     \<and> length (filter rq_heartbeat l) \<le> owed (heard (as_rwn s)) + length (filter is_heartbeat es)"
  using assms
proof (induction es arbitrary: s l r0)
  case Nil
  then show ?case by simp
next
  case (Cons e es)
  obtain s1 l1 where st: "ack_step cfg s e = (s1, l1)" by fastforce
  obtain l2 where run: "ack_run cfg s1 es = (s', l2)" "l = l1 @ l2" using Cons.prems(1) st by (auto split: prod.splits)
  have ok: "event_numbers_ok cfg e" "\<forall>e \<in> set es. event_numbers_ok cfg e" using Cons.prems(3) by auto
  note one = ack_step_ok [OF st Cons.prems(2) ok(1)]
  then have n: "numbers_ok cfg (as_pwr s1) (rm_reorder (as_rwn s1))" by blast
  define r1 where "r1 = (if l1 = [] then r0 else hd l1)"
  have "\<forall>r. spaced cfg (last_request (as_rwn s1)) r = spaced cfg r1 r"
    using one Cons.prems(4) unfolding r1_def by (auto simp del: event_numbers_ok.simps)
  note IH = Cons.IH [OF run(1) n ok(2) this]
  have "successively (spaced cfg) (r0 # l)"
    using one IH Cons.prems(4) run(2) unfolding r1_def by auto
  moreover have "length (filter f l) = length (filter f l1) + length (filter f l2)" for f using run(2) by simp
  then have "length (filter rq_directed l) \<le> owed (rm_directed_heartbeat (as_rwn s)) + (owed (directs e) + length (filter directs es))"
    "length (filter rq_heartbeat l) \<le> owed (heard (as_rwn s)) + (owed (is_heartbeat e) + length (filter is_heartbeat es))"
    using one IH by simp_all
  moreover have "length (filter f (e # es)) = owed (f e) + length (filter f es)" for f by (simp add: owed_def)
  ultimately show ?case by presburger
qed

text \<open>C37: Whatever heartbeats, data and firings of the timed event come, in whatever order: of two successive
  requests for retransmission the second one asks for data beyond the first, answers a directed
  heartbeat, or comes at least \<open>NackDelay\<close> later, and if no heartbeat came in between, at least
  \<open>AutoReschedNackDelay\<close> later. No directed heartbeat is answered twice, and no heartbeat excuses two
  requests.\<close>

theorem acknack_requests_spaced:
  assumes "ack_run cfg s es = (s', l)" and "numbers_ok cfg (as_pwr s) (rm_reorder (as_rwn s))"
    and "\<forall>e \<in> set es. event_numbers_ok cfg e"
  shows "successively (spaced cfg) (last_request (as_rwn s) # l)
     \<and> length (filter rq_directed l) \<le> owed (rm_directed_heartbeat (as_rwn s)) + length (filter directs es)
     \<and> length (filter rq_heartbeat l) \<le> owed (heard (as_rwn s)) + length (filter is_heartbeat es)"
  using ack_run_ok [OF assms(1-3)] by blast

lemma acknack_requests_spaced_witness:
  "\<exists>s' l. ack_run (example_cfg False) \<lparr>as_pwr = example_pwr gap_reorder 6, as_rwn = example_rwn, as_ev = 50\<rparr>
        [Timer example_info 50 XMSG_SENT, Heartbeat example_info 1 False True 60 60, Timer example_info 60 XMSG_SENT] = (s', l)
     \<and> successively (spaced (example_cfg False)) l \<and> length (filter rq_directed l) \<le> 1"
proof -
  let ?s = "\<lparr>as_pwr = example_pwr gap_reorder 6, as_rwn = example_rwn, as_ev = 50\<rparr>"
  let ?es = "[Timer example_info 50 XMSG_SENT, Heartbeat example_info 1 False True 60 60, Timer example_info 60 XMSG_SENT]"
  obtain s' l where r: "ack_run (example_cfg False) ?s ?es = (s', l)" by fastforce
  have ok: "numbers_ok (example_cfg False) (as_pwr ?s) (rm_reorder (as_rwn ?s))"
    by (simp add: numbers_ok_def example_pwr_def example_rwn_def example_cfg_def gap_reorder_ok nn_reorder_next_seq_def
        nn_reorder_new_def)
  from acknack_requests_spaced [OF r ok] r show ?thesis
    by (auto simp: example_rwn_def owed_def successively_Cons)
qed

section \<open>Retries\<close>

lemma makebitmaps_same_source:
  assumes "same_source pwr rwn pwr' rwn'"
  shows "add_AckNack_makebitmaps cfg pwr' rwn' info0 = add_AckNack_makebitmaps cfg pwr rwn info0"
proof -
  have f: "pw_reorder pwr' = pw_reorder pwr" "pw_defrag pwr' = pw_defrag pwr" "pw_dqueue pwr' = pw_dqueue pwr"
    "pw_last_seq pwr' = pw_last_seq pwr" "pw_last_fragnum pwr' = pw_last_fragnum pwr"
    "pw_next_deliv_seq_lowword pwr' = pw_next_deliv_seq_lowword pwr"
    using assms by (cases pwr; cases pwr'; simp add: same_source_def)+
  have na: "nack_at pwr' base fmem i = nack_at pwr base fmem i" for base fmem i by (simp only: nack_at_def f)
  have "nack_cut pwr' base n bits fmem is = nack_cut pwr base n bits fmem is" for base n bits fmem "is"
    by (induction "is") (simp_all add: nack_cut_Cons na split: nn_defrag_nackmap_result.split)
  moreover have "add_AckNack_getsource cfg pwr' rwn' = add_AckNack_getsource cfg pwr rwn"
    using assms by (simp add: add_AckNack_getsource_def same_source_def f)
  moreover have "rm_filtered rwn' = rm_filtered rwn" "rm_last_seq rwn' = rm_last_seq rwn"
    using assms by (simp_all add: same_source_def)
  ultimately show ?thesis unfolding add_AckNack_makebitmaps_def by (simp only: f)
qed

lemma nack_decided:
  assumes "get_AckNack_info cfg pwr rwn info0 ad True = (aanr, s, info)" "fst (add_AckNack_makebitmaps cfg pwr rwn info0)"
  shows "aanr \<in> {AANR_NACK, AANR_NACKFRAG_ONLY}"
proof -
  obtain i where mk: "add_AckNack_makebitmaps cfg pwr rwn info0 = (True, i)" using assms(2) by (metis prod.collapse)
  show ?thesis using assms(1) unfolding get_AckNack_info_def mk Let_def prod.case by (auto split: if_splits)
qed

lemma missing_requested:
  assumes mr: "make_and_resched_acknack cfg ev pwr rwn info0 tnow avoid XMSG_SENT = (msg, pwr', rwn', ev')"
    and ok: "numbers_ok cfg pwr (rm_reorder rwn)" and miss: "fst (add_AckNack_makebitmaps cfg pwr rwn info0)"
    and nd: "nackdelay_passed cfg rwn tnow"
    and auto: "heard rwn \<or> ddsrt_mtime_add_duration (rm_t_last_nack rwn) (auto_resched_nack_delay cfg) \<le> tnow"
  shows "requesting msg \<and> ev' = resched_xevent_if_earlier ev (ddsrt_mtime_add_duration tnow (auto_resched_nack_delay cfg))"
proof -
  obtain aanr s info where g:
    "get_AckNack_info cfg pwr rwn info0 (ackdelay_passed cfg rwn tnow) (nackdelay_passed cfg rwn tnow) = (aanr, s, info)"
    by (rule prod_cases3)
  have a: "aanr \<in> {AANR_NACK, AANR_NACKFRAG_ONLY}" using nack_decided g miss nd by simp
  obtain m r where c: "ack_compose cfg aanr pwr (ack_commit rwn info) info = (m, r)" by fastforce
  obtain p2 r2 e2 where s: "ack_sent cfg aanr s tnow pwr (r\<lparr>rm_count := rm_count r + 1\<rparr>) ev = (p2, r2, e2)"
    by (rule prod_cases3)
  have "msg = Some m \<and> ev' = e2"
    using mr [unfolded make_and_resched_acknack_def g Let_def prod.case c s, folded heard_def] a auto
    by (auto split: if_splits)
  moreover have "requesting (Some m)"
    using g ok a ack_compose_spec(6) [OF c] by (cases rule: get_AckNack_info_cases) auto
  ultimately show ?thesis using ack_sent_nack(6) [OF s a] by simp
qed

text \<open>The event going off as scheduled, again and again, with nothing arriving.\<close>

fun silence :: "ack_config \<Rightarrow> add_AckNack_info \<Rightarrow> nat \<Rightarrow> ack_state \<Rightarrow> ack_state \<times> request list" where
  "silence cfg info0 0 s = (s, [])"
| "silence cfg info0 (Suc n) s =
    (case ack_step cfg s (Timer info0 (as_ev s) XMSG_SENT) of (s', l) \<Rightarrow>
       case silence cfg info0 n s' of (s'', l') \<Rightarrow> (s'', l @ l'))"

text \<open>C38: While samples or fragments are missing and no heartbeat or data comes at all, the reader repeats its
  request every \<open>AutoReschedNackDelay\<close>, without end, provided that this delay is not shorter than
  \<open>NackDelay\<close>.\<close>

theorem acknack_retries:
  assumes "numbers_ok cfg (as_pwr s) (rm_reorder (as_rwn s))" and "pw_have_seen_heartbeat (as_pwr s)"
    and "fst (add_AckNack_makebitmaps cfg (as_pwr s) (as_rwn s) info0)"
    and "as_ev s = rm_t_last_nack (as_rwn s) + auto_resched_nack_delay cfg"
    and "nack_delay cfg \<le> auto_resched_nack_delay cfg" "0 \<le> nack_delay cfg"
    and "as_ev s + int n * auto_resched_nack_delay cfg < DDS_NEVER"
  shows "map rq_time (snd (silence cfg info0 n s)) = map (\<lambda>k. as_ev s + int k * auto_resched_nack_delay cfg) [0..<n]
     \<and> as_ev (fst (silence cfg info0 n s)) = as_ev s + int n * auto_resched_nack_delay cfg"
  using assms
proof (induction n arbitrary: s)
  case 0
  then show ?case by simp
next
  case (Suc n)
  let ?p = "as_pwr s" and ?r = "as_rwn s" and ?t = "as_ev s" and ?d = "auto_resched_nack_delay cfg"
  obtain msg pwr rwn ev where h: "handle_xevk_acknack cfg DDS_NEVER ?p ?r info0 ?t XMSG_SENT = (msg, pwr, rwn, ev)"
    by (rule prod_cases4)
  then have mr: "make_and_resched_acknack cfg DDS_NEVER ?p ?r info0 ?t False XMSG_SENT = (msg, pwr, rwn, ev)"
    using Suc.prems(2) by (simp add: handle_xevk_acknack_def)
  have d: "0 \<le> int n * ?d" "0 \<le> ?d" "int (Suc n) * ?d = ?d + int n * ?d"
    using Suc.prems(5,6) by (simp_all add: distrib_right)
  then have time: "?t + ?d < DDS_NEVER" using Suc.prems(7) by linarith
  have nd: "nackdelay_passed cfg ?r ?t" and auto: "ddsrt_mtime_add_duration (rm_t_last_nack ?r) ?d \<le> ?t"
    using Suc.prems(4,5) time d(2)
    by (auto simp: nackdelay_passed_def ddsrt_mtime_add_duration_def ddsrt_time_add_duration_def)
  have m: "requesting msg" "ev = ?t + ?d"
    using missing_requested [OF mr Suc.prems(1,3) nd] auto time
    by (auto simp: resched_xevent_if_earlier_def ddsrt_mtime_add_duration_def ddsrt_time_add_duration_def)
  note step = make_and_resched_step [OF mr Suc.prems(1)]
  then have t: "rm_t_last_nack rwn = ?t" and src: "same_source ?p ?r pwr rwn" using m(1) by (auto simp: recorded_def)
  define s1 where "s1 = \<lparr>as_pwr = pwr, as_rwn = rwn, as_ev = ev\<rparr>"
  have st: "ack_step cfg s (Timer info0 ?t XMSG_SENT) = (s1, [\<lparr>rq_time = ?t, rq_what = rm_last_nack rwn,
      rq_directed = rm_directed_heartbeat ?r, rq_heartbeat = rm_heartbeat_since_ack ?r \<or> rm_heartbeatfrag_since_ack ?r\<rparr>])"
    using h m(1) by (simp add: s1_def)
  have "numbers_ok cfg pwr (rm_reorder rwn)" "pw_have_seen_heartbeat pwr"
    using src Suc.prems(1,2) by (cases pwr; cases ?p; simp add: same_source_def numbers_ok_def)+
  moreover have "fst (add_AckNack_makebitmaps cfg pwr rwn info0)" using makebitmaps_same_source [OF src] Suc.prems(3) by simp
  ultimately have IH: "map rq_time (snd (silence cfg info0 n s1)) = map (\<lambda>k. ?t + ?d + int k * ?d) [0..<n]
     \<and> as_ev (fst (silence cfg info0 n s1)) = ?t + ?d + int n * ?d"
    using Suc.IH [of s1] Suc.prems(5-7) m(2) t d(3) by (simp add: s1_def)
  have "map (\<lambda>k. ?t + int k * ?d) [0..<Suc n] = ?t # map (\<lambda>k. ?t + ?d + int k * ?d) [0..<n]"
    unfolding upt_conv_Cons [OF zero_less_Suc] map_Suc_upt [symmetric] by (simp add: distrib_right algebra_simps)
  then show ?case using IH st d(3) by (simp del: ack_step.simps upt.simps add: split_beta add.assoc)
qed

lemma example_numbers_ok:
  "\<not> late_ack_mode cfg \<Longrightarrow> numbers_ok cfg (example_pwr gap_reorder 6) (rm_reorder example_rwn)"
  by (simp add: numbers_ok_def example_pwr_def example_rwn_def gap_reorder_ok nn_reorder_next_seq_def nn_reorder_new_def)

lemma example_missing:
  assumes "\<not> late_ack_mode cfg"
  shows "fst (add_AckNack_makebitmaps cfg (example_pwr gap_reorder 6) example_rwn example_info)"
proof -
  have gs: "add_AckNack_getsource cfg (example_pwr gap_reorder 6) example_rwn = (gap_reorder, 1, False)"
    using assms by (simp add: add_AckNack_getsource_def example_rwn_def example_pwr_def nn_reorder_next_seq_def gap_reorder_ok)
  obtain nack info where mk: "add_AckNack_makebitmaps cfg (example_pwr gap_reorder 6) example_rwn example_info = (nack, info)"
    by fastforce
  obtain b N bits where nm: "nn_reorder_nackmap gap_reorder 1 (last_known (example_pwr gap_reorder 6) example_rwn)
      (ai_bits example_info) NN_SEQUENCE_NUMBER_SET_MAX_BITS False = (b, N, bits)" by (rule prod_cases3)
  have room: "bits_room NN_SEQUENCE_NUMBER_SET_MAX_BITS (ai_bits example_info)" "length (ai_frag_bits example_info) = 8"
    by (simp_all add: bits_room_def NN_SEQUENCE_NUMBER_SET_MAX_BITS_def example_info_def)
  have last: "last_known (example_pwr gap_reorder 6) example_rwn = 6"
    by (simp add: last_known_def example_rwn_def example_pwr_def)
  have "N = 6"
    using nackmap_tail(3) [OF gap_reorder_ok(1) _ _ room(1) nm] by (simp add: gap_reorder_ok last NN_SEQUENCE_NUMBER_SET_MAX_BITS_def)
  have un: "\<not> fragments_known (example_pwr gap_reorder 6) q" for q
    by (simp add: fragments_known_def example_pwr_def nn_defrag_new_def idx_defs)
  from mk gs nm example_plausible room(2) have nack
    by (cases rule: makebitmaps_cases) (use \<open>N = 6\<close> un in auto)
  then show ?thesis using mk by simp
qed

lemma acknack_retries_witness:
  "map rq_time (snd (silence (example_cfg False) example_info 3
      \<lparr>as_pwr = example_pwr gap_reorder 6, as_rwn = example_rwn, as_ev = 3000\<rparr>)) = [3000, 6000, 9000]"
proof -
  let ?s = "\<lparr>as_pwr = example_pwr gap_reorder 6, as_rwn = example_rwn, as_ev = 3000\<rparr>" and ?c = "example_cfg False"
  have l: "\<not> late_ack_mode ?c" by (simp add: example_cfg_def)
  have ok: "numbers_ok ?c (as_pwr ?s) (rm_reorder (as_rwn ?s))" using example_numbers_ok [OF l] by simp
  have miss: "fst (add_AckNack_makebitmaps ?c (as_pwr ?s) (as_rwn ?s) example_info)" using example_missing [OF l] by simp
  have "pw_have_seen_heartbeat (as_pwr ?s)" by (simp add: example_pwr_def)
  from acknack_retries [OF ok this miss, of 3] show ?thesis
    by (simp add: example_cfg_def example_rwn_def DDS_NEVER_def upt_rec)
qed

text \<open>The summary of a request, and that a request is not beyond itself.\<close>

definition nack_summary_of :: "add_AckNack_info \<Rightarrow> last_nack_summary" where
  "nack_summary_of info =
    \<lparr>seq_end_p1 = ai_bitmap_base info + ai_numbits info, seq_base = ai_bitmap_base info,
     frag_end_p1 = (if 0 < ai_frag_seq info then ai_frag_base info + ai_frag_numbits info else 0),
     frag_base = (if 0 < ai_frag_seq info then ai_frag_base info else 0)\<rparr>"

lemma not_beyond_itself:
  "0 < ai_numbits info \<or> 0 < ai_frag_seq info \<and> 0 < ai_frag_numbits info \<Longrightarrow>
   \<not> beyond_last_nack (nack_summary_of info) (nack_summary_of info)"
  by (auto simp: beyond_last_nack_def nack_summary_of_def)

lemma nack_summary:
  assumes "get_AckNack_info cfg pwr rwn info0 ad nd = (aanr, s, info)" "add_AckNack_makebitmaps cfg pwr rwn info0 = (True, i)"
  shows "s = nack_summary_of i"
  using assms unfolding get_AckNack_info_def assms(2) Let_def prod.case by (auto simp: nack_summary_of_def split: if_splits)

lemma nothing_decided:
  assumes "add_AckNack_makebitmaps cfg pwr rwn info0 = (True, i)" "\<not> beyond_last_nack (nack_summary_of i) (rm_last_nack rwn)"
    "\<not> rm_directed_heartbeat rwn" "\<not> heard rwn"
  shows "fst (get_AckNack_info cfg pwr rwn info0 ad False) = AANR_SUPPRESSED_ACK"
  using assms(2-) unfolding get_AckNack_info_def assms(1) Let_def prod.case
  by (simp add: nack_summary_of_def heard_def)

lemma frag_numbits_pos:
  assumes mk: "add_AckNack_makebitmaps cfg pwr rwn info0 = (nack, info)" and p: "plausible pwr" "room_for_bits info0"
    and f: "0 < ai_frag_seq info"
  shows "0 < ai_frag_numbits info"
proof -
  obtain r base notail where gs: "add_AckNack_getsource cfg pwr rwn = (r, base, notail)" by (rule prod_cases3)
  obtain b N bits where nm: "nn_reorder_nackmap r base (last_known pwr rwn) (ai_bits info0) NN_SEQUENCE_NUMBER_SET_MAX_BITS notail
      = (b, N, bits)" by (rule prod_cases3)
  have l: "length (ai_frag_bits info0) = 8" using p(2) by (simp add: room_for_bits_def)
  from mk gs nm p(1) l show ?thesis by (cases rule: makebitmaps_cases) (use f in \<open>auto simp: asks_fragments_def\<close>)
qed

lemma request_outcome:
  assumes mr: "make_and_resched_acknack cfg ev pwr rwn info0 tnow avoid fate = (msg, pwr', rwn', ev')"
    and ok: "numbers_ok cfg pwr (rm_reorder rwn)" and req: "requesting msg"
  obtains i where "add_AckNack_makebitmaps cfg pwr rwn info0 = (True, i)" "rm_last_nack rwn' = nack_summary_of i"
    "ev' = resched_xevent_if_earlier ev (ddsrt_mtime_add_duration tnow (auto_resched_nack_delay cfg))"
proof -
  obtain aanr s info where g:
    "get_AckNack_info cfg pwr rwn info0 (ackdelay_passed cfg rwn tnow) (nackdelay_passed cfg rwn tnow) = (aanr, s, info)"
    by (rule prod_cases3)
  obtain m r where made: "msg = Some m" "ack_compose cfg aanr pwr (ack_commit rwn info) info = (m, r)" "aanr \<noteq> AANR_SUPPRESSED_ACK"
    "ack_sent cfg aanr s tnow pwr (r\<lparr>rm_count := rm_count r + 1\<rparr>) ev = (pwr', rwn', ev')"
    using mr g by (cases rule: make_and_resched_cases) (use req in \<open>auto simp: requesting_def\<close>)
  from g ok have n: "aanr \<in> {AANR_NACK, AANR_NACKFRAG_ONLY} \<and> fst (add_AckNack_makebitmaps cfg pwr rwn info0)"
    by (cases rule: get_AckNack_info_cases) (use made ack_compose_spec(6) [OF made(2)] req in auto)
  then obtain i where i: "add_AckNack_makebitmaps cfg pwr rwn info0 = (True, i)" by (metis prod.collapse)
  show ?thesis using that [OF i] nack_summary [OF g i] ack_sent_nack(5,6) [OF made(4)] n by simp
qed

text \<open>C39: If \<open>AutoReschedNackDelay\<close> is shorter than \<open>NackDelay\<close>, there is no retry: the event that was scheduled
  when a request was sent goes off without effect and is not scheduled again, so in the absence of
  heartbeats the reader never repeats the request.\<close>

theorem acknack_retry_lost:
  assumes req: "ack_step cfg s (Timer info0 t XMSG_SENT) = (s1, [r])"
    and hb: "pw_have_seen_heartbeat (as_pwr s)"
    and ok: "numbers_ok cfg (as_pwr s) (rm_reorder (as_rwn s))" "plausible (as_pwr s)" "room_for_bits info0"
    and delays: "auto_resched_nack_delay cfg < nack_delay cfg" "t + nack_delay cfg < DDS_NEVER"
  shows "as_ev s1 = t + auto_resched_nack_delay cfg
     \<and> ack_step cfg s1 (Timer info0 (as_ev s1) XMSG_SENT) = (s1\<lparr>as_ev := DDS_NEVER\<rparr>, [])"
proof -
  let ?p = "as_pwr s" and ?r = "as_rwn s"
  obtain msg p1 r1 ev where h: "handle_xevk_acknack cfg DDS_NEVER ?p ?r info0 t XMSG_SENT = (msg, p1, r1, ev)"
    by (rule prod_cases4)
  then have mr: "make_and_resched_acknack cfg DDS_NEVER ?p ?r info0 t False XMSG_SENT = (msg, p1, r1, ev)"
    using hb by (simp add: handle_xevk_acknack_def)
  have m: "requesting msg" "s1 = \<lparr>as_pwr = p1, as_rwn = r1, as_ev = ev\<rparr>" using req h by (auto split: if_splits)
  have rec: "recorded cfg t ?r r1" and src: "same_source ?p ?r p1 r1"
    using make_and_resched_step [OF mr ok(1)] m(1) by auto
  obtain i where i: "add_AckNack_makebitmaps cfg ?p ?r info0 = (True, i)" "rm_last_nack r1 = nack_summary_of i"
    and e: "ev = resched_xevent_if_earlier DDS_NEVER (ddsrt_mtime_add_duration t (auto_resched_nack_delay cfg))"
    using mr ok(1) m(1) by (rule request_outcome)
  have ev: "ev = t + auto_resched_nack_delay cfg"
    using e delays by (simp add: resched_xevent_if_earlier_def ddsrt_mtime_add_duration_def ddsrt_time_add_duration_def)
  have "0 < ai_numbits i \<or> 0 < ai_frag_seq i" using makebitmaps_requests [OF ok(1) i(1)] by simp
  then have nb: "\<not> beyond_last_nack (nack_summary_of i) (rm_last_nack r1)"
    unfolding i(2) using frag_numbits_pos [OF i(1) ok(2,3)] by (intro not_beyond_itself) blast
  have i1: "add_AckNack_makebitmaps cfg p1 r1 info0 = (True, i)" using makebitmaps_same_source [OF src] i(1) by simp
  have nd: "nackdelay_passed cfg r1 ev = False"
    using rec delays ev by (simp add: nackdelay_passed_def recorded_def ddsrt_mtime_add_duration_def ddsrt_time_add_duration_def)
  have "\<not> rm_directed_heartbeat r1" "\<not> heard r1" using rec by (simp_all add: recorded_def)
  then have "fst (get_AckNack_info cfg p1 r1 info0 (ackdelay_passed cfg r1 ev) (nackdelay_passed cfg r1 ev)) = AANR_SUPPRESSED_ACK"
    unfolding nd by (rule nothing_decided [OF i1 nb])
  then have "make_and_resched_acknack cfg DDS_NEVER p1 r1 info0 ev False XMSG_SENT = (None, p1, r1, DDS_NEVER)"
    by (simp add: make_and_resched_acknack_def split_beta)
  moreover have "pw_have_seen_heartbeat p1" using src hb by (cases p1; cases ?p; simp add: same_source_def)
  ultimately show ?thesis using ev m(2) by (simp add: handle_xevk_acknack_def requesting_def)
qed

lemma acknack_retry_lost_witness:
  "\<exists>s1 r. ack_step ((example_cfg False)\<lparr>auto_resched_nack_delay := 30\<rparr>)
        \<lparr>as_pwr = example_pwr gap_reorder 6, as_rwn = example_rwn, as_ev = 200\<rparr> (Timer example_info 200 XMSG_SENT) = (s1, [r])
     \<and> as_ev s1 = 230
     \<and> ack_step ((example_cfg False)\<lparr>auto_resched_nack_delay := 30\<rparr>) s1 (Timer example_info 230 XMSG_SENT)
         = (s1\<lparr>as_ev := DDS_NEVER\<rparr>, [])"
proof -
  let ?s = "\<lparr>as_pwr = example_pwr gap_reorder 6, as_rwn = example_rwn, as_ev = 200\<rparr>"
  let ?c = "(example_cfg False)\<lparr>auto_resched_nack_delay := 30\<rparr>"
  have l: "\<not> late_ack_mode ?c" by (simp add: example_cfg_def)
  have ok: "numbers_ok ?c (as_pwr ?s) (rm_reorder (as_rwn ?s))" using example_numbers_ok [OF l] by simp
  have hb: "pw_have_seen_heartbeat (as_pwr ?s)" by (simp add: example_pwr_def)
  obtain msg p1 r1 ev where h: "handle_xevk_acknack ?c DDS_NEVER (as_pwr ?s) (as_rwn ?s) example_info 200 XMSG_SENT = (msg, p1, r1, ev)"
    by (rule prod_cases4)
  then have "make_and_resched_acknack ?c DDS_NEVER (as_pwr ?s) (as_rwn ?s) example_info 200 False XMSG_SENT = (msg, p1, r1, ev)"
    using hb by (simp add: handle_xevk_acknack_def)
  moreover have "nackdelay_passed ?c (as_rwn ?s) 200"
    by (simp add: nackdelay_passed_def example_cfg_def example_rwn_def ddsrt_mtime_add_duration_def
        ddsrt_time_add_duration_def DDS_NEVER_def)
  moreover have "heard (as_rwn ?s)" by (simp add: heard_def example_rwn_def)
  ultimately have "requesting msg" using missing_requested ok example_missing [OF l] by simp
  then obtain s1 r where st: "ack_step ?c ?s (Timer example_info 200 XMSG_SENT) = (s1, [r])" using h by simp
  have p: "plausible (as_pwr ?s)" "auto_resched_nack_delay ?c < nack_delay ?c" "200 + nack_delay ?c < DDS_NEVER"
    using example_plausible by (simp_all add: example_cfg_def DDS_NEVER_def)
  note r = acknack_retry_lost [OF st hb ok p(1) example_room p(2,3)]
  have e: "as_ev s1 = 230" using conjunct1 [OF r] by (simp add: example_cfg_def)
  show ?thesis by (intro exI conjI) (rule st e conjunct2 [OF r, unfolded e])+
qed

end
