(* ===== verification/Receive.thy ===== *)
theory Receive
  imports Acknack "HOL-Library.List_Lexorder"
begin

text \<open>
  Reception at a proxy writer: what core/ddsi/src/q_receive.c does with the data, gaps and heartbeats
  of a remote writer, over the defragmenter, the reorder administrations and the delivery queue, and
  how readers are connected to and disconnected from the proxy writer (core/ddsi/src/ddsi_entity_match.c).

  The readers are a list in the order of their GUIDs, as in the tree of the code; the array of readers
  for the fast path has the same members. Each operation runs under the lock of the proxy writer, the
  delivery thread takes and handles one element at a time. Renewing leases, the transition of the
  writer from not alive to alive, signals to the delivery thread and waiting for it, and the callback
  for internal readers are left out. Handing a sample to the readers is one step: when a reader's cache
  has no room for it, \<open>remote_on_delivery_failure_fastpath\<close> gives up the lock of the proxy writer for a while
  and the code tries again, and what other threads do in that time is not modelled. A queue that several proxy writers share has elements of others
  in between.
\<close>

section \<open>State\<close>

record reader_match =
  mr_match :: pwr_rd_match
  mr_end_of_tl_seq :: seqno
  mr_acknack_xevent :: "int option"

text \<open>A sample handed on: the reader it was meant for (none: all readers in sync), and who got it.\<close>

record delivery =
  dl_rdguid :: "ddsi_guid option"
  dl_elem :: nn_rsample_chain_elem
  dl_readers :: "ddsi_guid list"

record reception =
  rx_pwr :: proxy_writer
  rx_readers :: "(ddsi_guid \<times> reader_match) list"
  rx_n_reliable_readers :: nat
  rx_n_readers_out_of_sync :: nat
  rx_deliver_synchronously :: bool
  rx_local_matching_inprogress :: bool
  rx_filtered :: bool
  rx_fastpath_ok :: bool
  rx_thread :: dq_thread
  rx_rc :: refcounts
  rx_out :: "delivery list"

definition ddsi_is_null_guid :: "ddsi_guid \<Rightarrow> bool" where
  "ddsi_is_null_guid g \<longleftrightarrow> list_all (\<lambda>b. b = 0) g"

definition upd_reader :: "ddsi_guid \<Rightarrow> (reader_match \<Rightarrow> reader_match) \<Rightarrow> reception \<Rightarrow> reception" where
  "upd_reader g f s = s\<lparr>rx_readers := map (\<lambda>(h, m). if h = g then (h, f m) else (h, m)) (rx_readers s)\<rparr>"

definition get_reader :: "ddsi_guid \<Rightarrow> reception \<Rightarrow> reader_match option" where
  "get_reader g s = map_option snd (idx_lookup fst g (rx_readers s))"

definition upd_match :: "ddsi_guid \<Rightarrow> (pwr_rd_match \<Rightarrow> pwr_rd_match) \<Rightarrow> reception \<Rightarrow> reception" where
  "upd_match g f s = upd_reader g (\<lambda>m. m\<lparr>mr_match := f (mr_match m)\<rparr>) s"

definition upd_pwr :: "(proxy_writer \<Rightarrow> proxy_writer) \<Rightarrow> reception \<Rightarrow> reception" where
  "upd_pwr f s = s\<lparr>rx_pwr := f (rx_pwr s)\<rparr>"

abbreviation sync_state :: "reader_match \<Rightarrow> pwr_rd_match_syncstate" where
  "sync_state m \<equiv> rm_in_sync (mr_match m)"

section \<open>Delivery\<close>

definition in_sync_readers :: "reception \<Rightarrow> ddsi_guid list" where
  "in_sync_readers s =
    (if rx_fastpath_ok s then map fst (rx_readers s)
     else map fst (filter (\<lambda>(g, m). sync_state m = PRMSS_SYNC) (rx_readers s)))"

text \<open>The argument \<open>valid\<close> tells whether the inline QoS of a sample can be read.\<close>

definition deliver_user_data ::
    "(nn_rsample_chain_elem \<Rightarrow> bool) \<Rightarrow> nn_rsample_chain_elem \<Rightarrow> ddsi_guid option \<Rightarrow> reception \<Rightarrow> reception" where
  "deliver_user_data valid e rdguid s =
    (case ce_sampleinfo e of
       None \<Rightarrow> s
     | Some si \<Rightarrow>
         if \<not> valid e then s\<lparr>rx_out := rx_out s @ [\<lparr>dl_rdguid = rdguid, dl_elem = e, dl_readers = []\<rparr>]\<rparr>
         else case rdguid of
           Some g \<Rightarrow> s\<lparr>rx_out := rx_out s @ [\<lparr>dl_rdguid = rdguid, dl_elem = e, dl_readers = [g]\<rparr>]\<rparr>
         | None \<Rightarrow>
             upd_pwr (\<lambda>p. p\<lparr>pw_next_deliv_seq_lowword := of_nat (si_seq si + 1)\<rparr>)
               (s\<lparr>rx_out := rx_out s @ [\<lparr>dl_rdguid = rdguid, dl_elem = e, dl_readers = in_sync_readers s\<rparr>]\<rparr>))"

fun deliver_user_data_synchronously ::
    "(nn_rsample_chain_elem \<Rightarrow> bool) \<Rightarrow> nn_rsample_chain_elem list \<Rightarrow> ddsi_guid option \<Rightarrow> reception \<Rightarrow> reception" where
  "deliver_user_data_synchronously valid [] rdguid s = s"
| "deliver_user_data_synchronously valid (e # sc) rdguid s =
    (let s1 = deliver_user_data valid e rdguid s
     in deliver_user_data_synchronously valid sc rdguid (s1\<lparr>rx_rc := nn_fragchain_unref (ce_fragchain e) (rx_rc s1)\<rparr>))"

text \<open>Delivery to all readers in sync, with the function that enqueues, and to one reader.\<close>

definition enqueue_one :: "ddsi_guid \<Rightarrow> nn_rsample_chain_elem list \<Rightarrow> nn_reorder_result \<Rightarrow> reception \<Rightarrow> reception" where
  "enqueue_one g sc res s = upd_pwr (\<lambda>p. p\<lparr>pw_dqueue := snd (nn_dqueue_enqueue1 (pw_dqueue p) g sc res)\<rparr>) s"

definition deliver_all ::
    "(nn_dqueue \<Rightarrow> nn_rsample_chain_elem list \<Rightarrow> nn_reorder_result \<Rightarrow> bool \<times> nn_dqueue)
       \<Rightarrow> (nn_rsample_chain_elem \<Rightarrow> bool) \<Rightarrow> nn_rsample_chain_elem list \<Rightarrow> nn_reorder_result \<Rightarrow> reception \<Rightarrow> reception" where
  "deliver_all enqueue valid sc res s =
    (if rx_deliver_synchronously s then deliver_user_data_synchronously valid sc None s
     else upd_pwr (\<lambda>p. p\<lparr>pw_dqueue := snd (enqueue (pw_dqueue p) sc res)\<rparr>) s)"

definition deliver_one ::
    "(nn_rsample_chain_elem \<Rightarrow> bool) \<Rightarrow> ddsi_guid \<Rightarrow> nn_rsample_chain_elem list \<Rightarrow> nn_reorder_result \<Rightarrow> reception \<Rightarrow> reception" where
  "deliver_one valid g sc res s =
    (if rx_deliver_synchronously s then deliver_user_data_synchronously valid sc (Some g) s
     else enqueue_one g sc res s)"

section \<open>Becoming in sync\<close>

definition reader_in_sync :: "ddsi_guid \<Rightarrow> reception \<Rightarrow> reception" where
  "reader_in_sync g s =
    (let s1 = upd_match g (\<lambda>m. m\<lparr>rm_in_sync := PRMSS_SYNC\<rparr>) s;
         n = rx_n_readers_out_of_sync s1 - 1;
         s2 = s1\<lparr>rx_n_readers_out_of_sync := n\<rparr>
     in if n = 0 then s2\<lparr>rx_fastpath_ok := True\<rparr> else s2)"

definition maybe_set_reader_in_sync :: "ddsi_guid \<Rightarrow> seqno \<Rightarrow> reception \<Rightarrow> reception" where
  "maybe_set_reader_in_sync g last_deliv_seq s =
    (case get_reader g s of
       None \<Rightarrow> s
     | Some m \<Rightarrow>
         (case sync_state m of
            PRMSS_SYNC \<Rightarrow> s
          | PRMSS_TLCATCHUP \<Rightarrow> if last_deliv_seq \<ge> mr_end_of_tl_seq m then reader_in_sync g s else s
          | PRMSS_OUT_OF_SYNC \<Rightarrow>
              if rm_filtered (mr_match m) then s
              else if pw_have_seen_heartbeat (rx_pwr s)
                      \<and> nn_reorder_next_seq (rm_reorder (mr_match m)) = nn_reorder_next_seq (pw_reorder (rx_pwr s))
              then (let s1 = upd_match g (\<lambda>m. m\<lparr>rm_in_sync := PRMSS_TLCATCHUP\<rparr>) s
                    in if last_deliv_seq \<ge> mr_end_of_tl_seq m then reader_in_sync g s1 else s1)
              else s))"

section \<open>Data\<close>

definition clean_defrag :: "reception \<Rightarrow> reception" where
  "clean_defrag s =
    (let seq0 = nn_reorder_next_seq (pw_reorder (rx_pwr s));
         seq = (if rx_n_readers_out_of_sync s > 0
                then foldl (\<lambda>q (g, m). if sync_state m = PRMSS_OUT_OF_SYNC \<and> nn_reorder_next_seq (rm_reorder (mr_match m)) < q
                              then nn_reorder_next_seq (rm_reorder (mr_match m)) else q) seq0 (rx_readers s)
                else seq0);
         (d, rc) = nn_defrag_notegap (pw_defrag (rx_pwr s)) 1 seq (rx_rc s)
     in (upd_pwr (\<lambda>p. p\<lparr>pw_defrag := d\<rparr>) s)\<lparr>rx_rc := rc\<rparr>)"

text \<open>
  What the administration of one reader does with the sample; \<open>sync\<close> tells that the reader may come
  in sync when the sample is delivered.
\<close>

definition reader_rsample ::
    "(nn_rsample_chain_elem \<Rightarrow> bool) \<Rightarrow> bool \<Rightarrow> ddsi_guid \<Rightarrow> nn_rsample_reorder \<Rightarrow> seqno \<Rightarrow> reception \<times> int \<Rightarrow> reception \<times> int" where
  "reader_rsample valid sync g rsample seq = (\<lambda>(s, adj).
    (case get_reader g s of
       None \<Rightarrow> (s, adj)
     | Some m \<Rightarrow>
         (let (res, sc, r, adj, rc) =
                nn_reorder_rsample (rm_reorder (mr_match m)) rsample adj (nn_dqueue_is_full (pw_dqueue (rx_pwr s))) (rx_rc s);
              s = (upd_match g (\<lambda>m. m\<lparr>rm_reorder := r\<rparr>) s)\<lparr>rx_rc := rc\<rparr>
          in if res > 0
             then (deliver_one valid g sc res (if sync then maybe_set_reader_in_sync g seq s else s), adj)
             else (s, adj))))"

text \<open>The primary administration, with the gap that forces delivery if no reader is reliable.\<close>

definition primary_rsample ::
    "(nn_rsample_chain_elem \<Rightarrow> bool) \<Rightarrow> nn_rsample_reorder \<Rightarrow> nn_rdata \<Rightarrow> seqno \<Rightarrow> reception \<times> int \<Rightarrow> reception \<times> int" where
  "primary_rsample valid rsample rdata seq = (\<lambda>(s, adj).
    (let (res, sc, r, adj, rc) = nn_reorder_rsample (pw_reorder (rx_pwr s)) rsample adj False (rx_rc s);
         (res, sc, r, rc) =
           (if res = NN_REORDER_ACCEPT \<and> rx_n_reliable_readers s = 0
            then (let (res, sc, r, gap_refc_adjust, rc) = nn_reorder_gap r rdata 1 seq 0 rc in (res, sc, r, rc))
            else (res, sc, r, rc));
         s = (upd_pwr (\<lambda>p. p\<lparr>pw_reorder := r\<rparr>) s)\<lparr>rx_rc := rc\<rparr>
     in (if res > 0 then deliver_all nn_dqueue_enqueue_deferred_wakeup valid sc res s else s, adj)))"

fun readers_rsample ::
    "(nn_rsample_chain_elem \<Rightarrow> bool) \<Rightarrow> nn_rsample_reorder \<Rightarrow> seqno \<Rightarrow> ddsi_guid list \<Rightarrow> reception \<times> int \<Rightarrow> reception \<times> int" where
  "readers_rsample valid rsample seq [] st = st"
| "readers_rsample valid rsample seq (g # gs) st =
    (let skip = (case get_reader g (fst st) of None \<Rightarrow> True | Some m \<Rightarrow> sync_state m = PRMSS_SYNC)
     in readers_rsample valid rsample seq gs
          (if skip then st else reader_rsample valid True g (nn_reorder_rsample_dup_first rsample) seq st))"

text \<open>The highest sequence number and fragment known to exist, for the acknowledgements.\<close>

definition note_data :: "seqno \<Rightarrow> nat \<Rightarrow> proxy_writer \<Rightarrow> proxy_writer" where
  "note_data seq fragnum p =
    (if seq > pw_last_seq p then p\<lparr>pw_last_seq := seq, pw_last_fragnum := fragnum\<rparr>
     else if seq = pw_last_seq p \<and> fragnum > pw_last_fragnum p then p\<lparr>pw_last_fragnum := fragnum\<rparr>
     else p)"

definition note_match_seq :: "seqno \<Rightarrow> pwr_rd_match \<Rightarrow> pwr_rd_match" where
  "note_match_seq seq m = (if seq > rm_last_seq m then m\<lparr>rm_last_seq := seq\<rparr> else m)"

text \<open>Whether the submessage is addressed to a reader with a content filter.\<close>

definition addressed_reader :: "ddsi_guid \<Rightarrow> reception \<Rightarrow> bool" where
  "addressed_reader dst s \<longleftrightarrow> rx_filtered s \<and> \<not> ddsi_is_null_guid dst \<and>
    (case get_reader dst s of None \<Rightarrow> False | Some m \<Rightarrow> rm_filtered (mr_match m))"

text \<open>A complete sample: to the filtered reader it is addressed to, or to everyone.\<close>

definition handle_complete_sample ::
    "(nn_rsample_chain_elem \<Rightarrow> bool) \<Rightarrow> ddsi_guid \<Rightarrow> nn_rsample_info \<Rightarrow> nn_rdata \<Rightarrow> nn_rsample_reorder \<Rightarrow> reception \<Rightarrow> reception" where
  "handle_complete_sample valid dst si rdata rsample s =
    (let fragchain = nn_rsample_fragchain rsample;
         addressed = addressed_reader dst s;
         (s, adj) =
           (if addressed
            then reader_rsample valid False dst rsample (si_seq si) (upd_match dst (note_match_seq (si_seq si)) s, 0)
            else
                (let (s, adj) = primary_rsample valid rsample rdata (si_seq si) (s, 0)
                 in if rx_n_readers_out_of_sync s > 0
                    then readers_rsample valid rsample (si_seq si) (map fst (rx_readers s)) (s, adj)
                    else (s, adj)))
     in s\<lparr>rx_rc := nn_fragchain_adjust_refcount fragchain adj (rx_rc s)\<rparr>)"

definition handle_regular ::
    "(nn_rsample_chain_elem \<Rightarrow> bool) \<Rightarrow> bool \<Rightarrow> ddsi_guid \<Rightarrow> nn_rsample_info \<Rightarrow> nat \<Rightarrow> nn_rdata \<Rightarrow> reception \<Rightarrow> reception" where
  "handle_regular valid eclipse dst si max_fragnum_in_msg rdata s =
    (if \<not> pw_have_seen_heartbeat (rx_pwr s) \<and> rx_n_reliable_readers s > 0 \<and> eclipse then s
     else if rx_readers s = [] \<or> rx_local_matching_inprogress s then s
     else
       let s = clean_defrag (upd_pwr (note_data (si_seq si) max_fragnum_in_msg) s)
       in case nn_defrag_rsample (pw_defrag (rx_pwr s)) rdata si (rx_rc s) of
            (res, d, rc) \<Rightarrow>
              let s = (upd_pwr (\<lambda>p. p\<lparr>pw_defrag := d\<rparr>) s)\<lparr>rx_rc := rc\<rparr>
              in case res of None \<Rightarrow> s | Some rsample \<Rightarrow> handle_complete_sample valid dst si rdata rsample s)"

section \<open>Gaps\<close>

definition primary_gap ::
    "(nn_rsample_chain_elem \<Rightarrow> bool) \<Rightarrow> seqno \<Rightarrow> seqno \<Rightarrow> nn_rdata \<Rightarrow> reception \<times> int \<Rightarrow> reception \<times> int" where
  "primary_gap valid a b gap = (\<lambda>(s, adj).
    (let (res, sc, r, adj, rc) = nn_reorder_gap (pw_reorder (rx_pwr s)) gap a b adj (rx_rc s);
         s = (upd_pwr (\<lambda>p. p\<lparr>pw_reorder := r\<rparr>) s)\<lparr>rx_rc := rc\<rparr>
     in (if res > 0 then deliver_all nn_dqueue_enqueue valid sc res s else s, adj)))"

text \<open>The administration of one reader, with the function that delivers.\<close>

definition reader_gap ::
    "(ddsi_guid \<Rightarrow> nn_rsample_chain_elem list \<Rightarrow> nn_reorder_result \<Rightarrow> reception \<Rightarrow> reception) \<Rightarrow> ddsi_guid \<Rightarrow> seqno \<Rightarrow> seqno \<Rightarrow> nn_rdata \<Rightarrow> reception \<times> int \<Rightarrow> reception \<times> int" where
  "reader_gap deliver g a b gap = (\<lambda>(s, adj).
    (case get_reader g s of
       None \<Rightarrow> (s, adj)
     | Some m \<Rightarrow>
         (let (res, sc, r, adj, rc) = nn_reorder_gap (rm_reorder (mr_match m)) gap a b adj (rx_rc s);
              s = (upd_match g (\<lambda>m. m\<lparr>rm_reorder := r\<rparr>) s)\<lparr>rx_rc := rc\<rparr>
          in (if res > 0 then deliver g sc res s else s, adj))))"

definition defrag_gap :: "seqno \<Rightarrow> seqno \<Rightarrow> reception \<Rightarrow> reception" where
  "defrag_gap a b s =
    (let (d, rc) = nn_defrag_notegap (pw_defrag (rx_pwr s)) a b (rx_rc s)
     in (upd_pwr (\<lambda>p. p\<lparr>pw_defrag := d\<rparr>) s)\<lparr>rx_rc := rc\<rparr>)"

text \<open>The reader \<open>g\<close> is connected; the result, whether the gap was of use, is ignored by all callers.\<close>

definition handle_one_gap ::
    "(nn_rsample_chain_elem \<Rightarrow> bool) \<Rightarrow> ddsi_guid \<Rightarrow> seqno \<Rightarrow> seqno \<Rightarrow> nn_rdata \<Rightarrow> reception \<times> int \<Rightarrow> reception \<times> int" where
  "handle_one_gap valid g a b gap = (\<lambda>(s, adj).
    (case get_reader g s of
       None \<Rightarrow> (s, adj)
     | Some m \<Rightarrow>
         (let (s, adj) = (if rm_filtered (mr_match m) then (s, adj) else primary_gap valid a b gap (defrag_gap a b s, adj))
          in if sync_state m = PRMSS_SYNC then (s, adj)
             else
               (let (s, adj) = (if sync_state m = PRMSS_OUT_OF_SYNC then reader_gap (deliver_one valid) g a b gap (s, adj) else (s, adj))
                in (maybe_set_reader_in_sync g (b - 1) s, adj)))))"

text \<open>The first bit from \<open>i\<close> on that is clear.\<close>

definition first_clear :: "nat \<Rightarrow> u32 list \<Rightarrow> nat \<Rightarrow> nat" where
  "first_clear numbits bits i =
    (case find (\<lambda>j. \<not> nn_bitset_isset numbits bits j) [i..<numbits] of None \<Rightarrow> max i numbits | Some j \<Rightarrow> j)"

lemma first_clear_ge: "i \<le> first_clear numbits bits i"
  by (auto simp: first_clear_def find_Some_iff split: option.split)

text \<open>The loop over the runs of set bits: their gaps, and the end of the last one.\<close>

function gap_runs :: "nat \<Rightarrow> u32 list \<Rightarrow> nat \<Rightarrow> nat \<Rightarrow> (nat \<times> nat) list \<times> nat" where
  "gap_runs numbits bits listidx excl =
    (if listidx \<ge> numbits then ([], excl)
     else if \<not> nn_bitset_isset numbits bits listidx then gap_runs numbits bits (listidx + 1) excl
     else let j = first_clear numbits bits (listidx + 1)
          in case gap_runs numbits bits j j of (l, e) \<Rightarrow> ((listidx, j) # l, e))"
  by pat_completeness auto
termination
  by (relation "measure (\<lambda>(n, b, i, e). n - i)")
    (auto intro!: diff_less_mono2 less_le_trans [OF _ first_clear_ge])

definition note_last_seq :: "seqno \<Rightarrow> proxy_writer \<Rightarrow> proxy_writer" where
  "note_last_seq lastseq p =
    (if lastseq > pw_last_seq p then p\<lparr>pw_last_seq := lastseq, pw_last_fragnum := UINT32_MAX\<rparr> else p)"

definition handle_Gap ::
    "(nn_rsample_chain_elem \<Rightarrow> bool) \<Rightarrow> bool \<Rightarrow> ddsi_guid \<Rightarrow> seqno \<Rightarrow> seqno \<Rightarrow> nat \<Rightarrow> u32 list \<Rightarrow> rmsg_id \<Rightarrow> reception \<Rightarrow> reception" where
  "handle_Gap valid eclipse dst gapstart listbase numbits bits rmsg s =
    (case get_reader dst s of
       None \<Rightarrow> s
     | Some m \<Rightarrow>
         if \<not> pw_have_seen_heartbeat (rx_pwr s) \<and> rx_n_reliable_readers s > 0 \<and> eclipse then s
         else
           (let listidx = first_clear numbits bits 0;
                (gap, rc) = nn_rdata_newgap rmsg (rx_rc s);
                (runs, excl) = gap_runs numbits bits listidx listidx;
                gaps = (if gapstart < listbase + listidx then [(gapstart, listbase + listidx)] else [])
                       @ map (\<lambda>(i, j). (listbase + i, listbase + j)) runs;
                (s, adj) = fold (\<lambda>(a, b). handle_one_gap valid dst a b gap) gaps (s\<lparr>rx_rc := rc\<rparr>, 0);
                s = s\<lparr>rx_rc := nn_fragchain_adjust_refcount [gap] adj (rx_rc s)\<rparr>;
                lastseq = listbase + excl - 1;
                s = upd_pwr (note_last_seq lastseq) s
            in if rm_filtered (mr_match m)
               then upd_match dst (note_match_seq lastseq) s
               else s))"

section \<open>Heartbeats\<close>

text \<open>Prefix and entity id of a GUID; zero means any.\<close>

definition handle_forall_destinations :: "ddsi_guid \<Rightarrow> ddsi_guid \<Rightarrow> bool" where
  "handle_forall_destinations dst g \<longleftrightarrow>
    (list_all (\<lambda>b. b = 0) (take 12 dst) \<or> take 12 g = take 12 dst)
    \<and> (list_all (\<lambda>b. b = 0) (drop 12 dst) \<or> drop 12 g = drop 12 dst)"

text \<open>The loop over the readers that are not in sync, for a heartbeat \<open>[firstseq,lastseq]\<close>.\<close>

fun heartbeat_readers ::
    "(nn_rsample_chain_elem \<Rightarrow> bool) \<Rightarrow> seqno \<Rightarrow> seqno \<Rightarrow> nn_rdata \<Rightarrow> ddsi_guid list \<Rightarrow> reception \<times> int \<Rightarrow> reception \<times> int" where
  "heartbeat_readers valid firstseq lastseq gap [] st = st"
| "heartbeat_readers valid firstseq lastseq gap (g # gs) (s, adj) =
    heartbeat_readers valid firstseq lastseq gap gs
      (case get_reader g s of
         None \<Rightarrow> (s, adj)
       | Some m \<Rightarrow>
           if sync_state m = PRMSS_SYNC then (s, adj)
           else
             (let s = (if mr_end_of_tl_seq m = MAX_SEQ_NUMBER then upd_reader g (\<lambda>m. m\<lparr>mr_end_of_tl_seq := lastseq\<rparr>) s else s)
              in if sync_state m = PRMSS_TLCATCHUP
                 then (maybe_set_reader_in_sync g (nn_reorder_next_seq (pw_reorder (rx_pwr s)) - 1) s, adj)
                 else
                   (let (s, adj) = reader_gap (deliver_one valid) g 1 firstseq gap (s, adj)
                    in (maybe_set_reader_in_sync g
                          ((case get_reader g s of None \<Rightarrow> 0 | Some m \<Rightarrow> nn_reorder_next_seq (rm_reorder (mr_match m))) - 1) s,
                        adj))))"

definition heartbeat_acknack ::
    "ack_config \<Rightarrow> add_AckNack_info \<Rightarrow> ddsi_guid \<Rightarrow> u32 \<Rightarrow> bool \<Rightarrow> bool \<Rightarrow> int \<Rightarrow> int \<Rightarrow> reception \<Rightarrow> reception" where
  "heartbeat_acknack cfg info0 dst hb_count final directed tnow tnow_mt s =
    s\<lparr>rx_readers := map (\<lambda>(g, m).
        (g, case mr_acknack_xevent m of
              None \<Rightarrow> m
            | Some ev \<Rightarrow>
                if handle_forall_destinations dst g
                then (case handle_Heartbeat_helper cfg (rx_pwr s) info0 hb_count final directed tnow tnow_mt (mr_match m) ev of
                        (m', ev') \<Rightarrow> m\<lparr>mr_match := m', mr_acknack_xevent := Some ev'\<rparr>)
                else m)) (rx_readers s)\<rparr>"

definition handle_Heartbeat ::
    "(nn_rsample_chain_elem \<Rightarrow> bool) \<Rightarrow> ack_config \<Rightarrow> add_AckNack_info \<Rightarrow> ddsi_guid \<Rightarrow> seqno \<Rightarrow> seqno \<Rightarrow> u32 \<Rightarrow> bool \<Rightarrow> bool
       \<Rightarrow> int \<Rightarrow> int \<Rightarrow> rmsg_id \<Rightarrow> reception \<Rightarrow> reception" where
  "handle_Heartbeat valid cfg info0 dst firstseq lastseq hb_count final directed tnow tnow_mt rmsg s =
    (if rx_n_reliable_readers s = 0 then s
     else
       (let gap_end_seq = (if pw_have_seen_heartbeat (rx_pwr s) then firstseq else lastseq + 1);
            s = upd_pwr (\<lambda>p. p\<lparr>pw_have_seen_heartbeat := True\<rparr>) s;
            s = upd_pwr (\<lambda>p. if lastseq > pw_last_seq p then p\<lparr>pw_last_seq := lastseq, pw_last_fragnum := UINT32_MAX\<rparr>
                             else if pw_last_fragnum p \<noteq> UINT32_MAX \<and> lastseq = pw_last_seq p
                             then p\<lparr>pw_last_fragnum := UINT32_MAX\<rparr> else p) s;
            s = defrag_gap 1 gap_end_seq s;
            (gap, rc) = nn_rdata_newgap rmsg (rx_rc s);
            s = s\<lparr>rx_rc := rc\<rparr>;
            (s, adj) =
              (if addressed_reader dst s
               then (let (s, adj) = reader_gap enqueue_one dst 1 firstseq gap (s, 0)
                     in (upd_match dst (note_match_seq lastseq) s, adj))
               else heartbeat_readers valid firstseq lastseq gap (map fst (rx_readers s))
                      (primary_gap valid 1 gap_end_seq gap (s, 0)));
            s = s\<lparr>rx_rc := nn_fragchain_adjust_refcount [gap] adj (rx_rc s)\<rparr>
        in heartbeat_acknack cfg info0 dst hb_count final directed tnow tnow_mt s))"

section \<open>Connecting and disconnecting readers\<close>

text \<open>What is known of the reader, and the configuration.\<close>

record reader_info =
  ri_guid :: ddsi_guid
  ri_handle_as_transient_local :: bool
  ri_reliable :: bool
  ri_builtin :: bool
  ri_volatile_secure :: bool

record reorder_config =
  rcf_primary_reorder_maxsamples :: nat
  rcf_secondary_reorder_maxsamples :: nat
  rcf_late_ack_mode :: bool
  rcf_preemptive_ack_delay :: int

definition new_match :: "u32 \<Rightarrow> int \<Rightarrow> pwr_rd_match" where
  "new_match init_count tcreate =
    \<lparr>rm_count = init_count, rm_prev_heartbeat = 0, rm_hb_timestamp = 0, rm_tcreate = tcreate, rm_t_heartbeat_accepted = 0,
     rm_t_last_nack = 0, rm_t_last_ack = 0, rm_last_seq = 0,
     rm_last_nack = \<lparr>seq_end_p1 = 0, seq_base = 0, frag_end_p1 = 0, frag_base = 0\<rparr>, rm_in_sync = PRMSS_SYNC,
     rm_ack_requested = False, rm_heartbeat_since_ack = False, rm_heartbeatfrag_since_ack = False,
     rm_directed_heartbeat = False, rm_nack_sent_on_nackdelay = False, rm_filtered = False,
     rm_reorder = nn_reorder_new NN_REORDER_MODE_NORMAL 0 False\<rparr>"

text \<open>The state a reader starts in, and the end of the historical data.\<close>

definition initial_sync :: "bool \<Rightarrow> bool \<Rightarrow> reader_info \<Rightarrow> reception \<Rightarrow> pwr_rd_match_syncstate \<times> seqno" where
  "initial_sync eclipse use_iceoryx rd s =
    (if ri_builtin rd \<and> rx_readers s \<noteq> [] \<and> \<not> rx_filtered s then (PRMSS_SYNC, 0)
     else if use_iceoryx then (PRMSS_SYNC, 0)
     else if \<not> pw_have_seen_heartbeat (rx_pwr s) \<or> \<not> ri_handle_as_transient_local rd
     then (if ri_handle_as_transient_local rd then PRMSS_OUT_OF_SYNC
           else if eclipse then PRMSS_OUT_OF_SYNC else PRMSS_SYNC, MAX_SEQ_NUMBER)
     else (PRMSS_OUT_OF_SYNC, pw_last_seq (rx_pwr s)))"

definition proxy_writer_add_connection ::
    "reorder_config \<Rightarrow> bool \<Rightarrow> bool \<Rightarrow> reader_info \<Rightarrow> int \<Rightarrow> int \<Rightarrow> u32 \<Rightarrow> reception \<Rightarrow> reception" where
  "proxy_writer_add_connection cfg eclipse use_iceoryx rd tcreate tnow init_count s =
    (if get_reader (ri_guid rd) s \<noteq> None then s
     else
       (let (sync, end_of_tl_seq) = initial_sync eclipse use_iceoryx rd s;
            s = (if sync \<noteq> PRMSS_SYNC
                 then s\<lparr>rx_n_readers_out_of_sync := rx_n_readers_out_of_sync s + 1, rx_fastpath_ok := False\<rparr> else s);
            tsched = (if use_iceoryx then DDS_NEVER else ddsrt_mtime_add_duration tnow (rcf_preemptive_ack_delay cfg));
            maxs = (if ri_volatile_secure rd then rcf_primary_reorder_maxsamples cfg else rcf_secondary_reorder_maxsamples cfg);
            m = (new_match init_count tcreate)\<lparr>rm_in_sync := sync\<rparr>;
            (s, m, ev) =
              (if ri_reliable rd
               then (s\<lparr>rx_n_reliable_readers := rx_n_reliable_readers s + 1\<rparr>,
                     m\<lparr>rm_filtered := ri_volatile_secure rd,
                       rm_reorder := nn_reorder_new NN_REORDER_MODE_NORMAL maxs (rcf_late_ack_mode cfg)\<rparr>, Some tsched)
               else (s, m\<lparr>rm_reorder := nn_reorder_new NN_REORDER_MODE_MONOTONICALLY_INCREASING
                            (rcf_secondary_reorder_maxsamples cfg) (rcf_late_ack_mode cfg)\<rparr>, None))
        in s\<lparr>rx_readers := idx_insert fst
               (ri_guid rd, \<lparr>mr_match = m, mr_end_of_tl_seq = end_of_tl_seq, mr_acknack_xevent = ev\<rparr>) (rx_readers s)\<rparr>))"

text \<open>The argument \<open>isreliable\<close> is the reliability of the writer.\<close>

definition proxy_writer_drop_connection :: "bool \<Rightarrow> ddsi_guid \<Rightarrow> bool \<Rightarrow> reception \<Rightarrow> reception" where
  "proxy_writer_drop_connection isreliable g reliable s =
    (case get_reader g s of
       None \<Rightarrow> s
     | Some m \<Rightarrow>
         (let s = s\<lparr>rx_readers := idx_delete fst g (rx_readers s)\<rparr>;
              s = (if sync_state m \<noteq> PRMSS_SYNC
                   then (let n = rx_n_readers_out_of_sync s - 1;
                             s = s\<lparr>rx_n_readers_out_of_sync := n\<rparr>
                         in if n = 0 then s\<lparr>rx_fastpath_ok := True\<rparr> else s)
                   else s);
              s = (if reliable then s\<lparr>rx_n_reliable_readers := rx_n_reliable_readers s - 1\<rparr> else s);
              s = (if rx_n_reliable_readers s = 0 \<and> isreliable \<and> pw_have_seen_heartbeat (rx_pwr s)
                   then (let s = defrag_gap 1 (pw_last_seq (rx_pwr s) + 1)
                                   (upd_pwr (\<lambda>p. p\<lparr>pw_have_seen_heartbeat := False\<rparr>) s);
                             (r, rc) = nn_reorder_drop_upto (pw_reorder (rx_pwr s)) (pw_last_seq (rx_pwr s) + 1) (rx_rc s)
                         in (upd_pwr (\<lambda>p. p\<lparr>pw_reorder := r\<rparr>) s)\<lparr>rx_rc := rc\<rparr>)
                   else s);
              s = (if rm_filtered (mr_match m)
                   then (let (d, rc) = nn_defrag_prune (pw_defrag (rx_pwr s)) (take 12 g) (rm_last_seq (mr_match m)) (rx_rc s)
                         in (upd_pwr (\<lambda>p. p\<lparr>pw_defrag := d\<rparr>) s)\<lparr>rx_rc := rc\<rparr>)
                   else s)
          in s\<lparr>rx_rc := nn_reorder_free (rm_reorder (mr_match m)) (rx_rc s)\<rparr>))"

section \<open>The delivery thread\<close>

definition rx_take :: "reception \<Rightarrow> reception" where
  "rx_take s =
    (case dqueue_take (pw_dqueue (rx_pwr s)) (rx_thread s) of
       (q, th) \<Rightarrow> (upd_pwr (\<lambda>p. p\<lparr>pw_dqueue := q\<rparr>) s)\<lparr>rx_thread := th\<rparr>)"

fun rx_calls :: "(nn_rsample_chain_elem \<Rightarrow> bool) \<Rightarrow> dq_out list \<Rightarrow> reception \<Rightarrow> reception" where
  "rx_calls valid [] s = s"
| "rx_calls valid (Handler_call rdguid e # cs) s = rx_calls valid cs (deliver_user_data valid e rdguid s)"
| "rx_calls valid (Callback_call cb # cs) s = rx_calls valid cs s"

definition rx_process :: "(nn_rsample_chain_elem \<Rightarrow> bool) \<Rightarrow> reception \<Rightarrow> reception" where
  "rx_process valid s =
    (case dqueue_process (pw_dqueue (rx_pwr s)) (rx_thread s) (rx_rc s) of
       (q, th, rc, out) \<Rightarrow>
         rx_calls valid out ((upd_pwr (\<lambda>p. p\<lparr>pw_dqueue := q\<rparr>) s)\<lparr>rx_thread := th, rx_rc := rc\<rparr>))"

section \<open>A new proxy writer\<close>

definition get_proxy_writer_reorder_mode :: "bool \<Rightarrow> bool \<Rightarrow> nn_reorder_mode" where
  "get_proxy_writer_reorder_mode stateless isreliable =
    (if isreliable then NN_REORDER_MODE_NORMAL
     else if stateless then NN_REORDER_MODE_ALWAYS_DELIVER else NN_REORDER_MODE_MONOTONICALLY_INCREASING)"

definition new_proxy_writer :: "reorder_config \<Rightarrow> bool \<Rightarrow> bool \<Rightarrow> bool \<Rightarrow> bool \<Rightarrow> bool \<Rightarrow> nat \<Rightarrow> nat \<Rightarrow> refcounts \<Rightarrow> reception" where
  "new_proxy_writer cfg isreliable builtin stateless volatile_secure synchronous defrag_maxsamples dqueue_maxsamples rc =
    \<lparr>rx_pwr =
       \<lparr>pw_reorder =
          (let r = nn_reorder_new (get_proxy_writer_reorder_mode stateless isreliable)
                     (rcf_primary_reorder_maxsamples cfg) (rcf_late_ack_mode cfg)
           in if volatile_secure then nn_reorder_set_next_seq r MAX_SEQ_NUMBER else r),
        pw_defrag = nn_defrag_new (if isreliable then NN_DEFRAG_DROP_LATEST else NN_DEFRAG_DROP_OLDEST) defrag_maxsamples,
        pw_dqueue = nn_dqueue_new dqueue_maxsamples, pw_last_seq = 0, pw_last_fragnum = UINT32_MAX,
        pw_next_deliv_seq_lowword = 1, pw_nackfragcount = 1, pw_have_seen_heartbeat = \<not> isreliable\<rparr>,
     rx_readers = [], rx_n_reliable_readers = 0, rx_n_readers_out_of_sync = 0, rx_deliver_synchronously = (if builtin \<or> volatile_secure then False else synchronous),
     rx_local_matching_inprogress = True, rx_filtered = volatile_secure, rx_fastpath_ok = True,
     rx_thread = dqueue_thread_init, rx_rc = rc, rx_out = []\<rparr>"

text \<open>Matching with the local readers, while data is ignored, is done.\<close>

definition local_matching_done :: "reception \<Rightarrow> reception" where
  "local_matching_done s = s\<lparr>rx_local_matching_inprogress := False\<rparr>"

end
