(* ===== verification/Receive_Inv.thy ===== *)
theory Receive_Inv
  imports Receive Defrag_Props Reorder_Props
begin

text \<open>
  The invariant of reception: the invariants of the defragmenter and of all reorder administrations,
  the count of readers that are not in sync, the order of what goes to the handler on each channel
  (all readers in sync, or one reader), that all of it is complete, and the account of references
  over all the places a fragment can be in. Each operation keeps it.
\<close>

section \<open>One call of an administration\<close>

text \<open>A complete sample, or a gap.\<close>

definition whole_elem :: "nn_rsample_chain_elem \<Rightarrow> bool" where
  "whole_elem e \<longleftrightarrow> (case ce_sampleinfo e of None \<Rightarrow> True
     | Some si \<Rightarrow> \<exists>q. frags_reach 0 (ce_fragchain e) = Some q \<and> si_size si \<le> q)"

definition ro_refs :: "rmsg_id \<Rightarrow> nn_reorder \<Rightarrow> int" where
  "ro_refs m r = chain_refs m (ivs_chain (ro_ivs r))"

definition ro_good :: "nn_reorder \<Rightarrow> bool" where
  "ro_good r \<longleftrightarrow> ro_inv r \<and> (\<forall>e \<in> set (ivs_chain (ro_ivs r)). whole_elem e)"

text \<open>
  What a call does: \<open>adj\<close> references per rdata of the fragment chain \<open>frags\<close> were added, \<open>sc\<close> left the
  administration.
\<close>

definition ro_called ::
    "nn_reorder \<Rightarrow> refcounts \<Rightarrow> nn_rdata list \<Rightarrow> int \<Rightarrow> nn_reorder_result \<times> nn_rsample_chain_elem list \<times> nn_reorder \<times> int \<times> refcounts \<Rightarrow> bool" where
  "ro_called r rc frags adj out \<longleftrightarrow> (case out of (res, sc, r', adj', rc') \<Rightarrow>
     ro_good r' \<and> ro_mode r' = ro_mode r
     \<and> (res > 0 \<longleftrightarrow> sc \<noteq> []) \<and> (res > 0 \<longrightarrow> res = int (length sc)) \<and> (\<forall>e \<in> set sc. whole_elem e)
     \<and> (ro_mode r \<noteq> NN_REORDER_MODE_ALWAYS_DELIVER \<longrightarrow> chain_ok (ro_next_seq r) sc (ro_next_seq r'))
     \<and> (\<forall>m. rc' m = rc m + chain_refs m sc + ro_refs m r' - ro_refs m r - (adj' - adj) * frag_refs m frags))"

lemma kept_whole:
  assumes k: "ro_kept new r rc r' rc'" and w: "\<forall>e \<in> set new. whole_elem e" "\<forall>e \<in> set (ivs_chain (ro_ivs r)). whole_elem e"
  shows "\<forall>e \<in> set (ivs_chain (ro_ivs r')). whole_elem e"
proof -
  have "set_mset (mset (ivs_chain (ro_ivs r'))) \<subseteq> set_mset (mset new + mset (ivs_chain (ro_ivs r)))"
  proof (cases "ro_n_samples r < ro_max_samples r")
    case True
    then show ?thesis using k by (simp add: ro_kept_def)
  next
    case False
    then obtain e where "add_mset e (mset (ivs_chain (ro_ivs r'))) = mset new + mset (ivs_chain (ro_ivs r))"
      using k by (auto simp: ro_kept_def)
    then show ?thesis by (metis set_mset_add_mset_insert subset_insertI)
  qed
  then show ?thesis using w by auto
qed

lemma rsample_called:
  assumes good: "ro_good r" and w: "\<forall>e \<in> set (riv_sc s). whole_elem e" and s: "s = singleton_rsample frags si"
  shows "ro_called r rc frags adj (nn_reorder_rsample r s adj full rc)"
proof -
  obtain res sc r' adj' rc' where n: "nn_reorder_rsample r s adj full rc = (res, sc, r', adj', rc')" by (metis prod_cases5)
  have inv: "ro_inv r" and wr: "\<forall>e \<in> set (ivs_chain (ro_ivs r)). whole_elem e" using good by (auto simp: ro_good_def)
  have "singleton_iv s" using s by simp
  note out = rsample_outcomes [OF inv this, of adj rc full, unfolded n rsample_outcome_def prod.case]
  have f: "chain_refs m (riv_sc s) = frag_refs m frags" for m by (simp add: s singleton_rsample_def)
  consider (rej) "res = NN_REORDER_REJECT \<or> res = NN_REORDER_TOO_OLD" "sc = []" "adj' = adj" "rc' = rc" "ro_same r r'"
    | (acc) "res = NN_REORDER_ACCEPT" "sc = []" "adj' = adj + 1" "ro_kept (riv_sc s) r rc r' rc'"
    | (del) "res = int (length sc)" "sc \<noteq> []" "adj' = adj + 1" "rc' = rc" "sc @ ivs_chain (ro_ivs r') = riv_sc s @ ivs_chain (ro_ivs r)"
        "ro_mode r \<noteq> NN_REORDER_MODE_ALWAYS_DELIVER \<longrightarrow> chain_ok (ro_next_seq r) sc (ro_next_seq r')"
    using out by blast
  then show ?thesis
  proof cases
    case rej
    then show ?thesis
      unfolding n ro_called_def prod.case using out wr ro_same_sel [OF rej(5)]
      by (auto simp: ro_good_def ro_refs_def reorder_results)
  next
    case acc
    have "ro_next_seq r' = ro_next_seq r" using acc(4) by (simp add: ro_kept_def)
    moreover have "rc' m = rc m + ro_refs m r' - ro_refs m r - frag_refs m frags" for m
      using ro_kept_refs [OF acc(4), of m] f [of m] by (simp add: ro_refs_def)
    ultimately show ?thesis
      unfolding n ro_called_def prod.case using out acc(1-3) kept_whole [OF acc(4) w wr]
      by (simp add: ro_good_def reorder_results)
  next
    case del
    have "set sc \<union> set (ivs_chain (ro_ivs r')) = set (riv_sc s) \<union> set (ivs_chain (ro_ivs r))"
      using arg_cong [OF del(5), of set] by simp
    moreover have "\<forall>m. rc' m = rc m + chain_refs m sc + ro_refs m r' - ro_refs m r - (adj' - adj) * frag_refs m frags"
    proof
      show "rc' m = rc m + chain_refs m sc + ro_refs m r' - ro_refs m r - (adj' - adj) * frag_refs m frags" for m
        using arg_cong [OF del(5), of "chain_refs m"] f [of m] del(3,4) by (simp add: ro_refs_def)
    qed
    ultimately show ?thesis
      unfolding n ro_called_def prod.case using out del(1-4,6) w wr
      by (auto simp: ro_good_def)
  qed
qed

lemma gap_called:
  assumes good: "ro_good r" and le: "mn < maxp1"
  shows "ro_called r rc [gap] adj (nn_reorder_gap r gap mn maxp1 adj rc)"
proof -
  obtain res sc r' adj' rc' where n: "nn_reorder_gap r gap mn maxp1 adj rc = (res, sc, r', adj', rc')" by (metis prod_cases5)
  have inv: "ro_inv r" and wr: "\<forall>e \<in> set (ivs_chain (ro_ivs r)). whole_elem e" using good by (auto simp: ro_good_def)
  note out = gap_outcomes [OF inv le, of gap adj rc, unfolded n gap_outcome_def prod.case]
  have wg: "\<forall>e \<in> set [gap_elem gap]. whole_elem e" by (simp add: gap_elem_def whole_elem_def)
  consider (same) "res \<le> 0" "sc = []" "adj' = adj" "rc' = rc" "ivs_chain (ro_ivs r') = ivs_chain (ro_ivs r)"
      "ro_next_seq r \<le> ro_next_seq r'"
    | (acc) "res = NN_REORDER_ACCEPT" "sc = []" "adj' = adj + 1" "ro_kept [gap_elem gap] r rc r' rc'"
    | (del) "res = int (length sc)" "sc \<noteq> []" "adj' = adj" "rc' = rc"
        "sc @ ivs_chain (ro_ivs r') = ivs_chain (ro_ivs r)" "chain_ok (ro_next_seq r) sc (ro_next_seq r')"
    using out by (auto simp: reorder_results)
  then show ?thesis
  proof cases
    case same
    then show ?thesis
      unfolding n ro_called_def prod.case using out wr by (auto simp: ro_good_def ro_refs_def)
  next
    case acc
    have "ro_next_seq r' = ro_next_seq r" using acc(4) by (simp add: ro_kept_def)
    moreover have "rc' m = rc m + ro_refs m r' - ro_refs m r - frag_refs m [gap]" for m
      using ro_kept_refs [OF acc(4), of m] by (simp add: ro_refs_def gap_elem_def)
    ultimately show ?thesis
      unfolding n ro_called_def prod.case using out acc(1-3) kept_whole [OF acc(4) wg wr]
      by (simp add: ro_good_def reorder_results)
  next
    case del
    have "set sc \<union> set (ivs_chain (ro_ivs r')) = set (ivs_chain (ro_ivs r))"
      using arg_cong [OF del(5), of set] by simp
    moreover have "\<forall>m. rc' m = rc m + chain_refs m sc + ro_refs m r' - ro_refs m r - (adj' - adj) * frag_refs m [gap]"
    proof
      show "rc' m = rc m + chain_refs m sc + ro_refs m r' - ro_refs m r - (adj' - adj) * frag_refs m [gap]" for m
        using arg_cong [OF del(5), of "chain_refs m"] del(3,4) by (simp add: ro_refs_def)
    qed
    ultimately show ?thesis
      unfolding n ro_called_def prod.case using out del(1-4,6) wr by (auto simp: ro_good_def)
  qed
qed

section \<open>What goes to the handler\<close>

definition pend :: "reception \<Rightarrow> dq_elem list" where
  "pend s = th_sc (rx_thread s) @ dq_sc (pw_dqueue (rx_pwr s))"

definition elem_refs :: "rmsg_id \<Rightarrow> dq_elem \<Rightarrow> int" where
  "elem_refs m e = (case e of Sample_elem c \<Rightarrow> frag_refs m (ce_fragchain c) | _ \<Rightarrow> 0)"

definition pend_refs :: "rmsg_id \<Rightarrow> dq_elem list \<Rightarrow> int" where
  "pend_refs m es = (\<Sum>e\<leftarrow>es. elem_refs m e)"

fun handler_calls :: "dq_out list \<Rightarrow> (ddsi_guid option \<times> nn_rsample_chain_elem) list" where
  "handler_calls [] = []"
| "handler_calls (Handler_call g e # os) = (g, e) # handler_calls os"
| "handler_calls (Callback_call cb # os) = handler_calls os"

lemma handler_calls_simps [simp]:
  "handler_calls (xs @ ys) = handler_calls xs @ handler_calls ys"
  "handler_calls (map (Handler_call g) es) = map (Pair g) es"
  by (induction xs rule: handler_calls.induct; simp) (induction es; simp)

text \<open>The thread when it has handled everything that waits, and the calls: done and still to come.\<close>

definition settled :: "reception \<Rightarrow> dq_thread \<times> refcounts \<times> dq_out list" where
  "settled s = dq_handle_all (pend s) ((rx_thread s)\<lparr>th_sc := []\<rparr>) (\<lambda>_. 0)"

definition idle :: "reception \<Rightarrow> bool" where
  "idle s \<longleftrightarrow> th_rdguid (fst (settled s)) = None \<and> th_rdguid_count (fst (settled s)) = 0"

definition calls :: "reception \<Rightarrow> (ddsi_guid option \<times> nn_rsample_chain_elem) list" where
  "calls s = map (\<lambda>d. (dl_rdguid d, dl_elem d)) (rx_out s) @ handler_calls (snd (snd (settled s)))"

lemma handle_rc:
  "dqueue_handle e th rc = (th', rc', o1) \<Longrightarrow> dqueue_handle e th rc2 = (th', \<lambda>m. rc2 m - elem_refs m e, o1)"
  by (cases e) (auto simp: dqueue_handle_def elem_refs_def fragchain_unref_count fun_eq_iff Let_def)

lemma handle_all_rc:
  "dq_handle_all es th rc = (th', rc', o1) \<Longrightarrow> dq_handle_all es th rc2 = (th', \<lambda>m. rc2 m - pend_refs m es, o1)"
proof (induction es arbitrary: th rc rc2 o1)
  case Nil
  then show ?case by (simp add: pend_refs_def)
next
  case (Cons e es)
  obtain th1 rc1 p1 where h: "dqueue_handle e th rc = (th1, rc1, p1)" by (rule prod_cases3)
  obtain p2 where r: "dq_handle_all es th1 rc1 = (th', rc', p2)" "o1 = p1 @ p2"
    using Cons.prems h by (auto split: prod.splits)
  show ?case using Cons.IH [OF r(1), of "\<lambda>m. rc2 m - elem_refs m e"] handle_rc [OF h, of rc2] r(2)
    by (simp add: pend_refs_def algebra_simps)
qed

lemma pend_refs_simps [simp]:
  "pend_refs m [] = 0" "pend_refs m (e # es) = elem_refs m e + pend_refs m es"
  "pend_refs m (xs @ ys) = pend_refs m xs + pend_refs m ys"
  "elem_refs m (Sample_elem c) = frag_refs m (ce_fragchain c)" "elem_refs m (Bubble_rdguid g n) = 0"
  by (simp_all add: pend_refs_def elem_refs_def)

lemma pend_refs_chain [simp]: "pend_refs m (map Sample_elem sc) = chain_refs m sc"
  by (induction sc) auto

section \<open>Delivery\<close>

definition same_but_delivery :: "reception \<Rightarrow> reception \<Rightarrow> bool" where
  "same_but_delivery s s' \<longleftrightarrow> rx_readers s' = rx_readers s \<and> rx_n_reliable_readers s' = rx_n_reliable_readers s
     \<and> rx_n_readers_out_of_sync s' = rx_n_readers_out_of_sync s \<and> rx_deliver_synchronously s' = rx_deliver_synchronously s
     \<and> rx_filtered s' = rx_filtered s \<and> rx_fastpath_ok s' = rx_fastpath_ok s
     \<and> pw_reorder (rx_pwr s') = pw_reorder (rx_pwr s) \<and> pw_defrag (rx_pwr s') = pw_defrag (rx_pwr s)
     \<and> pw_have_seen_heartbeat (rx_pwr s') = pw_have_seen_heartbeat (rx_pwr s)
     \<and> pw_last_seq (rx_pwr s') = pw_last_seq (rx_pwr s)"

definition delivered :: "ddsi_guid option \<Rightarrow> nn_rsample_chain_elem list \<Rightarrow> reception \<Rightarrow> reception \<Rightarrow> bool" where
  "delivered c sc s s' \<longleftrightarrow> same_but_delivery s s' \<and> calls s' = calls s @ map (Pair c) (data_elems sc) \<and> idle s'
     \<and> (rx_deliver_synchronously s \<longrightarrow> pend s' = [])
     \<and> (\<forall>m. rx_rc s' m - pend_refs m (pend s') = rx_rc s m - pend_refs m (pend s) - chain_refs m sc)"

lemma deliver_user_data_frame:
  "same_but_delivery s (deliver_user_data valid e c s)" "pend (deliver_user_data valid e c s) = pend s"
  "rx_rc (deliver_user_data valid e c s) = rx_rc s" "rx_thread (deliver_user_data valid e c s) = rx_thread s"
  "map (\<lambda>d. (dl_rdguid d, dl_elem d)) (rx_out (deliver_user_data valid e c s)) =
     map (\<lambda>d. (dl_rdguid d, dl_elem d)) (rx_out s) @ map (Pair c) (data_elems [e])"
  by (auto simp: deliver_user_data_def upd_pwr_def same_but_delivery_def pend_def data_elems_def split: option.splits)

lemma same_but_delivery_trans:
  "same_but_delivery s s1 \<Longrightarrow> same_but_delivery s1 s2 \<Longrightarrow> same_but_delivery s s2"
  by (simp add: same_but_delivery_def)

lemma sync_delivered:
  assumes "pend s = []"
  shows "same_but_delivery s (deliver_user_data_synchronously valid sc c s)
    \<and> pend (deliver_user_data_synchronously valid sc c s) = []
    \<and> rx_thread (deliver_user_data_synchronously valid sc c s) = rx_thread s
    \<and> map (\<lambda>d. (dl_rdguid d, dl_elem d)) (rx_out (deliver_user_data_synchronously valid sc c s)) =
        map (\<lambda>d. (dl_rdguid d, dl_elem d)) (rx_out s) @ map (Pair c) (data_elems sc)
    \<and> (\<forall>m. rx_rc (deliver_user_data_synchronously valid sc c s) m = rx_rc s m - chain_refs m sc)"
  using assms
proof (induction sc arbitrary: s)
  case Nil
  then show ?case by (simp add: same_but_delivery_def data_elems_def)
next
  case (Cons e sc)
  let ?s1 = "deliver_user_data valid e c s"
  let ?s2 = "?s1\<lparr>rx_rc := nn_fragchain_unref (ce_fragchain e) (rx_rc ?s1)\<rparr>"
  have p: "pend ?s2 = []" using deliver_user_data_frame(2) [of valid e c s] Cons.prems by (simp add: pend_def)
  have "same_but_delivery s ?s2"
    using deliver_user_data_frame(1) [of s valid e c] by (simp add: same_but_delivery_def)
  moreover have "map (Pair c) (data_elems [e]) @ map (Pair c) (data_elems sc) = map (Pair c) (data_elems (e # sc))"
    by (simp add: data_elems_def)
  ultimately show ?case
    using Cons.IH [OF p] same_but_delivery_trans
    by (auto simp: deliver_user_data_frame(3-5) fragchain_unref_count Let_def)
qed

lemma settled_enqueued:
  assumes i: "idle s" and op: "dq_op_ok op" and p: "pend s' = pend s @ dq_op_elems op" and th: "rx_thread s' = rx_thread s"
  shows "idle s' \<and> handler_calls (snd (snd (settled s'))) = handler_calls (snd (snd (settled s))) @ handler_calls (dq_op_out op)"
proof -
  obtain t rc outs where s: "settled s = (t, rc, outs)" by (rule prod_cases3)
  have t: "th_rdguid t = None" "th_rdguid_count t = 0" using i s by (simp_all add: idle_def)
  note s [unfolded settled_def]
  moreover note handle_op [OF t op, of rc]
  ultimately have "settled s' = (t\<lparr>th_keepgoing := op \<noteq> Stop \<and> th_keepgoing t\<rparr>, sample_chain_unref (dq_op_chain op) rc, outs @ dq_op_out op)"
    unfolding settled_def p th dq_handle_all_append by simp
  then show ?thesis using s t by (simp add: idle_def)
qed

lemma enqueued_delivered:
  assumes i: "idle s" and ne: "sc \<noteq> []" and ns: "\<not> rx_deliver_synchronously s" and op: "op = Enqueue sc \<and> c = None \<or> (\<exists>g. op = Enqueue1 g sc \<and> c = Some g)"
    and s': "s' = upd_pwr (\<lambda>p. p\<lparr>pw_dqueue := dq_op_apply op (pw_dqueue p)\<rparr>) s"
  shows "delivered c sc s s'"
proof -
  have p: "pend s' = pend s @ dq_op_elems op" by (simp add: s' pend_def upd_pwr_def dq_op_apply_elems)
  have o: "dq_op_ok op" "handler_calls (dq_op_out op) = map (Pair c) (data_elems sc)" "pend_refs m (dq_op_elems op) = chain_refs m sc" for m
    using op ne by auto
  have f: "rx_thread s' = rx_thread s" "rx_rc s' = rx_rc s" "rx_out s' = rx_out s" "same_but_delivery s s'"
    by (simp_all add: s' upd_pwr_def same_but_delivery_def)
  show ?thesis using settled_enqueued [OF i o(1) p f(1)] o f p ns by (simp add: delivered_def calls_def)
qed

lemma synchronous_delivered:
  assumes i: "idle s" and p: "pend s = []"
  shows "delivered c sc s (deliver_user_data_synchronously valid sc c s)"
proof -
  note d = sync_delivered [OF p, of valid sc c]
  then have "settled (deliver_user_data_synchronously valid sc c s) = settled s" using p by (simp add: settled_def)
  then show ?thesis using d i p by (simp add: delivered_def calls_def idle_def settled_def)
qed

definition deliverable :: "reception \<Rightarrow> bool" where
  "deliverable s \<longleftrightarrow> idle s \<and> (rx_deliver_synchronously s \<longrightarrow> pend s = [])"

lemma deliver_all_delivered:
  assumes "deliverable s" "sc \<noteq> []" "enq = nn_dqueue_enqueue \<or> enq = nn_dqueue_enqueue_deferred_wakeup"
  shows "delivered None sc s (deliver_all enq valid sc (int (length sc)) s)"
proof (cases "rx_deliver_synchronously s")
  case True
  then show ?thesis using assms synchronous_delivered by (simp add: deliver_all_def deliverable_def)
next
  case False
  have "snd (enq q sc (int (length sc))) = dq_op_apply (Enqueue sc) q" for q
    using assms(3) by (auto simp: nn_dqueue_enqueue_def nn_dqueue_enqueue_deferred_wakeup_def split_beta)
  then show ?thesis
    using assms(1,2) False by (intro enqueued_delivered [where op = "Enqueue sc"]) (simp_all add: deliver_all_def deliverable_def)
qed

lemma enqueue_one_delivered:
  assumes "deliverable s" "sc \<noteq> []" "\<not> rx_deliver_synchronously s"
  shows "delivered (Some g) sc s (enqueue_one g sc (int (length sc)) s)"
  using assms by (intro enqueued_delivered [where op = "Enqueue1 g sc"]) (simp_all add: enqueue_one_def deliverable_def)

lemma deliver_one_delivered:
  assumes "deliverable s" "sc \<noteq> []"
  shows "delivered (Some g) sc s (deliver_one valid g sc (int (length sc)) s)"
  using assms synchronous_delivered enqueue_one_delivered by (auto simp: deliver_one_def deliverable_def)

section \<open>The invariant\<close>

definition chan :: "ddsi_guid option \<Rightarrow> (ddsi_guid option \<times> nn_rsample_chain_elem) list \<Rightarrow> seqno list" where
  "chan c cs = chain_seqs (map snd (filter (\<lambda>x. fst x = c) cs))"

definition in_order :: "nn_reorder \<Rightarrow> seqno list \<Rightarrow> bool" where
  "in_order r qs \<longleftrightarrow> sorted_wrt (<) qs \<and> (\<forall>q \<in> set qs. q < ro_next_seq r)"

definition reader_ok :: "(ddsi_guid option \<times> nn_rsample_chain_elem) list \<Rightarrow> ddsi_guid \<times> reader_match \<Rightarrow> bool" where
  "reader_ok cs = (\<lambda>(g, m). ro_good (rm_reorder (mr_match m)) \<and> ro_mode (rm_reorder (mr_match m)) \<noteq> NN_REORDER_MODE_ALWAYS_DELIVER
     \<and> in_order (rm_reorder (mr_match m)) (chan (Some g) cs))"

definition readers_refs :: "rmsg_id \<Rightarrow> (ddsi_guid \<times> reader_match) list \<Rightarrow> int" where
  "readers_refs m rs = (\<Sum>x\<leftarrow>rs. ro_refs m (rm_reorder (mr_match (snd x))))"

definition n_out_of_sync :: "(ddsi_guid \<times> reader_match) list \<Rightarrow> nat" where
  "n_out_of_sync rs = length (filter (\<lambda>x. sync_state (snd x) \<noteq> PRMSS_SYNC) rs)"

definition rx_refs :: "rmsg_id \<Rightarrow> reception \<Rightarrow> int" where
  "rx_refs m s = RMSG_REFCOUNT_RDATA_BIAS * dg_refs m (pw_defrag (rx_pwr s)) + ro_refs m (pw_reorder (rx_pwr s))
     + readers_refs m (rx_readers s) + pend_refs m (pend s)"

definition readers_ok :: "reception \<Rightarrow> bool" where
  "readers_ok s \<longleftrightarrow> idx_wf fst (rx_readers s) \<and> rx_n_readers_out_of_sync s = n_out_of_sync (rx_readers s)
     \<and> (rx_fastpath_ok s \<longleftrightarrow> rx_n_readers_out_of_sync s = 0)"

text \<open>
  With \<open>U\<close> the readers there have been, \<open>cs\<close> the calls, and references \<open>x\<close> held elsewhere (by a chain
  on its way to the handler).
\<close>

definition rx_good ::
    "ddsi_guid set \<Rightarrow> (rmsg_id \<Rightarrow> int) \<Rightarrow> (ddsi_guid option \<times> nn_rsample_chain_elem) list \<Rightarrow> (rmsg_id \<Rightarrow> int) \<Rightarrow> reception \<Rightarrow> bool" where
  "rx_good U K cs x s \<longleftrightarrow> dg_ok (pw_defrag (rx_pwr s)) \<and> 0 < dg_max_samples (pw_defrag (rx_pwr s)) \<and> ro_good (pw_reorder (rx_pwr s))
     \<and> (ro_mode (pw_reorder (rx_pwr s)) \<noteq> NN_REORDER_MODE_ALWAYS_DELIVER \<longrightarrow> in_order (pw_reorder (rx_pwr s)) (chan None cs))
     \<and> (\<forall>y \<in> set (rx_readers s). reader_ok cs y) \<and> (\<forall>g. sorted_wrt (<) (chan (Some g) cs))
     \<and> readers_ok s \<and> deliverable s \<and> (rx_filtered s \<longrightarrow> \<not> rx_deliver_synchronously s)
     \<and> (\<forall>y \<in> set cs. whole_elem (snd y)) \<and> fst ` set (rx_readers s) \<subseteq> U \<and> (\<forall>y \<in> set cs. fst y \<in> insert None (Some ` U))
     \<and> (\<forall>m. rx_rc s m = K m + rx_refs m s + x m)"

definition rx_inv :: "ddsi_guid set \<Rightarrow> (rmsg_id \<Rightarrow> int) \<Rightarrow> reception \<Rightarrow> bool" where
  "rx_inv U K s \<longleftrightarrow> rx_good U K (calls s) (\<lambda>_. 0) s"

lemma chan_append: "chan c (cs @ map (Pair c') (data_elems sc)) = chan c cs @ (if c' = c then chain_seqs sc else [])"
proof -
  have "chain_seqs (data_elems sc) = chain_seqs sc" by (induction sc) (auto simp: data_elems_def split: option.splits)
  then show ?thesis by (simp add: chan_def filter_map comp_def)
qed

lemma in_order_append:
  assumes "in_order r qs" "chain_ok (ro_next_seq r) sc (ro_next_seq r')"
  shows "in_order r' (qs @ chain_seqs sc)" "in_order r' qs"
proof -
  note c = chain_ok_seqs [OF assms(2)]
  have "ro_next_seq r \<le> ro_next_seq r'" using chain_ok_length [OF assms(2)] by simp
  then show "in_order r' (qs @ chain_seqs sc)" "in_order r' qs"
    using c assms(1) unfolding in_order_def sorted_wrt_append by (auto intro: less_le_trans order.strict_trans2)
qed

text \<open>Readers by GUID.\<close>

lemma get_reader_iff:
  assumes "readers_ok s"
  shows "get_reader g s = Some m \<longleftrightarrow> (g, m) \<in> set (rx_readers s)"
proof -
  have wf: "idx_wf fst (rx_readers s)" using assms by (simp add: readers_ok_def)
  show ?thesis
  proof
    assume "get_reader g s = Some m"
    then obtain x where x: "idx_lookup fst g (rx_readers s) = Some x" "snd x = m" by (auto simp: get_reader_def)
    then show "(g, m) \<in> set (rx_readers s)" using idx_lookup_SomeD [OF x(1)] by (cases x) auto
  next
    assume "(g, m) \<in> set (rx_readers s)"
    then show "get_reader g s = Some m" using idx_lookup_in [OF wf, of "(g, m)"] by (simp add: get_reader_def)
  qed
qed

lemma data_elems_whole: "\<forall>e \<in> set sc. whole_elem e \<Longrightarrow> \<forall>y \<in> set (map (Pair c) (data_elems sc)). whole_elem (snd y)"
  by (auto simp: data_elems_def)

lemma data_elems_chan: "c \<in> insert None (Some ` U) \<Longrightarrow> \<forall>y \<in> set (map (Pair c) (data_elems sc)). fst y \<in> insert None (Some ` U)"
  by auto

lemma delivered_good:
  assumes "rx_good U K (calls s1 @ map (Pair c) (data_elems sc)) (\<lambda>m. chain_refs m sc) s1" and d: "delivered c sc s1 s2"
  shows "rx_inv U K s2"
proof -
  have f: "same_but_delivery s1 s2" and c: "calls s2 = calls s1 @ map (Pair c) (data_elems sc)"
    and dl: "deliverable s2"
    using d by (auto simp: delivered_def deliverable_def same_but_delivery_def)
  have "rx_rc s2 m = K m + rx_refs m s2" for m
  proof -
    have "rx_rc s2 m - pend_refs m (pend s2) = rx_rc s1 m - pend_refs m (pend s1) - chain_refs m sc"
      using d by (simp add: delivered_def)
    moreover have "rx_refs m s2 - pend_refs m (pend s2) = rx_refs m s1 - pend_refs m (pend s1)"
      using f by (simp add: rx_refs_def same_but_delivery_def)
    moreover have "rx_rc s1 m = K m + rx_refs m s1 + chain_refs m sc" using assms(1) by (simp add: rx_good_def)
    ultimately show ?thesis by simp
  qed
  then show ?thesis
    using assms(1) dl f unfolding rx_inv_def rx_good_def c by (simp add: same_but_delivery_def readers_ok_def)
qed

lemma deliverable_cong:
  "rx_thread s' = rx_thread s \<Longrightarrow> pw_dqueue (rx_pwr s') = pw_dqueue (rx_pwr s) \<Longrightarrow>
   rx_deliver_synchronously s' = rx_deliver_synchronously s \<Longrightarrow> rx_out s' = rx_out s \<Longrightarrow>
   pend s' = pend s \<and> deliverable s' = deliverable s \<and> calls s' = calls s"
  by (simp add: pend_def deliverable_def idle_def settled_def calls_def)

lemma in_order_called:
  assumes "ro_called r rc frags adj (res, sc, r', adj', rc')" "ro_mode r \<noteq> NN_REORDER_MODE_ALWAYS_DELIVER" "in_order r qs"
  shows "in_order r' (qs @ chain_seqs sc)"
proof -
  have "chain_ok (ro_next_seq r) sc (ro_next_seq r')" using assms(1,2) by (simp add: ro_called_def)
  then show ?thesis using in_order_append(1) assms(3) by blast
qed

lemma primary_good:
  assumes inv: "rx_inv U K s" and c: "ro_called (pw_reorder (rx_pwr s)) (rx_rc s) frags adj (res, sc, r, adj', rc)"
    and s1: "s1 = (upd_pwr (\<lambda>p. p\<lparr>pw_reorder := r\<rparr>) s)\<lparr>rx_rc := rc\<rparr>"
  shows "rx_good U (\<lambda>m. K m - (adj' - adj) * frag_refs m frags) (calls s1 @ map (Pair None) (data_elems sc)) (\<lambda>m. chain_refs m sc) s1"
proof -
  have g: "rx_good U K (calls s) (\<lambda>_. 0) s" using inv by (simp add: rx_inv_def)
  have f: "rx_thread s1 = rx_thread s" "pw_dqueue (rx_pwr s1) = pw_dqueue (rx_pwr s)" "rx_out s1 = rx_out s"
    "rx_deliver_synchronously s1 = rx_deliver_synchronously s" "rx_readers s1 = rx_readers s"
    "pw_defrag (rx_pwr s1) = pw_defrag (rx_pwr s)" "pw_reorder (rx_pwr s1) = r" "rx_rc s1 = rc" "rx_filtered s1 = rx_filtered s"
    by (simp_all add: s1 upd_pwr_def)
  note dl = deliverable_cong [OF f(1,2,4,3)]
  have ok: "readers_ok s1" using g by (simp add: s1 upd_pwr_def readers_ok_def rx_good_def)
  have ro: "ro_good r" "ro_mode r = ro_mode (pw_reorder (rx_pwr s))" "\<forall>e \<in> set sc. whole_elem e"
    using c by (auto simp: ro_called_def)
  have "in_order r (chan None (calls s) @ chain_seqs sc)" if "ro_mode r \<noteq> NN_REORDER_MODE_ALWAYS_DELIVER"
    using that g ro(2) by (intro in_order_called [OF c]) (auto simp: rx_good_def)
  moreover have "rc m = K m - (adj' - adj) * frag_refs m frags + rx_refs m s1 + chain_refs m sc" for m
    using c g dl by (simp add: ro_called_def rx_good_def rx_refs_def f)
  moreover have "reader_ok (calls s @ map (Pair None) (data_elems sc)) y \<longleftrightarrow> reader_ok (calls s) y" for y
    by (cases y) (simp add: reader_ok_def chan_append)
  ultimately show ?thesis
    using g ok ro data_elems_whole [OF ro(3), of None] data_elems_chan [of None U sc] dl unfolding rx_good_def f chan_append
    by (simp only: set_append ball_Un simp_thms if_False if_True append_Nil2 option.distinct) simp
qed

lemma map_other: "g \<notin> fst ` set xs \<Longrightarrow> map (\<lambda>(h, m). if h = g then (h, f m) else (h, m)) xs = xs"
  by (induction xs) auto

lemma reader_split:
  assumes ok: "readers_ok s" and m: "get_reader g s = Some m"
  obtains l rr where "rx_readers s = l @ (g, m) # rr" "rx_readers (upd_reader g f s) = l @ (g, f m) # rr"
    "\<forall>x \<in> set l \<union> set rr. fst x \<noteq> g"
proof -
  have wf: "idx_wf fst (rx_readers s)" using ok by (simp add: readers_ok_def)
  obtain l rr where s: "rx_readers s = l @ (g, m) # rr"
    using m get_reader_iff [OF ok] split_list by metis
  have ne: "\<forall>x \<in> set l \<union> set rr. fst x \<noteq> g"
    using wf unfolding s idx_wf_append by auto
  have "rx_readers (upd_reader g f s) = l @ (g, f m) # rr"
    using ne map_other [of g l f] map_other [of g rr f] by (force simp: upd_reader_def s)
  then show ?thesis using that s ne by blast
qed

lemma upd_reader_same:
  "rx_pwr (upd_reader g f s) = rx_pwr s" "rx_thread (upd_reader g f s) = rx_thread s" "rx_rc (upd_reader g f s) = rx_rc s"
  "rx_out (upd_reader g f s) = rx_out s" "rx_deliver_synchronously (upd_reader g f s) = rx_deliver_synchronously s"
  "rx_filtered (upd_reader g f s) = rx_filtered s" "rx_fastpath_ok (upd_reader g f s) = rx_fastpath_ok s"
  "rx_n_readers_out_of_sync (upd_reader g f s) = rx_n_readers_out_of_sync s"
  "rx_n_reliable_readers (upd_reader g f s) = rx_n_reliable_readers s"
  "map fst (rx_readers (upd_reader g f s)) = map fst (rx_readers s)"
  by (auto simp: upd_reader_def comp_def split_beta)

lemma idx_wf_keys: "map fst xs = map fst ys \<Longrightarrow> idx_wf fst xs = idx_wf fst ys"
  unfolding idx_wf_def by (simp flip: sorted_wrt_map)

lemma reader_good:
  assumes inv: "rx_inv U K s" and m: "get_reader g s = Some m"
    and c: "ro_called (rm_reorder (mr_match m)) (rx_rc s) frags adj (res, sc, r, adj', rc)"
    and s1: "s1 = (upd_match g (\<lambda>m. m\<lparr>rm_reorder := r\<rparr>) s)\<lparr>rx_rc := rc\<rparr>"
  shows "rx_good U (\<lambda>m. K m - (adj' - adj) * frag_refs m frags) (calls s1 @ map (Pair (Some g)) (data_elems sc)) (\<lambda>m. chain_refs m sc) s1"
proof -
  have good: "rx_good U K (calls s) (\<lambda>_. 0) s" using inv by (simp add: rx_inv_def)
  then have rok: "readers_ok s" by (simp add: rx_good_def)
  let ?f = "\<lambda>m. m\<lparr>mr_match := (mr_match m)\<lparr>rm_reorder := r\<rparr>\<rparr>"
  obtain l rr where rs: "rx_readers s = l @ (g, m) # rr" "rx_readers (upd_reader g ?f s) = l @ (g, ?f m) # rr"
    "\<forall>x \<in> set l \<union> set rr. fst x \<noteq> g" using rok m by (rule reader_split [of s g m ?f])
  have f: "rx_thread s1 = rx_thread s" "pw_dqueue (rx_pwr s1) = pw_dqueue (rx_pwr s)" "rx_out s1 = rx_out s"
    "rx_deliver_synchronously s1 = rx_deliver_synchronously s" "rx_readers s1 = l @ (g, ?f m) # rr"
    "pw_defrag (rx_pwr s1) = pw_defrag (rx_pwr s)" "pw_reorder (rx_pwr s1) = pw_reorder (rx_pwr s)" "rx_rc s1 = rc"
    "rx_filtered s1 = rx_filtered s"
    using rs(2) by (simp_all add: s1 upd_match_def upd_reader_same)
  note dl = deliverable_cong [OF f(1,2,4,3)]
  have ro: "ro_good r" "ro_mode r = ro_mode (rm_reorder (mr_match m))" "\<forall>e \<in> set sc. whole_elem e"
    using c by (auto simp: ro_called_def)
  have "readers_ok s1"
  proof -
    have "idx_wf fst (l @ (g, ?f m) # rr) = idx_wf fst (l @ (g, m) # rr)" by (rule idx_wf_keys) simp
    moreover have "n_out_of_sync (l @ (g, ?f m) # rr) = n_out_of_sync (l @ (g, m) # rr)" by (simp add: n_out_of_sync_def)
    ultimately show ?thesis
      using rok rs(1) f(5) by (simp add: readers_ok_def) (simp add: s1 upd_match_def upd_reader_same)
  qed
  moreover have rg: "reader_ok (calls s) (g, m)" using good rs(1) by (simp add: rx_good_def)
  then have io: "in_order r (chan (Some g) (calls s) @ chain_seqs sc)"
    using in_order_called [OF c] by (auto simp: reader_ok_def)
  moreover have "reader_ok (calls s @ map (Pair (Some g)) (data_elems sc)) y" if "y \<in> set (l @ (g, ?f m) # rr)" for y
  proof (cases "fst y = g")
    case True
    then have "y = (g, ?f m)" using that rs(3) by auto
    then show ?thesis using io ro(1,2) rg by (simp add: reader_ok_def chan_append)
  next
    case False
    then have "reader_ok (calls s) y" using that good rs(1) by (auto simp: rx_good_def)
    then show ?thesis using False by (cases y) (auto simp: reader_ok_def chan_append)
  qed
  moreover have "sorted_wrt (<) (chan (Some h) (calls s @ map (Pair (Some g)) (data_elems sc)))" for h
    using io good by (cases "h = g") (auto simp: chan_append in_order_def rx_good_def)
  moreover have "rc k = K k - (adj' - adj) * frag_refs k frags + rx_refs k s1 + chain_refs k sc" for k
    using c good dl by (simp add: ro_called_def rx_good_def rx_refs_def readers_refs_def f rs(1))
  moreover have gu: "Some g \<in> insert None (Some ` U)" "fst ` set (rx_readers s1) \<subseteq> U" using good rs(1) f(5) by (auto simp: rx_good_def)
  ultimately show ?thesis
    using good data_elems_whole [OF ro(3), of "Some g"] data_elems_chan [OF gu(1), of sc] dl unfolding rx_good_def chan_append f(5-9) f(4)
    by (simp only: set_append ball_Un simp_thms if_False if_True append_Nil2 option.distinct) simp
qed

end
