(* ===== verification/Receive_Step.thy ===== *)
theory Receive_Step
  imports Receive_Inv
begin

text \<open>
  Each operation of the reception keeps its invariant. While a sample or a gap goes through the
  administrations, \<open>held\<close> says how far the account is off: by the references counted so far.
\<close>

section \<open>Changes that do not matter\<close>

definition reorders :: "reception \<Rightarrow> (ddsi_guid \<times> nn_reorder) list" where
  "reorders s = map (\<lambda>(g, m). (g, rm_reorder (mr_match m))) (rx_readers s)"

definition alike :: "reception \<Rightarrow> reception \<Rightarrow> bool" where
  "alike s s' \<longleftrightarrow> reorders s' = reorders s \<and> pw_defrag (rx_pwr s') = pw_defrag (rx_pwr s)
     \<and> pw_reorder (rx_pwr s') = pw_reorder (rx_pwr s) \<and> pw_dqueue (rx_pwr s') = pw_dqueue (rx_pwr s)
     \<and> rx_thread s' = rx_thread s \<and> rx_rc s' = rx_rc s \<and> rx_out s' = rx_out s
     \<and> rx_deliver_synchronously s' = rx_deliver_synchronously s \<and> rx_filtered s' = rx_filtered s"

lemma reorders_keys: "map fst (rx_readers s) = map fst (reorders s)"
  by (simp add: reorders_def comp_def split_beta)

lemma reorders_ok: "(\<forall>y \<in> set (rx_readers s). reader_ok cs y) \<longleftrightarrow>
    (\<forall>(g, r) \<in> set (reorders s). ro_good r \<and> ro_mode r \<noteq> NN_REORDER_MODE_ALWAYS_DELIVER \<and> in_order r (chan (Some g) cs))"
  by (auto simp: reorders_def reader_ok_def)

lemma reorders_refs: "readers_refs m (rx_readers s) = (\<Sum>(g, r)\<leftarrow>reorders s. ro_refs m r)"
  by (simp add: readers_refs_def reorders_def comp_def split_beta)

lemma alike_good:
  assumes a: "alike s s'" and ok: "readers_ok s'"
  shows "calls s' = calls s" "deliverable s' = deliverable s" "rx_good U K cs x s \<Longrightarrow> rx_good U K cs x s'"
proof -
  have k: "map fst (rx_readers s') = map fst (rx_readers s)" using a by (simp add: alike_def reorders_keys)
  have u: "fst ` set (rx_readers s') = fst ` set (rx_readers s)" using arg_cong [OF k, of set] by simp
  have dl: "pend s' = pend s \<and> deliverable s' = deliverable s \<and> calls s' = calls s"
    using a by (intro deliverable_cong) (simp_all add: alike_def)
  have r: "rx_refs m s' = rx_refs m s" for m
    using a dl by (simp add: rx_refs_def alike_def reorders_refs)
  show "calls s' = calls s" "deliverable s' = deliverable s" using dl by simp_all
  show "rx_good U K cs x s'" if "rx_good U K cs x s"
    using that ok a dl unfolding rx_good_def reorders_ok u r alike_def by simp
qed

lemma alike_inv: "alike s s' \<Longrightarrow> readers_ok s' \<Longrightarrow> rx_inv U K s \<Longrightarrow> rx_inv U K s'"
  using alike_good by (simp add: rx_inv_def)

lemma readers_ok_same:
  assumes "map fst (rx_readers s') = map fst (rx_readers s)" "map (sync_state \<circ> snd) (rx_readers s') = map (sync_state \<circ> snd) (rx_readers s)"
    "rx_n_readers_out_of_sync s' = rx_n_readers_out_of_sync s" "rx_fastpath_ok s' = rx_fastpath_ok s"
  shows "readers_ok s' = readers_ok s"
proof -
  have n: "n_out_of_sync rs = length (filter (\<lambda>x. x \<noteq> PRMSS_SYNC) (map (sync_state \<circ> snd) rs))" for rs
    by (simp add: n_out_of_sync_def filter_map comp_def)
  show ?thesis unfolding readers_ok_def n using assms idx_wf_keys [OF assms(1)] by simp
qed

lemma quiet_inv:
  assumes "alike s s'" "map (sync_state \<circ> snd) (rx_readers s') = map (sync_state \<circ> snd) (rx_readers s)"
    "rx_n_readers_out_of_sync s' = rx_n_readers_out_of_sync s" "rx_fastpath_ok s' = rx_fastpath_ok s" "rx_inv U K s"
  shows "rx_inv U K s'"
proof -
  have "map fst (rx_readers s') = map fst (rx_readers s)" using assms(1) by (simp add: alike_def reorders_keys)
  then have "readers_ok s' = readers_ok s" using assms(2-4) by (intro readers_ok_same) simp_all
  moreover have "readers_ok s" using assms(5) by (simp add: rx_inv_def rx_good_def)
  ultimately show ?thesis using alike_inv [OF assms(1)] assms(5) by simp
qed

text \<open>Changing the state of one reader that does not concern its administration or its being in sync.\<close>

lemma upd_reader_quiet:
  assumes "\<And>m. rm_reorder (mr_match (f m)) = rm_reorder (mr_match m)" "\<And>m. sync_state (f m) = sync_state m" "rx_inv U K s"
  shows "rx_inv U K (upd_reader g f s)"
proof (rule quiet_inv [OF _ _ _ _ assms(3)])
  show "alike s (upd_reader g f s)"
    using assms(1) by (simp add: alike_def upd_reader_same) (simp add: reorders_def upd_reader_def comp_def split_beta)
  show "map (sync_state \<circ> snd) (rx_readers (upd_reader g f s)) = map (sync_state \<circ> snd) (rx_readers s)"
    using assms(2) by (simp add: upd_reader_def comp_def split_beta)
qed (simp_all add: upd_reader_same)

lemma upd_pwr_quiet:
  assumes "\<And>p. pw_defrag (f p) = pw_defrag p" "\<And>p. pw_reorder (f p) = pw_reorder p" "\<And>p. pw_dqueue (f p) = pw_dqueue p" "rx_inv U K s"
  shows "rx_inv U K (upd_pwr f s)"
  using assms by (intro quiet_inv [OF _ _ _ _ assms(4)]) (simp_all add: alike_def upd_pwr_def reorders_def)

lemma note_quiet:
  assumes "rx_inv U K s"
  shows "rx_inv U K (upd_pwr (note_data seq fragnum) s)" "rx_inv U K (upd_pwr (note_last_seq seq) s)"
    "rx_inv U K (upd_match g (note_match_seq seq) s)"
    "rx_inv U K (upd_reader g (\<lambda>m. m\<lparr>mr_end_of_tl_seq := seq\<rparr>) s)"
  using assms by (auto intro!: upd_pwr_quiet upd_reader_quiet simp: note_data_def note_last_seq_def note_match_seq_def upd_match_def)

section \<open>The account\<close>

lemma rc_inv:
  assumes "rx_inv U K s" "\<And>m. rc m - K' m = rx_rc s m - K m"
  shows "rx_inv U K' (s\<lparr>rx_rc := rc\<rparr>)"
proof -
  have d: "pend (s\<lparr>rx_rc := rc\<rparr>) = pend s \<and> deliverable (s\<lparr>rx_rc := rc\<rparr>) = deliverable s \<and> calls (s\<lparr>rx_rc := rc\<rparr>) = calls s"
    by (intro deliverable_cong) simp_all
  have "rc m = K' m + rx_refs m s" for m
    using assms(1) assms(2) [of m] by (simp add: rx_inv_def rx_good_def)
  then show ?thesis
    using assms(1) d unfolding rx_inv_def rx_good_def by (simp add: rx_refs_def readers_ok_def)
qed

definition held :: "ddsi_guid set \<Rightarrow> (rmsg_id \<Rightarrow> int) \<Rightarrow> nn_rdata list \<Rightarrow> reception \<times> int \<Rightarrow> bool" where
  "held U K frags = (\<lambda>(s, adj). rx_inv U (\<lambda>m. K m - adj * frag_refs m frags) s)"

lemma held_conv: "held U K frags (s, adj) \<longleftrightarrow> rx_inv U (\<lambda>m. K m - adj * frag_refs m frags) s"
  by (simp add: held_def)

text \<open>At the end the bias is taken off.\<close>

lemma held_settle:
  assumes "held U (\<lambda>m. K m + RMSG_REFCOUNT_RDATA_BIAS * frag_refs m frags) frags (s, adj)"
  shows "rx_inv U K (s\<lparr>rx_rc := nn_fragchain_adjust_refcount frags adj (rx_rc s)\<rparr>)"
  using assms unfolding held_conv by (rule rc_inv) (simp add: fragchain_adjust_count algebra_simps)

lemma newgap_held:
  assumes "rx_inv U K s" "nn_rdata_newgap rmsg (rx_rc s) = (gap, rc)"
  shows "held U (\<lambda>m. K m + RMSG_REFCOUNT_RDATA_BIAS * frag_refs m [gap]) [gap] (s\<lparr>rx_rc := rc\<rparr>, 0)"
proof -
  have "rx_inv U (\<lambda>m. K m + RMSG_REFCOUNT_RDATA_BIAS * frag_refs m [gap]) (s\<lparr>rx_rc := rc\<rparr>)"
    using assms by (intro rc_inv [OF assms(1)]) (auto simp: nn_rdata_newgap_def Let_def rdata_bias_count frag_refs_def)
  then show ?thesis by (simp add: held_conv)
qed

section \<open>The administrations\<close>

lemma gap_called1:
  assumes "ro_good r" "mn < maxp1 \<or> maxp1 \<le> 1"
  shows "ro_called r rc [gap] adj (nn_reorder_gap r gap mn maxp1 adj rc)"
proof (cases "mn < maxp1")
  case True
  then show ?thesis using gap_called assms(1) by blast
next
  case False
  then have "nn_reorder_gap r gap mn maxp1 adj rc = (NN_REORDER_TOO_OLD, [], r, adj, rc)"
    using assms by (auto simp: nn_reorder_gap_def ro_good_def ro_inv_def)
  then show ?thesis using assms(1) by (simp add: ro_called_def reorder_results)
qed

definition extends :: "reception \<Rightarrow> reception \<Rightarrow> bool" where
  "extends s s' \<longleftrightarrow> (\<exists>xs. calls s' = calls s @ xs)"

lemma extends_refl [simp]: "extends s s"
  by (simp add: extends_def)

lemma extends_trans: "extends s s1 \<Longrightarrow> extends s1 s2 \<Longrightarrow> extends s s2"
  by (auto simp: extends_def)

lemma held_primary:
  assumes h: "held U K frags (s, adj)" and c: "ro_called (pw_reorder (rx_pwr s)) (rx_rc s) frags adj (res, sc, r, adj', rc)"
    and s1: "s1 = (upd_pwr (\<lambda>p. p\<lparr>pw_reorder := r\<rparr>) s)\<lparr>rx_rc := rc\<rparr>"
    and enq: "enq = nn_dqueue_enqueue \<or> enq = nn_dqueue_enqueue_deferred_wakeup"
  shows "held U K frags (if res > 0 then deliver_all enq valid sc res s1 else s1, adj')
    \<and> calls (if res > 0 then deliver_all enq valid sc res s1 else s1) = calls s @ map (Pair None) (data_elems sc)"
proof -
  have e: "(\<lambda>m. K m - adj * frag_refs m frags - (adj' - adj) * frag_refs m frags) = (\<lambda>m. K m - adj' * frag_refs m frags)"
    by (simp add: fun_eq_iff left_diff_distrib)
  note g = primary_good [OF h [unfolded held_conv] c s1, unfolded e]
  then have dl: "deliverable s1" by (simp add: rx_good_def)
  have cs: "calls s1 = calls s" using deliverable_cong [of s1 s] by (simp add: s1 upd_pwr_def)
  show ?thesis
  proof (cases "res > 0")
    case True
    then have "sc \<noteq> []" "res = int (length sc)" using c by (auto simp: ro_called_def)
    then show ?thesis
      using True delivered_good [OF g deliver_all_delivered [OF dl _ enq]] deliver_all_delivered [OF dl _ enq, of sc valid] cs
      by (simp add: held_conv delivered_def)
  next
    case False
    then have "sc = []" using c by (auto simp: ro_called_def)
    then show ?thesis using False g cs by (simp add: held_conv rx_inv_def data_elems_def)
  qed
qed

lemma held_reader:
  assumes h: "held U K frags (s, adj)" and m: "get_reader g s = Some m"
    and c: "ro_called (rm_reorder (mr_match m)) (rx_rc s) frags adj (res, sc, r, adj', rc)"
    and s1: "s1 = (upd_match g (\<lambda>m. m\<lparr>rm_reorder := r\<rparr>) s)\<lparr>rx_rc := rc\<rparr>"
    and s2: "readers_ok s1 \<Longrightarrow> alike s1 s2 \<and> readers_ok s2"
    and d: "\<lbrakk>deliverable s2; sc \<noteq> []\<rbrakk> \<Longrightarrow> delivered (Some g) sc s2 (deliver g sc (int (length sc)) s2)"
  shows "held U K frags (if res > 0 then deliver g sc res s2 else s1, adj') \<and> extends s (if res > 0 then deliver g sc res s2 else s1)"
proof -
  have e: "(\<lambda>m. K m - adj * frag_refs m frags - (adj' - adj) * frag_refs m frags) = (\<lambda>m. K m - adj' * frag_refs m frags)"
    by (simp add: fun_eq_iff left_diff_distrib)
  note g1 = reader_good [OF h [unfolded held_conv] m c s1, unfolded e]
  then have s2: "alike s1 s2" "readers_ok s2" using s2 by (auto simp: rx_good_def)
  have cs1: "calls s1 = calls s" using deliverable_cong [of s1 s] by (simp add: s1 upd_match_def upd_reader_same)
  note g = alike_good(3) [OF s2 g1]
  have dl: "deliverable s2" and cs: "calls s1 = calls s2" using g alike_good(1) [OF s2] by (auto simp: rx_good_def)
  show ?thesis
  proof (cases "res > 0")
    case True
    then have "sc \<noteq> []" "res = int (length sc)" using c by (auto simp: ro_called_def)
    then show ?thesis
      using True delivered_good [OF g [unfolded cs] d [OF dl]] d [OF dl] cs cs1 by (simp add: held_conv delivered_def extends_def)
  next
    case False
    then have "sc = []" using c by (auto simp: ro_called_def)
    then show ?thesis using False g1 cs1 by (simp add: held_conv rx_inv_def data_elems_def extends_def)
  qed
qed

lemma rx_good_parts:
  assumes "rx_inv U K s"
  shows "ro_good (pw_reorder (rx_pwr s))" "readers_ok s" "deliverable s"
    "get_reader g s = Some m \<Longrightarrow> ro_good (rm_reorder (mr_match m))"
    "rx_filtered s \<Longrightarrow> \<not> rx_deliver_synchronously s" "dg_ok (pw_defrag (rx_pwr s))" "0 < dg_max_samples (pw_defrag (rx_pwr s))"
proof -
  have g: "rx_good U K (calls s) (\<lambda>_. 0) s" using assms by (simp add: rx_inv_def)
  then show "ro_good (pw_reorder (rx_pwr s))" "readers_ok s" "deliverable s"
    "rx_filtered s \<Longrightarrow> \<not> rx_deliver_synchronously s" "dg_ok (pw_defrag (rx_pwr s))" "0 < dg_max_samples (pw_defrag (rx_pwr s))"
    by (auto simp: rx_good_def)
  then show "get_reader g s = Some m \<Longrightarrow> ro_good (rm_reorder (mr_match m))"
    using g get_reader_iff [of s g m] by (auto simp: rx_good_def reader_ok_def)
qed

lemma held_primary_gap:
  assumes h: "held U K [gap] (s, adj)" and le: "a < b \<or> b \<le> 1"
  shows "held U K [gap] (primary_gap valid a b gap (s, adj))"
proof -
  obtain res sc r adj' rc where n: "nn_reorder_gap (pw_reorder (rx_pwr s)) gap a b adj (rx_rc s) = (res, sc, r, adj', rc)"
    by (metis prod_cases5)
  have "ro_good (pw_reorder (rx_pwr s))" using h rx_good_parts(1) by (auto simp: held_conv)
  note c = gap_called1 [OF this le, of "rx_rc s" gap adj, unfolded n]
  show ?thesis
    using held_primary [OF h c refl, of nn_dqueue_enqueue valid] by (simp add: primary_gap_def n Let_def)
qed

lemma held_reader_gap:
  assumes h: "held U K [gap] (s, adj)" and le: "a < b \<or> b \<le> 1"
    and d: "deliver = deliver_one valid \<or> deliver = enqueue_one \<and> \<not> rx_deliver_synchronously s"
  shows "held U K [gap] (reader_gap deliver g a b gap (s, adj))"
proof (cases "get_reader g s")
  case None
  then show ?thesis using h by (simp add: reader_gap_def)
next
  case (Some m)
  obtain res sc r adj' rc where n: "nn_reorder_gap (rm_reorder (mr_match m)) gap a b adj (rx_rc s) = (res, sc, r, adj', rc)"
    by (metis prod_cases5)
  have "ro_good (rm_reorder (mr_match m))" using h Some rx_good_parts(4) by (auto simp: held_conv)
  note c = gap_called1 [OF this le, of "rx_rc s" gap adj, unfolded n]
  let ?s1 = "(upd_match g (\<lambda>m. m\<lparr>rm_reorder := r\<rparr>) s)\<lparr>rx_rc := rc\<rparr>"
  have "held U K [gap] (if res > 0 then deliver g sc res ?s1 else ?s1, adj')"
  proof (rule conjunct1 [OF held_reader [OF h Some c refl, where deliver = deliver]])
    show "alike ?s1 ?s1 \<and> readers_ok ?s1" if "readers_ok ?s1" using that by (simp add: alike_def)
    show "delivered (Some g) sc ?s1 (deliver g sc (int (length sc)) ?s1)" if "deliverable ?s1" "sc \<noteq> []"
      using d that deliver_one_delivered enqueue_one_delivered by (auto simp: upd_match_def upd_reader_same)
  qed
  then show ?thesis by (simp add: reader_gap_def Some n Let_def)
qed

section \<open>Coming in sync\<close>

lemma resync_ok:
  assumes ok: "readers_ok s" and m: "get_reader g s = Some m" and st: "sync_state m \<noteq> PRMSS_SYNC"
  shows "alike s (reader_in_sync g s) \<and> readers_ok (reader_in_sync g s)"
    "alike s (upd_match g (\<lambda>m. m\<lparr>rm_in_sync := PRMSS_TLCATCHUP\<rparr>) s) \<and> readers_ok (upd_match g (\<lambda>m. m\<lparr>rm_in_sync := PRMSS_TLCATCHUP\<rparr>) s)"
proof -
  have al: "alike s (upd_match g (\<lambda>m. m\<lparr>rm_in_sync := v\<rparr>) s)" for v
    by (simp add: alike_def upd_match_def upd_reader_same) (simp add: reorders_def upd_reader_def comp_def split_beta)
  have wf: "idx_wf fst (rx_readers (upd_match g (\<lambda>m. m\<lparr>rm_in_sync := v\<rparr>) s))" for v
    using ok idx_wf_keys [OF upd_reader_same(10)] by (simp add: readers_ok_def upd_match_def)
  have n: "n_out_of_sync (rx_readers (upd_match g (\<lambda>m. m\<lparr>rm_in_sync := v\<rparr>) s)) =
      (if v = PRMSS_SYNC then rx_n_readers_out_of_sync s - 1 else rx_n_readers_out_of_sync s) \<and> 0 < rx_n_readers_out_of_sync s" for v
  proof -
    let ?f = "\<lambda>m. m\<lparr>mr_match := (mr_match m)\<lparr>rm_in_sync := v\<rparr>\<rparr>"
    obtain l rr where "rx_readers s = l @ (g, m) # rr" "rx_readers (upd_reader g ?f s) = l @ (g, ?f m) # rr"
      using ok m by (rule reader_split [of s g m ?f])
    then show ?thesis using ok st by (simp add: readers_ok_def n_out_of_sync_def upd_match_def)
  qed
  show "alike s (reader_in_sync g s) \<and> readers_ok (reader_in_sync g s)"
    using al [of PRMSS_SYNC] wf [of PRMSS_SYNC] n [of PRMSS_SYNC] ok
    by (auto simp: reader_in_sync_def Let_def alike_def reorders_def readers_ok_def upd_match_def upd_reader_same)
  show "alike s (upd_match g (\<lambda>m. m\<lparr>rm_in_sync := PRMSS_TLCATCHUP\<rparr>) s) \<and> readers_ok (upd_match g (\<lambda>m. m\<lparr>rm_in_sync := PRMSS_TLCATCHUP\<rparr>) s)"
    using al [of PRMSS_TLCATCHUP] wf [of PRMSS_TLCATCHUP] n [of PRMSS_TLCATCHUP] ok
    by (auto simp: readers_ok_def) (auto simp: upd_match_def upd_reader_same)
qed

lemma alike_refl [simp]: "alike s s"
  by (simp add: alike_def)

lemma alike_trans: "alike s s1 \<Longrightarrow> alike s1 s2 \<Longrightarrow> alike s s2"
  by (simp add: alike_def)

lemma get_upd_reader:
  assumes "readers_ok s" "get_reader g s = Some m" "readers_ok (upd_reader g f s)"
  shows "get_reader g (upd_reader g f s) = Some (f m)"
proof -
  obtain l rr where "rx_readers (upd_reader g f s) = l @ (g, f m) # rr"
    using assms(1,2) by (rule reader_split [of s g m f])
  then show ?thesis using get_reader_iff [OF assms(3)] by simp
qed

lemma maybe_set_ok:
  assumes ok: "readers_ok s"
  shows "alike s (maybe_set_reader_in_sync g q s) \<and> readers_ok (maybe_set_reader_in_sync g q s)"
proof (cases "get_reader g s")
  case None
  then show ?thesis using ok by (simp add: maybe_set_reader_in_sync_def)
next
  case (Some m)
  let ?s1 = "upd_match g (\<lambda>m. m\<lparr>rm_in_sync := PRMSS_TLCATCHUP\<rparr>) s"
  show ?thesis
  proof (cases "sync_state m = PRMSS_SYNC")
    case True
    then show ?thesis using Some ok by (simp add: maybe_set_reader_in_sync_def)
  next
    case False
    note r = resync_ok [OF ok Some False]
    have g1: "get_reader g ?s1 = Some (m\<lparr>mr_match := (mr_match m)\<lparr>rm_in_sync := PRMSS_TLCATCHUP\<rparr>\<rparr>)"
      using get_upd_reader [OF ok Some] r(2) by (simp add: upd_match_def)
    have "alike s (reader_in_sync g ?s1) \<and> readers_ok (reader_in_sync g ?s1)"
      using resync_ok(1) [OF _ g1] r(2) alike_trans by auto
    then show ?thesis
      using r ok Some by (cases "sync_state m") (auto simp: maybe_set_reader_in_sync_def Let_def)
  qed
qed

lemma maybe_set_inv: "rx_inv U K s \<Longrightarrow> rx_inv U K (maybe_set_reader_in_sync g q s)"
  using maybe_set_ok alike_inv rx_good_parts(2) by blast

section \<open>A complete sample\<close>

definition whole_sample :: "nn_rdata list \<Rightarrow> nn_rsample_info \<Rightarrow> bool" where
  "whole_sample frags si \<longleftrightarrow> (\<forall>e \<in> set (riv_sc (singleton_rsample frags si)). whole_elem e)"

lemma dup_first_singleton [simp]: "nn_reorder_rsample_dup_first (singleton_rsample frags si) = singleton_rsample frags si"
  by (simp add: nn_reorder_rsample_dup_first_def singleton_rsample_def)

lemma held_reader_rsample:
  assumes h: "held U K frags (s, adj)" and w: "whole_sample frags si"
  shows "held U K frags (reader_rsample valid sync g (singleton_rsample frags si) seq (s, adj))
    \<and> extends s (fst (reader_rsample valid sync g (singleton_rsample frags si) seq (s, adj)))"
proof (cases "get_reader g s")
  case None
  then show ?thesis using h by (simp add: reader_rsample_def)
next
  case (Some m)
  let ?full = "nn_dqueue_is_full (pw_dqueue (rx_pwr s))"
  obtain res sc r adj' rc where n: "nn_reorder_rsample (rm_reorder (mr_match m)) (singleton_rsample frags si) adj ?full (rx_rc s)
      = (res, sc, r, adj', rc)" by (metis prod_cases5)
  have "ro_good (rm_reorder (mr_match m))" using h Some rx_good_parts(4) by (auto simp: held_conv)
  note c = rsample_called [OF this w [unfolded whole_sample_def] refl, of "rx_rc s" adj ?full, unfolded n]
  let ?s1 = "(upd_match g (\<lambda>m. m\<lparr>rm_reorder := r\<rparr>) s)\<lparr>rx_rc := rc\<rparr>"
  let ?s2 = "if sync then maybe_set_reader_in_sync g seq ?s1 else ?s1"
  have "held U K frags (if res > 0 then deliver_one valid g sc res ?s2 else ?s1, adj')
      \<and> extends s (if res > 0 then deliver_one valid g sc res ?s2 else ?s1)"
  proof (rule held_reader [OF h Some c refl, where deliver = "deliver_one valid"])
    show "alike ?s1 ?s2 \<and> readers_ok ?s2" if "readers_ok ?s1" using maybe_set_ok [OF that, of g seq] that by simp
    show "delivered (Some g) sc ?s2 (deliver_one valid g sc (int (length sc)) ?s2)" if "deliverable ?s2" "sc \<noteq> []"
      using deliver_one_delivered [OF that] .
  qed
  then show ?thesis
    unfolding reader_rsample_def prod.case Some option.case n Let_def by (cases "res > 0") simp_all
qed

text \<open>A gap from 1 is never stored.\<close>

lemma gap1_not_stored:
  assumes inv: "ro_inv r" and n: "nn_reorder_gap r gap 1 b adj rc = (res, sc, r', adj', rc')"
  shows "adj' = adj"
proof (cases "1 < b")
  case True
  note out = gap_outcomes [OF inv True, of gap adj rc, unfolded n gap_outcome_def prod.case]
  have "\<not> ro_next_seq r < 1" using inv by (simp add: ro_inv_def)
  then show ?thesis using out by auto
next
  case False
  then show ?thesis using n inv by (auto simp: nn_reorder_gap_def ro_inv_def)
qed

text \<open>The sample is stored, and the gap in front of it then makes room for delivery: one call in effect.\<close>

lemma rsample_gap_called:
  assumes c1: "ro_called r rc frags adj (res1, sc1, r1, adj1, rc1)" and acc: "res1 = NN_REORDER_ACCEPT"
    and n: "nn_reorder_gap r1 gap 1 b 0 rc1 = (res, sc, r', adj', rc')"
  shows "ro_called r rc frags adj (res, sc, r', adj1, rc')"
proof -
  have g: "ro_good r1" and sc1: "sc1 = []" using c1 acc by (auto simp: ro_called_def reorder_results)
  note c2 = gap_called1 [OF g, of 1 b rc1 gap 0, unfolded n]
  have b: "1 < b \<or> b \<le> 1" by linarith
  have a: "adj' = 0" using gap1_not_stored [OF _ n] g by (simp add: ro_good_def)
  have ch: "chain_ok (ro_next_seq r) [] (ro_next_seq r1)" if "ro_mode r \<noteq> NN_REORDER_MODE_ALWAYS_DELIVER"
    using that c1 sc1 by (simp add: ro_called_def)
  have "chain_ok (ro_next_seq r1) sc (ro_next_seq r')" if "ro_mode r \<noteq> NN_REORDER_MODE_ALWAYS_DELIVER"
    using that c1 c2 [OF b] by (simp add: ro_called_def)
  then have "chain_ok (ro_next_seq r) sc (ro_next_seq r')" if "ro_mode r \<noteq> NN_REORDER_MODE_ALWAYS_DELIVER"
    using chain_ok_append [OF ch [OF that] order_refl] that by auto
  then show ?thesis using c1 c2 [OF b] a sc1 by (auto simp: ro_called_def)
qed

lemma held_primary_rsample:
  assumes h: "held U K frags (s, adj)" and w: "whole_sample frags si"
  shows "held U K frags (primary_rsample valid (singleton_rsample frags si) rdata seq (s, adj))
    \<and> extends s (fst (primary_rsample valid (singleton_rsample frags si) rdata seq (s, adj)))
    \<and> (si_seq si = ro_next_seq (pw_reorder (rx_pwr s)) \<longrightarrow>
        (None, \<lparr>ce_fragchain = frags, ce_sampleinfo = Some si\<rparr>) \<in> set (calls (fst (primary_rsample valid (singleton_rsample frags si) rdata seq (s, adj)))))"
proof -
  obtain res sc r adj' rc where n: "nn_reorder_rsample (pw_reorder (rx_pwr s)) (singleton_rsample frags si) adj False (rx_rc s)
      = (res, sc, r, adj', rc)" by (metis prod_cases5)
  obtain res2 sc2 r2 adj2 rc2 where n2: "nn_reorder_gap r rdata 1 seq 0 rc = (res2, sc2, r2, adj2, rc2)" by (metis prod_cases5)
  have good: "ro_good (pw_reorder (rx_pwr s))" using h rx_good_parts(1) by (auto simp: held_conv)
  note c = rsample_called [OF good w [unfolded whole_sample_def] refl, of "rx_rc s" adj False, unfolded n]
  have e: "res > 0 \<and> \<lparr>ce_fragchain = frags, ce_sampleinfo = Some si\<rparr> \<in> set (data_elems sc)"
    if q: "si_seq si = ro_next_seq (pw_reorder (rx_pwr s))"
  proof -
    have q: "riv_min (singleton_rsample frags si) = ro_next_seq (pw_reorder (rx_pwr s))" using q by (simp add: singleton_rsample_def)
    have "reorder_deliver (pw_reorder (rx_pwr s)) (singleton_rsample frags si) = (res, sc, r)"
      using n q by (auto simp: nn_reorder_rsample_def Let_def split: prod.splits)
    note d = reorder_deliver_normal [OF _ singleton_iv_rsample q this]
    have "ro_inv (pw_reorder (rx_pwr s))" using good by (simp add: ro_good_def)
    then show ?thesis using d(2-4) by (cases sc) (auto simp: singleton_rsample_def data_elems_def)
  qed
  show ?thesis
  proof (cases "res = NN_REORDER_ACCEPT \<and> rx_n_reliable_readers s = 0")
    case True
    note c2 = rsample_gap_called [OF c _ n2]
    have "\<not> si_seq si = ro_next_seq (pw_reorder (rx_pwr s))" using e True by (auto simp: reorder_results)
    then show ?thesis
      using held_primary [OF h c2 refl, of nn_dqueue_enqueue_deferred_wakeup valid] True
      unfolding primary_rsample_def prod.case n Let_def n2 by (simp add: extends_def)
  next
    case False
    define s2 where "s2 = (if res > 0 then deliver_all nn_dqueue_enqueue_deferred_wakeup valid sc res ((upd_pwr (\<lambda>p. p\<lparr>pw_reorder := r\<rparr>) s)\<lparr>rx_rc := rc\<rparr>)
         else (upd_pwr (\<lambda>p. p\<lparr>pw_reorder := r\<rparr>) s)\<lparr>rx_rc := rc\<rparr>)"
    have p: "primary_rsample valid (singleton_rsample frags si) rdata seq (s, adj) = (s2, adj')"
      unfolding primary_rsample_def prod.case n Let_def s2_def using False by (simp only: if_False prod.case)
    have "held U K frags (s2, adj') \<and> calls s2 = calls s @ map (Pair None) (data_elems sc)"
      unfolding s2_def by (rule held_primary [OF h c refl]) simp
    then show ?thesis using e unfolding p by (auto simp: extends_def)
  qed
qed

lemma held_readers_rsample:
  assumes "held U K frags st" and w: "whole_sample frags si"
  shows "held U K frags (readers_rsample valid (singleton_rsample frags si) seq gs st)
    \<and> extends (fst st) (fst (readers_rsample valid (singleton_rsample frags si) seq gs st))"
  using assms(1)
proof (induction gs arbitrary: st)
  case Nil
  then show ?case by simp
next
  case (Cons g gs)
  let ?st = "reader_rsample valid True g (singleton_rsample frags si) seq st"
  have "held U K frags ?st \<and> extends (fst st) (fst ?st)"
    using held_reader_rsample [of U K frags "fst st" "snd st", OF _ w] Cons.prems by simp
  then show ?case using Cons.IH [of ?st] Cons.IH [of st] Cons.prems extends_trans by (simp add: Let_def) blast
qed

lemma rc_calls [simp]: "calls (s\<lparr>rx_rc := rc\<rparr>) = calls s"
  using deliverable_cong [of "s\<lparr>rx_rc := rc\<rparr>" s] by simp

lemma handle_complete_sample_spec:
  assumes inv: "rx_inv U (\<lambda>m. K m + RMSG_REFCOUNT_RDATA_BIAS * frag_refs m frags) s" and w: "whole_sample frags si'"
  shows "rx_inv U K (handle_complete_sample valid dst si rdata (singleton_rsample frags si') s)
    \<and> (\<not> rx_filtered s \<and> si_seq si' = ro_next_seq (pw_reorder (rx_pwr s)) \<longrightarrow>
        (None, \<lparr>ce_fragchain = frags, ce_sampleinfo = Some si'\<rparr>) \<in> set (calls (handle_complete_sample valid dst si rdata (singleton_rsample frags si') s)))"
proof -
  let ?K = "\<lambda>m. K m + RMSG_REFCOUNT_RDATA_BIAS * frag_refs m frags" and ?rs = "singleton_rsample frags si'"
  have f: "nn_rsample_fragchain ?rs = frags" by (simp add: nn_rsample_fragchain_def singleton_rsample_def)
  let ?st1 = "reader_rsample valid False dst ?rs (si_seq si) (upd_match dst (note_match_seq (si_seq si)) s, 0)"
  let ?st2 = "primary_rsample valid ?rs rdata (si_seq si) (s, 0)"
  obtain s2 adj2 where st2: "?st2 = (s2, adj2)" by (rule prod.exhaust)
  let ?st3 = "if rx_n_readers_out_of_sync s2 > 0 then readers_rsample valid ?rs (si_seq si) (map fst (rx_readers s2)) (s2, adj2) else (s2, adj2)"
  have h1: "held U ?K frags ?st1"
    using note_quiet(3) [OF inv, of dst "si_seq si"] by (intro conjunct1 [OF held_reader_rsample] w) (simp add: held_conv)
  have h2: "held U ?K frags (s2, adj2)" and e2: "si_seq si' = ro_next_seq (pw_reorder (rx_pwr s)) \<longrightarrow>
      (None, \<lparr>ce_fragchain = frags, ce_sampleinfo = Some si'\<rparr>) \<in> set (calls s2)"
    using held_primary_rsample [of U ?K frags s 0, OF _ w, of valid rdata "si_seq si"] inv st2 by (simp_all add: held_conv)
  have h3: "held U ?K frags ?st3" and e3: "extends s2 (fst ?st3)" using held_readers_rsample [OF h2 w] h2 by auto
  obtain s3 adj3 where st3: "(if addressed_reader dst s then ?st1 else ?st3) = (s3, adj3)" by (rule prod.exhaust)
  have r: "handle_complete_sample valid dst si rdata ?rs s = s3\<lparr>rx_rc := nn_fragchain_adjust_refcount frags adj3 (rx_rc s3)\<rparr>"
    unfolding handle_complete_sample_def f Let_def st2 prod.case st3 ..
  have "held U ?K frags (s3, adj3)" using h1 h3 unfolding st3 [symmetric] by (simp only: split: if_split) simp
  then have "rx_inv U K (handle_complete_sample valid dst si rdata ?rs s)" unfolding r by (rule held_settle)
  moreover have "(None, \<lparr>ce_fragchain = frags, ce_sampleinfo = Some si'\<rparr>) \<in> set (calls s3)"
    if q: "\<not> rx_filtered s" "si_seq si' = ro_next_seq (pw_reorder (rx_pwr s))"
  proof -
    have "\<not> addressed_reader dst s" using q(1) by (simp add: addressed_reader_def)
    then have "?st3 = (s3, adj3)" using st3 by (simp only: if_False)
    then have "extends s2 s3" using e3 by (simp only: fst_conv)
    then show ?thesis using e2 q(2) by (auto simp: extends_def)
  qed
  ultimately show ?thesis by (simp add: r)
qed

section \<open>The defragmenter\<close>

lemma defrag_inv:
  assumes inv: "rx_inv U K s" and d: "dg_ok d" "dg_max_samples d = dg_max_samples (pw_defrag (rx_pwr s))"
    and l: "dg_ledger (pw_defrag (rx_pwr s)) (rx_rc s) d out rc"
  shows "rx_inv U (\<lambda>m. K m + RMSG_REFCOUNT_RDATA_BIAS * chain_refs m out) ((upd_pwr (\<lambda>p. p\<lparr>pw_defrag := d\<rparr>) s)\<lparr>rx_rc := rc\<rparr>)"
proof -
  let ?s = "(upd_pwr (\<lambda>p. p\<lparr>pw_defrag := d\<rparr>) s)\<lparr>rx_rc := rc\<rparr>"
  have dl: "pend ?s = pend s \<and> deliverable ?s = deliverable s \<and> calls ?s = calls s"
    by (intro deliverable_cong) (simp_all add: upd_pwr_def)
  have "rc m = K m + RMSG_REFCOUNT_RDATA_BIAS * chain_refs m out + rx_refs m ?s" for m
    using l inv dl by (simp add: dg_ledger_def rx_inv_def rx_good_def rx_refs_def) (simp add: upd_pwr_def algebra_simps)
  then show ?thesis
    using inv d dl unfolding rx_inv_def rx_good_def by (simp add: upd_pwr_def readers_ok_def)
qed

lemma notegap_inv:
  assumes inv: "rx_inv U K s" and n: "nn_defrag_notegap (pw_defrag (rx_pwr s)) a b (rx_rc s) = (d, rc)"
  shows "rx_inv U K ((upd_pwr (\<lambda>p. p\<lparr>pw_defrag := d\<rparr>) s)\<lparr>rx_rc := rc\<rparr>)"
  using defrag_inv [OF inv, of d "[]" rc] notegap_spec [OF rx_good_parts(6) [OF inv] n] by simp

lemma defrag_gap_inv: "rx_inv U K s \<Longrightarrow> rx_inv U K (defrag_gap a b s)"
  using notegap_inv by (auto simp: defrag_gap_def split: prod.splits)

lemma clean_defrag_inv: "rx_inv U K s \<Longrightarrow> rx_inv U K (clean_defrag s)"
  unfolding clean_defrag_def Let_def using notegap_inv by (auto split: prod.splits)

text \<open>What the validation of a message guarantees of its data.\<close>

definition data_ok :: "nn_rdata \<Rightarrow> nn_rsample_info \<Rightarrow> bool" where
  "data_ok rdata si \<longleftrightarrow> 0 < si_seq si \<and> (rd_min rdata < rd_maxp1 rdata \<or> \<not> nn_rdata_is_fragment rdata si)"

lemma defrag_rsample_inv:
  assumes inv: "rx_inv U K s" and ok: "data_ok rdata si"
    and n: "nn_defrag_rsample (pw_defrag (rx_pwr s)) rdata si (rx_rc s) = (res, d, rc)"
    and s': "s' = (upd_pwr (\<lambda>p. p\<lparr>pw_defrag := d\<rparr>) s)\<lparr>rx_rc := rc\<rparr>"
  shows "res = None \<Longrightarrow> rx_inv U K s'"
    "res = Some rs \<Longrightarrow> \<exists>frags si'. rs = singleton_rsample frags si' \<and> si_seq si' = si_seq si \<and> whole_sample frags si'
       \<and> rx_inv U (\<lambda>m. K m + RMSG_REFCOUNT_RDATA_BIAS * frag_refs m frags) s'"
proof -
  have spec: "dg_ok d \<and> dg_max_samples d = dg_max_samples (pw_defrag (rx_pwr s))
    \<and> dg_ledger (pw_defrag (rx_pwr s)) (rx_rc s) d (case res of None \<Rightarrow> [] | Some rs \<Rightarrow> riv_sc rs) rc
    \<and> (\<forall>rs. res = Some rs \<longrightarrow> complete_rsample (si_seq si) rs)"
  proof (cases "rd_min rdata < rd_maxp1 rdata")
    case True
    then show ?thesis
      using defrag_rsample_spec [OF rx_good_parts(6,7) [OF inv] True _ n] ok by (simp add: data_ok_def)
  next
    case False
    then show ?thesis
      using ok n rx_good_parts(6) [OF inv]
      by (auto simp: data_ok_def nn_defrag_rsample_def reorder_rsample_new_def dg_ledger_def rdata_bias_count nn_rdata_is_fragment_def
          complete_rsample_def singleton_rsample_def frag_refs_def)
  qed
  note i = defrag_inv [OF inv _ _, of d _ rc, folded s']
  show "rx_inv U K s'" if "res = None" using i [of "[]"] spec that by simp
  show "\<exists>frags si'. rs = singleton_rsample frags si' \<and> si_seq si' = si_seq si \<and> whole_sample frags si'
       \<and> rx_inv U (\<lambda>m. K m + RMSG_REFCOUNT_RDATA_BIAS * frag_refs m frags) s'" if r: "res = Some rs"
  proof -
    obtain frags si' q where c: "rs = singleton_rsample frags si'" "si_seq si' = si_seq si" "frags_reach 0 frags = Some q" "si_size si' \<le> q"
      using spec r by (auto simp: complete_rsample_def)
    have "rx_inv U (\<lambda>m. K m + RMSG_REFCOUNT_RDATA_BIAS * chain_refs m (riv_sc rs)) s'" using i [of "riv_sc rs"] spec r by simp
    then show ?thesis using c by (auto simp: whole_sample_def whole_elem_def singleton_rsample_def)
  qed
qed

end
