(* ===== verification/Receive_Run.thy ===== *)
theory Receive_Run
  imports Receive_Step
begin

text \<open>
  The handlers of the messages, connecting and disconnecting readers and the delivery thread keep the
  invariant of reception, and so does every run of them.
\<close>

section \<open>Messages\<close>

lemma handle_regular_inv:
  assumes inv: "rx_inv U K s" and ok: "data_ok rdata si"
  shows "rx_inv U K (handle_regular valid eclipse dst si fragnum rdata s)"
proof -
  let ?s = "clean_defrag (upd_pwr (note_data (si_seq si) fragnum) s)"
  have inv1: "rx_inv U K ?s" using clean_defrag_inv note_quiet(1) inv by blast
  obtain res d rc where n: "nn_defrag_rsample (pw_defrag (rx_pwr ?s)) rdata si (rx_rc ?s) = (res, d, rc)" by (rule prod_cases3)
  let ?s' = "(upd_pwr (\<lambda>p. p\<lparr>pw_defrag := d\<rparr>) ?s)\<lparr>rx_rc := rc\<rparr>"
  note dr = defrag_rsample_inv [OF inv1 ok n refl]
  have "rx_inv U K (case res of None \<Rightarrow> ?s' | Some rs \<Rightarrow> handle_complete_sample valid dst si rdata rs ?s')"
  proof (cases res)
    case None
    then show ?thesis using dr(1) by simp
  next
    case (Some rs)
    then obtain frags si' where r: "rs = singleton_rsample frags si'" "whole_sample frags si'"
      and i: "rx_inv U (\<lambda>m. K m + RMSG_REFCOUNT_RDATA_BIAS * frag_refs m frags) ?s'"
      using dr(2) by blast
    show ?thesis using handle_complete_sample_spec [OF i r(2)] by (simp add: Some r(1))
  qed
  then show ?thesis
    using inv unfolding handle_regular_def Let_def n prod.case by simp
qed

text \<open>The unfragmented sample that is expected next goes to all readers in sync.\<close>

lemma handle_regular_expected:
  assumes inv: "rx_inv U K s" and ok: "data_ok rdata si" "\<not> nn_rdata_is_fragment rdata si"
    and expected: "si_seq si = nn_reorder_next_seq (pw_reorder (rx_pwr s))"
    and accepts: "pw_have_seen_heartbeat (rx_pwr s) \<or> rx_n_reliable_readers s = 0 \<or> \<not> eclipse"
      "rx_readers s \<noteq> []" "\<not> rx_local_matching_inprogress s" "\<not> rx_filtered s"
  shows "(None, \<lparr>ce_fragchain = [rdata], ce_sampleinfo = Some si\<rparr>) \<in> set (calls (handle_regular valid eclipse dst si fragnum rdata s))"
proof -
  let ?s = "clean_defrag (upd_pwr (note_data (si_seq si) fragnum) s)"
  have inv1: "rx_inv U K ?s" using clean_defrag_inv note_quiet(1) inv by blast
  have same: "pw_reorder (rx_pwr ?s) = pw_reorder (rx_pwr s)" "rx_filtered ?s = rx_filtered s"
    by (simp_all add: clean_defrag_def note_data_def upd_pwr_def Let_def split: prod.split)
  obtain res d rc where n: "nn_defrag_rsample (pw_defrag (rx_pwr ?s)) rdata si (rx_rc ?s) = (res, d, rc)" by (rule prod_cases3)
  then have res: "res = Some (singleton_rsample [rdata] si)"
    using ok(2) by (auto simp: nn_defrag_rsample_def reorder_rsample_new_def singleton_rsample_def)
  let ?s' = "(upd_pwr (\<lambda>p. p\<lparr>pw_defrag := d\<rparr>) ?s)\<lparr>rx_rc := rc\<rparr>"
  obtain frags si' where r: "singleton_rsample [rdata] si = singleton_rsample frags si'" "whole_sample frags si'"
      and i: "rx_inv U (\<lambda>m. K m + RMSG_REFCOUNT_RDATA_BIAS * frag_refs m frags) ?s'"
    using defrag_rsample_inv(2) [OF inv1 ok(1) n refl res] by blast
  have f: "frags = [rdata]" "si' = si" using r(1) by (auto simp: singleton_rsample_def)
  have s': "\<not> rx_filtered ?s'" "si_seq si = ro_next_seq (pw_reorder (rx_pwr ?s'))"
    using same accepts(4) expected by (simp_all add: upd_pwr_def nn_reorder_next_seq_def)
  have "handle_regular valid eclipse dst si fragnum rdata s = handle_complete_sample valid dst si rdata (singleton_rsample [rdata] si) ?s'"
    using accepts(1-3) unfolding handle_regular_def Let_def n prod.case res by auto
  then show ?thesis using handle_complete_sample_spec [OF i r(2), of valid dst si rdata] s' by (simp add: f)
qed

lemma held_one_gap:
  assumes h: "held U K [gap] (s, adj)" and le: "a < b"
  shows "held U K [gap] (handle_one_gap valid g a b gap (s, adj))"
proof (cases "get_reader g s")
  case None
  then show ?thesis using h by (simp add: handle_one_gap_def)
next
  case (Some m)
  have "held U K [gap] (defrag_gap a b s, adj)" using h defrag_gap_inv by (simp add: held_conv)
  then have "held U K [gap] (if rm_filtered (mr_match m) then (s, adj) else primary_gap valid a b gap (defrag_gap a b s, adj))"
    (is "held U K [gap] ?st") using h held_primary_gap le by simp
  moreover obtain s1 adj1 where st: "?st = (s1, adj1)" by (rule prod.exhaust)
  ultimately have h1: "held U K [gap] (s1, adj1)" by simp
  have "held U K [gap] (if sync_state m = PRMSS_OUT_OF_SYNC then reader_gap (deliver_one valid) g a b gap (s1, adj1) else (s1, adj1))"
    (is "held U K [gap] ?st2") using h1 held_reader_gap [OF h1, of a b "deliver_one valid" valid g] le by simp
  moreover obtain s2 adj2 where st2: "?st2 = (s2, adj2)" by (rule prod.exhaust)
  ultimately have h2: "held U K [gap] (s2, adj2)" by simp
  then have "held U K [gap] (maybe_set_reader_in_sync g (b - 1) s2, adj2)" using maybe_set_inv by (simp add: held_conv)
  then show ?thesis
    using h1 unfolding handle_one_gap_def prod.case Some option.case st Let_def st2 by simp
qed

lemma held_gaps:
  assumes "held U K [gap] st" "\<forall>(a, b) \<in> set gaps. a < b"
  shows "held U K [gap] (fold (\<lambda>(a, b). handle_one_gap valid g a b gap) gaps st)"
  using assms
proof (induction gaps arbitrary: st)
  case Nil
  then show ?case by simp
next
  case (Cons ab gaps)
  obtain a b where ab: "ab = (a, b)" by (rule prod.exhaust)
  have "held U K [gap] (handle_one_gap valid g a b gap (fst st, snd st))"
    using Cons.prems ab by (intro held_one_gap) simp_all
  then show ?case using Cons.IH Cons.prems(2) ab by simp
qed

lemma gap_runs_increasing: "gap_runs numbits bits i e = (l, e') \<Longrightarrow> \<forall>(a, b) \<in> set l. a < b"
proof (induction numbits bits i e arbitrary: l e' rule: gap_runs.induct)
  case (1 n bits i e)
  let ?j = "first_clear n bits (i + 1)"
  have j: "i < ?j" using first_clear_ge [of "i + 1" n bits] by simp
  show ?case
  proof (cases "i < n \<and> nn_bitset_isset n bits i")
    case True
    obtain l2 e2 where r: "gap_runs n bits ?j ?j = (l2, e2)" by (rule prod.exhaust)
    then have "\<forall>(a, b) \<in> set l2. a < b" using 1(2) [of ?j] True by (simp add: linorder_not_le)
    then show ?thesis using 1(3) True r j by (subst (asm) gap_runs.simps) (auto simp: Let_def)
  next
    case False
    then show ?thesis using 1(1,3) by (subst (asm) (2) gap_runs.simps) (auto split: if_splits)
  qed
qed

lemma handle_Gap_inv:
  assumes inv: "rx_inv U K s"
  shows "rx_inv U K (handle_Gap valid eclipse dst gapstart listbase numbits bits rmsg s)"
proof (cases "get_reader dst s")
  case None
  then show ?thesis using inv by (simp add: handle_Gap_def)
next
  case (Some m)
  let ?i = "first_clear numbits bits 0"
  obtain gap rc where n: "nn_rdata_newgap rmsg (rx_rc s) = (gap, rc)" by (rule prod.exhaust)
  obtain runs excl where r: "gap_runs numbits bits ?i ?i = (runs, excl)" by (rule prod.exhaust)
  let ?gaps = "(if gapstart < listbase + ?i then [(gapstart, listbase + ?i)] else [])
                 @ map (\<lambda>(i, j). (listbase + i, listbase + j)) runs"
  let ?st = "fold (\<lambda>(a, b). handle_one_gap valid dst a b gap) ?gaps (s\<lparr>rx_rc := rc\<rparr>, 0)"
  obtain s1 adj1 where st: "?st = (s1, adj1)" by (rule prod.exhaust)
  have "\<forall>(a, b) \<in> set ?gaps. a < b" using gap_runs_increasing [OF r] by auto
  note h = held_gaps [OF newgap_held [OF inv n] this, of valid dst, unfolded st]
  let ?s2 = "upd_pwr (note_last_seq (listbase + excl - 1)) (s1\<lparr>rx_rc := nn_fragchain_adjust_refcount [gap] adj1 (rx_rc s1)\<rparr>)"
  have i2: "rx_inv U K ?s2" by (intro note_quiet(2) held_settle h)
  then have "rx_inv U K (if rm_filtered (mr_match m) then upd_match dst (note_match_seq (listbase + excl - 1)) ?s2 else ?s2)"
    using note_quiet(3) by simp
  then show ?thesis
    using inv unfolding handle_Gap_def Some option.case n Let_def prod.case r st by simp
qed

lemma held_heartbeat_readers:
  assumes "held U K [gap] st"
  shows "held U K [gap] (heartbeat_readers valid firstseq lastseq gap gs st)"
  using assms
proof (induction gs arbitrary: st)
  case Nil
  then show ?case by simp
next
  case (Cons g gs)
  obtain s adj where st: "st = (s, adj)" by (rule prod.exhaust)
  have h: "held U K [gap] (s, adj)" using Cons.prems st by simp
  let ?next = "\<lambda>m. let s = (if mr_end_of_tl_seq m = MAX_SEQ_NUMBER then upd_reader g (\<lambda>m. m\<lparr>mr_end_of_tl_seq := lastseq\<rparr>) s else s)
              in if sync_state m = PRMSS_TLCATCHUP
                 then (maybe_set_reader_in_sync g (nn_reorder_next_seq (pw_reorder (rx_pwr s)) - 1) s, adj)
                 else
                   (let (s, adj) = reader_gap (deliver_one valid) g 1 firstseq gap (s, adj)
                    in (maybe_set_reader_in_sync g
                          ((case get_reader g s of None \<Rightarrow> 0 | Some m \<Rightarrow> nn_reorder_next_seq (rm_reorder (mr_match m))) - 1) s, adj))"
  have "held U K [gap] (?next m)" for m
  proof -
    define s1 where "s1 = (if mr_end_of_tl_seq m = MAX_SEQ_NUMBER then upd_reader g (\<lambda>m. m\<lparr>mr_end_of_tl_seq := lastseq\<rparr>) s else s)"
    have h1: "held U K [gap] (s1, adj)" using h note_quiet(4) by (simp add: held_conv s1_def)
    have "1 < firstseq \<or> firstseq \<le> 1" by linarith
    then have "held U K [gap] (reader_gap (deliver_one valid) g 1 firstseq gap (s1, adj))"
      using held_reader_gap [OF h1] by blast
    moreover obtain s2 adj2 where "reader_gap (deliver_one valid) g 1 firstseq gap (s1, adj) = (s2, adj2)" by (rule prod.exhaust)
    ultimately show ?thesis using h1 maybe_set_inv unfolding s1_def [symmetric] Let_def by (simp add: held_conv)
  qed
  then have "held U K [gap] (case get_reader g s of None \<Rightarrow> (s, adj) | Some m \<Rightarrow> if sync_state m = PRMSS_SYNC then (s, adj) else ?next m)"
    using h by (simp split: option.split)
  then show ?case unfolding st heartbeat_readers.simps by (rule Cons.IH)
qed

text \<open>Requesting what is missing leaves the administrations as they are.\<close>

lemma helper_keeps:
  "rm_reorder (fst (handle_Heartbeat_helper cfg pwr info0 hb_count final directed tnow tnow_mt m ev)) = rm_reorder m"
  "rm_in_sync (fst (handle_Heartbeat_helper cfg pwr info0 hb_count final directed tnow tnow_mt m ev)) = rm_in_sync m"
  by (auto simp: handle_Heartbeat_helper_def Let_def)

lemma heartbeat_acknack_inv:
  assumes inv: "rx_inv U K s"
  shows "rx_inv U K (heartbeat_acknack cfg info0 dst hb_count final directed tnow tnow_mt s)"
proof (rule quiet_inv [OF _ _ _ _ inv])
  let ?s' = "heartbeat_acknack cfg info0 dst hb_count final directed tnow tnow_mt s"
  show "alike s ?s'"
    by (auto simp: alike_def heartbeat_acknack_def reorders_def comp_def split_beta helper_keeps split: option.split prod.split)
  show "map (sync_state \<circ> snd) (rx_readers ?s') = map (sync_state \<circ> snd) (rx_readers s)"
    by (auto simp: heartbeat_acknack_def comp_def split_beta helper_keeps split: option.split prod.split)
qed (simp_all add: heartbeat_acknack_def)

lemma addressed_readerD:
  assumes "addressed_reader dst s" "rx_inv U K s"
  shows "\<not> rx_deliver_synchronously s"
  using assms rx_good_parts(5) by (auto simp: addressed_reader_def)

lemma handle_Heartbeat_inv:
  assumes inv: "rx_inv U K s"
  shows "rx_inv U K (handle_Heartbeat valid cfg info0 dst firstseq lastseq hb_count final directed tnow tnow_mt rmsg s)"
proof (cases "rx_n_reliable_readers s = 0")
  case True
  then show ?thesis using inv by (simp add: handle_Heartbeat_def)
next
  case False
  define ge where "ge = (if pw_have_seen_heartbeat (rx_pwr s) then firstseq else lastseq + 1)"
  define s1 where "s1 = upd_pwr (\<lambda>p. if lastseq > pw_last_seq p then p\<lparr>pw_last_seq := lastseq, pw_last_fragnum := UINT32_MAX\<rparr>
       else if pw_last_fragnum p \<noteq> UINT32_MAX \<and> lastseq = pw_last_seq p then p\<lparr>pw_last_fragnum := UINT32_MAX\<rparr> else p)
       (upd_pwr (\<lambda>p. p\<lparr>pw_have_seen_heartbeat := True\<rparr>) s)"
  have "rx_inv U K s1" unfolding s1_def by (intro upd_pwr_quiet inv) auto
  then have i2: "rx_inv U K (defrag_gap 1 ge s1)" by (rule defrag_gap_inv)
  define s2 where "s2 = defrag_gap 1 ge s1"
  obtain gap rc where n: "nn_rdata_newgap rmsg (rx_rc s2) = (gap, rc)" by (rule prod.exhaust)
  define s3 where "s3 = s2\<lparr>rx_rc := rc\<rparr>"
  define K' where "K' = (\<lambda>m. K m + RMSG_REFCOUNT_RDATA_BIAS * frag_refs m [gap])"
  have h3: "held U K' [gap] (s3, 0)" using newgap_held [OF i2 n [unfolded s2_def]] by (simp add: s2_def s3_def K'_def)
  define st where "st = (if addressed_reader dst s3
       then (case reader_gap enqueue_one dst 1 firstseq gap (s3, 0) of (s, adj) \<Rightarrow> (upd_match dst (note_match_seq lastseq) s, adj))
       else heartbeat_readers valid firstseq lastseq gap (map fst (rx_readers s3)) (primary_gap valid 1 ge gap (s3, 0)))"
  have "held U K' [gap] st"
  proof (cases "addressed_reader dst s3")
    case True
    have "\<not> rx_deliver_synchronously s3" using addressed_readerD [OF True] h3 by (auto simp: held_conv)
    then have "held U K' [gap] (reader_gap enqueue_one dst 1 firstseq gap (s3, 0))"
      by (intro held_reader_gap [OF h3]) auto
    moreover obtain s4 adj4 where "reader_gap enqueue_one dst 1 firstseq gap (s3, 0) = (s4, adj4)" by (rule prod.exhaust)
    ultimately show ?thesis using True note_quiet(3) by (simp add: st_def held_conv)
  next
    case False
    have "1 < ge \<or> ge \<le> 1" by linarith
    then show ?thesis using False held_heartbeat_readers [OF held_primary_gap [OF h3]] by (simp add: st_def)
  qed
  moreover obtain s5 adj5 where st: "st = (s5, adj5)" by (rule prod.exhaust)
  ultimately have "rx_inv U K (heartbeat_acknack cfg info0 dst hb_count final directed tnow tnow_mt
      (s5\<lparr>rx_rc := nn_fragchain_adjust_refcount [gap] adj5 (rx_rc s5)\<rparr>))"
    unfolding K'_def by (intro heartbeat_acknack_inv held_settle) simp
  moreover have "handle_Heartbeat valid cfg info0 dst firstseq lastseq hb_count final directed tnow tnow_mt rmsg s =
     heartbeat_acknack cfg info0 dst hb_count final directed tnow tnow_mt
      (s5\<lparr>rx_rc := nn_fragchain_adjust_refcount [gap] adj5 (rx_rc s5)\<rparr>)"
    unfolding handle_Heartbeat_def if_not_P [OF False] Let_def ge_def [symmetric] s1_def [symmetric] s2_def [symmetric] n prod.case
      s3_def [symmetric] st_def [symmetric] st ..
  ultimately show ?thesis by simp
qed

section \<open>Readers\<close>

text \<open>Readers come and go: the state as the invariant sees it.\<close>

definition same_but_readers :: "reception \<Rightarrow> reception \<Rightarrow> bool" where
  "same_but_readers s s' \<longleftrightarrow> pw_defrag (rx_pwr s') = pw_defrag (rx_pwr s)
     \<and> pw_reorder (rx_pwr s') = pw_reorder (rx_pwr s) \<and> pw_dqueue (rx_pwr s') = pw_dqueue (rx_pwr s)
     \<and> rx_thread s' = rx_thread s \<and> rx_rc s' = rx_rc s \<and> rx_out s' = rx_out s
     \<and> rx_deliver_synchronously s' = rx_deliver_synchronously s \<and> rx_filtered s' = rx_filtered s"

lemma same_but_readers_good:
  assumes g: "rx_good U K cs x s" and s: "same_but_readers s s'" and ok: "readers_ok s'"
    and u: "U \<subseteq> U'" "fst ` set (rx_readers s') \<subseteq> U'" "\<forall>y \<in> set (rx_readers s'). reader_ok cs y"
    and r: "\<And>m. K' m + readers_refs m (rx_readers s') = K m + readers_refs m (rx_readers s)"
  shows "calls s' = calls s" "rx_good U' K' cs x s'"
proof -
  have dl: "pend s' = pend s \<and> deliverable s' = deliverable s \<and> calls s' = calls s"
    using s by (intro deliverable_cong) (simp_all add: same_but_readers_def)
  then show "calls s' = calls s" by simp
  have "rx_rc s' m = K' m + rx_refs m s' + x m" for m
    using g s r [of m] dl by (simp add: rx_good_def rx_refs_def same_but_readers_def)
  moreover have "\<forall>y \<in> set cs. fst y \<in> insert None (Some ` U')"
  proof -
    have "insert None (Some ` U) \<subseteq> insert None (Some ` U')" using u(1) by auto
    moreover have "\<forall>y \<in> set cs. fst y \<in> insert None (Some ` U)" using g unfolding rx_good_def by (elim conjE)
    ultimately show ?thesis by blast
  qed
  ultimately show "rx_good U' K' cs x s'"
    using g s dl ok u(2,3) unfolding rx_good_def same_but_readers_def by (simp only: simp_thms) simp
qed

lemma add_reader_inv:
  assumes inv: "rx_inv U K s" and fresh: "g \<notin> U"
    and m: "rm_reorder (mr_match m) = nn_reorder_new mode maxs late" "mode \<noteq> NN_REORDER_MODE_ALWAYS_DELIVER"
    and s: "same_but_readers s s'" "rx_readers s' = idx_insert fst (g, m) (rx_readers s)"
    and n: "rx_n_readers_out_of_sync s' = rx_n_readers_out_of_sync s + (if sync_state m = PRMSS_SYNC then 0 else 1)"
      "rx_fastpath_ok s' = (rx_fastpath_ok s \<and> sync_state m = PRMSS_SYNC)"
  shows "rx_inv (insert g U) K s'"
proof -
  have g: "rx_good U K (calls s) (\<lambda>_. 0) s" using inv by (simp add: rx_inv_def)
  then have rok: "readers_ok s" by (simp add: rx_good_def)
  have new: "g \<notin> fst ` set (rx_readers s)" using g fresh by (auto simp: rx_good_def)
  have ms: "mset (rx_readers s') = add_mset (g, m) (mset (rx_readers s))" by (simp add: s(2) idx_insert_mset)
  have st: "set (rx_readers s') = insert (g, m) (set (rx_readers s))" by (simp add: s(2) idx_insert_set)
  have "n_out_of_sync (rx_readers s') = n_out_of_sync (rx_readers s) + (if sync_state m = PRMSS_SYNC then 0 else 1)"
  proof -
    have "n_out_of_sync xs = size (filter_mset (\<lambda>x. sync_state (snd x) \<noteq> PRMSS_SYNC) (mset xs))" for xs
      by (simp add: n_out_of_sync_def flip: mset_filter)
    then show ?thesis by (simp add: ms)
  qed
  moreover have "idx_wf fst (rx_readers s')"
  proof -
    have "idx_lookup fst g (rx_readers s) = None"
      using new idx_lookup_SomeD [of fst g "rx_readers s"] by (cases "idx_lookup fst g (rx_readers s)") force+
    then show ?thesis using rok idx_insert_wf [of fst "rx_readers s" "(g, m)"] by (simp add: readers_ok_def s(2))
  qed
  ultimately have ok: "readers_ok s'"
    using rok n by (auto simp: readers_ok_def s(2))
  have "readers_refs k xs = (\<Sum>x\<in>#mset xs. ro_refs k (rm_reorder (mr_match (snd x))))" for k xs
    by (simp add: readers_refs_def flip: sum_mset_sum_list)
  then have refs: "readers_refs k (rx_readers s') = readers_refs k (rx_readers s)" for k
    by (simp add: ms m(1)) (simp add: nn_reorder_new_def ro_refs_def ivs_chain_def)
  have "x \<noteq> Some g" if "x \<in> fst ` set (calls s)" for x
  proof -
    have "x \<in> insert None (Some ` U)" using g that by (auto simp: rx_good_def)
    then show ?thesis using fresh by auto
  qed
  then have "filter (\<lambda>x. fst x = Some g) (calls s) = []" by (auto simp: filter_empty_conv)
  then have "chan (Some g) (calls s) = []" by (simp add: chan_def)
  then have "reader_ok (calls s) (g, m)"
    using m(2) ro_inv_new by (simp add: reader_ok_def m(1) in_order_def ro_good_def)
      (simp add: nn_reorder_new_def ivs_chain_def)
  then have "\<forall>y \<in> set (rx_readers s'). reader_ok (calls s) y" using g by (simp add: st rx_good_def)
  moreover have "fst ` set (rx_readers s') \<subseteq> insert g U" using g by (auto simp: st rx_good_def)
  ultimately show ?thesis
    using same_but_readers_good [OF g s(1) ok, of "insert g U" K] refs by (simp add: rx_inv_def subset_insertI)
qed

lemma drop_reader_inv:
  assumes inv: "rx_inv U K s" and m: "get_reader g s = Some m"
    and s: "same_but_readers s s'" "rx_readers s' = idx_delete fst g (rx_readers s)"
    and n: "rx_n_readers_out_of_sync s' = rx_n_readers_out_of_sync s - (if sync_state m = PRMSS_SYNC then 0 else 1)"
      "rx_fastpath_ok s' = (rx_fastpath_ok s \<or> sync_state m \<noteq> PRMSS_SYNC \<and> rx_n_readers_out_of_sync s' = 0)"
  shows "rx_inv U (\<lambda>k. K k + ro_refs k (rm_reorder (mr_match m))) s'"
proof -
  have g: "rx_good U K (calls s) (\<lambda>_. 0) s" using inv by (simp add: rx_inv_def)
  then have rok: "readers_ok s" by (simp add: rx_good_def)
  have wf: "idx_wf fst (rx_readers s)" using rok by (simp add: readers_ok_def)
  have "(g, m) \<in> set (rx_readers s)" using get_reader_iff [OF rok] m by simp
  then obtain l rr where rs: "rx_readers s = l @ (g, m) # rr" "\<forall>y\<in>set l. fst y < g" "\<forall>y\<in>set rr. g < fst y"
    using idx_split_at [OF wf] by (metis fst_conv)
  have s': "rx_readers s' = l @ rr" using idx_at(6) [of l fst "(g, m)" rr] rs by (simp add: s(2))
  have "n_out_of_sync (rx_readers s) = n_out_of_sync (l @ rr) + (if sync_state m = PRMSS_SYNC then 0 else 1)"
    by (simp add: rs(1) n_out_of_sync_def)
  moreover have "idx_wf fst (l @ rr)" using idx_delete_wf [OF wf, of g] by (simp flip: s' add: s(2))
  ultimately have "readers_ok s'"
    using rok n by (auto simp: readers_ok_def s')
  moreover have "\<forall>y \<in> set (rx_readers s'). reader_ok (calls s) y" "fst ` set (rx_readers s') \<subseteq> U"
    using g rs(1) by (auto simp: s' rx_good_def)
  ultimately show ?thesis
    using same_but_readers_good [OF g s(1) _ order_refl, of "\<lambda>k. K k + ro_refs k (rm_reorder (mr_match m))"]
    by (simp add: rx_inv_def) (simp add: s' rs(1) readers_refs_def)
qed

lemma reorder_free_count: "nn_reorder_free r rc m = rc m - ro_refs m r"
proof -
  have "reorder_free_ivs xs rc m = rc m - chain_refs m (ivs_chain xs)" for xs
    by (induction xs arbitrary: rc) (auto simp: sample_chain_unref_count)
  then show ?thesis by (simp add: nn_reorder_free_def ro_refs_def)
qed

text \<open>Dropping what the primary administration holds.\<close>

lemma drop_upto_inv:
  assumes inv: "rx_inv U K s" and n: "nn_reorder_drop_upto (pw_reorder (rx_pwr s)) b (rx_rc s) = (r, rc)"
  shows "rx_inv U K ((upd_pwr (\<lambda>p. p\<lparr>pw_reorder := r\<rparr>) s)\<lparr>rx_rc := rc\<rparr>)"
proof -
  let ?gap = "nn_rdata_new 0 0 0 0 0 0"
  obtain res sc r' adj rc' where g: "nn_reorder_gap (pw_reorder (rx_pwr s)) ?gap 1 b 0 (rx_rc s) = (res, sc, r', adj, rc')"
    by (metis prod_cases5)
  have good: "ro_good (pw_reorder (rx_pwr s))" using rx_good_parts(1) [OF inv] .
  have "1 < b \<or> b \<le> 1" by linarith
  note c = gap_called1 [OF good this, of "rx_rc s" ?gap 0, unfolded g]
  have adj: "adj = 0" using gap1_not_stored [OF _ g] good by (simp add: ro_good_def)
  have r: "r = r'" "rc = (if res > 0 then sample_chain_unref sc rc' else rc')"
    using n g by (auto simp: nn_reorder_drop_upto_def Let_def)
  have "sc = []" if "\<not> res > 0" using c that by (auto simp: ro_called_def)
  then have rcm: "rc m = rc' m - chain_refs m sc" for m using r(2) by (auto simp: sample_chain_unref_count)
  let ?s1 = "(upd_pwr (\<lambda>p. p\<lparr>pw_reorder := r\<rparr>) s)\<lparr>rx_rc := rc\<rparr>"
  have dl: "pend ?s1 = pend s \<and> deliverable ?s1 = deliverable s \<and> calls ?s1 = calls s"
    by (intro deliverable_cong) (simp_all add: upd_pwr_def)
  have "in_order r qs" if "ro_mode (pw_reorder (rx_pwr s)) \<noteq> NN_REORDER_MODE_ALWAYS_DELIVER" "in_order (pw_reorder (rx_pwr s)) qs" for qs
  proof -
    have "chain_ok (ro_next_seq (pw_reorder (rx_pwr s))) sc (ro_next_seq r')" using c that(1) by (simp add: ro_called_def)
    then show ?thesis using in_order_append(2) [OF that(2)] r(1) by blast
  qed
  moreover have "rc m = K m + rx_refs m ?s1" for m
    using c inv dl rcm [of m] adj by (simp add: ro_called_def rx_inv_def rx_good_def rx_refs_def) (simp add: upd_pwr_def r(1))
  moreover have "ro_good r \<and> ro_mode r = ro_mode (pw_reorder (rx_pwr s))" using c by (simp add: ro_called_def r(1))
  moreover have "readers_ok ?s1 = readers_ok s" by (simp add: readers_ok_def upd_pwr_def)
  ultimately show ?thesis
    using inv dl unfolding rx_inv_def rx_good_def by (simp add: upd_pwr_def)
qed

lemma add_connection_inv:
  assumes inv: "rx_inv U K s" and fresh: "ri_guid rd \<notin> U"
  shows "rx_inv (insert (ri_guid rd) U) K (proxy_writer_add_connection cfg eclipse use_iceoryx rd tcreate tnow init_count s)"
proof -
  have none: "get_reader (ri_guid rd) s = None"
  proof (rule ccontr)
    assume "get_reader (ri_guid rd) s \<noteq> None"
    then obtain m where "(ri_guid rd, m) \<in> set (rx_readers s)" using get_reader_iff [OF rx_good_parts(2) [OF inv]] by auto
    then show False using inv fresh by (auto simp: rx_inv_def rx_good_def)
  qed
  obtain sync e where i: "initial_sync eclipse use_iceoryx rd s = (sync, e)" by (rule prod.exhaust)
  let ?s' = "proxy_writer_add_connection cfg eclipse use_iceoryx rd tcreate tnow init_count s"
  let ?maxs = "if ri_volatile_secure rd then rcf_primary_reorder_maxsamples cfg else rcf_secondary_reorder_maxsamples cfg"
  let ?m = "(new_match init_count tcreate)\<lparr>rm_in_sync := sync\<rparr>"
  show ?thesis
  proof (cases "ri_reliable rd")
    case True
    let ?rm = "\<lparr>mr_match = ?m\<lparr>rm_filtered := ri_volatile_secure rd,
        rm_reorder := nn_reorder_new NN_REORDER_MODE_NORMAL ?maxs (rcf_late_ack_mode cfg)\<rparr>, mr_end_of_tl_seq = e,
        mr_acknack_xevent = Some (if use_iceoryx then DDS_NEVER else ddsrt_mtime_add_duration tnow (rcf_preemptive_ack_delay cfg))\<rparr>"
    show ?thesis
      by (rule add_reader_inv [OF inv fresh, of ?rm NN_REORDER_MODE_NORMAL ?maxs "rcf_late_ack_mode cfg"])
        (simp_all add: proxy_writer_add_connection_def Let_def i none True same_but_readers_def)
  next
    case False
    let ?rm = "\<lparr>mr_match = ?m\<lparr>rm_reorder := nn_reorder_new NN_REORDER_MODE_MONOTONICALLY_INCREASING
        (rcf_secondary_reorder_maxsamples cfg) (rcf_late_ack_mode cfg)\<rparr>, mr_end_of_tl_seq = e, mr_acknack_xevent = None\<rparr>"
    show ?thesis
      by (rule add_reader_inv [OF inv fresh, of ?rm NN_REORDER_MODE_MONOTONICALLY_INCREASING "rcf_secondary_reorder_maxsamples cfg"
            "rcf_late_ack_mode cfg"])
        (simp_all add: proxy_writer_add_connection_def Let_def i none False same_but_readers_def)
  qed
qed

lemma drop_connection_inv:
  assumes inv: "rx_inv U K s"
  shows "rx_inv U K (proxy_writer_drop_connection isreliable g reliable s)"
proof (cases "get_reader g s")
  case None
  then show ?thesis using inv by (simp add: proxy_writer_drop_connection_def)
next
  case (Some m)
  define K' where "K' = (\<lambda>k. K k + ro_refs k (rm_reorder (mr_match m)))"
  define s1 where "s1 = s\<lparr>rx_readers := idx_delete fst g (rx_readers s)\<rparr>"
  define s2 where "s2 = (if sync_state m \<noteq> PRMSS_SYNC
       then (let n = rx_n_readers_out_of_sync s1 - 1;
                 s = s1\<lparr>rx_n_readers_out_of_sync := n\<rparr>
             in if n = 0 then s\<lparr>rx_fastpath_ok := True\<rparr> else s)
       else s1)"
  define s3 where "s3 = (if reliable then s2\<lparr>rx_n_reliable_readers := rx_n_reliable_readers s2 - 1\<rparr> else s2)"
  have i3: "rx_inv U K' s3"
    unfolding K'_def
    by (rule drop_reader_inv [OF inv Some])
      (simp_all add: s3_def s2_def s1_def same_but_readers_def Let_def)
  define s4 where "s4 = (if rx_n_reliable_readers s3 = 0 \<and> isreliable \<and> pw_have_seen_heartbeat (rx_pwr s3)
       then (let s = defrag_gap 1 (pw_last_seq (rx_pwr s3) + 1) (upd_pwr (\<lambda>p. p\<lparr>pw_have_seen_heartbeat := False\<rparr>) s3);
                 (r, rc) = nn_reorder_drop_upto (pw_reorder (rx_pwr s)) (pw_last_seq (rx_pwr s) + 1) (rx_rc s)
             in (upd_pwr (\<lambda>p. p\<lparr>pw_reorder := r\<rparr>) s)\<lparr>rx_rc := rc\<rparr>)
       else s3)"
  have "rx_inv U K' (defrag_gap 1 (pw_last_seq (rx_pwr s3) + 1) (upd_pwr (\<lambda>p. p\<lparr>pw_have_seen_heartbeat := False\<rparr>) s3))"
    using i3 by (intro defrag_gap_inv upd_pwr_quiet) auto
  then have i4: "rx_inv U K' s4"
    using i3 drop_upto_inv by (auto simp: s4_def Let_def split: prod.split)
  define s5 where "s5 = (if rm_filtered (mr_match m)
       then (let (d, rc) = nn_defrag_prune (pw_defrag (rx_pwr s4)) (take 12 g) (rm_last_seq (mr_match m)) (rx_rc s4)
             in (upd_pwr (\<lambda>p. p\<lparr>pw_defrag := d\<rparr>) s4)\<lparr>rx_rc := rc\<rparr>)
       else s4)"
  have i5: "rx_inv U K' s5"
    using i4 defrag_inv [OF i4, of _ "[]"] prune_spec [OF rx_good_parts(6) [OF i4]]
    by (auto simp: s5_def split: prod.split)
  then have "rx_inv U K (s5\<lparr>rx_rc := nn_reorder_free (rm_reorder (mr_match m)) (rx_rc s5)\<rparr>)"
    by (rule rc_inv) (simp add: K'_def reorder_free_count)
  moreover have "proxy_writer_drop_connection isreliable g reliable s =
      s5\<lparr>rx_rc := nn_reorder_free (rm_reorder (mr_match m)) (rx_rc s5)\<rparr>"
    unfolding proxy_writer_drop_connection_def Some option.case s1_def [symmetric]
    by (simp only: Let_def s2_def s3_def s4_def s5_def)
  ultimately show ?thesis by simp
qed

section \<open>The delivery thread\<close>

text \<open>The next thing the thread does: when it has handled all it took, it takes the queue.\<close>

definition rx_thread_step :: "(nn_rsample_chain_elem \<Rightarrow> bool) \<Rightarrow> reception \<Rightarrow> reception" where
  "rx_thread_step valid s = (if th_sc (rx_thread s) = [] then rx_take s else rx_process valid s)"

lemma delivery_good:
  assumes g: "rx_good U K cs x s" and f: "same_but_delivery s s'" and c: "calls s' = cs" and d: "deliverable s'"
    and rc: "\<And>m. rx_rc s' m - pend_refs m (pend s') = rx_rc s m - pend_refs m (pend s)"
  shows "rx_good U K cs x s'"
proof -
  have "rx_rc s' m = K m + rx_refs m s' + x m" for m
    using g rc [of m] f by (simp add: rx_good_def rx_refs_def same_but_delivery_def)
  then show ?thesis using g f d unfolding rx_good_def by (simp add: same_but_delivery_def readers_ok_def)
qed

lemma rx_take_spec:
  assumes inv: "rx_inv U K s" and e: "th_sc (rx_thread s) = []"
  shows "rx_inv U K (rx_take s) \<and> pend (rx_take s) = pend s \<and> calls (rx_take s) = calls s \<and> th_sc (rx_thread (rx_take s)) = pend s"
proof -
  have p: "pend (rx_take s) = pend s" using e by (simp add: rx_take_def dqueue_take_def pend_def upd_pwr_def)
  have st: "settled (rx_take s) = settled s" unfolding settled_def p by (simp add: rx_take_def dqueue_take_def)
  have f: "same_but_delivery s (rx_take s)" "rx_rc (rx_take s) = rx_rc s" "rx_out (rx_take s) = rx_out s"
    by (simp_all add: rx_take_def dqueue_take_def same_but_delivery_def upd_pwr_def)
  have c: "calls (rx_take s) = calls s" by (simp add: calls_def st f)
  moreover have "deliverable (rx_take s)"
    using rx_good_parts(3) [OF inv] f(1) by (simp add: deliverable_def idle_def st p same_but_delivery_def)
  ultimately have "rx_inv U K (rx_take s)"
    using inv delivery_good [OF _ f(1), of U K "calls s"] unfolding rx_inv_def by (simp add: f p)
  then show ?thesis using p c e by (simp add: rx_take_def dqueue_take_def pend_def)
qed

text \<open>What the handler does with the calls of one element.\<close>

lemma rx_calls_frame:
  "same_but_delivery s (rx_calls valid out s) \<and> pend (rx_calls valid out s) = pend s \<and> rx_rc (rx_calls valid out s) = rx_rc s
   \<and> rx_thread (rx_calls valid out s) = rx_thread s
   \<and> map (\<lambda>d. (dl_rdguid d, dl_elem d)) (rx_out (rx_calls valid out s)) =
       map (\<lambda>d. (dl_rdguid d, dl_elem d)) (rx_out s) @ filter (\<lambda>(g, e). ce_sampleinfo e \<noteq> None) (handler_calls out)"
proof (induction valid out s rule: rx_calls.induct)
  case (1 valid s)
  then show ?case by (simp add: same_but_delivery_def)
next
  case (2 valid g e cs s)
  note f = deliver_user_data_frame [where s = s and valid = valid and e = e and c = g]
  show ?case using 2 f same_but_delivery_trans [OF f(1)] by (auto simp: data_elems_def)
next
  case (3 valid cb cs s)
  then show ?case by simp
qed

lemma handle_data:
  assumes "dqueue_handle e th rc = (th1, rc1, out)"
  shows "filter (\<lambda>(g, e). ce_sampleinfo e \<noteq> None) (handler_calls out) = handler_calls out"
    "dqueue_handle e (th\<lparr>th_sc := xs\<rparr>) rc = (th1\<lparr>th_sc := xs\<rparr>, rc1, out)" "th_sc th1 = th_sc th"
  using assms by (auto simp: dqueue_handle_def Let_def dqueue_elem_kind_def split: dq_elem.splits)

lemma rx_process_spec:
  assumes inv: "rx_inv U K s" and e: "th_sc (rx_thread s) \<noteq> []"
  shows "rx_inv U K (rx_process valid s) \<and> calls (rx_process valid s) = calls s \<and> length (pend s) = Suc (length (pend (rx_process valid s)))"
proof -
  obtain e es where th: "th_sc (rx_thread s) = e # es" using e by (cases "th_sc (rx_thread s)") auto
  obtain th1 rc1 out where h: "dqueue_handle e ((rx_thread s)\<lparr>th_sc := es\<rparr>) (rx_rc s) = (th1, rc1, out)" by (rule prod_cases3)
  define q where "q = pw_dqueue (rx_pwr s)"
  define s1 where "s1 = (upd_pwr (\<lambda>p. p\<lparr>pw_dqueue := q\<lparr>dq_nof_samples := dq_nof_samples q - 1\<rparr>\<rparr>) s)\<lparr>rx_thread := th1, rx_rc := rc1\<rparr>"
  have s': "rx_process valid s = rx_calls valid out s1"
    by (simp add: rx_process_def dqueue_process_def th h s1_def q_def Let_def)
  note f = rx_calls_frame [of s1 valid out]
  have p1: "pend s1 = es @ dq_sc q" using handle_data(3) [OF h] by (simp add: pend_def s1_def upd_pwr_def)
  have p: "pend s = e # es @ dq_sc q" by (simp add: pend_def th q_def)
  obtain t2 r2 o2 where r: "dq_handle_all (es @ dq_sc q) (th1\<lparr>th_sc := []\<rparr>) (\<lambda>_. 0) = (t2, r2, o2)" by (rule prod_cases3)
  have rcm: "rc1 m = rx_rc s m - elem_refs m e" for m using handle_rc [OF h, of "rx_rc s"] h by (auto simp: fun_eq_iff)
  have h0: "dqueue_handle e ((rx_thread s)\<lparr>th_sc := []\<rparr>) (\<lambda>_. 0) = (th1\<lparr>th_sc := []\<rparr>, \<lambda>m. 0 - elem_refs m e, out)"
    using handle_rc [OF handle_data(2) [OF h, of "[]"], of "\<lambda>_. 0"] by simp
  have st: "settled s = (t2, \<lambda>m. (0 - elem_refs m e) - pend_refs m (es @ dq_sc q), out @ o2)"
    using h0 handle_all_rc [OF r, of "\<lambda>m. 0 - elem_refs m e"] by (simp add: settled_def p del: pend_refs_simps)
  have st1: "settled s1 = (t2, r2, o2)" using r by (simp add: settled_def p1) (simp add: s1_def)
  have st': "settled (rx_process valid s) = settled s1" using f by (simp add: settled_def s')
  have out1: "rx_out s1 = rx_out s" by (simp add: s1_def upd_pwr_def)
  have "same_but_delivery s s1" by (simp add: same_but_delivery_def s1_def upd_pwr_def)
  then have sd: "same_but_delivery s (rx_process valid s)" using f same_but_delivery_trans by (simp add: s')
  have c: "calls (rx_process valid s) = calls s"
    using f handle_data(1) [OF h] out1 unfolding calls_def st' st1 st by (simp add: s')
  moreover have "deliverable (rx_process valid s)"
    using rx_good_parts(3) [OF inv] sd e by (simp add: deliverable_def idle_def st' st1 st same_but_delivery_def pend_def)
  moreover have "rx_rc (rx_process valid s) m - pend_refs m (pend (rx_process valid s)) = rx_rc s m - pend_refs m (pend s)" for m
    using f rcm [of m] by (simp add: s' p p1) (simp add: s1_def)
  ultimately have "rx_inv U K (rx_process valid s)"
    using inv c delivery_good [OF _ sd, of U K "calls s"] unfolding rx_inv_def by simp
  then show ?thesis using c f by (simp add: s' p p1)
qed

lemma rx_thread_step_inv: "rx_inv U K s \<Longrightarrow> rx_inv U K (rx_thread_step valid s)"
  using rx_take_spec rx_process_spec by (simp add: rx_thread_step_def)

text \<open>Left alone, the thread handles everything that waits.\<close>

lemma rx_thread_drains:
  assumes "rx_inv U K s"
  shows "\<exists>n. map (\<lambda>d. (dl_rdguid d, dl_elem d)) (rx_out ((rx_thread_step valid ^^ n) s)) = calls s"
  using assms
proof (induction "length (pend s)" arbitrary: s rule: less_induct)
  case less
  show ?case
  proof (cases "pend s = []")
    case True
    then have "map (\<lambda>d. (dl_rdguid d, dl_elem d)) (rx_out ((rx_thread_step valid ^^ 0) s)) = calls s"
      by (simp add: calls_def settled_def)
    then show ?thesis by blast
  next
    case False
    have "\<exists>k s1. s1 = (rx_thread_step valid ^^ k) s \<and> rx_inv U K s1 \<and> calls s1 = calls s \<and> length (pend s1) < length (pend s)"
    proof (cases "th_sc (rx_thread s) = []")
      case True
      note t = rx_take_spec [OF less.prems True]
      have ne: "th_sc (rx_thread (rx_take s)) \<noteq> []" using t False by simp
      note p = rx_process_spec [OF conjunct1 [OF t] ne, of valid]
      have "rx_process valid (rx_take s) = (rx_thread_step valid ^^ 2) s"
        using True ne by (simp add: rx_thread_step_def numeral_2_eq_2)
      then show ?thesis using p t by (metis lessI)
    next
      case ne: False
      have "rx_process valid s = (rx_thread_step valid ^^ 1) s" using ne by (simp add: rx_thread_step_def)
      then show ?thesis using rx_process_spec [OF less.prems ne, of valid] by (metis lessI)
    qed
    then obtain k s1 where k: "s1 = (rx_thread_step valid ^^ k) s" "rx_inv U K s1" "calls s1 = calls s" "length (pend s1) < length (pend s)"
      by blast
    obtain n where "map (\<lambda>d. (dl_rdguid d, dl_elem d)) (rx_out ((rx_thread_step valid ^^ n) s1)) = calls s1"
      using less.hyps [OF k(4,2)] by blast
    then have "map (\<lambda>d. (dl_rdguid d, dl_elem d)) (rx_out ((rx_thread_step valid ^^ (n + k)) s)) = calls s"
      by (simp add: funpow_add k(3)) (simp add: k(1))
    then show ?thesis by blast
  qed
qed

end
