(* ===== verification/Receive_Props.thy ===== *)
theory Receive_Props
  imports Receive_Run
begin

text \<open>
  Runs of the reception at a proxy writer, from its creation on, and their properties.
\<close>

section \<open>Runs\<close>

text \<open>
  What happens at a proxy writer: data (vendor flag, destination, sample, highest fragment number,
  fragment), gaps, heartbeats, connecting and disconnecting readers, the end of the initial matching,
  and a step of the delivery thread.
\<close>

datatype rx_event =
    Rx_data bool ddsi_guid nn_rsample_info nat nn_rdata
  | Rx_gap bool ddsi_guid seqno seqno nat "u32 list" rmsg_id
  | Rx_heartbeat ack_config add_AckNack_info ddsi_guid seqno seqno u32 bool bool int int rmsg_id
  | Rx_connect reorder_config bool bool reader_info int int u32
  | Rx_disconnect bool ddsi_guid bool
  | Rx_matched
  | Rx_thread

fun rx_do :: "(nn_rsample_chain_elem \<Rightarrow> bool) \<Rightarrow> rx_event \<Rightarrow> reception \<Rightarrow> reception" where
  "rx_do valid (Rx_data eclipse dst si fragnum rdata) s = handle_regular valid eclipse dst si fragnum rdata s"
| "rx_do valid (Rx_gap eclipse dst gapstart listbase numbits bits rmsg) s = handle_Gap valid eclipse dst gapstart listbase numbits bits rmsg s"
| "rx_do valid (Rx_heartbeat cfg info0 dst firstseq lastseq hb_count final directed tnow tnow_mt rmsg) s =
     handle_Heartbeat valid cfg info0 dst firstseq lastseq hb_count final directed tnow tnow_mt rmsg s"
| "rx_do valid (Rx_connect cfg eclipse use_iceoryx rd tcreate tnow init_count) s =
     proxy_writer_add_connection cfg eclipse use_iceoryx rd tcreate tnow init_count s"
| "rx_do valid (Rx_disconnect isreliable g reliable) s = proxy_writer_drop_connection isreliable g reliable s"
| "rx_do valid Rx_matched s = local_matching_done s"
| "rx_do valid Rx_thread s = rx_thread_step valid s"

definition reception_run :: "(nn_rsample_chain_elem \<Rightarrow> bool) \<Rightarrow> rx_event list \<Rightarrow> reception \<Rightarrow> reception" where
  "reception_run valid es s = fold (rx_do valid) es s"

text \<open>The validation of messages, and that a GUID is never used for a second reader.\<close>

fun rx_event_ok :: "rx_event \<Rightarrow> bool" where
  "rx_event_ok (Rx_data eclipse dst si fragnum rdata) \<longleftrightarrow> data_ok rdata si"
| "rx_event_ok _ \<longleftrightarrow> True"

fun rx_connected :: "rx_event \<Rightarrow> ddsi_guid list" where
  "rx_connected (Rx_connect cfg eclipse use_iceoryx rd tcreate tnow init_count) = [ri_guid rd]"
| "rx_connected _ = []"

definition rx_events_ok :: "rx_event list \<Rightarrow> bool" where
  "rx_events_ok es \<longleftrightarrow> (\<forall>e \<in> set es. rx_event_ok e) \<and> distinct (concat (map rx_connected es))"

lemma rx_do_inv:
  assumes inv: "rx_inv U K s" and ok: "rx_event_ok e" "set (rx_connected e) \<inter> U = {}"
  shows "rx_inv (set (rx_connected e) \<union> U) K (rx_do valid e s)"
proof (cases e)
  case (Rx_data eclipse dst si fragnum rdata)
  then show ?thesis using handle_regular_inv [OF inv] ok(1) by simp
next
  case Rx_matched
  have "rx_inv U K (local_matching_done s)"
    by (rule quiet_inv [OF _ _ _ _ inv]) (simp_all add: local_matching_done_def alike_def reorders_def)
  then show ?thesis using Rx_matched by simp
qed (use inv ok in \<open>simp_all add: handle_Gap_inv handle_Heartbeat_inv add_connection_inv drop_connection_inv rx_thread_step_inv\<close>)

lemma rx_steps_inv:
  assumes "rx_inv U K s" "\<forall>e \<in> set es. rx_event_ok e" "distinct (concat (map rx_connected es))"
    "set (concat (map rx_connected es)) \<inter> U = {}"
  shows "\<exists>U'. rx_inv U' K (reception_run valid es s)"
  using assms unfolding reception_run_def
proof (induction es arbitrary: U s)
  case Nil
  then show ?case by auto
next
  case (Cons e es)
  have "rx_inv (set (rx_connected e) \<union> U) K (rx_do valid e s)"
    using Cons.prems by (intro rx_do_inv) auto
  moreover have "set (concat (map rx_connected es)) \<inter> (set (rx_connected e) \<union> U) = {}" using Cons.prems(3,4) by auto
  ultimately show ?case using Cons.IH [of "set (rx_connected e) \<union> U" "rx_do valid e s"] Cons.prems(2,3) by simp
qed

text \<open>A proxy writer as it is created, with room for at least one sample in the defragmenter.\<close>

lemma new_proxy_writer_inv:
  assumes "0 < defrag_maxsamples"
  shows "rx_inv {} rc (new_proxy_writer cfg isreliable builtin stateless volatile_secure synchronous defrag_maxsamples dqueue_maxsamples rc)"
    (is "rx_inv {} rc ?s")
proof -
  have set: "settled ?s = (dqueue_thread_init, \<lambda>_. 0, [])"
    by (simp add: settled_def pend_def new_proxy_writer_def nn_dqueue_new_def dqueue_thread_init_def)
  have p: "pend ?s = []" by (simp add: pend_def new_proxy_writer_def nn_dqueue_new_def dqueue_thread_init_def)
  have c: "calls ?s = []" by (simp add: calls_def set) (simp add: new_proxy_writer_def)
  have d: "deliverable ?s" by (simp add: deliverable_def idle_def set p) (simp add: dqueue_thread_init_def)
  have r: "ro_good (pw_reorder (rx_pwr ?s))" "ro_refs m (pw_reorder (rx_pwr ?s)) = 0" for m
    using ro_inv_new by (simp_all add: new_proxy_writer_def Let_def ro_good_def nn_reorder_set_next_seq_def ro_inv_def ro_refs_def)
      (simp_all add: nn_reorder_new_def ivs_chain_def MAX_SEQ_NUMBER_def)
  show ?thesis
    using assms r dg_ok_new [OF assms] unfolding rx_inv_def rx_good_def c
    by (simp add: d rx_refs_def p chan_def in_order_def chain_seqs_def)
      (simp add: new_proxy_writer_def readers_ok_def readers_refs_def n_out_of_sync_def nn_defrag_new_def dg_refs_def)
qed

lemma reception_run_inv:
  assumes "rx_events_ok es" "0 < defrag_maxsamples"
  shows "\<exists>U. rx_inv U rc (reception_run valid es
    (new_proxy_writer cfg isreliable builtin stateless volatile_secure synchronous defrag_maxsamples dqueue_maxsamples rc))"
  using rx_steps_inv [OF new_proxy_writer_inv [OF assms(2)], of es] assms(1) by (auto simp: rx_events_ok_def)

lemma in_sync_readers_exact:
  assumes "rx_inv U K s"
  shows "in_sync_readers s = map fst (filter (\<lambda>x. sync_state (snd x) = PRMSS_SYNC) (rx_readers s))"
proof -
  have ok: "readers_ok s" using rx_good_parts(2) [OF assms] .
  show ?thesis
  proof (cases "rx_fastpath_ok s")
    case True
    then have "n_out_of_sync (rx_readers s) = 0" using ok by (simp add: readers_ok_def)
    then have "\<forall>x \<in> set (rx_readers s). sync_state (snd x) = PRMSS_SYNC" by (auto simp: n_out_of_sync_def filter_empty_conv)
    then have "filter (\<lambda>x. sync_state (snd x) = PRMSS_SYNC) (rx_readers s) = rx_readers s" by (simp add: filter_id_conv)
    then show ?thesis using True by (simp add: in_sync_readers_def)
  next
    case False
    then show ?thesis by (simp add: in_sync_readers_def case_prod_unfold)
  qed
qed

text \<open>What the handler was given on a channel (\<open>None\<close>: for all readers in sync).\<close>

definition handed_on :: "ddsi_guid option \<Rightarrow> reception \<Rightarrow> nn_rsample_chain_elem list" where
  "handed_on c s = map dl_elem (filter (\<lambda>d. dl_rdguid d = c) (rx_out s))"

lemma handed_on_calls: "\<exists>qs. chan c (calls s) = chain_seqs (handed_on c s) @ qs"
  by (simp add: chan_def calls_def handed_on_def filter_map comp_def)

lemma reception_run_thread: "reception_run valid (replicate n Rx_thread) s = (rx_thread_step valid ^^ n) s"
  by (induction n arbitrary: s) (simp_all add: reception_run_def funpow_swap1)

section \<open>Examples\<close>

definition demo_cfg :: reorder_config where
  "demo_cfg = \<lparr>rcf_primary_reorder_maxsamples = 128, rcf_secondary_reorder_maxsamples = 128, rcf_late_ack_mode = False,
     rcf_preemptive_ack_delay = 10000000\<rparr>"

definition demo_acfg :: ack_config where
  "demo_acfg = \<lparr>late_ack_mode = False, ack_delay = 10, nack_delay = 10, auto_resched_nack_delay = 1000, meas_hb_to_ack_latency = False\<rparr>"

definition demo_info0 :: add_AckNack_info where
  "demo_info0 = \<lparr>ai_nack_sent_on_nackdelay = False, ai_bitmap_base = 0, ai_numbits = 0, ai_bits = replicate 8 0, ai_frag_seq = 0,
     ai_frag_base = 0, ai_frag_numbits = 0, ai_frag_bits = replicate 8 0\<rparr>"

definition demo_gid :: "u8 \<Rightarrow> ddsi_guid" where
  "demo_gid n = [0, 0, 0, 0, 0, 0, 0, 0, 0, 0, 0, 0, 0, 0, 0, n]"

text \<open>A reliable transient-local reader, a heartbeat up to \<open>q\<close>, sample \<open>q\<close>, a gap for one reader.\<close>

definition demo_connect :: "u8 \<Rightarrow> rx_event" where
  "demo_connect n = Rx_connect demo_cfg False False
     \<lparr>ri_guid = demo_gid n, ri_handle_as_transient_local = True, ri_reliable = True, ri_builtin = False, ri_volatile_secure = False\<rparr> 0 0 0"

definition demo_heartbeat :: "seqno \<Rightarrow> u32 \<Rightarrow> rx_event" where
  "demo_heartbeat q cnt = Rx_heartbeat demo_acfg demo_info0 (demo_gid 0) 1 q cnt True False 0 0 98"

definition demo_sample :: "seqno \<Rightarrow> rx_event" where
  "demo_sample q = Rx_data False (demo_gid 0) (demo_info q 8) 0 (demo_frag q 0 8)"

definition demo_gap :: "u8 \<Rightarrow> seqno \<Rightarrow> rx_event" where
  "demo_gap n q = Rx_gap False (demo_gid n) q (q + 1) 0 [] 99"

definition demo_writer :: reception where
  "demo_writer = new_proxy_writer demo_cfg True False False False False 16 256 (\<lambda>_. 0)"

definition got :: "ddsi_guid \<Rightarrow> reception \<Rightarrow> seqno list" where
  "got g s = map (\<lambda>d. si_seq (the (ce_sampleinfo (dl_elem d)))) (filter (\<lambda>d. g \<in> set (dl_readers d)) (rx_out s))"

lemma demo_gid_simps [simp]:
  "demo_gid 1 < demo_gid 2" "demo_gid 1 \<noteq> demo_gid 2" "demo_gid 2 \<noteq> demo_gid 1" "\<not> demo_gid 2 < demo_gid 1"
  "handle_forall_destinations (demo_gid 0) g"
  by (simp_all add: demo_gid_def handle_forall_destinations_def)

lemmas demo_events = demo_cfg_def demo_acfg_def demo_info0_def demo_connect_def demo_heartbeat_def demo_sample_def demo_gap_def demo_writer_def
  demo_info_def demo_frag_def

lemmas reception_defs = reception_run_def handle_regular_def handle_Gap_def handle_Heartbeat_def proxy_writer_add_connection_def
  rx_thread_step_def rx_take_def rx_process_def
  local_matching_done_def new_proxy_writer_def get_proxy_writer_reorder_mode_def initial_sync_def new_match_def
  get_reader_def upd_reader_def upd_match_def upd_pwr_def in_sync_readers_def deliver_user_data_def enqueue_one_def deliver_all_def deliver_one_def
  reader_in_sync_def maybe_set_reader_in_sync_def clean_defrag_def reader_rsample_def primary_rsample_def note_data_def note_match_seq_def
  addressed_reader_def handle_complete_sample_def primary_gap_def reader_gap_def defrag_gap_def handle_one_gap_def note_last_seq_def
  heartbeat_acknack_def MAX_SEQ_NUMBER_def first_clear_def handle_Heartbeat_helper_def accept_ack_or_hb_w_timeout_def

lemmas administration_defs = nn_defrag_notegap_def nn_defrag_rsample_def nn_rdata_is_fragment_def nn_defrag_new_def defrag_find_max_def
  defrag_max_seq_def nn_rdata_newgap_def nn_rdata_new_def nn_reorder_new_def nn_reorder_next_seq_def
  reorder_rsample_new_def nn_rsample_fragchain_def nn_reorder_rsample_def nn_reorder_gap_def reorder_deliver_def
  reorder_try_append_and_discard_def reorder_insert_below_def reorder_insert_apart_def reorder_insert_gap_def gap_interval_def
  nn_reorder_rsample_dup_first_def delete_last_sample_def max_sampleiv_def reorder_discard_def first_size_def
  singleton_rsample_def append_rsample_interval_def coalesce_intervals_touching_range_def
  first_touching_def coalesce_successors.simps reorder_results idx_defs nn_bitset_isset_def

lemmas queue_defs = nn_dqueue_new_def dqueue_thread_init_def nn_dqueue_is_full_def nn_dqueue_enqueue_def nn_dqueue_enqueue1_def
  nn_dqueue_enqueue_deferred_wakeup_def nn_dqueue_enqueue_locked_def nn_dqueue_enqueue_bubble_locked_def dqueue_add_count_def
  dqueue_take_def dqueue_handle_def dqueue_process_def dqueue_elem_kind_def

lemma replicate_threads: "replicate 7 Rx_thread = [Rx_thread, Rx_thread, Rx_thread, Rx_thread, Rx_thread, Rx_thread, Rx_thread]"
  "replicate 8 Rx_thread = [Rx_thread, Rx_thread, Rx_thread, Rx_thread, Rx_thread, Rx_thread, Rx_thread, Rx_thread]"
  by (simp_all add: eval_nat_numeral)

lemmas run_simps = replicate_threads demo_events reception_defs administration_defs queue_defs Let_def

text \<open>
  Reader 2 connects while 2 and 3 are known to exist and missing, catches up with 1, and then is told
  that 2 is no more.
\<close>

definition demo_lost :: "rx_event list" where
  "demo_lost = [Rx_matched, demo_connect 1, demo_heartbeat 1 1, demo_sample 1, demo_heartbeat 3 2, demo_connect 2, demo_sample 1,
     demo_sample 3, demo_gap 2 2] @ replicate 7 Rx_thread @ [demo_heartbeat 3 3]"

text \<open>Reader 2 connects while 2 is known to exist, and receives 1 and 2.\<close>

definition demo_twice :: "rx_event list" where
  "demo_twice = [Rx_matched, demo_connect 1, demo_heartbeat 1 1, demo_sample 1, demo_heartbeat 2 2, demo_connect 2, demo_sample 1,
     demo_sample 2] @ replicate 8 Rx_thread"

lemma demo_ok: "rx_events_ok demo_twice" "rx_events_ok demo_lost"
  by (simp_all add: rx_events_ok_def demo_twice_def demo_lost_def demo_events data_ok_def nn_rdata_new_def)

section \<open>Properties\<close>

text \<open>C4: Whatever data, gaps and heartbeats arrive, readers connect and disconnect and the delivery thread does: the defragmenter
  and all reorder administrations are well formed, the readers are in the order of their GUIDs, the count of those not in sync is
  right, and so the fast path delivers to exactly the readers that are in sync.\<close>

theorem reception_well_formed:
  assumes "rx_events_ok es" "0 < defrag_maxsamples"
    and "reception_run valid es (new_proxy_writer cfg isreliable builtin stateless volatile_secure synchronous defrag_maxsamples dqueue_maxsamples rc) = s"
  shows "dg_ok (pw_defrag (rx_pwr s)) \<and> ro_inv (pw_reorder (rx_pwr s)) \<and> (\<forall>(g, m) \<in> set (rx_readers s). ro_inv (rm_reorder (mr_match m)))
    \<and> sorted_wrt (<) (map fst (rx_readers s))
    \<and> rx_n_readers_out_of_sync s = length (filter (\<lambda>x. sync_state (snd x) \<noteq> PRMSS_SYNC) (rx_readers s))
    \<and> in_sync_readers s = map fst (filter (\<lambda>x. sync_state (snd x) = PRMSS_SYNC) (rx_readers s))"
proof -
  obtain U where inv: "rx_inv U rc s" using reception_run_inv [OF assms(1,2)] assms(3) by metis
  have ok: "readers_ok s" using rx_good_parts(2) [OF inv] .
  have "\<forall>(g, m) \<in> set (rx_readers s). ro_inv (rm_reorder (mr_match m))"
    using rx_good_parts(4) [OF inv] get_reader_iff [OF ok] by (auto simp: ro_good_def)
  then show ?thesis
    using ok rx_good_parts(1,6) [OF inv] in_sync_readers_exact [OF inv]
    by (auto simp: readers_ok_def ro_good_def n_out_of_sync_def idx_wf_def sorted_wrt_map)
qed

lemma reception_well_formed_witness:
  "\<exists>s. reception_run (\<lambda>_. True) demo_twice demo_writer = s \<and> dg_ok (pw_defrag (rx_pwr s)) \<and> sorted_wrt (<) (map fst (rx_readers s))"
  using reception_well_formed [OF demo_ok(1) _ refl, of 16 "\<lambda>_. True" demo_cfg True False False False False 256 "\<lambda>_. 0"]
  by (simp add: demo_writer_def)

text \<open>C2: The account of references balances over the whole of reception: a message is referred to from what the defragmenter
  holds (with the bias), from the reorder administration of the writer and those of its readers, from the delivery queue and from
  what the delivery thread has taken from it, and from nowhere else.\<close>

theorem reception_refcounts_balance:
  assumes "rx_events_ok es" "0 < defrag_maxsamples"
    and "reception_run valid es (new_proxy_writer cfg isreliable builtin stateless volatile_secure synchronous defrag_maxsamples dqueue_maxsamples rc) = s"
  shows "rx_rc s m = rc m + RMSG_REFCOUNT_RDATA_BIAS * dg_refs m (pw_defrag (rx_pwr s)) + chain_refs m (ivs_chain (ro_ivs (pw_reorder (rx_pwr s))))
    + (\<Sum>x\<leftarrow>rx_readers s. chain_refs m (ivs_chain (ro_ivs (rm_reorder (mr_match (snd x))))))
    + (\<Sum>e\<leftarrow>th_sc (rx_thread s) @ dq_sc (pw_dqueue (rx_pwr s)). case e of Sample_elem c \<Rightarrow> frag_refs m (ce_fragchain c) | _ \<Rightarrow> 0)"
proof -
  obtain U where inv: "rx_inv U rc s" using reception_run_inv [OF assms(1,2)] assms(3) by metis
  then have "rx_rc s m = rc m + rx_refs m s" by (simp add: rx_inv_def rx_good_def)
  then show ?thesis
    unfolding rx_refs_def readers_refs_def ro_refs_def pend_refs_def elem_refs_def pend_def by simp
qed

lemma reception_refcounts_balance_witness:
  "\<exists>s. reception_run (\<lambda>_. True) demo_twice demo_writer = s \<and> rx_rc s 2 = 0"
proof -
  let ?s = "reception_run (\<lambda>_. True) demo_twice demo_writer"
  have "dg_sampletree (pw_defrag (rx_pwr ?s)) = [] \<and> ro_ivs (pw_reorder (rx_pwr ?s)) = []
      \<and> map (\<lambda>x. ro_ivs (rm_reorder (mr_match (snd x)))) (rx_readers ?s) = [[], []] \<and> th_sc (rx_thread ?s) @ dq_sc (pw_dqueue (rx_pwr ?s)) = []"
    by (simp add: demo_twice_def run_simps cong: let_weak_cong)
  then show ?thesis
    using reception_refcounts_balance [OF demo_ok(1) _ demo_writer_def [symmetric, THEN arg_cong, of "reception_run (\<lambda>_. True) demo_twice"], of 2]
    by (auto simp: dg_refs_def ivs_chain_def)
qed

text \<open>C1: On every channel the handler is given the samples in strictly increasing order of their sequence numbers, so each at most
  once, and each whole. A channel is one reader that catches up, or all readers in sync unless the writer is best-effort and stateless
  (then its administration delivers everything at once).\<close>

theorem reception_in_order:
  assumes "rx_events_ok es" "0 < defrag_maxsamples"
    and "reception_run valid es (new_proxy_writer cfg isreliable builtin stateless volatile_secure synchronous defrag_maxsamples dqueue_maxsamples rc) = s"
    and "c \<noteq> None \<or> ro_mode (pw_reorder (rx_pwr s)) \<noteq> NN_REORDER_MODE_ALWAYS_DELIVER"
  shows "sorted_wrt (<) (chain_seqs (handed_on c s)) \<and> (\<forall>e \<in> set (handed_on c s). whole_elem e)"
proof -
  obtain U where inv: "rx_good U rc (calls s) (\<lambda>_. 0) s" using reception_run_inv [OF assms(1,2)] assms(3) rx_inv_def by metis
  have "sorted_wrt (<) (chan c (calls s))" using inv assms(4) by (cases c) (auto simp: rx_good_def in_order_def)
  then have "sorted_wrt (<) (chain_seqs (handed_on c s))" using handed_on_calls [of c s] by (auto simp: sorted_wrt_append)
  moreover have "\<forall>y \<in> set (calls s). whole_elem (snd y)" using inv by (simp add: rx_good_def)
  then have "\<forall>d \<in> set (rx_out s). whole_elem (dl_elem d)" by (simp add: calls_def ball_Un)
  then have "\<forall>e \<in> set (handed_on c s). whole_elem e" by (simp add: handed_on_def)
  ultimately show ?thesis by blast
qed

lemma reception_in_order_witness:
  "\<exists>s. reception_run (\<lambda>_. True) demo_twice demo_writer = s \<and> length (handed_on (Some (demo_gid 2)) s) = 2
    \<and> sorted_wrt (<) (chain_seqs (handed_on (Some (demo_gid 2)) s))"
proof -
  have "length (handed_on (Some (demo_gid 2)) (reception_run (\<lambda>_. True) demo_twice demo_writer)) = 2"
    by (simp add: handed_on_def demo_twice_def run_simps cong: let_weak_cong)
  then show ?thesis
    using reception_in_order [OF demo_ok(1) _ refl, of 16 "Some (demo_gid 2)" "\<lambda>_. True" demo_cfg True False False False False 256 "\<lambda>_. 0"]
    by (simp add: demo_writer_def)
qed

text \<open>C3: The unfragmented sample that the administration of the proxy writer expects next is given to the handler, for all readers
  in sync, after finitely many steps of the delivery thread, in every state that a run reaches in which the code does not drop it
  unseen: a heartbeat has been seen, or there are no reliable readers, or the message is not part of an eclipsed one; there is
  a reader; local matching is done; and the writer is not the secure volatile one, which delivers per reader.\<close>

theorem reception_delivers_expected:
  assumes "rx_events_ok es" "0 < defrag_maxsamples"
    and s: "reception_run valid es (new_proxy_writer cfg isreliable builtin stateless volatile_secure synchronous defrag_maxsamples dqueue_maxsamples rc) = s"
    and d: "data_ok rdata si" "\<not> nn_rdata_is_fragment rdata si" "si_seq si = nn_reorder_next_seq (pw_reorder (rx_pwr s))"
    and "pw_have_seen_heartbeat (rx_pwr s) \<or> rx_n_reliable_readers s = 0 \<or> \<not> eclipse" "rx_readers s \<noteq> []"
      "\<not> rx_local_matching_inprogress s" "\<not> rx_filtered s"
  shows "\<exists>n. \<lparr>ce_fragchain = [rdata], ce_sampleinfo = Some si\<rparr>
    \<in> set (handed_on None (reception_run valid (Rx_data eclipse dst si fragnum rdata # replicate n Rx_thread) s))"
proof -
  obtain U where inv: "rx_inv U rc s" using reception_run_inv [OF assms(1,2)] s by metis
  let ?s = "handle_regular valid eclipse dst si fragnum rdata s"
  have c: "(None, \<lparr>ce_fragchain = [rdata], ce_sampleinfo = Some si\<rparr>) \<in> set (calls ?s)"
    using handle_regular_expected [OF inv d assms(7-10)] .
  obtain n where "map (\<lambda>d. (dl_rdguid d, dl_elem d)) (rx_out ((rx_thread_step valid ^^ n) ?s)) = calls ?s"
    using rx_thread_drains [OF handle_regular_inv [OF inv d(1)], of valid] by blast
  then have "(None, \<lparr>ce_fragchain = [rdata], ce_sampleinfo = Some si\<rparr>)
      \<in> (\<lambda>d. (dl_rdguid d, dl_elem d)) ` set (rx_out ((rx_thread_step valid ^^ n) ?s))" using c by (simp flip: set_map)
  then have "\<lparr>ce_fragchain = [rdata], ce_sampleinfo = Some si\<rparr> \<in> set (handed_on None ((rx_thread_step valid ^^ n) ?s))"
    unfolding handed_on_def set_map set_filter by (elim imageE) (simp add: image_iff, metis)
  moreover have "reception_run valid (Rx_data eclipse dst si fragnum rdata # replicate n Rx_thread) s = (rx_thread_step valid ^^ n) ?s"
    using reception_run_thread [of valid n ?s] by (simp add: reception_run_def)
  ultimately show ?thesis by metis
qed

lemma reception_delivers_expected_witness:
  "\<exists>n. \<lparr>ce_fragchain = [demo_frag 3 0 8], ce_sampleinfo = Some (demo_info 3 8)\<rparr>
    \<in> set (handed_on None (reception_run (\<lambda>_. True) (demo_sample 3 # replicate n Rx_thread) (reception_run (\<lambda>_. True) demo_twice demo_writer)))"
proof -
  let ?s = "reception_run (\<lambda>_. True) demo_twice demo_writer"
  have "nn_reorder_next_seq (pw_reorder (rx_pwr ?s)) = 3 \<and> rx_readers ?s \<noteq> [] \<and> \<not> rx_local_matching_inprogress ?s \<and> \<not> rx_filtered ?s"
    by (simp add: demo_twice_def run_simps cong: let_weak_cong)
  then show ?thesis
    unfolding demo_sample_def
    by (intro reception_delivers_expected [OF demo_ok(1) _ demo_writer_def [symmetric, THEN arg_cong, of "reception_run (\<lambda>_. True) demo_twice"]])
      (auto simp: data_ok_def demo_info_def demo_frag_def nn_rdata_new_def nn_rdata_is_fragment_def)
qed

text \<open>A reader that catches up on historical data and has reached the proxy writer (\<open>PRMSS_TLCATCHUP\<close>) is not told about a gap:
  its own administration waits for the missing sample for ever. Here 2 is gone; 3, which waits behind it, goes to the readers in sync
  and so not to reader 2; then a heartbeat makes reader 2 one of those in sync. It has received 1 only, its administration still holds
  3, and it acknowledges everything below 4.\<close>

theorem tlcatchup_reader_loses_samples:
  "\<exists>s m info. reception_run (\<lambda>_. True) demo_lost demo_writer = s \<and> get_reader (demo_gid 2) s = Some m
    \<and> got (demo_gid 1) s = [1, 3] \<and> got (demo_gid 2) s = [1] \<and> pend s = []
    \<and> sync_state m = PRMSS_SYNC \<and> chain_seqs (ivs_chain (ro_ivs (rm_reorder (mr_match m)))) = [3]
    \<and> add_AckNack_makebitmaps demo_acfg (rx_pwr s) (mr_match m) demo_info0 = (False, info) \<and> ai_bitmap_base info = 4"
  by (simp add: got_def demo_lost_def pend_def run_simps cong: let_weak_cong)
    (simp add: add_AckNack_makebitmaps_def add_AckNack_getsource_def nn_reorder_nackmap_def nn_reorder_next_seq_def)

text \<open>A reader that catches up and becomes in sync by a sample receives it twice if the delivery thread is behind: once for all
  readers in sync, to which it belongs by the time the thread comes to it, and once for itself.\<close>

theorem tlcatchup_last_sample_twice:
  "got (demo_gid 2) (reception_run (\<lambda>_. True) demo_twice demo_writer) = [1, 2, 2]"
  by (simp add: got_def demo_twice_def run_simps cong: let_weak_cong)

end
