(* ===== verification/Spec2Isabelle.thy ===== *)
theory Spec2Isabelle
  imports Reorder_Props Reorder_Nack Defrag_Props Defrag_Nack Dqueue Strtol Handles_Props Avl_Props Lease_Props Rbuf_Props Whc_Props Gc_Props
    Acknack_Rate Receive_Props
begin

text \<open>
  A verification library for the core of Eclipse Cyclone DDS, the DDS implementation in
  src/bazel-dds/external/+cyclonedds_repository+cyclonedds (file names below are relative to its
  directory src). Cyclone receives RTPS messages over an unreliable network, reassembles samples
  from fragments, puts them in order and delivers them to the application; around that it needs
  ordered indexes, timers, and handles through which the application names its entities.

  The theories, by component:

  \<^item> \<open>Prelude\<close>: words, first and last element of a list. \<open>Retcode\<close>: the return codes
    (ddsrt/retcode.h) the modelled operations use.
  \<^item> \<open>Rbuf\<close>, \<open>Rbuf_Props\<close>: receive buffers (core/ddsi/src/q_radmin.c, RBUFPOOL, RBUF, RMSG). The heap
    of buffers and messages is a partial map, so that an access to freed memory is \<open>None\<close>.
    \<open>Rbuf_Props\<close> shows memory safety over runs in which all threads take part, that memory handed
    out is fresh, and, as a check of the models against each other, that the reference counts follow the ledger
    of \<open>Rmsg\<close>.
  \<^item> \<open>Rmsg\<close>: messages, submessages and fragment chains as the rest of q_radmin.c uses them; the
    reference counts are a ledger from messages to integers.
  \<^item> \<open>Defrag\<close>, \<open>Defrag_Inv\<close>, \<open>Defrag_Props\<close>, \<open>Defrag_Nack\<close>: the defragmenter (DEFRAG). The interval tree
    of a sample is the list of its intervals in order, the tree of samples the list of samples in
    order. Shown: the invariant, that completed samples are complete, which bytes are known, the
    account of references, and that a NACK asks for exactly the missing fragments.
  \<^item> \<open>Reorder\<close>, \<open>Reorder_Inv\<close>, \<open>Reorder_Props\<close>, \<open>Reorder_Nack\<close>: the reorder administration (REORDER).
    Shown: the invariant over all runs, delivery in order without duplicates, what every outcome
    means for the set of known sequence numbers, the account of references, exact NACKs.
  \<^item> \<open>Bitset\<close>: bit sets on the wire (dds/ddsi/q_bitset.h).
  \<^item> \<open>Dqueue\<close>: the delivery queue and its thread (DQUEUE) as a transition system. Shown: first in,
    first out, and nothing lost when the queue is stopped.
  \<^item> \<open>Ordered_Index\<close>: the locale \<open>ordered_index\<close>, the contract of an index sorted by key, with the
    lemmas its clients use, and the reference implementation on sorted lists, which the models of
    the defragmenter and the reorder administration are built on.
  \<^item> \<open>Avl\<close>, \<open>Avl_Props\<close>: AVL trees (ddsrt/src/avl.c), where a pointer to a node is its place, the turns from
    the root. They interpret that locale; shown as well: the invariant, deletion of any node given by pointer,
    order with duplicate keys, iteration, termination of range walks, the bound of the path arrays.
  \<^item> \<open>Fibheap\<close>, \<open>Fibheap_Props\<close>: Fibonacci heaps (ddsrt/src/fibheap.c) interpret the locale
    \<open>priority_queue\<close>; the degree bound that the array in \<open>ddsrt_fibheap_extract_min\<close> relies on.
  \<^item> \<open>Times\<close>: time stamps, durations and their wire format (ddsrt/time.h, core/ddsi/src/ddsi_time.c).
  \<^item> \<open>Lease\<close>, \<open>Lease_Props\<close>: leases (core/ddsi/src/q_lease.c) over the Fibonacci heap. Shown over all
    interleavings: the heap matches the leases; the check finds what has expired, ends, and asks to
    be called again in time; a renewal protects; a postponed lease is never renewed.
  \<^item> \<open>Handles\<close>, \<open>Handles_Props\<close>: the handle server (core/ddsc/src/dds_handles.c), each handle a 32-bit word of
    flags and counts. Shown: refinement of an abstract state, closing is final, no wakeup is missed.
  \<^item> \<open>Whc\<close>, \<open>Whc_Inv\<close>, \<open>Whc_Ops\<close>, \<open>Whc_Insert\<close>, \<open>Whc_Simple\<close>, \<open>Whc_Props\<close>: the writer history cache
    (core/ddsc/src/dds_whc.c) in all writer modes. The linked list and the hash table of samples are one list
    in order of sequence number, the interval tree the list of its intervals. Shown over all runs: the
    invariant (\<open>Whc_Inv\<close>) that each operation keeps (\<open>Whc_Ops\<close>, \<open>Whc_Insert\<close>), what an acknowledgement
    removes, that the shortcut for simple writers equals the general removal (\<open>Whc_Simple\<close>) and where it does
    not, iteration, and keep-last histories as bounded queues.
  \<^item> \<open>Threads\<close>, \<open>Threads_Props\<close>: the slots of the threads and their virtual time (core/ddsi/src/q_thread.c,
    dds/ddsi/q_thread.h). Shown over all interleavings: a slot belongs to one thread, and as long as a
    thread's epoch (a count of its sleeps that the code does not have) stands still it stays awake.
  \<^item> \<open>Gc\<close>, \<open>Gc_Props\<close>: the garbage collector (core/ddsi/src/q_gc.c), which reads those virtual times while
    they change. Shown: the grace period before every callback, that waiting ends, the order of the
    queue, and that a thread that enters a second domain is forgotten in the first.
  \<^item> \<open>Acknack\<close>, \<open>Acknack_Props\<close>, \<open>Acknack_Rate\<close>: the acknowledgements of readers (core/ddsi/src/ddsi_acknack.c,
    with what heartbeats do to them in q_receive.c and the timed event of q_xevent.c). Shown: what is
    requested, over the exact bitmaps of \<open>Reorder_Nack\<close> and \<open>Defrag_Nack\<close>; how requests are spaced over all
    sequences of events, that they are repeated, and two cases in which the code does not do what it means to.
  \<^item> \<open>Receive\<close>, \<open>Receive_Inv\<close>, \<open>Receive_Step\<close>, \<open>Receive_Run\<close>, \<open>Receive_Props\<close>: what core/ddsi/src/q_receive.c does with the
    data, gaps and heartbeats of a remote writer, over the defragmenter, the administrations of the writer and of its readers and the
    delivery queue, with the matching of readers (core/ddsi/src/ddsi_entity_match.c, ddsi_proxy_endpoint.c). \<open>Receive_Inv\<close> states the
    invariant, among it that what waits for the delivery thread, handled to the end, completes what was handed on already;
    \<open>Receive_Step\<close> and \<open>Receive_Run\<close> show that every operation keeps it. Shown over all runs: order and completeness on every
    channel, the account of references over all these places, well-formedness, delivery of what is expected; two example runs
    show ways in which a reader that catches up on historical data is served wrongly. Handing samples to the readers' caches is
    one step; that a full cache makes the code give up its lock and try again is not modelled.
  \<^item> \<open>Strtol\<close>: parsing and printing of numbers (ddsrt/src/strtol.c).

  How the parts interact: a message is received into a buffer (\<open>Rbuf\<close>); each of its submessages
  becomes an rdata whose references are entered in the ledger (\<open>Rmsg\<close>); the defragmenter holds
  rdatas until a sample is complete and passes the chain on to a reorder administration, which
  holds it until everything before it is there and then hands chains of samples to a delivery
  queue, whose thread releases the references; the message is freed when its count is 0. \<open>Receive\<close> is
  this composition as the code makes it, and its properties rest on those of the parts.

  Conventions. A C pointer to a structure in a tree or list is the position in a list or a name;
  an out parameter is a component of the result; a \<open>NULL\<close> result is \<open>None\<close>. Locks and
  compare-and-swap loops make an operation one step; where an operation gives up its lock or has
  two visible effects (lease expiry, commit of a message, the delivery thread, \<open>dds_handle_unpend\<close>), these are separate
  steps and the properties hold for every interleaving. Machine integers are words where their
  width matters (handles, parsing, bit sets, sizes in \<open>Rbuf\<close> as \<open>mod 2^32\<close>) and \<open>nat\<close> or \<open>int\<close> where
  the code keeps them in range; each theory says which. There is no fuel: loops are structural,
  come with a measure, or are partial functions whose termination is a theorem (AVL range walks,
  the lease check). Memory allocation does not fail: ddsrt_malloc aborts.

  Not modelled. Pure input and output, operating system services, logging and tracing; generated
  code and third-party packages; the entities, readers and writers and the reader history cache of
  core/ddsc, discovery and matching, CDR streams and type information of core/ddsi, the security
  plugins, the XML parser and configuration, the IDL compiler, and the ROS and application code
  around Cyclone. The manifest lists them with the reasons.
\<close>

end
